(* ===== verification/Agnocast_Prelude.thy ===== *)
theory Agnocast_Prelude
  imports Main "HOL-Library.Word"
begin

text \<open>
  Shared vocabulary of the development: error codes, the outcome oracle for kernel
  allocations, the list model of the kernel's hash tables, and the generic list lemmas the
  component theories rely on.

  A kernel hash table is a list in the order \<open>hash_for_each\<close> visits it: buckets in
  ascending order, and within a bucket the most recently added node first, because
  \<open>hash_add\<close> pushes at the head. The bucket function is not code of this repository, so it
  is a parameter of every definition that adds to a table.
\<close>

section \<open>Collections of facts\<close>

named_theorems tbl_simps \<open>rewrite rules of the list model of hash tables\<close>
named_theorems keeps \<open>frame facts: what an operation leaves unchanged\<close>

section \<open>Error codes\<close>

text \<open>A C function that returns a negative errno returns \<open>Inl\<close> of it, and \<open>Inr\<close> of its
  output otherwise.\<close>

datatype errno =
    EINVAL | ENOMEM | ENOBUFS | ENOSPC | ENODATA | ECANCELED | EALREADY | EEXIST
  | ESRCH | EFAULT | ENOENT | EBUSY | EPERM | EBADF

type_synonym 'a res = "errno + 'a"

type_synonym pid = int
type_synonym u64 = "64 word"
type_synonym c_int = "32 word"

section \<open>Allocation outcomes\<close>

text \<open>
  Whether a \<open>kmalloc\<close>, \<open>kstrdup\<close> or \<open>kvmalloc_array\<close> succeeds is decided outside the
  program. An operation therefore takes the outcomes of the allocations to come as a list,
  consumes one per allocation, and returns the rest; once the list is used up allocations
  succeed.
\<close>

type_synonym allocs = "bool list"

fun kmalloc :: "allocs \<Rightarrow> bool \<times> allocs" where
  "kmalloc [] = (True, [])"
| "kmalloc (b # al) = (b, al)"

section \<open>Hash tables as lists in iteration order\<close>

definition hash_add :: "('a \<Rightarrow> nat) \<Rightarrow> 'a \<Rightarrow> 'a list \<Rightarrow> 'a list" where
  "hash_add bkt x xs = takeWhile (\<lambda>y. bkt y < bkt x) xs @ x # dropWhile (\<lambda>y. bkt y < bkt x) xs"

definition find_key :: "('a \<Rightarrow> 'k) \<Rightarrow> 'k \<Rightarrow> 'a list \<Rightarrow> 'a option" where
  "find_key key k xs = find (\<lambda>x. key x = k) xs"

definition del_key :: "('a \<Rightarrow> 'k) \<Rightarrow> 'k \<Rightarrow> 'a list \<Rightarrow> 'a list" where
  "del_key key k xs = filter (\<lambda>x. key x \<noteq> k) xs"

definition upd_key :: "('a \<Rightarrow> 'k) \<Rightarrow> 'k \<Rightarrow> ('a \<Rightarrow> 'a) \<Rightarrow> 'a list \<Rightarrow> 'a list" where
  "upd_key key k f xs = map (\<lambda>x. if key x = k then f x else x) xs"

subsection \<open>Insertion\<close>

lemma set_hash_add [tbl_simps]: "set (hash_add bkt x xs) = insert x (set xs)"
proof -
  have "set xs = set (takeWhile (\<lambda>y. bkt y < bkt x) xs) \<union> set (dropWhile (\<lambda>y. bkt y < bkt x) xs)"
    by (metis set_append takeWhile_dropWhile_id)
  then show ?thesis by (auto simp: hash_add_def)
qed

lemma hash_add_split:
  obtains ys zs where "xs = ys @ zs" "hash_add bkt x xs = ys @ x # zs"
  by (metis hash_add_def takeWhile_dropWhile_id)

lemma length_hash_add [tbl_simps]: "length (hash_add bkt x xs) = Suc (length xs)"
  by (rule hash_add_split [of xs bkt x]) simp

lemma distinct_map_hash_add [tbl_simps]:
  "distinct (map key (hash_add bkt x xs)) \<longleftrightarrow> distinct (map key xs) \<and> key x \<notin> key ` set xs"
  by (rule hash_add_split [of xs bkt x]) auto

lemma filter_hash_add:
  "\<not> P x \<Longrightarrow> filter P (hash_add bkt x xs) = filter P xs"
  by (rule hash_add_split [of xs bkt x]) auto

lemma length_filter_hash_add [tbl_simps]:
  "length (filter P (hash_add bkt x xs)) = (if P x then 1 else 0) + length (filter P xs)"
  by (rule hash_add_split [of xs bkt x]) auto

subsection \<open>Lookup, deletion and update by key\<close>

lemma find_key_Some: "find_key key k xs = Some x \<Longrightarrow> x \<in> set xs \<and> key x = k"
  by (auto simp: find_key_def find_Some_iff in_set_conv_nth)

lemma find_key_None [tbl_simps]: "find_key key k xs = None \<longleftrightarrow> k \<notin> key ` set xs"
  by (auto simp: find_key_def find_None_iff)

lemma find_key_mem:
  "distinct (map key xs) \<Longrightarrow> x \<in> set xs \<Longrightarrow> find_key key (key x) xs = Some x"
  by (induction xs) (auto simp: find_key_def)

lemma find_key_distinct:
  "distinct (map key xs) \<Longrightarrow> find_key key k xs = Some x \<longleftrightarrow> x \<in> set xs \<and> key x = k"
  using find_key_mem [of key xs x] find_key_Some [of key k xs x] by auto

lemma set_del_key [tbl_simps]: "set (del_key key k xs) = {x \<in> set xs. key x \<noteq> k}"
  by (auto simp: del_key_def)

lemma distinct_map_filter_key [intro]:
  "distinct (map key xs) \<Longrightarrow> distinct (map key (filter P xs))"
  by (induction xs) auto

lemma distinct_del_key: "distinct (map key xs) \<Longrightarrow> distinct (map key (del_key key k xs))"
  unfolding del_key_def by auto

lemma find_del_key [tbl_simps]:
  "find_key key k (del_key key l xs) = (if k = l then None else find_key key k xs)"
  by (induction xs) (auto simp: find_key_def del_key_def)

lemma map_upd_key [tbl_simps]:
  "(\<And>x. g (f x) = g x) \<Longrightarrow> map g (upd_key key k f xs) = map g xs"
  by (auto simp: upd_key_def)

lemma image_upd_key [tbl_simps]:
  "(\<And>x. g (f x) = g x) \<Longrightarrow> g ` set (upd_key key k f xs) = g ` set xs"
  by (metis list.set_map map_upd_key)

lemma set_upd_key:
  "set (upd_key key k f xs) = (\<lambda>x. if key x = k then f x else x) ` set xs"
  by (auto simp: upd_key_def)

lemma length_upd_key [tbl_simps]: "length (upd_key key k f xs) = length xs"
  by (simp add: upd_key_def)

lemma find_upd_key [tbl_simps]:
  "(\<And>x. key (f x) = key x) \<Longrightarrow>
   find_key key j (upd_key key k f xs) = map_option (\<lambda>x. if j = k then f x else x) (find_key key j xs)"
  by (induction xs) (auto simp: find_key_def upd_key_def)

lemma upd_key_absent: "k \<notin> key ` set xs \<Longrightarrow> upd_key key k f xs = xs"
  by (induction xs) (auto simp: upd_key_def)

subsection \<open>The table contract\<close>

text \<open>
  What the components rely on when they keep nodes in a kernel hash table: lookup returns the
  one node with that key, insertion of a fresh key adds exactly that binding, and deletion
  removes exactly that binding. Every table of the kernel module is an instance.
\<close>

locale hash_table =
  fixes tinv :: "'t \<Rightarrow> bool"
    and look :: "'t \<Rightarrow> 'k \<Rightarrow> 'a option"
    and add :: "'a \<Rightarrow> 't \<Rightarrow> 't"
    and del :: "'k \<Rightarrow> 't \<Rightarrow> 't"
    and keyof :: "'a \<Rightarrow> 'k"
  assumes look_add: "tinv t \<Longrightarrow> look t (keyof a) = None \<Longrightarrow> look (add a t) = (look t)(keyof a \<mapsto> a)"
    and look_del: "tinv t \<Longrightarrow> look (del k t) = (look t)(k := None)"
    and inv_add: "tinv t \<Longrightarrow> look t (keyof a) = None \<Longrightarrow> tinv (add a t)"
    and inv_del: "tinv t \<Longrightarrow> tinv (del k t)"
    and look_key: "tinv t \<Longrightarrow> look t k = Some a \<Longrightarrow> keyof a = k"
begin

lemma add_then_del: "tinv t \<Longrightarrow> look t (keyof a) = None \<Longrightarrow> look (del (keyof a) (add a t)) = look t"
  by (auto simp: look_add look_del inv_add fun_eq_iff)

lemma add_commute:
  assumes "tinv t" "look t (keyof a) = None" "look t (keyof b) = None" "keyof a \<noteq> keyof b"
  shows "look (add a (add b t)) = look (add b (add a t))"
  using assms by (auto simp: look_add inv_add fun_eq_iff)

lemma dom_del: "tinv t \<Longrightarrow> dom (look (del k t)) = dom (look t) - {k}"
  by (auto simp: look_del)

end

lemma find_hash_add:
  assumes "find_key key (key a) xs = None"
  shows "find_key key k (hash_add bkt a xs) = (if k = key a then Some a else find_key key k xs)"
proof -
  obtain ys zs where xs: "xs = ys @ zs" and h: "hash_add bkt a xs = ys @ a # zs"
    by (rule hash_add_split)
  have "find_key key k (ys @ a # zs) = (if k = key a then Some a else find_key key k (ys @ zs))"
    using assms unfolding xs by (induction ys) (auto simp: find_key_def)
  then show ?thesis using h xs by simp
qed

lemma hash_table_list:
  "hash_table (\<lambda>xs. distinct (map key xs)) (\<lambda>xs k. find_key key k xs) (hash_add bkt) (del_key key) key"
proof
  fix t :: "'a list" and a :: 'a
  assume "find_key key (key a) t = None"
  then show "(\<lambda>k. find_key key k (hash_add bkt a t)) = (\<lambda>k. find_key key k t)(key a \<mapsto> a)"
    by (auto simp: find_hash_add fun_eq_iff)
qed (auto simp: tbl_simps distinct_del_key dest: find_key_Some)

section \<open>Lists\<close>

lemma length_filter_upd_key:
  "(\<And>x. P (f x) = P x) \<Longrightarrow> length (filter P (upd_key key k f xs)) = length (filter P xs)"
  by (induction xs) (auto simp: upd_key_def)

end
