(* ===== verification/Kmod_Memory.thy ===== *)
theory Kmod_Memory
  imports Agnocast_Prelude
begin

text \<open>
  The memory allocator of the kernel module (\<open>src/agnocast_kmod/agnocast_memory_allocator.c\<close>):
  a fixed array of equally sized pools of the shared virtual address range, each with the list
  of processes that map it. A pool goes to a starting process when nobody maps it
  (\<open>assign_memory\<close>); a subscriber's process is added to a publisher's pool
  (\<open>reference_memory\<close>) and leaves every pool when it exits (\<open>free_memory\<close>).
  The lemmas show that initialisation cuts the address range into disjoint pools without
  wrap-around, that the mapping counter equals the length of the mapping list, and that a
  mapped pool is never handed to another process. \<open>mempool\<close> is the contract the process
  table relies on.
\<close>

section \<open>Data\<close>

text \<open>\<open>struct mempool_entry\<close>; \<open>mapped_pid_head\<close> is the list of \<open>mapped_pid_entry\<close> pids,
  newest first (\<open>list_add\<close> pushes at the head).\<close>

record mempool_entry =
  mp_addr :: u64
  mapped_num :: nat
  mapped_pid_head :: "pid list"

type_synonym pools = "mempool_entry list"

definition DEFAULT_MEMPOOL_NUM :: c_int where "DEFAULT_MEMPOOL_NUM = 4096"
definition DEFAULT_MEMPOOL_START_ADDR :: u64 where "DEFAULT_MEMPOOL_START_ADDR = 0x40000000000"
definition DEFAULT_MEMPOOL_SIZE_GB :: c_int where "DEFAULT_MEMPOOL_SIZE_GB = 16"

section \<open>Operations\<close>

text \<open>\<open>check_mul_overflow\<close> and \<open>check_add_overflow\<close> on \<open>uint64_t\<close>: \<open>None\<close> when the exact
  result does not fit.\<close>

definition check_mul :: "u64 \<Rightarrow> u64 \<Rightarrow> u64 option" where
  "check_mul a b = (if unat a * unat b < 2 ^ 64 then Some (a * b) else None)"

definition check_add :: "u64 \<Rightarrow> u64 \<Rightarrow> u64 option" where
  "check_add a b = (if unat a + unat b < 2 ^ 64 then Some (a + b) else None)"

text \<open>The loop that fills the array, \<open>n\<close> iterations still to run at address \<open>addr\<close>.\<close>

fun init_pools :: "nat \<Rightarrow> u64 \<Rightarrow> u64 \<Rightarrow> pools" where
  "init_pools 0 addr sz = []"
| "init_pools (Suc n) addr sz =
     \<lparr>mp_addr = addr, mapped_num = 0, mapped_pid_head = []\<rparr> # init_pools n (addr + sz) sz"

text \<open>\<open>init_memory_allocator\<close> on the module parameters \<open>mempool_num\<close>, \<open>mempool_start_addr\<close> and
  \<open>mempool_size_gb\<close> (both \<open>int\<close> parameters are signed); the result is
  \<open>mempool_size_bytes\<close> and the array. The branches that only log are left out.\<close>

definition init_memory_allocator :: "c_int \<Rightarrow> u64 \<Rightarrow> c_int \<Rightarrow> allocs \<Rightarrow> (u64 \<times> pools) res" where
  "init_memory_allocator num start gb al =
     (if sint num \<le> 0 then Inl EINVAL
      else if sint gb \<le> 0 then Inl EINVAL
      else
        let sz = word_of_int (sint gb) * 1024 * 1024 * 1024 in
        case check_mul (word_of_int (sint num)) sz of
          None \<Rightarrow> Inl EINVAL
        | Some tot \<Rightarrow>
            (case check_add start tot of
               None \<Rightarrow> Inl EINVAL
             | Some end_addr \<Rightarrow>
                 if fst (kmalloc al) then Inr (sz, init_pools (nat (sint num)) start sz)
                 else Inl ENOMEM))"

text \<open>The first pool nobody maps, as the loop of \<open>assign_memory\<close> finds it.\<close>

fun first_unmapped :: "pools \<Rightarrow> nat option" where
  "first_unmapped [] = None"
| "first_unmapped (e # es) =
     (if mapped_num e = 0 then Some 0 else map_option Suc (first_unmapped es))"

text \<open>\<open>assign_memory\<close>: the index of the pool (the pointer the C function returns), \<open>None\<close>
  for \<open>NULL\<close>. The list node is allocated first, so an allocation failure is also \<open>NULL\<close>.\<close>

definition assign_memory :: "pid \<Rightarrow> allocs \<Rightarrow> pools \<Rightarrow> nat option \<times> allocs \<times> pools" where
  "assign_memory p al ps =
     (case kmalloc al of (ok, al') \<Rightarrow>
        if \<not> ok then (None, al', ps)
        else case first_unmapped ps of
          None \<Rightarrow> (None, al', ps)
        | Some i \<Rightarrow>
            (Some i, al',
             ps[i := (ps ! i)\<lparr>mapped_pid_head := p # mapped_pid_head (ps ! i), mapped_num := 1\<rparr>]))"

definition reference_memory :: "nat \<Rightarrow> pid \<Rightarrow> allocs \<Rightarrow> pools \<Rightarrow> unit res \<times> allocs \<times> pools" where
  "reference_memory i p al ps =
     (case kmalloc al of (ok, al') \<Rightarrow>
        if \<not> ok then (Inl ENOMEM, al', ps)
        else if p \<in> set (mapped_pid_head (ps ! i)) then (Inl EEXIST, al', ps)
        else
          (Inr (), al',
           ps[i := (ps ! i)\<lparr>mapped_pid_head := p # mapped_pid_head (ps ! i),
                           mapped_num := mapped_num (ps ! i) + 1\<rparr>]))"

text \<open>\<open>free_memory\<close>: in every pool the first node of the process is unlinked and the counter
  decremented; the inner loop stops there.\<close>

definition unmap_pid :: "pid \<Rightarrow> mempool_entry \<Rightarrow> mempool_entry" where
  "unmap_pid p e =
     (if p \<in> set (mapped_pid_head e)
      then e\<lparr>mapped_pid_head := remove1 p (mapped_pid_head e), mapped_num := mapped_num e - 1\<rparr>
      else e)"

definition free_memory :: "pid \<Rightarrow> pools \<Rightarrow> pools" where
  "free_memory p ps = map (unmap_pid p) ps"

definition exit_memory_allocator :: "pools \<Rightarrow> pools" where
  "exit_memory_allocator ps = map (\<lambda>e. e\<lparr>mapped_pid_head := [], mapped_num := 0\<rparr>) ps"

section \<open>Initialisation cuts the range into disjoint pools\<close>

lemma length_init_pools [simp]: "length (init_pools n a s) = n"
  by (induction n arbitrary: a) auto

lemma nth_init_pools:
  "i < n \<Longrightarrow> init_pools n a s ! i =
     \<lparr>mp_addr = a + of_nat i * s, mapped_num = 0, mapped_pid_head = []\<rparr>"
proof (induction n arbitrary: a i)
  case 0
  then show ?case by simp
next
  case (Suc n)
  then show ?case by (cases i) (auto simp: algebra_simps)
qed

lemma unat_pool_addr:
  fixes a s :: u64
  assumes "unat a + n * unat s < 2 ^ 64" and "i \<le> n"
  shows "unat (a + of_nat i * s) = unat a + i * unat s"
proof -
  have le: "unat a + i * unat s < 2 ^ 64"
    using assms by (meson add_left_mono le_less_trans mult_le_mono1)
  have "unat (a + of_nat i * s) = (unat a + i * unat s) mod 2 ^ 64"
    by (simp add: unat_word_ariths unat_of_nat mod_simps)
  then show ?thesis using le by simp
qed

lemma unat_word_of_int_u64: "0 \<le> x \<Longrightarrow> x < 2 ^ 64 \<Longrightarrow> unat (word_of_int x :: u64) = nat x"
  by (simp add: unsigned_of_int take_bit_int_eq_self)

lemma init_memory_allocator_pools:
  assumes "init_memory_allocator num start gb al = Inr (sz, ps)"
  shows "ps = init_pools (length ps) start sz"
    and "unat start + length ps * unat sz < 2 ^ 64" and "0 < length ps"
proof -
  obtain tot where
    pos: "0 < sint num" and mul: "check_mul (word_of_int (sint num)) sz = Some tot"
    and add: "check_add start tot \<noteq> None" and ps: "ps = init_pools (nat (sint num)) start sz"
    using assms by (auto simp: init_memory_allocator_def Let_def split: if_splits option.splits)
  have small: "sint num < 2 ^ 31" using sint_less [of num] by simp
  then have n: "unat (word_of_int (sint num) :: u64) = nat (sint num)"
    using pos by (intro unat_word_of_int_u64) auto
  have total: "unat tot = nat (sint num) * unat sz"
    using mul n by (auto simp: check_mul_def unat_word_ariths split: if_splits)
  have "unat start + unat tot < 2 ^ 64"
    using add by (auto simp: check_add_def split: if_splits)
  then show "unat start + length ps * unat sz < 2 ^ 64" using total ps by simp
  show "ps = init_pools (length ps) start sz" "0 < length ps" using ps pos by auto
qed

lemma pool_address:
  assumes "init_memory_allocator num start gb al = Inr (sz, ps)" and "i < length ps"
  shows "unat (mp_addr (ps ! i)) = unat start + i * unat sz"
proof -
  note I = init_memory_allocator_pools [OF assms(1)]
  show ?thesis using assms(2) unat_pool_addr [OF I(2), of i] by (subst I(1)) (simp add: nth_init_pools)
qed

section \<open>The mapping lists\<close>

definition entry_ok :: "mempool_entry \<Rightarrow> bool" where
  "entry_ok e \<longleftrightarrow> mapped_num e = length (mapped_pid_head e) \<and> distinct (mapped_pid_head e)"

definition pools_ok :: "pools \<Rightarrow> bool" where
  "pools_ok ps \<longleftrightarrow> list_all entry_ok ps"

text \<open>The processes that map pool \<open>i\<close>; out of range there is none.\<close>

definition mappers :: "pools \<Rightarrow> nat \<Rightarrow> pid set" where
  "mappers ps i = (if i < length ps then set (mapped_pid_head (ps ! i)) else {})"

lemma first_unmapped_Some:
  "first_unmapped ps = Some i \<Longrightarrow>
     i < length ps \<and> mapped_num (ps ! i) = 0 \<and> (\<forall>j<i. mapped_num (ps ! j) \<noteq> 0)"
proof (induction ps arbitrary: i)
  case (Cons e es)
  then show ?case
    by (cases "mapped_num e = 0") (auto simp: less_Suc_eq_0_disj)
qed simp

lemma first_unmapped_None: "first_unmapped ps = None \<longleftrightarrow> (\<forall>e\<in>set ps. mapped_num e \<noteq> 0)"
  by (induction ps) auto

lemma pools_ok_nth: "pools_ok ps \<Longrightarrow> i < length ps \<Longrightarrow> entry_ok (ps ! i)"
  by (simp add: pools_ok_def list_all_length)

lemma pools_ok_update: "pools_ok ps \<Longrightarrow> entry_ok e \<Longrightarrow> pools_ok (ps[i := e])"
  by (cases "i < length ps") (auto simp: pools_ok_def list_all_length nth_list_update)

lemma mappers_update:
  "i < length ps \<Longrightarrow> mappers (ps[i := e]) j = (if j = i then set (mapped_pid_head e) else mappers ps j)"
  by (auto simp: mappers_def)

lemma assign_memory_Some:
  assumes "pools_ok ps" and "assign_memory p al ps = (Some i, al', ps')"
  shows "i < length ps" and "mappers ps i = {}" and "mappers ps' = (mappers ps)(i := {p})"
    and "pools_ok ps'" and "length ps' = length ps" and "map mp_addr ps' = map mp_addr ps"
proof -
  let ?e = "(ps ! i)\<lparr>mapped_pid_head := p # mapped_pid_head (ps ! i), mapped_num := 1\<rparr>"
  have f: "first_unmapped ps = Some i" and ps': "ps' = ps[i := ?e]"
    using assms(2) by (auto simp: assign_memory_def split: prod.splits if_splits option.splits)
  from first_unmapped_Some [OF f] have i: "i < length ps" and z: "mapped_num (ps ! i) = 0"
    by auto
  have "entry_ok (ps ! i)" using assms(1) i by (rule pools_ok_nth)
  then have empty: "mapped_pid_head (ps ! i) = []" using z by (simp add: entry_ok_def)
  then have "entry_ok ?e" by (simp add: entry_ok_def)
  then show "pools_ok ps'" unfolding ps' using assms(1) by (intro pools_ok_update)
  show "i < length ps" "mappers ps i = {}" using i empty by (auto simp: mappers_def)
  show "mappers ps' = (mappers ps)(i := {p})"
    using i empty by (auto simp: ps' mappers_update fun_eq_iff)
  show "length ps' = length ps" "map mp_addr ps' = map mp_addr ps"
    using i by (auto simp: ps' map_update list_update_same_conv)
qed

lemma assign_memory_None: "assign_memory p al ps = (None, al', ps') \<Longrightarrow> ps' = ps"
  by (auto simp: assign_memory_def split: prod.splits if_splits option.splits)

lemma reference_memory_cases:
  "reference_memory i p al ps = (r, al', ps') \<Longrightarrow>
     (r \<noteq> Inr () \<and> ps' = ps) \<or>
     (r = Inr () \<and> p \<notin> set (mapped_pid_head (ps ! i)) \<and>
      ps' = ps[i := (ps ! i)\<lparr>mapped_pid_head := p # mapped_pid_head (ps ! i),
                             mapped_num := mapped_num (ps ! i) + 1\<rparr>])"
  by (cases "kmalloc al") (clarsimp simp: reference_memory_def split: if_splits)

lemma reference_memory_ok:
  assumes "pools_ok ps" and "i < length ps" and "reference_memory i p al ps = (r, al', ps')"
  shows "pools_ok ps'" and "length ps' = length ps" and "map mp_addr ps' = map mp_addr ps"
    and "mappers ps' = (if r = Inr () then (mappers ps)(i := insert p (mappers ps i)) else mappers ps)"
proof -
  let ?e = "(ps ! i)\<lparr>mapped_pid_head := p # mapped_pid_head (ps ! i),
                     mapped_num := mapped_num (ps ! i) + 1\<rparr>"
  consider (err) "r \<noteq> Inr ()" "ps' = ps"
    | (new) "r = Inr ()" "p \<notin> set (mapped_pid_head (ps ! i))" "ps' = ps[i := ?e]"
    using reference_memory_cases [OF assms(3)] by blast
  note c = this
  have "entry_ok (ps ! i)" using assms(1,2) by (rule pools_ok_nth)
  then have e: "entry_ok ?e" if "p \<notin> set (mapped_pid_head (ps ! i))"
    using that by (simp add: entry_ok_def)
  show "pools_ok ps'" using c assms(1) e by cases (auto intro: pools_ok_update)
  show "length ps' = length ps" using c by cases auto
  show "map mp_addr ps' = map mp_addr ps"
    using c assms(2) by cases (auto simp: map_update list_update_same_conv)
  show "mappers ps' = (if r = Inr () then (mappers ps)(i := insert p (mappers ps i)) else mappers ps)"
    using c assms(2) by cases (auto simp: mappers_update mappers_def fun_eq_iff)
qed

lemma entry_ok_unmap: "entry_ok e \<Longrightarrow> entry_ok (unmap_pid p e)"
  by (auto simp: entry_ok_def unmap_pid_def length_remove1)

lemma free_memory_ok:
  assumes "pools_ok ps"
  shows "pools_ok (free_memory p ps)" and "length (free_memory p ps) = length ps"
    and "map mp_addr (free_memory p ps) = map mp_addr ps"
    and "mappers (free_memory p ps) i = mappers ps i - {p}"
proof -
  show "pools_ok (free_memory p ps)" "length (free_memory p ps) = length ps"
    using assms by (auto simp: free_memory_def pools_ok_def list_all_iff entry_ok_unmap)
  show "map mp_addr (free_memory p ps) = map mp_addr ps"
    by (auto simp: free_memory_def unmap_pid_def)
  show "mappers (free_memory p ps) i = mappers ps i - {p}"
  proof (cases "i < length ps")
    case True
    then have "distinct (mapped_pid_head (ps ! i))"
      using pools_ok_nth [OF assms] by (simp add: entry_ok_def)
    then show ?thesis using True by (auto simp: mappers_def free_memory_def unmap_pid_def)
  next
    case False
    then show ?thesis by (simp add: mappers_def free_memory_def)
  qed
qed

section \<open>The contract the process table relies on\<close>

locale mempool =
  fixes wf :: "'p \<Rightarrow> bool"
    and assign :: "pid \<Rightarrow> allocs \<Rightarrow> 'p \<Rightarrow> nat option \<times> allocs \<times> 'p"
    and reference :: "nat \<Rightarrow> pid \<Rightarrow> allocs \<Rightarrow> 'p \<Rightarrow> unit res \<times> allocs \<times> 'p"
    and free :: "pid \<Rightarrow> 'p \<Rightarrow> 'p"
    and maps :: "'p \<Rightarrow> nat \<Rightarrow> pid set"
    and npools :: "'p \<Rightarrow> nat"
  assumes assign_new: "wf ps \<Longrightarrow> assign p al ps = (Some i, al', ps') \<Longrightarrow>
        i < npools ps \<and> maps ps i = {} \<and> maps ps' = (maps ps)(i := {p}) \<and> wf ps' \<and> npools ps' = npools ps"
    and assign_full: "wf ps \<Longrightarrow> assign p al ps = (None, al', ps') \<Longrightarrow> ps' = ps"
    and reference_grows: "wf ps \<Longrightarrow> i < npools ps \<Longrightarrow> reference i p al ps = (r, al', ps') \<Longrightarrow>
        wf ps' \<and> npools ps' = npools ps \<and>
        maps ps' = (if r = Inr () then (maps ps)(i := insert p (maps ps i)) else maps ps)"
    and free_drops: "wf ps \<Longrightarrow> wf (free p ps) \<and> npools (free p ps) = npools ps \<and>
        maps (free p ps) i = maps ps i - {p}"
begin

lemma mapped_not_assigned:
  assumes "wf ps" and "q \<in> maps ps i" and "assign p al ps = (Some j, al', ps')"
  shows "j \<noteq> i" and "q \<in> maps ps' i"
  using assign_new [OF assms(1,3)] assms(2) by auto

lemma assign_keeps: "wf ps \<Longrightarrow> q \<in> maps ps i \<Longrightarrow> assign p al ps = (r, al', ps') \<Longrightarrow> q \<in> maps ps' i"
  by (cases r) (auto dest: assign_full mapped_not_assigned(2))

lemma assign_wf: "wf ps \<Longrightarrow> assign p al ps = (r, al', ps') \<Longrightarrow> wf ps' \<and> npools ps' = npools ps"
  by (cases r) (auto dest: assign_full assign_new)

lemma reference_keeps:
  "wf ps \<Longrightarrow> i < npools ps \<Longrightarrow> q \<in> maps ps j \<Longrightarrow> reference i p al ps = (r, al', ps') \<Longrightarrow> q \<in> maps ps' j"
  by (drule reference_grows) auto

lemma free_keeps: "wf ps \<Longrightarrow> q \<in> maps ps i \<Longrightarrow> p \<noteq> q \<Longrightarrow> q \<in> maps (free p ps) i"
  using free_drops by auto

end

interpretation mp: mempool pools_ok assign_memory reference_memory free_memory mappers length
proof
  show "i < length ps \<and> mappers ps i = {} \<and> mappers ps' = (mappers ps)(i := {p}) \<and>
      pools_ok ps' \<and> length ps' = length ps"
    if "pools_ok ps" "assign_memory p al ps = (Some i, al', ps')" for ps p al i al' ps'
    using assign_memory_Some [OF that] by auto
  show "pools_ok ps' \<and> length ps' = length ps \<and>
      mappers ps' = (if r = Inr () then (mappers ps)(i := insert p (mappers ps i)) else mappers ps)"
    if "pools_ok ps" "i < length ps" "reference_memory i p al ps = (r, al', ps')" for ps i p al r al' ps'
    using reference_memory_ok [OF that] by auto
qed (auto simp: free_memory_ok dest: assign_memory_None)

text \<open>A sequence of allocator calls. A pool index a caller passes to \<open>reference_memory\<close> comes from
  a registered process, so it is in range.\<close>

datatype mem_op = MAssign pid allocs | MReference nat pid allocs | MFree pid

fun mem_step :: "mem_op \<Rightarrow> pools \<Rightarrow> pools" where
  "mem_step (MAssign p al) ps = snd (snd (assign_memory p al ps))"
| "mem_step (MReference i p al) ps =
     (if i < length ps then snd (snd (reference_memory i p al ps)) else ps)"
| "mem_step (MFree p) ps = free_memory p ps"

fun frees :: "pid \<Rightarrow> mem_op \<Rightarrow> bool" where
  "frees q (MFree p) = (p = q)"
| "frees q _ = False"

lemma mem_step_ok: "pools_ok ps \<Longrightarrow> pools_ok (mem_step a ps)"
proof (cases a)
  case (MAssign p al)
  then show "pools_ok ps \<Longrightarrow> ?thesis"
    using mp.assign_wf [of ps p al] by (metis mem_step.simps(1) surjective_pairing)
next
  case (MReference j p al)
  then show "pools_ok ps \<Longrightarrow> ?thesis"
    using mp.reference_grows [of ps j p al] by (metis mem_step.simps(2) surjective_pairing)
qed (simp add: free_memory_ok)

lemma mem_step_keeps:
  assumes "pools_ok ps" and "q \<in> mappers ps i" and "\<not> frees q a"
  shows "q \<in> mappers (mem_step a ps) i"
proof (cases a)
  case (MAssign p al)
  then show ?thesis
    using mp.assign_keeps [OF assms(1,2)] by (metis mem_step.simps(1) surjective_pairing)
next
  case (MReference j p al)
  then show ?thesis
    using mp.reference_keeps [OF assms(1) _ assms(2)] assms(2)
    by (metis mem_step.simps(2) surjective_pairing)
next
  case (MFree p)
  then show ?thesis using mp.free_keeps [OF assms(1,2)] assms(3) by auto
qed

lemma mem_run_ok: "pools_ok ps \<Longrightarrow> pools_ok (fold mem_step ops ps)"
  by (induction ops arbitrary: ps) (auto simp: mem_step_ok)

lemma mem_run_keeps:
  "pools_ok ps \<Longrightarrow> q \<in> mappers ps i \<Longrightarrow> \<forall>a\<in>set ops. \<not> frees q a \<Longrightarrow>
     q \<in> mappers (fold mem_step ops ps) i"
  by (induction ops arbitrary: ps) (auto simp: mem_step_ok mem_step_keeps)

section \<open>Properties\<close>

text \<open>Claim C9. When the allocator initialises, the pools are consecutive ranges of
  \<open>mempool_size_bytes\<close> bytes that do not overlap and do not wrap around the 64-bit address
  space, whatever the module parameters are.\<close>

theorem pools_disjoint:
  assumes "init_memory_allocator num start gb al = Inr (sz, ps)" and "i < j" and "j < length ps"
  shows "unat (mp_addr (ps ! i)) + unat sz \<le> unat (mp_addr (ps ! j)) \<and>
         unat (mp_addr (ps ! j)) + unat sz < 2 ^ 64"
proof -
  have "Suc i * unat sz \<le> j * unat sz" using assms(2) by (intro mult_le_mono1) simp
  moreover have "Suc j * unat sz \<le> length ps * unat sz" using assms(3) by (intro mult_le_mono1) simp
  ultimately show ?thesis
    using pool_address [OF assms(1), of i] pool_address [OF assms(1), of j] assms(2,3)
      init_memory_allocator_pools(2) [OF assms(1)] by simp
qed

theorem pools_disjoint_witness:
  "\<exists>ps. init_memory_allocator 2 0x40000000000 1 [] = Inr (0x40000000, ps) \<and>
     unat (mp_addr (ps ! 0)) + unat (0x40000000 :: u64) \<le> unat (mp_addr (ps ! 1))"
proof -
  let ?ps = "init_pools 2 0x40000000000 0x40000000"
  have h: "init_memory_allocator 2 0x40000000000 1 [] = Inr (0x40000000, ?ps)"
    by (simp add: init_memory_allocator_def check_mul_def check_add_def)
  show ?thesis using pools_disjoint [OF h, of 0 1] h by auto
qed

text \<open>Claim C10. A pool that a process maps stays mapped by it through every sequence of
  allocator calls that does not free that process, and no call of the sequence can assign it
  to a starting process: shared memory is never handed out while somebody still maps it.\<close>

theorem mapped_pool_never_reassigned:
  assumes "pools_ok ps" and "q \<in> mappers ps i" and "\<forall>a\<in>set ops. \<not> frees q a"
    and "assign_memory p al (fold mem_step ops ps) = (Some j, al', ps')"
  shows "j \<noteq> i \<and> q \<in> mappers ps' i"
  using mp.mapped_not_assigned [OF mem_run_ok [OF assms(1)] mem_run_keeps [OF assms(1-3)] assms(4)]
  by blast

definition two_pools :: pools where
  "two_pools = [\<lparr>mp_addr = 0, mapped_num = 1, mapped_pid_head = [7]\<rparr>,
               \<lparr>mp_addr = 16, mapped_num = 0, mapped_pid_head = []\<rparr>]"

theorem mapped_pool_never_reassigned_witness:
  "fst (assign_memory 9 [] (fold mem_step [MReference 0 8 [], MFree 8] two_pools)) = Some 1 \<and>
   7 \<in> mappers (snd (snd (assign_memory 9 [] (fold mem_step [MReference 0 8 [], MFree 8] two_pools)))) 0"
proof -
  let ?ops = "[MReference 0 8 [], MFree 8]"
  let ?r = "assign_memory 9 [] (fold mem_step ?ops two_pools)"
  have e: "fst ?r = Some 1"
    by (simp add: two_pools_def assign_memory_def reference_memory_def free_memory_def unmap_pid_def)
  then have r: "?r = (Some 1, fst (snd ?r), snd (snd ?r))" by (metis prod.collapse)
  have "pools_ok two_pools" "7 \<in> mappers two_pools 0" "\<forall>a\<in>set ?ops. \<not> frees 7 a"
    by (auto simp: two_pools_def pools_ok_def entry_ok_def mappers_def)
  from mapped_pool_never_reassigned [OF this r] e show ?thesis by simp
qed

end
