(* ===== verification/Kmod_Topic.thy ===== *)
theory Kmod_Topic
  imports Kmod_Memory
begin

text \<open>
  One topic of the kernel module: the structures of \<open>src/agnocast_kmod/agnocast_internal.h\<close> and
  the functions of \<open>agnocast_ioctl.c\<close> and \<open>agnocast_internal.c\<close> that work on a single
  \<open>topic_struct\<close>: registering endpoints, the publishers' notify lists, inserting and
  reclaiming message entries, receiving, taking and releasing them, and the loops that drop a
  leaving endpoint.

  The red-black tree of entries is the list of its nodes in key order, so \<open>rb_first\<close>,
  \<open>rb_next\<close>, \<open>rb_last\<close> and \<open>rb_prev\<close> are positions in that list. A reference bitmap is the set
  of its set bits. A pointer to a \<open>publisher_info\<close> is the publisher's id, which is unique in
  its table. Definitions that read \<open>topic->rule\<close> take the rule it points to (\<open>r\<close>). Log
  output is not modelled.
\<close>

section \<open>Constants and data\<close>

definition MAX_PUBLISHER_NUM :: nat where "MAX_PUBLISHER_NUM = 1024"
definition MAX_TOPIC_LOCAL_ID :: int where "MAX_TOPIC_LOCAL_ID = 4096"
definition MAX_SUBSCRIBER_NUM :: nat where
  "MAX_SUBSCRIBER_NUM = nat MAX_TOPIC_LOCAL_ID - MAX_PUBLISHER_NUM"
definition MAX_RECEIVE_NUM :: nat where "MAX_RECEIVE_NUM = 10"
definition MAX_RELEASE_NUM :: nat where "MAX_RELEASE_NUM = 3"
definition NOTIFY_CTXS_MIN_CAPACITY :: nat where "NOTIFY_CTXS_MIN_CAPACITY = 8"

lemmas kmod_consts = MAX_PUBLISHER_NUM_def MAX_TOPIC_LOCAL_ID_def MAX_SUBSCRIBER_NUM_def
  MAX_RECEIVE_NUM_def MAX_RELEASE_NUM_def NOTIFY_CTXS_MIN_CAPACITY_def

text \<open>An \<open>eventfd_ctx\<close> pointer, an IPC namespace pointer, a \<open>ROS_DOMAIN_ID\<close>.\<close>

type_synonym ctx = nat
type_synonym ipc_ns = nat
type_synonym domain = nat

text \<open>\<open>notify_ctxs\<close> holds the first \<open>notify_num\<close> slots of the array, so \<open>notify_num\<close> is its
  length; \<open>notify_capacity\<close> is the number of slots allocated.\<close>

record publisher_info =
  pub_id :: int
  pub_domain_id :: domain
  pub_pid :: pid
  pub_node_name :: string
  pub_qos_depth :: nat
  pub_qos_is_transient_local :: bool
  entries_num :: nat
  pub_is_bridge :: bool
  notify_ctxs :: "ctx list"
  notify_capacity :: nat

record subscriber_info =
  sub_id :: int
  sub_domain_id :: domain
  sub_pid :: pid
  sub_qos_depth :: nat
  sub_qos_is_transient_local :: bool
  sub_qos_is_reliable :: bool
  latest_received_entry_id :: int
  sub_node_name :: string
  is_take_sub :: bool
  ignore_local_publications :: bool
  need_mmap_update :: bool
  sub_is_bridge :: bool
  notify_ctx :: "ctx option"

record entry_node =
  entry_id :: int
  en_publisher_id :: int
  msg_virtual_address :: u64
  referencing_subscribers :: "int set"

datatype process_role =
    PROCESS_ROLE_APPLICATION | PROCESS_ROLE_BRIDGE_MANAGER | PROCESS_ROLE_UNLINK_DAEMON

text \<open>\<open>mempool_index\<close> is the \<open>mempool_entry\<close> pointer, as an index into the pool array.\<close>

record process_info =
  exited :: bool
  role :: process_role
  global_pid :: pid
  local_pid :: pid
  mempool_index :: nat
  proc_ipc_ns :: ipc_ns
  proc_domain_id :: domain

text \<open>\<open>rule_ptr\<close> is the address of the rule: the code compares rules by pointer.\<close>

record domain_bridge_rule =
  rule_ptr :: nat
  topic_name_a :: string
  topic_name_b :: string
  rule_ipc_ns :: ipc_ns
  domain_a :: domain
  domain_b :: domain
  a_to_b :: bool
  b_to_a :: bool
  is_prefix :: bool

record topic_struct =
  entries :: "entry_node list"
  pub_info_htable :: "publisher_info list"
  sub_info_htable :: "subscriber_info list"
  current_pubsub_id :: int
  current_entry_id :: int
  ros2_subscriber_num :: nat
  ros2_publisher_num :: nat
  wrapper_refcnt :: nat
  topic_rule :: "nat option"

section \<open>Lookups\<close>

definition find_subscriber_info :: "int \<Rightarrow> topic_struct \<Rightarrow> subscriber_info option" where
  "find_subscriber_info i t = find_key sub_id i (sub_info_htable t)"

definition find_publisher_info :: "int \<Rightarrow> topic_struct \<Rightarrow> publisher_info option" where
  "find_publisher_info i t = find_key pub_id i (pub_info_htable t)"

definition find_message_entry :: "int \<Rightarrow> topic_struct \<Rightarrow> entry_node option" where
  "find_message_entry i t = find_key entry_id i (entries t)"

definition agnocast_find_process_info :: "pid \<Rightarrow> process_info list \<Rightarrow> process_info option" where
  "agnocast_find_process_info p procs = find_key global_pid p procs"

definition agnocast_is_referenced :: "entry_node \<Rightarrow> bool" where
  "agnocast_is_referenced en \<longleftrightarrow> referencing_subscribers en \<noteq> {}"

definition upd_pub :: "int \<Rightarrow> (publisher_info \<Rightarrow> publisher_info) \<Rightarrow> topic_struct \<Rightarrow> topic_struct" where
  "upd_pub i f t = t\<lparr>pub_info_htable := upd_key pub_id i f (pub_info_htable t)\<rparr>"

definition upd_sub :: "int \<Rightarrow> (subscriber_info \<Rightarrow> subscriber_info) \<Rightarrow> topic_struct \<Rightarrow> topic_struct" where
  "upd_sub i f t = t\<lparr>sub_info_htable := upd_key sub_id i f (sub_info_htable t)\<rparr>"

section \<open>Delivery across domains and notify lists\<close>

definition domain_delivery_allowed ::
  "domain_bridge_rule option \<Rightarrow> domain \<Rightarrow> bool \<Rightarrow> domain \<Rightarrow> bool \<Rightarrow> bool" where
  "domain_delivery_allowed r pub_domain pub_bridge sub_domain sub_bridge =
     (if pub_domain = sub_domain then True
      else if pub_bridge \<or> sub_bridge then False
      else case r of
        None \<Rightarrow> False
      | Some ru \<Rightarrow>
          if pub_domain = domain_a ru \<and> sub_domain = domain_b ru then a_to_b ru
          else if pub_domain = domain_b ru \<and> sub_domain = domain_a ru then b_to_a ru
          else False)"

definition notifiable_subscriber_num :: "subscriber_info list \<Rightarrow> nat" where
  "notifiable_subscriber_num subs = length (filter (\<lambda>s. notify_ctx s \<noteq> None) subs)"

definition reserve_notify_ctxs ::
  "publisher_info \<Rightarrow> nat \<Rightarrow> allocs \<Rightarrow> unit res \<times> allocs \<times> publisher_info" where
  "reserve_notify_ctxs p needed al =
     (if needed \<le> notify_capacity p then (Inr (), al, p)
      else
        let c1 = (if notify_capacity p \<noteq> 0 then notify_capacity p * 2 else NOTIFY_CTXS_MIN_CAPACITY);
            c2 = (if c1 > MAX_SUBSCRIBER_NUM then MAX_SUBSCRIBER_NUM else c1);
            c3 = (if c2 < needed then needed else c2)
        in case kmalloc al of (ok, al') \<Rightarrow>
             if ok then (Inr (), al', p\<lparr>notify_capacity := c3\<rparr>) else (Inl ENOMEM, al', p))"

text \<open>The publishers before the one that fails keep their larger arrays.\<close>

fun reserve_all_notify_ctxs ::
  "publisher_info list \<Rightarrow> nat \<Rightarrow> allocs \<Rightarrow> unit res \<times> allocs \<times> publisher_info list" where
  "reserve_all_notify_ctxs [] needed al = (Inr (), al, [])"
| "reserve_all_notify_ctxs (p # ps) needed al =
     (case reserve_notify_ctxs p needed al of
        (Inl e, al', p') \<Rightarrow> (Inl e, al', p' # ps)
      | (Inr _, al', p') \<Rightarrow>
          (case reserve_all_notify_ctxs ps needed al' of (x, al'', ps') \<Rightarrow> (x, al'', p' # ps')))"

text \<open>The filters of \<open>rebuild_notify_list\<close>.\<close>

definition notify_target :: "domain_bridge_rule option \<Rightarrow> publisher_info \<Rightarrow> subscriber_info \<Rightarrow> bool" where
  "notify_target r p s \<longleftrightarrow>
     notify_ctx s \<noteq> None \<and>
     domain_delivery_allowed r (pub_domain_id p) (pub_is_bridge p) (sub_domain_id s) (sub_is_bridge s) \<and>
     \<not> (ignore_local_publications s \<and> sub_pid s = pub_pid p)"

definition notify_targets ::
  "domain_bridge_rule option \<Rightarrow> subscriber_info list \<Rightarrow> publisher_info \<Rightarrow> ctx list" where
  "notify_targets r subs p = map (the \<circ> notify_ctx) (filter (notify_target r p) subs)"

text \<open>The fill stops (with a warning) when the array is full.\<close>

definition rebuild_notify_list ::
  "domain_bridge_rule option \<Rightarrow> subscriber_info list \<Rightarrow> publisher_info \<Rightarrow> publisher_info" where
  "rebuild_notify_list r subs p =
     p\<lparr>notify_ctxs := take (notify_capacity p) (notify_targets r subs p)\<rparr>"

definition rebuild_all_notify_lists :: "domain_bridge_rule option \<Rightarrow> topic_struct \<Rightarrow> topic_struct" where
  "rebuild_all_notify_lists r t =
     t\<lparr>pub_info_htable := map (rebuild_notify_list r (sub_info_htable t)) (pub_info_htable t)\<rparr>"

section \<open>Registering endpoints\<close>

record sub_params =
  sp_node_name :: string
  sp_pid :: pid
  sp_qos_depth :: nat
  sp_transient_local :: bool
  sp_reliable :: bool
  sp_take :: bool
  sp_ignore_local :: bool
  sp_bridge :: bool

definition new_subscriber :: "domain \<Rightarrow> sub_params \<Rightarrow> ctx option \<Rightarrow> int \<Rightarrow> int \<Rightarrow> subscriber_info" where
  "new_subscriber dm q nctx new_id latest =
     \<lparr>sub_id = new_id, sub_domain_id = dm, sub_pid = sp_pid q, sub_qos_depth = sp_qos_depth q,
      sub_qos_is_transient_local = sp_transient_local q, sub_qos_is_reliable = sp_reliable q,
      latest_received_entry_id = latest, sub_node_name = sp_node_name q, is_take_sub = sp_take q,
      ignore_local_publications = sp_ignore_local q, need_mmap_update = True,
      sub_is_bridge = sp_bridge q, notify_ctx = nctx\<rparr>"

text \<open>The part of \<open>insert_subscriber_info\<close> after the last failure point: the id, the start of
  the reading window (a volatile subscriber consumes an entry id for it), the table, the
  notify lists.\<close>

definition link_subscriber ::
  "(int \<Rightarrow> nat) \<Rightarrow> domain_bridge_rule option \<Rightarrow> domain \<Rightarrow> sub_params \<Rightarrow> ctx option \<Rightarrow> topic_struct \<Rightarrow> topic_struct" where
  "link_subscriber bkt r dm q nctx t =
     (let new_id = current_pubsub_id t;
          latest = (if sp_transient_local q then -1 else current_entry_id t);
          next_entry = (if sp_transient_local q then current_entry_id t else current_entry_id t + 1);
          t' = t\<lparr>current_pubsub_id := new_id + 1, current_entry_id := next_entry,
                 sub_info_htable := hash_add (bkt \<circ> sub_id) (new_subscriber dm q nctx new_id latest)
                                      (sub_info_htable t)\<rparr>
      in if nctx \<noteq> None then rebuild_all_notify_lists r t' else t')"

definition insert_subscriber_info ::
  "(int \<Rightarrow> nat) \<Rightarrow> domain_bridge_rule option \<Rightarrow> domain \<Rightarrow> sub_params \<Rightarrow> ctx option \<Rightarrow> allocs \<Rightarrow> topic_struct \<Rightarrow>
   int res \<times> allocs \<times> topic_struct" where
  "insert_subscriber_info bkt r dm q nctx al t =
     (if length (sub_info_htable t) = MAX_SUBSCRIBER_NUM then (Inl ENOBUFS, al, t)
      else if current_pubsub_id t \<ge> MAX_TOPIC_LOCAL_ID then (Inl ENOSPC, al, t)
      else case kmalloc al of (ok1, al1) \<Rightarrow>
        if \<not> ok1 then (Inl ENOMEM, al1, t)
        else case kmalloc al1 of (ok2, al2) \<Rightarrow>
          if \<not> ok2 then (Inl ENOMEM, al2, t)
          else if nctx = None
          then (Inr (current_pubsub_id t), al2, link_subscriber bkt r dm q nctx t)
          else
            (case reserve_all_notify_ctxs (pub_info_htable t)
                    (notifiable_subscriber_num (sub_info_htable t) + 1) al2 of
               (Inl e, al3, ps) \<Rightarrow> (Inl e, al3, t\<lparr>pub_info_htable := ps\<rparr>)
             | (Inr _, al3, ps) \<Rightarrow>
                 (Inr (current_pubsub_id t), al3,
                  link_subscriber bkt r dm q nctx (t\<lparr>pub_info_htable := ps\<rparr>))))"

record pub_params =
  pp_node_name :: string
  pp_pid :: pid
  pp_qos_depth :: nat
  pp_transient_local :: bool
  pp_bridge :: bool

definition new_publisher :: "domain \<Rightarrow> pub_params \<Rightarrow> int \<Rightarrow> publisher_info" where
  "new_publisher dm q new_id =
     \<lparr>pub_id = new_id, pub_domain_id = dm, pub_pid = pp_pid q, pub_node_name = pp_node_name q,
      pub_qos_depth = pp_qos_depth q, pub_qos_is_transient_local = pp_transient_local q,
      entries_num = 0, pub_is_bridge = pp_bridge q, notify_ctxs = [], notify_capacity = 0\<rparr>"

text \<open>Unlike the subscriber's, the publisher's id is consumed before the last allocation.\<close>

definition insert_publisher_info ::
  "(int \<Rightarrow> nat) \<Rightarrow> domain_bridge_rule option \<Rightarrow> domain \<Rightarrow> pub_params \<Rightarrow> allocs \<Rightarrow> topic_struct \<Rightarrow>
   int res \<times> allocs \<times> topic_struct" where
  "insert_publisher_info bkt r dm q al t =
     (if length (pub_info_htable t) = MAX_PUBLISHER_NUM then (Inl ENOBUFS, al, t)
      else if current_pubsub_id t \<ge> MAX_TOPIC_LOCAL_ID then (Inl ENOSPC, al, t)
      else case kmalloc al of (ok1, al1) \<Rightarrow>
        if \<not> ok1 then (Inl ENOMEM, al1, t)
        else case kmalloc al1 of (ok2, al2) \<Rightarrow>
          if \<not> ok2 then (Inl ENOMEM, al2, t)
          else
            let new_id = current_pubsub_id t;
                t1 = t\<lparr>current_pubsub_id := new_id + 1\<rparr>
            in case reserve_notify_ctxs (new_publisher dm q new_id)
                      (notifiable_subscriber_num (sub_info_htable t)) al2 of
                 (Inl e, al3, p) \<Rightarrow> (Inl e, al3, t1)
               | (Inr _, al3, p) \<Rightarrow>
                   (Inr new_id, al3,
                    t1\<lparr>pub_info_htable :=
                         hash_add (bkt \<circ> pub_id) (rebuild_notify_list r (sub_info_htable t) p)
                           (pub_info_htable t)\<rparr>))"

section \<open>Publishing\<close>

text \<open>The descent for the insertion position goes right at every node and gives up at a node
  that is not smaller, so it succeeds exactly when the new id exceeds the largest one.\<close>

definition insert_message_entry :: "int \<Rightarrow> u64 \<Rightarrow> allocs \<Rightarrow> topic_struct \<Rightarrow> int res \<times> allocs \<times> topic_struct" where
  "insert_message_entry pid' addr al t =
     (case kmalloc al of (ok, al') \<Rightarrow>
        if \<not> ok then (Inl ENOMEM, al', t)
        else
          let new_id = current_entry_id t;
              t1 = t\<lparr>current_entry_id := new_id + 1\<rparr>;
              node = \<lparr>entry_id = new_id, en_publisher_id = pid', msg_virtual_address = addr,
                      referencing_subscribers = {}\<rparr>
          in if entries t \<noteq> [] \<and> \<not> entry_id (last (entries t)) < new_id then (Inl ECANCELED, al', t1)
             else (Inr new_id, al',
                   upd_pub pid' (\<lambda>p. p\<lparr>entries_num := entries_num p + 1\<rparr>)
                     (t1\<lparr>entries := entries t @ [node]\<rparr>)))"

text \<open>
  The reclaim loop of \<open>release_msgs_to_meet_depth\<close>, standing at the head of the list of
  entries still to visit, with \<open>n\<close> searches left and \<open>k\<close> entries released. The flag is
  false for the \<open>-ENODATA\<close> return, which happens when the entry under the cursor has no
  successor, before that entry is looked at.
\<close>

fun release_loop :: "int \<Rightarrow> nat \<Rightarrow> nat \<Rightarrow> entry_node list \<Rightarrow> bool \<times> u64 list \<times> entry_node list" where
  "release_loop pid' n k [] = (n = 0 \<or> k \<ge> MAX_RELEASE_NUM, [], [])"
| "release_loop pid' n k (en # es) =
     (if n = 0 \<or> k \<ge> MAX_RELEASE_NUM then (True, [], en # es)
      else if es = [] then (False, [], [en])
      else if en_publisher_id en \<noteq> pid' then
        (case release_loop pid' n k es of (ok, rel, es') \<Rightarrow> (ok, rel, en # es'))
      else if agnocast_is_referenced en then
        (case release_loop pid' (n - 1) k es of (ok, rel, es') \<Rightarrow> (ok, rel, en # es'))
      else
        (case release_loop pid' (n - 1) (k + 1) es of
           (ok, rel, es') \<Rightarrow> (ok, msg_virtual_address en # rel, es')))"

text \<open>\<open>release_msgs_to_meet_depth\<close> for the publisher \<open>p\<close> as it stands after the insertion. An
  empty tree is also \<open>-ENODATA\<close>, which is what the loop returns on it.\<close>

definition release_msgs_to_meet_depth :: "publisher_info \<Rightarrow> topic_struct \<Rightarrow> u64 list res \<times> topic_struct" where
  "release_msgs_to_meet_depth p t =
     (if entries_num p \<le> pub_qos_depth p then (Inr [], t)
      else case release_loop (pub_id p) (entries_num p - pub_qos_depth p) 0 (entries t) of
        (ok, rel, es) \<Rightarrow>
          (if ok then Inr rel else Inl ENODATA,
           upd_pub (pub_id p) (\<lambda>p. p\<lparr>entries_num := entries_num p - length rel\<rparr>)
             (t\<lparr>entries := es\<rparr>)))"

section \<open>Receiving and taking\<close>

definition is_entry_deliverable ::
  "process_info list \<Rightarrow> domain_bridge_rule option \<Rightarrow> topic_struct \<Rightarrow> subscriber_info \<Rightarrow> entry_node \<Rightarrow> bool res" where
  "is_entry_deliverable procs r t s en =
     (case find_publisher_info (en_publisher_id en) t of
        None \<Rightarrow> Inl ENODATA
      | Some p \<Rightarrow>
          (case agnocast_find_process_info (pub_pid p) procs of
             None \<Rightarrow> Inr False
           | Some pr \<Rightarrow>
               if exited pr then Inr False
               else if ignore_local_publications s \<and> sub_pid s = pub_pid p then Inr False
               else Inr (domain_delivery_allowed r (pub_domain_id p) (pub_is_bridge p)
                          (sub_domain_id s) (sub_is_bridge s))))"

text \<open>\<open>test_and_set_bit\<close>: the entry with the bit set, \<open>-EALREADY\<close> when it was set before.\<close>

definition add_subscriber_reference :: "int \<Rightarrow> entry_node \<Rightarrow> entry_node res" where
  "add_subscriber_reference i en =
     (if i < 0 \<or> i \<ge> MAX_TOPIC_LOCAL_ID then Inl EINVAL
      else if i \<in> referencing_subscribers en then Inl EALREADY
      else Inr (en\<lparr>referencing_subscribers := insert i (referencing_subscribers en)\<rparr>))"

text \<open>
  The backward walk of \<open>receive_msg_core\<close>. The list is what is still to visit, newest first;
  \<open>suffix\<close> the entries already passed, in key order; \<open>nodes\<close> the entries from the node the
  walk has settled on (\<open>[]\<close> for \<open>NULL\<close>); \<open>cnt\<close> is \<open>deliverable_num\<close>.
\<close>

fun back_scan ::
  "(entry_node \<Rightarrow> bool res) \<Rightarrow> int \<Rightarrow> nat \<Rightarrow> nat \<Rightarrow> entry_node list \<Rightarrow> entry_node list \<Rightarrow> entry_node list \<Rightarrow>
   (entry_node list \<times> nat) res" where
  "back_scan d oldest depth cnt suffix nodes [] = Inr (nodes, cnt)"
| "back_scan d oldest depth cnt suffix nodes (en # rest) =
     (if entry_id en < oldest then Inr (nodes, cnt)
      else case d en of
        Inl e \<Rightarrow> Inl e
      | Inr dv \<Rightarrow>
          if \<not> dv then back_scan d oldest depth cnt (en # suffix) nodes rest
          else if cnt + 1 \<ge> depth then Inr (en # suffix, cnt + 1)
          else back_scan d oldest depth (cnt + 1) (en # suffix) (en # suffix) rest)"

text \<open>
  The forward loop: \<open>num\<close> entries handed out so far. The result is the error if the loop
  returned one, \<open>ret_call_again\<close>, the ids and addresses handed out, and the entries with
  their new bitmaps.
\<close>

fun fwd_scan ::
  "(entry_node \<Rightarrow> bool res) \<Rightarrow> int \<Rightarrow> nat \<Rightarrow> nat \<Rightarrow> entry_node list \<Rightarrow>
   errno option \<times> bool \<times> (int \<times> u64) list \<times> entry_node list" where
  "fwd_scan d sid cnt num [] = (None, False, [], [])"
| "fwd_scan d sid cnt num (en # es) =
     (if num = MAX_RECEIVE_NUM then (None, num < cnt, [], en # es)
      else case d en of
        Inl e \<Rightarrow> (Some e, False, [], en # es)
      | Inr dv \<Rightarrow>
          if \<not> dv then
            (case fwd_scan d sid cnt num es of (x, again, recs, es') \<Rightarrow> (x, again, recs, en # es'))
          else
            (case add_subscriber_reference sid en of
               Inl e \<Rightarrow> (Some e, False, [], en # es)
             | Inr en' \<Rightarrow>
                 (case fwd_scan d sid cnt (num + 1) es of (x, again, recs, es') \<Rightarrow>
                    (x, again, (entry_id en, msg_virtual_address en) # recs, en' # es'))))"

text \<open>\<open>receive_msg_core\<close>: the entries handed out and \<open>ret_call_again\<close>.\<close>

definition receive_msg_core ::
  "process_info list \<Rightarrow> domain_bridge_rule option \<Rightarrow> subscriber_info \<Rightarrow> topic_struct \<Rightarrow>
   ((int \<times> u64) list \<times> bool) res \<times> topic_struct" where
  "receive_msg_core procs r s t =
     (if entries t = [] then (Inr ([], False), t)
      else if sub_qos_depth s = 0 then (Inr ([], False), t)
      else
        let d = is_entry_deliverable procs r t s in
        case back_scan d (latest_received_entry_id s + 1) (sub_qos_depth s) 0 [] [] (rev (entries t)) of
          Inl e \<Rightarrow> (Inl e, t)
        | Inr (nodes, cnt) \<Rightarrow>
            (case fwd_scan d (sub_id s) cnt 0 nodes of (x, again, recs, nodes') \<Rightarrow>
               let t' = t\<lparr>entries := take (length (entries t) - length nodes) (entries t) @ nodes'\<rparr> in
               case x of
                 Some e \<Rightarrow> (Inl e, t')
               | None \<Rightarrow>
                   (Inr (recs, again),
                    if recs = [] then t'
                    else upd_sub (sub_id s)
                           (\<lambda>s. s\<lparr>latest_received_entry_id := fst (last recs)\<rparr>) t')))"

text \<open>The loop of \<open>agnocast_ioctl_take_msg\<close>: the candidate entry so far is carried along.\<close>

fun take_scan ::
  "(entry_node \<Rightarrow> bool res) \<Rightarrow> bool \<Rightarrow> int \<Rightarrow> nat \<Rightarrow> nat \<Rightarrow> entry_node option \<Rightarrow> entry_node list \<Rightarrow>
   entry_node option res" where
  "take_scan d allow_same latest depth cnt cand [] = Inr cand"
| "take_scan d allow_same latest depth cnt cand (en # rest) =
     (if \<not> cnt < depth then Inr cand
      else if \<not> allow_same \<and> entry_id en = latest then Inr cand
      else if entry_id en < latest then Inr cand
      else case d en of
        Inl e \<Rightarrow> Inl e
      | Inr dv \<Rightarrow>
          if \<not> dv then take_scan d allow_same latest depth cnt cand rest
          else take_scan d allow_same latest depth (cnt + 1) (Some en) rest)"

text \<open>The part of \<open>agnocast_ioctl_take_msg\<close> up to the memory-mapping check: \<open>None\<close> stands for
  the pair \<open>ret_addr = 0\<close>, \<open>ret_entry_id = -1\<close>.\<close>

definition take_msg_core ::
  "process_info list \<Rightarrow> domain_bridge_rule option \<Rightarrow> subscriber_info \<Rightarrow> bool \<Rightarrow> topic_struct \<Rightarrow>
   (int \<times> u64) option res \<times> topic_struct" where
  "take_msg_core procs r s allow_same t =
     (case take_scan (is_entry_deliverable procs r t s) allow_same (latest_received_entry_id s)
             (sub_qos_depth s) 0 None (rev (entries t)) of
        Inl e \<Rightarrow> (Inl e, t)
      | Inr None \<Rightarrow> (Inr None, t)
      | Inr (Some en) \<Rightarrow>
          (let out = (entry_id en, msg_virtual_address en);
               t' = upd_sub (sub_id s) (\<lambda>s. s\<lparr>latest_received_entry_id := entry_id en\<rparr>) t
           in case add_subscriber_reference (sub_id s) en of
                Inl e \<Rightarrow> if allow_same \<and> e = EALREADY then (Inr (Some out), t') else (Inl e, t)
              | Inr en' \<Rightarrow>
                  (Inr (Some out), t'\<lparr>entries := upd_key entry_id (entry_id en) (\<lambda>_. en') (entries t)\<rparr>)))"

text \<open>\<open>agnocast_ioctl_release_message_entry_reference\<close> once the topic is found
  (\<open>test_and_clear_bit\<close>).\<close>

definition release_reference_core :: "int \<Rightarrow> int \<Rightarrow> topic_struct \<Rightarrow> unit res \<times> topic_struct" where
  "release_reference_core pubsub_id eid t =
     (case find_message_entry eid t of
        None \<Rightarrow> (Inl EINVAL, t)
      | Some en \<Rightarrow>
          if pubsub_id < 0 \<or> pubsub_id \<ge> MAX_TOPIC_LOCAL_ID then (Inl EINVAL, t)
          else if pubsub_id \<notin> referencing_subscribers en then (Inl EINVAL, t)
          else (Inr (), t\<lparr>entries := upd_key entry_id eid
                  (\<lambda>en. en\<lparr>referencing_subscribers := referencing_subscribers en - {pubsub_id}\<rparr>)
                  (entries t)\<rparr>))"

section \<open>Leaving endpoints\<close>

definition owner_is_alive :: "process_info list \<Rightarrow> pid \<Rightarrow> bool" where
  "owner_is_alive procs p =
     (case agnocast_find_process_info p procs of None \<Rightarrow> False | Some pr \<Rightarrow> \<not> exited pr)"

text \<open>\<open>pub_info->entries_num--\<close>, and the publisher leaves with its last entry.\<close>

definition drop_entry_of :: "int \<Rightarrow> publisher_info list \<Rightarrow> publisher_info list" where
  "drop_entry_of i pubs =
     (let pubs' = upd_key pub_id i (\<lambda>p. p\<lparr>entries_num := entries_num p - 1\<rparr>) pubs in
      case find_key pub_id i pubs' of
        Some p \<Rightarrow> if entries_num p = 0 then del_key pub_id i pubs' else pubs'
      | None \<Rightarrow> pubs')"

text \<open>
  The loop over all entries when subscriber \<open>sid\<close> leaves
  (\<open>pre_handler_subscriber_exit\<close> and \<open>agnocast_ioctl_remove_subscriber\<close> share it): its bit is
  cleared, and an entry nobody references any more goes if its publisher is still in the table
  but the publisher's process is gone.
\<close>

fun drop_subscriber_refs ::
  "process_info list \<Rightarrow> int \<Rightarrow> publisher_info list \<Rightarrow> entry_node list \<Rightarrow> publisher_info list \<times> entry_node list" where
  "drop_subscriber_refs procs sid pubs [] = (pubs, [])"
| "drop_subscriber_refs procs sid pubs (en # es) =
     (let en' = en\<lparr>referencing_subscribers := referencing_subscribers en - {sid}\<rparr>;
          keep = (case drop_subscriber_refs procs sid pubs es of (ps, es') \<Rightarrow> (ps, en' # es'))
      in if agnocast_is_referenced en' then keep
         else case find_key pub_id (en_publisher_id en) pubs of
           None \<Rightarrow> keep
         | Some p \<Rightarrow>
             if owner_is_alive procs (pub_pid p) then keep
             else drop_subscriber_refs procs sid (drop_entry_of (en_publisher_id en) pubs) es)"

text \<open>The loop over all entries when publisher \<open>i\<close> leaves: its unreferenced entries go.\<close>

definition publisher_unreferenced :: "int \<Rightarrow> entry_node \<Rightarrow> bool" where
  "publisher_unreferenced i en \<longleftrightarrow> en_publisher_id en = i \<and> \<not> agnocast_is_referenced en"

definition drop_publisher :: "int \<Rightarrow> topic_struct \<Rightarrow> topic_struct" where
  "drop_publisher i t =
     (let n = length (filter (publisher_unreferenced i) (entries t));
          t' = upd_pub i (\<lambda>p. p\<lparr>entries_num := entries_num p - n\<rparr>)
                 (t\<lparr>entries := filter (\<lambda>en. \<not> publisher_unreferenced i en) (entries t)\<rparr>)
      in case find_publisher_info i t' of
           Some p \<Rightarrow> if entries_num p = 0
                     then t'\<lparr>pub_info_htable := del_key pub_id i (pub_info_htable t')\<rparr> else t'
         | None \<Rightarrow> t')"

text \<open>\<open>agnocast_unlink_subscriber_info\<close>: take subscribers are in no notify list.\<close>

definition agnocast_unlink_subscriber_info ::
  "domain_bridge_rule option \<Rightarrow> subscriber_info \<Rightarrow> topic_struct \<Rightarrow> topic_struct" where
  "agnocast_unlink_subscriber_info r s t =
     (let t' = t\<lparr>sub_info_htable := del_key sub_id (sub_id s) (sub_info_htable t)\<rparr>
      in if notify_ctx s \<noteq> None then rebuild_all_notify_lists r t' else t')"

definition drop_refs_of :: "process_info list \<Rightarrow> int \<Rightarrow> topic_struct \<Rightarrow> topic_struct" where
  "drop_refs_of procs sid t =
     (case drop_subscriber_refs procs sid (pub_info_htable t) (entries t) of
        (ps, es) \<Rightarrow> t\<lparr>pub_info_htable := ps, entries := es\<rparr>)"

text \<open>\<open>pre_handler_publisher_exit\<close>: the publishers of the process, in table order.\<close>

definition pre_handler_publisher_exit :: "pid \<Rightarrow> topic_struct \<Rightarrow> topic_struct" where
  "pre_handler_publisher_exit p t =
     fold drop_publisher (map pub_id (filter (\<lambda>q. pub_pid q = p) (pub_info_htable t))) t"

text \<open>\<open>pre_handler_subscriber_exit\<close>: the leaving subscribers are collected on a list (each
  pushed at its head), the notify lists are rebuilt once, then each one's references go.\<close>

definition pre_handler_subscriber_exit ::
  "process_info list \<Rightarrow> domain_bridge_rule option \<Rightarrow> pid \<Rightarrow> topic_struct \<Rightarrow> topic_struct" where
  "pre_handler_subscriber_exit procs r p t =
     (let leaving = rev (filter (\<lambda>s. sub_pid s = p) (sub_info_htable t)) in
      if leaving = [] then t
      else
        fold (\<lambda>s t. if sub_id s < 0 \<or> sub_id s \<ge> MAX_TOPIC_LOCAL_ID then t
                    else drop_refs_of procs (sub_id s) t) leaving
          (rebuild_all_notify_lists r
             (t\<lparr>sub_info_htable := filter (\<lambda>s. sub_pid s \<noteq> p) (sub_info_htable t)\<rparr>)))"

end
