(* ===== verification/Kmod_Topic_Inv.thy ===== *)
theory Kmod_Topic_Inv
  imports Kmod_Topic
begin

text \<open>
  The invariant of a topic, and that every operation of \<open>Kmod_Topic\<close> keeps it. It says what the
  handlers silently rely on: the tree is ordered by entry id and every id was handed out by the
  topic's counter, endpoint ids are unique and within the bitmap, every entry's publisher is
  still in the table and counts exactly its own entries, a set bit belongs to a registered
  subscriber, and a subscriber has no reference beyond its reading position.
\<close>

section \<open>The invariant\<close>

definition pub_ids :: "topic_struct \<Rightarrow> int set" where
  "pub_ids t = pub_id ` set (pub_info_htable t)"

definition sub_ids :: "topic_struct \<Rightarrow> int set" where
  "sub_ids t = sub_id ` set (sub_info_htable t)"

definition owned :: "int \<Rightarrow> entry_node list \<Rightarrow> nat" where
  "owned i es = length (filter (\<lambda>en. en_publisher_id en = i) es)"

text \<open>The publisher table fits the entries: unique ids, every entry's publisher is there, and
  every publisher counts its own entries.\<close>

definition pubs_fit :: "publisher_info list \<Rightarrow> entry_node list \<Rightarrow> bool" where
  "pubs_fit pubs es \<longleftrightarrow> distinct (map pub_id pubs) \<and>
     (\<forall>en\<in>set es. en_publisher_id en \<in> pub_id ` set pubs) \<and>
     (\<forall>p\<in>set pubs. entries_num p = owned (pub_id p) es)"

definition ids_ok :: "topic_struct \<Rightarrow> bool" where
  "ids_ok t \<longleftrightarrow> distinct (map sub_id (sub_info_htable t)) \<and>
     pub_ids t \<subseteq> {0..<current_pubsub_id t} \<and> sub_ids t \<subseteq> {0..<current_pubsub_id t} \<and>
     pub_ids t \<inter> sub_ids t = {} \<and> 0 \<le> current_pubsub_id t \<and> current_pubsub_id t \<le> MAX_TOPIC_LOCAL_ID"

definition limits_ok :: "topic_struct \<Rightarrow> bool" where
  "limits_ok t \<longleftrightarrow> length (pub_info_htable t) \<le> MAX_PUBLISHER_NUM \<and>
     length (sub_info_htable t) \<le> MAX_SUBSCRIBER_NUM"

definition tree_ok :: "topic_struct \<Rightarrow> bool" where
  "tree_ok t \<longleftrightarrow> sorted_wrt (<) (map entry_id (entries t)) \<and> 0 \<le> current_entry_id t \<and>
     (\<forall>en\<in>set (entries t). 0 \<le> entry_id en \<and> entry_id en < current_entry_id t)"

text \<open>\<open>X\<close> are subscribers that are out of the table but whose bits have not been cleared yet:
  the exit path takes them out first.\<close>

definition refs_ok :: "int set \<Rightarrow> topic_struct \<Rightarrow> bool" where
  "refs_ok X t \<longleftrightarrow> (\<forall>en\<in>set (entries t). referencing_subscribers en \<subseteq> sub_ids t \<union> X)"

definition window_ok :: "topic_struct \<Rightarrow> bool" where
  "window_ok t \<longleftrightarrow> (\<forall>s\<in>set (sub_info_htable t).
     -1 \<le> latest_received_entry_id s \<and> latest_received_entry_id s < current_entry_id t \<and>
     (\<forall>en\<in>set (entries t). sub_id s \<in> referencing_subscribers en \<longrightarrow>
        entry_id en \<le> latest_received_entry_id s))"

definition inv_but :: "int set \<Rightarrow> topic_struct \<Rightarrow> bool" where
  "inv_but X t \<longleftrightarrow> pubs_fit (pub_info_htable t) (entries t) \<and>
     ids_ok t \<and> limits_ok t \<and> tree_ok t \<and> refs_ok X t \<and> window_ok t"

definition topic_inv :: "topic_struct \<Rightarrow> bool" where
  "topic_inv t \<longleftrightarrow> inv_but {} t"

lemmas inv_defs = topic_inv_def inv_but_def pubs_fit_def ids_ok_def limits_ok_def tree_ok_def
  refs_ok_def window_ok_def

lemma inv_butD:
  assumes "inv_but X t"
  shows "pubs_fit (pub_info_htable t) (entries t)" "ids_ok t" "limits_ok t" "tree_ok t"
    "refs_ok X t" "window_ok t"
  using assms by (auto simp: inv_but_def)

text \<open>Every publisher's notify list is complete: all subscribers it should wake, never truncated
  by the array's capacity.\<close>

definition notify_ok :: "domain_bridge_rule option \<Rightarrow> topic_struct \<Rightarrow> bool" where
  "notify_ok r t \<longleftrightarrow> (\<forall>p\<in>set (pub_info_htable t).
     notify_ctxs p = notify_targets r (sub_info_htable t) p \<and>
     notifiable_subscriber_num (sub_info_htable t) \<le> notify_capacity p)"

section \<open>Basic facts\<close>

lemma owned_simps [simp]:
  "owned i [] = 0"
  "owned i (en # es) = (if en_publisher_id en = i then 1 else 0) + owned i es"
  "owned i (es @ fs) = owned i es + owned i fs"
  by (auto simp: owned_def)

lemma owned_0: "owned i es = 0 \<longleftrightarrow> (\<forall>en\<in>set es. en_publisher_id en \<noteq> i)"
  by (induction es) auto

lemma owned_map: "(\<And>en. en_publisher_id (f en) = en_publisher_id en) \<Longrightarrow> owned i (map f es) = owned i es"
  by (induction es) auto

lemma owned_filter: "owned i (filter P es) + owned i (filter (\<lambda>en. \<not> P en) es) = owned i es"
  by (induction es) auto

lemma sorted_wrt_filter_map:
  "sorted_wrt (<) (map f xs) \<Longrightarrow> sorted_wrt (<) (map f (filter P xs))"
  by (induction xs) auto

lemma entries_distinct: "tree_ok t \<Longrightarrow> distinct (entries t)"
  by (auto simp: tree_ok_def strict_sorted_iff distinct_map)

lemma find_publisher_info_Some:
  "pubs_fit (pub_info_htable t) es \<Longrightarrow> find_publisher_info i t = Some p \<longleftrightarrow> p \<in> set (pub_info_htable t) \<and> pub_id p = i"
  by (simp add: pubs_fit_def find_publisher_info_def find_key_distinct)

lemma find_publisher_info_None: "find_publisher_info i t = None \<longleftrightarrow> i \<notin> pub_ids t"
  by (simp add: find_publisher_info_def tbl_simps pub_ids_def)

lemma find_subscriber_info_Some:
  "ids_ok t \<Longrightarrow> find_subscriber_info i t = Some s \<longleftrightarrow> s \<in> set (sub_info_htable t) \<and> sub_id s = i"
  by (simp add: ids_ok_def find_subscriber_info_def find_key_distinct)

lemma find_message_entry_Some:
  "tree_ok t \<Longrightarrow> find_message_entry i t = Some en \<longleftrightarrow> en \<in> set (entries t) \<and> entry_id en = i"
  unfolding find_message_entry_def
  by (rule find_key_distinct) (simp add: tree_ok_def strict_sorted_iff)

section \<open>Updates of one node\<close>

lemma owned_upd_key:
  "(\<And>en. en_publisher_id (f en) = en_publisher_id en) \<Longrightarrow> owned i (upd_key key k f es) = owned i es"
  unfolding upd_key_def by (rule owned_map) auto

lemma pubs_fit_map:
  "(\<And>en. en_publisher_id (f en) = en_publisher_id en) \<Longrightarrow> pubs_fit pubs (map f es) = pubs_fit pubs es"
  by (auto simp: pubs_fit_def owned_map)

lemma pubs_fit_del:
  assumes "pubs_fit pubs es" and "owned i es = 0"
  shows "pubs_fit (del_key pub_id i pubs) es"
proof -
  have "\<forall>en\<in>set es. en_publisher_id en \<noteq> i" using assms(2) by (simp add: owned_0)
  then have "\<forall>en\<in>set es. en_publisher_id en \<in> pub_id ` set (del_key pub_id i pubs)"
    using assms(1) unfolding pubs_fit_def set_del_key by blast
  then show ?thesis using assms(1) by (simp add: pubs_fit_def distinct_del_key set_del_key)
qed

text \<open>Removing one entry and counting its publisher down.\<close>

lemma drop_entry_of_fit:
  assumes "pubs_fit pubs (pre @ en # es)"
  shows "pubs_fit (drop_entry_of (en_publisher_id en) pubs) (pre @ es)"
proof -
  let ?i = "en_publisher_id en"
  let ?pubs = "upd_key pub_id ?i (\<lambda>p. p\<lparr>entries_num := entries_num p - 1\<rparr>) pubs"
  have d: "distinct (map pub_id pubs)" and cov: "\<forall>e\<in>set (pre @ en # es). en_publisher_id e \<in> pub_id ` set pubs"
    and cnt: "\<forall>p\<in>set pubs. entries_num p = owned (pub_id p) (pre @ en # es)"
    using assms by (auto simp: pubs_fit_def)
  have d': "distinct (map pub_id ?pubs)" using d by (simp add: tbl_simps)
  have ids: "pub_id ` set ?pubs = pub_id ` set pubs" by (simp add: tbl_simps)
  have cnt': "\<forall>p\<in>set ?pubs. entries_num p = owned (pub_id p) (pre @ es)"
  proof
    fix p assume "p \<in> set ?pubs"
    then obtain q where "q \<in> set pubs"
      and p: "p = (if pub_id q = ?i then q\<lparr>entries_num := entries_num q - 1\<rparr> else q)"
      by (auto simp: set_upd_key)
    with cnt have "entries_num q = owned (pub_id q) (pre @ en # es)" by blast
    then show "entries_num p = owned (pub_id p) (pre @ es)" by (simp add: p)
  qed
  have cov': "\<forall>e\<in>set (pre @ es). en_publisher_id e \<in> pub_id ` set ?pubs"
    using cov unfolding ids by simp
  have fit: "pubs_fit ?pubs (pre @ es)" using d' cnt' cov' unfolding pubs_fit_def by blast
  have del: "pubs_fit (del_key pub_id ?i ?pubs) (pre @ es)" if "owned ?i (pre @ es) = 0"
    using fit that by (rule pubs_fit_del)
  show ?thesis
  proof (cases "find_key pub_id ?i ?pubs")
    case None
    then show ?thesis using fit by (simp add: drop_entry_of_def Let_def)
  next
    case (Some p)
    then have "entries_num p = owned ?i (pre @ es)"
      using bspec [OF cnt' conjunct1 [OF find_key_Some [OF Some]]] find_key_Some [OF Some] by simp
    then show ?thesis using fit del Some by (simp add: drop_entry_of_def Let_def)
  qed
qed

end
