(* ===== verification/Kmod_Topic_Scans.thy ===== *)
theory Kmod_Topic_Scans
  imports Kmod_Topic_Inv
begin

text \<open>
  Reference definitions for the loops over the entry tree, and that the loops compute them:
  which entries a publisher may reclaim, which ones a receive hands out, and which one a take
  returns. The reference definitions say it with \<open>filter\<close>, \<open>take\<close> and \<open>lastn\<close>; the code walks
  the tree once in each direction with counters.
\<close>

section \<open>The newest entries\<close>

definition lastn :: "nat \<Rightarrow> 'a list \<Rightarrow> 'a list" where
  "lastn n xs = drop (length xs - n) xs"

lemma lastn_0 [simp]: "lastn 0 xs = []" and lastn_Nil [simp]: "lastn n [] = []"
  by (auto simp: lastn_def)

lemma lastn_all: "length xs \<le> n \<Longrightarrow> lastn n xs = xs"
  by (simp add: lastn_def)

lemma length_lastn [simp]: "length (lastn n xs) = min n (length xs)"
  by (auto simp: lastn_def)

lemma set_lastn: "set (lastn n xs) \<subseteq> set xs"
  by (simp add: lastn_def set_drop_subset)

lemma lastn_snoc: "lastn (Suc n) (xs @ [x]) = lastn n xs @ [x]"
  by (simp add: lastn_def)

lemma lastn_append_full: "length ys = n \<Longrightarrow> lastn n (xs @ ys) = ys"
  by (simp add: lastn_def)

section \<open>Reclaiming\<close>

text \<open>Of the publisher's \<open>n\<close> oldest entries, the unreferenced ones, at most \<open>m\<close> of them.\<close>

definition reclaimable :: "int \<Rightarrow> nat \<Rightarrow> nat \<Rightarrow> entry_node list \<Rightarrow> entry_node list" where
  "reclaimable i n m es =
     take m (filter (\<lambda>en. \<not> agnocast_is_referenced en)
              (take n (filter (\<lambda>en. en_publisher_id en = i) es)))"

lemma reclaimable_subset:
  "set (reclaimable i n m es) \<subseteq> {en \<in> set es. en_publisher_id en = i \<and> \<not> agnocast_is_referenced en}"
  unfolding reclaimable_def by (auto dest!: in_set_takeD)

lemma reclaimable_Cons:
  "reclaimable i n m (en # es) =
     (if n = 0 \<or> m = 0 then []
      else if en_publisher_id en \<noteq> i then reclaimable i n m es
      else if agnocast_is_referenced en then reclaimable i (n - 1) m es
      else en # reclaimable i (n - 1) (m - 1) es)"
  by (cases n; cases m) (auto simp: reclaimable_def)

lemma reclaimable_0 [simp]: "reclaimable i 0 m es = []" "reclaimable i n 0 es = []"
  by (auto simp: reclaimable_def)

lemma filter_notin_Cons: "x \<notin> set es \<Longrightarrow> filter (\<lambda>y. y \<noteq> x \<and> P y) es = filter P es"
  by (rule filter_cong) auto

lemma release_loop_reclaims:
  assumes "distinct es" and "n < owned i es"
  shows "release_loop i n k es =
    (let v = reclaimable i n (MAX_RELEASE_NUM - k) es
     in (True, map msg_virtual_address v, filter (\<lambda>en. en \<notin> set v) es))"
  using assms
proof (induction i n k es rule: release_loop.induct)
  case (2 i n k en es)
  have sub: "en \<notin> set (reclaimable i n' m' es)" for n' m'
    using 2(4) reclaimable_subset [of i n' m' es] by auto
  have ne: "es \<noteq> []" if "n \<noteq> 0" using 2(5) that by (cases es) (auto split: if_splits)
  show ?case
    using 2 ne sub
    by (auto simp: reclaimable_Cons Let_def filter_notin_Cons Suc_diff_Suc split: if_splits)
qed simp

section \<open>Receiving\<close>

text \<open>The entries beyond the reading position that may be delivered, oldest first.\<close>

definition unread :: "(entry_node \<Rightarrow> bool) \<Rightarrow> int \<Rightarrow> entry_node list \<Rightarrow> entry_node list" where
  "unread dv oldest es = filter (\<lambda>en. dv en \<and> oldest \<le> entry_id en) es"

lemma unread_simps [simp]:
  "unread dv oldest [] = []"
  "unread dv oldest (xs @ ys) = unread dv oldest xs @ unread dv oldest ys"
  by (auto simp: unread_def)

lemma unread_single:
  "unread dv oldest [en] = (if dv en \<and> oldest \<le> entry_id en then [en] else [])"
  by (simp add: unread_def)

lemma unread_none: "\<forall>en\<in>set es. entry_id en < oldest \<Longrightarrow> unread dv oldest es = []"
  by (auto simp: unread_def filter_empty_conv)

lemma back_scan_spec:
  assumes "sorted_wrt (<) (map entry_id ys)" and "cnt = length (filter dv suffix)" and "cnt < depth"
    and "filter dv nodes = filter dv suffix" and "\<exists>pre. suffix = pre @ nodes"
  shows "\<exists>nodes'. back_scan (\<lambda>en. Inr (dv en)) oldest depth cnt suffix nodes (rev ys) =
             Inr (nodes', length (filter dv nodes')) \<and>
           filter dv nodes' = lastn depth (unread dv oldest ys @ filter dv suffix) \<and>
           (\<exists>pre. ys @ suffix = pre @ nodes')"
  using assms
proof (induction ys arbitrary: cnt suffix nodes rule: rev_induct)
  case Nil
  then show ?case by (simp add: lastn_all)
next
  case (snoc y ys)
  have s: "sorted_wrt (<) (map entry_id ys)" and lt: "\<forall>en\<in>set ys. entry_id en < entry_id y"
    using snoc.prems(1) by (auto simp: sorted_wrt_append)
  consider (stop) "entry_id y < oldest" | (skip) "oldest \<le> entry_id y" "\<not> dv y"
    | (full) "oldest \<le> entry_id y" "dv y" "depth \<le> cnt + 1"
    | (count) "oldest \<le> entry_id y" "dv y" "cnt + 1 < depth" by linarith
  then show ?case
  proof cases
    case stop
    then have "unread dv oldest ys = []" using lt by (intro unread_none) auto
    moreover have "lastn depth (filter dv suffix) = filter dv nodes"
      using snoc.prems(2-4) by (simp add: lastn_all)
    moreover have "\<exists>pre. (ys @ [y]) @ suffix = pre @ nodes"
      using snoc.prems(5) by (metis append_assoc)
    ultimately show ?thesis
      using stop snoc.prems(2,4) by (intro exI [of _ nodes]) (simp add: unread_single)
  next
    case skip
    have "\<exists>pre. y # suffix = pre @ nodes" using snoc.prems(5) by (metis append_Cons)
    from snoc.IH [OF s _ snoc.prems(3) _ this] show ?thesis
      using skip snoc.prems(2,4) by (simp add: unread_single)
  next
    case full
    then have "length (y # filter dv suffix) = depth" using snoc.prems(2,3) by simp
    from lastn_append_full [OF this, of "unread dv oldest ys"] show ?thesis
      using full snoc.prems(2) by (simp add: unread_single)
  next
    case count
    from snoc.IH [OF s, of "cnt + 1" "y # suffix" "y # suffix"] show ?thesis
      using count snoc.prems(2) by (simp add: unread_single)
  qed
qed

text \<open>Setting subscriber \<open>i\<close>'s bit in the entries of \<open>V\<close>.\<close>

definition mark :: "int \<Rightarrow> entry_node set \<Rightarrow> entry_node list \<Rightarrow> entry_node list" where
  "mark i V es =
     map (\<lambda>en. if en \<in> V then en\<lparr>referencing_subscribers := insert i (referencing_subscribers en)\<rparr> else en) es"

definition out_of :: "entry_node \<Rightarrow> int \<times> u64" where
  "out_of en = (entry_id en, msg_virtual_address en)"

lemma mark_cong: "(\<And>en. en \<in> set es \<Longrightarrow> en \<in> V \<longleftrightarrow> en \<in> W) \<Longrightarrow> mark i V es = mark i W es"
  by (auto simp: mark_def)

lemma mark_id: "(\<And>en. en \<in> set es \<Longrightarrow> en \<notin> V) \<Longrightarrow> mark i V es = es"
  unfolding mark_def by (rule map_idI) simp

lemma mark_simps:
  "mark i V [] = []" "mark i V (xs @ ys) = mark i V xs @ mark i V ys"
  by (auto simp: mark_def)

lemma fwd_scan_spec:
  assumes "distinct es" and "0 \<le> sid" and "sid < MAX_TOPIC_LOCAL_ID" and "num \<le> MAX_RECEIVE_NUM"
    and "\<forall>en\<in>set es. dv en \<longrightarrow> sid \<notin> referencing_subscribers en"
    and "cnt = num + length (filter dv es)"
  shows "fwd_scan (\<lambda>en. Inr (dv en)) sid cnt num es =
     (let out = take (MAX_RECEIVE_NUM - num) (filter dv es)
      in (None, MAX_RECEIVE_NUM < cnt, map out_of out, mark sid (set out) es))"
  using assms
proof (induction es arbitrary: num)
  case Nil
  then show ?case by (simp add: mark_def)
next
  case (Cons en es)
  consider (full) "num = MAX_RECEIVE_NUM" | (skip) "num < MAX_RECEIVE_NUM" "\<not> dv en"
    | (hand) "num < MAX_RECEIVE_NUM" "dv en" using Cons.prems(4) by linarith
  then show ?case
  proof cases
    case full
    then show ?thesis by (simp add: mark_def)
  next
    case skip
    have "mark sid V (en # es) = en # mark sid V es" if "V = set (take m (filter dv es))" for V m
      using that skip by (auto simp: mark_def dest: in_set_takeD)
    then show ?thesis using skip Cons.IH [of num] Cons.prems by (auto simp: Let_def)
  next
    case hand
    define out where "out = take (MAX_RECEIVE_NUM - Suc num) (filter dv es)"
    have "mark sid (set out) es = mark sid (set (en # out)) es"
      using Cons.prems(1) by (intro mark_cong) auto
    moreover have "take (MAX_RECEIVE_NUM - num) (filter dv (en # es)) = en # out"
      using hand by (auto simp: out_def Suc_diff_Suc [symmetric])
    moreover have "add_subscriber_reference sid en =
        Inr (en\<lparr>referencing_subscribers := insert sid (referencing_subscribers en)\<rparr>)"
      using hand Cons.prems(2,3,5) by (auto simp: add_subscriber_reference_def)
    ultimately show ?thesis
      using hand Cons.IH [of "Suc num"] Cons.prems
      by (auto simp: Let_def out_def [symmetric] out_of_def mark_def)
  qed
qed

section \<open>Taking\<close>

lemma take_scan_spec:
  assumes "sorted_wrt (<) (map entry_id ys)"
  shows "take_scan (\<lambda>en. Inr (dv en)) same latest depth cnt cand (rev ys) =
    Inr (case lastn (depth - cnt) (unread dv (if same then latest else latest + 1) ys) of
           [] \<Rightarrow> cand | en # _ \<Rightarrow> Some en)"
  using assms
proof (induction ys arbitrary: cnt cand rule: rev_induct)
  case (snoc y ys)
  define oldest where "oldest = (if same then latest else latest + 1)"
  have s: "sorted_wrt (<) (map entry_id ys)" and lt: "\<forall>en\<in>set ys. entry_id en < entry_id y"
    using snoc.prems by (auto simp: sorted_wrt_append)
  note IH = snoc.IH [OF s, folded oldest_def]
  have c: "(\<not> same \<and> entry_id y = latest) \<or> entry_id y < latest \<longleftrightarrow> entry_id y < oldest"
    by (auto simp: oldest_def)
  consider (full) "\<not> cnt < depth" | (stop) "cnt < depth" "entry_id y < oldest"
    | (skip) "cnt < depth" "oldest \<le> entry_id y" "\<not> dv y"
    | (count) "cnt < depth" "oldest \<le> entry_id y" "dv y" by linarith
  then have "take_scan (\<lambda>en. Inr (dv en)) same latest depth cnt cand (rev (ys @ [y])) =
    Inr (case lastn (depth - cnt) (unread dv oldest (ys @ [y])) of [] \<Rightarrow> cand | en # _ \<Rightarrow> Some en)"
  proof cases
    case stop
    then have "unread dv oldest ys = []" using lt by (intro unread_none) auto
    then show ?thesis using stop c by (auto simp: unread_single)
  next
    case skip
    then show ?thesis using IH c by (auto simp: unread_single)
  next
    case count
    then have "depth - cnt = Suc (depth - Suc cnt)" by simp
    then show ?thesis
      using count IH [of "Suc cnt" "Some y"] c
      by (auto simp: unread_single lastn_snoc split: list.splits)
  qed simp
  then show ?case by (simp add: oldest_def)
qed simp

end
