(* ===== verification/Kmod_Topic_Ops.thy ===== *)
theory Kmod_Topic_Ops
  imports Kmod_Topic_Scans
begin

text \<open>
  What the operations on one topic do when the topic satisfies its invariant: reclaiming,
  receiving and taking compute their reference definitions and never reach the error returns the
  code marks as unreachable; every operation keeps the invariant.
\<close>

section \<open>Deliverability\<close>

definition deliverable ::
  "process_info list \<Rightarrow> domain_bridge_rule option \<Rightarrow> topic_struct \<Rightarrow> subscriber_info \<Rightarrow> entry_node \<Rightarrow> bool" where
  "deliverable procs r t s en =
     (case find_publisher_info (en_publisher_id en) t of
        None \<Rightarrow> False
      | Some p \<Rightarrow> owner_is_alive procs (pub_pid p) \<and>
          \<not> (ignore_local_publications s \<and> sub_pid s = pub_pid p) \<and>
          domain_delivery_allowed r (pub_domain_id p) (pub_is_bridge p) (sub_domain_id s) (sub_is_bridge s))"

lemma is_entry_deliverable_total:
  assumes "pubs_fit (pub_info_htable t) (entries t)" and "en \<in> set (entries t)"
  shows "is_entry_deliverable procs r t s en = Inr (deliverable procs r t s en)"
proof -
  have "find_publisher_info (en_publisher_id en) t \<noteq> None"
    using assms by (simp add: find_publisher_info_None pubs_fit_def pub_ids_def)
  then show ?thesis
    by (auto simp: is_entry_deliverable_def deliverable_def owner_is_alive_def split: option.splits)
qed

lemma back_scan_cong:
  "(\<And>en. en \<in> set es \<Longrightarrow> d en = d' en) \<Longrightarrow>
     back_scan d oldest depth cnt suffix nodes es = back_scan d' oldest depth cnt suffix nodes es"
  by (induction d oldest depth cnt suffix nodes es rule: back_scan.induct)
     (auto split: sum.splits if_splits)

lemma fwd_scan_cong:
  "(\<And>en. en \<in> set es \<Longrightarrow> d en = d' en) \<Longrightarrow> fwd_scan d sid cnt num es = fwd_scan d' sid cnt num es"
  by (induction d sid cnt num es rule: fwd_scan.induct) (auto split: sum.splits if_splits)

lemma take_scan_cong:
  "(\<And>en. en \<in> set es \<Longrightarrow> d en = d' en) \<Longrightarrow>
     take_scan d same latest depth cnt cand es = take_scan d' same latest depth cnt cand es"
  by (induction d same latest depth cnt cand es rule: take_scan.induct)
     (auto split: sum.splits if_splits)

section \<open>Receiving\<close>

text \<open>The entries in the subscriber's window: of the unread deliverable ones the newest
  \<open>qos_depth\<close>; a call hands out the oldest \<open>MAX_RECEIVE_NUM\<close> of them.\<close>

definition recv_window ::
  "process_info list \<Rightarrow> domain_bridge_rule option \<Rightarrow> subscriber_info \<Rightarrow> topic_struct \<Rightarrow> entry_node list" where
  "recv_window procs r s t =
     lastn (sub_qos_depth s)
       (unread (deliverable procs r t s) (latest_received_entry_id s + 1) (entries t))"

definition hand_out :: "subscriber_info \<Rightarrow> entry_node list \<Rightarrow> topic_struct \<Rightarrow> topic_struct" where
  "hand_out s out t =
     (if out = [] then t
      else upd_sub (sub_id s) (\<lambda>s. s\<lparr>latest_received_entry_id := entry_id (last out)\<rparr>)
             (t\<lparr>entries := mark (sub_id s) (set out) (entries t)\<rparr>))"

lemma recv_window_subset:
  "set (recv_window procs r s t) \<subseteq>
     {en \<in> set (entries t). deliverable procs r t s en \<and> latest_received_entry_id s < entry_id en}"
  unfolding recv_window_def using set_lastn by (fastforce simp: unread_def)

lemma receive_msg_core_spec:
  assumes inv: "topic_inv t" and s: "s \<in> set (sub_info_htable t)"
  shows "receive_msg_core procs r s t =
    (let win = recv_window procs r s t; out = take MAX_RECEIVE_NUM win
     in (Inr (map out_of out, MAX_RECEIVE_NUM < length win), hand_out s out t))"
proof (cases "entries t = [] \<or> sub_qos_depth s = 0")
  case True
  then show ?thesis
    by (auto simp: receive_msg_core_def recv_window_def hand_out_def Let_def)
next
  case False
  let ?dv = "deliverable procs r t s" and ?old = "latest_received_entry_id s + 1"
  let ?win = "recv_window procs r s t" and ?out = "take MAX_RECEIVE_NUM (recv_window procs r s t)"
  note I = inv_butD [OF inv [unfolded topic_inv_def]]
  have d: "is_entry_deliverable procs r t s en = Inr (?dv en)" if "en \<in> set (entries t)" for en
    using I(1) that by (rule is_entry_deliverable_total)
  obtain nodes where b: "back_scan (\<lambda>en. Inr (?dv en)) ?old (sub_qos_depth s) 0 [] [] (rev (entries t)) =
      Inr (nodes, length (filter ?dv nodes))"
    and f: "filter ?dv nodes = ?win" and suf: "\<exists>pre. entries t = pre @ nodes"
    using back_scan_spec [of "entries t" 0 ?dv "[]" "sub_qos_depth s" "[]" ?old] I(4) False
    by (auto simp: tree_ok_def recv_window_def)
  from suf obtain pre where pre: "entries t = pre @ nodes" by blast
  have dist: "distinct (entries t)" using I(4) by (rule entries_distinct)
  have sid: "0 \<le> sub_id s" "sub_id s < MAX_TOPIC_LOCAL_ID"
    using I(2) s by (auto simp: ids_ok_def sub_ids_def)
  have unref: "\<forall>en\<in>set nodes. ?dv en \<longrightarrow> sub_id s \<notin> referencing_subscribers en"
  proof (intro ballI impI)
    fix en assume "en \<in> set nodes" "?dv en"
    then have "en \<in> set ?win" unfolding f [symmetric] by simp
    then have "en \<in> set (entries t)" "latest_received_entry_id s < entry_id en"
      using recv_window_subset [of procs r s t] by auto
    then show "sub_id s \<notin> referencing_subscribers en" using I(6) s by (fastforce simp: window_ok_def)
  qed
  have fw: "fwd_scan (is_entry_deliverable procs r t s) (sub_id s) (length ?win) 0 nodes =
     (None, MAX_RECEIVE_NUM < length ?win, map out_of ?out, mark (sub_id s) (set ?out) nodes)"
    using fwd_scan_spec [of nodes "sub_id s" 0 ?dv "length ?win"] dist sid unref f pre
      fwd_scan_cong [of nodes "is_entry_deliverable procs r t s" "\<lambda>en. Inr (?dv en)"] d
    by (auto simp: Let_def)
  have bk: "back_scan (is_entry_deliverable procs r t s) ?old (sub_qos_depth s) 0 [] [] (rev (entries t)) =
      Inr (nodes, length ?win)"
    using b back_scan_cong [of "rev (entries t)" "is_entry_deliverable procs r t s"] d f by simp
  have "set ?out \<subseteq> set nodes" unfolding f [symmetric] by (auto dest: in_set_takeD)
  then have "mark (sub_id s) (set ?out) pre = pre" using dist pre by (intro mark_id) auto
  then have es: "take (length (entries t) - length nodes) (entries t) @ mark (sub_id s) (set ?out) nodes =
      mark (sub_id s) (set ?out) (entries t)" by (simp add: pre mark_simps)
  have m0: "mark (sub_id s) {} (entries t) = entries t" by (simp add: mark_id)
  show ?thesis
    using False fw bk es m0
    by (auto simp: receive_msg_core_def Let_def hand_out_def out_of_def last_map)
qed

section \<open>Taking\<close>

definition take_window ::
  "process_info list \<Rightarrow> domain_bridge_rule option \<Rightarrow> subscriber_info \<Rightarrow> bool \<Rightarrow> topic_struct \<Rightarrow> entry_node list" where
  "take_window procs r s same t =
     lastn (sub_qos_depth s)
       (unread (deliverable procs r t s)
          (if same then latest_received_entry_id s else latest_received_entry_id s + 1) (entries t))"

lemma take_window_subset:
  "set (take_window procs r s same t) \<subseteq>
     {en \<in> set (entries t). deliverable procs r t s en \<and> latest_received_entry_id s \<le> entry_id en \<and>
        (entry_id en = latest_received_entry_id s \<longrightarrow> same)}"
  unfolding take_window_def using set_lastn by (fastforce simp: unread_def split: if_splits)

lemma mark_single:
  assumes "distinct (map entry_id es)" and "en \<in> set es"
  shows "mark i {en} es = upd_key entry_id (entry_id en)
     (\<lambda>_. en\<lparr>referencing_subscribers := insert i (referencing_subscribers en)\<rparr>) es"
  using assms by (auto simp: mark_def upd_key_def dest: inj_onD [OF conjunct2 [OF distinct_map [THEN iffD1]]])

lemma take_msg_core_spec:
  assumes inv: "topic_inv t" and s: "s \<in> set (sub_info_htable t)"
  shows "take_msg_core procs r s same t =
    (case take_window procs r s same t of
       [] \<Rightarrow> (Inr None, t) | en # _ \<Rightarrow> (Inr (Some (out_of en)), hand_out s [en] t))"
proof -
  note I = inv_butD [OF inv [unfolded topic_inv_def]]
  have d: "is_entry_deliverable procs r t s en = Inr (deliverable procs r t s en)"
    if "en \<in> set (entries t)" for en
    using I(1) that by (rule is_entry_deliverable_total)
  have scan: "take_scan (is_entry_deliverable procs r t s) same (latest_received_entry_id s)
       (sub_qos_depth s) 0 None (rev (entries t)) =
     Inr (case take_window procs r s same t of [] \<Rightarrow> None | en # _ \<Rightarrow> Some en)"
    using take_scan_spec [of "entries t" "deliverable procs r t s" same "latest_received_entry_id s"
        "sub_qos_depth s" 0 None] I(4)
      take_scan_cong [of "rev (entries t)" "is_entry_deliverable procs r t s"] d
    by (simp add: tree_ok_def take_window_def)
  show ?thesis
  proof (cases "take_window procs r s same t")
    case Nil
    then show ?thesis using scan by (simp add: take_msg_core_def)
  next
    case (Cons en w)
    then have en: "en \<in> set (entries t)" "latest_received_entry_id s \<le> entry_id en"
        "entry_id en = latest_received_entry_id s \<longrightarrow> same"
      using take_window_subset [of procs r s same t] by auto
    have sid: "0 \<le> sub_id s" "sub_id s < MAX_TOPIC_LOCAL_ID"
      using I(2) s by (auto simp: ids_ok_def sub_ids_def)
    have "sub_id s \<in> referencing_subscribers en \<Longrightarrow> entry_id en \<le> latest_received_entry_id s"
      using I(6) s en(1) by (auto simp: window_ok_def)
    then have same: "sub_id s \<in> referencing_subscribers en \<Longrightarrow> same" using en(2,3) by auto
    have "distinct (map entry_id (entries t))" using I(4) by (simp add: tree_ok_def strict_sorted_iff)
    note ms = mark_single [OF this en(1), of "sub_id s"]
    have mk: "mark (sub_id s) {en} (entries t) = entries t" if "sub_id s \<in> referencing_subscribers en"
      using that by (auto simp: mark_def insert_absorb intro: map_idI)
    show ?thesis
      using Cons scan sid same ms mk
      by (auto simp: take_msg_core_def add_subscriber_reference_def Let_def out_of_def hand_out_def upd_sub_def)
  qed
qed

section \<open>Updates that keep the invariant\<close>

lemma upd_sub_fields [simp]:
  "entries (upd_sub i f t) = entries t" "pub_info_htable (upd_sub i f t) = pub_info_htable t"
  "current_pubsub_id (upd_sub i f t) = current_pubsub_id t"
  "current_entry_id (upd_sub i f t) = current_entry_id t"
  "sub_info_htable (upd_sub i f t) = upd_key sub_id i f (sub_info_htable t)"
  "pub_ids (upd_sub i f t) = pub_ids t"
  "wrapper_refcnt (upd_sub i f t) = wrapper_refcnt t" "topic_rule (upd_sub i f t) = topic_rule t"
  by (auto simp: upd_sub_def pub_ids_def)

lemma upd_pub_fields [simp]:
  "entries (upd_pub i g t) = entries t" "sub_info_htable (upd_pub i g t) = sub_info_htable t"
  "current_pubsub_id (upd_pub i g t) = current_pubsub_id t"
  "current_entry_id (upd_pub i g t) = current_entry_id t"
  "pub_info_htable (upd_pub i g t) = upd_key pub_id i g (pub_info_htable t)"
  "sub_ids (upd_pub i g t) = sub_ids t"
  "wrapper_refcnt (upd_pub i g t) = wrapper_refcnt t" "topic_rule (upd_pub i g t) = topic_rule t"
  by (auto simp: upd_pub_def sub_ids_def)

lemma hand_out_inv:
  assumes inv: "topic_inv t" and s: "s \<in> set (sub_info_htable t)"
    and sub: "set out \<subseteq> {en \<in> set (entries t). latest_received_entry_id s \<le> entry_id en}"
    and last: "\<forall>en\<in>set out. entry_id en \<le> entry_id (last out)"
  shows "topic_inv (hand_out s out t)"
proof (cases "out = []")
  case False
  note I = inv_butD [OF inv [unfolded topic_inv_def]]
  let ?t = "hand_out s out t"
  have lastin: "last out \<in> set (entries t)" "latest_received_entry_id s \<le> entry_id (last out)"
    using subsetD [OF sub last_in_set [OF False]] by auto
  have fields: "entries ?t = mark (sub_id s) (set out) (entries t)" "pub_info_htable ?t = pub_info_htable t"
    "sub_info_htable ?t = upd_key sub_id (sub_id s)
       (\<lambda>s. s\<lparr>latest_received_entry_id := entry_id (last out)\<rparr>) (sub_info_htable t)"
    "current_pubsub_id ?t = current_pubsub_id t" "current_entry_id ?t = current_entry_id t"
    using False by (auto simp: hand_out_def)
  have ids: "sub_ids ?t = sub_ids t" "pub_ids ?t = pub_ids t"
    by (simp_all add: sub_ids_def pub_ids_def fields tbl_simps)
  have me: "map entry_id (mark i V es) = map entry_id es" for i V es by (auto simp: mark_def)
  have uniq: "s' = s" if "s' \<in> set (sub_info_htable t)" "sub_id s' = sub_id s" for s'
    using I(2) that s by (auto simp: ids_ok_def distinct_map dest: inj_onD)
  have "pubs_fit (pub_info_htable ?t) (entries ?t)"
    using I(1) by (simp add: fields mark_def pubs_fit_map)
  moreover have "ids_ok ?t" using I(2) by (simp add: ids_ok_def ids) (simp add: fields tbl_simps)
  moreover have "limits_ok ?t" using I(3) by (simp add: limits_ok_def fields tbl_simps)
  moreover have "tree_ok ?t" using I(4) by (auto simp: tree_ok_def fields me) (auto simp: mark_def split: if_splits)
  moreover have "refs_ok {} ?t"
  proof -
    have "sub_id s \<in> sub_ids t" using s by (simp add: sub_ids_def)
    then show ?thesis using I(5) unfolding refs_ok_def ids fields mark_def by (auto, blast)
  qed
  moreover have "window_ok ?t"
    unfolding window_ok_def
  proof
    fix s' assume "s' \<in> set (sub_info_htable ?t)"
    then obtain s0 where s0: "s0 \<in> set (sub_info_htable t)"
      and s': "s' = (if sub_id s0 = sub_id s then s0\<lparr>latest_received_entry_id := entry_id (last out)\<rparr> else s0)"
      by (auto simp: fields set_upd_key)
    have old: "-1 \<le> latest_received_entry_id s0" "latest_received_entry_id s0 < current_entry_id t"
      "\<forall>en\<in>set (entries t). sub_id s0 \<in> referencing_subscribers en \<longrightarrow> entry_id en \<le> latest_received_entry_id s0"
      using I(6) s0 by (auto simp: window_ok_def)
    show "-1 \<le> latest_received_entry_id s' \<and> latest_received_entry_id s' < current_entry_id ?t \<and>
      (\<forall>en\<in>set (entries ?t). sub_id s' \<in> referencing_subscribers en \<longrightarrow>
         entry_id en \<le> latest_received_entry_id s')"
    proof (cases "sub_id s0 = sub_id s")
      case True
      then have "s0 = s" using uniq s0 by blast
      then have l: "latest_received_entry_id s' = entry_id (last out)" "sub_id s' = sub_id s"
        and old': "\<forall>en\<in>set (entries t). sub_id s \<in> referencing_subscribers en \<longrightarrow>
          entry_id en \<le> entry_id (last out)"
        using s' old(3) lastin(2) by auto
      have "0 \<le> entry_id (last out)" "entry_id (last out) < current_entry_id t"
        using I(4) lastin(1) by (auto simp: tree_ok_def)
      moreover have "entry_id en \<le> entry_id (last out)"
        if "en \<in> set (mark (sub_id s) (set out) (entries t))" "sub_id s \<in> referencing_subscribers en" for en
        using that old' last by (auto simp: mark_def split: if_splits)
      ultimately show ?thesis by (simp add: l fields)
    next
      case False
      then show ?thesis using old s' by (auto simp: fields mark_def split: if_splits)
    qed
  qed
  ultimately show ?thesis by (simp add: topic_inv_def inv_but_def)
qed (simp add: hand_out_def inv)

end
