(* ===== verification/Kmod_Topic_Keeps.thy ===== *)
theory Kmod_Topic_Keeps
  imports Kmod_Topic_Ops
begin

text \<open>
  Every operation on a topic keeps the topic's invariant and the completeness of the notify
  lists: publishing and reclaiming, receiving, taking and releasing, registering an endpoint,
  and the loops that drop a leaving publisher or subscriber.
\<close>

section \<open>Removing entries of one publisher\<close>

lemma ids_update [simp]:
  "sub_ids (t\<lparr>entries := es\<rparr>) = sub_ids t" "pub_ids (t\<lparr>entries := es\<rparr>) = pub_ids t"
  "sub_ids (t\<lparr>pub_info_htable := ps\<rparr>) = sub_ids t" "pub_ids (t\<lparr>sub_info_htable := ss\<rparr>) = pub_ids t"
  "sub_ids (t\<lparr>current_entry_id := x\<rparr>) = sub_ids t" "pub_ids (t\<lparr>current_entry_id := x\<rparr>) = pub_ids t"
  "sub_ids (t\<lparr>current_pubsub_id := x\<rparr>) = sub_ids t" "pub_ids (t\<lparr>current_pubsub_id := x\<rparr>) = pub_ids t"
  by (auto simp: sub_ids_def pub_ids_def)

lemma pub_ids_upd_pub [simp]: "(\<And>p. pub_id (g p) = pub_id p) \<Longrightarrow> pub_ids (upd_pub i g t) = pub_ids t"
  by (simp add: pub_ids_def tbl_simps)

lemma sub_ids_upd_sub [simp]: "(\<And>s. sub_id (f s) = sub_id s) \<Longrightarrow> sub_ids (upd_sub i f t) = sub_ids t"
  by (simp add: sub_ids_def tbl_simps)

lemma length_filter_mem:
  assumes "distinct xs" "distinct v" "set v \<subseteq> set xs"
  shows "length (filter (\<lambda>x. x \<in> set v) xs) = length v"
proof -
  have "set (filter (\<lambda>x. x \<in> set v) xs) = set v" using assms(3) by auto
  then show ?thesis using assms(1,2) by (metis distinct_card distinct_filter)
qed

lemma length_filter_le_owned:
  "\<forall>en\<in>set es. Q en \<longrightarrow> en_publisher_id en = i \<Longrightarrow> length (filter Q es) \<le> owned i es"
  by (induction es) auto

lemma owned_remove:
  assumes "\<forall>en\<in>set es. Q en \<longrightarrow> en_publisher_id en = i"
  shows "owned j (filter (\<lambda>en. \<not> Q en) es) =
    (if j = i then owned i es - length (filter Q es) else owned j es)"
  using assms
proof (induction es)
  case (Cons en es)
  then show ?case using length_filter_le_owned [of es Q i] by (auto simp: Suc_diff_le)
qed simp

lemma remove_own_inv:
  assumes inv: "inv_but X t" and Q: "\<forall>en\<in>set (entries t). Q en \<longrightarrow> en_publisher_id en = i"
  shows "inv_but X (upd_pub i (\<lambda>p. p\<lparr>entries_num := entries_num p - length (filter Q (entries t))\<rparr>)
           (t\<lparr>entries := filter (\<lambda>en. \<not> Q en) (entries t)\<rparr>))"
proof -
  note I = inv_butD [OF inv]
  let ?f = "\<lambda>p. p\<lparr>entries_num := entries_num p - length (filter Q (entries t))\<rparr>"
  let ?t = "upd_pub i ?f (t\<lparr>entries := filter (\<lambda>en. \<not> Q en) (entries t)\<rparr>)"
  have "pubs_fit (pub_info_htable ?t) (entries ?t)"
  proof -
    have "\<forall>p\<in>set (pub_info_htable ?t). entries_num p = owned (pub_id p) (entries ?t)"
      using I(1) by (auto simp: pubs_fit_def set_upd_key owned_remove [OF Q])
    moreover have "\<forall>en\<in>set (entries ?t). en_publisher_id en \<in> pub_id ` set (pub_info_htable ?t)"
      using I(1) by (simp add: pubs_fit_def tbl_simps)
    moreover have "distinct (map pub_id (pub_info_htable ?t))"
      using I(1) by (simp add: pubs_fit_def tbl_simps)
    ultimately show ?thesis unfolding pubs_fit_def by blast
  qed
  moreover have "ids_ok ?t" using I(2) by (simp add: ids_ok_def)
  moreover have "limits_ok ?t" using I(3) by (simp add: limits_ok_def tbl_simps)
  moreover have "tree_ok ?t" using I(4) by (simp add: tree_ok_def sorted_wrt_filter_map)
  moreover have "refs_ok X ?t" using I(5) by (simp add: refs_ok_def)
  moreover have "window_ok ?t" using I(6) by (simp add: window_ok_def)
  ultimately show ?thesis by (simp add: inv_but_def)
qed

section \<open>Publishing\<close>

lemma release_loop_filters:
  assumes "distinct es" and "release_loop i n k es = (ok, rel, es')"
  shows "\<exists>v. es' = filter (\<lambda>en. en \<notin> set v) es \<and> rel = map msg_virtual_address v \<and> distinct v \<and>
    set v \<subseteq> {en \<in> set es. en_publisher_id en = i \<and> \<not> agnocast_is_referenced en}"
  using assms
proof (induction i n k es arbitrary: ok rel es' rule: release_loop.induct)
  case (1 i n k)
  then show ?case by (intro exI [of _ "[]"]) simp
next
  case (2 i n k en es)
  consider (stop) "n = 0 \<or> k \<ge> MAX_RELEASE_NUM \<or> es = []"
    | (other) "n > 0" "k < MAX_RELEASE_NUM" "es \<noteq> []" "en_publisher_id en \<noteq> i"
    | (held) "n > 0" "k < MAX_RELEASE_NUM" "es \<noteq> []" "en_publisher_id en = i" "agnocast_is_referenced en"
    | (free) "n > 0" "k < MAX_RELEASE_NUM" "es \<noteq> []" "en_publisher_id en = i" "\<not> agnocast_is_referenced en"
    by force
  then show ?case
  proof cases
    case stop
    then show ?thesis using 2(5) by (intro exI [of _ "[]"]) (auto split: if_splits)
  next
    case other
    obtain es1 where e: "release_loop i n k es = (ok, rel, es1)" "es' = en # es1"
      using 2(5) other by (auto split: prod.splits)
    with 2(1) [of ok rel es1] other 2(4) obtain v
      where v: "es1 = filter (\<lambda>en. en \<notin> set v) es" "rel = map msg_virtual_address v" "distinct v"
        "set v \<subseteq> {en \<in> set es. en_publisher_id en = i \<and> \<not> agnocast_is_referenced en}" by auto
    then show ?thesis using e 2(4) by (intro exI [of _ v]) auto
  next
    case held
    obtain es1 where e: "release_loop i (n - 1) k es = (ok, rel, es1)" "es' = en # es1"
      using 2(5) held by (auto split: prod.splits)
    with 2(2) [of ok rel es1] held 2(4) obtain v
      where v: "es1 = filter (\<lambda>en. en \<notin> set v) es" "rel = map msg_virtual_address v" "distinct v"
        "set v \<subseteq> {en \<in> set es. en_publisher_id en = i \<and> \<not> agnocast_is_referenced en}" by auto
    then show ?thesis using e 2(4) by (intro exI [of _ v]) auto
  next
    case free
    obtain rel1 where e: "release_loop i (n - 1) (k + 1) es = (ok, rel1, es')"
        "rel = msg_virtual_address en # rel1"
      using 2(5) free by (auto split: prod.splits)
    with 2(3) [of ok rel1 es'] free 2(4) obtain v
      where v: "es' = filter (\<lambda>en. en \<notin> set v) es" "rel1 = map msg_virtual_address v" "distinct v"
        "set v \<subseteq> {en \<in> set es. en_publisher_id en = i \<and> \<not> agnocast_is_referenced en}" by auto
    then show ?thesis using e 2(4) free
      by (intro exI [of _ "en # v"]) (auto simp: filter_notin_Cons)
  qed
qed

lemma release_msgs_inv:
  assumes inv: "inv_but X t"
  shows "inv_but X (snd (release_msgs_to_meet_depth p t))"
proof (cases "entries_num p \<le> pub_qos_depth p")
  case True
  then show ?thesis by (simp add: release_msgs_to_meet_depth_def inv)
next
  case False
  obtain ok rel es where l: "release_loop (pub_id p) (entries_num p - pub_qos_depth p) 0 (entries t) = (ok, rel, es)"
    by (metis prod_cases3)
  have dist: "distinct (entries t)" using inv_butD(4) [OF inv] by (rule entries_distinct)
  from release_loop_filters [OF dist l] obtain v
    where v: "es = filter (\<lambda>en. en \<notin> set v) (entries t)" "rel = map msg_virtual_address v" "distinct v"
      "set v \<subseteq> {en \<in> set (entries t). en_publisher_id en = pub_id p \<and> \<not> agnocast_is_referenced en}" by blast
  have "length rel = length (filter (\<lambda>en. en \<in> set v) (entries t))"
    using length_filter_mem [OF dist v(3) subset_trans [OF v(4)]] v(2) by auto
  then have "snd (release_msgs_to_meet_depth p t) =
      upd_pub (pub_id p) (\<lambda>p. p\<lparr>entries_num := entries_num p - length (filter (\<lambda>en. en \<in> set v) (entries t))\<rparr>)
        (t\<lparr>entries := filter (\<lambda>en. \<not> en \<in> set v) (entries t)\<rparr>)"
    using False l v(1) by (simp add: release_msgs_to_meet_depth_def)
  then show ?thesis using remove_own_inv [OF inv, of "\<lambda>en. en \<in> set v" "pub_id p"] v(4) by auto
qed

lemma insert_message_entry_ok:
  assumes inv: "inv_but X t" and i: "i \<in> pub_ids t"
  shows "insert_message_entry i a al t =
     (if fst (kmalloc al)
      then (Inr (current_entry_id t), snd (kmalloc al),
            upd_pub i (\<lambda>p. p\<lparr>entries_num := entries_num p + 1\<rparr>)
              (t\<lparr>current_entry_id := current_entry_id t + 1,
                 entries := entries t @ [\<lparr>entry_id = current_entry_id t, en_publisher_id = i,
                   msg_virtual_address = a, referencing_subscribers = {}\<rparr>]\<rparr>))
      else (Inl ENOMEM, snd (kmalloc al), t))"
proof -
  have "entry_id (last (entries t)) < current_entry_id t" if "entries t \<noteq> []"
    using inv_butD(4) [OF inv] that by (simp add: tree_ok_def)
  then show ?thesis by (auto simp: insert_message_entry_def Let_def split: prod.splits)
qed

lemma insert_message_entry_inv:
  assumes inv: "inv_but X t" and i: "i \<in> pub_ids t"
  shows "inv_but X (snd (snd (insert_message_entry i a al t)))"
proof -
  note I = inv_butD [OF inv]
  let ?node = "\<lparr>entry_id = current_entry_id t, en_publisher_id = i, msg_virtual_address = a,
     referencing_subscribers = {}\<rparr>"
  let ?t = "upd_pub i (\<lambda>p. p\<lparr>entries_num := entries_num p + 1\<rparr>)
     (t\<lparr>current_entry_id := current_entry_id t + 1, entries := entries t @ [?node]\<rparr>)"
  have "pubs_fit (pub_info_htable ?t) (entries ?t)"
  proof -
    have "\<forall>p\<in>set (pub_info_htable ?t). entries_num p = owned (pub_id p) (entries ?t)"
      using I(1) by (auto simp: pubs_fit_def set_upd_key)
    moreover have "\<forall>en\<in>set (entries ?t). en_publisher_id en \<in> pub_id ` set (pub_info_htable ?t)"
      using I(1) i by (simp add: pubs_fit_def tbl_simps pub_ids_def)
    moreover have "distinct (map pub_id (pub_info_htable ?t))"
      using I(1) by (simp add: pubs_fit_def tbl_simps)
    ultimately show ?thesis unfolding pubs_fit_def by blast
  qed
  moreover have "ids_ok ?t" using I(2) by (simp add: ids_ok_def)
  moreover have "limits_ok ?t" using I(3) by (simp add: limits_ok_def tbl_simps)
  moreover have "tree_ok ?t" using I(4) by (auto simp: tree_ok_def sorted_wrt_append)
  moreover have "refs_ok X ?t" using I(5) by (simp add: refs_ok_def)
  moreover have "window_ok ?t" using I(6) by (auto simp: window_ok_def)
  ultimately have "inv_but X ?t" by (simp add: inv_but_def)
  then show ?thesis using inv by (simp add: insert_message_entry_ok [OF inv i])
qed

section \<open>Receiving, taking and releasing\<close>

lemma sorted_last_max:
  "sorted_wrt (<) (map entry_id xs) \<Longrightarrow> en \<in> set xs \<Longrightarrow> entry_id en \<le> entry_id (last xs)"
  by (induction xs rule: rev_induct) (auto simp: sorted_wrt_append)

lemma sorted_window:
  "sorted_wrt (<) (map entry_id es) \<Longrightarrow> sorted_wrt (<) (map entry_id (take m (lastn n (unread dv x es))))"
  unfolding lastn_def unread_def
  by (simp add: take_map [symmetric] drop_map [symmetric] sorted_wrt_take sorted_wrt_drop sorted_wrt_filter_map)

lemma receive_msg_core_inv:
  assumes inv: "topic_inv t" and s: "s \<in> set (sub_info_htable t)"
  shows "topic_inv (snd (receive_msg_core procs r s t))"
proof -
  let ?out = "take MAX_RECEIVE_NUM (recv_window procs r s t)"
  have "sorted_wrt (<) (map entry_id ?out)"
    using inv_butD(4) [OF inv [unfolded topic_inv_def]]
    by (auto simp: recv_window_def tree_ok_def intro: sorted_window)
  then have "topic_inv (hand_out s ?out t)"
    using recv_window_subset [of procs r s t] sorted_last_max
    by (intro hand_out_inv [OF inv s]) (force dest: in_set_takeD, blast)
  then show ?thesis by (simp add: receive_msg_core_spec [OF inv s] Let_def)
qed

lemma take_msg_core_inv:
  assumes inv: "topic_inv t" and s: "s \<in> set (sub_info_htable t)"
  shows "topic_inv (snd (take_msg_core procs r s same t))"
proof (cases "take_window procs r s same t")
  case (Cons en w)
  then have "topic_inv (hand_out s [en] t)"
    using take_window_subset [of procs r s same t] by (intro hand_out_inv [OF inv s]) auto
  then show ?thesis using Cons by (simp add: take_msg_core_spec [OF inv s])
qed (simp add: take_msg_core_spec [OF inv s] inv)

text \<open>Rewriting entries so that only references are taken away.\<close>

lemma map_entries_inv:
  assumes inv: "inv_but X t"
    and f: "\<And>en. entry_id (f en) = entry_id en" "\<And>en. en_publisher_id (f en) = en_publisher_id en"
      "\<And>en. referencing_subscribers (f en) \<subseteq> referencing_subscribers en"
  shows "inv_but X (t\<lparr>entries := map f (entries t)\<rparr>)"
proof -
  note I = inv_butD [OF inv]
  have "map entry_id (map f es) = map entry_id es" for es by (simp add: f(1))
  then have "tree_ok (t\<lparr>entries := map f (entries t)\<rparr>)" using I(4) by (simp add: tree_ok_def f(1) o_def)
  moreover have "refs_ok X (t\<lparr>entries := map f (entries t)\<rparr>)"
    using I(5) f(3) by (fastforce simp: refs_ok_def)
  moreover have "window_ok (t\<lparr>entries := map f (entries t)\<rparr>)"
    using I(6) f(1,3) by (fastforce simp: window_ok_def)
  ultimately show ?thesis
    using I(1-3) by (simp add: inv_but_def pubs_fit_map f(2) ids_ok_def limits_ok_def)
qed

lemma release_reference_core_inv:
  assumes "inv_but X t"
  shows "inv_but X (snd (release_reference_core i eid t))"
proof -
  have "inv_but X (t\<lparr>entries := upd_key entry_id eid
      (\<lambda>en. en\<lparr>referencing_subscribers := referencing_subscribers en - {i}\<rparr>) (entries t)\<rparr>)"
    unfolding upd_key_def by (rule map_entries_inv [OF assms]) auto
  then show ?thesis using assms by (simp add: release_reference_core_def split: option.splits)
qed

end
