(* ===== verification/Kmod_Topic_Endpoints.thy ===== *)
theory Kmod_Topic_Endpoints
  imports Kmod_Topic_Keeps
begin

text \<open>
  Endpoints coming and going: registering a subscriber or a publisher and dropping a leaving one
  keep the topic's invariant, and keep every publisher's notify list complete. The array of a
  publisher always has room for all notifiable subscribers, so the fill of
  \<open>rebuild_notify_list\<close> never stops early.
\<close>

section \<open>The notify arrays\<close>

definition grown :: "publisher_info \<Rightarrow> publisher_info \<Rightarrow> bool" where
  "grown p p' \<longleftrightarrow> notify_capacity p \<le> notify_capacity p' \<and> p' = p\<lparr>notify_capacity := notify_capacity p'\<rparr>"

lemma grown_refl [simp]: "grown p p"
  by (simp add: grown_def)

lemma grown_fields:
  "grown p p' \<Longrightarrow> pub_id p' = pub_id p \<and> entries_num p' = entries_num p \<and> notify_ctxs p' = notify_ctxs p \<and>
     pub_domain_id p' = pub_domain_id p \<and> pub_is_bridge p' = pub_is_bridge p \<and> pub_pid p' = pub_pid p \<and>
     notify_capacity p \<le> notify_capacity p'"
  unfolding grown_def by (cases p; cases p') auto

lemma reserve_notify_ctxs_ok:
  assumes "reserve_notify_ctxs p needed al = (x, al', p')"
  shows "grown p p'" and "x = Inr () \<Longrightarrow> needed \<le> notify_capacity p'"
proof -
  have "grown p p' \<and> (x = Inr () \<longrightarrow> needed \<le> notify_capacity p')"
    using assms by (cases "kmalloc al") (auto simp: reserve_notify_ctxs_def grown_def Let_def split: if_splits)
  then show "grown p p'" and "x = Inr () \<Longrightarrow> needed \<le> notify_capacity p'" by auto
qed

lemma reserve_all_notify_ctxs_ok:
  assumes "reserve_all_notify_ctxs ps needed al = (x, al', ps')"
  shows "list_all2 grown ps ps' \<and> (x = Inr () \<longrightarrow> (\<forall>p\<in>set ps'. needed \<le> notify_capacity p))"
  using assms
proof (induction ps arbitrary: al x ps')
  case (Cons p ps)
  obtain y al1 p1 where r: "reserve_notify_ctxs p needed al = (y, al1, p1)" by (metis prod_cases3)
  note g = reserve_notify_ctxs_ok [OF r]
  show ?case
  proof (cases y)
    case (Inl e)
    then show ?thesis using Cons.prems r g(1) by (auto simp: list_all2_refl)
  next
    case (Inr u)
    obtain z al2 ps1 where "reserve_all_notify_ctxs ps needed al1 = (z, al2, ps1)" by (metis prod_cases3)
    then show ?thesis using Cons.IH [of al1 z ps1] Cons.prems r g Inr by auto
  qed
qed simp

lemma length_notify_targets: "length (notify_targets r subs p) \<le> notifiable_subscriber_num subs"
  by (induction subs) (auto simp: notify_targets_def notifiable_subscriber_num_def notify_target_def)

lemma notify_targets_cong:
  "pub_domain_id p = pub_domain_id q \<Longrightarrow> pub_is_bridge p = pub_is_bridge q \<Longrightarrow> pub_pid p = pub_pid q \<Longrightarrow>
     notify_targets r subs p = notify_targets r subs q"
  unfolding notify_targets_def by (rule arg_cong [where f = "map _"]) (rule filter_cong, auto simp: notify_target_def)

lemma rebuild_complete:
  "notifiable_subscriber_num subs \<le> notify_capacity p \<Longrightarrow>
     notify_ctxs (rebuild_notify_list r subs p) = notify_targets r subs (rebuild_notify_list r subs p)"
  using length_notify_targets [of r subs p]
  by (simp add: rebuild_notify_list_def notify_targets_cong [of "p\<lparr>notify_ctxs := _\<rparr>" p])

lemma rebuild_all_notify_ok:
  assumes "\<forall>p\<in>set (pub_info_htable t). notifiable_subscriber_num (sub_info_htable t) \<le> notify_capacity p"
  shows "notify_ok r (rebuild_all_notify_lists r t)"
  using assms rebuild_complete
  by (auto simp: notify_ok_def rebuild_all_notify_lists_def) (simp add: rebuild_notify_list_def)

text \<open>Fields other than a publisher's notify list decide the invariant.\<close>

lemma inv_but_pubs_cong:
  assumes "map (\<lambda>p. (pub_id p, entries_num p)) ps = map (\<lambda>p. (pub_id p, entries_num p)) (pub_info_htable t)"
  shows "inv_but X (t\<lparr>pub_info_htable := ps\<rparr>) = inv_but X t"
proof -
  have ids: "map pub_id ps = map pub_id (pub_info_htable t)"
    using arg_cong [OF assms, of "map fst"] by (simp add: o_def)
  have img: "pub_id ` set ps = pub_id ` set (pub_info_htable t)" using arg_cong [OF ids, of set] by simp
  have "(\<forall>p\<in>set ps. entries_num p = owned (pub_id p) (entries t)) \<longleftrightarrow>
      (\<forall>x\<in>set (map (\<lambda>p. (pub_id p, entries_num p)) ps). snd x = owned (fst x) (entries t))" by simp
  also have "\<dots> \<longleftrightarrow> (\<forall>p\<in>set (pub_info_htable t). entries_num p = owned (pub_id p) (entries t))"
    unfolding assms by simp
  finally have "pubs_fit ps (entries t) = pubs_fit (pub_info_htable t) (entries t)"
    by (simp add: pubs_fit_def ids img)
  moreover have "length ps = length (pub_info_htable t)" using map_eq_imp_length_eq [OF assms] .
  ultimately show ?thesis
    by (simp add: inv_but_def ids_ok_def pub_ids_def img limits_ok_def tree_ok_def refs_ok_def window_ok_def)
qed

lemma rebuild_all_inv: "inv_but X (rebuild_all_notify_lists r t) = inv_but X t"
  unfolding rebuild_all_notify_lists_def
  by (rule inv_but_pubs_cong) (simp add: rebuild_notify_list_def)

lemma grown_inv:
  assumes "list_all2 grown (pub_info_htable t) ps"
  shows "inv_but X (t\<lparr>pub_info_htable := ps\<rparr>) = inv_but X t"
proof (rule inv_but_pubs_cong)
  show "map (\<lambda>p. (pub_id p, entries_num p)) ps = map (\<lambda>p. (pub_id p, entries_num p)) (pub_info_htable t)"
    using assms by (induction rule: list_all2_induct) (auto dest: grown_fields)
qed

lemma grown_notify_ok:
  assumes "notify_ok r t" and "list_all2 grown (pub_info_htable t) ps"
  shows "notify_ok r (t\<lparr>pub_info_htable := ps\<rparr>)"
proof -
  have "notify_ctxs p' = notify_targets r (sub_info_htable t) p' \<and>
      notifiable_subscriber_num (sub_info_htable t) \<le> notify_capacity p'" if p': "p' \<in> set ps" for p'
  proof -
    obtain p where "p \<in> set (pub_info_htable t)" "grown p p'"
      using assms(2) p' by (fastforce simp: list_all2_conv_all_nth in_set_conv_nth)
    then show ?thesis
      using assms(1) grown_fields [of p p'] notify_targets_cong [of p' p r "sub_info_htable t"]
      by (fastforce simp: notify_ok_def)
  qed
  then show ?thesis by (simp add: notify_ok_def)
qed

section \<open>Registering\<close>

lemma notify_targets_hash_add_None:
  "notify_ctx s = None \<Longrightarrow> notify_targets r (hash_add bkt s subs) p = notify_targets r subs p"
  by (simp add: notify_targets_def filter_hash_add notify_target_def)

lemma notifiable_hash_add:
  "notifiable_subscriber_num (hash_add bkt s subs) =
     (if notify_ctx s \<noteq> None then 1 else 0) + notifiable_subscriber_num subs"
  by (simp add: notifiable_subscriber_num_def tbl_simps)

lemma rebuild_all_fields [simp]:
  "sub_info_htable (rebuild_all_notify_lists r t) = sub_info_htable t"
  "entries (rebuild_all_notify_lists r t) = entries t"
  "wrapper_refcnt (rebuild_all_notify_lists r t) = wrapper_refcnt t"
  "topic_rule (rebuild_all_notify_lists r t) = topic_rule t"
  by (simp_all add: rebuild_all_notify_lists_def)

lemma refs_below:
  "topic_inv t \<Longrightarrow> en \<in> set (entries t) \<Longrightarrow> i \<in> referencing_subscribers en \<Longrightarrow> i < current_pubsub_id t"
  by (fastforce simp: topic_inv_def inv_but_def refs_ok_def ids_ok_def)

lemma add_sub_inv:
  assumes inv: "topic_inv t" and room: "length (sub_info_htable t) < MAX_SUBSCRIBER_NUM"
    and idroom: "current_pubsub_id t < MAX_TOPIC_LOCAL_ID"
    and s: "sub_id s = current_pubsub_id t" "-1 \<le> latest_received_entry_id s" "latest_received_entry_id s < n"
    and n: "current_entry_id t \<le> n"
  shows "topic_inv (t\<lparr>current_pubsub_id := current_pubsub_id t + 1, current_entry_id := n,
      sub_info_htable := hash_add bkt s (sub_info_htable t)\<rparr>)" (is "topic_inv ?t")
proof -
  note I = inv_butD [OF inv [unfolded topic_inv_def]]
  have ids: "sub_ids ?t = insert (current_pubsub_id t) (sub_ids t)" "pub_ids ?t = pub_ids t"
    using s(1) by (simp_all add: sub_ids_def pub_ids_def tbl_simps)
  have "pubs_fit (pub_info_htable ?t) (entries ?t)" using I(1) by simp
  moreover have "ids_ok ?t"
    using I(2) s(1) idroom unfolding ids_ok_def ids by (auto simp: tbl_simps sub_ids_def)
  moreover have "limits_ok ?t" using I(3) room by (simp add: limits_ok_def tbl_simps)
  moreover have "tree_ok ?t" using I(4) n by (fastforce simp: tree_ok_def)
  moreover have "refs_ok {} ?t" using I(5) unfolding refs_ok_def ids by auto
  moreover have "window_ok ?t"
    unfolding window_ok_def
  proof
    fix s' assume "s' \<in> set (sub_info_htable ?t)"
    then consider "s' = s" | "s' \<in> set (sub_info_htable t)" by (auto simp: tbl_simps)
    then show "-1 \<le> latest_received_entry_id s' \<and> latest_received_entry_id s' < current_entry_id ?t \<and>
        (\<forall>en\<in>set (entries ?t). sub_id s' \<in> referencing_subscribers en \<longrightarrow> entry_id en \<le> latest_received_entry_id s')"
    proof cases
      case 1
      then show ?thesis using s refs_below [OF inv] by force
    next
      case 2
      then show ?thesis using I(6) n by (fastforce simp: window_ok_def)
    qed
  qed
  ultimately show ?thesis by (simp add: topic_inv_def inv_but_def)
qed

lemma link_subscriber_inv:
  assumes inv: "topic_inv t" and "length (sub_info_htable t) < MAX_SUBSCRIBER_NUM"
    and "current_pubsub_id t < MAX_TOPIC_LOCAL_ID"
  shows "topic_inv (link_subscriber bkt r dm q nctx t)"
proof -
  let ?n = "if sp_transient_local q then current_entry_id t else current_entry_id t + 1"
  let ?s = "new_subscriber dm q nctx (current_pubsub_id t) (if sp_transient_local q then -1 else current_entry_id t)"
  have "0 \<le> current_entry_id t" using inv by (simp add: topic_inv_def inv_but_def tree_ok_def)
  then have "topic_inv (t\<lparr>current_pubsub_id := current_pubsub_id t + 1, current_entry_id := ?n,
      sub_info_htable := hash_add (bkt \<circ> sub_id) ?s (sub_info_htable t)\<rparr>)"
    by (intro add_sub_inv [OF assms]) (auto simp: new_subscriber_def)
  then show ?thesis
    by (cases "sp_transient_local q") (auto simp: link_subscriber_def Let_def topic_inv_def rebuild_all_inv)
qed

lemma link_subscriber_notify:
  assumes "notify_ok r t"
    and "nctx \<noteq> None \<Longrightarrow> \<forall>p\<in>set (pub_info_htable t). notifiable_subscriber_num (sub_info_htable t) + 1 \<le> notify_capacity p"
  shows "notify_ok r (link_subscriber bkt r dm q nctx t)"
proof (cases "nctx = None")
  case True
  then show ?thesis
    using assms(1)
    by (simp add: link_subscriber_def Let_def notify_ok_def notify_targets_hash_add_None
        notifiable_hash_add new_subscriber_def)
next
  case False
  then show ?thesis
    using assms(2)
    by (auto simp: link_subscriber_def Let_def notifiable_hash_add new_subscriber_def
        intro!: rebuild_all_notify_ok)
qed

lemma insert_subscriber_info_cases:
  assumes "insert_subscriber_info bkt r dm q nctx al t = (x, al', t')"
  obtains (err) e ps where "x = Inl e" "t' = t\<lparr>pub_info_htable := ps\<rparr>" "list_all2 grown (pub_info_htable t) ps"
  | (ok) ps where "x = Inr (current_pubsub_id t)" "t' = link_subscriber bkt r dm q nctx (t\<lparr>pub_info_htable := ps\<rparr>)"
      "list_all2 grown (pub_info_htable t) ps"
      "length (sub_info_htable t) \<noteq> MAX_SUBSCRIBER_NUM" "current_pubsub_id t < MAX_TOPIC_LOCAL_ID"
      "nctx \<noteq> None \<Longrightarrow> \<forall>p\<in>set ps. notifiable_subscriber_num (sub_info_htable t) + 1 \<le> notify_capacity p"
proof -
  have keep: "t = t\<lparr>pub_info_htable := pub_info_htable t\<rparr>" "list_all2 grown (pub_info_htable t) (pub_info_htable t)"
    by (simp_all add: list_all2_refl)
  note err0 = err [OF _ _ keep(2)]
  show thesis
  proof (cases "length (sub_info_htable t) = MAX_SUBSCRIBER_NUM \<or> current_pubsub_id t \<ge> MAX_TOPIC_LOCAL_ID \<or>
      \<not> fst (kmalloc al) \<or> \<not> fst (kmalloc (snd (kmalloc al)))")
    case True
    then show thesis using assms err0
      by (auto simp: insert_subscriber_info_def split: if_splits prod.splits)
  next
    case False
    define al2 where "al2 = snd (kmalloc (snd (kmalloc al)))"
    obtain y al3 ps where r: "reserve_all_notify_ctxs (pub_info_htable t)
        (notifiable_subscriber_num (sub_info_htable t) + 1) al2 = (y, al3, ps)" by (metis prod_cases3)
    note g = reserve_all_notify_ctxs_ok [OF r]
    show thesis
    proof (cases "nctx = None")
      case True
      then show thesis using False assms keep ok [of "pub_info_htable t"]
        by (auto simp: insert_subscriber_info_def split: prod.splits)
    next
      case some: False
      then have "(x, al', t') = (case y of Inl e \<Rightarrow> (Inl e, al3, t\<lparr>pub_info_htable := ps\<rparr>)
          | Inr _ \<Rightarrow> (Inr (current_pubsub_id t), al3, link_subscriber bkt r dm q nctx (t\<lparr>pub_info_htable := ps\<rparr>)))"
        using False assms r by (cases y) (auto simp: insert_subscriber_info_def al2_def split: prod.splits)
      then show thesis using g err [of _ ps] ok [of ps] False by (cases y) auto
    qed
  qed
qed

lemma insert_subscriber_info_inv:
  assumes inv: "topic_inv t" and n: "notify_ok r t"
    and run: "insert_subscriber_info bkt r dm q nctx al t = (x, al', t')"
  shows "topic_inv t'" and "notify_ok r t'"
proof -
  have "topic_inv t' \<and> notify_ok r t'"
    using run
  proof (cases rule: insert_subscriber_info_cases)
    case (err e ps)
    then show ?thesis using inv n grown_inv grown_notify_ok by (simp add: topic_inv_def)
  next
    case (ok ps)
    let ?t = "t\<lparr>pub_info_htable := ps\<rparr>"
    have "topic_inv ?t" "notify_ok r ?t" using inv n ok grown_inv grown_notify_ok by (auto simp: topic_inv_def)
    moreover have "length (sub_info_htable ?t) < MAX_SUBSCRIBER_NUM"
      using inv ok(4) by (simp add: topic_inv_def inv_but_def limits_ok_def)
    ultimately show ?thesis
      using ok link_subscriber_inv [of ?t] link_subscriber_notify [of r ?t] by auto
  qed
  then show "topic_inv t'" "notify_ok r t'" by auto
qed

lemma add_pub_inv:
  assumes inv: "topic_inv t" and room: "length (pub_info_htable t) < MAX_PUBLISHER_NUM"
    and idroom: "current_pubsub_id t < MAX_TOPIC_LOCAL_ID"
    and p: "pub_id p = current_pubsub_id t" "entries_num p = 0"
  shows "topic_inv (t\<lparr>current_pubsub_id := current_pubsub_id t + 1,
      pub_info_htable := hash_add bkt p (pub_info_htable t)\<rparr>)" (is "topic_inv ?t")
proof -
  note I = inv_butD [OF inv [unfolded topic_inv_def]]
  have ids: "pub_ids ?t = insert (current_pubsub_id t) (pub_ids t)" "sub_ids ?t = sub_ids t"
    using p(1) by (simp_all add: sub_ids_def pub_ids_def tbl_simps)
  have fresh: "current_pubsub_id t \<notin> pub_ids t" "current_pubsub_id t \<notin> sub_ids t"
    using I(2) by (auto simp: ids_ok_def)
  moreover have "\<forall>en\<in>set (entries t). en_publisher_id en \<in> pub_ids t"
    using I(1) by (simp add: pubs_fit_def pub_ids_def)
  ultimately have none: "owned (current_pubsub_id t) (entries t) = 0" unfolding owned_0 by metis
  have "pubs_fit (pub_info_htable ?t) (entries ?t)"
    using I(1) p none fresh(1) by (auto simp: pubs_fit_def tbl_simps pub_ids_def)
  moreover have "ids_ok ?t" using I(2) idroom fresh unfolding ids_ok_def ids by auto
  moreover have "limits_ok ?t" using I(3) room by (simp add: limits_ok_def tbl_simps)
  moreover have "tree_ok ?t" using I(4) by (simp add: tree_ok_def)
  moreover have "refs_ok {} ?t" using I(5) unfolding refs_ok_def ids by simp
  moreover have "window_ok ?t" using I(6) by (simp add: window_ok_def)
  ultimately show ?thesis by (simp add: topic_inv_def inv_but_def)
qed

lemma bump_id_inv:
  "topic_inv t \<Longrightarrow> current_pubsub_id t < MAX_TOPIC_LOCAL_ID \<Longrightarrow>
     topic_inv (t\<lparr>current_pubsub_id := current_pubsub_id t + 1\<rparr>)"
  by (force simp: topic_inv_def inv_but_def ids_ok_def limits_ok_def tree_ok_def refs_ok_def window_ok_def)

lemma insert_publisher_info_inv:
  assumes inv: "topic_inv t" and n: "notify_ok r t"
    and run: "insert_publisher_info bkt r dm q al t = (x, al', t')"
  shows "topic_inv t' \<and> notify_ok r t'"
proof (cases "length (pub_info_htable t) = MAX_PUBLISHER_NUM \<or> current_pubsub_id t \<ge> MAX_TOPIC_LOCAL_ID \<or>
      \<not> fst (kmalloc al) \<or> \<not> fst (kmalloc (snd (kmalloc al)))")
  case True
  then have "t' = t" using run by (auto simp: insert_publisher_info_def split: if_splits prod.splits)
  then show ?thesis using inv n by simp
next
  case False
  define al2 where "al2 = snd (kmalloc (snd (kmalloc al)))"
  let ?p = "new_publisher dm q (current_pubsub_id t)" and ?t1 = "t\<lparr>current_pubsub_id := current_pubsub_id t + 1\<rparr>"
  obtain y al3 p where r: "reserve_notify_ctxs ?p (notifiable_subscriber_num (sub_info_htable t)) al2 = (y, al3, p)"
    by (metis prod_cases3)
  note g = reserve_notify_ctxs_ok [OF r]
  let ?q = "rebuild_notify_list r (sub_info_htable t) p"
  have t': "t' = (case y of Inl _ \<Rightarrow> ?t1
      | Inr _ \<Rightarrow> ?t1\<lparr>pub_info_htable := hash_add (bkt \<circ> pub_id) ?q (pub_info_htable t)\<rparr>)"
    using False run r by (cases y) (auto simp: insert_publisher_info_def al2_def Let_def split: prod.splits)
  show ?thesis
  proof (cases y)
    case (Inl e)
    then show ?thesis using t' inv n False bump_id_inv by (auto simp: notify_ok_def)
  next
    case (Inr u)
    have "length (pub_info_htable t) < MAX_PUBLISHER_NUM"
      using inv False by (simp add: topic_inv_def inv_but_def limits_ok_def)
    moreover have "pub_id ?q = current_pubsub_id t" "entries_num ?q = 0"
      using grown_fields [OF g(1)] by (simp_all add: rebuild_notify_list_def new_publisher_def)
    ultimately have "topic_inv t'" using t' Inr False add_pub_inv [OF inv] by simp
    moreover have "notify_ok r t'"
      using n t' Inr g(2) rebuild_complete [of "sub_info_htable t" p r]
      by (auto simp: notify_ok_def tbl_simps) (simp add: rebuild_notify_list_def)
    ultimately show ?thesis by simp
  qed
qed

section \<open>Leaving\<close>

text \<open>What a leaving endpoint does to the publisher table: some publishers go, the others change
  their entry count only.\<close>

definition pubs_like :: "publisher_info list \<Rightarrow> publisher_info list \<Rightarrow> bool" where
  "pubs_like ps ps' \<longleftrightarrow> length ps' \<le> length ps \<and>
     (\<forall>p'\<in>set ps'. \<exists>p\<in>set ps. \<exists>n. p' = p\<lparr>entries_num := n\<rparr>)"

lemma pub_self: "p \<in> set ps \<Longrightarrow> \<exists>q\<in>set ps. \<exists>n. p = q\<lparr>entries_num := n\<rparr>"
  by (intro bexI [of _ p] exI [of _ "entries_num p"]) auto

lemma pubs_like_refl [simp]: "pubs_like ps ps"
  by (simp add: pubs_like_def pub_self)

lemma pubs_like_trans: "pubs_like a b \<Longrightarrow> pubs_like b c \<Longrightarrow> pubs_like a c"
  unfolding pubs_like_def by (fastforce dest: bspec)

lemma pubs_like_upd: "pubs_like ps (upd_key pub_id i (\<lambda>p. p\<lparr>entries_num := f p\<rparr>) ps)"
  unfolding pubs_like_def by (auto simp: tbl_simps set_upd_key pub_self)

lemma pubs_like_del: "pubs_like ps (del_key pub_id i ps)"
  by (auto simp: pubs_like_def del_key_def pub_self)

lemma pubs_like_drop: "pubs_like ps (drop_entry_of i ps)"
  using pubs_like_trans [OF pubs_like_upd pubs_like_del] pubs_like_upd
  by (auto simp: drop_entry_of_def Let_def split: option.splits)

lemma pubs_like_pub_ids: "pubs_like ps ps' \<Longrightarrow> pub_id ` set ps' \<subseteq> pub_id ` set ps"
  by (fastforce simp: pubs_like_def)

lemma pubs_like_domains: "pubs_like ps ps' \<Longrightarrow> pub_domain_id ` set ps' \<subseteq> pub_domain_id ` set ps"
  by (fastforce simp: pubs_like_def)

lemma pubs_like_notify:
  assumes "notify_ok r t" and "pubs_like (pub_info_htable t) (pub_info_htable t')"
    and "sub_info_htable t' = sub_info_htable t"
  shows "notify_ok r t'"
  unfolding notify_ok_def
proof
  fix p' assume "p' \<in> set (pub_info_htable t')"
  then obtain p where p: "p \<in> set (pub_info_htable t)" "\<exists>n. p' = p\<lparr>entries_num := n\<rparr>"
    using assms(2) unfolding pubs_like_def by blast
  then have "notify_ctxs p' = notify_ctxs p" "notify_capacity p' = notify_capacity p"
    "pub_domain_id p' = pub_domain_id p" "pub_is_bridge p' = pub_is_bridge p" "pub_pid p' = pub_pid p"
    by auto
  then show "notify_ctxs p' = notify_targets r (sub_info_htable t') p' \<and>
      notifiable_subscriber_num (sub_info_htable t') \<le> notify_capacity p'"
    using assms(1,3) p(1) notify_targets_cong [of p' p r "sub_info_htable t"]
    by (auto simp: notify_ok_def)
qed

text \<open>Shrinking the publisher table to one that still fits keeps the invariant.\<close>

lemma shrink_pubs_inv:
  assumes inv: "inv_but X t" and fit: "pubs_fit ps (entries t)" and like: "pubs_like (pub_info_htable t) ps"
  shows "inv_but X (t\<lparr>pub_info_htable := ps\<rparr>)"
proof -
  note I = inv_butD [OF inv]
  have "pub_ids (t\<lparr>pub_info_htable := ps\<rparr>) \<subseteq> pub_ids t"
    using pubs_like_pub_ids [OF like] by (simp add: pub_ids_def)
  then have "ids_ok (t\<lparr>pub_info_htable := ps\<rparr>)" using I(2) by (auto simp: ids_ok_def)
  moreover have "limits_ok (t\<lparr>pub_info_htable := ps\<rparr>)" using I(3) like by (simp add: limits_ok_def pubs_like_def)
  ultimately show ?thesis
    using I(4-6) fit by (simp add: inv_but_def tree_ok_def refs_ok_def window_ok_def)
qed

lemma drop_publisher_inv:
  assumes inv: "inv_but X t"
  shows "inv_but X (drop_publisher i t)"
    and "pubs_like (pub_info_htable t) (pub_info_htable (drop_publisher i t))"
proof -
  let ?t = "upd_pub i (\<lambda>p. p\<lparr>entries_num := entries_num p - length (filter (publisher_unreferenced i) (entries t))\<rparr>)
     (t\<lparr>entries := filter (\<lambda>en. \<not> publisher_unreferenced i en) (entries t)\<rparr>)"
  have inv': "inv_but X ?t" by (rule remove_own_inv [OF inv]) (simp add: publisher_unreferenced_def)
  have like: "pubs_like (pub_info_htable t) (pub_info_htable ?t)" using pubs_like_upd by simp
  have "inv_but X (drop_publisher i t) \<and> pubs_like (pub_info_htable t) (pub_info_htable (drop_publisher i t))"
  proof (cases "find_publisher_info i ?t")
    case None
    then show ?thesis using inv' like by (simp add: drop_publisher_def Let_def)
  next
    case (Some p)
    have "p \<in> set (pub_info_htable ?t)" "pub_id p = i"
      using Some find_publisher_info_Some [OF inv_butD(1) [OF inv']] by blast+
    then have p: "entries_num p = owned i (entries ?t)"
      using inv_butD(1) [OF inv'] unfolding pubs_fit_def by blast
    show ?thesis
    proof (cases "entries_num p = 0")
      case True
      then have "drop_publisher i t = ?t\<lparr>pub_info_htable := del_key pub_id i (pub_info_htable ?t)\<rparr>"
        using Some by (simp add: drop_publisher_def Let_def)
      moreover have "inv_but X (?t\<lparr>pub_info_htable := del_key pub_id i (pub_info_htable ?t)\<rparr>)"
        using True p inv_butD(1) [OF inv'] by (intro shrink_pubs_inv [OF inv' pubs_fit_del pubs_like_del]) auto
      ultimately show ?thesis using pubs_like_trans [OF like pubs_like_del] by simp
    next
      case False
      then show ?thesis using Some inv' like by (simp add: drop_publisher_def Let_def)
    qed
  qed
  then show "inv_but X (drop_publisher i t)"
    "pubs_like (pub_info_htable t) (pub_info_htable (drop_publisher i t))" by auto
qed

lemma drop_publisher_fields [simp]:
  "sub_info_htable (drop_publisher i t) = sub_info_htable t"
  "sub_ids (drop_publisher i t) = sub_ids t"
  "wrapper_refcnt (drop_publisher i t) = wrapper_refcnt t" "topic_rule (drop_publisher i t) = topic_rule t"
  "entries (drop_publisher i t) = filter (\<lambda>en. \<not> publisher_unreferenced i en) (entries t)"
  by (auto simp: drop_publisher_def Let_def split: option.splits)

text \<open>Which entries the loop of a leaving subscriber keeps: those somebody else references and
  those whose publisher's process lives.\<close>

definition alive_pub :: "process_info list \<Rightarrow> publisher_info list \<Rightarrow> int \<Rightarrow> bool" where
  "alive_pub procs pubs i =
     (case find_key pub_id i pubs of None \<Rightarrow> True | Some p \<Rightarrow> owner_is_alive procs (pub_pid p))"

definition clear_ref :: "int \<Rightarrow> entry_node \<Rightarrow> entry_node" where
  "clear_ref sid en = en\<lparr>referencing_subscribers := referencing_subscribers en - {sid}\<rparr>"

lemma clear_ref_fields [simp]:
  "entry_id (clear_ref i en) = entry_id en" "en_publisher_id (clear_ref i en) = en_publisher_id en"
  "referencing_subscribers (clear_ref i en) = referencing_subscribers en - {i}"
  "msg_virtual_address (clear_ref i en) = msg_virtual_address en"
  by (simp_all add: clear_ref_def)

lemma alive_pub_drop:
  assumes "pubs_fit pubs (pre @ en # es)" and "e \<in> set (pre @ es)"
  shows "alive_pub procs (drop_entry_of (en_publisher_id en) pubs) (en_publisher_id e) =
    alive_pub procs pubs (en_publisher_id e)"
proof -
  let ?i = "en_publisher_id en"
  have pres: "pubs_fit (drop_entry_of ?i pubs) (pre @ es)" using assms(1) by (rule drop_entry_of_fit)
  have "en_publisher_id e \<in> pub_id ` set (drop_entry_of ?i pubs)"
    using pres assms(2) by (auto simp: pubs_fit_def)
  then have "find_key pub_id (en_publisher_id e) (drop_entry_of ?i pubs) \<noteq> None"
    by (simp add: find_key_None)
  then show ?thesis
    unfolding alive_pub_def drop_entry_of_def Let_def
    by (auto simp: find_del_key find_upd_key split: option.splits if_splits)
qed

lemma drop_subscriber_refs_spec:
  assumes "pubs_fit pubs (pre @ es)" and "drop_subscriber_refs procs sid pubs es = (ps', es')"
  shows "es' = filter (\<lambda>en. agnocast_is_referenced en \<or> alive_pub procs pubs (en_publisher_id en))
                 (map (clear_ref sid) es) \<and>
     pubs_fit ps' (pre @ es') \<and> pubs_like pubs ps'"
  using assms
proof (induction es arbitrary: pre pubs ps' es')
  case (Cons en es)
  let ?en = "clear_ref sid en" and ?i = "en_publisher_id en"
  have fit: "pubs_fit pubs ((pre @ [?en]) @ es)"
    using Cons.prems(1) by (auto simp: pubs_fit_def)
  have gone: "alive_pub procs pubs ?i \<longleftrightarrow> find_key pub_id ?i pubs = None \<or>
      (\<exists>p. find_key pub_id ?i pubs = Some p \<and> owner_is_alive procs (pub_pid p))"
    by (auto simp: alive_pub_def split: option.splits)
  show ?case
  proof (cases "agnocast_is_referenced ?en \<or> alive_pub procs pubs ?i")
    case True
    obtain ps1 es1 where r: "drop_subscriber_refs procs sid pubs es = (ps1, es1)" by fastforce
    have "drop_subscriber_refs procs sid pubs (en # es) = (ps1, ?en # es1)"
      using True r by (auto simp: Let_def clear_ref_def alive_pub_def split: option.splits)
    then show ?thesis using Cons.IH [OF fit r] Cons.prems(2) True by auto
  next
    case False
    let ?pubs = "drop_entry_of ?i pubs"
    have d: "drop_subscriber_refs procs sid pubs (en # es) = drop_subscriber_refs procs sid ?pubs es"
      using False by (auto simp: Let_def clear_ref_def alive_pub_def split: option.splits)
    have "pubs_fit ?pubs (pre @ es)" using Cons.prems(1) by (rule drop_entry_of_fit)
    from Cons.IH [OF this Cons.prems(2) [unfolded d]]
    have IH: "es' = filter (\<lambda>en. agnocast_is_referenced en \<or> alive_pub procs ?pubs (en_publisher_id en))
          (map (clear_ref sid) es)" "pubs_fit ps' (pre @ es')" "pubs_like ?pubs ps'" by auto
    have "filter (\<lambda>en. agnocast_is_referenced en \<or> alive_pub procs ?pubs (en_publisher_id en)) (map (clear_ref sid) es) =
        filter (\<lambda>en. agnocast_is_referenced en \<or> alive_pub procs pubs (en_publisher_id en)) (map (clear_ref sid) es)"
      using alive_pub_drop [OF Cons.prems(1)] by (intro filter_cong) auto
    then show ?thesis using IH False pubs_like_trans [OF pubs_like_drop IH(3)] by simp
  qed
qed simp

lemma drop_refs_of_inv:
  assumes inv: "inv_but (insert sid X) t" and sid: "sid \<notin> sub_ids t"
  shows "inv_but X (drop_refs_of procs sid t)"
    and "pubs_like (pub_info_htable t) (pub_info_htable (drop_refs_of procs sid t))"
    and "entries (drop_refs_of procs sid t) =
      filter (\<lambda>en. agnocast_is_referenced en \<or> alive_pub procs (pub_info_htable t) (en_publisher_id en))
        (map (clear_ref sid) (entries t))"
proof -
  let ?t1 = "t\<lparr>entries := map (clear_ref sid) (entries t)\<rparr>"
  obtain ps es where r: "drop_subscriber_refs procs sid (pub_info_htable t) (entries t) = (ps, es)" by fastforce
  have "pubs_fit (pub_info_htable t) ([] @ entries t)" using inv_butD(1) [OF inv] by simp
  from drop_subscriber_refs_spec [OF this r]
  have es: "es = filter (\<lambda>en. agnocast_is_referenced en \<or> alive_pub procs (pub_info_htable t) (en_publisher_id en))
      (map (clear_ref sid) (entries t))" and fit: "pubs_fit ps es" and like: "pubs_like (pub_info_htable t) ps"
    by auto
  have d: "drop_refs_of procs sid t = t\<lparr>pub_info_htable := ps, entries := es\<rparr>"
    by (simp add: drop_refs_of_def r)
  have "inv_but (insert sid X) ?t1" by (rule map_entries_inv [OF inv]) auto
  note I1 = inv_butD [OF this]
  have "pub_ids (t\<lparr>pub_info_htable := ps, entries := es\<rparr>) \<subseteq> pub_ids t"
    using pubs_like_pub_ids [OF like] by (simp add: pub_ids_def)
  then have "ids_ok (t\<lparr>pub_info_htable := ps, entries := es\<rparr>)" using I1(2) by (auto simp: ids_ok_def)
  moreover have "limits_ok (t\<lparr>pub_info_htable := ps, entries := es\<rparr>)"
    using I1(3) like by (simp add: limits_ok_def pubs_like_def)
  moreover have "tree_ok (t\<lparr>pub_info_htable := ps, entries := es\<rparr>)"
    using I1(4) unfolding es by (auto simp: tree_ok_def sorted_wrt_filter_map)
  moreover have "refs_ok X (t\<lparr>pub_info_htable := ps, entries := es\<rparr>)"
    using inv_butD(5) [OF inv] unfolding es by (fastforce simp: refs_ok_def)
  moreover have "window_ok (t\<lparr>pub_info_htable := ps, entries := es\<rparr>)"
    using I1(6) unfolding es by (auto simp: window_ok_def)
  ultimately show "inv_but X (drop_refs_of procs sid t)" using fit by (simp add: d inv_but_def)
  show "pubs_like (pub_info_htable t) (pub_info_htable (drop_refs_of procs sid t))" using like by (simp add: d)
  show "entries (drop_refs_of procs sid t) =
      filter (\<lambda>en. agnocast_is_referenced en \<or> alive_pub procs (pub_info_htable t) (en_publisher_id en))
        (map (clear_ref sid) (entries t))" by (simp add: d es)
qed

lemma drop_refs_of_fields [simp]:
  "sub_info_htable (drop_refs_of procs sid t) = sub_info_htable t"
  "sub_ids (drop_refs_of procs sid t) = sub_ids t"
  "wrapper_refcnt (drop_refs_of procs sid t) = wrapper_refcnt t"
  "topic_rule (drop_refs_of procs sid t) = topic_rule t"
  by (auto simp: drop_refs_of_def sub_ids_def split: prod.splits)

lemma filter_subs_inv:
  assumes inv: "topic_inv t"
  shows "inv_but (sub_id ` {s \<in> set (sub_info_htable t). \<not> P s})
     (t\<lparr>sub_info_htable := filter P (sub_info_htable t)\<rparr>)" (is "inv_but ?X ?t")
proof -
  note I = inv_butD [OF inv [unfolded topic_inv_def]]
  have "sub_ids ?t \<subseteq> sub_ids t" "sub_ids t = sub_ids ?t \<union> ?X" by (auto simp: sub_ids_def)
  then have "ids_ok ?t" "refs_ok ?X ?t"
    using I(2,5) by (auto simp: ids_ok_def refs_ok_def)
  moreover have "limits_ok ?t"
    using I(3) by (auto simp: limits_ok_def intro: le_trans [OF length_filter_le])
  ultimately show ?thesis using I(1,4,6) by (simp add: inv_but_def tree_ok_def window_ok_def)
qed

lemma notifiable_filter: "notifiable_subscriber_num (filter P subs) \<le> notifiable_subscriber_num subs"
  by (induction subs) (auto simp: notifiable_subscriber_num_def)

lemma rebuild_after_filter:
  "notify_ok r t \<Longrightarrow> notify_ok r (rebuild_all_notify_lists r (t\<lparr>sub_info_htable := filter P (sub_info_htable t)\<rparr>))"
  by (rule rebuild_all_notify_ok) (force simp: notify_ok_def intro: le_trans [OF notifiable_filter])

lemma unlink_inv:
  assumes inv: "topic_inv t" and s: "s \<in> set (sub_info_htable t)"
  shows "inv_but {sub_id s} (agnocast_unlink_subscriber_info r s t)"
    and "sub_id s \<notin> sub_ids (agnocast_unlink_subscriber_info r s t)"
proof -
  have "sub_id ` {x \<in> set (sub_info_htable t). \<not> sub_id x \<noteq> sub_id s} = {sub_id s}" using s by auto
  with filter_subs_inv [OF inv, of "\<lambda>x. sub_id x \<noteq> sub_id s"]
  show "inv_but {sub_id s} (agnocast_unlink_subscriber_info r s t)"
    by (simp add: agnocast_unlink_subscriber_info_def Let_def rebuild_all_inv del_key_def)
  show "sub_id s \<notin> sub_ids (agnocast_unlink_subscriber_info r s t)"
    by (auto simp: agnocast_unlink_subscriber_info_def Let_def sub_ids_def tbl_simps)
qed

lemma unlink_notify:
  assumes inv: "topic_inv t" and s: "s \<in> set (sub_info_htable t)" and n: "notify_ok r t"
  shows "notify_ok r (agnocast_unlink_subscriber_info r s t)"
proof (cases "notify_ctx s")
  case (Some c)
  then show ?thesis using rebuild_after_filter [OF n]
    by (simp add: agnocast_unlink_subscriber_info_def Let_def del_key_def)
next
  case None
  have only: "x = s" if "x \<in> set (sub_info_htable t)" "sub_id x = sub_id s" for x
    using inv that s by (auto simp: topic_inv_def inv_but_def ids_ok_def distinct_map dest: inj_onD)
  then have silent: "notify_ctx x = None" if "x \<in> set (sub_info_htable t)" "sub_id x = sub_id s" for x
    using None that by metis
  then have "filter (notify_target r p) (del_key sub_id (sub_id s) (sub_info_htable t)) =
      filter (notify_target r p) (sub_info_htable t)" for p
    by (auto simp: del_key_def notify_target_def intro!: filter_cong)
  moreover have "filter (\<lambda>s. notify_ctx s \<noteq> None) (del_key sub_id (sub_id s) (sub_info_htable t)) =
      filter (\<lambda>s. notify_ctx s \<noteq> None) (sub_info_htable t)"
    using silent by (auto simp: del_key_def intro!: filter_cong)
  ultimately show ?thesis
    using n None by (simp add: agnocast_unlink_subscriber_info_def Let_def notify_ok_def
        notify_targets_def notifiable_subscriber_num_def)
qed

subsection \<open>The exit handlers\<close>

lemma fold_drop_publisher:
  assumes "inv_but X t"
  shows "inv_but X (fold drop_publisher is t) \<and>
    pubs_like (pub_info_htable t) (pub_info_htable (fold drop_publisher is t)) \<and>
    sub_info_htable (fold drop_publisher is t) = sub_info_htable t \<and>
    wrapper_refcnt (fold drop_publisher is t) = wrapper_refcnt t \<and>
    topic_rule (fold drop_publisher is t) = topic_rule t"
  using assms
proof (induction "is" arbitrary: t)
  case (Cons i "is")
  show ?case
    using Cons.IH [OF drop_publisher_inv(1) [OF Cons.prems, of i]]
      drop_publisher_inv(2) [OF Cons.prems, of i] pubs_like_trans
    by auto
qed simp

lemma pre_handler_publisher_exit_inv:
  assumes "topic_inv t"
  shows "topic_inv (pre_handler_publisher_exit p t)"
    and "notify_ok r t \<Longrightarrow> notify_ok r (pre_handler_publisher_exit p t)"
    and "sub_info_htable (pre_handler_publisher_exit p t) = sub_info_htable t"
    and "wrapper_refcnt (pre_handler_publisher_exit p t) = wrapper_refcnt t"
    and "topic_rule (pre_handler_publisher_exit p t) = topic_rule t"
    and "pubs_like (pub_info_htable t) (pub_info_htable (pre_handler_publisher_exit p t))"
  using fold_drop_publisher [OF assms [unfolded topic_inv_def], of
      "map pub_id (filter (\<lambda>q. pub_pid q = p) (pub_info_htable t))"] pubs_like_notify
  unfolding pre_handler_publisher_exit_def topic_inv_def by blast+

definition drop_leaving :: "process_info list \<Rightarrow> subscriber_info list \<Rightarrow> topic_struct \<Rightarrow> topic_struct" where
  "drop_leaving procs leaving =
     fold (\<lambda>s t. if sub_id s < 0 \<or> sub_id s \<ge> MAX_TOPIC_LOCAL_ID then t
                 else drop_refs_of procs (sub_id s) t) leaving"

lemma drop_leaving_inv:
  assumes "inv_but (sub_id ` set leaving) t" and "sub_id ` set leaving \<inter> sub_ids t = {}"
    and "\<forall>s\<in>set leaving. 0 \<le> sub_id s \<and> sub_id s < MAX_TOPIC_LOCAL_ID"
  shows "inv_but {} (drop_leaving procs leaving t) \<and>
    pubs_like (pub_info_htable t) (pub_info_htable (drop_leaving procs leaving t)) \<and>
    sub_info_htable (drop_leaving procs leaving t) = sub_info_htable t \<and>
    wrapper_refcnt (drop_leaving procs leaving t) = wrapper_refcnt t \<and>
    topic_rule (drop_leaving procs leaving t) = topic_rule t"
  using assms
proof (induction leaving arbitrary: t)
  case Nil
  then show ?case by (simp add: drop_leaving_def)
next
  case (Cons s ls)
  let ?t = "drop_refs_of procs (sub_id s) t"
  have s: "sub_id s \<notin> sub_ids t" using Cons.prems(2) by auto
  have inv: "inv_but (insert (sub_id s) (sub_id ` set ls)) t" using Cons.prems(1) by simp
  note D = drop_refs_of_inv [OF inv s, of procs]
  have step: "drop_leaving procs (s # ls) t = drop_leaving procs ls ?t"
    using Cons.prems(3) by (auto simp: drop_leaving_def)
  have "sub_id ` set ls \<inter> sub_ids ?t = {}" using Cons.prems(2) by auto
  from Cons.IH [OF D(1) this] Cons.prems(3) pubs_like_trans [OF D(2)]
  show ?case unfolding step by auto
qed

lemma leaving_facts:
  assumes inv: "topic_inv t"
  defines "leaving p \<equiv> rev (filter (\<lambda>s. sub_pid s = p) (sub_info_htable t))"
  defines "rest r p \<equiv> rebuild_all_notify_lists r (t\<lparr>sub_info_htable := filter (\<lambda>s. sub_pid s \<noteq> p) (sub_info_htable t)\<rparr>)"
  shows "inv_but (sub_id ` set (leaving p)) (rest r p)"
    and "sub_id ` set (leaving p) \<inter> sub_ids (rest r p) = {}"
    and "\<forall>s\<in>set (leaving p). 0 \<le> sub_id s \<and> sub_id s < MAX_TOPIC_LOCAL_ID"
proof -
  have X: "sub_id ` {s \<in> set (sub_info_htable t). \<not> sub_pid s \<noteq> p} = sub_id ` set (leaving p)"
    by (auto simp: leaving_def)
  show "inv_but (sub_id ` set (leaving p)) (rest r p)"
    using filter_subs_inv [OF inv, of "\<lambda>s. sub_pid s \<noteq> p"] unfolding X rest_def rebuild_all_inv .
  have dis: "distinct (map sub_id (sub_info_htable t))"
    using inv by (auto simp: topic_inv_def inv_but_def ids_ok_def)
  then show "sub_id ` set (leaving p) \<inter> sub_ids (rest r p) = {}"
    by (auto simp: sub_ids_def leaving_def rest_def distinct_map dest: inj_onD)
  show "\<forall>s\<in>set (leaving p). 0 \<le> sub_id s \<and> sub_id s < MAX_TOPIC_LOCAL_ID"
    using inv by (auto simp: topic_inv_def inv_but_def ids_ok_def sub_ids_def leaving_def)
qed

lemma pre_handler_subscriber_exit_inv:
  assumes inv: "topic_inv t"
  shows "topic_inv (pre_handler_subscriber_exit procs r p t)"
    and "notify_ok r t \<Longrightarrow> notify_ok r (pre_handler_subscriber_exit procs r p t)"
    and "sub_info_htable (pre_handler_subscriber_exit procs r p t) =
      filter (\<lambda>s. sub_pid s \<noteq> p) (sub_info_htable t)"
    and "wrapper_refcnt (pre_handler_subscriber_exit procs r p t) = wrapper_refcnt t"
    and "topic_rule (pre_handler_subscriber_exit procs r p t) = topic_rule t"
    and "pub_domain_id ` set (pub_info_htable (pre_handler_subscriber_exit procs r p t)) \<subseteq>
      pub_domain_id ` set (pub_info_htable t)"
proof -
  let ?leaving = "rev (filter (\<lambda>s. sub_pid s = p) (sub_info_htable t))"
  let ?t1 = "t\<lparr>sub_info_htable := filter (\<lambda>s. sub_pid s \<noteq> p) (sub_info_htable t)\<rparr>"
  let ?t2 = "rebuild_all_notify_lists r ?t1"
  note D = drop_leaving_inv [OF leaving_facts(1,2) [OF inv, of p r] leaving_facts(3) [OF inv], of procs]
  have e: "pre_handler_subscriber_exit procs r p t = (if ?leaving = [] then t else drop_leaving procs ?leaving ?t2)"
    by (simp add: pre_handler_subscriber_exit_def drop_leaving_def Let_def)
  show "topic_inv (pre_handler_subscriber_exit procs r p t)"
    using D inv unfolding e topic_inv_def by (cases "?leaving = []") simp_all
  show "notify_ok r (pre_handler_subscriber_exit procs r p t)" if n: "notify_ok r t"
  proof (cases "?leaving = []")
    case False
    have "notify_ok r (drop_leaving procs ?leaving ?t2)"
      by (rule pubs_like_notify [OF rebuild_after_filter [OF n]]) (use D in auto)
    then show ?thesis using False by (simp add: e)
  qed (simp add: e n)
  show "sub_info_htable (pre_handler_subscriber_exit procs r p t) = filter (\<lambda>s. sub_pid s \<noteq> p) (sub_info_htable t)"
    using D unfolding e by (cases "?leaving = []") (auto simp: filter_empty_conv intro!: filter_True [symmetric])
  show "wrapper_refcnt (pre_handler_subscriber_exit procs r p t) = wrapper_refcnt t"
    "topic_rule (pre_handler_subscriber_exit procs r p t) = topic_rule t"
    using D unfolding e by (cases "?leaving = []"; simp)+
  have "pub_domain_id ` set (pub_info_htable ?t2) = pub_domain_id ` set (pub_info_htable t)"
    by (simp add: rebuild_all_notify_lists_def rebuild_notify_list_def image_image)
  then show "pub_domain_id ` set (pub_info_htable (pre_handler_subscriber_exit procs r p t)) \<subseteq>
      pub_domain_id ` set (pub_info_htable t)"
    using D pubs_like_domains unfolding e by (cases "?leaving = []") (auto, fastforce)
qed

end
