(* ===== verification/Kmod_State.thy ===== *)
theory Kmod_State
  imports Kmod_Topic_Endpoints
begin

text \<open>
  The global state of the kernel module and its ioctl handlers
  (\<open>agnocast_ioctl.c\<close>): the topic table, the process table, the domain bridge rules, the ROS 2
  bridge table, the discovery agents and the memory pools.

  Topic wrappers of grouped domains share one \<open>topic_struct\<close>, so topics live in a store indexed by
  address; \<open>next_topic\<close> is an address no live topic has. An ioctl handler runs under
  \<open>global_htables_rwsem\<close> and the topic's \<open>rwsem\<close>, so it is one atomic step of the state. The exception is
  the hand-over of exited processes, which takes the lock twice. Copies from and to user space are
  modelled where a handler's outcome depends on them between two sections.
\<close>

section \<open>Data\<close>

record topic_wrapper =
  wr_ipc_ns :: ipc_ns
  wr_domain_id :: domain
  wr_key :: string
  wr_topic :: nat

record bridge_info =
  br_topic_name :: string
  br_pid :: pid
  has_r2a :: bool
  has_a2r :: bool
  br_ipc_ns :: ipc_ns

record discovery_agent_info =
  da_pid :: pid
  da_ipc_ns :: ipc_ns
  da_domain_id :: domain

record kstate =
  topic_hashtable :: "topic_wrapper list"
  topics :: "nat \<Rightarrow> topic_struct option"
  next_topic :: nat
  proc_info_htable :: "process_info list"
  domain_rule_htable :: "domain_bridge_rule list"
  next_rule :: nat
  bridge_htable :: "bridge_info list"
  discovery_agent_htable :: "discovery_agent_info list"
  mempool_entries :: pools
  mempool_size_bytes :: u64

text \<open>What the module takes from the kernel: the bucket functions (\<open>hash_min\<close>,
  \<open>full_name_hash\<close>), the translation of a global pid to the caller's namespace (\<open>-1\<close> when there
  is none), and \<open>eventfd_ctx_fdget\<close>.\<close>

record kenv =
  topic_bkt :: "string \<Rightarrow> nat"
  id_bkt :: "int \<Rightarrow> nat"
  pid_bkt :: "pid \<Rightarrow> nat"
  rule_bkt :: "string \<Rightarrow> nat"
  bridge_bkt :: "string \<Rightarrow> nat"
  agent_bkt :: "pid \<Rightarrow> nat"
  convert_pid_to_local :: "pid \<Rightarrow> pid"
  agnocast_eventfd_get :: "int \<Rightarrow> ctx res"

definition AGNOCAST_DOMAIN_ID_NONE :: domain where "AGNOCAST_DOMAIN_ID_NONE = 4294967295"

definition init_kstate :: "u64 \<Rightarrow> pools \<Rightarrow> kstate" where
  "init_kstate sz ps =
     \<lparr>topic_hashtable = [], topics = Map.empty, next_topic = 0, proc_info_htable = [],
      domain_rule_htable = [], next_rule = 0, bridge_htable = [], discovery_agent_htable = [],
      mempool_entries = ps, mempool_size_bytes = sz\<rparr>"

section \<open>Lookups\<close>

definition find_topic :: "string \<Rightarrow> ipc_ns \<Rightarrow> domain \<Rightarrow> kstate \<Rightarrow> topic_wrapper option" where
  "find_topic name ns dm k =
     find (\<lambda>w. wr_ipc_ns w = ns \<and> wr_domain_id w = dm \<and> wr_key w = name) (topic_hashtable k)"

definition get_process_domain_id :: "pid \<Rightarrow> kstate \<Rightarrow> domain" where
  "get_process_domain_id p k =
     (case agnocast_find_process_info p (proc_info_htable k) of Some pr \<Rightarrow> proc_domain_id pr | None \<Rightarrow> 0)"

definition find_topic_for_current :: "pid \<Rightarrow> string \<Rightarrow> ipc_ns \<Rightarrow> kstate \<Rightarrow> topic_wrapper option" where
  "find_topic_for_current cur name ns k = find_topic name ns (get_process_domain_id cur k) k"

text \<open>\<open>strncmp(p, s, strlen(p)) == 0\<close>.\<close>

definition starts_with :: "string \<Rightarrow> string \<Rightarrow> bool" where
  "starts_with p s \<longleftrightarrow> take (length p) s = p"

definition rule_matches :: "string \<Rightarrow> ipc_ns \<Rightarrow> domain \<Rightarrow> domain_bridge_rule \<Rightarrow> bool" where
  "rule_matches name ns dm ru \<longleftrightarrow>
     ns = rule_ipc_ns ru \<and> (dm = domain_a ru \<or> dm = domain_b ru) \<and>
     (if is_prefix ru then starts_with (topic_name_a ru) name
      else (dm = domain_a ru \<and> topic_name_a ru = name) \<or> (dm = domain_b ru \<and> topic_name_b ru = name))"

definition find_domain_rule :: "string \<Rightarrow> ipc_ns \<Rightarrow> domain \<Rightarrow> kstate \<Rightarrow> domain_bridge_rule option" where
  "find_domain_rule name ns dm k = find (rule_matches name ns dm) (domain_rule_htable k)"

definition find_grouped_topic_struct :: "string \<Rightarrow> ipc_ns \<Rightarrow> domain \<Rightarrow> kstate \<Rightarrow> nat option" where
  "find_grouped_topic_struct name ns dm k =
     (case find_domain_rule name ns dm k of
        None \<Rightarrow> None
      | Some ru \<Rightarrow>
          if dm = domain_a ru then
            map_option wr_topic
              (find_topic (if is_prefix ru then name else topic_name_b ru) ns (domain_b ru) k)
          else if dm = domain_b ru then
            map_option wr_topic
              (find_topic (if is_prefix ru then name else topic_name_a ru) ns (domain_a ru) k)
          else None)"

text \<open>Dereferencing \<open>wrapper->topic\<close> and \<open>topic->rule\<close>. That a wrapper's topic is never a freed
  one is part of the global invariant.\<close>

definition topic_of :: "kstate \<Rightarrow> topic_wrapper \<Rightarrow> topic_struct" where
  "topic_of k w = the (topics k (wr_topic w))"

definition rule_of :: "kstate \<Rightarrow> topic_struct \<Rightarrow> domain_bridge_rule option" where
  "rule_of k t = (case topic_rule t of None \<Rightarrow> None | Some a \<Rightarrow> find_key rule_ptr a (domain_rule_htable k))"

definition set_topic :: "topic_wrapper \<Rightarrow> topic_struct \<Rightarrow> kstate \<Rightarrow> kstate" where
  "set_topic w t k = k\<lparr>topics := (topics k)(wr_topic w \<mapsto> t)\<rparr>"

section \<open>Topics\<close>

definition new_topic_struct :: "nat option \<Rightarrow> topic_struct" where
  "new_topic_struct ru =
     \<lparr>entries = [], pub_info_htable = [], sub_info_htable = [], current_pubsub_id = 0,
      current_entry_id = 0, ros2_subscriber_num = 0, ros2_publisher_num = 0, wrapper_refcnt = 1,
      topic_rule = ru\<rparr>"

definition add_topic ::
  "kenv \<Rightarrow> string \<Rightarrow> ipc_ns \<Rightarrow> domain \<Rightarrow> allocs \<Rightarrow> kstate \<Rightarrow> topic_wrapper res \<times> allocs \<times> kstate" where
  "add_topic env name ns dm al k =
     (case find_topic name ns dm k of
        Some w \<Rightarrow> (Inr w, al, k)
      | None \<Rightarrow>
          (case kmalloc al of (ok1, al1) \<Rightarrow>
           if \<not> ok1 then (Inl ENOMEM, al1, k)
           else case kmalloc al1 of (ok2, al2) \<Rightarrow>
           if \<not> ok2 then (Inl ENOMEM, al2, k)
           else
             let mk = (\<lambda>a. \<lparr>wr_ipc_ns = ns, wr_domain_id = dm, wr_key = name, wr_topic = a\<rparr>);
                 link = (\<lambda>w k. k\<lparr>topic_hashtable := hash_add (topic_bkt env \<circ> wr_key) w (topic_hashtable k)\<rparr>)
             in case find_grouped_topic_struct name ns dm k of
                  Some a \<Rightarrow>
                    (Inr (mk a), al2,
                     link (mk a)
                       (k\<lparr>topics := (topics k)(a := map_option (\<lambda>t. t\<lparr>wrapper_refcnt := wrapper_refcnt t + 1\<rparr>) (topics k a))\<rparr>))
                | None \<Rightarrow>
                    (case kmalloc al2 of (ok3, al3) \<Rightarrow>
                     if \<not> ok3 then (Inl ENOMEM, al3, k)
                     else
                       (Inr (mk (next_topic k)), al3,
                        link (mk (next_topic k))
                          (k\<lparr>topics := (topics k)(next_topic k \<mapsto>
                                new_topic_struct (map_option rule_ptr (find_domain_rule name ns dm k))),
                             next_topic := next_topic k + 1\<rparr>)))))"

definition agnocast_wrapper_has_domain_endpoints :: "topic_wrapper \<Rightarrow> topic_struct \<Rightarrow> bool" where
  "agnocast_wrapper_has_domain_endpoints w t \<longleftrightarrow>
     (\<exists>p\<in>set (pub_info_htable t). pub_domain_id p = wr_domain_id w) \<or>
     (\<exists>s\<in>set (sub_info_htable t). sub_domain_id s = wr_domain_id w)"

text \<open>\<open>agnocast_release_topic_wrapper\<close>: the wrapper leaves the table; the last one frees the
  topic with everything it owns.\<close>

definition agnocast_release_topic_wrapper :: "topic_wrapper \<Rightarrow> kstate \<Rightarrow> kstate" where
  "agnocast_release_topic_wrapper w k =
     (let t = topic_of k w;
          k' = k\<lparr>topic_hashtable := remove1 w (topic_hashtable k)\<rparr>
      in if wrapper_refcnt t - 1 = 0 then k'\<lparr>topics := (topics k')(wr_topic w := None)\<rparr>
         else set_topic w (t\<lparr>wrapper_refcnt := wrapper_refcnt t - 1\<rparr>) k')"

definition release_if_empty :: "topic_wrapper \<Rightarrow> kstate \<Rightarrow> kstate" where
  "release_if_empty w k =
     (if agnocast_wrapper_has_domain_endpoints w (topic_of k w) then k
      else agnocast_release_topic_wrapper w k)"

section \<open>Processes\<close>

definition has_alive_bridge_manager :: "ipc_ns \<Rightarrow> domain \<Rightarrow> process_info list \<Rightarrow> bool" where
  "has_alive_bridge_manager ns dm procs \<longleftrightarrow>
     (\<exists>pr\<in>set procs. proc_ipc_ns pr = ns \<and> proc_domain_id pr = dm \<and>
        role pr = PROCESS_ROLE_BRIDGE_MANAGER \<and> \<not> exited pr)"

definition has_alive_unlink_daemon :: "ipc_ns \<Rightarrow> process_info list \<Rightarrow> bool" where
  "has_alive_unlink_daemon ns procs \<longleftrightarrow>
     (\<exists>pr\<in>set procs. proc_ipc_ns pr = ns \<and> role pr = PROCESS_ROLE_UNLINK_DAEMON)"

definition agnocast_find_discovery_agent ::
  "ipc_ns \<Rightarrow> domain \<Rightarrow> discovery_agent_info list \<Rightarrow> discovery_agent_info option" where
  "agnocast_find_discovery_agent ns dm agents =
     find (\<lambda>a. da_ipc_ns a = ns \<and> da_domain_id a = dm) agents"

text \<open>The \<open>role\<close> field arrives from user space as an unsigned number.\<close>

definition decode_role :: "nat \<Rightarrow> process_role option" where
  "decode_role n =
     (if n = 0 then Some PROCESS_ROLE_APPLICATION
      else if n = 1 then Some PROCESS_ROLE_BRIDGE_MANAGER
      else if n = 2 then Some PROCESS_ROLE_UNLINK_DAEMON
      else None)"

record add_process_ret =
  ret_unlink_daemon_exist :: bool
  ret_bridge_daemon_exist :: bool
  ret_discovery_agent_exist :: bool
  ret_pool :: "(u64 \<times> u64) option"

definition agnocast_ioctl_add_process ::
  "kenv \<Rightarrow> pid \<Rightarrow> ipc_ns \<Rightarrow> nat \<Rightarrow> domain \<Rightarrow> allocs \<Rightarrow> kstate \<Rightarrow> add_process_ret res \<times> kstate" where
  "agnocast_ioctl_add_process env p ns role_nr dm al k =
     (case decode_role role_nr of
        None \<Rightarrow> (Inl EINVAL, k)
      | Some ro \<Rightarrow>
          if ro \<noteq> PROCESS_ROLE_UNLINK_DAEMON \<and> dm = AGNOCAST_DOMAIN_ID_NONE then (Inl EINVAL, k)
          else if agnocast_find_process_info p (proc_info_htable k) \<noteq> None then (Inl EINVAL, k)
          else
            let out = \<lparr>ret_unlink_daemon_exist = has_alive_unlink_daemon ns (proc_info_htable k),
                       ret_bridge_daemon_exist = has_alive_bridge_manager ns dm (proc_info_htable k),
                       ret_discovery_agent_exist =
                         agnocast_find_discovery_agent ns dm (discovery_agent_htable k) \<noteq> None,
                       ret_pool = None\<rparr>
            in if ro = PROCESS_ROLE_BRIDGE_MANAGER \<and> ret_bridge_daemon_exist out then (Inr out, k)
               else if ro = PROCESS_ROLE_UNLINK_DAEMON \<and> ret_unlink_daemon_exist out then (Inr out, k)
               else case kmalloc al of (ok, al') \<Rightarrow>
                 if \<not> ok then (Inl ENOMEM, k)
                 else case assign_memory p al' (mempool_entries k) of
                   (None, _, _) \<Rightarrow> (Inl ENOMEM, k)
                 | (Some i, _, ps) \<Rightarrow>
                     let pr = \<lparr>exited = False, role = ro, global_pid = p,
                               local_pid = convert_pid_to_local env p, mempool_index = i,
                               proc_ipc_ns = ns,
                               proc_domain_id =
                                 (if ro = PROCESS_ROLE_UNLINK_DAEMON then AGNOCAST_DOMAIN_ID_NONE else dm)\<rparr>
                     in (Inr (out\<lparr>ret_pool := Some (mp_addr (ps ! i), mempool_size_bytes k)\<rparr>),
                         k\<lparr>proc_info_htable := hash_add (pid_bkt env \<circ> global_pid) pr (proc_info_htable k),
                           mempool_entries := ps\<rparr>))"

section \<open>Endpoints\<close>

text \<open>The eventfd of a subscriber with a callback; a take subscriber has none.\<close>

definition agnocast_ioctl_add_subscriber ::
  "kenv \<Rightarrow> string \<Rightarrow> ipc_ns \<Rightarrow> sub_params \<Rightarrow> int \<Rightarrow> allocs \<Rightarrow> kstate \<Rightarrow> int res \<times> kstate" where
  "agnocast_ioctl_add_subscriber env name ns q evfd al k =
     (case (if sp_take q then Inr None else map_sum (\<lambda>e. e) Some (agnocast_eventfd_get env evfd)) of
        Inl e \<Rightarrow> (Inl e, k)
      | Inr nctx \<Rightarrow>
          (case add_topic env name ns (get_process_domain_id (sp_pid q) k) al k of
             (Inl e, _, k1) \<Rightarrow> (Inl e, k1)
           | (Inr w, al1, k1) \<Rightarrow>
               (let t = topic_of k1 w in
                case insert_subscriber_info (id_bkt env) (rule_of k1 t) (wr_domain_id w) q nctx al1 t of
                  (x, _, t') \<Rightarrow> (x, set_topic w t' k1))))"

definition agnocast_ioctl_add_publisher ::
  "kenv \<Rightarrow> string \<Rightarrow> ipc_ns \<Rightarrow> pub_params \<Rightarrow> allocs \<Rightarrow> kstate \<Rightarrow> int res \<times> kstate" where
  "agnocast_ioctl_add_publisher env name ns q al k =
     (case add_topic env name ns (get_process_domain_id (pp_pid q) k) al k of
        (Inl e, _, k1) \<Rightarrow> (Inl e, k1)
      | (Inr w, al1, k1) \<Rightarrow>
          (let t = topic_of k1 w in
           case insert_publisher_info (id_bkt env) (rule_of k1 t) (wr_domain_id w) q al1 t of
             (Inl e, _, t') \<Rightarrow> (Inl e, set_topic w t' k1)
           | (Inr new_id, _, t') \<Rightarrow>
               (Inr new_id,
                set_topic w
                  (t'\<lparr>sub_info_htable := map (\<lambda>s. s\<lparr>need_mmap_update := True\<rparr>) (sub_info_htable t')\<rparr>) k1)))"

definition agnocast_ioctl_remove_subscriber ::
  "pid \<Rightarrow> string \<Rightarrow> ipc_ns \<Rightarrow> int \<Rightarrow> kstate \<Rightarrow> unit res \<times> kstate" where
  "agnocast_ioctl_remove_subscriber cur name ns sid k =
     (case find_topic_for_current cur name ns k of
        None \<Rightarrow> (Inl EINVAL, k)
      | Some w \<Rightarrow>
          (let t = topic_of k w in
           case find_subscriber_info sid t of
             None \<Rightarrow> (Inl ENODATA, k)
           | Some s \<Rightarrow>
               (let t1 = agnocast_unlink_subscriber_info (rule_of k t) s t in
                if sid < 0 \<or> sid \<ge> MAX_TOPIC_LOCAL_ID then (Inl EINVAL, set_topic w t1 k)
                else
                  (Inr (),
                   release_if_empty w (set_topic w (drop_refs_of (proc_info_htable k) sid t1) k)))))"

definition agnocast_ioctl_remove_publisher ::
  "pid \<Rightarrow> string \<Rightarrow> ipc_ns \<Rightarrow> int \<Rightarrow> kstate \<Rightarrow> unit res \<times> kstate" where
  "agnocast_ioctl_remove_publisher cur name ns i k =
     (case find_topic_for_current cur name ns k of
        None \<Rightarrow> (Inl EINVAL, k)
      | Some w \<Rightarrow>
          (let t = topic_of k w in
           case find_publisher_info i t of
             None \<Rightarrow> (Inl ENODATA, k)
           | Some p \<Rightarrow> (Inr (), release_if_empty w (set_topic w (drop_publisher i t) k))))"

section \<open>Messages\<close>

record publish_ret =
  ret_entry_id :: int
  ret_released_addrs :: "u64 list"
  ret_signalled :: "ctx list"

text \<open>\<open>agnocast_ioctl_publish_msg\<close>; \<open>ret_signalled\<close> are the contexts the loop after the unlock
  signals.\<close>

definition agnocast_ioctl_publish_msg ::
  "pid \<Rightarrow> string \<Rightarrow> ipc_ns \<Rightarrow> int \<Rightarrow> u64 \<Rightarrow> allocs \<Rightarrow> kstate \<Rightarrow> publish_ret res \<times> kstate" where
  "agnocast_ioctl_publish_msg cur name ns i addr al k =
     (case find_topic_for_current cur name ns k of
        None \<Rightarrow> (Inl EINVAL, k)
      | Some w \<Rightarrow>
          (let t = topic_of k w in
           case find_publisher_info i t of
             None \<Rightarrow> (Inl EINVAL, k)
           | Some p \<Rightarrow>
               (case agnocast_find_process_info (pub_pid p) (proc_info_htable k) of
                  None \<Rightarrow> (Inl EINVAL, k)
                | Some pr \<Rightarrow>
                    (let mempool_start = mp_addr (mempool_entries k ! mempool_index pr);
                         mempool_end = mempool_start + mempool_size_bytes k
                     in if addr < mempool_start \<or> addr \<ge> mempool_end then (Inl EINVAL, k)
                        else case insert_message_entry i addr al t of
                          (Inl e, _, t1) \<Rightarrow> (Inl e, set_topic w t1 k)
                        | (Inr eid, _, t1) \<Rightarrow>
                            (case release_msgs_to_meet_depth (the (find_publisher_info i t1)) t1 of
                               (Inl e, t2) \<Rightarrow> (Inl e, set_topic w t2 k)
                             | (Inr rel, t2) \<Rightarrow>
                                 (Inr \<lparr>ret_entry_id = eid, ret_released_addrs = rel,
                                       ret_signalled = notify_ctxs p\<rparr>, set_topic w t2 k))))))"

text \<open>
  \<open>set_publisher_shm_info\<close>: the loop over the publishers still to visit with \<open>num\<close> slots of the
  buffer used; an entry is the local pid, the address and the size of the pool to map. A pool is
  referenced before the buffer and the pid are checked.
\<close>

fun set_publisher_shm_info ::
  "(pid \<Rightarrow> pid) \<Rightarrow> u64 \<Rightarrow> process_info list \<Rightarrow> domain_bridge_rule option \<Rightarrow> domain \<Rightarrow> pid \<Rightarrow> bool \<Rightarrow> nat \<Rightarrow> nat \<Rightarrow>
   publisher_info list \<Rightarrow> allocs \<Rightarrow> pools \<Rightarrow> (pid \<times> u64 \<times> u64) list res \<times> pools" where
  "set_publisher_shm_info loc sz procs r dm sp sbr cap num [] al ps = (Inr [], ps)"
| "set_publisher_shm_info loc sz procs r dm sp sbr cap num (p # pubs) al ps =
     (let skip = set_publisher_shm_info loc sz procs r dm sp sbr cap num pubs in
      if sp = pub_pid p then skip al ps
      else if \<not> domain_delivery_allowed r (pub_domain_id p) (pub_is_bridge p) dm sbr then skip al ps
      else case agnocast_find_process_info (pub_pid p) procs of
        None \<Rightarrow> skip al ps
      | Some pr \<Rightarrow>
          if exited pr then skip al ps
          else case reference_memory (mempool_index pr) sp al ps of
            (Inl e, al', ps') \<Rightarrow> if e = EEXIST then skip al' ps' else (Inl e, ps')
          | (Inr _, al', ps') \<Rightarrow>
              if num = cap then (Inl ENOBUFS, ps')
              else if loc (pub_pid p) = -1 then (Inl ESRCH, ps')
              else case set_publisher_shm_info loc sz procs r dm sp sbr cap (num + 1) pubs al' ps' of
                (Inl e, ps'') \<Rightarrow> (Inl e, ps'')
              | (Inr shms, ps'') \<Rightarrow>
                  (Inr ((loc (pub_pid p), mp_addr (ps' ! mempool_index pr), sz) # shms), ps''))"

text \<open>The memory-mapping check at the end of receive and take.\<close>

definition update_mmap ::
  "kenv \<Rightarrow> topic_wrapper \<Rightarrow> subscriber_info \<Rightarrow> nat \<Rightarrow> allocs \<Rightarrow> kstate \<Rightarrow> (pid \<times> u64 \<times> u64) list res \<times> kstate" where
  "update_mmap env w s cap al k =
     (if \<not> need_mmap_update s then (Inr [], k)
      else
        let t = topic_of k w in
        case set_publisher_shm_info (convert_pid_to_local env) (mempool_size_bytes k) (proc_info_htable k)
               (rule_of k t) (wr_domain_id w) (sub_pid s) (sub_is_bridge s) cap 0 (pub_info_htable t) al
               (mempool_entries k) of
          (Inl e, ps) \<Rightarrow> (Inl e, k\<lparr>mempool_entries := ps\<rparr>)
        | (Inr shms, ps) \<Rightarrow>
            (Inr shms,
             set_topic w (upd_sub (sub_id s) (\<lambda>s. s\<lparr>need_mmap_update := False\<rparr>) t) (k\<lparr>mempool_entries := ps\<rparr>)))"

definition agnocast_ioctl_receive_msg ::
  "kenv \<Rightarrow> pid \<Rightarrow> string \<Rightarrow> ipc_ns \<Rightarrow> int \<Rightarrow> nat \<Rightarrow> allocs \<Rightarrow> kstate \<Rightarrow>
   ((int \<times> u64) list \<times> bool \<times> (pid \<times> u64 \<times> u64) list) res \<times> kstate" where
  "agnocast_ioctl_receive_msg env cur name ns sid cap al k =
     (case find_topic_for_current cur name ns k of
        None \<Rightarrow> (Inl EINVAL, k)
      | Some w \<Rightarrow>
          (let t = topic_of k w in
           case find_subscriber_info sid t of
             None \<Rightarrow> (Inl EINVAL, k)
           | Some s \<Rightarrow>
               (case receive_msg_core (proc_info_htable k) (rule_of k t) s t of
                  (Inl e, t') \<Rightarrow> (Inl e, set_topic w t' k)
                | (Inr (recs, again), t') \<Rightarrow>
                    (case update_mmap env w s cap al (set_topic w t' k) of
                       (Inl e, k') \<Rightarrow> (Inl e, k')
                     | (Inr shms, k') \<Rightarrow> (Inr (recs, again, shms), k')))))"

definition agnocast_ioctl_take_msg ::
  "kenv \<Rightarrow> pid \<Rightarrow> string \<Rightarrow> ipc_ns \<Rightarrow> int \<Rightarrow> bool \<Rightarrow> nat \<Rightarrow> allocs \<Rightarrow> kstate \<Rightarrow>
   ((int \<times> u64) option \<times> (pid \<times> u64 \<times> u64) list) res \<times> kstate" where
  "agnocast_ioctl_take_msg env cur name ns sid allow_same cap al k =
     (case find_topic_for_current cur name ns k of
        None \<Rightarrow> (Inl EINVAL, k)
      | Some w \<Rightarrow>
          (let t = topic_of k w in
           case find_subscriber_info sid t of
             None \<Rightarrow> (Inl EINVAL, k)
           | Some s \<Rightarrow>
               (case take_msg_core (proc_info_htable k) (rule_of k t) s allow_same t of
                  (Inl e, t') \<Rightarrow> (Inl e, set_topic w t' k)
                | (Inr out, t') \<Rightarrow>
                    (case update_mmap env w s cap al (set_topic w t' k) of
                       (Inl e, k') \<Rightarrow> (Inl e, k')
                     | (Inr shms, k') \<Rightarrow> (Inr (out, shms), k')))))"

definition agnocast_ioctl_release_message_entry_reference ::
  "pid \<Rightarrow> string \<Rightarrow> ipc_ns \<Rightarrow> int \<Rightarrow> int \<Rightarrow> kstate \<Rightarrow> unit res \<times> kstate" where
  "agnocast_ioctl_release_message_entry_reference cur name ns pubsub_id eid k =
     (case find_topic_for_current cur name ns k of
        None \<Rightarrow> (Inl EINVAL, k)
      | Some w \<Rightarrow>
          (case release_reference_core pubsub_id eid (topic_of k w) of
             (x, t') \<Rightarrow> (x, set_topic w t' k)))"

definition agnocast_ioctl_set_ros2_subscriber_num :: "pid \<Rightarrow> string \<Rightarrow> ipc_ns \<Rightarrow> nat \<Rightarrow> kstate \<Rightarrow> unit res \<times> kstate" where
  "agnocast_ioctl_set_ros2_subscriber_num cur name ns n k =
     (case find_topic_for_current cur name ns k of
        Some w \<Rightarrow> (Inr (), set_topic w ((topic_of k w)\<lparr>ros2_subscriber_num := n\<rparr>) k)
      | None \<Rightarrow> (Inl ENOENT, k))"

definition agnocast_ioctl_set_ros2_publisher_num :: "pid \<Rightarrow> string \<Rightarrow> ipc_ns \<Rightarrow> nat \<Rightarrow> kstate \<Rightarrow> unit res \<times> kstate" where
  "agnocast_ioctl_set_ros2_publisher_num cur name ns n k =
     (case find_topic_for_current cur name ns k of
        Some w \<Rightarrow> (Inr (), set_topic w ((topic_of k w)\<lparr>ros2_publisher_num := n\<rparr>) k)
      | None \<Rightarrow> (Inl ENOENT, k))"

section \<open>The end of a process\<close>

definition agnocast_remove_discovery_agent_by_pid ::
  "pid \<Rightarrow> discovery_agent_info list \<Rightarrow> discovery_agent_info list" where
  "agnocast_remove_discovery_agent_by_pid p agents =
     (case find_key da_pid p agents of None \<Rightarrow> agents | Some a \<Rightarrow> remove1 a agents)"

text \<open>One iteration of the loop over the topic table.\<close>

definition exit_wrapper :: "pid \<Rightarrow> topic_wrapper \<Rightarrow> kstate \<Rightarrow> kstate" where
  "exit_wrapper p w k =
     (let t = topic_of k w;
          t1 = pre_handler_publisher_exit p t;
          t2 = pre_handler_subscriber_exit (proc_info_htable k) (rule_of k t) p t1
      in release_if_empty w (set_topic w t2 k))"

definition agnocast_process_exit_cleanup :: "pid \<Rightarrow> kstate \<Rightarrow> kstate" where
  "agnocast_process_exit_cleanup p k =
     (let k1 = k\<lparr>discovery_agent_htable :=
                   agnocast_remove_discovery_agent_by_pid p (discovery_agent_htable k)\<rparr>
      in case agnocast_find_process_info p (proc_info_htable k1) of
           None \<Rightarrow> k1
         | Some pr \<Rightarrow>
             (let procs = (if role pr = PROCESS_ROLE_UNLINK_DAEMON
                           then del_key global_pid p (proc_info_htable k1)
                           else upd_key global_pid p (\<lambda>pr. pr\<lparr>exited := True\<rparr>) (proc_info_htable k1));
                  k2 = k1\<lparr>proc_info_htable := procs, mempool_entries := free_memory p (mempool_entries k1)\<rparr>;
                  k3 = fold (exit_wrapper p) (topic_hashtable k2) k2
              in k3\<lparr>bridge_htable := filter (\<lambda>b. br_pid b \<noteq> p) (bridge_htable k3)\<rparr>))"

end
