(* ===== verification/Kmod_Registry.thy ===== *)
theory Kmod_Registry
  imports Kmod_State
begin

text \<open>
  The remaining handlers of \<open>agnocast_ioctl.c\<close> that change the global tables: draining exited
  processes, the ROS 2 bridge table, the domain bridge rules, the discovery agents and the
  shutdown requests of bridge managers; and the read-only queries the handlers decide on.
\<close>

section \<open>Process counters\<close>

definition get_process_num_except_unlink_daemon :: "ipc_ns \<Rightarrow> process_info list \<Rightarrow> nat" where
  "get_process_num_except_unlink_daemon ns procs =
     length (filter (\<lambda>pr. proc_ipc_ns pr = ns \<and> role pr \<noteq> PROCESS_ROLE_UNLINK_DAEMON) procs)"

definition get_process_num_in_domain_except_unlink_daemon :: "ipc_ns \<Rightarrow> domain \<Rightarrow> process_info list \<Rightarrow> nat" where
  "get_process_num_in_domain_except_unlink_daemon ns dm procs =
     length (filter (\<lambda>pr. proc_ipc_ns pr = ns \<and> proc_domain_id pr = dm \<and>
       role pr \<noteq> PROCESS_ROLE_UNLINK_DAEMON) procs)"

definition get_alive_process_num_in_domain_except_unlink_daemon :: "ipc_ns \<Rightarrow> domain \<Rightarrow> process_info list \<Rightarrow> nat" where
  "get_alive_process_num_in_domain_except_unlink_daemon ns dm procs =
     length (filter (\<lambda>pr. proc_ipc_ns pr = ns \<and> proc_domain_id pr = dm \<and> \<not> exited pr \<and>
       role pr \<noteq> PROCESS_ROLE_UNLINK_DAEMON) procs)"

section \<open>Draining exited processes\<close>

text \<open>\<open>agnocast_ioctl_get_exit_process\<close>: the local pid reported and the global pid for the commit,
  \<open>-1\<close> for both when no process of the namespace has exited.\<close>

definition agnocast_ioctl_get_exit_process :: "ipc_ns \<Rightarrow> kstate \<Rightarrow> pid \<times> pid" where
  "agnocast_ioctl_get_exit_process ns k =
     (case find (\<lambda>pr. proc_ipc_ns pr = ns \<and> exited pr) (proc_info_htable k) of
        None \<Rightarrow> (-1, -1) | Some pr \<Rightarrow> (local_pid pr, global_pid pr))"

definition agnocast_commit_exit_process :: "ipc_ns \<Rightarrow> pid \<Rightarrow> pid \<Rightarrow> kstate \<Rightarrow> bool \<times> kstate" where
  "agnocast_commit_exit_process ns gp caller k =
     (let k1 = (if gp \<ge> 0 then k\<lparr>proc_info_htable := del_key global_pid gp (proc_info_htable k)\<rparr> else k);
          should_exit = (get_process_num_except_unlink_daemon ns (proc_info_htable k1) = 0)
      in if should_exit \<and> gp < 0 \<and> caller \<ge> 0 then
           (case agnocast_find_process_info caller (proc_info_htable k1) of
              Some pr \<Rightarrow>
                if role pr = PROCESS_ROLE_UNLINK_DAEMON
                then (should_exit,
                      k1\<lparr>proc_info_htable := del_key global_pid caller (proc_info_htable k1),
                         mempool_entries := free_memory caller (mempool_entries k1)\<rparr>)
                else (should_exit, k1)
            | None \<Rightarrow> (should_exit, k1))
         else (should_exit, k1))"

text \<open>\<open>get_exit_process_cmd\<close>: two phases, each under the lock of its own; \<open>meanwhile\<close> is what the others do to the
  state between them. The commit is skipped when the copy of the result to user space fails (\<open>copied\<close> is
  false).\<close>

definition get_exit_process_cmd ::
  "ipc_ns \<Rightarrow> pid \<Rightarrow> bool \<Rightarrow> (kstate \<Rightarrow> kstate) \<Rightarrow> kstate \<Rightarrow> (pid \<times> bool) res \<times> kstate" where
  "get_exit_process_cmd ns caller copied meanwhile k =
     (case agnocast_ioctl_get_exit_process ns k of (lp, gp) \<Rightarrow>
        if \<not> copied then (Inl EFAULT, meanwhile k)
        else case agnocast_commit_exit_process ns gp caller (meanwhile k) of
          (should_exit, k') \<Rightarrow> (Inr (lp, should_exit), k'))"

section \<open>ROS 2 bridges\<close>

definition find_bridge_info :: "string \<Rightarrow> ipc_ns \<Rightarrow> kstate \<Rightarrow> bridge_info option" where
  "find_bridge_info name ns k = find_key (\<lambda>b. (br_ipc_ns b, br_topic_name b)) (ns, name) (bridge_htable k)"

text \<open>The result is the owner with its directions; \<open>-EEXIST\<close> carries it too.\<close>

definition agnocast_ioctl_add_bridge ::
  "kenv \<Rightarrow> string \<Rightarrow> pid \<Rightarrow> bool \<Rightarrow> ipc_ns \<Rightarrow> allocs \<Rightarrow> kstate \<Rightarrow> (errno option \<times> (pid \<times> bool \<times> bool) option) \<times> kstate" where
  "agnocast_ioctl_add_bridge env name p is_r2a ns al k =
     (case find_bridge_info name ns k of
        Some b \<Rightarrow>
          if br_pid b \<noteq> p then ((Some EEXIST, Some (br_pid b, has_r2a b, has_a2r b)), k)
          else
            let f = (\<lambda>b. if is_r2a then b\<lparr>has_r2a := True\<rparr> else b\<lparr>has_a2r := True\<rparr>); b' = f b
            in ((None, Some (br_pid b', has_r2a b', has_a2r b')),
                k\<lparr>bridge_htable := upd_key (\<lambda>b. (br_ipc_ns b, br_topic_name b)) (ns, name) f (bridge_htable k)\<rparr>)
      | None \<Rightarrow>
          (case kmalloc al of (ok1, al1) \<Rightarrow>
           if \<not> ok1 \<or> \<not> fst (kmalloc al1) then ((Some ENOMEM, None), k)
           else
             let b = \<lparr>br_topic_name = name, br_pid = p, has_r2a = is_r2a, has_a2r = \<not> is_r2a, br_ipc_ns = ns\<rparr>
             in ((None, Some (p, has_r2a b, has_a2r b)),
                 k\<lparr>bridge_htable := hash_add (bridge_bkt env \<circ> br_topic_name) b (bridge_htable k)\<rparr>)))"

definition agnocast_ioctl_remove_bridge ::
  "string \<Rightarrow> pid \<Rightarrow> bool \<Rightarrow> ipc_ns \<Rightarrow> kstate \<Rightarrow> unit res \<times> kstate" where
  "agnocast_ioctl_remove_bridge name p is_r2a ns k =
     (case find_bridge_info name ns k of
        None \<Rightarrow> (Inl ENOENT, k)
      | Some b \<Rightarrow>
          if br_pid b \<noteq> p then (Inl EPERM, k)
          else
            let f = (\<lambda>b. if is_r2a then b\<lparr>has_r2a := False\<rparr> else b\<lparr>has_a2r := False\<rparr>); b' = f b
            in (Inr (),
                k\<lparr>bridge_htable :=
                    (if \<not> has_r2a b' \<and> \<not> has_a2r b'
                     then del_key (\<lambda>b. (br_ipc_ns b, br_topic_name b)) (ns, name) (bridge_htable k)
                     else upd_key (\<lambda>b. (br_ipc_ns b, br_topic_name b)) (ns, name) f (bridge_htable k))\<rparr>))"

section \<open>Domain bridge rules\<close>

text \<open>Both names are duplicated before either result is looked at.\<close>

definition insert_domain_rule ::
  "kenv \<Rightarrow> string \<Rightarrow> string \<Rightarrow> domain \<Rightarrow> domain \<Rightarrow> bool \<Rightarrow> ipc_ns \<Rightarrow> allocs \<Rightarrow> kstate \<Rightarrow> unit res \<times> kstate" where
  "insert_domain_rule env name_from name_to from_dm to_dm prefixed ns al k =
     (let from_is_a = from_dm < to_dm;
          name_a = (if from_is_a then name_from else name_to);
          name_b = (if from_is_a then name_to else name_from)
      in case kmalloc al of (ok1, al1) \<Rightarrow>
         if \<not> ok1 then (Inl ENOMEM, k)
         else case kmalloc al1 of (ok2, al2) \<Rightarrow>
         if \<not> ok2 \<or> \<not> fst (kmalloc al2) then (Inl ENOMEM, k)
         else
           let ru = \<lparr>rule_ptr = next_rule k, topic_name_a = name_a, topic_name_b = name_b, rule_ipc_ns = ns,
                     domain_a = (if from_is_a then from_dm else to_dm),
                     domain_b = (if from_is_a then to_dm else from_dm),
                     a_to_b = from_is_a, b_to_a = \<not> from_is_a, is_prefix = prefixed\<rparr>
           in (Inr (), k\<lparr>domain_rule_htable := hash_add (rule_bkt env \<circ> topic_name_a) ru (domain_rule_htable k),
                         next_rule := next_rule k + 1\<rparr>))"

definition allow_direction :: "bool \<Rightarrow> domain_bridge_rule \<Rightarrow> domain_bridge_rule" where
  "allow_direction from_is_a ru = (if from_is_a then ru\<lparr>a_to_b := True\<rparr> else ru\<lparr>b_to_a := True\<rparr>)"

definition direction_allowed :: "bool \<Rightarrow> domain_bridge_rule \<Rightarrow> bool" where
  "direction_allowed from_is_a ru = (if from_is_a then a_to_b ru else b_to_a ru)"

definition set_rule_direction :: "nat \<Rightarrow> bool \<Rightarrow> kstate \<Rightarrow> kstate" where
  "set_rule_direction a from_is_a k =
     k\<lparr>domain_rule_htable := upd_key rule_ptr a (allow_direction from_is_a) (domain_rule_htable k)\<rparr>"

definition add_domain_rule ::
  "kenv \<Rightarrow> string \<Rightarrow> string \<Rightarrow> domain \<Rightarrow> domain \<Rightarrow> ipc_ns \<Rightarrow> allocs \<Rightarrow> kstate \<Rightarrow> unit res \<times> kstate" where
  "add_domain_rule env name_from name_to from_dm to_dm ns al k =
     (let r_from = find_domain_rule name_from ns from_dm k;
          r_to = find_domain_rule name_to ns to_dm k;
          joined = find_topic name_from ns from_dm k \<noteq> None \<or> find_topic name_to ns to_dm k \<noteq> None;
          from_is_a = from_dm < to_dm
      in case r_from of
           Some ru \<Rightarrow>
             if map_option rule_ptr r_to \<noteq> Some (rule_ptr ru) then (Inl EBUSY, k)
             else if is_prefix ru then (Inl EBUSY, k)
             else if direction_allowed from_is_a ru then (Inr (), k)
             else if joined then (Inl EBUSY, k)
             else (Inr (), set_rule_direction (rule_ptr ru) from_is_a k)
         | None \<Rightarrow>
             if r_to \<noteq> None then (Inl EBUSY, k)
             else if joined then (Inl EBUSY, k)
             else insert_domain_rule env name_from name_to from_dm to_dm False ns al k)"

definition any_topic_under_prefix :: "string \<Rightarrow> ipc_ns \<Rightarrow> domain \<Rightarrow> domain \<Rightarrow> kstate \<Rightarrow> bool" where
  "any_topic_under_prefix pre ns from_dm to_dm k \<longleftrightarrow>
     (\<exists>w\<in>set (topic_hashtable k). wr_ipc_ns w = ns \<and> (wr_domain_id w = from_dm \<or> wr_domain_id w = to_dm) \<and>
        starts_with pre (wr_key w))"

text \<open>The loop of \<open>add_prefix_domain_rule\<close>: \<open>same\<close> so far, or \<open>-EBUSY\<close>.\<close>

fun prefix_rule_scan ::
  "string \<Rightarrow> domain \<Rightarrow> domain \<Rightarrow> ipc_ns \<Rightarrow> domain_bridge_rule option \<Rightarrow> domain_bridge_rule list \<Rightarrow>
   domain_bridge_rule option res" where
  "prefix_rule_scan pre da db ns same [] = Inr same"
| "prefix_rule_scan pre da db ns same (ru # rules) =
     (if ns \<noteq> rule_ipc_ns ru then prefix_rule_scan pre da db ns same rules
      else if is_prefix ru then
        let len = length (topic_name_a ru);
            nests = (if len \<le> length pre then starts_with (topic_name_a ru) pre
                     else starts_with pre (topic_name_a ru));
            shares_domain = (domain_a ru = da \<or> domain_a ru = db \<or> domain_b ru = da \<or> domain_b ru = db)
        in if \<not> nests \<or> \<not> shares_domain then prefix_rule_scan pre da db ns same rules
           else if len = length pre then
             (if domain_a ru = da \<and> domain_b ru = db then prefix_rule_scan pre da db ns (Some ru) rules
              else Inl EBUSY)
           else Inl EBUSY
      else if ((domain_a ru = da \<or> domain_a ru = db) \<and> starts_with pre (topic_name_a ru)) \<or>
              ((domain_b ru = da \<or> domain_b ru = db) \<and> starts_with pre (topic_name_b ru)) then Inl EBUSY
      else prefix_rule_scan pre da db ns same rules)"

definition add_prefix_domain_rule ::
  "kenv \<Rightarrow> string \<Rightarrow> domain \<Rightarrow> domain \<Rightarrow> ipc_ns \<Rightarrow> allocs \<Rightarrow> kstate \<Rightarrow> unit res \<times> kstate" where
  "add_prefix_domain_rule env pre from_dm to_dm ns al k =
     (let from_is_a = from_dm < to_dm; joined = any_topic_under_prefix pre ns from_dm to_dm k in
      case prefix_rule_scan pre (min from_dm to_dm) (max from_dm to_dm) ns None (domain_rule_htable k) of
        Inl e \<Rightarrow> (Inl e, k)
      | Inr (Some ru) \<Rightarrow>
          if direction_allowed from_is_a ru then (Inr (), k)
          else if joined then (Inl EBUSY, k)
          else (Inr (), set_rule_direction (rule_ptr ru) from_is_a k)
      | Inr None \<Rightarrow>
          if joined then (Inl EBUSY, k)
          else insert_domain_rule env pre pre from_dm to_dm True ns al k)"

definition agnocast_ioctl_add_domain_bridge ::
  "kenv \<Rightarrow> string \<Rightarrow> string \<Rightarrow> domain \<Rightarrow> domain \<Rightarrow> ipc_ns \<Rightarrow> allocs \<Rightarrow> kstate \<Rightarrow> unit res \<times> kstate" where
  "agnocast_ioctl_add_domain_bridge env name_from name_to from_dm to_dm ns al k =
     (if from_dm = to_dm then (Inl EINVAL, k)
      else add_domain_rule env name_from name_to from_dm to_dm ns al k)"

text \<open>The two character tests: the prefix starts with \<open>/\<close> and has a second character.\<close>

definition agnocast_ioctl_add_domain_bridge_prefix ::
  "kenv \<Rightarrow> string \<Rightarrow> domain \<Rightarrow> domain \<Rightarrow> ipc_ns \<Rightarrow> allocs \<Rightarrow> kstate \<Rightarrow> unit res \<times> kstate" where
  "agnocast_ioctl_add_domain_bridge_prefix env pre from_dm to_dm ns al k =
     (if from_dm = to_dm then (Inl EINVAL, k)
      else if take 1 pre \<noteq> ''/'' \<or> length pre < 2 then (Inl EINVAL, k)
      else add_prefix_domain_rule env pre from_dm to_dm ns al k)"

section \<open>Shutdown of daemons\<close>

definition agnocast_ioctl_notify_bridge_shutdown :: "pid \<Rightarrow> kstate \<Rightarrow> kstate" where
  "agnocast_ioctl_notify_bridge_shutdown p k =
     k\<lparr>proc_info_htable := upd_key global_pid p (\<lambda>pr. pr\<lparr>role := PROCESS_ROLE_APPLICATION\<rparr>) (proc_info_htable k)\<rparr>"

definition agnocast_ioctl_check_and_request_bridge_shutdown :: "pid \<Rightarrow> ipc_ns \<Rightarrow> kstate \<Rightarrow> bool \<times> kstate" where
  "agnocast_ioctl_check_and_request_bridge_shutdown p ns k =
     (if get_process_num_in_domain_except_unlink_daemon ns (get_process_domain_id p k) (proc_info_htable k) \<le> 1
      then (True, k\<lparr>proc_info_htable :=
              upd_key global_pid p (\<lambda>pr. pr\<lparr>role := PROCESS_ROLE_APPLICATION\<rparr>) (proc_info_htable k)\<rparr>)
      else (False, k))"

definition agnocast_ioctl_discovery_agent_should_exit ::
  "pid \<Rightarrow> ipc_ns \<Rightarrow> domain \<Rightarrow> bool \<Rightarrow> kstate \<Rightarrow> bool \<times> kstate" where
  "agnocast_ioctl_discovery_agent_should_exit p ns dm commit k =
     (let idle = (get_alive_process_num_in_domain_except_unlink_daemon ns dm (proc_info_htable k) = 0)
      in if \<not> commit then (idle, k)
         else if idle then
           (True, k\<lparr>discovery_agent_htable :=
                      agnocast_remove_discovery_agent_by_pid p (discovery_agent_htable k)\<rparr>)
         else (False, k))"

definition agnocast_ioctl_add_discovery_agent ::
  "kenv \<Rightarrow> pid \<Rightarrow> ipc_ns \<Rightarrow> domain \<Rightarrow> allocs \<Rightarrow> kstate \<Rightarrow> bool res \<times> kstate" where
  "agnocast_ioctl_add_discovery_agent env p ns dm al k =
     (case agnocast_find_discovery_agent ns dm (discovery_agent_htable k) of
        Some a \<Rightarrow> (Inr (da_pid a = p), k)
      | None \<Rightarrow>
          if \<not> fst (kmalloc al) then (Inl ENOMEM, k)
          else (Inr True,
                k\<lparr>discovery_agent_htable :=
                    hash_add (agent_bkt env \<circ> da_pid) \<lparr>da_pid = p, da_ipc_ns = ns, da_domain_id = dm\<rparr>
                      (discovery_agent_htable k)\<rparr>))"

definition agnocast_ioctl_discovery_agent_exists :: "ipc_ns \<Rightarrow> domain \<Rightarrow> kstate \<Rightarrow> bool" where
  "agnocast_ioctl_discovery_agent_exists ns dm k \<longleftrightarrow>
     agnocast_find_discovery_agent ns dm (discovery_agent_htable k) \<noteq> None"

end
