(* ===== verification/Kmod_Inv.thy ===== *)
theory Kmod_Inv
  imports Kmod_Registry
begin

text \<open>
  The global invariant of the kernel module: no wrapper points to a freed topic and the
  reference counter of a topic is the number of its wrappers; every topic satisfies its own
  invariant; a cell (namespace, domain, name) has at most one wrapper and at most one domain
  bridge rule, and a wrapper's topic carries the rule of its cell; the live processes own
  different memory pools; and each daemon is a singleton of its scope.
\<close>

section \<open>The invariant\<close>

definition cell :: "topic_wrapper \<Rightarrow> ipc_ns \<times> domain \<times> string" where
  "cell w = (wr_ipc_ns w, wr_domain_id w, wr_key w)"

definition domains :: "topic_struct \<Rightarrow> domain set" where
  "domains t = pub_domain_id ` set (pub_info_htable t) \<union> sub_domain_id ` set (sub_info_htable t)"

definition refs_to :: "nat \<Rightarrow> topic_wrapper list \<Rightarrow> nat" where
  "refs_to a ws = length (filter (\<lambda>w. wr_topic w = a) ws)"

definition wrappers_ok :: "kstate \<Rightarrow> bool" where
  "wrappers_ok k \<longleftrightarrow> distinct (map cell (topic_hashtable k)) \<and>
     (\<forall>w\<in>set (topic_hashtable k). topics k (wr_topic w) \<noteq> None)"

definition topic_ok :: "kstate \<Rightarrow> nat \<Rightarrow> topic_struct \<Rightarrow> bool" where
  "topic_ok k a t \<longleftrightarrow> a < next_topic k \<and> topic_inv t \<and> notify_ok (rule_of k t) t \<and>
     0 < refs_to a (topic_hashtable k) \<and> wrapper_refcnt t = refs_to a (topic_hashtable k) \<and>
     domains t \<subseteq> wr_domain_id ` {w \<in> set (topic_hashtable k). wr_topic w = a}"

definition topics_ok :: "kstate \<Rightarrow> bool" where
  "topics_ok k \<longleftrightarrow> (\<forall>a t. topics k a = Some t \<longrightarrow> topic_ok k a t)"

definition rules_ok :: "kstate \<Rightarrow> bool" where
  "rules_ok k \<longleftrightarrow> distinct (map rule_ptr (domain_rule_htable k)) \<and>
     (\<forall>ru\<in>set (domain_rule_htable k). rule_ptr ru < next_rule k \<and> domain_a ru < domain_b ru \<and>
        (is_prefix ru \<longrightarrow> topic_name_a ru = topic_name_b ru)) \<and>
     (\<forall>ru\<in>set (domain_rule_htable k). \<forall>ru'\<in>set (domain_rule_htable k). \<forall>name ns dm.
        rule_matches name ns dm ru \<longrightarrow> rule_matches name ns dm ru' \<longrightarrow> ru = ru')"

definition links_ok :: "kstate \<Rightarrow> bool" where
  "links_ok k \<longleftrightarrow> (\<forall>w\<in>set (topic_hashtable k). \<forall>t. topics k (wr_topic w) = Some t \<longrightarrow>
     topic_rule t = map_option rule_ptr (find_domain_rule (wr_key w) (wr_ipc_ns w) (wr_domain_id w) k))"

definition procs_ok :: "process_info list \<Rightarrow> pools \<Rightarrow> bool" where
  "procs_ok procs ps \<longleftrightarrow> pools_ok ps \<and> distinct (map global_pid procs) \<and>
     (\<forall>pr\<in>set procs. mempool_index pr < length ps \<and>
        (\<not> exited pr \<longrightarrow> global_pid pr \<in> mappers ps (mempool_index pr))) \<and>
     (\<forall>pr\<in>set procs. \<forall>pr'\<in>set procs. \<not> exited pr \<longrightarrow> \<not> exited pr' \<longrightarrow>
        mempool_index pr = mempool_index pr' \<longrightarrow> pr = pr')"

definition daemons_ok :: "process_info list \<Rightarrow> bool" where
  "daemons_ok procs \<longleftrightarrow>
     (\<forall>pr\<in>set procs. \<forall>pr'\<in>set procs. proc_ipc_ns pr = proc_ipc_ns pr' \<longrightarrow>
        (role pr = PROCESS_ROLE_UNLINK_DAEMON \<longrightarrow> role pr' = PROCESS_ROLE_UNLINK_DAEMON \<longrightarrow> pr = pr') \<and>
        (role pr = PROCESS_ROLE_BRIDGE_MANAGER \<longrightarrow> role pr' = PROCESS_ROLE_BRIDGE_MANAGER \<longrightarrow>
         \<not> exited pr \<longrightarrow> \<not> exited pr' \<longrightarrow> proc_domain_id pr = proc_domain_id pr' \<longrightarrow> pr = pr'))"

definition tables_ok :: "kstate \<Rightarrow> bool" where
  "tables_ok k \<longleftrightarrow>
     distinct (map (\<lambda>b. (br_ipc_ns b, br_topic_name b)) (bridge_htable k)) \<and>
     (\<forall>b\<in>set (bridge_htable k). has_r2a b \<or> has_a2r b) \<and>
     distinct (map (\<lambda>a. (da_ipc_ns a, da_domain_id a)) (discovery_agent_htable k))"

definition kinv :: "kstate \<Rightarrow> bool" where
  "kinv k \<longleftrightarrow> wrappers_ok k \<and> topics_ok k \<and> rules_ok k \<and> links_ok k \<and>
     procs_ok (proc_info_htable k) (mempool_entries k) \<and> daemons_ok (proc_info_htable k) \<and> tables_ok k"

lemma kinvD:
  assumes "kinv k"
  shows "wrappers_ok k" "topics_ok k" "rules_ok k" "links_ok k"
    "procs_ok (proc_info_htable k) (mempool_entries k)" "daemons_ok (proc_info_htable k)" "tables_ok k"
  using assms by (auto simp: kinv_def)

section \<open>The topic a wrapper points to\<close>

lemma find_topic_Some:
  "find_topic name ns dm k = Some w \<Longrightarrow>
     w \<in> set (topic_hashtable k) \<and> wr_ipc_ns w = ns \<and> wr_domain_id w = dm \<and> wr_key w = name"
  by (auto simp: find_topic_def find_Some_iff in_set_conv_nth)

lemma find_topic_None:
  "find_topic name ns dm k = None \<longleftrightarrow> (ns, dm, name) \<notin> cell ` set (topic_hashtable k)"
  by (auto simp: find_topic_def find_None_iff cell_def)

lemma topic_of_ok:
  assumes "kinv k" and "w \<in> set (topic_hashtable k)"
  shows "topics k (wr_topic w) = Some (topic_of k w)" and "topic_ok k (wr_topic w) (topic_of k w)"
proof -
  show "topics k (wr_topic w) = Some (topic_of k w)"
    using kinvD(1) [OF assms(1)] assms(2) by (auto simp: wrappers_ok_def topic_of_def)
  then show "topic_ok k (wr_topic w) (topic_of k w)"
    using kinvD(2) [OF assms(1)] by (auto simp: topics_ok_def)
qed

lemma found_topic:
  assumes "kinv k" and "find_topic_for_current cur name ns k = Some w"
  shows "w \<in> set (topic_hashtable k)" "topics k (wr_topic w) = Some (topic_of k w)"
    "topic_inv (topic_of k w)" "notify_ok (rule_of k (topic_of k w)) (topic_of k w)"
proof -
  show w: "w \<in> set (topic_hashtable k)"
    using find_topic_Some assms(2) by (auto simp: find_topic_for_current_def)
  show "topics k (wr_topic w) = Some (topic_of k w)" "topic_inv (topic_of k w)"
    "notify_ok (rule_of k (topic_of k w)) (topic_of k w)"
    using topic_of_ok [OF assms(1) w] by (auto simp: topic_ok_def)
qed

section \<open>Replacing a topic's contents\<close>

lemma set_topic_fields [simp]:
  "topic_hashtable (set_topic w t k) = topic_hashtable k" "next_topic (set_topic w t k) = next_topic k"
  "proc_info_htable (set_topic w t k) = proc_info_htable k"
  "domain_rule_htable (set_topic w t k) = domain_rule_htable k" "next_rule (set_topic w t k) = next_rule k"
  "bridge_htable (set_topic w t k) = bridge_htable k"
  "discovery_agent_htable (set_topic w t k) = discovery_agent_htable k"
  "mempool_entries (set_topic w t k) = mempool_entries k"
  "mempool_size_bytes (set_topic w t k) = mempool_size_bytes k"
  "topics (set_topic w t k) = (topics k)(wr_topic w \<mapsto> t)" "topic_of (set_topic w t k) w = t"
  by (simp_all add: set_topic_def topic_of_def)

lemma rule_of_cong:
  "domain_rule_htable k' = domain_rule_htable k \<Longrightarrow> topic_rule t' = topic_rule t \<Longrightarrow> rule_of k' t' = rule_of k t"
  by (auto simp: rule_of_def split: option.splits)

lemma topic_ok_cong:
  "next_topic k' = next_topic k \<Longrightarrow> topic_hashtable k' = topic_hashtable k \<Longrightarrow>
     domain_rule_htable k' = domain_rule_htable k \<Longrightarrow> topic_ok k' a t = topic_ok k a t"
  by (simp add: topic_ok_def rule_of_cong [of k' k t t])

lemma rule_of_updates [simp]:
  "rule_of k (t\<lparr>wrapper_refcnt := n\<rparr>) = rule_of k t"
  "rule_of (set_topic w u k) t = rule_of k t"
  "rule_of (k\<lparr>mempool_entries := ps\<rparr>) t = rule_of k t"
  "rule_of (k\<lparr>proc_info_htable := procs\<rparr>) t = rule_of k t"
  by (auto intro: rule_of_cong)

text \<open>What a handler that works inside one topic has to show.\<close>

definition same_frame :: "topic_wrapper \<Rightarrow> topic_struct \<Rightarrow> topic_struct \<Rightarrow> bool" where
  "same_frame w t t' \<longleftrightarrow> wrapper_refcnt t' = wrapper_refcnt t \<and> topic_rule t' = topic_rule t \<and>
     domains t' \<subseteq> insert (wr_domain_id w) (domains t)"

lemma set_topic_inv:
  assumes inv: "kinv k" and w: "w \<in> set (topic_hashtable k)" and t: "topics k (wr_topic w) = Some t"
    and frame: "same_frame w t t'" and ok: "topic_inv t'" "notify_ok (rule_of k t) t'"
  shows "kinv (set_topic w t' k)"
proof -
  note K = kinvD [OF inv]
  have old: "topic_ok k (wr_topic w) t" using K(2) t by (simp add: topics_ok_def)
  have r: "rule_of (set_topic w t' k) x = rule_of k x" for x by (rule rule_of_cong) auto
  have rt: "rule_of k t' = rule_of k t" using frame by (intro rule_of_cong) (auto simp: same_frame_def)
  have "topic_ok (set_topic w t' k) (wr_topic w) t'"
    using old frame ok w rt by (auto simp: topic_ok_def same_frame_def r)
  then have "topics_ok (set_topic w t' k)"
    using K(2) by (auto simp: topics_ok_def topic_ok_cong [of "set_topic w t' k" k])
  moreover have "wrappers_ok (set_topic w t' k)" using K(1) by (simp add: wrappers_ok_def)
  moreover have "rules_ok (set_topic w t' k)" using K(3) by (simp add: rules_ok_def)
  moreover have "links_ok (set_topic w t' k)"
    using K(4) t frame by (auto simp: links_ok_def find_domain_rule_def same_frame_def)
  moreover have "tables_ok (set_topic w t' k)" using K(7) by (simp add: tables_ok_def)
  ultimately show ?thesis using K(5,6) by (simp add: kinv_def)
qed

section \<open>Wrappers coming and going\<close>

lemma refs_to_remove1:
  "w \<in> set ws \<Longrightarrow> refs_to a (remove1 w ws) = (if wr_topic w = a then refs_to a ws - 1 else refs_to a ws)"
  by (simp add: refs_to_def filter_remove1 length_remove1)

lemma refs_to_hash_add: "refs_to a (hash_add bkt w ws) = (if wr_topic w = a then 1 else 0) + refs_to a ws"
  by (simp add: refs_to_def tbl_simps)

lemma refs_to_0: "refs_to a ws = 0 \<longleftrightarrow> (\<forall>w\<in>set ws. wr_topic w \<noteq> a)"
  by (auto simp: refs_to_def filter_empty_conv)

lemma distinct_cells_wrappers: "distinct (map cell ws) \<Longrightarrow> distinct ws"
  by (simp add: distinct_map)

text \<open>Leaving the rules, processes and other tables alone.\<close>

lemma kinv_wrappersI:
  assumes inv: "kinv k"
    and frame: "domain_rule_htable k' = domain_rule_htable k" "next_rule k' = next_rule k"
      "proc_info_htable k' = proc_info_htable k" "mempool_entries k' = mempool_entries k"
      "bridge_htable k' = bridge_htable k" "discovery_agent_htable k' = discovery_agent_htable k"
    and new: "wrappers_ok k'" "topics_ok k'" "links_ok k'"
  shows "kinv k'"
proof -
  note K = kinvD [OF inv]
  have "rules_ok k'" using K(3) by (simp add: rules_ok_def frame)
  moreover have "tables_ok k'" using K(7) by (simp add: tables_ok_def frame)
  ultimately show ?thesis using K(5,6) new by (simp add: kinv_def frame)
qed

lemma topic_inv_refcnt: "topic_inv (t\<lparr>wrapper_refcnt := n\<rparr>) = topic_inv t"
  and notify_ok_refcnt: "notify_ok r (t\<lparr>wrapper_refcnt := n\<rparr>) = notify_ok r t"
  and domains_refcnt: "domains (t\<lparr>wrapper_refcnt := n\<rparr>) = domains t"
  by (simp_all add: inv_defs notify_ok_def pub_ids_def sub_ids_def domains_def)

lemma image_remove:
  "D \<subseteq> f ` {x \<in> S. P x} \<Longrightarrow> f w \<notin> D \<Longrightarrow> D \<subseteq> f ` {x \<in> S - {w}. P x}"
  by blast

lemma release_wrapper_inv:
  assumes inv: "kinv k" and w: "w \<in> set (topic_hashtable k)"
    and empty: "wr_domain_id w \<notin> domains (topic_of k w)"
  shows "kinv (agnocast_release_topic_wrapper w k)"
proof -
  note K = kinvD [OF inv]
  define t where "t = topic_of k w"
  define k' where "k' = agnocast_release_topic_wrapper w k"
  note T = topic_of_ok [OF inv w, folded t_def]
  let ?ws = "remove1 w (topic_hashtable k)" and ?a = "wr_topic w"
  let ?t' = "t\<lparr>wrapper_refcnt := wrapper_refcnt t - 1\<rparr>"
  have dist: "distinct (topic_hashtable k)" "distinct (map cell ?ws)"
    using K(1) by (auto simp: wrappers_ok_def distinct_map intro: inj_on_subset)
  have ws: "set ?ws = set (topic_hashtable k) - {w}" using dist(1) by simp
  have refs: "wrapper_refcnt t = refs_to ?a (topic_hashtable k)" using T(2) by (simp add: topic_ok_def)
  have frame: "topic_hashtable k' = ?ws" "domain_rule_htable k' = domain_rule_htable k" "next_rule k' = next_rule k"
      "proc_info_htable k' = proc_info_htable k" "mempool_entries k' = mempool_entries k"
      "bridge_htable k' = bridge_htable k" "discovery_agent_htable k' = discovery_agent_htable k"
      "next_topic k' = next_topic k"
    by (auto simp: k'_def agnocast_release_topic_wrapper_def Let_def)
  have tp: "topics k' = (topics k)(?a := if wrapper_refcnt t - 1 = 0 then None else Some ?t')"
    by (simp add: k'_def agnocast_release_topic_wrapper_def Let_def t_def)
  have r: "rule_of k' x = rule_of k x" "rule_of k' ?t' = rule_of k t" for x by (auto intro!: rule_of_cong frame)
  have gone: "wr_topic w' \<noteq> ?a" if "wrapper_refcnt t - 1 = 0" "w' \<in> set ?ws" for w'
    using that refs_to_remove1 [OF w, of ?a] refs refs_to_0 [of ?a ?ws] by auto
  have "wrappers_ok k'"
    using K(1) dist(2) gone ws by (auto simp: wrappers_ok_def frame tp)
  moreover have "topics_ok k'"
    unfolding topics_ok_def
  proof (intro allI impI)
    fix a u assume u: "topics k' a = Some u"
    show "topic_ok k' a u"
    proof (cases "a = ?a")
      case True
      then have "u = ?t'" and pos: "0 < wrapper_refcnt t - 1" using u by (auto simp: tp split: if_splits)
      moreover have "domains ?t' \<subseteq> wr_domain_id ` {w' \<in> set ?ws. wr_topic w' = ?a}"
        unfolding ws domains_refcnt
        by (rule image_remove) (use T(2) empty in \<open>auto simp: topic_ok_def t_def\<close>)
      moreover have "topic_inv ?t'" "notify_ok (rule_of k t) ?t'"
        using T(2) by (auto simp: topic_ok_def topic_inv_refcnt notify_ok_refcnt)
      ultimately show ?thesis
        using T(2) True refs refs_to_remove1 [OF w, of ?a] by (simp add: topic_ok_def frame r)
    next
      case False
      then have old: "topic_ok k a u" using u K(2) by (auto simp: tp topics_ok_def)
      have "{w' \<in> set ?ws. wr_topic w' = a} = {w' \<in> set (topic_hashtable k). wr_topic w' = a}"
        using False ws by auto
      then show ?thesis using old refs_to_remove1 [OF w, of a] False by (simp add: topic_ok_def frame r)
    qed
  qed
  moreover have "links_ok k'"
    unfolding links_ok_def
  proof (intro ballI allI impI)
    fix w' u assume w': "w' \<in> set (topic_hashtable k')" and u: "topics k' (wr_topic w') = Some u"
    obtain u0 where u0: "topics k (wr_topic w') = Some u0" "topic_rule u = topic_rule u0"
      using u T(1) by (cases "wr_topic w' = ?a") (auto simp: tp split: if_splits)
    have "w' \<in> set (topic_hashtable k)" using w' ws by (simp add: frame)
    then show "topic_rule u = map_option rule_ptr (find_domain_rule (wr_key w') (wr_ipc_ns w') (wr_domain_id w') k')"
      using K(4) u0 by (simp add: links_ok_def find_domain_rule_def frame)
  qed
  ultimately have "kinv k'" by (rule kinv_wrappersI [OF inv frame(2-7)])
  then show ?thesis by (simp add: k'_def)
qed

lemma release_if_empty_inv:
  assumes "kinv k" and "w \<in> set (topic_hashtable k)"
  shows "kinv (release_if_empty w k)"
proof -
  have "wr_domain_id w \<notin> domains (topic_of k w)"
    if "\<not> agnocast_wrapper_has_domain_endpoints w (topic_of k w)"
    using that by (auto simp: agnocast_wrapper_has_domain_endpoints_def domains_def)
  then show ?thesis using assms release_wrapper_inv by (simp add: release_if_empty_def)
qed

lemma find_domain_rule_unique:
  assumes "rules_ok k" and "ru \<in> set (domain_rule_htable k)" and "rule_matches name ns dm ru"
  shows "find_domain_rule name ns dm k = Some ru"
proof (cases "find_domain_rule name ns dm k")
  case None
  then show ?thesis using assms(2,3) by (auto simp: find_domain_rule_def find_None_iff)
next
  case (Some x)
  then have "x \<in> set (domain_rule_htable k)" "rule_matches name ns dm x"
    by (auto simp: find_domain_rule_def find_Some_iff)
  then have "x = ru" using assms unfolding rules_ok_def by blast
  then show ?thesis using Some by simp
qed

lemma find_domain_rule_Some:
  "find_domain_rule name ns dm k = Some ru \<Longrightarrow> ru \<in> set (domain_rule_htable k) \<and> rule_matches name ns dm ru"
  by (auto simp: find_domain_rule_def find_Some_iff)

text \<open>A topic found by grouping carries the rule of the cell that asks for it.\<close>

lemma grouped_topic:
  assumes inv: "kinv k" and g: "find_grouped_topic_struct name ns dm k = Some a"
  obtains w t where "w \<in> set (topic_hashtable k)" "wr_topic w = a" "topics k a = Some t"
    "topic_rule t = map_option rule_ptr (find_domain_rule name ns dm k)"
proof -
  note K = kinvD [OF inv]
  from g obtain ru where ru: "find_domain_rule name ns dm k = Some ru"
    by (auto simp: find_grouped_topic_struct_def split: option.splits)
  note R = find_domain_rule_Some [OF ru]
  have ab: "domain_a ru \<noteq> domain_b ru" "is_prefix ru \<longrightarrow> topic_name_a ru = topic_name_b ru"
    using K(3) R by (auto simp: rules_ok_def)
  obtain pn pd w where w: "find_topic pn ns pd k = Some w" "wr_topic w = a" and m: "rule_matches pn ns pd ru"
    using g ru R ab by (auto simp: find_grouped_topic_struct_def rule_matches_def split: if_splits)
  note W = find_topic_Some [OF w(1)]
  have "find_domain_rule pn ns pd k = Some ru" using find_domain_rule_unique K(3) R m by blast
  then show thesis
    using that [of w "topic_of k w"] W w(2) topic_of_ok(1) [OF inv, of w] K(4) ru by (auto simp: links_ok_def)
qed

lemma new_topic_inv: "topic_inv (new_topic_struct r)" "notify_ok x (new_topic_struct r)"
  by (simp_all add: inv_defs notify_ok_def pub_ids_def sub_ids_def new_topic_struct_def MAX_TOPIC_LOCAL_ID_def)

lemma link_wrapper_inv:
  assumes inv: "kinv k" and fresh: "cell w \<notin> cell ` set (topic_hashtable k)"
    and k': "k' = k\<lparr>topic_hashtable := hash_add bkt w (topic_hashtable k), topics := (topics k)(wr_topic w \<mapsto> t'),
               next_topic := n\<rparr>"
    and n: "next_topic k \<le> n" "wr_topic w < n"
    and t': "topic_inv t'" "notify_ok (rule_of k t') t'"
      "wrapper_refcnt t' = Suc (refs_to (wr_topic w) (topic_hashtable k))"
      "domains t' \<subseteq> wr_domain_id ` {w' \<in> set (topic_hashtable k). wr_topic w' = wr_topic w}"
      "topic_rule t' = map_option rule_ptr (find_domain_rule (wr_key w) (wr_ipc_ns w) (wr_domain_id w) k)"
      "\<And>t. topics k (wr_topic w) = Some t \<Longrightarrow> topic_rule t = topic_rule t'"
  shows "kinv k'"
proof -
  note K = kinvD [OF inv]
  have r: "rule_of k' x = rule_of k x" for x by (rule rule_of_cong) (simp_all add: k')
  have "wrappers_ok k'" using K(1) fresh by (auto simp: wrappers_ok_def k' tbl_simps)
  moreover have "topics_ok k'"
    unfolding topics_ok_def
  proof (intro allI impI)
    fix a u assume u: "topics k' a = Some u"
    show "topic_ok k' a u"
    proof (cases "a = wr_topic w")
      case True
      then have "u = t'" using u by (simp add: k')
      then show ?thesis using True t' n by (auto simp: topic_ok_def r) (auto simp: k' refs_to_hash_add tbl_simps)
    next
      case False
      then have old: "topic_ok k a u" using u K(2) by (auto simp: k' topics_ok_def)
      have "{w' \<in> set (topic_hashtable k'). wr_topic w' = a} = {w' \<in> set (topic_hashtable k). wr_topic w' = a}"
        "refs_to a (topic_hashtable k') = refs_to a (topic_hashtable k)"
        using False by (auto simp: k' tbl_simps refs_to_hash_add)
      then show ?thesis using old n by (simp add: topic_ok_def r) (simp add: k')
    qed
  qed
  moreover have "links_ok k'"
    using K(4) t'(5,6) K(1) unfolding links_ok_def
    by (auto simp: k' tbl_simps find_domain_rule_def wrappers_ok_def)
  ultimately show ?thesis using inv by (intro kinv_wrappersI [OF inv]) (simp_all add: k')
qed

lemma add_topic_cases:
  assumes run: "add_topic env name ns dm al k = (x, al', k')" and none: "find_topic name ns dm k = None"
  shows "(\<exists>e. x = Inl e \<and> k' = k) \<or>
    (\<exists>a. find_grouped_topic_struct name ns dm k = Some a \<and>
       x = Inr \<lparr>wr_ipc_ns = ns, wr_domain_id = dm, wr_key = name, wr_topic = a\<rparr> \<and>
       k' = k\<lparr>topic_hashtable := hash_add (topic_bkt env \<circ> wr_key)
                \<lparr>wr_ipc_ns = ns, wr_domain_id = dm, wr_key = name, wr_topic = a\<rparr> (topic_hashtable k),
             topics := (topics k)(a := map_option (\<lambda>t. t\<lparr>wrapper_refcnt := wrapper_refcnt t + 1\<rparr>) (topics k a))\<rparr>) \<or>
    (x = Inr \<lparr>wr_ipc_ns = ns, wr_domain_id = dm, wr_key = name, wr_topic = next_topic k\<rparr> \<and>
     k' = k\<lparr>topic_hashtable := hash_add (topic_bkt env \<circ> wr_key)
              \<lparr>wr_ipc_ns = ns, wr_domain_id = dm, wr_key = name, wr_topic = next_topic k\<rparr> (topic_hashtable k),
           topics := (topics k)(next_topic k \<mapsto> new_topic_struct (map_option rule_ptr (find_domain_rule name ns dm k))),
           next_topic := next_topic k + 1\<rparr>)"
proof (cases "fst (kmalloc al) \<and> fst (kmalloc (snd (kmalloc al)))")
  case False
  then show ?thesis using run none by (auto simp: add_topic_def split: prod.splits if_splits)
next
  case True
  show ?thesis
  proof (cases "find_grouped_topic_struct name ns dm k")
    case None
    then show ?thesis
      using run none True
      by (cases "fst (kmalloc (snd (kmalloc (snd (kmalloc al)))))")
         (auto simp: add_topic_def Let_def split: prod.splits)
  next
    case (Some a)
    then show ?thesis using run none True by (auto simp: add_topic_def Let_def split: prod.splits)
  qed
qed

lemma add_topic_inv:
  assumes inv: "kinv k" and run: "add_topic env name ns dm al k = (x, al', k')"
  shows "kinv k'" and "x = Inr w \<Longrightarrow> w \<in> set (topic_hashtable k') \<and> cell w = (ns, dm, name)"
    and "proc_info_htable k' = proc_info_htable k" and "mempool_entries k' = mempool_entries k"
proof -
  note K = kinvD [OF inv]
  have "kinv k' \<and> (x = Inr w \<longrightarrow> w \<in> set (topic_hashtable k') \<and> cell w = (ns, dm, name)) \<and>
      proc_info_htable k' = proc_info_htable k \<and> mempool_entries k' = mempool_entries k"
  proof (cases "find_topic name ns dm k")
    case (Some v)
    then show ?thesis using run inv find_topic_Some [OF Some] by (auto simp: add_topic_def cell_def)
  next
    case None
    note absent = None [unfolded find_topic_None]
    let ?mk = "\<lambda>a. \<lparr>wr_ipc_ns = ns, wr_domain_id = dm, wr_key = name, wr_topic = a\<rparr>"
    have cm: "cell (?mk a) = (ns, dm, name)" for a by (simp add: cell_def)
    let ?bkt = "topic_bkt env \<circ> wr_key"
    from add_topic_cases [OF run None] show ?thesis
    proof (elim disjE exE conjE)
      fix e assume "x = Inl e" "k' = k"
      then show ?thesis using inv by simp
    next
      fix a assume grouped: "find_grouped_topic_struct name ns dm k = Some a" "x = Inr (?mk a)"
         "k' = k\<lparr>topic_hashtable := hash_add ?bkt (?mk a) (topic_hashtable k),
           topics := (topics k)(a := map_option (\<lambda>t. t\<lparr>wrapper_refcnt := wrapper_refcnt t + 1\<rparr>) (topics k a))\<rparr>"
      obtain w0 t where w0: "w0 \<in> set (topic_hashtable k)" "wr_topic w0 = a" "topics k a = Some t"
        "topic_rule t = map_option rule_ptr (find_domain_rule name ns dm k)"
        using grouped_topic [OF inv grouped(1)] by blast
      let ?t = "t\<lparr>wrapper_refcnt := wrapper_refcnt t + 1\<rparr>"
      have T: "topic_ok k a t" using K(2) w0(3) by (simp add: topics_ok_def)
      have r: "rule_of k ?t = rule_of k t" by (rule rule_of_cong) auto
      have "kinv k'"
        by (rule link_wrapper_inv [OF inv, where w = "?mk a" and bkt = ?bkt and t' = ?t and n = "next_topic k"])
           (use T w0 absent grouped(3) in \<open>auto simp: cm r topic_ok_def topic_inv_refcnt notify_ok_refcnt domains_refcnt\<close>)
      then show ?thesis using grouped by (auto simp: tbl_simps cm)
    next
      assume fresh: "x = Inr (?mk (next_topic k))"
         "k' = k\<lparr>topic_hashtable := hash_add ?bkt (?mk (next_topic k)) (topic_hashtable k),
           topics := (topics k)(next_topic k \<mapsto> new_topic_struct (map_option rule_ptr (find_domain_rule name ns dm k))),
           next_topic := next_topic k + 1\<rparr>"
      have none: "topics k (next_topic k) = None" using K(2) unfolding topics_ok_def topic_ok_def by (metis less_irrefl not_None_eq)
      then have "refs_to (next_topic k) (topic_hashtable k) = 0" using K(1) by (auto simp: refs_to_0 wrappers_ok_def)
      then have "kinv k'"
        by (intro link_wrapper_inv [OF inv, where w = "?mk (next_topic k)" and bkt = ?bkt and n = "next_topic k + 1"])
           (use absent none fresh(2) in
             \<open>auto simp: cm new_topic_inv\<close>, simp_all add: new_topic_struct_def domains_def)
      then show ?thesis using fresh by (auto simp: tbl_simps cm)
    qed
  qed
  then show "kinv k'" "x = Inr w \<Longrightarrow> w \<in> set (topic_hashtable k') \<and> cell w = (ns, dm, name)"
    "proc_info_htable k' = proc_info_htable k" "mempool_entries k' = mempool_entries k" by auto
qed

end
