(* ===== verification/Kmod_Steps.thy ===== *)
theory Kmod_Steps
  imports Kmod_Inv
begin

text \<open>
  Every handler of the kernel module keeps the global invariant. The handlers that work inside
  one topic reduce to the topic's lemmas through \<open>set_topic_inv\<close>; the others change the process
  table, the pools or the rule tables.
\<close>

section \<open>What topic operations leave alone\<close>

lemma same_frame_refl [simp]: "same_frame w t t"
  by (auto simp: same_frame_def)

lemma same_frame_trans: "same_frame w a b \<Longrightarrow> same_frame w b c \<Longrightarrow> same_frame w a c"
  unfolding same_frame_def by (metis (no_types, lifting) insert_subset insert_absorb2 insert_mono subset_trans)

lemma same_frameI:
  assumes "wrapper_refcnt t' = wrapper_refcnt t" "topic_rule t' = topic_rule t"
    and "pub_domain_id ` set (pub_info_htable t') \<subseteq> insert (wr_domain_id w) (pub_domain_id ` set (pub_info_htable t))"
    and "sub_domain_id ` set (sub_info_htable t') \<subseteq> insert (wr_domain_id w) (sub_domain_id ` set (sub_info_htable t))"
  shows "same_frame w t t'"
  using assms unfolding same_frame_def domains_def by blast

lemma frame_upd_sub:
  "(\<And>s. sub_domain_id (f s) = sub_domain_id s) \<Longrightarrow> same_frame w t (upd_sub i f t)"
  by (rule same_frameI) (auto simp: tbl_simps)

lemma frame_upd_pub:
  "(\<And>p. pub_domain_id (f p) = pub_domain_id p) \<Longrightarrow> same_frame w t (upd_pub i f t)"
  by (rule same_frameI) (auto simp: tbl_simps)

lemma frame_entries: "same_frame w t (t\<lparr>entries := es\<rparr>)" "same_frame w t (t\<lparr>current_entry_id := n\<rparr>)"
  by (auto intro: same_frameI)

lemma frame_pubs_like:
  "pubs_like (pub_info_htable t) (pub_info_htable t') \<Longrightarrow> set (sub_info_htable t') \<subseteq> set (sub_info_htable t) \<Longrightarrow>
     wrapper_refcnt t' = wrapper_refcnt t \<Longrightarrow> topic_rule t' = topic_rule t \<Longrightarrow> same_frame w t t'"
  by (rule same_frameI) (use pubs_like_domains in blast)+

lemma frame_rebuild: "same_frame w t (rebuild_all_notify_lists r t)"
  by (rule same_frameI) (auto simp: rebuild_all_notify_lists_def rebuild_notify_list_def)

lemma frame_hand_out: "same_frame w t (hand_out s out t)"
  by (rule same_frameI) (auto simp: hand_out_def tbl_simps)

lemma frame_release_msgs: "same_frame w t (snd (release_msgs_to_meet_depth p t))"
  by (rule same_frameI) (auto simp: release_msgs_to_meet_depth_def tbl_simps split: prod.splits)

lemma frame_insert_message: "same_frame w t (snd (snd (insert_message_entry i a al t)))"
  by (rule same_frameI) (auto simp: insert_message_entry_def Let_def tbl_simps split: prod.splits)

lemma frame_release_reference: "same_frame w t (snd (release_reference_core i e t))"
  unfolding release_reference_core_def by (auto split: option.splits intro: frame_entries)

lemma frame_grown:
  assumes "list_all2 grown (pub_info_htable t) ps"
  shows "same_frame w t (t\<lparr>pub_info_htable := ps\<rparr>)"
proof -
  have "pub_domain_id ` set ps = pub_domain_id ` set (pub_info_htable t)"
    using assms by (induction rule: list_all2_induct) (auto dest: grown_fields)
  then show ?thesis by (intro same_frameI) auto
qed

lemma frame_link_subscriber: "same_frame w t (link_subscriber bkt r (wr_domain_id w) q nctx t)"
  by (rule same_frameI)
     (auto simp: link_subscriber_def Let_def rebuild_all_notify_lists_def rebuild_notify_list_def
       tbl_simps new_subscriber_def)

lemma frame_insert_subscriber:
  assumes "insert_subscriber_info bkt r (wr_domain_id w) q nctx al t = (x, al', t')"
  shows "same_frame w t t'"
  using assms
proof (cases rule: insert_subscriber_info_cases)
  case (err e ps)
  then show ?thesis using frame_grown by simp
next
  case (ok ps)
  then show ?thesis using same_frame_trans [OF frame_grown frame_link_subscriber] by simp
qed

lemma frame_insert_publisher:
  assumes "insert_publisher_info bkt r (wr_domain_id w) q al t = (x, al', t')"
  shows "same_frame w t t'"
proof -
  obtain y al3 p where r: "reserve_notify_ctxs (new_publisher (wr_domain_id w) q (current_pubsub_id t))
     (notifiable_subscriber_num (sub_info_htable t)) (snd (kmalloc (snd (kmalloc al)))) = (y, al3, p)"
    by (metis prod_cases3)
  have "pub_domain_id p = wr_domain_id w"
    using grown_fields [OF reserve_notify_ctxs_ok(1) [OF r]] by (simp add: new_publisher_def)
  then show ?thesis
    using assms r
    by (cases y) (auto simp: insert_publisher_info_def Let_def tbl_simps rebuild_notify_list_def
        split: prod.splits if_splits intro!: same_frameI)
qed

lemma frame_unlink: "same_frame w t (agnocast_unlink_subscriber_info r s t)"
proof -
  have "same_frame w t (t\<lparr>sub_info_htable := del_key sub_id (sub_id s) (sub_info_htable t)\<rparr>)"
    by (rule same_frameI) (auto simp: tbl_simps)
  then show ?thesis
    by (auto simp: agnocast_unlink_subscriber_info_def Let_def intro: same_frame_trans [OF _ frame_rebuild])
qed

section \<open>Changing the process table or the pools\<close>

lemma kinv_procsI:
  assumes inv: "kinv k" and new: "procs_ok procs ps" "daemons_ok procs"
  shows "kinv (k\<lparr>proc_info_htable := procs, mempool_entries := ps\<rparr>)"
proof -
  note K = kinvD [OF inv]
  let ?k = "k\<lparr>proc_info_htable := procs, mempool_entries := ps\<rparr>"
  have "topics_ok ?k" using K(2) by (simp add: topics_ok_def topic_ok_cong [of ?k k])
  moreover have "wrappers_ok ?k" "rules_ok ?k" "links_ok ?k" "tables_ok ?k"
    using K(1,3,4,7) by (simp_all add: wrappers_ok_def rules_ok_def links_ok_def tables_ok_def find_domain_rule_def)
  ultimately show ?thesis using new by (simp add: kinv_def)
qed

lemma kinv_poolsI:
  assumes "kinv k" and "procs_ok (proc_info_htable k) ps"
  shows "kinv (k\<lparr>mempool_entries := ps\<rparr>)"
  using kinv_procsI [OF assms(1,2) kinvD(6) [OF assms(1)]] by simp

lemma kinv_tablesI:
  assumes inv: "kinv k" and new: "tables_ok (k\<lparr>bridge_htable := bs, discovery_agent_htable := as\<rparr>)"
  shows "kinv (k\<lparr>bridge_htable := bs, discovery_agent_htable := as\<rparr>)"
proof -
  note K = kinvD [OF inv]
  let ?k = "k\<lparr>bridge_htable := bs, discovery_agent_htable := as\<rparr>"
  have "topics_ok ?k" using K(2) by (simp add: topics_ok_def topic_ok_cong [of ?k k])
  moreover have "wrappers_ok ?k" "rules_ok ?k" "links_ok ?k"
    using K(1,3,4) by (simp_all add: wrappers_ok_def rules_ok_def links_ok_def find_domain_rule_def)
  ultimately show ?thesis using K(5,6) new by (simp add: kinv_def)
qed

section \<open>Handlers inside one topic\<close>

definition notify_key :: "subscriber_info \<Rightarrow> ctx option \<times> domain \<times> bool \<times> bool \<times> pid" where
  "notify_key s = (notify_ctx s, sub_domain_id s, sub_is_bridge s, ignore_local_publications s, sub_pid s)"

lemma notify_key_targets:
  "map notify_key ss = map notify_key xs \<Longrightarrow>
     notify_targets r ss p = notify_targets r xs p \<and> notifiable_subscriber_num ss = notifiable_subscriber_num xs"
proof (induction ss arbitrary: xs)
  case (Cons s ss)
  then obtain y ys where xs: "xs = y # ys" and k: "notify_key s = notify_key y" "map notify_key ss = map notify_key ys"
    by (cases xs) auto
  from k(1) have "notify_target r p s = notify_target r p y" "notify_ctx s = notify_ctx y"
    by (auto simp: notify_key_def notify_target_def)
  then show ?case using Cons.IH [OF k(2)] by (simp add: xs notify_targets_def notifiable_subscriber_num_def)
qed simp

lemma notify_subs_cong:
  "map notify_key ss = map notify_key (sub_info_htable t) \<Longrightarrow>
     notify_ok r (t\<lparr>sub_info_htable := ss\<rparr>) = notify_ok r t"
  using notify_key_targets [of ss "sub_info_htable t"] by (simp add: notify_ok_def)

lemma inv_subs_cong:
  assumes "map (\<lambda>s. (sub_id s, latest_received_entry_id s)) ss =
           map (\<lambda>s. (sub_id s, latest_received_entry_id s)) (sub_info_htable t)"
  shows "topic_inv (t\<lparr>sub_info_htable := ss\<rparr>) = topic_inv t"
proof -
  have ids: "map sub_id ss = map sub_id (sub_info_htable t)"
    using arg_cong [OF assms, of "map fst"] by (simp add: o_def)
  then have img: "sub_id ` set ss = sub_id ` set (sub_info_htable t)" by (metis list.set_map)
  have len: "length ss = length (sub_info_htable t)" using map_eq_imp_length_eq [OF assms] .
  have "(\<forall>s\<in>set ss. P (sub_id s) (latest_received_entry_id s)) =
      (\<forall>x\<in>set (map (\<lambda>s. (sub_id s, latest_received_entry_id s)) ss). P (fst x) (snd x))" for P by simp
  then have all: "(\<forall>s\<in>set ss. P (sub_id s) (latest_received_entry_id s)) =
      (\<forall>s\<in>set (sub_info_htable t). P (sub_id s) (latest_received_entry_id s))" for P
    unfolding assms by simp
  have "window_ok (t\<lparr>sub_info_htable := ss\<rparr>) = window_ok t"
    unfolding window_ok_def
    using all [of "\<lambda>i l. -1 \<le> l \<and> l < current_entry_id t \<and>
      (\<forall>en\<in>set (entries t). i \<in> referencing_subscribers en \<longrightarrow> entry_id en \<le> l)"] by simp
  then show ?thesis
    by (simp add: topic_inv_def inv_but_def ids_ok_def limits_ok_def tree_ok_def refs_ok_def ids img len sub_ids_def pub_ids_def)
qed

lemma mmap_flag_keeps:
  "topic_inv (upd_sub i (\<lambda>s. s\<lparr>need_mmap_update := b\<rparr>) t) = topic_inv t"
  "notify_ok r (upd_sub i (\<lambda>s. s\<lparr>need_mmap_update := b\<rparr>) t) = notify_ok r t"
  unfolding upd_sub_def by (rule inv_subs_cong notify_subs_cong; simp add: tbl_simps notify_key_def)+

lemma notify_hand_out: "notify_ok r (hand_out s out t) = notify_ok r t"
proof -
  have "notify_ok r (u\<lparr>entries := es\<rparr>) = notify_ok r u" for u es by (simp add: notify_ok_def)
  moreover have "notify_ok r (upd_sub i (\<lambda>s. s\<lparr>latest_received_entry_id := x\<rparr>) u) = notify_ok r u" for i x u
    unfolding upd_sub_def by (rule notify_subs_cong) (simp add: tbl_simps notify_key_def)
  ultimately show ?thesis by (simp add: hand_out_def)
qed

lemma publish_msg_inv:
  assumes inv: "kinv k"
  shows "kinv (snd (agnocast_ioctl_publish_msg cur name ns i addr al k))"
proof (cases "find_topic_for_current cur name ns k")
  case None
  then show ?thesis using inv by (simp add: agnocast_ioctl_publish_msg_def)
next
  case (Some w)
  note W = found_topic [OF inv Some]
  define t where "t = topic_of k w"
  note W' = W [folded t_def]
  obtain x al' t1 where ins: "insert_message_entry i addr al t = (x, al', t1)" by (metis prod_cases3)
  obtain y t2 where rel: "release_msgs_to_meet_depth (the (find_publisher_info i t1)) t1 = (y, t2)" by fastforce
  have stop: "kinv (set_topic w t1 k) \<and> kinv (set_topic w t2 k)" if p: "find_publisher_info i t \<noteq> None"
  proof -
    have "i \<in> pub_ids t" using p by (simp add: find_publisher_info_None)
    then have i1: "topic_inv t1"
      using insert_message_entry_inv [of "{}" t i addr al] W'(3) ins by (simp add: topic_inv_def)
    then have i2: "topic_inv t2"
      using release_msgs_inv [of "{}" t1 "the (find_publisher_info i t1)"] rel by (simp add: topic_inv_def)
    have p1: "pubs_like (pub_info_htable t) (pub_info_htable t1)" "sub_info_htable t1 = sub_info_htable t"
      using ins pubs_like_upd by (auto simp: insert_message_entry_def Let_def split: prod.splits if_splits)
    have p2: "pubs_like (pub_info_htable t1) (pub_info_htable t2)" "sub_info_htable t2 = sub_info_htable t1"
      using rel pubs_like_upd by (auto simp: release_msgs_to_meet_depth_def split: prod.splits if_splits)
    have n1: "notify_ok (rule_of k t) t1" using W'(4) p1 by (rule pubs_like_notify)
    then have n2: "notify_ok (rule_of k t) t2" using p2 by (rule pubs_like_notify)
    have f1: "same_frame w t t1" using frame_insert_message [of w t i addr al] ins by simp
    have f2: "same_frame w t t2"
      using same_frame_trans [OF f1 frame_release_msgs [of w t1 "the (find_publisher_info i t1)"]] rel by simp
    show ?thesis using set_topic_inv [OF inv W'(1,2) f1 i1 n1] set_topic_inv [OF inv W'(1,2) f2 i2 n2] by simp
  qed
  show ?thesis
    using inv stop Some ins rel
    by (auto simp: agnocast_ioctl_publish_msg_def t_def [symmetric] Let_def split: option.splits sum.splits)
qed

lemma release_reference_inv:
  assumes inv: "kinv k"
  shows "kinv (snd (agnocast_ioctl_release_message_entry_reference cur name ns i e k))"
proof (cases "find_topic_for_current cur name ns k")
  case (Some w)
  note W = found_topic [OF inv Some]
  obtain x t' where r: "release_reference_core i e (topic_of k w) = (x, t')" by fastforce
  have "topic_inv t'"
    using release_reference_core_inv [of "{}" "topic_of k w" i e] W(3) r by (simp add: topic_inv_def)
  moreover have "notify_ok (rule_of k (topic_of k w)) t'"
    by (rule pubs_like_notify [OF W(4)])
       (use r in \<open>auto simp: release_reference_core_def split: option.splits if_splits\<close>)
  ultimately have "kinv (set_topic w t' k)"
    using set_topic_inv [OF inv W(1,2)] frame_release_reference [of w "topic_of k w" i e] r by simp
  then show ?thesis using Some r by (simp add: agnocast_ioctl_release_message_entry_reference_def)
qed (simp add: agnocast_ioctl_release_message_entry_reference_def inv)

subsection \<open>Receiving and taking\<close>

lemma reference_procs_ok:
  assumes ok: "procs_ok procs ps" and i: "i < length ps" and run: "reference_memory i p al ps = (r, al', ps')"
  shows "procs_ok procs ps'"
proof -
  have P: "pools_ok ps" using ok by (simp add: procs_ok_def)
  note R = mp.reference_grows [OF P i run]
  have "q \<in> mappers ps' j" if "q \<in> mappers ps j" for q j using mp.reference_keeps [OF P i that run] .
  then show ?thesis using ok R by (auto simp: procs_ok_def)
qed

lemma set_publisher_shm_info_ok:
  "procs_ok procs ps \<Longrightarrow>
     procs_ok procs (snd (set_publisher_shm_info loc sz procs r dm sp sbr cap num pubs al ps))"
proof (induction pubs arbitrary: num al ps)
  case (Cons p pubs)
  note IH = Cons.IH and ok = Cons.prems
  show ?case
  proof (cases "sp = pub_pid p \<or> \<not> domain_delivery_allowed r (pub_domain_id p) (pub_is_bridge p) dm sbr \<or>
      (case agnocast_find_process_info (pub_pid p) procs of None \<Rightarrow> True | Some pr \<Rightarrow> exited pr)")
    case True
    then show ?thesis using IH [OF ok] by (auto simp: Let_def split: option.splits)
  next
    case False
    then obtain pr where Some: "agnocast_find_process_info (pub_pid p) procs = Some pr" and alive: "\<not> exited pr"
      by (auto split: option.splits)
    obtain x al' ps' where rm: "reference_memory (mempool_index pr) sp al ps = (x, al', ps')" by (metis prod_cases3)
    have "pr \<in> set procs" using find_key_Some Some by (fastforce simp: agnocast_find_process_info_def)
    then have "mempool_index pr < length ps" using ok by (simp add: procs_ok_def)
    then have ok': "procs_ok procs ps'" using reference_procs_ok ok rm by blast
    show ?thesis
      using False Some alive rm ok' IH [OF ok', of num al'] IH [OF ok', of "num + 1" al']
      by (cases x) (auto simp: Let_def split: sum.splits prod.splits)
  qed
qed simp

lemma update_mmap_inv:
  assumes inv: "kinv k" and w: "w \<in> set (topic_hashtable k)"
  shows "kinv (snd (update_mmap env w s cap al k))"
proof -
  note T = topic_of_ok [OF inv w]
  let ?t = "topic_of k w"
  obtain x ps where run: "set_publisher_shm_info (convert_pid_to_local env) (mempool_size_bytes k) (proc_info_htable k)
      (rule_of k ?t) (wr_domain_id w) (sub_pid s) (sub_is_bridge s) cap 0 (pub_info_htable ?t) al (mempool_entries k) = (x, ps)"
    by fastforce
  have "procs_ok (proc_info_htable k) ps"
    using set_publisher_shm_info_ok [OF kinvD(5) [OF inv]] run by (metis snd_conv)
  then have k1: "kinv (k\<lparr>mempool_entries := ps\<rparr>)" by (rule kinv_poolsI [OF inv])
  have "kinv (set_topic w (upd_sub (sub_id s) (\<lambda>s. s\<lparr>need_mmap_update := False\<rparr>) ?t) (k\<lparr>mempool_entries := ps\<rparr>))"
    by (rule set_topic_inv [OF k1, of _ ?t])
       (use T w in \<open>auto simp: mmap_flag_keeps topic_ok_def intro: frame_upd_sub\<close>)
  then show ?thesis using k1 inv run by (auto simp: update_mmap_def Let_def split: sum.splits)
qed

lemma receive_msg_inv:
  assumes inv: "kinv k"
  shows "kinv (snd (agnocast_ioctl_receive_msg env cur name ns sid cap al k))"
proof (cases "find_topic_for_current cur name ns k")
  case (Some w)
  note W = found_topic [OF inv Some]
  let ?t = "topic_of k w"
  show ?thesis
  proof (cases "find_subscriber_info sid ?t")
    case None
    then show ?thesis using Some inv by (simp add: agnocast_ioctl_receive_msg_def)
  next
    case s: (Some s)
    have sin: "s \<in> set (sub_info_htable ?t)"
      using s find_subscriber_info_Some W(3) by (auto simp: topic_inv_def inv_but_def)
    obtain x t' where c: "receive_msg_core (proc_info_htable k) (rule_of k ?t) s ?t = (x, t')" by fastforce
    have out: "t' = hand_out s (take MAX_RECEIVE_NUM (recv_window (proc_info_htable k) (rule_of k ?t) s ?t)) ?t"
      using c receive_msg_core_spec [OF W(3) sin] by (simp add: Let_def)
    have "topic_inv t'" using receive_msg_core_inv [OF W(3) sin] c by (metis snd_conv)
    then have k1: "kinv (set_topic w t' k)"
      by (intro set_topic_inv [OF inv W(1,2)]) (auto simp: out frame_hand_out notify_hand_out W(4))
    have "kinv (snd (update_mmap env w s cap al (set_topic w t' k)))"
      by (rule update_mmap_inv [OF k1]) (simp add: W(1))
    then show ?thesis
      using Some s c k1 by (auto simp: agnocast_ioctl_receive_msg_def Let_def split: sum.splits prod.splits)
  qed
qed (simp add: agnocast_ioctl_receive_msg_def inv)

lemma take_msg_inv:
  assumes inv: "kinv k"
  shows "kinv (snd (agnocast_ioctl_take_msg env cur name ns sid same cap al k))"
proof (cases "find_topic_for_current cur name ns k")
  case (Some w)
  note W = found_topic [OF inv Some]
  let ?t = "topic_of k w"
  show ?thesis
  proof (cases "find_subscriber_info sid ?t")
    case None
    then show ?thesis using Some inv by (simp add: agnocast_ioctl_take_msg_def)
  next
    case s: (Some s)
    have sin: "s \<in> set (sub_info_htable ?t)"
      using s find_subscriber_info_Some W(3) by (auto simp: topic_inv_def inv_but_def)
    obtain x t' where c: "take_msg_core (proc_info_htable k) (rule_of k ?t) s same ?t = (x, t')" by fastforce
    have out: "t' = ?t \<or> (\<exists>en. t' = hand_out s [en] ?t)"
      using c take_msg_core_spec [OF W(3) sin] by (auto split: list.splits)
    have "topic_inv t'" using take_msg_core_inv [OF W(3) sin] c by (metis snd_conv)
    then have k1: "kinv (set_topic w t' k)"
      using out by (intro set_topic_inv [OF inv W(1,2)]) (auto simp: frame_hand_out notify_hand_out W(4))
    have "kinv (snd (update_mmap env w s cap al (set_topic w t' k)))"
      by (rule update_mmap_inv [OF k1]) (simp add: W(1))
    then show ?thesis
      using Some s c k1 by (auto simp: agnocast_ioctl_take_msg_def Let_def split: sum.splits prod.splits)
  qed
qed (simp add: agnocast_ioctl_take_msg_def inv)

end
