(* ===== verification/Kmod_Exit.thy ===== *)
theory Kmod_Exit
  imports Kmod_Steps
begin

text \<open>
  The handlers that add and remove endpoints and processes keep the global invariant: adding a
  subscriber or a publisher, removing one, the cleanup after a process exited, and the
  registration and draining of processes.
\<close>

section \<open>Endpoints\<close>

lemma add_subscriber_inv:
  assumes inv: "kinv k"
  shows "kinv (snd (agnocast_ioctl_add_subscriber env name ns q evfd al k))"
proof -
  obtain x al1 k1 where a: "add_topic env name ns (get_process_domain_id (sp_pid q) k) al k = (x, al1, k1)"
    by (metis prod_cases3)
  note A = add_topic_inv [OF inv a]
  have step: "kinv (set_topic w t' k1)"
    if w: "x = Inr w" and r: "insert_subscriber_info (id_bkt env) (rule_of k1 (topic_of k1 w)) (wr_domain_id w) q nctx al1
      (topic_of k1 w) = (y, al2, t')" for w nctx y al2 t'
  proof -
    have win: "w \<in> set (topic_hashtable k1)" using A(2) [OF w] by simp
    note T = topic_of_ok [OF A(1) win]
    have "topic_inv (topic_of k1 w)" "notify_ok (rule_of k1 (topic_of k1 w)) (topic_of k1 w)"
      using T(2) by (auto simp: topic_ok_def)
    from insert_subscriber_info_inv [OF this r] show ?thesis
      by (intro set_topic_inv [OF A(1) win T(1) frame_insert_subscriber [OF r]])
  qed
  show ?thesis
    using a A(1) inv step
    by (auto simp: agnocast_ioctl_add_subscriber_def Let_def split: sum.splits prod.splits)
qed

lemma mmap_flags_keep:
  "topic_inv (t\<lparr>sub_info_htable := map (\<lambda>s. s\<lparr>need_mmap_update := b\<rparr>) (sub_info_htable t)\<rparr>) = topic_inv t"
  "notify_ok r (t\<lparr>sub_info_htable := map (\<lambda>s. s\<lparr>need_mmap_update := b\<rparr>) (sub_info_htable t)\<rparr>) = notify_ok r t"
  "same_frame w t (t\<lparr>sub_info_htable := map (\<lambda>s. s\<lparr>need_mmap_update := b\<rparr>) (sub_info_htable t)\<rparr>)"
  by (rule inv_subs_cong notify_subs_cong; simp add: notify_key_def)+ (rule same_frameI; force)

lemma add_publisher_inv:
  assumes inv: "kinv k"
  shows "kinv (snd (agnocast_ioctl_add_publisher env name ns q al k))"
proof -
  obtain x al1 k1 where a: "add_topic env name ns (get_process_domain_id (pp_pid q) k) al k = (x, al1, k1)"
    by (metis prod_cases3)
  note A = add_topic_inv [OF inv a]
  let ?f = "\<lambda>t. t\<lparr>sub_info_htable := map (\<lambda>s. s\<lparr>need_mmap_update := True\<rparr>) (sub_info_htable t)\<rparr>"
  have step: "kinv (set_topic w t' k1)" "kinv (set_topic w (?f t') k1)"
    if w: "x = Inr w" and r: "insert_publisher_info (id_bkt env) (rule_of k1 (topic_of k1 w)) (wr_domain_id w) q al1
      (topic_of k1 w) = (y, al2, t')" for w y al2 t'
  proof -
    have win: "w \<in> set (topic_hashtable k1)" using A(2) [OF w] by simp
    note T = topic_of_ok [OF A(1) win]
    have "topic_inv (topic_of k1 w)" "notify_ok (rule_of k1 (topic_of k1 w)) (topic_of k1 w)"
      using T(2) by (auto simp: topic_ok_def)
    note I = insert_publisher_info_inv [OF this r]
    note F = frame_insert_publisher [OF r]
    show "kinv (set_topic w t' k1)" using I by (intro set_topic_inv [OF A(1) win T(1) F]) auto
    show "kinv (set_topic w (?f t') k1)"
      by (rule set_topic_inv [OF A(1) win T(1) same_frame_trans [OF F mmap_flags_keep(3)]])
         (simp_all add: mmap_flags_keep I)
  qed
  show ?thesis
    using a A(1) step
    by (auto simp: agnocast_ioctl_add_publisher_def Let_def split: sum.splits prod.splits)
qed

lemma remove_publisher_inv:
  assumes inv: "kinv k"
  shows "kinv (snd (agnocast_ioctl_remove_publisher cur name ns i k))"
proof (cases "find_topic_for_current cur name ns k")
  case (Some w)
  note W = found_topic [OF inv Some]
  let ?t = "topic_of k w"
  note D = drop_publisher_inv [OF W(3) [unfolded topic_inv_def], of i]
  have "kinv (set_topic w (drop_publisher i ?t) k)"
    by (rule set_topic_inv [OF inv W(1,2)])
       (use D W(4) in \<open>auto simp: topic_inv_def intro: frame_pubs_like pubs_like_notify\<close>)
  then have "kinv (release_if_empty w (set_topic w (drop_publisher i ?t) k))"
    by (rule release_if_empty_inv) (simp add: W(1))
  then show ?thesis
    using Some inv by (simp add: agnocast_ioctl_remove_publisher_def Let_def split: option.splits)
qed (simp add: agnocast_ioctl_remove_publisher_def inv)

text \<open>A found subscriber's removal never takes the out-of-range exit.\<close>

lemma remove_subscriber_start:
  assumes inv: "kinv k" and w: "find_topic_for_current cur name ns k = Some w"
    and s: "find_subscriber_info sid (topic_of k w) = Some s"
  defines "t2 \<equiv> drop_refs_of (proc_info_htable k) sid
     (agnocast_unlink_subscriber_info (rule_of k (topic_of k w)) s (topic_of k w))"
  shows "snd (agnocast_ioctl_remove_subscriber cur name ns sid k) = release_if_empty w (set_topic w t2 k)"
    and "kinv (set_topic w t2 k)" and "s \<in> set (sub_info_htable (topic_of k w)) \<and> sub_id s = sid"
proof -
  note W = found_topic [OF inv w]
  let ?t = "topic_of k w"
  show sin: "s \<in> set (sub_info_htable ?t) \<and> sub_id s = sid"
    using s find_subscriber_info_Some W(3) by (auto simp: topic_inv_def inv_but_def)
  have bnd: "0 \<le> sid" "sid < MAX_TOPIC_LOCAL_ID"
    using W(3) sin by (auto simp: topic_inv_def inv_but_def ids_ok_def sub_ids_def)
  then show "snd (agnocast_ioctl_remove_subscriber cur name ns sid k) = release_if_empty w (set_topic w t2 k)"
    using w s by (simp add: agnocast_ioctl_remove_subscriber_def Let_def t2_def)
  let ?t1 = "agnocast_unlink_subscriber_info (rule_of k ?t) s ?t"
  have U: "inv_but {sid} ?t1" "sid \<notin> sub_ids ?t1"
    using unlink_inv [OF W(3), of s "rule_of k ?t"] sin by auto
  note D = drop_refs_of_inv [OF U, of "proc_info_htable k", folded t2_def]
  have n: "notify_ok (rule_of k ?t) t2"
    by (rule pubs_like_notify [OF unlink_notify [OF W(3) conjunct1 [OF sin] W(4)] D(2)]) (simp add: t2_def)
  have "same_frame w ?t1 t2" by (rule frame_pubs_like [OF D(2)]) (auto simp: t2_def)
  then show "kinv (set_topic w t2 k)"
    using D(1) n by (intro set_topic_inv [OF inv W(1,2) same_frame_trans [OF frame_unlink]]) (auto simp: topic_inv_def)
qed

lemma remove_subscriber_inv:
  assumes inv: "kinv k"
  shows "kinv (snd (agnocast_ioctl_remove_subscriber cur name ns sid k))"
proof (cases "find_topic_for_current cur name ns k")
  case (Some w)
  show ?thesis
  proof (cases "find_subscriber_info sid (topic_of k w)")
    case s: (Some s)
    note R = remove_subscriber_start [OF inv Some s]
    show ?thesis unfolding R(1) by (rule release_if_empty_inv [OF R(2)]) (simp add: found_topic(1) [OF inv Some])
  qed (use Some inv in \<open>simp add: agnocast_ioctl_remove_subscriber_def\<close>)
qed (simp add: agnocast_ioctl_remove_subscriber_def inv)

lemma set_ros2_num_inv:
  assumes inv: "kinv k"
  shows "kinv (snd (agnocast_ioctl_set_ros2_subscriber_num cur name ns n k))"
    and "kinv (snd (agnocast_ioctl_set_ros2_publisher_num cur name ns n k))"
proof -
  have "kinv (set_topic w ((topic_of k w)\<lparr>ros2_subscriber_num := n\<rparr>) k)"
    "kinv (set_topic w ((topic_of k w)\<lparr>ros2_publisher_num := n\<rparr>) k)"
    if f: "find_topic_for_current cur name ns k = Some w" for w
    using found_topic [OF inv f]
    by (auto intro!: set_topic_inv [OF inv _ found_topic(2) [OF inv f]] same_frameI
        simp: inv_defs notify_ok_def pub_ids_def sub_ids_def)
  then show "kinv (snd (agnocast_ioctl_set_ros2_subscriber_num cur name ns n k))"
    "kinv (snd (agnocast_ioctl_set_ros2_publisher_num cur name ns n k))"
    using inv by (auto simp: agnocast_ioctl_set_ros2_subscriber_num_def
        agnocast_ioctl_set_ros2_publisher_num_def split: option.splits)
qed

section \<open>The exit of a process\<close>

lemma upd_key_mem:
  "x \<in> set (upd_key key k f xs) \<Longrightarrow> \<exists>y\<in>set xs. x = (if key y = k then f y else y)"
  by (auto simp: upd_key_def)

lemma release_if_empty_table:
  "set (topic_hashtable k) - {w} \<subseteq> set (topic_hashtable (release_if_empty w k))"
  "proc_info_htable (release_if_empty w k) = proc_info_htable k"
  "mempool_entries (release_if_empty w k) = mempool_entries k"
proof -
  have "set ws - {w} \<subseteq> set (remove1 w ws)" for ws by (metis DiffE in_set_remove1 singletonI subsetI)
  then show "set (topic_hashtable k) - {w} \<subseteq> set (topic_hashtable (release_if_empty w k))"
    by (auto simp: release_if_empty_def agnocast_release_topic_wrapper_def Let_def)
qed (auto simp: release_if_empty_def agnocast_release_topic_wrapper_def Let_def)

lemma exit_wrapper_start:
  assumes inv: "kinv k" and w: "w \<in> set (topic_hashtable k)"
  defines "t1 p \<equiv> pre_handler_publisher_exit p (topic_of k w)"
  defines "t2 p \<equiv> pre_handler_subscriber_exit (proc_info_htable k) (rule_of k (topic_of k w)) p (t1 p)"
  shows "kinv (set_topic w (t2 p) k)"
    and "sub_info_htable (t2 p) = filter (\<lambda>s. sub_pid s \<noteq> p) (sub_info_htable (topic_of k w))"
proof -
  let ?t = "topic_of k w"
  let ?r = "rule_of k ?t"
  note T = topic_of_ok [OF inv w]
  have ti: "topic_inv ?t" and tn: "notify_ok ?r ?t" using T(2) by (auto simp: topic_ok_def)
  note P = pre_handler_publisher_exit_inv [OF ti, where p = p, folded t1_def]
  note S = pre_handler_subscriber_exit_inv [OF P(1), where p = p and r = ?r and procs = "proc_info_htable k", folded t2_def]
  have "same_frame w ?t (t1 p)" using P by (intro frame_pubs_like) auto
  moreover have "same_frame w (t1 p) (t2 p)" by (rule same_frameI) (use S(3-6) in auto)
  ultimately show "kinv (set_topic w (t2 p) k)"
    using S(1) S(2) [OF P(2) [OF tn]] by (intro set_topic_inv [OF inv w T(1) same_frame_trans])
  show "sub_info_htable (t2 p) = filter (\<lambda>s. sub_pid s \<noteq> p) (sub_info_htable ?t)" using S(3) P(3) by simp
qed

lemma exit_wrapper_inv:
  assumes inv: "kinv k" and w: "w \<in> set (topic_hashtable k)"
  shows "kinv (exit_wrapper p w k)"
    and "set (topic_hashtable k) - {w} \<subseteq> set (topic_hashtable (exit_wrapper p w k))"
  using release_if_empty_inv [OF exit_wrapper_start(1) [OF inv w, of p], of w] w
    release_if_empty_table(1) [of "set_topic w _ k" w]
  by (simp_all add: exit_wrapper_def Let_def)

lemma exit_wrappers_inv:
  "kinv k \<Longrightarrow> distinct ws \<Longrightarrow> set ws \<subseteq> set (topic_hashtable k) \<Longrightarrow> kinv (fold (exit_wrapper p) ws k)"
proof (induction ws arbitrary: k)
  case (Cons w ws)
  have w: "w \<in> set (topic_hashtable k)" using Cons.prems by simp
  note E = exit_wrapper_inv [OF Cons.prems(1) w, of p]
  have "set ws \<subseteq> set (topic_hashtable (exit_wrapper p w k))" using E(2) Cons.prems by auto
  then show ?case using Cons.IH E(1) Cons.prems(2) by simp
qed simp

text \<open>Freeing a process's mappings is safe once it is no longer a live entry of the table.\<close>

lemma free_procs_ok:
  assumes ok: "procs_ok procs ps" and sub: "distinct (map global_pid procs')"
    and old: "\<And>pr. pr \<in> set procs' \<Longrightarrow> \<exists>pr0\<in>set procs. global_pid pr = global_pid pr0 \<and>
        mempool_index pr = mempool_index pr0 \<and> (\<not> exited pr \<longrightarrow> pr = pr0)"
    and gone: "\<And>pr. pr \<in> set procs' \<Longrightarrow> global_pid pr = p \<Longrightarrow> exited pr"
  shows "procs_ok procs' (free_memory p ps)"
proof -
  have P: "pools_ok ps" using ok by (simp add: procs_ok_def)
  note F = free_memory_ok [OF P, of p]
  have live: "pr \<in> set procs" if "pr \<in> set procs'" "\<not> exited pr" for pr using old [OF that(1)] that(2) by auto
  have "mempool_index pr < length ps" if "pr \<in> set procs'" for pr using old [OF that] ok by (auto simp: procs_ok_def)
  moreover have "global_pid pr \<in> mappers ps (mempool_index pr) - {p}" if "pr \<in> set procs'" "\<not> exited pr" for pr
    using live [OF that] gone [OF that(1)] that(2) ok by (auto simp: procs_ok_def)
  moreover have "pr = pr'" if "pr \<in> set procs'" "pr' \<in> set procs'" "\<not> exited pr" "\<not> exited pr'"
      "mempool_index pr = mempool_index pr'" for pr pr'
    using live [OF that(1,3)] live [OF that(2,4)] that ok unfolding procs_ok_def by blast
  ultimately show ?thesis using sub F by (auto simp: procs_ok_def)
qed

lemma daemons_ok_sub:
  assumes "daemons_ok procs"
    and "\<And>pr. pr \<in> set procs' \<Longrightarrow> \<exists>pr0\<in>set procs. proc_ipc_ns pr = proc_ipc_ns pr0 \<and> proc_domain_id pr = proc_domain_id pr0 \<and>
        global_pid pr = global_pid pr0 \<and> (\<not> exited pr \<longrightarrow> \<not> exited pr0) \<and> (role pr \<noteq> PROCESS_ROLE_APPLICATION \<longrightarrow> role pr = role pr0)"
    and dist: "distinct (map global_pid procs')"
  shows "daemons_ok procs'"
proof -
  have same: "a = b" if "a \<in> set procs'" "b \<in> set procs'" "global_pid a = global_pid b" for a b
    using dist that by (auto simp: distinct_map dest: inj_onD)
  have "a = b" if ab: "a \<in> set procs'" "b \<in> set procs'" "proc_ipc_ns a = proc_ipc_ns b"
      and c: "(role a = PROCESS_ROLE_UNLINK_DAEMON \<and> role b = PROCESS_ROLE_UNLINK_DAEMON) \<or>
         (role a = PROCESS_ROLE_BRIDGE_MANAGER \<and> role b = PROCESS_ROLE_BRIDGE_MANAGER \<and> \<not> exited a \<and> \<not> exited b \<and>
          proc_domain_id a = proc_domain_id b)" for a b
  proof -
    obtain a0 where a0: "a0 \<in> set procs" "proc_ipc_ns a = proc_ipc_ns a0" "proc_domain_id a = proc_domain_id a0"
      "global_pid a = global_pid a0" "\<not> exited a \<longrightarrow> \<not> exited a0" "role a \<noteq> PROCESS_ROLE_APPLICATION \<longrightarrow> role a = role a0"
      using assms(2) [OF ab(1)] by blast
    obtain b0 where b0: "b0 \<in> set procs" "proc_ipc_ns b = proc_ipc_ns b0" "proc_domain_id b = proc_domain_id b0"
      "global_pid b = global_pid b0" "\<not> exited b \<longrightarrow> \<not> exited b0" "role b \<noteq> PROCESS_ROLE_APPLICATION \<longrightarrow> role b = role b0"
      using assms(2) [OF ab(2)] by blast
    have "a0 = b0"
      using assms(1) a0(1) b0(1) c ab(3) a0(2,3,5,6) b0(2,3,5,6) unfolding daemons_ok_def
      by (metis process_role.distinct(1,3))
    then show ?thesis using same ab(1,2) a0(4) b0(4) by simp
  qed
  then show ?thesis unfolding daemons_ok_def by blast
qed

lemma kinv_bridgesI: "kinv k \<Longrightarrow> tables_ok (k\<lparr>bridge_htable := bs\<rparr>) \<Longrightarrow> kinv (k\<lparr>bridge_htable := bs\<rparr>)"
  using kinv_tablesI [where k = k and bs = bs and as = "discovery_agent_htable k"] by simp

lemma kinv_agentsI: "kinv k \<Longrightarrow> tables_ok (k\<lparr>discovery_agent_htable := as\<rparr>) \<Longrightarrow> kinv (k\<lparr>discovery_agent_htable := as\<rparr>)"
  using kinv_tablesI [where k = k and bs = "bridge_htable k" and as = as] by simp

lemma kinv_bridges_filter: "kinv k \<Longrightarrow> kinv (k\<lparr>bridge_htable := filter P (bridge_htable k)\<rparr>)"
  using kinvD(7) [of k] by (intro kinv_bridgesI) (auto simp: tables_ok_def)

lemma exit_agents_inv:
  assumes inv: "kinv k"
  shows "kinv (k\<lparr>discovery_agent_htable := agnocast_remove_discovery_agent_by_pid p (discovery_agent_htable k)\<rparr>)"
  using kinvD(7) [OF inv]
  by (intro kinv_agentsI [OF inv])
     (auto simp: tables_ok_def agnocast_remove_discovery_agent_by_pid_def distinct_map split: option.splits intro: inj_on_subset)

text \<open>The state in which the loop over the topics starts: the process is marked or gone and maps
  no pool any more.\<close>

lemma exit_start:
  assumes inv: "kinv k" and Some: "agnocast_find_process_info p (proc_info_htable k) = Some pr"
  obtains k2 where "kinv k2" "topics k2 = topics k" "topic_hashtable k2 = topic_hashtable k"
    "mempool_entries k2 = free_memory p (mempool_entries k)"
    "\<forall>x\<in>set (proc_info_htable k2). global_pid x = p \<longrightarrow> exited x"
    "agnocast_process_exit_cleanup p k =
       (let k3 = fold (exit_wrapper p) (topic_hashtable k) k2
        in k3\<lparr>bridge_htable := filter (\<lambda>b. br_pid b \<noteq> p) (bridge_htable k3)\<rparr>)"
    "topics (agnocast_process_exit_cleanup p k) = topics (fold (exit_wrapper p) (topic_hashtable k) k2)"
proof -
  let ?k1 = "k\<lparr>discovery_agent_htable := agnocast_remove_discovery_agent_by_pid p (discovery_agent_htable k)\<rparr>"
  have k1: "kinv ?k1" by (rule exit_agents_inv [OF inv])
  let ?procs = "if role pr = PROCESS_ROLE_UNLINK_DAEMON then del_key global_pid p (proc_info_htable k)
     else upd_key global_pid p (\<lambda>pr. pr\<lparr>exited := True\<rparr>) (proc_info_htable k)"
  let ?k2 = "?k1\<lparr>proc_info_htable := ?procs, mempool_entries := free_memory p (mempool_entries k)\<rparr>"
  note K = kinvD [OF k1]
  have P: "procs_ok (proc_info_htable k) (mempool_entries k)" using K(5) by simp
  have dist: "distinct (map global_pid ?procs)"
    using P by (simp add: procs_ok_def distinct_del_key tbl_simps)
  have old: "\<exists>pr0\<in>set (proc_info_htable k). global_pid x = global_pid pr0 \<and> mempool_index x = mempool_index pr0 \<and>
      proc_ipc_ns x = proc_ipc_ns pr0 \<and> proc_domain_id x = proc_domain_id pr0 \<and> role x = role pr0 \<and>
      (\<not> exited x \<longrightarrow> x = pr0)" if x: "x \<in> set ?procs" for x
  proof (cases "role pr = PROCESS_ROLE_UNLINK_DAEMON")
    case True
    then have "x \<in> set (proc_info_htable k)" using x by (simp add: tbl_simps)
    then show ?thesis by (intro bexI [of _ x]) auto
  next
    case False
    then have "x \<in> set (upd_key global_pid p (\<lambda>pr. pr\<lparr>exited := True\<rparr>) (proc_info_htable k))" using x by simp
    from upd_key_mem [OF this] obtain pr0 where pr0: "pr0 \<in> set (proc_info_htable k)"
      "x = (if global_pid pr0 = p then pr0\<lparr>exited := True\<rparr> else pr0)" by blast
    then show ?thesis by (intro bexI [of _ pr0]) simp_all
  qed
  have gone: "exited x" if x: "x \<in> set ?procs" "global_pid x = p" for x
  proof (cases "role pr = PROCESS_ROLE_UNLINK_DAEMON")
    case True
    then show ?thesis using x by (simp add: set_del_key)
  next
    case False
    then have "x \<in> set (upd_key global_pid p (\<lambda>pr. pr\<lparr>exited := True\<rparr>) (proc_info_htable k))" using x by simp
    from upd_key_mem [OF this] obtain pr0 where
      "x = (if global_pid pr0 = p then pr0\<lparr>exited := True\<rparr> else pr0)" by blast
    then show ?thesis using x(2) by (cases "global_pid pr0 = p") simp_all
  qed
  have old1: "\<exists>pr0\<in>set (proc_info_htable k). global_pid x = global_pid pr0 \<and> mempool_index x = mempool_index pr0 \<and>
      (\<not> exited x \<longrightarrow> x = pr0)" if "x \<in> set ?procs" for x
    using old [OF that] by blast
  have old2: "\<exists>pr0\<in>set (proc_info_htable k). proc_ipc_ns x = proc_ipc_ns pr0 \<and> proc_domain_id x = proc_domain_id pr0 \<and>
      global_pid x = global_pid pr0 \<and> (\<not> exited x \<longrightarrow> \<not> exited pr0) \<and>
      (role x \<noteq> PROCESS_ROLE_APPLICATION \<longrightarrow> role x = role pr0)" if "x \<in> set ?procs" for x
    using old [OF that] by blast
  have "procs_ok ?procs (free_memory p (mempool_entries k))"
    by (rule free_procs_ok [OF P dist old1 gone])
  moreover have "daemons_ok ?procs"
    by (rule daemons_ok_sub [OF _ old2 dist]) (use K(6) in simp)
  ultimately have k2: "kinv ?k2" using kinv_procsI [OF k1] by simp
  have e: "agnocast_process_exit_cleanup p k =
      (let k3 = fold (exit_wrapper p) (topic_hashtable k) ?k2
       in k3\<lparr>bridge_htable := filter (\<lambda>b. br_pid b \<noteq> p) (bridge_htable k3)\<rparr>)"
    using Some by (cases "role pr = PROCESS_ROLE_UNLINK_DAEMON") (simp_all add: agnocast_process_exit_cleanup_def Let_def)
  show thesis
    by (rule that [OF k2 _ _ _ _ e]) (use gone in \<open>simp_all add: e Let_def\<close>)
qed

lemma process_exit_cleanup_inv:
  assumes inv: "kinv k"
  shows "kinv (agnocast_process_exit_cleanup p k)"
proof (cases "agnocast_find_process_info p (proc_info_htable k)")
  case None
  then show ?thesis using exit_agents_inv [OF inv] by (simp add: agnocast_process_exit_cleanup_def Let_def)
next
  case (Some pr)
  from exit_start [OF inv Some] obtain k2 where k2: "kinv k2" "topic_hashtable k2 = topic_hashtable k"
    and e: "agnocast_process_exit_cleanup p k =
       (let k3 = fold (exit_wrapper p) (topic_hashtable k) k2
        in k3\<lparr>bridge_htable := filter (\<lambda>b. br_pid b \<noteq> p) (bridge_htable k3)\<rparr>)" by metis
  have "distinct (topic_hashtable k2)" using kinvD(1) [OF k2(1)] by (simp add: wrappers_ok_def distinct_map)
  then have "kinv (fold (exit_wrapper p) (topic_hashtable k) k2)" using exit_wrappers_inv [OF k2(1)] k2(2) by simp
  then show ?thesis unfolding e Let_def by (rule kinv_bridges_filter)
qed

section \<open>Registering and draining processes\<close>

lemma add_process_inv:
  assumes inv: "kinv k"
  shows "kinv (snd (agnocast_ioctl_add_process env p ns rn dm al k))"
proof -
  note K = kinvD [OF inv]
  have step: "kinv (k\<lparr>proc_info_htable := hash_add bkt pr (proc_info_htable k), mempool_entries := ps\<rparr>)"
    if as: "assign_memory p al' (mempool_entries k) = (Some i, al'', ps)"
      and pr: "global_pid pr = p" "mempool_index pr = i" "\<not> exited pr" "proc_ipc_ns pr = ns"
        "role pr = PROCESS_ROLE_BRIDGE_MANAGER \<longrightarrow> \<not> has_alive_bridge_manager ns (proc_domain_id pr) (proc_info_htable k)"
        "role pr = PROCESS_ROLE_UNLINK_DAEMON \<longrightarrow> \<not> has_alive_unlink_daemon ns (proc_info_htable k)"
      and new: "agnocast_find_process_info p (proc_info_htable k) = None" for al' i al'' ps pr and bkt :: "process_info \<Rightarrow> nat"
  proof -
    have P: "pools_ok (mempool_entries k)" using K(5) by (simp add: procs_ok_def)
    note A = mp.assign_new [OF P as]
    have keep: "q \<in> mappers ps j" if "q \<in> mappers (mempool_entries k) j" for q j using mp.assign_keeps [OF P that as] .
    have other: "mempool_index x \<noteq> i" if "x \<in> set (proc_info_htable k)" "\<not> exited x" for x
      using A K(5) that by (auto simp: procs_ok_def)
    have fresh: "p \<notin> global_pid ` set (proc_info_htable k)"
      using new by (simp add: agnocast_find_process_info_def find_key_None)
    have "procs_ok (hash_add bkt pr (proc_info_htable k)) ps"
      using K(5) A keep other fresh pr(1-3) unfolding procs_ok_def by (auto simp: tbl_simps)
    moreover have "daemons_ok (hash_add bkt pr (proc_info_htable k))"
      using K(6) pr(3-6) by (auto simp: daemons_ok_def tbl_simps has_alive_bridge_manager_def has_alive_unlink_daemon_def)
    ultimately show ?thesis by (rule kinv_procsI [OF inv])
  qed
  show ?thesis
    unfolding agnocast_ioctl_add_process_def Let_def
    by (auto simp: inv split: option.splits prod.splits intro!: step)
qed

lemma del_procs_ok:
  assumes ok: "procs_ok procs ps"
  shows "procs_ok (del_key global_pid p procs) ps"
  using ok unfolding procs_ok_def by (auto simp: tbl_simps distinct_del_key)

lemma commit_exit_process_inv:
  assumes inv: "kinv k"
  shows "kinv (snd (agnocast_commit_exit_process ns gp caller k))"
proof -
  have drop: "kinv (k'\<lparr>proc_info_htable := del_key global_pid p (proc_info_htable k')\<rparr>)" if "kinv k'" for p k'
  proof -
    note K = kinvD [OF that]
    have "daemons_ok (del_key global_pid p (proc_info_htable k'))" using K(6) by (auto simp: daemons_ok_def tbl_simps)
    from kinv_procsI [OF that del_procs_ok [OF K(5)] this] show ?thesis by simp
  qed
  have free: "kinv (k'\<lparr>proc_info_htable := del_key global_pid p (proc_info_htable k'),
      mempool_entries := free_memory p (mempool_entries k')\<rparr>)" if k': "kinv k'" for p k'
  proof -
    note K = kinvD [OF k']
    have "procs_ok (del_key global_pid p (proc_info_htable k')) (free_memory p (mempool_entries k'))"
      by (rule free_procs_ok [OF K(5)])
         (use K(5) in \<open>auto simp: procs_ok_def distinct_del_key set_del_key\<close>)
    moreover have "daemons_ok (del_key global_pid p (proc_info_htable k'))" using K(6) by (auto simp: daemons_ok_def tbl_simps)
    ultimately show ?thesis by (rule kinv_procsI [OF k'])
  qed
  show ?thesis
    using inv drop [OF inv] free [OF inv] free [OF drop [OF inv]]
    by (auto simp: agnocast_commit_exit_process_def Let_def split: option.splits)
qed

lemma procs_ok_relabel:
  assumes ok: "procs_ok procs ps" and dist: "distinct (map global_pid procs')"
    and old: "\<And>x. x \<in> set procs' \<Longrightarrow> \<exists>y\<in>set procs. global_pid x = global_pid y \<and> mempool_index x = mempool_index y \<and> exited x = exited y"
  shows "procs_ok procs' ps"
proof -
  have "a = b" if ab: "a \<in> set procs'" "b \<in> set procs'" "\<not> exited a" "\<not> exited b" "mempool_index a = mempool_index b" for a b
  proof -
    obtain y z where y: "y \<in> set procs" "global_pid a = global_pid y" "mempool_index a = mempool_index y" "exited a = exited y"
      and z: "z \<in> set procs" "global_pid b = global_pid z" "mempool_index b = mempool_index z" "exited b = exited z"
      using old [OF ab(1)] old [OF ab(2)] by blast
    have "\<forall>pr\<in>set procs. \<forall>pr'\<in>set procs. \<not> exited pr \<longrightarrow> \<not> exited pr' \<longrightarrow> mempool_index pr = mempool_index pr' \<longrightarrow> pr = pr'"
      using ok by (simp add: procs_ok_def)
    then have "y = z" using y z ab(3-5) by auto
    then have "global_pid a = global_pid b" using y z by simp
    then show ?thesis using dist ab(1,2) by (auto simp: distinct_map dest: inj_onD)
  qed
  moreover have "mempool_index x < length ps \<and> (\<not> exited x \<longrightarrow> global_pid x \<in> mappers ps (mempool_index x))"
    if "x \<in> set procs'" for x
    using old [OF that] ok unfolding procs_ok_def by auto
  ultimately show ?thesis using ok dist unfolding procs_ok_def by blast
qed

lemma role_change_inv:
  assumes inv: "kinv k"
  shows "kinv (agnocast_ioctl_notify_bridge_shutdown p k)"
    and "kinv (snd (agnocast_ioctl_check_and_request_bridge_shutdown p ns k))"
proof -
  note K = kinvD [OF inv]
  let ?procs = "upd_key global_pid p (\<lambda>pr. pr\<lparr>role := PROCESS_ROLE_APPLICATION\<rparr>) (proc_info_htable k)"
  have old: "\<exists>y\<in>set (proc_info_htable k). x = (if global_pid y = p then y\<lparr>role := PROCESS_ROLE_APPLICATION\<rparr> else y)"
    if "x \<in> set ?procs" for x using upd_key_mem [OF that] .
  have dist: "distinct (map global_pid ?procs)" using K(5) by (simp add: procs_ok_def tbl_simps)
  have idx: "\<exists>y\<in>set (proc_info_htable k). global_pid x = global_pid y \<and> mempool_index x = mempool_index y \<and>
      exited x = exited y \<and> proc_ipc_ns x = proc_ipc_ns y \<and> proc_domain_id x = proc_domain_id y \<and>
      (role x \<noteq> PROCESS_ROLE_APPLICATION \<longrightarrow> role x = role y)" if x: "x \<in> set ?procs" for x
  proof -
    obtain y where "y \<in> set (proc_info_htable k)" "x = (if global_pid y = p then y\<lparr>role := PROCESS_ROLE_APPLICATION\<rparr> else y)"
      using old [OF x] by blast
    then show ?thesis by (intro bexI [of _ y]) simp_all
  qed
  have "daemons_ok ?procs" by (rule daemons_ok_sub [OF K(6) _ dist]) (use idx in blast)
  moreover have "procs_ok ?procs (mempool_entries k)"
    by (rule procs_ok_relabel [OF K(5) dist]) (use idx in blast)
  ultimately have "kinv (k\<lparr>proc_info_htable := ?procs\<rparr>)"
    using kinv_procsI [OF inv, where procs = ?procs and ps = "mempool_entries k"] by simp
  then show "kinv (agnocast_ioctl_notify_bridge_shutdown p k)"
    "kinv (snd (agnocast_ioctl_check_and_request_bridge_shutdown p ns k))"
    using inv by (simp_all add: agnocast_ioctl_notify_bridge_shutdown_def
        agnocast_ioctl_check_and_request_bridge_shutdown_def)
qed

end
