(* ===== verification/Kmod_Rules.thy ===== *)
theory Kmod_Rules
  imports Kmod_Exit
begin

text \<open>
  Registering domain bridge rules, ROS 2 bridges and discovery agents keeps the global
  invariant. For the rules this is what the comments of \<open>add_domain_rule\<close> and
  \<open>add_prefix_domain_rule\<close> promise: a cell never belongs to two rules, and a rule or a direction
  is added only while no topic it covers exists, so the rule a topic was created with stays the
  rule of its cells and the notify lists built under it stay complete.
\<close>

section \<open>Bridges and discovery agents\<close>

lemma add_bridge_inv:
  assumes inv: "kinv k"
  shows "kinv (snd (agnocast_ioctl_add_bridge env name p is_r2a ns al k))"
proof -
  let ?key = "\<lambda>b. (br_ipc_ns b, br_topic_name b)"
  let ?f = "\<lambda>b. if is_r2a then b\<lparr>has_r2a := True\<rparr> else b\<lparr>has_a2r := True\<rparr>"
  note T = kinvD(7) [OF inv]
  have up: "kinv (k\<lparr>bridge_htable := upd_key ?key (ns, name) ?f (bridge_htable k)\<rparr>)"
  proof (rule kinv_bridgesI [OF inv])
    have "map ?key (upd_key ?key (ns, name) ?f (bridge_htable k)) = map ?key (bridge_htable k)"
      by (rule map_upd_key) simp
    moreover have "has_r2a x \<or> has_a2r x" if x: "x \<in> set (upd_key ?key (ns, name) ?f (bridge_htable k))" for x
    proof -
      obtain y where "y \<in> set (bridge_htable k)" "x = (if ?key y = (ns, name) then ?f y else y)"
        using upd_key_mem [OF x] by blast
      then show ?thesis using T by (cases "?key y = (ns, name)") (auto simp: tables_ok_def)
    qed
    ultimately show "tables_ok (k\<lparr>bridge_htable := upd_key ?key (ns, name) ?f (bridge_htable k)\<rparr>)"
      using T by (simp add: tables_ok_def)
  qed
  have new: "kinv (k\<lparr>bridge_htable := hash_add (bridge_bkt env \<circ> br_topic_name)
      \<lparr>br_topic_name = name, br_pid = p, has_r2a = is_r2a, has_a2r = \<not> is_r2a, br_ipc_ns = ns\<rparr> (bridge_htable k)\<rparr>)"
    if "find_bridge_info name ns k = None"
    using that T by (intro kinv_bridgesI [OF inv]) (auto simp: tables_ok_def tbl_simps find_bridge_info_def)
  show ?thesis
    using inv up new
    by (auto simp: agnocast_ioctl_add_bridge_def Let_def split: option.splits prod.splits)
qed

lemma remove_bridge_inv:
  assumes inv: "kinv k"
  shows "kinv (snd (agnocast_ioctl_remove_bridge name p is_r2a ns k))"
proof (cases "find_bridge_info name ns k")
  case None
  then show ?thesis using inv by (simp add: agnocast_ioctl_remove_bridge_def)
next
  case (Some b)
  let ?key = "\<lambda>b. (br_ipc_ns b, br_topic_name b)"
  let ?f = "\<lambda>b. if is_r2a then b\<lparr>has_r2a := False\<rparr> else b\<lparr>has_a2r := False\<rparr>"
  note T = kinvD(7) [OF inv]
  have only: "y = b" if "y \<in> set (bridge_htable k)" "?key y = (ns, name)" for y
  proof -
    have "find_key ?key (?key y) (bridge_htable k) = Some y"
      using T that(1) by (intro find_key_mem) (auto simp: tables_ok_def)
    then show ?thesis using Some that(2) by (simp add: find_bridge_info_def)
  qed
  have del: "kinv (k\<lparr>bridge_htable := del_key ?key (ns, name) (bridge_htable k)\<rparr>)"
    unfolding del_key_def by (rule kinv_bridges_filter [OF inv])
  have up: "kinv (k\<lparr>bridge_htable := upd_key ?key (ns, name) ?f (bridge_htable k)\<rparr>)"
    if left: "has_r2a (?f b) \<or> has_a2r (?f b)"
  proof (rule kinv_bridgesI [OF inv])
    have "map ?key (upd_key ?key (ns, name) ?f (bridge_htable k)) = map ?key (bridge_htable k)"
      by (rule map_upd_key) simp
    moreover have "has_r2a x \<or> has_a2r x" if x: "x \<in> set (upd_key ?key (ns, name) ?f (bridge_htable k))" for x
    proof -
      obtain y where y: "y \<in> set (bridge_htable k)" "x = (if ?key y = (ns, name) then ?f y else y)"
        using upd_key_mem [OF x] by blast
      then show ?thesis using T left only [OF y(1)] by (cases "?key y = (ns, name)") (auto simp: tables_ok_def)
    qed
    ultimately show "tables_ok (k\<lparr>bridge_htable := upd_key ?key (ns, name) ?f (bridge_htable k)\<rparr>)"
      using T by (simp add: tables_ok_def)
  qed
  show ?thesis
    using inv Some del up by (simp add: agnocast_ioctl_remove_bridge_def Let_def)
qed

lemma discovery_agent_inv:
  assumes inv: "kinv k"
  shows "kinv (snd (agnocast_ioctl_add_discovery_agent env p ns dm al k))"
    and "kinv (snd (agnocast_ioctl_discovery_agent_should_exit p ns dm commit k))"
proof -
  note T = kinvD(7) [OF inv]
  have "kinv (k\<lparr>discovery_agent_htable := hash_add bkt \<lparr>da_pid = p, da_ipc_ns = ns, da_domain_id = dm\<rparr> (discovery_agent_htable k)\<rparr>)"
    if "agnocast_find_discovery_agent ns dm (discovery_agent_htable k) = None" for bkt
    using that T
    by (intro kinv_agentsI [OF inv]) (auto simp: tables_ok_def tbl_simps agnocast_find_discovery_agent_def find_None_iff)
  then show "kinv (snd (agnocast_ioctl_add_discovery_agent env p ns dm al k))"
    using inv by (auto simp: agnocast_ioctl_add_discovery_agent_def split: option.splits)
  have "kinv (k\<lparr>discovery_agent_htable := agnocast_remove_discovery_agent_by_pid p (discovery_agent_htable k)\<rparr>)"
    using T by (intro kinv_agentsI [OF inv])
      (auto simp: tables_ok_def agnocast_remove_discovery_agent_by_pid_def distinct_map split: option.splits intro: inj_on_subset)
  then show "kinv (snd (agnocast_ioctl_discovery_agent_should_exit p ns dm commit k))"
    using inv by (auto simp: agnocast_ioctl_discovery_agent_should_exit_def Let_def)
qed

section \<open>Rules\<close>

lemma topic_rule_known:
  assumes inv: "kinv k" and t: "topics k a = Some t"
  obtains w where "w \<in> set (topic_hashtable k)" "wr_topic w = a"
    "topic_rule t = map_option rule_ptr (find_domain_rule (wr_key w) (wr_ipc_ns w) (wr_domain_id w) k)"
proof -
  note K = kinvD [OF inv]
  have "refs_to a (topic_hashtable k) \<noteq> 0" using K(2) t by (simp add: topics_ok_def topic_ok_def)
  then obtain w where w: "w \<in> set (topic_hashtable k)" "wr_topic w = a" by (auto simp: refs_to_0)
  then show thesis using that K(4) t by (auto simp: links_ok_def)
qed

text \<open>A change of the rule table under which no existing cell sees a different rule.\<close>

lemma kinv_rulesI:
  assumes inv: "kinv k" and new: "rules_ok (k\<lparr>domain_rule_htable := rs, next_rule := n\<rparr>)"
    and same: "\<And>w. w \<in> set (topic_hashtable k) \<Longrightarrow>
      map_option rule_ptr (find_domain_rule (wr_key w) (wr_ipc_ns w) (wr_domain_id w) (k\<lparr>domain_rule_htable := rs, next_rule := n\<rparr>)) =
      map_option rule_ptr (find_domain_rule (wr_key w) (wr_ipc_ns w) (wr_domain_id w) k)"
    and ptr: "\<And>a t. topics k a = Some t \<Longrightarrow> rule_of (k\<lparr>domain_rule_htable := rs, next_rule := n\<rparr>) t = rule_of k t"
  shows "kinv (k\<lparr>domain_rule_htable := rs, next_rule := n\<rparr>)" (is "kinv ?k")
proof -
  note K = kinvD [OF inv]
  have "topics_ok ?k" using K(2) ptr by (simp add: topics_ok_def topic_ok_def)
  moreover have "wrappers_ok ?k" using K(1) by (simp add: wrappers_ok_def)
  moreover have "links_ok ?k" using K(4) same by (simp add: links_ok_def)
  moreover have "tables_ok ?k" using K(7) by (simp add: tables_ok_def)
  ultimately show ?thesis using K(5,6) new by (simp add: kinv_def)
qed

lemma find_skip: "\<not> P x \<Longrightarrow> find P (ys @ x # zs) = find P (ys @ zs)"
  by (induction ys) auto

lemma add_rule_inv:
  assumes inv: "kinv k"
    and ru: "rule_ptr ru = next_rule k" "domain_a ru < domain_b ru" "is_prefix ru \<Longrightarrow> topic_name_a ru = topic_name_b ru"
    and disj: "\<And>r name ns dm. r \<in> set (domain_rule_htable k) \<Longrightarrow> rule_matches name ns dm ru \<Longrightarrow> \<not> rule_matches name ns dm r"
    and free: "\<And>w. w \<in> set (topic_hashtable k) \<Longrightarrow> \<not> rule_matches (wr_key w) (wr_ipc_ns w) (wr_domain_id w) ru"
  shows "kinv (k\<lparr>domain_rule_htable := hash_add bkt ru (domain_rule_htable k), next_rule := next_rule k + 1\<rparr>)" (is "kinv ?k")
proof (rule kinv_rulesI [OF inv])
  note R = kinvD(3) [OF inv]
  have fresh: "next_rule k \<notin> rule_ptr ` set (domain_rule_htable k)" using R by (auto simp: rules_ok_def)
  show "rules_ok ?k"
  proof -
    have "distinct (map rule_ptr (domain_rule_htable ?k))" using R fresh ru(1) by (simp add: rules_ok_def tbl_simps)
    moreover have "\<forall>r\<in>set (domain_rule_htable ?k). rule_ptr r < next_rule ?k \<and> domain_a r < domain_b r \<and>
        (is_prefix r \<longrightarrow> topic_name_a r = topic_name_b r)"
      using R ru by (auto simp: rules_ok_def tbl_simps less_Suc_eq)
    moreover have "r = r'" if "r \<in> set (domain_rule_htable ?k)" "r' \<in> set (domain_rule_htable ?k)"
        "rule_matches name ns dm r" "rule_matches name ns dm r'" for r r' name ns dm
    proof -
      have "r = ru \<or> r \<in> set (domain_rule_htable k)" "r' = ru \<or> r' \<in> set (domain_rule_htable k)"
        using that(1,2) by (auto simp: tbl_simps)
      then show ?thesis using that(3,4) disj R unfolding rules_ok_def by blast
    qed
    ultimately show ?thesis unfolding rules_ok_def by blast
  qed
  show "map_option rule_ptr (find_domain_rule (wr_key w) (wr_ipc_ns w) (wr_domain_id w) ?k) =
      map_option rule_ptr (find_domain_rule (wr_key w) (wr_ipc_ns w) (wr_domain_id w) k)"
    if w: "w \<in> set (topic_hashtable k)" for w
  proof -
    obtain ys zs where "domain_rule_htable k = ys @ zs" "hash_add bkt ru (domain_rule_htable k) = ys @ ru # zs"
      by (rule hash_add_split)
    then show ?thesis using free [OF w] by (simp add: find_domain_rule_def find_skip)
  qed
  show "rule_of ?k t = rule_of k t" if t: "topics k a = Some t" for a t
  proof -
    obtain w where "w \<in> set (topic_hashtable k)" "wr_topic w = a" and w: "topic_rule t = map_option rule_ptr (find_domain_rule (wr_key w) (wr_ipc_ns w) (wr_domain_id w) k)"
      by (rule topic_rule_known [OF inv t])
    have "rule_ptr r \<noteq> next_rule k" if "find_domain_rule (wr_key w) (wr_ipc_ns w) (wr_domain_id w) k = Some r" for r
      using find_domain_rule_Some [OF that] fresh by (auto simp: image_iff)
    then have "topic_rule t \<noteq> Some (next_rule k)" using w by auto
    moreover have "find_key rule_ptr (rule_ptr ru) (domain_rule_htable k) = None" using fresh ru(1) by (simp add: find_key_None)
    ultimately show ?thesis
      using find_hash_add [of rule_ptr ru "domain_rule_htable k"] ru(1) by (cases "topic_rule t") (auto simp: rule_of_def)
  qed
qed

subsection \<open>Adding a direction\<close>

lemma find_map_inv: "(\<And>x. P (f x) = P x) \<Longrightarrow> find P (map f xs) = map_option f (find P xs)"
  by (induction xs) auto

lemma allow_direction_fields [simp]:
  "rule_ptr (allow_direction b ru) = rule_ptr ru" "domain_a (allow_direction b ru) = domain_a ru"
  "domain_b (allow_direction b ru) = domain_b ru" "is_prefix (allow_direction b ru) = is_prefix ru"
  "topic_name_a (allow_direction b ru) = topic_name_a ru" "topic_name_b (allow_direction b ru) = topic_name_b ru"
  "rule_matches name ns dm (allow_direction b ru) = rule_matches name ns dm ru"
  by (simp_all add: allow_direction_def rule_matches_def)

lemma set_direction_inv:
  assumes inv: "kinv k" and ru: "ru \<in> set (domain_rule_htable k)"
    and free: "\<And>w. w \<in> set (topic_hashtable k) \<Longrightarrow> \<not> rule_matches (wr_key w) (wr_ipc_ns w) (wr_domain_id w) ru"
  shows "kinv (set_rule_direction (rule_ptr ru) b k)"
proof -
  note R = kinvD(3) [OF inv]
  let ?g = "\<lambda>r. if rule_ptr r = rule_ptr ru then allow_direction b r else r"
  let ?rs = "map ?g (domain_rule_htable k)"
  have "kinv (k\<lparr>domain_rule_htable := ?rs, next_rule := next_rule k\<rparr>)" (is "kinv ?k")
  proof (rule kinv_rulesI [OF inv])
    have ptrs: "map rule_ptr ?rs = map rule_ptr (domain_rule_htable k)" by simp
    have uniq: "r = r'" if "r \<in> set (domain_rule_htable k)" "r' \<in> set (domain_rule_htable k)"
      "rule_matches name ns dm r" "rule_matches name ns dm r'" for r r' name ns dm
      using R that unfolding rules_ok_def by blast
    have "x = y" if xy: "x \<in> set ?rs" "y \<in> set ?rs" "rule_matches name ns dm x" "rule_matches name ns dm y" for x y name ns dm
    proof -
      obtain r r' where r: "r \<in> set (domain_rule_htable k)" "x = ?g r" and r': "r' \<in> set (domain_rule_htable k)" "y = ?g r'"
        using xy(1,2) by auto
      have "rule_matches name ns dm r" "rule_matches name ns dm r'"
        using xy(3,4) r(2) r'(2) by (auto split: if_splits)
      then have "r = r'" using uniq r(1) r'(1) by blast
      then show ?thesis using r(2) r'(2) by simp
    qed
    moreover have "\<forall>x\<in>set ?rs. rule_ptr x < next_rule k \<and> domain_a x < domain_b x \<and>
        (is_prefix x \<longrightarrow> topic_name_a x = topic_name_b x)"
      using R by (auto simp: rules_ok_def)
    moreover have "distinct (map rule_ptr ?rs)" using R unfolding ptrs by (simp add: rules_ok_def)
    moreover have e: "domain_rule_htable ?k = ?rs" "next_rule ?k = next_rule k" by simp_all
    ultimately show "rules_ok ?k" unfolding rules_ok_def e by blast
    show "map_option rule_ptr (find_domain_rule (wr_key w) (wr_ipc_ns w) (wr_domain_id w) ?k) =
        map_option rule_ptr (find_domain_rule (wr_key w) (wr_ipc_ns w) (wr_domain_id w) k)" for w
      by (simp add: find_domain_rule_def find_map_inv option.map_comp o_def if_distrib cong: if_cong)
    show "rule_of ?k t = rule_of k t" if t: "topics k a = Some t" for a t
    proof -
      obtain w where w: "w \<in> set (topic_hashtable k)" "wr_topic w = a"
        "topic_rule t = map_option rule_ptr (find_domain_rule (wr_key w) (wr_ipc_ns w) (wr_domain_id w) k)"
        by (rule topic_rule_known [OF inv t])
      have "rule_ptr r \<noteq> rule_ptr ru" if r: "find_domain_rule (wr_key w) (wr_ipc_ns w) (wr_domain_id w) k = Some r" for r
      proof
        assume "rule_ptr r = rule_ptr ru"
        then have "r = ru" using find_domain_rule_Some [OF r] ru R by (auto simp: rules_ok_def distinct_map dest: inj_onD)
        then show False using free [OF w(1)] find_domain_rule_Some [OF r] by simp
      qed
      then have "topic_rule t \<noteq> Some (rule_ptr ru)" using w by auto
      then show ?thesis
        by (cases "topic_rule t")
           (auto simp: rule_of_def find_upd_key [of rule_ptr "allow_direction b", unfolded upd_key_def] option.map_ident)
    qed
  qed
  then show ?thesis by (simp add: set_rule_direction_def upd_key_def)
qed

section \<open>The two registration handlers\<close>

lemma insert_domain_rule_inv:
  assumes inv: "kinv k" and d: "from_dm \<noteq> to_dm" and pre: "prefixed \<Longrightarrow> name_from = name_to"
    and disj: "\<And>r name dm. r \<in> set (domain_rule_htable k) \<Longrightarrow>
       (if prefixed then dm \<in> {from_dm, to_dm} \<and> starts_with name_from name
        else (dm = from_dm \<and> name = name_from) \<or> (dm = to_dm \<and> name = name_to)) \<Longrightarrow> \<not> rule_matches name ns dm r"
    and free: "\<And>w. w \<in> set (topic_hashtable k) \<Longrightarrow> wr_ipc_ns w = ns \<Longrightarrow>
       \<not> (if prefixed then wr_domain_id w \<in> {from_dm, to_dm} \<and> starts_with name_from (wr_key w)
        else (wr_domain_id w = from_dm \<and> wr_key w = name_from) \<or> (wr_domain_id w = to_dm \<and> wr_key w = name_to))"
  shows "kinv (snd (insert_domain_rule env name_from name_to from_dm to_dm prefixed ns al k))"
proof -
  let ?a = "from_dm < to_dm"
  let ?ru = "\<lparr>rule_ptr = next_rule k, topic_name_a = (if ?a then name_from else name_to),
     topic_name_b = (if ?a then name_to else name_from), rule_ipc_ns = ns,
     domain_a = (if ?a then from_dm else to_dm), domain_b = (if ?a then to_dm else from_dm),
     a_to_b = ?a, b_to_a = \<not> ?a, is_prefix = prefixed\<rparr>"
  have m: "rule_matches name ns' dm ?ru \<longleftrightarrow> ns' = ns \<and>
      (if prefixed then dm \<in> {from_dm, to_dm} \<and> starts_with name_from name
       else (dm = from_dm \<and> name = name_from) \<or> (dm = to_dm \<and> name = name_to))" for name ns' dm
    using pre d by (auto simp: rule_matches_def)
  have "kinv (k\<lparr>domain_rule_htable := hash_add (rule_bkt env \<circ> topic_name_a) ?ru (domain_rule_htable k),
      next_rule := next_rule k + 1\<rparr>)"
  proof (rule add_rule_inv [OF inv])
    show "rule_ptr ?ru = next_rule k" by simp
    show "domain_a ?ru < domain_b ?ru" using d by simp
    show "topic_name_a ?ru = topic_name_b ?ru" if "is_prefix ?ru" using pre that by simp
    show "\<not> rule_matches name ns' dm r" if "r \<in> set (domain_rule_htable k)" "rule_matches name ns' dm ?ru" for r name ns' dm
      using that(2) disj [OF that(1)] unfolding m by blast
    show "\<not> rule_matches (wr_key w) (wr_ipc_ns w) (wr_domain_id w) ?ru" if "w \<in> set (topic_hashtable k)" for w
      using free [OF that] unfolding m by blast
  qed
  then show ?thesis using inv by (auto simp: insert_domain_rule_def Let_def split: prod.splits)
qed

lemma exact_pair:
  assumes "rule_matches name_from ns from_dm ru" "rule_matches name_to ns to_dm ru" "from_dm \<noteq> to_dm"
    and "\<not> is_prefix ru" "domain_a ru < domain_b ru" and m: "rule_matches name ns' dm ru"
  shows "ns' = ns \<and> ((dm = from_dm \<and> name = name_from) \<or> (dm = to_dm \<and> name = name_to))"
  using assms by (auto simp: rule_matches_def)

lemma add_domain_rule_inv:
  assumes inv: "kinv k" and d: "from_dm \<noteq> to_dm"
  shows "kinv (snd (add_domain_rule env name_from name_to from_dm to_dm ns al k))"
proof -
  let ?joined = "find_topic name_from ns from_dm k \<noteq> None \<or> find_topic name_to ns to_dm k \<noteq> None"
  note R = kinvD(3) [OF inv]
  have absent: "\<not> (wr_ipc_ns w = ns \<and> ((wr_domain_id w = from_dm \<and> wr_key w = name_from) \<or>
      (wr_domain_id w = to_dm \<and> wr_key w = name_to)))" if "\<not> ?joined" "w \<in> set (topic_hashtable k)" for w
    using that by (auto simp: find_topic_None cell_def image_iff)
  show ?thesis
  proof (cases "find_domain_rule name_from ns from_dm k")
    case None
    have "kinv (snd (insert_domain_rule env name_from name_to from_dm to_dm False ns al k))"
      if "find_domain_rule name_to ns to_dm k = None" "\<not> ?joined"
    proof (rule insert_domain_rule_inv [OF inv d])
      show "\<not> rule_matches name ns dm r" if "r \<in> set (domain_rule_htable k)"
        "if False then dm \<in> {from_dm, to_dm} \<and> starts_with name_from name
         else (dm = from_dm \<and> name = name_from) \<or> (dm = to_dm \<and> name = name_to)" for r name dm
        using that None \<open>find_domain_rule name_to ns to_dm k = None\<close>
        by (auto simp: find_domain_rule_def find_None_iff)
    qed (use absent [OF that(2)] in auto)
    then show ?thesis using None inv by (auto simp: add_domain_rule_def Let_def)
  next
    case (Some ru)
    note F = find_domain_rule_Some [OF Some]
    have "kinv (set_rule_direction (rule_ptr ru) b k)"
      if to: "map_option rule_ptr (find_domain_rule name_to ns to_dm k) = Some (rule_ptr ru)" and ex: "\<not> is_prefix ru"
        and j: "\<not> ?joined" for b
    proof (rule set_direction_inv [OF inv conjunct1 [OF F]])
      fix w assume w: "w \<in> set (topic_hashtable k)"
      obtain r2 where r2: "find_domain_rule name_to ns to_dm k = Some r2" "rule_ptr r2 = rule_ptr ru" using to by auto
      have "r2 = ru"
        using find_domain_rule_Some [OF r2(1)] F r2(2) R by (auto simp: rules_ok_def distinct_map dest: inj_onD)
      then have "rule_matches name_to ns to_dm ru" using find_domain_rule_Some [OF r2(1)] by simp
      moreover have "domain_a ru < domain_b ru" using R F by (simp add: rules_ok_def)
      ultimately show "\<not> rule_matches (wr_key w) (wr_ipc_ns w) (wr_domain_id w) ru"
        using exact_pair [OF conjunct2 [OF F] _ d ex] absent [OF j w] by blast
    qed
    then show ?thesis using Some inv by (simp add: add_domain_rule_def Let_def)
  qed
qed

definition same_prefix :: "string \<Rightarrow> domain \<Rightarrow> domain \<Rightarrow> ipc_ns \<Rightarrow> domain_bridge_rule \<Rightarrow> bool" where
  "same_prefix pre da db ns ru \<longleftrightarrow> rule_ipc_ns ru = ns \<and> is_prefix ru \<and> topic_name_a ru = pre \<and>
     domain_a ru = da \<and> domain_b ru = db"

definition prefix_clash :: "string \<Rightarrow> domain \<Rightarrow> domain \<Rightarrow> ipc_ns \<Rightarrow> domain_bridge_rule \<Rightarrow> bool" where
  "prefix_clash pre da db ns ru \<longleftrightarrow>
     (\<exists>name dm. rule_matches name ns dm ru \<and> (dm = da \<or> dm = db) \<and> starts_with pre name)"

lemma starts_with_nested:
  assumes "starts_with p s" "starts_with q s" "length p \<le> length q"
  shows "starts_with p q"
proof -
  have "take (length p) q = take (length p) (take (length q) s)" using assms(2) by (simp add: starts_with_def)
  also have "\<dots> = p" using assms(1,3) by (simp add: starts_with_def min_absorb1)
  finally show ?thesis by (simp add: starts_with_def)
qed

lemma prefix_clash_nests:
  assumes "prefix_clash pre da db ns ru" and "is_prefix ru"
  shows "rule_ipc_ns ru = ns" and "domain_a ru = da \<or> domain_a ru = db \<or> domain_b ru = da \<or> domain_b ru = db"
    and "if length (topic_name_a ru) \<le> length pre then starts_with (topic_name_a ru) pre else starts_with pre (topic_name_a ru)"
proof -
  obtain name dm where m: "rule_ipc_ns ru = ns" "dm = domain_a ru \<or> dm = domain_b ru" "starts_with (topic_name_a ru) name"
      "dm = da \<or> dm = db" "starts_with pre name"
    using assms by (auto simp: prefix_clash_def rule_matches_def)
  show "rule_ipc_ns ru = ns" by (rule m(1))
  show "domain_a ru = da \<or> domain_a ru = db \<or> domain_b ru = da \<or> domain_b ru = db" using m(2,4) by auto
  show "if length (topic_name_a ru) \<le> length pre then starts_with (topic_name_a ru) pre else starts_with pre (topic_name_a ru)"
    using starts_with_nested [OF m(3,5)] starts_with_nested [OF m(5,3)] by simp
qed

lemma prefix_clash_exact:
  assumes "prefix_clash pre da db ns ru" and "\<not> is_prefix ru"
  shows "rule_ipc_ns ru = ns" and "((domain_a ru = da \<or> domain_a ru = db) \<and> starts_with pre (topic_name_a ru)) \<or>
     ((domain_b ru = da \<or> domain_b ru = db) \<and> starts_with pre (topic_name_b ru))"
  using assms by (auto simp: prefix_clash_def rule_matches_def)

text \<open>If the scan succeeds, the only rules that overlap the prefix are declarations of the same one,
  and the last of them is reported.\<close>

lemma prefix_rule_scan_ok:
  assumes "prefix_rule_scan pre da db ns same rules = Inr out"
  shows "(\<forall>ru\<in>set rules. prefix_clash pre da db ns ru \<longrightarrow> same_prefix pre da db ns ru) \<and>
    (out = same \<and> \<not> (\<exists>ru\<in>set rules. same_prefix pre da db ns ru) \<or>
     (\<exists>ru\<in>set rules. out = Some ru \<and> same_prefix pre da db ns ru))"
  using assms
proof (induction rules arbitrary: same)
  case (Cons ru rules)
  have eqlen: "topic_name_a ru = pre" if "length (topic_name_a ru) = length pre" "starts_with (topic_name_a ru) pre"
    using that by (simp add: starts_with_def)
  consider (other) "ns \<noteq> rule_ipc_ns ru" | (pre) "ns = rule_ipc_ns ru" "is_prefix ru" | (exact) "ns = rule_ipc_ns ru" "\<not> is_prefix ru"
    by blast
  then show ?case
  proof cases
    case other
    have "\<not> prefix_clash pre da db ns ru" "\<not> same_prefix pre da db ns ru"
      using other by (auto simp: prefix_clash_def rule_matches_def same_prefix_def)
    then show ?thesis using Cons.IH [of same] Cons.prems other by simp
  next
    case exact
    have "\<not> same_prefix pre da db ns ru" using exact by (simp add: same_prefix_def)
    then show ?thesis
      using Cons.IH [of same] Cons.prems exact prefix_clash_exact(2) [of pre da db ns ru]
      by (auto split: if_splits)
  next
    case pre
    show ?thesis
    proof (cases "same_prefix pre da db ns ru")
      case True
      then have "prefix_rule_scan pre da db ns same (ru # rules) = prefix_rule_scan pre da db ns (Some ru) rules"
        using pre by (auto simp: same_prefix_def starts_with_def Let_def)
      then show ?thesis using Cons.IH [of "Some ru"] Cons.prems True by auto
    next
      case False
      have "prefix_rule_scan pre da db ns same (ru # rules) = prefix_rule_scan pre da db ns same rules"
        and "\<not> prefix_clash pre da db ns ru"
        using Cons.prems pre False eqlen prefix_clash_nests [of pre da db ns ru]
        by (auto simp: Let_def same_prefix_def split: if_splits)
      then show ?thesis using Cons.IH [of same] Cons.prems False by auto
    qed
  qed
qed simp

lemma add_prefix_domain_rule_inv:
  assumes inv: "kinv k" and d: "from_dm \<noteq> to_dm"
  shows "kinv (snd (add_prefix_domain_rule env pre from_dm to_dm ns al k))"
proof -
  let ?da = "min from_dm to_dm" and ?db = "max from_dm to_dm"
  let ?scan = "prefix_rule_scan pre ?da ?db ns None (domain_rule_htable k)"
  have dm: "x \<in> {from_dm, to_dm} \<longleftrightarrow> x = ?da \<or> x = ?db" for x by (auto simp: min_def max_def)
  have new: "kinv (snd (insert_domain_rule env pre pre from_dm to_dm True ns al k))"
    if s: "?scan = Inr None" and j: "\<not> any_topic_under_prefix pre ns from_dm to_dm k"
  proof (rule insert_domain_rule_inv [OF inv d])
    show "\<not> rule_matches name ns x r" if r: "r \<in> set (domain_rule_htable k)"
      "if True then x \<in> {from_dm, to_dm} \<and> starts_with pre name else (x = from_dm \<and> name = pre) \<or> (x = to_dm \<and> name = pre)" for r name x
    proof
      assume "rule_matches name ns x r"
      then have "prefix_clash pre ?da ?db ns r" using r(2) dm unfolding prefix_clash_def by auto
      then show False using prefix_rule_scan_ok [OF s] r(1) by auto
    qed
  qed (use j in \<open>auto simp: any_topic_under_prefix_def\<close>)
  have dir: "kinv (set_rule_direction (rule_ptr ru) b k)"
    if s: "?scan = Inr (Some ru)" and j: "\<not> any_topic_under_prefix pre ns from_dm to_dm k" for ru b
  proof -
    have ru: "ru \<in> set (domain_rule_htable k)" "same_prefix pre ?da ?db ns ru" using prefix_rule_scan_ok [OF s] by auto
    show ?thesis
      by (rule set_direction_inv [OF inv ru(1)])
         (use ru(2) j dm in \<open>auto simp: rule_matches_def same_prefix_def any_topic_under_prefix_def\<close>)
  qed
  show ?thesis
    using inv new dir by (auto simp: add_prefix_domain_rule_def Let_def split: sum.splits option.splits)
qed

lemma add_domain_bridge_inv:
  assumes "kinv k"
  shows "kinv (snd (agnocast_ioctl_add_domain_bridge env name_from name_to from_dm to_dm ns al k))"
    and "kinv (snd (agnocast_ioctl_add_domain_bridge_prefix env pre from_dm to_dm ns al k))"
  using assms add_domain_rule_inv add_prefix_domain_rule_inv
  by (auto simp: agnocast_ioctl_add_domain_bridge_def agnocast_ioctl_add_domain_bridge_prefix_def)

end
