(* ===== verification/Kmod_Reach.thy ===== *)
theory Kmod_Reach
  imports Kmod_Rules
begin

text \<open>
  The kernel module as a state machine: an event is one ioctl of some process or the cleanup
  after a process exited, and a state is reachable when a sequence of events leads to it from the
  state the module is loaded in. Every reachable state satisfies the global invariant.
\<close>

section \<open>Events\<close>

datatype kop =
    AddProcess pid ipc_ns nat domain allocs
  | AddSubscriber string ipc_ns sub_params int allocs
  | AddPublisher string ipc_ns pub_params allocs
  | RemoveSubscriber pid string ipc_ns int
  | RemovePublisher pid string ipc_ns int
  | PublishMsg pid string ipc_ns int u64 allocs
  | ReceiveMsg pid string ipc_ns int nat allocs
  | TakeMsg pid string ipc_ns int bool nat allocs
  | ReleaseRef pid string ipc_ns int int
  | SetRos2SubscriberNum pid string ipc_ns nat
  | SetRos2PublisherNum pid string ipc_ns nat
  | CommitExitProcess ipc_ns pid pid
  | AddBridge string pid bool ipc_ns allocs
  | RemoveBridge string pid bool ipc_ns
  | AddDomainBridge string string domain domain ipc_ns allocs
  | AddDomainBridgePrefix string domain domain ipc_ns allocs
  | NotifyBridgeShutdown pid
  | CheckBridgeShutdown pid ipc_ns
  | AddDiscoveryAgent pid ipc_ns domain allocs
  | DiscoveryAgentShouldExit pid ipc_ns domain bool
  | ProcessExit pid

text \<open>The state after an event: the dispatch of \<open>agnocast_ioctl\<close>, and the exit worker.\<close>

fun kstep :: "kenv \<Rightarrow> kop \<Rightarrow> kstate \<Rightarrow> kstate" where
  "kstep env (AddProcess p ns rn dm al) k = snd (agnocast_ioctl_add_process env p ns rn dm al k)"
| "kstep env (AddSubscriber name ns q fd al) k = snd (agnocast_ioctl_add_subscriber env name ns q fd al k)"
| "kstep env (AddPublisher name ns q al) k = snd (agnocast_ioctl_add_publisher env name ns q al k)"
| "kstep env (RemoveSubscriber cur name ns i) k = snd (agnocast_ioctl_remove_subscriber cur name ns i k)"
| "kstep env (RemovePublisher cur name ns i) k = snd (agnocast_ioctl_remove_publisher cur name ns i k)"
| "kstep env (PublishMsg cur name ns i a al) k = snd (agnocast_ioctl_publish_msg cur name ns i a al k)"
| "kstep env (ReceiveMsg cur name ns i cap al) k = snd (agnocast_ioctl_receive_msg env cur name ns i cap al k)"
| "kstep env (TakeMsg cur name ns i same cap al) k = snd (agnocast_ioctl_take_msg env cur name ns i same cap al k)"
| "kstep env (ReleaseRef cur name ns i e) k = snd (agnocast_ioctl_release_message_entry_reference cur name ns i e k)"
| "kstep env (SetRos2SubscriberNum cur name ns n) k = snd (agnocast_ioctl_set_ros2_subscriber_num cur name ns n k)"
| "kstep env (SetRos2PublisherNum cur name ns n) k = snd (agnocast_ioctl_set_ros2_publisher_num cur name ns n k)"
| "kstep env (CommitExitProcess ns gp cur) k = snd (agnocast_commit_exit_process ns gp cur k)"
| "kstep env (AddBridge name p r2a ns al) k = snd (agnocast_ioctl_add_bridge env name p r2a ns al k)"
| "kstep env (RemoveBridge name p r2a ns) k = snd (agnocast_ioctl_remove_bridge name p r2a ns k)"
| "kstep env (AddDomainBridge nf nt f t ns al) k = snd (agnocast_ioctl_add_domain_bridge env nf nt f t ns al k)"
| "kstep env (AddDomainBridgePrefix pre f t ns al) k = snd (agnocast_ioctl_add_domain_bridge_prefix env pre f t ns al k)"
| "kstep env (NotifyBridgeShutdown p) k = agnocast_ioctl_notify_bridge_shutdown p k"
| "kstep env (CheckBridgeShutdown p ns) k = snd (agnocast_ioctl_check_and_request_bridge_shutdown p ns k)"
| "kstep env (AddDiscoveryAgent p ns dm al) k = snd (agnocast_ioctl_add_discovery_agent env p ns dm al k)"
| "kstep env (DiscoveryAgentShouldExit p ns dm commit) k = snd (agnocast_ioctl_discovery_agent_should_exit p ns dm commit k)"
| "kstep env (ProcessExit p) k = agnocast_process_exit_cleanup p k"

inductive reachable :: "kenv \<Rightarrow> kstate \<Rightarrow> bool" for env where
  load: "init_memory_allocator num start gb al = Inr (sz, ps) \<Longrightarrow> reachable env (init_kstate sz ps)"
| step: "reachable env k \<Longrightarrow> reachable env (kstep env op k)"

inductive_cases reachableE: "reachable env k"

section \<open>The invariant\<close>

lemma init_pools_ok: "pools_ok (init_pools n a s)"
  by (auto simp: pools_ok_def list_all_length nth_init_pools entry_ok_def)

lemma init_kinv:
  assumes "init_memory_allocator num start gb al = Inr (sz, ps)"
  shows "kinv (init_kstate sz ps)"
proof -
  have "pools_ok ps" using init_memory_allocator_pools(1) [OF assms] init_pools_ok by metis
  then show ?thesis
    by (simp add: kinv_def wrappers_ok_def topics_ok_def rules_ok_def links_ok_def procs_ok_def
        daemons_ok_def tables_ok_def init_kstate_def)
qed

lemmas handler_inv = add_process_inv add_subscriber_inv add_publisher_inv remove_subscriber_inv
  remove_publisher_inv publish_msg_inv receive_msg_inv take_msg_inv release_reference_inv
  set_ros2_num_inv commit_exit_process_inv add_bridge_inv remove_bridge_inv add_domain_bridge_inv
  role_change_inv discovery_agent_inv process_exit_cleanup_inv

lemma kstep_inv: "kinv k \<Longrightarrow> kinv (kstep env op k)"
  by (cases op) (simp_all add: handler_inv)

lemma reachable_kinv: "reachable env k \<Longrightarrow> kinv k"
  by (induction rule: reachable.induct) (auto intro: init_kinv kstep_inv)

lemma reachable_run: "reachable env k \<Longrightarrow> reachable env (fold (kstep env) ops k)"
  by (induction ops arbitrary: k) (auto intro: reachable.step)

text \<open>The first phase of \<open>get_exit_process_cmd\<close> only reads; its commit is an event of its own, for the pid that the
  first phase found, so other events may come between the two. As an event the commit takes any pid.\<close>

lemma get_exit_process_events:
  assumes "agnocast_ioctl_get_exit_process ns k = (lp, gp)"
  shows "snd (get_exit_process_cmd ns caller copied (fold (kstep env) ops) k) =
    fold (kstep env) (ops @ (if copied then [CommitExitProcess ns gp caller] else [])) k"
  using assms by (simp add: get_exit_process_cmd_def split: prod.split)

end
