(* ===== verification/Kmod_Held.thy ===== *)
theory Kmod_Held
  imports Kmod_Reach
begin

text \<open>
  A message that a registered subscriber holds stays in the topic, at the same address: no
  handler of the kernel module removes an entry whose bit is set, except the release of that
  very reference and the removal of the subscriber itself. This is what makes zero-copy reading
  safe: the publisher reuses the memory of an entry only after the kernel reports it released.
\<close>

section \<open>Holding an entry\<close>

definition holds :: "int \<Rightarrow> int \<Rightarrow> u64 \<Rightarrow> topic_struct \<Rightarrow> bool" where
  "holds sid eid addr t \<longleftrightarrow> (\<exists>en\<in>set (entries t).
     entry_id en = eid \<and> msg_virtual_address en = addr \<and> sid \<in> referencing_subscribers en)"

text \<open>Every entry a subscriber of \<open>t'\<close> held in \<open>t\<close> it still holds in \<open>t'\<close>.\<close>

definition keeps_held :: "topic_struct \<Rightarrow> topic_struct \<Rightarrow> bool" where
  "keeps_held t t' \<longleftrightarrow> (\<forall>sid\<in>sub_ids t'. \<forall>eid addr. holds sid eid addr t \<longrightarrow> holds sid eid addr t')"

lemma keeps_held_same: "entries t' = entries t \<Longrightarrow> keeps_held t t'"
  by (simp add: keeps_held_def holds_def)

lemma keeps_held_trans:
  "keeps_held a b \<Longrightarrow> keeps_held b c \<Longrightarrow> sub_ids c \<subseteq> sub_ids b \<Longrightarrow> keeps_held a c"
  unfolding keeps_held_def by blast

lemma keeps_held_filter:
  assumes "entries t' = filter P (map f (entries t))"
    and f: "\<And>en. entry_id (f en) = entry_id en" "\<And>en. msg_virtual_address (f en) = msg_virtual_address en"
      "\<And>en. referencing_subscribers en \<inter> sub_ids t' \<subseteq> referencing_subscribers (f en)"
    and P: "\<And>en. en \<in> set (entries t) \<Longrightarrow> referencing_subscribers (f en) \<noteq> {} \<Longrightarrow> P (f en)"
  shows "keeps_held t t'"
  unfolding keeps_held_def
proof (intro ballI allI impI)
  fix sid eid addr assume sid: "sid \<in> sub_ids t'" and h: "holds sid eid addr t"
  then obtain en where en: "en \<in> set (entries t)" "entry_id en = eid" "msg_virtual_address en = addr"
    "sid \<in> referencing_subscribers en" by (auto simp: holds_def)
  have r: "sid \<in> referencing_subscribers (f en)" using f(3) [of en] sid en(4) by blast
  then have "f en \<in> set (entries t')" using P [OF en(1)] en(1) by (auto simp: assms(1))
  then show "holds sid eid addr t'" using en f r by (auto simp: holds_def)
qed

section \<open>Operations on a topic\<close>

lemma keeps_held_release_msgs:
  assumes "tree_ok t"
  shows "keeps_held t (snd (release_msgs_to_meet_depth p t))"
proof (cases "entries_num p \<le> pub_qos_depth p")
  case True
  then show ?thesis by (simp add: release_msgs_to_meet_depth_def keeps_held_same)
next
  case False
  obtain ok rel es where l: "release_loop (pub_id p) (entries_num p - pub_qos_depth p) 0 (entries t) = (ok, rel, es)"
    by (metis prod_cases3)
  from release_loop_filters [OF entries_distinct [OF assms] l] obtain v
    where v: "es = filter (\<lambda>en. en \<notin> set v) (entries t)"
      "set v \<subseteq> {en \<in> set (entries t). en_publisher_id en = pub_id p \<and> \<not> agnocast_is_referenced en}" by blast
  show ?thesis
    by (rule keeps_held_filter [where f = id and P = "\<lambda>en. en \<notin> set v"])
       (use False l v in \<open>auto simp: release_msgs_to_meet_depth_def agnocast_is_referenced_def\<close>)
qed

lemma keeps_held_insert_message: "keeps_held t (snd (snd (insert_message_entry i a al t)))"
  by (auto simp: keeps_held_def holds_def insert_message_entry_def Let_def split: prod.splits)

lemma keeps_held_hand_out: "keeps_held t (hand_out s out t)"
proof (cases "out = []")
  case False
  show ?thesis
    by (rule keeps_held_filter [where P = "\<lambda>_. True" and f = "\<lambda>en. if en \<in> set out
          then en\<lparr>referencing_subscribers := insert (sub_id s) (referencing_subscribers en)\<rparr> else en"])
       (use False in \<open>auto simp: hand_out_def mark_def\<close>)
qed (simp add: hand_out_def keeps_held_same)

lemma keeps_held_release_reference:
  assumes "(sid, eid) \<noteq> (i, e)" and "holds sid eid addr t"
  shows "holds sid eid addr (snd (release_reference_core i e t))"
proof -
  let ?f = "\<lambda>en. en\<lparr>referencing_subscribers := referencing_subscribers en - {i}\<rparr>"
  obtain en where en: "en \<in> set (entries t)" "entry_id en = eid" "msg_virtual_address en = addr"
    "sid \<in> referencing_subscribers en" using assms(2) by (auto simp: holds_def)
  define en' where "en' = (if entry_id en = e then ?f en else en)"
  have "en' \<in> set (upd_key entry_id e ?f (entries t))" using en(1) by (simp add: upd_key_def en'_def)
  moreover have "entry_id en' = eid" "msg_virtual_address en' = addr" "sid \<in> referencing_subscribers en'"
    using en assms(1) by (auto simp: en'_def)
  ultimately have "holds sid eid addr (t\<lparr>entries := upd_key entry_id e ?f (entries t)\<rparr>)"
    unfolding holds_def by (intro bexI [of _ en']) simp_all
  then show ?thesis using assms(2) by (simp add: release_reference_core_def split: option.splits)
qed

lemma keeps_held_drop_publisher: "keeps_held t (drop_publisher i t)"
  by (rule keeps_held_filter [where f = id and P = "\<lambda>en. \<not> publisher_unreferenced i en"])
     (auto simp: publisher_unreferenced_def agnocast_is_referenced_def)

lemma keeps_held_drop_refs_of:
  assumes "inv_but (insert sid X) t" "sid \<notin> sub_ids t"
  shows "keeps_held t (drop_refs_of procs sid t)"
  using assms(2)
  by (intro keeps_held_filter [OF drop_refs_of_inv(3) [OF assms]]) (auto simp: agnocast_is_referenced_def)

lemma keeps_held_insert_subscriber:
  "insert_subscriber_info bkt r dm q nctx al t = (x, al', t') \<Longrightarrow> keeps_held t t'"
  by (erule insert_subscriber_info_cases)
     (auto simp: link_subscriber_def Let_def intro!: keeps_held_same)

lemma keeps_held_insert_publisher:
  "insert_publisher_info bkt r dm q al t = (x, al', t') \<Longrightarrow> keeps_held t t'"
  by (auto simp: insert_publisher_info_def Let_def split: if_splits prod.splits sum.splits intro!: keeps_held_same)

lemma keeps_held_fold_drop_publisher: "keeps_held t (fold drop_publisher is t)"
proof (induction "is" arbitrary: t)
  case (Cons i "is")
  have "sub_ids (fold drop_publisher is u) = sub_ids u" for u by (induction "is" arbitrary: u) auto
  then show ?case using keeps_held_trans [OF keeps_held_drop_publisher Cons.IH] by simp
qed (simp add: keeps_held_same)

lemma keeps_held_drop_leaving:
  assumes "inv_but (sub_id ` set leaving) t" and "sub_id ` set leaving \<inter> sub_ids t = {}"
    and "\<forall>s\<in>set leaving. 0 \<le> sub_id s \<and> sub_id s < MAX_TOPIC_LOCAL_ID"
  shows "keeps_held t (drop_leaving procs leaving t) \<and> sub_ids (drop_leaving procs leaving t) = sub_ids t"
  using assms
proof (induction leaving arbitrary: t)
  case Nil
  then show ?case by (simp add: drop_leaving_def keeps_held_same)
next
  case (Cons s ls)
  let ?t = "drop_refs_of procs (sub_id s) t"
  have s: "sub_id s \<notin> sub_ids t" using Cons.prems(2) by auto
  have inv: "inv_but (insert (sub_id s) (sub_id ` set ls)) t" using Cons.prems(1) by simp
  have step: "drop_leaving procs (s # ls) t = drop_leaving procs ls ?t"
    using Cons.prems(3) by (auto simp: drop_leaving_def)
  have "keeps_held ?t (drop_leaving procs ls ?t) \<and> sub_ids (drop_leaving procs ls ?t) = sub_ids ?t"
    by (rule Cons.IH [OF drop_refs_of_inv(1) [OF inv s]]) (use Cons.prems in auto)
  then show ?case
    unfolding step using keeps_held_trans [OF keeps_held_drop_refs_of [OF inv s]] by auto
qed

lemma keeps_held_pre_handlers:
  assumes inv: "topic_inv t"
  shows "keeps_held t (pre_handler_publisher_exit p t)"
    and "keeps_held t (pre_handler_subscriber_exit procs r p t)"
    and "sub_ids (pre_handler_subscriber_exit procs r p t) \<subseteq> sub_ids t"
proof -
  show "keeps_held t (pre_handler_publisher_exit p t)"
    unfolding pre_handler_publisher_exit_def by (rule keeps_held_fold_drop_publisher)
  let ?leaving = "rev (filter (\<lambda>s. sub_pid s = p) (sub_info_htable t))"
  let ?t1 = "t\<lparr>sub_info_htable := filter (\<lambda>s. sub_pid s \<noteq> p) (sub_info_htable t)\<rparr>"
  let ?t2 = "rebuild_all_notify_lists r ?t1"
  note D = keeps_held_drop_leaving [OF leaving_facts(1,2) [OF inv, of p r] leaving_facts(3) [OF inv], of procs]
  have e: "pre_handler_subscriber_exit procs r p t = (if ?leaving = [] then t else drop_leaving procs ?leaving ?t2)"
    by (simp add: pre_handler_subscriber_exit_def drop_leaving_def Let_def)
  have "keeps_held t ?t2" by (rule keeps_held_same) simp
  then have "keeps_held t (drop_leaving procs ?leaving ?t2)" using D keeps_held_trans by blast
  then show "keeps_held t (pre_handler_subscriber_exit procs r p t)" by (simp add: e keeps_held_same)
  show "sub_ids (pre_handler_subscriber_exit procs r p t) \<subseteq> sub_ids t"
    using pre_handler_subscriber_exit_inv(3) [OF inv] by (auto simp: sub_ids_def)
qed

section \<open>Handlers\<close>

definition ksafe :: "kstate \<Rightarrow> kstate \<Rightarrow> bool" where
  "ksafe k k' \<longleftrightarrow> (\<forall>a t t'. topics k a = Some t \<longrightarrow> topics k' a = Some t' \<longrightarrow> keeps_held t t')"

text \<open>The same for steps in which topics and subscribers only go; these compose.\<close>

definition kshrink :: "kstate \<Rightarrow> kstate \<Rightarrow> bool" where
  "kshrink k k' \<longleftrightarrow> (\<forall>a t'. topics k' a = Some t' \<longrightarrow>
     (\<exists>t. topics k a = Some t \<and> keeps_held t t' \<and> sub_ids t' \<subseteq> sub_ids t))"

lemma ksafe_same: "topics k' = topics k \<Longrightarrow> ksafe k k'"
  by (simp add: ksafe_def keeps_held_same)

lemma kshrink_same: "topics k' = topics k \<Longrightarrow> kshrink k k'"
  by (auto simp: kshrink_def keeps_held_same)

lemma kshrink_trans: "kshrink a b \<Longrightarrow> kshrink b c \<Longrightarrow> kshrink a c"
  unfolding kshrink_def by (meson keeps_held_trans subset_trans)

lemma kshrink_ksafe: "kshrink k k' \<Longrightarrow> ksafe k k'"
  by (fastforce simp: kshrink_def ksafe_def)

lemma ksafe_set_topic: "topics k (wr_topic w) = Some t \<Longrightarrow> keeps_held t t' \<Longrightarrow> ksafe k (set_topic w t' k)"
  by (auto simp: ksafe_def keeps_held_same)

lemma kshrink_set_topic:
  "topics k (wr_topic w) = Some t \<Longrightarrow> keeps_held t t' \<Longrightarrow> sub_ids t' \<subseteq> sub_ids t \<Longrightarrow> kshrink k (set_topic w t' k)"
  by (auto simp: kshrink_def keeps_held_same)

lemma kshrink_release_if_empty:
  assumes "topics k (wr_topic w) = Some t"
  shows "kshrink k (release_if_empty w k)"
proof -
  have "keeps_held t (t\<lparr>wrapper_refcnt := n\<rparr>) \<and> sub_ids (t\<lparr>wrapper_refcnt := n\<rparr>) \<subseteq> sub_ids t" for n
    by (simp add: keeps_held_same sub_ids_def)
  then show ?thesis
    using assms by (auto simp: kshrink_def release_if_empty_def agnocast_release_topic_wrapper_def Let_def
        topic_of_def keeps_held_same split: if_splits)
qed

lemma publish_ksafe:
  assumes inv: "kinv k"
  shows "ksafe k (snd (agnocast_ioctl_publish_msg cur name ns i addr al k))"
proof (cases "find_topic_for_current cur name ns k")
  case (Some w)
  note W = found_topic [OF inv Some]
  let ?t = "topic_of k w"
  obtain x al' t1 where ins: "insert_message_entry i addr al ?t = (x, al', t1)" by (metis prod_cases3)
  obtain y t2 where rel: "release_msgs_to_meet_depth (the (find_publisher_info i t1)) t1 = (y, t2)" by fastforce
  have k1: "keeps_held ?t t1" using keeps_held_insert_message [of ?t i addr al] ins by simp
  have k2: "keeps_held ?t t2" if p: "find_publisher_info i ?t \<noteq> None"
  proof -
    have "i \<in> pub_ids ?t" using p by (simp add: find_publisher_info_None)
    then have "inv_but {} t1"
      using insert_message_entry_inv [of "{}" ?t i addr al] W(3) ins by (simp add: topic_inv_def)
    then have "keeps_held t1 t2"
      using keeps_held_release_msgs [OF inv_butD(4), of "{}" t1 "the (find_publisher_info i t1)"] rel by simp
    moreover have "sub_ids t2 = sub_ids t1"
      using rel by (auto simp: release_msgs_to_meet_depth_def split: prod.splits if_splits)
    ultimately show ?thesis using keeps_held_trans [OF k1] by simp
  qed
  show ?thesis
    using Some ins rel ksafe_set_topic [OF W(2) k1] ksafe_set_topic [OF W(2) k2]
    by (auto simp: agnocast_ioctl_publish_msg_def Let_def ksafe_same split: option.splits sum.splits)
qed (simp add: agnocast_ioctl_publish_msg_def ksafe_same)

lemma update_mmap_topics:
  assumes "topics k (wr_topic w) = Some t"
  shows "topics (snd (update_mmap env w s cap al k)) = topics k \<or>
    topics (snd (update_mmap env w s cap al k)) =
      (topics k)(wr_topic w \<mapsto> upd_sub (sub_id s) (\<lambda>s. s\<lparr>need_mmap_update := False\<rparr>) t)"
  using assms by (auto simp: update_mmap_def Let_def topic_of_def split: prod.splits sum.splits)

lemma update_mmap_ksafe:
  assumes t: "topics k (wr_topic w) = Some t" and t': "keeps_held t t'"
  shows "ksafe k (snd (update_mmap env w s cap al (set_topic w t' k)))"
proof -
  have "keeps_held t (upd_sub (sub_id s) (\<lambda>s. s\<lparr>need_mmap_update := False\<rparr>) t')"
    by (rule keeps_held_trans [OF t' keeps_held_same]) simp_all
  then show ?thesis
    using update_mmap_topics [of "set_topic w t' k" w t' env s cap al] t t'
    by (auto simp: ksafe_def keeps_held_same split: if_splits)
qed

lemma receive_ksafe:
  assumes inv: "kinv k"
  shows "ksafe k (snd (agnocast_ioctl_receive_msg env cur name ns sid cap al k))"
proof (cases "find_topic_for_current cur name ns k")
  case (Some w)
  note W = found_topic [OF inv Some]
  let ?t = "topic_of k w"
  show ?thesis
  proof (cases "find_subscriber_info sid ?t")
    case s: (Some s)
    have sin: "s \<in> set (sub_info_htable ?t)"
      using s find_subscriber_info_Some W(3) by (auto simp: topic_inv_def inv_but_def)
    show ?thesis
      using Some s update_mmap_ksafe [OF W(2) keeps_held_hand_out]
      by (auto simp: agnocast_ioctl_receive_msg_def receive_msg_core_spec [OF W(3) sin] Let_def
          split: sum.splits prod.splits) (metis snd_conv)+
  qed (use Some in \<open>simp add: agnocast_ioctl_receive_msg_def ksafe_same\<close>)
qed (simp add: agnocast_ioctl_receive_msg_def ksafe_same)

lemma take_ksafe:
  assumes inv: "kinv k"
  shows "ksafe k (snd (agnocast_ioctl_take_msg env cur name ns sid same cap al k))"
proof (cases "find_topic_for_current cur name ns k")
  case (Some w)
  note W = found_topic [OF inv Some]
  let ?t = "topic_of k w"
  show ?thesis
  proof (cases "find_subscriber_info sid ?t")
    case s: (Some s)
    have sin: "s \<in> set (sub_info_htable ?t)"
      using s find_subscriber_info_Some W(3) by (auto simp: topic_inv_def inv_but_def)
    have id: "keeps_held ?t ?t" by (simp add: keeps_held_same)
    show ?thesis
      using Some s update_mmap_ksafe [OF W(2) keeps_held_hand_out] update_mmap_ksafe [OF W(2) id]
      by (auto simp: agnocast_ioctl_take_msg_def take_msg_core_spec [OF W(3) sin] Let_def
          split: sum.splits prod.splits list.splits) (metis snd_conv)+
  qed (use Some in \<open>simp add: agnocast_ioctl_take_msg_def ksafe_same\<close>)
qed (simp add: agnocast_ioctl_take_msg_def ksafe_same)

lemma add_topic_topics:
  assumes inv: "kinv k" and run: "add_topic env name ns dm al k = (x, al', k1)"
    and t: "topics k a = Some t" and t1: "topics k1 a = Some t1"
  shows "entries t1 = entries t"
proof (cases "find_topic name ns dm k")
  case (Some w)
  then show ?thesis using run t t1 by (simp add: add_topic_def)
next
  case None
  have "a \<noteq> next_topic k" using kinvD(2) [OF inv] t by (auto simp: topics_ok_def topic_ok_def)
  then show ?thesis using add_topic_cases [OF run None] t t1 by (auto split: if_splits)
qed

lemma add_topic_ksafe:
  assumes inv: "kinv k" and run: "add_topic env name ns dm al k = (x, al', k1)"
  shows "ksafe k k1"
    and "x = Inr w \<Longrightarrow> keeps_held (topic_of k1 w) t' \<Longrightarrow> ksafe k (set_topic w t' k1)"
proof -
  show "ksafe k k1" unfolding ksafe_def using keeps_held_same [OF add_topic_topics [OF inv run]] by blast
  assume w: "x = Inr w" and h: "keeps_held (topic_of k1 w) t'"
  note A = add_topic_inv [OF inv run]
  note T = topic_of_ok(1) [OF A(1) conjunct1 [OF A(2) [OF w]]]
  have "keeps_held t t'" if "topics k (wr_topic w) = Some t" for t
    using add_topic_topics [OF inv run that T] h by (auto simp: keeps_held_def holds_def)
  moreover have "keeps_held t u" if "topics k a = Some t" "topics k1 a = Some u" for a t u
    using add_topic_topics [OF inv run that] by (rule keeps_held_same)
  ultimately show "ksafe k (set_topic w t' k1)" unfolding ksafe_def by simp
qed

lemma add_endpoint_ksafe:
  assumes inv: "kinv k"
  shows "ksafe k (snd (agnocast_ioctl_add_subscriber env name ns q evfd al k))"
    and "ksafe k (snd (agnocast_ioctl_add_publisher env name ns p al k))"
proof -
  obtain x al1 k1 where a: "add_topic env name ns (get_process_domain_id (sp_pid q) k) al k = (x, al1, k1)"
    by (metis prod_cases3)
  show "ksafe k (snd (agnocast_ioctl_add_subscriber env name ns q evfd al k))"
    using a add_topic_ksafe [OF inv a] keeps_held_insert_subscriber
    by (auto simp: agnocast_ioctl_add_subscriber_def Let_def ksafe_same split: sum.splits prod.splits)
  obtain y al2 k2 where b: "add_topic env name ns (get_process_domain_id (pp_pid p) k) al k = (y, al2, k2)"
    by (metis prod_cases3)
  have flags: "keeps_held t (u\<lparr>sub_info_htable := map (\<lambda>s. s\<lparr>need_mmap_update := True\<rparr>) (sub_info_htable u)\<rparr>)"
    if "keeps_held t u" for t u
    by (rule keeps_held_trans [OF that keeps_held_same]) (auto simp: sub_ids_def)
  show "ksafe k (snd (agnocast_ioctl_add_publisher env name ns p al k))"
    using b add_topic_ksafe [OF inv b] keeps_held_insert_publisher flags
    by (auto simp: agnocast_ioctl_add_publisher_def Let_def ksafe_same split: sum.splits prod.splits)
qed

lemma remove_endpoint_ksafe:
  assumes inv: "kinv k"
  shows "ksafe k (snd (agnocast_ioctl_remove_publisher cur name ns i k))"
    and "ksafe k (snd (agnocast_ioctl_remove_subscriber cur name ns i k))"
proof -
  have rel: "ksafe k (release_if_empty w (set_topic w t' k))"
    if "topics k (wr_topic w) = Some t" "keeps_held t t'" "sub_ids t' \<subseteq> sub_ids t" for w t t'
    by (rule kshrink_ksafe [OF kshrink_trans [OF kshrink_set_topic [OF that] kshrink_release_if_empty]]) simp
  show "ksafe k (snd (agnocast_ioctl_remove_publisher cur name ns i k))"
  proof (cases "find_topic_for_current cur name ns k")
    case (Some w)
    note W = found_topic [OF inv Some]
    show ?thesis
      using Some rel [OF W(2) keeps_held_drop_publisher]
      by (auto simp: agnocast_ioctl_remove_publisher_def Let_def ksafe_same split: option.splits)
  qed (simp add: agnocast_ioctl_remove_publisher_def ksafe_same)
  show "ksafe k (snd (agnocast_ioctl_remove_subscriber cur name ns i k))"
  proof (cases "find_topic_for_current cur name ns k")
    case (Some w)
    note W = found_topic [OF inv Some]
    let ?t = "topic_of k w"
    show ?thesis
    proof (cases "find_subscriber_info i ?t")
      case s: (Some s)
      have sin: "s \<in> set (sub_info_htable ?t)" "sub_id s = i"
        using s find_subscriber_info_Some W(3) by (auto simp: topic_inv_def inv_but_def)
      let ?t1 = "agnocast_unlink_subscriber_info (rule_of k ?t) s ?t"
      note U = unlink_inv [OF W(3) sin(1), of "rule_of k ?t", unfolded sin(2)]
      have sub: "sub_ids ?t1 \<subseteq> sub_ids ?t"
        by (auto simp: agnocast_unlink_subscriber_info_def Let_def sub_ids_def tbl_simps)
      have k1: "keeps_held ?t ?t1"
        by (rule keeps_held_same) (simp add: agnocast_unlink_subscriber_info_def Let_def)
      have k2: "keeps_held ?t (drop_refs_of (proc_info_htable k) i ?t1)"
        by (rule keeps_held_trans [OF k1 keeps_held_drop_refs_of [OF U]]) simp
      have bnd: "0 \<le> i" "i < MAX_TOPIC_LOCAL_ID"
        using W(3) sin by (auto simp: topic_inv_def inv_but_def ids_ok_def sub_ids_def)
      show ?thesis
        using Some s bnd rel [OF W(2) k2] sub by (simp add: agnocast_ioctl_remove_subscriber_def Let_def)
    qed (use Some in \<open>simp add: agnocast_ioctl_remove_subscriber_def ksafe_same\<close>)
  qed (simp add: agnocast_ioctl_remove_subscriber_def ksafe_same)
qed

lemma exit_wrapper_kshrink:
  assumes inv: "kinv k" and w: "w \<in> set (topic_hashtable k)"
  shows "kshrink k (exit_wrapper p w k)"
proof -
  let ?t = "topic_of k w"
  let ?t1 = "pre_handler_publisher_exit p ?t"
  let ?t2 = "pre_handler_subscriber_exit (proc_info_htable k) (rule_of k ?t) p ?t1"
  note T = topic_of_ok [OF inv w]
  have ti: "topic_inv ?t" using T(2) by (simp add: topic_ok_def)
  note P = pre_handler_publisher_exit_inv [OF ti, where p = p]
  note H = keeps_held_pre_handlers(2,3) [OF P(1), where p = p and procs = "proc_info_htable k" and r = "rule_of k ?t"]
  have k1: "keeps_held ?t ?t1" by (rule keeps_held_pre_handlers(1) [OF ti])
  have k2: "keeps_held ?t ?t2" by (rule keeps_held_trans [OF k1 H])
  have "sub_ids ?t2 \<subseteq> sub_ids ?t" using H(2) P(3) by (simp add: sub_ids_def)
  from kshrink_trans [OF kshrink_set_topic [OF T(1) k2 this] kshrink_release_if_empty]
  show ?thesis by (simp add: exit_wrapper_def Let_def)
qed

lemma exit_wrappers_kshrink:
  "kinv k \<Longrightarrow> distinct ws \<Longrightarrow> set ws \<subseteq> set (topic_hashtable k) \<Longrightarrow> kshrink k (fold (exit_wrapper p) ws k)"
proof (induction ws arbitrary: k)
  case (Cons w ws)
  have w: "w \<in> set (topic_hashtable k)" using Cons.prems by simp
  note E = exit_wrapper_inv [OF Cons.prems(1) w, of p]
  have "set ws \<subseteq> set (topic_hashtable (exit_wrapper p w k))" using E(2) Cons.prems by auto
  then show ?case
    using kshrink_trans [OF exit_wrapper_kshrink [OF Cons.prems(1) w] Cons.IH [OF E(1)]] Cons.prems(2) by simp
qed (simp add: kshrink_same)

lemma process_exit_ksafe:
  assumes inv: "kinv k"
  shows "ksafe k (agnocast_process_exit_cleanup p k)"
proof (cases "agnocast_find_process_info p (proc_info_htable k)")
  case (Some pr)
  from exit_start [OF inv Some] obtain k2 where k2: "kinv k2" "topics k2 = topics k" "topic_hashtable k2 = topic_hashtable k"
    and e: "topics (agnocast_process_exit_cleanup p k) = topics (fold (exit_wrapper p) (topic_hashtable k) k2)" by metis
  have "distinct (topic_hashtable k2)" using kinvD(1) [OF k2(1)] by (simp add: wrappers_ok_def distinct_map)
  then have "kshrink k2 (fold (exit_wrapper p) (topic_hashtable k) k2)"
    using exit_wrappers_kshrink [OF k2(1)] k2(3) by simp
  then have "kshrink k (agnocast_process_exit_cleanup p k)" unfolding kshrink_def e k2(2) .
  then show ?thesis by (rule kshrink_ksafe)
qed (simp add: agnocast_process_exit_cleanup_def Let_def ksafe_same)

lemma set_ros2_ksafe:
  "ksafe k (snd (agnocast_ioctl_set_ros2_subscriber_num cur name ns n k))"
  "ksafe k (snd (agnocast_ioctl_set_ros2_publisher_num cur name ns n k))"
  by (auto simp: agnocast_ioctl_set_ros2_subscriber_num_def agnocast_ioctl_set_ros2_publisher_num_def
      ksafe_def topic_of_def keeps_held_same split: option.splits if_splits)

text \<open>The handlers that do not touch any topic.\<close>

lemma topics_untouched:
  "topics (snd (agnocast_ioctl_add_process env p ns rn dm al k)) = topics k"
  "topics (snd (agnocast_commit_exit_process ns gp cur k)) = topics k"
  "topics (snd (agnocast_ioctl_add_bridge env name p r2a ns al k)) = topics k"
  "topics (snd (agnocast_ioctl_remove_bridge name p r2a ns k)) = topics k"
  "topics (snd (agnocast_ioctl_add_domain_bridge env nf nt f t ns al k)) = topics k"
  "topics (snd (agnocast_ioctl_add_domain_bridge_prefix env pre f t ns al k)) = topics k"
  "topics (agnocast_ioctl_notify_bridge_shutdown p k) = topics k"
  "topics (snd (agnocast_ioctl_check_and_request_bridge_shutdown p ns k)) = topics k"
  "topics (snd (agnocast_ioctl_add_discovery_agent env p ns dm al k)) = topics k"
  "topics (snd (agnocast_ioctl_discovery_agent_should_exit p ns dm commit k)) = topics k"
proof -
  have ins: "topics (snd (insert_domain_rule env nf nt f t b ns al k)) = topics k" for nf nt b
    by (auto simp: insert_domain_rule_def Let_def split: prod.splits)
  have dir: "topics (set_rule_direction a b k) = topics k" for a b by (simp add: set_rule_direction_def)
  show "topics (snd (agnocast_ioctl_add_domain_bridge env nf nt f t ns al k)) = topics k"
    by (simp add: agnocast_ioctl_add_domain_bridge_def add_domain_rule_def ins dir Let_def split: option.splits)
  show "topics (snd (agnocast_ioctl_add_domain_bridge_prefix env pre f t ns al k)) = topics k"
    by (simp add: agnocast_ioctl_add_domain_bridge_prefix_def add_prefix_domain_rule_def ins dir Let_def
        split: option.splits sum.splits)
qed (auto simp: agnocast_ioctl_add_process_def agnocast_commit_exit_process_def
    agnocast_ioctl_add_bridge_def agnocast_ioctl_remove_bridge_def agnocast_ioctl_notify_bridge_shutdown_def
    agnocast_ioctl_check_and_request_bridge_shutdown_def agnocast_ioctl_add_discovery_agent_def
    agnocast_ioctl_discovery_agent_should_exit_def Let_def split: option.splits prod.splits)

lemma kstep_ksafe:
  assumes inv: "kinv k" and op: "\<And>cur name ns i e. op \<noteq> ReleaseRef cur name ns i e"
  shows "ksafe k (kstep env op k)"
proof (cases op)
  case (ReleaseRef cur name ns i e)
  then show ?thesis using op by blast
qed (simp_all add: ksafe_same topics_untouched add_endpoint_ksafe [OF inv] remove_endpoint_ksafe [OF inv]
       publish_ksafe [OF inv] receive_ksafe [OF inv] take_ksafe [OF inv] set_ros2_ksafe process_exit_ksafe [OF inv])

lemma kstep_keeps_held:
  assumes inv: "kinv k" and t: "topics k a = Some t" and h: "holds sid eid addr t"
    and t': "topics (kstep env op k) a = Some t'" and reg: "sid \<in> sub_ids t'"
    and op: "\<And>cur name ns. op \<noteq> ReleaseRef cur name ns sid eid"
  shows "holds sid eid addr t'"
proof (cases "\<exists>cur name ns i e. op = ReleaseRef cur name ns i e")
  case False
  then have "keeps_held t t'" using kstep_ksafe [OF inv, of op env] t t' by (auto simp: ksafe_def)
  then show ?thesis using h reg by (auto simp: keeps_held_def)
next
  case True
  then obtain cur name ns i e where o: "op = ReleaseRef cur name ns i e" by blast
  then have ne: "(sid, eid) \<noteq> (i, e)" using op by blast
  show ?thesis
  proof (cases "find_topic_for_current cur name ns k")
    case None
    then show ?thesis using t t' h o by (simp add: agnocast_ioctl_release_message_entry_reference_def)
  next
    case (Some w)
    then have "t' = (if a = wr_topic w then snd (release_reference_core i e (topic_of k w)) else t)"
      using t t' o by (auto simp: agnocast_ioctl_release_message_entry_reference_def split: prod.splits if_splits)
    then show ?thesis
      using keeps_held_release_reference [OF ne, of addr "topic_of k w"] h t
      by (auto simp: topic_of_def split: if_splits)
  qed
qed

section \<open>Who stays registered\<close>

definition sub_keys :: "topic_struct \<Rightarrow> (int \<times> pid) set" where
  "sub_keys t = (\<lambda>s. (sub_id s, sub_pid s)) ` set (sub_info_htable t)"

text \<open>The subscribers that satisfy \<open>P\<close> stay registered, and so their topic is not freed.\<close>

definition stays :: "(int \<Rightarrow> pid \<Rightarrow> bool) \<Rightarrow> kstate \<Rightarrow> kstate \<Rightarrow> bool" where
  "stays P k k' \<longleftrightarrow> (\<forall>a t i p. topics k a = Some t \<longrightarrow> (i, p) \<in> sub_keys t \<longrightarrow> P i p \<longrightarrow>
     (\<exists>t'. topics k' a = Some t' \<and> (i, p) \<in> sub_keys t'))"

lemma stays_same: "topics k' = topics k \<Longrightarrow> stays P k k'"
  by (simp add: stays_def)

lemma stays_trans: "stays P a b \<Longrightarrow> stays P b c \<Longrightarrow> stays P a c"
  unfolding stays_def by meson

lemma stays_set_topic:
  "topics k (wr_topic w) = Some t \<Longrightarrow> (\<And>i p. (i, p) \<in> sub_keys t \<Longrightarrow> P i p \<Longrightarrow> (i, p) \<in> sub_keys t') \<Longrightarrow>
     stays P k (set_topic w t' k)"
  by (auto simp: stays_def)

lemma stays_release:
  assumes inv: "kinv k" and w: "w \<in> set (topic_hashtable k)"
  shows "stays P k (release_if_empty w k)"
proof (cases "agnocast_wrapper_has_domain_endpoints w (topic_of k w)")
  case True
  then show ?thesis by (simp add: release_if_empty_def stays_same)
next
  case False
  note T = topic_of_ok [OF inv w]
  let ?t = "topic_of k w" and ?a = "wr_topic w"
  have none: "wr_domain_id w \<notin> domains ?t"
    using False by (auto simp: agnocast_wrapper_has_domain_endpoints_def domains_def)
  have "sub_keys ?t = {}" if "wrapper_refcnt ?t - 1 = 0"
  proof -
    have "refs_to ?a (topic_hashtable k) = 1" using that T(2) by (simp add: topic_ok_def)
    then obtain v where v: "filter (\<lambda>w. wr_topic w = ?a) (topic_hashtable k) = [v]"
      by (auto simp: refs_to_def length_Suc_conv)
    have set_v: "{w' \<in> set (topic_hashtable k). wr_topic w' = ?a} = {v}" using arg_cong [OF v, of set] by simp
    moreover have "w \<in> {w' \<in> set (topic_hashtable k). wr_topic w' = ?a}" using w by simp
    ultimately have "{w' \<in> set (topic_hashtable k). wr_topic w' = ?a} = {w}" by (metis singletonD)
    then have "domains ?t \<subseteq> {wr_domain_id w}" using T(2) by (simp add: topic_ok_def)
    then have "domains ?t = {}" using none by blast
    then show ?thesis by (auto simp: domains_def sub_keys_def)
  qed
  moreover have "sub_keys (?t\<lparr>wrapper_refcnt := n\<rparr>) = sub_keys ?t" for n by (simp add: sub_keys_def)
  ultimately show ?thesis
    using False T(1) by (auto simp: stays_def release_if_empty_def agnocast_release_topic_wrapper_def Let_def)
qed

lemma sub_keys_upd:
  "(\<And>s. sub_id (f s) = sub_id s \<and> sub_pid (f s) = sub_pid s) \<Longrightarrow> sub_keys (upd_sub i f t) = sub_keys t"
  unfolding sub_keys_def by (simp add: tbl_simps)

lemma sub_keys_same: "sub_info_htable t' = sub_info_htable t \<Longrightarrow> sub_keys t' = sub_keys t"
  by (simp add: sub_keys_def)

lemma sub_keys_hand_out: "sub_keys (hand_out s out t) = sub_keys t"
  by (simp add: hand_out_def sub_keys_upd) (simp add: sub_keys_def)

lemma sub_keys_publish:
  "insert_message_entry i a al t = (x, al', t1) \<Longrightarrow> sub_keys t1 = sub_keys t"
  "release_msgs_to_meet_depth p t = (y, t2) \<Longrightarrow> sub_keys t2 = sub_keys t"
  by (auto simp: insert_message_entry_def release_msgs_to_meet_depth_def Let_def
      split: prod.splits if_splits intro!: sub_keys_same)

lemma sub_keys_insert_subscriber:
  "insert_subscriber_info bkt r dm q nctx al t = (x, al', t') \<Longrightarrow> sub_keys t \<subseteq> sub_keys t'"
  by (erule insert_subscriber_info_cases)
     (auto simp: link_subscriber_def Let_def sub_keys_def tbl_simps)

lemma sub_keys_insert_publisher:
  "insert_publisher_info bkt r dm q al t = (x, al', t') \<Longrightarrow> sub_keys t' = sub_keys t"
  by (auto simp: insert_publisher_info_def Let_def split: if_splits prod.splits sum.splits intro!: sub_keys_same)

lemma publish_stays: "kinv k \<Longrightarrow> stays P k (snd (agnocast_ioctl_publish_msg cur name ns i addr al k))"
proof (cases "find_topic_for_current cur name ns k")
  case (Some w)
  assume inv: "kinv k"
  note W = found_topic [OF inv Some]
  show ?thesis
    using Some W(2) sub_keys_publish
    by (auto simp: agnocast_ioctl_publish_msg_def Let_def stays_same split: option.splits sum.splits prod.splits
        intro!: stays_set_topic [OF W(2)])
qed (simp add: agnocast_ioctl_publish_msg_def stays_same)

lemma update_mmap_stays:
  assumes "topics k (wr_topic w) = Some t" and "sub_keys t' = sub_keys t"
  shows "stays P k (snd (update_mmap env w s cap al (set_topic w t' k)))"
proof -
  have "sub_keys (upd_sub (sub_id s) (\<lambda>s. s\<lparr>need_mmap_update := False\<rparr>) t') = sub_keys t'"
    by (rule sub_keys_upd) simp
  then show ?thesis
    using update_mmap_topics [of "set_topic w t' k" w t' env s cap al] assms by (auto simp: stays_def)
qed

lemma receive_take_stays:
  assumes inv: "kinv k"
  shows "stays P k (snd (agnocast_ioctl_receive_msg env cur name ns sid cap al k))"
    and "stays P k (snd (agnocast_ioctl_take_msg env cur name ns sid same cap al k))"
proof -
  have "stays P k (snd (agnocast_ioctl_receive_msg env cur name ns sid cap al k)) \<and>
      stays P k (snd (agnocast_ioctl_take_msg env cur name ns sid same cap al k))"
  proof (cases "find_topic_for_current cur name ns k")
    case (Some w)
    note W = found_topic [OF inv Some]
    let ?t = "topic_of k w"
    show ?thesis
    proof (cases "find_subscriber_info sid ?t")
      case s: (Some s)
      have sin: "s \<in> set (sub_info_htable ?t)"
        using s find_subscriber_info_Some W(3) by (auto simp: topic_inv_def inv_but_def)
      note U = update_mmap_stays [OF W(2) sub_keys_hand_out, of P env] update_mmap_stays [OF W(2) refl, of P env]
      have "stays P k (snd (agnocast_ioctl_receive_msg env cur name ns sid cap al k))"
        using Some s U(1)
        by (auto simp: agnocast_ioctl_receive_msg_def receive_msg_core_spec [OF W(3) sin] Let_def
            split: sum.splits prod.splits) (metis snd_conv)+
      moreover have "stays P k (snd (agnocast_ioctl_take_msg env cur name ns sid same cap al k))"
        using Some s U
        by (auto simp: agnocast_ioctl_take_msg_def take_msg_core_spec [OF W(3) sin] Let_def
            split: sum.splits prod.splits list.splits) (metis snd_conv)+
      ultimately show ?thesis by simp
    qed (use Some in \<open>simp add: agnocast_ioctl_receive_msg_def agnocast_ioctl_take_msg_def stays_same\<close>)
  qed (simp add: agnocast_ioctl_receive_msg_def agnocast_ioctl_take_msg_def stays_same)
  then show "stays P k (snd (agnocast_ioctl_receive_msg env cur name ns sid cap al k))"
    "stays P k (snd (agnocast_ioctl_take_msg env cur name ns sid same cap al k))" by auto
qed

lemma add_topic_stays:
  assumes inv: "kinv k" and run: "add_topic env name ns dm al k = (x, al', k1)"
  shows "stays P k k1"
proof (cases "find_topic name ns dm k")
  case (Some w)
  then show ?thesis using run by (simp add: add_topic_def stays_same)
next
  case None
  have "topics k (next_topic k) = None"
    using kinvD(2) [OF inv] unfolding topics_ok_def topic_ok_def by (metis less_irrefl not_None_eq)
  then show ?thesis
    using add_topic_cases [OF run None] by (auto simp: stays_def sub_keys_def)
qed

lemma add_endpoint_stays:
  assumes inv: "kinv k"
  shows "stays P k (snd (agnocast_ioctl_add_subscriber env name ns q evfd al k))"
    and "stays P k (snd (agnocast_ioctl_add_publisher env name ns p al k))"
proof -
  have add: "stays P k (set_topic w t' k1)"
    if run: "add_topic env name ns dm al k = (Inr w, al1, k1)" and "sub_keys (topic_of k1 w) \<subseteq> sub_keys t'" for dm w al1 k1 t'
  proof -
    note A = add_topic_inv [OF inv run]
    note T = topic_of_ok(1) [OF A(1) conjunct1 [OF A(2) [OF refl]]]
    show ?thesis using that(2) by (intro stays_trans [OF add_topic_stays [OF inv run] stays_set_topic [OF T]]) auto
  qed
  show "stays P k (snd (agnocast_ioctl_add_subscriber env name ns q evfd al k))"
    using add add_topic_stays [OF inv] sub_keys_insert_subscriber
    by (auto simp: agnocast_ioctl_add_subscriber_def Let_def stays_same split: sum.splits prod.splits)
  have flags: "sub_keys (u\<lparr>sub_info_htable := map (\<lambda>s. s\<lparr>need_mmap_update := True\<rparr>) (sub_info_htable u)\<rparr>) = sub_keys u" for u
    by (simp add: sub_keys_def image_image)
  show "stays P k (snd (agnocast_ioctl_add_publisher env name ns p al k))"
    using add add_topic_stays [OF inv] sub_keys_insert_publisher
    by (auto simp: agnocast_ioctl_add_publisher_def Let_def stays_same flags split: sum.splits prod.splits)
qed

lemma remove_endpoint_stays:
  assumes inv: "kinv k"
  shows "stays P k (snd (agnocast_ioctl_remove_publisher cur name ns i k))"
    and "stays (\<lambda>j _. j \<noteq> i) k (snd (agnocast_ioctl_remove_subscriber cur name ns i k))"
proof -
  have rel: "stays Q k (release_if_empty w (set_topic w t' k))"
    if "stays Q k (set_topic w t' k)" "kinv (set_topic w t' k)" "w \<in> set (topic_hashtable k)" for Q w t'
    by (rule stays_trans [OF that(1) stays_release [OF that(2)]]) (simp add: that(3))
  show "stays P k (snd (agnocast_ioctl_remove_publisher cur name ns i k))"
  proof (cases "find_topic_for_current cur name ns k")
    case (Some w)
    note W = found_topic [OF inv Some]
    let ?t = "topic_of k w"
    note D = drop_publisher_inv [OF W(3) [unfolded topic_inv_def], of i]
    have "kinv (set_topic w (drop_publisher i ?t) k)"
      by (rule set_topic_inv [OF inv W(1,2)])
         (use D W(4) in \<open>auto simp: topic_inv_def intro: frame_pubs_like pubs_like_notify\<close>)
    moreover have "stays P k (set_topic w (drop_publisher i ?t) k)"
      by (rule stays_set_topic [OF W(2)]) (simp add: sub_keys_def)
    ultimately show ?thesis
      using Some rel W(1) by (auto simp: agnocast_ioctl_remove_publisher_def Let_def stays_same split: option.splits)
  qed (simp add: agnocast_ioctl_remove_publisher_def stays_same)
  show "stays (\<lambda>j _. j \<noteq> i) k (snd (agnocast_ioctl_remove_subscriber cur name ns i k))"
  proof (cases "find_topic_for_current cur name ns k")
    case (Some w)
    note W = found_topic [OF inv Some]
    let ?t = "topic_of k w"
    show ?thesis
    proof (cases "find_subscriber_info i ?t")
      case s: (Some s)
      note R = remove_subscriber_start [OF inv Some s]
      show ?thesis unfolding R(1)
        by (rule rel [OF stays_set_topic [OF W(2)] R(2) W(1)])
           (use R(3) in \<open>auto simp: sub_keys_def agnocast_unlink_subscriber_info_def Let_def set_del_key\<close>)
    qed (use Some in \<open>simp add: agnocast_ioctl_remove_subscriber_def stays_same\<close>)
  qed (simp add: agnocast_ioctl_remove_subscriber_def stays_same)
qed

lemma exit_wrappers_stays:
  "kinv k \<Longrightarrow> distinct ws \<Longrightarrow> set ws \<subseteq> set (topic_hashtable k) \<Longrightarrow>
     stays (\<lambda>_ q. q \<noteq> p) k (fold (exit_wrapper p) ws k)"
proof (induction ws arbitrary: k)
  case (Cons w ws)
  have w: "w \<in> set (topic_hashtable k)" using Cons.prems by simp
  note E = exit_wrapper_inv [OF Cons.prems(1) w, of p] and T = topic_of_ok [OF Cons.prems(1) w]
  note X = exit_wrapper_start [OF Cons.prems(1) w, of p]
  let ?t2 = "pre_handler_subscriber_exit (proc_info_htable k) (rule_of k (topic_of k w)) p
     (pre_handler_publisher_exit p (topic_of k w))"
  have "stays (\<lambda>_ q. q \<noteq> p) k (set_topic w ?t2 k)"
    by (rule stays_set_topic [OF T(1)]) (auto simp: sub_keys_def X(2))
  then have "stays (\<lambda>_ q. q \<noteq> p) k (exit_wrapper p w k)"
    using stays_trans [OF _ stays_release [OF X(1)]] w by (simp add: exit_wrapper_def Let_def)
  moreover have "set ws \<subseteq> set (topic_hashtable (exit_wrapper p w k))" using E(2) Cons.prems by auto
  ultimately show ?case using stays_trans Cons.IH [OF E(1)] Cons.prems(2) by auto
qed (simp add: stays_same)

lemma process_exit_stays:
  assumes inv: "kinv k"
  shows "stays (\<lambda>_ q. q \<noteq> p) k (agnocast_process_exit_cleanup p k)"
proof (cases "agnocast_find_process_info p (proc_info_htable k)")
  case (Some pr)
  from exit_start [OF inv Some] obtain k2 where k2: "kinv k2" "topics k2 = topics k" "topic_hashtable k2 = topic_hashtable k"
    and e: "topics (agnocast_process_exit_cleanup p k) = topics (fold (exit_wrapper p) (topic_hashtable k) k2)" by metis
  have "distinct (topic_hashtable k2)" using kinvD(1) [OF k2(1)] by (simp add: wrappers_ok_def distinct_map)
  then have "stays (\<lambda>_ q. q \<noteq> p) k2 (fold (exit_wrapper p) (topic_hashtable k) k2)"
    using exit_wrappers_stays [OF k2(1)] k2(3) by simp
  then show ?thesis unfolding stays_def e k2(2) .
qed (simp add: agnocast_process_exit_cleanup_def Let_def stays_same)

lemma set_ros2_stays:
  "stays P k (snd (agnocast_ioctl_set_ros2_subscriber_num cur name ns n k))"
  "stays P k (snd (agnocast_ioctl_set_ros2_publisher_num cur name ns n k))"
  "stays P k (snd (agnocast_ioctl_release_message_entry_reference cur name ns i e k))"
  by (auto simp: agnocast_ioctl_set_ros2_subscriber_num_def agnocast_ioctl_set_ros2_publisher_num_def
      agnocast_ioctl_release_message_entry_reference_def release_reference_core_def
      stays_def topic_of_def sub_keys_def split: option.splits if_splits)

text \<open>Only its own removal and the exit of its process deregister a subscriber.\<close>

lemma kstep_stays:
  assumes inv: "kinv k" and t: "topics k a = Some t" and s: "(i, p) \<in> sub_keys t"
    and op: "\<And>cur name ns. op \<noteq> RemoveSubscriber cur name ns i" "op \<noteq> ProcessExit p"
  obtains t' where "topics (kstep env op k) a = Some t'" "(i, p) \<in> sub_keys t'"
proof -
  define P where "P j q \<longleftrightarrow> (\<forall>cur name ns. op \<noteq> RemoveSubscriber cur name ns j) \<and> op \<noteq> ProcessExit q" for j q
  have mono: "stays P k k'" if "stays Q k k'" "\<And>j q. P j q \<Longrightarrow> Q j q" for Q k'
    using that unfolding stays_def by blast
  have "stays P k (kstep env op k)"
  proof (cases op)
    case (RemoveSubscriber cur name ns j)
    show ?thesis unfolding RemoveSubscriber kstep.simps
      by (rule mono [OF remove_endpoint_stays(2) [OF inv]]) (simp add: P_def RemoveSubscriber)
  next
    case (ProcessExit q)
    show ?thesis unfolding ProcessExit kstep.simps
      by (rule mono [OF process_exit_stays [OF inv]]) (simp add: P_def ProcessExit)
  qed (simp_all add: stays_same topics_untouched add_endpoint_stays [OF inv] remove_endpoint_stays(1) [OF inv]
       publish_stays [OF inv] receive_take_stays [OF inv] set_ros2_stays)
  moreover have "P i p" using op by (simp add: P_def)
  ultimately show thesis using that t s unfolding stays_def by blast
qed

end
