(* ===== verification/Kmod_Scenario.thy ===== *)
theory Kmod_Scenario
  imports Kmod_Held
begin

text \<open>
  A concrete run of the kernel module that the properties are instantiated with: two processes
  register, one of them advertises a topic and publishes a message, the other one subscribes;
  in the second state the subscriber has received it.
\<close>

definition demo_env :: kenv where
  "demo_env = \<lparr>topic_bkt = length, id_bkt = nat, pid_bkt = nat, rule_bkt = length, bridge_bkt = length,
     agent_bkt = nat, convert_pid_to_local = (\<lambda>p. p), agnocast_eventfd_get = (\<lambda>fd. Inr (nat fd))\<rparr>"

definition demo_sub :: sub_params where
  "demo_sub = \<lparr>sp_node_name = ''s'', sp_pid = 20, sp_qos_depth = 2, sp_transient_local = True, sp_reliable = True,
     sp_take = False, sp_ignore_local = False, sp_bridge = False\<rparr>"

definition demo_pub :: "nat \<Rightarrow> pub_params" where
  "demo_pub d = \<lparr>pp_node_name = ''p'', pp_pid = 10, pp_qos_depth = d, pp_transient_local = True, pp_bridge = False\<rparr>"

definition demo_load :: kstate where
  "demo_load = init_kstate 0x40000000 (init_pools 2 0x40000000000 0x40000000)"

text \<open>The publisher's history depth is a parameter: with depth \<open>0\<close> publishing fails.\<close>

definition demo_ops :: "nat \<Rightarrow> kop list" where
  "demo_ops d = [AddProcess 10 0 0 0 [], AddProcess 20 0 0 0 [], AddPublisher ''/t'' 0 (demo_pub d) [],
     AddSubscriber ''/t'' 0 demo_sub 7 []]"

definition demo_ready :: "nat \<Rightarrow> kstate" where
  "demo_ready d = fold (kstep demo_env) (demo_ops d) demo_load"

definition demo_sent :: kstate where
  "demo_sent = kstep demo_env (PublishMsg 10 ''/t'' 0 0 0x40000000000 []) (demo_ready 1)"

definition demo_recv :: kstate where
  "demo_recv = kstep demo_env (ReceiveMsg 20 ''/t'' 0 1 4 []) demo_sent"

lemma demo_load_reachable: "reachable demo_env demo_load"
proof -
  have "init_memory_allocator 2 0x40000000000 1 [] = Inr (0x40000000, init_pools 2 0x40000000000 0x40000000)"
    by (simp add: init_memory_allocator_def check_mul_def check_add_def)
  then show ?thesis unfolding demo_load_def by (rule reachable.load)
qed

lemma demo_ready_reachable: "reachable demo_env (demo_ready d)"
  unfolding demo_ready_def by (rule reachable_run [OF demo_load_reachable])

lemma demo_sent_reachable: "reachable demo_env demo_sent"
  unfolding demo_sent_def by (rule reachable.step [OF demo_ready_reachable])

lemma demo_recv_reachable: "reachable demo_env demo_recv"
  unfolding demo_recv_def by (rule reachable.step [OF demo_sent_reachable])

section \<open>The states, evaluated\<close>

lemmas demo_defs = demo_env_def demo_sub_def demo_pub_def demo_load_def demo_ops_def

lemmas keval = agnocast_ioctl_add_process_def decode_role_def init_kstate_def AGNOCAST_DOMAIN_ID_NONE_def
  agnocast_find_process_info_def find_key_def assign_memory_def Let_def has_alive_unlink_daemon_def
  has_alive_bridge_manager_def agnocast_find_discovery_agent_def hash_add_def agnocast_ioctl_add_publisher_def
  add_topic_def find_topic_def find_grouped_topic_struct_def find_domain_rule_def get_process_domain_id_def
  new_topic_struct_def topic_of_def set_topic_def rule_of_def insert_publisher_info_def new_publisher_def
  kmod_consts reserve_notify_ctxs_def notifiable_subscriber_num_def rebuild_notify_list_def notify_targets_def
  notify_target_def domain_delivery_allowed_def agnocast_ioctl_add_subscriber_def insert_subscriber_info_def
  link_subscriber_def new_subscriber_def rebuild_all_notify_lists_def agnocast_ioctl_publish_msg_def
  find_topic_for_current_def find_publisher_info_def insert_message_entry_def upd_pub_def upd_sub_def
  upd_key_def release_msgs_to_meet_depth_def find_subscriber_info_def agnocast_ioctl_receive_msg_def
  receive_msg_core_def is_entry_deliverable_def add_subscriber_reference_def update_mmap_def
  reference_memory_def

definition demo_topic :: "nat \<Rightarrow> topic_struct" where
  "demo_topic d =
     \<lparr>entries = [],
      pub_info_htable = [\<lparr>pub_id = 0, pub_domain_id = 0, pub_pid = 10, pub_node_name = ''p'', pub_qos_depth = d,
        pub_qos_is_transient_local = True, entries_num = 0, pub_is_bridge = False, notify_ctxs = [7],
        notify_capacity = 8\<rparr>],
      sub_info_htable = [\<lparr>sub_id = 1, sub_domain_id = 0, sub_pid = 20, sub_qos_depth = 2,
        sub_qos_is_transient_local = True, sub_qos_is_reliable = True, latest_received_entry_id = -1,
        sub_node_name = ''s'', is_take_sub = False, ignore_local_publications = False, need_mmap_update = True,
        sub_is_bridge = False, notify_ctx = Some 7\<rparr>],
      current_pubsub_id = 2, current_entry_id = 0, ros2_subscriber_num = 0, ros2_publisher_num = 0,
      wrapper_refcnt = 1, topic_rule = None\<rparr>"

definition demo_wrapper :: topic_wrapper where
  "demo_wrapper = \<lparr>wr_ipc_ns = 0, wr_domain_id = 0, wr_key = ''/t'', wr_topic = 0\<rparr>"

lemma init_pools_2:
  "init_pools 2 a s = [\<lparr>mp_addr = a, mapped_num = 0, mapped_pid_head = []\<rparr>,
     \<lparr>mp_addr = a + s, mapped_num = 0, mapped_pid_head = []\<rparr>]"
  by (simp add: numeral_2_eq_2)

lemma demo_ready_eq:
  "demo_ready d =
     \<lparr>topic_hashtable = [demo_wrapper], topics = [0 \<mapsto> demo_topic d], next_topic = 1,
      proc_info_htable =
        [\<lparr>exited = False, role = PROCESS_ROLE_APPLICATION, global_pid = 10, local_pid = 10, mempool_index = 0,
          proc_ipc_ns = 0, proc_domain_id = 0\<rparr>,
         \<lparr>exited = False, role = PROCESS_ROLE_APPLICATION, global_pid = 20, local_pid = 20, mempool_index = 1,
          proc_ipc_ns = 0, proc_domain_id = 0\<rparr>],
      domain_rule_htable = [], next_rule = 0, bridge_htable = [], discovery_agent_htable = [],
      mempool_entries = [\<lparr>mp_addr = 0x40000000000, mapped_num = 1, mapped_pid_head = [10]\<rparr>,
        \<lparr>mp_addr = 0x40040000000, mapped_num = 1, mapped_pid_head = [20]\<rparr>],
      mempool_size_bytes = 0x40000000\<rparr>"
  by (simp add: demo_ready_def demo_defs demo_topic_def demo_wrapper_def init_pools_2 keval)

definition demo_entry :: entry_node where
  "demo_entry = \<lparr>entry_id = 0, en_publisher_id = 0, msg_virtual_address = 0x40000000000, referencing_subscribers = {}\<rparr>"

lemma demo_sent_eq:
  "demo_sent = (demo_ready 1)\<lparr>topics := [0 \<mapsto> upd_pub 0 (\<lambda>p. p\<lparr>entries_num := 1\<rparr>)
     ((demo_topic 1)\<lparr>entries := [demo_entry], current_entry_id := 1\<rparr>)]\<rparr>"
  by (simp add: demo_sent_def demo_ready_eq demo_topic_def demo_wrapper_def demo_entry_def keval)

lemma demo_recv_topic:
  "topics demo_recv 0 = Some (upd_sub 1 (\<lambda>s. s\<lparr>latest_received_entry_id := 0, need_mmap_update := False\<rparr>)
     (upd_pub 0 (\<lambda>p. p\<lparr>entries_num := 1\<rparr>)
       ((demo_topic 1)\<lparr>entries := [demo_entry\<lparr>referencing_subscribers := {1}\<rparr>], current_entry_id := 1\<rparr>)))"
  by (simp add: demo_recv_def demo_sent_eq demo_ready_eq demo_topic_def demo_wrapper_def demo_entry_def demo_env_def keval)

lemma demo_recv_eq:
  "demo_recv = demo_sent\<lparr>topics := topics demo_recv, mempool_entries := mempool_entries demo_recv\<rparr>"
  by (simp add: demo_recv_def demo_sent_eq demo_ready_eq demo_topic_def demo_wrapper_def demo_entry_def demo_env_def keval)

lemma demo_recv_find:
  "find_topic_for_current 20 ''/t'' 0 demo_recv = Some demo_wrapper"
  "topic_of demo_recv demo_wrapper = the (topics demo_recv 0)"
  by (subst demo_recv_eq, simp add: demo_sent_eq demo_ready_eq demo_wrapper_def keval)
     (simp add: topic_of_def demo_wrapper_def)

end
