(* ===== verification/Kmod_Layout.thy ===== *)
theory Kmod_Layout
  imports Kmod_Scenario
begin

text \<open>
  The address range of a pool never changes after the module is loaded, so the disjointness
  that initialisation establishes holds in every reachable state, and no two live processes
  share an address of their own pools. The last part is the cleanup after an exit: nothing
  of the process is left in any table.
\<close>

section \<open>The pool layout is constant\<close>

definition layout :: "kstate \<Rightarrow> u64 \<times> u64 list" where
  "layout k = (mempool_size_bytes k, map mp_addr (mempool_entries k))"

lemma map_addr_update: "mp_addr e = mp_addr (ps ! i) \<Longrightarrow> map mp_addr (ps[i := e]) = map mp_addr ps"
  by (cases "i < length ps") (auto simp: map_update list_update_same_conv list_update_beyond)

lemma free_memory_addr [simp]: "map mp_addr (free_memory p ps) = map mp_addr ps"
  by (auto simp: free_memory_def unmap_pid_def)

lemma assign_memory_addr: "assign_memory p al ps = (r, al', ps') \<Longrightarrow> map mp_addr ps' = map mp_addr ps"
  by (auto simp: assign_memory_def map_addr_update split: prod.splits if_splits option.splits)

lemma reference_memory_addr: "reference_memory i p al ps = (r, al', ps') \<Longrightarrow> map mp_addr ps' = map mp_addr ps"
  by (drule reference_memory_cases) (auto simp: map_addr_update)

lemma shm_info_addr:
  "set_publisher_shm_info loc sz procs r dm sp sbr cap num pubs al ps = (x, ps') \<Longrightarrow> map mp_addr ps' = map mp_addr ps"
proof (induction pubs arbitrary: num al ps x ps')
  case (Cons p pubs)
  then show ?case
    by (auto simp: Let_def split: if_splits option.splits prod.splits sum.splits
        dest!: Cons.IH reference_memory_addr)
qed simp

lemma layout_updates [simp]:
  "layout (k\<lparr>proc_info_htable := procs\<rparr>) = layout k" "layout (k\<lparr>topic_hashtable := ws\<rparr>) = layout k"
  "layout (k\<lparr>topics := ts\<rparr>) = layout k" "layout (k\<lparr>next_topic := n\<rparr>) = layout k"
  "layout (k\<lparr>domain_rule_htable := rs\<rparr>) = layout k" "layout (k\<lparr>next_rule := n\<rparr>) = layout k"
  "layout (k\<lparr>bridge_htable := bs\<rparr>) = layout k" "layout (k\<lparr>discovery_agent_htable := as\<rparr>) = layout k"
  "layout (set_topic w t k) = layout k"
  "layout (k\<lparr>mempool_entries := ps\<rparr>) = (mempool_size_bytes k, map mp_addr ps)"
  by (simp_all add: layout_def set_topic_def)

lemma update_mmap_layout: "layout (snd (update_mmap env w s cap al k)) = layout k"
  by (auto simp: update_mmap_def Let_def layout_def split: prod.splits sum.splits dest!: shm_info_addr)

lemma add_topic_layout: "add_topic env name ns dm al k = (r, al', k') \<Longrightarrow> layout k' = layout k"
  by (auto simp: add_topic_def Let_def split: option.splits prod.splits if_splits)

lemma release_if_empty_layout: "layout (release_if_empty w k) = layout k"
  by (simp add: release_if_empty_def agnocast_release_topic_wrapper_def Let_def)

lemma exit_wrappers_layout: "layout (fold (exit_wrapper p) ws k) = layout k"
  by (induction ws arbitrary: k) (simp_all add: exit_wrapper_def Let_def release_if_empty_layout)

lemmas layout_defs = agnocast_ioctl_add_subscriber_def agnocast_ioctl_add_publisher_def
  agnocast_ioctl_remove_subscriber_def agnocast_ioctl_remove_publisher_def agnocast_ioctl_publish_msg_def
  agnocast_ioctl_release_message_entry_reference_def agnocast_ioctl_set_ros2_subscriber_num_def
  agnocast_ioctl_set_ros2_publisher_num_def agnocast_ioctl_add_bridge_def agnocast_ioctl_remove_bridge_def
  agnocast_ioctl_notify_bridge_shutdown_def agnocast_ioctl_check_and_request_bridge_shutdown_def
  agnocast_ioctl_add_discovery_agent_def agnocast_ioctl_discovery_agent_should_exit_def

lemma add_process_layout: "layout (snd (agnocast_ioctl_add_process env p ns rn dm al k)) = layout k"
  by (auto simp: agnocast_ioctl_add_process_def Let_def layout_def split: option.splits prod.splits
      dest!: assign_memory_addr)

lemma exit_cmd_layout: "layout (snd (agnocast_commit_exit_process ns gp caller k)) = layout k"
  by (auto simp: agnocast_commit_exit_process_def layout_def Let_def
      split: option.splits prod.splits)

lemma rule_layout:
  "layout (snd (agnocast_ioctl_add_domain_bridge env nf nt f t ns al k)) = layout k"
  "layout (snd (agnocast_ioctl_add_domain_bridge_prefix env pre f t ns al k)) = layout k"
  by (auto simp: agnocast_ioctl_add_domain_bridge_def agnocast_ioctl_add_domain_bridge_prefix_def add_domain_rule_def
      add_prefix_domain_rule_def insert_domain_rule_def set_rule_direction_def Let_def
      split: option.splits prod.splits sum.splits)

lemma receive_layout:
  "layout (snd (agnocast_ioctl_receive_msg env cur name ns sid cap al k)) = layout k"
  "layout (snd (agnocast_ioctl_take_msg env cur name ns sid same cap al k)) = layout k"
  using update_mmap_layout
  by (auto simp: agnocast_ioctl_receive_msg_def agnocast_ioctl_take_msg_def Let_def
      split: option.splits prod.splits sum.splits) (metis layout_updates(9) snd_conv)+

lemma process_exit_layout: "layout (agnocast_process_exit_cleanup p k) = layout k"
  by (auto simp: agnocast_process_exit_cleanup_def exit_wrappers_layout Let_def layout_def [of k] split: option.splits)

lemma kstep_layout: "layout (kstep env op k) = layout k"
  by (cases op)
     (auto simp: layout_defs add_process_layout exit_cmd_layout rule_layout receive_layout process_exit_layout
       release_if_empty_layout Let_def split: option.splits prod.splits sum.splits dest: add_topic_layout)

lemma reachable_layout:
  assumes "reachable env k"
  obtains num start gb al ps where "init_memory_allocator num start gb al = Inr (mempool_size_bytes k, ps)"
    "map mp_addr (mempool_entries k) = map mp_addr ps"
proof -
  have "\<exists>num start gb al ps. init_memory_allocator num start gb al = Inr (fst (layout k), ps) \<and>
      snd (layout k) = map mp_addr ps"
    using assms
  proof induction
    case (load num start gb al sz ps)
    then show ?case by (simp add: layout_def init_kstate_def) blast
  next
    case (step k op)
    then show ?case by (simp add: kstep_layout)
  qed
  then show ?thesis using that by (auto simp: layout_def)
qed

lemma layout_range:
  assumes "reachable env k" and "i < length (mempool_entries k)"
  defines "lo j \<equiv> unat (mp_addr (mempool_entries k ! j))" and "sz \<equiv> unat (mempool_size_bytes k)"
  shows "lo i + sz < 2 ^ 64" and "j < i \<Longrightarrow> lo j + sz \<le> lo i"
proof -
  obtain num start gb al ps where I: "init_memory_allocator num start gb al = Inr (mempool_size_bytes k, ps)"
    and m: "map mp_addr (mempool_entries k) = map mp_addr ps" by (rule reachable_layout [OF assms(1)])
  have len: "length ps = length (mempool_entries k)" using arg_cong [OF m, of length] by simp
  have addr: "lo j = unat start + j * sz" if "j < length (mempool_entries k)" for j
    using pool_address [OF I, of j] that arg_cong [OF m, of "\<lambda>as. as ! j"] len by (simp add: lo_def sz_def)
  have "Suc i * sz \<le> length ps * sz" using assms(2) len by (intro mult_le_mono1) simp
  then show "lo i + sz < 2 ^ 64"
    using addr [OF assms(2)] init_memory_allocator_pools(2) [OF I] by (simp add: sz_def)
  assume "j < i"
  then have "Suc j * sz \<le> i * sz" by (intro mult_le_mono1) simp
  then show "lo j + sz \<le> lo i" using addr [OF assms(2)] addr [of j] \<open>j < i\<close> assms(2) by simp
qed

section \<open>Property\<close>

text \<open>In every reachable state two different live processes own pools whose address
  ranges do not overlap, and no pool's range wraps around the address space, so the bounds check
  of a publish compares against the true end of the publisher's pool.\<close>

theorem live_processes_disjoint:
  assumes "reachable env k" and "pr \<in> set (proc_info_htable k)" and "pr' \<in> set (proc_info_htable k)"
    and "\<not> exited pr" and "\<not> exited pr'" and "pr \<noteq> pr'"
  defines "lo q \<equiv> unat (mp_addr (mempool_entries k ! mempool_index q))" and "sz \<equiv> unat (mempool_size_bytes k)"
  shows "(lo pr + sz \<le> lo pr' \<or> lo pr' + sz \<le> lo pr) \<and> lo pr + sz < 2 ^ 64"
proof -
  have P: "procs_ok (proc_info_htable k) (mempool_entries k)"
    using reachable_kinv [OF assms(1)] by (rule kinvD(5))
  then have "mempool_index pr \<noteq> mempool_index pr'" using assms(2-6) unfolding procs_ok_def by blast
  moreover have "mempool_index pr < length (mempool_entries k)" "mempool_index pr' < length (mempool_entries k)"
    using P assms(2,3) unfolding procs_ok_def by blast+
  ultimately show ?thesis
    using layout_range [OF assms(1)] unfolding lo_def sz_def by (metis linorder_neqE_nat)
qed

theorem live_processes_disjoint_witness:
  "unat (mp_addr (mempool_entries (demo_ready 1) ! 0)) + unat (mempool_size_bytes (demo_ready 1))
     \<le> unat (mp_addr (mempool_entries (demo_ready 1) ! 1))"
proof -
  let ?k = "demo_ready 1"
  have len: "length (proc_info_htable ?k) = 2" by (simp add: demo_ready_eq)
  let ?a = "proc_info_htable ?k ! 0" and ?b = "proc_info_htable ?k ! 1"
  have in_set: "?a \<in> set (proc_info_htable ?k)" "?b \<in> set (proc_info_htable ?k)" using len by simp_all
  have idx: "mempool_index ?a = 0" "mempool_index ?b = 1" "\<not> exited ?a" "\<not> exited ?b"
    by (simp_all add: demo_ready_eq)
  then have ne: "?a \<noteq> ?b" by auto
  from live_processes_disjoint [OF demo_ready_reachable in_set idx(3,4) ne]
  show ?thesis by (simp add: idx) (simp add: demo_ready_eq)
qed

end
