(* ===== verification/Kmod_Cleanup.thy ===== *)
theory Kmod_Cleanup
  imports Kmod_Layout
begin

text \<open>
  What the cleanup after a process exit leaves behind: no subscriber and no bridge of the
  process, no mapping of any pool, and of its publishers only those with messages that
  somebody else still references.
\<close>

section \<open>Publishers that leave\<close>

text \<open>Publisher \<open>i\<close> is gone, or it has an entry and every entry of it is referenced.\<close>

definition settled :: "int \<Rightarrow> topic_struct \<Rightarrow> bool" where
  "settled i t \<longleftrightarrow> (i \<in> pub_ids t \<longrightarrow> 0 < owned i (entries t) \<and>
     (\<forall>en\<in>set (entries t). en_publisher_id en = i \<longrightarrow> agnocast_is_referenced en))"

lemma owned_filter_other:
  "(\<And>en. en_publisher_id en = i \<Longrightarrow> P en) \<Longrightarrow> owned i (filter P es) = owned i es"
  by (induction es) auto

lemma drop_publisher_settles:
  assumes inv: "inv_but X t"
  shows "settled i (drop_publisher i t)"
  unfolding settled_def
proof
  assume i: "i \<in> pub_ids (drop_publisher i t)"
  let ?t = "upd_pub i (\<lambda>p. p\<lparr>entries_num := entries_num p - length (filter (publisher_unreferenced i) (entries t))\<rparr>)
     (t\<lparr>entries := filter (\<lambda>en. \<not> publisher_unreferenced i en) (entries t)\<rparr>)"
  have inv': "inv_but X ?t" by (rule remove_own_inv [OF inv]) (simp add: publisher_unreferenced_def)
  obtain p where p: "find_publisher_info i ?t = Some p"
    using i pubs_like_pub_ids [OF drop_publisher_inv(2) [OF inv, of i]]
    by (cases "find_publisher_info i ?t") (auto simp: find_publisher_info_None pub_ids_def tbl_simps)
  have "entries_num p \<noteq> 0"
  proof
    assume "entries_num p = 0"
    then have "drop_publisher i t = ?t\<lparr>pub_info_htable := del_key pub_id i (pub_info_htable ?t)\<rparr>"
      using p by (simp add: drop_publisher_def Let_def)
    then show False using i by (auto simp: pub_ids_def tbl_simps)
  qed
  moreover have "p \<in> set (pub_info_htable ?t)" "pub_id p = i"
    using p find_publisher_info_Some [OF inv_butD(1) [OF inv']] by blast+
  then have "entries_num p = owned i (entries ?t)" using inv_butD(1) [OF inv'] unfolding pubs_fit_def by blast
  ultimately show "0 < owned i (entries (drop_publisher i t)) \<and>
      (\<forall>en\<in>set (entries (drop_publisher i t)). en_publisher_id en = i \<longrightarrow> agnocast_is_referenced en)"
    by (simp add: publisher_unreferenced_def)
qed

lemma drop_publisher_settled:
  assumes inv: "inv_but X t" and "settled i t"
  shows "settled i (drop_publisher j t)"
proof (cases "i = j")
  case True
  then show ?thesis using drop_publisher_settles [OF inv] by simp
next
  case False
  have "owned i (filter (\<lambda>en. \<not> publisher_unreferenced j en) (entries t)) = owned i (entries t)"
    using False by (intro owned_filter_other) (simp add: publisher_unreferenced_def)
  moreover have "pub_ids (drop_publisher j t) \<subseteq> pub_ids t"
    using pubs_like_pub_ids [OF drop_publisher_inv(2) [OF inv]] by (simp add: pub_ids_def)
  ultimately show ?thesis using assms(2) by (auto simp: settled_def)
qed

lemma fold_drop_settles:
  "inv_but X t \<Longrightarrow> i \<in> set is \<or> settled i t \<Longrightarrow> settled i (fold drop_publisher is t)"
proof (induction "is" arbitrary: t)
  case (Cons j "is")
  have "i \<in> set is \<or> settled i (drop_publisher j t)"
    using Cons.prems drop_publisher_settles [OF Cons.prems(1), of j] drop_publisher_settled [OF Cons.prems(1)]
    by auto
  then show ?case using Cons.IH [OF drop_publisher_inv(1) [OF Cons.prems(1)]] by simp
qed simp

section \<open>Subscribers that leave\<close>

lemma drop_entry_of_left:
  assumes d: "distinct (map pub_id pubs)" and p: "p \<in> set (drop_entry_of i pubs)" "pub_id p = i"
  shows "entries_num p \<noteq> 0"
proof
  assume z: "entries_num p = 0"
  define qs where "qs = upd_key pub_id i (\<lambda>p. p\<lparr>entries_num := entries_num p - 1\<rparr>) pubs"
  have e: "drop_entry_of i pubs = (case find_key pub_id i qs of
      Some p \<Rightarrow> if entries_num p = 0 then del_key pub_id i qs else qs | None \<Rightarrow> qs)"
    unfolding drop_entry_of_def qs_def Let_def ..
  have "set (drop_entry_of i pubs) \<subseteq> set qs"
    unfolding e by (cases "find_key pub_id i qs") (simp_all add: set_del_key)
  then have "p \<in> set qs" using p(1) by blast
  moreover have "distinct (map pub_id qs)" using d by (simp add: qs_def tbl_simps)
  ultimately have "find_key pub_id i qs = Some p" using find_key_mem [of pub_id qs p] p(2) by simp
  then have "drop_entry_of i pubs = del_key pub_id i qs" using z by (simp add: e)
  then show False using p by (simp add: set_del_key)
qed

lemma drop_subscriber_refs_owns:
  assumes "pubs_fit pubs (pre @ es)" and "drop_subscriber_refs procs sid pubs es = (ps', es')"
    and "i \<in> pub_id ` set ps'" and "0 < owned i (pre @ es)"
  shows "0 < owned i (pre @ es')"
  using assms
proof (induction es arbitrary: pre pubs ps' es')
  case (Cons en es)
  let ?en = "clear_ref sid en" and ?j = "en_publisher_id en"
  have fit: "pubs_fit pubs ((pre @ [?en]) @ es)" using Cons.prems(1) by (auto simp: pubs_fit_def)
  show ?case
  proof (cases "agnocast_is_referenced ?en \<or> alive_pub procs pubs ?j")
    case True
    obtain ps1 es1 where r: "drop_subscriber_refs procs sid pubs es = (ps1, es1)" by fastforce
    have "drop_subscriber_refs procs sid pubs (en # es) = (ps1, ?en # es1)"
      using True r by (auto simp: Let_def clear_ref_def alive_pub_def split: option.splits)
    then show ?thesis using Cons.IH [OF fit r] Cons.prems(2-4) by auto
  next
    case False
    let ?pubs = "drop_entry_of ?j pubs"
    have d: "drop_subscriber_refs procs sid ?pubs es = (ps', es')"
      using False Cons.prems(2) by (auto simp: Let_def clear_ref_def alive_pub_def split: option.splits)
    have fit': "pubs_fit ?pubs (pre @ es)" using Cons.prems(1) by (rule drop_entry_of_fit)
    have "pubs_like ?pubs ps'" using drop_subscriber_refs_spec [OF fit' d] by simp
    then have i: "i \<in> pub_id ` set ?pubs" using pubs_like_pub_ids Cons.prems(3) by blast
    have "0 < owned i (pre @ es)"
    proof (cases "i = ?j")
      case True
      obtain p where p: "p \<in> set ?pubs" "pub_id p = ?j" using i True by auto
      have "entries_num p \<noteq> 0" using drop_entry_of_left [OF _ p] Cons.prems(1) by (simp add: pubs_fit_def)
      then show ?thesis using fit' p True by (auto simp: pubs_fit_def)
    next
      case False
      then show ?thesis using Cons.prems(4) by simp
    qed
    then show ?thesis using Cons.IH [OF fit' d Cons.prems(3)] by simp
  qed
qed simp

lemma drop_refs_of_settled:
  assumes inv: "inv_but (insert sid X) t" and sid: "sid \<notin> sub_ids t"
    and st: "settled i t" and dead: "\<not> alive_pub procs (pub_info_htable t) i"
  shows "settled i (drop_refs_of procs sid t)"
  unfolding settled_def
proof
  note D = drop_refs_of_inv [OF inv sid, of procs]
  let ?t = "drop_refs_of procs sid t"
  assume i: "i \<in> pub_ids ?t"
  then have "i \<in> pub_ids t" using pubs_like_pub_ids [OF D(2)] by (auto simp: pub_ids_def)
  then have own: "0 < owned i ([] @ entries t)" using st by (simp add: settled_def)
  obtain ps es where r: "drop_subscriber_refs procs sid (pub_info_htable t) (entries t) = (ps, es)" by fastforce
  have e: "?t = t\<lparr>pub_info_htable := ps, entries := es\<rparr>" by (simp add: drop_refs_of_def r)
  have fit: "pubs_fit (pub_info_htable t) ([] @ entries t)" using inv_butD(1) [OF inv] by simp
  have "i \<in> pub_id ` set ps" using i by (simp add: e pub_ids_def)
  from drop_subscriber_refs_owns [OF fit r this own]
  have "0 < owned i (entries ?t)" by (simp add: e)
  then show "0 < owned i (entries ?t) \<and> (\<forall>en\<in>set (entries ?t). en_publisher_id en = i \<longrightarrow> agnocast_is_referenced en)"
    using dead by (auto simp: D(3))
qed

section \<open>What is left of a process\<close>

definition pubs_settled :: "pid \<Rightarrow> topic_struct \<Rightarrow> bool" where
  "pubs_settled p t \<longleftrightarrow> (\<forall>q\<in>set (pub_info_htable t). pub_pid q = p \<longrightarrow> settled (pub_id q) t)"

definition gone :: "pid \<Rightarrow> topic_struct \<Rightarrow> bool" where
  "gone p t \<longleftrightarrow> p \<notin> sub_pid ` set (sub_info_htable t) \<and> pubs_settled p t"

lemma pubs_like_origin:
  assumes "pubs_like ps ps'" and "q \<in> set ps'"
  obtains q0 where "q0 \<in> set ps" "pub_id q0 = pub_id q" "pub_pid q0 = pub_pid q"
proof -
  obtain q0 n where "q0 \<in> set ps" "q = q0\<lparr>entries_num := n\<rparr>" using assms unfolding pubs_like_def by blast
  then show thesis using that by simp
qed

lemma pre_handler_publisher_settles:
  assumes inv: "topic_inv t"
  shows "pubs_settled p (pre_handler_publisher_exit p t)"
  unfolding pubs_settled_def
proof (intro ballI impI)
  fix q assume q: "q \<in> set (pub_info_htable (pre_handler_publisher_exit p t))" "pub_pid q = p"
  obtain q0 where "q0 \<in> set (pub_info_htable t)" "pub_id q0 = pub_id q" "pub_pid q0 = pub_pid q"
    by (rule pubs_like_origin [OF pre_handler_publisher_exit_inv(6) [OF inv] q(1)])
  then have "pub_id q \<in> set (map pub_id (filter (\<lambda>q. pub_pid q = p) (pub_info_htable t)))"
    using q(2) by (simp, intro image_eqI [of _ pub_id q0]) auto
  then show "settled (pub_id q) (pre_handler_publisher_exit p t)"
    unfolding pre_handler_publisher_exit_def using fold_drop_settles inv [unfolded topic_inv_def] by blast
qed

lemma drop_leaving_settled:
  assumes "inv_but (sub_id ` set leaving) t" and "sub_id ` set leaving \<inter> sub_ids t = {}"
    and "\<forall>s\<in>set leaving. 0 \<le> sub_id s \<and> sub_id s < MAX_TOPIC_LOCAL_ID"
    and "pubs_settled p t" and dead: "\<not> owner_is_alive procs p"
  shows "pubs_settled p (drop_leaving procs leaving t)"
  using assms(1-4)
proof (induction leaving arbitrary: t)
  case Nil
  then show ?case by (simp add: drop_leaving_def)
next
  case (Cons s ls)
  let ?t = "drop_refs_of procs (sub_id s) t"
  have s: "sub_id s \<notin> sub_ids t" using Cons.prems(2) by auto
  have inv: "inv_but (insert (sub_id s) (sub_id ` set ls)) t" using Cons.prems(1) by simp
  note D = drop_refs_of_inv [OF inv s, of procs]
  have step: "drop_leaving procs (s # ls) t = drop_leaving procs ls ?t"
    using Cons.prems(3) by (auto simp: drop_leaving_def)
  have "pubs_settled p ?t" unfolding pubs_settled_def
  proof (intro ballI impI)
    fix q assume q: "q \<in> set (pub_info_htable ?t)" "pub_pid q = p"
    obtain q0 where q0: "q0 \<in> set (pub_info_htable t)" "pub_id q0 = pub_id q" "pub_pid q0 = pub_pid q"
      by (rule pubs_like_origin [OF D(2) q(1)])
    have "distinct (map pub_id (pub_info_htable t))" using inv_butD(1) [OF inv] by (simp add: pubs_fit_def)
    from find_key_mem [OF this q0(1)] have "\<not> alive_pub procs (pub_info_htable t) (pub_id q)"
      using q0 q(2) dead by (simp add: alive_pub_def)
    moreover have "settled (pub_id q) t" using Cons.prems(4) q0 q(2) unfolding pubs_settled_def by metis
    ultimately show "settled (pub_id q) ?t" by (intro drop_refs_of_settled [OF inv s])
  qed
  moreover have "sub_id ` set ls \<inter> sub_ids ?t = {}" using Cons.prems(2) by auto
  ultimately show ?case unfolding step using Cons.IH D(1) Cons.prems(3) by simp
qed

lemma pubs_settled_rebuild:
  "pubs_settled p (rebuild_all_notify_lists r (t\<lparr>sub_info_htable := ss\<rparr>)) = pubs_settled p t"
  by (simp add: pubs_settled_def settled_def rebuild_all_notify_lists_def rebuild_notify_list_def pub_ids_def image_image)

lemma exit_handlers_gone:
  assumes inv: "topic_inv t" and dead: "\<not> owner_is_alive procs p"
  shows "gone p (pre_handler_subscriber_exit procs r p (pre_handler_publisher_exit p t))"
proof -
  let ?t = "pre_handler_publisher_exit p t"
  note P = pre_handler_publisher_exit_inv [OF inv, where p = p]
  note S = pre_handler_publisher_settles [OF inv, of p]
  let ?leaving = "rev (filter (\<lambda>s. sub_pid s = p) (sub_info_htable ?t))"
  let ?rest = "rebuild_all_notify_lists r (?t\<lparr>sub_info_htable := filter (\<lambda>s. sub_pid s \<noteq> p) (sub_info_htable ?t)\<rparr>)"
  have e: "pre_handler_subscriber_exit procs r p ?t = (if ?leaving = [] then ?t else drop_leaving procs ?leaving ?rest)"
    by (simp add: pre_handler_subscriber_exit_def drop_leaving_def Let_def)
  have "pubs_settled p (drop_leaving procs ?leaving ?rest)"
    by (rule drop_leaving_settled [OF leaving_facts [OF P(1)] _ dead]) (simp add: pubs_settled_rebuild S)
  then have "pubs_settled p (pre_handler_subscriber_exit procs r p ?t)" using S by (simp add: e)
  then show ?thesis using pre_handler_subscriber_exit_inv(3) [OF P(1), of procs r p] by (auto simp: gone_def)
qed

lemma gone_refcnt [simp]: "gone p (t\<lparr>wrapper_refcnt := n\<rparr>) = gone p t"
  by (simp add: gone_def pubs_settled_def settled_def pub_ids_def)

lemma release_if_empty_gone:
  assumes "topics (release_if_empty w k) a = Some t" and "topics k (wr_topic w) \<noteq> None"
  shows "\<exists>t0 n. topics k a = Some t0 \<and> t = t0\<lparr>wrapper_refcnt := n\<rparr>"
proof (cases "agnocast_wrapper_has_domain_endpoints w (topic_of k w)")
  case True
  then show ?thesis using assms(1) by (intro exI [of _ t] exI [of _ "wrapper_refcnt t"]) (simp add: release_if_empty_def)
next
  case False
  then show ?thesis using assms
    by (cases "a = wr_topic w")
       (auto simp: release_if_empty_def agnocast_release_topic_wrapper_def Let_def topic_of_def set_topic_def
         split: if_splits intro: exI [of _ "wrapper_refcnt t"])
qed

lemma exit_wrappers_gone:
  assumes "kinv k" and "distinct ws" and "set ws \<subseteq> set (topic_hashtable k)"
    and "\<not> owner_is_alive (proc_info_htable k) p"
    and "topics (fold (exit_wrapper p) ws k) a = Some t"
    and "a \<in> wr_topic ` set ws \<or> (\<forall>t0. topics k a = Some t0 \<longrightarrow> gone p t0)"
  shows "gone p t"
  using assms
proof (induction ws arbitrary: k)
  case (Cons w ws)
  have w: "w \<in> set (topic_hashtable k)" using Cons.prems(3) by simp
  let ?k = "exit_wrapper p w k"
  note E = exit_wrapper_inv [OF Cons.prems(1) w, of p]
  have ti: "topic_inv (topic_of k w)" using topic_of_ok(2) [OF Cons.prems(1) w] by (simp add: topic_ok_def)
  have procs: "proc_info_htable ?k = proc_info_htable k" by (simp add: exit_wrapper_def Let_def release_if_empty_table)
  have "gone p t0" if t0: "topics ?k a = Some t0" and c: "a = wr_topic w \<or> (\<forall>t0. topics k a = Some t0 \<longrightarrow> gone p t0)" for t0
  proof -
    let ?k1 = "set_topic w (pre_handler_subscriber_exit (proc_info_htable k) (rule_of k (topic_of k w)) p
        (pre_handler_publisher_exit p (topic_of k w))) k"
    obtain t1 n where "topics ?k1 a = Some t1" "t0 = t1\<lparr>wrapper_refcnt := n\<rparr>"
      using release_if_empty_gone [of w ?k1 a t0] t0 by (auto simp: exit_wrapper_def Let_def)
    then show ?thesis
      using exit_handlers_gone [OF ti Cons.prems(4), of "rule_of k (topic_of k w)"] c by (auto split: if_splits)
  qed
  moreover have "a \<in> wr_topic ` set ws \<or> a = wr_topic w \<or> (\<forall>t0. topics k a = Some t0 \<longrightarrow> gone p t0)"
    using Cons.prems(6) by auto
  ultimately have "a \<in> wr_topic ` set ws \<or> (\<forall>t0. topics ?k a = Some t0 \<longrightarrow> gone p t0)" by blast
  moreover have "set ws \<subseteq> set (topic_hashtable ?k)" using E(2) Cons.prems(2,3) by auto
  ultimately show ?case using Cons.IH [OF E(1)] Cons.prems(2,4,5) procs by simp
qed simp

lemma exit_wrappers_procs:
  "proc_info_htable (fold (exit_wrapper p) ws k) = proc_info_htable k"
  "mempool_entries (fold (exit_wrapper p) ws k) = mempool_entries k"
  by (induction ws arbitrary: k) (simp_all add: exit_wrapper_def Let_def release_if_empty_table)

text \<open>Claim C26. The cleanup after the exit of a registered process is complete: the process no longer
  counts as alive and maps no pool, it owns no bridge, no topic has a subscriber of it, and a
  publisher of it remains only as long as it has messages, every one of them still
  referenced by a registered subscriber of another process.\<close>

theorem process_exit_complete:
  assumes "reachable env k" and known: "agnocast_find_process_info p (proc_info_htable k) = Some pr"
  defines "k' \<equiv> agnocast_process_exit_cleanup p k"
  shows "\<not> owner_is_alive (proc_info_htable k') p \<and> (\<forall>i. p \<notin> mappers (mempool_entries k') i) \<and>
    p \<notin> br_pid ` set (bridge_htable k') \<and>
    (\<forall>a t. topics k' a = Some t \<longrightarrow> p \<notin> sub_pid ` set (sub_info_htable t) \<and>
       (\<forall>q\<in>set (pub_info_htable t). pub_pid q = p \<longrightarrow> 0 < entries_num q \<and>
          (\<forall>en\<in>set (entries t). en_publisher_id en = pub_id q \<longrightarrow>
             referencing_subscribers en \<noteq> {} \<and> referencing_subscribers en \<subseteq> sub_ids t)))"
proof -
  note inv = reachable_kinv [OF assms(1)]
  have inv': "kinv k'" unfolding k'_def by (rule process_exit_cleanup_inv [OF inv])
  obtain k2 where k2: "kinv k2" "topics k2 = topics k" "topic_hashtable k2 = topic_hashtable k"
    "mempool_entries k2 = free_memory p (mempool_entries k)"
    "\<forall>x\<in>set (proc_info_htable k2). global_pid x = p \<longrightarrow> exited x"
    and e: "k' = (let k3 = fold (exit_wrapper p) (topic_hashtable k) k2
        in k3\<lparr>bridge_htable := filter (\<lambda>b. br_pid b \<noteq> p) (bridge_htable k3)\<rparr>)"
    unfolding k'_def by (rule exit_start [OF inv known])
  have dead: "\<not> owner_is_alive (proc_info_htable k2) p"
    using k2(5) find_key_Some unfolding owner_is_alive_def agnocast_find_process_info_def
    by (auto split: option.splits) fastforce
  have dist: "distinct (topic_hashtable k)" using kinvD(1) [OF inv] by (simp add: wrappers_ok_def distinct_map)
  have "gone p t" if t: "topics k' a = Some t" for a t
  proof -
    have "topics k2 a = None" if "a \<notin> wr_topic ` set (topic_hashtable k)"
    proof (cases "topics k2 a")
      case (Some t)
      then have "0 < refs_to a (topic_hashtable k)"
        using kinvD(2) [OF k2(1)] k2(3) unfolding topics_ok_def topic_ok_def by metis
      then show ?thesis using that by (auto simp: refs_to_def filter_empty_conv)
    qed
    then have "a \<in> wr_topic ` set (topic_hashtable k) \<or> (\<forall>t0. topics k2 a = Some t0 \<longrightarrow> gone p t0)" by auto
    then show ?thesis
      using exit_wrappers_gone [OF k2(1) dist _ dead, of a t] t k2(3) by (simp add: e Let_def)
  qed
  moreover have "0 < entries_num q" "\<forall>en\<in>set (entries t). en_publisher_id en = pub_id q \<longrightarrow>
      referencing_subscribers en \<noteq> {} \<and> referencing_subscribers en \<subseteq> sub_ids t"
    if t: "topics k' a = Some t" "gone p t" "q \<in> set (pub_info_htable t)" "pub_pid q = p" for a t q
  proof -
    have "topic_inv t" using kinvD(2) [OF inv'] t(1) by (auto simp: topics_ok_def topic_ok_def)
    note I = inv_butD [OF this [unfolded topic_inv_def]]
    have "settled (pub_id q) t" using t(2-4) by (simp add: gone_def pubs_settled_def)
    then show "0 < entries_num q" "\<forall>en\<in>set (entries t). en_publisher_id en = pub_id q \<longrightarrow>
      referencing_subscribers en \<noteq> {} \<and> referencing_subscribers en \<subseteq> sub_ids t"
      using I(1,5) t(3) by (auto simp: settled_def pubs_fit_def pub_ids_def refs_ok_def agnocast_is_referenced_def)
  qed
  moreover have "\<not> owner_is_alive (proc_info_htable k') p" using dead by (simp add: e Let_def exit_wrappers_procs)
  moreover have "p \<notin> mappers (mempool_entries k') i" for i
  proof -
    have "pools_ok (mempool_entries k)" using kinvD(5) [OF inv] by (simp add: procs_ok_def)
    from free_memory_ok(4) [OF this] show ?thesis by (simp add: e Let_def exit_wrappers_procs k2(4))
  qed
  moreover have "p \<notin> br_pid ` set (bridge_htable k')" by (auto simp: e Let_def)
  ultimately show ?thesis unfolding gone_def by blast
qed

theorem process_exit_complete_witness:
  "\<not> owner_is_alive (proc_info_htable (agnocast_process_exit_cleanup 10 demo_recv)) 10 \<and>
   10 \<notin> mappers (mempool_entries (agnocast_process_exit_cleanup 10 demo_recv)) 0"
proof -
  have "agnocast_find_process_info 10 (proc_info_htable demo_recv) \<noteq> None"
    by (subst demo_recv_eq) (simp add: demo_sent_eq demo_ready_eq agnocast_find_process_info_def find_key_def)
  then obtain pr where "agnocast_find_process_info 10 (proc_info_htable demo_recv) = Some pr" by auto
  from process_exit_complete [OF demo_recv_reachable this] show ?thesis by blast
qed

end
