(* ===== verification/Kmod_Lifecycle.thy ===== *)
theory Kmod_Lifecycle
  imports Kmod_Cleanup
begin

text \<open>
  The life of the module around the ioctl handlers: loading and unloading
  (\<open>agnocast_main.c\<close>, \<open>agnocast_init.c\<close>, \<open>agnocast_exit.c\<close>), the ring buffer between the
  \<open>sched_process_exit\<close> tracepoint and the worker thread, and the worker's drain loop
  (\<open>agnocast_internal.c\<close>, \<open>agnocast_init.c\<close>).

  \<open>bounded_fifo\<close> is the contract the worker relies on: what the tracepoint enqueued comes out in
  order. The ring buffer implements it, and the drain loop, a loop that would run forever on
  arbitrary indices, returns on every buffer the module can reach, after cleaning up exactly the
  queued processes in order and with the wake-up flag down.
\<close>

unbundle bit_operations_syntax

section \<open>The exit queue\<close>

definition EXIT_QUEUE_SIZE_BITS :: nat where "EXIT_QUEUE_SIZE_BITS = 16"
definition EXIT_QUEUE_SIZE :: "32 word" where "EXIT_QUEUE_SIZE = push_bit EXIT_QUEUE_SIZE_BITS 1"
definition EXIT_QUEUE_MASK :: "32 word" where "EXIT_QUEUE_MASK = EXIT_QUEUE_SIZE - 1"

text \<open>The array is a function of the index; the indices used are below \<open>EXIT_QUEUE_SIZE\<close>.\<close>

record exit_queue =
  exit_pid_queue :: "nat \<Rightarrow> pid"
  queue_head :: "32 word"
  queue_tail :: "32 word"
  has_new_pid :: bool

definition init_exit_queue :: exit_queue where
  "init_exit_queue = \<lparr>exit_pid_queue = (\<lambda>_. 0), queue_head = 0, queue_tail = 0, has_new_pid = False\<rparr>"

text \<open>The result is \<open>need_wakeup\<close>: false means the queue was full and the pid is dropped with a
  warning.\<close>

definition agnocast_enqueue_exit_pid :: "pid \<Rightarrow> exit_queue \<Rightarrow> bool \<times> exit_queue" where
  "agnocast_enqueue_exit_pid p q =
     (let nxt = (queue_tail q + 1) AND EXIT_QUEUE_MASK in
      if nxt \<noteq> queue_head q then
        (True, q\<lparr>exit_pid_queue := (exit_pid_queue q)(unat (queue_tail q) := p), queue_tail := nxt, has_new_pid := True\<rparr>)
      else (False, q))"

definition is_agnocast_pid :: "pid \<Rightarrow> kstate \<Rightarrow> bool" where
  "is_agnocast_pid p k \<longleftrightarrow>
     (\<exists>pr\<in>set (proc_info_htable k). global_pid pr = p) \<or> (\<exists>a\<in>set (discovery_agent_htable k). da_pid a = p)"

text \<open>The tracepoint; \<open>live\<close> is the number of threads of the group still alive.\<close>

definition agnocast_process_exit :: "nat \<Rightarrow> pid \<Rightarrow> kstate \<Rightarrow> exit_queue \<Rightarrow> exit_queue" where
  "agnocast_process_exit live tgid k q =
     (if live \<noteq> 0 then q
      else if is_agnocast_pid tgid k then snd (agnocast_enqueue_exit_pid tgid q)
      else q)"

text \<open>The locked section of \<open>exit_worker_thread\<close>, and its inner loop. Indices outside the array
  would make the loop run forever, so it is a partial function.\<close>

definition exit_worker_take :: "exit_queue \<Rightarrow> pid option \<times> exit_queue" where
  "exit_worker_take q =
     (let got = queue_head q \<noteq> queue_tail q;
          p = exit_pid_queue q (unat (queue_head q));
          q1 = (if got then q\<lparr>queue_head := (queue_head q + 1) AND EXIT_QUEUE_MASK\<rparr> else q);
          q2 = (if queue_head q1 = queue_tail q1 then q1\<lparr>has_new_pid := False\<rparr> else q1)
      in (if got then Some p else None, q2))"

partial_function (option) exit_worker_drain :: "exit_queue \<Rightarrow> kstate \<Rightarrow> (exit_queue \<times> kstate) option" where
  "exit_worker_drain q k =
     (case exit_worker_take q of
        (None, q') \<Rightarrow> Some (q', k)
      | (Some p, q') \<Rightarrow> exit_worker_drain q' (agnocast_process_exit_cleanup p k))"

section \<open>Loading and unloading\<close>

text \<open>\<open>agnocast_exit_free_data\<close>: the wrappers are released in table order, then the other tables are
  emptied; \<open>cleanup_memory_allocator\<close> drops every mapping.\<close>

definition remove_all_topics :: "kstate \<Rightarrow> kstate" where
  "remove_all_topics k = fold agnocast_release_topic_wrapper (topic_hashtable k) k"

definition agnocast_exit_free_data :: "kstate \<Rightarrow> kstate" where
  "agnocast_exit_free_data k =
     (remove_all_topics k)\<lparr>proc_info_htable := [], discovery_agent_htable := [], bridge_htable := [],
       domain_rule_htable := []\<rparr>"

text \<open>What \<open>agnocast_init\<close> acquires, newest first, and the outcomes of its four steps (device,
  worker thread, tracepoint, memory allocator).\<close>

datatype resource = Device | Kthread | Exit_Hook | Mempools

fun release_resource :: "resource \<Rightarrow> resource list \<Rightarrow> resource list" where
  "release_resource x held = remove1 x held"

definition agnocast_init ::
  "unit res \<Rightarrow> unit res \<Rightarrow> unit res \<Rightarrow> unit res \<Rightarrow> unit res \<times> resource list" where
  "agnocast_init dev kt hook mem =
     (case dev of
        Inl e \<Rightarrow> (Inl e, [])
      | Inr _ \<Rightarrow>
          let r1 = [Device] in
          (case kt of
             Inl e \<Rightarrow> (Inl e, release_resource Device r1)
           | Inr _ \<Rightarrow>
               let r2 = Kthread # r1 in
               (case hook of
                  Inl e \<Rightarrow> (Inl e, release_resource Device (release_resource Kthread r2))
                | Inr _ \<Rightarrow>
                    let r3 = Exit_Hook # r2 in
                    (case mem of
                       Inl e \<Rightarrow> (Inl e, release_resource Device (release_resource Kthread (release_resource Exit_Hook r3)))
                     | Inr _ \<Rightarrow> (Inr (), Mempools # r3)))))"

definition agnocast_exit :: "resource list \<Rightarrow> resource list" where
  "agnocast_exit held =
     release_resource Device (release_resource Mempools (release_resource Kthread (release_resource Exit_Hook held)))"

section \<open>The contract of a bounded queue\<close>

locale bounded_fifo =
  fixes ok :: "'q \<Rightarrow> bool" and abs :: "'q \<Rightarrow> 'a list" and cap :: nat
    and enq :: "'a \<Rightarrow> 'q \<Rightarrow> bool \<times> 'q" and deq :: "'q \<Rightarrow> 'a option \<times> 'q"
  assumes enq_ok: "ok q \<Longrightarrow> ok (snd (enq x q))"
    and enq_room: "ok q \<Longrightarrow> length (abs q) < cap \<Longrightarrow> fst (enq x q) \<and> abs (snd (enq x q)) = abs q @ [x]"
    and enq_full: "ok q \<Longrightarrow> \<not> length (abs q) < cap \<Longrightarrow> enq x q = (False, q)"
    and deq_ok: "ok q \<Longrightarrow> ok (snd (deq q))"
    and deq_some: "ok q \<Longrightarrow> abs q = x # xs \<Longrightarrow> fst (deq q) = Some x \<and> abs (snd (deq q)) = xs"
    and deq_none: "ok q \<Longrightarrow> abs q = [] \<Longrightarrow> fst (deq q) = None \<and> abs (snd (deq q)) = []"
begin

lemma enq_list:
  "ok q \<Longrightarrow> length (abs q) + length xs \<le> cap \<Longrightarrow>
     ok (fold (\<lambda>x. snd \<circ> enq x) xs q) \<and> abs (fold (\<lambda>x. snd \<circ> enq x) xs q) = abs q @ xs"
proof (induction xs arbitrary: q)
  case (Cons x xs)
  have "fst (enq x q) \<and> abs (snd (enq x q)) = abs q @ [x]" using Cons.prems enq_room by simp
  then show ?case using Cons.IH [of "snd (enq x q)"] Cons.prems enq_ok by simp
qed simp

lemma enq_length: "ok q \<Longrightarrow> length (abs q) \<le> cap \<Longrightarrow> length (abs (snd (enq x q))) \<le> cap"
  using enq_room enq_full by (cases "length (abs q) < cap") auto

end

section \<open>Index arithmetic\<close>

lemma mask_eq: "EXIT_QUEUE_MASK = mask 16"
  by (simp add: EXIT_QUEUE_MASK_def EXIT_QUEUE_SIZE_def EXIT_QUEUE_SIZE_BITS_def mask_eq_exp_minus_1)

lemma unat_next: "unat x < 65536 \<Longrightarrow> unat ((x + 1) AND EXIT_QUEUE_MASK) = (unat x + 1) mod 65536"
proof -
  assume x: "unat x < 65536"
  then have "unat (x + 1) = unat x + 1" by (simp add: unat_word_ariths)
  then show ?thesis
    by (simp add: mask_eq unsigned_take_bit_eq flip: take_bit_eq_mask) (simp add: take_bit_eq_mod)
qed

text \<open>The number of queued pids, and the pids in the order the worker takes them.\<close>

definition fill :: "exit_queue \<Rightarrow> nat" where
  "fill q = (unat (queue_tail q) + 65536 - unat (queue_head q)) mod 65536"

definition queued :: "exit_queue \<Rightarrow> pid list" where
  "queued q = map (\<lambda>i. exit_pid_queue q ((unat (queue_head q) + i) mod 65536)) [0..<fill q]"

definition queue_ok :: "exit_queue \<Rightarrow> bool" where
  "queue_ok q \<longleftrightarrow> unat (queue_head q) < 65536 \<and> unat (queue_tail q) < 65536 \<and>
     (has_new_pid q \<longleftrightarrow> queue_head q \<noteq> queue_tail q)"

lemma ring_dist:
  fixes h t :: nat
  assumes "h < 65536" "t < 65536"
  shows "(t + 65536 - h) mod 65536 = (if h \<le> t then t - h else t + 65536 - h)"
  using assms by (auto simp: mod_if)

lemma nat_ring:
  fixes h t :: nat
  assumes "h < 65536" "t < 65536"
  defines "n \<equiv> (t + 65536 - h) mod 65536"
  shows "(h + n) mod 65536 = t" and "n < 65536" and "h = t \<longleftrightarrow> n = 0"
    and "(t + 1) mod 65536 = h \<longleftrightarrow> n = 65535"
    and "n < 65535 \<Longrightarrow> ((t + 1) mod 65536 + 65536 - h) mod 65536 = n + 1"
    and "0 < n \<Longrightarrow> (t + 65536 - (h + 1) mod 65536) mod 65536 = n - 1"
    and "i < n \<Longrightarrow> (h + i) mod 65536 \<noteq> t"
proof -
  have t': "(t + 1) mod 65536 = (if t = 65535 then 0 else t + 1)" "(t + 1) mod 65536 < 65536"
    and h': "(h + 1) mod 65536 = (if h = 65535 then 0 else h + 1)" "(h + 1) mod 65536 < 65536"
    using assms(1,2) by (auto simp: mod_if)
  note n = ring_dist [OF assms(1,2), folded n_def]
  show lt: "n < 65536" "h = t \<longleftrightarrow> n = 0" using n assms(1,2) by auto
  show "(h + n) mod 65536 = t" using n assms(1,2) by (auto simp: mod_if)
  show "(t + 1) mod 65536 = h \<longleftrightarrow> n = 65535" using n assms(1,2) t' by auto
  show "n < 65535 \<Longrightarrow> ((t + 1) mod 65536 + 65536 - h) mod 65536 = n + 1"
    unfolding ring_dist [OF assms(1) t'(2)] unfolding t'(1) using n assms(1,2) by auto
  show "0 < n \<Longrightarrow> (t + 65536 - (h + 1) mod 65536) mod 65536 = n - 1"
    unfolding ring_dist [OF h'(2) assms(2)] unfolding h'(1) using n assms(1,2) by auto
  show "i < n \<Longrightarrow> (h + i) mod 65536 \<noteq> t"
    using n lt assms(1,2) by (auto simp: mod_if split: if_splits)
qed

lemma queue_empty: "queue_ok q \<Longrightarrow> queue_head q = queue_tail q \<longleftrightarrow> queued q = []"
  using nat_ring(3) [of "unat (queue_head q)" "unat (queue_tail q)"]
  by (auto simp: queue_ok_def queued_def fill_def word_unat_eq_iff)

lemma length_queued [simp]: "length (queued q) = fill q"
  by (simp add: queued_def)

lemma queued_flag [simp]: "queued (q\<lparr>has_new_pid := b\<rparr>) = queued q"
  by (simp add: queued_def fill_def)

lemma queued_if: "queued (if c then q\<lparr>has_new_pid := b\<rparr> else q) = queued q"
  by simp

lemma enqueue_room:
  assumes ok: "queue_ok q" and room: "fill q < 65535"
  shows "fst (agnocast_enqueue_exit_pid p q)" "queue_ok (snd (agnocast_enqueue_exit_pid p q))"
    "queued (snd (agnocast_enqueue_exit_pid p q)) = queued q @ [p]"
proof -
  let ?h = "unat (queue_head q)" and ?t = "unat (queue_tail q)"
  let ?q = "q\<lparr>exit_pid_queue := (exit_pid_queue q)(?t := p), queue_tail := (queue_tail q + 1) AND EXIT_QUEUE_MASK,
      has_new_pid := True\<rparr>"
  have b: "?h < 65536" "?t < 65536" using ok by (auto simp: queue_ok_def)
  note R = nat_ring [OF b, folded fill_def]
  have t': "unat ((queue_tail q + 1) AND EXIT_QUEUE_MASK) = (?t + 1) mod 65536" using unat_next [OF b(2)] .
  then have ne: "(queue_tail q + 1) AND EXIT_QUEUE_MASK \<noteq> queue_head q" using R(4) room by auto
  then have e: "agnocast_enqueue_exit_pid p q = (True, ?q)" by (simp add: agnocast_enqueue_exit_pid_def)
  have "fill ?q = fill q + 1" using R(5) [OF room] t' by (simp add: fill_def)
  moreover have "(?h + i) mod 65536 \<noteq> ?t" if "i < fill q" for i
    using nat_ring(7) [OF b] that unfolding fill_def by blast
  ultimately have "queued ?q = queued q @ [p]" using R(1) by (simp add: queued_def)
  then show "fst (agnocast_enqueue_exit_pid p q)" "queue_ok (snd (agnocast_enqueue_exit_pid p q))"
    "queued (snd (agnocast_enqueue_exit_pid p q)) = queued q @ [p]"
    using b t' ne by (auto simp: e queue_ok_def)
qed

lemma enqueue_full:
  assumes ok: "queue_ok q" and full: "\<not> fill q < 65535"
  shows "agnocast_enqueue_exit_pid p q = (False, q)"
proof -
  have b: "unat (queue_head q) < 65536" "unat (queue_tail q) < 65536" using ok by (auto simp: queue_ok_def)
  have "fill q = 65535" using nat_ring(2) [OF b] full by (simp add: fill_def)
  then have "unat ((queue_tail q + 1) AND EXIT_QUEUE_MASK) = unat (queue_head q)"
    using nat_ring(4) [OF b] unat_next [OF b(2)] by (simp add: fill_def)
  then show ?thesis by (simp add: agnocast_enqueue_exit_pid_def word_unat_eq_iff)
qed

lemma take_some:
  assumes ok: "queue_ok q" and pids: "queued q = p # ps"
  shows "fst (exit_worker_take q) = Some p" "queue_ok (snd (exit_worker_take q))"
    "queued (snd (exit_worker_take q)) = ps"
proof -
  let ?h = "unat (queue_head q)" and ?t = "unat (queue_tail q)"
  let ?q = "q\<lparr>queue_head := (queue_head q + 1) AND EXIT_QUEUE_MASK\<rparr>"
  have b: "?h < 65536" "?t < 65536" using ok by (auto simp: queue_ok_def)
  have n: "0 < fill q" "fill q = Suc (length ps)" using arg_cong [OF pids, of length] by simp_all
  have ne: "queue_head q \<noteq> queue_tail q" using queue_empty [OF ok] pids by simp
  have h': "unat (queue_head ?q) = (?h + 1) mod 65536" using unat_next [OF b(1)] by simp
  have f: "fill ?q = length ps" using nat_ring(6) [OF b] n h' by (simp add: fill_def)
  have hd: "p = exit_pid_queue q ?h"
    using arg_cong [OF pids, of "\<lambda>xs. xs ! 0"] n b(1) by (simp add: queued_def del: upt_Suc)
  have "ps = map (\<lambda>i. exit_pid_queue q ((?h + i) mod 65536)) (map Suc [0..<length ps])"
    using arg_cong [OF pids, of tl] n by (simp add: queued_def map_tl [symmetric] map_Suc_upt tl_upt del: upt_Suc)
  then have tl: "queued ?q = ps" using h' f by (simp add: queued_def mod_simps comp_def)
  have u: "exit_worker_take q = (Some p,
      if queue_head ?q = queue_tail ?q then ?q\<lparr>has_new_pid := False\<rparr> else ?q)"
    using ne hd by (simp add: exit_worker_take_def Let_def)
  show "fst (exit_worker_take q) = Some p" by (simp add: u)
  show "queued (snd (exit_worker_take q)) = ps" using tl by (simp only: u snd_conv queued_if)
  show "queue_ok (snd (exit_worker_take q))" using ok b h' ne by (auto simp: u queue_ok_def)
qed

lemma take_none:
  assumes ok: "queue_ok q" and "queued q = []"
  shows "exit_worker_take q = (None, q)"
  using assms queue_empty [OF ok] by (simp add: exit_worker_take_def Let_def queue_ok_def)

interpretation eq: bounded_fifo queue_ok queued 65535 agnocast_enqueue_exit_pid exit_worker_take
proof
  fix q p assume q: "queue_ok q"
  show "queue_ok (snd (agnocast_enqueue_exit_pid p q))"
    using enqueue_room [OF q] enqueue_full [OF q] q by (cases "fill q < 65535") simp_all
  show "queue_ok (snd (exit_worker_take q))"
    using take_some(2) [OF q] take_none [OF q] q by (cases "queued q") simp_all
qed (simp_all add: enqueue_room enqueue_full take_some take_none)

section \<open>Draining\<close>

lemma drain_returns:
  "queue_ok q \<Longrightarrow> \<exists>q'. exit_worker_drain q k = Some (q', fold agnocast_process_exit_cleanup (queued q) k) \<and>
     queue_ok q' \<and> queued q' = []"
proof (induction "queued q" arbitrary: q k)
  case Nil
  then show ?case by (subst exit_worker_drain.simps) (simp add: take_none)
next
  case (Cons p ps)
  note T = take_some [OF Cons.prems Cons.hyps(2) [symmetric]]
  have "exit_worker_take q = (Some p, snd (exit_worker_take q))" using T(1) by (metis prod.collapse)
  then have "exit_worker_drain q k = exit_worker_drain (snd (exit_worker_take q)) (agnocast_process_exit_cleanup p k)"
    by (subst exit_worker_drain.simps) (metis (no_types, lifting) old.prod.case option.simps(5))
  then show ?case
    using Cons.hyps(1) [OF T(3) [symmetric] T(2), of "agnocast_process_exit_cleanup p k"] T(3)
    by (simp add: Cons.hyps(2) [symmetric])
qed

lemma init_queue_ok: "queue_ok init_exit_queue" "queued init_exit_queue = []"
  by (simp_all add: queue_ok_def init_exit_queue_def queued_def fill_def)

text \<open>Claim C27. Up to 65535 pids that the tracepoint enqueues into the freshly loaded module's queue
  are all kept, the worker takes them in the order they were enqueued, its drain loop
  returns, and the state it leaves is the one in which each of the exits was cleaned up once, in
  that order; the wake-up flag is down afterwards, so no wake-up is lost.\<close>

theorem exits_cleaned_in_order:
  assumes "length ps \<le> 65535"
  shows "\<exists>q'. exit_worker_drain (fold (\<lambda>p. snd \<circ> agnocast_enqueue_exit_pid p) ps init_exit_queue) k =
      Some (q', fold agnocast_process_exit_cleanup ps k) \<and> queued q' = [] \<and> \<not> has_new_pid q'"
proof -
  let ?q = "fold (\<lambda>p. snd \<circ> agnocast_enqueue_exit_pid p) ps init_exit_queue"
  have q: "queue_ok ?q" "queued ?q = ps"
    using eq.enq_list [OF init_queue_ok(1), of ps] assms init_queue_ok(2) by simp_all
  obtain q' where q': "exit_worker_drain ?q k = Some (q', fold agnocast_process_exit_cleanup (queued ?q) k)"
    "queue_ok q'" "queued q' = []" using drain_returns [OF q(1)] by blast
  then have "\<not> has_new_pid q'" using queue_empty [OF q'(2)] by (simp add: queue_ok_def)
  then show ?thesis using q' q(2) by auto
qed

theorem exits_cleaned_in_order_witness:
  "\<exists>q'. exit_worker_drain (snd (agnocast_enqueue_exit_pid 20 (snd (agnocast_enqueue_exit_pid 10 init_exit_queue))))
      demo_recv =
    Some (q', agnocast_process_exit_cleanup 20 (agnocast_process_exit_cleanup 10 demo_recv)) \<and> queued q' = [] \<and>
    \<not> has_new_pid q'"
  using exits_cleaned_in_order [of "[10, 20]" demo_recv] by simp

text \<open>The ring buffer refines a queue bounded by 65535: an enqueue is refused exactly when
  that many pids are waiting, and then changes nothing; otherwise it appends the pid. In both
  cases the worker's wake-up flag is up exactly when a pid is waiting.\<close>

theorem exit_queue_refines:
  assumes "queue_ok q"
  shows "agnocast_enqueue_exit_pid p q = (False, q) \<and> length (queued q) = 65535 \<or>
    (\<exists>q'. agnocast_enqueue_exit_pid p q = (True, q') \<and> queue_ok q' \<and> queued q' = queued q @ [p] \<and>
       length (queued q) < 65535 \<and> has_new_pid q')"
proof (cases "fill q < 65535")
  case True
  have "agnocast_enqueue_exit_pid p q = (True, snd (agnocast_enqueue_exit_pid p q))"
    using enqueue_room(1) [OF assms True, of p] by (metis (full_types) prod.collapse)
  moreover have "has_new_pid (snd (agnocast_enqueue_exit_pid p q))"
    using queue_empty [OF enqueue_room(2) [OF assms True, of p]] enqueue_room [OF assms True, of p]
    by (auto simp: queue_ok_def)
  ultimately show ?thesis using enqueue_room(2,3) [OF assms True, of p] True by (metis length_queued)
next
  case False
  have "fill q < 65536" by (simp add: fill_def)
  then show ?thesis using enqueue_full [OF assms False] False by simp
qed

theorem exit_queue_refines_witness:
  "\<exists>q'. agnocast_enqueue_exit_pid 7 init_exit_queue = (True, q') \<and> queued q' = [7]"
  using exit_queue_refines [OF init_queue_ok(1), of 7] init_queue_ok(2) by auto

section \<open>Unloading frees every topic\<close>

text \<open>Releasing a wrapper keeps what the teardown needs: the remaining wrappers point to live
  topics and the counters agree with them.\<close>

definition counted :: "kstate \<Rightarrow> bool" where
  "counted k \<longleftrightarrow> (\<forall>w\<in>set (topic_hashtable k). topics k (wr_topic w) \<noteq> None) \<and>
     (\<forall>a t. topics k a = Some t \<longrightarrow> wrapper_refcnt t = refs_to a (topic_hashtable k) \<and> 0 < refs_to a (topic_hashtable k))"

lemma kinv_counted: "kinv k \<Longrightarrow> counted k"
  using kinvD(1,2) [of k] by (auto simp: counted_def wrappers_ok_def topics_ok_def topic_ok_def)

lemma refs_to_Cons [simp]: "refs_to a (w # ws) = (if wr_topic w = a then 1 else 0) + refs_to a ws"
  by (simp add: refs_to_def)

lemma release_counted:
  assumes c: "counted k" and ws: "topic_hashtable k = w # ws"
  shows "counted (agnocast_release_topic_wrapper w k)" and "topic_hashtable (agnocast_release_topic_wrapper w k) = ws"
proof -
  obtain t where t: "topics k (wr_topic w) = Some t" using c ws by (auto simp: counted_def)
  have n: "wrapper_refcnt t = Suc (refs_to (wr_topic w) ws)" using c t ws by (auto simp: counted_def)
  have live: "topics k (wr_topic w') \<noteq> None" if "w' \<in> set ws" for w' using c ws that by (auto simp: counted_def)
  have used: "0 < refs_to (wr_topic w') ws" if "w' \<in> set ws" for w' using that by (auto simp: refs_to_def filter_empty_conv)
  have others: "wrapper_refcnt t' = refs_to a ws \<and> 0 < refs_to a ws"
    if "topics k a = Some t'" "a \<noteq> wr_topic w" for a t'
  proof -
    have "refs_to a (w # ws) = refs_to a ws" using that(2) by simp
    then show ?thesis using c ws that(1) unfolding counted_def by metis
  qed
  show "topic_hashtable (agnocast_release_topic_wrapper w k) = ws"
    by (simp add: agnocast_release_topic_wrapper_def Let_def ws)
  show "counted (agnocast_release_topic_wrapper w k)"
  proof (cases "refs_to (wr_topic w) ws = 0")
    case True
    then have "wr_topic w' \<noteq> wr_topic w" if "w' \<in> set ws" for w' using used [OF that] by auto
    then show ?thesis using True n t live others
      by (auto simp: agnocast_release_topic_wrapper_def Let_def ws topic_of_def counted_def)
  next
    case False
    then show ?thesis using n t live others
      by (auto simp: agnocast_release_topic_wrapper_def Let_def ws topic_of_def counted_def set_topic_def)
  qed
qed

lemma release_all:
  "counted k \<Longrightarrow> counted (fold agnocast_release_topic_wrapper (topic_hashtable k) k) \<and>
     topic_hashtable (fold agnocast_release_topic_wrapper (topic_hashtable k) k) = []"
proof (induction "topic_hashtable k" arbitrary: k)
  case (Cons w ws)
  note R = release_counted [OF Cons.prems Cons.hyps(2) [symmetric]]
  show ?case using Cons.hyps(1) [OF R(2) [symmetric] R(1)] R(2) by (simp add: Cons.hyps(2) [symmetric])
qed simp

text \<open>Unloading the module from any reachable state frees every topic: after the wrappers
  have been released one by one no topic is left, although topics of bridged domains are shared,
  and every table is empty.\<close>

theorem unload_frees_everything:
  assumes "reachable env k"
  shows "topics (agnocast_exit_free_data k) = Map.empty \<and> topic_hashtable (agnocast_exit_free_data k) = [] \<and>
    proc_info_htable (agnocast_exit_free_data k) = [] \<and> bridge_htable (agnocast_exit_free_data k) = [] \<and>
    domain_rule_htable (agnocast_exit_free_data k) = [] \<and> discovery_agent_htable (agnocast_exit_free_data k) = []"
proof -
  have R: "counted (remove_all_topics k)" "topic_hashtable (remove_all_topics k) = []"
    using release_all [OF kinv_counted [OF reachable_kinv [OF assms]]] by (auto simp: remove_all_topics_def)
  then have "topics (remove_all_topics k) a = None" for a
    by (cases "topics (remove_all_topics k) a") (auto simp: counted_def refs_to_def)
  then show ?thesis using R(2) by (auto simp: agnocast_exit_free_data_def)
qed

theorem unload_frees_everything_witness: "topics (agnocast_exit_free_data demo_recv) = Map.empty"
  using unload_frees_everything [OF demo_recv_reachable] by blast

text \<open>Loading is all or nothing: when one of its steps fails the module holds no
  resource, when all succeed it holds all four, and unloading gives them all back.\<close>

theorem load_all_or_nothing:
  "case agnocast_init dev kt hook mem of
     (Inl _, held) \<Rightarrow> held = []
   | (Inr _, held) \<Rightarrow> held = [Mempools, Exit_Hook, Kthread, Device] \<and> agnocast_exit held = []"
  by (cases dev; cases kt; cases hook; cases mem) (simp_all add: agnocast_init_def agnocast_exit_def Let_def)

end
