(* ===== verification/Kmod_Queries.thy ===== *)
theory Kmod_Queries
  imports Kmod_Scenario
begin

text \<open>
  The read-only ioctls of \<open>agnocast_ioctl.c\<close>: endpoint counts, topic lists, endpoint descriptions,
  QoS, and the list of node names with its open-addressing table of the nodes already seen.

  The probe loop of that table has no bound of its own. It is a partial function here, and the
  lemmas show that it returns because the table always has a free slot, and that the table
  implements a set: \<open>node_set\<close> is that contract, and the list of node names is what the contract
  gives for the fold over the endpoints.
\<close>

unbundle bit_operations_syntax

section \<open>Counting endpoints\<close>

record subscriber_num_ret =
  ret_other_process_subscriber_num :: nat
  ret_same_process_subscriber_num :: nat
  ret_ros2_subscriber_num :: nat
  ret_other_domain_subscriber_num :: nat
  sn_a2r_bridge_exist :: bool
  sn_r2a_bridge_exist :: bool

definition no_subscriber_num :: subscriber_num_ret where
  "no_subscriber_num =
     \<lparr>ret_other_process_subscriber_num = 0, ret_same_process_subscriber_num = 0, ret_ros2_subscriber_num = 0,
      ret_other_domain_subscriber_num = 0, sn_a2r_bridge_exist = False, sn_r2a_bridge_exist = False\<rparr>"

text \<open>The loop over the subscribers of the shared topic, wrapper's domain \<open>dm\<close>, caller \<open>p\<close>.\<close>

fun count_subscribers ::
  "domain_bridge_rule option \<Rightarrow> domain \<Rightarrow> pid \<Rightarrow> subscriber_info list \<Rightarrow> subscriber_num_ret \<Rightarrow> subscriber_num_ret" where
  "count_subscribers r dm p [] acc = acc"
| "count_subscribers r dm p (s # ss) acc =
     (if sub_domain_id s \<noteq> dm then
        (if domain_delivery_allowed r dm False (sub_domain_id s) (sub_is_bridge s)
         then count_subscribers r dm p ss
                (acc\<lparr>ret_other_domain_subscriber_num := ret_other_domain_subscriber_num acc + 1\<rparr>)
         else count_subscribers r dm p ss acc)
      else
        let acc1 = (if sub_is_bridge s then acc\<lparr>sn_a2r_bridge_exist := True\<rparr> else acc)
        in count_subscribers r dm p ss
             (if sub_pid s = p
              then acc1\<lparr>ret_same_process_subscriber_num := ret_same_process_subscriber_num acc1 + 1\<rparr>
              else acc1\<lparr>ret_other_process_subscriber_num := ret_other_process_subscriber_num acc1 + 1\<rparr>))"

definition agnocast_ioctl_get_subscriber_num ::
  "pid \<Rightarrow> string \<Rightarrow> ipc_ns \<Rightarrow> kstate \<Rightarrow> subscriber_num_ret" where
  "agnocast_ioctl_get_subscriber_num p name ns k =
     (case find_topic_for_current p name ns k of
        None \<Rightarrow> no_subscriber_num
      | Some w \<Rightarrow>
          (let t = topic_of k w;
               c = count_subscribers (rule_of k t) (wr_domain_id w) p (sub_info_htable t) no_subscriber_num
           in c\<lparr>sn_r2a_bridge_exist := (\<exists>q\<in>set (pub_info_htable t). pub_is_bridge q),
                ret_ros2_subscriber_num := ros2_subscriber_num t\<rparr>))"

record publisher_num_ret =
  ret_publisher_num :: nat
  ret_ros2_publisher_num :: nat
  pn_r2a_bridge_exist :: bool
  pn_a2r_bridge_exist :: bool

definition agnocast_ioctl_get_publisher_num :: "pid \<Rightarrow> string \<Rightarrow> ipc_ns \<Rightarrow> kstate \<Rightarrow> publisher_num_ret" where
  "agnocast_ioctl_get_publisher_num p name ns k =
     (case find_topic_for_current p name ns k of
        None \<Rightarrow> \<lparr>ret_publisher_num = 0, ret_ros2_publisher_num = 0, pn_r2a_bridge_exist = False,
                  pn_a2r_bridge_exist = False\<rparr>
      | Some w \<Rightarrow>
          (let t = topic_of k w;
               own = filter (\<lambda>q. pub_domain_id q = wr_domain_id w) (pub_info_htable t)
           in \<lparr>ret_publisher_num = length own, ret_ros2_publisher_num = ros2_publisher_num t,
               pn_r2a_bridge_exist = (\<exists>q\<in>set own. pub_is_bridge q),
               pn_a2r_bridge_exist = (\<exists>s\<in>set (sub_info_htable t). sub_is_bridge s)\<rparr>))"

section \<open>Lists of topics\<close>

definition TOPIC_NAME_BUFFER_SIZE :: nat where "TOPIC_NAME_BUFFER_SIZE = 256"
definition NODE_NAME_BUFFER_SIZE :: nat where "NODE_NAME_BUFFER_SIZE = 256"
definition MAX_TOPIC_NUM :: nat where "MAX_TOPIC_NUM = 2048"
definition MAX_NODE_NUM :: nat where "MAX_NODE_NUM = 1024"

text \<open>\<open>strscpy\<close> into a buffer of \<open>n\<close> bytes keeps room for the terminator.\<close>

definition strscpy :: "nat \<Rightarrow> string \<Rightarrow> string" where
  "strscpy n s = take (n - 1) s"

definition is_service_response_topic :: "string \<Rightarrow> bool" where
  "is_service_response_topic name = starts_with ''/AGNOCAST_SRV_RESPONSE'' name"

fun list_topics :: "(topic_wrapper \<Rightarrow> bool) \<Rightarrow> nat \<Rightarrow> nat \<Rightarrow> topic_wrapper list \<Rightarrow> (string \<times> domain) list res" where
  "list_topics P cap num [] = Inr []"
| "list_topics P cap num (w # ws) =
     (if \<not> P w then list_topics P cap num ws
      else if num \<ge> cap then Inl ENOBUFS
      else case list_topics P cap (num + 1) ws of
        Inl e \<Rightarrow> Inl e
      | Inr ts \<Rightarrow> Inr ((strscpy TOPIC_NAME_BUFFER_SIZE (wr_key w), wr_domain_id w) # ts))"

text \<open>The command wrappers clamp the buffer size of the caller to \<open>MAX_TOPIC_NUM\<close>.\<close>

definition agnocast_ioctl_get_topic_list :: "ipc_ns \<Rightarrow> nat \<Rightarrow> kstate \<Rightarrow> (string \<times> domain) list res" where
  "agnocast_ioctl_get_topic_list ns cap k =
     list_topics (\<lambda>w. wr_ipc_ns w = ns \<and> \<not> is_service_response_topic (wr_key w)) cap 0 (topic_hashtable k)"

text \<open>The copies between user space and the kernel may fail: that of the arguments (\<open>readable\<close>), of the names, of the
  domain ids, unless the caller passed no buffer for them (\<open>doms = None\<close>), and of the result (\<open>written\<close>).\<close>

definition get_topic_list_cmd ::
  "ipc_ns \<Rightarrow> nat \<Rightarrow> allocs \<Rightarrow> bool \<Rightarrow> bool \<Rightarrow> bool option \<Rightarrow> bool \<Rightarrow> kstate \<Rightarrow> (string \<times> domain) list res" where
  "get_topic_list_cmd ns sz al readable names doms written k =
     (if \<not> readable then Inl EFAULT
      else case kmalloc al of (ok, al') \<Rightarrow>
        if \<not> ok then Inl ENOMEM
        else case agnocast_ioctl_get_topic_list ns (min sz MAX_TOPIC_NUM) k of
          Inl e \<Rightarrow> Inl e
        | Inr ts \<Rightarrow> if \<not> names then Inl EFAULT
                   else if doms = Some False then Inl EFAULT
                   else if \<not> written then Inl EFAULT
                   else Inr ts)"

definition agnocast_ioctl_get_node_subscriber_topics :: "ipc_ns \<Rightarrow> string \<Rightarrow> nat \<Rightarrow> kstate \<Rightarrow> string list res" where
  "agnocast_ioctl_get_node_subscriber_topics ns node cap k =
     map_sum id (map fst) (list_topics
       (\<lambda>w. wr_ipc_ns w = ns \<and> (\<exists>s\<in>set (sub_info_htable (topic_of k w)). sub_node_name s = node)) cap 0 (topic_hashtable k))"

definition agnocast_ioctl_get_node_publisher_topics :: "ipc_ns \<Rightarrow> string \<Rightarrow> nat \<Rightarrow> kstate \<Rightarrow> string list res" where
  "agnocast_ioctl_get_node_publisher_topics ns node cap k =
     map_sum id (map fst) (list_topics
       (\<lambda>w. wr_ipc_ns w = ns \<and> (\<exists>q\<in>set (pub_info_htable (topic_of k w)). pub_node_name q = node)) cap 0 (topic_hashtable k))"

section \<open>Descriptions of endpoints\<close>

record topic_info_ret =
  ti_node_name :: string
  ti_qos_depth :: nat
  ti_qos_is_transient_local :: bool
  ti_qos_is_reliable :: bool
  ti_is_bridge :: bool

text \<open>\<open>copied\<close> is the outcome of the copy to user space.\<close>

definition agnocast_ioctl_get_topic_subscriber_info ::
  "string \<Rightarrow> ipc_ns \<Rightarrow> domain \<Rightarrow> nat \<Rightarrow> allocs \<Rightarrow> bool \<Rightarrow> kstate \<Rightarrow> topic_info_ret list res" where
  "agnocast_ioctl_get_topic_subscriber_info name ns dm cap al copied k =
     (case find_topic name ns dm k of
        None \<Rightarrow> Inr []
      | Some w \<Rightarrow>
          (let subs = filter (\<lambda>s. sub_domain_id s = wr_domain_id w) (sub_info_htable (topic_of k w)) in
           if length subs > cap then Inl ENOBUFS
           else if 0 < length subs \<and> \<not> fst (kmalloc al) then Inl ENOMEM
           else if 0 < length subs \<and> \<not> copied then Inl EFAULT
           else Inr (map (\<lambda>s. \<lparr>ti_node_name = strscpy NODE_NAME_BUFFER_SIZE (sub_node_name s),
                               ti_qos_depth = sub_qos_depth s,
                               ti_qos_is_transient_local = sub_qos_is_transient_local s,
                               ti_qos_is_reliable = sub_qos_is_reliable s,
                               ti_is_bridge = sub_is_bridge s\<rparr>) subs)))"

definition agnocast_ioctl_get_topic_publisher_info ::
  "string \<Rightarrow> ipc_ns \<Rightarrow> domain \<Rightarrow> nat \<Rightarrow> allocs \<Rightarrow> bool \<Rightarrow> kstate \<Rightarrow> topic_info_ret list res" where
  "agnocast_ioctl_get_topic_publisher_info name ns dm cap al copied k =
     (case find_topic name ns dm k of
        None \<Rightarrow> Inr []
      | Some w \<Rightarrow>
          (let pubs = filter (\<lambda>q. pub_domain_id q = wr_domain_id w) (pub_info_htable (topic_of k w)) in
           if length pubs > cap then Inl ENOBUFS
           else if 0 < length pubs \<and> \<not> fst (kmalloc al) then Inl ENOMEM
           else if 0 < length pubs \<and> \<not> copied then Inl EFAULT
           else Inr (map (\<lambda>q. \<lparr>ti_node_name = strscpy NODE_NAME_BUFFER_SIZE (pub_node_name q),
                               ti_qos_depth = pub_qos_depth q,
                               ti_qos_is_transient_local = pub_qos_is_transient_local q,
                               ti_qos_is_reliable = False, ti_is_bridge = pub_is_bridge q\<rparr>) pubs)))"

definition agnocast_ioctl_get_subscriber_qos :: "pid \<Rightarrow> string \<Rightarrow> ipc_ns \<Rightarrow> int \<Rightarrow> kstate \<Rightarrow> (nat \<times> bool \<times> bool) res" where
  "agnocast_ioctl_get_subscriber_qos cur name ns sid k =
     (case find_topic_for_current cur name ns k of
        None \<Rightarrow> Inl EINVAL
      | Some w \<Rightarrow>
          (case find_subscriber_info sid (topic_of k w) of
             None \<Rightarrow> Inl EINVAL
           | Some s \<Rightarrow> Inr (sub_qos_depth s, sub_qos_is_transient_local s, sub_qos_is_reliable s)))"

definition agnocast_ioctl_get_publisher_qos :: "pid \<Rightarrow> string \<Rightarrow> ipc_ns \<Rightarrow> int \<Rightarrow> kstate \<Rightarrow> (nat \<times> bool) res" where
  "agnocast_ioctl_get_publisher_qos cur name ns i k =
     (case find_topic_for_current cur name ns k of
        None \<Rightarrow> Inl EINVAL
      | Some w \<Rightarrow>
          (case find_publisher_info i (topic_of k w) of
             None \<Rightarrow> Inl EINVAL
           | Some q \<Rightarrow> Inr (pub_qos_depth q, pub_qos_is_transient_local q)))"

section \<open>Node names\<close>

definition NODE_NAME_SLOT_BITS :: nat where "NODE_NAME_SLOT_BITS = 11"
definition NODE_NAME_SLOT_NUM :: "32 word" where "NODE_NAME_SLOT_NUM = push_bit NODE_NAME_SLOT_BITS 1"

text \<open>A slot with pid 0 is free; \<open>col_names\<close> is the filled part of the name buffer, so its length is
  the counter \<open>num\<close>.\<close>

record collected_node =
  name_index :: nat
  cn_pid :: pid

record node_name_collector =
  slots :: "nat \<Rightarrow> collected_node"
  col_names :: "string list"
  capacity :: nat

text \<open>The probe loop: \<open>None\<close> when the node is already there, else the free slot.\<close>

partial_function (option) probe_slot ::
  "node_name_collector \<Rightarrow> string \<Rightarrow> pid \<Rightarrow> 32 word \<Rightarrow> (32 word) option option" where
  "probe_slot col name p idx =
     (if cn_pid (slots col (unat idx)) = 0 then Some (Some idx)
      else if cn_pid (slots col (unat idx)) = p \<and> col_names col ! name_index (slots col (unat idx)) = name
      then Some None
      else probe_slot col name p ((idx + 1) AND (NODE_NAME_SLOT_NUM - 1)))"

definition add_unique_node ::
  "(string \<Rightarrow> 32 word) \<Rightarrow> string \<Rightarrow> pid \<Rightarrow> node_name_collector \<Rightarrow> (node_name_collector res) option" where
  "add_unique_node full_name_hash name p col =
     (case probe_slot col name p (full_name_hash name AND (NODE_NAME_SLOT_NUM - 1)) of
        None \<Rightarrow> None
      | Some None \<Rightarrow> Some (Inr col)
      | Some (Some idx) \<Rightarrow>
          if length (col_names col) \<ge> capacity col then Some (Inl ENOBUFS)
          else Some (Inr (col\<lparr>slots := (slots col)(unat idx := \<lparr>name_index = length (col_names col), cn_pid = p\<rparr>),
                              col_names := col_names col @ [name]\<rparr>)))"

text \<open>The nodes of one topic in the order of the two loops, and of all topics of the caller's
  domain; collecting stops at the first error.\<close>

definition nodes_of_topic :: "process_info list \<Rightarrow> domain \<Rightarrow> topic_struct \<Rightarrow> (string \<times> pid) list" where
  "nodes_of_topic procs dm t =
     map (\<lambda>q. (pub_node_name q, pub_pid q))
       (filter (\<lambda>q. \<not> (pub_domain_id q \<noteq> dm \<or> pub_is_bridge q) \<and> owner_is_alive procs (pub_pid q)) (pub_info_htable t)) @
     map (\<lambda>s. (sub_node_name s, sub_pid s))
       (filter (\<lambda>s. \<not> (sub_domain_id s \<noteq> dm \<or> sub_is_bridge s) \<and> owner_is_alive procs (sub_pid s)) (sub_info_htable t))"

fun collect_nodes ::
  "(string \<Rightarrow> 32 word) \<Rightarrow> (string \<times> pid) list \<Rightarrow> node_name_collector \<Rightarrow> (node_name_collector res) option" where
  "collect_nodes h [] col = Some (Inr col)"
| "collect_nodes h ((name, p) # ns) col =
     (case add_unique_node h name p col of
        None \<Rightarrow> None
      | Some (Inl e) \<Rightarrow> Some (Inl e)
      | Some (Inr col') \<Rightarrow> collect_nodes h ns col')"

definition collect_node_names_of_topic ::
  "(string \<Rightarrow> 32 word) \<Rightarrow> process_info list \<Rightarrow> domain \<Rightarrow> topic_struct \<Rightarrow> node_name_collector \<Rightarrow>
   (node_name_collector res) option" where
  "collect_node_names_of_topic h procs dm t col = collect_nodes h (nodes_of_topic procs dm t) col"

fun collect_topics ::
  "(string \<Rightarrow> 32 word) \<Rightarrow> process_info list \<Rightarrow> domain \<Rightarrow> topic_struct list \<Rightarrow> node_name_collector \<Rightarrow>
   (node_name_collector res) option" where
  "collect_topics h procs dm [] col = Some (Inr col)"
| "collect_topics h procs dm (t # ts) col =
     (case collect_node_names_of_topic h procs dm t col of
        None \<Rightarrow> None
      | Some (Inl e) \<Rightarrow> Some (Inl e)
      | Some (Inr col') \<Rightarrow> collect_topics h procs dm ts col')"

definition init_collector :: "nat \<Rightarrow> node_name_collector" where
  "init_collector cap = \<lparr>slots = (\<lambda>_. \<lparr>name_index = 0, cn_pid = 0\<rparr>), col_names = [], capacity = cap\<rparr>"

definition topics_of_domain :: "ipc_ns \<Rightarrow> domain \<Rightarrow> kstate \<Rightarrow> topic_struct list" where
  "topics_of_domain ns dm k =
     map (topic_of k) (filter (\<lambda>w. \<not> (wr_ipc_ns w \<noteq> ns \<or> wr_domain_id w \<noteq> dm)) (topic_hashtable k))"

text \<open>The outer \<open>None\<close> is a call that does not return.\<close>

definition agnocast_ioctl_get_node_names ::
  "(string \<Rightarrow> 32 word) \<Rightarrow> ipc_ns \<Rightarrow> pid \<Rightarrow> nat \<Rightarrow> allocs \<Rightarrow> kstate \<Rightarrow> (string list res) option" where
  "agnocast_ioctl_get_node_names h ns p cap al k =
     (if cap > MAX_NODE_NUM then Some (Inl EINVAL)
      else if \<not> fst (kmalloc al) then Some (Inl ENOMEM)
      else
        let dm = get_process_domain_id p k in
        case collect_topics h (proc_info_htable k) dm (topics_of_domain ns dm k) (init_collector cap) of
          None \<Rightarrow> None
        | Some (Inl e) \<Rightarrow> Some (Inl e)
        | Some (Inr col) \<Rightarrow> Some (Inr (col_names col)))"

definition get_node_names_cmd ::
  "(string \<Rightarrow> 32 word) \<Rightarrow> ipc_ns \<Rightarrow> pid \<Rightarrow> nat \<Rightarrow> allocs \<Rightarrow> kstate \<Rightarrow> (string list res) option" where
  "get_node_names_cmd h ns p sz al k =
     (case kmalloc al of (ok, al') \<Rightarrow>
        if \<not> ok then Some (Inl ENOMEM)
        else agnocast_ioctl_get_node_names h ns p (min sz MAX_NODE_NUM) al' k)"

section \<open>The contract of the table of nodes\<close>

text \<open>The nodes in the order they are first seen.\<close>

fun see :: "'a list \<Rightarrow> 'a list \<Rightarrow> 'a list" where
  "see acc [] = acc"
| "see acc (x # xs) = see (if x \<in> set acc then acc else acc @ [x]) xs"

lemma see_facts:
  "distinct acc \<Longrightarrow> distinct (see acc xs)" "set (see acc xs) = set acc \<union> set xs" "length acc \<le> length (see acc xs)"
  by (induction acc xs rule: see.induct) (auto split: if_splits)

lemma see_append: "see acc (xs @ ys) = see (see acc xs) ys"
  by (induction acc xs rule: see.induct) simp_all

text \<open>A bounded set: \<open>rep s xs\<close> says that \<open>s\<close> holds the elements of \<open>xs\<close>; an addition of a known
  element changes nothing, one beyond the bound fails, and each returns.\<close>

locale node_set =
  fixes rep :: "'s \<Rightarrow> 'a list \<Rightarrow> bool" and admissible :: "'a \<Rightarrow> bool" and cap :: nat
    and add :: "'a \<Rightarrow> 's \<Rightarrow> ('s res) option" and coll :: "'a list \<Rightarrow> 's \<Rightarrow> ('s res) option"
  assumes add_seen: "rep s xs \<Longrightarrow> admissible x \<Longrightarrow> x \<in> set xs \<Longrightarrow> add x s = Some (Inr s)"
    and add_new: "rep s xs \<Longrightarrow> admissible x \<Longrightarrow> x \<notin> set xs \<Longrightarrow> length xs < cap \<Longrightarrow>
          \<exists>s'. add x s = Some (Inr s') \<and> rep s' (xs @ [x])"
    and add_full: "rep s xs \<Longrightarrow> admissible x \<Longrightarrow> x \<notin> set xs \<Longrightarrow> \<not> length xs < cap \<Longrightarrow> add x s = Some (Inl ENOBUFS)"
    and coll_nil: "coll [] s = Some (Inr s)"
    and coll_cons: "coll (x # xs) s =
          (case add x s of None \<Rightarrow> None | Some (Inl e) \<Rightarrow> Some (Inl e) | Some (Inr s') \<Rightarrow> coll xs s')"
begin

lemma coll_see:
  assumes "rep s xs" and "length xs \<le> cap" and "\<forall>y\<in>set ys. admissible y"
  shows "length (see xs ys) \<le> cap \<Longrightarrow> \<exists>s'. coll ys s = Some (Inr s') \<and> rep s' (see xs ys)"
    and "\<not> length (see xs ys) \<le> cap \<Longrightarrow> coll ys s = Some (Inl ENOBUFS)"
  using assms
proof (induction ys arbitrary: s xs)
  case Nil
  { case 1 then show ?case by (simp add: coll_nil) }
  { case 2 then show ?case by simp }
next
  case (Cons y ys)
  { case 1
    show ?case
    proof (cases "y \<in> set xs")
      case True
      then show ?thesis using 1 Cons.IH(1) [of xs s] add_seen [of s xs y] by (simp add: coll_cons)
    next
      case False
      have "length xs < cap" using see_facts(3) [of "xs @ [y]" ys] 1 False by simp
      then obtain s' where "add y s = Some (Inr s')" "rep s' (xs @ [y])" using add_new [of s xs y] 1 False by auto
      then show ?thesis using 1 False Cons.IH(1) [of "xs @ [y]" s'] \<open>length xs < cap\<close> by (simp add: coll_cons)
    qed }
  { case 2
    show ?case
    proof (cases "y \<in> set xs")
      case True
      then show ?thesis using 2 Cons.IH(2) [of xs s] add_seen [of s xs y] by (simp add: coll_cons)
    next
      case False
      show ?thesis
      proof (cases "length xs < cap")
        case True
        then obtain s' where "add y s = Some (Inr s')" "rep s' (xs @ [y])" using add_new [of s xs y] 2 False by auto
        then show ?thesis using 2 False Cons.IH(2) [of "xs @ [y]" s'] True by (simp add: coll_cons)
      next
        case full: False
        then show ?thesis using 2 False add_full [of s xs y] by (simp add: coll_cons)
      qed
    qed }
qed

end

section \<open>The probe loop\<close>

lemma slot_mask: "NODE_NAME_SLOT_NUM - 1 = mask 11"
  by (simp add: NODE_NAME_SLOT_NUM_def NODE_NAME_SLOT_BITS_def mask_eq_exp_minus_1)

lemma unat_slot: "unat (x AND (NODE_NAME_SLOT_NUM - 1)) = unat x mod 2048"
  by (simp add: slot_mask unsigned_take_bit_eq flip: take_bit_eq_mask) (simp add: take_bit_eq_mod)

lemma unat_slot_next: "unat x < 2048 \<Longrightarrow> unat ((x + 1) AND (NODE_NAME_SLOT_NUM - 1)) = (unat x + 1) mod 2048"
  unfolding unat_slot by (simp add: unat_word_ariths)

definition busy :: "node_name_collector \<Rightarrow> nat \<Rightarrow> bool" where
  "busy col j \<longleftrightarrow> cn_pid (slots col j) \<noteq> 0"

definition holds_node :: "node_name_collector \<Rightarrow> string \<Rightarrow> pid \<Rightarrow> nat \<Rightarrow> bool" where
  "holds_node col name p j \<longleftrightarrow> cn_pid (slots col j) = p \<and> col_names col ! name_index (slots col j) = name"

lemma probe_from:
  assumes "unat idx = (h + d) mod 2048" and "d \<le> n" and "\<forall>e. d \<le> e \<and> e < n \<longrightarrow> busy col ((h + e) mod 2048)"
    and "\<not> busy col ((h + n) mod 2048)"
  shows "probe_slot col name p idx =
    Some (if \<exists>e. d \<le> e \<and> e < n \<and> holds_node col name p ((h + e) mod 2048) then None
          else Some (of_nat ((h + n) mod 2048)))"
  using assms
proof (induction "n - d" arbitrary: idx d)
  case 0
  then have "idx = of_nat ((h + n) mod 2048)" by (simp add: word_unat_eq_iff unat_of_nat)
  then show ?case using 0 unfolding probe_slot.simps [of col name p idx] by (simp add: busy_def)
next
  case (Suc m)
  have lt: "d < n" using Suc.hyps(2) by simp
  let ?j = "(h + d) mod 2048"
  have b: "busy col ?j" using Suc.prems(3) lt by simp
  have split: "(\<exists>e. d \<le> e \<and> e < n \<and> Q e) \<longleftrightarrow> Q d \<or> (\<exists>e. Suc d \<le> e \<and> e < n \<and> Q e)" for Q
  proof -
    have "d \<le> e \<longleftrightarrow> e = d \<or> Suc d \<le> e" for e by auto
    then show ?thesis using lt by auto
  qed
  have nxt: "unat ((idx + 1) AND (NODE_NAME_SLOT_NUM - 1)) = (h + Suc d) mod 2048"
    using unat_slot_next [of idx] Suc.prems(1) by (simp add: mod_simps)
  have "probe_slot col name p ((idx + 1) AND (NODE_NAME_SLOT_NUM - 1)) =
    Some (if \<exists>e. Suc d \<le> e \<and> e < n \<and> holds_node col name p ((h + e) mod 2048) then None
          else Some (of_nat ((h + n) mod 2048)))"
    by (rule Suc.hyps(1) [OF _ nxt]) (use Suc.hyps(2) lt Suc.prems in auto)
  then show ?case
    unfolding split probe_slot.simps [of col name p idx] using b Suc.prems(1)
    by (auto simp: busy_def holds_node_def)
qed

lemma probe_free:
  assumes "j < 2048" and "\<not> busy col j" and "h < 2048"
  obtains n where "\<forall>e<n. busy col ((h + e) mod 2048)" "\<not> busy col ((h + n) mod 2048)"
proof -
  have "(h + (j + 2048 - h)) mod 2048 = j" using assms by simp
  then have ex: "\<exists>n. \<not> busy col ((h + n) mod 2048)" using assms(2) by metis
  show thesis by (rule that [of "LEAST n. \<not> busy col ((h + n) mod 2048)"]) (use LeastI_ex [OF ex] not_less_Least in blast)+
qed

section \<open>The table implements the set\<close>

text \<open>\<open>chained\<close>: node \<open>i\<close> sits at a slot that probing from its hash reaches over busy slots.\<close>

definition chained :: "(string \<Rightarrow> 32 word) \<Rightarrow> node_name_collector \<Rightarrow> nat \<Rightarrow> string \<times> pid \<Rightarrow> bool" where
  "chained h col i x \<longleftrightarrow> (\<exists>d. slots col ((unat (h (fst x)) mod 2048 + d) mod 2048) = \<lparr>name_index = i, cn_pid = snd x\<rparr> \<and>
     (\<forall>e<d. busy col ((unat (h (fst x)) mod 2048 + e) mod 2048)))"

definition rep_nodes :: "(string \<Rightarrow> 32 word) \<Rightarrow> nat \<Rightarrow> node_name_collector \<Rightarrow> (string \<times> pid) list \<Rightarrow> bool" where
  "rep_nodes h cap col xs \<longleftrightarrow> capacity col = cap \<and> col_names col = map fst xs \<and> length xs \<le> cap \<and>
     (\<forall>x\<in>set xs. snd x \<noteq> 0) \<and> (\<forall>i<length xs. chained h col i (xs ! i)) \<and>
     card {j. j < 2048 \<and> busy col j} \<le> length xs \<and>
     (\<forall>j<2048. busy col j \<longrightarrow> name_index (slots col j) < length xs \<and>
        cn_pid (slots col j) = snd (xs ! name_index (slots col j)))"

lemma rep_free_slot:
  assumes "rep_nodes h cap col xs" and "cap \<le> MAX_NODE_NUM"
  obtains j where "j < 2048" "\<not> busy col j"
proof -
  have "card {j. j < 2048 \<and> busy col j} \<le> 1024" using assms by (auto simp: rep_nodes_def MAX_NODE_NUM_def)
  moreover have "card {..<2048::nat} = 2048" by simp
  ultimately have "{j. j < 2048 \<and> busy col j} \<noteq> {..<2048}" by fastforce
  then show thesis using that by auto
qed

lemma probe_rep:
  assumes R: "rep_nodes h cap col xs" and cap: "cap \<le> MAX_NODE_NUM" and p: "p \<noteq> 0"
  obtains n where "\<forall>e<n. busy col ((unat (h name) mod 2048 + e) mod 2048)"
    "\<not> busy col ((unat (h name) mod 2048 + n) mod 2048)"
    "probe_slot col name p (h name AND (NODE_NAME_SLOT_NUM - 1)) =
      Some (if (name, p) \<in> set xs then None else Some (of_nat ((unat (h name) mod 2048 + n) mod 2048)))"
proof -
  let ?h = "unat (h name) mod 2048"
  obtain j where j: "j < 2048" "\<not> busy col j" by (rule rep_free_slot [OF R cap])
  obtain n where n: "\<forall>e<n. busy col ((?h + e) mod 2048)" "\<not> busy col ((?h + n) mod 2048)"
    by (rule probe_free [OF j, of ?h]) auto
  have "probe_slot col name p (h name AND (NODE_NAME_SLOT_NUM - 1)) =
      Some (if \<exists>e. 0 \<le> e \<and> e < n \<and> holds_node col name p ((?h + e) mod 2048) then None
            else Some (of_nat ((?h + n) mod 2048)))"
    by (rule probe_from) (use n in \<open>auto simp: unat_slot\<close>)
  moreover have "(\<exists>e. 0 \<le> e \<and> e < n \<and> holds_node col name p ((?h + e) mod 2048)) \<longleftrightarrow> (name, p) \<in> set xs"
  proof
    assume "\<exists>e. 0 \<le> e \<and> e < n \<and> holds_node col name p ((?h + e) mod 2048)"
    then obtain e where e: "e < n" "holds_node col name p ((?h + e) mod 2048)" by auto
    let ?i = "name_index (slots col ((?h + e) mod 2048))"
    have "?i < length xs" "cn_pid (slots col ((?h + e) mod 2048)) = snd (xs ! ?i)"
      using R n(1) e(1) unfolding rep_nodes_def by auto
    moreover have "col_names col ! ?i = fst (xs ! ?i)" using R \<open>?i < length xs\<close> by (simp add: rep_nodes_def)
    ultimately have "xs ! ?i = (name, p)" using e(2) by (auto simp: holds_node_def prod_eq_iff)
    then show "(name, p) \<in> set xs" using \<open>?i < length xs\<close> nth_mem by metis
  next
    assume "(name, p) \<in> set xs"
    then obtain i where i: "i < length xs" "xs ! i = (name, p)" by (auto simp: in_set_conv_nth)
    then have "chained h col i (name, p)" using R by (auto simp: rep_nodes_def)
    then obtain d where d: "slots col ((?h + d) mod 2048) = \<lparr>name_index = i, cn_pid = p\<rparr>"
      "\<forall>e<d. busy col ((?h + e) mod 2048)" by (auto simp: chained_def)
    have "d < n" using n(2) d p by (metis busy_def collected_node.select_convs(2) linorder_neqE_nat)
    moreover have "holds_node col name p ((?h + d) mod 2048)"
      using d(1) i R by (simp add: holds_node_def rep_nodes_def)
    ultimately show "\<exists>e. 0 \<le> e \<and> e < n \<and> holds_node col name p ((?h + e) mod 2048)" by auto
  qed
  ultimately show thesis using that n by simp
qed

lemma chained_mono:
  assumes "chained h col i x" and "\<And>j. busy col j \<Longrightarrow> slots col' j = slots col j" and "snd x \<noteq> 0"
  shows "chained h col' i x"
proof -
  obtain d where d: "slots col ((unat (h (fst x)) mod 2048 + d) mod 2048) = \<lparr>name_index = i, cn_pid = snd x\<rparr>"
    "\<forall>e<d. busy col ((unat (h (fst x)) mod 2048 + e) mod 2048)" using assms(1) by (auto simp: chained_def)
  have "busy col ((unat (h (fst x)) mod 2048 + d) mod 2048)" using d(1) assms(3) by (simp add: busy_def)
  then show ?thesis using d assms(2) unfolding chained_def busy_def by metis
qed

lemma add_unique_new:
  assumes R: "rep_nodes h cap col xs" and cap: "cap \<le> MAX_NODE_NUM" and p: "p \<noteq> 0"
    and new: "(name, p) \<notin> set xs" and room: "length xs < cap"
  shows "\<exists>col'. add_unique_node h name p col = Some (Inr col') \<and> rep_nodes h cap col' (xs @ [(name, p)])"
proof -
  let ?h = "unat (h name) mod 2048"
  obtain n where n: "\<forall>e<n. busy col ((?h + e) mod 2048)" "\<not> busy col ((?h + n) mod 2048)"
    and pr: "probe_slot col name p (h name AND (NODE_NAME_SLOT_NUM - 1)) =
      Some (if (name, p) \<in> set xs then None else Some (of_nat ((?h + n) mod 2048)))"
    by (rule probe_rep [OF R cap p])
  let ?j = "(?h + n) mod 2048"
  let ?col = "col\<lparr>slots := (slots col)(?j := \<lparr>name_index = length xs, cn_pid = p\<rparr>), col_names := col_names col @ [name]\<rparr>"
  have j: "unat (of_nat ?j :: 32 word) = ?j" by (simp add: unat_of_nat)
  have L: "length (col_names col) = length xs" "capacity col = cap" using R by (auto simp: rep_nodes_def)
  have e: "add_unique_node h name p col = Some (Inr ?col)"
    using pr new room L by (simp add: add_unique_node_def j)
  have same: "slots ?col i = slots col i" if "busy col i" for i using that n(2) by auto
  have busy': "busy ?col i \<longleftrightarrow> i = ?j \<or> busy col i" for i using p by (auto simp: busy_def)
  have old: "chained h ?col i (xs ! i)" if "i < length xs" for i
    using R that by (intro chained_mono [OF _ same]) (auto simp: rep_nodes_def)
  have "chained h ?col (length xs) (name, p)"
    unfolding chained_def by (rule exI [of _ n]) (use n(1) busy' in \<open>auto simp: busy_def\<close>)
  then have chain: "\<forall>i<length (xs @ [(name, p)]). chained h ?col i ((xs @ [(name, p)]) ! i)"
    using old by (auto simp: nth_append less_Suc_eq)
  have "{i. i < 2048 \<and> busy ?col i} = insert ?j {i. i < 2048 \<and> busy col i}" using busy' by auto
  then have "card {i. i < 2048 \<and> busy ?col i} \<le> Suc (length xs)"
    using R by (auto simp: rep_nodes_def intro!: le_trans [OF card_insert_le_m1] card_insert_le_m1)
  moreover have "name_index (slots ?col i) < Suc (length xs) \<and>
      cn_pid (slots ?col i) = snd ((xs @ [(name, p)]) ! name_index (slots ?col i))" if "i < 2048" "busy ?col i" for i
    using R that same busy' [of i] by (cases "i = ?j") (auto simp: rep_nodes_def nth_append less_Suc_eq)
  ultimately have "rep_nodes h cap ?col (xs @ [(name, p)])"
    using R chain room p by (auto simp: rep_nodes_def)
  then show ?thesis using e by blast
qed

lemma add_unique_seen:
  assumes "rep_nodes h cap col xs" and "cap \<le> MAX_NODE_NUM" and "p \<noteq> 0" and "(name, p) \<in> set xs"
  shows "add_unique_node h name p col = Some (Inr col)"
  by (rule probe_rep [OF assms(1-3), of name]) (use assms(4) in \<open>simp add: add_unique_node_def\<close>)

lemma add_unique_full:
  assumes "rep_nodes h cap col xs" and "cap \<le> MAX_NODE_NUM" and "p \<noteq> 0" and "(name, p) \<notin> set xs"
    and "\<not> length xs < cap"
  shows "add_unique_node h name p col = Some (Inl ENOBUFS)"
  by (rule probe_rep [OF assms(1-3), of name])
     (use assms in \<open>auto simp: add_unique_node_def rep_nodes_def\<close>)

interpretation nt: node_set "\<lambda>col xs. rep_nodes h (min sz MAX_NODE_NUM) col xs" "\<lambda>x. snd x \<noteq> 0" "min sz MAX_NODE_NUM"
    "\<lambda>x. add_unique_node h (fst x) (snd x)" "collect_nodes h" for h sz
proof
  fix col xs and x :: "string \<times> pid"
  assume R: "rep_nodes h (min sz MAX_NODE_NUM) col xs" and x: "snd x \<noteq> 0"
  show "x \<in> set xs \<Longrightarrow> add_unique_node h (fst x) (snd x) col = Some (Inr col)"
    using add_unique_seen [OF R _ x] by simp
  show "x \<notin> set xs \<Longrightarrow> \<not> length xs < min sz MAX_NODE_NUM \<Longrightarrow>
      add_unique_node h (fst x) (snd x) col = Some (Inl ENOBUFS)"
    using add_unique_full [OF R _ x] by simp
  show "x \<notin> set xs \<Longrightarrow> length xs < min sz MAX_NODE_NUM \<Longrightarrow>
      \<exists>s'. add_unique_node h (fst x) (snd x) col = Some (Inr s') \<and> rep_nodes h (min sz MAX_NODE_NUM) s' (xs @ [x])"
    using add_unique_new [OF R _ x, of "fst x"] by simp
next
  fix x :: "string \<times> pid" and xs col
  show "collect_nodes h (x # xs) col = (case add_unique_node h (fst x) (snd x) col of None \<Rightarrow> None
      | Some (Inl e) \<Rightarrow> Some (Inl e) | Some (Inr s') \<Rightarrow> collect_nodes h xs s')"
    by (cases x) simp
qed simp

lemma init_rep: "rep_nodes h cap (init_collector cap) []"
  by (simp add: rep_nodes_def init_collector_def busy_def)

lemma collect_topics_flat:
  "collect_topics h procs dm ts col = collect_nodes h (concat (map (nodes_of_topic procs dm) ts)) col"
proof (induction ts arbitrary: col)
  case (Cons t ts)
  have app: "collect_nodes h (xs @ ys) col =
      (case collect_nodes h xs col of None \<Rightarrow> None | Some (Inl e) \<Rightarrow> Some (Inl e) | Some (Inr c) \<Rightarrow> collect_nodes h ys c)"
    for xs ys col by (induction h xs col rule: collect_nodes.induct) (auto split: option.splits sum.splits)
  show ?case using Cons.IH by (simp add: app collect_node_names_of_topic_def split: option.splits sum.splits)
qed simp

lemma list_topics_spec:
  "list_topics P cap num ws =
     (if filter P ws = [] \<or> num + length (filter P ws) \<le> cap
      then Inr (map (\<lambda>w. (strscpy TOPIC_NAME_BUFFER_SIZE (wr_key w), wr_domain_id w)) (filter P ws)) else Inl ENOBUFS)"
  by (induction ws arbitrary: num) (auto split: sum.splits if_splits)

lemma count_subscribers_spec:
  "count_subscribers r dm p ss acc = acc\<lparr>
     ret_other_process_subscriber_num := ret_other_process_subscriber_num acc +
       length (filter (\<lambda>s. sub_domain_id s = dm \<and> sub_pid s \<noteq> p) ss),
     ret_same_process_subscriber_num := ret_same_process_subscriber_num acc +
       length (filter (\<lambda>s. sub_domain_id s = dm \<and> sub_pid s = p) ss),
     ret_other_domain_subscriber_num := ret_other_domain_subscriber_num acc +
       length (filter (\<lambda>s. sub_domain_id s \<noteq> dm \<and> domain_delivery_allowed r dm False (sub_domain_id s) (sub_is_bridge s)) ss),
     sn_a2r_bridge_exist := sn_a2r_bridge_exist acc \<or> (\<exists>s\<in>set ss. sub_domain_id s = dm \<and> sub_is_bridge s)\<rparr>"
  by (induction ss arbitrary: acc) (auto simp: Let_def)

section \<open>Properties\<close>

text \<open>Claim C38. The list of node names always returns, although its probe loop has no bound of its
  own: it is the nodes that own a non-bridge endpoint in the caller's domain and whose process
  lives, each once per process and in the order they are first met, and it fails with
  \<open>-ENOBUFS\<close> exactly when there are more of them than the (clamped) buffer holds.\<close>

theorem node_names_spec:
  fixes p :: pid and ns :: ipc_ns
  assumes pids: "\<forall>pr\<in>set (proc_info_htable k). global_pid pr \<noteq> 0"
    and al: "fst (kmalloc al)" "fst (kmalloc (snd (kmalloc al)))"
  defines "nodes \<equiv> concat (map (nodes_of_topic (proc_info_htable k) (get_process_domain_id p k))
      (topics_of_domain ns (get_process_domain_id p k) k))"
  shows "get_node_names_cmd h ns p sz al k =
      Some (if card (set nodes) \<le> min sz MAX_NODE_NUM then Inr (map fst (see [] nodes)) else Inl ENOBUFS) \<and>
    distinct (see [] nodes) \<and> set (see [] nodes) = set nodes"
proof -
  let ?cap = "min sz MAX_NODE_NUM" and ?dm = "get_process_domain_id p k" and ?procs = "proc_info_htable k"
  have "q \<noteq> 0" if "owner_is_alive ?procs q" for q
    using that pids find_key_Some by (fastforce simp: owner_is_alive_def agnocast_find_process_info_def split: option.splits)
  then have adm: "\<forall>x\<in>set nodes. snd x \<noteq> 0" unfolding nodes_def nodes_of_topic_def by fastforce
  have see: "distinct (see [] nodes)" "set (see [] nodes) = set nodes" using see_facts(1,2) [of "[]" nodes] by simp_all
  then have len: "length (see [] nodes) = card (set nodes)" by (metis distinct_card)
  have run: "get_node_names_cmd h ns p sz al k =
      (case collect_nodes h nodes (init_collector ?cap) of None \<Rightarrow> None | Some (Inl e) \<Rightarrow> Some (Inl e)
       | Some (Inr col) \<Rightarrow> Some (Inr (col_names col)))"
    using al by (cases "kmalloc al")
      (simp add: get_node_names_cmd_def agnocast_ioctl_get_node_names_def Let_def collect_topics_flat nodes_def)
  show ?thesis
  proof (cases "card (set nodes) \<le> ?cap")
    case True
    then obtain col where "collect_nodes h nodes (init_collector ?cap) = Some (Inr col)" "rep_nodes h ?cap col (see [] nodes)"
      using nt.coll_see(1) [OF init_rep [of h ?cap] _ adm] len by auto
    then show ?thesis using True run see by (simp add: rep_nodes_def)
  next
    case False
    then have "collect_nodes h nodes (init_collector ?cap) = Some (Inl ENOBUFS)"
      using nt.coll_see(2) [OF init_rep [of h ?cap] _ adm] len by simp
    then show ?thesis using False run see by simp
  qed
qed

theorem node_names_spec_witness:
  "get_node_names_cmd (\<lambda>_. 7) 0 10 16 [] (demo_ready 1) \<noteq> None \<and>
   (\<exists>ns. get_node_names_cmd (\<lambda>_. 7) 0 10 16 [] (demo_ready 1) = Some (Inr ns) \<and> length ns = 2)"
proof -
  let ?k = "demo_ready 1"
  let ?nodes = "concat (map (nodes_of_topic (proc_info_htable ?k) (get_process_domain_id 10 ?k))
      (topics_of_domain 0 (get_process_domain_id 10 ?k) ?k))"
  have pids: "\<forall>pr\<in>set (proc_info_htable ?k). global_pid pr \<noteq> 0" by (simp add: demo_ready_eq)
  have n: "?nodes = [(''p'', 10), (''s'', 20)]"
    by (simp add: demo_ready_eq topics_of_domain_def get_process_domain_id_def agnocast_find_process_info_def find_key_def
        nodes_of_topic_def topic_of_def demo_topic_def demo_wrapper_def owner_is_alive_def)
  show ?thesis using node_names_spec [OF pids, where al = "[]" and p = 10 and ns = 0 and h = "\<lambda>_. 7" and sz = 16] unfolding n by (simp add: MAX_NODE_NUM_def)
qed

text \<open>The topic list is complete or refused: it holds every topic of the namespace that is
  not a service response, in table order with its domain, or the call fails: with \<open>-ENOBUFS\<close> because there are
  more than the (clamped) buffer holds, or because memory or a copy to or from user space failed.\<close>

theorem topic_list_spec:
  fixes k :: kstate and ns :: ipc_ns
  defines "ws \<equiv> filter (\<lambda>w. wr_ipc_ns w = ns \<and> \<not> is_service_response_topic (wr_key w)) (topic_hashtable k)"
  shows "get_topic_list_cmd ns sz al rd names doms wr k =
    (if \<not> rd then Inl EFAULT
     else if \<not> fst (kmalloc al) then Inl ENOMEM
     else if min sz MAX_TOPIC_NUM < length ws then Inl ENOBUFS
     else if \<not> names \<or> doms = Some False \<or> \<not> wr then Inl EFAULT
     else Inr (map (\<lambda>w. (strscpy TOPIC_NAME_BUFFER_SIZE (wr_key w), wr_domain_id w)) ws))"
  unfolding get_topic_list_cmd_def agnocast_ioctl_get_topic_list_def list_topics_spec ws_def
  by (cases "kmalloc al") (auto simp: not_le)

text \<open>The subscriber counts a publisher gets partition the subscribers: same-process and
  other-process counts add up to the subscribers of its own domain, and the other-domain count
  is the number of subscribers a bridge rule delivers to.\<close>

theorem subscriber_num_partition:
  assumes "find_topic_for_current p name ns k = Some w"
  defines "c \<equiv> agnocast_ioctl_get_subscriber_num p name ns k" and "subs \<equiv> sub_info_htable (topic_of k w)"
  shows "ret_same_process_subscriber_num c + ret_other_process_subscriber_num c =
      length (filter (\<lambda>s. sub_domain_id s = wr_domain_id w) subs) \<and>
    ret_same_process_subscriber_num c = length (filter (\<lambda>s. sub_domain_id s = wr_domain_id w \<and> sub_pid s = p) subs) \<and>
    ret_other_domain_subscriber_num c = length (filter (\<lambda>s. sub_domain_id s \<noteq> wr_domain_id w \<and>
       domain_delivery_allowed (rule_of k (topic_of k w)) (wr_domain_id w) False (sub_domain_id s) (sub_is_bridge s)) subs)"
proof -
  have split: "length (filter (\<lambda>s. Q s \<and> R s) xs) + length (filter (\<lambda>s. Q s \<and> \<not> R s) xs) = length (filter Q xs)"
    for Q R :: "subscriber_info \<Rightarrow> bool" and xs by (induction xs) auto
  show ?thesis
    using assms(1) split [of "\<lambda>s. sub_domain_id s = wr_domain_id w" "\<lambda>s. sub_pid s = p" subs]
    by (simp add: c_def subs_def agnocast_ioctl_get_subscriber_num_def count_subscribers_spec no_subscriber_num_def Let_def)
qed

theorem subscriber_num_partition_witness:
  "ret_other_process_subscriber_num (agnocast_ioctl_get_subscriber_num 10 ''/t'' 0 (demo_ready 1)) = 1"
proof -
  have w: "find_topic_for_current 10 ''/t'' 0 (demo_ready 1) = Some demo_wrapper"
    by (simp add: demo_ready_eq demo_wrapper_def keval)
  have t: "sub_info_htable (topic_of (demo_ready 1) demo_wrapper) = sub_info_htable (demo_topic 1)"
    by (simp add: demo_ready_eq demo_wrapper_def topic_of_def)
  show ?thesis
    using subscriber_num_partition [OF w] unfolding t by (simp add: demo_topic_def demo_wrapper_def)
qed

end
