(* ===== verification/Kmod_Scopes.thy ===== *)
theory Kmod_Scopes
  imports Kmod_Scenario
begin

text \<open>
  The registries of the kernel module as seen through the table contract \<open>hash_table\<close>: the bridge
  table and the process table are instances, and registering and removing a bridge is a round
  trip. Then the scopes: one bridge owner per topic, one unlink daemon per namespace, one live
  bridge manager and one discovery agent per domain, one domain rule per topic and domain.
\<close>

abbreviation bridge_key :: "bridge_info \<Rightarrow> ipc_ns \<times> string" where
  "bridge_key b \<equiv> (br_ipc_ns b, br_topic_name b)"

interpretation bt: hash_table "\<lambda>bs. distinct (map bridge_key bs)" "\<lambda>bs key. find_key bridge_key key bs"
    "hash_add bkt" "del_key bridge_key" bridge_key for bkt :: "bridge_info \<Rightarrow> nat"
  by (rule hash_table_list)

interpretation pt: hash_table "\<lambda>ps. distinct (map global_pid ps)" "\<lambda>ps p. agnocast_find_process_info p ps"
    "hash_add bkt" "del_key global_pid" global_pid for bkt :: "process_info \<Rightarrow> nat"
  unfolding agnocast_find_process_info_def by (rule hash_table_list)

lemma bridges_distinct: "kinv k \<Longrightarrow> distinct (map bridge_key (bridge_htable k))"
  using kinvD(7) by (auto simp: tables_ok_def)

lemma processes_distinct: "kinv k \<Longrightarrow> distinct (map global_pid (proc_info_htable k))"
  using kinvD(5) by (auto simp: procs_ok_def)

section \<open>Bridges\<close>

text \<open>Registering the bridge of a topic that has none and removing it again is a round trip:
  in between the topic has exactly that bridge, afterwards every lookup gives what it gave
  before.\<close>

theorem bridge_round_trip:
  fixes p :: pid and is_r2a :: bool
  assumes "reachable env k" and new: "find_bridge_info name ns k = None"
    and al: "fst (kmalloc al)" "fst (kmalloc (snd (kmalloc al)))"
  defines "k1 \<equiv> snd (agnocast_ioctl_add_bridge env name p is_r2a ns al k)"
  defines "out \<equiv> agnocast_ioctl_remove_bridge name p is_r2a ns k1"
  shows "find_bridge_info name ns k1 =
      Some \<lparr>br_topic_name = name, br_pid = p, has_r2a = is_r2a, has_a2r = \<not> is_r2a, br_ipc_ns = ns\<rparr> \<and>
    fst out = Inr () \<and> (\<forall>name' ns'. find_bridge_info name' ns' (snd out) = find_bridge_info name' ns' k)"
proof -
  let ?b = "\<lparr>br_topic_name = name, br_pid = p, has_r2a = is_r2a, has_a2r = \<not> is_r2a, br_ipc_ns = ns\<rparr>"
  let ?bkt = "bridge_bkt env \<circ> br_topic_name"
  note d = bridges_distinct [OF reachable_kinv [OF assms(1)]]
  have none: "find_key bridge_key (bridge_key ?b) (bridge_htable k) = None" using new by (simp add: find_bridge_info_def)
  have k1: "bridge_htable k1 = hash_add ?bkt ?b (bridge_htable k)"
    using new al by (cases "kmalloc al") (simp add: k1_def agnocast_ioctl_add_bridge_def Let_def)
  have look: "find_bridge_info name ns k1 = Some ?b"
    using fun_cong [OF bt.look_add [OF d none, of ?bkt], of "(ns, name)"] by (simp add: find_bridge_info_def k1)
  then have out: "fst out = Inr ()" "bridge_htable (snd out) = del_key bridge_key (bridge_key ?b) (bridge_htable k1)"
    by (simp_all add: out_def agnocast_ioctl_remove_bridge_def Let_def)
  have "find_bridge_info name' ns' (snd out) = find_bridge_info name' ns' k" for name' ns'
    using fun_cong [OF bt.add_then_del [OF d none, of ?bkt], of "(ns', name')"] by (simp add: find_bridge_info_def out(2) k1)
  then show ?thesis using look out(1) by blast
qed

theorem bridge_round_trip_witness:
  "fst (agnocast_ioctl_remove_bridge ''/t'' 10 True 0
     (snd (agnocast_ioctl_add_bridge demo_env ''/t'' 10 True 0 [] (demo_ready 1)))) = Inr ()"
proof -
  have "find_bridge_info ''/t'' 0 (demo_ready 1) = None" by (simp add: find_bridge_info_def demo_ready_eq find_key_def)
  from bridge_round_trip [OF demo_ready_reachable this, of "[]" 10 True] show ?thesis by simp
qed

text \<open>A bridge belongs to the process that registered it: while it is registered, another
  process can neither add a direction (it is refused with \<open>-EEXIST\<close> and told the owner) nor remove
  one (\<open>-EPERM\<close>), and neither attempt changes anything.\<close>

theorem bridge_owner_exclusive:
  assumes "find_bridge_info name ns k = Some b" and "p \<noteq> br_pid b"
  shows "agnocast_ioctl_add_bridge env name p is_r2a ns al k =
      ((Some EEXIST, Some (br_pid b, has_r2a b, has_a2r b)), k) \<and>
    agnocast_ioctl_remove_bridge name p is_r2a ns k = (Inl EPERM, k)"
  using assms by (simp add: agnocast_ioctl_add_bridge_def agnocast_ioctl_remove_bridge_def)

theorem bridge_owner_exclusive_witness:
  "agnocast_ioctl_remove_bridge ''/t'' 20 True 0
     (snd (agnocast_ioctl_add_bridge demo_env ''/t'' 10 True 0 [] demo_load)) =
   (Inl EPERM, snd (agnocast_ioctl_add_bridge demo_env ''/t'' 10 True 0 [] demo_load))"
proof -
  let ?k = "snd (agnocast_ioctl_add_bridge demo_env ''/t'' 10 True 0 [] demo_load)"
  have "find_bridge_info ''/t'' 0 ?k =
      Some \<lparr>br_topic_name = ''/t'', br_pid = 10, has_r2a = True, has_a2r = False, br_ipc_ns = 0\<rparr>"
    by (simp add: agnocast_ioctl_add_bridge_def find_bridge_info_def demo_load_def init_kstate_def find_key_def
        hash_add_def Let_def)
  from bridge_owner_exclusive [OF this, of 20 demo_env True "[]"] show ?thesis by simp
qed

section \<open>Processes\<close>

text \<open>Registering a process that is not registered makes exactly that one lookup succeed,
  with the pool it was given, and leaves every other process as it was; when it fails, or when
  a daemon of its kind is already there, nothing changes at all.\<close>

theorem add_process_spec:
  fixes p :: pid and ns :: ipc_ns and rn :: nat and dm :: domain and al :: allocs
  assumes "reachable env k"
  defines "out \<equiv> agnocast_ioctl_add_process env p ns rn dm al k"
  shows "snd out = k \<or>
    (\<exists>pr r. fst out = Inr r \<and> agnocast_find_process_info p (proc_info_htable k) = None \<and>
       (\<lambda>q. agnocast_find_process_info q (proc_info_htable (snd out))) =
         (\<lambda>q. agnocast_find_process_info q (proc_info_htable k))(p \<mapsto> pr) \<and>
       \<not> exited pr \<and> mappers (mempool_entries k) (mempool_index pr) = {} \<and>
       mappers (mempool_entries (snd out)) = (mappers (mempool_entries k))(mempool_index pr := {p}) \<and>
       ret_pool r = Some (mp_addr (mempool_entries (snd out) ! mempool_index pr), mempool_size_bytes k))"
proof (cases "snd out = k")
  case False
  note inv = reachable_kinv [OF assms(1)]
  have P: "pools_ok (mempool_entries k)" using kinvD(5) [OF inv] by (simp add: procs_ok_def)
  note d = processes_distinct [OF inv]
  obtain ro where ro: "decode_role rn = Some ro" using False
    by (cases "decode_role rn") (auto simp: out_def agnocast_ioctl_add_process_def)
  have none: "agnocast_find_process_info p (proc_info_htable k) = None"
    using False by (auto simp: out_def agnocast_ioctl_add_process_def split: option.splits if_splits)
  obtain ok al' where km: "kmalloc al = (ok, al')" by fastforce
  obtain x al'' ps where as': "assign_memory p al' (mempool_entries k) = (x, al'', ps)" by (rule prod_cases3)
  have c: "\<not> (ro \<noteq> PROCESS_ROLE_UNLINK_DAEMON \<and> dm = AGNOCAST_DOMAIN_ID_NONE)" "ok" "x \<noteq> None"
      "\<not> (ro = PROCESS_ROLE_BRIDGE_MANAGER \<and> has_alive_bridge_manager ns dm (proc_info_htable k))"
      "\<not> (ro = PROCESS_ROLE_UNLINK_DAEMON \<and> has_alive_unlink_daemon ns (proc_info_htable k))"
    using False ro none km as' by (auto simp: out_def agnocast_ioctl_add_process_def Let_def split: if_splits option.splits)
  then obtain i where as: "assign_memory p al' (mempool_entries k) = (Some i, al'', ps)" using as' by auto
  define pr where "pr = \<lparr>exited = False, role = ro, global_pid = p, local_pid = convert_pid_to_local env p,
      mempool_index = i, proc_ipc_ns = ns,
      proc_domain_id = (if ro = PROCESS_ROLE_UNLINK_DAEMON then AGNOCAST_DOMAIN_ID_NONE else dm)\<rparr>"
  have pr: "global_pid pr = p" "mempool_index pr = i" "\<not> exited pr" by (simp_all add: pr_def)
  have "\<exists>r. fst out = Inr r \<and> ret_pool r = Some (mp_addr (ps ! i), mempool_size_bytes k)"
    using ro none km as c by (simp add: out_def agnocast_ioctl_add_process_def Let_def)
  then obtain r where o: "fst out = Inr r" "ret_pool r = Some (mp_addr (ps ! i), mempool_size_bytes k)"
      "snd out = k\<lparr>proc_info_htable := hash_add (pid_bkt env \<circ> global_pid) pr (proc_info_htable k), mempool_entries := ps\<rparr>"
    using ro none km as c by (auto simp: out_def agnocast_ioctl_add_process_def Let_def pr_def)
  have "(\<lambda>q. agnocast_find_process_info q (proc_info_htable (snd out))) =
      (\<lambda>q. agnocast_find_process_info q (proc_info_htable k))(p \<mapsto> pr)"
    using pt.look_add [OF d, of pr "pid_bkt env \<circ> global_pid"] none pr(1) by (simp add: o(3))
  then show ?thesis using o pr none mp.assign_new [OF P as] by auto
qed simp

theorem add_process_spec_witness:
  "agnocast_find_process_info 10 (proc_info_htable (snd (agnocast_ioctl_add_process demo_env 10 0 0 0 [] demo_load))) \<noteq> None"
proof -
  let ?out = "agnocast_ioctl_add_process demo_env 10 0 0 0 [] demo_load"
  have "proc_info_htable (snd ?out) \<noteq> proc_info_htable demo_load"
    by (simp add: demo_load_def keval demo_env_def init_pools_2)
  then have "snd ?out \<noteq> demo_load" by auto
  with add_process_spec [OF demo_load_reachable, of 10 0 0 0 "[]"] show ?thesis by (metis fun_upd_same option.discI)
qed

section \<open>Singletons\<close>

text \<open>In every reachable state there is at most one unlink daemon per IPC namespace, at most
  one live bridge manager and at most one discovery agent per namespace and domain, and at most
  one bridge owner per topic.\<close>

theorem daemons_are_singletons:
  assumes "reachable env k"
  shows "(\<forall>a\<in>set (proc_info_htable k). \<forall>b\<in>set (proc_info_htable k). proc_ipc_ns a = proc_ipc_ns b \<longrightarrow>
      role a = PROCESS_ROLE_UNLINK_DAEMON \<longrightarrow> role b = PROCESS_ROLE_UNLINK_DAEMON \<longrightarrow> a = b) \<and>
    (\<forall>a\<in>set (proc_info_htable k). \<forall>b\<in>set (proc_info_htable k). proc_ipc_ns a = proc_ipc_ns b \<longrightarrow>
      proc_domain_id a = proc_domain_id b \<longrightarrow> role a = PROCESS_ROLE_BRIDGE_MANAGER \<longrightarrow>
      role b = PROCESS_ROLE_BRIDGE_MANAGER \<longrightarrow> \<not> exited a \<longrightarrow> \<not> exited b \<longrightarrow> a = b) \<and>
    distinct (map (\<lambda>a. (da_ipc_ns a, da_domain_id a)) (discovery_agent_htable k)) \<and>
    distinct (map bridge_key (bridge_htable k))"
  using kinvD(6,7) [OF reachable_kinv [OF assms]] by (auto simp: daemons_ok_def tables_ok_def)

theorem daemons_are_singletons_witness:
  "distinct (map bridge_key (bridge_htable (snd (agnocast_ioctl_add_bridge demo_env ''/t'' 10 True 0 [] demo_load))))"
  using daemons_are_singletons [OF reachable.step [OF demo_load_reachable, of "AddBridge ''/t'' 10 True 0 []"]] by simp

text \<open>In every reachable state a topic name of a namespace and domain is covered by at most
  one domain bridge rule, exact or prefix, and a registered topic carries exactly the rule that covers it.\<close>

theorem one_rule_per_topic:
  assumes "reachable env k"
  shows "(\<forall>ru\<in>set (domain_rule_htable k). \<forall>ru'\<in>set (domain_rule_htable k).
      rule_matches name ns dm ru \<and> rule_matches name ns dm ru' \<longrightarrow> ru = ru') \<and>
    (\<forall>w\<in>set (topic_hashtable k). rule_of k (topic_of k w) =
      find_domain_rule (wr_key w) (wr_ipc_ns w) (wr_domain_id w) k)"
proof
  note inv = reachable_kinv [OF assms]
  have R: "rules_ok k" by (rule kinvD(3) [OF inv])
  then show "\<forall>ru\<in>set (domain_rule_htable k). \<forall>ru'\<in>set (domain_rule_htable k).
      rule_matches name ns dm ru \<and> rule_matches name ns dm ru' \<longrightarrow> ru = ru'" unfolding rules_ok_def by blast
  show "\<forall>w\<in>set (topic_hashtable k). rule_of k (topic_of k w) =
      find_domain_rule (wr_key w) (wr_ipc_ns w) (wr_domain_id w) k"
  proof
    fix w assume w: "w \<in> set (topic_hashtable k)"
    have "topic_rule (topic_of k w) = map_option rule_ptr (find_domain_rule (wr_key w) (wr_ipc_ns w) (wr_domain_id w) k)"
      using kinvD(4) [OF inv] w topic_of_ok(1) [OF inv w] unfolding links_ok_def by blast
    moreover have "find_key rule_ptr (rule_ptr ru) (domain_rule_htable k) = Some ru"
      if "find_domain_rule (wr_key w) (wr_ipc_ns w) (wr_domain_id w) k = Some ru" for ru
    proof -
      have "ru \<in> set (domain_rule_htable k)" using that by (auto simp: find_domain_rule_def find_Some_iff in_set_conv_nth)
      moreover have "distinct (map rule_ptr (domain_rule_htable k))" using R by (simp add: rules_ok_def)
      ultimately show ?thesis by (intro find_key_mem)
    qed
    ultimately show "rule_of k (topic_of k w) = find_domain_rule (wr_key w) (wr_ipc_ns w) (wr_domain_id w) k"
      by (cases "find_domain_rule (wr_key w) (wr_ipc_ns w) (wr_domain_id w) k") (simp_all add: rule_of_def)
  qed
qed

theorem one_rule_per_topic_witness:
  "rule_of (demo_ready 1) (topic_of (demo_ready 1) demo_wrapper) = find_domain_rule ''/t'' 0 0 (demo_ready 1)"
proof -
  have "demo_wrapper \<in> set (topic_hashtable (demo_ready 1))" by (simp add: demo_ready_eq demo_wrapper_def)
  then show ?thesis using one_rule_per_topic [OF demo_ready_reachable, of 1] by (auto simp: demo_wrapper_def)
qed

end
