(* ===== verification/Smart_Pointer.thy ===== *)
theory Smart_Pointer
  imports Agnocast_Prelude
begin

text \<open>
  The message handle of the library (\<open>agnocast_smart_pointer.hpp\<close>) and the publisher operations that
  consume it (\<open>agnocast_publisher.hpp\<close>, \<open>agnocast_publisher.cpp\<close>), for one process.

  The state is an explicit store: the handle objects by name, the control blocks by address, the
  counter of borrowed messages of each thread, and a trace of what the process asked for from
  outside (deletions, the release ioctl, the publish ioctl, termination). The reference counter is a
  32-bit word. A stopped process makes no further step. What the kernel answers to a publish is a
  parameter of that step.
\<close>

section \<open>State\<close>

definition ENTRY_ID_NOT_ASSIGNED :: int where "ENTRY_ID_NOT_ASSIGNED = -1"

record control_block =
  cb_topic_name :: string
  cb_entry_id :: int
  ref_count :: "32 word"
  cb_pubsub_id :: int
  cb_valid :: bool

text \<open>A handle; \<open>sp_ptr\<close> is 0 for \<open>nullptr\<close>, \<open>is_void\<close> tells whether the static type is \<open>ipc_shared_ptr<void>\<close>.\<close>

record ipc_shared_ptr =
  sp_ptr :: u64
  sp_control :: "nat option"
  is_void :: bool

datatype sp_event =
    Received nat string int int
  | Released nat string int int
  | Deleted u64
  | Published string int u64
  | Exited
  | Terminated

record sp_state =
  handles :: "nat \<Rightarrow> ipc_shared_ptr option"
  blocks :: "nat \<Rightarrow> control_block option"
  next_block :: nat
  borrowed_publisher_num :: "nat \<Rightarrow> 32 word"
  trace :: "sp_event list"
  stopped :: bool

definition init_sp :: sp_state where
  "init_sp = \<lparr>handles = Map.empty, blocks = Map.empty, next_block = 0, borrowed_publisher_num = (\<lambda>_. 0),
              trace = [], stopped = False\<rparr>"

definition emit :: "sp_event \<Rightarrow> sp_state \<Rightarrow> sp_state" where
  "emit e s = s\<lparr>trace := e # trace s\<rparr>"

definition set_handle :: "nat \<Rightarrow> ipc_shared_ptr option \<Rightarrow> sp_state \<Rightarrow> sp_state" where
  "set_handle v h s = s\<lparr>handles := (handles s)(v := h)\<rparr>"

definition set_block :: "nat \<Rightarrow> control_block option \<Rightarrow> sp_state \<Rightarrow> sp_state" where
  "set_block a b s = s\<lparr>blocks := (blocks s)(a := b)\<rparr>"

section \<open>Borrow counters\<close>

definition increment_borrowed_publisher_num :: "nat \<Rightarrow> sp_state \<Rightarrow> sp_state" where
  "increment_borrowed_publisher_num tid s =
     s\<lparr>borrowed_publisher_num := (borrowed_publisher_num s)(tid := borrowed_publisher_num s tid + 1)\<rparr>"

text \<open>The counter is thread-local; a decrement below zero ends the process.\<close>

definition decrement_borrowed_publisher_num :: "nat \<Rightarrow> sp_state \<Rightarrow> sp_state" where
  "decrement_borrowed_publisher_num tid s =
     (if borrowed_publisher_num s tid = 0 then emit Exited (s\<lparr>stopped := True\<rparr>)
      else s\<lparr>borrowed_publisher_num := (borrowed_publisher_num s)(tid := borrowed_publisher_num s tid - 1)\<rparr>)"

section \<open>Handles\<close>

definition null_ptr :: "bool \<Rightarrow> ipc_shared_ptr" where
  "null_ptr void = \<lparr>sp_ptr = 0, sp_control = None, is_void = void\<rparr>"

definition new_block :: "string \<Rightarrow> int \<Rightarrow> int \<Rightarrow> control_block" where
  "new_block topic pubsub entry =
     \<lparr>cb_topic_name = topic, cb_entry_id = entry, ref_count = 1, cb_pubsub_id = pubsub, cb_valid = True\<rparr>"

definition increment :: "nat \<Rightarrow> sp_state \<Rightarrow> sp_state" where
  "increment a s = set_block a (map_option (\<lambda>b. b\<lparr>ref_count := ref_count b + 1\<rparr>) (blocks s a)) s"

definition block_of :: "sp_state \<Rightarrow> ipc_shared_ptr \<Rightarrow> control_block option" where
  "block_of s h = (case sp_control h of None \<Rightarrow> None | Some a \<Rightarrow> blocks s a)"

definition is_invalidated :: "sp_state \<Rightarrow> ipc_shared_ptr \<Rightarrow> bool" where
  "is_invalidated s h = (case block_of s h of None \<Rightarrow> False | Some b \<Rightarrow> \<not> cb_valid b)"

definition sp_get :: "sp_state \<Rightarrow> ipc_shared_ptr \<Rightarrow> u64" where
  "sp_get s h = (if is_invalidated s h then 0 else sp_ptr h)"

definition sp_bool :: "sp_state \<Rightarrow> ipc_shared_ptr \<Rightarrow> bool" where
  "sp_bool s h \<longleftrightarrow> sp_ptr h \<noteq> 0 \<and> \<not> is_invalidated s h"

text \<open>\<open>operator*\<close> and \<open>operator->\<close>: \<open>None\<close> is \<open>std::terminate\<close>.\<close>

definition sp_deref :: "sp_state \<Rightarrow> ipc_shared_ptr \<Rightarrow> u64 option" where
  "sp_deref s h = (if is_invalidated s h then None else Some (sp_ptr h))"

definition get_topic_name :: "sp_state \<Rightarrow> ipc_shared_ptr \<Rightarrow> string" where
  "get_topic_name s h = (case block_of s h of None \<Rightarrow> [] | Some b \<Rightarrow> cb_topic_name b)"

definition get_pubsub_id :: "sp_state \<Rightarrow> ipc_shared_ptr \<Rightarrow> int" where
  "get_pubsub_id s h = (case block_of s h of None \<Rightarrow> -1 | Some b \<Rightarrow> cb_pubsub_id b)"

definition get_entry_id :: "sp_state \<Rightarrow> ipc_shared_ptr \<Rightarrow> int" where
  "get_entry_id s h = (case block_of s h of None \<Rightarrow> ENTRY_ID_NOT_ASSIGNED | Some b \<Rightarrow> cb_entry_id b)"

definition invalidate_all_references :: "ipc_shared_ptr \<Rightarrow> sp_state \<Rightarrow> sp_state" where
  "invalidate_all_references h s =
     (case sp_control h of
        None \<Rightarrow> s
      | Some a \<Rightarrow> set_block a (map_option (\<lambda>b. b\<lparr>cb_valid := False\<rparr>) (blocks s a)) s)"

text \<open>The two constructors that take a raw pointer make a control block unless the pointer is null.\<close>

definition ptr_ctor :: "nat \<Rightarrow> u64 \<Rightarrow> string \<Rightarrow> int \<Rightarrow> int \<Rightarrow> bool \<Rightarrow> sp_state \<Rightarrow> sp_state" where
  "ptr_ctor v ptr topic pubsub entry void s =
     (if ptr = 0 then set_handle v (Some (null_ptr void)) s
      else set_handle v (Some \<lparr>sp_ptr = ptr, sp_control = Some (next_block s), is_void = void\<rparr>)
             ((set_block (next_block s) (Some (new_block topic pubsub entry)) s)\<lparr>next_block := next_block s + 1\<rparr>))"

text \<open>The body of \<open>reset\<close> after the last reference: the kernel is told, or the message is deleted, or
  the process ends; then the control block goes.\<close>

definition drop_last :: "nat \<Rightarrow> nat \<Rightarrow> ipc_shared_ptr \<Rightarrow> control_block \<Rightarrow> sp_state \<Rightarrow> sp_state" where
  "drop_last tid a h b s =
     (if cb_entry_id b \<noteq> ENTRY_ID_NOT_ASSIGNED then
        set_block a None (emit (Released a (cb_topic_name b) (cb_pubsub_id b) (cb_entry_id b)) s)
      else if cb_valid b then
        (let s1 = decrement_borrowed_publisher_num tid s in
         if stopped s1 then s1
         else if \<not> is_void h then set_block a None (emit (Deleted (sp_ptr h)) s1)
         else emit Terminated (s1\<lparr>stopped := True\<rparr>))
      else set_block a None s)"

definition reset :: "nat \<Rightarrow> nat \<Rightarrow> sp_state \<Rightarrow> sp_state" where
  "reset tid v s =
     (case handles s v of
        None \<Rightarrow> s
      | Some h \<Rightarrow>
          (case sp_control h of
             None \<Rightarrow> s
           | Some a \<Rightarrow>
               (case blocks s a of
                  None \<Rightarrow> s
                | Some b \<Rightarrow>
                    let was_last = (ref_count b = 1);
                        b' = b\<lparr>ref_count := ref_count b - 1\<rparr>;
                        s1 = set_block a (Some b') s;
                        s2 = (if was_last then drop_last tid a h b' s1 else s1)
                    in if stopped s2 then s2
                       else set_handle v (Some (h\<lparr>sp_ptr := 0, sp_control := None\<rparr>)) s2)))"

text \<open>Sharing ownership with \<open>r\<close> under the pointer \<open>ptr\<close>: the copy constructors use \<open>r\<close>'s own pointer, the
  aliasing constructor another one.\<close>

definition alias_ctor :: "nat \<Rightarrow> ipc_shared_ptr \<Rightarrow> u64 \<Rightarrow> bool \<Rightarrow> sp_state \<Rightarrow> sp_state" where
  "alias_ctor v r ptr void s =
     set_handle v (Some \<lparr>sp_ptr = ptr, sp_control = sp_control r, is_void = void\<rparr>)
       (case sp_control r of None \<Rightarrow> s | Some a \<Rightarrow> increment a s)"

definition copy_ctor :: "nat \<Rightarrow> ipc_shared_ptr \<Rightarrow> bool \<Rightarrow> sp_state \<Rightarrow> sp_state" where
  "copy_ctor v r void s = alias_ctor v r (sp_ptr r) void s"

definition move_alias_ctor :: "nat \<Rightarrow> nat \<Rightarrow> ipc_shared_ptr \<Rightarrow> u64 \<Rightarrow> bool \<Rightarrow> sp_state \<Rightarrow> sp_state" where
  "move_alias_ctor v w r ptr void s =
     set_handle w (Some (null_ptr (is_void r)))
       (set_handle v (Some \<lparr>sp_ptr = ptr, sp_control = sp_control r, is_void = void\<rparr>) s)"

definition move_ctor :: "nat \<Rightarrow> nat \<Rightarrow> ipc_shared_ptr \<Rightarrow> bool \<Rightarrow> sp_state \<Rightarrow> sp_state" where
  "move_ctor v w r void s = move_alias_ctor v w r (sp_ptr r) void s"

text \<open>The two casts: aliasing under the result of \<open>get()\<close>.\<close>

definition static_cast_copy :: "nat \<Rightarrow> ipc_shared_ptr \<Rightarrow> bool \<Rightarrow> sp_state \<Rightarrow> sp_state" where
  "static_cast_copy v r void s = alias_ctor v r (sp_get s r) void s"

definition static_cast_move :: "nat \<Rightarrow> nat \<Rightarrow> ipc_shared_ptr \<Rightarrow> bool \<Rightarrow> sp_state \<Rightarrow> sp_state" where
  "static_cast_move v w r void s = move_alias_ctor v w r (sp_get s r) void s"

text \<open>Assignments release the old reference first; \<open>this != &r\<close> is \<open>v \<noteq> w\<close>. A process that ended in
  \<open>reset\<close> does not go on.\<close>

definition copy_assign :: "nat \<Rightarrow> nat \<Rightarrow> nat \<Rightarrow> sp_state \<Rightarrow> sp_state" where
  "copy_assign tid v w s =
     (case (handles s v, handles s w) of
        (Some h, Some r) \<Rightarrow>
          if v = w then s
          else let s1 = reset tid v s in
               if stopped s1 then s1 else copy_ctor v r (is_void h) s1
      | _ \<Rightarrow> s)"

definition move_assign :: "nat \<Rightarrow> nat \<Rightarrow> nat \<Rightarrow> sp_state \<Rightarrow> sp_state" where
  "move_assign tid v w s =
     (case (handles s v, handles s w) of
        (Some h, Some r) \<Rightarrow>
          if v = w then s
          else let s1 = reset tid v s in
               if stopped s1 then s1 else move_ctor v w r (is_void h) s1
      | _ \<Rightarrow> s)"

definition destroy :: "nat \<Rightarrow> nat \<Rightarrow> sp_state \<Rightarrow> sp_state" where
  "destroy tid v s = (let s1 = reset tid v s in if stopped s1 then s1 else set_handle v None s1)"

section \<open>Publishing\<close>

text \<open>\<open>borrow_loaned_message\<close>; \<open>ptr\<close> is what \<open>new\<close> returned.\<close>

definition borrow_loaned_message :: "nat \<Rightarrow> nat \<Rightarrow> u64 \<Rightarrow> string \<Rightarrow> int \<Rightarrow> bool \<Rightarrow> sp_state \<Rightarrow> sp_state" where
  "borrow_loaned_message tid v ptr topic pubsub void s =
     ptr_ctor v ptr topic pubsub ENTRY_ID_NOT_ASSIGNED void (increment_borrowed_publisher_num tid s)"

text \<open>\<open>Publisher::publish\<close> and \<open>TypeErasedPublisher::publish\<close> on a message moved in; \<open>answer\<close> is the result of
  the ioctl, the addresses to release or an error, which ends the process.\<close>

definition publish :: "nat \<Rightarrow> string \<Rightarrow> int \<Rightarrow> nat \<Rightarrow> u64 list res \<Rightarrow> sp_state \<Rightarrow> sp_state" where
  "publish tid topic pid v answer s =
     (case handles s v of
        None \<Rightarrow> s
      | Some h \<Rightarrow>
          if \<not> sp_bool s h \<or> topic \<noteq> get_topic_name s h then emit Exited (s\<lparr>stopped := True\<rparr>)
          else
            let addr = sp_get s h;
                s1 = invalidate_all_references h s;
                s2 = decrement_borrowed_publisher_num tid s1
            in if stopped s2 then s2
               else
                 let s3 = emit (Published topic pid addr) s2 in
                 case answer of
                   Inl e \<Rightarrow> emit Exited (s3\<lparr>stopped := True\<rparr>)
                 | Inr rel \<Rightarrow> reset tid v (fold (\<lambda>a. emit (Deleted a)) rel s3))"

text \<open>\<open>cancel_message\<close> of a type-erased message.\<close>

definition cancel_message :: "nat \<Rightarrow> string \<Rightarrow> nat \<Rightarrow> sp_state \<Rightarrow> sp_state" where
  "cancel_message tid topic v s =
     (case handles s v of
        None \<Rightarrow> s
      | Some h \<Rightarrow>
          if \<not> sp_bool s h \<or> topic \<noteq> get_topic_name s h then emit Exited (s\<lparr>stopped := True\<rparr>)
          else
            let s1 = invalidate_all_references h s;
                s2 = decrement_borrowed_publisher_num tid s1
            in if stopped s2 then s2 else reset tid v (emit (Deleted (sp_get s h)) s2))"

text \<open>\<open>get_subscription_count_core\<close> on the counts the kernel returned: other process, same process,
  ROS 2, and whether either bridge exists.\<close>

definition get_subscription_count_core :: "32 word \<Rightarrow> 32 word \<Rightarrow> 32 word \<Rightarrow> bool \<Rightarrow> bool \<Rightarrow> 32 word" where
  "get_subscription_count_core other same ros2 a2r r2a =
     (let inter = (if a2r \<and> other > 0 then other - 1 else other);
          r = (if r2a \<and> ros2 > 0 then ros2 - 1 else ros2)
      in inter + same + r)"

section \<open>Runs\<close>

datatype sp_op =
    Borrow nat nat u64 string int bool
  | Receive nat u64 string int int
  | Default_Ctor nat bool
  | Copy_Ctor nat nat bool
  | Alias_Ctor nat nat u64 bool
  | Move_Ctor nat nat bool
  | Move_Alias_Ctor nat nat u64 bool
  | Cast_Copy nat nat bool
  | Cast_Move nat nat bool
  | Copy_Assign nat nat nat
  | Move_Assign nat nat nat
  | Reset nat nat
  | Destroy nat nat
  | Publish nat string int nat "u64 list res"
  | Cancel nat string nat

text \<open>A constructor runs on an object that does not exist yet, everything else on existing ones; the
  kernel hands out entry ids that are not negative and addresses that are not null.\<close>

fun sp_step :: "sp_op \<Rightarrow> sp_state \<Rightarrow> sp_state" where
  "sp_step (Borrow tid v p topic i void) s =
     (if handles s v = None \<and> p \<noteq> 0 then borrow_loaned_message tid v p topic i void s else s)"
| "sp_step (Receive v p topic i e) s =
     (if handles s v = None \<and> p \<noteq> 0 \<and> 0 \<le> e
      then emit (Received (next_block s) topic i e) (ptr_ctor v p topic i e False s) else s)"
| "sp_step (Default_Ctor v void) s = (if handles s v = None then set_handle v (Some (null_ptr void)) s else s)"
| "sp_step (Copy_Ctor v w void) s =
     (case handles s w of Some r \<Rightarrow> if handles s v = None then copy_ctor v r void s else s | None \<Rightarrow> s)"
| "sp_step (Alias_Ctor v w p void) s =
     (case handles s w of Some r \<Rightarrow> if handles s v = None then alias_ctor v r p void s else s | None \<Rightarrow> s)"
| "sp_step (Move_Ctor v w void) s =
     (case handles s w of Some r \<Rightarrow> if handles s v = None then move_ctor v w r void s else s | None \<Rightarrow> s)"
| "sp_step (Move_Alias_Ctor v w p void) s =
     (case handles s w of Some r \<Rightarrow> if handles s v = None then move_alias_ctor v w r p void s else s | None \<Rightarrow> s)"
| "sp_step (Cast_Copy v w void) s =
     (case handles s w of Some r \<Rightarrow> if handles s v = None then static_cast_copy v r void s else s | None \<Rightarrow> s)"
| "sp_step (Cast_Move v w void) s =
     (case handles s w of Some r \<Rightarrow> if handles s v = None then static_cast_move v w r void s else s | None \<Rightarrow> s)"
| "sp_step (Copy_Assign tid v w) s = copy_assign tid v w s"
| "sp_step (Move_Assign tid v w) s = move_assign tid v w s"
| "sp_step (Reset tid v) s = reset tid v s"
| "sp_step (Destroy tid v) s = destroy tid v s"
| "sp_step (Publish tid topic i v ans) s = publish tid topic i v ans s"
| "sp_step (Cancel tid topic v) s = cancel_message tid topic v s"

text \<open>The counter is 32 bits wide, so the runs considered have fewer than 2 to the 32 handles at a time.\<close>

inductive sp_reach :: "sp_state \<Rightarrow> bool" where
  start: "sp_reach init_sp"
| step: "sp_reach s \<Longrightarrow> \<not> stopped s \<Longrightarrow> card (dom (handles (sp_step op s))) < 2 ^ 32 \<Longrightarrow> sp_reach (sp_step op s)"

end
