(* ===== verification/Smart_Pointer_Inv.thy ===== *)
theory Smart_Pointer_Inv
  imports Smart_Pointer
begin

text \<open>
  The ownership invariant of the message handles: a control block exists exactly as long as a handle
  points to it, and its counter is the number of those handles. Every operation keeps it, provided
  the process goes on and has fewer handles than the counter can count. On top of it, the trace: a
  received message is released to the kernel once, when its last handle goes, and not before.
\<close>

section \<open>Ownership\<close>

definition links :: "sp_state \<Rightarrow> nat \<Rightarrow> nat option" where
  "links s v = (case handles s v of None \<Rightarrow> None | Some h \<Rightarrow> sp_control h)"

definition owners :: "(nat \<Rightarrow> nat option) \<Rightarrow> nat \<Rightarrow> nat set" where
  "owners L a = {v. L v = Some a}"

definition counted :: "(nat \<Rightarrow> nat option) \<Rightarrow> (nat \<Rightarrow> control_block option) \<Rightarrow> nat \<Rightarrow> bool" where
  "counted L B n \<longleftrightarrow> finite (dom L) \<and> (\<forall>v a. L v = Some a \<longrightarrow> B a \<noteq> None) \<and>
     (\<forall>a b. B a = Some b \<longrightarrow> a < n \<and> owners L a \<noteq> {} \<and> ref_count b = of_nat (card (owners L a)))"

lemma owners_upd:
  "owners (L(v := x)) a = (if x = Some a then insert v (owners L a) else owners L a - {v})"
  by (auto simp: owners_def)

lemma owners_dom: "owners L a \<subseteq> dom L"
  by (auto simp: owners_def)

lemma finite_owners: "counted L B n \<Longrightarrow> finite (owners L a)"
  by (rule finite_subset [OF owners_dom]) (simp add: counted_def)

lemma counted_fresh: "counted L B n \<Longrightarrow> B n = None \<and> owners L n = {}"
  by (cases "B n") (auto simp: counted_def owners_def)

lemma counted_new:
  assumes c: "counted L B n" and v: "L v = None" and b: "ref_count b = 1"
  shows "counted (L(v \<mapsto> n)) (B(n \<mapsto> b)) (n + 1)"
proof -
  have "owners L a - {v} = owners L a" for a using v by (auto simp: owners_def)
  then show ?thesis using c b counted_fresh [OF c] by (auto simp: counted_def owners_upd less_SucI)
qed

lemma counted_add:
  assumes c: "counted L B n" and v: "L v = None" and a: "B a = Some b"
  shows "counted (L(v \<mapsto> a)) (B(a \<mapsto> b\<lparr>ref_count := ref_count b + 1\<rparr>)) n"
proof -
  have out: "v \<notin> owners L c" "owners L c - {v} = owners L c" for c using v by (auto simp: owners_def)
  have "of_nat (card (insert v (owners L a))) = ref_count b + 1"
    using c a out(1) finite_owners [OF c] by (simp add: counted_def)
  then show ?thesis using c a out(2) by (auto simp: counted_def owners_upd)
qed

lemma counted_unlink_none: "counted L B n \<Longrightarrow> L v = None \<Longrightarrow> counted (L(v := None)) B n"
  by (simp add: fun_upd_idem)

lemma counted_move:
  assumes c: "counted L B n" and v: "L v = None" and "v \<noteq> w"
  shows "counted (L(v := L w, w := None)) B n"
proof (cases "L w")
  case None
  then have "L(v := L w, w := None) = L" using v by (auto simp: fun_eq_iff)
  then show ?thesis using c by simp
next
  case (Some a)
  let ?L = "L(v := L w, w := None)"
  have own: "owners ?L c = (if c = a then insert v (owners L a - {w}) else owners L c)" for c
    using Some v assms(3) by (auto simp: owners_def)
  have "w \<in> owners L a" "v \<notin> owners L a" using Some v by (auto simp: owners_def)
  then have "card (insert v (owners L a - {w})) = Suc (card (owners L a - {w}))"
    using finite_owners [OF c] by (intro card_insert_disjoint) auto
  also have "\<dots> = card (owners L a)" by (rule card_Suc_Diff1 [OF finite_owners [OF c] \<open>w \<in> owners L a\<close>])
  finally have "card (insert v (owners L a - {w})) = card (owners L a)" .
  moreover have "\<forall>u d. ?L u = Some d \<longrightarrow> B d \<noteq> None" using c Some by (auto simp: counted_def)
  ultimately show ?thesis using c unfolding counted_def own by auto
qed

lemma counted_drop:
  assumes c: "counted L B n" and v: "L v = Some a" and b: "B a = Some b" and few: "card (dom L) < 2 ^ 32"
  shows "if ref_count b = 1 then counted (L(v := None)) (B(a := None)) n
    else counted (L(v := None)) (B(a \<mapsto> b\<lparr>ref_count := ref_count b - 1\<rparr>)) n"
proof -
  have fin: "finite (owners L a)" by (rule finite_owners [OF c])
  have vin: "v \<in> owners L a" using v by (simp add: owners_def)
  have "card (owners L a) \<le> card (dom L)" using c by (intro card_mono owners_dom) (simp add: counted_def)
  then have small: "card (owners L a) < 2 ^ 32" using few by simp
  have rc: "ref_count b = of_nat (card (owners L a))" using c b by (simp add: counted_def)
  have one: "ref_count b = 1 \<longleftrightarrow> card (owners L a) = 1"
    using small by (simp add: rc word_unat_eq_iff unat_of_nat)
  have others: "owners (L(v := None)) d = owners L d" if "d \<noteq> a" for d using v that by (auto simp: owners_def)
  have this_one: "owners (L(v := None)) a = owners L a - {v}" by (simp add: owners_upd)
  show ?thesis
  proof (cases "ref_count b = 1")
    case True
    then have "owners L a = {v}" using one vin by (metis card_1_singletonE singletonD)
    then have "L u \<noteq> Some a" if "u \<noteq> v" for u using that by (auto simp: owners_def)
    then show ?thesis using c True others by (auto simp: counted_def)
  next
    case False
    have "card (owners L a) \<noteq> 0" using fin vin by auto
    then have "2 \<le> card (owners L a)" using False one by linarith
    then have "owners L a - {v} \<noteq> {}" using card_mono [of "{v}" "owners L a"] by fastforce
    moreover have "of_nat (card (owners L a - {v})) = ref_count b - 1"
      using fin vin \<open>2 \<le> card (owners L a)\<close> by (simp add: rc of_nat_diff)
    ultimately show ?thesis using c b False others this_one by (auto simp: counted_def)
  qed
qed

lemma counted_same_counts:
  assumes "counted L B n" and "\<And>a. map_option ref_count (B' a) = map_option ref_count (B a)"
  shows "counted L B' n"
proof -
  have none: "B' a = None \<longleftrightarrow> B a = None" for a using assms(2) [of a] by (metis map_option_is_None)
  have "\<exists>b0. B a = Some b0 \<and> ref_count b = ref_count b0" if "B' a = Some b" for a b
    using assms(2) [of a] that by (cases "B a") auto
  then show ?thesis using assms(1) none unfolding counted_def by (metis (no_types, opaque_lifting))
qed

section \<open>The invariant of the process\<close>

definition sp_inv :: "sp_state \<Rightarrow> bool" where
  "sp_inv s \<longleftrightarrow> finite (dom (handles s)) \<and> counted (links s) (blocks s) (next_block s)"

lemma updates_simps [simp]:
  "handles (emit e s) = handles s" "blocks (emit e s) = blocks s" "next_block (emit e s) = next_block s"
  "stopped (emit e s) = stopped s" "trace (emit e s) = e # trace s"
  "borrowed_publisher_num (emit e s) = borrowed_publisher_num s"
  "handles (set_handle v h s) = (handles s)(v := h)" "blocks (set_handle v h s) = blocks s"
  "next_block (set_handle v h s) = next_block s" "stopped (set_handle v h s) = stopped s" "trace (set_handle v h s) = trace s"
  "borrowed_publisher_num (set_handle v h s) = borrowed_publisher_num s"
  "handles (set_block a b s) = handles s" "blocks (set_block a b s) = (blocks s)(a := b)"
  "next_block (set_block a b s) = next_block s" "stopped (set_block a b s) = stopped s" "trace (set_block a b s) = trace s"
  "borrowed_publisher_num (set_block a b s) = borrowed_publisher_num s"
  by (simp_all add: emit_def set_handle_def set_block_def)

lemma links_simps [simp]:
  "links (emit e s) = links s" "links (set_block a b s) = links s"
  "links (set_handle v h s) = (links s)(v := (case h of None \<Rightarrow> None | Some x \<Rightarrow> sp_control x))"
  "links (s\<lparr>stopped := c\<rparr>) = links s" "links (s\<lparr>next_block := n\<rparr>) = links s" "links (s\<lparr>borrowed_publisher_num := f\<rparr>) = links s"
  by (auto simp: links_def fun_eq_iff)

lemma links_dom: "dom (links s) \<subseteq> dom (handles s)"
  by (auto simp: links_def split: option.splits)

lemma dec_simps [simp]:
  "handles (decrement_borrowed_publisher_num tid s) = handles s" "links (decrement_borrowed_publisher_num tid s) = links s"
  "blocks (decrement_borrowed_publisher_num tid s) = blocks s"
  "next_block (decrement_borrowed_publisher_num tid s) = next_block s"
  by (simp_all add: decrement_borrowed_publisher_num_def)

lemma inc_simps [simp]:
  "handles (increment_borrowed_publisher_num tid s) = handles s" "links (increment_borrowed_publisher_num tid s) = links s"
  "blocks (increment_borrowed_publisher_num tid s) = blocks s"
  "next_block (increment_borrowed_publisher_num tid s) = next_block s"
  "trace (increment_borrowed_publisher_num tid s) = trace s" "stopped (increment_borrowed_publisher_num tid s) = stopped s"
  by (simp_all add: increment_borrowed_publisher_num_def)

lemma inv_emit [simp]: "sp_inv (emit e s) = sp_inv s"
  by (simp add: sp_inv_def)

lemma inv_dec [simp]: "sp_inv (decrement_borrowed_publisher_num tid s) = sp_inv s"
  by (simp add: sp_inv_def)

lemma inv_ptr_ctor:
  assumes "sp_inv s" and "handles s v = None"
  shows "sp_inv (ptr_ctor v p topic i e void s)"
proof -
  have v: "links s v = None" using assms(2) by (simp add: links_def)
  then show ?thesis
    using assms counted_new [of "links s" "blocks s" "next_block s" v "new_block topic i e"]
    by (simp add: sp_inv_def ptr_ctor_def null_ptr_def new_block_def counted_unlink_none)
qed

text \<open>What remains after \<open>reset\<close>, when the process goes on.\<close>

lemma reset_cases:
  assumes "\<not> stopped (reset tid v s)"
  obtains (idle) "reset tid v s = s" "links s v = None \<or> (\<exists>a. links s v = Some a \<and> blocks s a = None)"
  | (more) h a b where "handles s v = Some h" "sp_control h = Some a" "blocks s a = Some b" "ref_count b \<noteq> 1"
      "handles (reset tid v s) = (handles s)(v \<mapsto> h\<lparr>sp_ptr := 0, sp_control := None\<rparr>)"
      "blocks (reset tid v s) = (blocks s)(a \<mapsto> b\<lparr>ref_count := ref_count b - 1\<rparr>)"
      "next_block (reset tid v s) = next_block s" "trace (reset tid v s) = trace s"
  | (last) h a b where "handles s v = Some h" "sp_control h = Some a" "blocks s a = Some b" "ref_count b = 1"
      "handles (reset tid v s) = (handles s)(v \<mapsto> h\<lparr>sp_ptr := 0, sp_control := None\<rparr>)"
      "blocks (reset tid v s) = (blocks s)(a := None)" "next_block (reset tid v s) = next_block s"
      "trace (reset tid v s) =
        (if cb_entry_id b \<noteq> ENTRY_ID_NOT_ASSIGNED then [Released a (cb_topic_name b) (cb_pubsub_id b) (cb_entry_id b)]
         else if cb_valid b then [Deleted (sp_ptr h)] else []) @ trace s"
proof (cases "links s v")
  case None
  then have "reset tid v s = s" by (auto simp: links_def reset_def split: option.splits)
  then show thesis using idle None by blast
next
  case (Some a)
  then obtain h where h: "handles s v = Some h" "sp_control h = Some a" by (auto simp: links_def split: option.splits)
  show thesis
  proof (cases "blocks s a")
    case None
    then have "reset tid v s = s" using h by (simp add: reset_def)
    then show thesis using idle Some None by blast
  next
    case b: (Some b)
    show thesis
    proof (cases "ref_count b = 1")
      case False
      then show thesis using more [OF h b False] assms h b by (simp add: reset_def Let_def split: if_splits)
    next
      case True
      let ?s = "set_block a (Some (b\<lparr>ref_count := 0\<rparr>)) s"
      have r: "reset tid v s = (let s2 = drop_last tid a h (b\<lparr>ref_count := 0\<rparr>) ?s in
          if stopped s2 then s2 else set_handle v (Some (h\<lparr>sp_ptr := 0, sp_control := None\<rparr>)) s2)"
        using h b True by (simp add: reset_def Let_def)
      have go: "\<not> stopped (drop_last tid a h (b\<lparr>ref_count := 0\<rparr>) ?s)" using assms by (auto simp: r Let_def split: if_splits)
      then have d: "handles (drop_last tid a h (b\<lparr>ref_count := 0\<rparr>) ?s) = handles s"
        "blocks (drop_last tid a h (b\<lparr>ref_count := 0\<rparr>) ?s) = (blocks s)(a := None)"
        "next_block (drop_last tid a h (b\<lparr>ref_count := 0\<rparr>) ?s) = next_block s"
        "trace (drop_last tid a h (b\<lparr>ref_count := 0\<rparr>) ?s) =
          (if cb_entry_id b \<noteq> ENTRY_ID_NOT_ASSIGNED then [Released a (cb_topic_name b) (cb_pubsub_id b) (cb_entry_id b)]
           else if cb_valid b then [Deleted (sp_ptr h)] else []) @ trace s"
        by (auto simp: drop_last_def decrement_borrowed_publisher_num_def Let_def split: if_splits)
      show thesis using last [OF h b True] go d by (simp add: r Let_def)
    qed
  qed
qed

lemma inv_reset:
  assumes inv: "sp_inv s" and few: "card (dom (handles s)) < 2 ^ 32" and go: "\<not> stopped (reset tid v s)"
  shows "sp_inv (reset tid v s)" and "links (reset tid v s) = (links s)(v := None)"
    and "dom (handles (reset tid v s)) = dom (handles s)"
proof -
  have c: "counted (links s) (blocks s) (next_block s)" using inv by (simp add: sp_inv_def)
  have "card (dom (links s)) \<le> card (dom (handles s))" using inv by (intro card_mono links_dom) (simp add: sp_inv_def)
  then have few': "card (dom (links s)) < 2 ^ 32" using few by simp
  have upd: "links s' = (links s)(v := None)" if "handles s' = (handles s)(v \<mapsto> h\<lparr>sp_ptr := 0, sp_control := None\<rparr>)" for s' h
    using that by (auto simp: links_def fun_eq_iff)
  from go have "sp_inv (reset tid v s) \<and> links (reset tid v s) = (links s)(v := None) \<and>
    dom (handles (reset tid v s)) = dom (handles s)"
  proof (cases rule: reset_cases)
    case idle
    then have "links s v = None" using c unfolding counted_def by blast
    then show ?thesis using idle(1) inv by (auto simp: fun_upd_idem)
  next
    case (more h a b)
    have "links s v = Some a" using more by (simp add: links_def)
    from counted_drop [OF c this more(3) few'] show ?thesis
      using upd [OF more(5)] more(1,4,5,6,7) inv by (auto simp: sp_inv_def)
  next
    case (last h a b)
    have "links s v = Some a" using last by (simp add: links_def)
    from counted_drop [OF c this last(3) few'] show ?thesis
      using upd [OF last(5)] last(1,4,5,6,7) inv by (auto simp: sp_inv_def)
  qed
  then show "sp_inv (reset tid v s)" "links (reset tid v s) = (links s)(v := None)"
    "dom (handles (reset tid v s)) = dom (handles s)" by auto
qed

section \<open>Every operation keeps the invariant\<close>

lemma inv_alias:
  assumes inv: "sp_inv s" and v: "links s v = None" and r: "\<And>a. sp_control r = Some a \<Longrightarrow> blocks s a \<noteq> None"
  shows "sp_inv (alias_ctor v r p void s)"
proof (cases "sp_control r")
  case None
  then show ?thesis using inv v by (simp add: sp_inv_def alias_ctor_def counted_unlink_none)
next
  case (Some a)
  then obtain b where "blocks s a = Some b" using r by auto
  then show ?thesis
    using counted_add [of "links s" "blocks s" "next_block s" v a b] inv v Some
    by (simp add: sp_inv_def alias_ctor_def increment_def)
qed

lemma inv_move_alias:
  assumes inv: "sp_inv s" and v: "links s v = None" and w: "handles s w = Some r" and "v \<noteq> w"
  shows "sp_inv (move_alias_ctor v w r p void s)"
proof -
  have "links s w = sp_control r" using w by (simp add: links_def)
  moreover have "finite (dom ((handles s)(v \<mapsto> x, w \<mapsto> y)))" for x y using inv by (simp add: sp_inv_def)
  ultimately show ?thesis
    using counted_move [of "links s" "blocks s" "next_block s" v w] inv v assms(4)
    by (simp add: sp_inv_def move_alias_ctor_def null_ptr_def)
qed

lemma inv_invalidate: "sp_inv s \<Longrightarrow> sp_inv (invalidate_all_references h s)"
proof (cases "sp_control h")
  case (Some a)
  assume "sp_inv s"
  moreover have "counted (links s) ((blocks s)(a := map_option (\<lambda>b. b\<lparr>cb_valid := False\<rparr>) (blocks s a))) (next_block s)"
    if "counted (links s) (blocks s) (next_block s)"
    by (rule counted_same_counts [OF that]) (cases "blocks s a"; simp)
  ultimately show ?thesis using Some by (simp add: sp_inv_def invalidate_all_references_def)
qed (simp add: invalidate_all_references_def)

lemma invalidate_simps [simp]:
  "handles (invalidate_all_references h s) = handles s" "links (invalidate_all_references h s) = links s"
  "trace (invalidate_all_references h s) = trace s" "next_block (invalidate_all_references h s) = next_block s"
  "stopped (invalidate_all_references h s) = stopped s"
  by (auto simp: invalidate_all_references_def split: option.splits)

lemma emit_all_simps [simp]:
  "handles (fold (\<lambda>a. emit (Deleted a)) rel s) = handles s" "sp_inv (fold (\<lambda>a. emit (Deleted a)) rel s) = sp_inv s"
  "blocks (fold (\<lambda>a. emit (Deleted a)) rel s) = blocks s" "next_block (fold (\<lambda>a. emit (Deleted a)) rel s) = next_block s"
  "links (fold (\<lambda>a. emit (Deleted a)) rel s) = links s" "stopped (fold (\<lambda>a. emit (Deleted a)) rel s) = stopped s"
  "trace (fold (\<lambda>a. emit (Deleted a)) rel s) = rev (map Deleted rel) @ trace s"
  by (induction rel arbitrary: s) simp_all

lemma block_exists: "sp_inv s \<Longrightarrow> handles s w = Some r \<Longrightarrow> sp_control r = Some a \<Longrightarrow> blocks s a \<noteq> None"
  unfolding sp_inv_def counted_def links_def by (metis option.simps(5))

lemma reset_other: "w \<noteq> v \<Longrightarrow> \<not> stopped (reset tid v s) \<Longrightarrow> handles (reset tid v s) w = handles s w"
  by (erule reset_cases) auto

lemma inv_assign:
  assumes inv: "sp_inv s" and few: "card (dom (handles s)) < 2 ^ 32"
  shows "\<not> stopped (copy_assign tid v w s) \<Longrightarrow> sp_inv (copy_assign tid v w s)"
    and "\<not> stopped (move_assign tid v w s) \<Longrightarrow> sp_inv (move_assign tid v w s)"
proof -
  have "sp_inv (copy_ctor v r void (reset tid v s))" "sp_inv (move_ctor v w r void (reset tid v s))"
    if go: "\<not> stopped (reset tid v s)" and w: "handles s w = Some r" "v \<noteq> w" for r void
  proof -
    note R = inv_reset [OF inv few go]
    have l: "links (reset tid v s) v = None" using R(2) by simp
    have w': "handles (reset tid v s) w = Some r" using reset_other [OF w(2) [symmetric] go] w(1) by simp
    show "sp_inv (copy_ctor v r void (reset tid v s))"
      unfolding copy_ctor_def by (rule inv_alias [OF R(1) l block_exists [OF R(1) w']])
    show "sp_inv (move_ctor v w r void (reset tid v s))"
      unfolding move_ctor_def by (rule inv_move_alias [OF R(1) l w' w(2)])
  qed
  then show "\<not> stopped (copy_assign tid v w s) \<Longrightarrow> sp_inv (copy_assign tid v w s)"
    "\<not> stopped (move_assign tid v w s) \<Longrightarrow> sp_inv (move_assign tid v w s)"
    using inv by (auto simp: copy_assign_def move_assign_def Let_def split: option.splits if_splits)
qed

lemma inv_destroy:
  assumes inv: "sp_inv s" and few: "card (dom (handles s)) < 2 ^ 32" and go: "\<not> stopped (destroy tid v s)"
  shows "sp_inv (destroy tid v s)"
proof -
  have go': "\<not> stopped (reset tid v s)" using go by (auto simp: destroy_def Let_def split: if_splits)
  note R = inv_reset [OF inv few go']
  have "links (reset tid v s) v = None" using R(2) by simp
  then show ?thesis using R(1) go' by (simp add: destroy_def Let_def sp_inv_def counted_unlink_none)
qed

lemma inv_publish:
  assumes inv: "sp_inv s" and few: "card (dom (handles s)) < 2 ^ 32"
  shows "\<not> stopped (publish tid topic i v ans s) \<Longrightarrow> sp_inv (publish tid topic i v ans s)"
    and "\<not> stopped (cancel_message tid topic v s) \<Longrightarrow> sp_inv (cancel_message tid topic v s)"
  using inv few inv_invalidate [OF inv]
  by (auto simp: publish_def cancel_message_def Let_def split: option.splits if_splits sum.splits intro!: inv_reset)

lemma inv_step:
  assumes inv: "sp_inv s" and few: "card (dom (handles s)) < 2 ^ 32" and go: "\<not> stopped (sp_step op s)"
  shows "sp_inv (sp_step op s)"
proof (cases op)
  case (Borrow tid v p topic i void)
  have "sp_inv (increment_borrowed_publisher_num tid s)" using inv by (simp add: sp_inv_def)
  then show ?thesis using Borrow inv inv_ptr_ctor by (simp add: borrow_loaned_message_def)
next
  case (Receive v p topic i e)
  then show ?thesis using inv inv_ptr_ctor by simp
next
  case (Default_Ctor v void)
  then show ?thesis using inv by (auto simp: sp_inv_def null_ptr_def links_def intro!: counted_unlink_none)
next
  case (Copy_Ctor v w void)
  then show ?thesis using inv inv_alias [OF inv] block_exists [OF inv]
    by (auto simp: copy_ctor_def links_def split: option.splits)
next
  case (Alias_Ctor v w p void)
  then show ?thesis using inv inv_alias [OF inv] block_exists [OF inv] by (auto simp: links_def split: option.splits)
next
  case (Move_Ctor v w void)
  then show ?thesis using inv inv_move_alias [OF inv, of v w]
    by (cases "v = w") (auto simp: move_ctor_def links_def split: option.splits)
next
  case (Move_Alias_Ctor v w p void)
  then show ?thesis using inv inv_move_alias [OF inv, of v w]
    by (cases "v = w") (auto simp: links_def split: option.splits)
next
  case (Cast_Copy v w void)
  then show ?thesis using inv inv_alias [OF inv] block_exists [OF inv]
    by (auto simp: static_cast_copy_def links_def split: option.splits)
next
  case (Cast_Move v w void)
  then show ?thesis using inv inv_move_alias [OF inv, of v w]
    by (cases "v = w") (auto simp: static_cast_move_def links_def split: option.splits)
qed (use inv go inv_assign [OF inv few] inv_reset(1) [OF inv few] inv_destroy [OF inv few] inv_publish [OF inv few] in auto)

lemma reach_inv: "sp_reach s \<Longrightarrow> card (dom (handles s)) < 2 ^ 32 \<and> (\<not> stopped s \<longrightarrow> sp_inv s)"
proof (induction rule: sp_reach.induct)
  case start
  have "links init_sp = Map.empty" by (auto simp: links_def init_sp_def)
  then show ?case by (simp add: sp_inv_def counted_def) (simp add: init_sp_def)
next
  case (step s op)
  then show ?case using inv_step [of s op] by simp
qed

section \<open>The trace\<close>

fun about :: "nat \<Rightarrow> sp_event \<Rightarrow> bool" where
  "about a (Received c t i e) = (a = c)"
| "about a (Released c t i e) = (a = c)"
| "about a _ = False"

text \<open>What the trace says of block \<open>a\<close>, newest first, against what the store says of it.\<close>

definition story_ok :: "nat \<Rightarrow> nat \<Rightarrow> control_block option \<Rightarrow> sp_event list \<Rightarrow> bool" where
  "story_ok a n b evs \<longleftrightarrow>
     (n \<le> a \<longrightarrow> evs = []) \<and>
     (\<forall>x. b = Some x \<longrightarrow> evs = [] \<and> cb_entry_id x = ENTRY_ID_NOT_ASSIGNED \<or>
        evs = [Received a (cb_topic_name x) (cb_pubsub_id x) (cb_entry_id x)] \<and> cb_entry_id x \<noteq> ENTRY_ID_NOT_ASSIGNED) \<and>
     (b = None \<longrightarrow> evs = [] \<or> (\<exists>t i e. evs = [Released a t i e, Received a t i e]))"

definition tr_ok :: "sp_state \<Rightarrow> bool" where
  "tr_ok s \<longleftrightarrow> (\<forall>a. story_ok a (next_block s) (blocks s a) (filter (about a) (trace s)))"

definition ident :: "control_block \<Rightarrow> string \<times> int \<times> int" where
  "ident b = (cb_topic_name b, cb_pubsub_id b, cb_entry_id b)"

lemma tr_same:
  assumes ok: "tr_ok s" and n: "next_block s' = next_block s"
    and b: "\<And>a. map_option ident (blocks s' a) = map_option ident (blocks s a)"
    and t: "\<And>a. filter (about a) (trace s') = filter (about a) (trace s)"
  shows "tr_ok s'"
proof -
  have "story_ok a (next_block s) (blocks s' a) evs = story_ok a (next_block s) (blocks s a) evs" for a evs
    using b [of a] by (cases "blocks s a"; cases "blocks s' a") (auto simp: story_ok_def ident_def)
  then show ?thesis using ok by (simp add: tr_ok_def n t)
qed

lemma tr_emit: "tr_ok s \<Longrightarrow> (\<And>a. \<not> about a e) \<Longrightarrow> tr_ok (emit e s)"
  by (rule tr_same) auto

lemma tr_set_handle [simp]: "tr_ok (set_handle v h s) = tr_ok s"
  by (simp add: tr_ok_def)

lemma tr_dec:
  assumes ok: "tr_ok s"
  shows "tr_ok (decrement_borrowed_publisher_num tid s)"
  by (rule tr_same [OF ok]) (simp_all add: decrement_borrowed_publisher_num_def)

lemma tr_invalidate:
  assumes ok: "tr_ok s"
  shows "tr_ok (invalidate_all_references h s)"
proof (rule tr_same [OF ok])
  fix a
  show "map_option ident (blocks (invalidate_all_references h s) a) = map_option ident (blocks s a)"
    by (cases "sp_control h"; cases "blocks s a") (auto simp: invalidate_all_references_def ident_def)
qed simp_all

lemma tr_reset:
  assumes ok: "tr_ok s" and go: "\<not> stopped (reset tid v s)"
  shows "tr_ok (reset tid v s)"
  using go
proof (cases rule: reset_cases)
  case idle
  then show ?thesis using ok by simp
next
  case (more h a b)
  show ?thesis by (rule tr_same [OF ok more(7)]) (use more in \<open>auto simp: ident_def\<close>)
next
  case (last h a b)
  have "story_ok c (next_block s) (((blocks s)(a := None)) c) (filter (about c) (trace (reset tid v s)))" for c
    using ok [unfolded tr_ok_def, rule_format, of c] last(3) by (auto simp: story_ok_def last(8))
  then show ?thesis by (simp add: tr_ok_def last(6,7))
qed

lemma tr_alias:
  assumes ok: "tr_ok s"
  shows "tr_ok (alias_ctor v r p void s)"
proof (rule tr_same [OF ok])
  fix a
  show "map_option ident (blocks (alias_ctor v r p void s) a) = map_option ident (blocks s a)"
    by (cases "sp_control r"; cases "blocks s a") (auto simp: alias_ctor_def increment_def ident_def)
qed (cases "sp_control r"; simp add: alias_ctor_def increment_def)+

lemma tr_ptr_ctor:
  assumes ok: "tr_ok s" and p: "p \<noteq> 0"
  shows "tr_ok (ptr_ctor v p topic i ENTRY_ID_NOT_ASSIGNED void s)"
    and "0 \<le> e \<Longrightarrow> tr_ok (emit (Received (next_block s) topic i e) (ptr_ctor v p topic i e void s))"
proof -
  have old: "story_ok a (Suc (next_block s)) (blocks s a) (filter (about a) (trace s))" for a
    using ok [unfolded tr_ok_def, rule_format, of a] by (auto simp: story_ok_def)
  have none: "filter (about (next_block s)) (trace s) = []"
    using ok [unfolded tr_ok_def, rule_format, of "next_block s"] by (simp add: story_ok_def)
  have evs: "story_ok a (Suc (next_block s)) (((blocks s)(next_block s \<mapsto> b)) a) (if a = next_block s then ev else filter (about a) (trace s))"
    if "story_ok (next_block s) (Suc (next_block s)) (Some b) ev" for a b ev using old that by simp
  show "tr_ok (ptr_ctor v p topic i ENTRY_ID_NOT_ASSIGNED void s)"
    unfolding tr_ok_def
  proof
    fix a
    show "story_ok a (next_block (ptr_ctor v p topic i ENTRY_ID_NOT_ASSIGNED void s))
        (blocks (ptr_ctor v p topic i ENTRY_ID_NOT_ASSIGNED void s) a)
        (filter (about a) (trace (ptr_ctor v p topic i ENTRY_ID_NOT_ASSIGNED void s)))"
      using evs [of "new_block topic i ENTRY_ID_NOT_ASSIGNED" "[]" a] none p
      by (cases "a = next_block s") (auto simp: ptr_ctor_def story_ok_def new_block_def)
  qed
  assume e: "0 \<le> e"
  show "tr_ok (emit (Received (next_block s) topic i e) (ptr_ctor v p topic i e void s))"
    unfolding tr_ok_def
  proof
    fix a
    show "story_ok a (next_block (emit (Received (next_block s) topic i e) (ptr_ctor v p topic i e void s)))
        (blocks (emit (Received (next_block s) topic i e) (ptr_ctor v p topic i e void s)) a)
        (filter (about a) (trace (emit (Received (next_block s) topic i e) (ptr_ctor v p topic i e void s))))"
      using evs [of "new_block topic i e" "[Received (next_block s) topic i e]" a] none p e
      by (cases "a = next_block s") (auto simp: ptr_ctor_def story_ok_def new_block_def ENTRY_ID_NOT_ASSIGNED_def)
  qed
qed

lemma tr_publish:
  assumes ok: "tr_ok s"
  shows "\<not> stopped (publish tid topic i v ans s) \<Longrightarrow> tr_ok (publish tid topic i v ans s)"
    and "\<not> stopped (cancel_message tid topic v s) \<Longrightarrow> tr_ok (cancel_message tid topic v s)"
proof -
  have many: "tr_ok s' \<Longrightarrow> tr_ok (fold (\<lambda>a. emit (Deleted a)) rel s')" for rel s'
  proof (induction rel arbitrary: s')
    case (Cons a rel)
    have "tr_ok (emit (Deleted a) s')" by (rule tr_emit [OF Cons(2)]) simp
    then show ?case using Cons(1) by simp
  qed simp
  show "\<not> stopped (publish tid topic i v ans s) \<Longrightarrow> tr_ok (publish tid topic i v ans s)"
    "\<not> stopped (cancel_message tid topic v s) \<Longrightarrow> tr_ok (cancel_message tid topic v s)"
    using ok
    by (auto simp: publish_def cancel_message_def Let_def split: option.splits if_splits sum.splits
        intro!: tr_reset many tr_emit tr_dec tr_invalidate)
qed

lemma tr_step:
  assumes ok: "tr_ok s" and go: "\<not> stopped (sp_step op s)"
  shows "tr_ok (sp_step op s)"
proof (cases op)
  case (Borrow tid v p topic i void)
  have "tr_ok (increment_borrowed_publisher_num tid s)" by (rule tr_same [OF ok]) simp_all
  then show ?thesis using Borrow ok tr_ptr_ctor(1) by (simp add: borrow_loaned_message_def)
next
  case (Copy_Assign tid v w)
  then show ?thesis using ok go
    by (auto simp: copy_assign_def copy_ctor_def Let_def split: option.splits if_splits intro!: tr_alias tr_reset)
next
  case (Move_Assign tid v w)
  then show ?thesis using ok go
    by (auto simp: move_assign_def move_ctor_def move_alias_ctor_def Let_def split: option.splits if_splits intro!: tr_reset)
next
  case (Destroy tid v)
  then show ?thesis using ok go by (auto simp: destroy_def Let_def split: if_splits intro!: tr_reset)
qed (use ok go tr_reset [OF ok] tr_publish [OF ok] tr_ptr_ctor(2) [OF ok] in
    \<open>auto simp: copy_ctor_def move_ctor_def move_alias_ctor_def static_cast_copy_def static_cast_move_def
      split: option.splits intro!: tr_alias\<close>)

lemma reach_tr: "sp_reach s \<Longrightarrow> \<not> stopped s \<longrightarrow> tr_ok s"
proof (induction rule: sp_reach.induct)
  case start
  then show ?case by (simp add: init_sp_def tr_ok_def story_ok_def)
next
  case (step s op)
  then show ?case using tr_step [of s op] by simp
qed

end
