(* ===== verification/Smart_Pointer_Theorems.thy ===== *)
theory Smart_Pointer_Theorems
  imports Smart_Pointer_Inv
begin

text \<open>
  What the message handles guarantee in every run of a process, and where the guarantees end: the
  thread-local borrow counter and the aliasing constructor.
\<close>

definition holders :: "sp_state \<Rightarrow> nat \<Rightarrow> nat set" where
  "holders s a = {v. \<exists>h. handles s v = Some h \<and> sp_control h = Some a}"

lemma holders_owners: "holders s a = owners (links s) a"
  by (auto simp: holders_def owners_def links_def split: option.splits)

text \<open>A run for the examples: a message is received, copied, and one of the two handles destroyed; another
  message is borrowed and copied.\<close>

lemmas sp_eval = borrow_loaned_message_def increment_borrowed_publisher_num_def decrement_borrowed_publisher_num_def
  ptr_ctor_def copy_ctor_def alias_ctor_def increment_def destroy_def reset_def drop_last_def new_block_def null_ptr_def
  emit_def set_handle_def set_block_def ENTRY_ID_NOT_ASSIGNED_def init_sp_def Let_def

definition demo_received :: sp_state where
  "demo_received = sp_step (Destroy 0 7) (sp_step (Copy_Ctor 8 7 False) (sp_step (Receive 7 4096 ''/t'' 2 5) init_sp))"

definition demo_borrowed :: sp_state where
  "demo_borrowed = sp_step (Copy_Ctor 8 7 False) (sp_step (Borrow 0 7 4096 ''/t'' 2 False) init_sp)"

lemma demo_received_reach: "sp_reach demo_received"
  unfolding demo_received_def
  by (intro sp_reach.step sp_reach.start) (simp_all add: sp_eval)

lemma demo_borrowed_reach: "sp_reach demo_borrowed"
  unfolding demo_borrowed_def
  by (intro sp_reach.step sp_reach.start) (simp_all add: sp_eval)

lemma demo_received_eq:
  "trace demo_received = [Received 0 ''/t'' 2 5]" "\<not> stopped demo_received"
  "handles demo_received = [8 \<mapsto> \<lparr>sp_ptr = 4096, sp_control = Some 0, is_void = False\<rparr>]"
  "blocks demo_received = [0 \<mapsto> \<lparr>cb_topic_name = ''/t'', cb_entry_id = 5, ref_count = 1, cb_pubsub_id = 2, cb_valid = True\<rparr>]"
  by (simp_all add: demo_received_def sp_eval)

lemma demo_borrowed_eq:
  "trace demo_borrowed = []" "\<not> stopped demo_borrowed" "borrowed_publisher_num demo_borrowed 0 = 1" "borrowed_publisher_num demo_borrowed 1 = 0"
  "handles demo_borrowed = [7 \<mapsto> \<lparr>sp_ptr = 4096, sp_control = Some 0, is_void = False\<rparr>,
     8 \<mapsto> \<lparr>sp_ptr = 4096, sp_control = Some 0, is_void = False\<rparr>]"
  "blocks demo_borrowed = [0 \<mapsto> \<lparr>cb_topic_name = ''/t'', cb_entry_id = -1, ref_count = 2, cb_pubsub_id = 2, cb_valid = True\<rparr>]"
  by (simp_all add: demo_borrowed_def sp_eval)

text \<open>Claim C24. Ownership. In every state a running process reaches, a handle that is attached to a
  control block points to one that exists, the block's reference counter is exactly the number of
  handles attached to it, so it has not wrapped around, and no block exists without a handle.\<close>

theorem ref_count_exact:
  assumes "sp_reach s" and "\<not> stopped s"
  shows "(\<forall>v h a. handles s v = Some h \<longrightarrow> sp_control h = Some a \<longrightarrow> blocks s a \<noteq> None) \<and>
    (\<forall>a b. blocks s a = Some b \<longrightarrow> unat (ref_count b) = card (holders s a) \<and> holders s a \<noteq> {})"
proof -
  have inv: "sp_inv s" and few: "card (dom (handles s)) < 2 ^ 32" using reach_inv [OF assms(1)] assms(2) by auto
  have c: "counted (links s) (blocks s) (next_block s)" and fin: "finite (dom (handles s))"
    using inv by (auto simp: sp_inv_def)
  have "card (holders s a) \<le> card (dom (handles s))" for a
    by (rule card_mono [OF fin]) (auto simp: holders_def)
  then have small: "card (holders s a) < 2 ^ 32" for a using few le_less_trans by blast
  have "ref_count b = of_nat (card (holders s a)) \<and> holders s a \<noteq> {}" if "blocks s a = Some b" for a b
    using c that unfolding counted_def holders_owners by blast
  then have "unat (ref_count b) = card (holders s a) \<and> holders s a \<noteq> {}" if "blocks s a = Some b" for a b
    using small [of a] that by (simp add: unat_of_nat)
  then show ?thesis using block_exists [OF inv] by blast
qed

theorem ref_count_exact_witness:
  "\<exists>b. blocks demo_borrowed 0 = Some b \<and> unat (ref_count b) = card (holders demo_borrowed 0) \<and> card (holders demo_borrowed 0) = 2"
proof -
  have "blocks demo_borrowed 0 = Some \<lparr>cb_topic_name = ''/t'', cb_entry_id = -1, ref_count = 2, cb_pubsub_id = 2, cb_valid = True\<rparr>"
    by (simp add: demo_borrowed_eq)
  from conjunct2 [OF ref_count_exact [OF demo_borrowed_reach demo_borrowed_eq(2)], rule_format, OF this] this
  show ?thesis by simp
qed

text \<open>Claim C23. Release. In every state a running process reaches, a message that was received has been
  handed back to the kernel exactly once if no handle to it is left, with the topic, subscriber and
  entry it was received with, and not at all as long as some handle remains.\<close>

theorem released_exactly_once:
  assumes "sp_reach s" and "\<not> stopped s" and "Received a t i e \<in> set (trace s)"
  shows "filter (about a) (trace s) =
    (if holders s a = {} then [Released a t i e, Received a t i e] else [Received a t i e])"
proof -
  have inv: "sp_inv s" using reach_inv [OF assms(1)] assms(2) by simp
  have ex: "blocks s a = None \<longleftrightarrow> holders s a = {}"
  proof
    assume "blocks s a = None"
    then show "holders s a = {}" using block_exists [OF inv] by (force simp: holders_def)
  next
    assume none: "holders s a = {}"
    show "blocks s a = None"
    proof (cases "blocks s a")
      case (Some b)
      then have "owners (links s) a \<noteq> {}" using inv unfolding sp_inv_def counted_def by blast
      then show ?thesis using none by (simp add: holders_owners)
    qed
  qed
  obtain evs where evs: "filter (about a) (trace s) = evs" by blast
  have "story_ok a (next_block s) (blocks s a) evs" using reach_tr [OF assms(1)] assms(2) evs by (auto simp: tr_ok_def)
  moreover have "Received a t i e \<in> set evs" using assms(3) by (auto simp flip: evs)
  ultimately show ?thesis unfolding story_ok_def evs using ex by (cases "blocks s a") auto
qed

theorem released_exactly_once_witness:
  "filter (about 0) (trace demo_received) = [Received 0 ''/t'' 2 5] \<and> holders demo_received 0 \<noteq> {}"
  using released_exactly_once [OF demo_received_reach demo_received_eq(2), of 0 "''/t''" 2 5]
  by (auto simp: demo_received_eq holders_def)

section \<open>Publishing\<close>

lemma block_of_control: "block_of s h = Some b \<Longrightarrow> \<exists>a. sp_control h = Some a \<and> blocks s a = Some b"
  by (auto simp: block_of_def split: option.splits)

lemma invalidated_blocks:
  "sp_control h = Some a \<Longrightarrow> blocks (invalidate_all_references h s) = (blocks s)(a := map_option (\<lambda>b. b\<lparr>cb_valid := False\<rparr>) (blocks s a))"
  by (simp add: invalidate_all_references_def)

text \<open>What \<open>reset\<close> does to a published borrowed message: it drops one reference silently.\<close>

lemma reset_published:
  assumes "handles s v = Some h" and "sp_control h = Some a" and "blocks s a = Some b"
    and "cb_entry_id b = ENTRY_ID_NOT_ASSIGNED" and "\<not> cb_valid b" and "\<not> stopped s"
  shows "reset tid v s = set_handle v (Some (h\<lparr>sp_ptr := 0, sp_control := None\<rparr>))
    (set_block a (if ref_count b = 1 then None else Some (b\<lparr>ref_count := ref_count b - 1\<rparr>)) s)"
  using assms by (simp add: reset_def Let_def drop_last_def set_block_def)

text \<open>Publishing. A borrowed message that is published through a handle of its topic, on a thread
  that has borrowed, is passed to the kernel once with its address; the addresses the kernel returns,
  and nothing else, are deleted; the handle is emptied, and every other handle of the same message is
  invalidated: \<open>get\<close> is null, the conversion to \<open>bool\<close> false, a dereference terminates, and a second
  publish ends the process without a second entry.\<close>

theorem publish_invalidates_copies:
  assumes "\<not> stopped s" and h: "handles s v = Some h" and "block_of s h = Some b" and "sp_bool s h"
    and entry: "cb_entry_id b = ENTRY_ID_NOT_ASSIGNED" and "borrowed_publisher_num s tid \<noteq> 0"
    and s': "s' = publish tid (cb_topic_name b) i v (Inr rel) s"
  shows "\<not> stopped s' \<and> trace s' = rev (map Deleted rel) @ Published (cb_topic_name b) i (sp_ptr h) # trace s \<and>
    handles s' = (handles s)(v \<mapsto> h\<lparr>sp_ptr := 0, sp_control := None\<rparr>) \<and>
    (\<forall>w g. w \<noteq> v \<longrightarrow> handles s w = Some g \<longrightarrow> sp_control g = sp_control h \<longrightarrow> ref_count b \<noteq> 1 \<longrightarrow>
       sp_get s' g = 0 \<and> \<not> sp_bool s' g \<and> sp_deref s' g = None \<and>
       (\<forall>tid' topic j ans. trace (publish tid' topic j w ans s') = Exited # trace s'))"
proof -
  obtain a where a: "sp_control h = Some a" "blocks s a = Some b" using assms(3) block_of_control by blast
  let ?b = "b\<lparr>cb_valid := False\<rparr>"
  let ?s1 = "invalidate_all_references h s"
  let ?s2 = "decrement_borrowed_publisher_num tid ?s1"
  let ?s3 = "fold (\<lambda>a. emit (Deleted a)) rel (emit (Published (cb_topic_name b) i (sp_get s h)) ?s2)"
  have num: "borrowed_publisher_num ?s1 tid \<noteq> 0"
    using assms(6) by (simp add: invalidate_all_references_def a)
  then have go: "\<not> stopped ?s2" "trace ?s2 = trace s" using assms(1) by (simp_all add: decrement_borrowed_publisher_num_def)
  have get: "sp_get s h = sp_ptr h" using assms(4) by (simp add: sp_bool_def sp_get_def)
  have "s' = reset tid v ?s3"
    using s' h assms(4) go by (simp add: publish_def Let_def get_topic_name_def assms(3))
  also have "\<dots> = set_handle v (Some (h\<lparr>sp_ptr := 0, sp_control := None\<rparr>))
    (set_block a (if ref_count ?b = 1 then None else Some (?b\<lparr>ref_count := ref_count ?b - 1\<rparr>)) ?s3)"
    by (rule reset_published) (use h a entry go in \<open>simp_all add: invalidated_blocks\<close>)
  finally have eq: "s' = set_handle v (Some (h\<lparr>sp_ptr := 0, sp_control := None\<rparr>))
    (set_block a (if ref_count ?b = 1 then None else Some (?b\<lparr>ref_count := ref_count ?b - 1\<rparr>)) ?s3)" .
  have copies: "is_invalidated s' g" if "sp_control g = sp_control h" "ref_count b \<noteq> 1" for g
    using that a by (simp add: is_invalidated_def block_of_def eq)
  have "trace (publish tid' topic j w ans s') = Exited # trace s'"
    if "w \<noteq> v" "handles s w = Some g" "is_invalidated s' g" for w g tid' topic j ans
  proof -
    have "handles s' w = Some g" using that(1,2) by (simp add: eq)
    then show ?thesis using that(3) by (simp add: publish_def sp_bool_def emit_def)
  qed
  moreover have "\<not> stopped s'" "handles s' = (handles s)(v \<mapsto> h\<lparr>sp_ptr := 0, sp_control := None\<rparr>)" using go by (simp_all add: eq)
  moreover have "trace s' = rev (map Deleted rel) @ Published (cb_topic_name b) i (sp_ptr h) # trace s" using go get by (simp add: eq)
  moreover have "sp_get s' g = 0 \<and> \<not> sp_bool s' g \<and> sp_deref s' g = None" if "is_invalidated s' g" for g
    using that by (simp add: sp_get_def sp_bool_def sp_deref_def)
  ultimately show ?thesis using copies by blast
qed

theorem publish_invalidates_copies_witness:
  "\<exists>g. handles demo_borrowed 8 = Some g \<and> sp_get demo_borrowed g = 4096 \<and>
    sp_get (publish 0 ''/t'' 2 7 (Inr []) demo_borrowed) g = 0"
proof -
  define h where "h = \<lparr>sp_ptr = (4096 :: u64), sp_control = Some (0 :: nat), is_void = False\<rparr>"
  define b where "b = \<lparr>cb_topic_name = ''/t'', cb_entry_id = - 1, ref_count = (2 :: 32 word), cb_pubsub_id = 2, cb_valid = True\<rparr>"
  have at: "handles demo_borrowed 7 = Some h" "handles demo_borrowed 8 = Some h" "block_of demo_borrowed h = Some b"
    by (simp_all add: demo_borrowed_eq h_def b_def block_of_def)
  then have up: "sp_bool demo_borrowed h" "sp_get demo_borrowed h = 4096"
    by (simp_all add: sp_bool_def sp_get_def is_invalidated_def) (simp_all add: h_def b_def)
  have borrowed: "cb_entry_id b = ENTRY_ID_NOT_ASSIGNED" "borrowed_publisher_num demo_borrowed 0 \<noteq> 0" "ref_count b \<noteq> 1"
    by (simp_all add: b_def ENTRY_ID_NOT_ASSIGNED_def demo_borrowed_eq(3))
  note published = publish_invalidates_copies [OF demo_borrowed_eq(2) at(1,3) up(1) borrowed(1,2) refl, of 2 "[]"]
  have "sp_get (publish 0 (cb_topic_name b) 2 7 (Inr []) demo_borrowed) h = 0"
    using published [THEN conjunct2, THEN conjunct2, THEN conjunct2, rule_format, of 8 h] at(2) borrowed(3) by simp
  then show ?thesis using at(2) up(2) by (simp add: b_def)
qed

section \<open>Where the guarantees end\<close>

text \<open>The counter of borrowed messages belongs to the thread. When the last handle of a borrowed
  message that was not published is dropped on a thread whose own counter is zero, the process exits
  and the message is not deleted, whichever thread borrowed it.\<close>

theorem drop_on_other_thread_exits:
  assumes "handles s v = Some h" and "block_of s h = Some b" and "ref_count b = 1" and "cb_valid b"
    and "cb_entry_id b = ENTRY_ID_NOT_ASSIGNED" and "borrowed_publisher_num s tid = 0"
  shows "stopped (reset tid v s) \<and> trace (reset tid v s) = Exited # trace s"
proof -
  obtain a where "sp_control h = Some a" "blocks s a = Some b" using assms(2) block_of_control by blast
  then show ?thesis using assms by (simp add: reset_def drop_last_def decrement_borrowed_publisher_num_def Let_def emit_def set_block_def)
qed

theorem drop_on_other_thread_exits_witness:
  "stopped (sp_step (Destroy 1 7) (sp_step (Borrow 0 7 4096 ''/t'' 2 False) init_sp))"
proof -
  let ?s = "sp_step (Borrow 0 7 4096 ''/t'' 2 False) init_sp"
  have "stopped (reset 1 7 ?s)"
    using drop_on_other_thread_exits [of ?s 7 "\<lparr>sp_ptr = 4096, sp_control = Some 0, is_void = False\<rparr>" _ 1]
    by (simp add: sp_eval block_of_def)
  then show ?thesis by (simp add: destroy_def Let_def)
qed

text \<open>The last handle deletes the pointer it stores itself. If that handle was made by the aliasing
  constructor, the aliased pointer is deleted and the borrowed message is not.\<close>

theorem alias_deletes_own_pointer:
  assumes "p \<noteq> 0"
  shows "trace (fold sp_step [Borrow tid 0 p topic i False, Alias_Ctor 1 0 q False, Destroy tid 0, Destroy tid 1] init_sp) = [Deleted q]"
  using assms by (simp add: sp_eval)

theorem alias_deletes_own_pointer_witness:
  "trace (fold sp_step [Borrow 0 0 4096 ''/t'' 2 False, Alias_Ctor 1 0 4104 False, Destroy 0 0, Destroy 0 1] init_sp) = [Deleted 4104]"
  by (rule alias_deletes_own_pointer) simp

end
