(* ===== verification/Sync_Approx.thy ===== *)
theory Sync_Approx
  imports Agnocast_Prelude "HOL-Library.Monad_Syntax"
begin

text \<open>
  The approximate-time synchronizer (\<open>sync_policies/approximate_time.hpp\<close>): messages of two to nine
  inputs are queued and grouped into sets with close time stamps.

  The nine-element tuples of the source are functions on the input index; inputs from \<open>n\<close> on (\<open>n\<close> is
  \<open>RealTypeCount\<close>) carry no messages. Times and durations are nanosecond counts. The product of a
  duration and \<open>1 + age_penalty_\<close> is computed by \<open>rclcpp\<close> in floating point; it is the parameter \<open>scale\<close>,
  applied to the bit pattern of the penalty.
  Every \<open>assert\<close>, and every access to the front of an empty queue, is \<open>None\<close>, and so is a loop that does
  not end. Calls of \<open>parent_->signal\<close> are recorded, newest first, with the pivot and the messages queued
  at that moment.
\<close>

section \<open>State\<close>

record event =
  ev_time :: int
  ev_id :: nat

record signal_record =
  sg_set :: "nat \<Rightarrow> event option"
  sg_pivot :: nat
  sg_queued :: "nat \<Rightarrow> event list"

definition NO_PIVOT :: nat where "NO_PIVOT = 9"

record approx =
  queue_size :: nat
  deques :: "nat \<Rightarrow> event list"
  num_non_empty_deques :: int
  past :: "nat \<Rightarrow> event list"
  candidate :: "nat \<Rightarrow> event option"
  candidate_start :: int
  candidate_end :: int
  pivot_time :: int
  pivot :: nat
  max_interval_duration :: int
  age_penalty :: u64
  has_dropped_messages :: "nat \<Rightarrow> bool"
  inter_message_lower_bounds :: "nat \<Rightarrow> int"
  warned_about_incorrect_bound :: "nat \<Rightarrow> bool"
  signals :: "signal_record list"

text \<open>The bit pattern of the double 0.1 and the largest duration.\<close>

definition init_approx :: "nat \<Rightarrow> approx option" where
  "init_approx qs =
     (if qs = 0 then None
      else Some \<lparr>queue_size = qs, deques = (\<lambda>_. []), num_non_empty_deques = 0, past = (\<lambda>_. []),
        candidate = (\<lambda>_. None), candidate_start = 0, candidate_end = 0, pivot_time = 0, pivot = NO_PIVOT,
        max_interval_duration = (2 ^ 31 - 1) * 10 ^ 9 + 999999999, age_penalty = 0x3FB999999999999A,
        has_dropped_messages = (\<lambda>_. False), inter_message_lower_bounds = (\<lambda>_. 0),
        warned_about_incorrect_bound = (\<lambda>_. False), signals = []\<rparr>)"

section \<open>Configuration\<close>

text \<open>A double that compares at least 0: a clear sign bit and no NaN, or minus zero.\<close>

definition double_ge_zero :: "u64 \<Rightarrow> bool" where
  "double_ge_zero b \<longleftrightarrow> b \<le> 0x7FF0000000000000 \<or> b = 0x8000000000000000"

definition setAgePenalty :: "u64 \<Rightarrow> approx \<Rightarrow> approx option" where
  "setAgePenalty p s = (if double_ge_zero p then Some (s\<lparr>age_penalty := p\<rparr>) else None)"

definition setInterMessageLowerBound :: "nat \<Rightarrow> nat \<Rightarrow> int \<Rightarrow> approx \<Rightarrow> approx option" where
  "setInterMessageLowerBound n i lower s =
     (if i < n \<and> 0 \<le> lower
      then Some (s\<lparr>inter_message_lower_bounds := (inter_message_lower_bounds s)(i := lower)\<rparr>) else None)"

definition setMaxIntervalDuration :: "int \<Rightarrow> approx \<Rightarrow> approx option" where
  "setMaxIntervalDuration d s = (if 0 \<le> d then Some (s\<lparr>max_interval_duration := d\<rparr>) else None)"

section \<open>Queues\<close>

definition checkInterMessageBound :: "nat \<Rightarrow> approx \<Rightarrow> approx option" where
  "checkInterMessageBound i s =
     (let q = deques s i; v = past s i; warn = s\<lparr>warned_about_incorrect_bound := (warned_about_incorrect_bound s)(i := True)\<rparr>;
          check = (\<lambda>previous. if ev_time (last q) < previous then warn
                    else if ev_time (last q) - previous < inter_message_lower_bounds s i then warn else s)
      in if warned_about_incorrect_bound s i then Some s
         else if q = [] then None
         else if length q = 1 then Some (if v = [] then s else check (ev_time (last v)))
         else Some (check (ev_time (q ! (length q - 2)))))"

definition dequeDeleteFront :: "nat \<Rightarrow> approx \<Rightarrow> approx option" where
  "dequeDeleteFront i s =
     (if 9 \<le> i then None
      else case deques s i of
        [] \<Rightarrow> None
      | m # q \<Rightarrow> Some (s\<lparr>deques := (deques s)(i := q),
                       num_non_empty_deques := num_non_empty_deques s - (if q = [] then 1 else 0)\<rparr>))"

definition dequeMoveFrontToPast :: "nat \<Rightarrow> approx \<Rightarrow> approx option" where
  "dequeMoveFrontToPast i s =
     (if 9 \<le> i then None
      else case deques s i of
        [] \<Rightarrow> None
      | m # q \<Rightarrow> Some (s\<lparr>past := (past s)(i := past s i @ [m]), deques := (deques s)(i := q),
                       num_non_empty_deques := num_non_empty_deques s - (if q = [] then 1 else 0)\<rparr>))"

definition makeCandidate :: "nat \<Rightarrow> approx \<Rightarrow> approx option" where
  "makeCandidate n s =
     (if list_ex (\<lambda>i. deques s i = []) [0..<n] then None
      else Some (s\<lparr>candidate := (\<lambda>i. if i < n then Some (hd (deques s i)) else None), past := (\<lambda>_. [])\<rparr>))"

text \<open>\<open>while (num_messages > 0) { q.push_front(v.back()); v.pop_back(); }\<close>\<close>

fun unwind :: "nat \<Rightarrow> event list \<Rightarrow> event list \<Rightarrow> event list \<times> event list" where
  "unwind 0 v q = (v, q)"
| "unwind (Suc k) v q = unwind k (butlast v) (last v # q)"

definition recover_num :: "nat \<Rightarrow> nat \<Rightarrow> nat \<Rightarrow> approx \<Rightarrow> approx option" where
  "recover_num n i k s =
     (if n \<le> i then Some s
      else if length (past s i) < k then None
      else let (v, q) = unwind k (past s i) (deques s i)
           in Some (s\<lparr>past := (past s)(i := v), deques := (deques s)(i := q),
                     num_non_empty_deques := num_non_empty_deques s + (if q = [] then 0 else 1)\<rparr>))"

definition recover :: "nat \<Rightarrow> nat \<Rightarrow> approx \<Rightarrow> approx" where
  "recover n i s =
     (if n \<le> i then s
      else let (v, q) = unwind (length (past s i)) (past s i) (deques s i)
           in s\<lparr>past := (past s)(i := v), deques := (deques s)(i := q),
                num_non_empty_deques := num_non_empty_deques s + (if q = [] then 0 else 1)\<rparr>)"

definition recoverAndDelete :: "nat \<Rightarrow> nat \<Rightarrow> approx \<Rightarrow> approx option" where
  "recoverAndDelete n i s =
     (if n \<le> i then Some s
      else case unwind (length (past s i)) (past s i) (deques s i) of
        (v, []) \<Rightarrow> None
      | (v, m # q) \<Rightarrow> Some (s\<lparr>past := (past s)(i := v), deques := (deques s)(i := q),
                     num_non_empty_deques := num_non_empty_deques s + (if q = [] then 0 else 1)\<rparr>))"

primrec each :: "(nat \<Rightarrow> approx \<Rightarrow> approx option) \<Rightarrow> nat list \<Rightarrow> approx \<Rightarrow> approx option" where
  "each f [] s = Some s"
| "each f (i # is) s = do { s' \<leftarrow> f i s; each f is s' }"

definition publishCandidate :: "nat \<Rightarrow> approx \<Rightarrow> approx option" where
  "publishCandidate n s =
     each (recoverAndDelete n) [0..<9]
       (s\<lparr>signals := \<lparr>sg_set = candidate s, sg_pivot = pivot s, sg_queued = (\<lambda>i. past s i @ deques s i)\<rparr> # signals s,
          candidate := (\<lambda>_. None), pivot := NO_PIVOT, num_non_empty_deques := 0\<rparr>)"

section \<open>Intervals\<close>

text \<open>\<open>(t < time) ^ end\<close>\<close>

definition boundary_step :: "bool \<Rightarrow> nat \<times> int \<Rightarrow> nat \<times> int \<Rightarrow> nat \<times> int" where
  "boundary_step end it best = (if (snd it < snd best) \<noteq> end then it else best)"

definition front_time :: "approx \<Rightarrow> nat \<Rightarrow> int" where
  "front_time s i = ev_time (hd (deques s i))"

definition getCandidateBoundary :: "nat \<Rightarrow> bool \<Rightarrow> approx \<Rightarrow> nat \<times> int" where
  "getCandidateBoundary n end s =
     fold (boundary_step end) (map (\<lambda>i. (i, front_time s i)) [1..<n]) (0, front_time s 0)"

definition getVirtualTime :: "nat \<Rightarrow> approx \<Rightarrow> int option" where
  "getVirtualTime i s =
     (if pivot s = NO_PIVOT then None
      else if deques s i = [] then
        (if past s i = [] then None
         else let lower = ev_time (last (past s i)) + inter_message_lower_bounds s i
              in Some (if lower > pivot_time s then lower else pivot_time s))
      else Some (front_time s i))"

definition getVirtualCandidateBoundary :: "nat \<Rightarrow> bool \<Rightarrow> approx \<Rightarrow> (nat \<times> int) option" where
  "getVirtualCandidateBoundary n end s =
     do { vts \<leftarrow> those (map (\<lambda>i. getVirtualTime i s) [0..<n]);
          Some (fold (boundary_step end) (map (\<lambda>i. (i, vts ! i)) [0..<n]) (0, vts ! 0)) }"

section \<open>The search\<close>

text \<open>\<open>before\<close> is \<open>num_non_empty_deques_before_virtual_search\<close>.\<close>

definition virtual_step :: "nat \<Rightarrow> (u64 \<Rightarrow> int \<Rightarrow> int) \<Rightarrow> int \<Rightarrow> (nat \<Rightarrow> nat) \<Rightarrow> approx \<Rightarrow> ((nat \<Rightarrow> nat) \<times> approx + approx) option" where
  "virtual_step n scale before moves s =
     do { (vend_index, vend_time) \<leftarrow> getVirtualCandidateBoundary n True s;
          (vstart_index, vstart_time) \<leftarrow> getVirtualCandidateBoundary n False s;
          if scale (age_penalty s) (vend_time - candidate_end s) \<ge> pivot_time s - candidate_start s
          then do { s' \<leftarrow> publishCandidate n s; Some (Inr s') }
          else if scale (age_penalty s) (vend_time - candidate_end s) < vstart_time - candidate_start s
          then do { s' \<leftarrow> each (\<lambda>i. recover_num n i (moves i)) [0..<9] (s\<lparr>num_non_empty_deques := 0\<rparr>);
                    if before = num_non_empty_deques s' then Some (Inr s') else None }
          else if vstart_index = pivot s \<or> \<not> vstart_time < pivot_time s then None
          else do { s' \<leftarrow> dequeMoveFrontToPast vstart_index s;
                    Some (Inl (moves(vstart_index := moves vstart_index + 1), s')) } }"

partial_function (option) virtual_search :: "nat \<Rightarrow> (u64 \<Rightarrow> int \<Rightarrow> int) \<Rightarrow> int \<Rightarrow> (nat \<Rightarrow> nat) \<Rightarrow> approx \<Rightarrow> approx option" where
  "virtual_search n scale before moves s =
     do { r \<leftarrow> virtual_step n scale before moves s;
          case r of Inl (moves', s') \<Rightarrow> virtual_search n scale before moves' s' | Inr s' \<Rightarrow> Some s' }"

text \<open>One round of the loop of \<open>process\<close>: the choice of a candidate, and what is done with it.\<close>

definition select_candidate :: "nat \<Rightarrow> (u64 \<Rightarrow> int \<Rightarrow> int) \<Rightarrow> nat \<times> int \<Rightarrow> nat \<times> int \<Rightarrow> approx \<Rightarrow> approx option" where
  "select_candidate n scale en st s =
     (let (end_index, end_time) = en; (start_index, start_time) = st in
      if pivot s = NO_PIVOT then
        do { c \<leftarrow> makeCandidate n s;
             dequeMoveFrontToPast start_index
               (c\<lparr>candidate_start := start_time, candidate_end := end_time, pivot := end_index, pivot_time := end_time\<rparr>) }
      else if scale (age_penalty s) (end_time - candidate_end s) \<ge> start_time - candidate_start s
      then dequeMoveFrontToPast start_index s
      else do { c \<leftarrow> makeCandidate n s;
                dequeMoveFrontToPast start_index (c\<lparr>candidate_start := start_time, candidate_end := end_time\<rparr>) })"

definition settle_candidate :: "nat \<Rightarrow> (u64 \<Rightarrow> int \<Rightarrow> int) \<Rightarrow> nat \<times> int \<Rightarrow> nat \<times> int \<Rightarrow> approx \<Rightarrow> approx option" where
  "settle_candidate n scale en st s =
     (let (end_index, end_time) = en; (start_index, start_time) = st in
      if pivot s = NO_PIVOT then None
      else if start_index = pivot s then publishCandidate n s
      else if scale (age_penalty s) (end_time - candidate_end s) \<ge> pivot_time s - candidate_start s then publishCandidate n s
      else if num_non_empty_deques s < int n then virtual_search n scale (num_non_empty_deques s) (\<lambda>_. 0) s
      else Some s)"

definition process_round :: "nat \<Rightarrow> (u64 \<Rightarrow> int \<Rightarrow> int) \<Rightarrow> approx \<Rightarrow> approx option" where
  "process_round n scale s =
     (let en = getCandidateBoundary n True s; st = getCandidateBoundary n False s;
          s1 = s\<lparr>has_dropped_messages := (\<lambda>i. if i < n \<and> i \<noteq> fst en then False else has_dropped_messages s i)\<rparr>
      in if pivot s1 = NO_PIVOT \<and> (snd en - snd st > max_interval_duration s1 \<or> has_dropped_messages s1 (fst en))
         then dequeDeleteFront (fst st) s1
         else do { s2 \<leftarrow> select_candidate n scale en st s1; settle_candidate n scale en st s2 })"

partial_function (option) process :: "nat \<Rightarrow> (u64 \<Rightarrow> int \<Rightarrow> int) \<Rightarrow> approx \<Rightarrow> approx option" where
  "process n scale s =
     (if num_non_empty_deques s = int n then do { s' \<leftarrow> process_round n scale s; process n scale s' } else Some s)"

declare virtual_search.simps [code] process.simps [code]

section \<open>Adding a message\<close>

definition approx_push :: "nat \<Rightarrow> (u64 \<Rightarrow> int \<Rightarrow> int) \<Rightarrow> nat \<Rightarrow> event \<Rightarrow> approx \<Rightarrow> approx option" where
  "approx_push n scale i evt s =
     (let s1 = s\<lparr>deques := (deques s)(i := deques s i @ [evt])\<rparr> in
      if length (deques s1 i) = 1 then
        (let s2 = s1\<lparr>num_non_empty_deques := num_non_empty_deques s1 + 1\<rparr>
         in if num_non_empty_deques s2 = int n then process n scale s2 else Some s2)
      else checkInterMessageBound i s1)"

definition approx_overflow :: "nat \<Rightarrow> (u64 \<Rightarrow> int \<Rightarrow> int) \<Rightarrow> nat \<Rightarrow> approx \<Rightarrow> approx option" where
  "approx_overflow n scale i s =
     (let s1 = fold (recover n) [0..<9] (s\<lparr>num_non_empty_deques := 0\<rparr>) in
      if deques s1 i = [] then None
      else let s2 = s1\<lparr>deques := (deques s1)(i := tl (deques s1 i)),
                     has_dropped_messages := (has_dropped_messages s1)(i := True)\<rparr>
           in if pivot s2 \<noteq> NO_PIVOT
              then process n scale (s2\<lparr>candidate := (\<lambda>_. None), pivot := NO_PIVOT\<rparr>)
              else Some s2)"

definition approx_add :: "nat \<Rightarrow> (u64 \<Rightarrow> int \<Rightarrow> int) \<Rightarrow> nat \<Rightarrow> event \<Rightarrow> approx \<Rightarrow> approx option" where
  "approx_add n scale i evt s =
     do { s' \<leftarrow> approx_push n scale i evt s;
          if length (deques s' i) + length (past s' i) > queue_size s' then approx_overflow n scale i s' else Some s' }"

primrec approx_run :: "nat \<Rightarrow> (u64 \<Rightarrow> int \<Rightarrow> int) \<Rightarrow> (nat \<times> event) list \<Rightarrow> approx \<Rightarrow> approx option" where
  "approx_run n scale [] s = Some s"
| "approx_run n scale (x # xs) s = do { s' \<leftarrow> approx_add n scale (fst x) (snd x) s; approx_run n scale xs s' }"

text \<open>The messages of one input in a sequence of arrivals.\<close>

definition inputs :: "nat \<Rightarrow> (nat \<times> event) list \<Rightarrow> event list" where
  "inputs i xs = map snd (filter (\<lambda>x. fst x = i) xs)"

end
