(* ===== verification/Sync_Approx_Inv.thy ===== *)
theory Sync_Approx_Inv
  imports Sync_Approx "HOL-Library.Sublist"
begin

text \<open>
  The loop invariants of the approximate-time synchronizer, the ones its comments name among them:
  the counter of non-empty queues is right, without a pivot nothing is set aside and there is no
  candidate, and with a pivot the candidate is the first message of every input, the pivot's message
  has not been passed and no input has dropped messages. They give termination and the absence of
  assertion failures for any messages whatever.
\<close>

section \<open>Queues\<close>

lemma unwind_spec: "k \<le> length v \<Longrightarrow> unwind k v q = (take (length v - k) v, drop (length v - k) v @ q)"
proof (induction k arbitrary: v q)
  case (Suc k)
  then obtain w m where "v = w @ [m]" by (cases v rule: rev_cases) auto
  then show ?case using Suc by simp
qed simp

lemma unwind_all [simp]: "unwind (length v) v q = ([], v @ q)"
  by (simp add: unwind_spec)

definition whole :: "approx \<Rightarrow> nat \<Rightarrow> event list" where
  "whole s i = past s i @ deques s i"

definition pubs :: "approx \<Rightarrow> nat \<Rightarrow> event list" where
  "pubs s i = map (\<lambda>g. the (sg_set g i)) (rev (signals s))"

definition counter :: "nat \<Rightarrow> (nat \<Rightarrow> event list) \<Rightarrow> int" where
  "counter n q = int (card {i. i < n \<and> q i \<noteq> []})"

lemma each_append: "each f (xs @ ys) s = each f xs s \<bind> each f ys"
  by (induction xs arbitrary: s) (auto split: bind_splits)

lemma each_fold: "each (\<lambda>i s. Some (g i s)) xs s = Some (fold g xs s)"
  by (induction xs arbitrary: s) auto

text \<open>A pass over the inputs that replaces both queues of each of them and recounts.\<close>

lemma each_replace:
  assumes inside: "\<And>i s. i < n \<Longrightarrow> past s i = p i \<Longrightarrow> deques s i = d i \<Longrightarrow>
      f i s = Some (s\<lparr>past := (past s)(i := P i), deques := (deques s)(i := D i),
                num_non_empty_deques := num_non_empty_deques s + (if D i = [] then 0 else 1)\<rparr>)"
    and outside: "\<And>i s. n \<le> i \<Longrightarrow> f i s = Some s" and s: "past s = p" "deques s = d"
  shows "each f [0..<k] s = Some (s\<lparr>past := (\<lambda>i. if i < k \<and> i < n then P i else p i),
      deques := (\<lambda>i. if i < k \<and> i < n then D i else d i),
      num_non_empty_deques := num_non_empty_deques s + counter (min k n) D\<rparr>)"
proof (induction k)
  case 0
  then show ?case using s by (cases s) (simp add: counter_def)
next
  case (Suc k)
  have cnt: "counter (min (Suc k) n) D = counter (min k n) D + (if k < n \<and> D k \<noteq> [] then 1 else 0)"
  proof (cases "k < n")
    case True
    then have "{i. i < Suc k \<and> D i \<noteq> []} = (if D k \<noteq> [] then insert k {i. i < k \<and> D i \<noteq> []} else {i. i < k \<and> D i \<noteq> []})"
      by (auto simp: less_Suc_eq)
    then show ?thesis using True by (simp add: counter_def min_def)
  qed (simp add: min_def)
  show ?case
  proof (cases "k < n")
    case True
    then show ?thesis using Suc cnt
      by (simp add: each_append inside) (auto simp: fun_eq_iff less_Suc_eq)
  next
    case False
    then show ?thesis using Suc cnt by (simp add: each_append outside) (auto simp: fun_eq_iff less_Suc_eq)
  qed
qed

section \<open>Invariants\<close>

definition ap_base :: "nat \<Rightarrow> approx \<Rightarrow> bool" where
  "ap_base n s \<longleftrightarrow> num_non_empty_deques s = counter n (deques s) \<and> (\<forall>i. n \<le> i \<longrightarrow> deques s i = [] \<and> past s i = [])"

definition has_cand :: "nat \<Rightarrow> approx \<Rightarrow> bool" where
  "has_cand n s \<longleftrightarrow> pivot s < n \<and> (\<forall>i<n. whole s i \<noteq> [] \<and> candidate s i = Some (hd (whole s i))) \<and>
     ev_time (hd (whole s (pivot s))) = pivot_time s \<and> (\<forall>i<n. \<not> has_dropped_messages s i)"

definition searching :: "nat \<Rightarrow> approx \<Rightarrow> bool" where
  "searching n s \<longleftrightarrow> has_cand n s \<and> past s (pivot s) = [] \<and> deques s (pivot s) \<noteq> []"

definition complete_signal :: "nat \<Rightarrow> signal_record \<Rightarrow> bool" where
  "complete_signal n g \<longleftrightarrow> sg_pivot g < n \<and> (\<forall>i<n. sg_queued g i \<noteq> [] \<and> sg_set g i = Some (hd (sg_queued g i)))"

definition ap_inv :: "nat \<Rightarrow> approx \<Rightarrow> bool" where
  "ap_inv n s \<longleftrightarrow> ap_base n s \<and> list_all (complete_signal n) (signals s) \<and>
     (if pivot s = NO_PIVOT then (\<forall>i. past s i = []) \<and> (\<forall>i. candidate s i = None) else searching n s)"

text \<open>What every step may do to the configuration and to the messages: those published and those queued
  are a subsequence of what they were.\<close>

definition leads :: "nat \<Rightarrow> approx \<Rightarrow> approx \<Rightarrow> bool" where
  "leads n s s' \<longleftrightarrow> queue_size s' = queue_size s \<and> max_interval_duration s' = max_interval_duration s \<and>
     age_penalty s' = age_penalty s \<and> inter_message_lower_bounds s' = inter_message_lower_bounds s \<and>
     (\<forall>i<n. subseq (pubs s' i @ whole s' i) (pubs s i @ whole s i)) \<and> (\<forall>i. length (whole s' i) \<le> length (whole s i))"

lemma leads_refl [simp]: "leads n s s"
  by (simp add: leads_def)

lemma leads_trans: "leads n s t \<Longrightarrow> leads n t u \<Longrightarrow> leads n s u"
  unfolding leads_def by (metis subseq_order.order_trans order_trans)

lemma counter_full:
  assumes "counter n q = int n" and "i < n"
  shows "q i \<noteq> []"
proof -
  have "{i. i < n \<and> q i \<noteq> []} = {..<n}" using assms(1) by (intro card_subset_eq) (auto simp: counter_def)
  then show ?thesis using assms(2) by auto
qed

lemma counter_le: "counter n q \<le> int n"
  unfolding counter_def using card_mono [of "{..<n}" "{i. i < n \<and> q i \<noteq> []}"] by auto

lemma counter_pop:
  assumes "i < n" and "q i \<noteq> []"
  shows "counter n (q(i := r)) = counter n q - (if r = [] then 1 else 0)"
proof (cases "r = []")
  case True
  have "{j. j < n \<and> (q(i := r)) j \<noteq> []} = {j. j < n \<and> q j \<noteq> []} - {i}" using True by auto
  moreover have "card ({j. j < n \<and> q j \<noteq> []} - {i}) + 1 = card {j. j < n \<and> q j \<noteq> []}"
    using card_Suc_Diff1 [of "{j. j < n \<and> q j \<noteq> []}" i] assms by simp
  ultimately show ?thesis using True by (simp add: counter_def)
next
  case False
  then have "{j. j < n \<and> (q(i := r)) j \<noteq> []} = {j. j < n \<and> q j \<noteq> []}" using assms(2) by auto
  then show ?thesis using False by (simp add: counter_def)
qed

section \<open>Moving and publishing\<close>

lemma move_eq:
  assumes "i < 9" and "deques s i = m # q"
  shows "dequeMoveFrontToPast i s = Some (s\<lparr>past := (past s)(i := past s i @ [m]), deques := (deques s)(i := q),
    num_non_empty_deques := num_non_empty_deques s - (if q = [] then 1 else 0)\<rparr>)"
  using assms by (simp add: dequeMoveFrontToPast_def)

lemma publish_eq:
  assumes n: "n \<le> 9" and out: "\<And>i. n \<le> i \<Longrightarrow> deques s i = [] \<and> past s i = []" and full: "\<And>i. i < n \<Longrightarrow> whole s i \<noteq> []"
  shows "publishCandidate n s = Some (s\<lparr>
    signals := \<lparr>sg_set = candidate s, sg_pivot = pivot s, sg_queued = whole s\<rparr> # signals s,
    candidate := (\<lambda>_. None), pivot := NO_PIVOT, num_non_empty_deques := counter n (\<lambda>i. tl (whole s i)),
    past := (\<lambda>_. []), deques := (\<lambda>i. tl (whole s i))\<rparr>)"
proof -
  let ?s = "s\<lparr>signals := \<lparr>sg_set = candidate s, sg_pivot = pivot s, sg_queued = whole s\<rparr> # signals s,
    candidate := (\<lambda>_. None), pivot := NO_PIVOT, num_non_empty_deques := 0\<rparr>"
  have one: "recoverAndDelete n i t = Some (t\<lparr>past := (past t)(i := []), deques := (deques t)(i := tl (whole s i)),
      num_non_empty_deques := num_non_empty_deques t + (if tl (whole s i) = [] then 0 else 1)\<rparr>)"
    if "i < n" "past t i = past s i" "deques t i = deques s i" for i t
    using that full [OF that(1)] by (simp add: recoverAndDelete_def whole_def) (cases "past s i @ deques s i"; simp)
  have "each (recoverAndDelete n) [0..<9] ?s = Some (?s\<lparr>past := (\<lambda>i. if i < 9 \<and> i < n then [] else past s i),
      deques := (\<lambda>i. if i < 9 \<and> i < n then tl (whole s i) else deques s i),
      num_non_empty_deques := num_non_empty_deques ?s + counter (min 9 n) (\<lambda>i. tl (whole s i))\<rparr>)"
    by (rule each_replace [OF one]) (simp_all add: recoverAndDelete_def)
  moreover have "(\<lambda>i. if i < 9 \<and> i < n then [] else past s i) = (\<lambda>_. [])"
    "(\<lambda>i. if i < 9 \<and> i < n then tl (whole s i) else deques s i) = (\<lambda>i. tl (whole s i))"
    using n out by (auto simp: fun_eq_iff whole_def)
  ultimately show ?thesis using n by (simp add: publishCandidate_def whole_def [abs_def] min_def)
qed

section \<open>Interval ends\<close>

definition extreme :: "bool \<Rightarrow> int \<Rightarrow> int \<Rightarrow> bool" where
  "extreme e t u \<longleftrightarrow> (if e then u \<le> t else t \<le> u)"

lemma extreme_trans: "extreme e t u \<Longrightarrow> extreme e u w \<Longrightarrow> extreme e t w"
  by (auto simp: extreme_def split: if_splits)

lemma fold_boundary:
  "fold (boundary_step e) xs b \<in> insert b (set xs) \<and> (\<forall>x\<in>insert b (set xs). extreme e (snd (fold (boundary_step e) xs b)) (snd x))"
proof (induction xs arbitrary: b)
  case (Cons x xs)
  let ?b = "boundary_step e x b"
  have b: "?b = x \<or> ?b = b" "extreme e (snd ?b) (snd b)" "extreme e (snd ?b) (snd x)"
    by (auto simp: boundary_step_def extreme_def)
  note IH = Cons [of ?b]
  have this_one: "extreme e (snd (fold (boundary_step e) xs ?b)) (snd ?b)" using IH by simp
  note extreme_trans [OF this_one b(2)] extreme_trans [OF this_one b(3)]
  then show ?case using IH b(1) by auto
qed (simp add: extreme_def)

lemma boundary_of:
  assumes "fold (boundary_step e) (map (\<lambda>i. (i, f i)) is) (0, f 0) = (i, t)" and "set is \<union> {0} = {..<n}"
  shows "i < n" and "t = f i" and "\<And>j. j < n \<Longrightarrow> extreme e t (f j)"
proof -
  have all: "insert (0, f 0) (set (map (\<lambda>i. (i, f i)) is)) = (\<lambda>i. (i, f i)) ` {..<n}" unfolding assms(2) [symmetric] by auto
  note B = fold_boundary [of e "map (\<lambda>i. (i, f i)) is" "(0, f 0)", unfolded all assms(1)]
  show "i < n" "t = f i" using conjunct1 [OF B] by auto
  show "extreme e t (f j)" if "j < n" for j using bspec [OF conjunct2 [OF B], of "(j, f j)"] that by simp
qed

lemma candidate_boundary:
  assumes "getCandidateBoundary n e s = (i, t)" and "0 < n"
  shows "i < n" and "t = front_time s i" and "\<And>j. j < n \<Longrightarrow> extreme e t (front_time s j)"
proof -
  have "set [1..<n] \<union> {0} = {..<n}" using assms(2) by auto
  note B = boundary_of [OF assms(1) [unfolded getCandidateBoundary_def] this]
  show "i < n" "t = front_time s i" "\<And>j. j < n \<Longrightarrow> extreme e t (front_time s j)" by (fact B)+
qed

definition virtual_time :: "approx \<Rightarrow> nat \<Rightarrow> int" where
  "virtual_time s i = (if deques s i = [] then max (ev_time (last (past s i)) + inter_message_lower_bounds s i) (pivot_time s)
     else front_time s i)"

lemma those_Some: "those (map Some xs) = Some xs"
  by (induction xs) auto

lemma virtual_boundary:
  assumes "0 < n" and "pivot s \<noteq> NO_PIVOT" and full: "\<And>i. i < n \<Longrightarrow> whole s i \<noteq> []"
  obtains i t where "getVirtualCandidateBoundary n e s = Some (i, t)" "i < n" "t = virtual_time s i"
    "\<And>j. j < n \<Longrightarrow> extreme e t (virtual_time s j)"
proof -
  have "getVirtualTime i s = Some (virtual_time s i)" if "i < n" for i
    using assms(2) full [OF that] by (auto simp: getVirtualTime_def virtual_time_def whole_def Let_def)
  then have "map (\<lambda>i. getVirtualTime i s) [0..<n] = map Some (map (virtual_time s) [0..<n])" by simp
  then have vts: "those (map (\<lambda>i. getVirtualTime i s) [0..<n]) = Some (map (virtual_time s) [0..<n])"
    by (simp only: those_Some)
  have nths: "map (\<lambda>i. (i, map (virtual_time s) [0..<n] ! i)) [0..<n] = map (\<lambda>i. (i, virtual_time s i)) [0..<n]" by simp
  have eq: "getVirtualCandidateBoundary n e s =
      Some (fold (boundary_step e) (map (\<lambda>i. (i, virtual_time s i)) [0..<n]) (0, virtual_time s 0))"
    using assms(1) by (simp add: getVirtualCandidateBoundary_def vts nths del: map_eq_conv)
  obtain i t where it: "fold (boundary_step e) (map (\<lambda>i. (i, virtual_time s i)) [0..<n]) (0, virtual_time s 0) = (i, t)"
    by fastforce
  have "set [0..<n] \<union> {0} = {..<n}" using assms(1) by auto
  note B = boundary_of [OF it this]
  show thesis by (rule that [OF _ B]) (simp_all add: eq it)
qed

end
