(* ===== verification/Sync_Approx_Search.thy ===== *)
theory Sync_Approx_Search
  imports Sync_Approx_Inv
begin

text \<open>
  The quality of what the approximate-time synchronizer publishes, and the virtual search. When the
  messages of each input arrive in the order of their stamps, the candidate spans at most the allowed
  interval, and every other choice of messages that contains the pivot, messages that may still
  arrive included, is either still ahead of the search or not better than the candidate.
\<close>

section \<open>Quality\<close>

definition lo :: "nat \<Rightarrow> (nat \<Rightarrow> int) \<Rightarrow> int" where "lo n f = Min (f ` {..<n})"
definition hi :: "nat \<Rightarrow> (nat \<Rightarrow> int) \<Rightarrow> int" where "hi n f = Max (f ` {..<n})"

lemma lo_le: "i < n \<Longrightarrow> lo n f \<le> f i" and hi_ge: "i < n \<Longrightarrow> f i \<le> hi n f"
  by (auto simp: lo_def hi_def)

lemma lo_eq: "i < n \<Longrightarrow> (\<And>j. j < n \<Longrightarrow> f i \<le> f j) \<Longrightarrow> lo n f = f i"
  unfolding lo_def by (rule Min_eqI) auto

lemma hi_eq: "i < n \<Longrightarrow> (\<And>j. j < n \<Longrightarrow> f j \<le> f i) \<Longrightarrow> hi n f = f i"
  unfolding hi_def by (rule Max_eqI) auto

text \<open>A choice of stamps is offered by the queues \<open>q\<close> if each stamp is that of a message in the queue or may
  still arrive: not before the last message so far plus the lower bound of the input.\<close>

definition offered :: "nat \<Rightarrow> (nat \<Rightarrow> event list) \<Rightarrow> (nat \<Rightarrow> event list) \<Rightarrow> (nat \<Rightarrow> int) \<Rightarrow> (nat \<Rightarrow> int) \<Rightarrow> bool" where
  "offered n q w L t \<longleftrightarrow> (\<forall>i<n. t i \<in> ev_time ` set (q i) \<or> ev_time (last (w i)) + L i \<le> t i)"

definition set_time :: "signal_record \<Rightarrow> nat \<Rightarrow> int" where
  "set_time g i = ev_time (the (sg_set g i))"

definition good_signal :: "nat \<Rightarrow> (int \<Rightarrow> int) \<Rightarrow> int \<Rightarrow> (nat \<Rightarrow> int) \<Rightarrow> signal_record \<Rightarrow> bool" where
  "good_signal n f M L g \<longleftrightarrow> hi n (set_time g) - lo n (set_time g) \<le> M \<and>
     (\<forall>t. offered n (sg_queued g) (sg_queued g) L t \<longrightarrow> t (sg_pivot g) = set_time g (sg_pivot g) \<longrightarrow>
        lo n t - lo n (set_time g) \<le> f (hi n t - hi n (set_time g)))"

definition cand_good :: "nat \<Rightarrow> approx \<Rightarrow> bool" where
  "cand_good n s \<longleftrightarrow> candidate_start s = lo n (\<lambda>i. ev_time (hd (whole s i))) \<and>
     candidate_end s = hi n (\<lambda>i. ev_time (hd (whole s i))) \<and> candidate_end s - candidate_start s \<le> max_interval_duration s"

definition eligible :: "nat \<Rightarrow> approx \<Rightarrow> (nat \<Rightarrow> int) \<Rightarrow> bool" where
  "eligible n s t \<longleftrightarrow> offered n (whole s) (whole s) (inter_message_lower_bounds s) t \<and> t (pivot s) = pivot_time s"

definition ahead :: "nat \<Rightarrow> approx \<Rightarrow> (nat \<Rightarrow> int) \<Rightarrow> bool" where
  "ahead n s t \<longleftrightarrow> (\<forall>i<n. t i \<notin> ev_time ` set (past s i))"

definition judged :: "nat \<Rightarrow> (int \<Rightarrow> int) \<Rightarrow> approx \<Rightarrow> (nat \<Rightarrow> int) \<Rightarrow> bool" where
  "judged n f s t \<longleftrightarrow> lo n t - candidate_start s \<le> f (hi n t - candidate_end s)"

definition ordered :: "approx \<Rightarrow> bool" where
  "ordered s \<longleftrightarrow> (\<forall>i. sorted (map ev_time (whole s i))) \<and> (\<forall>i. 0 \<le> inter_message_lower_bounds s i)"

definition sound_so_far :: "nat \<Rightarrow> (int \<Rightarrow> int) \<Rightarrow> approx \<Rightarrow> bool" where
  "sound_so_far n f s \<longleftrightarrow> ordered s \<and>
     list_all (good_signal n f (max_interval_duration s) (inter_message_lower_bounds s)) (signals s)"

definition searched :: "nat \<Rightarrow> (int \<Rightarrow> int) \<Rightarrow> approx \<Rightarrow> bool" where
  "searched n f s \<longleftrightarrow> cand_good n s \<and> (\<forall>t. eligible n s t \<longrightarrow> ahead n s t \<or> judged n f s t)"

definition settled :: "nat \<Rightarrow> (int \<Rightarrow> int) \<Rightarrow> approx \<Rightarrow> bool" where
  "settled n f s \<longleftrightarrow> cand_good n s \<and> (\<forall>t. eligible n s t \<longrightarrow> judged n f s t)"

definition quality :: "nat \<Rightarrow> (int \<Rightarrow> int) \<Rightarrow> approx \<Rightarrow> bool" where
  "quality n f s \<longleftrightarrow> sound_so_far n f s \<and> (pivot s \<noteq> NO_PIVOT \<longrightarrow> searched n f s)"

lemma sorted_append_hd: "sorted (map ev_time (p @ q)) \<Longrightarrow> m \<in> set q \<Longrightarrow> ev_time (hd q) \<le> ev_time m"
  by (cases q) (auto simp: sorted_append)

lemma ahead_at:
  assumes "eligible n s t" and "ahead n s t" and "i < n"
  shows "t i \<in> ev_time ` set (deques s i) \<or> ev_time (last (whole s i)) + inter_message_lower_bounds s i \<le> t i"
proof -
  have "t i \<in> ev_time ` set (whole s i) \<or> ev_time (last (whole s i)) + inter_message_lower_bounds s i \<le> t i"
    using assms(1,3) by (simp add: eligible_def offered_def)
  moreover have "t i \<notin> ev_time ` set (past s i)" using assms(2,3) by (simp add: ahead_def)
  ultimately show ?thesis by (auto simp: whole_def)
qed

lemma front_before:
  assumes "ordered s" and t: "eligible n s t" "ahead n s t" and "i < n" and "deques s i \<noteq> []"
  shows "front_time s i \<le> t i"
proof -
  have srt: "sorted (map ev_time (past s i @ deques s i))" and L: "0 \<le> inter_message_lower_bounds s i"
    using assms(1) by (auto simp: ordered_def whole_def)
  have first: "front_time s i \<le> ev_time m" if "m \<in> set (deques s i)" for m
    using sorted_append_hd [OF srt that] by (simp add: front_time_def)
  have "last (whole s i) \<in> set (deques s i)" using assms(5) by (simp add: whole_def)
  then have "front_time s i \<le> ev_time (last (whole s i)) + inter_message_lower_bounds s i" using first L by (simp add: add_increasing2)
  then show ?thesis using ahead_at [OF t assms(4)] first by (auto intro: order_trans)
qed

lemma judged_from:
  assumes "mono f" and "e \<le> hi n t" and "lo n t \<le> b" and "b - candidate_start s \<le> f (e - candidate_end s)"
  shows "judged n f s t"
proof -
  have "f (e - candidate_end s) \<le> f (hi n t - candidate_end s)" using assms(1,2) by (simp add: monoD)
  then show ?thesis using assms(3,4) by (simp add: judged_def)
qed

section \<open>Publishing\<close>

definition all_queued :: "nat \<Rightarrow> approx \<Rightarrow> nat" where "all_queued n s = (\<Sum>i<n. length (whole s i))"
definition still_ahead :: "nat \<Rightarrow> approx \<Rightarrow> nat" where "still_ahead n s = (\<Sum>i<n. length (deques s i))"

lemma publish_step:
  assumes n: "0 < n" "n \<le> 9" and base: "ap_base n s" and cand: "has_cand n s" and sg: "list_all (complete_signal n) (signals s)"
    and q: "ord \<longrightarrow> sound_so_far n f s \<and> settled n f s"
  shows "\<exists>s'. publishCandidate n s = Some s' \<and> ap_inv n s' \<and> leads n s s' \<and> (ord \<longrightarrow> quality n f s') \<and> all_queued n s' < all_queued n s"
proof -
  define g where "g = \<lparr>sg_set = candidate s, sg_pivot = pivot s, sg_queued = whole s\<rparr>"
  define s' where "s' = s\<lparr>signals := g # signals s, candidate := (\<lambda>_. None), pivot := NO_PIVOT,
    num_non_empty_deques := counter n (\<lambda>i. tl (whole s i)), past := (\<lambda>_. []), deques := (\<lambda>i. tl (whole s i))\<rparr>"
  have out: "deques s i = [] \<and> past s i = []" if "n \<le> i" for i using base that by (simp add: ap_base_def)
  have full: "whole s i \<noteq> []" if "i < n" for i using cand that by (simp add: has_cand_def)
  have pub: "publishCandidate n s = Some s'" using publish_eq [OF n(2) out full] by (simp add: s'_def g_def)
  have w: "whole s' i = tl (whole s i)" for i by (simp add: whole_def s'_def)
  have g: "complete_signal n g" using cand by (simp add: complete_signal_def g_def has_cand_def)
  then have inv: "ap_inv n s'" using sg out by (simp add: ap_inv_def ap_base_def s'_def whole_def)
  have "subseq (pubs s' i @ whole s' i) (pubs s i @ whole s i)" if "i < n" for i
  proof -
    have "the (candidate s i) # tl (whole s i) = whole s i" using cand that by (simp add: has_cand_def)
    moreover have "pubs s' i = pubs s i @ [the (candidate s i)]" by (simp add: pubs_def s'_def g_def)
    ultimately show ?thesis by (simp add: w)
  qed
  then have lead: "leads n s s'" by (simp add: leads_def w) (simp add: s'_def)
  have st: "set_time g i = ev_time (hd (whole s i))" if "i < n" for i
    using cand that by (simp add: set_time_def g_def has_cand_def)
  then have ends: "lo n (set_time g) = lo n (\<lambda>i. ev_time (hd (whole s i)))" "hi n (set_time g) = hi n (\<lambda>i. ev_time (hd (whole s i)))"
    unfolding lo_def hi_def by (metis (no_types, lifting) image_cong lessThan_iff)+
  have "quality n f s'" if "sound_so_far n f s" "settled n f s"
  proof -
    have p: "set_time g (pivot s) = pivot_time s" "sg_queued g = whole s" "sg_pivot g = pivot s"
      using st [of "pivot s"] cand by (simp_all add: g_def has_cand_def)
    have "good_signal n f (max_interval_duration s) (inter_message_lower_bounds s) g"
      using that(2) unfolding good_signal_def p ends settled_def cand_good_def eligible_def judged_def by auto
    moreover have "ordered s'"
      using that(1) unfolding sound_so_far_def ordered_def w by (simp add: s'_def map_tl sorted_tl)
    ultimately show ?thesis using that(1) by (simp add: quality_def sound_so_far_def) (simp add: s'_def)
  qed
  moreover have "all_queued n s' < all_queued n s"
    unfolding all_queued_def w using n(1) full by (intro sum_strict_mono) auto
  ultimately show ?thesis using pub inv lead q by blast
qed

section \<open>The virtual search\<close>

text \<open>The states of the search: messages move from the queues to the past, nothing else changes, and
  \<open>moves\<close> counts them.\<close>

definition virtual_of :: "nat \<Rightarrow> approx \<Rightarrow> (nat \<Rightarrow> nat) \<Rightarrow> approx \<Rightarrow> bool" where
  "virtual_of n s0 moves s \<longleftrightarrow> ap_base n s \<and> searching n s \<and>
     s = s0\<lparr>deques := deques s, past := past s, num_non_empty_deques := num_non_empty_deques s\<rparr> \<and>
     (\<forall>i. whole s i = whole s0 i \<and> length (past s i) = length (past s0 i) + moves i)"

lemma recover_moves:
  assumes v: "virtual_of n s0 moves s" and n: "n \<le> 9" and base: "ap_base n s0"
  shows "each (\<lambda>i. recover_num n i (moves i)) [0..<9] (s\<lparr>num_non_empty_deques := 0\<rparr>) = Some s0"
proof -
  have undo: "take (length (past s i) - moves i) (past s i) = past s0 i" "drop (length (past s i) - moves i) (past s i) @ deques s i = deques s0 i" for i
  proof -
    have w: "past s i @ deques s i = past s0 i @ deques s0 i" and l: "length (past s i) = length (past s0 i) + moves i"
      using v by (auto simp: virtual_of_def whole_def)
    have "take (length (past s0 i)) (past s i @ deques s i) = past s0 i" "drop (length (past s0 i)) (past s i @ deques s i) = deques s0 i"
      unfolding w by simp_all
    then show "take (length (past s i) - moves i) (past s i) = past s0 i"
      "drop (length (past s i) - moves i) (past s i) @ deques s i = deques s0 i" using l by simp_all
  qed
  have len: "moves i \<le> length (past s i)" for i using v by (simp add: virtual_of_def)
  let ?z = "s\<lparr>num_non_empty_deques := 0\<rparr>"
  have "each (\<lambda>i. recover_num n i (moves i)) [0..<9] ?z = Some (?z\<lparr>past := (\<lambda>i. if i < 9 \<and> i < n then past s0 i else past s i),
      deques := (\<lambda>i. if i < 9 \<and> i < n then deques s0 i else deques s i),
      num_non_empty_deques := num_non_empty_deques ?z + counter (min 9 n) (deques s0)\<rparr>)"
    by (rule each_replace) (use len in \<open>auto simp: recover_num_def unwind_spec undo not_le [symmetric]\<close>)
  moreover have "(\<lambda>i. if i < 9 \<and> i < n then past s0 i else past s i) = past s0"
    "(\<lambda>i. if i < 9 \<and> i < n then deques s0 i else deques s i) = deques s0"
    using n v base by (auto simp: fun_eq_iff virtual_of_def ap_base_def)
  moreover have same: "s = s0\<lparr>deques := deques s, past := past s, num_non_empty_deques := num_non_empty_deques s\<rparr>"
    using v by (simp add: virtual_of_def)
  have "s\<lparr>past := past s0, deques := deques s0, num_non_empty_deques := counter n (deques s0)\<rparr> = s0"
    by (subst same) (use base in \<open>auto simp: ap_base_def intro!: approx.equality\<close>)
  ultimately show ?thesis using n by (simp add: min_def)
qed

text \<open>One step of the search that moves on.\<close>

lemma virtual_moves:
  assumes v: "virtual_of n s0 moves s" and n: "n \<le> 9" and i: "i < n" "i \<noteq> pivot s" and d: "deques s i = m # q"
    and s': "s' = s\<lparr>past := (past s)(i := past s i @ [m]), deques := (deques s)(i := q),
      num_non_empty_deques := num_non_empty_deques s - (if q = [] then 1 else 0)\<rparr>"
  shows "dequeMoveFrontToPast i s = Some s'" and "virtual_of n s0 (moves(i := moves i + 1)) s'"
    and "whole s' = whole s" and "still_ahead n s' < still_ahead n s"
proof -
  show "dequeMoveFrontToPast i s = Some s'" unfolding s' by (rule move_eq) (use i n d in auto)
  show w: "whole s' = whole s" using d by (auto simp: whole_def s' fun_eq_iff)
  have same: "s = s0\<lparr>deques := deques s, past := past s, num_non_empty_deques := num_non_empty_deques s\<rparr>"
    using v by (simp add: virtual_of_def)
  have "s' = s0\<lparr>deques := deques s', past := past s', num_non_empty_deques := num_non_empty_deques s'\<rparr>"
    unfolding s' by (subst same) simp
  moreover have "ap_base n s'" using v counter_pop [of i n "deques s" q] i d by (auto simp: virtual_of_def ap_base_def s')
  moreover have "searching n s'" using v i(2) w by (auto simp: virtual_of_def searching_def has_cand_def s')
  ultimately show "virtual_of n s0 (moves(i := moves i + 1)) s'" using v w by (auto simp: virtual_of_def s')
  show "still_ahead n s' < still_ahead n s"
    unfolding still_ahead_def using i(1) d by (intro sum_strict_mono_ex1) (auto simp: s')
qed

lemma virtual_same:
  assumes v: "virtual_of n s0 moves s"
  shows "whole s = whole s0" and "signals s = signals s0" and "age_penalty s = age_penalty s0" and "pivot s = pivot s0"
    and "pivot_time s = pivot_time s0" and "leads n s0 s" and "sound_so_far n f s = sound_so_far n f s0" and "all_queued n s = all_queued n s0"
proof -
  show w: "whole s = whole s0" using v by (auto simp: virtual_of_def)
  have same: "s = s0\<lparr>deques := deques s, past := past s, num_non_empty_deques := num_non_empty_deques s\<rparr>"
    using v by (simp add: virtual_of_def)
  show sg: "signals s = signals s0" "age_penalty s = age_penalty s0" "pivot s = pivot s0" "pivot_time s = pivot_time s0"
    by (subst same, simp)+
  have cfg: "queue_size s = queue_size s0" "max_interval_duration s = max_interval_duration s0"
    "inter_message_lower_bounds s = inter_message_lower_bounds s0" by (subst same, simp)+
  show "leads n s0 s" using w sg cfg by (simp add: leads_def pubs_def)
  show "sound_so_far n f s = sound_so_far n f s0" using w sg cfg by (simp add: sound_so_far_def ordered_def)
  show "all_queued n s = all_queued n s0" using w by (simp add: all_queued_def)
qed

lemma virtual_before:
  assumes ord: "ordered s" and srch: "searching n s" and t: "eligible n s t" "ahead n s t" and i: "i < n"
  shows "virtual_time s i \<le> hi n t"
proof (cases "deques s i = []")
  case True
  then have w: "whole s i = past s i" by (simp add: whole_def)
  have "pivot s < n" using srch by (simp add: searching_def has_cand_def)
  then have "pivot_time s \<le> hi n t" using hi_ge [of "pivot s" n t] t(1) by (simp add: eligible_def)
  moreover have "ev_time (last (past s i)) + inter_message_lower_bounds s i \<le> t i"
    using ahead_at [OF t i] True w by simp
  ultimately show ?thesis using True hi_ge [OF i, of t] by (simp add: virtual_time_def)
next
  case False
  then show ?thesis using front_before [OF ord t i] hi_ge [OF i, of t] by (simp add: virtual_time_def)
qed

lemma virtual_search_ok:
  assumes n: "0 < n" "n \<le> 9" and base: "ap_base n s0" and sg: "list_all (complete_signal n) (signals s0)"
    and f: "f = scale (age_penalty s0)" and q0: "ord \<longrightarrow> mono f \<and> sound_so_far n f s0"
  shows "virtual_of n s0 moves s \<Longrightarrow> (ord \<longrightarrow> searched n f s) \<Longrightarrow>
    \<exists>s'. virtual_search n scale (num_non_empty_deques s0) moves s = Some s' \<and>
      (s' = s0 \<or> ap_inv n s' \<and> leads n s0 s' \<and> (ord \<longrightarrow> quality n f s') \<and> all_queued n s' < all_queued n s0)"
proof (induction "still_ahead n s" arbitrary: s moves rule: less_induct)
  case less
  note v = less.prems(1) and vs = virtual_same [OF less.prems(1)]
  have srch: "searching n s" and cand: "has_cand n s" and base': "ap_base n s" using v by (auto simp: virtual_of_def searching_def)
  have p: "pivot s < n" "pivot s \<noteq> NO_PIVOT" using cand n(2) by (auto simp: has_cand_def NO_PIVOT_def)
  have full: "whole s i \<noteq> []" if "i < n" for i using cand that by (simp add: has_cand_def)
  obtain ei et where e: "getVirtualCandidateBoundary n True s = Some (ei, et)" "ei < n" "et = virtual_time s ei"
    "\<And>j. j < n \<Longrightarrow> extreme True et (virtual_time s j)" by (rule virtual_boundary [OF n(1) p(2) full, of True]) auto
  obtain i b where b: "getVirtualCandidateBoundary n False s = Some (i, b)" "i < n" "b = virtual_time s i"
    "\<And>j. j < n \<Longrightarrow> extreme False b (virtual_time s j)" by (rule virtual_boundary [OF n(1) p(2) full, of False]) auto
  have ends: "et \<le> hi n t" "lo n t \<le> pivot_time s" if "ord" "eligible n s t" "ahead n s t" for t
    using virtual_before [OF _ srch that(2,3) e(2)] q0 that vs(7) e(3) lo_le [OF p(1), of t] by (auto simp: sound_so_far_def eligible_def)
  have f': "scale (age_penalty s) = f" using f vs(3) by simp
  consider (proved) "pivot_time s - candidate_start s \<le> f (et - candidate_end s)"
    | (hopeless) "\<not> pivot_time s - candidate_start s \<le> f (et - candidate_end s)" "f (et - candidate_end s) < b - candidate_start s"
    | (go) "\<not> pivot_time s - candidate_start s \<le> f (et - candidate_end s)" "\<not> f (et - candidate_end s) < b - candidate_start s" by blast
  then show ?case
  proof cases
    case proved
    have "settled n f s" if o: "ord"
    proof -
      have "judged n f s t" if "eligible n s t" for t
      proof (cases "judged n f s t")
        case False
        then have "ahead n s t" using that less.prems(2) o by (auto simp: searched_def)
        then show ?thesis using ends [OF o that] q0 o proved by (intro judged_from) auto
      qed
      then show ?thesis using less.prems(2) o by (simp add: settled_def searched_def)
    qed
    then obtain s' where s': "publishCandidate n s = Some s'" "ap_inv n s'" "leads n s s'" "ord \<longrightarrow> quality n f s'" "all_queued n s' < all_queued n s"
      using publish_step [OF n base' cand, of ord f] sg q0 vs(2,7) by auto
    have "virtual_search n scale (num_non_empty_deques s0) moves s = Some s'"
      using proved e(1) b(1) s'(1) by (subst virtual_search.simps) (simp add: virtual_step_def f')
    then show ?thesis using s' vs(8) leads_trans [OF vs(6) s'(3)] by auto
  next
    case hopeless
    then have "virtual_search n scale (num_non_empty_deques s0) moves s = Some s0"
      using e(1) b(1) recover_moves [OF v n(2) base] by (subst virtual_search.simps) (simp add: virtual_step_def f')
    then show ?thesis by blast
  next
    case go
    have early: "b < pivot_time s" using go by linarith
    have "deques s i \<noteq> []" using early b(3) by (auto simp: virtual_time_def)
    then obtain m q where d: "deques s i = m # q" by (cases "deques s i") auto
    have "virtual_time s (pivot s) = pivot_time s" using srch
      by (auto simp: searching_def has_cand_def virtual_time_def front_time_def whole_def)
    then have i: "i \<noteq> pivot s" using early b(3) by auto
    define s' where "s' = s\<lparr>past := (past s)(i := past s i @ [m]), deques := (deques s)(i := q),
      num_non_empty_deques := num_non_empty_deques s - (if q = [] then 1 else 0)\<rparr>"
    note mv = virtual_moves [OF v n(2) b(2) i d s'_def]
    have step: "virtual_search n scale (num_non_empty_deques s0) moves s = virtual_search n scale (num_non_empty_deques s0) (moves(i := moves i + 1)) s'"
      using go e(1) b(1) early i mv(1) by (subst virtual_search.simps) (simp add: virtual_step_def f')
    have same: "pivot s' = pivot s" "pivot_time s' = pivot_time s" "candidate_start s' = candidate_start s"
      "candidate_end s' = candidate_end s" "inter_message_lower_bounds s' = inter_message_lower_bounds s"
      "max_interval_duration s' = max_interval_duration s" by (simp_all add: s'_def)
    have "searched n f s'" if o: "ord"
    proof -
      have "ahead n s' t \<or> judged n f s t" if t: "eligible n s t" for t
      proof (cases "judged n f s t \<or> ahead n s' t")
        case False
        then have a: "ahead n s t" using t less.prems(2) o by (auto simp: searched_def)
        have "b = ev_time m" using d b(3) by (simp add: virtual_time_def front_time_def)
        then have "t i = b" using False a unfolding ahead_def by (auto simp: s'_def split: if_splits)
        then have "lo n t \<le> b" using lo_le [OF b(2), of t] by simp
        then show ?thesis using ends [OF o t a] q0 o go(2) by (intro disjI2 judged_from) auto
      qed blast
      then show ?thesis using less.prems(2) o mv(3)
        by (simp add: searched_def cand_good_def eligible_def judged_def same)
    qed
    then show ?thesis using less.hyps [OF mv(4,2)] step by simp
  qed
qed

end
