(* ===== verification/Sync_Approx_Process.thy ===== *)
theory Sync_Approx_Process
  imports Sync_Approx_Search
begin

text \<open>
  The main loop of the approximate-time synchronizer: every round keeps the invariants and makes
  progress, so \<open>process\<close> returns, and \<open>add\<close> with it.
\<close>

section \<open>Choosing a candidate\<close>

definition inflating :: "(int \<Rightarrow> int) \<Rightarrow> bool" where
  "inflating f \<longleftrightarrow> mono f \<and> (\<forall>x. 0 \<le> x \<longrightarrow> x \<le> f x)"

lemma subseq_tail: "subseq (p @ q) (p @ r @ q)"
  by (rule list_emb_append_mono) auto

lemma new_candidate:
  assumes n: "0 < n" and base: "ap_base n s" and full: "\<And>i. i < n \<Longrightarrow> deques s i \<noteq> []"
    and en: "ei < n" "et = front_time s ei" "\<And>j. j < n \<Longrightarrow> front_time s j \<le> et"
    and st: "si < n" "b = front_time s si" "\<And>j. j < n \<Longrightarrow> b \<le> front_time s j"
    and nodrop: "\<And>i. i < n \<Longrightarrow> \<not> has_dropped_messages s i"
    and p: "p < n" "t = front_time s p"
    and c: "c = s\<lparr>candidate := (\<lambda>i. if i < n then Some (hd (deques s i)) else None), past := (\<lambda>_. []),
      candidate_start := b, candidate_end := et, pivot := p, pivot_time := t\<rparr>"
  shows "searching n c" and "ap_base n c" and "leads n s c" and "makeCandidate n s \<noteq> None"
    and "sound_so_far n f s \<Longrightarrow> inflating f \<Longrightarrow> et - b \<le> max_interval_duration s \<Longrightarrow>
      sound_so_far n f c \<and> searched n f c \<and> b - candidate_start c \<le> f (et - candidate_end c)"
proof -
  have w: "whole c = deques s" by (auto simp: whole_def c)
  show "searching n c" using full nodrop p w by (simp add: searching_def has_cand_def c front_time_def)
  show "ap_base n c" using base by (simp add: ap_base_def c)
  show "leads n s c" unfolding leads_def w by (simp add: c whole_def pubs_def subseq_tail)
  show "makeCandidate n s \<noteq> None" using full by (auto simp: makeCandidate_def list_ex_iff)
  assume sound: "sound_so_far n f s" and f: "inflating f" and span: "et - b \<le> max_interval_duration s"
  have "lo n (front_time s) = b" using lo_eq [of si n "front_time s"] st by simp
  moreover have "hi n (front_time s) = et" using hi_eq [of ei n "front_time s"] en by simp
  ultimately have "cand_good n c" unfolding cand_good_def w using span by (simp add: c front_time_def [abs_def])
  moreover have "ahead n c u" for u by (simp add: ahead_def c)
  moreover have "sorted (map ev_time (deques s i))" for i using sound
    by (auto simp: sound_so_far_def ordered_def whole_def sorted_append)
  ultimately show "sound_so_far n f c \<and> searched n f c \<and> b - candidate_start c \<le> f (et - candidate_end c)"
    using sound f unfolding sound_so_far_def searched_def ordered_def inflating_def w by (auto simp: c)
qed

lemma better_span:
  assumes ord: "ordered s" and cand: "has_cand n s" and good: "cand_good n s" and f: "inflating f" and n: "0 < n"
    and full: "\<And>i. i < n \<Longrightarrow> deques s i \<noteq> []" and en: "\<And>j. j < n \<Longrightarrow> front_time s j \<le> et"
    and better: "f (et - candidate_end s) < b - candidate_start s"
  shows "et - b \<le> max_interval_duration s"
proof -
  have "ev_time (hd (whole s i)) \<le> et" if "i < n" for i
  proof -
    have srt: "sorted (map ev_time (whole s i))" using ord by (simp add: ordered_def)
    have "hd (deques s i) \<in> set (whole s i)" using full [OF that] by (simp add: whole_def)
    then have "ev_time (hd (whole s i)) \<le> front_time s i"
      using sorted_append_hd [of "[]" "whole s i"] srt by (simp add: front_time_def)
    then show ?thesis using en [OF that] by simp
  qed
  then have "candidate_end s \<le> et" using good n unfolding cand_good_def hi_def by (auto intro!: Max.boundedI)
  then have "et - candidate_end s \<le> f (et - candidate_end s)" using f by (simp add: inflating_def)
  then show ?thesis using better good by (simp add: cand_good_def)
qed

text \<open>The state just before the message at the start of the interval is set aside.\<close>

lemma select_cases:
  assumes n: "0 < n" "n \<le> 9" and inv: "ap_inv n s" and full: "\<And>i. i < n \<Longrightarrow> deques s i \<noteq> []"
    and en: "ei < n" "et = front_time s ei" "\<And>j. j < n \<Longrightarrow> front_time s j \<le> et"
    and st: "si < n" "b = front_time s si" "\<And>j. j < n \<Longrightarrow> b \<le> front_time s j"
    and fresh: "pivot s = NO_PIVOT \<longrightarrow> et - b \<le> max_interval_duration s \<and> (\<forall>i<n. \<not> has_dropped_messages s i)"
    and f: "f = scale (age_penalty s)" and q: "ord \<longrightarrow> inflating f \<and> quality n f s"
  obtains c where "select_candidate n scale (ei, et) (si, b) s = dequeMoveFrontToPast si c" "searching n c" "ap_base n c"
    "deques c = deques s" "signals c = signals s" "leads n s c"
    "ord \<longrightarrow> sound_so_far n f c \<and> searched n f c \<and> b - candidate_start c \<le> f (et - candidate_end c)"
proof -
  have base: "ap_base n s" using inv by (simp add: ap_inv_def)
  have mk: "makeCandidate n s = Some (s\<lparr>candidate := (\<lambda>i. if i < n then Some (hd (deques s i)) else None), past := (\<lambda>_. [])\<rparr>)"
    using full by (auto simp: makeCandidate_def list_ex_iff)
  show thesis
  proof (cases "pivot s = NO_PIVOT")
    case True
    define c where "c = s\<lparr>candidate := (\<lambda>i. if i < n then Some (hd (deques s i)) else None), past := (\<lambda>_. []),
      candidate_start := b, candidate_end := et, pivot := ei, pivot_time := et\<rparr>"
    have nodrop: "\<not> has_dropped_messages s i" if "i < n" for i using fresh True that by simp
    note N = new_candidate [OF n(1) base full en st nodrop en(1,2) c_def]
    show thesis
    proof (rule that [of c])
      show "select_candidate n scale (ei, et) (si, b) s = dequeMoveFrontToPast si c"
        using True mk by (simp add: select_candidate_def c_def)
      show "ord \<longrightarrow> sound_so_far n f c \<and> searched n f c \<and> b - candidate_start c \<le> f (et - candidate_end c)"
        using N(5) q fresh True by (auto simp: quality_def)
    qed (use N in \<open>auto simp: c_def\<close>)
  next
    case False
    then have srch: "searching n s" and cand: "has_cand n s" using inv by (auto simp: ap_inv_def searching_def)
    show thesis
    proof (cases "b - candidate_start s \<le> f (et - candidate_end s)")
      case True
      show thesis
      proof (rule that [of s])
        show "select_candidate n scale (ei, et) (si, b) s = dequeMoveFrontToPast si s"
          using False True f by (simp add: select_candidate_def)
      qed (use srch base True False q in \<open>auto simp: quality_def\<close>)
    next
      case better: False
      have p: "pivot s < n" "pivot_time s = front_time s (pivot s)"
        using srch by (auto simp: searching_def has_cand_def whole_def front_time_def)
      define c where "c = s\<lparr>candidate := (\<lambda>i. if i < n then Some (hd (deques s i)) else None), past := (\<lambda>_. []),
        candidate_start := b, candidate_end := et, pivot := pivot s, pivot_time := pivot_time s\<rparr>"
      have nodrop: "\<not> has_dropped_messages s i" if "i < n" for i using cand that by (simp add: has_cand_def)
      note N = new_candidate [OF n(1) base full en st nodrop p c_def]
      have span: "et - b \<le> max_interval_duration s" if "ord"
        using better_span [OF _ cand _ _ n(1) full en(3)] q that better False
        by (auto simp: quality_def sound_so_far_def searched_def)
      show thesis
      proof (rule that [of c])
        show "select_candidate n scale (ei, et) (si, b) s = dequeMoveFrontToPast si c"
          using False better mk f by (simp add: select_candidate_def c_def)
        show "ord \<longrightarrow> sound_so_far n f c \<and> searched n f c \<and> b - candidate_start c \<le> f (et - candidate_end c)"
          using N(5) q span by (auto simp: quality_def)
      qed (use N in \<open>auto simp: c_def\<close>)
    qed
  qed
qed

section \<open>One round\<close>

lemma set_aside:
  assumes n: "0 < n" "n \<le> 9" and srch: "searching n c" and base: "ap_base n c" and full: "\<And>i. i < n \<Longrightarrow> deques c i \<noteq> []"
    and en: "ei < n" "et = front_time c ei" and st: "si < n" "b = front_time c si"
    and q: "ord \<longrightarrow> mono f \<and> sound_so_far n f c \<and> searched n f c \<and> b - candidate_start c \<le> f (et - candidate_end c)"
  obtains s where "dequeMoveFrontToPast si c = Some s" "ap_base n s" "has_cand n s" "si \<noteq> pivot s \<longrightarrow> searching n s"
    "signals s = signals c" "leads n c s" "all_queued n s = all_queued n c" "still_ahead n s < still_ahead n c"
    "ord \<longrightarrow> sound_so_far n f s \<and> cand_good n s \<and>
      (\<forall>t. eligible n s t \<longrightarrow> judged n f s t \<or> ahead n s t \<and> et \<le> hi n t \<and> si \<noteq> pivot s)"
proof -
  obtain m r where d: "deques c si = m # r" using full [OF st(1)] by (cases "deques c si") auto
  define s where "s = c\<lparr>past := (past c)(si := past c si @ [m]), deques := (deques c)(si := r),
    num_non_empty_deques := num_non_empty_deques c - (if r = [] then 1 else 0)\<rparr>"
  have w: "whole s = whole c" using d by (auto simp: whole_def s_def fun_eq_iff)
  have bm: "b = ev_time m" using st(2) d by (simp add: front_time_def)
  have cand: "has_cand n c" using srch by (simp add: searching_def)
  have look: "judged n f c t \<or> ahead n s t \<and> et \<le> hi n t \<and> si \<noteq> pivot c" if o: "ord" and t: "eligible n c t" for t
  proof (cases "judged n f c t")
    case False
    then have a: "ahead n c t" using q t o by (auto simp: searched_def)
    have "ordered c" using q o by (simp add: sound_so_far_def)
    then have "front_time c ei \<le> t ei" by (rule front_before [OF _ t a en(1) full [OF en(1)]])
    then have e: "et \<le> hi n t" using hi_ge [OF en(1), of t] en(2) by simp
    have late: "t si \<noteq> b"
    proof
      assume "t si = b"
      then have "lo n t \<le> b" using lo_le [OF st(1), of t] by simp
      then have "judged n f c t" using judged_from [OF _ e] q o by blast
      then show False using False by simp
    qed
    then have "ahead n s t" using a bm unfolding ahead_def by (simp add: s_def)
    moreover have "si \<noteq> pivot c"
    proof
      assume piv: "si = pivot c"
      then have "b = pivot_time c" using srch st(2) by (auto simp: searching_def has_cand_def whole_def front_time_def)
      then show False using late t piv by (simp add: eligible_def)
    qed
    ultimately show ?thesis using e by blast
  qed simp
  show thesis
  proof (rule that [of s])
    show "dequeMoveFrontToPast si c = Some s" unfolding s_def by (rule move_eq) (use st n d in auto)
    show "ap_base n s" using base counter_pop [of si n "deques c" r] st(1) d by (auto simp: ap_base_def s_def)
    show "has_cand n s" using cand unfolding has_cand_def w by (simp add: s_def)
    then show "si \<noteq> pivot s \<longrightarrow> searching n s" using srch by (auto simp: searching_def s_def)
    show "leads n c s" unfolding leads_def w by (simp add: s_def pubs_def)
    show "all_queued n s = all_queued n c" by (simp add: all_queued_def w)
    show "still_ahead n s < still_ahead n c"
      unfolding still_ahead_def using st(1) d by (intro sum_strict_mono_ex1) (auto simp: s_def)
    show "ord \<longrightarrow> sound_so_far n f s \<and> cand_good n s \<and>
        (\<forall>t. eligible n s t \<longrightarrow> judged n f s t \<or> ahead n s t \<and> et \<le> hi n t \<and> si \<noteq> pivot s)"
    proof
      assume o: "ord"
      have same: "sound_so_far n f s = sound_so_far n f c" "cand_good n s = cand_good n c" "eligible n s t = eligible n c t"
        "judged n f s t = judged n f c t" "pivot s = pivot c" for t
        unfolding sound_so_far_def ordered_def cand_good_def eligible_def judged_def w by (simp_all add: s_def)
      show "sound_so_far n f s \<and> cand_good n s \<and>
          (\<forall>t. eligible n s t \<longrightarrow> judged n f s t \<or> ahead n s t \<and> et \<le> hi n t \<and> si \<noteq> pivot s)"
        unfolding same using q o look [OF o] by (auto simp: searched_def)
    qed
  qed (simp add: s_def)
qed

lemma settle_ok:
  assumes n: "0 < n" "n \<le> 9" and base: "ap_base n s" and cand: "has_cand n s" and srch: "si \<noteq> pivot s \<longrightarrow> searching n s"
    and sg: "list_all (complete_signal n) (signals s)" and f: "f = scale (age_penalty s)"
    and q: "ord \<longrightarrow> mono f \<and> sound_so_far n f s \<and> cand_good n s \<and>
      (\<forall>t. eligible n s t \<longrightarrow> judged n f s t \<or> ahead n s t \<and> et \<le> hi n t \<and> si \<noteq> pivot s)"
  shows "\<exists>s'. settle_candidate n scale (ei, et) (si, b) s = Some s' \<and> ap_inv n s' \<and> leads n s s' \<and> (ord \<longrightarrow> quality n f s') \<and>
    (s' = s \<or> all_queued n s' < all_queued n s)"
proof -
  have p: "pivot s < n" "pivot s \<noteq> NO_PIVOT" using cand n(2) by (auto simp: has_cand_def NO_PIVOT_def)
  have go: "\<exists>s'. publishCandidate n s = Some s' \<and> ap_inv n s' \<and> leads n s s' \<and> (ord \<longrightarrow> quality n f s') \<and> all_queued n s' < all_queued n s"
    if "ord \<longrightarrow> settled n f s" using publish_step [OF n base cand sg, of ord f] that q by blast
  have searched: "ord \<longrightarrow> searched n f s" using q by (auto simp: searched_def)
  consider (pivot) "si = pivot s" | (optimal) "si \<noteq> pivot s" "pivot_time s - candidate_start s \<le> f (et - candidate_end s)"
    | (search) "si \<noteq> pivot s" "\<not> pivot_time s - candidate_start s \<le> f (et - candidate_end s)" "num_non_empty_deques s < int n"
    | (more) "si \<noteq> pivot s" "\<not> pivot_time s - candidate_start s \<le> f (et - candidate_end s)" "\<not> num_non_empty_deques s < int n" by blast
  then show ?thesis
  proof cases
    case pivot
    then have "ord \<longrightarrow> settled n f s" using q by (auto simp: settled_def)
    then show ?thesis using go pivot by (auto simp: settle_candidate_def p(2))
  next
    case optimal
    have "judged n f s t" if "ord" "eligible n s t" for t
    proof (cases "judged n f s t")
      case False
      then have e: "et \<le> hi n t" using q that by blast
      have "lo n t \<le> pivot_time s" using lo_le [OF p(1), of t] that(2) by (simp add: eligible_def)
      then show ?thesis using judged_from [of f, OF _ e _ optimal(2)] q that(1) by blast
    qed
    then have "ord \<longrightarrow> settled n f s" using q by (auto simp: settled_def)
    then show ?thesis using go optimal f by (auto simp: settle_candidate_def p(2))
  next
    case search
    have "virtual_of n s (\<lambda>_. 0) s" using base srch search(1) by (simp add: virtual_of_def)
    then obtain s' where s': "virtual_search n scale (num_non_empty_deques s) (\<lambda>_. 0) s = Some s'"
      "s' = s \<or> ap_inv n s' \<and> leads n s s' \<and> (ord \<longrightarrow> quality n f s') \<and> all_queued n s' < all_queued n s"
      using virtual_search_ok [of n s f scale ord, OF n base sg f, of "\<lambda>_. 0" s] searched q by blast
    moreover have "ap_inv n s" "ord \<longrightarrow> quality n f s"
      using base sg srch search(1) p q searched by (auto simp: ap_inv_def quality_def)
    ultimately show ?thesis using search f by (auto simp: settle_candidate_def p(2))
  next
    case more
    have "ap_inv n s" "ord \<longrightarrow> quality n f s"
      using base sg srch more(1) p q searched by (auto simp: ap_inv_def quality_def)
    then show ?thesis using more f by (simp add: settle_candidate_def p(2))
  qed
qed

lemma round_ok:
  assumes n: "0 < n" "n \<le> 9" and inv: "ap_inv n s" and all: "num_non_empty_deques s = int n"
    and f: "f = scale (age_penalty s)" and q: "ord \<longrightarrow> inflating f \<and> quality n f s"
  shows "\<exists>s'. process_round n scale s = Some s' \<and> ap_inv n s' \<and> leads n s s' \<and> (ord \<longrightarrow> quality n f s') \<and>
    (s', s) \<in> measures [all_queued n, still_ahead n]"
proof -
  obtain ei et where e: "getCandidateBoundary n True s = (ei, et)" by fastforce
  obtain si b where b: "getCandidateBoundary n False s = (si, b)" by fastforce
  define s1 where "s1 = s\<lparr>has_dropped_messages := (\<lambda>i. if i < n \<and> i \<noteq> ei then False else has_dropped_messages s i)\<rparr>"
  have w: "whole s1 = whole s" "front_time s1 = front_time s" by (auto simp: whole_def s1_def front_time_def)
  have en: "ei < n" "et = front_time s1 ei" "\<And>j. j < n \<Longrightarrow> front_time s1 j \<le> et"
    using candidate_boundary [OF e n(1)] by (auto simp: extreme_def w)
  have st: "si < n" "b = front_time s1 si" "\<And>j. j < n \<Longrightarrow> b \<le> front_time s1 j"
    using candidate_boundary [OF b n(1)] by (auto simp: extreme_def w)
  have base: "ap_base n s1" using inv by (simp add: ap_inv_def ap_base_def s1_def)
  then have full: "deques s1 i \<noteq> []" if "i < n" for i
    using counter_full [OF _ that] all by (simp add: ap_base_def s1_def)
  have inv1: "ap_inv n s1" using inv unfolding ap_inv_def ap_base_def searching_def has_cand_def w by (auto simp: s1_def)
  have lead1: "leads n s s1" unfolding leads_def w by (simp add: pubs_def s1_def)
  have same: "quality n f s1 = quality n f s"
    unfolding quality_def sound_so_far_def ordered_def searched_def cand_good_def eligible_def ahead_def judged_def w
    by (simp add: s1_def)
  have sizes: "all_queued n s1 = all_queued n s" "still_ahead n s1 = still_ahead n s"
    by (simp_all add: all_queued_def still_ahead_def w) (simp add: s1_def)
  have f1: "f = scale (age_penalty s1)" using f by (simp add: s1_def)
  have rnd: "process_round n scale s =
      (if pivot s1 = NO_PIVOT \<and> (et - b > max_interval_duration s1 \<or> has_dropped_messages s1 ei) then dequeDeleteFront si s1
       else do { s2 \<leftarrow> select_candidate n scale (ei, et) (si, b) s1; settle_candidate n scale (ei, et) (si, b) s2 })"
    unfolding process_round_def Let_def e b fst_conv snd_conv s1_def ..
  show ?thesis
  proof (cases "pivot s1 = NO_PIVOT \<and> (et - b > max_interval_duration s1 \<or> has_dropped_messages s1 ei)")
    case True
    obtain m r where d: "deques s1 si = m # r" using full [OF st(1)] by (cases "deques s1 si") auto
    define s' where "s' = s1\<lparr>deques := (deques s1)(si := r), num_non_empty_deques := num_non_empty_deques s1 - (if r = [] then 1 else 0)\<rparr>"
    have "process_round n scale s = dequeDeleteFront si s1" unfolding rnd using True by simp
    also have "\<dots> = Some s'" using st(1) n(2) d by (simp add: dequeDeleteFront_def s'_def)
    finally have "process_round n scale s = Some s'" .
    moreover have "past s1 = (\<lambda>_. [])" using inv1 True by (auto simp: ap_inv_def)
    then have w': "whole s' i = (if i = si then r else whole s1 i)" "whole s1 si = m # r" for i using d by (auto simp: whole_def s'_def)
    moreover have "ap_inv n s'" using inv1 True counter_pop [of si n "deques s1" r] st(1) d by (auto simp: ap_inv_def ap_base_def s'_def)
    moreover have "leads n s1 s'"
    proof -
      have "pubs s' = pubs s1" by (simp add: pubs_def [abs_def] s'_def)
      moreover have "subseq (whole s' i) (whole s1 i)" "length (whole s' i) \<le> length (whole s1 i)" for i using w' by auto
      ultimately show ?thesis unfolding leads_def by (auto simp: s'_def intro!: list_emb_append_mono)
    qed
    moreover have "quality n f s'" if "quality n f s1"
      using that True unfolding quality_def sound_so_far_def ordered_def w' by (auto simp: s'_def w'(2) dest: spec [of _ si])
    moreover have "all_queued n s' < all_queued n s1"
      unfolding all_queued_def using st(1) by (intro sum_strict_mono_ex1) (auto simp: w')
    ultimately show ?thesis using leads_trans [OF lead1] same sizes q by auto
  next
    case False
    have fresh: "pivot s1 = NO_PIVOT \<longrightarrow> et - b \<le> max_interval_duration s1 \<and> (\<forall>i<n. \<not> has_dropped_messages s1 i)"
      using False by (auto simp: s1_def)
    obtain c where c: "select_candidate n scale (ei, et) (si, b) s1 = dequeMoveFrontToPast si c" "searching n c" "ap_base n c"
      "deques c = deques s1" "signals c = signals s1" "leads n s1 c"
      "ord \<longrightarrow> sound_so_far n f c \<and> searched n f c \<and> b - candidate_start c \<le> f (et - candidate_end c)"
      by (rule select_cases [of n s1 ei et si b f scale ord, OF n inv1 full en st fresh f1]) (use q same in auto)
    have fr: "front_time c = front_time s1" by (simp add: front_time_def [abs_def] c(4))
    have full': "deques c i \<noteq> []" if "i < n" for i using full [OF that] c(4) by simp
    obtain s2 where s2: "dequeMoveFrontToPast si c = Some s2" "ap_base n s2" "has_cand n s2" "si \<noteq> pivot s2 \<longrightarrow> searching n s2"
      "signals s2 = signals c" "leads n c s2" "all_queued n s2 = all_queued n c" "still_ahead n s2 < still_ahead n c"
      "ord \<longrightarrow> sound_so_far n f s2 \<and> cand_good n s2 \<and>
        (\<forall>t. eligible n s2 t \<longrightarrow> judged n f s2 t \<or> ahead n s2 t \<and> et \<le> hi n t \<and> si \<noteq> pivot s2)"
      by (rule set_aside [OF n c(2,3) full' en(1) _ st(1), of et b ord f]) (use fr en st c(7) q in \<open>auto simp: inflating_def\<close>)
    have "list_all (complete_signal n) (signals s2)" using inv1 s2(5) c(5) by (simp add: ap_inv_def)
    moreover have lead2: "leads n s s2" using leads_trans [OF lead1 leads_trans [OF c(6) s2(6)]] .
    then have "f = scale (age_penalty s2)" using f by (simp add: leads_def)
    ultimately obtain s' where s': "settle_candidate n scale (ei, et) (si, b) s2 = Some s'" "ap_inv n s'" "leads n s2 s'"
      "ord \<longrightarrow> quality n f s'" "s' = s2 \<or> all_queued n s' < all_queued n s2"
      using settle_ok [of n s2 si f scale ord et ei b, OF n s2(2,3,4)] s2(9) q by (auto simp: inflating_def)
    have "process_round n scale s = Some s'" unfolding rnd using False c(1) s2(1) s'(1) by (simp only: if_False bind.simps)
    moreover have "all_queued n c \<le> all_queued n s"
      using c(6) sizes(1) unfolding leads_def all_queued_def by (metis (no_types, lifting) sum_mono)
    moreover have "still_ahead n c = still_ahead n s" using sizes(2) c(4) by (simp add: still_ahead_def)
    ultimately show ?thesis using s' s2(7,8) leads_trans [OF lead2 s'(3)] by auto
  qed
qed

lemma process_ok:
  assumes n: "0 < n" "n \<le> 9" and "ap_inv n s" and "ord \<longrightarrow> inflating (scale (age_penalty s)) \<and> quality n (scale (age_penalty s)) s"
  shows "\<exists>s'. process n scale s = Some s' \<and> ap_inv n s' \<and> leads n s s' \<and> num_non_empty_deques s' < int n \<and>
    (ord \<longrightarrow> quality n (scale (age_penalty s)) s')"
  using assms(3,4)
proof (induction s rule: wf_induct_rule [OF wf_measures [of "[all_queued n, still_ahead n]"]])
  case (1 s)
  show ?case
  proof (cases "num_non_empty_deques s = int n")
    case True
    obtain s1 where s1: "process_round n scale s = Some s1" "ap_inv n s1" "leads n s s1"
      "ord \<longrightarrow> quality n (scale (age_penalty s)) s1" "(s1, s) \<in> measures [all_queued n, still_ahead n]"
      using round_ok [of n s _ scale ord, OF n "1.prems"(1) True refl "1.prems"(2)] by blast
    have age: "age_penalty s1 = age_penalty s" using s1(3) by (simp add: leads_def)
    obtain s' where "process n scale s1 = Some s'" "ap_inv n s'" "leads n s1 s'" "num_non_empty_deques s' < int n"
      "ord \<longrightarrow> quality n (scale (age_penalty s)) s'"
      using "1.IH" [OF s1(5,2)] s1(4) "1.prems"(2) age by auto
    then show ?thesis using True s1(1) leads_trans [OF s1(3)] by (subst process.simps) auto
  next
    case False
    then have "num_non_empty_deques s < int n" using counter_le [of n "deques s"] "1.prems"(1) by (simp add: ap_inv_def ap_base_def)
    then show ?thesis using False "1.prems" by (subst process.simps) auto
  qed
qed

end
