(* ===== verification/Sync_Approx_Theorems.thy ===== *)
theory Sync_Approx_Theorems
  imports Sync_Approx_Process
begin

text \<open>
  Runs of the approximate-time synchronizer: a fresh synchronizer is configured and then messages
  arrive, in any interleaving of the inputs. What is proved of every run: it returns, each message is
  used at most once and in order, the queues are bounded, and, when each input delivers its messages
  in the order of their stamps and at the promised minimum distance, the published sets are short
  enough and optimal.
\<close>

section \<open>Adding a message\<close>

definition resting :: "nat \<Rightarrow> approx \<Rightarrow> bool" where
  "resting n s \<longleftrightarrow> ap_inv n s \<and> num_non_empty_deques s < int n \<and> 0 < queue_size s \<and> (\<forall>i. length (whole s i) \<le> queue_size s)"

abbreviation penalty :: "(u64 \<Rightarrow> int \<Rightarrow> int) \<Rightarrow> approx \<Rightarrow> int \<Rightarrow> int" where
  "penalty scale s \<equiv> scale (age_penalty s)"

text \<open>The state with a message appended, which \<open>approx_push\<close> works on.\<close>

definition enqueued :: "nat \<Rightarrow> event \<Rightarrow> approx \<Rightarrow> approx" where
  "enqueued i evt s = s\<lparr>deques := (deques s)(i := deques s i @ [evt]),
     num_non_empty_deques := num_non_empty_deques s + (if deques s i = [] then 1 else 0)\<rparr>"

lemma whole_enqueued: "whole (enqueued i evt s) = (whole s)(i := whole s i @ [evt])"
  by (auto simp: whole_def enqueued_def fun_eq_iff)

lemma counter_enqueued:
  assumes "i < n"
  shows "counter n (q(i := q i @ [evt])) = counter n q + (if q i = [] then 1 else 0)"
  using counter_pop [of i n "q(i := q i @ [evt])" "q i"] assms by auto

lemma inv_enqueued:
  assumes inv: "ap_inv n s" and i: "i < n"
  shows "ap_inv n (enqueued i evt s)"
proof -
  have "ap_base n (enqueued i evt s)"
    using inv i counter_enqueued [OF i, of "deques s" evt] by (auto simp: ap_inv_def ap_base_def enqueued_def)
  moreover have "searching n (enqueued i evt s)" if "searching n s"
    using that unfolding searching_def has_cand_def whole_enqueued by (auto simp: enqueued_def hd_append)
  ultimately show ?thesis using inv by (auto simp: ap_inv_def) (auto simp: enqueued_def)
qed

text \<open>A message comes in order if it is later than everything queued for its input, by the lower bound.\<close>

definition timely :: "nat \<Rightarrow> event \<Rightarrow> approx \<Rightarrow> bool" where
  "timely i evt s \<longleftrightarrow> (\<forall>m\<in>set (whole s i). ev_time m + inter_message_lower_bounds s i \<le> ev_time evt)"

lemma quality_enqueued:
  assumes q: "quality n f s" and inv: "ap_inv n s" and i: "i < n" and t: "timely i evt s"
  shows "quality n f (enqueued i evt s)"
proof -
  let ?s = "enqueued i evt s"
  have L: "0 \<le> inter_message_lower_bounds s j" for j using q by (simp add: quality_def sound_so_far_def ordered_def)
  have cfg: "inter_message_lower_bounds ?s = inter_message_lower_bounds s" "pivot ?s = pivot s" "pivot_time ?s = pivot_time s"
    "past ?s = past s" "candidate_start ?s = candidate_start s" "candidate_end ?s = candidate_end s"
    "max_interval_duration ?s = max_interval_duration s" "signals ?s = signals s" by (simp_all add: enqueued_def)
  have early: "ev_time m \<le> ev_time evt" if "m \<in> set (whole s i)" for m
    using t that L [of i] unfolding timely_def by fastforce
  then have "ordered ?s" using q early unfolding quality_def sound_so_far_def ordered_def whole_enqueued cfg
    by (auto simp: sorted_append)
  moreover have "searched n f ?s" if piv: "pivot s \<noteq> NO_PIVOT"
  proof -
    have full: "whole s j \<noteq> []" if "j < n" for j using inv piv that by (simp add: ap_inv_def searching_def has_cand_def)
    have "(\<lambda>j. ev_time (hd (whole ?s j))) = (\<lambda>j. ev_time (hd (whole s j)))"
      using full [OF i] by (auto simp: whole_enqueued fun_eq_iff)
    then have "cand_good n ?s" using q piv unfolding cand_good_def cfg by (simp add: quality_def searched_def cand_good_def)
    moreover have "eligible n s u" if u: "eligible n ?s u" for u
    proof -
      have new: "ev_time (last (whole s i)) + inter_message_lower_bounds s i \<le> ev_time evt"
        using t full [OF i] by (simp add: timely_def)
      have "u j \<in> ev_time ` set (whole s j) \<or> ev_time (last (whole s j)) + inter_message_lower_bounds s j \<le> u j" if "j < n" for j
      proof (cases "j = i")
        case True
        have "u i \<in> ev_time ` set (whole s i @ [evt]) \<or> ev_time evt + inter_message_lower_bounds s i \<le> u i"
          using u i unfolding eligible_def offered_def whole_enqueued cfg by (metis fun_upd_same last_snoc)
        then show ?thesis using new L [of i] True by auto
      next
        case False
        then show ?thesis using u that unfolding eligible_def offered_def whole_enqueued cfg by auto
      qed
      then show ?thesis using u unfolding eligible_def offered_def cfg by blast
    qed
    ultimately show ?thesis using q piv unfolding searched_def ahead_def judged_def cfg
      by (auto simp: quality_def searched_def ahead_def judged_def)
  qed
  ultimately show ?thesis using q by (simp add: quality_def sound_so_far_def cfg)
qed

lemma check_bound:
  assumes "deques s i \<noteq> []"
  shows "\<exists>w. checkInterMessageBound i s = Some (s\<lparr>warned_about_incorrect_bound := w\<rparr>)"
proof -
  have "checkInterMessageBound i s = Some s \<or> checkInterMessageBound i s = Some (s\<lparr>warned_about_incorrect_bound := (warned_about_incorrect_bound s)(i := True)\<rparr>)"
    using assms unfolding checkInterMessageBound_def Let_def by auto
  moreover have "s\<lparr>warned_about_incorrect_bound := warned_about_incorrect_bound s\<rparr> = s" by simp
  ultimately show ?thesis by metis
qed

lemma warned_same:
  "whole (s\<lparr>warned_about_incorrect_bound := w\<rparr>) = whole s" "ap_inv n (s\<lparr>warned_about_incorrect_bound := w\<rparr>) = ap_inv n s"
  "quality n f (s\<lparr>warned_about_incorrect_bound := w\<rparr>) = quality n f s" "leads n s (s\<lparr>warned_about_incorrect_bound := w\<rparr>)"
proof -
  show w: "whole (s\<lparr>warned_about_incorrect_bound := w\<rparr>) = whole s" by (auto simp: whole_def)
  show "ap_inv n (s\<lparr>warned_about_incorrect_bound := w\<rparr>) = ap_inv n s"
    unfolding ap_inv_def ap_base_def searching_def has_cand_def w by simp
  show "quality n f (s\<lparr>warned_about_incorrect_bound := w\<rparr>) = quality n f s"
    unfolding quality_def sound_so_far_def ordered_def searched_def cand_good_def eligible_def ahead_def judged_def w by simp
  show "leads n s (s\<lparr>warned_about_incorrect_bound := w\<rparr>)" unfolding leads_def w by (simp add: pubs_def)
qed

lemma push_ok:
  assumes n: "0 < n" "n \<le> 9" and rest: "resting n s" and i: "i < n"
    and q: "ord \<longrightarrow> inflating (penalty scale s) \<and> quality n (penalty scale s) s \<and> timely i evt s"
  shows "\<exists>s'. approx_push n scale i evt s = Some s' \<and> ap_inv n s' \<and> num_non_empty_deques s' < int n \<and>
    leads n (enqueued i evt s) s' \<and> (ord \<longrightarrow> quality n (penalty scale s) s')"
proof -
  let ?s = "enqueued i evt s"
  have inv: "ap_inv n s" and few: "num_non_empty_deques s < int n" using rest by (auto simp: resting_def)
  have inv': "ap_inv n ?s" by (rule inv_enqueued [OF inv i])
  have q': "ord \<longrightarrow> quality n (penalty scale s) ?s" using quality_enqueued [OF _ inv i] q by blast
  have age: "age_penalty ?s = age_penalty s" by (simp add: enqueued_def)
  show ?thesis
  proof (cases "deques s i = []")
    case True
    then have push: "approx_push n scale i evt s = (if num_non_empty_deques ?s = int n then process n scale ?s else Some ?s)"
      by (simp add: approx_push_def enqueued_def Let_def)
    show ?thesis
    proof (cases "num_non_empty_deques ?s = int n")
      case True
      then show ?thesis using process_ok [OF n inv', of ord scale] q q' push age by auto
    next
      case False
      then have "num_non_empty_deques ?s < int n" using few True by (simp add: enqueued_def)
      then show ?thesis using False inv' q' push by simp
    qed
  next
    case False
    then have "approx_push n scale i evt s = checkInterMessageBound i ?s" by (simp add: approx_push_def enqueued_def Let_def)
    moreover obtain w where "checkInterMessageBound i ?s = Some (?s\<lparr>warned_about_incorrect_bound := w\<rparr>)"
      using check_bound [of ?s i] by (auto simp: enqueued_def)
    ultimately show ?thesis using inv' q' few False by (simp add: warned_same) (simp add: enqueued_def)
  qed
qed

text \<open>When a queue is too long, everything set aside comes back and the oldest message goes.\<close>

lemma recover_all:
  assumes n: "n \<le> 9" and out: "\<And>i. n \<le> i \<Longrightarrow> deques s i = [] \<and> past s i = []"
  shows "fold (recover n) [0..<9] (s\<lparr>num_non_empty_deques := 0\<rparr>) =
    s\<lparr>past := (\<lambda>_. []), deques := whole s, num_non_empty_deques := counter n (whole s)\<rparr>"
proof -
  let ?z = "s\<lparr>num_non_empty_deques := 0\<rparr>"
  have "each (\<lambda>i t. Some (recover n i t)) [0..<9] ?z = Some (?z\<lparr>past := (\<lambda>i. if i < 9 \<and> i < n then [] else past s i),
      deques := (\<lambda>i. if i < 9 \<and> i < n then whole s i else deques s i),
      num_non_empty_deques := num_non_empty_deques ?z + counter (min 9 n) (whole s)\<rparr>)"
    by (rule each_replace) (auto simp: recover_def whole_def)
  moreover have "(\<lambda>i. if i < 9 \<and> i < n then [] else past s i) = (\<lambda>_. [])"
    "(\<lambda>i. if i < 9 \<and> i < n then whole s i else deques s i) = whole s"
    using n out by (auto simp: fun_eq_iff whole_def)
  ultimately show ?thesis using n by (simp add: each_fold min_def)
qed

lemma overflow_ok:
  assumes n: "0 < n" "n \<le> 9" and inv: "ap_inv n s" and few: "num_non_empty_deques s < int n" and i: "i < n"
    and long: "length (whole s i) = Suc (queue_size s)" and size: "0 < queue_size s"
    and q: "ord \<longrightarrow> inflating (penalty scale s) \<and> quality n (penalty scale s) s"
  shows "\<exists>s'. approx_overflow n scale i s = Some s' \<and> ap_inv n s' \<and> num_non_empty_deques s' < int n \<and> leads n s s' \<and>
    length (whole s' i) \<le> queue_size s \<and> (ord \<longrightarrow> quality n (penalty scale s) s')"
proof -
  have out: "deques s j = [] \<and> past s j = []" if "n \<le> j" for j using inv that by (simp add: ap_inv_def ap_base_def)
  obtain m m' r where d: "whole s i = m # m' # r" using long size by (metis Suc_length_conv gr0_implies_Suc)
  define z where "z = s\<lparr>past := (\<lambda>_. []), num_non_empty_deques := counter n (whole s), deques := (whole s)(i := m' # r),
    has_dropped_messages := (has_dropped_messages s)(i := True), candidate := (\<lambda>_. None), pivot := NO_PIVOT\<rparr>"
  have w: "whole z = (whole s)(i := m' # r)" by (auto simp: z_def whole_def)
  have cnt: "counter n ((whole s)(i := m' # r)) = counter n (whole s)" using counter_pop [of i n "whole s" "m' # r"] i d by simp
  have invz: "ap_inv n z" using inv out i cnt by (simp add: ap_inv_def ap_base_def z_def whole_def)
  have "subseq (whole z j) (whole s j)" "length (whole z j) \<le> length (whole s j)" for j using d by (auto simp: w)
  then have lead: "leads n s z" by (simp add: leads_def pubs_def z_def list_emb_append_mono)
  have qz: "quality n (penalty scale s) z" if "quality n (penalty scale s) s"
  proof -
    have "sorted (map ev_time (m # m' # r))" using that d by (metis quality_def sound_so_far_def ordered_def)
    then show ?thesis using that unfolding quality_def sound_so_far_def ordered_def w by (auto simp: z_def)
  qed
  have age: "age_penalty z = age_penalty s" by (simp add: z_def)
  note rec = recover_all [of n s, OF n(2) out]
  have over: "approx_overflow n scale i s = (if pivot s \<noteq> NO_PIVOT then process n scale z
      else Some (s\<lparr>past := (\<lambda>_. []), deques := (whole s)(i := m' # r), num_non_empty_deques := counter n (whole s),
        has_dropped_messages := (has_dropped_messages s)(i := True)\<rparr>))"
    using d by (simp add: approx_overflow_def rec z_def Let_def del: upt_rec_numeral upt_conv_Cons)
  show ?thesis
  proof (cases "pivot s = NO_PIVOT")
    case True
    then have none: "candidate s = (\<lambda>_. None)" "whole s = deques s" using inv by (auto simp: ap_inv_def whole_def)
    have "z = s\<lparr>past := (\<lambda>_. []), deques := (whole s)(i := m' # r), num_non_empty_deques := counter n (whole s),
        has_dropped_messages := (has_dropped_messages s)(i := True)\<rparr>"
      unfolding z_def using none(1) True by (intro approx.equality) auto
    then have "approx_overflow n scale i s = Some z" using over True by simp
    moreover have "num_non_empty_deques z < int n" using few inv none(2) by (simp add: z_def ap_inv_def ap_base_def)
    moreover have "length (whole z i) \<le> queue_size s" using long d by (simp add: w)
    ultimately show ?thesis using invz lead qz q by blast
  next
    case False
    obtain s' where s': "process n scale z = Some s'" "ap_inv n s'" "leads n z s'" "num_non_empty_deques s' < int n"
      "ord \<longrightarrow> quality n (penalty scale s) s'"
      using process_ok [OF n invz, of ord scale] q qz age by auto
    have "length (whole s' i) \<le> length (whole z i)" using s'(3) by (simp add: leads_def)
    then have "length (whole s' i) \<le> queue_size s" using long d by (simp add: w)
    then show ?thesis using s' over False leads_trans [OF lead s'(3)] by auto
  qed
qed

lemma add_ok:
  assumes n: "0 < n" "n \<le> 9" and rest: "resting n s" and i: "i < n"
    and q: "ord \<longrightarrow> inflating (penalty scale s) \<and> quality n (penalty scale s) s \<and> timely i evt s"
  shows "\<exists>s'. approx_add n scale i evt s = Some s' \<and> resting n s' \<and> leads n (enqueued i evt s) s' \<and> (ord \<longrightarrow> quality n (penalty scale s) s')"
proof -
  obtain t where t: "approx_push n scale i evt s = Some t" "ap_inv n t" "num_non_empty_deques t < int n"
    "leads n (enqueued i evt s) t" "ord \<longrightarrow> quality n (penalty scale s) t" using push_ok [of n s i ord scale evt, OF n rest i q] by blast
  have cfg: "queue_size t = queue_size s" "age_penalty t = age_penalty s" using t(4) by (auto simp: leads_def enqueued_def)
  have size: "0 < queue_size s" "length (whole s j) \<le> queue_size s" for j using rest by (auto simp: resting_def)
  have grow: "length (whole t j) \<le> queue_size s + (if j = i then 1 else 0)" for j
  proof -
    have "length (whole t j) \<le> length (whole (enqueued i evt s) j)" using t(4) by (simp add: leads_def)
    then show ?thesis using size(2) [of j] by (simp add: whole_enqueued split: if_splits)
  qed
  have len: "length (deques t i) + length (past t i) = length (whole t i)" by (simp add: whole_def)
  show ?thesis
  proof (cases "length (whole t i) > queue_size s")
    case True
    then have "length (whole t i) = Suc (queue_size t)" using grow [of i] cfg by simp
    then obtain s' where s': "approx_overflow n scale i t = Some s'" "ap_inv n s'" "num_non_empty_deques s' < int n" "leads n t s'"
      "length (whole s' i) \<le> queue_size t" "ord \<longrightarrow> quality n (penalty scale s) s'"
      using overflow_ok [OF n t(2,3) i, of ord scale] t(5) q cfg size(1) by auto
    have "length (whole s' j) \<le> queue_size s" for j
    proof (cases "j = i")
      case False
      have "length (whole s' j) \<le> length (whole t j)" using s'(4) by (simp add: leads_def)
      then show ?thesis using grow [of j] False by simp
    qed (use s'(5) cfg in simp)
    moreover have "queue_size s' = queue_size s" using s'(4) cfg by (simp add: leads_def)
    moreover have "approx_add n scale i evt s = Some s'" using t(1) s'(1) True len cfg by (simp add: approx_add_def)
    ultimately show ?thesis using s' leads_trans [OF t(4) s'(4)] size(1) by (auto simp: resting_def)
  next
    case False
    then have "approx_add n scale i evt s = Some t" using t(1) len cfg by (simp add: approx_add_def)
    moreover have "length (whole t j) \<le> queue_size s" for j using grow [of j] False by (cases "j = i") auto
    ultimately show ?thesis using t cfg size(1) by (auto simp: resting_def)
  qed
qed

section \<open>Runs\<close>

text \<open>A configured synchronizer, before any message.\<close>

definition configured :: "nat \<Rightarrow> int \<Rightarrow> (nat \<Rightarrow> int) \<Rightarrow> u64 \<Rightarrow> approx" where
  "configured qs M L p = (the (init_approx qs))\<lparr>max_interval_duration := M, inter_message_lower_bounds := L, age_penalty := p\<rparr>"

lemma configured_rest:
  assumes "0 < n" and "0 < qs" and "\<And>i. 0 \<le> L i"
  shows "resting n (configured qs M L p)" and "quality n f (configured qs M L p)" and "signals (configured qs M L p) = []"
    and "whole (configured qs M L p) = (\<lambda>_. [])"
proof -
  show w: "whole (configured qs M L p) = (\<lambda>_. [])" using assms(2) by (simp add: configured_def init_approx_def whole_def [abs_def])
  show "resting n (configured qs M L p)" using assms(1,2) unfolding resting_def w
    by (simp add: configured_def init_approx_def ap_inv_def ap_base_def counter_def)
  show "quality n f (configured qs M L p)" using assms unfolding quality_def sound_so_far_def ordered_def w
    by (simp add: configured_def init_approx_def)
  show "signals (configured qs M L p) = []" using assms(2) by (simp add: configured_def init_approx_def)
qed

definition spaced :: "(nat \<Rightarrow> int) \<Rightarrow> nat \<Rightarrow> (nat \<times> event) list \<Rightarrow> bool" where
  "spaced L n xs \<longleftrightarrow> (\<forall>i<n. sorted_wrt (\<lambda>a b. ev_time a + L i \<le> ev_time b) (inputs i xs))"

text \<open>The state after a part \<open>xs\<close> of the messages.\<close>

definition after :: "nat \<Rightarrow> (u64 \<Rightarrow> int \<Rightarrow> int) \<Rightarrow> bool \<Rightarrow> approx \<Rightarrow> (nat \<times> event) list \<Rightarrow> approx \<Rightarrow> bool" where
  "after n scale ord s0 xs s \<longleftrightarrow> resting n s \<and> queue_size s = queue_size s0 \<and> max_interval_duration s = max_interval_duration s0 \<and>
     age_penalty s = age_penalty s0 \<and> inter_message_lower_bounds s = inter_message_lower_bounds s0 \<and>
     (\<forall>i<n. subseq (pubs s i @ whole s i) (inputs i xs)) \<and> (ord \<longrightarrow> quality n (penalty scale s0) s)"

lemma after_add:
  assumes n: "0 < n" "n \<le> 9" and a: "after n scale ord s0 xs s" and i: "fst x < n"
    and q: "ord \<longrightarrow> inflating (penalty scale s0) \<and> spaced (inter_message_lower_bounds s0) n (xs @ [x])"
  shows "\<exists>s'. approx_add n scale (fst x) (snd x) s = Some s' \<and> after n scale ord s0 (xs @ [x]) s'"
proof -
  obtain i evt where x: "x = (i, evt)" by (cases x)
  have sub: "subseq (pubs s j @ whole s j) (inputs j xs)" if "j < n" for j using a that by (simp add: after_def)
  have "timely i evt s" if o: "ord"
  proof -
    have "ev_time m + inter_message_lower_bounds s0 i \<le> ev_time evt" if "m \<in> set (inputs i xs)" for m
      using q o i that by (auto simp: spaced_def inputs_def x sorted_wrt_append)
    moreover have "m \<in> set (inputs i xs)" if "m \<in> set (whole s i)" for m
    proof -
      have "i < n" using i x by simp
      moreover have "m \<in> set (pubs s i @ whole s i)" using that by simp
      ultimately obtain y where "y \<in> set (inputs i xs)" "m = y" by (rule list_emb_set [OF sub])
      then show ?thesis by simp
    qed
    moreover have "inter_message_lower_bounds s = inter_message_lower_bounds s0" using a by (simp add: after_def)
    ultimately show ?thesis by (simp add: timely_def)
  qed
  then obtain s' where s': "approx_add n scale i evt s = Some s'" "resting n s'" "leads n (enqueued i evt s) s'"
    "ord \<longrightarrow> quality n (penalty scale s) s'"
    using add_ok [of n s i ord scale evt, OF n] a q i x by (auto simp: after_def)
  have "subseq (pubs s' j @ whole s' j) (inputs j (xs @ [x]))" if "j < n" for j
  proof -
    have "subseq (pubs s' j @ whole s' j) (pubs s j @ whole (enqueued i evt s) j)"
      using s'(3) that by (simp add: leads_def) (simp add: pubs_def enqueued_def)
    also have "subseq (pubs s j @ whole (enqueued i evt s) j) (inputs j (xs @ [x]))"
      using list_emb_append_mono [OF sub [OF that], of "[evt]" "[evt]"] sub [OF that] by (auto simp: whole_enqueued inputs_def x)
    finally show ?thesis .
  qed
  then have "after n scale ord s0 (xs @ [x]) s'" using a s'(2,3,4) by (auto simp: after_def leads_def enqueued_def)
  then show ?thesis using s'(1) x by simp
qed

lemma after_run:
  assumes n: "0 < n" "n \<le> 9"
  shows "after n scale ord s0 xs s \<Longrightarrow> \<forall>x\<in>set ys. fst x < n \<Longrightarrow>
    ord \<longrightarrow> inflating (penalty scale s0) \<and> spaced (inter_message_lower_bounds s0) n (xs @ ys) \<Longrightarrow>
    \<exists>s'. approx_run n scale ys s = Some s' \<and> after n scale ord s0 (xs @ ys) s'"
proof (induction ys arbitrary: xs s)
  case (Cons y ys)
  have "ord \<longrightarrow> inflating (penalty scale s0) \<and> spaced (inter_message_lower_bounds s0) n (xs @ [y])"
    using Cons.prems(3) by (auto simp: spaced_def inputs_def sorted_wrt_append)
  then obtain s1 where s1: "approx_add n scale (fst y) (snd y) s = Some s1" "after n scale ord s0 (xs @ [y]) s1"
    using after_add [of n scale ord s0 xs s y, OF n] Cons.prems(1,2) by auto
  then show ?case using Cons.IH [OF s1(2)] Cons.prems(2,3) by auto
qed simp

lemma run_ok:
  assumes n: "0 < n" "n \<le> 9" and "0 < qs" and "\<And>i. 0 \<le> L i" and "\<forall>x\<in>set xs. fst x < n"
    and "ord \<longrightarrow> inflating (scale p) \<and> spaced L n xs"
  shows "\<exists>s. approx_run n scale xs (configured qs M L p) = Some s \<and> after n scale ord (configured qs M L p) xs s"
proof -
  note c = configured_rest [OF n(1) assms(3,4)]
  have cfg: "inter_message_lower_bounds (configured qs M L p) = L" "age_penalty (configured qs M L p) = p" by (simp_all add: configured_def)
  have "after n scale ord (configured qs M L p) [] (configured qs M L p)"
    using c by (auto simp: after_def pubs_def)
  then show ?thesis using after_run [OF n, of scale ord "configured qs M L p" "[]" "configured qs M L p" xs] assms(5,6) cfg by simp
qed

text \<open>An example run of two inputs with a maximal interval of 50: the pair of stamps 100 and 130 is published
  once the message with stamp 200 shows that waiting does not improve it.\<close>

definition demo_scale :: "u64 \<Rightarrow> int \<Rightarrow> int" where "demo_scale p d = d * 11 div 10"

definition demo_events :: "(nat \<times> event) list" where
  "demo_events = [(0, \<lparr>ev_time = 100, ev_id = 1\<rparr>), (1, \<lparr>ev_time = 130, ev_id = 2\<rparr>), (0, \<lparr>ev_time = 200, ev_id = 3\<rparr>)]"

definition demo_out :: approx where
  "demo_out = the (approx_run 2 demo_scale demo_events (configured 5 50 (\<lambda>_. 0) 0))"

lemma demo_run: "approx_run 2 demo_scale demo_events (configured 5 50 (\<lambda>_. 0) 0) = Some demo_out"
proof -
  have "\<exists>s. approx_run 2 demo_scale demo_events (configured 5 50 (\<lambda>_. 0) 0) = Some s"
    using run_ok [of 2 5 "\<lambda>_. 0" demo_events False demo_scale 0 50] by (auto simp: demo_events_def)
  then show ?thesis by (auto simp: demo_out_def)
qed

lemma demo_signals:
  "map (\<lambda>g. (map (sg_set g) [0, 1], sg_pivot g, map (sg_queued g) [0, 1])) (signals demo_out) =
     [([Some \<lparr>ev_time = 100, ev_id = 1\<rparr>, Some \<lparr>ev_time = 130, ev_id = 2\<rparr>], 1,
       [[\<lparr>ev_time = 100, ev_id = 1\<rparr>, \<lparr>ev_time = 200, ev_id = 3\<rparr>], [\<lparr>ev_time = 130, ev_id = 2\<rparr>]])]"
  by code_simp

lemma demo_ordered: "inflating (demo_scale p)" "spaced (\<lambda>_. 0) 2 demo_events" "\<forall>x\<in>set demo_events. fst x < 2"
  by (auto simp: inflating_def demo_scale_def spaced_def inputs_def demo_events_def less_2_cases_iff numeral_2_eq_2 less_Suc_eq
      intro!: monoI zdiv_mono1)

lemma demo_signal:
  obtains g where "g \<in> set (signals demo_out)" "sg_set g 0 = Some \<lparr>ev_time = 100, ev_id = 1\<rparr>"
    "sg_set g 1 = Some \<lparr>ev_time = 130, ev_id = 2\<rparr>" "sg_pivot g = 1"
    "sg_queued g 0 = [\<lparr>ev_time = 100, ev_id = 1\<rparr>, \<lparr>ev_time = 200, ev_id = 3\<rparr>]" "sg_queued g 1 = [\<lparr>ev_time = 130, ev_id = 2\<rparr>]"
  using demo_signals by (cases "signals demo_out") auto

section \<open>Theorems\<close>

text \<open>Claim C12. Termination and safety. A synchronizer for two to nine inputs with a positive queue size
  handles any sequence of messages, in any order and with any stamps: every call of \<open>add\<close> returns, no
  assertion fails and no empty queue is accessed, whatever the multiplication by the age penalty
  yields.\<close>

theorem approx_always_returns:
  assumes "2 \<le> n" and "n \<le> 9" and "0 < qs" and "\<And>i. 0 \<le> L i" and "\<forall>x\<in>set xs. fst x < n"
  shows "\<exists>s. approx_run n scale xs (configured qs M L p) = Some s"
  using run_ok [of n qs L xs False scale p M] assms by auto

theorem approx_always_returns_witness: "\<exists>s. approx_run 2 demo_scale demo_events (configured 5 50 (\<lambda>_. 0) 0) = Some s"
  using approx_always_returns [of 2 5 "\<lambda>_. 0" demo_events demo_scale 50 0] demo_ordered(3) by simp

text \<open>Claim C13. Use of messages. In every run, each published set has a message of every input; the
  messages of an input appear in the published sets, and then in its queues, in the order of their
  arrival and each at most once; and at most \<open>queue_size\<close> messages are kept for an input.\<close>

theorem approx_in_order_once:
  assumes "2 \<le> n" and "n \<le> 9" and "0 < qs" and "\<And>i. 0 \<le> L i" and "\<forall>x\<in>set xs. fst x < n"
    and "approx_run n scale xs (configured qs M L p) = Some s" and "i < n"
  shows "subseq (map (\<lambda>g. the (sg_set g i)) (rev (signals s)) @ past s i @ deques s i) (inputs i xs) \<and>
    (\<forall>g\<in>set (signals s). sg_set g i \<noteq> None) \<and> length (past s i) + length (deques s i) \<le> qs"
proof -
  have "after n scale False (configured qs M L p) xs s" using run_ok [of n qs L xs False scale p M] assms(1-6) by auto
  then have "resting n s" "queue_size s = qs" "subseq (pubs s i @ whole s i) (inputs i xs)"
    using assms(3,7) by (auto simp: after_def configured_def init_approx_def)
  moreover from this have "length (whole s i) \<le> qs" "list_all (complete_signal n) (signals s)"
    by (auto simp: resting_def ap_inv_def)
  ultimately show ?thesis using assms(7) by (auto simp: pubs_def whole_def list_all_iff complete_signal_def)
qed

theorem approx_in_order_once_witness:
  "subseq (map (\<lambda>g. the (sg_set g 0)) (rev (signals demo_out)) @ past demo_out 0 @ deques demo_out 0) (inputs 0 demo_events) \<and>
   length (signals demo_out) = 1"
  using approx_in_order_once [of 2 5 "\<lambda>_. 0" demo_events demo_scale 50 0 demo_out 0] demo_ordered(3) demo_run
    arg_cong [OF demo_signals, of length] by simp

text \<open>Span. When the messages of each input come in the order of their stamps and no closer than
  the configured lower bounds, and a duration is never shortened by the age penalty, the stamps of a
  published set differ by at most the configured maximal interval.\<close>

theorem approx_span_bounded:
  assumes "2 \<le> n" and "n \<le> 9" and "0 < qs" and "\<And>i. 0 \<le> L i" and "\<forall>x\<in>set xs. fst x < n"
    and "inflating (scale p)" and "spaced L n xs"
    and "approx_run n scale xs (configured qs M L p) = Some s" and "g \<in> set (signals s)" and "i < n" and "j < n"
  shows "ev_time (the (sg_set g i)) - ev_time (the (sg_set g j)) \<le> M"
proof -
  have "after n scale True (configured qs M L p) xs s" using run_ok [of n qs L xs True scale p M] assms(1-8) by auto
  then have "good_signal n (scale p) M L g"
    using assms(9) by (auto simp: after_def configured_def quality_def sound_so_far_def list_all_iff)
  then have "hi n (set_time g) - lo n (set_time g) \<le> M" by (simp add: good_signal_def)
  then show ?thesis using hi_ge [OF assms(10), of "set_time g"] lo_le [OF assms(11), of "set_time g"] by (simp add: set_time_def)
qed

theorem approx_span_bounded_witness:
  "\<exists>g. g \<in> set (signals demo_out) \<and> ev_time (the (sg_set g 1)) - ev_time (the (sg_set g 0)) \<le> 50"
proof -
  obtain g where "g \<in> set (signals demo_out)" by (rule demo_signal)
  then show ?thesis
    using approx_span_bounded [of 2 5 "\<lambda>_. 0" demo_events demo_scale 0 50 demo_out g 1 0] demo_ordered demo_run by auto
qed

text \<open>Claim C11. Optimality. Under the same conditions a published set is optimal among all choices that
  contain its pivot message: no choice of one stamp per input, each that of a message queued at that
  moment or one that may still arrive, is better by the synchronizer's criterion, which compares the
  gain at the start with the loss at the end weighted by the age penalty.\<close>

theorem approx_optimal:
  assumes "2 \<le> n" and "n \<le> 9" and "0 < qs" and "\<And>i. 0 \<le> L i" and "\<forall>x\<in>set xs. fst x < n"
    and "inflating (scale p)" and "spaced L n xs"
    and "approx_run n scale xs (configured qs M L p) = Some s" and "g \<in> set (signals s)"
    and "offered n (sg_queued g) (sg_queued g) L t" and "t (sg_pivot g) = ev_time (the (sg_set g (sg_pivot g)))"
  shows "\<not> scale p (hi n t - hi n (set_time g)) < lo n t - lo n (set_time g)"
proof -
  have "after n scale True (configured qs M L p) xs s" using run_ok [of n qs L xs True scale p M] assms(1-8) by auto
  then have "good_signal n (scale p) M L g"
    using assms(9) by (auto simp: after_def configured_def quality_def sound_so_far_def list_all_iff)
  then show ?thesis using assms(10,11) by (auto simp: good_signal_def set_time_def)
qed

theorem approx_optimal_witness:
  "\<exists>g. g \<in> set (signals demo_out) \<and> set_time g 0 = 100 \<and>
    \<not> demo_scale 0 (hi 2 (\<lambda>i. if i = 0 then 200 else 130) - hi 2 (set_time g)) < lo 2 (\<lambda>i. if i = 0 then 200 else 130) - lo 2 (set_time g)"
proof -
  obtain g where g: "g \<in> set (signals demo_out)" "sg_set g 0 = Some \<lparr>ev_time = 100, ev_id = 1\<rparr>"
    "sg_set g 1 = Some \<lparr>ev_time = 130, ev_id = 2\<rparr>" "sg_pivot g = 1"
    "sg_queued g 0 = [\<lparr>ev_time = 100, ev_id = 1\<rparr>, \<lparr>ev_time = 200, ev_id = 3\<rparr>]" "sg_queued g 1 = [\<lparr>ev_time = 130, ev_id = 2\<rparr>]"
    by (rule demo_signal)
  have "offered 2 (sg_queued g) (sg_queued g) (\<lambda>_. 0) (\<lambda>i. if i = 0 then 200 else 130)"
    using g(5,6) by (auto simp: offered_def less_2_cases_iff numeral_2_eq_2 less_Suc_eq)
  then show ?thesis
    using approx_optimal [of 2 5 "\<lambda>_. 0" demo_events demo_scale 0 50 demo_out g "\<lambda>i. if i = 0 then 200 else 130"]
      demo_ordered demo_run g by (auto simp: set_time_def)
qed

end
