(* ===== verification/Sync_Exact.thy ===== *)
theory Sync_Exact
  imports Sync_Approx
begin

text \<open>
  The exact-time synchronizer (\<open>sync_policies/exact_time.hpp\<close>): messages with the same stamp are
  collected in a map ordered by stamp, published when every input has contributed, and dropped when
  a later set is published or the map outgrows the queue size. The map is the list of its entries in
  ascending order. Calls of \<open>parent_->signal\<close> and of the drop callbacks are recorded, newest first.
\<close>

section \<open>The synchronizer\<close>

type_synonym tuple9 = "nat \<Rightarrow> event option"

record exact =
  ex_queue_size :: nat
  tuples :: "(int \<times> tuple9) list"
  last_signal_time :: int
  ex_signals :: "tuple9 list"
  ex_drops :: "tuple9 list"

definition init_exact :: "nat \<Rightarrow> exact" where
  "init_exact qs = \<lparr>ex_queue_size = qs, tuples = [], last_signal_time = 0, ex_signals = [], ex_drops = []\<rparr>"

text \<open>\<open>std::get<i>(tuples_[t]) = evt\<close>: the entry is made if it does not exist.\<close>

fun put_tuple :: "int \<Rightarrow> nat \<Rightarrow> event \<Rightarrow> (int \<times> tuple9) list \<Rightarrow> (int \<times> tuple9) list" where
  "put_tuple t i evt [] = [(t, (\<lambda>_. None)(i \<mapsto> evt))]"
| "put_tuple t i evt ((u, tup) # ts) =
     (if t < u then (t, (\<lambda>_. None)(i \<mapsto> evt)) # (u, tup) # ts
      else if t = u then (u, tup(i \<mapsto> evt)) # ts
      else (u, tup) # put_tuple t i evt ts)"

text \<open>\<open>clearOldTuples\<close>: the loop stops at the first entry that is late enough.\<close>

fun clear_old :: "int \<Rightarrow> (int \<times> tuple9) list \<Rightarrow> tuple9 list \<Rightarrow> (int \<times> tuple9) list \<times> tuple9 list" where
  "clear_old t [] drops = ([], drops)"
| "clear_old t ((u, tup) # ts) drops = (if u \<le> t then clear_old t ts (tup # drops) else ((u, tup) # ts, drops))"

fun shrink :: "nat \<Rightarrow> (int \<times> tuple9) list \<Rightarrow> tuple9 list \<Rightarrow> (int \<times> tuple9) list \<times> tuple9 list" where
  "shrink qs [] drops = ([], drops)"
| "shrink qs (x # ts) drops = (if length (x # ts) > qs then shrink qs ts (snd x # drops) else (x # ts, drops))"

definition clearOldTuples :: "exact \<Rightarrow> exact" where
  "clearOldTuples s = (let (ts, drops) = clear_old (last_signal_time s) (tuples s) (ex_drops s) in s\<lparr>tuples := ts, ex_drops := drops\<rparr>)"

definition full_tuple :: "nat \<Rightarrow> tuple9 \<Rightarrow> bool" where
  "full_tuple n tup \<longleftrightarrow> list_all (\<lambda>i. tup i \<noteq> None) [0..<n]"

definition checkTuple :: "nat \<Rightarrow> tuple9 \<Rightarrow> exact \<Rightarrow> exact" where
  "checkTuple n tup s =
     (let s1 = (if full_tuple n tup then
                  let t = ev_time (the (tup 0)) in
                  clearOldTuples (s\<lparr>ex_signals := tup # ex_signals s, last_signal_time := t,
                    tuples := filter (\<lambda>x. fst x \<noteq> t) (tuples s)\<rparr>)
                else s)
      in if ex_queue_size s1 > 0
         then let (ts, drops) = shrink (ex_queue_size s1) (tuples s1) (ex_drops s1) in s1\<lparr>tuples := ts, ex_drops := drops\<rparr>
         else s1)"

definition exact_add :: "nat \<Rightarrow> nat \<Rightarrow> event \<Rightarrow> exact \<Rightarrow> exact" where
  "exact_add n i evt s =
     (let s1 = s\<lparr>tuples := put_tuple (ev_time evt) i evt (tuples s)\<rparr>
      in checkTuple n (the (map_of (tuples s1) (ev_time evt))) s1)"

definition exact_run :: "nat \<Rightarrow> (nat \<times> event) list \<Rightarrow> exact \<Rightarrow> exact" where
  "exact_run n xs s = fold (\<lambda>x. exact_add n (fst x) (snd x)) xs s"

section \<open>The map\<close>

definition stamps :: "(int \<times> tuple9) list \<Rightarrow> int list" where "stamps = map fst"

lemma put_stamps: "set (stamps (put_tuple t i evt ts)) = insert t (set (stamps ts))"
  by (induction t i evt ts rule: put_tuple.induct) (auto simp: stamps_def)

lemma put_sorted: "sorted_wrt (<) (stamps ts) \<Longrightarrow> sorted_wrt (<) (stamps (put_tuple t i evt ts))"
proof (induction t i evt ts rule: put_tuple.induct)
  case (2 t i evt u tup ts)
  then show ?case using put_stamps [of t i evt ts] by (auto simp: stamps_def)
qed (simp add: stamps_def)

lemma put_lookup:
  "sorted_wrt (<) (stamps ts) \<Longrightarrow> map_of (put_tuple t i evt ts) = (map_of ts)(t \<mapsto> (case map_of ts t of None \<Rightarrow> \<lambda>_. None | Some tup \<Rightarrow> tup)(i \<mapsto> evt))"
proof (induction t i evt ts rule: put_tuple.induct)
  case (2 t i evt u tup ts)
  have "map_of ts t = None" if "t < u" using 2(2) that by (auto simp: stamps_def map_of_eq_None_iff)
  then show ?case using 2 by (auto simp: stamps_def fun_eq_iff)
qed (auto simp: fun_eq_iff)

lemma clear_old_filter: "sorted_wrt (<) (stamps ts) \<Longrightarrow> fst (clear_old t ts d) = filter (\<lambda>x. t < fst x) ts"
proof (induction t ts d rule: clear_old.induct)
  case (2 t u tup ts d)
  moreover have "filter (\<lambda>x. t < fst x) ts = ts" if "t < u" using 2(2) that by (intro filter_True) (auto simp: stamps_def)
  ultimately show ?case by (auto simp: stamps_def)
qed simp

lemma shrink_drop: "fst (shrink qs ts d) = drop (length ts - qs) ts"
  by (induction qs ts d rule: shrink.induct) (auto simp: Suc_diff_le drop_Cons')

lemma map_of_filter_key: "map_of (filter (\<lambda>x. P (fst x)) ts) k = (if P k then map_of ts k else None)"
  by (induction ts) auto

lemma map_of_drop:
  assumes "sorted_wrt (<) (stamps ts)" and "map_of (drop k ts) t = Some tup"
  shows "map_of ts t = Some tup"
proof -
  have "(t, tup) \<in> set ts" using assms(2) by (meson map_of_SomeD in_set_dropD)
  moreover have "distinct (map fst ts)" using assms(1) by (simp add: stamps_def strict_sorted_iff)
  ultimately show ?thesis by simp
qed

lemma full_at: "full_tuple n g \<Longrightarrow> i < n \<Longrightarrow> \<exists>m. g i = Some m"
  by (auto simp: full_tuple_def list_all_iff)

section \<open>One message\<close>

definition same_stamp :: "int \<Rightarrow> tuple9 \<Rightarrow> bool" where
  "same_stamp t tup \<longleftrightarrow> (\<forall>i m. tup i = Some m \<longrightarrow> ev_time m = t)"

definition ex_ok :: "nat \<Rightarrow> exact \<Rightarrow> bool" where
  "ex_ok n s \<longleftrightarrow> sorted_wrt (<) (stamps (tuples s)) \<and> (\<forall>t tup. map_of (tuples s) t = Some tup \<longrightarrow> same_stamp t tup) \<and>
     (\<forall>g\<in>set (ex_signals s). full_tuple n g \<and> (\<exists>t. same_stamp t g))"

definition merged :: "exact \<Rightarrow> nat \<Rightarrow> event \<Rightarrow> tuple9" where
  "merged s i evt = (case map_of (tuples s) (ev_time evt) of None \<Rightarrow> \<lambda>_. None | Some tup \<Rightarrow> tup)(i \<mapsto> evt)"

definition kept :: "nat \<Rightarrow> exact \<Rightarrow> nat \<Rightarrow> event \<Rightarrow> (int \<times> tuple9) list" where
  "kept n s i evt = (let ts = put_tuple (ev_time evt) i evt (tuples s) in
     if full_tuple n (merged s i evt) then filter (\<lambda>x. ev_time evt < fst x) ts else ts)"

lemma merged_same: "ex_ok n s \<Longrightarrow> same_stamp (ev_time evt) (merged s i evt)"
  by (auto simp: ex_ok_def merged_def same_stamp_def split: option.splits if_splits)

lemma sorted_filter: "sorted_wrt (<) (stamps ts) \<Longrightarrow> sorted_wrt (<) (stamps (filter P ts))"
  by (induction ts) (auto simp: stamps_def)

lemma exact_add_eq:
  assumes ok: "ex_ok n s" and n: "0 < n"
  shows "ex_signals (exact_add n i evt s) = (if full_tuple n (merged s i evt) then [merged s i evt] else []) @ ex_signals s"
    and "tuples (exact_add n i evt s) =
      (if ex_queue_size s > 0 then drop (length (kept n s i evt) - ex_queue_size s) (kept n s i evt) else kept n s i evt)"
    and "ex_queue_size (exact_add n i evt s) = ex_queue_size s"
proof -
  let ?t = "ev_time evt" and ?ts = "put_tuple (ev_time evt) i evt (tuples s)"
  have srt: "sorted_wrt (<) (stamps (tuples s))" using ok by (simp add: ex_ok_def)
  have look: "map_of ?ts ?t = Some (merged s i evt)" using put_lookup [OF srt] by (simp add: merged_def)
  have time: "ev_time (the (merged s i evt 0)) = ?t" if "full_tuple n (merged s i evt)"
    using that n merged_same [OF ok, of evt i] by (auto simp: full_tuple_def list_all_iff same_stamp_def dest!: bspec [of _ _ 0])
  have "fst (clear_old ?t (filter (\<lambda>x. fst x \<noteq> ?t) ?ts) d) = filter (\<lambda>x. ?t < fst x) ?ts" for d
    using clear_old_filter [OF sorted_filter [OF put_sorted [OF srt]]] by (auto simp: intro: filter_cong)
  then obtain d where clr: "clear_old ?t (filter (\<lambda>x. fst x \<noteq> ?t) ?ts) (ex_drops s) = (filter (\<lambda>x. ?t < fst x) ?ts, d)"
    by (metis prod.collapse)
  have shr: "shrink q ts d = (drop (length ts - q) ts, snd (shrink q ts d))" for q ts d
    using shrink_drop [of q ts d] by (metis prod.collapse)
  show "ex_signals (exact_add n i evt s) = (if full_tuple n (merged s i evt) then [merged s i evt] else []) @ ex_signals s"
    "tuples (exact_add n i evt s) =
      (if ex_queue_size s > 0 then drop (length (kept n s i evt) - ex_queue_size s) (kept n s i evt) else kept n s i evt)"
    "ex_queue_size (exact_add n i evt s) = ex_queue_size s"
    unfolding exact_add_def checkTuple_def clearOldTuples_def kept_def Let_def
    by (auto simp: look time clr split: prod.splits) (metis shr prod.inject)+
qed

lemma kept_sorted: "ex_ok n s \<Longrightarrow> sorted_wrt (<) (stamps (kept n s i evt))"
  by (simp add: kept_def Let_def ex_ok_def put_sorted sorted_filter)

lemma kept_lookup:
  assumes "ex_ok n s"
  shows "map_of (kept n s i evt) t =
    (if full_tuple n (merged s i evt) \<and> t \<le> ev_time evt then None
     else if t = ev_time evt then Some (merged s i evt) else map_of (tuples s) t)"
  using assms put_lookup [of "tuples s" "ev_time evt" i evt]
  by (auto simp: kept_def Let_def ex_ok_def merged_def map_of_filter_key)

lemma exact_add_ok:
  assumes ok: "ex_ok n s" and n: "0 < n"
  shows "ex_ok n (exact_add n i evt s)"
proof -
  have "sorted_wrt (<) (stamps (drop k (kept n s i evt)))" for k
    using kept_sorted [OF ok] by (simp add: stamps_def sorted_wrt_drop flip: drop_map)
  moreover have "same_stamp t tup" if "map_of (kept n s i evt) t = Some tup" for t tup
    using that merged_same [OF ok, of evt i] ok unfolding kept_lookup [OF ok] by (auto simp: ex_ok_def split: if_splits)
  ultimately show ?thesis using ok merged_same [OF ok, of evt i] kept_sorted [OF ok] map_of_drop [OF kept_sorted [OF ok]]
    unfolding ex_ok_def exact_add_eq [OF ok n] by (auto split: if_splits)
qed

section \<open>Runs\<close>

definition seen :: "nat \<Rightarrow> (nat \<times> event) list \<Rightarrow> int set" where
  "seen i xs = ev_time ` set (inputs i xs)"

definition common :: "nat \<Rightarrow> (nat \<times> event) list \<Rightarrow> int set" where
  "common n xs = {t. \<forall>i<n. t \<in> seen i xs}"

definition signal_time :: "tuple9 \<Rightarrow> int" where
  "signal_time g = ev_time (the (g 0))"

text \<open>What the synchronizer knows after the messages \<open>xs\<close>, with an unlimited queue and every input in the
  order of its stamps.\<close>

definition tracked :: "nat \<Rightarrow> (nat \<times> event) list \<Rightarrow> exact \<Rightarrow> bool" where
  "tracked n xs s \<longleftrightarrow> ex_ok n s \<and> ex_queue_size s = 0 \<and>
     sorted_wrt (<) (map signal_time (rev (ex_signals s))) \<and> signal_time ` set (ex_signals s) = common n xs \<and>
     (\<forall>t tup. map_of (tuples s) t = Some tup \<longrightarrow> \<not> full_tuple n tup \<and> (\<forall>i<n. tup i \<noteq> None \<longleftrightarrow> t \<in> seen i xs)) \<and>
     (\<forall>t i. i < n \<longrightarrow> t \<in> seen i xs \<longrightarrow> map_of (tuples s) t = None \<longrightarrow> (\<exists>u\<in>common n xs. t \<le> u))"

lemma seen_snoc: "seen j (xs @ [(i, evt)]) = (if j = i then insert (ev_time evt) (seen j xs) else seen j xs)"
  by (auto simp: seen_def inputs_def)

lemma common_snoc:
  assumes "i < n" and "\<And>u. u \<in> seen i xs \<Longrightarrow> u < ev_time evt"
  shows "common n (xs @ [(i, evt)]) = common n xs \<union> (if \<forall>j<n. ev_time evt \<in> seen j (xs @ [(i, evt)]) then {ev_time evt} else {})"
  by (auto simp: common_def seen_snoc split: if_splits)

lemma tracked_add:
  assumes tr: "tracked n xs s" and n: "0 < n" and i: "i < n" and late: "\<And>u. u \<in> seen i xs \<Longrightarrow> u < ev_time evt"
  shows "tracked n (xs @ [(i, evt)]) (exact_add n i evt s)"
proof -
  let ?x = "(i, evt)" and ?T = "ev_time evt" and ?M = "merged s i evt"
  have ok: "ex_ok n s" and qs: "ex_queue_size s = 0" using tr by (auto simp: tracked_def)
  have below: "u < ?T" if "u \<in> common n xs" for u using late [of u] that i by (simp add: common_def)
  have open_T: "map_of (tuples s) ?T \<noteq> None" if "j < n" "?T \<in> seen j xs" for j
    using tr that below unfolding tracked_def by (metis not_le)
  have M: "?M j \<noteq> None \<longleftrightarrow> ?T \<in> seen j (xs @ [?x])" if "j < n" for j
  proof (cases "map_of (tuples s) ?T")
    case None
    then show ?thesis using open_T [OF that] by (auto simp: merged_def seen_snoc)
  next
    case (Some tup)
    then show ?thesis using tr that by (auto simp: merged_def seen_snoc tracked_def)
  qed
  have full: "full_tuple n ?M \<longleftrightarrow> (\<forall>j<n. ?T \<in> seen j (xs @ [?x]))"
    using M by (auto simp: full_tuple_def list_all_iff)
  have com: "common n (xs @ [?x]) = common n xs \<union> (if full_tuple n ?M then {?T} else {})"
    using common_snoc [OF i late] full by simp
  have time: "signal_time ?M = ?T" if fl: "full_tuple n ?M"
  proof -
    obtain m where "?M 0 = Some m" using full_at [OF fl n] by blast
    then show ?thesis using merged_same [OF ok, of evt i] by (simp add: same_stamp_def signal_time_def)
  qed
  have sg: "ex_signals (exact_add n i evt s) = (if full_tuple n ?M then [?M] else []) @ ex_signals s"
    and ts: "tuples (exact_add n i evt s) = kept n s i evt" and q': "ex_queue_size (exact_add n i evt s) = 0"
    using exact_add_eq [OF ok n] qs by simp_all
  have A: "sorted_wrt (<) (map signal_time (rev (ex_signals (exact_add n i evt s))))"
    using tr time below unfolding sg by (auto simp: tracked_def sorted_wrt_append)
  have B: "signal_time ` set (ex_signals (exact_add n i evt s)) = common n (xs @ [?x])"
    using tr time unfolding sg com by (auto simp: tracked_def)
  have C: "\<not> full_tuple n tup \<and> (\<forall>j<n. tup j \<noteq> None \<longleftrightarrow> t \<in> seen j (xs @ [?x]))"
    if "map_of (kept n s i evt) t = Some tup" for t tup
  proof (cases "t = ?T")
    case True
    then show ?thesis using that M full unfolding kept_lookup [OF ok] by (auto split: if_splits)
  next
    case False
    then have "map_of (tuples s) t = Some tup" using that unfolding kept_lookup [OF ok] by (auto split: if_splits)
    then show ?thesis using tr False by (auto simp: tracked_def seen_snoc)
  qed
  have D: "\<exists>u\<in>common n (xs @ [?x]). t \<le> u"
    if "j < n" "t \<in> seen j (xs @ [?x])" "map_of (kept n s i evt) t = None" for t j
  proof (cases "full_tuple n ?M \<and> t \<le> ?T")
    case True
    then show ?thesis by (auto simp: com)
  next
    case False
    then have "t \<noteq> ?T" "map_of (tuples s) t = None" using that(3) unfolding kept_lookup [OF ok] by (auto split: if_splits)
    moreover from this have "t \<in> seen j xs" using that(2) by (auto simp: seen_snoc split: if_splits)
    ultimately have "\<exists>u\<in>common n xs. t \<le> u" using tr that(1) unfolding tracked_def by blast
    then show ?thesis by (auto simp: com)
  qed
  show ?thesis unfolding tracked_def ts
  proof (intro conjI allI impI)
    show "ex_ok n (exact_add n i evt s)" by (rule exact_add_ok [OF ok n])
    show "\<not> full_tuple n tup" if "map_of (kept n s i evt) t = Some tup" for t tup using C [OF that] by blast
    show "(tup j \<noteq> None) = (t \<in> seen j (xs @ [?x]))" if "map_of (kept n s i evt) t = Some tup" "j < n" for t tup j
      using C [OF that(1)] that(2) by blast
  qed (use q' A B D in simp_all)
qed

lemma tracked_run:
  assumes n: "0 < n"
  shows "tracked n xs s \<Longrightarrow> \<forall>x\<in>set ys. fst x < n \<Longrightarrow>
    \<forall>i<n. sorted_wrt (<) (map ev_time (inputs i (xs @ ys))) \<Longrightarrow> tracked n (xs @ ys) (exact_run n ys s)"
proof (induction ys arbitrary: xs s)
  case (Cons y ys)
  obtain i evt where y: "y = (i, evt)" by (cases y)
  have i: "i < n" using Cons.prems(2) y by simp
  have "sorted_wrt (<) (map ev_time (inputs i (xs @ y # ys)))" using Cons.prems(3) i by simp
  then have "u < ev_time evt" if "u \<in> seen i xs" for u
    using that y by (auto simp: inputs_def seen_def sorted_wrt_append)
  then have "tracked n (xs @ [y]) (exact_add n i evt s)" using tracked_add [OF Cons.prems(1) n i] y by simp
  then show ?case using Cons.IH [of "xs @ [y]"] Cons.prems(2,3) y by (simp add: exact_run_def)
qed (simp add: exact_run_def)

lemma tracked_init: "0 < n \<Longrightarrow> tracked n [] (init_exact 0)"
  by (auto simp: tracked_def init_exact_def ex_ok_def stamps_def common_def seen_def inputs_def)

section \<open>Theorems\<close>

text \<open>Claim C25. Equivalence. With an unlimited queue and every input delivering strictly increasing stamps,
  in whatever interleaving, the sets the exact-time synchronizer publishes are, in order, exactly the
  stamps that all inputs have in common.\<close>

theorem exact_publishes_common_stamps:
  assumes "2 \<le> n" and "\<forall>x\<in>set xs. fst x < n" and "\<forall>i<n. sorted_wrt (<) (map ev_time (inputs i xs))"
  shows "map signal_time (rev (ex_signals (exact_run n xs (init_exact 0)))) = sorted_list_of_set (common n xs)"
proof -
  have n: "0 < n" using assms(1) by simp
  have "tracked n ([] @ xs) (exact_run n xs (init_exact 0))"
    using tracked_run [OF n tracked_init [OF n], of xs] assms(2,3) by simp
  then have l: "sorted_wrt (<) (map signal_time (rev (ex_signals (exact_run n xs (init_exact 0)))))"
    "set (map signal_time (rev (ex_signals (exact_run n xs (init_exact 0))))) = common n xs" by (auto simp: tracked_def)
  then have "sorted (map signal_time (rev (ex_signals (exact_run n xs (init_exact 0)))))"
    "distinct (map signal_time (rev (ex_signals (exact_run n xs (init_exact 0)))))" by (simp_all add: strict_sorted_iff)
  then show ?thesis unfolding l(2) [symmetric] by (rule sorted_list_of_set.idem_if_sorted_distinct [symmetric])
qed

definition demo_exact :: "(nat \<times> event) list" where
  "demo_exact = [(0, \<lparr>ev_time = 1, ev_id = 1\<rparr>), (0, \<lparr>ev_time = 2, ev_id = 2\<rparr>), (1, \<lparr>ev_time = 2, ev_id = 3\<rparr>)]"

theorem exact_publishes_common_stamps_witness:
  "map signal_time (rev (ex_signals (exact_run 2 demo_exact (init_exact 0)))) = sorted_list_of_set (common 2 demo_exact) \<and>
   2 \<in> common 2 demo_exact"
  using exact_publishes_common_stamps [of 2 demo_exact]
  by (auto simp: demo_exact_def inputs_def common_def seen_def less_2_cases_iff numeral_2_eq_2 less_Suc_eq)

lemma run_ok_bounded:
  assumes n: "0 < n"
  shows "ex_ok n s \<Longrightarrow> ex_queue_size s > 0 \<longrightarrow> length (tuples s) \<le> ex_queue_size s \<Longrightarrow>
    ex_ok n (exact_run n xs s) \<and> ex_queue_size (exact_run n xs s) = ex_queue_size s \<and>
    (ex_queue_size s > 0 \<longrightarrow> length (tuples (exact_run n xs s)) \<le> ex_queue_size s)"
proof (induction xs arbitrary: s)
  case (Cons x xs)
  let ?s = "exact_add n (fst x) (snd x) s"
  have "ex_ok n ?s" by (rule exact_add_ok [OF Cons.prems(1) n])
  moreover have "ex_queue_size ?s = ex_queue_size s" "ex_queue_size s > 0 \<longrightarrow> length (tuples ?s) \<le> ex_queue_size s"
    using exact_add_eq [OF Cons.prems(1) n, of "fst x" "snd x"] by auto
  ultimately show ?case using Cons.IH [of ?s] by (simp add: exact_run_def)
qed (simp add: exact_run_def)

text \<open>Safety. Whatever messages arrive and in whatever order, every set the exact-time synchronizer
  publishes has a message of each input and they all carry the same stamp; and a positive queue size
  bounds the number of incomplete sets it keeps.\<close>

theorem exact_sets_have_one_stamp:
  assumes "2 \<le> n"
  shows "(\<forall>g\<in>set (ex_signals (exact_run n xs (init_exact qs))). \<exists>t. \<forall>i<n. \<exists>m. g i = Some m \<and> ev_time m = t) \<and>
    (0 < qs \<longrightarrow> length (tuples (exact_run n xs (init_exact qs))) \<le> qs)"
proof -
  have n: "0 < n" using assms by simp
  have "ex_ok n (init_exact qs)" "ex_queue_size (init_exact qs) = qs" "tuples (init_exact qs) = []"
    by (simp_all add: init_exact_def ex_ok_def stamps_def)
  then have ok: "ex_ok n (exact_run n xs (init_exact qs))" "0 < qs \<longrightarrow> length (tuples (exact_run n xs (init_exact qs))) \<le> qs"
    using run_ok_bounded [OF n, of "init_exact qs" xs] by auto
  have "\<exists>t. \<forall>i<n. \<exists>m. g i = Some m \<and> ev_time m = t" if mem: "g \<in> set (ex_signals (exact_run n xs (init_exact qs)))" for g
  proof -
    obtain t where g: "full_tuple n g" "same_stamp t g" using ok(1) mem unfolding ex_ok_def by blast
    then have "\<exists>m. g i = Some m \<and> ev_time m = t" if "i < n" for i using full_at [OF g(1) that] by (auto simp: same_stamp_def)
    then show ?thesis by blast
  qed
  then show ?thesis using ok(2) by blast
qed

theorem exact_sets_have_one_stamp_witness: "length (tuples (exact_run 2 demo_exact (init_exact 1))) \<le> 1"
  using exact_sets_have_one_stamp [of 2 demo_exact 1] by simp

end
