(* ===== verification/Cie_Config.thy ===== *)
theory Cie_Config
  imports Agnocast_Prelude
begin

text \<open>
  The configuration of the thread configurator: scheduling policies (\<open>sched_policy.cpp\<close>), CPU lists
  (\<open>system_scan.cpp\<close>) and the validating parsers of the configuration file (\<open>thread_config.cpp\<close>).

  The document is read through \<open>yaml-cpp\<close>, which is not part of this repository: its node operations are
  the fields of a record that every parser takes as an argument. A thrown exception is \<open>Inl\<close> of a value
  that names the \<open>throw\<close>.
\<close>

section \<open>Scheduling policies\<close>

datatype sched_policy = Other | Batch | Idle | Fifo | Rr | Deadline

record policy_entry =
  pe_policy :: sched_policy
  pe_name :: string
  pe_kernel_policy :: int
  pe_cfs :: bool

definition k_policies :: "policy_entry list" where
  "k_policies =
     [\<lparr>pe_policy = Other, pe_name = ''SCHED_OTHER'', pe_kernel_policy = 0, pe_cfs = True\<rparr>,
      \<lparr>pe_policy = Batch, pe_name = ''SCHED_BATCH'', pe_kernel_policy = 3, pe_cfs = True\<rparr>,
      \<lparr>pe_policy = Idle, pe_name = ''SCHED_IDLE'', pe_kernel_policy = 5, pe_cfs = True\<rparr>,
      \<lparr>pe_policy = Fifo, pe_name = ''SCHED_FIFO'', pe_kernel_policy = 1, pe_cfs = False\<rparr>,
      \<lparr>pe_policy = Rr, pe_name = ''SCHED_RR'', pe_kernel_policy = 2, pe_cfs = False\<rparr>,
      \<lparr>pe_policy = Deadline, pe_name = ''SCHED_DEADLINE'', pe_kernel_policy = 6, pe_cfs = False\<rparr>]"

definition policy_index :: "sched_policy \<Rightarrow> nat" where
  "policy_index p = (case p of Other \<Rightarrow> 0 | Batch \<Rightarrow> 1 | Idle \<Rightarrow> 2 | Fifo \<Rightarrow> 3 | Rr \<Rightarrow> 4 | Deadline \<Rightarrow> 5)"

definition policy_row :: "sched_policy \<Rightarrow> policy_entry" where "policy_row p = k_policies ! policy_index p"

definition parse_sched_policy :: "string \<Rightarrow> sched_policy option" where
  "parse_sched_policy name = map_option pe_policy (find (\<lambda>e. pe_name e = name) k_policies)"

definition to_string :: "sched_policy \<Rightarrow> string" where "to_string p = pe_name (policy_row p)"
definition to_kernel_policy :: "sched_policy \<Rightarrow> int" where "to_kernel_policy p = pe_kernel_policy (policy_row p)"
definition is_cfs :: "sched_policy \<Rightarrow> bool" where "is_cfs p = pe_cfs (policy_row p)"

definition from_kernel_policy :: "int \<Rightarrow> sched_policy option" where
  "from_kernel_policy k = map_option pe_policy (find (\<lambda>e. pe_kernel_policy e = k) k_policies)"

section \<open>Numbers\<close>

definition is_digit :: "char \<Rightarrow> bool" where "is_digit c \<longleftrightarrow> 48 \<le> (of_char c :: nat) \<and> (of_char c :: nat) \<le> 57"
definition digit_value :: "char \<Rightarrow> nat" where "digit_value c = of_char c - 48"

fun decimal :: "nat \<Rightarrow> string" where
  "decimal n = (if n < 10 then [char_of (48 + n)] else decimal (n div 10) @ [char_of (48 + n mod 10)])"

declare decimal.simps [simp del]

text \<open>\<open>std::to_string\<close> of an \<open>int\<close>.\<close>

definition show_int :: "int \<Rightarrow> string" where
  "show_int i = (if i < 0 then CHR ''-'' # decimal (nat (- i)) else decimal (nat i))"

definition digits_value :: "string \<Rightarrow> nat" where
  "digits_value s = fold (\<lambda>c n. n * 10 + digit_value c) s 0"

definition is_all_digits :: "string \<Rightarrow> bool" where "is_all_digits s \<longleftrightarrow> s \<noteq> [] \<and> list_all is_digit s"

text \<open>\<open>to_number<int>\<close>: \<open>std::from_chars\<close> has to consume the whole string and the value has to fit.\<close>

definition to_number :: "string \<Rightarrow> int option" where
  "to_number s =
     (if is_all_digits s then (if digits_value s < 2 ^ 31 then Some (int (digits_value s)) else None)
      else case s of
        [] \<Rightarrow> None
      | c # ds \<Rightarrow> if c = CHR ''-'' \<and> is_all_digits ds \<and> digits_value ds \<le> 2 ^ 31 then Some (- int (digits_value ds)) else None)"

section \<open>CPU lists\<close>

definition k_max_cpu_number :: int where "k_max_cpu_number = 8191"

definition sort_unique :: "int list \<Rightarrow> int list" where "sort_unique xs = remdups_adj (sort xs)"

primrec format_cpu_list :: "int list \<Rightarrow> string" where
  "format_cpu_list [] = []"
| "format_cpu_list (c # cs) = show_int c @ (if cs = [] then [] else CHR '','' # format_cpu_list cs)"

definition strip_end :: "string \<Rightarrow> string" where
  "strip_end s = rev (dropWhile (\<lambda>c. c = CHR 0x0A \<or> c = CHR 0x0D \<or> c = CHR '' '') (rev s))"

text \<open>One comma-separated token: a number or a range.\<close>

definition cpu_token :: "string \<Rightarrow> int list option" where
  "cpu_token token =
     (if CHR ''-'' \<notin> set token then
        (case to_number token of
           None \<Rightarrow> None
         | Some cpu \<Rightarrow> if cpu < 0 \<or> cpu > k_max_cpu_number then None else Some [cpu])
      else
        (case (to_number (takeWhile (\<lambda>c. c \<noteq> CHR ''-'') token), to_number (tl (dropWhile (\<lambda>c. c \<noteq> CHR ''-'') token))) of
           (Some f, Some l) \<Rightarrow> if f < 0 \<or> l < f \<or> l > k_max_cpu_number then None else Some [f..l]
         | _ \<Rightarrow> None))"

function cpu_tokens :: "string \<Rightarrow> int list \<Rightarrow> int list option" where
  "cpu_tokens rest acc =
     (if rest = [] then Some acc
      else let token = takeWhile (\<lambda>c. c \<noteq> CHR '','') rest; after = dropWhile (\<lambda>c. c \<noteq> CHR '','') rest;
               rest' = tl after
           in if after \<noteq> [] \<and> rest' = [] then None
              else case cpu_token token of None \<Rightarrow> None | Some cpus \<Rightarrow> cpu_tokens rest' (acc @ cpus))"
  by auto

termination
proof (relation "measure (\<lambda>(rest, _). length rest)")
  fix rest :: string and acc cpus :: "int list" and token after rest' :: string
  assume "rest \<noteq> []" "after = dropWhile (\<lambda>c. c \<noteq> CHR '','') rest" "rest' = tl after"
  then have "length rest' \<le> length rest - 1" "0 < length rest" by (simp_all add: diff_le_mono length_dropWhile_le)
  then have "length rest' < length rest" by linarith
  then show "((rest', acc @ cpus), rest, acc) \<in> measure (\<lambda>(rest, _). length rest)" by simp
qed simp

definition parse_cpu_list :: "string \<Rightarrow> int list option" where
  "parse_cpu_list s = (let rest = strip_end s in if rest = [] then None else map_option sort_unique (cpu_tokens rest []))"

text \<open>\<open>max_cpu\<close> is \<open>manageable_cpu_bound()\<close>.\<close>

definition parse_manageable_cpu_list :: "int \<Rightarrow> string \<Rightarrow> int list option" where
  "parse_manageable_cpu_list max_cpu s =
     (case parse_cpu_list s of
        None \<Rightarrow> None
      | Some cpus \<Rightarrow> let kept = filter (\<lambda>c. \<not> c > max_cpu) cpus in if kept = [] then None else Some kept)"

section \<open>Reading numbers back\<close>

lemma of_char_digit: "n < 10 \<Longrightarrow> (of_char (char_of (48 + n) :: char) :: nat) = 48 + n"
  by simp

lemma decimal_digits: "list_all is_digit (decimal n) \<and> decimal n \<noteq> [] \<and> digits_value (decimal n) = n"
proof (induction n rule: decimal.induct)
  case (1 n)
  show ?case
  proof (cases "n < 10")
    case True
    then show ?thesis by (subst (1 2 3) decimal.simps) (simp add: is_digit_def digits_value_def digit_value_def)
  next
    case False
    have "is_digit (char_of (48 + n mod 10))" "digit_value (char_of (48 + n mod 10)) = n mod 10"
      by (simp_all add: is_digit_def digit_value_def)
    then show ?thesis using 1 False by (subst (1 2 3) decimal.simps) (simp add: digits_value_def)
  qed
qed

lemma to_number_show: "0 \<le> i \<Longrightarrow> i < 2 ^ 31 \<Longrightarrow> to_number (show_int i) = Some i"
  using decimal_digits [of "nat i"] by (simp add: to_number_def show_int_def is_all_digits_def nat_less_iff)

lemma to_number_show_int:
  assumes "- (2 ^ 31) \<le> i" and "i < 2 ^ 31"
  shows "to_number (show_int i) = Some i"
proof (cases "0 \<le> i")
  case False
  moreover have "\<not> is_digit (CHR ''-'')" by (simp add: is_digit_def)
  moreover have "nat (- i) \<le> 2 ^ 31" using assms(1) by simp
  ultimately show ?thesis using decimal_digits [of "nat (- i)"] by (simp add: to_number_def show_int_def is_all_digits_def)
qed (use to_number_show assms(2) in simp)

section \<open>Reading CPU lists back\<close>

declare cpu_tokens.simps [simp del]

lemma show_digits: "0 \<le> i \<Longrightarrow> c \<in> set (show_int i) \<Longrightarrow> is_digit c"
  using decimal_digits [of "nat i"] by (auto simp: show_int_def list_all_iff)

lemma show_nonempty: "show_int i \<noteq> []"
  using decimal_digits [of "nat i"] by (simp add: show_int_def)

lemma digit_plain: "is_digit c \<Longrightarrow> c \<noteq> CHR '','' \<and> c \<noteq> CHR ''-'' \<and> c \<noteq> CHR 0x0A \<and> c \<noteq> CHR 0x0D \<and> c \<noteq> CHR '' ''"
  by (auto simp: is_digit_def)

lemma cpu_token_show: "0 \<le> i \<Longrightarrow> i \<le> k_max_cpu_number \<Longrightarrow> cpu_token (show_int i) = Some [i]"
  using to_number_show [of i] show_digits [of i "CHR ''-''"] digit_plain [of "CHR ''-''"]
  by (auto simp: cpu_token_def k_max_cpu_number_def)

lemma tokens_format:
  "\<forall>c\<in>set cs. 0 \<le> c \<and> c \<le> k_max_cpu_number \<Longrightarrow> cpu_tokens (format_cpu_list cs) acc = Some (acc @ cs)"
proof (induction cs arbitrary: acc)
  case Nil
  then show ?case by (simp add: cpu_tokens.simps)
next
  case (Cons c cs)
  have c: "0 \<le> c" "c \<le> k_max_cpu_number" using Cons.prems by auto
  have plain: "\<forall>x\<in>set (show_int c). x \<noteq> CHR '',''" using show_digits [OF c(1)] digit_plain by blast
  show ?case
  proof (cases "cs = []")
    case True
    have split: "takeWhile (\<lambda>x. x \<noteq> CHR '','') (show_int c) = show_int c" "dropWhile (\<lambda>x. x \<noteq> CHR '','') (show_int c) = []"
      using plain by simp_all
    show ?thesis using True show_nonempty [of c] cpu_token_show [OF c]
      by (subst cpu_tokens.simps) (simp add: split cpu_tokens.simps [of "[]"])
  next
    case False
    let ?rest = "show_int c @ CHR '','' # format_cpu_list cs"
    have split: "takeWhile (\<lambda>x. x \<noteq> CHR '','') ?rest = show_int c" "dropWhile (\<lambda>x. x \<noteq> CHR '','') ?rest = CHR '','' # format_cpu_list cs"
      using plain by simp_all
    have "format_cpu_list cs \<noteq> []" using False show_nonempty by (cases cs) auto
    then show ?thesis using False cpu_token_show [OF c] Cons.IH [of "acc @ [c]"] Cons.prems
      by (subst cpu_tokens.simps) (simp add: split)
  qed
qed

lemma strip_format:
  assumes "\<forall>c\<in>set cs. 0 \<le> c"
  shows "strip_end (format_cpu_list cs) = format_cpu_list cs"
proof (cases "cs = []")
  case False
  have "\<exists>d. format_cpu_list cs \<noteq> [] \<and> last (format_cpu_list cs) = d \<and> is_digit d"
    using assms False
  proof (induction cs)
    case (Cons c cs)
    have "last (show_int c) \<in> set (show_int c)" using show_nonempty by simp
    then have "is_digit (last (show_int c))" using show_digits [of c] Cons.prems by simp
    then show ?case using Cons show_nonempty [of c] by (cases "cs = []") auto
  qed simp
  then obtain s d where "format_cpu_list cs = s @ [d]" "is_digit d" by (metis append_butlast_last_id)
  then show ?thesis using digit_plain [of d] by (simp add: strip_end_def)
qed (simp add: strip_end_def)

lemma distinct_sorted_adj: "sorted xs \<Longrightarrow> distinct (remdups_adj xs)" for xs :: "int list"
  by (induction xs rule: remdups_adj.induct) (auto simp: order_less_le)

lemma sort_unique_id: "sorted cs \<Longrightarrow> distinct cs \<Longrightarrow> sort_unique cs = cs"
  by (simp add: sort_unique_def sorted_sort_id remdups_adj_distinct)

lemma cpu_token_bounds: "cpu_token t = Some cs \<Longrightarrow> \<forall>c\<in>set cs. 0 \<le> c \<and> c \<le> k_max_cpu_number"
  by (auto simp: cpu_token_def split: if_splits option.splits)

lemma cpu_tokens_bounds:
  "cpu_tokens rest acc = Some cs \<Longrightarrow> \<forall>c\<in>set acc. 0 \<le> c \<and> c \<le> k_max_cpu_number \<Longrightarrow> \<forall>c\<in>set cs. 0 \<le> c \<and> c \<le> k_max_cpu_number"
proof (induction rest acc rule: cpu_tokens.induct)
  case (1 rest acc)
  show ?case
  proof (cases "rest = []")
    case True
    then show ?thesis using 1(2,3) by (simp add: cpu_tokens.simps)
  next
    case False
    let ?t = "takeWhile (\<lambda>c. c \<noteq> CHR '','') rest" and ?a = "dropWhile (\<lambda>c. c \<noteq> CHR '','') rest"
    have n: "\<not> (?a \<noteq> [] \<and> tl ?a = [])" using 1(2) False by (subst (asm) cpu_tokens.simps) (auto simp: Let_def)
    obtain cpus where cpus: "cpu_token ?t = Some cpus" "cpu_tokens (tl ?a) (acc @ cpus) = Some cs"
      using 1(2) False by (subst (asm) cpu_tokens.simps) (auto simp: Let_def split: if_splits option.splits)
    have "\<forall>c\<in>set (acc @ cpus). 0 \<le> c \<and> c \<le> k_max_cpu_number" using 1(3) cpu_token_bounds [OF cpus(1)] by auto
    then show ?thesis by (rule 1(1) [OF False refl refl refl n cpus])
  qed
qed

text \<open>CPU lists. Printing a non-empty CPU list in canonical form and parsing it, with or without the
  line end a kernel file carries, gives the list back; and whatever text is parsed successfully yields
  a canonical list: strictly increasing CPU numbers from 0 to 8191.\<close>

theorem cpu_list_round_trip:
  "(cs \<noteq> [] \<and> sorted cs \<and> distinct cs \<and> (\<forall>c\<in>set cs. 0 \<le> c \<and> c \<le> 8191) \<longrightarrow>
      parse_cpu_list (format_cpu_list cs) = Some cs \<and> parse_cpu_list (format_cpu_list cs @ [CHR 0x0A]) = Some cs) \<and>
   (parse_cpu_list text = Some ds \<longrightarrow> sorted ds \<and> distinct ds \<and> (\<forall>d\<in>set ds. 0 \<le> d \<and> d \<le> 8191))"
proof (intro conjI impI)
  assume cs: "cs \<noteq> [] \<and> sorted cs \<and> distinct cs \<and> (\<forall>c\<in>set cs. 0 \<le> c \<and> c \<le> 8191)"
  then have b: "\<forall>c\<in>set cs. 0 \<le> c \<and> c \<le> k_max_cpu_number" by (simp add: k_max_cpu_number_def)
  have s: "strip_end (format_cpu_list cs) = format_cpu_list cs" by (rule strip_format) (use cs in auto)
  have ne: "format_cpu_list cs \<noteq> []" using cs show_nonempty by (cases cs) auto
  show "parse_cpu_list (format_cpu_list cs) = Some cs"
    using tokens_format [OF b, of "[]"] s ne cs by (simp add: parse_cpu_list_def sort_unique_id)
  have "strip_end (format_cpu_list cs @ [CHR 0x0A]) = strip_end (format_cpu_list cs)" by (simp add: strip_end_def)
  then show "parse_cpu_list (format_cpu_list cs @ [CHR 0x0A]) = Some cs"
    using tokens_format [OF b, of "[]"] s ne cs by (simp add: parse_cpu_list_def sort_unique_id)
next
  assume "parse_cpu_list text = Some ds"
  then obtain xs where xs: "cpu_tokens (strip_end text) [] = Some xs" "ds = sort_unique xs"
    by (auto simp: parse_cpu_list_def Let_def split: if_splits)
  have "\<forall>x\<in>set xs. 0 \<le> x \<and> x \<le> 8191" using cpu_tokens_bounds [OF xs(1)] by (simp add: k_max_cpu_number_def)
  then show "\<forall>d\<in>set ds. 0 \<le> d \<and> d \<le> 8191" using xs(2) by (simp add: sort_unique_def)
  show "sorted ds" using xs(2) by (simp add: sort_unique_def)
  show "distinct ds" using xs(2) by (simp add: sort_unique_def distinct_sorted_adj)
qed

theorem cpu_list_round_trip_witness: "parse_cpu_list (format_cpu_list [0, 2, 3, 17]) = Some [0, 2, 3, 17]"
  using cpu_list_round_trip [of "[0, 2, 3, 17]" "[]" "[]"] by simp

end
