(* ===== verification/Cie_Yaml.thy ===== *)
theory Cie_Yaml
  imports Cie_Config
begin

text \<open>
  The parsers of the configuration file (\<open>thread_config.cpp\<close>): callback groups and non-ROS threads,
  kernel threads, interrupts. They either reject the document or return entries in which exactly the
  fields of the policy are set and every value is in range.
\<close>

section \<open>Documents\<close>

text \<open>What the parsers use of \<open>YAML::Node\<close>: its kind, its scalar, subscripting, its elements, and the
  conversions, \<open>None\<close> where they throw.\<close>

record 'y yaml_api =
  y_defined :: "'y \<Rightarrow> bool"
  y_null :: "'y \<Rightarrow> bool"
  y_is_scalar :: "'y \<Rightarrow> bool"
  y_is_seq :: "'y \<Rightarrow> bool"
  y_is_map :: "'y \<Rightarrow> bool"
  y_scalar :: "'y \<Rightarrow> string"
  y_get :: "'y \<Rightarrow> string \<Rightarrow> 'y"
  y_elems :: "'y \<Rightarrow> 'y list"
  y_int :: "'y \<Rightarrow> int option"
  y_u64 :: "'y \<Rightarrow> u64 option"
  y_string :: "'y \<Rightarrow> string option"

datatype config_error =
    Nice_required | Nice_not_integer | Nice_out_of_range
  | Priority_required | Priority_not_integer | Priority_out_of_range
  | Deadline_field_invalid | Deadline_fields_required
  | Affinity_not_a_list | Affinity_not_integer | Affinity_out_of_range
  | Unknown_policy | Policy_not_string | Field_requires_policy
  | Bad_wildcard | Conversion_failed
  | Duplicate_callback_group | Duplicate_non_ros_thread | Duplicate_kernel_thread | Duplicate_irq
  | Section_not_a_list | Entry_not_a_map | Comm_missing | Comm_not_string | Comm_is_kworker
  | Irq_missing | Irq_invalid | Irq_name_not_string

type_synonym 'a parsed = "config_error + 'a"

primrec traverse :: "('a \<Rightarrow> 'b parsed) \<Rightarrow> 'a list \<Rightarrow> 'b list parsed" where
  "traverse f [] = Inr []"
| "traverse f (x # xs) =
     (case f x of Inl e \<Rightarrow> Inl e | Inr y \<Rightarrow> (case traverse f xs of Inl e \<Rightarrow> Inl e | Inr ys \<Rightarrow> Inr (y # ys)))"

definition the_or :: "config_error \<Rightarrow> 'a option \<Rightarrow> 'a parsed" where
  "the_or e x = (case x of None \<Rightarrow> Inl e | Some v \<Rightarrow> Inr v)"

section \<open>Attributes\<close>

type_synonym deadline_params = "u64 \<times> u64 \<times> u64"

record sched_attrs =
  at_policy :: "sched_policy option"
  at_nice :: int
  at_rt_priority :: int
  at_deadline :: deadline_params
  at_affinity :: "int list"

definition no_attrs :: sched_attrs where
  "no_attrs = \<lparr>at_policy = None, at_nice = 0, at_rt_priority = 0, at_deadline = (0, 0, 0), at_affinity = []\<rparr>"

definition k_unmanageable :: string where "k_unmanageable = ''UNMANAGEABLE''"

definition is_unset :: "'y yaml_api \<Rightarrow> 'y \<Rightarrow> bool \<Rightarrow> bool" where
  "is_unset Y y allow_unmanageable \<longleftrightarrow>
     (if \<not> y_defined Y y \<or> y_null Y y then True else allow_unmanageable \<and> y_is_scalar Y y \<and> y_scalar Y y = k_unmanageable)"

definition k_nice_min :: int where "k_nice_min = -20"
definition k_nice_max :: int where "k_nice_max = 19"
definition k_rt_priority_min :: int where "k_rt_priority_min = 1"
definition k_rt_priority_max :: int where "k_rt_priority_max = 99"

definition parse_nice :: "'y yaml_api \<Rightarrow> 'y \<Rightarrow> bool \<Rightarrow> int parsed" where
  "parse_nice Y entry allow =
     (let nice = y_get Y entry ''nice'' in
      if is_unset Y nice allow then Inl Nice_required
      else case y_int Y nice of
        None \<Rightarrow> Inl Nice_not_integer
      | Some v \<Rightarrow> if v < k_nice_min \<or> v > k_nice_max then Inl Nice_out_of_range else Inr v)"

definition parse_rt_priority :: "'y yaml_api \<Rightarrow> 'y \<Rightarrow> bool \<Rightarrow> int parsed" where
  "parse_rt_priority Y entry allow =
     (let priority = y_get Y entry ''priority'' in
      if is_unset Y priority allow then Inl Priority_required
      else case y_int Y priority of
        None \<Rightarrow> Inl Priority_not_integer
      | Some v \<Rightarrow> if v < k_rt_priority_min \<or> v > k_rt_priority_max then Inl Priority_out_of_range else Inr v)"

text \<open>Digits only, base 10, and the value has to be below \<open>bound\<close> to fit the type.\<close>

definition as_base10 :: "nat \<Rightarrow> 'y yaml_api \<Rightarrow> 'y \<Rightarrow> nat option" where
  "as_base10 bound Y y =
     (if \<not> y_defined Y y \<or> \<not> y_is_scalar Y y then None
      else let s = y_scalar Y y in
           if \<not> is_all_digits s \<or> digits_value s \<ge> bound then None else Some (digits_value s))"

definition parse_deadline_field :: "'y yaml_api \<Rightarrow> 'y \<Rightarrow> string \<Rightarrow> u64 parsed" where
  "parse_deadline_field Y entry key =
     (case as_base10 (2 ^ 64) Y (y_get Y entry key) of None \<Rightarrow> Inl Deadline_field_invalid | Some v \<Rightarrow> Inr (of_nat v))"

text \<open>\<open>max_cpu\<close> is \<open>manageable_cpu_bound()\<close>.\<close>

definition parse_cpu :: "'y yaml_api \<Rightarrow> int \<Rightarrow> 'y \<Rightarrow> int parsed" where
  "parse_cpu Y max_cpu y =
     (case y_int Y y of
        None \<Rightarrow> Inl Affinity_not_integer
      | Some cpu \<Rightarrow> if cpu < 0 \<or> cpu > max_cpu then Inl Affinity_out_of_range else Inr cpu)"

definition parse_affinity :: "'y yaml_api \<Rightarrow> int \<Rightarrow> 'y \<Rightarrow> bool \<Rightarrow> int list parsed" where
  "parse_affinity Y max_cpu entry allow =
     (let affinity = y_get Y entry ''affinity'' in
      if is_unset Y affinity allow then Inr []
      else if \<not> y_is_seq Y affinity then Inl Affinity_not_a_list
      else case traverse (parse_cpu Y max_cpu) (y_elems Y affinity) of Inl e \<Rightarrow> Inl e | Inr cpus \<Rightarrow> Inr (sort_unique cpus))"

definition parse_policy_or_throw :: "string \<Rightarrow> sched_policy parsed" where
  "parse_policy_or_throw name = the_or Unknown_policy (parse_sched_policy name)"

section \<open>Callback groups and non-ROS threads\<close>

record thread_config =
  thread_str :: string
  cfg_domain_id :: u64
  thread_id :: int
  attrs :: sched_attrs
  matched_tids :: "(string \<times> int) list"
  applied :: bool

definition is_wildcard :: "string \<Rightarrow> bool" where
  "is_wildcard s \<longleftrightarrow> length s \<ge> 2 \<and> drop (length s - 2) s = ''/*''"

definition wildcard_prefix :: "string \<Rightarrow> string" where
  "wildcard_prefix s = take (length s - 2) s"

definition extract_node_part :: "string \<Rightarrow> string" where
  "extract_node_part s = takeWhile (\<lambda>c. c \<noteq> CHR 0x40) s"

definition check_id :: "string \<Rightarrow> bool" where
  "check_id s =
     (if CHR ''*'' \<in> set s then
        is_wildcard s \<and> wildcard_prefix s \<noteq> [] \<and> CHR ''*'' \<notin> set (wildcard_prefix s) \<and> CHR 0x40 \<notin> set (wildcard_prefix s)
      else True)"

text \<open>The policy and the fields it takes, as \<open>parse_yaml\<close> reads them.\<close>

definition parse_attrs :: "'y yaml_api \<Rightarrow> int \<Rightarrow> 'y \<Rightarrow> sched_attrs parsed" where
  "parse_attrs Y max_cpu entry =
     (case parse_affinity Y max_cpu entry False of
        Inl e \<Rightarrow> Inl e
      | Inr aff \<Rightarrow>
          (case y_string Y (y_get Y entry ''policy'') of
             None \<Rightarrow> Inl Conversion_failed
           | Some name \<Rightarrow>
               (case parse_policy_or_throw name of
                  Inl e \<Rightarrow> Inl e
                | Inr policy \<Rightarrow>
                    let a = no_attrs\<lparr>at_affinity := aff, at_policy := Some policy\<rparr> in
                    if policy = Deadline then
                      (case (y_u64 Y (y_get Y entry ''runtime''), y_u64 Y (y_get Y entry ''period''), y_u64 Y (y_get Y entry ''deadline'')) of
                         (Some r, Some p, Some d) \<Rightarrow> Inr (a\<lparr>at_deadline := (r, p, d)\<rparr>)
                       | _ \<Rightarrow> Inl Conversion_failed)
                    else if is_cfs policy then
                      (case parse_nice Y entry False of Inl e \<Rightarrow> Inl e | Inr v \<Rightarrow> Inr (a\<lparr>at_nice := v\<rparr>))
                    else (case parse_rt_priority Y entry False of Inl e \<Rightarrow> Inl e | Inr v \<Rightarrow> Inr (a\<lparr>at_rt_priority := v\<rparr>)))))"

definition parse_callback_group :: "'y yaml_api \<Rightarrow> int \<Rightarrow> u64 \<Rightarrow> 'y \<Rightarrow> thread_config parsed" where
  "parse_callback_group Y max_cpu default_domain cg =
     (case y_string Y (y_get Y cg ''id'') of
        None \<Rightarrow> Inl Conversion_failed
      | Some s \<Rightarrow>
          if \<not> check_id s then Inl Bad_wildcard
          else
            (case (if y_defined Y (y_get Y cg ''domain_id'') then y_u64 Y (y_get Y cg ''domain_id'') else Some default_domain) of
               None \<Rightarrow> Inl Conversion_failed
             | Some d \<Rightarrow>
                 (case parse_attrs Y max_cpu cg of
                    Inl e \<Rightarrow> Inl e
                  | Inr a \<Rightarrow> Inr \<lparr>thread_str = s, cfg_domain_id = d, thread_id = -1, attrs = a, matched_tids = [], applied = False\<rparr>)))"

definition parse_non_ros_thread :: "'y yaml_api \<Rightarrow> int \<Rightarrow> 'y \<Rightarrow> thread_config parsed" where
  "parse_non_ros_thread Y max_cpu nrt =
     (case y_string Y (y_get Y nrt ''name'') of
        None \<Rightarrow> Inl Conversion_failed
      | Some s \<Rightarrow>
          (case parse_attrs Y max_cpu nrt of
             Inl e \<Rightarrow> Inl e
           | Inr a \<Rightarrow> Inr \<lparr>thread_str = s, cfg_domain_id = 0, thread_id = -1, attrs = a, matched_tids = [], applied = False\<rparr>))"

definition group_key :: "thread_config \<Rightarrow> string" where
  "group_key c = decimal (unat (cfg_domain_id c)) @ CHR '':'' # thread_str c"

definition parse_yaml :: "'y yaml_api \<Rightarrow> int \<Rightarrow> 'y \<Rightarrow> u64 \<Rightarrow> (thread_config list \<times> thread_config list) parsed" where
  "parse_yaml Y max_cpu yaml default_domain =
     (case traverse (parse_callback_group Y max_cpu default_domain) (y_elems Y (y_get Y yaml ''callback_groups'')) of
        Inl e \<Rightarrow> Inl e
      | Inr cgs \<Rightarrow>
          (case traverse (parse_non_ros_thread Y max_cpu) (y_elems Y (y_get Y yaml ''non_ros_threads'')) of
             Inl e \<Rightarrow> Inl e
           | Inr nrts \<Rightarrow>
               if \<not> distinct (map group_key cgs) then Inl Duplicate_callback_group
               else if \<not> distinct (map thread_str nrts) then Inl Duplicate_non_ros_thread
               else Inr (cgs, nrts)))"

section \<open>Kernel threads\<close>

record kernel_thread_config =
  comm :: string
  kt_attrs :: sched_attrs

definition kt_is_managed :: "kernel_thread_config \<Rightarrow> bool" where
  "kt_is_managed c \<longleftrightarrow> at_policy (kt_attrs c) \<noteq> None \<or> at_affinity (kt_attrs c) \<noteq> []"

definition is_kworker_comm :: "string \<Rightarrow> bool" where
  "is_kworker_comm s \<longleftrightarrow> take 8 s = ''kworker/''"

definition parse_kt_policy :: "'y yaml_api \<Rightarrow> 'y \<Rightarrow> sched_attrs \<Rightarrow> sched_attrs parsed" where
  "parse_kt_policy Y kt a =
     (if is_unset Y (y_get Y kt ''policy'') True then
        (if list_ex (\<lambda>key. \<not> is_unset Y (y_get Y kt key) True) [''nice'', ''priority'', ''runtime'', ''period'', ''deadline'']
         then Inl Field_requires_policy else Inr a)
      else
        (case y_string Y (y_get Y kt ''policy'') of
           None \<Rightarrow> Inl Policy_not_string
         | Some name \<Rightarrow>
             (case parse_policy_or_throw name of
                Inl e \<Rightarrow> Inl e
              | Inr policy \<Rightarrow>
                  let a' = a\<lparr>at_policy := Some policy\<rparr> in
                  if policy = Deadline then
                    (if list_ex (\<lambda>key. is_unset Y (y_get Y kt key) True) [''runtime'', ''period'', ''deadline'']
                     then Inl Deadline_fields_required
                     else case (parse_deadline_field Y kt ''runtime'', parse_deadline_field Y kt ''period'', parse_deadline_field Y kt ''deadline'') of
                       (Inr r, Inr p, Inr d) \<Rightarrow> Inr (a'\<lparr>at_deadline := (r, p, d)\<rparr>)
                     | _ \<Rightarrow> Inl Deadline_field_invalid)
                  else if is_cfs policy then
                    (case parse_nice Y kt True of Inl e \<Rightarrow> Inl e | Inr v \<Rightarrow> Inr (a'\<lparr>at_nice := v\<rparr>))
                  else (case parse_rt_priority Y kt True of Inl e \<Rightarrow> Inl e | Inr v \<Rightarrow> Inr (a'\<lparr>at_rt_priority := v\<rparr>)))))"

definition parse_kernel_thread :: "'y yaml_api \<Rightarrow> int \<Rightarrow> 'y \<Rightarrow> kernel_thread_config parsed" where
  "parse_kernel_thread Y max_cpu kt =
     (if \<not> y_is_map Y kt then Inl Entry_not_a_map
      else if \<not> y_defined Y (y_get Y kt ''comm'') \<or> y_null Y (y_get Y kt ''comm'') then Inl Comm_missing
      else case y_string Y (y_get Y kt ''comm'') of
        None \<Rightarrow> Inl Comm_not_string
      | Some c \<Rightarrow>
          if c = [] then Inl Comm_missing
          else if is_kworker_comm c then Inl Comm_is_kworker
          else
            (case parse_affinity Y max_cpu kt True of
               Inl e \<Rightarrow> Inl e
             | Inr aff \<Rightarrow>
                 (case parse_kt_policy Y kt (no_attrs\<lparr>at_affinity := aff\<rparr>) of
                    Inl e \<Rightarrow> Inl e
                  | Inr a \<Rightarrow> Inr \<lparr>comm = c, kt_attrs = a\<rparr>)))"

definition parse_kernel_threads :: "'y yaml_api \<Rightarrow> int \<Rightarrow> 'y \<Rightarrow> kernel_thread_config list parsed" where
  "parse_kernel_threads Y max_cpu yaml =
     (let sec = y_get Y yaml ''kernel_threads'' in
      if \<not> y_defined Y sec \<or> y_null Y sec then Inr []
      else if \<not> y_is_seq Y sec then Inl Section_not_a_list
      else case traverse (parse_kernel_thread Y max_cpu) (y_elems Y sec) of
        Inl e \<Rightarrow> Inl e
      | Inr cfgs \<Rightarrow> if distinct (map comm cfgs) then Inr cfgs else Inl Duplicate_kernel_thread)"

section \<open>Interrupts\<close>

record irq_config =
  irq :: int
  irq_name :: string
  irq_affinity :: "int list"

definition irq_is_managed :: "irq_config \<Rightarrow> bool" where
  "irq_is_managed c \<longleftrightarrow> irq_affinity c \<noteq> []"

definition parse_irq :: "'y yaml_api \<Rightarrow> int \<Rightarrow> 'y \<Rightarrow> irq_config parsed" where
  "parse_irq Y max_cpu iq =
     (if \<not> y_is_map Y iq then Inl Entry_not_a_map
      else if \<not> y_defined Y (y_get Y iq ''irq'') \<or> y_null Y (y_get Y iq ''irq'') then Inl Irq_missing
      else case as_base10 (2 ^ 31) Y (y_get Y iq ''irq'') of
        None \<Rightarrow> Inl Irq_invalid
      | Some k \<Rightarrow>
          (case (if y_defined Y (y_get Y iq ''name'') \<and> \<not> y_null Y (y_get Y iq ''name'')
                 then y_string Y (y_get Y iq ''name'') else Some []) of
             None \<Rightarrow> Inl Irq_name_not_string
           | Some nm \<Rightarrow>
               (case parse_affinity Y max_cpu iq True of
                  Inl e \<Rightarrow> Inl e
                | Inr aff \<Rightarrow> Inr \<lparr>irq = int k, irq_name = nm, irq_affinity = aff\<rparr>)))"

definition parse_irqs :: "'y yaml_api \<Rightarrow> int \<Rightarrow> 'y \<Rightarrow> irq_config list parsed" where
  "parse_irqs Y max_cpu yaml =
     (let sec = y_get Y yaml ''irqs'' in
      if \<not> y_defined Y sec \<or> y_null Y sec then Inr []
      else if \<not> y_is_seq Y sec then Inl Section_not_a_list
      else case traverse (parse_irq Y max_cpu) (y_elems Y sec) of
        Inl e \<Rightarrow> Inl e
      | Inr cfgs \<Rightarrow> if distinct (map irq cfgs) then Inr cfgs else Inl Duplicate_irq)"

section \<open>Well-formed configurations\<close>

definition canonical_cpus :: "int \<Rightarrow> int list \<Rightarrow> bool" where
  "canonical_cpus max_cpu cs \<longleftrightarrow> sorted cs \<and> distinct cs \<and> (\<forall>c\<in>set cs. 0 \<le> c \<and> c \<le> max_cpu)"

text \<open>Only the fields of the policy's class are set, and they are in range.\<close>

definition wf_attrs :: "int \<Rightarrow> sched_attrs \<Rightarrow> bool" where
  "wf_attrs max_cpu a \<longleftrightarrow> canonical_cpus max_cpu (at_affinity a) \<and>
     (case at_policy a of
        None \<Rightarrow> at_nice a = 0 \<and> at_rt_priority a = 0 \<and> at_deadline a = (0, 0, 0)
      | Some Deadline \<Rightarrow> at_nice a = 0 \<and> at_rt_priority a = 0
      | Some p \<Rightarrow> at_deadline a = (0, 0, 0) \<and>
          (if p \<in> {Other, Batch, Idle} then at_rt_priority a = 0 \<and> -20 \<le> at_nice a \<and> at_nice a \<le> 19
           else at_nice a = 0 \<and> 1 \<le> at_rt_priority a \<and> at_rt_priority a \<le> 99))"

definition wf_thread :: "int \<Rightarrow> thread_config \<Rightarrow> bool" where
  "wf_thread max_cpu c \<longleftrightarrow> wf_attrs max_cpu (attrs c) \<and> at_policy (attrs c) \<noteq> None \<and> thread_id c = -1 \<and> \<not> applied c"

definition wf_id :: "string \<Rightarrow> bool" where
  "wf_id s \<longleftrightarrow> CHR ''*'' \<notin> set s \<or> (\<exists>node. s = node @ ''/*'' \<and> node \<noteq> [] \<and> CHR ''*'' \<notin> set node \<and> CHR 0x40 \<notin> set node)"

lemma traverse_all: "traverse f xs = Inr ys \<Longrightarrow> (\<And>x y. f x = Inr y \<Longrightarrow> P y) \<Longrightarrow> \<forall>y\<in>set ys. P y"
  by (induction xs arbitrary: ys) (auto split: sum.splits)

lemma affinity_canonical: "parse_affinity Y max_cpu e allow = Inr cs \<Longrightarrow> canonical_cpus max_cpu cs"
proof -
  assume p: "parse_affinity Y max_cpu e allow = Inr cs"
  show ?thesis
  proof (cases "cs = []")
    case False
    then obtain xs where xs: "traverse (parse_cpu Y max_cpu) (y_elems Y (y_get Y e ''affinity'')) = Inr xs" "cs = sort_unique xs"
      using p by (auto simp: parse_affinity_def Let_def split: if_splits sum.splits)
    have "\<forall>c\<in>set xs. 0 \<le> c \<and> c \<le> max_cpu"
      by (rule traverse_all [OF xs(1)]) (auto simp: parse_cpu_def split: option.splits if_splits)
    then show ?thesis using xs(2) by (simp add: canonical_cpus_def sort_unique_def distinct_sorted_adj)
  qed (simp add: canonical_cpus_def)
qed

lemma is_cfs_eq: "is_cfs p \<longleftrightarrow> p \<in> {Other, Batch, Idle}"
  by (cases p) (simp_all add: is_cfs_def policy_row_def k_policies_def policy_index_def)

lemma nice_range: "parse_nice Y e allow = Inr v \<Longrightarrow> -20 \<le> v \<and> v \<le> 19"
  by (auto simp: parse_nice_def Let_def k_nice_min_def k_nice_max_def split: if_splits option.splits)

lemma priority_range: "parse_rt_priority Y e allow = Inr v \<Longrightarrow> 1 \<le> v \<and> v \<le> 99"
  by (auto simp: parse_rt_priority_def Let_def k_rt_priority_min_def k_rt_priority_max_def split: if_splits option.splits)

lemma wf_by_policy:
  assumes "canonical_cpus max_cpu aff"
  shows "wf_attrs max_cpu (no_attrs\<lparr>at_affinity := aff\<rparr>)"
    and "wf_attrs max_cpu (no_attrs\<lparr>at_affinity := aff, at_policy := Some Deadline, at_deadline := d\<rparr>)"
    and "is_cfs p \<Longrightarrow> -20 \<le> v \<and> v \<le> 19 \<Longrightarrow> wf_attrs max_cpu (no_attrs\<lparr>at_affinity := aff, at_policy := Some p, at_nice := v\<rparr>)"
    and "\<not> is_cfs p \<Longrightarrow> p \<noteq> Deadline \<Longrightarrow> 1 \<le> v \<and> v \<le> 99 \<Longrightarrow>
      wf_attrs max_cpu (no_attrs\<lparr>at_affinity := aff, at_policy := Some p, at_rt_priority := v\<rparr>)"
  using assms by (cases p; simp add: wf_attrs_def no_attrs_def is_cfs_eq)+

lemma parse_attrs_wf: "parse_attrs Y max_cpu e = Inr a \<Longrightarrow> wf_attrs max_cpu a \<and> at_policy a \<noteq> None"
  by (auto simp: parse_attrs_def Let_def split: if_splits sum.splits option.splits
      dest!: affinity_canonical nice_range priority_range intro: wf_by_policy)

lemma parse_kt_policy_wf:
  assumes "parse_kt_policy Y kt (no_attrs\<lparr>at_affinity := aff\<rparr>) = Inr a" and "canonical_cpus max_cpu aff"
  shows "wf_attrs max_cpu a"
  using assms
  by (auto simp: parse_kt_policy_def Let_def split: if_splits sum.splits option.splits
      dest!: nice_range priority_range intro: wf_by_policy)

lemma check_id_wf: "check_id s \<Longrightarrow> wf_id s"
proof -
  assume c: "check_id s"
  show ?thesis
  proof (cases "CHR ''*'' \<in> set s")
    case True
    then have "s = wildcard_prefix s @ ''/*''"
      using c append_take_drop_id [of "length s - 2" s] by (simp add: check_id_def is_wildcard_def wildcard_prefix_def)
    then show ?thesis using c True unfolding check_id_def wf_id_def by auto
  qed (simp add: wf_id_def)
qed

lemma callback_group_wf:
  "parse_callback_group Y max_cpu d cg = Inr c \<Longrightarrow> wf_thread max_cpu c \<and> wf_id (thread_str c)"
  by (auto simp: parse_callback_group_def wf_thread_def split: if_splits sum.splits option.splits dest!: parse_attrs_wf intro: check_id_wf)

lemma non_ros_thread_wf: "parse_non_ros_thread Y max_cpu cg = Inr c \<Longrightarrow> wf_thread max_cpu c"
  by (auto simp: parse_non_ros_thread_def wf_thread_def split: if_splits sum.splits option.splits dest!: parse_attrs_wf)

lemma kernel_thread_wf:
  "parse_kernel_thread Y max_cpu kt = Inr c \<Longrightarrow> wf_attrs max_cpu (kt_attrs c) \<and> comm c \<noteq> [] \<and> take 8 (comm c) \<noteq> ''kworker/''"
  by (auto simp: parse_kernel_thread_def is_kworker_comm_def split: if_splits sum.splits option.splits
      dest!: affinity_canonical intro: parse_kt_policy_wf)

lemma irq_wf: "parse_irq Y max_cpu iq = Inr c \<Longrightarrow> 0 \<le> irq c \<and> irq c < 2 ^ 31 \<and> canonical_cpus max_cpu (irq_affinity c)"
  by (auto simp: parse_irq_def as_base10_def Let_def split: if_splits sum.splits option.splits dest!: affinity_canonical)

lemma distinct_keys: "distinct (map group_key cgs) \<Longrightarrow> distinct (map (\<lambda>c. (cfg_domain_id c, thread_str c)) cgs)"
  by (induction cgs) (auto simp: group_key_def)

text \<open>Claim C37. Configuration types. Whatever the document and however its nodes convert, a configuration that
  is accepted is well-formed: CPU lists are strictly increasing and within the machine, only the
  fields of the policy's class are set and in range, ids with an asterisk are a plain node name and
  a trailing wildcard, kernel workers are not configured, and there are no duplicate entries.\<close>

theorem accepted_config_well_formed:
  "(parse_yaml Y max_cpu yaml d = Inr (cgs, nrts) \<longrightarrow>
      (\<forall>c\<in>set cgs. wf_thread max_cpu c \<and> wf_id (thread_str c)) \<and> (\<forall>c\<in>set nrts. wf_thread max_cpu c) \<and>
      distinct (map (\<lambda>c. (cfg_domain_id c, thread_str c)) cgs) \<and> distinct (map thread_str nrts)) \<and>
   (parse_kernel_threads Y max_cpu yaml = Inr kts \<longrightarrow>
      (\<forall>c\<in>set kts. wf_attrs max_cpu (kt_attrs c) \<and> comm c \<noteq> [] \<and> take 8 (comm c) \<noteq> ''kworker/'') \<and> distinct (map comm kts)) \<and>
   (parse_irqs Y max_cpu yaml = Inr irqs \<longrightarrow>
      (\<forall>c\<in>set irqs. 0 \<le> irq c \<and> irq c < 2 ^ 31 \<and> canonical_cpus max_cpu (irq_affinity c)) \<and> distinct (map irq irqs))"
proof (intro conjI impI)
  assume "parse_yaml Y max_cpu yaml d = Inr (cgs, nrts)"
  then have t: "traverse (parse_callback_group Y max_cpu d) (y_elems Y (y_get Y yaml ''callback_groups'')) = Inr cgs"
    "traverse (parse_non_ros_thread Y max_cpu) (y_elems Y (y_get Y yaml ''non_ros_threads'')) = Inr nrts"
    and keys: "distinct (map group_key cgs)" "distinct (map thread_str nrts)"
    by (auto simp: parse_yaml_def split: sum.splits if_splits)
  show "\<forall>c\<in>set cgs. wf_thread max_cpu c \<and> wf_id (thread_str c)" by (rule traverse_all [OF t(1) callback_group_wf])
  show "\<forall>c\<in>set nrts. wf_thread max_cpu c" by (rule traverse_all [OF t(2) non_ros_thread_wf])
  show "distinct (map (\<lambda>c. (cfg_domain_id c, thread_str c)) cgs)" by (rule distinct_keys [OF keys(1)])
  show "distinct (map thread_str nrts)" by (fact keys(2))
next
  assume k: "parse_kernel_threads Y max_cpu yaml = Inr kts"
  show "\<forall>c\<in>set kts. wf_attrs max_cpu (kt_attrs c) \<and> comm c \<noteq> [] \<and> take 8 (comm c) \<noteq> ''kworker/''"
  proof (cases "kts = []")
    case False
    then have "traverse (parse_kernel_thread Y max_cpu) (y_elems Y (y_get Y yaml ''kernel_threads'')) = Inr kts"
      using k by (auto simp: parse_kernel_threads_def Let_def split: if_splits sum.splits)
    then show ?thesis by (rule traverse_all) (rule kernel_thread_wf)
  qed simp
  show "distinct (map comm kts)"
    using k by (auto simp: parse_kernel_threads_def Let_def split: if_splits sum.splits)
next
  assume k: "parse_irqs Y max_cpu yaml = Inr irqs"
  show "\<forall>c\<in>set irqs. 0 \<le> irq c \<and> irq c < 2 ^ 31 \<and> canonical_cpus max_cpu (irq_affinity c)"
  proof (cases "irqs = []")
    case False
    then have "traverse (parse_irq Y max_cpu) (y_elems Y (y_get Y yaml ''irqs'')) = Inr irqs"
      using k by (auto simp: parse_irqs_def Let_def split: if_splits sum.splits)
    then show ?thesis by (rule traverse_all) (rule irq_wf)
  qed simp
  show "distinct (map irq irqs)" using k by (auto simp: parse_irqs_def Let_def split: if_splits sum.splits)
qed

text \<open>A concrete document model for the example.\<close>

datatype doc = Undef | Null | Scalar string | Seq "doc list" | Map "(string \<times> doc) list"

definition doc_api :: "doc yaml_api" where
  "doc_api = \<lparr>y_defined = (\<lambda>y. y \<noteq> Undef), y_null = (\<lambda>y. y = Null), y_is_scalar = (\<lambda>y. case y of Scalar s \<Rightarrow> True | _ \<Rightarrow> False),
     y_is_seq = (\<lambda>y. case y of Seq xs \<Rightarrow> True | _ \<Rightarrow> False), y_is_map = (\<lambda>y. case y of Map xs \<Rightarrow> True | _ \<Rightarrow> False),
     y_scalar = (\<lambda>y. case y of Scalar s \<Rightarrow> s | _ \<Rightarrow> []),
     y_get = (\<lambda>y k. case y of Map xs \<Rightarrow> (case map_of xs k of None \<Rightarrow> Undef | Some v \<Rightarrow> v) | _ \<Rightarrow> Undef),
     y_elems = (\<lambda>y. case y of Seq xs \<Rightarrow> xs | _ \<Rightarrow> []),
     y_int = (\<lambda>y. case y of Scalar s \<Rightarrow> to_number s | _ \<Rightarrow> None),
     y_u64 = (\<lambda>y. case y of Scalar s \<Rightarrow> (if is_all_digits s then Some (of_nat (digits_value s)) else None) | _ \<Rightarrow> None),
     y_string = (\<lambda>y. case y of Scalar s \<Rightarrow> Some s | _ \<Rightarrow> None)\<rparr>"

definition demo_doc :: doc where
  "demo_doc = Map [(''kernel_threads'', Seq [Map [(''comm'', Scalar ''ksoftirqd/0''), (''policy'', Scalar ''SCHED_FIFO''),
     (''priority'', Scalar ''50''), (''affinity'', Seq [Scalar ''3'', Scalar ''1'', Scalar ''3''])]])]"

definition demo_kernel_threads :: "kernel_thread_config list" where
  "demo_kernel_threads = [\<lparr>comm = ''ksoftirqd/0'', kt_attrs = no_attrs\<lparr>at_affinity := [1, 3], at_policy := Some Fifo, at_rt_priority := 50\<rparr>\<rparr>]"

lemma demo_parsed: "parse_kernel_threads doc_api 7 demo_doc = Inr demo_kernel_threads"
proof -
  have num: "to_number ''50'' = Some 50" "to_number ''3'' = Some 3" "to_number ''1'' = Some 1"
    by (simp_all add: to_number_def is_all_digits_def is_digit_def digits_value_def digit_value_def)
  have pol: "parse_sched_policy ''SCHED_FIFO'' = Some Fifo" "\<not> is_cfs Fifo"
    by (simp_all add: parse_sched_policy_def k_policies_def is_cfs_eq)
  have srt: "sort_unique [3, 1, 3] = [1, 3]" by (simp add: sort_unique_def)
  show ?thesis
    by (simp add: parse_kernel_threads_def demo_doc_def doc_api_def Let_def parse_kernel_thread_def is_kworker_comm_def
        parse_affinity_def is_unset_def k_unmanageable_def parse_cpu_def num srt parse_kt_policy_def parse_policy_or_throw_def pol
        the_or_def parse_rt_priority_def k_rt_priority_min_def k_rt_priority_max_def demo_kernel_threads_def)
qed

theorem accepted_config_well_formed_witness:
  "parse_kernel_threads doc_api 7 demo_doc = Inr demo_kernel_threads \<and> wf_attrs 7 (kt_attrs (hd demo_kernel_threads))"
  using accepted_config_well_formed [of doc_api 7 demo_doc 0 "[]" "[]" demo_kernel_threads "[]"] demo_parsed
  by (simp add: demo_kernel_threads_def)

end
