(* ===== verification/Ordered_Map.thy ===== *)
theory Ordered_Map
  imports Agnocast_Prelude "HOL-Library.List_Lexorder" "HOL-Library.Char_ord"
begin

text \<open>
  \<open>std::map\<close> as the user-space code uses it: iteration in ascending key order, assignment through
  \<open>operator[]\<close>, lookup and erasure. A map is the list of its bindings in iteration order. Keys of type
  \<^typ>\<open>string\<close> are compared byte by byte, as \<open>std::string\<close> does.
\<close>

section \<open>Operations\<close>

type_synonym ('k, 'v) omap = "('k \<times> 'v) list"

fun put :: "'k::linorder \<Rightarrow> 'v \<Rightarrow> ('k, 'v) omap \<Rightarrow> ('k, 'v) omap" where
  "put k v [] = [(k, v)]"
| "put k v ((l, w) # m) =
     (if k < l then (k, v) # (l, w) # m else if k = l then (k, v) # m else (l, w) # put k v m)"

definition erase :: "'k \<Rightarrow> ('k, 'v) omap \<Rightarrow> ('k, 'v) omap" where
  "erase k m = filter (\<lambda>b. fst b \<noteq> k) m"

definition ascending :: "('k::linorder, 'v) omap \<Rightarrow> bool" where
  "ascending m \<longleftrightarrow> sorted_wrt (<) (map fst m)"

section \<open>The contract of a dictionary\<close>

text \<open>What the clients of a map rely on, and what follows for loops that assign several keys.\<close>

locale dictionary =
  fixes inv :: "'m \<Rightarrow> bool"
    and lookup :: "'m \<Rightarrow> 'k \<Rightarrow> 'v option"
    and insert :: "'k \<Rightarrow> 'v \<Rightarrow> 'm \<Rightarrow> 'm"
    and delete :: "'k \<Rightarrow> 'm \<Rightarrow> 'm"
  assumes inv_insert: "inv m \<Longrightarrow> inv (insert k v m)"
    and inv_delete: "inv m \<Longrightarrow> inv (delete k m)"
    and lookup_insert: "lookup (insert k v m) = (lookup m)(k \<mapsto> v)"
    and lookup_delete: "lookup (delete k m) = (lookup m)(k := None)"
begin

lemma inv_fold_insert: "inv m \<Longrightarrow> inv (fold (\<lambda>x. insert (f x) (g x)) xs m)"
  by (induction xs arbitrary: m) (auto intro: inv_insert)

lemma inv_fold_delete: "inv m \<Longrightarrow> inv (fold (\<lambda>x. delete (f x)) xs m)"
  by (induction xs arbitrary: m) (auto intro: inv_delete)

lemma lookup_fold_insert:
  "lookup (fold (\<lambda>x. insert (f x) (g x)) xs m) = lookup m ++ map_of (rev (map (\<lambda>x. (f x, g x)) xs))"
proof (induction xs arbitrary: m)
  case (Cons x xs)
  then show ?case by (auto simp: lookup_insert map_add_def fun_eq_iff split: option.splits)
qed simp

lemma lookup_fold_delete:
  "lookup (fold (\<lambda>x. delete (f x)) xs m) k = (if k \<in> f ` set xs then None else lookup m k)"
  by (induction xs arbitrary: m) (auto simp: lookup_delete)

end

section \<open>Ordered lists implement it\<close>

lemma put_keys [simp]: "fst ` set (put k v m) = insert k (fst ` set m)"
  by (induction k v m rule: put.induct) auto

lemma map_of_put [simp]: "map_of (put k v m) = (map_of m)(k \<mapsto> v)"
  by (induction k v m rule: put.induct) (auto simp: fun_eq_iff)

lemma ascending_put: "ascending m \<Longrightarrow> ascending (put k v m)"
proof (induction k v m rule: put.induct)
  case (2 k v l w m)
  then have "\<forall>x\<in>fst ` set m. l < x" by (auto simp: ascending_def)
  then have "\<not> k < l \<Longrightarrow> k \<noteq> l \<Longrightarrow> \<forall>x\<in>fst ` set (put k v m). l < x" by auto
  then show ?case using 2 by (auto simp: ascending_def)
qed (simp add: ascending_def)

lemma map_of_erase [simp]: "map_of (erase k m) = (map_of m)(k := None)"
  by (induction m) (auto simp: erase_def fun_eq_iff)

lemma ascending_filter: "ascending m \<Longrightarrow> ascending (filter P m)"
  unfolding ascending_def by (induction m) auto

lemma ascending_distinct: "ascending m \<Longrightarrow> distinct (map fst m)"
  unfolding ascending_def by (induction m) auto

lemma ascending_erase: "ascending m \<Longrightarrow> ascending (erase k m)"
  unfolding erase_def by (rule ascending_filter)

interpretation om: dictionary ascending map_of put erase
  by unfold_locales (auto simp: ascending_put ascending_erase)

end
