(* ===== verification/Node_Parameters.thy ===== *)
theory Node_Parameters
  imports Ordered_Map
begin

text \<open>
  The parameters of an Agnocast node (\<open>node_parameters.cpp\<close>, the override resolution of
  \<open>agnocast_arguments.cpp\<close> and the request handlers of \<open>agnocast_parameter_service.cpp\<close>): declaration,
  validation against descriptors and user callbacks, atomic setting, undeclaring and the queries.

  The class takes a recursive mutex in every operation and refuses modifications from inside a user
  callback; the model is of the operations as they run outside a callback. A user callback is a
  function from the proposed parameters to a result.
\<close>

section \<open>Values and descriptors\<close>

datatype 'd parameter_value =
    Not_set | Bool bool | Integer "64 word" | Double 'd | String string
  | Byte_array "8 word list" | Bool_array "bool list" | Integer_array "64 word list"
  | Double_array "'d list" | String_array "string list"

datatype parameter_type =
    PARAMETER_NOT_SET | PARAMETER_BOOL | PARAMETER_INTEGER | PARAMETER_DOUBLE | PARAMETER_STRING
  | PARAMETER_BYTE_ARRAY | PARAMETER_BOOL_ARRAY | PARAMETER_INTEGER_ARRAY | PARAMETER_DOUBLE_ARRAY
  | PARAMETER_STRING_ARRAY

primrec get_type :: "'d parameter_value \<Rightarrow> parameter_type" where
  "get_type Not_set = PARAMETER_NOT_SET"
| "get_type (Bool _) = PARAMETER_BOOL"
| "get_type (Integer _) = PARAMETER_INTEGER"
| "get_type (Double _) = PARAMETER_DOUBLE"
| "get_type (String _) = PARAMETER_STRING"
| "get_type (Byte_array _) = PARAMETER_BYTE_ARRAY"
| "get_type (Bool_array _) = PARAMETER_BOOL_ARRAY"
| "get_type (Integer_array _) = PARAMETER_INTEGER_ARRAY"
| "get_type (Double_array _) = PARAMETER_DOUBLE_ARRAY"
| "get_type (String_array _) = PARAMETER_STRING_ARRAY"

lemma get_type_not_set [simp]: "get_type v = PARAMETER_NOT_SET \<longleftrightarrow> v = Not_set" "PARAMETER_NOT_SET = get_type v \<longleftrightarrow> v = Not_set"
  by (cases v; simp)+

text \<open>Bounds of a range are signed for integers, the step is unsigned; a descriptor holds at most one
  range of each kind, and only the first is read.\<close>

record 'd descriptor =
  d_name :: string
  d_type :: parameter_type
  d_description :: string
  read_only :: bool
  dynamic_typing :: bool
  integer_range :: "(64 word \<times> 64 word \<times> 64 word) list"
  floating_point_range :: "('d \<times> 'd \<times> 'd) list"

record 'd parameter_info =
  pvalue :: "'d parameter_value"
  descr :: "'d descriptor"

type_synonym 'd parameter = "string \<times> 'd parameter_value"

definition new_descriptor :: "'d descriptor" where
  "new_descriptor = \<lparr>d_name = [], d_type = PARAMETER_NOT_SET, d_description = [], read_only = False,
     dynamic_typing = False, integer_range = [], floating_point_range = []\<rparr>"

definition new_info :: "'d parameter_info" where
  "new_info = \<lparr>pvalue = Not_set, descr = new_descriptor\<rparr>"

record set_result =
  successful :: bool
  reason :: string

text \<open>
  What the code takes from the compiler and from rclcpp: double arithmetic and comparisons, the
  comparison of two values (which is not reflexive on NaN), the name of a type, and whether
  assertions are compiled out.
\<close>

record 'd platform =
  fp_abs :: "'d \<Rightarrow> 'd"
  fp_add :: "'d \<Rightarrow> 'd \<Rightarrow> 'd"
  fp_sub :: "'d \<Rightarrow> 'd \<Rightarrow> 'd"
  fp_mul :: "'d \<Rightarrow> 'd \<Rightarrow> 'd"
  fp_div :: "'d \<Rightarrow> 'd \<Rightarrow> 'd"
  fp_round :: "'d \<Rightarrow> 'd"
  fp_le :: "'d \<Rightarrow> 'd \<Rightarrow> bool"
  fp_lt :: "'d \<Rightarrow> 'd \<Rightarrow> bool"
  fp_is_zero :: "'d \<Rightarrow> bool"
  fp_epsilon :: 'd
  fp_hundred :: 'd
  value_eq :: "'d parameter_value \<Rightarrow> 'd parameter_value \<Rightarrow> bool"
  type_name :: "parameter_type \<Rightarrow> string"
  ndebug :: bool

datatype parameter_error =
    Invalid_parameters | Parameter_already_declared | Invalid_parameter_type string
  | Invalid_parameter_value string | Parameter_not_declared | Parameter_uninitialized
  | Parameter_immutable | Invalid_argument | Callback_does_not_exist | Out_of_range | Assertion_failed

section \<open>Validation\<close>

definition ok_result :: set_result where "ok_result = \<lparr>successful = True, reason = []\<rparr>"

definition are_doubles_equal :: "'d platform \<Rightarrow> 'd \<Rightarrow> 'd \<Rightarrow> bool" where
  "are_doubles_equal P x y \<longleftrightarrow>
     fp_le P (fp_abs P (fp_sub P x y)) (fp_mul P (fp_mul P (fp_epsilon P) (fp_abs P (fp_add P x y))) (fp_hundred P))"

definition format_range_reason :: "string \<Rightarrow> string \<Rightarrow> string" where
  "format_range_reason name range_type = ''Parameter {'' @ name @ ''} doesn't comply with '' @ range_type @ '' range.''"

definition failed :: "string \<Rightarrow> set_result" where "failed r = \<lparr>successful = False, reason = r\<rparr>"

text \<open>The difference of two signed integers is computed on words and then read as unsigned, because the
  step is unsigned.\<close>

definition check_parameter_value_in_range :: "'d platform \<Rightarrow> 'd descriptor \<Rightarrow> 'd parameter_value \<Rightarrow> set_result" where
  "check_parameter_value_in_range P d val =
     (case (integer_range d, val) of
        ((from, to, step) # _, Integer v) \<Rightarrow>
          if v = from \<or> v = to then ok_result
          else if v <s from \<or> to <s v then failed (format_range_reason (d_name d) ''integer'')
          else if step = 0 then ok_result
          else if (v - from) mod step = 0 then ok_result
          else failed (format_range_reason (d_name d) ''integer'')
      | _ \<Rightarrow>
        (case (floating_point_range d, val) of
           ((from, to, step) # _, Double v) \<Rightarrow>
             if are_doubles_equal P v from \<or> are_doubles_equal P v to then ok_result
             else if fp_lt P v from \<or> fp_lt P to v then failed (format_range_reason (d_name d) ''floating point'')
             else if fp_is_zero P step then ok_result
             else if are_doubles_equal P v (fp_add P from (fp_mul P (fp_round P (fp_div P (fp_sub P v from) step)) step))
             then ok_result
             else failed (format_range_reason (d_name d) ''floating point'')
         | _ \<Rightarrow> ok_result))"

definition format_type_reason :: "string \<Rightarrow> string \<Rightarrow> string \<Rightarrow> string" where
  "format_type_reason name old_type new_type =
     ''Wrong parameter type, parameter {'' @ name @ ''} is of type {'' @ old_type @ ''}, setting it to {'' @ new_type @ ''} is not allowed.''"

text \<open>One round of the loop of \<open>check_parameters\<close>. Without \<open>allow_undeclared\<close> the lookup is
  \<open>operator[]\<close>, which inserts a default entry for a missing name.\<close>

definition check_parameter :: "'d platform \<Rightarrow> bool \<Rightarrow> (string, 'd parameter_info) omap \<Rightarrow> 'd parameter \<Rightarrow> set_result \<times> (string, 'd parameter_info) omap" where
  "check_parameter P allow_undeclared infos p =
     (let (name, v) = p;
          infos' = (if allow_undeclared \<or> map_of infos name \<noteq> None then infos else put name new_info infos);
          d0 = (case map_of infos' name of Some i \<Rightarrow> descr i | None \<Rightarrow> new_descriptor\<lparr>dynamic_typing := True\<rparr>);
          d = (if d_name d0 = [] then d0\<lparr>d_name := name\<rparr> else d0)
      in if dynamic_typing d \<or> d_type d = get_type v then (check_parameter_value_in_range P d v, infos')
         else (failed (format_type_reason name (type_name P (d_type d)) (type_name P (get_type v))), infos'))"

fun check_parameters :: "'d platform \<Rightarrow> bool \<Rightarrow> (string, 'd parameter_info) omap \<Rightarrow> 'd parameter list \<Rightarrow> set_result \<Rightarrow> set_result \<times> (string, 'd parameter_info) omap" where
  "check_parameters P allow infos [] result = (result, infos)"
| "check_parameters P allow infos (p # ps) result =
     (case check_parameter P allow infos p of
        (r, infos') \<Rightarrow> if \<not> successful r then (r, infos') else check_parameters P allow infos' ps r)"

section \<open>Callbacks\<close>

text \<open>A weak handle that is still alive is a callback with its identity; \<^term>\<open>None\<close> is an expired one,
  which the traversal erases.\<close>

type_synonym 'd callbacks = "(nat \<times> ('d parameter list \<Rightarrow> set_result)) option list"

fun call_on_parameters_set_callbacks :: "'d parameter list \<Rightarrow> set_result \<Rightarrow> 'd callbacks \<Rightarrow> set_result \<times> 'd callbacks" where
  "call_on_parameters_set_callbacks ps result [] = (result, [])"
| "call_on_parameters_set_callbacks ps result (None # cs) = call_on_parameters_set_callbacks ps result cs"
| "call_on_parameters_set_callbacks ps result (Some (h, f) # cs) =
     (let r = f ps in
      if \<not> successful r then (r, Some (h, f) # cs)
      else case call_on_parameters_set_callbacks ps r cs of (r', cs') \<Rightarrow> (r', Some (h, f) # cs'))"

section \<open>Setting and declaring\<close>

definition store_parameter :: "'d parameter \<Rightarrow> (string, 'd parameter_info) omap \<Rightarrow> (string, 'd parameter_info) omap" where
  "store_parameter p infos =
     (let (name, v) = p; i = (case map_of infos name of Some i \<Rightarrow> i | None \<Rightarrow> new_info)
      in put name (i\<lparr>descr := (descr i)\<lparr>d_name := name, d_type := get_type v\<rparr>, pvalue := v\<rparr>) infos)"

definition set_parameters_atomically_common ::
  "'d platform \<Rightarrow> 'd parameter list \<Rightarrow> (string, 'd parameter_info) omap \<Rightarrow> 'd callbacks \<Rightarrow> bool
   \<Rightarrow> set_result \<times> (string, 'd parameter_info) omap \<times> 'd callbacks" where
  "set_parameters_atomically_common P ps infos cbs allow_undeclared =
     (case check_parameters P allow_undeclared infos ps ok_result of
        (r, infos1) \<Rightarrow>
          if \<not> successful r then (r, infos1, cbs)
          else case call_on_parameters_set_callbacks ps ok_result cbs of
            (r', cbs') \<Rightarrow>
              if \<not> successful r' then (r', infos1, cbs')
              else (r', fold store_parameter ps infos1, cbs'))"

definition declare_parameter_common ::
  "'d platform \<Rightarrow> string \<Rightarrow> 'd parameter_value \<Rightarrow> 'd descriptor \<Rightarrow> (string, 'd parameter_info) omap
   \<Rightarrow> (string, 'd parameter_value) omap \<Rightarrow> 'd callbacks \<Rightarrow> bool
   \<Rightarrow> set_result \<times> (string, 'd parameter_info) omap \<times> 'd callbacks" where
  "declare_parameter_common P name default_value d out overrides cbs ignore_override =
     (let initial_value = (case map_of overrides name of
            Some v \<Rightarrow> if ignore_override then default_value else v
          | None \<Rightarrow> default_value)
      in if initial_value = Not_set then
           (ok_result,
            put name \<lparr>pvalue = Not_set, descr = d\<lparr>d_name := name, d_type := (if dynamic_typing d then PARAMETER_NOT_SET else d_type d)\<rparr>\<rparr> out,
            cbs)
         else
           (case set_parameters_atomically_common P [(name, initial_value)] [(name, \<lparr>pvalue = Not_set, descr = d\<rparr>)] cbs False of
              (r, infos, cbs') \<Rightarrow>
                if \<not> successful r then (r, out, cbs')
                else (r, (case map_of infos name of Some i \<Rightarrow> put name i out | None \<Rightarrow> out), cbs')))"

record 'd node_parameters =
  parameters :: "(string, 'd parameter_info) omap"
  parameter_overrides :: "(string, 'd parameter_value) omap"
  set_callbacks :: "'d callbacks"
  allow_undeclared :: bool

definition declare_parameter_helper ::
  "'d platform \<Rightarrow> string \<Rightarrow> parameter_type \<Rightarrow> 'd parameter_value \<Rightarrow> 'd descriptor \<Rightarrow> bool \<Rightarrow> 'd node_parameters
   \<Rightarrow> (parameter_error + 'd parameter_value) \<times> 'd node_parameters" where
  "declare_parameter_helper P name ty default_value d ignore_override s =
     (if name = [] then (Inl Invalid_parameters, s)
      else if map_of (parameters s) name \<noteq> None then (Inl Parameter_already_declared, s)
      else
        let ty' = (if ty = PARAMETER_NOT_SET then get_type default_value else ty)
        in if \<not> dynamic_typing d \<and> ty' = PARAMETER_NOT_SET then (Inl (Invalid_parameter_type []), s)
           else
             case declare_parameter_common P name default_value (if dynamic_typing d then d else d\<lparr>d_type := ty'\<rparr>)
                    (parameters s) (parameter_overrides s) (set_callbacks s) ignore_override of
               (r, ps, cbs) \<Rightarrow>
                 let s' = s\<lparr>parameters := ps, set_callbacks := cbs\<rparr>
                 in if \<not> successful r then
                      (Inl (if take 20 (reason r) = ''Wrong parameter type'' then Invalid_parameter_type (reason r)
                            else Invalid_parameter_value (reason r)), s')
                    else (case map_of ps name of Some i \<Rightarrow> Inr (pvalue i) | None \<Rightarrow> Inl Out_of_range, s'))"

definition declare_parameter ::
  "'d platform \<Rightarrow> string \<Rightarrow> 'd parameter_value \<Rightarrow> 'd descriptor \<Rightarrow> bool \<Rightarrow> 'd node_parameters
   \<Rightarrow> (parameter_error + 'd parameter_value) \<times> 'd node_parameters" where
  "declare_parameter P name default_value d ignore_override s =
     declare_parameter_helper P name PARAMETER_NOT_SET default_value d ignore_override s"

definition declare_parameter_type ::
  "'d platform \<Rightarrow> string \<Rightarrow> parameter_type \<Rightarrow> 'd descriptor \<Rightarrow> bool \<Rightarrow> 'd node_parameters
   \<Rightarrow> (parameter_error + 'd parameter_value) \<times> 'd node_parameters" where
  "declare_parameter_type P name ty d ignore_override s =
     (if ty = PARAMETER_NOT_SET then (Inl Invalid_argument, s)
      else if dynamic_typing d then (Inl Invalid_argument, s)
      else declare_parameter_helper P name ty Not_set d ignore_override s)"

definition undeclare_parameter :: "string \<Rightarrow> 'd node_parameters \<Rightarrow> (parameter_error + unit) \<times> 'd node_parameters" where
  "undeclare_parameter name s =
     (case map_of (parameters s) name of
        None \<Rightarrow> (Inl Parameter_not_declared, s)
      | Some i \<Rightarrow>
          if read_only (descr i) then (Inl Parameter_immutable, s)
          else if \<not> dynamic_typing (descr i) then (Inl (Invalid_parameter_type []), s)
          else (Inr (), s\<lparr>parameters := erase name (parameters s)\<rparr>))"

definition has_parameter :: "string \<Rightarrow> 'd node_parameters \<Rightarrow> bool" where
  "has_parameter name s \<longleftrightarrow> map_of (parameters s) name \<noteq> None"

section \<open>Atomic setting\<close>

text \<open>The first loop: names and read-only parameters are checked, undeclared ones collected. A failed
  result ends the call as well as an exception does.\<close>

fun classify :: "'d node_parameters \<Rightarrow> 'd parameter list \<Rightarrow> 'd parameter list \<Rightarrow> (parameter_error + set_result) + 'd parameter list" where
  "classify s [] acc = Inr acc"
| "classify s ((name, v) # ps) acc =
     (if name = [] then Inl (Inl Invalid_parameters)
      else case map_of (parameters s) name of
        None \<Rightarrow>
          if allow_undeclared s then classify s ps (acc @ [(name, v)]) else Inl (Inl Parameter_not_declared)
      | Some i \<Rightarrow>
          if read_only (descr i) then Inl (Inr (failed (''parameter '' @ CHR 0x27 # name @ CHR 0x27 # '' cannot be set because it is read-only'')))
          else classify s ps acc)"

text \<open>Implicit declarations go to a staging area, without callbacks and ignoring overrides.\<close>

fun stage :: "'d platform \<Rightarrow> 'd node_parameters \<Rightarrow> 'd parameter list \<Rightarrow> (string, 'd parameter_info) omap \<Rightarrow> set_result \<Rightarrow> set_result \<times> (string, 'd parameter_info) omap" where
  "stage P s [] staged result = (result, staged)"
| "stage P s ((name, v) # ps) staged result =
     (case declare_parameter_common P name v (new_descriptor\<lparr>dynamic_typing := True\<rparr>) staged (parameter_overrides s) [] True of
        (r, staged', _) \<Rightarrow> if \<not> successful r then (r, staged') else stage P s ps staged' r)"

fun replace_first :: "string \<Rightarrow> 'd parameter_value \<Rightarrow> 'd parameter list \<Rightarrow> 'd parameter list" where
  "replace_first name v [] = []"
| "replace_first name v ((n, w) # ps) = (if n = name then (name, v) # ps else (n, w) # replace_first name v ps)"

definition parameters_to_set :: "'d platform \<Rightarrow> (string, 'd parameter_info) omap \<Rightarrow> 'd parameter list \<Rightarrow> 'd parameter list" where
  "parameters_to_set P staged ps =
     (if list_ex (\<lambda>(n, i). \<not> value_eq P (case map_of ps n of Some v \<Rightarrow> v | None \<Rightarrow> Not_set) (pvalue i)) staged
      then fold (\<lambda>(n, i). replace_first n (pvalue i)) staged ps else ps)"

text \<open>The declared parameters that lose their value and have to be undeclared; \<^term>\<open>None\<close> when one of
  them is statically typed.\<close>

fun to_undeclare :: "'d node_parameters \<Rightarrow> 'd parameter list \<Rightarrow> string list \<Rightarrow> string list option" where
  "to_undeclare s [] acc = Some acc"
| "to_undeclare s ((name, v) # ps) acc =
     (case map_of (parameters s) name of
        Some i \<Rightarrow>
          if v = Not_set \<and> pvalue i \<noteq> Not_set then
            (if \<not> dynamic_typing (descr i) then None else to_undeclare s ps (acc @ [name]))
          else to_undeclare s ps acc
      | None \<Rightarrow> to_undeclare s ps acc)"

text \<open>The last two loops, with their assertions: a failed one ends the process unless assertions are
  compiled out.\<close>

fun adopt_staged :: "'d platform \<Rightarrow> (string, 'd parameter_info) omap \<Rightarrow> (string, 'd parameter_info) omap \<Rightarrow> (string, 'd parameter_info) omap option" where
  "adopt_staged P [] infos = Some infos"
| "adopt_staged P ((n, i) # staged) infos =
     (if \<not> ndebug P \<and> (case map_of infos n of None \<Rightarrow> True | Some j \<Rightarrow> \<not> value_eq P (pvalue j) (pvalue i)) then None
      else adopt_staged P staged (put n i infos))"

fun undeclare_all :: "'d platform \<Rightarrow> string list \<Rightarrow> (string, 'd parameter_info) omap \<Rightarrow> (string, 'd parameter_info) omap option" where
  "undeclare_all P [] infos = Some infos"
| "undeclare_all P (n # ns) infos =
     (if \<not> ndebug P \<and> map_of infos n = None then None else undeclare_all P ns (erase n infos))"

definition set_parameters_atomically :: "'d platform \<Rightarrow> 'd parameter list \<Rightarrow> 'd node_parameters \<Rightarrow> (parameter_error + set_result) \<times> 'd node_parameters" where
  "set_parameters_atomically P ps s =
     (case classify s ps [] of
        Inl out \<Rightarrow> (out, s)
      | Inr to_be_declared \<Rightarrow>
          (case stage P s to_be_declared [] ok_result of
             (r0, staged) \<Rightarrow>
               if \<not> successful r0 then (Inr r0, s)
               else
                 let to_be_set = parameters_to_set P staged ps in
                 case to_undeclare s to_be_set [] of
                   None \<Rightarrow> (Inr (failed ''cannot undeclare a statically typed parameter''), s)
                 | Some gone \<Rightarrow>
                     (case set_parameters_atomically_common P to_be_set (parameters s) (set_callbacks s) (allow_undeclared s) of
                        (r, infos, cbs) \<Rightarrow>
                          if \<not> successful r then (Inr r, s\<lparr>parameters := infos, set_callbacks := cbs\<rparr>)
                          else
                            (case Option.bind (adopt_staged P staged infos) (undeclare_all P gone) of
                               None \<Rightarrow> (Inl Assertion_failed, s\<lparr>parameters := infos, set_callbacks := cbs\<rparr>)
                             | Some infos' \<Rightarrow> (Inr r, s\<lparr>parameters := infos', set_callbacks := cbs\<rparr>)))))"

fun set_parameters :: "'d platform \<Rightarrow> 'd parameter list \<Rightarrow> 'd node_parameters \<Rightarrow> (parameter_error + set_result list) \<times> 'd node_parameters" where
  "set_parameters P [] s = (Inr [], s)"
| "set_parameters P (p # ps) s =
     (case set_parameters_atomically P [p] s of
        (Inl e, s') \<Rightarrow> (Inl e, s')
      | (Inr r, s') \<Rightarrow> (case set_parameters P ps s' of (Inl e, s'') \<Rightarrow> (Inl e, s'') | (Inr rs, s'') \<Rightarrow> (Inr (r # rs), s'')))"

section \<open>Callback registration\<close>

text \<open>\<open>h\<close> is the address of the new handle. A handle expires when its owner drops it.\<close>

definition add_on_set_parameters_callback :: "nat \<Rightarrow> ('d parameter list \<Rightarrow> set_result) \<Rightarrow> 'd node_parameters \<Rightarrow> 'd node_parameters" where
  "add_on_set_parameters_callback h f s = s\<lparr>set_callbacks := Some (h, f) # set_callbacks s\<rparr>"

fun erase_callback :: "nat \<Rightarrow> 'd callbacks \<Rightarrow> 'd callbacks option" where
  "erase_callback h [] = None"
| "erase_callback h (c # cs) =
     (if map_option fst c = Some h then Some cs else map_option (Cons c) (erase_callback h cs))"

definition remove_on_set_parameters_callback :: "nat \<Rightarrow> 'd node_parameters \<Rightarrow> (parameter_error + unit) \<times> 'd node_parameters" where
  "remove_on_set_parameters_callback h s =
     (case erase_callback h (set_callbacks s) of
        None \<Rightarrow> (Inl Callback_does_not_exist, s)
      | Some cs \<Rightarrow> (Inr (), s\<lparr>set_callbacks := cs\<rparr>))"

definition expire_callback :: "nat \<Rightarrow> 'd node_parameters \<Rightarrow> 'd node_parameters" where
  "expire_callback h s = s\<lparr>set_callbacks := map (\<lambda>c. if map_option fst c = Some h then None else c) (set_callbacks s)\<rparr>"

section \<open>Construction\<close>

text \<open>The sources are the parameters that the global and then the local arguments hold for this node;
  \<^term>\<open>None\<close> when there are no such arguments or they cannot be read.\<close>

definition resolve_parameter_overrides :: "'d parameter list option list \<Rightarrow> 'd parameter list \<Rightarrow> (string, 'd parameter_value) omap" where
  "resolve_parameter_overrides sources given =
     fold (\<lambda>p. put (fst p) (snd p)) given
       (fold (\<lambda>src m. case src of None \<Rightarrow> m | Some ps \<Rightarrow> fold (\<lambda>p. put (fst p) (snd p)) ps m) sources [])"

fun automatically_declare :: "'d platform \<Rightarrow> (string, 'd parameter_value) omap \<Rightarrow> 'd node_parameters \<Rightarrow> (parameter_error + unit) \<times> 'd node_parameters" where
  "automatically_declare P [] s = (Inr (), s)"
| "automatically_declare P ((name, v) # os) s =
     (if has_parameter name s then automatically_declare P os s
      else case declare_parameter P name v (new_descriptor\<lparr>dynamic_typing := True\<rparr>) True s of
        (Inl e, s') \<Rightarrow> (Inl e, s')
      | (Inr _, s') \<Rightarrow> automatically_declare P os s')"

definition NodeParameters ::
  "'d platform \<Rightarrow> 'd parameter list \<Rightarrow> 'd parameter list option \<Rightarrow> 'd parameter list option \<Rightarrow> bool \<Rightarrow> bool \<Rightarrow> bool
   \<Rightarrow> (parameter_error + unit) \<times> 'd node_parameters" where
  "NodeParameters P given local_args global_args use_global allow automatically =
     (let s = \<lparr>parameters = [],
               parameter_overrides = resolve_parameter_overrides [if use_global then global_args else None, local_args] given,
               set_callbacks = [], allow_undeclared = allow\<rparr>
      in if automatically then automatically_declare P (parameter_overrides s) s else (Inr (), s))"

section \<open>Queries\<close>

definition lockless_get_parameter :: "'d node_parameters \<Rightarrow> string \<Rightarrow> parameter_error + 'd parameter" where
  "lockless_get_parameter s name =
     (case map_of (parameters s) name of
        Some i \<Rightarrow>
          if pvalue i \<noteq> Not_set \<or> dynamic_typing (descr i) then Inr (name, pvalue i) else Inl Parameter_uninitialized
      | None \<Rightarrow> if allow_undeclared s then Inr (name, Not_set) else Inl Parameter_not_declared)"

fun each :: "('a \<Rightarrow> parameter_error + 'b) \<Rightarrow> 'a list \<Rightarrow> parameter_error + 'b list" where
  "each f [] = Inr []"
| "each f (x # xs) =
     (case f x of Inl e \<Rightarrow> Inl e | Inr y \<Rightarrow> (case each f xs of Inl e \<Rightarrow> Inl e | Inr ys \<Rightarrow> Inr (y # ys)))"

definition get_parameters :: "string list \<Rightarrow> 'd node_parameters \<Rightarrow> parameter_error + 'd parameter list" where
  "get_parameters names s = each (lockless_get_parameter s) names"

definition get_parameter :: "string \<Rightarrow> 'd node_parameters \<Rightarrow> parameter_error + 'd parameter" where
  "get_parameter name s = lockless_get_parameter s name"

definition get_parameter_if_set :: "string \<Rightarrow> 'd node_parameters \<Rightarrow> 'd parameter option" where
  "get_parameter_if_set name s =
     (case map_of (parameters s) name of
        Some i \<Rightarrow> if pvalue i \<noteq> Not_set then Some (name, pvalue i) else None
      | None \<Rightarrow> None)"

definition starts_with :: "string \<Rightarrow> string \<Rightarrow> bool" where
  "starts_with p s \<longleftrightarrow> take (length p) s = p"

definition get_parameters_by_prefix :: "string \<Rightarrow> (string, 'd parameter) omap \<Rightarrow> 'd node_parameters \<Rightarrow> bool \<times> (string, 'd parameter) omap" where
  "get_parameters_by_prefix prefix out s =
     (let p = (if prefix = [] then prefix else prefix @ ''.'')
      in fold (\<lambda>(n, i) (ret, m).
            if starts_with p n \<and> length n > length p
            then (True, put (drop (length p) n) (d_name (descr i), pvalue i) m) else (ret, m))
          (parameters s) (False, out))"

definition describe_parameters :: "string list \<Rightarrow> 'd node_parameters \<Rightarrow> parameter_error + 'd descriptor list" where
  "describe_parameters names s =
     each (\<lambda>name. case map_of (parameters s) name of
         Some i \<Rightarrow> Inr (descr i)
       | None \<Rightarrow> if allow_undeclared s then Inr (new_descriptor\<lparr>d_name := name\<rparr>) else Inl Parameter_not_declared) names"

definition get_parameter_types :: "string list \<Rightarrow> 'd node_parameters \<Rightarrow> parameter_error + parameter_type list" where
  "get_parameter_types names s =
     each (\<lambda>name. case map_of (parameters s) name of
         Some i \<Rightarrow> Inr (get_type (pvalue i))
       | None \<Rightarrow> if allow_undeclared s then Inr PARAMETER_NOT_SET else Inl Parameter_not_declared) names"

definition separators :: "string \<Rightarrow> nat" where "separators s = length (filter (\<lambda>c. c = CHR ''.'') s)"

text \<open>\<open>DEPTH_RECURSIVE\<close> is 0.\<close>

definition listed :: "string list \<Rightarrow> u64 \<Rightarrow> string \<Rightarrow> bool" where
  "listed prefixes depth n \<longleftrightarrow>
     (let recursive = (prefixes = [] \<and> depth = 0);
          get_all = (prefixes = [] \<and> separators n < unat depth);
          prefix_matches = list_ex (\<lambda>prefix.
            n = prefix \<or>
            starts_with (prefix @ ''.'') n \<and> (depth = 0 \<or> separators (drop (length prefix + 1) n) < unat depth)) prefixes
      in recursive \<or> get_all \<or> prefix_matches)"

text \<open>The part of a name before its last separator.\<close>

fun parent_prefix :: "string \<Rightarrow> string option" where
  "parent_prefix [] = None"
| "parent_prefix (c # s) =
     (case parent_prefix s of
        Some p \<Rightarrow> Some (c # p)
      | None \<Rightarrow> if c = CHR ''.'' then Some [] else None)"

definition list_parameters :: "string list \<Rightarrow> u64 \<Rightarrow> 'd node_parameters \<Rightarrow> string list \<times> string list" where
  "list_parameters prefixes depth s =
     fold (\<lambda>(n, i) (names, ps).
         if \<not> listed prefixes depth n then (names, ps)
         else (names @ [n],
               (case parent_prefix n of
                  Some p \<Rightarrow> if p \<in> set ps then ps else ps @ [p]
                | None \<Rightarrow> ps)))
       (parameters s) ([], [])"

section \<open>Request handlers of the parameter services\<close>

text \<open>A handler catches some of the exceptions and answers with what it has; the others leave it.\<close>

definition on_get_parameters :: "string list \<Rightarrow> 'd node_parameters \<Rightarrow> parameter_error + 'd parameter_value list" where
  "on_get_parameters names s =
     (case get_parameters names s of
        Inr ps \<Rightarrow> Inr (map snd ps)
      | Inl e \<Rightarrow> if e = Parameter_not_declared \<or> e = Parameter_uninitialized then Inr [] else Inl e)"

definition on_get_parameter_types :: "string list \<Rightarrow> 'd node_parameters \<Rightarrow> parameter_error + parameter_type list" where
  "on_get_parameter_types names s =
     (case get_parameter_types names s of
        Inr ts \<Rightarrow> Inr ts
      | Inl e \<Rightarrow> if e = Parameter_not_declared then Inr [] else Inl e)"

definition not_declared_reason :: "string \<Rightarrow> string" where
  "not_declared_reason name = ''parameter '' @ CHR 0x27 # name @ CHR 0x27 # '' cannot be set because it was not declared''"

fun on_set_parameters :: "'d platform \<Rightarrow> 'd parameter list \<Rightarrow> 'd node_parameters \<Rightarrow> (parameter_error + set_result list) \<times> 'd node_parameters" where
  "on_set_parameters P [] s = (Inr [], s)"
| "on_set_parameters P (p # ps) s =
     (case set_parameters_atomically P [p] s of
        (out, s') \<Rightarrow>
          (case (case out of Inl e \<Rightarrow> if e = Parameter_not_declared then Inr (failed (not_declared_reason (fst p))) else Inl e
                 | Inr r \<Rightarrow> Inr r) of
             Inl e \<Rightarrow> (Inl e, s')
           | Inr r \<Rightarrow> (case on_set_parameters P ps s' of (Inl e, s'') \<Rightarrow> (Inl e, s'') | (Inr rs, s'') \<Rightarrow> (Inr (r # rs), s''))))"

definition on_set_parameters_atomically :: "'d platform \<Rightarrow> 'd parameter list \<Rightarrow> 'd node_parameters \<Rightarrow> (parameter_error + set_result) \<times> 'd node_parameters" where
  "on_set_parameters_atomically P ps s =
     (case set_parameters_atomically P ps s of
        (Inl e, s') \<Rightarrow>
          (if e = Parameter_not_declared then Inr (failed ''One or more parameters were not declared before setting'') else Inl e, s')
      | (Inr r, s') \<Rightarrow> (Inr r, s'))"

definition on_describe_parameters :: "string list \<Rightarrow> 'd node_parameters \<Rightarrow> parameter_error + 'd descriptor list" where
  "on_describe_parameters names s =
     (case describe_parameters names s of
        Inr ds \<Rightarrow> Inr ds
      | Inl e \<Rightarrow> if e = Parameter_not_declared then Inr [] else Inl e)"

definition on_list_parameters :: "string list \<Rightarrow> u64 \<Rightarrow> 'd node_parameters \<Rightarrow> string list \<times> string list" where
  "on_list_parameters prefixes depth s = list_parameters prefixes depth s"

end
