(* ===== verification/Node_Parameters_Theorems.thy ===== *)
theory Node_Parameters_Theorems
  imports Complex_Main Node_Parameters
begin

text \<open>
  Correctness of the node parameters: what an atomic set does, that it is all or nothing, and the
  invariant of the parameter table.
\<close>

section \<open>Validation\<close>

definition implicit_descriptor :: "'d descriptor" where
  "implicit_descriptor = new_descriptor\<lparr>dynamic_typing := True\<rparr>"

definition in_range :: "'d platform \<Rightarrow> 'd descriptor \<Rightarrow> 'd parameter_value \<Rightarrow> bool" where
  "in_range P d v \<longleftrightarrow> successful (check_parameter_value_in_range P d v)"

definition complies :: "'d platform \<Rightarrow> 'd descriptor \<Rightarrow> 'd parameter_value \<Rightarrow> bool" where
  "complies P d v \<longleftrightarrow> (dynamic_typing d \<or> d_type d = get_type v) \<and> in_range P d v"

definition descr_of :: "(string, 'd parameter_info) omap \<Rightarrow> string \<Rightarrow> 'd descriptor" where
  "descr_of infos n = (case map_of infos n of Some i \<Rightarrow> descr i | None \<Rightarrow> implicit_descriptor)"

lemma result_simps [simp]: "successful ok_result" "\<not> successful (failed r)"
  by (simp_all add: ok_result_def failed_def)

lemma in_range_name [simp]: "in_range P (d\<lparr>d_name := n\<rparr>) v = in_range P d v"
  unfolding in_range_def check_parameter_value_in_range_def
  by (auto split: list.splits parameter_value.splits prod.splits)

lemma in_range_type [simp]: "in_range P (d\<lparr>d_type := t\<rparr>) v = in_range P d v"
  unfolding in_range_def check_parameter_value_in_range_def
  by (auto split: list.splits parameter_value.splits prod.splits)

lemma in_range_not_set [simp]: "in_range P d Not_set"
  unfolding in_range_def check_parameter_value_in_range_def by (auto split: list.splits)

lemma in_range_implicit [simp]: "in_range P implicit_descriptor v"
  unfolding in_range_def check_parameter_value_in_range_def implicit_descriptor_def new_descriptor_def by simp

text \<open>The check of an integer against its range is exact although it subtracts 64-bit words: the values
  from the lower bound up in whole steps, and both bounds.\<close>

lemma unat_signed_diff:
  fixes v w :: "64 word"
  assumes "sint w \<le> sint v"
  shows "unat (v - w) = nat (sint v - sint w)"
proof -
  have "uint (v - w) = (sint v - sint w) mod 2 ^ 64"
    using uint_word_of_int [of "sint v - sint w", where 'a = 64] by simp
  moreover have "sint v - sint w < 2 ^ 64" using sint_less [of v] sint_ge [of w] by simp
  ultimately show ?thesis using assms by (simp add: unat_eq_nat_uint)
qed

lemma integer_range_spec:
  assumes "integer_range d = (from, to, step) # rest"
  shows "in_range P d (Integer v) \<longleftrightarrow> v = from \<or> v = to \<or>
    sint from \<le> sint v \<and> sint v \<le> sint to \<and> (step = 0 \<or> uint step dvd sint v - sint from)"
proof -
  have "(v - from) mod step = 0 \<longleftrightarrow> uint step dvd sint v - sint from" if "sint from \<le> sint v"
  proof -
    have "(v - from) mod step = 0 \<longleftrightarrow> unat (v - from) mod unat step = 0" by (metis unat_mod unat_eq_zero)
    also have "\<dots> \<longleftrightarrow> int (unat step) dvd int (unat (v - from))" by (simp only: int_dvd_int_iff mod_eq_0_iff_dvd)
    also have "\<dots> \<longleftrightarrow> uint step dvd sint v - sint from" using that by (simp only: unat_signed_diff int_nat_eq uint_nat [symmetric]) simp
    finally show ?thesis .
  qed
  then show ?thesis
    by (auto simp: in_range_def check_parameter_value_in_range_def assms word_sless_alt)
qed

lemma complies_implicit [simp]: "complies P implicit_descriptor v"
  by (simp add: complies_def) (simp add: implicit_descriptor_def)

lemma check_parameter_known:
  assumes "allow \<or> map_of infos (fst p) \<noteq> None"
  shows "snd (check_parameter P allow infos p) = infos"
    and "successful (fst (check_parameter P allow infos p)) \<longleftrightarrow> complies P (descr_of infos (fst p)) (snd p)"
proof -
  obtain n v where p: "p = (n, v)" by (cases p)
  let ?d = "case map_of infos n of Some i \<Rightarrow> descr i | None \<Rightarrow> new_descriptor\<lparr>dynamic_typing := True\<rparr>"
  let ?d' = "if d_name ?d = [] then ?d\<lparr>d_name := n\<rparr> else ?d"
  have eq: "check_parameter P allow infos p =
      (if dynamic_typing ?d' \<or> d_type ?d' = get_type v then (check_parameter_value_in_range P ?d' v, infos)
       else (failed (format_type_reason n (type_name P (d_type ?d')) (type_name P (get_type v))), infos))"
    using assms by (simp add: check_parameter_def p Let_def)
  have d: "?d = descr_of infos n" by (simp add: descr_of_def implicit_descriptor_def split: option.splits)
  show "snd (check_parameter P allow infos p) = infos" by (simp add: eq)
  show "successful (fst (check_parameter P allow infos p)) \<longleftrightarrow> complies P (descr_of infos (fst p)) (snd p)"
    unfolding eq d complies_def by (auto simp: p simp flip: in_range_def)
qed

lemma check_parameters_known:
  assumes "\<forall>p\<in>set ps. allow \<or> map_of infos (fst p) \<noteq> None" "successful r0"
  shows "snd (check_parameters P allow infos ps r0) = infos
    \<and> (successful (fst (check_parameters P allow infos ps r0)) \<longleftrightarrow> (\<forall>p\<in>set ps. complies P (descr_of infos (fst p)) (snd p)))"
  using assms
proof (induction ps arbitrary: r0)
  case (Cons p ps)
  have hd: "allow \<or> map_of infos (fst p) \<noteq> None" using Cons.prems(1) by (meson list.set_intros(1))
  obtain r where r: "check_parameter P allow infos p = (r, infos)"
    using check_parameter_known(1) [OF hd, of P] by (cases "check_parameter P allow infos p") auto
  have s: "successful r \<longleftrightarrow> complies P (descr_of infos (fst p)) (snd p)"
    using check_parameter_known(2) [OF hd, of P] by (simp add: r)
  show ?case using Cons.IH [of r] Cons.prems(1) s by (auto simp: r)
qed simp

definition callbacks_accept :: "'d callbacks \<Rightarrow> 'd parameter list \<Rightarrow> bool" where
  "callbacks_accept cbs ps \<longleftrightarrow> (\<forall>c\<in>set cbs. case c of None \<Rightarrow> True | Some (h, f) \<Rightarrow> successful (f ps))"

lemma call_callbacks_successful:
  "successful r0 \<Longrightarrow> successful (fst (call_on_parameters_set_callbacks ps r0 cbs)) \<longleftrightarrow> callbacks_accept cbs ps"
  by (induction ps r0 cbs rule: call_on_parameters_set_callbacks.induct)
     (auto simp: callbacks_accept_def Let_def split: prod.splits)

text \<open>What \<open>set_parameters_atomically_common\<close> does when every name is known or may be undeclared.\<close>

lemma set_common_known:
  assumes "\<forall>p\<in>set ps. allow \<or> map_of infos (fst p) \<noteq> None"
  shows "\<exists>r cbs'. set_parameters_atomically_common P ps infos cbs allow
      = (r, if successful r then fold store_parameter ps infos else infos, cbs')
    \<and> (successful r \<longleftrightarrow> (\<forall>p\<in>set ps. complies P (descr_of infos (fst p)) (snd p)) \<and> callbacks_accept cbs ps)"
proof -
  obtain r where c: "check_parameters P allow infos ps ok_result = (r, infos)"
      and r: "successful r \<longleftrightarrow> (\<forall>p\<in>set ps. complies P (descr_of infos (fst p)) (snd p))"
    using check_parameters_known [OF assms, of ok_result P] by (cases "check_parameters P allow infos ps ok_result") auto
  obtain r' cbs' where cb: "call_on_parameters_set_callbacks ps ok_result cbs = (r', cbs')" by fastforce
  have r': "successful r' \<longleftrightarrow> callbacks_accept cbs ps" using call_callbacks_successful [of ok_result ps cbs] cb by simp
  show ?thesis
    using r r' by (auto simp: set_parameters_atomically_common_def c cb)
qed

section \<open>The table\<close>

definition stored :: "string \<Rightarrow> 'd parameter_value \<Rightarrow> 'd parameter_info \<Rightarrow> 'd parameter_info" where
  "stored n v i = i\<lparr>descr := (descr i)\<lparr>d_name := n, d_type := get_type v\<rparr>, pvalue := v\<rparr>"

definition implicit_info :: "string \<Rightarrow> 'd parameter_value \<Rightarrow> 'd parameter_info" where
  "implicit_info n v = stored n v \<lparr>pvalue = Not_set, descr = implicit_descriptor\<rparr>"

lemma map_of_store [simp]:
  "map_of (store_parameter p infos) =
     (map_of infos)(fst p \<mapsto> stored (fst p) (snd p) (case map_of infos (fst p) of Some i \<Rightarrow> i | None \<Rightarrow> new_info))"
  by (cases p) (simp add: store_parameter_def stored_def Let_def)

lemma ascending_store: "ascending infos \<Longrightarrow> ascending (store_parameter p infos)"
  by (cases p) (simp add: store_parameter_def Let_def ascending_put)

lemma ascending_fold_store: "ascending infos \<Longrightarrow> ascending (fold store_parameter ps infos)"
  by (induction ps arbitrary: infos) (auto simp: ascending_store)

lemma fold_store_other: "n \<notin> fst ` set ps \<Longrightarrow> map_of (fold store_parameter ps infos) n = map_of infos n"
  by (induction ps arbitrary: infos) auto

lemma fold_store_distinct:
  assumes "distinct (map fst ps)" "map_of ps n = Some v"
  shows "map_of (fold store_parameter ps infos) n = Some (stored n v (case map_of infos n of Some i \<Rightarrow> i | None \<Rightarrow> new_info))"
  using assms
proof (induction ps arbitrary: infos)
  case (Cons p ps)
  show ?case
  proof (cases "fst p = n")
    case True
    then have "n \<notin> fst ` set ps" "v = snd p" using Cons.prems by (auto simp: fun_upd_def split: if_splits prod.splits)
    then show ?thesis using True fold_store_other [of n ps] by simp
  next
    case False
    then have "map_of ps n = Some v" "distinct (map fst ps)" using Cons.prems by (cases p; auto)+
    then show ?thesis using Cons.IH [of "store_parameter p infos"] False by simp
  qed
qed simp

section \<open>The steps of an atomic set\<close>

definition undeclared :: "'d node_parameters \<Rightarrow> 'd parameter list \<Rightarrow> 'd parameter list" where
  "undeclared s ps = filter (\<lambda>p. map_of (parameters s) (fst p) = None) ps"

definition settable :: "'d node_parameters \<Rightarrow> string \<Rightarrow> bool" where
  "settable s n \<longleftrightarrow> n \<noteq> [] \<and> (case map_of (parameters s) n of None \<Rightarrow> allow_undeclared s | Some i \<Rightarrow> \<not> read_only (descr i))"

lemma classify_spec:
  "if \<forall>p\<in>set ps. settable s (fst p) then classify s ps acc = Inr (acc @ undeclared s ps)
   else (\<exists>out. classify s ps acc = Inl out \<and> out \<noteq> Inl Assertion_failed \<and> (\<forall>r. out = Inr r \<longrightarrow> \<not> successful r))"
  by (induction s ps acc rule: classify.induct) (auto simp: settable_def undeclared_def split: option.splits if_splits)

lemma declare_implicit:
  "\<exists>r. declare_parameter_common P n v implicit_descriptor out overrides [] True = (r, put n (implicit_info n v) out, []) \<and> successful r"
proof (cases "v = Not_set")
  case True
  then show ?thesis
    by (auto simp: declare_parameter_common_def implicit_info_def stored_def implicit_descriptor_def Let_def split: option.splits)
next
  case False
  let ?i = "\<lparr>pvalue = Not_set, descr = implicit_descriptor\<rparr>"
  have known: "\<forall>p\<in>set [(n, v)]. False \<or> map_of [(n, ?i)] (fst p) \<noteq> None" by simp
  obtain r cbs where "set_parameters_atomically_common P [(n, v)] [(n, ?i)] [] False
      = (r, if successful r then fold store_parameter [(n, v)] [(n, ?i)] else [(n, ?i)], cbs)"
    and "successful r"
    using set_common_known [OF known, of P "[]"] by (auto simp: callbacks_accept_def descr_of_def)
  moreover have "cbs = []" using calculation
    by (auto simp: set_parameters_atomically_common_def split: prod.splits if_splits)
  ultimately show ?thesis using False
    by (auto simp: declare_parameter_common_def implicit_info_def Let_def split: option.splits)
qed

definition staging :: "'d parameter list \<Rightarrow> (string, 'd parameter_info) omap \<Rightarrow> (string, 'd parameter_info) omap" where
  "staging ps m = fold (\<lambda>p. put (fst p) (implicit_info (fst p) (snd p))) ps m"

lemma stage_spec:
  "successful r0 \<Longrightarrow> \<exists>r. stage P s ps m r0 = (r, staging ps m) \<and> successful r"
proof (induction ps arbitrary: m r0)
  case (Cons p ps)
  obtain n v where p: "p = (n, v)" by (cases p)
  obtain r where r: "declare_parameter_common P n v implicit_descriptor m (parameter_overrides s) [] True
      = (r, put n (implicit_info n v) m, [])" "successful r"
    using declare_implicit [of P n v m "parameter_overrides s"] by blast
  then show ?case
    using Cons.IH [of r "put n (implicit_info n v) m"] by (simp add: p staging_def implicit_descriptor_def)
qed (simp add: staging_def)

lemma staging_lookup:
  "map_of (staging ps m) = map_of m ++ map_of (rev (map (\<lambda>p. (fst p, implicit_info (fst p) (snd p))) ps))"
  unfolding staging_def by (rule om.lookup_fold_insert)

lemma ascending_staging: "ascending m \<Longrightarrow> ascending (staging ps m)"
  unfolding staging_def by (rule om.inv_fold_insert)

lemma replace_first_id: "map_of ps n = Some v \<Longrightarrow> replace_first n v ps = ps"
  by (induction n v ps rule: replace_first.induct) (auto split: if_splits)

lemma fold_replace_id:
  "\<forall>x\<in>set staged. map_of ps (fst x) = Some (pvalue (snd x)) \<Longrightarrow> fold (\<lambda>(n, i). replace_first n (pvalue i)) staged ps = ps"
  by (induction staged) (auto simp: replace_first_id split: prod.splits)

lemma pvalue_implicit [simp]: "pvalue (implicit_info n v) = v"
  by (simp add: implicit_info_def stored_def)

lemma undeclared_distinct: "distinct (map fst ps) \<Longrightarrow> distinct (map fst (undeclared s ps))"
  unfolding undeclared_def by (rule distinct_map_filter_key)

lemma map_of_rev_distinct: "distinct (map fst xs) \<Longrightarrow> map_of (rev xs) = map_of xs"
  by (rule map_of_inject_set [THEN iffD2]) (auto simp: rev_map [symmetric])

lemma map_of_undeclared: "map_of (undeclared s ps) n = (if map_of (parameters s) n = None then map_of ps n else None)"
  by (induction ps) (auto simp: undeclared_def)

lemma map_of_images: "map_of (map (\<lambda>p. (fst p, g (fst p) (snd p))) ps) n = map_option (g n) (map_of ps n)"
  by (induction ps) auto

lemma staging_undeclared:
  assumes "distinct (map fst ps)"
  shows "map_of (staging (undeclared s ps) []) n =
    (if map_of (parameters s) n = None then map_option (implicit_info n) (map_of ps n) else None)"
proof -
  let ?im = "map (\<lambda>p. (fst p, implicit_info (fst p) (snd p))) (undeclared s ps)"
  have "distinct (map fst ?im)" using undeclared_distinct [OF assms, of s] by (simp add: comp_def)
  then have "map_of (rev ?im) = map_of ?im" by (rule map_of_rev_distinct)
  then show ?thesis by (simp add: staging_lookup map_of_images map_of_undeclared)
qed

lemma parameters_to_set_distinct:
  assumes "distinct (map fst ps)"
  shows "parameters_to_set P (staging (undeclared s ps) []) ps = ps"
proof -
  let ?st = "staging (undeclared s ps) []"
  have "map_of ps (fst x) = Some (pvalue (snd x))" if "x \<in> set ?st" for x
  proof -
    have "ascending ?st" by (rule ascending_staging) (simp add: ascending_def)
    then have "map_of ?st (fst x) = Some (snd x)" using that by (simp add: ascending_distinct)
    then obtain z where "map_of ps (fst x) = Some z" "snd x = implicit_info (fst x) z"
      by (auto simp: staging_undeclared [OF assms] split: if_splits)
    then show ?thesis by simp
  qed
  then show ?thesis by (simp add: parameters_to_set_def fold_replace_id)
qed

definition loses_value :: "'d node_parameters \<Rightarrow> 'd parameter \<Rightarrow> bool" where
  "loses_value s p \<longleftrightarrow>
     snd p = Not_set \<and> (case map_of (parameters s) (fst p) of Some i \<Rightarrow> pvalue i \<noteq> Not_set | None \<Rightarrow> False)"

lemma to_undeclare_spec:
  "to_undeclare s ps acc =
     (if \<forall>p\<in>set ps. loses_value s p \<longrightarrow> dynamic_typing (descr_of (parameters s) (fst p))
      then Some (acc @ map fst (filter (loses_value s) ps)) else None)"
proof (induction ps arbitrary: acc)
  case (Cons p ps)
  obtain n v where p: "p = (n, v)" by (cases p)
  have "to_undeclare s (p # ps) acc =
      (if loses_value s p then (if dynamic_typing (descr_of (parameters s) n) then to_undeclare s ps (acc @ [n]) else None)
       else to_undeclare s ps acc)"
    by (cases "map_of (parameters s) n") (simp_all add: p loses_value_def descr_of_def)
  then show ?case using Cons.IH by (auto simp: p)
qed simp

lemma adopt_staged_spec:
  assumes "distinct (map fst staged)"
    and "ndebug P \<or> (\<forall>x\<in>set staged. \<exists>j. map_of infos (fst x) = Some j \<and> value_eq P (pvalue j) (pvalue (snd x)))"
  shows "adopt_staged P staged infos = Some (fold (\<lambda>x. put (fst x) (snd x)) staged infos)"
  using assms
proof (induction P staged infos rule: adopt_staged.induct)
  case (2 P n i staged infos)
  have ok: "\<not> (\<not> ndebug P \<and> (case map_of infos n of None \<Rightarrow> True | Some j \<Rightarrow> \<not> value_eq P (pvalue j) (pvalue i)))"
    using "2.prems"(2) by auto
  have "x \<in> set staged \<Longrightarrow> fst x \<noteq> n" for x using "2.prems"(1) by force
  then show ?case using 2 ok by auto
qed simp

lemma adopt_staged_fold:
  "adopt_staged P staged infos = Some infos' \<Longrightarrow> infos' = fold (\<lambda>x. put (fst x) (snd x)) staged infos"
  by (induction P staged infos rule: adopt_staged.induct) (auto split: if_splits)

lemma undeclare_all_spec:
  assumes "distinct ns" "ndebug P \<or> (\<forall>n\<in>set ns. map_of infos n \<noteq> None)"
  shows "undeclare_all P ns infos = Some (fold (\<lambda>n. erase n) ns infos)"
  using assms
proof (induction P ns infos rule: undeclare_all.induct)
  case (2 P n ns infos)
  have "ndebug P \<or> (\<forall>m\<in>set ns. map_of (erase n infos) m \<noteq> None)" using "2.prems" by auto
  then show ?case using 2 by auto
qed simp

lemma undeclare_all_fold:
  "undeclare_all P ns infos = Some infos' \<Longrightarrow> infos' = fold (\<lambda>n. erase n) ns infos"
  by (induction P ns infos rule: undeclare_all.induct) (auto split: if_splits)

section \<open>What an atomic set does\<close>

text \<open>The condition under which it is accepted, and the entry of a name that is set.\<close>

definition accepts :: "'d platform \<Rightarrow> 'd node_parameters \<Rightarrow> 'd parameter list \<Rightarrow> bool" where
  "accepts P s ps \<longleftrightarrow>
     (\<forall>p\<in>set ps. settable s (fst p) \<and> complies P (descr_of (parameters s) (fst p)) (snd p)
        \<and> (loses_value s p \<longrightarrow> dynamic_typing (descr_of (parameters s) (fst p))))
     \<and> callbacks_accept (set_callbacks s) ps"

definition updated :: "'d node_parameters \<Rightarrow> string \<Rightarrow> 'd parameter_value \<Rightarrow> 'd parameter_info option" where
  "updated s n v =
     (case map_of (parameters s) n of
        None \<Rightarrow> Some (implicit_info n v)
      | Some i \<Rightarrow> if v = Not_set \<and> pvalue i \<noteq> Not_set then None else Some (stored n v i))"

lemma settable_known: "settable s n \<Longrightarrow> allow_undeclared s \<or> map_of (parameters s) n \<noteq> None"
  by (auto simp: settable_def split: option.splits)

text \<open>The common part: when the names can be set, the outcome is that of validation and callbacks.\<close>

lemma set_atomically_unfold:
  assumes "\<forall>p\<in>set ps. settable s (fst p)"
  shows "set_parameters_atomically P ps s =
    (let st = staging (undeclared s ps) []; ps' = parameters_to_set P st ps in
     if \<forall>p\<in>set ps'. loses_value s p \<longrightarrow> dynamic_typing (descr_of (parameters s) (fst p))
     then case set_parameters_atomically_common P ps' (parameters s) (set_callbacks s) (allow_undeclared s) of
       (r, infos, cbs) \<Rightarrow>
         if \<not> successful r then (Inr r, s\<lparr>parameters := infos, set_callbacks := cbs\<rparr>)
         else (case Option.bind (adopt_staged P st infos) (undeclare_all P (map fst (filter (loses_value s) ps'))) of
                 None \<Rightarrow> (Inl Assertion_failed, s\<lparr>parameters := infos, set_callbacks := cbs\<rparr>)
               | Some infos' \<Rightarrow> (Inr r, s\<lparr>parameters := infos', set_callbacks := cbs\<rparr>))
     else (Inr (failed ''cannot undeclare a statically typed parameter''), s))"
proof -
  have c: "classify s ps [] = Inr (undeclared s ps)" using classify_spec [of ps s "[]"] assms by simp
  obtain r where "stage P s (undeclared s ps) [] ok_result = (r, staging (undeclared s ps) [])" "successful r"
    using stage_spec [of ok_result P s "undeclared s ps" "[]"] by auto
  then show ?thesis
    unfolding set_parameters_atomically_def to_undeclare_spec by (simp add: c Let_def) blast
qed

lemma not_settable_rejected:
  assumes "\<not> (\<forall>p\<in>set ps. settable s (fst p))"
  shows "\<exists>out. set_parameters_atomically P ps s = (out, s) \<and> out \<noteq> Inl Assertion_failed \<and> (\<forall>r. out = Inr r \<longrightarrow> \<not> successful r)"
  using classify_spec [of ps s "[]"] assms by (auto simp: set_parameters_atomically_def)

text \<open>The table after a successful call, in terms of what was there before.\<close>

lemma table_after_set:
  assumes d: "distinct (map fst ps)"
  shows "map_of (fold (\<lambda>n. erase n) (map fst (filter (loses_value s) ps))
      (fold (\<lambda>x. put (fst x) (snd x)) (staging (undeclared s ps) []) (fold store_parameter ps (parameters s)))) n
    = (case map_of ps n of None \<Rightarrow> map_of (parameters s) n | Some v \<Rightarrow> updated s n v)"
proof -
  let ?st = "staging (undeclared s ps) []"
  let ?mid = "fold (\<lambda>x. put (fst x) (snd x)) ?st (fold store_parameter ps (parameters s))"
  have "distinct (map fst ?st)" by (rule ascending_distinct [OF ascending_staging]) (simp add: ascending_def)
  then have rev: "map_of (rev ?st) = map_of ?st" by (rule map_of_rev_distinct)
  have mid: "map_of ?mid n = (case map_of ?st n of Some i \<Rightarrow> Some i | None \<Rightarrow> map_of (fold store_parameter ps (parameters s)) n)"
    by (simp add: om.lookup_fold_insert rev map_add_def split: option.splits)
  have gone: "n \<in> set (map fst (filter (loses_value s) ps)) \<longleftrightarrow> (\<exists>v. map_of ps n = Some v \<and> loses_value s (n, v))"
    using d by (auto simp: map_of_eq_Some_iff [OF d] image_iff)
  show ?thesis
  proof (cases "map_of ps n")
    case None
    then have "n \<notin> fst ` set ps" by (simp add: map_of_eq_None_iff)
    then show ?thesis using None gone mid
      by (simp add: om.lookup_fold_delete [where f = "\<lambda>n. n", simplified] staging_undeclared [OF d] fold_store_other)
  next
    case (Some v)
    have "map_of (fold store_parameter ps (parameters s)) n
        = Some (stored n v (case map_of (parameters s) n of Some i \<Rightarrow> i | None \<Rightarrow> new_info))"
      by (rule fold_store_distinct [OF d Some])
    then show ?thesis using Some gone mid
      by (simp add: om.lookup_fold_delete [where f = "\<lambda>n. n", simplified] staging_undeclared [OF d] updated_def loses_value_def split: option.splits)
  qed
qed

lemma set_atomically_rejected:
  assumes d: "distinct (map fst ps)" and no: "\<not> accepts P s ps"
  shows "\<exists>out s'. set_parameters_atomically P ps s = (out, s') \<and> parameters s' = parameters s
    \<and> out \<noteq> Inl Assertion_failed \<and> (\<forall>r. out = Inr r \<longrightarrow> \<not> successful r)"
proof (cases "\<forall>p\<in>set ps. settable s (fst p)")
  case True
  have same: "parameters_to_set P (staging (undeclared s ps) []) ps = ps" by (rule parameters_to_set_distinct [OF d])
  have known: "\<forall>p\<in>set ps. allow_undeclared s \<or> map_of (parameters s) (fst p) \<noteq> None"
    using True settable_known by blast
  obtain r cbs where c: "set_parameters_atomically_common P ps (parameters s) (set_callbacks s) (allow_undeclared s)
        = (r, if successful r then fold store_parameter ps (parameters s) else parameters s, cbs)"
      and r: "successful r \<longleftrightarrow> (\<forall>p\<in>set ps. complies P (descr_of (parameters s) (fst p)) (snd p)) \<and> callbacks_accept (set_callbacks s) ps"
    using set_common_known [OF known, of P "set_callbacks s"] by blast
  have "\<not> successful r" if "\<forall>p\<in>set ps. loses_value s p \<longrightarrow> dynamic_typing (descr_of (parameters s) (fst p))"
    using no that True by (auto simp: r accepts_def)
  then show ?thesis unfolding set_atomically_unfold [OF True] by (simp add: same c)
next
  case False
  then show ?thesis using not_settable_rejected [of ps s P] by auto
qed

lemma set_atomically_accepted:
  assumes d: "distinct (map fst ps)" and yes: "accepts P s ps"
    and eq: "ndebug P \<or> (\<forall>p\<in>set ps. value_eq P (snd p) (snd p))"
  shows "\<exists>r s'. set_parameters_atomically P ps s = (Inr r, s') \<and> successful r
    \<and> (\<forall>n. map_of (parameters s') n = (case map_of ps n of None \<Rightarrow> map_of (parameters s) n | Some v \<Rightarrow> updated s n v))"
proof -
  let ?st = "staging (undeclared s ps) []"
  let ?infos = "fold store_parameter ps (parameters s)"
  let ?gone = "map fst (filter (loses_value s) ps)"
  have ok: "\<forall>p\<in>set ps. settable s (fst p)" using yes by (auto simp: accepts_def)
  have same: "parameters_to_set P ?st ps = ps" by (rule parameters_to_set_distinct [OF d])
  have known: "\<forall>p\<in>set ps. allow_undeclared s \<or> map_of (parameters s) (fst p) \<noteq> None"
    using ok settable_known by blast
  obtain r cbs where c: "set_parameters_atomically_common P ps (parameters s) (set_callbacks s) (allow_undeclared s) = (r, ?infos, cbs)"
      and r: "successful r"
    using set_common_known [OF known, of P "set_callbacks s"] yes by (auto simp: accepts_def)
  have asc: "ascending ?st" by (rule ascending_staging) (simp add: ascending_def)
  have "\<exists>j. map_of ?infos (fst x) = Some j \<and> value_eq P (pvalue j) (pvalue (snd x))" if e: "\<forall>p\<in>set ps. value_eq P (snd p) (snd p)" and x: "x \<in> set ?st" for x
  proof -
    have "map_of ?st (fst x) = Some (snd x)" using asc x by (simp add: ascending_distinct)
    then obtain v where v: "map_of (parameters s) (fst x) = None" "map_of ps (fst x) = Some v" "snd x = implicit_info (fst x) v"
      by (auto simp: staging_undeclared [OF d] split: if_splits)
    then have "map_of ?infos (fst x) = Some (stored (fst x) v new_info)"
      using fold_store_distinct [OF d v(2), of "parameters s"] by simp
    moreover have "value_eq P v v" using e map_of_SomeD [OF v(2)] by fastforce
    ultimately show ?thesis by (simp add: v(3) stored_def)
  qed
  then have ad: "adopt_staged P ?st ?infos = Some (fold (\<lambda>x. put (fst x) (snd x)) ?st ?infos)"
    using eq by (intro adopt_staged_spec ascending_distinct [OF asc]) auto
  have "map_of (fold (\<lambda>x. put (fst x) (snd x)) ?st ?infos) n \<noteq> None" if "n \<in> set ?gone" for n
    using that d by (auto simp: om.lookup_fold_insert map_add_def fold_store_distinct split: option.splits)
  then have un: "undeclare_all P ?gone (fold (\<lambda>x. put (fst x) (snd x)) ?st ?infos)
      = Some (fold (\<lambda>n. erase n) ?gone (fold (\<lambda>x. put (fst x) (snd x)) ?st ?infos))"
    using d by (intro undeclare_all_spec) auto
  show ?thesis
    using yes unfolding set_atomically_unfold [OF ok]
    by (simp add: same c r ad un table_after_set [OF d] accepts_def)
qed

section \<open>The invariant of the table\<close>

definition wf_info :: "'d platform \<Rightarrow> string \<Rightarrow> 'd parameter_info \<Rightarrow> bool" where
  "wf_info P n i \<longleftrightarrow>
     n \<noteq> [] \<and> d_name (descr i) = n \<and> in_range P (descr i) (pvalue i) \<and>
     (if dynamic_typing (descr i) then d_type (descr i) = get_type (pvalue i)
      else d_type (descr i) \<noteq> PARAMETER_NOT_SET \<and> (pvalue i = Not_set \<or> get_type (pvalue i) = d_type (descr i)))"

definition np_inv :: "'d platform \<Rightarrow> 'd node_parameters \<Rightarrow> bool" where
  "np_inv P s \<longleftrightarrow> ascending (parameters s) \<and> ascending (parameter_overrides s)
     \<and> (\<forall>n i. map_of (parameters s) n = Some i \<longrightarrow> wf_info P n i)"

text \<open>An operation preserves the invariant and leaves read-only parameters alone.\<close>

definition sound_step :: "'d platform \<Rightarrow> 'd node_parameters \<Rightarrow> 'd node_parameters \<Rightarrow> bool" where
  "sound_step P s s' \<longleftrightarrow> (np_inv P s \<longrightarrow> np_inv P s')
     \<and> (\<forall>n i. map_of (parameters s) n = Some i \<and> read_only (descr i) \<longrightarrow> map_of (parameters s') n = Some i)"

lemma sound_refl [simp]: "sound_step P s s" by (simp add: sound_step_def)

lemma sound_trans: "sound_step P s t \<Longrightarrow> sound_step P t u \<Longrightarrow> sound_step P s u"
  unfolding sound_step_def by metis

lemma sound_same_table:
  "parameters s' = parameters s \<Longrightarrow> parameter_overrides s' = parameter_overrides s \<Longrightarrow> sound_step P s s'"
  by (simp add: sound_step_def np_inv_def)

subsection \<open>Entries\<close>

lemma wf_stored:
  "n \<noteq> [] \<Longrightarrow> complies P (descr i) v \<Longrightarrow> dynamic_typing (descr i) \<or> d_type (descr i) \<noteq> PARAMETER_NOT_SET \<Longrightarrow>
   wf_info P n (stored n v i)"
  by (auto simp: wf_info_def stored_def complies_def)

lemma complies_stored: "complies P (descr i) v \<Longrightarrow> complies P (descr (stored n v i)) w = complies P (descr i) w"
  by (auto simp: stored_def complies_def)

lemma wf_implicit: "n \<noteq> [] \<Longrightarrow> wf_info P n (implicit_info n v)"
  unfolding implicit_info_def by (rule wf_stored; simp) (simp add: implicit_descriptor_def)

lemma fold_store_wf:
  assumes "map_of infos n = Some i" "wf_info P n i" "\<forall>p\<in>set ps. fst p = n \<longrightarrow> complies P (descr i) (snd p)"
  shows "\<exists>j. map_of (fold store_parameter ps infos) n = Some j \<and> wf_info P n j"
  using assms
proof (induction ps arbitrary: infos i)
  case (Cons p ps)
  show ?case
  proof (cases "fst p = n")
    case True
    let ?j = "stored n (snd p) i"
    have c: "complies P (descr i) (snd p)" using Cons.prems True by simp
    have "wf_info P n ?j" using Cons.prems(2) c by (intro wf_stored) (auto simp: wf_info_def)
    then show ?thesis
      using Cons.IH [of "store_parameter p infos" ?j] Cons.prems(1,3) True by (simp add: complies_stored [OF c])
  next
    case False
    then show ?thesis using Cons.IH [of "store_parameter p infos" i] Cons.prems by simp
  qed
qed auto

lemma wf_put: "np_inv P s \<Longrightarrow> wf_info P n i \<Longrightarrow> np_inv P (s\<lparr>parameters := put n i (parameters s)\<rparr>)"
  by (auto simp: np_inv_def ascending_put)

subsection \<open>Declaring\<close>

lemma declare_common_wf:
  assumes "n \<noteq> []" "dynamic_typing d \<or> d_type d \<noteq> PARAMETER_NOT_SET"
  shows "\<exists>r out' cbs'. declare_parameter_common P n v d out overrides cbs ign = (r, out', cbs')
    \<and> (if successful r then \<exists>i. out' = put n i out \<and> wf_info P n i else out' = out)"
proof -
  define w where "w = (case map_of overrides n of Some v' \<Rightarrow> if ign then v else v' | None \<Rightarrow> v)"
  let ?i = "\<lparr>pvalue = Not_set, descr = d\<rparr>"
  show ?thesis
  proof (cases "w = Not_set")
    case True
    then show ?thesis using assms
      by (auto simp: declare_parameter_common_def Let_def wf_info_def simp flip: w_def)
  next
    case False
    have known: "\<forall>p\<in>set [(n, w)]. False \<or> map_of [(n, ?i)] (fst p) \<noteq> None" by simp
    obtain r cbs' where c: "set_parameters_atomically_common P [(n, w)] [(n, ?i)] cbs False
        = (r, if successful r then fold store_parameter [(n, w)] [(n, ?i)] else [(n, ?i)], cbs')"
      and r: "successful r \<longrightarrow> complies P d w"
      using set_common_known [OF known, of P cbs] by (auto simp: descr_of_def)
    have "successful r \<Longrightarrow> wf_info P n (stored n w ?i)" using r assms by (intro wf_stored) auto
    then show ?thesis using False
      by (auto simp: declare_parameter_common_def Let_def c simp flip: w_def)
  qed
qed

lemma declare_helper_sound: "sound_step P s (snd (declare_parameter_helper P n ty v d ign s))"
proof -
  let ?ty = "if ty = PARAMETER_NOT_SET then get_type v else ty"
  let ?d = "if dynamic_typing d then d else d\<lparr>d_type := ?ty\<rparr>"
  show ?thesis
  proof (cases "n = [] \<or> map_of (parameters s) n \<noteq> None \<or> \<not> dynamic_typing d \<and> ?ty = PARAMETER_NOT_SET")
    case True
    then show ?thesis by (auto simp: declare_parameter_helper_def Let_def)
  next
    case False
    then have nd: "n \<noteq> []" "dynamic_typing ?d \<or> d_type ?d \<noteq> PARAMETER_NOT_SET" by auto
    obtain r out' cbs' where dc: "declare_parameter_common P n v ?d (parameters s) (parameter_overrides s) (set_callbacks s) ign = (r, out', cbs')"
      and o: "if successful r then \<exists>i. out' = put n i (parameters s) \<and> wf_info P n i else out' = parameters s"
      using declare_common_wf [OF nd, of P v "parameters s" "parameter_overrides s" "set_callbacks s" ign] by blast
    have "snd (declare_parameter_helper P n ty v d ign s) = s\<lparr>parameters := out', set_callbacks := cbs'\<rparr>"
      using False dc by (auto simp: declare_parameter_helper_def Let_def)
    then show ?thesis using False o
      by (auto simp: sound_step_def np_inv_def ascending_put split: if_splits)
  qed
qed

lemma declare_sound: "sound_step P s (snd (declare_parameter P n v d ign s))"
  unfolding declare_parameter_def by (rule declare_helper_sound)

lemma declare_type_sound: "sound_step P s (snd (declare_parameter_type P n ty d ign s))"
  by (simp add: declare_parameter_type_def declare_helper_sound)

lemma automatically_declare_sound: "sound_step P s (snd (automatically_declare P os s))"
proof (induction P os s rule: automatically_declare.induct)
  case (2 P n v os s)
  let ?dp = "declare_parameter P n v (new_descriptor\<lparr>dynamic_typing := True\<rparr>) True s"
  have "sound_step P s (snd ?dp)" by (rule declare_sound)
  then show ?case using 2 by (cases ?dp) (auto split: sum.splits intro: sound_trans)
qed simp

lemma undeclare_sound: "sound_step P s (snd (undeclare_parameter n s))"
  by (auto simp: undeclare_parameter_def sound_step_def np_inv_def ascending_erase split: option.splits)

subsection \<open>Atomic setting, also with repeated names\<close>

lemma replace_first_names [simp]: "map fst (replace_first n v ps) = map fst ps"
  by (induction n v ps rule: replace_first.induct) auto

lemma parameters_to_set_names: "map fst (parameters_to_set P staged ps) = map fst ps"
proof -
  have "map fst (fold (\<lambda>(n, i). replace_first n (pvalue i)) staged ps) = map fst ps"
    by (induction staged arbitrary: ps) (auto split: prod.splits)
  then show ?thesis by (simp add: parameters_to_set_def)
qed

lemma staging_entry:
  "map_of (staging ps []) n = Some i \<Longrightarrow> n \<in> fst ` set ps \<and> (\<exists>v. i = implicit_info n v)"
  by (auto simp: staging_lookup dest!: map_of_SomeD)

lemma staging_covers: "n \<in> fst ` set ps \<Longrightarrow> map_of (staging ps []) n \<noteq> None"
  by (simp add: staging_lookup map_of_eq_None_iff image_image)

lemma staging_in: "(n, i) \<in> set (staging ps []) \<Longrightarrow> n \<in> fst ` set ps"
  using staging_entry [of ps n i] ascending_distinct [OF ascending_staging, of "[]" ps] by (simp add: ascending_def)

text \<open>What a successful atomic set leaves at a name.\<close>

lemma after_set:
  assumes inv: "np_inv P s" and ok: "\<forall>p\<in>set ps. settable s (fst p)"
    and names: "map fst ps' = map fst ps" and c: "\<forall>p\<in>set ps'. complies P (descr_of (parameters s) (fst p)) (snd p)"
    and i: "map_of (fold (\<lambda>x. put (fst x) (snd x)) (staging (undeclared s ps) []) (fold store_parameter ps' (parameters s))) n = Some i"
  shows "wf_info P n i"
proof -
  let ?st = "staging (undeclared s ps) []"
  have nm: "fst ` set ps' = fst ` set ps" using names by (metis list.set_map)
  have rev: "map_of (rev ?st) = map_of ?st"
    by (rule map_of_rev_distinct [OF ascending_distinct [OF ascending_staging]]) (simp add: ascending_def)
  have cases: "map_of ?st n = Some i \<or> map_of ?st n = None \<and> map_of (fold store_parameter ps' (parameters s)) n = Some i"
    using i by (simp add: om.lookup_fold_insert rev map_add_def split: option.splits)
  show ?thesis
  proof (cases "map_of ?st n")
    case (Some j)
    then have "n \<in> fst ` set ps" "\<exists>v. i = implicit_info n v"
      using staging_entry [of "undeclared s ps" n i] cases by (auto simp: undeclared_def)
    then show ?thesis using ok by (auto simp: settable_def intro: wf_implicit)
  next
    case None
    then have st: "map_of (fold store_parameter ps' (parameters s)) n = Some i" using cases by simp
    show ?thesis
    proof (cases "map_of (parameters s) n")
      case (Some j)
      then have "wf_info P n j" "\<forall>p\<in>set ps'. fst p = n \<longrightarrow> complies P (descr j) (snd p)"
        using inv c by (auto simp: np_inv_def descr_of_def)
      then show ?thesis using fold_store_wf [OF Some] st by fastforce
    next
      case undecl: None
      have "n \<notin> fst ` set ps" using None undecl staging_covers [of n "undeclared s ps"] by (force simp: undeclared_def)
      then show ?thesis using st undecl nm fold_store_other [of n ps' "parameters s"] by simp
    qed
  qed
qed

lemma set_atomically_sound:
  assumes na: "fst (set_parameters_atomically P ps s) \<noteq> Inl Assertion_failed"
  shows "sound_step P s (snd (set_parameters_atomically P ps s))"
proof (cases "\<forall>p\<in>set ps. settable s (fst p)")
  case False
  then show ?thesis using not_settable_rejected [of ps s P] by auto
next
  case True
  let ?st = "staging (undeclared s ps) []"
  define ps' where "ps' = parameters_to_set P ?st ps"
  let ?inf = "fold store_parameter ps' (parameters s)"
  let ?gone = "map fst (filter (loses_value s) ps')"
  have names: "map fst ps' = map fst ps" unfolding ps'_def by (rule parameters_to_set_names)
  then have nm: "fst ` set ps' = fst ` set ps" by (metis list.set_map)
  then have known: "\<forall>p\<in>set ps'. allow_undeclared s \<or> map_of (parameters s) (fst p) \<noteq> None"
    using True settable_known by (metis (no_types, lifting) imageE imageI)
  obtain r cbs where cm: "set_parameters_atomically_common P ps' (parameters s) (set_callbacks s) (allow_undeclared s)
        = (r, if successful r then ?inf else parameters s, cbs)"
      and r: "successful r \<longrightarrow> (\<forall>p\<in>set ps'. complies P (descr_of (parameters s) (fst p)) (snd p))"
    using set_common_known [OF known, of P "set_callbacks s"] by blast
  note unf = set_atomically_unfold [OF True, of P, unfolded Let_def, folded ps'_def]
  show ?thesis
  proof (cases "successful r \<and> (\<forall>p\<in>set ps'. loses_value s p \<longrightarrow> dynamic_typing (descr_of (parameters s) (fst p)))")
    case False
    then show ?thesis unfolding unf by (auto simp: cm intro!: sound_same_table)
  next
    case ok: True
    then obtain infos' where bind: "Option.bind (adopt_staged P ?st ?inf) (undeclare_all P ?gone) = Some infos'"
      using na unfolding unf by (auto simp: cm split: option.splits)
    then have infos': "infos' = fold (\<lambda>n. erase n) ?gone (fold (\<lambda>x. put (fst x) (snd x)) ?st ?inf)"
      by (auto simp: bind_eq_Some_conv dest!: adopt_staged_fold undeclare_all_fold)
    have res: "snd (set_parameters_atomically P ps s) = s\<lparr>parameters := infos', set_callbacks := cbs\<rparr>"
      unfolding unf using ok bind by (simp add: cm)
    have look: "map_of infos' n = (if n \<in> set ?gone then None else map_of (fold (\<lambda>x. put (fst x) (snd x)) ?st ?inf) n)" for n
      unfolding infos' by (simp add: om.lookup_fold_delete [where f = "\<lambda>n. n", simplified])
    have "np_inv P (s\<lparr>parameters := infos', set_callbacks := cbs\<rparr>)" if inv: "np_inv P s"
    proof -
      have "ascending infos'"
        using inv unfolding infos' np_inv_def by (intro om.inv_fold_delete om.inv_fold_insert ascending_fold_store) auto
      moreover have "wf_info P n i" if "map_of infos' n = Some i" for n i
        using that after_set [OF inv True names, of n i] r ok by (auto simp: look split: if_splits)
      ultimately show ?thesis using inv by (simp add: np_inv_def)
    qed
    moreover have "map_of infos' n = Some i" if "map_of (parameters s) n = Some i" "read_only (descr i)" for n i
    proof -
      have n: "n \<notin> fst ` set ps" using that True by (auto simp: settable_def)
      then have "n \<notin> set ?gone" "map_of ?inf n = Some i" using nm that fold_store_other [of n ps' "parameters s"] by auto
      moreover have "n \<notin> fst ` set (undeclared s ps)" using n by (auto simp: undeclared_def)
      then have "map_of (rev ?st) n = None" using staging_in [of n _ "undeclared s ps"] by (force simp: map_of_eq_None_iff)
      ultimately show ?thesis by (simp add: look om.lookup_fold_insert map_add_def)
    qed
    ultimately show ?thesis unfolding res by (simp add: sound_step_def)
  qed
qed

lemma set_parameters_sound:
  "fst (set_parameters P ps s) \<noteq> Inl Assertion_failed \<Longrightarrow> sound_step P s (snd (set_parameters P ps s))"
proof (induction P ps s rule: set_parameters.induct)
  case (2 P p ps s)
  obtain out s1 where o: "set_parameters_atomically P [p] s = (out, s1)" by fastforce
  have na: "out \<noteq> Inl Assertion_failed" using "2.prems" o by (auto split: sum.splits)
  then have s1: "sound_step P s s1" using set_atomically_sound [of P "[p]" s] o by simp
  show ?case
  proof (cases out)
    case (Inl e)
    then show ?thesis using s1 o by simp
  next
    case (Inr r)
    obtain out' s2 where o': "set_parameters P ps s1 = (out', s2)" by fastforce
    then have "out' \<noteq> Inl Assertion_failed" using "2.prems" o Inr by (auto split: sum.splits)
    then have "sound_step P s1 s2" using "2.IH" o Inr o' by auto
    then show ?thesis using s1 o o' Inr by (auto split: sum.splits intro: sound_trans)
  qed
qed simp

section \<open>Histories of a node\<close>

inductive np_step :: "'d platform \<Rightarrow> 'd node_parameters \<Rightarrow> 'd node_parameters \<Rightarrow> bool" for P where
  declare_value: "np_step P s (snd (declare_parameter P n v d ign s))"
| declare_typed: "np_step P s (snd (declare_parameter_type P n ty d ign s))"
| undeclare: "np_step P s (snd (undeclare_parameter n s))"
| set_each: "fst (set_parameters P ps s) \<noteq> Inl Assertion_failed \<Longrightarrow> np_step P s (snd (set_parameters P ps s))"
| set_all: "fst (set_parameters_atomically P ps s) \<noteq> Inl Assertion_failed \<Longrightarrow> np_step P s (snd (set_parameters_atomically P ps s))"
| automatic: "np_step P s (snd (automatically_declare P (parameter_overrides s) s))"
| add_callback: "np_step P s (add_on_set_parameters_callback h f s)"
| remove_callback: "np_step P s (snd (remove_on_set_parameters_callback h s))"
| drop_handle: "np_step P s (expire_callback h s)"

inductive np_reach :: "'d platform \<Rightarrow> 'd node_parameters \<Rightarrow> bool" for P where
  start: "NodeParameters P given local_args global_args use_global allow automatically = (Inr (), s) \<Longrightarrow> np_reach P s"
| step: "np_reach P s \<Longrightarrow> np_step P s s' \<Longrightarrow> np_reach P s'"

lemma np_step_sound: "np_step P s s' \<Longrightarrow> sound_step P s s'"
proof (induction rule: np_step.induct)
  case (add_callback s h f)
  then show ?case by (intro sound_same_table) (simp_all add: add_on_set_parameters_callback_def)
next
  case (remove_callback s h)
  then show ?case by (intro sound_same_table) (simp_all add: remove_on_set_parameters_callback_def split: option.splits)
next
  case (drop_handle s h)
  then show ?case by (intro sound_same_table) (simp_all add: expire_callback_def)
qed (simp_all add: declare_sound declare_type_sound undeclare_sound set_parameters_sound set_atomically_sound automatically_declare_sound)

lemma resolve_ascending: "ascending (resolve_parameter_overrides sources given)"
proof -
  have "ascending m \<Longrightarrow> ascending (fold (\<lambda>src m. case src of None \<Rightarrow> m | Some ps \<Rightarrow> fold (\<lambda>p. put (fst p) (snd p)) ps m) sources m)"
    for m :: "(string, 'a parameter_value) omap"
    by (induction sources arbitrary: m) (auto split: option.splits intro: om.inv_fold_insert)
  then show ?thesis unfolding resolve_parameter_overrides_def by (intro om.inv_fold_insert) (simp add: ascending_def)
qed

lemma np_reach_inv: "np_reach P s \<Longrightarrow> np_inv P s"
proof (induction rule: np_reach.induct)
  case (start given local_args global_args use_global allow automatically s)
  define s0 where "s0 = \<lparr>parameters = [],
      parameter_overrides = resolve_parameter_overrides [if use_global then global_args else None, local_args] given,
      set_callbacks = [], allow_undeclared = allow\<rparr>"
  have "np_inv P s0" by (simp add: s0_def np_inv_def resolve_ascending) (simp add: ascending_def)
  moreover have "sound_step P s0 s"
    using start automatically_declare_sound [of P s0 "parameter_overrides s0"]
    by (auto simp: NodeParameters_def Let_def simp flip: s0_def split: if_splits)
  ultimately show ?case by (simp add: sound_step_def)
next
  case (step s s')
  then show ?case using np_step_sound [of P s s'] by (simp add: sound_step_def)
qed

section \<open>Properties\<close>

text \<open>A node to evaluate on: doubles as real numbers, one statically typed parameter with a range, one
  read-only parameter, and a callback that accepts at most two parameters at a time.\<close>

definition demo_platform :: "real platform" where
  "demo_platform = \<lparr>fp_abs = abs, fp_add = (+), fp_sub = (-), fp_mul = (*), fp_div = (/), fp_round = (\<lambda>x. of_int (round x)),
     fp_le = (\<le>), fp_lt = (<), fp_is_zero = (\<lambda>x. x = 0), fp_epsilon = 1 / 2 ^ 52, fp_hundred = 100,
     value_eq = (=), type_name = (\<lambda>_. ''type''), ndebug = False\<rparr>"

definition demo_node :: "real node_parameters" where
  "demo_node =
     add_on_set_parameters_callback 1 (\<lambda>ps. \<lparr>successful = length ps \<le> 2, reason = ''too many''\<rparr>)
      (snd (declare_parameter demo_platform ''id'' (Integer 7) (new_descriptor\<lparr>read_only := True\<rparr>) False
        (snd (declare_parameter demo_platform ''speed'' (Integer 2) (new_descriptor\<lparr>integer_range := [(0, 10, 2)]\<rparr>) False
          (snd (NodeParameters demo_platform [] None None True True False))))))"

lemma demo_reach: "np_reach demo_platform demo_node"
proof -
  have "NodeParameters demo_platform [] None None True True False = (Inr (), snd (NodeParameters demo_platform [] None None True True False))"
    by (simp add: NodeParameters_def)
  then have "np_reach demo_platform (snd (NodeParameters demo_platform [] None None True True False))" by (rule np_reach.start)
  then show ?thesis unfolding demo_node_def by (intro np_reach.step [OF _ np_step.declare_value] np_reach.step [OF _ np_step.add_callback])
qed

lemma demo_parameters:
  "map_of (parameters demo_node) ''speed'' = Some \<lparr>pvalue = Integer 2, descr = new_descriptor\<lparr>d_name := ''speed'', d_type := PARAMETER_INTEGER, integer_range := [(0, 10, 2)]\<rparr>\<rparr>"
  "map_of (parameters demo_node) ''id'' = Some \<lparr>pvalue = Integer 7, descr = new_descriptor\<lparr>d_name := ''id'', d_type := PARAMETER_INTEGER, read_only := True\<rparr>\<rparr>"
  "map_of (parameters demo_node) ''mode'' = None"
  by code_simp+

text \<open>Claim C28. Setting several parameters at once is all or nothing. For a list without repeated names
  it succeeds exactly when every name is non-empty, declared or allowed to be undeclared and not
  read-only, every value has the declared type (unless the parameter is dynamically typed) and lies in
  the declared range, no statically typed parameter loses its value, and every live callback accepts.
  Then each listed parameter has its new value, is declared implicitly if it was not declared, or is
  undeclared if it loses its value, and every other parameter is as before. Otherwise no parameter
  changes, and no assertion fails. With assertions enabled the values have to be equal to themselves,
  which a NaN is not.\<close>

theorem set_parameters_all_or_nothing:
  assumes "distinct (map fst ps)"
    and "ndebug P \<or> (\<forall>p\<in>set ps. value_eq P (snd p) (snd p))"
  shows "if accepts P s ps
    then \<exists>r s'. set_parameters_atomically P ps s = (Inr r, s') \<and> successful r
      \<and> (\<forall>n. map_of (parameters s') n = (case map_of ps n of None \<Rightarrow> map_of (parameters s) n | Some v \<Rightarrow> updated s n v))
    else \<exists>out s'. set_parameters_atomically P ps s = (out, s') \<and> parameters s' = parameters s
      \<and> out \<noteq> Inl Assertion_failed \<and> (\<forall>r. out = Inr r \<longrightarrow> \<not> successful r)"
  using set_atomically_accepted [OF assms(1) _ assms(2)] set_atomically_rejected [OF assms(1)] by simp

theorem set_parameters_all_or_nothing_witness:
  "(\<exists>r s'. set_parameters_atomically demo_platform [(''speed'', Integer 4), (''mode'', String ''eco'')] demo_node = (Inr r, s')
      \<and> successful r \<and> map_option pvalue (map_of (parameters s') ''speed'') = Some (Integer 4)
      \<and> map_of (parameters s') ''mode'' = Some (implicit_info ''mode'' (String ''eco''))
      \<and> map_of (parameters s') ''id'' = map_of (parameters demo_node) ''id'')
   \<and> (\<exists>out s'. set_parameters_atomically demo_platform [(''mode'', String ''eco''), (''speed'', Integer 5)] demo_node = (out, s')
      \<and> parameters s' = parameters demo_node)"
proof -
  have "accepts demo_platform demo_node [(''speed'', Integer 4), (''mode'', String ''eco'')]" by code_simp
  moreover have "\<not> accepts demo_platform demo_node [(''mode'', String ''eco''), (''speed'', Integer 5)]" by code_simp
  moreover have "value_eq demo_platform = (=)" by (simp add: demo_platform_def)
  ultimately show ?thesis
    using set_parameters_all_or_nothing [of "[(''speed'', Integer 4), (''mode'', String ''eco'')]" demo_platform demo_node]
      set_parameters_all_or_nothing [of "[(''mode'', String ''eco''), (''speed'', Integer 5)]" demo_platform demo_node]
    by (fastforce simp: demo_parameters updated_def stored_def)
qed

text \<open>Claim C29. Whatever a node does with its parameters after its construction, the table is in key
  order, every parameter has a non-empty name that its descriptor repeats, its value lies in the
  range of its descriptor, a statically typed parameter has the declared type or no value yet, and a
  dynamically typed one has the type its descriptor reports; and no operation changes or removes a
  read-only parameter.\<close>

theorem parameter_table_well_formed:
  assumes "np_reach P s" "np_step P s s'"
  shows "ascending (parameters s') \<and> (\<forall>n i. map_of (parameters s') n = Some i \<longrightarrow> wf_info P n i)
    \<and> (\<forall>n i. map_of (parameters s) n = Some i \<and> read_only (descr i) \<longrightarrow> map_of (parameters s') n = Some i)"
  using np_reach_inv [OF np_reach.step [OF assms]] np_step_sound [OF assms(2)] by (auto simp: np_inv_def sound_step_def)

theorem parameter_table_well_formed_witness:
  "map_of (parameters (snd (set_parameters_atomically demo_platform [(''id'', Integer 8)] demo_node))) ''id''
     = map_of (parameters demo_node) ''id''"
proof -
  have "fst (set_parameters_atomically demo_platform [(''id'', Integer 8)] demo_node) \<noteq> Inl Assertion_failed" by code_simp
  then show ?thesis
    using parameter_table_well_formed [OF demo_reach np_step.set_all, of "[(''id'', Integer 8)]"]
    by (auto simp: demo_parameters new_descriptor_def)
qed

section \<open>A repeated name\<close>

text \<open>A list that removes the value of the same declared parameter twice passes validation and then runs
  into the assertion that the parameter to be undeclared is still in the table.\<close>

definition demo_dynamic :: "real node_parameters" where
  "demo_dynamic = snd (declare_parameter demo_platform ''mode'' (String ''eco'') (new_descriptor\<lparr>dynamic_typing := True\<rparr>) False
     (snd (NodeParameters demo_platform [] None None True False False)))"

lemma repeated_unset_fails:
  "fst (set_parameters_atomically demo_platform [(''mode'', Not_set)] demo_dynamic) = Inr ok_result"
  "fst (set_parameters_atomically demo_platform [(''mode'', Not_set), (''mode'', Not_set)] demo_dynamic) = Inl Assertion_failed"
  by code_simp+

end
