(* ===== verification/Kmod_Position.thy ===== *)
theory Kmod_Position
  imports Kmod_Held
begin

text \<open>
  The reading position of a subscriber never moves backwards, whatever the kernel module is asked to
  do in between, and an id is not given to another subscriber of the topic. Hence a subscriber gets
  each message at most once and in the order of publication.
\<close>

section \<open>Progress of a topic\<close>

text \<open>What decides whether an entry is deliverable: the entry's publisher, the publisher's process, domain and
  kind; and of a subscriber what never changes.\<close>

definition ekeys :: "entry_node list \<Rightarrow> (int \<times> int) set" where
  "ekeys es = (\<lambda>en. (entry_id en, en_publisher_id en)) ` set es"

definition pkey :: "publisher_info \<Rightarrow> int \<times> pid \<times> domain \<times> bool" where
  "pkey p = (pub_id p, pub_pid p, pub_domain_id p, pub_is_bridge p)"

definition skey :: "subscriber_info \<Rightarrow> int \<times> pid \<times> domain \<times> bool \<times> bool \<times> nat \<times> ctx option" where
  "skey s = (sub_id s, sub_pid s, sub_domain_id s, sub_is_bridge s, ignore_local_publications s, sub_qos_depth s, notify_ctx s)"

text \<open>The identifiers only grow; an endpoint whose identifier was already given out was there before, and a
  subscriber had read at most as much; unless the step publishes (\<open>f\<close>), every entry was there before.\<close>

definition prog :: "bool \<Rightarrow> topic_struct \<Rightarrow> topic_struct \<Rightarrow> bool" where
  "prog f t t' \<longleftrightarrow> current_pubsub_id t \<le> current_pubsub_id t' \<and> topic_rule t' = topic_rule t \<and>
     (f \<or> ekeys (entries t') \<subseteq> ekeys (entries t)) \<and>
     (\<forall>p'\<in>set (pub_info_htable t'). pub_id p' < current_pubsub_id t \<longrightarrow> pkey p' \<in> pkey ` set (pub_info_htable t)) \<and>
     (\<forall>s'\<in>set (sub_info_htable t'). sub_id s' < current_pubsub_id t \<longrightarrow>
        (\<exists>s\<in>set (sub_info_htable t). skey s = skey s' \<and> latest_received_entry_id s \<le> latest_received_entry_id s'))"

lemma pkey_id: "pkey p' \<in> pkey ` ps \<Longrightarrow> \<exists>p\<in>ps. pub_id p = pub_id p' \<and> pkey p' = pkey p"
  by (auto simp: pkey_def)

lemma prog_trans:
  assumes "prog f a b" "prog g b c"
  shows "prog (f \<or> g) a c"
  unfolding prog_def
proof (intro conjI ballI impI)
  fix p' assume p': "p' \<in> set (pub_info_htable c)" "pub_id p' < current_pubsub_id a"
  then have "pkey p' \<in> pkey ` set (pub_info_htable b)" using assms by (auto simp: prog_def)
  then obtain p where "p \<in> set (pub_info_htable b)" "pub_id p = pub_id p'" "pkey p' = pkey p" using pkey_id by blast
  then show "pkey p' \<in> pkey ` set (pub_info_htable a)" using assms(1) p'(2) by (auto simp: prog_def)
next
  fix s' assume s': "s' \<in> set (sub_info_htable c)" "sub_id s' < current_pubsub_id a"
  then obtain s where s: "s \<in> set (sub_info_htable b)" "skey s = skey s'" "latest_received_entry_id s \<le> latest_received_entry_id s'"
    using assms unfolding prog_def by (meson order_less_le_trans)
  have "sub_id s < current_pubsub_id a" using s(2) s'(2) by (simp add: skey_def)
  then obtain u where "u \<in> set (sub_info_htable a)" "skey u = skey s" "latest_received_entry_id u \<le> latest_received_entry_id s"
    using assms(1) s(1) unfolding prog_def by blast
  then show "\<exists>s\<in>set (sub_info_htable a). skey s = skey s' \<and> latest_received_entry_id s \<le> latest_received_entry_id s'"
    using s by (metis order_trans)
qed (use assms in \<open>auto simp: prog_def\<close>)

lemma prog_trans0: "prog False a b \<Longrightarrow> prog False b c \<Longrightarrow> prog False a c"
  using prog_trans [of False a b False c] by simp

lemma prog_weaken: "prog False t t' \<Longrightarrow> prog f t t'" by (simp add: prog_def)

text \<open>A step that adds no subscriber, and no publisher or entry other than new ones.\<close>

lemma prog_subset:
  "current_pubsub_id t \<le> current_pubsub_id t' \<Longrightarrow> topic_rule t' = topic_rule t \<Longrightarrow>
   f \<or> ekeys (entries t') \<subseteq> ekeys (entries t) \<Longrightarrow>
   pkey ` {p \<in> set (pub_info_htable t'). pub_id p < current_pubsub_id t} \<subseteq> pkey ` set (pub_info_htable t) \<Longrightarrow>
   set (sub_info_htable t') \<subseteq> set (sub_info_htable t) \<Longrightarrow> prog f t t'"
  by (auto simp: prog_def)

lemma prog_fewer:
  "current_pubsub_id t' = current_pubsub_id t \<Longrightarrow> topic_rule t' = topic_rule t \<Longrightarrow> ekeys (entries t') \<subseteq> ekeys (entries t) \<Longrightarrow>
   pkey ` set (pub_info_htable t') \<subseteq> pkey ` set (pub_info_htable t) \<Longrightarrow>
   set (sub_info_htable t') \<subseteq> set (sub_info_htable t) \<Longrightarrow> prog f t t'"
  by (auto simp: prog_def)

lemma prog_refl [simp]: "prog f t t" by (rule prog_subset) auto

lemma prog_refcnt [simp]: "prog f t (t\<lparr>wrapper_refcnt := n\<rparr>)" by (rule prog_subset) auto

lemma ekeys_mark [simp]: "ekeys (mark i X es) = ekeys es"
  by (induction es) (auto simp: ekeys_def mark_def)

lemma ekeys_upd:
  "(\<And>en. entry_id (f en) = entry_id en \<and> en_publisher_id (f en) = en_publisher_id en) \<Longrightarrow> ekeys (upd_key entry_id e f es) = ekeys es"
  by (induction es) (auto simp: upd_key_def ekeys_def)

lemma pkey_upd_num [simp]: "pkey (p\<lparr>entries_num := n\<rparr>) = pkey p" by (simp add: pkey_def)

lemma pkey_notify [simp]: "pkey (rebuild_notify_list r subs p) = pkey p" by (simp add: pkey_def rebuild_notify_list_def)

lemma pkeys_upd_key: "(\<And>p. pkey (f p) = pkey p) \<Longrightarrow> pkey ` set (upd_key pub_id i f ps) = pkey ` set ps"
  by (induction ps) (auto simp: upd_key_def)

lemma pkeys_like: "pubs_like ps ps' \<Longrightarrow> pkey ` set ps' \<subseteq> pkey ` set ps"
  by (fastforce simp: pubs_like_def)

lemma pkeys_rebuild [simp]: "pkey ` set (pub_info_htable (rebuild_all_notify_lists r t)) = pkey ` set (pub_info_htable t)"
  by (simp add: rebuild_all_notify_lists_def image_image)

lemma pkeys_grown: "list_all2 grown ps ps' \<Longrightarrow> pkey ` set ps' = pkey ` set ps"
  by (induction rule: list_all2_induct) (auto simp: pkey_def dest!: grown_fields)

lemma prog_map:
  assumes "current_pubsub_id t' = current_pubsub_id t" "topic_rule t' = topic_rule t" "ekeys (entries t') \<subseteq> ekeys (entries t)"
    and "pub_info_htable t' = pub_info_htable t" "sub_info_htable t' = map f (sub_info_htable t)"
    and "\<And>s. s \<in> set (sub_info_htable t) \<Longrightarrow> skey (f s) = skey s \<and> latest_received_entry_id s \<le> latest_received_entry_id (f s)"
  shows "prog g t t'"
  using assms by (fastforce simp: prog_def)

lemma prog_hand_out:
  assumes "out \<noteq> [] \<Longrightarrow> \<forall>u\<in>set (sub_info_htable t). sub_id u = sub_id s \<longrightarrow> latest_received_entry_id u \<le> entry_id (last out)"
  shows "prog f t (hand_out s out t)"
proof (cases "out = []")
  case False
  show ?thesis
    by (rule prog_map [where f = "\<lambda>u. if sub_id u = sub_id s then u\<lparr>latest_received_entry_id := entry_id (last out)\<rparr> else u"])
       (use False assms in \<open>auto simp: hand_out_def upd_key_def skey_def\<close>)
qed (simp add: hand_out_def)

lemma prog_entries_num:
  assumes "current_pubsub_id t' = current_pubsub_id t" "topic_rule t' = topic_rule t" "sub_info_htable t' = sub_info_htable t"
    and "pub_info_htable t' = upd_key pub_id i (\<lambda>p. p\<lparr>entries_num := g p\<rparr>) (pub_info_htable t)"
  shows "prog True t t'"
proof -
  have "pkey ` set (pub_info_htable t') = pkey ` set (pub_info_htable t)" unfolding assms(4) by (rule pkeys_upd_key) simp
  then show ?thesis by (intro prog_subset) (use assms in auto)
qed

lemma prog_publish:
  "insert_message_entry i a al t = (x, al', t1) \<Longrightarrow> prog True t t1"
  "release_msgs_to_meet_depth p t = (y, t2) \<Longrightarrow> prog True t t2"
  by (auto simp: insert_message_entry_def release_msgs_to_meet_depth_def Let_def upd_pub_def
      split: prod.splits if_splits intro: prog_entries_num prog_subset)

lemma pubsub_id_rebuild: "current_pubsub_id (rebuild_all_notify_lists r t) = current_pubsub_id t"
  by (simp add: rebuild_all_notify_lists_def)


lemma prog_insert_subscriber:
  "insert_subscriber_info bkt r dm q nctx al t = (x, al', t') \<Longrightarrow> prog f t t'"
proof (erule insert_subscriber_info_cases)
  fix ps assume t': "t' = link_subscriber bkt r dm q nctx (t\<lparr>pub_info_htable := ps\<rparr>)" and g: "list_all2 grown (pub_info_htable t) ps"
  have "set (sub_info_htable t') = insert (new_subscriber dm q nctx (current_pubsub_id t)
      (if sp_transient_local q then -1 else current_entry_id t)) (set (sub_info_htable t))"
    by (auto simp: t' link_subscriber_def Let_def tbl_simps)
  moreover have "current_pubsub_id t' = current_pubsub_id t + 1" "topic_rule t' = topic_rule t" "entries t' = entries t"
    by (simp_all add: t' link_subscriber_def Let_def rebuild_all_notify_lists_def)
  moreover have "pkey ` set (pub_info_htable t') = pkey ` set (pub_info_htable t)"
    using pkeys_grown [OF g] by (simp add: t' link_subscriber_def Let_def)
  ultimately show "prog f t t'" unfolding prog_def new_subscriber_def by auto
next
  fix ps assume "t' = t\<lparr>pub_info_htable := ps\<rparr>" "list_all2 grown (pub_info_htable t) ps"
  then show "prog f t t'" by (intro prog_fewer) (simp_all add: pkeys_grown)
qed

lemma prog_insert_publisher:
  "insert_publisher_info bkt r dm q al t = (x, al', t') \<Longrightarrow> prog f t t'"
proof -
  assume run: "insert_publisher_info bkt r dm q al t = (x, al', t')"
  have "pub_id p = current_pubsub_id t"
    if "reserve_notify_ctxs (new_publisher dm q (current_pubsub_id t)) n al2 = (y, al3, p)" for y n al2 al3 p
    using that by (auto simp: reserve_notify_ctxs_def new_publisher_def Let_def split: if_splits prod.splits)
  then have "pub_id (rebuild_notify_list r ss p) = current_pubsub_id t"
    if "reserve_notify_ctxs (new_publisher dm q (current_pubsub_id t)) n al2 = (y, al3, p)" for y n al2 al3 p ss
    using that by (auto simp: rebuild_notify_list_def)
  then show ?thesis
    using run by (auto simp: insert_publisher_info_def Let_def set_hash_add split: if_splits prod.splits sum.splits intro!: prog_subset)
qed

lemma prog_flags: "prog f t (t\<lparr>sub_info_htable := map (\<lambda>s. s\<lparr>need_mmap_update := b\<rparr>) (sub_info_htable t)\<rparr>)"
  by (rule prog_map [where f = "\<lambda>s. s\<lparr>need_mmap_update := b\<rparr>"]) (auto simp: skey_def)

lemma prog_flag: "prog f t (upd_sub i (\<lambda>s. s\<lparr>need_mmap_update := b\<rparr>) t)"
  by (rule prog_map [where f = "\<lambda>s. if sub_id s = i then s\<lparr>need_mmap_update := b\<rparr> else s"]) (auto simp: upd_key_def skey_def)

lemma pubsub_id_drop_publisher: "current_pubsub_id (drop_publisher i t) = current_pubsub_id t"
  by (simp add: drop_publisher_def Let_def upd_pub_def split: option.split)

lemma pubs_like_drop_publisher: "pubs_like (pub_info_htable t) (pub_info_htable (drop_publisher i t))"
  using pubs_like_upd pubs_like_trans [OF pubs_like_upd pubs_like_del]
  by (simp add: drop_publisher_def Let_def upd_pub_def split: option.split)

lemma prog_drop_publisher: "prog f t (drop_publisher i t)"
  by (rule prog_fewer) (auto simp: pubsub_id_drop_publisher ekeys_def pkeys_like [OF pubs_like_drop_publisher])

lemma prog_fold_drop: "prog False t (fold drop_publisher is t)"
proof (induction "is" arbitrary: t)
  case (Cons i "is")
  show ?case using prog_trans0 [OF prog_drop_publisher Cons.IH, of t i] by simp
qed simp

lemma drop_subscriber_refs_keys:
  "drop_subscriber_refs procs i ps es = (ps', es') \<Longrightarrow> pubs_like ps ps' \<and> ekeys es' \<subseteq> ekeys es"
proof (induction es arbitrary: ps ps' es')
  case (Cons en es)
  show ?case
    using Cons.prems Cons.IH pubs_like_trans [OF pubs_like_drop]
    by (auto simp: Let_def ekeys_def split: if_splits option.splits prod.splits) blast+
qed simp

lemma prog_drop_refs: "prog f t (drop_refs_of procs i t)"
proof -
  obtain ps es where r: "drop_subscriber_refs procs i (pub_info_htable t) (entries t) = (ps, es)" by fastforce
  show ?thesis
    using drop_subscriber_refs_keys [OF r] by (intro prog_fewer) (simp_all add: drop_refs_of_def r pkeys_like)
qed

lemma prog_drop_leaving: "prog False t (drop_leaving procs ls t)"
  unfolding drop_leaving_def
proof (induction ls arbitrary: t)
  case (Cons s ls)
  show ?case using prog_trans0 [OF prog_drop_refs Cons.IH, of t procs "sub_id s"] Cons.IH by simp
qed simp

lemma prog_rebuild: "prog f t (rebuild_all_notify_lists r t)"
  by (rule prog_fewer) (simp_all, simp_all add: pubsub_id_rebuild rebuild_all_notify_lists_def)

lemma prog_fewer_subs: "prog f t (t\<lparr>sub_info_htable := filter P (sub_info_htable t)\<rparr>)"
  by (rule prog_subset) auto

lemma prog_unlink: "prog f t (agnocast_unlink_subscriber_info r s t)"
  using prog_fewer_subs [of f t] prog_trans [OF prog_fewer_subs [of f t] prog_rebuild [of f]]
  by (simp add: agnocast_unlink_subscriber_info_def Let_def del_key_def)

lemma prog_pre_handlers:
  shows "prog False t (pre_handler_publisher_exit p t)"
    and "prog False t (pre_handler_subscriber_exit procs r p t)"
proof -
  show "prog False t (pre_handler_publisher_exit p t)" unfolding pre_handler_publisher_exit_def by (rule prog_fold_drop)
  show "prog False t (pre_handler_subscriber_exit procs r p t)"
    using prog_trans0 [OF prog_trans0 [OF prog_fewer_subs prog_rebuild] prog_drop_leaving]
    by (simp add: pre_handler_subscriber_exit_def Let_def drop_leaving_def)
qed

section \<open>Progress of the module\<close>

text \<open>Topic addresses are not reused; a topic that was there before has made progress.\<close>

definition kprog :: "bool \<Rightarrow> kstate \<Rightarrow> kstate \<Rightarrow> bool" where
  "kprog f k k' \<longleftrightarrow> next_topic k \<le> next_topic k' \<and>
     (\<forall>a t'. topics k' a = Some t' \<longrightarrow> a < next_topic k \<longrightarrow> (\<exists>t. topics k a = Some t \<and> prog f t t'))"

lemma kprog_trans:
  assumes "kprog f a b" "kprog f b c"
  shows "kprog f a c"
proof -
  have "\<exists>t. topics a n = Some t \<and> prog f t t'" if n: "topics c n = Some t'" "n < next_topic a" for n t'
  proof -
    obtain u where u: "topics b n = Some u" "prog f u t'" using assms n by (fastforce simp: kprog_def)
    then obtain t where "topics a n = Some t" "prog f t u" using assms(1) n(2) by (auto simp: kprog_def)
    then show ?thesis using prog_trans [OF _ u(2)] by fastforce
  qed
  then show ?thesis using assms by (auto simp: kprog_def)
qed

lemma kprog_weaken: "kprog False k k' \<Longrightarrow> kprog f k k'"
  using prog_weaken by (fastforce simp: kprog_def)

lemma kprog_same: "topics k' = topics k \<Longrightarrow> next_topic k' = next_topic k \<Longrightarrow> kprog f k k'"
  by (auto simp: kprog_def)

lemma kprog_set_topic:
  "topics k (wr_topic w) = Some t \<Longrightarrow> prog f t t' \<Longrightarrow> kprog f k (set_topic w t' k)"
  by (auto simp: kprog_def set_topic_def)

lemma kprog_release_if_empty: "topics k (wr_topic w) = Some t \<Longrightarrow> kprog False k (release_if_empty w k)"
  by (auto simp: kprog_def release_if_empty_def agnocast_release_topic_wrapper_def Let_def topic_of_def set_topic_def
      intro: prog_subset split: if_splits)

lemma kprog_update_mmap:
  assumes "topics k (wr_topic w) = Some t"
  shows "kprog False k (snd (update_mmap env w s cap al k))"
proof -
  have "next_topic (snd (update_mmap env w s cap al k)) = next_topic k"
    by (auto simp: update_mmap_def Let_def set_topic_def split: prod.splits sum.splits)
  then show ?thesis using update_mmap_topics [OF assms, of env s cap al] assms prog_flag by (auto simp: kprog_def split: if_splits)
qed

lemma kprog_add_topic:
  assumes inv: "kinv k" and run: "add_topic env name ns dm al k = (x, al', k1)"
  shows "kprog False k k1"
proof (cases "find_topic name ns dm k")
  case (Some w)
  then show ?thesis using run by (simp add: add_topic_def kprog_same)
next
  case None
  then show ?thesis
    using add_topic_cases [OF run None] by (auto simp: kprog_def kprog_same intro: prog_subset split: if_splits)
qed

lemma kprog_add_endpoint:
  assumes inv: "kinv k"
  shows "kprog False k (snd (agnocast_ioctl_add_subscriber env name ns q evfd al k))"
    and "kprog False k (snd (agnocast_ioctl_add_publisher env name ns p al k))"
proof -
  have add: "kprog False k (set_topic w t' k1)"
    if run: "add_topic env name ns dm al k = (Inr w, al1, k1)" and "prog False (topic_of k1 w) t'" for dm w al1 k1 t'
  proof -
    note A = add_topic_inv [OF inv run]
    note T = topic_of_ok(1) [OF A(1) conjunct1 [OF A(2) [OF refl]]]
    show ?thesis by (rule kprog_trans [OF kprog_add_topic [OF inv run] kprog_set_topic [OF T that(2)]])
  qed
  show "kprog False k (snd (agnocast_ioctl_add_subscriber env name ns q evfd al k))"
    using add kprog_add_topic [OF inv] prog_insert_subscriber
    by (auto simp: agnocast_ioctl_add_subscriber_def Let_def kprog_same split: sum.splits prod.splits)
  show "kprog False k (snd (agnocast_ioctl_add_publisher env name ns p al k))"
    using add kprog_add_topic [OF inv] prog_insert_publisher prog_trans0 [OF prog_insert_publisher prog_flags]
    by (auto simp: agnocast_ioctl_add_publisher_def Let_def kprog_same split: sum.splits prod.splits)
qed

lemma kprog_publish:
  assumes inv: "kinv k"
  shows "kprog True k (snd (agnocast_ioctl_publish_msg cur name ns i addr al k))"
proof (cases "find_topic_for_current cur name ns k")
  case (Some w)
  note W = found_topic [OF inv Some]
  show ?thesis
    using Some prog_publish(1) prog_trans [OF prog_publish(1) prog_publish(2), simplified]
    by (auto simp: agnocast_ioctl_publish_msg_def Let_def kprog_same split: option.splits sum.splits prod.splits
        intro!: kprog_set_topic [OF W(2)])
qed (simp add: agnocast_ioctl_publish_msg_def kprog_same)

lemma handed_after_position:
  assumes inv: "topic_inv t" and s: "s \<in> set (sub_info_htable t)" and out: "out \<noteq> []"
    and pos: "\<forall>en\<in>set out. latest_received_entry_id s \<le> entry_id en"
  shows "\<forall>u\<in>set (sub_info_htable t). sub_id u = sub_id s \<longrightarrow> latest_received_entry_id u \<le> entry_id (last out)"
proof -
  have "distinct (map sub_id (sub_info_htable t))" using inv by (auto simp: topic_inv_def inv_but_def ids_ok_def)
  then have "u = s" if "u \<in> set (sub_info_htable t)" "sub_id u = sub_id s" for u
    using that s by (auto simp: distinct_map inj_on_def)
  then show ?thesis using pos out by (metis last_in_set)
qed

lemma kprog_receive_take:
  assumes inv: "kinv k"
  shows "kprog False k (snd (agnocast_ioctl_receive_msg env cur name ns sid cap al k)) \<and>
    kprog False k (snd (agnocast_ioctl_take_msg env cur name ns sid same cap al k))"
proof (cases "find_topic_for_current cur name ns k")
  case (Some w)
  note W = found_topic [OF inv Some]
  let ?t = "topic_of k w"
  have upd: "kprog False k (snd (update_mmap env w s cap al (set_topic w t' k)))" if "prog False ?t t'" for s t'
    by (rule kprog_trans [OF kprog_set_topic [OF W(2) that] kprog_update_mmap [where t = t']]) simp
  show ?thesis
  proof (cases "find_subscriber_info sid ?t")
    case s: (Some s)
    have sin: "s \<in> set (sub_info_htable ?t)"
      using s find_subscriber_info_Some W(3) by (auto simp: topic_inv_def inv_but_def)
    let ?p = "proc_info_htable k" and ?r = "rule_of k ?t"
    have r: "prog False ?t (hand_out s (take n (recv_window ?p ?r s ?t)) ?t)" for n
    proof (rule prog_hand_out, rule handed_after_position [OF W(3) sin])
      show "\<forall>en\<in>set (take n (recv_window ?p ?r s ?t)). latest_received_entry_id s \<le> entry_id en"
        using recv_window_subset [of ?p ?r s ?t] set_take_subset [of n "recv_window ?p ?r s ?t"] by force
    qed
    have t: "prog False ?t (hand_out s [en] ?t)" if "take_window ?p ?r s same ?t = en # es" for en es
      using that take_window_subset [of ?p ?r s same ?t]
      by (intro prog_hand_out handed_after_position [OF W(3) sin]) auto
    have "kprog False k (snd (agnocast_ioctl_receive_msg env cur name ns sid cap al k))"
      using Some s upd [OF r]
      by (auto simp: agnocast_ioctl_receive_msg_def receive_msg_core_spec [OF W(3) sin] Let_def
          split: sum.splits prod.splits) (metis snd_conv)+
    moreover have "kprog False k (snd (agnocast_ioctl_take_msg env cur name ns sid same cap al k))"
      using Some s upd [OF t] upd [OF prog_refl]
      by (auto simp: agnocast_ioctl_take_msg_def take_msg_core_spec [OF W(3) sin] Let_def
          split: sum.splits prod.splits list.splits) (metis snd_conv)+
    ultimately show ?thesis by simp
  qed (use Some in \<open>simp add: agnocast_ioctl_receive_msg_def agnocast_ioctl_take_msg_def kprog_same\<close>)
qed (simp add: agnocast_ioctl_receive_msg_def agnocast_ioctl_take_msg_def kprog_same)

lemma kprog_release_reference:
  assumes inv: "kinv k"
  shows "kprog False k (snd (agnocast_ioctl_release_message_entry_reference cur name ns i e k))"
proof (cases "find_topic_for_current cur name ns k")
  case (Some w)
  note W = found_topic [OF inv Some]
  have "prog False (topic_of k w) (snd (release_reference_core i e (topic_of k w)))"
    by (rule prog_fewer) (auto simp: release_reference_core_def ekeys_upd split: option.splits)
  then show ?thesis
    using Some kprog_set_topic [OF W(2)]
    by (auto simp: agnocast_ioctl_release_message_entry_reference_def kprog_same split: prod.splits)
qed (simp add: agnocast_ioctl_release_message_entry_reference_def kprog_same)

lemma kprog_remove_endpoint:
  assumes inv: "kinv k"
  shows "kprog False k (snd (agnocast_ioctl_remove_publisher cur name ns i k))"
    and "kprog False k (snd (agnocast_ioctl_remove_subscriber cur name ns i k))"
proof -
  have rel: "kprog False k (release_if_empty w (set_topic w t' k))" if "topics k (wr_topic w) = Some t" "prog False t t'" for w t t'
    by (rule kprog_trans [OF kprog_set_topic [OF that] kprog_release_if_empty [where t = t']]) simp
  show "kprog False k (snd (agnocast_ioctl_remove_publisher cur name ns i k))"
  proof (cases "find_topic_for_current cur name ns k")
    case (Some w)
    note W = found_topic [OF inv Some]
    show ?thesis
      using Some rel [OF W(2) prog_drop_publisher]
      by (auto simp: agnocast_ioctl_remove_publisher_def Let_def kprog_same split: option.splits)
  qed (simp add: agnocast_ioctl_remove_publisher_def kprog_same)
  show "kprog False k (snd (agnocast_ioctl_remove_subscriber cur name ns i k))"
  proof (cases "find_topic_for_current cur name ns k")
    case (Some w)
    note W = found_topic [OF inv Some]
    show ?thesis
    proof (cases "find_subscriber_info i (topic_of k w)")
      case s: (Some s)
      note R = remove_subscriber_start [OF inv Some s]
      show ?thesis unfolding R(1)
        by (rule rel [OF W(2) prog_trans0 [OF prog_unlink prog_drop_refs]])
    qed (use Some in \<open>simp add: agnocast_ioctl_remove_subscriber_def kprog_same\<close>)
  qed (simp add: agnocast_ioctl_remove_subscriber_def kprog_same)
qed

lemma kprog_exit_wrapper:
  assumes inv: "kinv k" and w: "w \<in> set (topic_hashtable k)"
  shows "kprog False k (exit_wrapper p w k)"
proof -
  let ?t = "topic_of k w"
  let ?t1 = "pre_handler_publisher_exit p ?t"
  let ?t2 = "pre_handler_subscriber_exit (proc_info_htable k) (rule_of k ?t) p ?t1"
  note T = topic_of_ok [OF inv w]
  have ti: "topic_inv ?t" using T(2) by (simp add: topic_ok_def)
  note P = pre_handler_publisher_exit_inv [OF ti, where p = p]
  have "prog False ?t ?t2" by (rule prog_trans0 [OF prog_pre_handlers])
  then have "kprog False k (release_if_empty w (set_topic w ?t2 k))"
    by (rule kprog_trans [OF kprog_set_topic [OF T(1)] kprog_release_if_empty [where t = ?t2]]) simp
  then show ?thesis by (simp add: exit_wrapper_def Let_def)
qed

lemma kprog_exit_wrappers:
  "kinv k \<Longrightarrow> distinct ws \<Longrightarrow> set ws \<subseteq> set (topic_hashtable k) \<Longrightarrow> kprog False k (fold (exit_wrapper p) ws k)"
proof (induction ws arbitrary: k)
  case (Cons w ws)
  have w: "w \<in> set (topic_hashtable k)" using Cons.prems by simp
  note E = exit_wrapper_inv [OF Cons.prems(1) w, of p]
  have "set ws \<subseteq> set (topic_hashtable (exit_wrapper p w k))" using E(2) Cons.prems by auto
  then show ?case
    using kprog_trans [OF kprog_exit_wrapper [OF Cons.prems(1) w] Cons.IH [OF E(1)]] Cons.prems(2) by simp
qed (simp add: kprog_same)

lemma next_topic_untouched:
  "next_topic (snd (agnocast_ioctl_add_process env p ns rn dm al k)) = next_topic k"
  "next_topic (snd (agnocast_commit_exit_process ns gp cur k)) = next_topic k"
  "next_topic (snd (agnocast_ioctl_add_bridge env name p r2a ns al k)) = next_topic k"
  "next_topic (snd (agnocast_ioctl_remove_bridge name p r2a ns k)) = next_topic k"
  "next_topic (snd (agnocast_ioctl_add_domain_bridge env nf nt f t ns al k)) = next_topic k"
  "next_topic (snd (agnocast_ioctl_add_domain_bridge_prefix env pre f t ns al k)) = next_topic k"
  "next_topic (agnocast_ioctl_notify_bridge_shutdown p k) = next_topic k"
  "next_topic (snd (agnocast_ioctl_check_and_request_bridge_shutdown p ns k)) = next_topic k"
  "next_topic (snd (agnocast_ioctl_add_discovery_agent env p ns dm al k)) = next_topic k"
  "next_topic (snd (agnocast_ioctl_discovery_agent_should_exit p ns dm commit k)) = next_topic k"
proof -
  have ins: "next_topic (snd (insert_domain_rule env nf nt f t b ns al k)) = next_topic k" for nf nt b
    by (auto simp: insert_domain_rule_def Let_def split: prod.splits)
  have dir: "next_topic (set_rule_direction a b k) = next_topic k" for a b by (simp add: set_rule_direction_def)
  show "next_topic (snd (agnocast_ioctl_add_domain_bridge env nf nt f t ns al k)) = next_topic k"
    by (simp add: agnocast_ioctl_add_domain_bridge_def add_domain_rule_def ins dir Let_def split: option.splits)
  show "next_topic (snd (agnocast_ioctl_add_domain_bridge_prefix env pre f t ns al k)) = next_topic k"
    by (simp add: agnocast_ioctl_add_domain_bridge_prefix_def add_prefix_domain_rule_def ins dir Let_def
        split: option.splits sum.splits)
qed (auto simp: agnocast_ioctl_add_process_def agnocast_commit_exit_process_def
    agnocast_ioctl_add_bridge_def agnocast_ioctl_remove_bridge_def agnocast_ioctl_notify_bridge_shutdown_def
    agnocast_ioctl_check_and_request_bridge_shutdown_def agnocast_ioctl_add_discovery_agent_def
    agnocast_ioctl_discovery_agent_should_exit_def Let_def split: option.splits prod.splits)

lemma kprog_set_ros2:
  assumes inv: "kinv k"
  shows "kprog False k (snd (agnocast_ioctl_set_ros2_subscriber_num cur name ns n k))"
    and "kprog False k (snd (agnocast_ioctl_set_ros2_publisher_num cur name ns n k))"
proof -
  have "prog False (topic_of k w) (topic_of k w\<lparr>ros2_subscriber_num := n\<rparr>)"
    "prog False (topic_of k w) (topic_of k w\<lparr>ros2_publisher_num := n\<rparr>)" for w by (rule prog_fewer; simp)+
  then show "kprog False k (snd (agnocast_ioctl_set_ros2_subscriber_num cur name ns n k))"
    "kprog False k (snd (agnocast_ioctl_set_ros2_publisher_num cur name ns n k))"
    using kprog_set_topic [OF found_topic(2) [OF inv]]
    by (auto simp: agnocast_ioctl_set_ros2_subscriber_num_def agnocast_ioctl_set_ros2_publisher_num_def
        kprog_same split: option.splits)
qed

lemma next_topic_exit_wrapper: "next_topic (exit_wrapper p w k) = next_topic k"
  by (simp add: exit_wrapper_def release_if_empty_def agnocast_release_topic_wrapper_def set_topic_def Let_def)

lemma next_topic_exit_wrappers: "next_topic (fold (exit_wrapper p) ws k) = next_topic k"
  by (induction ws arbitrary: k) (auto simp: next_topic_exit_wrapper)

lemma kprog_process_exit:
  assumes inv: "kinv k"
  shows "kprog False k (agnocast_process_exit_cleanup p k)"
proof (cases "agnocast_find_process_info p (proc_info_htable k)")
  case (Some pr)
  obtain k2 where k2: "kinv k2" "topics k2 = topics k" "topic_hashtable k2 = topic_hashtable k"
    and e: "agnocast_process_exit_cleanup p k =
       (let k3 = fold (exit_wrapper p) (topic_hashtable k) k2
        in k3\<lparr>bridge_htable := filter (\<lambda>b. br_pid b \<noteq> p) (bridge_htable k3)\<rparr>)"
    using exit_start [OF inv Some] by metis
  have n: "next_topic (agnocast_process_exit_cleanup p k) = next_topic k"
    by (simp add: agnocast_process_exit_cleanup_def Let_def next_topic_exit_wrappers split: option.split)
  moreover have "next_topic (agnocast_process_exit_cleanup p k) = next_topic k2"
    by (simp add: e Let_def next_topic_exit_wrappers)
  moreover have "distinct (topic_hashtable k2)" using kinvD(1) [OF k2(1)] by (simp add: wrappers_ok_def distinct_map)
  then have "kprog False k2 (fold (exit_wrapper p) (topic_hashtable k) k2)"
    using kprog_exit_wrappers [OF k2(1)] k2(3) by simp
  ultimately show ?thesis by (simp add: kprog_def e Let_def k2(2))
qed (simp add: agnocast_process_exit_cleanup_def Let_def kprog_same)

lemma kstep_kprog_quiet:
  assumes inv: "kinv k" and op: "\<And>cur name ns i a al. op \<noteq> PublishMsg cur name ns i a al"
  shows "kprog False k (kstep env op k)"
proof (cases op)
  case (PublishMsg cur name ns i a al)
  then show ?thesis using op by blast
qed (simp_all add: kprog_same topics_untouched next_topic_untouched kprog_add_endpoint [OF inv]
       kprog_remove_endpoint [OF inv] kprog_receive_take [OF inv]
       kprog_release_reference [OF inv] kprog_set_ros2 [OF inv] kprog_process_exit [OF inv])

lemma kstep_kprog:
  assumes inv: "kinv k"
  shows "kprog True k (kstep env op k)"
proof (cases "\<exists>cur name ns i a al. op = PublishMsg cur name ns i a al")
  case True
  then show ?thesis using kprog_publish [OF inv] by auto
next
  case False
  then show ?thesis using kstep_kprog_quiet [OF inv] kprog_weaken by blast
qed

lemma run_kprog: "kinv k \<Longrightarrow> kprog True k (fold (kstep env) ops k)"
  by (induction ops arbitrary: k) (auto simp: kprog_same intro: kprog_trans [OF kstep_kprog] kstep_inv)

end
