(* ===== verification/Kmod_Theorems.thy ===== *)
theory Kmod_Theorems
  imports Kmod_Scenario
begin

text \<open>
  What the kernel module guarantees in every reachable state: no use of a freed topic, no
  message freed under a reader, complete notification, the exact result of publishing, receiving
  and taking, disjoint memory pools, one daemon and one bridge rule per scope.
\<close>

section \<open>Memory safety\<close>

text \<open>Claim C2. In every reachable state a topic wrapper points to a live topic whose reference
  counter is the number of wrappers that share it, and that topic satisfies its invariant
  (ordered entries, consistent counters, references only of registered subscribers).\<close>

theorem no_dangling_topic:
  assumes "reachable env k" and "w \<in> set (topic_hashtable k)"
  shows "\<exists>t. topics k (wr_topic w) = Some t \<and> topic_inv t \<and>
    wrapper_refcnt t = length (filter (\<lambda>w'. wr_topic w' = wr_topic w) (topic_hashtable k))"
  using topic_of_ok [OF reachable_kinv [OF assms(1)] assms(2)] by (auto simp: topic_ok_def refs_to_def)

theorem no_dangling_topic_witness:
  "\<exists>t. topics demo_recv (wr_topic demo_wrapper) = Some t \<and> topic_inv t \<and> entries t \<noteq> []"
proof -
  have "topic_hashtable demo_recv = [demo_wrapper]"
    by (simp add: demo_recv_def demo_sent_eq demo_ready_eq demo_topic_def demo_wrapper_def demo_entry_def demo_env_def keval)
  then have "\<exists>t. topics demo_recv (wr_topic demo_wrapper) = Some t \<and> topic_inv t"
    using no_dangling_topic [OF demo_recv_reachable, of demo_wrapper] by auto
  then show ?thesis using demo_recv_topic by (simp add: demo_wrapper_def)
qed



section \<open>Publishing\<close>

text \<open>Who is to be woken: a subscriber that wants notifications, of the publisher's domain or of one a
  bridge rule delivers to between ordinary endpoints, unless it ignores its own process and the
  publisher is there.\<close>

definition delivers :: "domain_bridge_rule option \<Rightarrow> domain \<Rightarrow> domain \<Rightarrow> bool" where
  "delivers r d e \<longleftrightarrow> (\<exists>ru. r = Some ru \<and> (d = domain_a ru \<and> e = domain_b ru \<and> a_to_b ru \<or> d = domain_b ru \<and> e = domain_a ru \<and> b_to_a ru))"

definition entitled :: "domain_bridge_rule option \<Rightarrow> publisher_info \<Rightarrow> subscriber_info \<Rightarrow> bool" where
  "entitled r p s \<longleftrightarrow> notify_ctx s \<noteq> None \<and>
     (sub_domain_id s = pub_domain_id p \<or>
      \<not> pub_is_bridge p \<and> \<not> sub_is_bridge s \<and> delivers r (pub_domain_id p) (sub_domain_id s)) \<and>
     (ignore_local_publications s \<longrightarrow> sub_pid s \<noteq> pub_pid p)"

lemma entitled_target: "entitled r p s \<longleftrightarrow> notify_target r p s"
  by (auto simp: entitled_def notify_target_def domain_delivery_allowed_def delivers_def split: option.splits)

lemma entitled_targets: "map (the \<circ> notify_ctx) (filter (entitled r p) subs) = notify_targets r subs p"
  by (simp add: notify_targets_def entitled_target [abs_def])

text \<open>The run of a publish that passes the checks.\<close>

lemma publish_run:
  assumes inv: "kinv k" and w: "find_topic_for_current cur name ns k = Some w"
    and p: "find_publisher_info i (topic_of k w) = Some p" and depth: "0 < pub_qos_depth p"
    and pr: "agnocast_find_process_info (pub_pid p) (proc_info_htable k) = Some pr"
    and addr: "mp_addr (mempool_entries k ! mempool_index pr) \<le> addr"
      "addr < mp_addr (mempool_entries k ! mempool_index pr) + mempool_size_bytes k"
    and al: "fst (kmalloc al)"
  defines "t \<equiv> topic_of k w"
  defines "es \<equiv> entries t @ [\<lparr>entry_id = current_entry_id t, en_publisher_id = i, msg_virtual_address = addr,
      referencing_subscribers = {}\<rparr>]"
  defines "v \<equiv> reclaimable i (entries_num p + 1 - pub_qos_depth p) MAX_RELEASE_NUM es"
  shows "\<exists>t2. agnocast_ioctl_publish_msg cur name ns i addr al k =
      (Inr \<lparr>ret_entry_id = current_entry_id t, ret_released_addrs = map msg_virtual_address v,
           ret_signalled = notify_targets (rule_of k t) (sub_info_htable t) p\<rparr>, set_topic w t2 k) \<and>
    entries t2 = filter (\<lambda>en. en \<notin> set v) es"
proof -
  note W = found_topic [OF inv w, folded t_def]
  note I = inv_butD [OF W(3) [unfolded topic_inv_def]]
  have pin: "p \<in> set (pub_info_htable t)" "pub_id p = i"
    using p find_publisher_info_Some [OF I(1)] by (auto simp: t_def)
  then have i: "i \<in> pub_ids t" by (auto simp: pub_ids_def)
  have num: "entries_num p = owned i (entries t)" using I(1) pin by (auto simp: pubs_fit_def)
  have note_p: "notify_ctxs p = notify_targets (rule_of k t) (sub_info_htable t) p"
    using W(4) pin(1) by (simp add: notify_ok_def)
  let ?t1 = "upd_pub i (\<lambda>p. p\<lparr>entries_num := entries_num p + 1\<rparr>)
     (t\<lparr>current_entry_id := current_entry_id t + 1, entries := es\<rparr>)"
  let ?p1 = "p\<lparr>entries_num := entries_num p + 1\<rparr>"
  have ins: "insert_message_entry i addr al t = (Inr (current_entry_id t), snd (kmalloc al), ?t1)"
    using insert_message_entry_ok [OF W(3) [unfolded topic_inv_def] i] al by (simp add: es_def)
  have inv1: "inv_but {} ?t1"
    using insert_message_entry_inv [OF W(3) [unfolded topic_inv_def] i, of addr al] ins by simp
  have p1: "find_publisher_info i ?t1 = Some ?p1"
    using p by (simp add: find_publisher_info_def find_upd_key t_def [symmetric])
  have "distinct es" using entries_distinct [OF inv_butD(4) [OF inv1]] by simp
  moreover have "entries_num p + 1 - pub_qos_depth p < owned i es" using depth by (simp add: es_def num)
  ultimately have loop: "release_loop i (entries_num p + 1 - pub_qos_depth p) 0 es =
      (True, map msg_virtual_address v, filter (\<lambda>en. en \<notin> set v) es)"
    by (simp add: release_loop_reclaims Let_def v_def)
  have v0: "v = []" if "entries_num p + 1 \<le> pub_qos_depth p" using that by (simp add: v_def)
  obtain t2 where rel: "release_msgs_to_meet_depth ?p1 ?t1 = (Inr (map msg_virtual_address v), t2)"
    "entries t2 = filter (\<lambda>en. en \<notin> set v) es"
  proof
    show "release_msgs_to_meet_depth ?p1 ?t1 =
        (Inr (map msg_virtual_address v), snd (release_msgs_to_meet_depth ?p1 ?t1))"
      "entries (snd (release_msgs_to_meet_depth ?p1 ?t1)) = filter (\<lambda>en. en \<notin> set v) es"
      using loop v0 pin(2)
      by (cases "entries_num p + 1 \<le> pub_qos_depth p"; simp add: release_msgs_to_meet_depth_def)+
  qed
  have "agnocast_ioctl_publish_msg cur name ns i addr al k =
      (Inr \<lparr>ret_entry_id = current_entry_id t, ret_released_addrs = map msg_virtual_address v,
           ret_signalled = notify_ctxs p\<rparr>, set_topic w t2 k)"
    using w p pr addr ins p1 rel(1) by (simp add: agnocast_ioctl_publish_msg_def Let_def t_def [symmetric] not_less)
  then show ?thesis using note_p rel(2) by auto
qed

text \<open>Claim C3. A publish of a registered publisher with a history depth of at least one, at an
  address inside its process's pool, succeeds unless the node cannot be allocated: it returns the
  next entry id, reports exactly the addresses of the unreferenced entries among the publisher's
  oldest ones beyond the depth (three at most), signals exactly the subscribers entitled to be
  woken, and the topic afterwards holds the old entries without the reported ones plus the new
  one. The returns marked unreachable in the code are unreachable.\<close>

theorem publish_spec:
  assumes "reachable env k" and w: "find_topic_for_current cur name ns k = Some w"
    and p: "find_publisher_info i (topic_of k w) = Some p" and depth: "0 < pub_qos_depth p"
    and pr: "agnocast_find_process_info (pub_pid p) (proc_info_htable k) = Some pr"
    and addr: "mp_addr (mempool_entries k ! mempool_index pr) \<le> addr"
      "addr < mp_addr (mempool_entries k ! mempool_index pr) + mempool_size_bytes k"
    and al: "fst (kmalloc al)"
  defines "t \<equiv> topic_of k w"
  defines "es \<equiv> entries t @ [\<lparr>entry_id = current_entry_id t, en_publisher_id = i, msg_virtual_address = addr,
      referencing_subscribers = {}\<rparr>]"
  defines "v \<equiv> reclaimable i (entries_num p + 1 - pub_qos_depth p) MAX_RELEASE_NUM es"
  shows "fst (agnocast_ioctl_publish_msg cur name ns i addr al k) =
      Inr \<lparr>ret_entry_id = current_entry_id t, ret_released_addrs = map msg_virtual_address v,
           ret_signalled = map (the \<circ> notify_ctx) (filter (entitled (rule_of k t) p) (sub_info_htable t))\<rparr> \<and>
    (\<exists>t'. topics (snd (agnocast_ioctl_publish_msg cur name ns i addr al k)) (wr_topic w) = Some t' \<and>
       entries t' = filter (\<lambda>en. en \<notin> set v) es)"
  using publish_run [OF reachable_kinv [OF assms(1)] w p depth pr addr al] unfolding t_def es_def v_def entitled_targets by auto

theorem publish_spec_witness:
  "fst (agnocast_ioctl_publish_msg 10 ''/t'' 0 0 0x40000000000 [] (demo_ready 1)) =
     Inr \<lparr>ret_entry_id = 0, ret_released_addrs = [], ret_signalled = [7]\<rparr>"
proof -
  let ?k = "demo_ready 1"
  have w: "find_topic_for_current 10 ''/t'' 0 ?k = Some demo_wrapper"
    by (simp add: demo_ready_eq demo_wrapper_def keval)
  have t: "topic_of ?k demo_wrapper = demo_topic 1" by (simp add: demo_ready_eq demo_wrapper_def topic_of_def)
  have p: "find_publisher_info 0 (topic_of ?k demo_wrapper) = Some (hd (pub_info_htable (demo_topic 1)))"
    unfolding t by (simp add: demo_topic_def find_publisher_info_def find_key_def)
  have pr: "agnocast_find_process_info (pub_pid (hd (pub_info_htable (demo_topic 1)))) (proc_info_htable ?k) =
      Some (hd (proc_info_htable ?k))"
    by (simp add: demo_ready_eq demo_topic_def agnocast_find_process_info_def find_key_def)
  have "fst (agnocast_ioctl_publish_msg 10 ''/t'' 0 0 0x40000000000 [] ?k) =
      Inr \<lparr>ret_entry_id = current_entry_id (demo_topic 1), ret_released_addrs = [],
        ret_signalled = notify_targets (rule_of ?k (demo_topic 1)) (sub_info_htable (demo_topic 1)) (hd (pub_info_htable (demo_topic 1)))\<rparr>"
    using publish_spec [OF demo_ready_reachable w p _ pr, of "0x40000000000" "[]"] unfolding t entitled_targets
    by (simp add: demo_topic_def demo_ready_eq)
  then show ?thesis by (simp add: demo_topic_def demo_ready_eq keval)
qed

lemma release_loop_last:
  "owned i es = 0 \<Longrightarrow> en_publisher_id en = i \<Longrightarrow> release_loop i (Suc n) 0 (es @ [en]) = (False, [], es @ [en])"
  by (induction es) (auto simp: MAX_RELEASE_NUM_def split: if_splits)

text \<open>A publisher whose history depth is zero cannot publish: its first message makes the
  ioctl fail with \<open>-ENODATA\<close>, the return the code marks as unreachable, although the entry has
  been inserted.\<close>

theorem depth_zero_publish_fails:
  assumes "reachable env k" and w: "find_topic_for_current cur name ns k = Some w"
    and p: "find_publisher_info i (topic_of k w) = Some p" and depth: "pub_qos_depth p = 0" "entries_num p = 0"
    and pr: "agnocast_find_process_info (pub_pid p) (proc_info_htable k) = Some pr"
    and addr: "mp_addr (mempool_entries k ! mempool_index pr) \<le> addr"
      "addr < mp_addr (mempool_entries k ! mempool_index pr) + mempool_size_bytes k"
    and al: "fst (kmalloc al)"
  shows "fst (agnocast_ioctl_publish_msg cur name ns i addr al k) = Inl ENODATA \<and>
    (\<exists>t'. topics (snd (agnocast_ioctl_publish_msg cur name ns i addr al k)) (wr_topic w) = Some t' \<and>
       length (entries t') = length (entries (topic_of k w)) + 1)"
proof -
  note inv = reachable_kinv [OF assms(1)]
  define t where "t = topic_of k w"
  note W = found_topic [OF inv w, folded t_def]
  note I = inv_butD [OF W(3) [unfolded topic_inv_def]]
  have pin: "p \<in> set (pub_info_htable t)" "pub_id p = i"
    using p find_publisher_info_Some [OF I(1)] by (auto simp: t_def)
  then have i: "i \<in> pub_ids t" by (auto simp: pub_ids_def)
  have none: "owned i (entries t) = 0" using I(1) pin depth(2) by (auto simp: pubs_fit_def)
  let ?en = "\<lparr>entry_id = current_entry_id t, en_publisher_id = i, msg_virtual_address = addr, referencing_subscribers = {}\<rparr>"
  let ?t1 = "upd_pub i (\<lambda>p. p\<lparr>entries_num := entries_num p + 1\<rparr>)
     (t\<lparr>current_entry_id := current_entry_id t + 1, entries := entries t @ [?en]\<rparr>)"
  let ?p1 = "p\<lparr>entries_num := entries_num p + 1\<rparr>"
  have ins: "insert_message_entry i addr al t = (Inr (current_entry_id t), snd (kmalloc al), ?t1)"
    using insert_message_entry_ok [OF W(3) [unfolded topic_inv_def] i] al by simp
  have p1: "find_publisher_info i ?t1 = Some ?p1"
    using p by (simp add: find_publisher_info_def find_upd_key t_def [symmetric])
  define t2 where "t2 = snd (release_msgs_to_meet_depth ?p1 ?t1)"
  have rel: "release_msgs_to_meet_depth ?p1 ?t1 = (Inl ENODATA, t2)" "entries t2 = entries t @ [?en]"
    using release_loop_last [OF none, of ?en 0] depth pin(2) by (simp_all add: release_msgs_to_meet_depth_def t2_def)
  have "agnocast_ioctl_publish_msg cur name ns i addr al k = (Inl ENODATA, set_topic w t2 k)"
    using w p pr addr ins p1 rel(1) by (simp add: agnocast_ioctl_publish_msg_def Let_def t_def [symmetric] not_less)
  then show ?thesis using rel(2) by (simp add: t_def)
qed

theorem depth_zero_publish_fails_witness:
  "fst (agnocast_ioctl_publish_msg 10 ''/t'' 0 0 0x40000000000 [] (demo_ready 0)) = Inl ENODATA"
proof -
  let ?k = "demo_ready 0"
  have w: "find_topic_for_current 10 ''/t'' 0 ?k = Some demo_wrapper"
    by (simp add: demo_ready_eq demo_wrapper_def keval)
  have t: "topic_of ?k demo_wrapper = demo_topic 0" by (simp add: demo_ready_eq demo_wrapper_def topic_of_def)
  have p: "find_publisher_info 0 (topic_of ?k demo_wrapper) = Some (hd (pub_info_htable (demo_topic 0)))"
    unfolding t by (simp add: demo_topic_def find_publisher_info_def find_key_def)
  have pr: "agnocast_find_process_info (pub_pid (hd (pub_info_htable (demo_topic 0)))) (proc_info_htable ?k) =
      Some (hd (proc_info_htable ?k))"
    by (simp add: demo_ready_eq demo_topic_def agnocast_find_process_info_def find_key_def)
  show ?thesis
    using depth_zero_publish_fails [OF demo_ready_reachable w p _ _ pr, of "0x40000000000" "[]"]
    by (simp add: demo_topic_def demo_ready_eq)
qed

section \<open>Receiving and taking\<close>

text \<open>The check at the end of receive and take, which maps the pools of publishers the subscriber has not mapped.
  \<open>hears\<close>: the publishers whose pools it needs.\<close>

definition hears :: "kstate \<Rightarrow> topic_wrapper \<Rightarrow> subscriber_info \<Rightarrow> publisher_info \<Rightarrow> process_info \<Rightarrow> bool" where
  "hears k w s p pr \<longleftrightarrow> sub_pid s \<noteq> pub_pid p \<and>
     domain_delivery_allowed (rule_of k (topic_of k w)) (pub_domain_id p) (pub_is_bridge p) (wr_domain_id w) (sub_is_bridge s) \<and>
     agnocast_find_process_info (pub_pid p) (proc_info_htable k) = Some pr \<and> \<not> exited pr"

text \<open>What the check may do to a state: nothing when the flag is down; otherwise it fails with one of three errors
  and leaves all topics alone, or it clears the flag, all pools needed are mapped, and the caller is told only about
  pools that were not mapped before. No mapping is ever lost.\<close>

definition mmap_outcome ::
  "kenv \<Rightarrow> topic_wrapper \<Rightarrow> subscriber_info \<Rightarrow> kstate \<Rightarrow> (pid \<times> u64 \<times> u64) list res \<times> kstate \<Rightarrow> bool" where
  "mmap_outcome env w s k out \<longleftrightarrow>
     (if \<not> need_mmap_update s then out = (Inr [], k)
      else (\<forall>i. mappers (mempool_entries k) i \<subseteq> mappers (mempool_entries (snd out)) i) \<and>
        (case fst out of
           Inl e \<Rightarrow> e \<in> {ENOMEM, ENOBUFS, ESRCH} \<and> topics (snd out) = topics k
         | Inr shms \<Rightarrow>
             topics (snd out) = (topics k)(wr_topic w \<mapsto> upd_sub (sub_id s) (\<lambda>s. s\<lparr>need_mmap_update := False\<rparr>) (topic_of k w)) \<and>
             (\<forall>p\<in>set (pub_info_htable (topic_of k w)). \<forall>pr. hears k w s p pr \<longrightarrow>
                sub_pid s \<in> mappers (mempool_entries (snd out)) (mempool_index pr)) \<and>
             (\<forall>shm\<in>set shms. \<exists>p\<in>set (pub_info_htable (topic_of k w)). \<exists>pr. hears k w s p pr \<and>
                sub_pid s \<notin> mappers (mempool_entries k) (mempool_index pr) \<and>
                shm = (convert_pid_to_local env (pub_pid p), mp_addr (mempool_entries k ! mempool_index pr), mempool_size_bytes k))))"

lemma reference_memory_spec:
  assumes "pools_ok ps" and "i < length ps" and "reference_memory i p al ps = (r, al', ps')"
  shows "pools_ok ps' \<and> length ps' = length ps \<and> map mp_addr ps' = map mp_addr ps \<and> (\<forall>j. mappers ps j \<subseteq> mappers ps' j) \<and>
    (case r of Inl e \<Rightarrow> ps' = ps \<and> (e = ENOMEM \<or> e = EEXIST \<and> p \<in> mappers ps i)
     | Inr _ \<Rightarrow> p \<notin> mappers ps i \<and> p \<in> mappers ps' i \<and> (\<forall>q j. q \<in> mappers ps' j \<longrightarrow> q \<in> mappers ps j \<or> q = p \<and> j = i))"
proof -
  have "case r of Inl e \<Rightarrow> ps' = ps \<and> (e = ENOMEM \<or> e = EEXIST \<and> p \<in> mappers ps i) | Inr _ \<Rightarrow> p \<notin> mappers ps i"
    using assms(2,3) by (cases "kmalloc al") (auto simp: reference_memory_def mappers_def split: if_splits)
  then show ?thesis using reference_memory_ok [OF assms] by (cases r) auto
qed

lemma shm_info_spec:
  fixes loc sz procs r dm sp sbr
  defines "needs \<equiv> (\<lambda>p pr. sp \<noteq> pub_pid p \<and> domain_delivery_allowed r (pub_domain_id p) (pub_is_bridge p) dm sbr \<and>
      agnocast_find_process_info (pub_pid p) procs = Some pr \<and> \<not> exited pr)"
  assumes procs: "\<forall>pr\<in>set procs. mempool_index pr < length ps" and ok: "pools_ok ps"
    and run: "set_publisher_shm_info loc sz procs r dm sp sbr cap num pubs al ps = (x, ps')"
  shows "(\<forall>i. mappers ps i \<subseteq> mappers ps' i) \<and>
    (case x of Inl e \<Rightarrow> e \<in> {ENOMEM, ENOBUFS, ESRCH}
     | Inr shms \<Rightarrow> (\<forall>p\<in>set pubs. \<forall>pr. needs p pr \<longrightarrow> sp \<in> mappers ps' (mempool_index pr)) \<and>
         (\<forall>shm\<in>set shms. \<exists>p\<in>set pubs. \<exists>pr. needs p pr \<and> sp \<notin> mappers ps (mempool_index pr) \<and>
            shm = (loc (pub_pid p), mp_addr (ps ! mempool_index pr), sz)))"
  using procs ok run
proof (induction pubs arbitrary: num al ps x ps')
  case Nil
  then show ?case by auto
next
  case (Cons p pubs)
  show ?case
  proof (cases "\<exists>pr. needs p pr")
    case False
    then have "set_publisher_shm_info loc sz procs r dm sp sbr cap num pubs al ps = (x, ps')"
      using Cons.prems(3) by (auto simp: needs_def Let_def split: if_splits option.splits)
    from Cons.IH [OF Cons.prems(1,2) this] False show ?thesis by (fastforce split: sum.splits)
  next
    case True
    then obtain pr where pr: "needs p pr" by blast
    have same: "needs p pr' \<longleftrightarrow> pr' = pr" for pr' using pr by (auto simp: needs_def)
    have "pr \<in> set procs" using pr find_key_Some by (fastforce simp: needs_def agnocast_find_process_info_def)
    then have i: "mempool_index pr < length ps" using Cons.prems(1) by blast
    obtain y al1 ps1 where rm: "reference_memory (mempool_index pr) sp al ps = (y, al1, ps1)" by (metis prod_cases3)
    note R = reference_memory_spec [OF Cons.prems(2) i rm]
    have ok1: "\<forall>pr\<in>set procs. mempool_index pr < length ps1" "pools_ok ps1" using R Cons.prems(1) by auto
    have same_addr: "length ps1 = length ps" "map mp_addr ps1 = map mp_addr ps" using R by blast+
    have addr: "mp_addr (ps1 ! j) = mp_addr (ps ! j)" if "j < length ps" for j
      using that same_addr nth_map [of j ps1 mp_addr] nth_map [of j ps mp_addr] by simp
    have unroll: "set_publisher_shm_info loc sz procs r dm sp sbr cap num (p # pubs) al ps =
        (case (y, al1, ps1) of (Inl e, al', ps') \<Rightarrow>
            if e = EEXIST then set_publisher_shm_info loc sz procs r dm sp sbr cap num pubs al' ps' else (Inl e, ps')
         | (Inr _, al', ps') \<Rightarrow> if num = cap then (Inl ENOBUFS, ps') else if loc (pub_pid p) = -1 then (Inl ESRCH, ps')
            else case set_publisher_shm_info loc sz procs r dm sp sbr cap (num + 1) pubs al' ps' of (Inl e, ps'') \<Rightarrow> (Inl e, ps'')
              | (Inr shms, ps'') \<Rightarrow> (Inr ((loc (pub_pid p), mp_addr (ps' ! mempool_index pr), sz) # shms), ps''))"
      using pr rm by (simp add: needs_def Let_def)
    have idx: "mempool_index pr' < length ps" if "needs q pr'" for q pr'
      using that find_key_Some Cons.prems(1) by (fastforce simp: needs_def agnocast_find_process_info_def)
    show ?thesis
    proof (cases y)
      case (Inl e)
      show ?thesis
      proof (cases "e = EEXIST")
        case True
        then have run: "set_publisher_shm_info loc sz procs r dm sp sbr cap num pubs al1 ps1 = (x, ps')" and ps1: "ps1 = ps"
          using unroll Inl Cons.prems(3) R by auto
        have m: "sp \<in> mappers ps (mempool_index pr)" using R Inl True by auto
        have ih: "(\<forall>i. mappers ps i \<subseteq> mappers ps' i) \<and>
            (case x of Inl e \<Rightarrow> e \<in> {ENOMEM, ENOBUFS, ESRCH}
             | Inr shms \<Rightarrow> (\<forall>p\<in>set pubs. \<forall>pr. needs p pr \<longrightarrow> sp \<in> mappers ps' (mempool_index pr)) \<and>
                 (\<forall>shm\<in>set shms. \<exists>p\<in>set pubs. \<exists>pr. needs p pr \<and> sp \<notin> mappers ps (mempool_index pr) \<and>
                    shm = (loc (pub_pid p), mp_addr (ps ! mempool_index pr), sz)))"
          using Cons.IH [OF ok1 run] unfolding ps1 .
        then show ?thesis using m same by (cases x) auto
      next
        case False
        then show ?thesis using unroll Inl Cons.prems(3) R by auto
      qed
    next
      case (Inr u)
      have grow: "\<forall>j. mappers ps j \<subseteq> mappers ps1 j" and new: "sp \<notin> mappers ps (mempool_index pr)" "sp \<in> mappers ps1 (mempool_index pr)"
        using R Inr by auto
      show ?thesis
      proof (cases "num = cap \<or> loc (pub_pid p) = -1")
        case True
        then show ?thesis using unroll Inr Cons.prems(3) grow by (auto split: if_splits)
      next
        case False
        obtain x1 ps2 where run: "set_publisher_shm_info loc sz procs r dm sp sbr cap (num + 1) pubs al1 ps1 = (x1, ps2)" by fastforce
        have res: "(x, ps') = (case x1 of Inl e \<Rightarrow> (Inl e, ps2)
            | Inr shms \<Rightarrow> (Inr ((loc (pub_pid p), mp_addr (ps1 ! mempool_index pr), sz) # shms), ps2))"
          using Cons.prems(3) False unfolding unroll Inr prod.case sum.case run by simp
        note ih = Cons.IH [OF ok1 run]
        show ?thesis
        proof (cases x1)
          case (Inl e)
          then show ?thesis using res ih grow by auto
        next
          case (Inr shms)
          then have eq: "x = Inr ((loc (pub_pid p), mp_addr (ps ! mempool_index pr), sz) # shms)" "ps' = ps2"
            using res addr [OF i] by auto
          have ih': "\<And>i. mappers ps1 i \<subseteq> mappers ps2 i" "\<And>q pr'. q \<in> set pubs \<Longrightarrow> needs q pr' \<Longrightarrow> sp \<in> mappers ps2 (mempool_index pr')"
            "\<And>shm. shm \<in> set shms \<Longrightarrow> \<exists>q\<in>set pubs. \<exists>pr'. needs q pr' \<and> sp \<notin> mappers ps1 (mempool_index pr') \<and>
               shm = (loc (pub_pid q), mp_addr (ps1 ! mempool_index pr'), sz)"
            using ih Inr by auto
          have "\<exists>q\<in>set pubs. \<exists>pr'. needs q pr' \<and> sp \<notin> mappers ps (mempool_index pr') \<and>
               shm = (loc (pub_pid q), mp_addr (ps ! mempool_index pr'), sz)" if "shm \<in> set shms" for shm
            using ih'(3) [OF that] grow addr idx by (metis subsetD)
          then have later: "\<forall>shm\<in>set shms. \<exists>q\<in>set (p # pubs). \<exists>pr'. needs q pr' \<and> sp \<notin> mappers ps (mempool_index pr') \<and>
               shm = (loc (pub_pid q), mp_addr (ps ! mempool_index pr'), sz)" by fastforce
          have all: "\<forall>q\<in>set (p # pubs). \<forall>pr'. needs q pr' \<longrightarrow> sp \<in> mappers ps2 (mempool_index pr')"
            using ih'(1,2) new(2) same by auto
          have "\<forall>i. mappers ps i \<subseteq> mappers ps2 i" using grow ih'(1) by blast
          then show ?thesis unfolding eq using later all pr new(1) by auto
        qed
      qed
    qed
  qed
qed

lemma update_mmap_outcome:
  assumes inv: "kinv k"
  shows "mmap_outcome env w s k (update_mmap env w s cap al k)"
proof (cases "need_mmap_update s")
  case True
  let ?t = "topic_of k w"
  obtain x ps where run: "set_publisher_shm_info (convert_pid_to_local env) (mempool_size_bytes k) (proc_info_htable k)
      (rule_of k ?t) (wr_domain_id w) (sub_pid s) (sub_is_bridge s) cap 0 (pub_info_htable ?t) al (mempool_entries k) = (x, ps)"
    by fastforce
  have "procs_ok (proc_info_htable k) (mempool_entries k)" using kinvD(5) [OF inv] .
  then have ok: "\<forall>pr\<in>set (proc_info_htable k). mempool_index pr < length (mempool_entries k)" "pools_ok (mempool_entries k)"
    by (auto simp: procs_ok_def)
  have "update_mmap env w s cap al k = (case x of Inl e \<Rightarrow> (Inl e, k\<lparr>mempool_entries := ps\<rparr>)
      | Inr shms \<Rightarrow> (Inr shms, set_topic w (upd_sub (sub_id s) (\<lambda>s. s\<lparr>need_mmap_update := False\<rparr>) ?t) (k\<lparr>mempool_entries := ps\<rparr>)))"
    using True run by (simp add: update_mmap_def Let_def split: sum.split)
  then show ?thesis using shm_info_spec [OF ok run] True
    by (cases x) (simp_all add: mmap_outcome_def hears_def set_topic_def)
qed (simp add: mmap_outcome_def update_mmap_def)

text \<open>Claim C4. A receive hands out, oldest first, the first ten of the newest \<open>qos_depth\<close> deliverable entries beyond
  the subscriber's reading position, sets the subscriber's bit on exactly these entries, moves the reading
  position to the last of them, and tells the caller to call again exactly when the window holds more than
  ten. When the subscriber's need for new mappings is flagged, as in its first receive, the pools are mapped
  after that: then the call may fail with \<open>ENOMEM\<close>, \<open>ENOBUFS\<close> or \<open>ESRCH\<close> although the position has moved and the
  references are set; otherwise it never fails.\<close>

theorem receive_spec:
  assumes "reachable env k" and w: "find_topic_for_current cur name ns k = Some w"
    and s: "find_subscriber_info sid (topic_of k w) = Some s"
  defines "win \<equiv> recv_window (proc_info_htable k) (rule_of k (topic_of k w)) s (topic_of k w)"
  defines "k1 \<equiv> set_topic w (hand_out s (take MAX_RECEIVE_NUM win) (topic_of k w)) k"
  shows "agnocast_ioctl_receive_msg env cur name ns sid cap al k =
      (case update_mmap env w s cap al k1 of
         (Inl e, k') \<Rightarrow> (Inl e, k')
       | (Inr shms, k') \<Rightarrow> (Inr (map out_of (take MAX_RECEIVE_NUM win), MAX_RECEIVE_NUM < length win, shms), k')) \<and>
    mmap_outcome env w s k1 (update_mmap env w s cap al k1)"
proof -
  note inv = reachable_kinv [OF assms(1)]
  note W = found_topic [OF inv w]
  have sin: "s \<in> set (sub_info_htable (topic_of k w))"
    using s find_subscriber_info_Some W(3) by (auto simp: topic_inv_def inv_but_def)
  have core: "receive_msg_core (proc_info_htable k) (rule_of k (topic_of k w)) s (topic_of k w) =
      (Inr (map out_of (take MAX_RECEIVE_NUM win), MAX_RECEIVE_NUM < length win), hand_out s (take MAX_RECEIVE_NUM win) (topic_of k w))"
    using receive_msg_core_spec [OF W(3) sin] by (simp add: win_def Let_def)
  have "topic_inv (hand_out s (take MAX_RECEIVE_NUM win) (topic_of k w))"
    using receive_msg_core_inv [OF W(3) sin] core by (metis snd_conv)
  then have "kinv k1"
    unfolding k1_def by (intro set_topic_inv [OF inv W(1,2)]) (auto simp: frame_hand_out notify_hand_out W(4))
  then have "mmap_outcome env w s k1 (update_mmap env w s cap al k1)" by (rule update_mmap_outcome)
  then show ?thesis using w s core by (simp add: agnocast_ioctl_receive_msg_def k1_def Let_def)
qed

lemma demo_sent_find: "find_topic_for_current 20 ''/t'' 0 demo_sent = Some demo_wrapper"
  by (simp add: demo_sent_eq demo_ready_eq demo_wrapper_def keval)

lemma demo_sent_topic: "topic_of demo_sent demo_wrapper = upd_pub 0 (\<lambda>p. p\<lparr>entries_num := 1\<rparr>)
     ((demo_topic 1)\<lparr>entries := [demo_entry], current_entry_id := 1\<rparr>)"
  by (simp add: demo_sent_eq topic_of_def demo_wrapper_def)

text \<open>The first receive of a subscriber: one message, and the publisher's pool is to be mapped. With a buffer for no
  pool the same receive fails, and the message counts as received.\<close>

theorem receive_spec_witness:
  "fst (agnocast_ioctl_receive_msg demo_env 20 ''/t'' 0 1 4 [] demo_sent) =
     Inr ([(0, 0x40000000000)], False, [(10, 0x40000000000, 0x40000000)]) \<and>
   fst (agnocast_ioctl_receive_msg demo_env 20 ''/t'' 0 1 0 [] demo_sent) = Inl ENOBUFS"
proof -
  let ?t = "topic_of demo_sent demo_wrapper"
  define s where "s = hd (sub_info_htable (demo_topic 1))"
  define k1 where "k1 = set_topic demo_wrapper (hand_out s [demo_entry] ?t) demo_sent"
  have sf: "need_mmap_update s" "sub_pid s = 20" "\<not> sub_is_bridge s" "sub_id s = 1" "latest_received_entry_id s = -1"
    "sub_qos_depth s = 2" "sub_domain_id s = 0" "\<not> ignore_local_publications s" by (simp_all add: s_def demo_topic_def)
  have s: "find_subscriber_info 1 ?t = Some s"
    by (simp add: s_def demo_sent_topic demo_topic_def find_subscriber_info_def find_key_def upd_pub_def upd_key_def)
  have procs: "proc_info_htable demo_sent = proc_info_htable (demo_ready 1)" by (simp add: demo_sent_eq)
  have win: "recv_window (proc_info_htable demo_sent) (rule_of demo_sent ?t) s ?t = [demo_entry]"
    by (simp add: recv_window_def unread_def sf procs demo_ready_eq demo_sent_topic demo_topic_def demo_entry_def
        lastn_def deliverable_def find_publisher_info_def find_key_def upd_pub_def upd_key_def owner_is_alive_def
        agnocast_find_process_info_def domain_delivery_allowed_def)
  have k1: "topic_of k1 demo_wrapper = hand_out s [demo_entry] ?t" "proc_info_htable k1 = proc_info_htable (demo_ready 1)"
    "mempool_entries k1 = mempool_entries (demo_ready 1)" "mempool_size_bytes k1 = 0x40000000"
    by (simp_all add: k1_def topic_of_def set_topic_def demo_sent_eq) (simp add: demo_ready_eq)
  obtain p where pubs: "pub_info_htable (hand_out s [demo_entry] ?t) = [p]" "pub_pid p = 10" "pub_domain_id p = 0"
    by (simp add: hand_out_def demo_sent_topic demo_topic_def upd_pub_def upd_key_def upd_sub_def)
  have rl: "rule_of k1 (hand_out s [demo_entry] ?t) = None"
    by (simp add: rule_of_def hand_out_def demo_sent_topic demo_topic_def upd_pub_def upd_sub_def)
  have pr: "agnocast_find_process_info 10 (proc_info_htable (demo_ready 1)) = Some (hd (proc_info_htable (demo_ready 1)))"
    "\<not> exited (hd (proc_info_htable (demo_ready 1)))" "mempool_index (hd (proc_info_htable (demo_ready 1))) = 0"
    by (simp_all add: demo_ready_eq agnocast_find_process_info_def find_key_def)
  have pools: "reference_memory 0 20 [] (mempool_entries (demo_ready 1)) = (Inr (), [],
      [\<lparr>mp_addr = 0x40000000000, mapped_num = 2, mapped_pid_head = [20, 10]\<rparr>, \<lparr>mp_addr = 0x40040000000, mapped_num = 1, mapped_pid_head = [20]\<rparr>])"
    by (simp add: demo_ready_eq reference_memory_def)
  have "fst (update_mmap demo_env demo_wrapper s cap [] k1) =
      (if cap = 0 then Inl ENOBUFS else Inr [(10, 0x40000000000, 0x40000000)])" for cap
    by (simp add: update_mmap_def k1 pubs rl sf pr pools domain_delivery_allowed_def demo_wrapper_def [THEN arg_cong [of _ _ wr_domain_id]] demo_env_def Let_def del: One_nat_def)
  note mm = this
  have out: "take MAX_RECEIVE_NUM [demo_entry] = [demo_entry]" "\<not> MAX_RECEIVE_NUM < length [demo_entry]"
    "map out_of [demo_entry] = [(0, 0x40000000000)]" by (simp_all add: MAX_RECEIVE_NUM_def out_of_def demo_entry_def)
  have "fst (agnocast_ioctl_receive_msg demo_env 20 ''/t'' 0 1 cap [] demo_sent) =
      (if cap = 0 then Inl ENOBUFS else Inr ([(0, 0x40000000000)], False, [(10, 0x40000000000, 0x40000000)]))" for cap
    using receive_spec [OF demo_sent_reachable demo_sent_find s, of cap "[]", THEN conjunct1] mm [of cap]
    unfolding win out k1_def [symmetric] by (cases "update_mmap demo_env demo_wrapper s cap [] k1") (auto simp: MAX_RECEIVE_NUM_def split: sum.splits if_splits)
  then show ?thesis by simp
qed

text \<open>Claim C5. A take returns the oldest of the newest \<open>qos_depth\<close> deliverable entries at or beyond the reading
  position (strictly beyond it when taking the same message again is not allowed), or nothing when there is
  none; it references that entry only, and the reading position never moves backwards. When the subscriber's
  need for new mappings is flagged, as in its first take, the pools are mapped after that: then the call may
  fail with \<open>ENOMEM\<close>, \<open>ENOBUFS\<close> or \<open>ESRCH\<close> although the entry counts as taken; otherwise it never fails.\<close>

theorem take_spec:
  fixes same :: bool
  assumes "reachable env k" and w: "find_topic_for_current cur name ns k = Some w"
    and s: "find_subscriber_info sid (topic_of k w) = Some s"
  defines "win \<equiv> take_window (proc_info_htable k) (rule_of k (topic_of k w)) s same (topic_of k w)"
  defines "k1 \<equiv> set_topic w (case win of [] \<Rightarrow> topic_of k w | en # _ \<Rightarrow> hand_out s [en] (topic_of k w)) k"
  shows "agnocast_ioctl_take_msg env cur name ns sid same cap al k =
      (case update_mmap env w s cap al k1 of
         (Inl e, k') \<Rightarrow> (Inl e, k')
       | (Inr shms, k') \<Rightarrow> (Inr (case win of [] \<Rightarrow> None | en # _ \<Rightarrow> Some (out_of en), shms), k')) \<and>
    mmap_outcome env w s k1 (update_mmap env w s cap al k1) \<and>
    (\<forall>en\<in>set win. latest_received_entry_id s \<le> entry_id en \<and> deliverable (proc_info_htable k)
       (rule_of k (topic_of k w)) (topic_of k w) s en)"
proof -
  note inv = reachable_kinv [OF assms(1)]
  note W = found_topic [OF inv w]
  have sin: "s \<in> set (sub_info_htable (topic_of k w))"
    using s find_subscriber_info_Some W(3) by (auto simp: topic_inv_def inv_but_def)
  let ?t' = "case win of [] \<Rightarrow> topic_of k w | en # _ \<Rightarrow> hand_out s [en] (topic_of k w)"
  have core: "take_msg_core (proc_info_htable k) (rule_of k (topic_of k w)) s same (topic_of k w) =
      (Inr (case win of [] \<Rightarrow> None | en # _ \<Rightarrow> Some (out_of en)), ?t')"
    using take_msg_core_spec [OF W(3) sin] by (simp add: win_def split: list.split)
  have "topic_inv ?t'" using take_msg_core_inv [OF W(3) sin] core by (metis snd_conv)
  then have "kinv k1"
    unfolding k1_def by (intro set_topic_inv [OF inv W(1,2)]) (auto simp: frame_hand_out notify_hand_out W(4) split: list.split)
  then have "mmap_outcome env w s k1 (update_mmap env w s cap al k1)" by (rule update_mmap_outcome)
  moreover have "agnocast_ioctl_take_msg env cur name ns sid same cap al k =
      (case update_mmap env w s cap al k1 of
         (Inl e, k') \<Rightarrow> (Inl e, k')
       | (Inr shms, k') \<Rightarrow> (Inr (case win of [] \<Rightarrow> None | en # _ \<Rightarrow> Some (out_of en), shms), k'))"
    using w s core by (simp add: agnocast_ioctl_take_msg_def k1_def Let_def)
  moreover have "\<forall>en\<in>set win. latest_received_entry_id s \<le> entry_id en \<and> deliverable (proc_info_htable k)
       (rule_of k (topic_of k w)) (topic_of k w) s en"
    unfolding win_def using take_window_subset by fastforce
  ultimately show ?thesis by blast
qed

theorem take_spec_witness:
  "fst (agnocast_ioctl_take_msg demo_env 20 ''/t'' 0 1 True 4 [] demo_recv) = Inr (Some (0, 0x40000000000), [])"
proof -
  let ?t = "topic_of demo_recv demo_wrapper"
  obtain s where s: "find_subscriber_info 1 ?t = Some s" "\<not> need_mmap_update s" "latest_received_entry_id s = 0"
      "sub_qos_depth s = 2" "sub_domain_id s = 0" "\<not> ignore_local_publications s"
    by (simp add: demo_recv_find demo_recv_topic demo_topic_def find_subscriber_info_def find_key_def upd_key_def)
  have procs: "proc_info_htable demo_recv = proc_info_htable (demo_ready 1)"
    by (subst demo_recv_eq) (simp add: demo_sent_eq)
  have "take_window (proc_info_htable demo_recv) (rule_of demo_recv ?t) s True ?t = [demo_entry\<lparr>referencing_subscribers := {1}\<rparr>]"
    by (simp add: take_window_def unread_def s procs demo_ready_eq demo_recv_find demo_recv_topic demo_topic_def demo_entry_def
        lastn_def deliverable_def find_publisher_info_def find_key_def upd_key_def owner_is_alive_def
        agnocast_find_process_info_def domain_delivery_allowed_def)
  then show ?thesis
    using take_spec [OF demo_recv_reachable demo_recv_find(1) s(1), of True 4 "[]"] s(2)
    by (simp add: update_mmap_def out_of_def demo_entry_def)
qed

end
