(* ===== verification/Kmod_Wakeup.thy ===== *)
theory Kmod_Wakeup
  imports Kmod_Position Kmod_Theorems
begin

text \<open>
  A message never becomes available to a subscriber in silence: the only event that turns a subscriber
  with nothing to read into one with something to read is a publish, and that publish signals the
  subscriber's eventfd. The exceptions are the events that widen what is deliverable after the fact: a
  domain bridge rule, and the registration of a process under the pid of an exited publisher; and a publisher
  of depth zero, whose publish stores the entry and then fails.
\<close>

section \<open>What is there to read\<close>

definition readable :: "kstate \<Rightarrow> topic_struct \<Rightarrow> subscriber_info \<Rightarrow> entry_node \<Rightarrow> bool" where
  "readable k t s en \<longleftrightarrow> en \<in> set (entries t) \<and> latest_received_entry_id s < entry_id en \<and>
     deliverable (proc_info_htable k) (rule_of k t) t s en"

definition pending :: "nat \<Rightarrow> int \<Rightarrow> kstate \<Rightarrow> bool" where
  "pending a sid k \<longleftrightarrow> (\<exists>t s. topics k a = Some t \<and> s \<in> set (sub_info_htable t) \<and> sub_id s = sid \<and>
     recv_window (proc_info_htable k) (rule_of k t) s t \<noteq> [])"

lemma lastn_Nil: "lastn n xs = [] \<longleftrightarrow> n = 0 \<or> xs = []"
  by (cases n; cases xs) (auto simp: lastn_def)

lemma recv_window_nonempty:
  "recv_window (proc_info_htable k) (rule_of k t) s t \<noteq> [] \<longleftrightarrow> 0 < sub_qos_depth s \<and> (\<exists>en. readable k t s en)"
  unfolding recv_window_def lastn_Nil unread_def by (auto simp: filter_empty_conv readable_def)

text \<open>The eventfds a publish signals.\<close>

fun signalled :: "kop \<Rightarrow> kstate \<Rightarrow> ctx list" where
  "signalled (PublishMsg cur name ns i a al) k =
     (case fst (agnocast_ioctl_publish_msg cur name ns i a al k) of Inr r \<Rightarrow> ret_signalled r | Inl _ \<Rightarrow> [])"
| "signalled _ k = []"

fun steady :: "kop \<Rightarrow> kstate \<Rightarrow> bool" where
  "steady (AddDomainBridge nf nt f t ns al) k \<longleftrightarrow> False"
| "steady (AddDomainBridgePrefix pre f t ns al) k \<longleftrightarrow> False"
| "steady (AddProcess p ns rn dm al) k \<longleftrightarrow> (\<forall>a t. topics k a = Some t \<longrightarrow> (\<forall>q\<in>set (pub_info_htable t). pub_pid q \<noteq> p))"
| "steady (PublishMsg cur name ns i a al) k \<longleftrightarrow>
     (\<forall>w q. find_topic_for_current cur name ns k = Some w \<longrightarrow> find_publisher_info i (topic_of k w) = Some q \<longrightarrow> 0 < pub_qos_depth q)"
| "steady (CommitExitProcess ns gp cur) k \<longleftrightarrow> (\<forall>pr. 0 \<le> gp \<longrightarrow> agnocast_find_process_info gp (proc_info_htable k) = Some pr \<longrightarrow> exited pr)"
| "steady _ k \<longleftrightarrow> True"

section \<open>Processes and rules\<close>

definition surround :: "kstate \<Rightarrow> process_info list \<times> domain_bridge_rule list" where
  "surround k = (proc_info_htable k, domain_rule_htable k)"

lemma surround_updates [simp]:
  "surround (k\<lparr>topic_hashtable := ws\<rparr>) = surround k" "surround (k\<lparr>topics := ts\<rparr>) = surround k"
  "surround (k\<lparr>next_topic := n\<rparr>) = surround k" "surround (k\<lparr>bridge_htable := bs\<rparr>) = surround k"
  "surround (k\<lparr>discovery_agent_htable := as\<rparr>) = surround k" "surround (k\<lparr>mempool_entries := ps\<rparr>) = surround k"
  "surround (set_topic w t k) = surround k"
  by (simp_all add: surround_def set_topic_def)

lemma update_mmap_surround: "surround (snd (update_mmap env w s cap al k)) = surround k"
  by (auto simp: update_mmap_def Let_def split: prod.splits sum.splits)

lemma add_topic_surround: "add_topic env name ns dm al k = (r, al', k') \<Longrightarrow> surround k' = surround k"
  by (auto simp: add_topic_def Let_def split: option.splits prod.splits if_splits)

lemma release_if_empty_surround: "surround (release_if_empty w k) = surround k"
  by (simp add: release_if_empty_def agnocast_release_topic_wrapper_def Let_def)

lemma exit_wrappers_surround: "surround (fold (exit_wrapper p) ws k) = surround k"
  by (induction ws arbitrary: k) (simp_all add: exit_wrapper_def Let_def release_if_empty_surround)

lemma receive_surround:
  "surround (snd (agnocast_ioctl_receive_msg env cur name ns sid cap al k)) = surround k"
  "surround (snd (agnocast_ioctl_take_msg env cur name ns sid same cap al k)) = surround k"
  using update_mmap_surround
  by (auto simp: agnocast_ioctl_receive_msg_def agnocast_ioctl_take_msg_def Let_def
      split: option.splits prod.splits sum.splits) (metis surround_updates(7) snd_conv)+

lemma alive_upd_key:
  "(\<And>pr. global_pid (f pr) = global_pid pr \<and> (exited pr \<longrightarrow> exited (f pr))) \<Longrightarrow>
   owner_is_alive (upd_key global_pid q f procs) p \<Longrightarrow> owner_is_alive procs p"
  by (auto simp: owner_is_alive_def agnocast_find_process_info_def find_del_key find_upd_key split: option.splits if_splits)

lemma alive_del_key: "owner_is_alive (del_key global_pid q procs) p \<Longrightarrow> owner_is_alive procs p"
  by (auto simp: owner_is_alive_def agnocast_find_process_info_def find_del_key find_upd_key split: option.splits if_splits)

lemma alive_add_process:
  "owner_is_alive (proc_info_htable (snd (agnocast_ioctl_add_process env q ns rn dm al k))) p \<Longrightarrow> p \<noteq> q \<Longrightarrow>
   owner_is_alive (proc_info_htable k) p"
  by (auto simp: agnocast_ioctl_add_process_def owner_is_alive_def agnocast_find_process_info_def Let_def find_hash_add
      split: option.splits if_splits prod.splits)

lemma alive_process_exit:
  "owner_is_alive (proc_info_htable (agnocast_process_exit_cleanup q k)) p \<Longrightarrow> owner_is_alive (proc_info_htable k) p"
  "domain_rule_htable (agnocast_process_exit_cleanup q k) = domain_rule_htable k"
proof -
  have x: "proc_info_htable (fold (exit_wrapper q) ws k') = proc_info_htable k'"
    "domain_rule_htable (fold (exit_wrapper q) ws k') = domain_rule_htable k'" for ws k'
    using exit_wrappers_surround [of q ws k'] by (simp_all add: surround_def)
  show "owner_is_alive (proc_info_htable (agnocast_process_exit_cleanup q k)) p \<Longrightarrow> owner_is_alive (proc_info_htable k) p"
    by (auto simp: agnocast_process_exit_cleanup_def Let_def x split: option.splits if_splits
        intro: alive_del_key alive_upd_key [where q = q and f = "\<lambda>pr. pr\<lparr>exited := True\<rparr>"])
  show "domain_rule_htable (agnocast_process_exit_cleanup q k) = domain_rule_htable k"
    by (simp add: agnocast_process_exit_cleanup_def Let_def x split: option.split)
qed

lemma alive_exit_cmd:
  "owner_is_alive (proc_info_htable (snd (agnocast_commit_exit_process ns gp cur k))) p \<Longrightarrow> owner_is_alive (proc_info_htable k) p"
  by (auto simp: agnocast_commit_exit_process_def Let_def
      split: option.splits prod.splits if_splits intro: alive_del_key dest!: alive_del_key)

lemma alive_shutdown:
  "owner_is_alive (proc_info_htable (agnocast_ioctl_notify_bridge_shutdown q k)) p \<Longrightarrow> owner_is_alive (proc_info_htable k) p"
  "owner_is_alive (proc_info_htable (snd (agnocast_ioctl_check_and_request_bridge_shutdown q ns k))) p \<Longrightarrow>
   owner_is_alive (proc_info_htable k) p"
  by (auto simp: agnocast_ioctl_notify_bridge_shutdown_def agnocast_ioctl_check_and_request_bridge_shutdown_def
      split: if_splits intro: alive_upd_key [where q = q and f = "\<lambda>pr. pr\<lparr>role := PROCESS_ROLE_APPLICATION\<rparr>"])

fun touches_processes :: "kop \<Rightarrow> bool" where
  "touches_processes (AddProcess p ns rn dm al) = True"
| "touches_processes (CommitExitProcess ns gp cur) = True"
| "touches_processes (ProcessExit p) = True"
| "touches_processes (NotifyBridgeShutdown p) = True"
| "touches_processes (CheckBridgeShutdown p ns) = True"
| "touches_processes _ = False"

lemma kstep_surround:
  assumes "\<not> touches_processes op" "steady op k"
  shows "surround (kstep env op k) = surround k"
  using assms
  by (cases op)
     (auto simp: receive_surround release_if_empty_surround agnocast_ioctl_add_subscriber_def agnocast_ioctl_add_publisher_def
       agnocast_ioctl_remove_subscriber_def agnocast_ioctl_remove_publisher_def agnocast_ioctl_publish_msg_def
       agnocast_ioctl_release_message_entry_reference_def agnocast_ioctl_set_ros2_subscriber_num_def
       agnocast_ioctl_set_ros2_publisher_num_def agnocast_ioctl_add_bridge_def agnocast_ioctl_remove_bridge_def
       agnocast_ioctl_add_discovery_agent_def agnocast_ioctl_discovery_agent_should_exit_def
       Let_def split: option.splits prod.splits sum.splits dest: add_topic_surround)

text \<open>A steady event brings no publisher's process back to life and leaves the rules alone.\<close>

lemma kstep_alive:
  assumes "steady op k" "topics k a = Some t" "q \<in> set (pub_info_htable t)"
    and "owner_is_alive (proc_info_htable (kstep env op k)) (pub_pid q)"
  shows "owner_is_alive (proc_info_htable k) (pub_pid q)"
proof (cases "touches_processes op")
  case False
  then show ?thesis using kstep_surround [OF False assms(1), of env] assms(4) by (simp add: surround_def)
next
  case True
  then show ?thesis
    using assms by (cases op) (auto dest: alive_add_process alive_process_exit(1) alive_exit_cmd alive_shutdown)
qed

lemma kstep_rules:
  assumes "steady op k"
  shows "domain_rule_htable (kstep env op k) = domain_rule_htable k"
proof (cases "touches_processes op")
  case False
  then show ?thesis using kstep_surround [OF False assms, of env] by (simp add: surround_def)
next
  case True
  then show ?thesis
    by (cases op) (auto simp: alive_process_exit(2) agnocast_ioctl_add_process_def
        agnocast_commit_exit_process_def agnocast_ioctl_notify_bridge_shutdown_def
        agnocast_ioctl_check_and_request_bridge_shutdown_def Let_def split: option.splits prod.splits)
qed

section \<open>A step that publishes nothing\<close>

text \<open>An endpoint that is there before and after a step is the same one.\<close>

lemma sub_kept:
  assumes ti: "topic_inv t" and p: "prog f t t'" and s: "s \<in> set (sub_info_htable t)"
    and s': "s' \<in> set (sub_info_htable t')" "sub_id s' = sub_id s"
  shows "skey s' = skey s \<and> latest_received_entry_id s \<le> latest_received_entry_id s'"
proof -
  note I = inv_butD [OF ti [unfolded topic_inv_def]]
  have "sub_id s < current_pubsub_id t" using I(2) s by (auto simp: ids_ok_def sub_ids_def)
  then obtain u where u: "u \<in> set (sub_info_htable t)" "skey u = skey s'" "latest_received_entry_id u \<le> latest_received_entry_id s'"
    using p s' unfolding prog_def by metis
  have "sub_id u = sub_id s" using u(2) s'(2) by (simp add: skey_def)
  then have "u = s" using I(2) u(1) s by (auto simp: ids_ok_def distinct_map inj_on_def)
  then show ?thesis using u by simp
qed

lemma pub_kept:
  assumes ti: "topic_inv t" and p: "prog f t t'" and q: "q \<in> set (pub_info_htable t)"
    and q': "q' \<in> set (pub_info_htable t')" "pub_id q' = pub_id q"
  shows "pkey q' = pkey q"
proof -
  note I = inv_butD [OF ti [unfolded topic_inv_def]]
  have "pub_id q' < current_pubsub_id t" using I(2) q q'(2) by (auto simp: ids_ok_def pub_ids_def)
  then have "pkey q' \<in> pkey ` set (pub_info_htable t)" using p q'(1) by (auto simp: prog_def)
  then obtain v where v: "v \<in> set (pub_info_htable t)" "pub_id v = pub_id q'" "pkey q' = pkey v" using pkey_id by blast
  then have "v = q" using I(1) q q'(2) by (auto simp: pubs_fit_def distinct_map inj_on_def)
  then show ?thesis using v by simp
qed

lemma rule_kept: "steady op k \<Longrightarrow> prog f t t' \<Longrightarrow> rule_of (kstep env op k) t' = rule_of k t"
  using kstep_rules [of op k env] by (auto simp: rule_of_def prog_def split: option.split)

text \<open>What is readable after a step was deliverable before it, if its publisher was there.\<close>

lemma deliverable_before:
  assumes ti: "topic_inv t" "topic_inv t'" and st: "steady op k" and t: "topics k a = Some t" and p: "prog f t t'"
    and s: "s \<in> set (sub_info_htable t)" and s': "s' \<in> set (sub_info_htable t')" "sub_id s' = sub_id s"
    and q: "find_publisher_info (en_publisher_id en') t = Some q"
    and d: "deliverable (proc_info_htable (kstep env op k)) (rule_of (kstep env op k) t') t' s' en'"
  shows "deliverable (proc_info_htable k) (rule_of k t) t s en'"
proof -
  obtain q' where q': "find_publisher_info (en_publisher_id en') t' = Some q'" "owner_is_alive (proc_info_htable (kstep env op k)) (pub_pid q')"
      "\<not> (ignore_local_publications s' \<and> sub_pid s' = pub_pid q')"
      "domain_delivery_allowed (rule_of (kstep env op k) t') (pub_domain_id q') (pub_is_bridge q') (sub_domain_id s') (sub_is_bridge s')"
    using d by (auto simp: deliverable_def split: option.splits)
  have m: "q \<in> set (pub_info_htable t)" "pub_id q = en_publisher_id en'"
    using find_publisher_info_Some [OF inv_butD(1) [OF ti(1) [unfolded topic_inv_def]]] q by auto
  have m': "q' \<in> set (pub_info_htable t')" "pub_id q' = en_publisher_id en'"
    using find_publisher_info_Some [OF inv_butD(1) [OF ti(2) [unfolded topic_inv_def]]] q'(1) by auto
  have k: "pkey q' = pkey q" by (rule pub_kept [OF ti(1) p m(1) m'(1)]) (simp add: m m')
  moreover have "owner_is_alive (proc_info_htable k) (pub_pid q)" using kstep_alive [OF st t m(1)] q'(2) k by (simp add: pkey_def)
  ultimately show ?thesis
    using q q'(3,4) sub_kept [OF ti(1) p s s'] rule_kept [OF st p, of env] by (simp add: deliverable_def pkey_def skey_def)
qed

lemma readable_before:
  assumes inv: "kinv k" and st: "steady op k" and t: "topics k a = Some t" and p: "prog f t t'"
    and s: "s \<in> set (sub_info_htable t)" and s': "s' \<in> set (sub_info_htable t')" "sub_id s' = sub_id s"
    and en': "(entry_id en', en_publisher_id en') \<in> ekeys (entries t)" and r: "readable (kstep env op k) t' s' en'"
    and ti': "topic_inv t'"
  shows "sub_qos_depth s' = sub_qos_depth s \<and> (\<exists>en. readable k t s en)"
proof -
  have ti: "topic_inv t" using kinvD(2) [OF inv] t by (auto simp: topics_ok_def topic_ok_def)
  note fit = inv_butD(1) [OF ti [unfolded topic_inv_def]]
  obtain en where en: "en \<in> set (entries t)" "entry_id en = entry_id en'" "en_publisher_id en = en_publisher_id en'"
    using en' by (auto simp: ekeys_def)
  obtain q where "q \<in> set (pub_info_htable t)" "pub_id q = en_publisher_id en" using fit en(1) by (auto simp: pubs_fit_def)
  then have q: "find_publisher_info (en_publisher_id en') t = Some q" using find_publisher_info_Some [OF fit] en(3) by simp
  have "deliverable (proc_info_htable k) (rule_of k t) t s en'"
    by (rule deliverable_before [OF ti ti' st t p s s' q, where env = env]) (use r in \<open>simp add: readable_def\<close>)
  then have "deliverable (proc_info_htable k) (rule_of k t) t s en" using en(3) by (simp add: deliverable_def)
  then show ?thesis using en r sub_kept [OF ti p s s'] by (auto simp: readable_def skey_def)
qed

lemma pending_before:
  assumes inv: "kinv k" and st: "steady op k" and t: "topics k a = Some t" and s: "s \<in> set (sub_info_htable t)"
    and t': "topics (kstep env op k) a = Some t'" and p: "prog f t t'" and s': "s' \<in> set (sub_info_htable t')" "sub_id s' = sub_id s"
    and r: "0 < sub_qos_depth s'" "readable (kstep env op k) t' s' en'"
    and en': "(entry_id en', en_publisher_id en') \<in> ekeys (entries t)"
  shows "pending a (sub_id s) k"
proof -
  have "topic_inv t'" using kinvD(2) [OF kstep_inv [OF inv]] t' by (auto simp: topics_ok_def topic_ok_def)
  from readable_before [OF inv st t p s s' en' r(2) this] show ?thesis
    using t s r(1) recv_window_nonempty [of k t s] unfolding pending_def by auto
qed

section \<open>Publishing\<close>

lemma publish_outcome:
  assumes inv: "kinv k" and st: "steady (PublishMsg cur name ns i ad al) k"
  shows "topics (snd (agnocast_ioctl_publish_msg cur name ns i ad al k)) = topics k \<or>
    (\<exists>w p t2 r. find_topic_for_current cur name ns k = Some w \<and> find_publisher_info i (topic_of k w) = Some p \<and>
       fst (agnocast_ioctl_publish_msg cur name ns i ad al k) = Inr r \<and>
       ret_signalled r = notify_targets (rule_of k (topic_of k w)) (sub_info_htable (topic_of k w)) p \<and>
       topics (snd (agnocast_ioctl_publish_msg cur name ns i ad al k)) = (topics k)(wr_topic w \<mapsto> t2) \<and>
       (\<forall>en\<in>set (entries t2). en \<in> set (entries (topic_of k w)) \<or> en_publisher_id en = i))"
proof (cases "find_topic_for_current cur name ns k")
  case w: (Some w)
  note W = found_topic [OF inv w]
  show ?thesis
  proof (cases "find_publisher_info i (topic_of k w)")
    case p: (Some p)
    have i: "i \<in> pub_ids (topic_of k w)"
      using p find_publisher_info_None [of i "topic_of k w"] by auto
    have depth: "0 < pub_qos_depth p" using st w p by simp
    show ?thesis
    proof (cases "agnocast_find_process_info (pub_pid p) (proc_info_htable k)")
      case pr: (Some pr)
      show ?thesis
      proof (cases "mp_addr (mempool_entries k ! mempool_index pr) \<le> ad \<and>
          ad < mp_addr (mempool_entries k ! mempool_index pr) + mempool_size_bytes k \<and> fst (kmalloc al)")
        case True
        then obtain t2 v where "agnocast_ioctl_publish_msg cur name ns i ad al k =
            (Inr \<lparr>ret_entry_id = current_entry_id (topic_of k w), ret_released_addrs = map msg_virtual_address v,
              ret_signalled = notify_targets (rule_of k (topic_of k w)) (sub_info_htable (topic_of k w)) p\<rparr>, set_topic w t2 k)"
          and "entries t2 = filter (\<lambda>en. en \<notin> set v) (entries (topic_of k w) @ [\<lparr>entry_id = current_entry_id (topic_of k w),
              en_publisher_id = i, msg_virtual_address = ad, referencing_subscribers = {}\<rparr>])"
          using publish_run [OF inv w p depth pr, of ad al] by blast
        then show ?thesis using w p by (intro disjI2 exI [of _ w] exI [of _ p] exI [of _ t2]) (auto simp: set_topic_def)
      next
        case False
        have "topics k (wr_topic w) = Some (topic_of k w)" by (rule W(2))
        then show ?thesis
          using False w p pr insert_message_entry_ok [OF W(3) [unfolded topic_inv_def] i, of ad al]
          by (auto simp: agnocast_ioctl_publish_msg_def Let_def set_topic_def insert_message_entry_def fun_upd_idem_iff
              split: prod.splits)
      qed
    qed (use w p in \<open>simp add: agnocast_ioctl_publish_msg_def Let_def\<close>)
  qed (use w in \<open>simp add: agnocast_ioctl_publish_msg_def Let_def\<close>)
qed (simp add: agnocast_ioctl_publish_msg_def)

text \<open>A subscriber a message is deliverable to is a target of its publisher.\<close>

lemma deliverable_target:
  "deliverable procs r t s en \<Longrightarrow> find_publisher_info (en_publisher_id en) t = Some p \<Longrightarrow> notify_ctx s \<noteq> None \<Longrightarrow> notify_target r p s"
  by (auto simp: deliverable_def notify_target_def)

lemma pending_signalled:
  assumes inv: "kinv k" and t: "topics k a = Some t" and s: "s \<in> set (sub_info_htable t)" "notify_ctx s = Some c"
    and st: "steady op k" and before: "\<not> pending a (sub_id s) k" and after: "pending a (sub_id s) (kstep env op k)"
  shows "c \<in> set (signalled op k)"
proof -
  obtain t' s' en' where t': "topics (kstep env op k) a = Some t'" and s': "s' \<in> set (sub_info_htable t')" "sub_id s' = sub_id s"
    and d: "0 < sub_qos_depth s'" and r: "readable (kstep env op k) t' s' en'"
    using after unfolding pending_def recv_window_nonempty by blast
  have ti: "topic_inv t" "a < next_topic k" using kinvD(2) [OF inv] t by (auto simp: topics_ok_def topic_ok_def)
  have ti': "topic_inv t'" using kinvD(2) [OF kstep_inv [OF inv]] t' by (auto simp: topics_ok_def topic_ok_def)
  have new: "(entry_id en', en_publisher_id en') \<notin> ekeys (entries t)" if "prog f t t'" for f
    using pending_before [OF inv st t s(1) t' that s' d r] before by blast
  show ?thesis
  proof (cases "\<exists>cur name ns i ad al. op = PublishMsg cur name ns i ad al")
    case False
    then have "kprog False k (kstep env op k)" using kstep_kprog_quiet [OF inv] by blast
    then have "prog False t t'" using t t' ti(2) unfolding kprog_def by fastforce
    then show ?thesis using new [of False] r by (auto simp: prog_def readable_def ekeys_def)
  next
    case True
    then obtain cur name ns i ad al where op: "op = PublishMsg cur name ns i ad al" by blast
    have p: "prog True t t'" using kstep_kprog [OF inv, of env op] t t' ti(2) unfolding kprog_def by fastforce
    have en': "en' \<in> set (entries t')" "en' \<notin> set (entries t)" using r new [OF p] by (auto simp: readable_def ekeys_def)
    then obtain w q t2 rt where w: "find_topic_for_current cur name ns k = Some w" "find_publisher_info i (topic_of k w) = Some q"
        "fst (agnocast_ioctl_publish_msg cur name ns i ad al k) = Inr rt"
      and sg: "ret_signalled rt = notify_targets (rule_of k (topic_of k w)) (sub_info_htable (topic_of k w)) q"
      and tp: "topics (kstep env op k) = (topics k)(wr_topic w \<mapsto> t2)"
      and en2: "\<forall>en\<in>set (entries t2). en \<in> set (entries (topic_of k w)) \<or> en_publisher_id en = i"
      using publish_outcome [OF inv st [unfolded op]] t t' by (auto simp: op)
    have a: "wr_topic w = a" using tp t t' en' by (auto split: if_splits)
    then have eq: "topic_of k w = t" "t2 = t'" using t t' tp by (auto simp: topic_of_def)
    then have i: "en_publisher_id en' = i" using en2 en' by auto
    have "deliverable (proc_info_htable k) (rule_of k t) t s en'"
      by (rule deliverable_before [OF ti(1) ti' st t p s(1) s', where q = q and env = env]) (use w(2) r in \<open>simp_all add: eq i readable_def\<close>)
    then have "notify_target (rule_of k t) q s" using deliverable_target w(2) s(2) by (simp add: eq i)
    then show ?thesis using w(3) sg s by (auto simp: op eq notify_targets_def image_iff intro!: bexI [of _ s])
  qed
qed

text \<open>Claim C8. No message becomes available in silence through a steady event: when such an event gives a subscriber
  that waits on an eventfd something to read that had nothing to read before, it is a publish and it signals that
  eventfd. Not steady are the events that make old messages deliverable afterwards (a new domain bridge rule, a
  process that registers under the pid of an exited publisher), a publish with history depth zero, which inserts
  its message, fails and signals nobody, and the commit of an exited process after another process has
  registered under its pid.\<close>

theorem no_silent_message:
  assumes "reachable env k" and t: "topics k a = Some t" and s: "s \<in> set (sub_info_htable t)" "notify_ctx s = Some c"
    and st: "steady op k" and before: "\<not> pending a (sub_id s) k" and after: "pending a (sub_id s) (kstep env op k)"
  shows "c \<in> set (signalled op k)"
  by (rule pending_signalled [OF reachable_kinv [OF assms(1)] assms(2-7)])

lemma demo_pending: "pending 0 1 demo_sent"
  by (simp add: pending_def demo_sent_eq demo_ready_eq demo_topic_def recv_window_def lastn_def unread_def demo_entry_def
      deliverable_def owner_is_alive_def keval)

theorem no_silent_message_witness:
  "\<not> pending 0 1 (demo_ready 1) \<and> pending 0 1 demo_sent \<and>
   7 \<in> set (signalled (PublishMsg 10 ''/t'' 0 0 0x40000000000 []) (demo_ready 1))"
proof -
  let ?s = "hd (sub_info_htable (demo_topic 1))" and ?op = "PublishMsg 10 ''/t'' 0 0 0x40000000000 []"
  have t: "topics (demo_ready 1) 0 = Some (demo_topic 1)" by (simp add: demo_ready_eq)
  have s: "?s \<in> set (sub_info_htable (demo_topic 1))" "notify_ctx ?s = Some 7" "sub_id ?s = 1" by (simp_all add: demo_topic_def)
  have n: "\<not> pending 0 1 (demo_ready 1)"
    by (auto simp: pending_def demo_ready_eq demo_topic_def recv_window_def lastn_def unread_def)
  have st: "steady ?op (demo_ready 1)"
    by (simp add: demo_ready_eq demo_topic_def demo_wrapper_def keval)
  show ?thesis
    using no_silent_message [OF demo_ready_reachable t s(1,2) st, unfolded s(3)] n demo_pending unfolding demo_sent_def by blast
qed

end
