(* ===== verification/Kmod_Link.thy ===== *)
theory Kmod_Link
  imports Kmod_Wakeup
begin

text \<open>
  What a registered subscriber can rely on: as long as neither it nor its process goes away, the topic name
  it registered under resolves to the same wrapper and topic, and its entry keeps its identity.
\<close>

section \<open>Wrappers in use stay\<close>

text \<open>A wrapper that leaves the table has no subscriber of its domain left in its topic.\<close>

definition sub_domains :: "topic_struct \<Rightarrow> domain set" where
  "sub_domains t = sub_domain_id ` set (sub_info_htable t)"

definition wkept :: "kstate \<Rightarrow> kstate \<Rightarrow> bool" where
  "wkept k k' \<longleftrightarrow> (\<forall>w\<in>set (topic_hashtable k). w \<notin> set (topic_hashtable k') \<longrightarrow>
     (\<forall>t'. topics k' (wr_topic w) = Some t' \<longrightarrow> wr_domain_id w \<notin> sub_domains t'))"

definition wshrink :: "kstate \<Rightarrow> kstate \<Rightarrow> bool" where
  "wshrink k k' \<longleftrightarrow> wkept k k' \<and> (\<forall>a t'. topics k' a = Some t' \<longrightarrow> (\<exists>t. topics k a = Some t \<and> sub_domains t' \<subseteq> sub_domains t))"

lemma wkept_subset: "set (topic_hashtable k) \<subseteq> set (topic_hashtable k') \<Longrightarrow> wkept k k'"
  by (auto simp: wkept_def)

lemma wshrink_trans:
  assumes "wshrink a b" "wshrink b c"
  shows "wshrink a c"
proof -
  have dom: "\<exists>t. topics a n = Some t \<and> sub_domains t' \<subseteq> sub_domains t" if tc: "topics c n = Some t'" for n t'
  proof -
    obtain u where u: "topics b n = Some u" "sub_domains t' \<subseteq> sub_domains u" using assms(2) tc unfolding wshrink_def by blast
    then show ?thesis using assms(1) unfolding wshrink_def by (meson subset_trans)
  qed
  have "wr_domain_id w \<notin> sub_domains t'"
    if w: "w \<in> set (topic_hashtable a)" "w \<notin> set (topic_hashtable c)" and t': "topics c (wr_topic w) = Some t'" for w t'
  proof (cases "w \<in> set (topic_hashtable b)")
    case True
    then show ?thesis using assms(2) w(2) t' by (auto simp: wshrink_def wkept_def)
  next
    case False
    obtain u where u: "topics b (wr_topic w) = Some u" "sub_domains t' \<subseteq> sub_domains u" using assms(2) t' unfolding wshrink_def by blast
    then show ?thesis using assms(1) w(1) False by (auto simp: wshrink_def wkept_def)
  qed
  then show ?thesis using dom unfolding wshrink_def wkept_def by blast
qed

lemma wshrink_refl: "wshrink k k"
  by (auto simp: wshrink_def wkept_def)

lemma wkept_release: "topics k (wr_topic w) = Some t \<Longrightarrow> wkept k (release_if_empty w k)"
  by (auto simp: wkept_def release_if_empty_def agnocast_release_topic_wrapper_def Let_def topic_of_def set_topic_def
      agnocast_wrapper_has_domain_endpoints_def sub_domains_def split: if_splits)
     (metis in_set_remove1)+

lemma wshrink_release: "topics k (wr_topic w) = Some t \<Longrightarrow> wshrink k (release_if_empty w k)"
  unfolding wshrink_def using wkept_release [of k w t]
  by (auto simp: release_if_empty_def agnocast_release_topic_wrapper_def Let_def topic_of_def set_topic_def sub_domains_def)

lemma wshrink_set_topic: "topics k (wr_topic w) = Some t \<Longrightarrow> sub_domains t' \<subseteq> sub_domains t \<Longrightarrow> wshrink k (set_topic w t' k)"
  by (auto simp: wshrink_def wkept_def set_topic_def)

lemma wkept_remove:
  "topics k (wr_topic w) = Some t \<Longrightarrow> sub_domains t' \<subseteq> sub_domains t \<Longrightarrow> wkept k (release_if_empty w (set_topic w t' k))"
  using wshrink_trans [OF wshrink_set_topic wshrink_release [of "set_topic w t' k" w t']] by (simp add: wshrink_def set_topic_def)

lemma table_add_topic: "add_topic env name ns dm al k = (x, al', k') \<Longrightarrow> set (topic_hashtable k) \<subseteq> set (topic_hashtable k')"
  by (auto simp: add_topic_def Let_def set_hash_add split: option.splits prod.splits if_splits)

lemma wkept_exit_wrappers:
  "kinv k \<Longrightarrow> distinct ws \<Longrightarrow> set ws \<subseteq> set (topic_hashtable k) \<Longrightarrow> wshrink k (fold (exit_wrapper p) ws k)"
proof (induction ws arbitrary: k)
  case (Cons w ws)
  have w: "w \<in> set (topic_hashtable k)" using Cons.prems by simp
  note E = exit_wrapper_inv [OF Cons.prems(1) w, of p] and T = topic_of_ok [OF Cons.prems(1) w]
  note X = exit_wrapper_start [OF Cons.prems(1) w, of p]
  let ?t2 = "pre_handler_subscriber_exit (proc_info_htable k) (rule_of k (topic_of k w)) p
     (pre_handler_publisher_exit p (topic_of k w))"
  have "wshrink k (set_topic w ?t2 k)" by (rule wshrink_set_topic [OF T(1)]) (auto simp: sub_domains_def X(2))
  then have "wshrink k (exit_wrapper p w k)"
    using wshrink_trans [OF _ wshrink_release [of "set_topic w ?t2 k" w ?t2]] by (simp add: exit_wrapper_def Let_def set_topic_def)
  moreover have "set ws \<subseteq> set (topic_hashtable (exit_wrapper p w k))" using E(2) Cons.prems by auto
  ultimately show ?case using wshrink_trans Cons.IH [OF E(1)] Cons.prems(2) by auto
qed (simp add: wshrink_refl)

lemma wkept_process_exit:
  assumes inv: "kinv k"
  shows "wkept k (agnocast_process_exit_cleanup p k)"
proof (cases "agnocast_find_process_info p (proc_info_htable k)")
  case (Some pr)
  from exit_start [OF inv Some] obtain k2 where k2: "kinv k2" "topics k2 = topics k" "topic_hashtable k2 = topic_hashtable k"
    and e: "agnocast_process_exit_cleanup p k =
       (let k3 = fold (exit_wrapper p) (topic_hashtable k) k2
        in k3\<lparr>bridge_htable := filter (\<lambda>b. br_pid b \<noteq> p) (bridge_htable k3)\<rparr>)" by metis
  have "distinct (topic_hashtable k2)" using kinvD(1) [OF k2(1)] by (simp add: wrappers_ok_def distinct_map)
  then have "wshrink k2 (fold (exit_wrapper p) (topic_hashtable k) k2)"
    using wkept_exit_wrappers [OF k2(1)] k2(3) by simp
  then show ?thesis by (auto simp: wshrink_def wkept_def e Let_def k2(2,3))
qed (simp add: agnocast_process_exit_cleanup_def Let_def wkept_subset)

lemma table_update_mmap: "topic_hashtable (snd (update_mmap env w s cap al k)) = topic_hashtable k"
  by (auto simp: update_mmap_def Let_def set_topic_def split: prod.splits sum.splits)

lemma table_receive:
  "topic_hashtable (snd (agnocast_ioctl_receive_msg env cur name ns sid cap al k)) = topic_hashtable k"
  "topic_hashtable (snd (agnocast_ioctl_take_msg env cur name ns sid same cap al k)) = topic_hashtable k"
  using table_update_mmap
  by (auto simp: agnocast_ioctl_receive_msg_def agnocast_ioctl_take_msg_def Let_def set_topic_def
      split: option.splits prod.splits sum.splits) (metis kstate.select_convs(1) kstate.update_convs(2) snd_conv kstate.surjective)+

text \<open>Bridge rules, bridges, daemons and the process commands do not touch the topic table.\<close>

lemma table_untouched:
  "topic_hashtable (snd (agnocast_ioctl_add_process env p ns rn dm al k)) = topic_hashtable k"
  "topic_hashtable (snd (agnocast_commit_exit_process ns gp cur k)) = topic_hashtable k"
  "topic_hashtable (snd (agnocast_ioctl_add_bridge env name p r2a ns al k)) = topic_hashtable k"
  "topic_hashtable (snd (agnocast_ioctl_remove_bridge name p r2a ns k)) = topic_hashtable k"
  "topic_hashtable (agnocast_ioctl_notify_bridge_shutdown p k) = topic_hashtable k"
  "topic_hashtable (snd (agnocast_ioctl_check_and_request_bridge_shutdown p ns k)) = topic_hashtable k"
  "topic_hashtable (snd (agnocast_ioctl_add_discovery_agent env p ns dm al k)) = topic_hashtable k"
  "topic_hashtable (snd (agnocast_ioctl_discovery_agent_should_exit p ns dm commit k)) = topic_hashtable k"
  "topic_hashtable (snd (agnocast_ioctl_publish_msg cur name ns i a al k)) = topic_hashtable k"
  "topic_hashtable (snd (agnocast_ioctl_release_message_entry_reference cur name ns i e k)) = topic_hashtable k"
  "topic_hashtable (snd (agnocast_ioctl_set_ros2_subscriber_num cur name ns n k)) = topic_hashtable k"
  "topic_hashtable (snd (agnocast_ioctl_set_ros2_publisher_num cur name ns n k)) = topic_hashtable k"
  by (auto simp: agnocast_ioctl_add_process_def agnocast_commit_exit_process_def
    agnocast_ioctl_add_bridge_def agnocast_ioctl_remove_bridge_def agnocast_ioctl_notify_bridge_shutdown_def
    agnocast_ioctl_check_and_request_bridge_shutdown_def agnocast_ioctl_add_discovery_agent_def
    agnocast_ioctl_discovery_agent_should_exit_def agnocast_ioctl_publish_msg_def
    agnocast_ioctl_release_message_entry_reference_def agnocast_ioctl_set_ros2_subscriber_num_def
    agnocast_ioctl_set_ros2_publisher_num_def set_topic_def Let_def split: option.splits prod.splits sum.splits)

lemma wkept_remove_endpoint:
  assumes inv: "kinv k"
  shows "wkept k (snd (agnocast_ioctl_remove_publisher cur name ns i k))"
    and "wkept k (snd (agnocast_ioctl_remove_subscriber cur name ns i k))"
proof -
  show "wkept k (snd (agnocast_ioctl_remove_publisher cur name ns i k))"
  proof (cases "find_topic_for_current cur name ns k")
    case (Some w)
    note W = found_topic [OF inv Some]
    show ?thesis
      using Some wkept_remove [OF W(2), of "drop_publisher i (topic_of k w)"]
      by (auto simp: agnocast_ioctl_remove_publisher_def Let_def wkept_subset sub_domains_def split: option.splits)
  qed (simp add: agnocast_ioctl_remove_publisher_def wkept_subset)
  show "wkept k (snd (agnocast_ioctl_remove_subscriber cur name ns i k))"
  proof (cases "find_topic_for_current cur name ns k")
    case (Some w)
    note W = found_topic [OF inv Some]
    show ?thesis
    proof (cases "find_subscriber_info i (topic_of k w)")
      case s: (Some s)
      show ?thesis unfolding remove_subscriber_start(1) [OF inv Some s]
        by (rule wkept_remove [OF W(2)]) (auto simp: sub_domains_def agnocast_unlink_subscriber_info_def Let_def set_del_key)
    qed (use Some in \<open>simp add: agnocast_ioctl_remove_subscriber_def wkept_subset\<close>)
  qed (simp add: agnocast_ioctl_remove_subscriber_def wkept_subset)
qed

lemma wkept_add_endpoint:
  "wkept k (snd (agnocast_ioctl_add_subscriber env name ns q evfd al k))"
  "wkept k (snd (agnocast_ioctl_add_publisher env name ns p al k))"
  by (rule wkept_subset, auto simp: agnocast_ioctl_add_subscriber_def agnocast_ioctl_add_publisher_def Let_def set_topic_def
      split: sum.splits prod.splits dest: table_add_topic)+

lemma kstep_wkept:
  assumes inv: "kinv k" and st: "steady op k"
  shows "wkept k (kstep env op k)"
  using st
  by (cases op)
     (simp_all add: wkept_subset table_untouched table_receive wkept_remove_endpoint [OF inv] wkept_add_endpoint
       wkept_process_exit [OF inv])

section \<open>The process stays\<close>

definition settled :: "pid \<Rightarrow> domain \<Rightarrow> kstate \<Rightarrow> bool" where
  "settled p dm k \<longleftrightarrow> (\<exists>pr. agnocast_find_process_info p (proc_info_htable k) = Some pr \<and> \<not> exited pr \<and>
     role pr \<noteq> PROCESS_ROLE_UNLINK_DAEMON \<and> proc_domain_id pr = dm)"

lemma settled_upd_key:
  "settled p dm k \<Longrightarrow> (\<And>pr. global_pid (f pr) = global_pid pr \<and> proc_domain_id (f pr) = proc_domain_id pr) \<Longrightarrow>
   p = q \<longrightarrow> (\<forall>pr. (exited (f pr) \<longrightarrow> exited pr) \<and> (role (f pr) = PROCESS_ROLE_UNLINK_DAEMON \<longrightarrow> role pr = PROCESS_ROLE_UNLINK_DAEMON)) \<Longrightarrow>
   settled p dm (k\<lparr>proc_info_htable := upd_key global_pid q f (proc_info_htable k)\<rparr>)"
  by (cases "p = q") (fastforce simp: settled_def agnocast_find_process_info_def find_upd_key)+

lemma settled_del_key:
  "settled p dm k \<Longrightarrow> p \<noteq> q \<Longrightarrow> settled p dm (k\<lparr>proc_info_htable := del_key global_pid q (proc_info_htable k)\<rparr>)"
  by (auto simp: settled_def agnocast_find_process_info_def find_del_key)

lemma settled_cong: "proc_info_htable k' = proc_info_htable k \<Longrightarrow> settled p dm k' = settled p dm k"
  by (simp add: settled_def)

lemma settled_add_process: "settled p dm k \<Longrightarrow> settled p dm (snd (agnocast_ioctl_add_process env q ns rn d al k))"
  by (auto simp: settled_def agnocast_ioctl_add_process_def agnocast_find_process_info_def Let_def find_hash_add
      split: option.splits prod.splits)

lemma settled_exit_cmd:
  assumes s: "settled p dm k" and st: "steady (CommitExitProcess ns gp cur) k"
  shows "settled p dm (snd (agnocast_commit_exit_process ns gp cur k))"
proof -
  have "gp \<noteq> p" if "0 \<le> gp" using s st that by (auto simp: settled_def)
  then show ?thesis
    using s by (auto simp: agnocast_commit_exit_process_def Let_def settled_def
        agnocast_find_process_info_def find_del_key split: option.splits prod.splits)
qed

lemma settled_process_exit:
  assumes "settled p dm k" "p \<noteq> q"
  shows "settled p dm (agnocast_process_exit_cleanup q k)"
proof -
  have x: "proc_info_htable (fold (exit_wrapper q) ws k') = proc_info_htable k'" for ws k'
    using exit_wrappers_surround [of q ws k'] by (simp add: surround_def)
  show ?thesis
    using assms by (auto simp: agnocast_process_exit_cleanup_def Let_def settled_def x
        agnocast_find_process_info_def find_del_key find_upd_key split: option.splits)
qed

lemma settled_shutdown:
  "settled p dm k \<Longrightarrow> settled p dm (agnocast_ioctl_notify_bridge_shutdown q k)"
  "settled p dm k \<Longrightarrow> settled p dm (snd (agnocast_ioctl_check_and_request_bridge_shutdown q ns k))"
  unfolding agnocast_ioctl_notify_bridge_shutdown_def agnocast_ioctl_check_and_request_bridge_shutdown_def
  by (auto intro!: settled_upd_key)

lemma kstep_settled:
  assumes inv: "kinv k" and s: "settled p dm k" and op: "op \<noteq> ProcessExit p" and st: "steady op k"
  shows "settled p dm (kstep env op k)"
proof (cases "touches_processes op")
  case False
  then have "proc_info_htable (kstep env op k) = proc_info_htable k"
    using kstep_surround [OF False st, of env] by (simp add: surround_def)
  then show ?thesis using s settled_cong by blast
next
  case True
  then show ?thesis
    using s op st by (cases op) (auto simp: settled_add_process settled_exit_cmd settled_process_exit settled_shutdown)
qed

section \<open>A subscriber and its topic\<close>

text \<open>Process \<open>p\<close> reaches its subscriber \<open>s\<close> under the topic name.\<close>

definition linked :: "pid \<Rightarrow> string \<Rightarrow> ipc_ns \<Rightarrow> topic_wrapper \<Rightarrow> subscriber_info \<Rightarrow> kstate \<Rightarrow> bool" where
  "linked p name ns w s k \<longleftrightarrow> settled p (wr_domain_id w) k \<and> w \<in> set (topic_hashtable k) \<and> wr_ipc_ns w = ns \<and> wr_key w = name \<and>
     (\<exists>t. topics k (wr_topic w) = Some t \<and> s \<in> set (sub_info_htable t)) \<and> sub_pid s = p \<and> sub_domain_id s = wr_domain_id w"

lemma linked_lookup:
  assumes inv: "kinv k" and l: "linked p name ns w s k"
  shows "find_topic_for_current p name ns k = Some w" and "find_subscriber_info (sub_id s) (topic_of k w) = Some s"
proof -
  have dm: "get_process_domain_id p k = wr_domain_id w" using l by (auto simp: linked_def settled_def get_process_domain_id_def)
  have w: "w \<in> set (topic_hashtable k)" "wr_ipc_ns w = ns" "wr_key w = name" using l by (auto simp: linked_def)
  have "find_topic name ns (wr_domain_id w) k \<noteq> None" using w by (auto simp: find_topic_None cell_def image_iff)
  then obtain v where v: "find_topic name ns (wr_domain_id w) k = Some v" by auto
  have "distinct (map cell (topic_hashtable k))" using kinvD(1) [OF inv] by (simp add: wrappers_ok_def)
  then have "v = w" using find_topic_Some [OF v] w by (auto simp: distinct_map inj_on_def cell_def)
  then show f: "find_topic_for_current p name ns k = Some w" using v dm by (simp add: find_topic_for_current_def)
  have "s \<in> set (sub_info_htable (topic_of k w))" using l by (auto simp: linked_def topic_of_def)
  then show "find_subscriber_info (sub_id s) (topic_of k w) = Some s"
    using find_subscriber_info_Some found_topic(3) [OF inv f] by (auto simp: topic_inv_def inv_but_def)
qed

lemma linked_step:
  assumes inv: "kinv k" and l: "linked p name ns w s k" and st: "steady op k"
    and op: "\<And>cur nm n. op \<noteq> RemoveSubscriber cur nm n (sub_id s)" "op \<noteq> ProcessExit p"
  shows "\<exists>s'. linked p name ns w s' (kstep env op k) \<and> skey s' = skey s"
proof -
  obtain t where t: "topics k (wr_topic w) = Some t" "s \<in> set (sub_info_htable t)" using l by (auto simp: linked_def)
  have sp: "sub_pid s = p" "sub_domain_id s = wr_domain_id w" "w \<in> set (topic_hashtable k)" "settled p (wr_domain_id w) k"
    using l by (auto simp: linked_def)
  have key: "(sub_id s, p) \<in> sub_keys t" using t sp by (auto simp: sub_keys_def)
  obtain t' where t': "topics (kstep env op k) (wr_topic w) = Some t'" "(sub_id s, p) \<in> sub_keys t'"
    by (rule kstep_stays [OF inv t(1) key op])
  then obtain s' where s': "s' \<in> set (sub_info_htable t')" "sub_id s' = sub_id s" by (auto simp: sub_keys_def)
  have ti: "topic_inv t" "wr_topic w < next_topic k" using kinvD(2) [OF inv] t by (auto simp: topics_ok_def topic_ok_def)
  have "prog True t t'" using kstep_kprog [OF inv, of env op] t t' ti(2) unfolding kprog_def by fastforce
  then have sk: "skey s' = skey s" using sub_kept [OF ti(1) _ t(2) s'] by blast
  then have "wr_domain_id w \<in> sub_domains t'" using s'(1) sp(2) by (force simp: sub_domains_def skey_def)
  then have "w \<in> set (topic_hashtable (kstep env op k))"
    using kstep_wkept [OF inv st, of env] sp(3) t'(1) by (auto simp: wkept_def)
  then have "linked p name ns w s' (kstep env op k)"
    using kstep_settled [OF inv sp(4) op(2) st] l t' s' sk by (auto simp: linked_def skey_def)
  then show ?thesis using sk by blast
qed

text \<open>A fresh subscription: linked under its name, with the id the call returned and the eventfd's context, and with
  nothing to read unless it asked for old messages.\<close>

lemma add_subscriber_linked:
  assumes inv: "kinv k" and p: "settled (sp_pid q) dm k" and ev: "agnocast_eventfd_get env evfd = Inr c" "\<not> sp_take q"
    and run: "agnocast_ioctl_add_subscriber env name ns q evfd al k = (Inr i, k')"
  shows "\<exists>w s. linked (sp_pid q) name ns w s k' \<and> sub_id s = i \<and> notify_ctx s = Some c \<and>
     (\<not> sp_transient_local q \<longrightarrow> \<not> pending (wr_topic w) i k')"
proof -
  have dm: "get_process_domain_id (sp_pid q) k = dm" using p by (auto simp: settled_def get_process_domain_id_def)
  obtain w al1 k1 al2 t' where a: "add_topic env name ns dm al k = (Inr w, al1, k1)"
    and r: "insert_subscriber_info (id_bkt env) (rule_of k1 (topic_of k1 w)) (wr_domain_id w) q (Some c) al1 (topic_of k1 w) = (Inr i, al2, t')"
    and k': "k' = set_topic w t' k1"
    using run ev dm by (auto simp: agnocast_ioctl_add_subscriber_def Let_def split: sum.splits prod.splits)
  note A = add_topic_inv [OF inv a]
  have w: "w \<in> set (topic_hashtable k1)" "wr_ipc_ns w = ns" "wr_domain_id w = dm" "wr_key w = name"
    using A(2) [OF refl] by (auto simp: cell_def)
  let ?t = "topic_of k1 w"
  note T = topic_of_ok [OF A(1) w(1)]
  define s where "s = new_subscriber dm q (Some c) (current_pubsub_id ?t) (if sp_transient_local q then -1 else current_entry_id ?t)"
  obtain ps where ps: "i = current_pubsub_id ?t" "t' = link_subscriber (id_bkt env) (rule_of k1 ?t) dm q (Some c) (?t\<lparr>pub_info_htable := ps\<rparr>)"
    by (rule insert_subscriber_info_cases [OF r]) (auto simp: w)
  have sin: "s \<in> set (sub_info_htable t')" by (auto simp: ps(2) s_def link_subscriber_def Let_def tbl_simps)
  have "settled (sp_pid q) dm k'" using p A(3) by (simp add: k' settled_def set_topic_def)
  then have l: "linked (sp_pid q) name ns w s k'"
    using w sin by (auto simp: linked_def k' set_topic_def s_def new_subscriber_def)
  have inv': "kinv k'" using add_subscriber_inv [OF inv, of env name ns q evfd al] run by simp
  have "\<not> pending (wr_topic w) i k'" if v: "\<not> sp_transient_local q"
  proof
    assume "pending (wr_topic w) i k'"
    then obtain u en where u: "u \<in> set (sub_info_htable t')" "sub_id u = i" and en: "readable k' t' u en"
      unfolding pending_def recv_window_nonempty by (auto simp: k' set_topic_def)
    have "topics k' (wr_topic w) = Some t'" by (simp add: k' set_topic_def)
    then have "topic_inv t'" using kinvD(2) [OF inv'] by (simp add: topics_ok_def topic_ok_def)
    then have "u = s" using u sin ps(1)
      by (auto simp: topic_inv_def inv_but_def ids_ok_def distinct_map inj_on_def s_def new_subscriber_def)
    moreover have "entries t' = entries ?t" by (simp add: ps(2) link_subscriber_def Let_def rebuild_all_notify_lists_def)
    ultimately have "en \<in> set (entries ?t)" "current_entry_id ?t < entry_id en"
      using en v by (auto simp: readable_def s_def new_subscriber_def)
    moreover have "tree_ok ?t" using T(2) by (auto simp: topic_ok_def topic_inv_def inv_but_def)
    ultimately show False by (force simp: tree_ok_def)
  qed
  then show ?thesis using l ps(1) by (intro exI [of _ w] exI [of _ s]) (auto simp: s_def new_subscriber_def)
qed

end
