(* ===== verification/Timer_Info.thy ===== *)
theory Timer_Info
  imports Agnocast_Prelude
begin

unbundle bit_operations_syntax

text \<open>
  Timers of the library (\<open>agnocast_timer_info.cpp\<close>) and the epoll event data they share with the other
  event sources (\<open>agnocast_epoll_event.hpp\<close>, \<open>agnocast_epoll.cpp\<close>).

  Times are nanosecond counts as integers; the signed 64-bit sums of the source are taken not to
  overflow. What the operating system and the clock answer is an argument: the time (\<open>None\<close> if
  reading it throws), and whether a call succeeds. A timer file descriptor is what it is armed
  with; an event file descriptor is whether it has been written.
\<close>

section \<open>Epoll events\<close>

datatype epoll_event_type = Subscription | Timer | Clock | Shutdown | NrEventType | Dummy

definition event_type_value :: "epoll_event_type \<Rightarrow> 32 word" where
  "event_type_value t = (case t of Subscription \<Rightarrow> 0 | Timer \<Rightarrow> 1 | Clock \<Rightarrow> 2 | Shutdown \<Rightarrow> 3 | NrEventType \<Rightarrow> 4 | Dummy \<Rightarrow> 0xFFFFFFFF)"

definition pack_epoll_data :: "epoll_event_type \<Rightarrow> 32 word \<Rightarrow> 64 word" where
  "pack_epoll_data t i = push_bit 32 (ucast (event_type_value t)) OR ucast i"

text \<open>The event type as a number: the cast back to the enumeration does not check it.\<close>

definition unpack_epoll_data :: "64 word \<Rightarrow> 32 word \<times> 32 word" where
  "unpack_epoll_data d = (ucast (drop_bit 32 d), ucast (d AND 0xFFFFFFFF))"

text \<open>\<open>wait_and_handle_epoll_event\<close> on what \<open>epoll_wait\<close> reported: nothing, the event source and local id
  to hand over to, or the end of the process.\<close>

datatype dispatch = Nothing | Handle nat "32 word" | Fatal

definition wait_and_handle_epoll_event :: "int \<Rightarrow> bool \<Rightarrow> 64 word \<Rightarrow> dispatch" where
  "wait_and_handle_epoll_event nfds eintr d =
     (if nfds = -1 then (if eintr then Nothing else Fatal)
      else if nfds = 0 then Nothing
      else let (t, i) = unpack_epoll_data d in
           if t \<ge> event_type_value NrEventType then Fatal else Handle (unat t) i)"

section \<open>Timers\<close>

definition NANOSECONDS_PER_SECOND :: int where "NANOSECONDS_PER_SECOND = 1000000000"
definition MAX_TIMER_ID :: "32 word" where "MAX_TIMER_ID = 0xFFFFFFFF - 1000"

datatype clock_type = SYSTEM_TIME | STEADY_TIME | ROS_TIME
datatype clock_change = NO_CHANGE | ROS_TIME_ACTIVATED | ROS_TIME_DEACTIVATED

type_synonym timespec = "int \<times> int"

record timer_info =
  timer_id :: "32 word"
  timer_fd :: "(timespec \<times> timespec) option"
  timer_fd_need_update :: bool
  clock_eventfd :: "nat option"
  clock_eventfd_need_update :: bool
  callback_group :: nat
  last_call_time_ns :: int
  next_call_time_ns :: int
  time_credit :: int
  period_ns :: int
  need_epoll_update :: bool

definition handle_pre_time_jump :: "int option \<Rightarrow> timer_info \<Rightarrow> timer_info" where
  "handle_pre_time_jump now ti =
     (case now of
        None \<Rightarrow> ti
      | Some t \<Rightarrow> if t = 0 then ti else ti\<lparr>time_credit := next_call_time_ns ti - t\<rparr>)"

text \<open>\<open>usable\<close>: the timer object still exists and is not cancelled.\<close>

definition handle_post_time_jump :: "clock_change \<Rightarrow> int option \<Rightarrow> bool \<Rightarrow> timer_info \<Rightarrow> timer_info" where
  "handle_post_time_jump change now usable ti =
     (case now of
        None \<Rightarrow> ti
      | Some t \<Rightarrow>
          if change = ROS_TIME_ACTIVATED then
            (let ti1 = ti\<lparr>timer_fd := None\<rparr> in
             if t = 0 then ti1
             else let credit = time_credit ti1; ti2 = ti1\<lparr>time_credit := 0\<rparr> in
                  if credit \<noteq> 0
                  then ti2\<lparr>next_call_time_ns := t - credit + period_ns ti, last_call_time_ns := t - credit\<rparr>
                  else ti2)
          else if change = ROS_TIME_DEACTIVATED then ti
          else if next_call_time_ns ti \<le> t then
            (if usable then ti\<lparr>clock_eventfd := map_option (\<lambda>c. c + 1) (clock_eventfd ti)\<rparr> else ti)
          else if t < last_call_time_ns ti then ti\<lparr>next_call_time_ns := t + period_ns ti, last_call_time_ns := t\<rparr>
          else ti)"

definition ns_to_armed_timespec :: "int \<Rightarrow> timespec" where
  "ns_to_armed_timespec ns = (if ns = 0 then (0, 1) else (ns div NANOSECONDS_PER_SECOND, ns mod NANOSECONDS_PER_SECOND))"

text \<open>\<open>None\<close>: \<open>timerfd_settime\<close> failed and the function throws.\<close>

definition arm_timer_fd :: "bool \<Rightarrow> int \<Rightarrow> (timespec \<times> timespec) option" where
  "arm_timer_fd ok period = (if ok then Some (ns_to_armed_timespec period, ns_to_armed_timespec period) else None)"

definition timer_reset :: "int \<Rightarrow> bool \<Rightarrow> timer_info \<Rightarrow> timer_info option" where
  "timer_reset now ok ti =
     (let ti1 = ti\<lparr>next_call_time_ns := now + period_ns ti\<rparr> in
      if timer_fd ti1 = None then Some ti1
      else map_option (\<lambda>spec. ti1\<lparr>timer_fd := Some spec\<rparr>) (arm_timer_fd ok (period_ns ti)))"

definition set_period :: "int \<Rightarrow> int \<Rightarrow> bool \<Rightarrow> timer_info \<Rightarrow> timer_info option" where
  "set_period new_period now ok ti =
     (let ti1 = ti\<lparr>period_ns := new_period\<rparr> in
      if timer_fd ti1 = None then Some ti1
      else if \<not> ok then None
      else Some (ti1\<lparr>timer_fd := Some (ns_to_armed_timespec (max (next_call_time_ns ti - now) 0), ns_to_armed_timespec new_period)\<rparr>))"

definition create_timer_fd :: "bool \<Rightarrow> bool \<Rightarrow> int \<Rightarrow> (timespec \<times> timespec) option" where
  "create_timer_fd created ok period = (if \<not> created then None else arm_timer_fd ok period)"

text \<open>\<open>fetch_add\<close>: the counter moves even when the id is refused.\<close>

definition allocate_timer_id :: "32 word \<Rightarrow> 32 word option \<times> 32 word" where
  "allocate_timer_id next = (if next \<ge> MAX_TIMER_ID then None else Some next, next + 1)"

section \<open>The table of timers\<close>

type_synonym timers = "32 word \<Rightarrow> timer_info option"

text \<open>\<open>None\<close>: an exception before the timer is entered.\<close>

definition register_timer_info ::
  "32 word \<Rightarrow> int \<Rightarrow> nat \<Rightarrow> clock_type \<Rightarrow> bool \<Rightarrow> int \<Rightarrow> bool \<Rightarrow> bool \<Rightarrow> bool \<Rightarrow> timers \<Rightarrow> timers option" where
  "register_timer_info i period grp clk ros_active now eventfd_ok created ok m =
     (let ti = \<lparr>timer_id = i, timer_fd = None, timer_fd_need_update = False, clock_eventfd = None,
            clock_eventfd_need_update = False, callback_group = grp, last_call_time_ns = now,
            next_call_time_ns = now + period, time_credit = 0, period_ns = period, need_epoll_update = True\<rparr>;
          uses_fd = (clk \<noteq> ROS_TIME \<or> \<not> ros_active);
          fd = (if uses_fd then create_timer_fd created ok period else None)
      in if clk = ROS_TIME \<and> \<not> eventfd_ok then None
         else if uses_fd \<and> fd = None then None
         else Some (m(i \<mapsto> ti\<lparr>timer_fd := fd, clock_eventfd := (if clk = ROS_TIME then Some 0 else None),
                timer_fd_need_update := (fd \<noteq> None), clock_eventfd_need_update := (clk = ROS_TIME)\<rparr>)))"

definition unregister_timer_info :: "32 word \<Rightarrow> timers \<Rightarrow> timers" where
  "unregister_timer_info i m = m(i := None)"

text \<open>\<open>handle_timer_event\<close> for a timer that exists and is not cancelled; the callback runs afterwards. The
  division truncates, on arguments that are not negative.\<close>

definition handle_timer_event :: "bool \<Rightarrow> int \<Rightarrow> timer_info \<Rightarrow> bool \<times> timer_info" where
  "handle_timer_event usable now ti =
     (if \<not> usable then (False, ti)
      else let next = next_call_time_ns ti + period_ns ti;
               next' = (if next < now then
                          (if period_ns ti = 0 then now
                           else let now_ahead = now - next; periods_ahead = 1 + (now_ahead - 1) div period_ns ti
                                in next + periods_ahead * period_ns ti)
                        else next)
           in (True, ti\<lparr>last_call_time_ns := now, next_call_time_ns := next'\<rparr>))"

text \<open>One timer in \<open>TimerEventHandler::prepare_epoll\<close> and \<open>ClockEventHandler::prepare_epoll\<close>: the event data
  it is registered with, if any, and its new flags.\<close>

definition prepare_timer :: "bool \<Rightarrow> timer_info \<Rightarrow> 64 word list \<times> timer_info" where
  "prepare_timer valid ti =
     (if \<not> need_epoll_update ti \<or> \<not> valid then ([], ti)
      else let add = (timer_fd ti \<noteq> None \<and> timer_fd_need_update ti);
               ti1 = (if add then ti\<lparr>timer_fd_need_update := False\<rparr> else ti)
           in (if add then [pack_epoll_data Timer (timer_id ti)] else [],
               ti1\<lparr>need_epoll_update := (timer_fd_need_update ti1 \<or> clock_eventfd_need_update ti1)\<rparr>))"

definition prepare_clock :: "bool \<Rightarrow> timer_info \<Rightarrow> 64 word list \<times> timer_info" where
  "prepare_clock valid ti =
     (if \<not> need_epoll_update ti \<or> \<not> valid then ([], ti)
      else let add = (clock_eventfd ti \<noteq> None \<and> clock_eventfd_need_update ti);
               ti1 = (if add then ti\<lparr>clock_eventfd_need_update := False\<rparr> else ti)
           in (if add then [pack_epoll_data Clock (timer_id ti)] else [],
               ti1\<lparr>need_epoll_update := (timer_fd_need_update ti1 \<or> clock_eventfd_need_update ti1)\<rparr>))"

text \<open>The two event handlers on an event of timer \<open>i\<close>: \<open>Ready\<close> is a callable for the executor.\<close>

datatype timer_reaction = Ignored | Ready "32 word" nat | Missing

definition timer_handle :: "32 word \<Rightarrow> bool \<Rightarrow> bool \<Rightarrow> u64 \<Rightarrow> timers \<Rightarrow> timer_reaction" where
  "timer_handle i alive read_ok expirations m =
     (case m i of
        None \<Rightarrow> Missing
      | Some ti \<Rightarrow>
          if \<not> alive \<or> timer_fd ti = None \<or> \<not> read_ok \<or> expirations = 0 then Ignored
          else Ready i (callback_group ti))"

definition clock_handle :: "32 word \<Rightarrow> bool \<Rightarrow> bool \<Rightarrow> u64 \<Rightarrow> int \<Rightarrow> timers \<Rightarrow> timer_reaction" where
  "clock_handle i alive read_ok val now m =
     (case m i of
        None \<Rightarrow> Missing
      | Some ti \<Rightarrow>
          if \<not> alive \<or> \<not> read_ok \<or> val = 0 \<or> now < next_call_time_ns ti then Ignored
          else Ready i (callback_group ti))"

section \<open>Event data\<close>

lemma unpack_pack: "unpack_epoll_data (pack_epoll_data t i) = (event_type_value t, i)"
proof -
  have "ucast (drop_bit 32 (push_bit 32 (ucast v) OR ucast i :: 64 word)) = v" for v :: "32 word"
    by (rule bit_word_eqI) (auto simp: bit_simps dest: bit_imp_le_length)
  moreover have low: "(0xFFFFFFFF :: 64 word) = mask 32" by (simp add: mask_eq_exp_minus_1)
  have "ucast ((push_bit 32 (ucast v) OR ucast i :: 64 word) AND 0xFFFFFFFF) = i" for v :: "32 word"
    unfolding low by (rule bit_word_eqI) (auto simp: bit_simps)
  ultimately show ?thesis by (simp add: unpack_epoll_data_def pack_epoll_data_def)
qed

text \<open>Dispatch. The event data a source is registered with comes back as its type and local id,
  for every 32-bit id: an event of a subscription, timer, clock or shutdown source is handed over to
  the handler at the index of its type with that id, and never ends the process.\<close>

theorem epoll_dispatch_round_trip:
  assumes "t \<in> {Subscription, Timer, Clock, Shutdown}" and "nfds \<noteq> -1" and "nfds \<noteq> 0"
  shows "wait_and_handle_epoll_event nfds eintr (pack_epoll_data t i) = Handle (unat (event_type_value t)) i"
  using assms by (auto simp: wait_and_handle_epoll_event_def unpack_pack event_type_value_def word_le_nat_alt)

theorem epoll_dispatch_round_trip_witness:
  "wait_and_handle_epoll_event 1 False (pack_epoll_data Clock 0xFFFFFFFF) = Handle 2 0xFFFFFFFF"
  using epoll_dispatch_round_trip [of Clock 1 False "0xFFFFFFFF"] by (simp add: event_type_value_def)

section \<open>Firing\<close>

lemma round_up:
  fixes a p :: int
  assumes "0 < p" and "0 < a"
  shows "a \<le> (1 + (a - 1) div p) * p" and "(a - 1) div p * p < a" and "0 \<le> (a - 1) div p"
proof -
  have eq: "a - 1 = (a - 1) div p * p + (a - 1) mod p" by simp
  have r: "0 \<le> (a - 1) mod p" "(a - 1) mod p < p" using assms(1) by simp_all
  show "a \<le> (1 + (a - 1) div p) * p" using eq r unfolding distrib_right by linarith
  show "(a - 1) div p * p < a" using eq r by linarith
  show "0 \<le> (a - 1) div p" using assms by (simp add: pos_imp_zdiv_nonneg_iff)
qed

text \<open>Firing. When a timer with a positive period fires, its next call is the first point of its
  grid of periods after the current one that is not in the past: missed periods are skipped, the
  phase is kept, and the time of the last call is the current time.\<close>

theorem timer_keeps_phase:
  assumes "0 < period_ns ti" and "handle_timer_event True now ti = (fired, ti')"
  shows "fired \<and> last_call_time_ns ti' = now \<and>
    (\<exists>k. 1 \<le> k \<and> next_call_time_ns ti' = next_call_time_ns ti + k * period_ns ti \<and> now \<le> next_call_time_ns ti' \<and>
       (k = 1 \<or> next_call_time_ns ti' - period_ns ti < now))"
proof -
  let ?n = "next_call_time_ns ti + period_ns ti" and ?p = "period_ns ti"
  show ?thesis
  proof (cases "?n < now")
    case True
    define d where "d = (now - ?n - 1) div ?p"
    have eq: "next_call_time_ns ti' = ?n + (1 + d) * ?p" "fired" "last_call_time_ns ti' = now"
      using assms True by (auto simp: handle_timer_event_def Let_def d_def)
    have up: "now - ?n \<le> (1 + d) * ?p" "d * ?p < now - ?n" "0 \<le> d"
      using round_up [of ?p "now - ?n"] assms(1) True by (simp_all add: d_def)
    have "next_call_time_ns ti' = next_call_time_ns ti + (2 + d) * ?p" using eq by (simp add: algebra_simps)
    moreover have "next_call_time_ns ti' - ?p < now" using eq(1) up(2) by (simp add: algebra_simps)
    ultimately show ?thesis using eq up by (intro conjI exI [of _ "2 + d"]) auto
  next
    case False
    then show ?thesis using assms by (auto simp: handle_timer_event_def Let_def intro!: exI [of _ 1])
  qed
qed

definition demo_timer :: timer_info where
  "demo_timer = \<lparr>timer_id = 1, timer_fd = None, timer_fd_need_update = False, clock_eventfd = Some 0,
     clock_eventfd_need_update = False, callback_group = 0, last_call_time_ns = 0, next_call_time_ns = 100,
     time_credit = 0, period_ns = 100, need_epoll_update = False\<rparr>"

theorem timer_keeps_phase_witness:
  "next_call_time_ns (snd (handle_timer_event True 350 demo_timer)) = 400 \<and>
   350 \<le> next_call_time_ns (snd (handle_timer_event True 350 demo_timer))"
  using timer_keeps_phase [of demo_timer 350 "fst (handle_timer_event True 350 demo_timer)" "snd (handle_timer_event True 350 demo_timer)"]
  by (simp add: demo_timer_def handle_timer_event_def)

section \<open>Switching to simulated time\<close>

text \<open>Time credit. When simulated time is activated, a timer that was \<open>r\<close> nanoseconds from its next
  call, \<open>r\<close> not zero, is scheduled \<open>period - r\<close> nanoseconds ahead in the new epoch: it waits the part of
  the period that had already elapsed, not the remainder.\<close>

theorem activation_waits_elapsed_part:
  assumes "t0 \<noteq> 0" and "t1 \<noteq> 0" and "next_call_time_ns ti \<noteq> t0"
    and "ti' = handle_post_time_jump ROS_TIME_ACTIVATED (Some t1) usable (handle_pre_time_jump (Some t0) ti)"
  shows "next_call_time_ns ti' - t1 = period_ns ti - (next_call_time_ns ti - t0) \<and> timer_fd ti' = None \<and> time_credit ti' = 0"
  using assms by (simp add: handle_pre_time_jump_def handle_post_time_jump_def Let_def)

theorem activation_waits_elapsed_part_witness:
  "next_call_time_ns (handle_post_time_jump ROS_TIME_ACTIVATED (Some 5000) True (handle_pre_time_jump (Some 30) demo_timer)) - 5000 = 30"
  using activation_waits_elapsed_part [of 30 5000 demo_timer _ True, OF _ _ _ refl] by (simp add: demo_timer_def)

end
