(* ===== verification/Executor.thy ===== *)
theory Executor
  imports Agnocast_Prelude "HOL-Library.Multiset"
begin

text \<open>
  The ready queue of the executors (\<open>agnocast_executor.cpp\<close>, \<open>agnocast_only_executor.cpp\<close>): callbacks
  that are ready wait in one vector per executor, threads scan it under its mutex for the first one
  they may run, and a mutually exclusive callback group is guarded by its atomic flag
  \<open>can_be_taken_from\<close>, which rclcpp's own threads use too.

  The flag is stored to without the mutex. The scan is therefore also a step relation in which other
  threads may finish a callback between two iterations of its loop. rclcpp loads the flag of a group and
  stores to it later, which is no test-and-set; what keeps the two kinds of threads apart is that
  \<open>MultiThreadedAgnocastExecutor\<close> refuses a mutually exclusive group with entities of both kinds.
\<close>

section \<open>The queue\<close>

datatype group_type = MutuallyExclusive | Reentrant

record 'c agnocast_executable =
  callable :: 'c
  callback_group :: nat

text \<open>The scan when nothing else happens meanwhile: what is to be executed, and the queue and the flags
  afterwards. \<open>assoc\<close> tells whether a group belongs to the executor.\<close>

fun get_next_ready_agnocast_executable ::
  "(nat \<Rightarrow> group_type) \<Rightarrow> (nat \<Rightarrow> bool) \<Rightarrow> (nat \<Rightarrow> bool) \<Rightarrow> 'c agnocast_executable list
   \<Rightarrow> ('c agnocast_executable \<times> 'c agnocast_executable list \<times> (nat \<Rightarrow> bool)) option" where
  "get_next_ready_agnocast_executable ty assoc flags [] = None"
| "get_next_ready_agnocast_executable ty assoc flags (e # es) =
     (let g = callback_group e;
          later = map_option (\<lambda>(x, q, f). (x, e # q, f)) (get_next_ready_agnocast_executable ty assoc flags es)
      in if \<not> assoc g then later
         else if ty g = MutuallyExclusive \<and> \<not> flags g then later
         else Some (e, es, if ty g = MutuallyExclusive then flags(g := False) else flags))"

text \<open>\<open>get_next_agnocast_executable\<close>: scan, wait for an event that may enqueue, scan again. \<open>wait\<close> is what
  waiting does to the queue.\<close>

definition get_next_agnocast_executable ::
  "(nat \<Rightarrow> group_type) \<Rightarrow> (nat \<Rightarrow> bool) \<Rightarrow> ('c agnocast_executable list \<Rightarrow> 'c agnocast_executable list)
   \<Rightarrow> (nat \<Rightarrow> bool) \<Rightarrow> 'c agnocast_executable list
   \<Rightarrow> ('c agnocast_executable \<times> 'c agnocast_executable list \<times> (nat \<Rightarrow> bool)) option" where
  "get_next_agnocast_executable ty assoc wait flags q =
     (case get_next_ready_agnocast_executable ty assoc flags q of
        Some r \<Rightarrow> Some r
      | None \<Rightarrow> get_next_ready_agnocast_executable ty assoc flags (wait q))"

text \<open>What \<open>execute_agnocast_executable\<close> does after the callback has returned.\<close>

definition release_group :: "(nat \<Rightarrow> group_type) \<Rightarrow> nat \<Rightarrow> (nat \<Rightarrow> bool) \<Rightarrow> nat \<Rightarrow> bool" where
  "release_group ty g flags = (if ty g = MutuallyExclusive then flags(g := True) else flags)"

section \<open>Threads\<close>

datatype 'c thread_state = Idle | Scanning nat | Executing "'c agnocast_executable"

text \<open>\<open>lock\<close> is the holder of the ready mutex; \<open>ros2_loaded\<close> are the groups whose flag a thread of rclcpp has
  seen up and not yet stored to, \<open>ros2\<close> those it has taken; \<open>enqueued\<close> and \<open>executed\<close> record what was put
  into the queue and what has been executed.\<close>

record 'c exec =
  ready :: "'c agnocast_executable list"
  can_be_taken_from :: "nat \<Rightarrow> bool"
  associated :: "nat \<Rightarrow> bool"
  lock :: "nat option"
  threads :: "nat \<Rightarrow> 'c thread_state"
  ros2_loaded :: "nat set"
  ros2 :: "nat set"
  enqueued :: "'c agnocast_executable multiset"
  executed :: "'c agnocast_executable multiset"

definition init_exec :: "'c exec" where
  "init_exec = \<lparr>ready = [], can_be_taken_from = (\<lambda>_. True), associated = (\<lambda>_. False), lock = None,
     threads = (\<lambda>_. Idle), ros2_loaded = {}, ros2 = {}, enqueued = {#}, executed = {#}\<rparr>"

definition remove_at :: "nat \<Rightarrow> 'a list \<Rightarrow> 'a list" where
  "remove_at i xs = take i xs @ drop (Suc i) xs"

text \<open>\<open>MultiThreadedAgnocastExecutor::validate_callback_group\<close>: \<open>shared\<close> says which groups have entities of rclcpp.
  \<open>False\<close> is the exit of the process. Only callbacks of a validated group are registered with epoll.\<close>

definition validate_callback_group :: "(nat \<Rightarrow> group_type) \<Rightarrow> (nat \<Rightarrow> bool) \<Rightarrow> nat \<Rightarrow> bool" where
  "validate_callback_group ty shared g \<longleftrightarrow> (if ty g = Reentrant then True else \<not> shared g)"

text \<open>A step of the scan by thread \<open>t\<close>.\<close>

inductive scan_step :: "(nat \<Rightarrow> group_type) \<Rightarrow> nat \<Rightarrow> 'c exec \<Rightarrow> 'c exec \<Rightarrow> bool" for ty t where
  scan_start: "threads s t = Idle \<Longrightarrow> lock s = None \<Longrightarrow>
     scan_step ty t s (s\<lparr>lock := Some t, threads := (threads s)(t := Scanning 0)\<rparr>)"
| scan_foreign: "threads s t = Scanning i \<Longrightarrow> i < length (ready s) \<Longrightarrow> \<not> associated s (callback_group (ready s ! i)) \<Longrightarrow>
     scan_step ty t s (s\<lparr>threads := (threads s)(t := Scanning (Suc i))\<rparr>)"
| scan_busy: "threads s t = Scanning i \<Longrightarrow> i < length (ready s) \<Longrightarrow> associated s (callback_group (ready s ! i)) \<Longrightarrow>
     ty (callback_group (ready s ! i)) = MutuallyExclusive \<Longrightarrow> \<not> can_be_taken_from s (callback_group (ready s ! i)) \<Longrightarrow>
     scan_step ty t s (s\<lparr>threads := (threads s)(t := Scanning (Suc i))\<rparr>)"
| scan_take: "threads s t = Scanning i \<Longrightarrow> i < length (ready s) \<Longrightarrow> associated s (callback_group (ready s ! i)) \<Longrightarrow>
     ty (callback_group (ready s ! i)) = MutuallyExclusive \<longrightarrow> can_be_taken_from s (callback_group (ready s ! i)) \<Longrightarrow>
     scan_step ty t s (s\<lparr>ready := remove_at i (ready s),
       can_be_taken_from := (if ty (callback_group (ready s ! i)) = MutuallyExclusive
         then (can_be_taken_from s)(callback_group (ready s ! i) := False) else can_be_taken_from s),
       lock := None, threads := (threads s)(t := Executing (ready s ! i))\<rparr>)"
| scan_end: "threads s t = Scanning i \<Longrightarrow> length (ready s) \<le> i \<Longrightarrow>
     scan_step ty t s (s\<lparr>lock := None, threads := (threads s)(t := Idle)\<rparr>)"

inductive_cases scan_stepE: "scan_step ty t s s'"

text \<open>The rest of the scan of a thread that nothing disturbs.\<close>

inductive scan_alone :: "(nat \<Rightarrow> group_type) \<Rightarrow> nat \<Rightarrow> 'c exec \<Rightarrow> 'c exec \<Rightarrow> bool" for ty t where
  Left: "\<forall>i. threads s t \<noteq> Scanning i \<Longrightarrow> scan_alone ty t s s"
| On: "threads s t = Scanning i \<Longrightarrow> scan_step ty t s s1 \<Longrightarrow> scan_alone ty t s1 s' \<Longrightarrow> scan_alone ty t s s'"

text \<open>What happens around the scans: a callback ends, an event handler or a callback enqueues, groups are
  associated with the executor or taken away from it, and the threads of rclcpp load a flag, store to it, and
  give the group back. Those threads only look at groups that have entities of rclcpp.\<close>

inductive exec_step :: "(nat \<Rightarrow> group_type) \<Rightarrow> (nat \<Rightarrow> bool) \<Rightarrow> 'c exec \<Rightarrow> 'c exec \<Rightarrow> bool" for ty shared where
  scan: "scan_step ty t s s' \<Longrightarrow> exec_step ty shared s s'"
| finish: "threads s t = Executing e \<Longrightarrow>
     exec_step ty shared s (s\<lparr>can_be_taken_from := release_group ty (callback_group e) (can_be_taken_from s),
       threads := (threads s)(t := Idle), executed := add_mset e (executed s)\<rparr>)"
| enqueue: "lock s = None \<Longrightarrow> validate_callback_group ty shared (callback_group e) \<Longrightarrow>
     exec_step ty shared s (s\<lparr>ready := ready s @ [e], enqueued := add_mset e (enqueued s)\<rparr>)"
| associate: "exec_step ty shared s (s\<lparr>associated := a\<rparr>)"
| ros2_load: "shared g \<Longrightarrow> can_be_taken_from s g \<Longrightarrow> exec_step ty shared s (s\<lparr>ros2_loaded := insert g (ros2_loaded s)\<rparr>)"
| ros2_store: "g \<in> ros2_loaded s \<Longrightarrow>
     exec_step ty shared s (s\<lparr>can_be_taken_from := (if ty g = MutuallyExclusive then (can_be_taken_from s)(g := False) else can_be_taken_from s),
       ros2_loaded := ros2_loaded s - {g}, ros2 := insert g (ros2 s)\<rparr>)"
| ros2_release: "g \<in> ros2 s \<Longrightarrow>
     exec_step ty shared s (s\<lparr>can_be_taken_from := (can_be_taken_from s)(g := True), ros2 := ros2 s - {g}\<rparr>)"

inductive_cases exec_stepE: "exec_step ty shared s s'"

inductive exec_reach :: "(nat \<Rightarrow> group_type) \<Rightarrow> (nat \<Rightarrow> bool) \<Rightarrow> 'c exec \<Rightarrow> bool" for ty shared where
  start: "exec_reach ty shared init_exec"
| step: "exec_reach ty shared s \<Longrightarrow> exec_step ty shared s s' \<Longrightarrow> exec_reach ty shared s'"

section \<open>The invariant\<close>

text \<open>The threads inside a group. No thread of this executor enters a mutually exclusive group shared with rclcpp;
  at most one is inside any other mutually exclusive group, and its flag is down exactly then.\<close>

definition inside :: "'c exec \<Rightarrow> nat \<Rightarrow> nat set" where
  "inside s g = {t. \<exists>e. threads s t = Executing e \<and> callback_group e = g}"

definition busy :: "'c exec \<Rightarrow> nat set" where
  "busy s = {t. \<exists>e. threads s t = Executing e}"

definition running :: "'c thread_state \<Rightarrow> 'c agnocast_executable multiset" where
  "running st = (case st of Executing e \<Rightarrow> {#e#} | _ \<Rightarrow> {#})"

definition exec_inv :: "(nat \<Rightarrow> group_type) \<Rightarrow> (nat \<Rightarrow> bool) \<Rightarrow> 'c exec \<Rightarrow> bool" where
  "exec_inv ty shared s \<longleftrightarrow>
     (\<forall>t. (\<exists>i. threads s t = Scanning i) \<longleftrightarrow> lock s = Some t) \<and>
     finite (busy s) \<and>
     (\<forall>g. ty g = MutuallyExclusive \<longrightarrow>
        (if shared g then inside s g = {}
         else g \<notin> ros2 s \<and> g \<notin> ros2_loaded s \<and> (if can_be_taken_from s g then inside s g = {} else \<exists>t. inside s g = {t}))) \<and>
     (\<forall>e\<in>set (ready s). validate_callback_group ty shared (callback_group e)) \<and>
     enqueued s = mset (ready s) + (\<Sum>t\<in>busy s. running (threads s t)) + executed s"

lemma remove_at_mset: "i < length xs \<Longrightarrow> mset xs = add_mset (xs ! i) (mset (remove_at i xs))"
  unfolding remove_at_def by (metis add_mset_add_single id_take_nth_drop mset.simps(2) mset_append union_commute union_assoc)

text \<open>How the derived sets change with one thread.\<close>

definition exec_at :: "'c thread_state \<Rightarrow> nat \<Rightarrow> bool" where
  "exec_at st g \<longleftrightarrow> (\<exists>e. st = Executing e \<and> callback_group e = g)"

lemma exec_at_simps [simp]: "\<not> exec_at Idle g" "\<not> exec_at (Scanning i) g" "exec_at (Executing e) g \<longleftrightarrow> callback_group e = g"
  by (auto simp: exec_at_def)

lemma running_simps [simp]: "running Idle = {#}" "running (Scanning i) = {#}" "running (Executing e) = {#e#}"
  by (simp_all add: running_def)

definition insides :: "(nat \<Rightarrow> 'c thread_state) \<Rightarrow> nat \<Rightarrow> nat set" where "insides th g = {t. exec_at (th t) g}"

definition busies :: "(nat \<Rightarrow> 'c thread_state) \<Rightarrow> nat set" where "busies th = {t. running (th t) \<noteq> {#}}"

definition run_sum :: "(nat \<Rightarrow> 'c thread_state) \<Rightarrow> 'c agnocast_executable multiset" where
  "run_sum th = (\<Sum>t\<in>busies th. running (th t))"

lemma inside_insides: "inside s g = insides (threads s) g"
  by (auto simp: inside_def insides_def exec_at_def)

lemma running_nonempty: "running st \<noteq> {#} \<longleftrightarrow> (\<exists>e. st = Executing e)"
  by (cases st) auto

lemma busy_busies: "busy s = busies (threads s)"
  by (auto simp: busy_def busies_def running_nonempty)

lemma insides_upd: "insides (th(t := x)) g = (if exec_at x g then insert t (insides th g) else insides th g - {t})"
  by (auto simp: insides_def)

lemma busies_upd: "busies (th(t := x)) = (if running x = {#} then busies th - {t} else insert t (busies th))"
  by (auto simp: busies_def)

lemma run_sum_upd:
  assumes "finite (busies th)"
  shows "run_sum (th(t := x)) + running (th t) = run_sum th + running x"
proof -
  let ?B = "insert t (busies th)"
  have fin: "finite ?B" using assms by simp
  have ext: "run_sum f = (\<Sum>u\<in>?B. running (f u))" if "busies f \<subseteq> ?B" for f :: "nat \<Rightarrow> 'a thread_state"
    unfolding run_sum_def by (rule sum.mono_neutral_left [OF fin that]) (auto simp: busies_def)
  have "run_sum th = (\<Sum>u\<in>?B. running (th u))" by (rule ext) auto
  also have "\<dots> = running (th t) + (\<Sum>u\<in>?B - {t}. running (th u))" by (rule sum.remove [OF fin]) simp
  finally have a: "run_sum th = running (th t) + (\<Sum>u\<in>?B - {t}. running (th u))" .
  have "run_sum (th(t := x)) = (\<Sum>u\<in>?B. running ((th(t := x)) u))" by (rule ext) (auto simp: busies_upd)
  also have "\<dots> = running x + (\<Sum>u\<in>?B - {t}. running ((th(t := x)) u))" by (subst sum.remove [OF fin, of t]) auto
  also have "(\<Sum>u\<in>?B - {t}. running ((th(t := x)) u)) = (\<Sum>u\<in>?B - {t}. running (th u))" by (rule sum.cong) auto
  finally have b: "run_sum (th(t := x)) = running x + (\<Sum>u\<in>?B - {t}. running (th u))" .
  show ?thesis unfolding a b by (simp add: ac_simps)
qed

lemma exec_inv_alt: "exec_inv ty shared s \<longleftrightarrow>
     (\<forall>t. (\<exists>i. threads s t = Scanning i) \<longleftrightarrow> lock s = Some t) \<and>
     finite (busies (threads s)) \<and>
     (\<forall>g. ty g = MutuallyExclusive \<longrightarrow>
        (if shared g then insides (threads s) g = {}
         else g \<notin> ros2 s \<and> g \<notin> ros2_loaded s \<and> (if can_be_taken_from s g then insides (threads s) g = {} else \<exists>t. insides (threads s) g = {t}))) \<and>
     (\<forall>e\<in>set (ready s). validate_callback_group ty shared (callback_group e)) \<and>
     enqueued s = mset (ready s) + run_sum (threads s) + executed s"
  by (simp add: exec_inv_def run_sum_def inside_insides busy_busies)

lemma not_inside: "\<not> exec_at (th t) g \<Longrightarrow> insides th g - {t} = insides th g"
  by (auto simp: insides_def)

text \<open>A step of a thread that neither starts nor finishes a callback.\<close>

lemma exec_inv_quiet:
  assumes inv: "exec_inv ty shared s" and old: "running (threads s t) = {#}" and new: "running x = {#}"
    and lk: "\<And>u. (\<exists>i. ((threads s)(t := x)) u = Scanning i) \<longleftrightarrow> l = Some u"
  shows "exec_inv ty shared (s\<lparr>lock := l, threads := (threads s)(t := x)\<rparr>)"
proof -
  have nx: "\<not> exec_at x g" "\<not> exec_at (threads s t) g" for g using old new by (auto simp: exec_at_def)
  have "run_sum ((threads s)(t := x)) = run_sum (threads s)"
    using inv run_sum_upd [of "threads s" t x] old new by (simp add: exec_inv_alt)
  then show ?thesis using inv new lk by (auto simp: exec_inv_alt insides_upd nx not_inside busies_upd)
qed

lemma exec_inv_advance:
  assumes inv: "exec_inv ty shared s" and i: "threads s t = Scanning i"
  shows "exec_inv ty shared (s\<lparr>threads := (threads s)(t := Scanning (Suc i))\<rparr>)"
proof -
  have lk: "lock s = Some t" using assms by (auto simp: exec_inv_alt)
  then have "s\<lparr>threads := (threads s)(t := Scanning (Suc i))\<rparr> = s\<lparr>lock := Some t, threads := (threads s)(t := Scanning (Suc i))\<rparr>"
    by (cases s) simp
  moreover have "exec_inv ty shared (s\<lparr>lock := Some t, threads := (threads s)(t := Scanning (Suc i))\<rparr>)"
    using inv i lk by (intro exec_inv_quiet) (auto simp: exec_inv_alt)
  ultimately show ?thesis by simp
qed

lemma remove_at_set: "set (remove_at i xs) \<subseteq> set xs"
  unfolding remove_at_def using set_take_subset set_drop_subset by fastforce

lemma scan_step_inv: "scan_step ty t s s' \<Longrightarrow> exec_inv ty shared s \<Longrightarrow> exec_inv ty shared s'"
proof (induction rule: scan_step.induct)
  case (scan_start s)
  then show ?case by (intro exec_inv_quiet) (auto simp: exec_inv_alt)
next
  case (scan_foreign s i)
  show ?case by (rule exec_inv_advance) (fact scan_foreign)+
next
  case (scan_busy s i)
  show ?case by (rule exec_inv_advance) (fact scan_busy)+
next
  case (scan_end s i)
  have "lock s = Some t" "threads s u = Scanning j \<Longrightarrow> lock s = Some u" for u j
    using scan_end by (auto simp: exec_inv_alt)
  then have "u \<noteq> t \<Longrightarrow> threads s u \<noteq> Scanning j" for u j by force
  then show ?case using scan_end.hyps by (intro exec_inv_quiet [OF scan_end.prems]) simp_all
next
  case (scan_take s i)
  let ?e = "ready s ! i" and ?g = "callback_group (ready s ! i)"
  let ?f = "if ty ?g = MutuallyExclusive then (can_be_taken_from s)(?g := False) else can_be_taken_from s"
  let ?s = "s\<lparr>ready := remove_at i (ready s), can_be_taken_from := ?f, lock := None, threads := (threads s)(t := Executing ?e)\<rparr>"
  have lk: "lock s = Some t" using scan_take by (auto simp: exec_inv_alt)
  have sum: "run_sum ((threads s)(t := Executing ?e)) = add_mset ?e (run_sum (threads s))"
    using run_sum_upd [of "threads s" t "Executing ?e"] scan_take by (simp add: exec_inv_alt)
  have ms: "mset (ready s) = add_mset ?e (mset (remove_at i (ready s)))" by (rule remove_at_mset) (rule scan_take)
  have th: "insides (threads s) g - {t} = insides (threads s) g" for g using scan_take.hyps by (intro not_inside) simp
  have only: "threads s u = Scanning j \<Longrightarrow> u = t" for u j using scan_take.prems lk by (auto simp: exec_inv_alt)
  have val: "validate_callback_group ty shared ?g" using scan_take by (simp add: exec_inv_alt)
  have a: "\<forall>u. (\<exists>i. threads ?s u = Scanning i) \<longleftrightarrow> lock ?s = Some u" using only by auto
  have b: "finite (busies (threads ?s))" using scan_take.prems by (simp add: exec_inv_alt busies_upd)
  have c: "if shared g then insides (threads ?s) g = {}
      else g \<notin> ros2 ?s \<and> g \<notin> ros2_loaded ?s \<and> (if can_be_taken_from ?s g then insides (threads ?s) g = {} else \<exists>u. insides (threads ?s) g = {u})"
    if g: "ty g = MutuallyExclusive" for g
  proof (cases "g = ?g")
    case True
    then have "\<not> shared g" "insides (threads s) g = {}"
      using val g scan_take by (auto simp: validate_callback_group_def exec_inv_alt)
    then show ?thesis using True g scan_take.prems by (simp add: exec_inv_alt insides_upd)
  next
    case False
    then show ?thesis using g scan_take.prems by (simp add: exec_inv_alt insides_upd th)
  qed
  have d: "\<forall>e\<in>set (ready ?s). validate_callback_group ty shared (callback_group e)"
    using scan_take.prems remove_at_set [of i "ready s"] by (auto simp: exec_inv_alt)
  have e: "enqueued ?s = mset (ready ?s) + run_sum (threads ?s) + executed ?s"
    using scan_take.prems by (simp add: exec_inv_alt sum ms)
  show ?case unfolding exec_inv_alt using a b c d e by blast
qed

lemma exec_inv_ros2:
  "exec_inv ty shared s \<Longrightarrow> ty g = MutuallyExclusive \<Longrightarrow> \<not> shared g \<Longrightarrow> g \<notin> ros2 s \<and> g \<notin> ros2_loaded s"
  by (simp add: exec_inv_def)

lemma exec_inv_step: "exec_step ty shared s s' \<Longrightarrow> exec_inv ty shared s \<Longrightarrow> exec_inv ty shared s'"
proof (induction rule: exec_step.induct)
  case (scan t s s')
  then show ?case by (rule scan_step_inv)
next
  case (finish s t e)
  let ?g = "callback_group e"
  let ?s = "s\<lparr>can_be_taken_from := release_group ty ?g (can_be_taken_from s), threads := (threads s)(t := Idle),
      executed := add_mset e (executed s)\<rparr>"
  have sum: "run_sum (threads s) = add_mset e (run_sum ((threads s)(t := Idle)))"
    using run_sum_upd [of "threads s" t Idle] finish by (simp add: exec_inv_alt)
  have t: "t \<in> insides (threads s) ?g" using finish by (simp add: insides_def)
  have one: "insides (threads s) ?g = {t} \<and> \<not> shared ?g" if "ty ?g = MutuallyExclusive"
    using finish that t by (auto simp: exec_inv_alt split: if_splits)
  have other: "insides (threads s) g - {t} = insides (threads s) g" if "g \<noteq> ?g" for g
    using finish that by (intro not_inside) simp
  have a: "\<forall>u. (\<exists>i. threads ?s u = Scanning i) \<longleftrightarrow> lock ?s = Some u"
  proof
    fix u
    show "(\<exists>i. threads ?s u = Scanning i) \<longleftrightarrow> lock ?s = Some u"
      using finish by (cases "u = t") (auto simp: exec_inv_alt dest: spec [of _ t])
  qed
  have b: "finite (busies (threads ?s))" using finish.prems by (simp add: exec_inv_alt busies_upd)
  have c: "if shared g then insides (threads ?s) g = {}
      else g \<notin> ros2 ?s \<and> g \<notin> ros2_loaded ?s \<and> (if can_be_taken_from ?s g then insides (threads ?s) g = {} else \<exists>u. insides (threads ?s) g = {u})"
    if g: "ty g = MutuallyExclusive" for g
  proof (cases "g = ?g")
    case True
    then show ?thesis using one g finish.prems by (simp add: exec_inv_alt release_group_def insides_upd)
  next
    case False
    moreover have "release_group ty ?g (can_be_taken_from s) g = can_be_taken_from s g" using False by (simp add: release_group_def)
    ultimately show ?thesis using other [OF False] finish.prems g by (simp add: insides_upd exec_inv_alt)
  qed
  have d: "\<forall>e\<in>set (ready ?s). validate_callback_group ty shared (callback_group e)" using finish.prems by (simp add: exec_inv_alt)
  have e: "enqueued ?s = mset (ready ?s) + run_sum (threads ?s) + executed ?s" using finish.prems sum by (simp add: exec_inv_alt)
  show ?case unfolding exec_inv_alt using a b c d e by blast
next
  case (ros2_load g s)
  then show ?case by (auto simp: exec_inv_alt)
next
  case (ros2_store g s)
  have "shared g" if "ty g = MutuallyExclusive" using ros2_store.hyps that exec_inv_ros2 [OF ros2_store.prems that] by blast
  then show ?case using ros2_store by (auto simp: exec_inv_alt)
next
  case (ros2_release g s)
  have "shared g" if "ty g = MutuallyExclusive" using ros2_release.hyps that exec_inv_ros2 [OF ros2_release.prems that] by blast
  then show ?case using ros2_release by (auto simp: exec_inv_alt)
qed (auto simp: exec_inv_alt)

lemma exec_reach_inv: "exec_reach ty shared s \<Longrightarrow> exec_inv ty shared s"
proof (induction rule: exec_reach.induct)
  case start
  then show ?case by (simp add: exec_inv_alt init_exec_def insides_def busies_def run_sum_def)
qed (rule exec_inv_step)

section \<open>The scan\<close>

definition eligible :: "(nat \<Rightarrow> group_type) \<Rightarrow> (nat \<Rightarrow> bool) \<Rightarrow> (nat \<Rightarrow> bool) \<Rightarrow> 'c agnocast_executable \<Rightarrow> bool" where
  "eligible ty assoc flags e \<longleftrightarrow>
     assoc (callback_group e) \<and> (ty (callback_group e) = MutuallyExclusive \<longrightarrow> flags (callback_group e))"

lemma next_ready_Cons:
  "get_next_ready_agnocast_executable ty assoc flags (e # es) =
     (if eligible ty assoc flags e
      then Some (e, es, if ty (callback_group e) = MutuallyExclusive then flags(callback_group e := False) else flags)
      else map_option (\<lambda>(x, q, f). (x, e # q, f)) (get_next_ready_agnocast_executable ty assoc flags es))"
  by (auto simp: eligible_def Let_def)

lemma next_ready_first:
  "get_next_ready_agnocast_executable ty assoc flags q =
     (case dropWhile (\<lambda>e. \<not> eligible ty assoc flags e) q of
        [] \<Rightarrow> None
      | e # es \<Rightarrow> Some (e, takeWhile (\<lambda>e. \<not> eligible ty assoc flags e) q @ es,
          if ty (callback_group e) = MutuallyExclusive then flags(callback_group e := False) else flags))"
proof (induction q)
  case (Cons a q)
  then show ?case
    by (cases "dropWhile (\<lambda>e. \<not> eligible ty assoc flags e) q")
       (simp_all add: next_ready_Cons del: get_next_ready_agnocast_executable.simps(2) dropWhile_eq_Nil_conv)
qed simp

text \<open>A scan that no other thread disturbs ends where the function says.\<close>

definition after_scan :: "(nat \<Rightarrow> group_type) \<Rightarrow> nat \<Rightarrow> nat \<Rightarrow> 'c exec \<Rightarrow> 'c exec" where
  "after_scan ty t i s =
     (case get_next_ready_agnocast_executable ty (associated s) (can_be_taken_from s) (drop i (ready s)) of
        None \<Rightarrow> s\<lparr>lock := None, threads := (threads s)(t := Idle)\<rparr>
      | Some (e, q, f) \<Rightarrow> s\<lparr>ready := take i (ready s) @ q, can_be_taken_from := f, lock := None,
          threads := (threads s)(t := Executing e)\<rparr>)"

lemma scanning_steps:
  assumes "threads s t = Scanning i"
  shows "scan_step ty t s s' \<longleftrightarrow>
    (if length (ready s) \<le> i then s' = s\<lparr>lock := None, threads := (threads s)(t := Idle)\<rparr>
     else if eligible ty (associated s) (can_be_taken_from s) (ready s ! i)
     then s' = s\<lparr>ready := remove_at i (ready s),
       can_be_taken_from := (if ty (callback_group (ready s ! i)) = MutuallyExclusive
         then (can_be_taken_from s)(callback_group (ready s ! i) := False) else can_be_taken_from s),
       lock := None, threads := (threads s)(t := Executing (ready s ! i))\<rparr>
     else s' = s\<lparr>threads := (threads s)(t := Scanning (Suc i))\<rparr>)"
  (is "_ \<longleftrightarrow> ?r")
proof
  assume "scan_step ty t s s'"
  then show ?r using assms by cases (simp_all add: eligible_def)
next
  assume r: ?r
  show "scan_step ty t s s'"
    using assms r scan_end [of s t i ty] scan_take [of s t i ty] scan_foreign [of s t i ty] scan_busy [of s t i ty]
    by (cases "length (ready s) \<le> i"; cases "eligible ty (associated s) (can_be_taken_from s) (ready s ! i)")
       (auto simp: eligible_def not_le)
qed

lemma scan_alone_left: "\<forall>i. threads s t \<noteq> Scanning i \<Longrightarrow> scan_alone ty t s s' \<longleftrightarrow> s' = s"
  by (auto elim: scan_alone.cases intro: scan_alone.Left)

lemma scan_alone_on:
  "threads s t = Scanning i \<Longrightarrow> scan_alone ty t s s' \<longleftrightarrow> (\<exists>s1. scan_step ty t s s1 \<and> scan_alone ty t s1 s')"
  by (auto elim: scan_alone.cases intro: scan_alone.On)

lemma scan_from:
  assumes "threads s t = Scanning i" "i \<le> length (ready s)"
  shows "scan_alone ty t s s' \<longleftrightarrow> s' = after_scan ty t i s"
  using assms
proof (induction "length (ready s) - i" arbitrary: s i)
  case 0
  then have "after_scan ty t i s = s\<lparr>lock := None, threads := (threads s)(t := Idle)\<rparr>" by (simp add: after_scan_def)
  then show ?case using 0 by (simp add: scan_alone_on scanning_steps scan_alone_left)
next
  case (Suc n)
  let ?e = "ready s ! i"
  have i: "i < length (ready s)" using Suc by simp
  then have dr: "drop i (ready s) = ?e # drop (Suc i) (ready s)" by (rule Cons_nth_drop_Suc [symmetric])
  show ?case
  proof (cases "eligible ty (associated s) (can_be_taken_from s) ?e")
    case True
    have "after_scan ty t i s = s\<lparr>ready := remove_at i (ready s),
       can_be_taken_from := (if ty (callback_group ?e) = MutuallyExclusive
         then (can_be_taken_from s)(callback_group ?e := False) else can_be_taken_from s),
       lock := None, threads := (threads s)(t := Executing ?e)\<rparr>"
      using True by (simp add: after_scan_def dr next_ready_Cons remove_at_def del: get_next_ready_agnocast_executable.simps)
    then show ?thesis using Suc.prems i True by (simp add: scan_alone_on scanning_steps scan_alone_left)
  next
    case False
    let ?s = "s\<lparr>threads := (threads s)(t := Scanning (Suc i))\<rparr>"
    have "scan_alone ty t ?s s' \<longleftrightarrow> s' = after_scan ty t (Suc i) ?s"
      using Suc.hyps(1) [of ?s "Suc i"] Suc.hyps(2) i by simp
    moreover have "after_scan ty t (Suc i) ?s = after_scan ty t i s"
      using False i by (auto simp: after_scan_def dr eligible_def Let_def take_Suc_conv_app_nth split: option.splits)
    ultimately show ?thesis using Suc.prems i False by (simp add: scan_alone_on scanning_steps)
  qed
qed

text \<open>The state that an undisturbed scan leaves.\<close>

definition first_taken :: "(nat \<Rightarrow> group_type) \<Rightarrow> nat \<Rightarrow> 'c exec \<Rightarrow> 'c exec" where
  "first_taken ty t s =
     (let el = eligible ty (associated s) (can_be_taken_from s) in
      case dropWhile (\<lambda>e. \<not> el e) (ready s) of
        [] \<Rightarrow> s
      | e # es \<Rightarrow> s\<lparr>ready := takeWhile (\<lambda>e. \<not> el e) (ready s) @ es,
          can_be_taken_from := (if ty (callback_group e) = MutuallyExclusive
            then (can_be_taken_from s)(callback_group e := False) else can_be_taken_from s),
          threads := (threads s)(t := Executing e)\<rparr>)"

lemma undisturbed_scan:
  assumes idle: "threads s t = Idle" and start: "scan_step ty t s s1"
  shows "scan_alone ty t s1 s' \<longleftrightarrow> s' = first_taken ty t s"
proof -
  have l: "lock s = None" and s1: "s1 = s\<lparr>lock := Some t, threads := (threads s)(t := Scanning 0)\<rparr>"
    using start idle by (auto elim: scan_stepE)
  have "scan_alone ty t s1 s' \<longleftrightarrow> s' = after_scan ty t 0 s1" by (rule scan_from) (simp_all add: s1)
  moreover have "after_scan ty t 0 s1 = first_taken ty t s"
    using l idle unfolding s1 first_taken_def
    by (cases s; cases "dropWhile (\<lambda>e. \<not> eligible ty (associated s) (can_be_taken_from s) e) (ready s)")
       (simp_all add: after_scan_def next_ready_first fun_upd_idem Let_def del: dropWhile_eq_Nil_conv)
  ultimately show ?thesis by simp
qed

lemma scan_alone_steps: "scan_alone ty t s s' \<Longrightarrow> (exec_step ty shared)\<^sup>*\<^sup>* s s'"
  by (induction rule: scan_alone.induct) (auto intro: converse_rtranclp_into_rtranclp exec_step.scan)

text \<open>Two callbacks of a mutually exclusive group and one of a reentrant group: the first one runs on
  thread 1 while thread 2 passes over the second one and takes the third.\<close>

definition demo_type :: "nat \<Rightarrow> group_type" where "demo_type g = (if g = 0 then MutuallyExclusive else Reentrant)"

definition demo_exe :: "nat \<Rightarrow> nat \<Rightarrow> nat agnocast_executable" where "demo_exe c g = \<lparr>callable = c, callback_group = g\<rparr>"

definition demo_exec :: "nat exec" where
  "demo_exec = init_exec\<lparr>associated := (\<lambda>_. True), ready := [demo_exe 1 0, demo_exe 2 0, demo_exe 3 1],
     enqueued := {#demo_exe 3 1, demo_exe 2 0, demo_exe 1 0#}\<rparr>"

definition demo_exec1 :: "nat exec" where
  "demo_exec1 = demo_exec\<lparr>ready := [demo_exe 2 0, demo_exe 3 1], can_be_taken_from := (\<lambda>_. True)(0 := False),
     threads := (\<lambda>_. Idle)(1 := Executing (demo_exe 1 0))\<rparr>"

definition demo_exec2 :: "nat exec" where
  "demo_exec2 = demo_exec1\<lparr>ready := [demo_exe 2 0], threads := (threads demo_exec1)(2 := Executing (demo_exe 3 1))\<rparr>"

lemma exec_reach_steps: "(exec_step ty shared)\<^sup>*\<^sup>* s s' \<Longrightarrow> exec_reach ty shared s \<Longrightarrow> exec_reach ty shared s'"
  by (induction rule: rtranclp_induct) (auto intro: exec_reach.step)

definition demo_shared :: "nat \<Rightarrow> bool" where "demo_shared g \<longleftrightarrow> g = 2"

lemma demo_enqueue:
  assumes "exec_reach demo_type demo_shared s" "lock s = None" "g \<noteq> 2"
    "s' = s\<lparr>ready := ready s @ [demo_exe c g], enqueued := add_mset (demo_exe c g) (enqueued s)\<rparr>"
  shows "exec_reach demo_type demo_shared s'"
  using exec_reach.step [OF assms(1) exec_step.enqueue [of s demo_type demo_shared "demo_exe c g"]] assms(2-)
  by (simp add: validate_callback_group_def demo_exe_def demo_shared_def)

lemma demo_exec_reach: "exec_reach demo_type demo_shared demo_exec"
proof -
  let ?a = "init_exec\<lparr>associated := (\<lambda>_. True)\<rparr> :: nat exec"
  have "exec_reach demo_type demo_shared ?a"
    by (rule exec_reach.step [OF exec_reach.start exec_step.associate])
  then have "exec_reach demo_type demo_shared (?a\<lparr>ready := [demo_exe 1 0], enqueued := {#demo_exe 1 0#}\<rparr>)"
    by (rule demo_enqueue [of _ 0]) (simp_all add: init_exec_def)
  then have "exec_reach demo_type demo_shared (?a\<lparr>ready := [demo_exe 1 0, demo_exe 2 0], enqueued := {#demo_exe 2 0, demo_exe 1 0#}\<rparr>)"
    by (rule demo_enqueue [of _ 0]) (simp_all add: init_exec_def)
  then show ?thesis by (rule demo_enqueue [of _ 1]) (simp_all add: init_exec_def demo_exec_def)
qed

lemma demo_scan1: "scan_step demo_type 1 demo_exec (demo_exec\<lparr>lock := Some 1, threads := (threads demo_exec)(1 := Scanning 0)\<rparr>)"
  by (rule scan_start) (simp_all add: demo_exec_def init_exec_def)

lemma demo_scan2: "scan_step demo_type 2 demo_exec1 (demo_exec1\<lparr>lock := Some 2, threads := (threads demo_exec1)(2 := Scanning 0)\<rparr>)"
  by (rule scan_start) (simp_all add: demo_exec1_def demo_exec_def init_exec_def)

lemma demo_scanned:
  assumes "threads s t = Idle" "scan_step ty t s s1" "first_taken ty t s = s'" "exec_reach ty shared s"
  shows "exec_reach ty shared s'"
proof -
  have "scan_alone ty t s1 s'" using undisturbed_scan [OF assms(1,2), of s'] assms(3) by simp
  then have "(exec_step ty shared)\<^sup>*\<^sup>* s1 s'" by (rule scan_alone_steps)
  then show ?thesis using exec_reach.step [OF assms(4) exec_step.scan [OF assms(2)]] by (rule exec_reach_steps)
qed

lemma demo_exec2_reach: "exec_reach demo_type demo_shared demo_exec2"
proof -
  have "first_taken demo_type 1 demo_exec = demo_exec1" "threads demo_exec 1 = Idle"
    by (simp_all add: first_taken_def demo_exec_def demo_exec1_def init_exec_def eligible_def demo_type_def demo_exe_def)
  then have r1: "exec_reach demo_type demo_shared demo_exec1" by (intro demo_scanned [OF _ demo_scan1 _ demo_exec_reach])
  have "first_taken demo_type 2 demo_exec1 = demo_exec2" "threads demo_exec1 2 = Idle"
    by (simp_all add: first_taken_def demo_exec2_def demo_exec1_def demo_exec_def init_exec_def eligible_def demo_type_def demo_exe_def)
  then show ?thesis by (intro demo_scanned [OF _ demo_scan2 _ r1])
qed

section \<open>Properties\<close>

text \<open>Claim C14. In every state the threads of an executor reach, whatever the interleaving of the iterations
  of their scans, callbacks, event handlers and rclcpp's threads: two threads are never inside the same
  mutually exclusive callback group; nor is a thread inside one whose flag rclcpp has loaded or taken,
  although rclcpp loads and stores it in two steps, because the executor only runs callbacks of groups that
  passed \<open>validate_callback_group\<close>. The flag of a mutually exclusive group without entities of rclcpp is down
  exactly while a thread is inside. Every callback that was enqueued is exactly once in the queue, being
  executed or executed. Which groups have entities of rclcpp does not change over the run: an entity
  that is added after the validation is not seen by the code.\<close>

theorem groups_mutually_exclusive:
  assumes "exec_reach ty shared s"
  shows "(\<forall>t u e e'. threads s t = Executing e \<and> threads s u = Executing e' \<and> callback_group e = callback_group e'
      \<and> ty (callback_group e) = MutuallyExclusive \<longrightarrow>
        t = u \<and> callback_group e \<notin> ros2 s \<and> callback_group e \<notin> ros2_loaded s)
    \<and> (\<forall>g. ty g = MutuallyExclusive \<and> \<not> shared g \<longrightarrow>
        (can_be_taken_from s g \<longleftrightarrow> (\<forall>t e. threads s t = Executing e \<longrightarrow> callback_group e \<noteq> g)))
    \<and> enqueued s = mset (ready s) + (\<Sum>t\<in>busy s. running (threads s t)) + executed s"
proof -
  have inv: "exec_inv ty shared s" by (rule exec_reach_inv [OF assms])
  have excl: "t = u \<and> callback_group e \<notin> ros2 s \<and> callback_group e \<notin> ros2_loaded s"
    if "threads s t = Executing e" "threads s u = Executing e'" "callback_group e = callback_group e'"
      "ty (callback_group e) = MutuallyExclusive" for t u e e'
  proof -
    have "t \<in> inside s (callback_group e)" "u \<in> inside s (callback_group e)" using that by (auto simp: inside_def)
    then show ?thesis using inv that(4) by (auto simp: exec_inv_def split: if_splits)
  qed
  have flag: "can_be_taken_from s g \<longleftrightarrow> (\<forall>t e. threads s t = Executing e \<longrightarrow> callback_group e \<noteq> g)"
    if "ty g = MutuallyExclusive" "\<not> shared g" for g
  proof -
    have "can_be_taken_from s g \<longleftrightarrow> inside s g = {}" using inv that by (auto simp: exec_inv_def split: if_splits)
    then show ?thesis by (auto simp: inside_def)
  qed
  have "enqueued s = mset (ready s) + (\<Sum>t\<in>busy s. running (threads s t)) + executed s"
    using inv by (simp add: exec_inv_def)
  with excl flag show ?thesis by blast
qed

theorem groups_mutually_exclusive_witness:
  "threads demo_exec2 1 = Executing (demo_exe 1 0) \<and> threads demo_exec2 2 = Executing (demo_exe 3 1)
   \<and> demo_exe 2 0 \<in># mset (ready demo_exec2) \<and> 0 \<notin> ros2 demo_exec2 \<and> \<not> can_be_taken_from demo_exec2 0
   \<and> enqueued demo_exec2 = mset (ready demo_exec2) + (\<Sum>t\<in>busy demo_exec2. running (threads demo_exec2 t)) + executed demo_exec2"
proof -
  have d: "threads demo_exec2 1 = Executing (demo_exe 1 0)" "threads demo_exec2 2 = Executing (demo_exe 3 1)"
    "callback_group (demo_exe 1 0) = 0" "demo_type 0 = MutuallyExclusive" "\<not> demo_shared 0" "ready demo_exec2 = [demo_exe 2 0]"
    by (simp_all add: demo_exec2_def demo_exec1_def demo_exe_def demo_type_def demo_shared_def)
  note g = groups_mutually_exclusive [OF demo_exec2_reach]
  have "0 \<notin> ros2 demo_exec2" using g [THEN conjunct1, rule_format, of 1 "demo_exe 1 0" 1 "demo_exe 1 0"] d by auto
  moreover have "\<not> can_be_taken_from demo_exec2 0" using g [THEN conjunct2, THEN conjunct1, rule_format, of 0] d by auto
  ultimately show ?thesis using d g [THEN conjunct2, THEN conjunct2] by simp
qed

text \<open>Claim C15. When an idle thread starts a scan and nothing disturbs it, the scan has exactly one outcome: the
  thread leaves with the first executable whose group belongs to the executor and is free, having taken it out
  of the queue without reordering the others, closed its group if that is mutually exclusive, and released the
  mutex; if there is no such executable everything is as it was before the scan.\<close>

theorem scan_takes_first_eligible:
  fixes ty :: "nat \<Rightarrow> group_type"
  assumes "threads s t = Idle" "scan_step ty t s s1"
  defines "free \<equiv> (\<lambda>e. associated s (callback_group e)
      \<and> (ty (callback_group e) = MutuallyExclusive \<longrightarrow> can_be_taken_from s (callback_group e)))"
  shows "scan_alone ty t s1 s' \<longleftrightarrow>
    s' = (case dropWhile (\<lambda>e. \<not> free e) (ready s) of
       [] \<Rightarrow> s
     | e # es \<Rightarrow> s\<lparr>ready := takeWhile (\<lambda>e. \<not> free e) (ready s) @ es,
         can_be_taken_from := (if ty (callback_group e) = MutuallyExclusive
           then (can_be_taken_from s)(callback_group e := False) else can_be_taken_from s),
         threads := (threads s)(t := Executing e)\<rparr>)"
  using undisturbed_scan [OF assms(1,2), of s'] unfolding free_def first_taken_def eligible_def Let_def .

theorem scan_takes_first_eligible_witness:
  "scan_alone demo_type 2 (demo_exec1\<lparr>lock := Some 2, threads := (threads demo_exec1)(2 := Scanning 0)\<rparr>) demo_exec2"
proof -
  have "threads demo_exec1 2 = Idle" by (simp add: demo_exec1_def demo_exec_def init_exec_def)
  then show ?thesis
    by (subst scan_takes_first_eligible [OF _ demo_scan2])
       (simp_all add: demo_exec2_def demo_exec1_def demo_exec_def init_exec_def demo_type_def demo_exe_def)
qed

end
