(* ===== verification/Callback_Info.thy ===== *)
theory Callback_Info
  imports Kmod_Link Timer_Info Executor Ordered_Map
begin

text \<open>
  The subscription side of the library: the registry of callbacks (\<open>agnocast_callback_info.hpp/.cpp\<close>), the flags
  that tell executors to look at it again (\<open>agnocast_epoll_update_dispatcher\<close>), and the life of a subscription
  (\<open>agnocast_subscription.hpp/.cpp\<close>). A call of the user's callback is represented by its arguments; \<open>exit\<close> of
  the process by \<open>None\<close>.
\<close>

section \<open>Callback infos\<close>

definition MAX_CALLBACK_INFO_ID :: "32 word" where
  "MAX_CALLBACK_INFO_ID = 0xFFFFFFFF - 1000"

text \<open>\<open>CallbackInfo\<close> without the two function objects, which the identifier stands for.\<close>

record callback_info =
  ci_topic_name :: string
  ci_subscriber_id :: int
  ci_is_transient_local :: bool
  ci_notify_eventfd :: int
  ci_callback_group :: nat
  ci_need_epoll_update :: bool

text \<open>What an executable of the ready queue calls: \<open>receive_and_execute_message\<close> with a copy of the info.\<close>

type_synonym receive_task = "32 word \<times> callback_info"

section \<open>Update requests\<close>

text \<open>\<open>EpollUpdateDispatcher\<close>: the trackers with their \<open>need_update\<close> flags.\<close>

record dispatcher =
  next_tracker_id :: "64 word"
  trackers :: "(64 word \<times> bool) list"

definition init_dispatcher :: dispatcher where
  "init_dispatcher = \<lparr>next_tracker_id = 1, trackers = []\<rparr>"

text \<open>\<open>emplace\<close> keeps an existing binding.\<close>

definition register_tracker :: "dispatcher \<Rightarrow> 64 word \<times> dispatcher" where
  "register_tracker d =
     (let i = next_tracker_id d;
          ts = (if map_of (trackers d) i = None then (i, True) # trackers d else trackers d)
      in (i, \<lparr>next_tracker_id = i + 1, trackers = ts\<rparr>))"

definition request_update_all :: "dispatcher \<Rightarrow> dispatcher" where
  "request_update_all d = d\<lparr>trackers := map (\<lambda>(i, _). (i, True)) (trackers d)\<rparr>"

definition request_update :: "64 word \<Rightarrow> dispatcher \<Rightarrow> dispatcher" where
  "request_update i d = d\<lparr>trackers := map (\<lambda>(j, b). (j, if j = i then True else b)) (trackers d)\<rparr>"

definition unregister_tracker :: "64 word \<Rightarrow> dispatcher \<Rightarrow> dispatcher" where
  "unregister_tracker i d = d\<lparr>trackers := filter (\<lambda>(j, _). j \<noteq> i) (trackers d)\<rparr>"

definition take_update_request :: "64 word \<Rightarrow> dispatcher \<Rightarrow> bool \<times> dispatcher" where
  "take_update_request i d =
     (map_of (trackers d) i = Some True,
      d\<lparr>trackers := map (\<lambda>(j, b). (j, if j = i then False else b)) (trackers d)\<rparr>)"

section \<open>The registry\<close>

record registry =
  id2_callback_info :: "(32 word \<times> callback_info) list"
  next_callback_info_id :: "32 word"
  epoll_dispatcher :: dispatcher
  ready_agnocast_executables :: "receive_task agnocast_executable list"

text \<open>The atomic counter advances even when the id is refused.\<close>

definition allocate_callback_info_id :: "registry \<Rightarrow> 32 word option \<times> registry" where
  "allocate_callback_info_id g =
     (let i = next_callback_info_id g; g' = g\<lparr>next_callback_info_id := i + 1\<rparr>
      in (if i \<ge> MAX_CALLBACK_INFO_ID then None else Some i, g'))"

text \<open>\<open>id2_callback_info[id] = ...\<close> overwrites.\<close>

definition store_callback_info :: "32 word \<Rightarrow> callback_info \<Rightarrow> registry \<Rightarrow> registry" where
  "store_callback_info i info g =
     g\<lparr>id2_callback_info := (i, info) # filter (\<lambda>(j, _). j \<noteq> i) (id2_callback_info g)\<rparr>"

definition register_callback :: "string \<Rightarrow> int \<Rightarrow> bool \<Rightarrow> int \<Rightarrow> nat \<Rightarrow> registry \<Rightarrow> 32 word option \<times> registry" where
  "register_callback name sid dur fd grp g =
     (case allocate_callback_info_id g of
        (None, g1) \<Rightarrow> (None, g1)
      | (Some i, g1) \<Rightarrow>
          (let info = \<lparr>ci_topic_name = name, ci_subscriber_id = sid, ci_is_transient_local = dur, ci_notify_eventfd = fd,
                       ci_callback_group = grp, ci_need_epoll_update = True\<rparr>;
               g2 = store_callback_info i info g1
           in (Some i, g2\<lparr>epoll_dispatcher := request_update_all (epoll_dispatcher g2)\<rparr>)))"

definition enqueue_receive_and_execute :: "32 word \<Rightarrow> callback_info \<Rightarrow> registry \<Rightarrow> registry" where
  "enqueue_receive_and_execute i info g =
     g\<lparr>ready_agnocast_executables :=
         ready_agnocast_executables g @ [\<lparr>callable = (i, info), callback_group = ci_callback_group info\<rparr>]\<rparr>"

text \<open>The names of the topics of a group, sorted as \<open>std::sort\<close> does.\<close>

definition get_agnocast_topics_by_group :: "nat \<Rightarrow> registry \<Rightarrow> string list" where
  "get_agnocast_topics_by_group grp g =
     sort (map (ci_topic_name \<circ> snd) (filter (\<lambda>(_, info). ci_callback_group info = grp) (id2_callback_info g)))"

text \<open>The loop of \<open>prepare_epoll\<close> over the infos still to visit: the events added to the epoll instance (descriptor
  and data word), the infos afterwards and the tasks enqueued; \<open>None\<close> when \<open>epoll_ctl\<close> refuses a descriptor.\<close>

fun prepare_infos ::
  "(nat \<Rightarrow> bool) \<Rightarrow> (int \<Rightarrow> bool) \<Rightarrow> (32 word \<times> callback_info) list \<Rightarrow>
   ((int \<times> 64 word) list \<times> (32 word \<times> callback_info) list \<times> receive_task list) option" where
  "prepare_infos validate epoll_add [] = Some ([], [], [])"
| "prepare_infos validate epoll_add ((i, info) # rest) =
     (if \<not> ci_need_epoll_update info \<or> \<not> validate (ci_callback_group info)
      then (case prepare_infos validate epoll_add rest of
              None \<Rightarrow> None | Some (evs, infos, tasks) \<Rightarrow> Some (evs, (i, info) # infos, tasks))
      else if \<not> epoll_add (ci_notify_eventfd info) then None
      else (case prepare_infos validate epoll_add rest of
              None \<Rightarrow> None
            | Some (evs, infos, tasks) \<Rightarrow>
                Some ((ci_notify_eventfd info, pack_epoll_data Subscription i) # evs,
                      (i, info\<lparr>ci_need_epoll_update := False\<rparr>) # infos,
                      if ci_is_transient_local info then (i, info) # tasks else tasks)))"

definition prepare_epoll :: "(nat \<Rightarrow> bool) \<Rightarrow> (int \<Rightarrow> bool) \<Rightarrow> registry \<Rightarrow> ((int \<times> 64 word) list \<times> registry) option" where
  "prepare_epoll validate epoll_add g =
     (case prepare_infos validate epoll_add (id2_callback_info g) of
        None \<Rightarrow> None
      | Some (evs, infos, tasks) \<Rightarrow>
          Some (evs, fold (\<lambda>(i, info). enqueue_receive_and_execute i info) tasks (g\<lparr>id2_callback_info := infos\<rparr>)))"

text \<open>\<open>read\<close> of an eventfd: the counter is non-zero and cleared, or \<open>EAGAIN\<close>, or another error.\<close>

datatype eventfd_read = Drained | Again | Failed

definition handle :: "32 word \<Rightarrow> (int \<Rightarrow> eventfd_read) \<Rightarrow> registry \<Rightarrow> registry option" where
  "handle i rd g =
     (case map_of (id2_callback_info g) i of
        None \<Rightarrow> Some g
      | Some info \<Rightarrow>
          (case rd (ci_notify_eventfd info) of
             Failed \<Rightarrow> None | Again \<Rightarrow> Some g | Drained \<Rightarrow> Some (enqueue_receive_and_execute i info g)))"

section \<open>Receiving\<close>

text \<open>A callback's argument: address, topic, subscriber id and entry id of the message handle it gets.\<close>

type_synonym callback_call = "u64 \<times> string \<times> int \<times> int"

definition receive_and_execute_message ::
  "kenv \<Rightarrow> pid \<Rightarrow> ipc_ns \<Rightarrow> allocs \<Rightarrow> 32 word \<Rightarrow> callback_info \<Rightarrow> registry \<Rightarrow> kstate \<Rightarrow>
   (callback_call list \<times> (pid \<times> u64 \<times> u64) list \<times> registry) option \<times> kstate" where
  "receive_and_execute_message env my_pid ns al i info g k =
     (case agnocast_ioctl_receive_msg env my_pid (ci_topic_name info) ns (ci_subscriber_id info) MAX_PUBLISHER_NUM al k of
        (Inl e, k') \<Rightarrow> (None, k')
      | (Inr (recs, call_again, shms), k') \<Rightarrow>
          (let calls = map (\<lambda>(eid, addr). (addr, ci_topic_name info, ci_subscriber_id info, eid)) recs;
               g' = (if call_again then enqueue_receive_and_execute i info g else g)
           in (Some (calls, shms, g'), k')))"

section \<open>The life of a subscription\<close>

text \<open>\<open>initialize\<close> of \<open>SubscriptionBase\<close>: a subscription with a callback creates an eventfd (\<open>efd\<close>, \<open>None\<close> when that
  fails), then the kernel module is told; the result is the subscriber id and the descriptor. The announcements
  to the discovery agent and to the bridge manager are not part of the model.\<close>

definition initialize ::
  "kenv \<Rightarrow> ipc_ns \<Rightarrow> string \<Rightarrow> sub_params \<Rightarrow> int option \<Rightarrow> allocs \<Rightarrow> kstate \<Rightarrow> (int \<times> int) option \<times> kstate" where
  "initialize env ns name q efd al k =
     (case (if sp_take q then Some (- 1) else efd) of
        None \<Rightarrow> (None, k)
      | Some fd \<Rightarrow>
          (case agnocast_ioctl_add_subscriber env name ns q fd al k of
             (Inl e, k') \<Rightarrow> (None, k')
           | (Inr sid, k') \<Rightarrow> (Some (sid, fd), k')))"

text \<open>\<open>constructor_impl\<close> of \<open>Subscription\<close>: the outer \<open>None\<close> is \<open>exit\<close>, the inner one the exception of an exhausted id
  counter.\<close>

definition subscribe ::
  "kenv \<Rightarrow> ipc_ns \<Rightarrow> string \<Rightarrow> sub_params \<Rightarrow> int option \<Rightarrow> nat \<Rightarrow> allocs \<Rightarrow> registry \<Rightarrow> kstate \<Rightarrow>
   (int \<times> 32 word option \<times> registry) option \<times> kstate" where
  "subscribe env ns name q efd grp al g k =
     (case initialize env ns name (q\<lparr>sp_take := False\<rparr>) efd al k of
        (None, k') \<Rightarrow> (None, k')
      | (Some (sid, fd), k') \<Rightarrow>
          (case register_callback name sid (sp_transient_local q) fd grp g of
             (oid, g') \<Rightarrow> (Some (sid, oid, g'), k')))"

text \<open>\<open>~SubscriptionBase\<close>: a failure is only logged.\<close>

definition destroy_base :: "pid \<Rightarrow> ipc_ns \<Rightarrow> string \<Rightarrow> int \<Rightarrow> kstate \<Rightarrow> kstate" where
  "destroy_base my_pid ns name sid k =
     (if sid \<ge> 0 then snd (agnocast_ioctl_remove_subscriber my_pid name ns sid k) else k)"

text \<open>\<open>~Subscription\<close>, which is followed by \<open>~SubscriptionBase\<close>.\<close>

definition unsubscribe :: "pid \<Rightarrow> ipc_ns \<Rightarrow> 32 word \<Rightarrow> string \<Rightarrow> int \<Rightarrow> registry \<Rightarrow> kstate \<Rightarrow> registry \<times> kstate" where
  "unsubscribe my_pid ns i name sid g k =
     (g\<lparr>id2_callback_info := filter (\<lambda>(j, _). j \<noteq> i) (id2_callback_info g)\<rparr>, destroy_base my_pid ns name sid k)"

end
