(* ===== verification/Delivery.thy ===== *)
theory Delivery
  imports Kmod_Position Kmod_Scenario
begin

text \<open>
  What a subscriber is handed over its lifetime, by the receive and take handlers, while all processes go on using the
  kernel module: every message at most once and in the order of publication.
\<close>

section \<open>What a subscriber is handed\<close>

text \<open>The entries an event hands to subscriber \<open>sid\<close> of the topic at address \<open>a\<close>: a receive, or a take that
  does not ask for the same message again.\<close>

definition addressed :: "nat \<Rightarrow> pid \<Rightarrow> string \<Rightarrow> ipc_ns \<Rightarrow> kstate \<Rightarrow> bool" where
  "addressed a cur name ns k \<longleftrightarrow> (case find_topic_for_current cur name ns k of None \<Rightarrow> False | Some w \<Rightarrow> wr_topic w = a)"

fun handed :: "kenv \<Rightarrow> nat \<Rightarrow> int \<Rightarrow> kop \<Rightarrow> kstate \<Rightarrow> int list" where
  "handed env a sid (ReceiveMsg cur name ns i cap al) k =
     (if i = sid \<and> addressed a cur name ns k then
        (case fst (agnocast_ioctl_receive_msg env cur name ns i cap al k) of
           Inr (recs, _, _) \<Rightarrow> map fst recs | Inl _ \<Rightarrow> [])
      else [])"
| "handed env a sid (TakeMsg cur name ns i same cap al) k =
     (if i = sid \<and> \<not> same \<and> addressed a cur name ns k then
        (case fst (agnocast_ioctl_take_msg env cur name ns i same cap al k) of
           Inr (Some (e, _), _) \<Rightarrow> [e] | _ \<Rightarrow> [])
      else [])"
| "handed env a sid _ k = []"

primrec delivered :: "kenv \<Rightarrow> nat \<Rightarrow> int \<Rightarrow> kop list \<Rightarrow> kstate \<Rightarrow> int list" where
  "delivered env a sid [] k = []"
| "delivered env a sid (op # ops) k = handed env a sid op k @ delivered env a sid ops (kstep env op k)"

text \<open>Subscriber \<open>sid\<close> of topic \<open>a\<close>, if it is there, has read up to \<open>L\<close> at least; and nobody else gets its id.\<close>

definition read_to :: "nat \<Rightarrow> int \<Rightarrow> int \<Rightarrow> kstate \<Rightarrow> bool" where
  "read_to a sid L k \<longleftrightarrow> a < next_topic k \<and>
     (\<forall>t. topics k a = Some t \<longrightarrow> sid < current_pubsub_id t \<and>
        (\<forall>s\<in>set (sub_info_htable t). sub_id s = sid \<longrightarrow> L \<le> latest_received_entry_id s))"

lemma read_to_kprog: "read_to a sid L k \<Longrightarrow> kprog f k k' \<Longrightarrow> read_to a sid L k'"
proof -
  assume r: "read_to a sid L k" and p: "kprog f k k'"
  have a: "a < next_topic k" using r by (simp add: read_to_def)
  have "sid < current_pubsub_id t' \<and> (\<forall>s'\<in>set (sub_info_htable t'). sub_id s' = sid \<longrightarrow> L \<le> latest_received_entry_id s')"
    if t': "topics k' a = Some t'" for t'
  proof -
    obtain t where t: "topics k a = Some t" "prog f t t'" using p a t' by (auto simp: kprog_def)
    then have lt: "sid < current_pubsub_id t" and L: "\<forall>s\<in>set (sub_info_htable t). sub_id s = sid \<longrightarrow> L \<le> latest_received_entry_id s"
      using r by (auto simp: read_to_def)
    show ?thesis using t(2) lt L by (fastforce simp: prog_def skey_def)
  qed
  moreover have "a < next_topic k'" using a p by (simp add: kprog_def)
  ultimately show ?thesis by (simp add: read_to_def)
qed

lemma set_topic_topics [simp]: "topics (set_topic w t k) = (topics k)(wr_topic w \<mapsto> t)"
  by (simp add: set_topic_def)

lemma position_after_update_mmap:
  assumes "topics k (wr_topic w) = Some t" and "\<forall>u\<in>set (sub_info_htable t). sub_id u = sid \<longrightarrow> latest_received_entry_id u = L"
  shows "\<exists>t'. topics (snd (update_mmap env w s cap al k)) (wr_topic w) = Some t' \<and> current_pubsub_id t' = current_pubsub_id t
    \<and> (\<forall>u\<in>set (sub_info_htable t'). sub_id u = sid \<longrightarrow> latest_received_entry_id u = L)"
  using update_mmap_topics [OF assms(1), of env s cap al] assms by (auto simp: set_upd_key split: if_splits)

lemma position_after_hand_out:
  "out \<noteq> [] \<Longrightarrow> \<forall>u\<in>set (sub_info_htable (hand_out s out t)). sub_id u = sub_id s \<longrightarrow> latest_received_entry_id u = entry_id (last out)"
  by (auto simp: hand_out_def set_upd_key split: if_splits)

lemma pubsub_id_hand_out [simp]: "current_pubsub_id (hand_out s out t) = current_pubsub_id t"
  by (simp add: hand_out_def upd_sub_def)

lemma next_topic_update_mmap [simp]: "next_topic (snd (update_mmap env w s cap al k)) = next_topic k"
  by (auto simp: update_mmap_def Let_def set_topic_def split: prod.splits sum.splits)

text \<open>An event hands out entries beyond the position, in order, and moves the position to the last of them.\<close>

lemma handed_step:
  assumes inv: "kinv k" and ne: "handed env a sid op k \<noteq> []"
  shows "\<exists>t s (out :: entry_node list). topics k a = Some t \<and> s \<in> set (sub_info_htable t) \<and> sub_id s = sid \<and> out \<noteq> [] \<and>
      handed env a sid op k = map entry_id out \<and> sorted_wrt (<) (map entry_id out) \<and>
      (\<forall>en\<in>set out. latest_received_entry_id s < entry_id en) \<and> read_to a sid (entry_id (last out)) (kstep env op k)"
proof -
  have main: "topics k (wr_topic w) = Some t \<and> s \<in> set (sub_info_htable t) \<and> sub_id s = i \<and>
      read_to (wr_topic w) i (entry_id (last out)) (snd (update_mmap env w s cap al (set_topic w (hand_out s out t) k)))"
    if w: "find_topic_for_current cur name ns k = Some w" and t: "t = topic_of k w"
      and s: "find_subscriber_info i t = Some s" and out: "out \<noteq> []" for cur name ns w t i s out cap al
  proof -
    note W = found_topic [OF inv w]
    have sin: "s \<in> set (sub_info_htable t)" "sub_id s = i"
      using s find_subscriber_info_Some W(3) by (auto simp: t topic_inv_def inv_but_def)
    have "ids_ok t" using W(3) by (simp add: t topic_inv_def inv_but_def)
    then have "i < current_pubsub_id t" using sin by (auto simp: ids_ok_def sub_ids_def)
    moreover have "wr_topic w < next_topic k" using W(2) kinvD(2) [OF inv] by (auto simp: topics_ok_def topic_ok_def)
    ultimately show ?thesis
      using position_after_update_mmap [of "set_topic w (hand_out s out t) k" w "hand_out s out t" i "entry_id (last out)" env s cap al]
        position_after_hand_out [OF out, of s t] W(2) sin
      by (auto simp: read_to_def t set_topic_def)
  qed
  show ?thesis
  proof (cases op)
    case (ReceiveMsg cur name ns i cap al)
    then obtain recs again shms w where r: "fst (agnocast_ioctl_receive_msg env cur name ns i cap al k) = Inr (recs, again, shms)"
      and i: "i = sid" and w: "find_topic_for_current cur name ns k = Some w" "wr_topic w = a" and h: "handed env a sid op k = map fst recs"
      using ne by (auto simp: addressed_def split: if_splits sum.splits option.splits)
    note W = found_topic [OF inv w(1)]
    let ?t = "topic_of k w"
    obtain s where s: "find_subscriber_info i ?t = Some s"
      using r w by (auto simp: agnocast_ioctl_receive_msg_def Let_def split: option.splits)
    have sin: "s \<in> set (sub_info_htable ?t)"
      using s find_subscriber_info_Some W(3) by (auto simp: topic_inv_def inv_but_def)
    define win where "win = recv_window (proc_info_htable k) (rule_of k ?t) s ?t"
    define out where "out = take MAX_RECEIVE_NUM win"
    have run: "agnocast_ioctl_receive_msg env cur name ns i cap al k =
        (case update_mmap env w s cap al (set_topic w (hand_out s out ?t) k) of
           (Inl e, k') \<Rightarrow> (Inl e, k') | (Inr shms, k') \<Rightarrow> (Inr (map out_of out, MAX_RECEIVE_NUM < length win, shms), k'))"
      using w(1) s unfolding out_def win_def
      by (simp add: agnocast_ioctl_receive_msg_def receive_msg_core_spec [OF W(3) sin] Let_def)
    then have recs: "recs = map out_of out" and st: "kstep env op k = snd (update_mmap env w s cap al (set_topic w (hand_out s out ?t) k))"
      using r by (auto simp: ReceiveMsg split: prod.splits sum.splits)
    have "sorted_wrt (<) (map entry_id (entries ?t))" using W(3) by (auto simp: topic_inv_def inv_but_def tree_ok_def)
    then have "sorted_wrt (<) (map entry_id out)"
      unfolding out_def win_def recv_window_def lastn_def unread_def
      by (simp add: sorted_wrt_map sorted_wrt_take sorted_wrt_drop sorted_wrt_filter)
    moreover have "\<forall>en\<in>set out. latest_received_entry_id s < entry_id en"
      using recv_window_subset [of "proc_info_htable k" "rule_of k ?t" s ?t] set_take_subset [of MAX_RECEIVE_NUM win]
      unfolding out_def win_def by blast
    moreover have "out \<noteq> []" using ne h recs by auto
    moreover have "handed env a sid op k = map entry_id out" using h recs by (simp add: out_of_def comp_def)
    ultimately show ?thesis using main [OF w(1) refl s, of out cap al] st w(2) i by metis
  next
    case (TakeMsg cur name ns i same cap al)
    then obtain e ad shms w where r: "fst (agnocast_ioctl_take_msg env cur name ns i same cap al k) = Inr (Some (e, ad), shms)"
      and i: "i = sid" "\<not> same" and w: "find_topic_for_current cur name ns k = Some w" "wr_topic w = a" and h: "handed env a sid op k = [e]"
      using ne by (auto simp: addressed_def split: if_splits sum.splits option.splits)
    note W = found_topic [OF inv w(1)]
    let ?t = "topic_of k w"
    obtain s where s: "find_subscriber_info i ?t = Some s"
      using r w by (auto simp: agnocast_ioctl_take_msg_def Let_def split: option.splits)
    have sin: "s \<in> set (sub_info_htable ?t)"
      using s find_subscriber_info_Some W(3) by (auto simp: topic_inv_def inv_but_def)
    obtain en es where win: "take_window (proc_info_htable k) (rule_of k ?t) s same ?t = en # es"
      using r w(1) s by (auto simp: agnocast_ioctl_take_msg_def take_msg_core_spec [OF W(3) sin] Let_def split: list.splits sum.splits prod.splits)
    have run: "agnocast_ioctl_take_msg env cur name ns i same cap al k =
        (case update_mmap env w s cap al (set_topic w (hand_out s [en] ?t) k) of
           (Inl e, k') \<Rightarrow> (Inl e, k') | (Inr shms, k') \<Rightarrow> (Inr (Some (out_of en), shms), k'))"
      using w(1) s win by (simp add: agnocast_ioctl_take_msg_def take_msg_core_spec [OF W(3) sin] Let_def)
    then have e: "e = entry_id en" and st: "kstep env op k = snd (update_mmap env w s cap al (set_topic w (hand_out s [en] ?t) k))"
      using r by (auto simp: TakeMsg out_of_def split: prod.splits sum.splits)
    have "latest_received_entry_id s < entry_id en"
      using take_window_subset [of "proc_info_htable k" "rule_of k ?t" s same ?t] i(2) unfolding win by force
    then show ?thesis
      using main [OF w(1) refl s, of "[en]" cap al] h e st w(2) i by (intro exI [of _ ?t] exI [of _ s] exI [of _ "[en]"]) auto
  qed (use ne in auto)
qed


lemma handed_above:
  assumes "kinv k" "read_to a sid L k"
  shows "sorted_wrt (<) (handed env a sid op k) \<and> (\<forall>e\<in>set (handed env a sid op k). L < e)"
proof (cases "handed env a sid op k = []")
  case False
  obtain t s and out :: "entry_node list" where "topics k a = Some t" "s \<in> set (sub_info_htable t)" "sub_id s = sid"
    and h: "handed env a sid op k = map entry_id out" "sorted_wrt (<) (map entry_id out)"
    and gt: "\<forall>en\<in>set out. latest_received_entry_id s < entry_id en"
    using handed_step [OF assms(1) False] by blast
  then have "L \<le> latest_received_entry_id s" using assms(2) by (auto simp: read_to_def)
  then show ?thesis using h gt by force
qed simp

lemma read_to_mono: "read_to a sid L k \<Longrightarrow> L' \<le> L \<Longrightarrow> read_to a sid L' k"
  by (fastforce simp: read_to_def)

text \<open>Once something has been handed out, what follows lies beyond it.\<close>

lemma handed_moves_position:
  assumes "kinv k" "e \<in> set (handed env a sid op k)"
  shows "read_to a sid e (kstep env op k)"
proof -
  have ne: "handed env a sid op k \<noteq> []" using assms(2) by auto
  obtain out :: "entry_node list" where out: "out \<noteq> []" "handed env a sid op k = map entry_id out" "sorted_wrt (<) (map entry_id out)"
    and r: "read_to a sid (entry_id (last out)) (kstep env op k)"
    using handed_step [OF assms(1) ne] by blast
  obtain en where en: "en \<in> set out" "e = entry_id en" using assms(2) out(2) by auto
  have "entry_id en \<le> entry_id (last out)"
  proof -
    have s: "sorted (map entry_id out)" using out(3) strict_sorted_iff by blast
    obtain n where n: "n < length out" "en = out ! n" using en(1) by (auto simp: in_set_conv_nth)
    then have "map entry_id out ! n \<le> map entry_id out ! (length out - 1)" by (intro sorted_nth_mono [OF s]) auto
    then show ?thesis using n out(1) by (simp add: last_conv_nth)
  qed
  then show ?thesis using read_to_mono [OF r] en(2) by simp
qed

lemma delivered_above:
  "kinv k \<Longrightarrow> read_to a sid L k \<Longrightarrow> \<forall>e\<in>set (delivered env a sid ops k). L < e"
proof (induction ops arbitrary: k)
  case (Cons op ops)
  then show ?case
    using handed_above [OF Cons.prems, of env op] Cons.IH [OF kstep_inv read_to_kprog [OF _ kstep_kprog]] by auto
qed simp

text \<open>Claim C7. Whatever the processes do, the entries a subscriber of a topic is handed over its lifetime by receives
  and by takes that do not ask for the same message again have strictly increasing ids: none of them hands a
  message out twice or lets one overtake another, across messages of all publishers of the topic. A take with
  \<open>allow_same_message\<close>, which may hand out the last message again, is not part of the history. Subscriber
  ids are not reused, so a list never mixes two subscribers.\<close>

theorem delivered_in_order_once:
  assumes "reachable env k"
  shows "sorted_wrt (<) (delivered env a sid ops k)"
  using reachable_kinv [OF assms]
proof (induction ops arbitrary: k)
  case (Cons op ops)
  have "e < e'" if "e \<in> set (handed env a sid op k)" "e' \<in> set (delivered env a sid ops (kstep env op k))" for e e'
    using delivered_above [OF kstep_inv [OF Cons.prems] handed_moves_position [OF Cons.prems that(1)]] that(2) by blast
  moreover have "sorted_wrt (<) (handed env a sid op k)"
  proof (cases "handed env a sid op k = []")
    case False
    then show ?thesis using handed_step [OF Cons.prems False] by metis
  qed simp
  ultimately show ?case using Cons.IH [OF kstep_inv [OF Cons.prems]] by (simp add: sorted_wrt_append)
qed simp

lemma demo_delivered: "delivered demo_env 0 1 [ReceiveMsg 20 ''/t'' 0 1 4 [], ReceiveMsg 20 ''/t'' 0 1 4 []] demo_sent = [0]"
  by (simp add: addressed_def demo_sent_eq demo_ready_eq demo_topic_def demo_wrapper_def demo_entry_def demo_env_def keval)

theorem delivered_in_order_once_witness:
  "sorted_wrt (<) (delivered demo_env 0 1 [ReceiveMsg 20 ''/t'' 0 1 4 [], ReceiveMsg 20 ''/t'' 0 1 4 []] demo_sent)
   \<and> delivered demo_env 0 1 [ReceiveMsg 20 ''/t'' 0 1 4 [], ReceiveMsg 20 ''/t'' 0 1 4 []] demo_sent = [0]"
  using delivered_in_order_once [OF demo_sent_reachable] demo_delivered by blast

end
