(* ===== verification/Callback_Wakeup.thy ===== *)
theory Callback_Wakeup
  imports Callback_Info Delivery
begin

text \<open>
  From a publish to the callback: the kernel module's signals, the eventfd counters, the epoll set, the registry of
  callbacks and the ready queue as one step relation. Its steps are as fine as the locks of the code: a
  \<open>handle\<close> reads the eventfd and then enqueues, a receive is one ioctl, and a task is enqueued again after the
  callbacks have run.
\<close>

section \<open>The system\<close>

text \<open>\<open>created\<close>: subscribers the kernel knows whose callback is not registered yet; \<open>requesting\<close>: calls of
  \<open>register_callback\<close> between the insertion and \<open>request_update_all\<close>; \<open>preparing\<close>: the executor has taken an update
  request and not run \<open>prepare_epoll\<close>; \<open>deferred\<close>: handlers between reading the eventfd and enqueueing;
  \<open>in_callback\<close>: tasks whose ioctl has returned, with \<open>ret_call_again\<close>.\<close>

record wstate =
  kern :: kstate
  counter :: "ctx \<Rightarrow> nat"
  created :: "callback_info list"
  reg :: registry
  epolled :: "32 word set"
  requesting :: nat
  preparing :: bool
  deferred :: "receive_task list"
  in_callback :: "(receive_task \<times> bool) list"



definition bump :: "ctx list \<Rightarrow> (ctx \<Rightarrow> nat) \<Rightarrow> ctx \<Rightarrow> nat" where
  "bump cs f c = f c + length (filter ((=) c) cs)"

definition new_info :: "string \<Rightarrow> int \<Rightarrow> bool \<Rightarrow> int \<Rightarrow> nat \<Rightarrow> callback_info" where
  "new_info name sid dur fd grp =
     \<lparr>ci_topic_name = name, ci_subscriber_id = sid, ci_is_transient_local = dur, ci_notify_eventfd = fd,
      ci_callback_group = grp, ci_need_epoll_update = True\<rparr>"


text \<open>The process starts with an empty registry, its executor's tracker just registered.\<close>

definition start :: "64 word \<Rightarrow> kstate \<Rightarrow> wstate" where
  "start tr k =
     \<lparr>kern = k, counter = (\<lambda>_. 0), created = [],
      reg = \<lparr>id2_callback_info = [], next_callback_info_id = 0,
             epoll_dispatcher = \<lparr>next_tracker_id = tr + 1, trackers = [(tr, True)]\<rparr>, ready_agnocast_executables = []\<rparr>,
      epolled = {}, requesting = 0, preparing = False, deferred = [], in_callback = []\<rparr>"


text \<open>The functions of the library are sequences of these steps.\<close>

lemma register_callback_steps:
  "register_callback name sid dur fd grp g = (Some i, g2) \<longleftrightarrow>
   (\<exists>g1. allocate_callback_info_id g = (Some i, g1) \<and>
     g2 = (let g' = store_callback_info i (new_info name sid dur fd grp) g1
           in g'\<lparr>epoll_dispatcher := request_update_all (epoll_dispatcher g')\<rparr>))"
  by (auto simp: register_callback_def new_info_def Let_def split: prod.splits option.splits)

lemma subscribe_steps:
  "subscribe env ns name q (Some fd) grp al g k = (Some (sid, oid, g'), k') \<longleftrightarrow>
   agnocast_ioctl_add_subscriber env name ns (q\<lparr>sp_take := False\<rparr>) fd al k = (Inr sid, k') \<and>
   register_callback name sid (sp_transient_local q) fd grp g = (oid, g')"
  by (auto simp: subscribe_def initialize_def split: prod.splits sum.splits)

lemma handle_steps:
  "handle i rd g = Some g' \<longleftrightarrow>
   (map_of (id2_callback_info g) i = None \<and> g' = g \<or>
    (\<exists>info. map_of (id2_callback_info g) i = Some info \<and>
       (rd (ci_notify_eventfd info) = Again \<and> g' = g \<or>
        rd (ci_notify_eventfd info) = Drained \<and> g' = enqueue_receive_and_execute i info g)))"
  by (auto simp: handle_def split: option.splits eventfd_read.splits)

lemma receive_steps:
  "receive_and_execute_message env p ns al i info g k = (Some (calls, shms, g'), k') \<longleftrightarrow>
   (\<exists>recs again. agnocast_ioctl_receive_msg env p (ci_topic_name info) ns (ci_subscriber_id info) MAX_PUBLISHER_NUM al k
       = (Inr (recs, again, shms), k') \<and>
     calls = map (\<lambda>(eid, addr). (addr, ci_topic_name info, ci_subscriber_id info, eid)) recs \<and>
     g' = (if again then enqueue_receive_and_execute i info g else g))"
  by (auto simp: receive_and_execute_message_def Let_def split: prod.splits sum.splits)

section \<open>Kernel events and callbacks\<close>







section \<open>The invariant\<close>

















subsection \<open>Steps of the kernel\<close>





subsection \<open>Steps of the registry\<close>









subsection \<open>Steps of the tasks\<close>








section \<open>No message is stranded\<close>


text \<open>The run of the scenario in which the subscriber of process 20 registers its callback before the publish.\<close>

definition demo_before :: kstate where
  "demo_before = fold (kstep demo_env) [AddProcess 10 0 0 0 [], AddProcess 20 0 0 0 [], AddPublisher ''/t'' 0 (demo_pub 1) []] demo_load"

definition demo_info :: callback_info where
  "demo_info = new_info ''/t'' 1 True 7 0"

definition demo_woken :: wstate where
  "demo_woken = (start 1 demo_before)\<lparr>kern := demo_sent, counter := bump [7] (\<lambda>_. 0),
     reg := \<lparr>id2_callback_info = [(0, demo_info)], next_callback_info_id = 1,
       epoll_dispatcher = \<lparr>next_tracker_id = 2, trackers = [(1, True)]\<rparr>, ready_agnocast_executables = []\<rparr>,
     requesting := 1\<rparr>"




section \<open>Destroying a subscription\<close>

lemma removed_subscriber_unknown:
  assumes inv: "kinv k" and w: "find_topic_for_current p name ns k = Some w" and s: "find_subscriber_info sid (topic_of k w) = Some s"
  shows "fst (agnocast_ioctl_receive_msg env p name ns sid cap al (snd (agnocast_ioctl_remove_subscriber p name ns sid k))) = Inl EINVAL"
proof -
  note W = found_topic [OF inv w] and R = remove_subscriber_start [OF inv w s]
  define t2 where "t2 = drop_refs_of (proc_info_htable k) sid (agnocast_unlink_subscriber_info (rule_of k (topic_of k w)) s (topic_of k w))"
  let ?k1 = "set_topic w t2 k" and ?k2 = "release_if_empty w (set_topic w t2 k)"
  have k2: "snd (agnocast_ioctl_remove_subscriber p name ns sid k) = ?k2" using R(1) by (simp add: t2_def)
  have gone: "find_subscriber_info sid t2 = None"
    using R(3) by (auto simp: t2_def find_subscriber_info_def agnocast_unlink_subscriber_info_def Let_def find_del_key)
  have procs: "get_process_domain_id q ?k2 = get_process_domain_id q k" for q
    using release_if_empty_surround [of w ?k1] by (simp add: get_process_domain_id_def surround_def)
  have dist: "distinct (map cell (topic_hashtable k))" using kinvD(1) [OF inv] by (simp add: wrappers_ok_def)
  have cellw: "w \<in> set (topic_hashtable k)" "cell w = (ns, get_process_domain_id p k, name)"
    using find_topic_Some w by (auto simp: find_topic_for_current_def cell_def)
  show ?thesis
  proof (cases "agnocast_wrapper_has_domain_endpoints w t2")
    case True
    then have "?k2 = ?k1" by (simp add: release_if_empty_def topic_of_def set_topic_def)
    then show ?thesis
      using w gone unfolding k2 by (simp add: agnocast_ioctl_receive_msg_def find_topic_for_current_def find_topic_def
          get_process_domain_id_def topic_of_def set_topic_def Let_def)
  next
    case False
    then have "topic_hashtable ?k2 = remove1 w (topic_hashtable k)"
      by (simp add: release_if_empty_def agnocast_release_topic_wrapper_def topic_of_def set_topic_def Let_def)
    moreover have "set (remove1 w (topic_hashtable k)) = set (topic_hashtable k) - {w}" "inj_on cell (set (topic_hashtable k))"
      using dist by (simp_all add: distinct_map set_remove1_eq)
    then have "(ns, get_process_domain_id p k, name) \<notin> cell ` set (remove1 w (topic_hashtable k))"
      using cellw by (metis DiffE image_iff inj_onD singletonI)
    ultimately have "find_topic name ns (get_process_domain_id p k) ?k2 = None" by (simp add: find_topic_None)
    then show ?thesis unfolding k2 by (simp add: agnocast_ioctl_receive_msg_def find_topic_for_current_def procs)
  qed
qed

text \<open>Claim C39. A subscription that is destroyed while a task for it is in the ready queue takes the process down:
  the destructors erase the callback and deregister the subscriber but leave the task, and when it runs, the
  receive is refused and \<open>receive_and_execute_message\<close> calls \<open>exit\<close>.\<close>

theorem destroyed_subscription_exits:
  assumes "reachable env k" and w: "find_topic_for_current p (ci_topic_name info) ns k = Some w"
    and s: "find_subscriber_info (ci_subscriber_id info) (topic_of k w) = Some s"
    and e: "e \<in> set (ready_agnocast_executables g)" "callable e = (i, info)"
    and u: "unsubscribe p ns i (ci_topic_name info) (ci_subscriber_id info) g k = (g', k')"
  shows "e \<in> set (ready_agnocast_executables g') \<and> map_of (id2_callback_info g') i = None \<and>
    fst (receive_and_execute_message env p ns al i info g'' k') = None"
proof -
  note inv = reachable_kinv [OF assms(1)]
  have "s \<in> set (sub_info_htable (topic_of k w))" "sub_id s = ci_subscriber_id info"
    using s find_subscriber_info_Some found_topic(3) [OF inv w] by (auto simp: topic_inv_def inv_but_def)
  then have "ci_subscriber_id info \<in> sub_ids (topic_of k w)" by (metis image_eqI sub_ids_def)
  moreover have "sub_ids (topic_of k w) \<subseteq> {0..<current_pubsub_id (topic_of k w)}"
    using found_topic(3) [OF inv w] by (simp add: topic_inv_def inv_but_def ids_ok_def)
  ultimately have "0 \<le> ci_subscriber_id info" by auto
  then have g': "g' = g\<lparr>id2_callback_info := filter (\<lambda>(j, _). j \<noteq> i) (id2_callback_info g)\<rparr>"
    and k': "k' = snd (agnocast_ioctl_remove_subscriber p (ci_topic_name info) ns (ci_subscriber_id info) k)"
    using u by (auto simp: unsubscribe_def destroy_base_def)
  have "map_of (filter (\<lambda>(j, _). j \<noteq> i) xs) i = None" for xs :: "(32 word \<times> callback_info) list" by (induction xs) auto
  then show ?thesis
    using e(1) removed_subscriber_unknown [OF inv w s, of env MAX_PUBLISHER_NUM al]
    by (auto simp: g' k' receive_and_execute_message_def split: prod.splits sum.splits)
qed

theorem destroyed_subscription_exits_witness:
  "\<exists>g k'. unsubscribe 20 0 0 ''/t'' 1 (enqueue_receive_and_execute 0 demo_info (reg demo_woken)) demo_sent = (g, k') \<and>
     fst (receive_and_execute_message demo_env 20 0 [] 0 demo_info g k') = None"
proof -
  let ?g = "enqueue_receive_and_execute 0 demo_info (reg demo_woken)"
  let ?e = "\<lparr>callable = (0 :: 32 word, demo_info), callback_group = 0\<rparr>"
  have n: "ci_topic_name demo_info = ''/t''" "ci_subscriber_id demo_info = 1" by (simp_all add: demo_info_def new_info_def)
  have w: "find_topic_for_current 20 (ci_topic_name demo_info) 0 demo_sent = Some demo_wrapper"
    by (simp add: n demo_sent_eq demo_ready_eq demo_wrapper_def keval)
  have s: "find_subscriber_info (ci_subscriber_id demo_info) (topic_of demo_sent demo_wrapper) = Some (hd (sub_info_htable (demo_topic 1)))"
    by (simp add: n demo_sent_eq demo_ready_eq demo_wrapper_def demo_topic_def keval)
  have e: "?e \<in> set (ready_agnocast_executables ?g)" by (simp add: enqueue_receive_and_execute_def demo_info_def new_info_def)
  obtain g k' where u: "unsubscribe 20 0 0 ''/t'' 1 ?g demo_sent = (g, k')" by fastforce
  then show ?thesis using destroyed_subscription_exits [OF demo_sent_reachable w s e _ u [folded n]] by auto
qed

end
