(* ===== verification/Callback_Drain.thy ===== *)
theory Callback_Drain
  imports Callback_Wakeup
begin

text \<open>
  The receive loop of the library. \<open>receive_and_execute_message\<close> asks the kernel for at most ten messages and puts
  itself back into the ready queue while the kernel says that there are more.
\<close>

text \<open>The task of one callback, executed as long as it is enqueued again; the fuel is the number of executions. The
  result is the calls of the callback, \<open>None\<close> when the process exits or the fuel runs out.\<close>

fun drain :: "nat \<Rightarrow> kenv \<Rightarrow> pid \<Rightarrow> ipc_ns \<Rightarrow> 32 word \<Rightarrow> callback_info \<Rightarrow> registry \<Rightarrow> kstate \<Rightarrow> (callback_call list \<times> kstate) option" where
  "drain 0 env p ns i info g k = None"
| "drain (Suc n) env p ns i info g k =
     (case receive_and_execute_message env p ns [] i info (g\<lparr>ready_agnocast_executables := []\<rparr>) k of
        (None, k') \<Rightarrow> None
      | (Some (calls, _, g'), k') \<Rightarrow>
          if ready_agnocast_executables g' = [] then Some (calls, k')
          else map_option (\<lambda>(cs, k''). (calls @ cs, k'')) (drain n env p ns i info g' k'))"

definition call_of :: "callback_info \<Rightarrow> entry_node \<Rightarrow> callback_call" where
  "call_of info en = (msg_virtual_address en, ci_topic_name info, ci_subscriber_id info, entry_id en)"

lemma drain_step:
  assumes inv: "kinv k" and w: "find_topic_for_current p (ci_topic_name info) ns k = Some w"
    and s: "find_subscriber_info (ci_subscriber_id info) (topic_of k w) = Some s" and m: "\<not> need_mmap_update s"
  defines "win \<equiv> recv_window (proc_info_htable k) (rule_of k (topic_of k w)) s (topic_of k w)"
  shows "drain (Suc n) env p ns i info g k =
    (let k' = set_topic w (hand_out s (take MAX_RECEIVE_NUM win) (topic_of k w)) k; calls = map (call_of info) (take MAX_RECEIVE_NUM win)
     in if length win \<le> MAX_RECEIVE_NUM then Some (calls, k')
        else map_option (\<lambda>(cs, k''). (calls @ cs, k''))
          (drain n env p ns i info (enqueue_receive_and_execute i info (g\<lparr>ready_agnocast_executables := []\<rparr>)) k'))"
proof -
  note W = found_topic [OF inv w]
  have "s \<in> set (sub_info_htable (topic_of k w))"
    using s find_subscriber_info_Some W(3) by (auto simp: topic_inv_def inv_but_def)
  from receive_msg_core_spec [OF W(3) this] show ?thesis
    using w s m by (auto simp: receive_and_execute_message_def agnocast_ioctl_receive_msg_def update_mmap_def win_def Let_def
        enqueue_receive_and_execute_def call_of_def [abs_def] out_of_def comp_def)
qed

text \<open>Handing out the first part of the window leaves the rest of it.\<close>

lemma deliverable_hand_out: "deliverable procs r (hand_out s out t) (s\<lparr>latest_received_entry_id := l\<rparr>) en = deliverable procs r t s en"
  by (auto simp: deliverable_def hand_out_def find_publisher_info_def split: option.splits)

lemma filter_mark:
  "(\<And>en x. P (en\<lparr>referencing_subscribers := x\<rparr>) = P en) \<Longrightarrow> \<forall>en\<in>V. \<not> P en \<Longrightarrow> filter P (mark i V es) = filter P es"
  by (induction es) (auto simp: mark_def)

lemma window_rest:
  assumes inv: "topic_inv t" and out: "out = take n (recv_window procs r s t)" "out \<noteq> []"
  shows "recv_window procs r (s\<lparr>latest_received_entry_id := entry_id (last out)\<rparr>) (hand_out s out t) = drop n (recv_window procs r s t)"
proof -
  let ?d = "deliverable procs r t s"
  define un where "un = unread ?d (latest_received_entry_id s + 1) (entries t)"
  define rest where "rest = drop n (recv_window procs r s t)"
  have win: "recv_window procs r s t = lastn (sub_qos_depth s) un" by (simp add: recv_window_def un_def)
  obtain os z where os: "out = os @ [z]" using out(2) by (metis append_butlast_last_id)
  obtain pre where un: "un = pre @ (os @ [z]) @ rest"
    using append_take_drop_id [of "length un - sub_qos_depth s" un] append_take_drop_id [of n "lastn (sub_qos_depth s) un"]
    unfolding os [symmetric] out(1) rest_def win lastn_def by metis
  have "sorted_wrt (<) (map entry_id (entries t))" using inv by (simp add: topic_inv_def inv_but_def tree_ok_def)
  then have su: "sorted_wrt (<) (map entry_id un)" by (simp add: un_def unread_def sorted_wrt_map sorted_wrt_filter)
  have le: "\<forall>en\<in>set (pre @ os @ [z]). entry_id en \<le> entry_id z" and gt: "\<forall>en\<in>set rest. entry_id z < entry_id en"
    using su unfolding un by (auto simp: sorted_wrt_append)
  have "z \<in> set un" unfolding un by simp
  then have old: "latest_received_entry_id s < entry_id z" by (auto simp: un_def unread_def)
  have "filter (\<lambda>en. ?d en \<and> entry_id z + 1 \<le> entry_id en) (mark (sub_id s) (set out) (entries t)) =
      filter (\<lambda>en. ?d en \<and> entry_id z + 1 \<le> entry_id en) (entries t)"
  proof (rule filter_mark)
    show "\<forall>en\<in>set out. \<not> (?d en \<and> entry_id z + 1 \<le> entry_id en)" using le unfolding os by force
  qed (simp add: deliverable_def)
  also have "\<dots> = filter (\<lambda>en. entry_id z < entry_id en) un"
    using old by (auto simp: un_def unread_def intro!: filter_cong)
  also have "\<dots> = rest" using le gt unfolding un by (force simp: filter_empty_conv not_less)
  finally have "unread ?d (entry_id z + 1) (mark (sub_id s) (set out) (entries t)) = rest" by (simp add: unread_def)
  moreover have "entries (hand_out s out t) = mark (sub_id s) (set out) (entries t)" using out(2) by (simp add: hand_out_def)
  moreover have "length rest \<le> sub_qos_depth s" by (simp add: rest_def win lastn_def)
  ultimately show ?thesis
    by (simp add: recv_window_def [of procs r "s\<lparr>latest_received_entry_id := entry_id (last out)\<rparr>"] os [symmetric] deliverable_hand_out [abs_def]
        lastn_all rest_def) (simp add: os lastn_all)
qed

text \<open>The state after one round, seen by the next one.\<close>

lemma after_round:
  assumes inv: "kinv k" and w: "find_topic_for_current p name ns k = Some w"
    and s: "find_subscriber_info sid (topic_of k w) = Some s" and m: "\<not> need_mmap_update s"
  defines "win \<equiv> recv_window (proc_info_htable k) (rule_of k (topic_of k w)) s (topic_of k w)"
  assumes ne: "win \<noteq> []"
  defines "k' \<equiv> set_topic w (hand_out s (take MAX_RECEIVE_NUM win) (topic_of k w)) k"
  shows "kinv k'" "find_topic_for_current p name ns k' = Some w"
    "find_subscriber_info sid (topic_of k' w) = Some (s\<lparr>latest_received_entry_id := entry_id (last (take MAX_RECEIVE_NUM win))\<rparr>)"
    "recv_window (proc_info_htable k') (rule_of k' (topic_of k' w)) (s\<lparr>latest_received_entry_id := entry_id (last (take MAX_RECEIVE_NUM win))\<rparr>) (topic_of k' w)
       = drop MAX_RECEIVE_NUM win"
proof -
  note W = found_topic [OF inv w]
  have sin: "s \<in> set (sub_info_htable (topic_of k w))" "sub_id s = sid"
    using s find_subscriber_info_Some W(3) by (auto simp: topic_inv_def inv_but_def)
  let ?out = "take MAX_RECEIVE_NUM win"
  have out: "?out \<noteq> []" using ne by (simp add: MAX_RECEIVE_NUM_def)
  have "kstep env (ReceiveMsg p name ns sid 0 []) k = k'" for env
    using w s m receive_msg_core_spec [OF W(3) sin(1)] by (simp add: agnocast_ioctl_receive_msg_def update_mmap_def Let_def k'_def win_def)
  then show "kinv k'" using kstep_inv [OF inv] by metis
  show "find_topic_for_current p name ns k' = Some w"
    using w by (simp add: k'_def find_topic_for_current_def find_topic_def get_process_domain_id_def set_topic_def)
  have t': "topic_of k' w = hand_out s ?out (topic_of k w)" by (simp add: k'_def topic_of_def set_topic_def)
  show "find_subscriber_info sid (topic_of k' w) = Some (s\<lparr>latest_received_entry_id := entry_id (last ?out)\<rparr>)"
    using s out sin(2) by (simp add: t' hand_out_def find_subscriber_info_def find_upd_key)
  have "topic_rule (hand_out s ?out u) = topic_rule u" for u by (simp add: hand_out_def)
  moreover have "domain_rule_htable k' = domain_rule_htable k" and procs: "proc_info_htable k' = proc_info_htable k"
    by (simp_all add: k'_def set_topic_def)
  ultimately have "rule_of k' (topic_of k' w) = rule_of k (topic_of k w)" unfolding t' rule_of_def by (simp split: option.split)
  with procs show "recv_window (proc_info_htable k') (rule_of k' (topic_of k' w)) (s\<lparr>latest_received_entry_id := entry_id (last ?out)\<rparr>) (topic_of k' w)
       = drop MAX_RECEIVE_NUM win"
    using window_rest [OF W(3) _ out [unfolded win_def]] by (simp add: t' win_def)
qed

lemma not_pending:
  assumes inv: "kinv k" and w: "find_topic_for_current p name ns k = Some w" and s: "find_subscriber_info sid (topic_of k w) = Some s"
    and none: "recv_window (proc_info_htable k) (rule_of k (topic_of k w)) s (topic_of k w) = []"
  shows "\<not> pending (wr_topic w) sid k"
proof -
  note W = found_topic [OF inv w]
  have "distinct (map sub_id (sub_info_htable (topic_of k w)))" using W(3) by (simp add: topic_inv_def inv_but_def ids_ok_def)
  moreover have "s \<in> set (sub_info_htable (topic_of k w))" "sub_id s = sid"
    using s find_subscriber_info_Some W(3) by (auto simp: topic_inv_def inv_but_def)
  ultimately have "u = s" if "u \<in> set (sub_info_htable (topic_of k w))" "sub_id u = sid" for u
    using that by (auto simp: distinct_map inj_on_def)
  then show ?thesis using none W(2) by (auto simp: pending_def)
qed

lemma last_round:
  assumes inv: "kinv k" and w: "find_topic_for_current p (ci_topic_name info) ns k = Some w"
    and s: "find_subscriber_info (ci_subscriber_id info) (topic_of k w) = Some s" and m: "\<not> need_mmap_update s"
  defines "win \<equiv> recv_window (proc_info_htable k) (rule_of k (topic_of k w)) s (topic_of k w)"
  assumes le: "length win \<le> MAX_RECEIVE_NUM"
  shows "\<exists>k'. drain (Suc n) env p ns i info g k = Some (map (call_of info) win, k') \<and> \<not> pending (wr_topic w) (ci_subscriber_id info) k'"
proof -
  let ?k' = "set_topic w (hand_out s (take MAX_RECEIVE_NUM win) (topic_of k w)) k"
  have "\<not> pending (wr_topic w) (ci_subscriber_id info) ?k'"
  proof (cases "win = []")
    case True
    then have "?k' = k" using found_topic(2) [OF inv w] by (simp add: hand_out_def set_topic_def fun_upd_idem)
    then show ?thesis using not_pending [OF inv w s] True by (simp add: win_def)
  next
    case False
    note A = after_round [OF inv w s m False [unfolded win_def], folded win_def]
    show ?thesis by (rule not_pending [OF A(1-3)]) (use A(4) le in simp)
  qed
  then show ?thesis using drain_step [OF inv w s m, of n env i g] le by (simp add: Let_def win_def)
qed

text \<open>Claim C16. With nothing else going on, and when the subscriber has mapped the pools of its publishers (its first
  receive does that), the receive loop ends and is complete: a subscriber whose window holds at most \<open>10 n\<close>
  messages gets exactly these messages, each once and oldest first, within \<open>n\<close> executions of its task, and
  afterwards nothing is left to read.\<close>

theorem receive_loop_drains:
  assumes "reachable env k" and w: "find_topic_for_current p (ci_topic_name info) ns k = Some w"
    and s: "find_subscriber_info (ci_subscriber_id info) (topic_of k w) = Some s" and m: "\<not> need_mmap_update s"
    and len: "length (recv_window (proc_info_htable k) (rule_of k (topic_of k w)) s (topic_of k w)) \<le> Suc n * MAX_RECEIVE_NUM"
  shows "\<exists>k'. drain (Suc n) env p ns i info g k =
      Some (map (call_of info) (recv_window (proc_info_htable k) (rule_of k (topic_of k w)) s (topic_of k w)), k') \<and>
    \<not> pending (wr_topic w) (ci_subscriber_id info) k'"
  using reachable_kinv [OF assms(1)] w s m len
proof (induction n arbitrary: k s g)
  case 0
  then show ?case using last_round [OF 0(1-4)] by simp
next
  case (Suc n)
  let ?win = "recv_window (proc_info_htable k) (rule_of k (topic_of k w)) s (topic_of k w)"
  show ?case
  proof (cases "length ?win \<le> MAX_RECEIVE_NUM")
    case True
    then show ?thesis by (rule last_round [OF Suc.prems(1-4)])
  next
    case False
    then have ne: "?win \<noteq> []" by auto
    note A = after_round [OF Suc.prems(1-4) ne]
    let ?k = "set_topic w (hand_out s (take MAX_RECEIVE_NUM ?win) (topic_of k w)) k"
    let ?g = "enqueue_receive_and_execute i info (g\<lparr>ready_agnocast_executables := []\<rparr>)"
    let ?s = "s\<lparr>latest_received_entry_id := entry_id (last (take MAX_RECEIVE_NUM ?win))\<rparr>"
    have m1: "\<not> need_mmap_update ?s" using Suc.prems(4) by simp
    have len1: "length (recv_window (proc_info_htable ?k) (rule_of ?k (topic_of ?k w)) ?s (topic_of ?k w)) \<le> Suc n * MAX_RECEIVE_NUM"
      unfolding A(4) using Suc.prems(5) by simp
    obtain k' where k': "drain (Suc n) env p ns i info ?g ?k = Some (map (call_of info) (drop MAX_RECEIVE_NUM ?win), k')"
      "\<not> pending (wr_topic w) (ci_subscriber_id info) k'"
      using Suc.IH [OF A(1-3) m1 len1, of ?g] unfolding A(4) by blast
    then show ?thesis
      using drain_step [OF Suc.prems(1-4), of "Suc n" env i g] False by (simp add: Let_def map_append [symmetric] del: map_append drain.simps)
  qed
qed

text \<open>Two rounds: the publisher keeps twelve messages, the subscriber has mapped its pool in a first receive, and then
  twelve messages are published.\<close>

definition deep_entry :: "nat \<Rightarrow> entry_node" where
  "deep_entry i = \<lparr>entry_id = int i, en_publisher_id = 0, msg_virtual_address = 0x40000000000 + 8 * of_nat i, referencing_subscribers = {}\<rparr>"

definition deep_topic :: "nat \<Rightarrow> topic_struct" where
  "deep_topic n = (demo_topic 12)\<lparr>entries := map deep_entry [0..<n], current_entry_id := int n,
     pub_info_htable := [(hd (pub_info_htable (demo_topic 12)))\<lparr>entries_num := n\<rparr>],
     sub_info_htable := [(hd (sub_info_htable (demo_topic 12)))\<lparr>sub_qos_depth := 12, need_mmap_update := False\<rparr>]\<rparr>"

definition deep_state :: "nat \<Rightarrow> kstate" where
  "deep_state n = (demo_ready 12)\<lparr>topics := [0 \<mapsto> deep_topic n],
     mempool_entries := [\<lparr>mp_addr = 0x40000000000, mapped_num = 2, mapped_pid_head = [20, 10]\<rparr>,
        \<lparr>mp_addr = 0x40040000000, mapped_num = 1, mapped_pid_head = [20]\<rparr>]\<rparr>"

definition deep_ops :: "kop list" where
  "deep_ops = [AddProcess 10 0 0 0 [], AddProcess 20 0 0 0 [], AddPublisher ''/t'' 0 (demo_pub 12) [],
     AddSubscriber ''/t'' 0 (demo_sub\<lparr>sp_qos_depth := 12\<rparr>) 7 [], ReceiveMsg 20 ''/t'' 0 1 4 []]"

lemma deep_start: "fold (kstep demo_env) deep_ops demo_load = deep_state 0"
  by (simp add: deep_ops_def deep_state_def deep_topic_def demo_ready_eq demo_defs demo_topic_def demo_wrapper_def init_pools_2 keval)

lemma deep_address:
  assumes "n < 12"
  shows "(0x40000000000 :: u64) \<le> 0x40000000000 + 8 * of_nat n" "(0x40000000000 :: u64) + 8 * of_nat n < 0x40040000000"
proof -
  have "unat ((0x40000000000 :: u64) + 8 * of_nat n) = 0x40000000000 + 8 * n"
    using assms by (simp add: unat_word_ariths unat_of_nat)
  then show "(0x40000000000 :: u64) \<le> 0x40000000000 + 8 * of_nat n" "(0x40000000000 :: u64) + 8 * of_nat n < 0x40040000000"
    using assms by (simp_all add: word_le_nat_alt word_less_nat_alt)
qed

lemma deep_publish:
  assumes "n < 12"
  shows "kstep demo_env (PublishMsg 10 ''/t'' 0 0 (0x40000000000 + 8 * of_nat n) []) (deep_state n) = deep_state (Suc n)"
proof -
  have last: "n \<noteq> 0 \<Longrightarrow> entry_id (last (map deep_entry [0..<n])) < int n" by (cases n) (simp_all add: deep_entry_def)
  show ?thesis
    using deep_address [OF assms] last assms
    by (auto simp: deep_state_def deep_topic_def demo_ready_eq demo_topic_def demo_wrapper_def deep_entry_def keval)
qed

lemma deep_reach: "n \<le> 12 \<Longrightarrow> reachable demo_env (deep_state n)"
proof (induction n)
  case 0
  then show ?case using reachable_run [OF demo_load_reachable, of deep_ops] by (simp add: deep_start)
next
  case (Suc n)
  then show ?case using reachable.step [OF Suc.IH] deep_publish [of n] by (metis Suc_le_lessD less_or_eq_imp_le)
qed

lemma deep_facts:
  "find_topic_for_current 20 ''/t'' 0 (deep_state n) = Some demo_wrapper"
  "topic_of (deep_state n) demo_wrapper = deep_topic n"
  by (simp_all add: deep_state_def demo_ready_eq demo_wrapper_def topic_of_def find_topic_for_current_def find_topic_def
      get_process_domain_id_def agnocast_find_process_info_def find_key_def)

lemma deep_window:
  assumes "find_subscriber_info 1 (deep_topic n) = Some s" and "n \<le> 12"
  shows "\<not> need_mmap_update s"
    "recv_window (proc_info_htable (deep_state n)) (rule_of (deep_state n) (deep_topic n)) s (deep_topic n) = map deep_entry [0..<n]"
proof -
  have s: "s = (hd (sub_info_htable (demo_topic 12)))\<lparr>sub_qos_depth := 12, need_mmap_update := False\<rparr>"
    using assms(1) by (simp add: deep_topic_def demo_topic_def find_subscriber_info_def find_key_def)
  then show "\<not> need_mmap_update s" by simp
  have "deliverable (proc_info_htable (deep_state n)) (rule_of (deep_state n) (deep_topic n)) (deep_topic n) s (deep_entry i)" for i
    by (simp add: s deliverable_def deep_state_def deep_topic_def demo_ready_eq demo_topic_def deep_entry_def find_publisher_info_def
        find_key_def owner_is_alive_def agnocast_find_process_info_def rule_of_def domain_delivery_allowed_def)
  then have "unread (deliverable (proc_info_htable (deep_state n)) (rule_of (deep_state n) (deep_topic n)) (deep_topic n) s)
      (latest_received_entry_id s + 1) (entries (deep_topic n)) = map deep_entry [0..<n]"
    by (simp add: unread_def s deep_topic_def demo_topic_def filter_map comp_def deep_entry_def)
  then show "recv_window (proc_info_htable (deep_state n)) (rule_of (deep_state n) (deep_topic n)) s (deep_topic n) = map deep_entry [0..<n]"
    using assms(2) by (simp add: recv_window_def lastn_def s)
qed

theorem receive_loop_drains_witness:
  "\<exists>k'. drain 2 demo_env 20 0 0 demo_info (reg demo_woken) (deep_state 12) =
     Some (map (\<lambda>i. (0x40000000000 + 8 * of_nat i, ''/t'', 1, int i)) [0..<12], k') \<and> \<not> pending 0 1 k'"
proof -
  have n: "ci_topic_name demo_info = ''/t''" "ci_subscriber_id demo_info = 1" by (simp_all add: demo_info_def new_info_def)
  obtain s where s: "find_subscriber_info 1 (deep_topic 12) = Some s"
    by (simp add: deep_topic_def demo_topic_def find_subscriber_info_def find_key_def)
  note w = deep_window [OF s order_refl] and t = deep_facts(2) [of 12]
  have len: "length (recv_window (proc_info_htable (deep_state 12)) (rule_of (deep_state 12) (topic_of (deep_state 12) demo_wrapper)) s
      (topic_of (deep_state 12) demo_wrapper)) \<le> Suc 1 * MAX_RECEIVE_NUM"
    unfolding t w(2) by (simp add: MAX_RECEIVE_NUM_def)
  have wz: "wr_topic demo_wrapper = 0" by (simp add: demo_wrapper_def)
  have calls: "map (call_of demo_info) (map deep_entry [0..<12]) = map (\<lambda>i. (0x40000000000 + 8 * of_nat i, ''/t'', 1, int i)) [0..<12]"
    by (simp add: call_of_def n deep_entry_def del: upt_rec_numeral)
  from receive_loop_drains [OF deep_reach [OF order_refl] deep_facts(1) [folded n(1)] s [folded n(2) t] w(1) len, of 0 "reg demo_woken"]
  show ?thesis unfolding t w(2) n(2) wz calls by (simp only: Suc_1)
qed

end
