(* ===== verification/Isolated_Executor.thy ===== *)
theory Isolated_Executor
  imports Ordered_Map
begin

text \<open>
  The callback-isolated executors: one child executor and one thread per callback group. There are two,
  \<open>CallbackIsolatedAgnocastExecutor\<close> (stage 1, \<open>agnocast_callback_isolated_executor.cpp\<close>) and
  \<open>AgnocastOnlyCallbackIsolatedExecutor\<close> (stage 2, \<open>agnocast_only_callback_isolated_executor.cpp\<close>); they
  share the shape of \<open>spin()\<close> and differ in the sticky flag \<open>cancel_requested_\<close>, in the groups the
  monitoring loop looks at and in \<open>stop_callback_group()\<close>, which stage 1 alone has.

  The state is a record of the executor's members, the child executors and their threads, and the
  program counter of the thread in \<open>spin()\<close>. A step is what one thread does between two points at which
  another may run: a section under one mutex, or one access to an atomic flag.

  The flag of a callback group that says whether an executor has it is set by
  \<open>AgnocastOnlyExecutor::add_callback_group\<close> in stage 2. In stage 1 the children are rclcpp executors,
  so the flag may change at any time.
\<close>

section \<open>State\<close>

datatype stage = Stage1 | Stage2

datatype child_pc = Starting | Running | Finished

record child_executor =
  ch_pc :: child_pc
  ch_spinning :: bool
  ch_cancel :: bool
  ch_group :: nat

datatype spin_pc =
    Idle
  | Entered
  | Collected "nat list"
  | Monitor
  | Woken
  | Scanned "nat list"
  | Leaving
  | Joining "nat list"

record cie =
  spinning :: bool
  cancel_requested :: bool
  context_ok :: bool
  weak_nodes :: "nat list"
  weak_groups_to_nodes :: "(nat, nat) omap"
  child_callback_groups :: "nat list"
  weak_child_executors :: "nat list"
  child_threads :: "nat list"
  children :: "nat \<Rightarrow> child_executor"
  next_child :: nat
  spin_at :: spin_pc
  stopping :: "nat list"
  cancelling :: nat
  cancelled :: bool
  associated :: "nat \<Rightarrow> bool"
  node_groups :: "nat \<Rightarrow> nat list"
  gone_groups :: "nat set"
  gone_nodes :: "nat set"
  terminated :: bool

definition no_child :: child_executor where
  "no_child = \<lparr>ch_pc = Finished, ch_spinning = False, ch_cancel = False, ch_group = 0\<rparr>"

definition init_cie :: cie where
  "init_cie = \<lparr>spinning = False, cancel_requested = False, context_ok = True, weak_nodes = [],
     weak_groups_to_nodes = [], child_callback_groups = [], weak_child_executors = [], child_threads = [],
     children = (\<lambda>_. no_child), next_child = 0, spin_at = Idle, stopping = [], cancelling = 0,
     cancelled = False, associated = (\<lambda>_. False), node_groups = (\<lambda>_. []), gone_groups = {},
     gone_nodes = {}, terminated = False\<rparr>"

section \<open>Membership\<close>

text \<open>\<open>add_callback_group\<close>, where \<open>auto\<close> is \<open>automatically_add_to_executor_with_node()\<close>. Stage 1 rejects a
  group that one of its nodes adds by itself, and a group it has. Stage 2 inherits the operation of
  \<open>AgnocastOnlyExecutor\<close>, which claims the group through its flag.\<close>

definition add_callback_group :: "stage \<Rightarrow> (nat \<Rightarrow> bool) \<Rightarrow> nat \<Rightarrow> nat \<Rightarrow> cie \<Rightarrow> cie" where
  "add_callback_group st auto g n s =
     (case st of
        Stage1 \<Rightarrow>
          if auto g \<and> (\<exists>m\<in>set (weak_nodes s). m \<notin> gone_nodes s \<and> g \<in> set (node_groups s m))
          then s\<lparr>terminated := True\<rparr>
          else if map_of (weak_groups_to_nodes s) g \<noteq> None then s\<lparr>terminated := True\<rparr>
          else s\<lparr>weak_groups_to_nodes := put g n (weak_groups_to_nodes s)\<rparr>
      | Stage2 \<Rightarrow>
          if associated s g then s\<lparr>terminated := True\<rparr>
          else if map_of (weak_groups_to_nodes s) g \<noteq> None then s\<lparr>terminated := True\<rparr>
          else s\<lparr>associated := (associated s)(g := True),
                 weak_groups_to_nodes := put g n (weak_groups_to_nodes s)\<rparr>)"

definition remove_callback_group :: "stage \<Rightarrow> nat \<Rightarrow> cie \<Rightarrow> cie" where
  "remove_callback_group st g s =
     (case map_of (weak_groups_to_nodes s) g of
        None \<Rightarrow> s\<lparr>terminated := True\<rparr>
      | Some n \<Rightarrow>
          if st = Stage2 \<and> n \<in> gone_nodes s then s\<lparr>terminated := True\<rparr>
          else s\<lparr>weak_groups_to_nodes := erase g (weak_groups_to_nodes s),
                 associated := (if st = Stage2 then (associated s)(g := False) else associated s)\<rparr>)"

text \<open>\<open>add_node\<close>: stage 1 tolerates a manually added group of the node when the node would not add it
  itself; stage 2 does not.\<close>

definition add_node :: "stage \<Rightarrow> (nat \<Rightarrow> bool) \<Rightarrow> nat \<Rightarrow> cie \<Rightarrow> cie" where
  "add_node st auto n s =
     (if \<exists>b\<in>set (weak_groups_to_nodes s). fst b \<notin> gone_groups s \<and> (st = Stage1 \<longrightarrow> auto (fst b)) \<and>
           fst b \<in> set (node_groups s n)
      then s\<lparr>terminated := True\<rparr>
      else if n \<in> set (weak_nodes s) then s\<lparr>terminated := True\<rparr>
      else s\<lparr>weak_nodes := weak_nodes s @ [n]\<rparr>)"

text \<open>\<open>remove_node\<close> of stage 1.\<close>

definition remove_node :: "nat \<Rightarrow> cie \<Rightarrow> cie" where
  "remove_node n s =
     (if n \<in> set (weak_nodes s) then s\<lparr>weak_nodes := remove1 n (weak_nodes s)\<rparr>
      else s\<lparr>terminated := True\<rparr>)"

definition live_manual_groups :: "cie \<Rightarrow> nat list" where
  "live_manual_groups s =
     map fst (filter (\<lambda>b. fst b \<notin> gone_groups s \<and> snd b \<notin> gone_nodes s) (weak_groups_to_nodes s))"

definition live_auto_groups :: "(nat \<Rightarrow> bool) \<Rightarrow> cie \<Rightarrow> nat list" where
  "live_auto_groups auto s =
     concat (map (\<lambda>n. filter (\<lambda>g. g \<notin> gone_groups s \<and> auto g) (node_groups s n))
                 (filter (\<lambda>n. n \<notin> gone_nodes s) (weak_nodes s)))"

section \<open>Spinning\<close>

definition keep_spinning :: "stage \<Rightarrow> cie \<Rightarrow> bool" where
  "keep_spinning st s \<longleftrightarrow> spinning s \<and> (st = Stage2 \<longrightarrow> \<not> cancel_requested s)"

text \<open>Leaving \<open>spin()\<close>: the scope guard clears the flag.\<close>

definition spin_return :: "cie \<Rightarrow> cie" where
  "spin_return s = s\<lparr>spinning := False, spin_at := Idle\<rparr>"

definition spin_enter :: "stage \<Rightarrow> cie \<Rightarrow> cie" where
  "spin_enter st s =
     (if spinning s then s\<lparr>terminated := True\<rparr>
      else let s1 = s\<lparr>spinning := True, spin_at := Entered\<rparr>
           in if st = Stage2 \<and> cancel_requested s then spin_return s1 else s1)"

definition collect_groups :: "(nat \<Rightarrow> bool) \<Rightarrow> cie \<Rightarrow> cie" where
  "collect_groups auto s = s\<lparr>spin_at := Collected (live_manual_groups s @ live_auto_groups auto s)\<rparr>"

text \<open>\<open>spawn_child_executor\<close>. In stage 2 the child claims the group with \<open>add_callback_group\<close>, which
  ends the process when the group has an executor.\<close>

definition spawn_child_executor :: "stage \<Rightarrow> nat \<Rightarrow> cie \<Rightarrow> cie" where
  "spawn_child_executor st g s =
     (if st = Stage2 \<and> associated s g then s\<lparr>terminated := True\<rparr>
      else let e = next_child s
           in s\<lparr>child_callback_groups :=
                  (if st = Stage1 then child_callback_groups s @ [g] else child_callback_groups s),
                weak_child_executors := weak_child_executors s @ [e],
                child_threads := child_threads s @ [e],
                children := (children s)(e := \<lparr>ch_pc = Starting, ch_spinning = False, ch_cancel = False,
                                               ch_group = g\<rparr>),
                associated := (if st = Stage2 then (associated s)(g := True) else associated s),
                next_child := e + 1\<rparr>)"

fun spawn_each :: "stage \<Rightarrow> nat list \<Rightarrow> cie \<Rightarrow> cie" where
  "spawn_each st [] s = s"
| "spawn_each st (g # gs) s =
     (let s1 = spawn_child_executor st g s in if terminated s1 then s1 else spawn_each st gs s1)"

fun spawn_new :: "stage \<Rightarrow> nat list \<Rightarrow> cie \<Rightarrow> cie" where
  "spawn_new st [] s = s"
| "spawn_new st (g # gs) s = (if associated s g then spawn_new st gs s else
     (let s1 = spawn_child_executor st g s in if terminated s1 then s1 else spawn_new st gs s1))"

text \<open>The first spawn, under \<open>child_resources_mutex_\<close>.\<close>

definition spawn_initial :: "stage \<Rightarrow> nat list \<Rightarrow> cie \<Rightarrow> cie" where
  "spawn_initial st gs s =
     (if \<not> keep_spinning st s then spin_return s else (spawn_each st gs s)\<lparr>spin_at := Monitor\<rparr>)"

text \<open>The monitoring loop: its condition, the sleep, the scan under \<open>mutex_\<close> and the spawn under
  \<open>child_resources_mutex_\<close>.\<close>

definition monitor_condition :: "stage \<Rightarrow> cie \<Rightarrow> cie" where
  "monitor_condition st s = s\<lparr>spin_at := if keep_spinning st s \<and> context_ok s then Woken else Leaving\<rparr>"

definition scan_groups :: "stage \<Rightarrow> (nat \<Rightarrow> bool) \<Rightarrow> cie \<Rightarrow> cie" where
  "scan_groups st auto s =
     (if keep_spinning st s \<and> context_ok s
      then s\<lparr>spin_at := Scanned (filter (\<lambda>g. \<not> associated s g)
              ((if st = Stage1 then live_manual_groups s else []) @ live_auto_groups auto s))\<rparr>
      else s\<lparr>spin_at := Leaving\<rparr>)"

definition spawn_scanned :: "stage \<Rightarrow> nat list \<Rightarrow> cie \<Rightarrow> cie" where
  "spawn_scanned st gs s =
     (if gs = [] then s\<lparr>spin_at := Monitor\<rparr>
      else if \<not> (keep_spinning st s \<and> context_ok s) then s\<lparr>spin_at := Leaving\<rparr>
      else (spawn_new st gs s)\<lparr>spin_at := Monitor\<rparr>)"

text \<open>Cancelling a child: \<open>AgnocastOnlyExecutor::cancel\<close> sets the sticky flag too; an rclcpp executor has
  none and stops a running \<open>spin()\<close> only.\<close>

definition cancel_child :: "stage \<Rightarrow> nat \<Rightarrow> (nat \<Rightarrow> child_executor) \<Rightarrow> nat \<Rightarrow> child_executor" where
  "cancel_child st e ch =
     (if ch_pc (ch e) = Finished then ch
      else ch(e := (ch e)\<lparr>ch_spinning := False, ch_cancel := (st = Stage2 \<or> ch_cancel (ch e))\<rparr>))"

definition cancel_children :: "stage \<Rightarrow> cie \<Rightarrow> cie" where
  "cancel_children st s = s\<lparr>children := fold (cancel_child st) (weak_child_executors s) (children s)\<rparr>"

definition leave_loop :: "stage \<Rightarrow> cie \<Rightarrow> cie" where
  "leave_loop st s =
     (cancel_children st s)\<lparr>spin_at := Joining (child_threads s), child_threads := [],
        weak_child_executors := [], child_callback_groups := []\<rparr>"

definition join_next :: "nat list \<Rightarrow> cie \<Rightarrow> cie" where
  "join_next ts s = (case ts of [] \<Rightarrow> spin_return s | t # ts' \<Rightarrow> s\<lparr>spin_at := Joining ts'\<rparr>)"

section \<open>Cancelling and stopping from other threads\<close>

text \<open>\<open>cancel()\<close> in its two parts: the flags, and the children under \<open>child_resources_mutex_\<close>.\<close>

definition cancel_flags :: "stage \<Rightarrow> cie \<Rightarrow> cie" where
  "cancel_flags st s =
     s\<lparr>spinning := False, cancel_requested := (st = Stage2 \<or> cancel_requested s),
       cancelling := cancelling s + 1\<rparr>"

definition cancel_finish :: "stage \<Rightarrow> cie \<Rightarrow> cie" where
  "cancel_finish st s = (cancel_children st s)\<lparr>cancelling := cancelling s - 1, cancelled := True\<rparr>"

fun index_of_group :: "nat set \<Rightarrow> nat \<Rightarrow> nat list \<Rightarrow> nat option" where
  "index_of_group gone g [] = None"
| "index_of_group gone g (h # hs) =
     (if h \<notin> gone \<and> h = g then Some 0 else map_option Suc (index_of_group gone g hs))"

definition delete_at :: "nat \<Rightarrow> 'a list \<Rightarrow> 'a list" where
  "delete_at i xs = take i xs @ drop (Suc i) xs"

text \<open>\<open>stop_callback_group\<close> up to the join, under \<open>child_resources_mutex_\<close>. The thread taken out of the
  vector waits in \<open>stopping\<close> for the caller to join it.\<close>

definition stop_callback_group :: "nat \<Rightarrow> cie \<Rightarrow> cie" where
  "stop_callback_group g s =
     (if length (child_callback_groups s) \<noteq> length (weak_child_executors s) \<or>
         length (child_callback_groups s) \<noteq> length (child_threads s) then s
      else case index_of_group (gone_groups s) g (child_callback_groups s) of
             None \<Rightarrow> s
           | Some i \<Rightarrow>
               s\<lparr>children := cancel_child Stage1 (weak_child_executors s ! i) (children s),
                 stopping := (child_threads s ! i) # stopping s,
                 child_callback_groups := delete_at i (child_callback_groups s),
                 weak_child_executors := delete_at i (weak_child_executors s),
                 child_threads := delete_at i (child_threads s)\<rparr>)"

section \<open>Child threads\<close>

text \<open>A child thread enters \<open>spin()\<close> of its executor, which sets the flag \<open>spinning\<close>
  (\<open>SingleThreadedAgnocastExecutor::spin\<close>, \<open>AgnocastOnlySingleThreadedExecutor::spin\<close>), and leaves the
  loop when it finds its condition false. The executor dies with its thread; the destructor of stage 2
  gives the group back.\<close>

definition child_enter :: "nat \<Rightarrow> cie \<Rightarrow> cie" where
  "child_enter e s =
     s\<lparr>children := (children s)(e := (children s e)\<lparr>ch_pc := Running, ch_spinning := True\<rparr>)\<rparr>"

definition child_goes_on :: "stage \<Rightarrow> cie \<Rightarrow> nat \<Rightarrow> bool" where
  "child_goes_on st s e \<longleftrightarrow> ch_spinning (children s e) \<and>
     (st = Stage2 \<longrightarrow> \<not> ch_cancel (children s e)) \<and> context_ok s"

definition child_leave :: "stage \<Rightarrow> nat \<Rightarrow> cie \<Rightarrow> cie" where
  "child_leave st e s =
     s\<lparr>children := (children s)(e := (children s e)\<lparr>ch_pc := Finished, ch_spinning := False\<rparr>),
       associated := (if st = Stage2 \<and> ch_group (children s e) \<notin> gone_groups s
                      then (associated s)(ch_group (children s e) := False) else associated s)\<rparr>"

section \<open>Steps\<close>

text \<open>Groups that the thread in \<open>spin()\<close> holds by shared pointer.\<close>

fun held_groups :: "spin_pc \<Rightarrow> nat set" where
  "held_groups (Collected gs) = set gs"
| "held_groups (Scanned gs) = set gs"
| "held_groups _ = {}"

text \<open>Steps of the thread in \<open>spin()\<close> and of the child threads.\<close>

inductive work_step :: "stage \<Rightarrow> (nat \<Rightarrow> bool) \<Rightarrow> cie \<Rightarrow> cie \<Rightarrow> bool" for st auto where
  Collect: "\<not> terminated s \<Longrightarrow> spin_at s = Entered \<Longrightarrow> work_step st auto s (collect_groups auto s)"
| Initial: "\<not> terminated s \<Longrightarrow> spin_at s = Collected gs \<Longrightarrow> work_step st auto s (spawn_initial st gs s)"
| Condition: "\<not> terminated s \<Longrightarrow> spin_at s = Monitor \<Longrightarrow> work_step st auto s (monitor_condition st s)"
| Scan: "\<not> terminated s \<Longrightarrow> spin_at s = Woken \<Longrightarrow> work_step st auto s (scan_groups st auto s)"
| Spawn: "\<not> terminated s \<Longrightarrow> spin_at s = Scanned gs \<Longrightarrow> work_step st auto s (spawn_scanned st gs s)"
| Leave: "\<not> terminated s \<Longrightarrow> spin_at s = Leaving \<Longrightarrow> work_step st auto s (leave_loop st s)"
| Join: "\<not> terminated s \<Longrightarrow> spin_at s = Joining ts \<Longrightarrow> (\<And>t. t \<in> set (take 1 ts) \<Longrightarrow> ch_pc (children s t) = Finished)
    \<Longrightarrow> work_step st auto s (join_next ts s)"
| Child_enter: "\<not> terminated s \<Longrightarrow> ch_pc (children s e) = Starting \<Longrightarrow> work_step st auto s (child_enter e s)"
| Child_leave: "\<not> terminated s \<Longrightarrow> ch_pc (children s e) = Running \<Longrightarrow> \<not> child_goes_on st s e
    \<Longrightarrow> work_step st auto s (child_leave st e s)"

text \<open>Steps of everybody else.\<close>

inductive other_step :: "stage \<Rightarrow> (nat \<Rightarrow> bool) \<Rightarrow> cie \<Rightarrow> cie \<Rightarrow> bool" for st auto where
  Spin: "\<not> terminated s \<Longrightarrow> spin_at s = Idle \<Longrightarrow> other_step st auto s (spin_enter st s)"
| Add_group: "\<not> terminated s \<Longrightarrow> other_step st auto s (add_callback_group st auto g n s)"
| Remove_group: "\<not> terminated s \<Longrightarrow> other_step st auto s (remove_callback_group st g s)"
| Add_node: "\<not> terminated s \<Longrightarrow> other_step st auto s (add_node st auto n s)"
| Remove_node: "\<not> terminated s \<Longrightarrow> st = Stage1 \<Longrightarrow> other_step st auto s (remove_node n s)"
| Cancel_flags: "\<not> terminated s \<Longrightarrow> other_step st auto s (cancel_flags st s)"
| Cancel_finish: "\<not> terminated s \<Longrightarrow> 0 < cancelling s \<Longrightarrow> other_step st auto s (cancel_finish st s)"
| Stop: "\<not> terminated s \<Longrightarrow> st = Stage1 \<Longrightarrow> other_step st auto s (stop_callback_group g s)"
| Stop_join: "\<not> terminated s \<Longrightarrow> t \<in> set (stopping s) \<Longrightarrow> ch_pc (children s t) = Finished
    \<Longrightarrow> other_step st auto s (s\<lparr>stopping := remove1 t (stopping s)\<rparr>)"
| New_group: "\<not> terminated s \<Longrightarrow> (\<And>m. g \<notin> set (node_groups s m)) \<Longrightarrow> \<not> associated s g
    \<Longrightarrow> other_step st auto s (s\<lparr>node_groups := (node_groups s)(n := node_groups s n @ [g])\<rparr>)"
| Group_gone: "\<not> terminated s \<Longrightarrow> g \<notin> held_groups (spin_at s)
    \<Longrightarrow> other_step st auto s (s\<lparr>gone_groups := insert g (gone_groups s)\<rparr>)"
| Node_gone: "\<not> terminated s \<Longrightarrow> other_step st auto s (s\<lparr>gone_nodes := insert n (gone_nodes s)\<rparr>)"
| Flag: "\<not> terminated s \<Longrightarrow> st = Stage1 \<Longrightarrow> other_step st auto s (s\<lparr>associated := f\<rparr>)"

text \<open>\<open>rclcpp::shutdown()\<close> or a signal.\<close>

inductive cie_step :: "stage \<Rightarrow> (nat \<Rightarrow> bool) \<Rightarrow> cie \<Rightarrow> cie \<Rightarrow> bool" for st auto where
  Work: "work_step st auto s s' \<Longrightarrow> cie_step st auto s s'"
| Other: "other_step st auto s s' \<Longrightarrow> cie_step st auto s s'"
| Shutdown: "\<not> terminated s \<Longrightarrow> cie_step st auto s (s\<lparr>context_ok := False\<rparr>)"

inductive cie_reach :: "stage \<Rightarrow> (nat \<Rightarrow> bool) \<Rightarrow> cie \<Rightarrow> bool" for st auto where
  Start: "cie_reach st auto init_cie"
| Step: "cie_reach st auto s \<Longrightarrow> cie_step st auto s s' \<Longrightarrow> cie_reach st auto s'"

inductive_cases work_stepE: "work_step st auto s s'"
inductive_cases other_stepE: "other_step st auto s s'"
inductive_cases cie_stepE: "cie_step st auto s s'"

section \<open>Threads\<close>

lemmas cie_ops = add_callback_group_def remove_callback_group_def add_node_def remove_node_def
  collect_groups_def spin_return_def spin_enter_def monitor_condition_def scan_groups_def
  join_next_def cancel_flags_def child_enter_def child_leave_def

lemma spawn_each_keeps:
  "(\<And>g s. P s \<Longrightarrow> P (spawn_child_executor st g s)) \<Longrightarrow> P s \<Longrightarrow> P (spawn_each st gs s)"
  by (induction gs arbitrary: s) (auto simp: Let_def)

lemma spawn_new_keeps:
  "(\<And>g s. P s \<Longrightarrow> P (spawn_child_executor st g s)) \<Longrightarrow> P s \<Longrightarrow> P (spawn_new st gs s)"
  by (induction gs arbitrary: s) (auto simp: Let_def)

lemma cancel_child_pc [simp]: "ch_pc (cancel_child st e ch x) = ch_pc (ch x)"
  by (simp add: cancel_child_def)

lemma cancel_child_group [simp]: "ch_group (cancel_child st e ch x) = ch_group (ch x)"
  by (simp add: cancel_child_def)

lemma cancel_children_pc [simp]: "ch_pc (fold (cancel_child st) es ch x) = ch_pc (ch x)"
  by (induction es arbitrary: ch) auto

lemma cancel_children_group [simp]: "ch_group (fold (cancel_child st) es ch x) = ch_group (ch x)"
  by (induction es arbitrary: ch) auto

lemma cancel_children_untouched: "x \<notin> set es \<Longrightarrow> fold (cancel_child st) es ch x = ch x"
  by (induction es arbitrary: ch) (auto simp: cancel_child_def)

fun joining :: "spin_pc \<Rightarrow> nat list" where
  "joining (Joining ts) = ts"
| "joining _ = []"

fun childless :: "spin_pc \<Rightarrow> bool" where
  "childless Idle = True"
| "childless Entered = True"
| "childless (Collected gs) = True"
| "childless (Joining ts) = True"
| "childless _ = False"

text \<open>Where the threads are: in the vectors, with a caller of \<open>stop_callback_group\<close>, with \<open>spin()\<close> on its
  way out, or over.\<close>

definition thread_inv :: "stage \<Rightarrow> cie \<Rightarrow> bool" where
  "thread_inv st s \<longleftrightarrow>
     weak_child_executors s = child_threads s \<and>
     (st = Stage1 \<longrightarrow> length (child_callback_groups s) = length (child_threads s)) \<and>
     distinct (child_threads s @ stopping s @ joining (spin_at s)) \<and>
     (\<forall>t\<in>set (child_threads s @ stopping s @ joining (spin_at s)). t < next_child s) \<and>
     (\<forall>t. ch_pc (children s t) \<noteq> Finished \<longrightarrow>
        t \<in> set (child_threads s @ stopping s @ joining (spin_at s))) \<and>
     (childless (spin_at s) \<longrightarrow> child_threads s = []) \<and>
     (st = Stage2 \<longrightarrow> stopping s = [])"

lemma thread_inv_init: "thread_inv st init_cie"
  by (simp add: thread_inv_def init_cie_def no_child_def)

text \<open>The invariant of the vectors alone, which the spawning loops keep whatever \<open>spin()\<close> does next.\<close>

definition vectors_inv :: "stage \<Rightarrow> cie \<Rightarrow> bool" where
  "vectors_inv st s \<longleftrightarrow>
     weak_child_executors s = child_threads s \<and>
     (st = Stage1 \<longrightarrow> length (child_callback_groups s) = length (child_threads s)) \<and>
     distinct (child_threads s @ stopping s) \<and>
     (\<forall>t\<in>set (child_threads s @ stopping s). t < next_child s) \<and>
     (\<forall>t. ch_pc (children s t) \<noteq> Finished \<longrightarrow> t \<in> set (child_threads s @ stopping s)) \<and>
     (st = Stage2 \<longrightarrow> stopping s = [])"

lemma vectors_spawn: "vectors_inv st s \<Longrightarrow> vectors_inv st (spawn_child_executor st g s)"
  by (auto simp: vectors_inv_def spawn_child_executor_def Let_def less_Suc_eq)

lemmas vectors_loops = spawn_each_keeps [where P = "vectors_inv st" for st, OF vectors_spawn]
  spawn_new_keeps [where P = "vectors_inv st" for st, OF vectors_spawn]

lemma thread_inv_vectors: "joining (spin_at s) = [] \<Longrightarrow> thread_inv st s \<Longrightarrow> vectors_inv st s"
  by (simp add: thread_inv_def vectors_inv_def)

lemma vectors_thread_inv: "vectors_inv st s \<Longrightarrow> thread_inv st (s\<lparr>spin_at := Monitor\<rparr>)"
  by (simp add: thread_inv_def vectors_inv_def)

lemma thread_inv_spawn_initial:
  assumes "thread_inv st s" and "spin_at s = Collected gs"
  shows "thread_inv st (spawn_initial st gs s)"
proof (cases "keep_spinning st s")
  case True
  then show ?thesis using vectors_thread_inv vectors_loops(1) thread_inv_vectors assms by (simp add: spawn_initial_def)
next
  case False
  then show ?thesis using assms by (auto simp: spawn_initial_def spin_return_def thread_inv_def)
qed

lemma thread_inv_spawn_scanned:
  assumes "thread_inv st s" and "spin_at s = Scanned gs"
  shows "thread_inv st (spawn_scanned st gs s)"
proof (cases "gs \<noteq> [] \<and> keep_spinning st s \<and> context_ok s")
  case True
  then show ?thesis using vectors_thread_inv vectors_loops(2) thread_inv_vectors assms by (simp add: spawn_scanned_def)
next
  case False
  then show ?thesis using assms by (auto simp: spawn_scanned_def thread_inv_def)
qed

lemma thread_inv_leave: "thread_inv st s \<Longrightarrow> spin_at s = Leaving \<Longrightarrow> thread_inv st (leave_loop st s)"
  by (auto simp: thread_inv_def leave_loop_def cancel_children_def)

lemma thread_inv_join:
  assumes "thread_inv st s" and "spin_at s = Joining ts" and "\<And>t. t \<in> set (take 1 ts) \<Longrightarrow> ch_pc (children s t) = Finished"
  shows "thread_inv st (join_next ts s)"
  using assms by (cases ts) (auto simp: thread_inv_def join_next_def spin_return_def)

lemma thread_inv_work:
  assumes "work_step st auto s s'" and "thread_inv st s"
  shows "thread_inv st s'"
  using assms
proof (cases rule: work_step.cases)
  case (Join ts)
  then show ?thesis using thread_inv_join assms(2) by blast
qed (auto simp: thread_inv_spawn_initial thread_inv_spawn_scanned thread_inv_leave,
     auto simp: thread_inv_def cie_ops split: if_splits)

lemma set_delete_at: "i < length xs \<Longrightarrow> distinct xs \<Longrightarrow> set (delete_at i xs) = set xs - {xs ! i}"
proof -
  assume "i < length xs" and d: "distinct xs"
  then have e: "xs = take i xs @ xs ! i # drop (Suc i) xs" by (simp add: id_take_nth_drop)
  then have "distinct (take i xs @ xs ! i # drop (Suc i) xs)" using d by simp
  moreover have "set xs = set (take i xs @ xs ! i # drop (Suc i) xs)" using e by simp
  ultimately show ?thesis unfolding delete_at_def by auto
qed

lemma distinct_delete_at: "distinct xs \<Longrightarrow> distinct (delete_at i xs)"
  unfolding delete_at_def
  by (auto simp: distinct_append dest!: set_take_disj_set_drop_if_distinct [of xs i "Suc i"])

lemma length_delete_at [simp]: "i < length xs \<Longrightarrow> length (delete_at i xs) = length xs - 1"
  by (simp add: delete_at_def)

lemma index_of_group_Some: "index_of_group gone g hs = Some i \<Longrightarrow> i < length hs \<and> hs ! i = g \<and> g \<notin> gone"
  by (induction hs arbitrary: i) (auto split: if_splits)

text \<open>What \<open>stop_callback_group\<close> does when it finds the group.\<close>

lemma stop_found:
  assumes "thread_inv Stage1 s" and "index_of_group (gone_groups s) g (child_callback_groups s) = Some i"
  defines "e \<equiv> child_threads s ! i"
  shows "stop_callback_group g s = s\<lparr>children := cancel_child Stage1 e (children s),
      stopping := e # stopping s, child_callback_groups := delete_at i (child_callback_groups s),
      weak_child_executors := delete_at i (child_threads s), child_threads := delete_at i (child_threads s)\<rparr>"
    and "i < length (child_threads s)" and "e \<in> set (child_threads s)"
  using assms index_of_group_Some [OF assms(2)]
  by (auto simp: stop_callback_group_def thread_inv_def)

lemma thread_inv_stop:
  assumes inv: "thread_inv Stage1 s"
  shows "thread_inv Stage1 (stop_callback_group g s)"
proof (cases "index_of_group (gone_groups s) g (child_callback_groups s)")
  case None
  then show ?thesis using inv by (simp add: stop_callback_group_def)
next
  case (Some i)
  note f = stop_found [OF inv Some]
  have d: "distinct (child_threads s)" using inv by (simp add: thread_inv_def)
  note sd = set_delete_at [OF f(2) d] and dd = distinct_delete_at [OF d, of i]
  have c: "childless (spin_at s) \<Longrightarrow> False" using f(3) inv by (auto simp: thread_inv_def)
  have len: "length (delete_at i (child_callback_groups s)) = length (delete_at i (child_threads s))"
    using inv f(2) by (simp add: thread_inv_def)
  have parts: "set (child_threads s ! i # stopping s) \<union> set (delete_at i (child_threads s)) =
      set (stopping s) \<union> set (child_threads s)" using sd f(3) by auto
  have dis: "distinct (delete_at i (child_threads s) @ (child_threads s ! i # stopping s) @ joining (spin_at s))"
    using inv f(3) dd sd by (auto simp: thread_inv_def)
  have nc: "\<not> childless (spin_at s)" using c by blast
  show ?thesis unfolding f(1) thread_inv_def
    using inv len dis parts nc by (simp add: thread_inv_def set_eq_iff) blast
qed

lemma thread_inv_cancel_finish: "thread_inv st s \<Longrightarrow> thread_inv st (cancel_finish st s)"
  by (simp add: thread_inv_def cancel_finish_def cancel_children_def)

lemma thread_inv_stop_join:
  assumes "thread_inv st s" and "t \<in> set (stopping s)" and "ch_pc (children s t) = Finished"
  shows "thread_inv st (s\<lparr>stopping := remove1 t (stopping s)\<rparr>)"
proof -
  have "distinct (stopping s)" using assms by (simp add: thread_inv_def)
  then have "set (remove1 t (stopping s)) = set (stopping s) - {t}" by (rule set_remove1_eq)
  then show ?thesis using assms by (auto simp: thread_inv_def)
qed

lemma thread_inv_spin: "thread_inv st s \<Longrightarrow> spin_at s = Idle \<Longrightarrow> thread_inv st (spin_enter st s)"
  by (auto simp: thread_inv_def spin_enter_def spin_return_def Let_def)

lemma thread_inv_frame:
  "weak_child_executors s' = weak_child_executors s \<Longrightarrow> child_callback_groups s' = child_callback_groups s \<Longrightarrow>
   child_threads s' = child_threads s \<Longrightarrow> stopping s' = stopping s \<Longrightarrow> spin_at s' = spin_at s \<Longrightarrow>
   next_child s' = next_child s \<Longrightarrow> children s' = children s \<Longrightarrow> thread_inv st s \<Longrightarrow> thread_inv st s'"
  unfolding thread_inv_def by simp

lemma thread_inv_membership:
  assumes inv: "thread_inv st s"
  shows "thread_inv st (add_callback_group st auto g n s)" and "thread_inv st (remove_callback_group st g s)"
    and "thread_inv st (add_node st auto n s)" and "thread_inv st (remove_node n s)"
    and "thread_inv st (cancel_flags st s)"
  by (rule thread_inv_frame [OF _ _ _ _ _ _ _ inv]; simp add: cie_ops split: stage.split option.split)+

lemma thread_inv_other:
  assumes "other_step st auto s s'" and inv: "thread_inv st s"
  shows "thread_inv st s'"
  using assms(1)
proof (cases rule: other_step.cases)
  case New_group
  then show ?thesis by (intro thread_inv_frame [OF _ _ _ _ _ _ _ inv]) simp_all
next
  case Group_gone
  then show ?thesis by (intro thread_inv_frame [OF _ _ _ _ _ _ _ inv]) simp_all
next
  case Node_gone
  then show ?thesis by (intro thread_inv_frame [OF _ _ _ _ _ _ _ inv]) simp_all
next
  case Flag
  then show ?thesis by (intro thread_inv_frame [OF _ _ _ _ _ _ _ inv]) simp_all
qed (use inv in \<open>simp_all add: thread_inv_stop thread_inv_cancel_finish thread_inv_stop_join thread_inv_spin
      thread_inv_membership\<close>)

lemma thread_inv_step: "cie_step st auto s s' \<Longrightarrow> thread_inv st s \<Longrightarrow> thread_inv st s'"
  by (erule cie_step.cases)
    (simp_all add: thread_inv_work thread_inv_other, rule thread_inv_frame [of _ s], simp_all)

lemma reach_thread_inv: "cie_reach st auto s \<Longrightarrow> thread_inv st s"
  by (induction rule: cie_reach.induct) (auto simp: thread_inv_init thread_inv_step)

section \<open>A spinning executor\<close>

text \<open>One node with one group, added and spinning: the child has been created and its thread has not run.\<close>

definition all_auto :: "nat \<Rightarrow> bool" where "all_auto g = True"

definition demo_node :: cie where
  "demo_node = init_cie\<lparr>node_groups := (\<lambda>_. [])(0 := [1]), weak_nodes := [0]\<rparr>"

definition demo_spinning :: "stage \<Rightarrow> cie" where
  "demo_spinning st = demo_node\<lparr>spinning := True, spin_at := Monitor,
     child_callback_groups := (if st = Stage1 then [1] else []), weak_child_executors := [0], child_threads := [0],
     children := (\<lambda>_. no_child)(0 := \<lparr>ch_pc = Starting, ch_spinning = False, ch_cancel = False, ch_group = 1\<rparr>),
     associated := (if st = Stage2 then (\<lambda>_. False)(1 := True) else (\<lambda>_. False)), next_child := 1\<rparr>"

lemma reach_other: "cie_reach st auto s \<Longrightarrow> other_step st auto s s' \<Longrightarrow> cie_reach st auto s'"
  using cie_reach.Step cie_step.Other by blast

lemma reach_work: "cie_reach st auto s \<Longrightarrow> work_step st auto s s' \<Longrightarrow> cie_reach st auto s'"
  using cie_reach.Step cie_step.Work by blast

lemma demo_node_reach: "cie_reach st all_auto demo_node"
proof -
  have "cie_reach st all_auto (init_cie\<lparr>node_groups := (\<lambda>_. [])(0 := [1])\<rparr>)"
    using reach_other [OF cie_reach.Start other_step.New_group [of init_cie 1 _ _ 0]] by (simp add: init_cie_def)
  from reach_other [OF this other_step.Add_node [of _ _ _ 0]]
  show ?thesis by (simp add: demo_node_def init_cie_def add_node_def)
qed

lemma demo_spinning_reach: "cie_reach st all_auto (demo_spinning st)"
proof -
  let ?e = "demo_node\<lparr>spinning := True, spin_at := Entered\<rparr>"
  have "spin_enter st demo_node = ?e" by (simp add: spin_enter_def demo_node_def init_cie_def)
  moreover have "other_step st all_auto demo_node (spin_enter st demo_node)"
    by (rule other_step.Spin) (simp_all add: demo_node_def init_cie_def)
  ultimately have "cie_reach st all_auto ?e" using reach_other [OF demo_node_reach] by simp
  from reach_work [OF this work_step.Collect]
  have "cie_reach st all_auto (demo_node\<lparr>spinning := True, spin_at := Collected [1]\<rparr>)"
    by (simp add: collect_groups_def live_manual_groups_def live_auto_groups_def demo_node_def init_cie_def all_auto_def)
  from reach_work [OF this work_step.Initial [of _ "[1]"]]
  have r: "cie_reach st all_auto (spawn_initial st [1] (demo_node\<lparr>spinning := True, spin_at := Collected [1]\<rparr>))"
    by (simp add: demo_node_def init_cie_def)
  have "spawn_initial st [1] (demo_node\<lparr>spinning := True, spin_at := Collected [1]\<rparr>) = demo_spinning st"
    by (cases st) (simp_all add: demo_spinning_def demo_node_def init_cie_def spawn_initial_def keep_spinning_def
        spawn_child_executor_def Let_def)
  then show ?thesis using r by simp
qed

lemmas demo_cie = demo_spinning_def demo_node_def init_cie_def no_child_def

section \<open>No thread is forgotten\<close>

text \<open>No child thread is forgotten: the vectors of \<open>CallbackIsolatedAgnocastExecutor\<close> are always
  aligned, so that \<open>stop_callback_group\<close> never skips its work, and when no call of \<open>spin()\<close> is under way
  every child thread has ended or is being waited for by a caller of \<open>stop_callback_group\<close>. In stage 2,
  where nobody stops a single group, \<open>spin()\<close> returns only after all its children have ended.\<close>

theorem no_thread_forgotten:
  assumes "cie_reach st auto s"
  shows "(st = Stage1 \<longrightarrow> length (child_callback_groups s) = length (weak_child_executors s) \<and>
           length (child_callback_groups s) = length (child_threads s)) \<and>
    (spin_at s = Idle \<longrightarrow> ch_pc (children s t) \<noteq> Finished \<longrightarrow> st = Stage1 \<and> t \<in> set (stopping s))"
  using reach_thread_inv [OF assms] by (cases st) (auto simp: thread_inv_def)

theorem no_thread_forgotten_witness:
  "length (child_callback_groups (demo_spinning Stage1)) = length (child_threads (demo_spinning Stage1)) \<and>
   ch_pc (children (demo_spinning Stage1) 0) \<noteq> Finished"
  using no_thread_forgotten [OF demo_spinning_reach [of Stage1], of 0] by (simp add: demo_cie)

section \<open>Cancellation of stage 2\<close>

lemma cancel_child_keeps: "ch_cancel (ch e) \<Longrightarrow> ch_cancel (cancel_child st a ch e)"
  by (auto simp: cancel_child_def)

lemma cancel_children_keeps: "ch_cancel (ch e) \<Longrightarrow> ch_cancel (fold (cancel_child st) es ch e)"
  by (induction es arbitrary: ch) (simp_all add: cancel_child_keeps)

lemma cancel_children_cancels:
  assumes "e \<in> set es" and "ch_pc (ch e) \<noteq> Finished"
  shows "ch_cancel (fold (cancel_child Stage2) es ch e)"
  using assms
proof (induction es arbitrary: ch)
  case (Cons a es)
  have "e = a \<Longrightarrow> ch_cancel (cancel_child Stage2 a ch e)" using Cons.prems by (simp add: cancel_child_def)
  then show ?case using Cons by (auto intro: cancel_children_keeps)
qed simp

text \<open>A cancellation is remembered, and once \<open>cancel()\<close> has returned every child has been told.\<close>

definition cancel_inv :: "cie \<Rightarrow> bool" where
  "cancel_inv s \<longleftrightarrow>
     (0 < cancelling s \<or> cancelled s \<longrightarrow> cancel_requested s) \<and>
     (\<forall>e. ch_pc (children s e) \<noteq> Finished \<longrightarrow> cancelled s \<or> e \<in> set (joining (spin_at s)) \<longrightarrow>
        ch_cancel (children s e))"

lemma cancel_inv_init: "cancel_inv init_cie"
  by (simp add: cancel_inv_def init_cie_def no_child_def)

lemma spawn_each_frame:
  "cancelled (spawn_each st gs s) = cancelled s \<and> cancelling (spawn_each st gs s) = cancelling s \<and>
   cancel_requested (spawn_each st gs s) = cancel_requested s \<and> spin_at (spawn_each st gs s) = spin_at s"
  by (induction gs arbitrary: s) (auto simp: Let_def spawn_child_executor_def)

lemma spawn_new_frame:
  "cancelled (spawn_new st gs s) = cancelled s \<and> cancelling (spawn_new st gs s) = cancelling s \<and>
   cancel_requested (spawn_new st gs s) = cancel_requested s \<and> spin_at (spawn_new st gs s) = spin_at s"
  by (induction gs arbitrary: s) (auto simp: Let_def spawn_child_executor_def)

lemma cancel_inv_spawn:
  "cancel_inv s \<Longrightarrow> spin_at s = Collected gs \<Longrightarrow> cancel_inv (spawn_initial Stage2 gs s)"
  "cancel_inv s \<Longrightarrow> spin_at s = Scanned gs \<Longrightarrow> cancel_inv (spawn_scanned Stage2 gs s)"
  by (auto simp: cancel_inv_def spawn_initial_def spawn_scanned_def keep_spinning_def spin_return_def
      spawn_each_frame spawn_new_frame)

lemma cancel_inv_leave:
  assumes "thread_inv Stage2 s" and "cancel_inv s" and "spin_at s = Leaving"
  shows "cancel_inv (leave_loop Stage2 s)"
  using assms by (auto simp: cancel_inv_def leave_loop_def cancel_children_def thread_inv_def
      intro: cancel_children_cancels cancel_children_keeps)

lemma cancel_inv_finish:
  assumes inv: "thread_inv Stage2 s" and c: "cancel_inv s" and p: "0 < cancelling s"
  shows "cancel_inv (cancel_finish Stage2 s)"
proof -
  have "ch_cancel (fold (cancel_child Stage2) (child_threads s) (children s) e)"
    if "ch_pc (children s e) \<noteq> Finished" for e
  proof (cases "e \<in> set (child_threads s)")
    case True
    then show ?thesis using that by (rule cancel_children_cancels)
  next
    case False
    then have "e \<in> set (joining (spin_at s))" using inv that by (auto simp: thread_inv_def)
    then show ?thesis using c that by (auto simp: cancel_inv_def intro: cancel_children_keeps)
  qed
  then show ?thesis using inv c p by (auto simp: cancel_inv_def cancel_finish_def cancel_children_def thread_inv_def)
qed

lemma cancel_inv_join: "cancel_inv s \<Longrightarrow> spin_at s = Joining ts \<Longrightarrow> cancel_inv (join_next ts s)"
  by (cases ts) (auto simp: cancel_inv_def join_next_def spin_return_def)

lemma cancel_inv_step:
  assumes "cie_step Stage2 auto s s'" and "thread_inv Stage2 s" and "cancel_inv s"
  shows "cancel_inv s'"
  using assms(1)
proof (cases rule: cie_step.cases)
  case Work
  then show ?thesis using assms(2,3)
    by (cases rule: work_step.cases)
      (simp_all add: cancel_inv_spawn cancel_inv_leave cancel_inv_join, auto simp: cancel_inv_def cie_ops)
next
  case Other
  then show ?thesis using assms(2,3)
    by (cases rule: other_step.cases)
      (simp_all add: cancel_inv_finish, auto simp: cancel_inv_def cie_ops Let_def split: option.splits)
next
  case Shutdown
  then show ?thesis using assms(3) by (simp add: cancel_inv_def)
qed

lemma reach_cancel_inv: "cie_reach Stage2 auto s \<Longrightarrow> cancel_inv s"
proof (induction rule: cie_reach.induct)
  case (Step s s')
  then show ?case using cancel_inv_step reach_thread_inv by blast
qed (rule cancel_inv_init)

text \<open>What is left to do once \<open>cancel()\<close> has returned: for the thread in \<open>spin()\<close>, and for the children.\<close>

definition spin_work :: "cie \<Rightarrow> nat" where
  "spin_work s = (case spin_at s of Idle \<Rightarrow> 0 | Entered \<Rightarrow> 2 | Collected gs \<Rightarrow> 1
     | Monitor \<Rightarrow> 3 + length (child_threads s) | Woken \<Rightarrow> 3 + length (child_threads s)
     | Scanned gs \<Rightarrow> 4 + length (child_threads s) | Leaving \<Rightarrow> 2 + length (child_threads s)
     | Joining ts \<Rightarrow> 1 + length ts)"

definition child_work :: "child_executor \<Rightarrow> nat" where
  "child_work c = (case ch_pc c of Starting \<Rightarrow> 2 | Running \<Rightarrow> 1 | Finished \<Rightarrow> 0)"

definition work_left :: "cie \<Rightarrow> nat" where
  "work_left s = spin_work s + (\<Sum>e<next_child s. child_work (children s e))"

lemma sum_child_update:
  fixes f :: "'a \<Rightarrow> nat" and n :: nat
  assumes "e < n"
  shows "(\<Sum>i<n. f ((c(e := x)) i)) + f (c e) = (\<Sum>i<n. f (c i)) + f x"
proof -
  have fin: "finite {..<n}" "e \<in> {..<n}" using assms by auto
  have "(\<Sum>i\<in>{..<n} - {e}. f ((c(e := x)) i)) = (\<Sum>i\<in>{..<n} - {e}. f (c i))" by (rule sum.cong) auto
  then show ?thesis using sum.remove [OF fin, of "\<lambda>i. f ((c(e := x)) i)"] sum.remove [OF fin, of "\<lambda>i. f (c i)"]
    by simp
qed

lemma unfinished_known: "thread_inv st s \<Longrightarrow> ch_pc (children s e) \<noteq> Finished \<Longrightarrow> e < next_child s"
  unfolding thread_inv_def by blast

lemma work_left_child:
  assumes "thread_inv st s" and "ch_pc (children s e) \<noteq> Finished" and "child_work c < child_work (children s e)"
    and "children s' = (children s)(e := c)" and "next_child s' = next_child s"
    and "spin_at s' = spin_at s" and "child_threads s' = child_threads s"
  shows "work_left s' < work_left s"
proof -
  have "spin_work s' = spin_work s" using assms(6,7) by (simp add: spin_work_def split: spin_pc.split)
  then show ?thesis
    using sum_child_update [OF unfinished_known [OF assms(1,2)], of child_work "children s" c] assms(3-5)
    unfolding work_left_def assms(4,5) by linarith
qed

lemma work_left_frame:
  assumes "next_child s' = next_child s" and "\<And>e. ch_pc (children s' e) = ch_pc (children s e)"
  shows "spin_work s' < spin_work s \<Longrightarrow> work_left s' < work_left s"
    and "spin_work s' \<le> spin_work s \<Longrightarrow> work_left s' \<le> work_left s"
  using assms by (simp_all add: work_left_def child_work_def)

text \<open>Every step of these threads counts, and nobody can add to what is left.\<close>

lemma cancelled_requested: "cancel_inv s \<Longrightarrow> cancelled s \<Longrightarrow> cancel_requested s"
  by (simp add: cancel_inv_def)

lemma work_step_decreases:
  assumes "work_step Stage2 auto s s'" and inv: "thread_inv Stage2 s" and r: "cancel_requested s"
  shows "work_left s' < work_left s"
  using assms(1)
proof (cases rule: work_step.cases)
  case (Child_enter e)
  then show ?thesis by (intro work_left_child [OF inv]) (auto simp: child_enter_def child_work_def)
next
  case (Child_leave e)
  then show ?thesis by (intro work_left_child [OF inv, of e]) (auto simp: child_leave_def child_work_def)
next
  case (Join ts)
  then show ?thesis
    by (intro work_left_frame) (auto simp: join_next_def spin_return_def spin_work_def split: list.split)
qed (rule work_left_frame(1); use r in \<open>simp add: cie_ops spawn_initial_def spawn_scanned_def keep_spinning_def
      leave_loop_def cancel_children_def spin_work_def\<close>)+

lemma other_step_keeps:
  assumes "cie_step Stage2 auto s s'" and "\<not> work_step Stage2 auto s s'" and r: "cancel_requested s"
  shows "work_left s' \<le> work_left s"
  using assms(1)
proof (cases rule: cie_step.cases)
  case Other
  then show ?thesis
    by (cases rule: other_step.cases)
      (rule work_left_frame(2); use r in \<open>simp add: cie_ops cancel_finish_def cancel_children_def spin_work_def Let_def
         split: option.split spin_pc.split\<close>)+
next
  case Shutdown
  then show ?thesis by (intro work_left_frame(2)) (simp_all add: spin_work_def split: spin_pc.split)
qed (use assms(2) in simp)

lemma cancelled_progress:
  assumes inv: "thread_inv Stage2 s" and c: "cancel_inv s" "cancelled s"
    and run: "\<not> terminated s" "spin_at s \<noteq> Idle"
  shows "\<exists>s'. work_step Stage2 auto s s'"
proof (cases "spin_at s")
  case (Joining ts)
  show ?thesis
  proof (cases ts)
    case Nil
    then show ?thesis using work_step.Join [of s ts] Joining run by auto
  next
    case (Cons t ts')
    show ?thesis
    proof (cases "ch_pc (children s t)")
      case Starting
      then show ?thesis using work_step.Child_enter run by blast
    next
      case Running
      then have "ch_cancel (children s t)" using c by (simp add: cancel_inv_def)
      then show ?thesis using work_step.Child_leave [OF run(1) Running] by (auto simp: child_goes_on_def)
    next
      case Finished
      then show ?thesis using work_step.Join [OF run(1) Joining] Cons by auto
    qed
  qed
qed (use run in \<open>auto intro: work_step.intros\<close>)

text \<open>Runs, with the number of steps that the thread in \<open>spin()\<close> and the children make.\<close>

inductive cie_run :: "stage \<Rightarrow> (nat \<Rightarrow> bool) \<Rightarrow> nat \<Rightarrow> cie \<Rightarrow> cie \<Rightarrow> bool" for st auto where
  Done: "cie_run st auto 0 s s"
| Worked: "cie_run st auto n s s' \<Longrightarrow> work_step st auto s' s'' \<Longrightarrow> cie_run st auto (Suc n) s s''"
| Waited: "cie_run st auto n s s' \<Longrightarrow> cie_step st auto s' s'' \<Longrightarrow> \<not> work_step st auto s' s'' \<Longrightarrow> cie_run st auto n s s''"

lemma cancelled_step: "cie_step st auto s s' \<Longrightarrow> cancelled s \<Longrightarrow> cancelled s'"
  by (erule cie_step.cases; (erule work_step.cases other_step.cases)?)
    (simp_all add: cie_ops spawn_initial_def spawn_scanned_def leave_loop_def cancel_children_def cancel_finish_def
      spawn_each_frame spawn_new_frame stop_callback_group_def Let_def split: stage.split option.split list.split)

lemma cancelled_run:
  assumes "cie_run Stage2 auto n s s'" and "cie_reach Stage2 auto s" and "cancelled s"
  shows "cie_reach Stage2 auto s' \<and> cancelled s' \<and> n + work_left s' \<le> work_left s"
  using assms
proof (induction rule: cie_run.induct)
  case (Worked n s s' s'')
  then have r: "cie_reach Stage2 auto s'" "cancelled s'" "n + work_left s' \<le> work_left s" by auto
  note st = cie_step.Work [OF Worked.hyps(2)]
  have "work_left s'' < work_left s'"
    using work_step_decreases [OF Worked.hyps(2) reach_thread_inv] cancelled_requested reach_cancel_inv r by blast
  then show ?case using r cie_reach.Step [OF r(1) st] cancelled_step [OF st] by simp
next
  case (Waited n s s' s'')
  then have r: "cie_reach Stage2 auto s'" "cancelled s'" "n + work_left s' \<le> work_left s" by auto
  have "work_left s'' \<le> work_left s'"
    using other_step_keeps [OF Waited.hyps(2,3)] cancelled_requested reach_cancel_inv r by blast
  then show ?case using r cie_reach.Step [OF r(1) Waited.hyps(2)] cancelled_step [OF Waited.hyps(2)] by simp
qed simp

text \<open>Claim C17. Cancelling \<open>AgnocastOnlyCallbackIsolatedExecutor\<close> always works: from any reachable state in
  which a call of \<open>cancel()\<close> has returned, before, during or after \<open>spin()\<close>, and whatever the other threads
  do from then on, the thread in \<open>spin()\<close> and the child threads make at most \<open>work_left\<close> further steps
  altogether, and as long as \<open>spin()\<close> has not returned one of them can make its next step. So \<open>spin()\<close>
  returns, with every child thread joined.\<close>

theorem cancel_ends_spin:
  assumes "cie_reach Stage2 auto s" and "cancelled s" and "cie_run Stage2 auto n s s'"
  shows "n + work_left s' \<le> work_left s \<and>
    (spin_at s' \<noteq> Idle \<and> \<not> terminated s' \<longrightarrow> (\<exists>s''. work_step Stage2 auto s' s''))"
  using cancelled_run [OF assms(3,1,2)] cancelled_progress reach_thread_inv reach_cancel_inv by blast

theorem cancel_ends_spin_witness:
  defines "s \<equiv> cancel_finish Stage2 (cancel_flags Stage2 (demo_spinning Stage2))"
  shows "work_left s = 6 \<and> spin_at s = Monitor \<and> (\<exists>s'. work_step Stage2 all_auto s s')"
proof -
  have t: "\<not> terminated (demo_spinning Stage2)" by (simp add: demo_cie)
  then have "\<not> terminated (cancel_flags Stage2 (demo_spinning Stage2))"
    and "0 < cancelling (cancel_flags Stage2 (demo_spinning Stage2))" by (simp_all add: cancel_flags_def)
  from other_step.Cancel_finish [OF this]
  have r: "cie_reach Stage2 all_auto s"
    unfolding s_def by (rule reach_other [OF reach_other [OF demo_spinning_reach other_step.Cancel_flags [OF t]]])
  have "cancelled s" "spin_at s = Monitor" "\<not> terminated s" "work_left s = 6"
    by (simp_all add: s_def cancel_finish_def cancel_flags_def cancel_children_def cancel_child_def work_left_def
        spin_work_def child_work_def demo_cie)
  then show ?thesis using cancel_ends_spin [OF r _ cie_run.Done] by auto
qed

end
