(* ===== verification/Isolated_Executor_Races.thy ===== *)
theory Isolated_Executor_Races
  imports Isolated_Executor
begin

text \<open>
  Who runs a callback group. Stage 2 never runs one in two threads, and ends the process when a group was
  added by hand. In stage 1 two interleavings defeat \<open>stop_callback_group()\<close>: a child whose thread has not
  entered \<open>spin()\<close> yet misses the cancellation, and a group that the monitoring loop has already found is
  spawned after it was removed and stopped.
\<close>

section \<open>Stage 2: one child per group\<close>

definition owner_inv :: "cie \<Rightarrow> bool" where
  "owner_inv s \<longleftrightarrow>
     (\<forall>g. map_of (weak_groups_to_nodes s) g \<noteq> None \<longrightarrow> associated s g) \<and>
     (\<forall>e. ch_pc (children s e) \<noteq> Finished \<longrightarrow> associated s (ch_group (children s e)) \<and>
        map_of (weak_groups_to_nodes s) (ch_group (children s e)) = None) \<and>
     (\<forall>e e'. ch_pc (children s e) \<noteq> Finished \<longrightarrow> ch_pc (children s e') \<noteq> Finished \<longrightarrow>
        ch_group (children s e) = ch_group (children s e') \<longrightarrow> e = e')"

lemma owner_inv_init: "owner_inv init_cie"
  by (simp add: owner_inv_def init_cie_def no_child_def)

lemma owner_spawn: "owner_inv s \<Longrightarrow> owner_inv (spawn_child_executor Stage2 g s)"
  unfolding owner_inv_def spawn_child_executor_def Let_def by (auto split: if_splits)

lemma owner_frame:
  "associated s' = associated s \<Longrightarrow> weak_groups_to_nodes s' = weak_groups_to_nodes s \<Longrightarrow>
   (\<And>e. ch_pc (children s' e) = ch_pc (children s e)) \<Longrightarrow> (\<And>e. ch_group (children s' e) = ch_group (children s e)) \<Longrightarrow>
   owner_inv s \<Longrightarrow> owner_inv s'"
  unfolding owner_inv_def by simp

lemma owner_spawn_initial: "owner_inv s \<Longrightarrow> owner_inv (spawn_initial Stage2 gs s)"
  using spawn_each_keeps [where P = owner_inv, OF owner_spawn]
  by (auto simp: spawn_initial_def spin_return_def intro: owner_frame)

lemma owner_spawn_scanned: "owner_inv s \<Longrightarrow> owner_inv (spawn_scanned Stage2 gs s)"
  using spawn_new_keeps [where P = owner_inv, OF owner_spawn]
  by (auto simp: spawn_scanned_def intro: owner_frame)

lemma owner_enter: "owner_inv s \<Longrightarrow> ch_pc (children s e) = Starting \<Longrightarrow> owner_inv (child_enter e s)"
  unfolding owner_inv_def child_enter_def by (auto split: if_splits)

lemma owner_leave: "owner_inv s \<Longrightarrow> ch_pc (children s e) = Running \<Longrightarrow> owner_inv (child_leave Stage2 e s)"
  unfolding owner_inv_def child_leave_def by (auto split: if_splits)

lemma owner_work:
  assumes "work_step Stage2 auto s s'" and inv: "owner_inv s"
  shows "owner_inv s'"
  using assms(1)
proof (cases rule: work_step.cases)
  case (Join ts)
  then show ?thesis using inv by (auto simp: join_next_def spin_return_def split: list.split intro: owner_frame)
qed (use inv in \<open>auto simp: owner_spawn_initial owner_spawn_scanned owner_enter owner_leave
      collect_groups_def monitor_condition_def scan_groups_def leave_loop_def cancel_children_def intro: owner_frame\<close>)

lemma owner_add_group: "owner_inv s \<Longrightarrow> owner_inv (add_callback_group Stage2 auto g n s)"
  unfolding owner_inv_def add_callback_group_def by (auto split: if_splits)

lemma owner_remove_group: "owner_inv s \<Longrightarrow> owner_inv (remove_callback_group Stage2 g s)"
  unfolding owner_inv_def remove_callback_group_def by (auto split: option.splits if_splits)

lemma owner_other:
  assumes "other_step Stage2 auto s s'" and inv: "owner_inv s"
  shows "owner_inv s'"
  using assms(1)
  by (cases rule: other_step.cases)
    (use inv in \<open>auto simp: owner_add_group owner_remove_group spin_enter_def spin_return_def add_node_def
      cancel_flags_def cancel_finish_def cancel_children_def Let_def intro: owner_frame\<close>)

lemma reach_owner_inv: "cie_reach Stage2 auto s \<Longrightarrow> owner_inv s"
proof (induction rule: cie_reach.induct)
  case (Step s s')
  then show ?case by (auto elim!: cie_stepE intro: owner_work owner_other owner_frame)
qed (rule owner_inv_init)

lemma spawn_keeps_claim: "associated s g \<Longrightarrow> associated (spawn_child_executor Stage2 h s) g"
  by (simp add: spawn_child_executor_def Let_def)

lemma spawn_claimed_terminates: "associated s g \<Longrightarrow> g \<in> set gs \<Longrightarrow> terminated (spawn_each Stage2 gs s)"
proof (induction gs arbitrary: s)
  case (Cons h gs)
  then show ?case using spawn_keeps_claim [OF Cons.prems(1), of h]
    by (auto simp: Let_def) (auto simp: spawn_child_executor_def)
qed simp

text \<open>Claim C18. \<open>AgnocastOnlyCallbackIsolatedExecutor\<close> never runs a callback group in two threads: two child
  executors whose threads have not ended are of different groups, in every interleaving of \<open>spin()\<close>, its
  monitoring loop, the child threads and the callers of the executor. Such a group carries the flag that
  keeps other executors away.\<close>

theorem one_child_per_group:
  assumes "cie_reach Stage2 auto s" and "ch_pc (children s e) \<noteq> Finished"
  shows "associated s (ch_group (children s e)) \<and>
    (\<forall>e'. ch_pc (children s e') \<noteq> Finished \<and> ch_group (children s e') = ch_group (children s e) \<longrightarrow> e' = e)"
  using reach_owner_inv [OF assms(1)] assms(2) unfolding owner_inv_def by blast

theorem one_child_per_group_witness: "associated (demo_spinning Stage2) 1"
  using one_child_per_group [OF demo_spinning_reach, of 0] by (simp add: demo_cie)

text \<open>Claim C40. A callback group added by hand ends the process in stage 2: \<open>add_callback_group\<close> of
  \<open>AgnocastOnlyExecutor\<close> claims the group for the isolated executor itself, and when \<open>spin()\<close> then hands it
  to a child, the child finds it claimed and calls \<open>exit(EXIT_FAILURE)\<close>. This happens on every \<open>spin()\<close>
  that reaches its first spawn while the group and its node are alive.\<close>

theorem manual_group_ends_process:
  assumes "cie_reach Stage2 auto s" and "spin_at s = Entered" and "keep_spinning Stage2 s"
    and "map_of (weak_groups_to_nodes s) g = Some n" and "g \<notin> gone_groups s" and "n \<notin> gone_nodes s"
  shows "\<exists>gs. spin_at (collect_groups auto s) = Collected gs \<and>
    terminated (spawn_initial Stage2 gs (collect_groups auto s))"
proof -
  have "(g, n) \<in> set (weak_groups_to_nodes s)" using assms(4) by (rule map_of_SomeD)
  then have "g \<in> set (live_manual_groups s @ live_auto_groups auto s)"
    using assms(5,6) by (force simp: live_manual_groups_def)
  moreover have "associated (collect_groups auto s) g"
    using reach_owner_inv [OF assms(1)] assms(4) by (simp add: owner_inv_def collect_groups_def)
  moreover have "keep_spinning Stage2 (collect_groups auto s)"
    using assms(3) by (simp add: keep_spinning_def collect_groups_def)
  ultimately show ?thesis
    by (simp add: spawn_initial_def spawn_claimed_terminates) (simp add: collect_groups_def spawn_claimed_terminates)
qed

definition demo_manual :: "stage \<Rightarrow> cie" where
  "demo_manual st = spin_enter st (add_callback_group st all_auto 5 9 init_cie)"

lemma demo_manual_reach: "cie_reach st all_auto (demo_manual st)"
proof -
  have "other_step st all_auto (add_callback_group st all_auto 5 9 init_cie) (demo_manual st)"
    unfolding demo_manual_def
    by (rule other_step.Spin) (cases st; simp add: add_callback_group_def init_cie_def)+
  moreover have "other_step st all_auto init_cie (add_callback_group st all_auto 5 9 init_cie)"
    by (rule other_step.Add_group) (simp add: init_cie_def)
  ultimately show ?thesis using reach_other cie_reach.Start by blast
qed

theorem manual_group_ends_process_witness:
  "spin_at (collect_groups all_auto (demo_manual Stage2)) = Collected [5] \<and>
   terminated (spawn_initial Stage2 [5] (collect_groups all_auto (demo_manual Stage2)))"
proof -
  have s: "demo_manual Stage2 = init_cie\<lparr>spinning := True, spin_at := Entered,
      weak_groups_to_nodes := [(5, 9)], associated := (\<lambda>_. False)(5 := True)\<rparr>"
    by (simp add: demo_manual_def spin_enter_def add_callback_group_def init_cie_def)
  have c: "spin_at (collect_groups all_auto (demo_manual Stage2)) = Collected [5]"
    unfolding s by (simp add: collect_groups_def live_manual_groups_def live_auto_groups_def init_cie_def)
  then show ?thesis
    using manual_group_ends_process [OF demo_manual_reach, of 5 9]
    unfolding s by (simp add: keep_spinning_def init_cie_def)
qed

section \<open>Stage 1: stopping a group\<close>

text \<open>A thread that a caller of \<open>stop_callback_group\<close> waits for, running with its flag set, out of reach of
  any later cancellation.\<close>

definition stuck :: "nat \<Rightarrow> cie \<Rightarrow> bool" where
  "stuck e s \<longleftrightarrow> thread_inv Stage1 s \<and> e \<in> set (stopping s) \<and>
     ch_pc (children s e) = Running \<and> ch_spinning (children s e) \<and> context_ok s"

lemma stuck_facts: "stuck e s \<Longrightarrow> e < next_child s \<and> e \<notin> set (child_threads s) \<and> weak_child_executors s = child_threads s"
  by (auto simp: stuck_def thread_inv_def)

lemma spawn_frame1:
  "e < next_child s \<Longrightarrow> children (spawn_each st gs s) e = children s e \<and> stopping (spawn_each st gs s) = stopping s \<and>
     context_ok (spawn_each st gs s) = context_ok s"
  "e < next_child s \<Longrightarrow> children (spawn_new st gs s) e = children s e \<and> stopping (spawn_new st gs s) = stopping s \<and>
     context_ok (spawn_new st gs s) = context_ok s"
  by (induction gs arbitrary: s) (auto simp: Let_def spawn_child_executor_def)

lemma stuck_frame:
  "stuck e s \<Longrightarrow> thread_inv Stage1 s' \<Longrightarrow> children s' e = children s e \<Longrightarrow> e \<in> set (stopping s') \<Longrightarrow>
   context_ok s' = context_ok s \<Longrightarrow> stuck e s'"
  by (simp add: stuck_def)

lemma stuck_work:
  assumes "work_step Stage1 auto s s'" and s: "stuck e s"
  shows "stuck e s'"
proof (rule stuck_frame [OF s])
  show "thread_inv Stage1 s'" using thread_inv_work assms by (auto simp: stuck_def)
  note f = stuck_facts [OF s]
  have "children s' e = children s e \<and> stopping s' = stopping s \<and> context_ok s' = context_ok s"
    using assms(1)
    by (cases rule: work_step.cases)
      (use s f in \<open>auto simp: cie_ops spawn_initial_def spawn_scanned_def spawn_frame1 leave_loop_def cancel_children_def
        cancel_children_untouched stuck_def child_goes_on_def split: list.split\<close>)
  then show "children s' e = children s e" "e \<in> set (stopping s')" "context_ok s' = context_ok s"
    using s by (auto simp: stuck_def)
qed

lemma stuck_stop:
  assumes s: "stuck e s"
  shows "children (stop_callback_group g s) e = children s e \<and> e \<in> set (stopping (stop_callback_group g s)) \<and>
    context_ok (stop_callback_group g s) = context_ok s"
proof (cases "index_of_group (gone_groups s) g (child_callback_groups s)")
  case None
  then show ?thesis using s by (simp add: stop_callback_group_def stuck_def)
next
  case (Some i)
  have inv: "thread_inv Stage1 s" using s by (simp add: stuck_def)
  note f = stop_found [OF inv Some]
  have "e \<noteq> child_threads s ! i" using f(3) stuck_facts [OF s] by auto
  then show ?thesis unfolding f(1) using s by (simp add: cancel_child_def stuck_def)
qed

lemma stuck_other:
  assumes "other_step Stage1 auto s s'" and s: "stuck e s"
  shows "stuck e s'"
proof (rule stuck_frame [OF s])
  show "thread_inv Stage1 s'" using thread_inv_other assms by (auto simp: stuck_def)
  note f = stuck_facts [OF s]
  have "children s' e = children s e \<and> e \<in> set (stopping s') \<and> context_ok s' = context_ok s"
    using assms(1)
  proof (cases rule: other_step.cases)
    case (Stop_join t)
    then have "t \<noteq> e" using s by (auto simp: stuck_def)
    then show ?thesis using Stop_join s by (simp add: stuck_def in_set_remove1)
  qed (use s f stuck_stop [OF s] in \<open>auto simp: cie_ops cancel_finish_def cancel_children_def Let_def
        cancel_children_untouched stuck_def split: option.split\<close>)
  then show "children s' e = children s e" "e \<in> set (stopping s')" "context_ok s' = context_ok s" by auto
qed

inductive undisturbed :: "stage \<Rightarrow> (nat \<Rightarrow> bool) \<Rightarrow> cie \<Rightarrow> cie \<Rightarrow> bool" for st auto where
  Here: "undisturbed st auto s s"
| Work_on: "undisturbed st auto s s' \<Longrightarrow> work_step st auto s' s'' \<Longrightarrow> undisturbed st auto s s''"
| Other_on: "undisturbed st auto s s' \<Longrightarrow> other_step st auto s' s'' \<Longrightarrow> undisturbed st auto s s''"

lemma stuck_undisturbed: "undisturbed Stage1 auto s s' \<Longrightarrow> stuck e s \<Longrightarrow> stuck e s'"
  by (induction rule: undisturbed.induct) (auto intro: stuck_work stuck_other)

text \<open>In stage 1 \<open>stop_callback_group()\<close> may wait forever: when it cancels a child whose thread has
  not entered \<open>spin()\<close> yet, the thread then sets the flag itself and spins, and the caller, which has taken
  the thread out of the vectors, joins it. Nothing but the end of the rclcpp context gets it out: whatever
  steps follow, a later \<open>cancel()\<close> included, the thread still runs and is still being waited for.\<close>

theorem stop_may_wait_forever:
  assumes "cie_reach Stage1 auto s" and "context_ok s"
    and "index_of_group (gone_groups s) g (child_callback_groups s) = Some i"
    and "ch_pc (children s (child_threads s ! i)) = Starting"
    and "undisturbed Stage1 auto (child_enter (child_threads s ! i) (stop_callback_group g s)) s'"
  shows "child_threads s ! i \<in> set (stopping s') \<and> ch_pc (children s' (child_threads s ! i)) = Running"
proof -
  let ?e = "child_threads s ! i"
  have inv: "thread_inv Stage1 s" by (rule reach_thread_inv [OF assms(1)])
  note f = stop_found [OF inv assms(3)]
  let ?t = "stop_callback_group g s"
  have "ch_pc (children ?t ?e) \<noteq> Finished" unfolding f(1) using assms(4) by simp
  then have "?e \<in> set (child_threads ?t @ stopping ?t @ joining (spin_at ?t))"
    using thread_inv_stop [OF inv, of g] unfolding thread_inv_def by blast
  then have "thread_inv Stage1 (child_enter ?e ?t)"
    using thread_inv_stop [OF inv, of g] by (auto simp: thread_inv_def child_enter_def)
  then have "stuck ?e (child_enter ?e ?t)"
    using assms(2) unfolding f(1) by (simp add: stuck_def child_enter_def)
  from stuck_undisturbed [OF assms(5) this] show ?thesis by (simp add: stuck_def)
qed

theorem stop_may_wait_forever_witness:
  defines "s \<equiv> cancel_flags Stage1 (child_enter 0 (stop_callback_group 1 (demo_spinning Stage1)))"
  shows "stopping s = [0] \<and> ch_pc (children s 0) = Running"
proof -
  let ?c = "child_enter 0 (stop_callback_group 1 (demo_spinning Stage1))"
  have t: "\<not> terminated ?c"
    by (simp add: child_enter_def stop_callback_group_def demo_cie delete_at_def)
  have "undisturbed Stage1 all_auto ?c s"
    unfolding s_def by (rule undisturbed.Other_on [OF undisturbed.Here other_step.Cancel_flags [OF t]])
  then have "0 \<in> set (stopping s) \<and> ch_pc (children s 0) = Running"
    using stop_may_wait_forever [OF demo_spinning_reach, of 1 0] by (simp add: demo_cie)
  moreover have "stopping s = [0]"
    by (simp add: s_def cancel_flags_def child_enter_def stop_callback_group_def demo_cie)
  ultimately show ?thesis by simp
qed

text \<open>What the spawn of the monitoring loop does with the groups it has found: each one that nobody has
  claimed gets a child.\<close>

lemma spawn_new_spawns:
  assumes "g \<in> set gs" and "\<not> associated s g" and "\<not> terminated s"
  shows "\<exists>e. ch_group (children (spawn_new Stage1 gs s) e) = g \<and> ch_pc (children (spawn_new Stage1 gs s) e) = Starting \<and>
    e \<in> set (child_threads (spawn_new Stage1 gs s))"
  using assms
proof (induction gs arbitrary: s)
  case (Cons h gs)
  let ?s = "spawn_child_executor Stage1 h s"
  have ns: "\<not> terminated ?s" "\<not> associated ?s g"
    using Cons.prems by (simp_all add: spawn_child_executor_def Let_def)
  show ?case
  proof (cases "g \<in> set gs")
    case True
    then show ?thesis using Cons.IH [OF True] Cons.prems ns by (cases "associated s h") (simp_all add: Let_def)
  next
    case False
    then have h: "h = g" using Cons.prems by simp
    let ?r = "spawn_new Stage1 gs ?s"
    have new: "ch_group (children ?s (next_child s)) = g \<and> ch_pc (children ?s (next_child s)) = Starting \<and>
        next_child s \<in> set (child_threads ?s) \<and> next_child s < next_child ?s"
      using h by (simp add: spawn_child_executor_def Let_def)
    have "set (child_threads ?s) \<subseteq> set (child_threads (spawn_new Stage1 gs ?s))" for gs
      by (rule spawn_new_keeps) (auto simp: spawn_child_executor_def Let_def)
    then have "ch_group (children ?r (next_child s)) = g \<and> ch_pc (children ?r (next_child s)) = Starting \<and>
        next_child s \<in> set (child_threads ?r)" using new spawn_frame1(2) [of "next_child s" ?s Stage1 gs] by auto
    then show ?thesis using h Cons.prems(2) ns by (auto simp: Let_def)
  qed
qed simp

text \<open>Removing a group before stopping it does not keep the monitoring loop of stage 1 from
  spawning it again, which is what the order is for: when the loop has scanned the groups before the
  removal, a group without a child is removed and \<open>stop_callback_group()\<close> finds nothing to stop, and then the
  spawn creates a child and a thread for it although the executor no longer has the group.\<close>

theorem removed_group_is_respawned:
  assumes "\<not> terminated s" and "spin_at s = Scanned gs" and "g \<in> set gs"
    and "\<not> associated s g" and "g \<notin> set (child_callback_groups s)"
    and "map_of (weak_groups_to_nodes s) g = Some n" and "keep_spinning Stage1 s" and "context_ok s"
  defines "t \<equiv> stop_callback_group g (remove_callback_group Stage1 g s)"
  shows "\<not> terminated t \<and> work_step Stage1 auto t (spawn_scanned Stage1 gs t) \<and>
    map_of (weak_groups_to_nodes (spawn_scanned Stage1 gs t)) g = None \<and>
    (\<exists>e\<in>set (child_threads (spawn_scanned Stage1 gs t)).
       ch_group (children (spawn_scanned Stage1 gs t) e) = g \<and> ch_pc (children (spawn_scanned Stage1 gs t) e) = Starting)"
proof -
  let ?r = "s\<lparr>weak_groups_to_nodes := erase g (weak_groups_to_nodes s)\<rparr>"
  have r: "remove_callback_group Stage1 g s = ?r" using assms(6) by (simp add: remove_callback_group_def)
  have none: "g \<notin> set hs \<Longrightarrow> index_of_group gone g hs = None" for gone hs by (induction hs) auto
  have t: "t = ?r" unfolding t_def r using none assms(5) by (auto simp: stop_callback_group_def)
  have keep: "weak_groups_to_nodes (spawn_new Stage1 gs u) = weak_groups_to_nodes u" for gs u
    by (induction gs arbitrary: u) (auto simp: Let_def spawn_child_executor_def)
  have go: "keep_spinning Stage1 ?r" using assms(7) by (simp add: keep_spinning_def)
  have sp: "spawn_scanned Stage1 gs t = (spawn_new Stage1 gs ?r)\<lparr>spin_at := Monitor\<rparr>"
    using assms(3,8) go unfolding t by (auto simp: spawn_scanned_def)
  have "\<exists>e. ch_group (children (spawn_new Stage1 gs ?r) e) = g \<and>
      ch_pc (children (spawn_new Stage1 gs ?r) e) = Starting \<and> e \<in> set (child_threads (spawn_new Stage1 gs ?r))"
    using spawn_new_spawns [OF assms(3), of ?r] assms(1,4) by simp
  moreover have "work_step Stage1 auto t (spawn_scanned Stage1 gs t)"
    by (rule work_step.Spawn) (use assms(1,2) in \<open>simp_all add: t\<close>)
  ultimately show ?thesis unfolding sp using assms(1) by (auto simp: t keep)
qed

text \<open>The state exists: a group is added by hand while \<open>spin()\<close> monitors, and the loop scans.\<close>

definition demo_scanned :: cie where
  "demo_scanned = init_cie\<lparr>spinning := True, spin_at := Scanned [5], weak_groups_to_nodes := [(5, 9)]\<rparr>"

lemma demo_scanned_reach: "cie_reach Stage1 all_auto demo_scanned"
proof -
  let ?at = "\<lambda>p m. init_cie\<lparr>spinning := True, spin_at := p, weak_groups_to_nodes := m\<rparr>"
  have "other_step Stage1 all_auto init_cie (spin_enter Stage1 init_cie)"
    by (rule other_step.Spin) (simp_all add: init_cie_def)
  moreover have "spin_enter Stage1 init_cie = ?at Entered []" by (simp add: spin_enter_def init_cie_def)
  ultimately have "cie_reach Stage1 all_auto (?at Entered [])" using reach_other cie_reach.Start by metis
  moreover have "work_step Stage1 all_auto (?at Entered []) (?at (Collected []) [])"
    using work_step.Collect [of "?at Entered []" Stage1 all_auto]
    by (simp add: collect_groups_def live_manual_groups_def live_auto_groups_def init_cie_def)
  moreover have "work_step Stage1 all_auto (?at (Collected []) []) (?at Monitor [])"
    using work_step.Initial [of "?at (Collected []) []" "[]" Stage1 all_auto]
    by (simp add: spawn_initial_def keep_spinning_def init_cie_def)
  moreover have "other_step Stage1 all_auto (?at Monitor []) (?at Monitor [(5, 9)])"
    using other_step.Add_group [of "?at Monitor []" Stage1 all_auto 5 9]
    by (simp add: add_callback_group_def init_cie_def)
  moreover have "work_step Stage1 all_auto (?at Monitor [(5, 9)]) (?at Woken [(5, 9)])"
    using work_step.Condition [of "?at Monitor [(5, 9)]" Stage1 all_auto]
    by (simp add: monitor_condition_def keep_spinning_def init_cie_def)
  moreover have "work_step Stage1 all_auto (?at Woken [(5, 9)]) demo_scanned"
    using work_step.Scan [of "?at Woken [(5, 9)]" Stage1 all_auto]
    by (simp add: scan_groups_def keep_spinning_def live_manual_groups_def live_auto_groups_def init_cie_def demo_scanned_def)
  ultimately show ?thesis using reach_work reach_other by metis
qed

theorem removed_group_is_respawned_witness:
  "cie_reach Stage1 all_auto demo_scanned \<and>
   (\<exists>e\<in>set (child_threads (spawn_scanned Stage1 [5] (stop_callback_group 5 (remove_callback_group Stage1 5 demo_scanned)))).
      ch_group (children (spawn_scanned Stage1 [5] (stop_callback_group 5 (remove_callback_group Stage1 5 demo_scanned))) e) = 5)"
  using removed_group_is_respawned [of demo_scanned "[5]" 5 9 all_auto] demo_scanned_reach
  by (auto simp: demo_scanned_def init_cie_def keep_spinning_def)

text \<open>\<open>cancel()\<close> of \<open>CallbackIsolatedAgnocastExecutor\<close> does not make the next \<open>spin()\<close> return: called
  before \<open>spin()\<close>, it clears a flag that \<open>spin()\<close> sets again, and the thread goes on to collect the groups,
  spawn the children and monitor. In stage 2, with its sticky flag, the same calls return at once.\<close>

lemma cancel_before_spin:
  assumes "\<not> spinning s" and "context_ok s"
  defines "c st \<equiv> spin_enter st (cancel_finish st (cancel_flags st s))"
  shows "spin_at (c Stage1) = Entered \<and> keep_spinning Stage1 (c Stage1) \<and>
    spin_at (monitor_condition Stage1 (c Stage1)) = Woken \<and> spin_at (c Stage2) = Idle \<and> \<not> spinning (c Stage2)"
  using assms by (simp add: c_def spin_enter_def spin_return_def cancel_finish_def cancel_flags_def
      cancel_children_def keep_spinning_def monitor_condition_def Let_def)

lemma cancel_before_spin_example:
  "spin_at (spin_enter Stage1 (cancel_finish Stage1 (cancel_flags Stage1 init_cie))) = Entered"
  using cancel_before_spin [of init_cie] by (simp add: init_cie_def)

end
