(* ===== verification/Service_Bridge.thy ===== *)
theory Service_Bridge
  imports Kmod_Queries Isolated_Executor
begin

text \<open>
  The service bridge of one service name (\<open>agnocast_service_bridge.cpp\<close>): a state machine that the bridge
  manager advances once per maintenance tick. The header documents it as a diagram with numbered arrows.

  Everything it asks for can change between two questions of one tick, so each question has a site, and an
  observer gives the outside world as it is at each site: the kernel module (whose queries are those of
  \<open>Kmod_Queries\<close>), the ROS 2 graph of a build against rclcpp 28 or later, the clock, and what rcl and the
  bridge loader return. The strings of log messages are left out.
\<close>

section \<open>The outside world\<close>

datatype bridge_direction = ROS2_TO_AGNOCAST | AGNOCAST_TO_ROS2

record bridge_entity =
  entity_handle :: "nat option"
  srv_cb_group :: "nat option"
  client_cb_group :: "nat option"

datatype loader_result = Loader_threw | Loader_returned bridge_entity

record outside =
  os_kernel :: kstate
  os_allocs :: allocs
  os_copied :: bool
  os_publisher_num_ok :: bool
  os_count_services :: "string \<Rightarrow> nat option"
  os_count_clients :: "string \<Rightarrow> nat option"
  os_now :: int
  os_rcl_arguments_ok :: bool
  os_rcl_node_ok :: bool
  os_load_service :: "bridge_direction \<Rightarrow> string \<Rightarrow> string \<Rightarrow> nat \<times> bool \<Rightarrow> loader_result"

text \<open>The manager's process: pid, IPC namespace and ROS domain.\<close>

record manager_id =
  mg_pid :: pid
  mg_ns :: ipc_ns
  mg_domain :: domain

datatype site =
    At_r2a_service | At_r2a_client | At_r2a_lease
  | At_a2r_owner | At_a2r_ros2 | At_a2r_client
  | At_pending_service | At_shadow | At_pending_ros2_client | At_pending_lease
  | At_start_qos | At_start_load
  | At_pending_ros2 | At_pending_client | At_pending_left

type_synonym observer = "site \<Rightarrow> outside"

section \<open>Leases, counts and liveness\<close>

definition DAEMON_FORCE_TTL :: int where "DAEMON_FORCE_TTL = 5000000000"

definition daemon_force_deadline :: "int \<Rightarrow> int" where
  "daemon_force_deadline now = now + DAEMON_FORCE_TTL"

definition is_daemon_force_active :: "int \<Rightarrow> int \<Rightarrow> bool" where
  "is_daemon_force_active deadline now \<longleftrightarrow> now < deadline"

text \<open>The counts leave out the bridge of the opposite direction; \<open>None\<close> stands for \<open>-1\<close>.\<close>

definition get_agnocast_subscriber_count :: "manager_id \<Rightarrow> bool \<Rightarrow> kstate \<Rightarrow> string \<Rightarrow> nat option" where
  "get_agnocast_subscriber_count m ioctl_ok k topic =
     (if \<not> ioctl_ok then None
      else let r = agnocast_ioctl_get_subscriber_num (mg_pid m) topic (mg_ns m) k;
               total = ret_other_process_subscriber_num r + ret_same_process_subscriber_num r
           in Some (if sn_a2r_bridge_exist r \<and> 0 < total then total - 1 else total))"

definition get_agnocast_publisher_count :: "manager_id \<Rightarrow> bool \<Rightarrow> kstate \<Rightarrow> string \<Rightarrow> nat option" where
  "get_agnocast_publisher_count m ioctl_ok k topic =
     (if \<not> ioctl_ok then None
      else let r = agnocast_ioctl_get_publisher_num (mg_pid m) topic (mg_ns m) k
           in Some (if pn_r2a_bridge_exist r \<and> 0 < ret_publisher_num r then ret_publisher_num r - 1
                    else ret_publisher_num r))"

definition create_service_request_topic_name :: "string \<Rightarrow> string" where
  "create_service_request_topic_name name = ''/AGNOCAST_SRV_REQUEST'' @ name"

text \<open>\<open>get_agno_service_qos\<close> asks for at most one subscriber of the request topic.\<close>

definition get_agno_service_qos :: "manager_id \<Rightarrow> outside \<Rightarrow> string \<Rightarrow> (nat \<times> bool) option" where
  "get_agno_service_qos m w name =
     (case agnocast_ioctl_get_topic_subscriber_info (create_service_request_topic_name name) (mg_ns m)
             (mg_domain m) 1 (os_allocs w) (os_copied w) (os_kernel w) of
        Inl e \<Rightarrow> None
      | Inr [] \<Rightarrow> None
      | Inr (info # infos) \<Rightarrow> Some (ti_qos_depth info, ti_qos_is_reliable info))"

definition agno_service_exists :: "manager_id \<Rightarrow> outside \<Rightarrow> string \<Rightarrow> bool" where
  "agno_service_exists m w name \<longleftrightarrow> get_agno_service_qos m w name \<noteq> None"

definition agno_client_exists :: "manager_id \<Rightarrow> outside \<Rightarrow> string \<Rightarrow> bool" where
  "agno_client_exists m w name \<longleftrightarrow>
     (case get_agnocast_publisher_count m (os_publisher_num_ok w) (os_kernel w)
             (create_service_request_topic_name name) of
        None \<Rightarrow> False | Some n \<Rightarrow> n \<noteq> 0)"

definition ros2_service_exists :: "outside \<Rightarrow> string \<Rightarrow> bool" where
  "ros2_service_exists w name \<longleftrightarrow> (case os_count_services w name of None \<Rightarrow> False | Some n \<Rightarrow> 0 < n)"

definition ros2_client_exists :: "outside \<Rightarrow> string \<Rightarrow> bool" where
  "ros2_client_exists w name \<longleftrightarrow> (case os_count_clients w name of None \<Rightarrow> False | Some n \<Rightarrow> 0 < n)"

section \<open>State\<close>

datatype bridge_state = NONE | PENDING | A2R | R2A

type_synonym identity = "string \<times> string"

record service_item =
  si_state :: bridge_state
  entity :: bridge_entity
  shadow_node :: "nat option"
  r2a_forced_until :: "int option"
  service_name :: string
  service_type :: "string option"
  shadow_node_identity :: "identity option"
  may_start_r2a_bridge :: bool
  may_start_a2r_bridge :: bool

definition no_entity :: bridge_entity where
  "no_entity = \<lparr>entity_handle = None, srv_cb_group = None, client_cb_group = None\<rparr>"

definition new_item :: service_item where
  "new_item = \<lparr>si_state = NONE, entity = no_entity, shadow_node = None, r2a_forced_until = None,
     service_name = [], service_type = None, shadow_node_identity = None,
     may_start_r2a_bridge = False, may_start_a2r_bridge = False\<rparr>"

text \<open>What the items share: the executor, and the shadow nodes, held by shared pointers and found through
  the weak pointers of \<open>g_shadow_nodes\<close>.\<close>

record bridge_shared =
  executor :: cie
  g_shadow_nodes :: "identity \<Rightarrow> nat option"
  shadow_refs :: "nat \<Rightarrow> nat"
  next_shadow :: nat

record service_request =
  rq_service_type :: string
  rq_service_name :: string
  rq_create_shadow_node :: bool
  rq_direction :: bridge_direction
  rq_shadow_node_namespace :: string
  rq_shadow_node_name :: string

section \<open>Shadow nodes\<close>

definition find_or_create_shadow_node :: "outside \<Rightarrow> identity \<Rightarrow> bridge_shared \<Rightarrow> nat option \<times> bridge_shared" where
  "find_or_create_shadow_node w ident c =
     (let create = (if \<not> os_rcl_arguments_ok w then (None, c)
                    else if \<not> os_rcl_node_ok w then (None, c)
                    else (Some (next_shadow c),
                          c\<lparr>g_shadow_nodes := (g_shadow_nodes c)(ident \<mapsto> next_shadow c),
                            shadow_refs := (shadow_refs c)(next_shadow c := 1), next_shadow := next_shadow c + 1\<rparr>))
      in case g_shadow_nodes c ident of
           None \<Rightarrow> create
         | Some n \<Rightarrow> if 0 < shadow_refs c n
                    then (Some n, c\<lparr>shadow_refs := (shadow_refs c)(n := shadow_refs c n + 1)\<rparr>) else create)"

definition acquire_shadow_node :: "outside \<Rightarrow> service_item \<Rightarrow> bridge_shared \<Rightarrow> bool \<times> service_item \<times> bridge_shared" where
  "acquire_shadow_node w it c =
     (case shadow_node_identity it of
        None \<Rightarrow> (True, it, c)
      | Some ident \<Rightarrow>
          if shadow_node it \<noteq> None then (True, it, c)
          else (case find_or_create_shadow_node w ident c of
                  (node, c') \<Rightarrow> (node \<noteq> None, it\<lparr>shadow_node := node\<rparr>, c')))"

definition erase_expired_shadow_node :: "identity \<Rightarrow> bridge_shared \<Rightarrow> bridge_shared" where
  "erase_expired_shadow_node ident c =
     (case g_shadow_nodes c ident of
        None \<Rightarrow> c
      | Some n \<Rightarrow> if shadow_refs c n = 0 then c\<lparr>g_shadow_nodes := (g_shadow_nodes c)(ident := None)\<rparr> else c)"

definition release_shadow_node :: "service_item \<Rightarrow> bridge_shared \<Rightarrow> service_item \<times> bridge_shared" where
  "release_shadow_node it c =
     (case shadow_node it of
        None \<Rightarrow> (it, c)
      | Some n \<Rightarrow>
          (it\<lparr>shadow_node := None\<rparr>,
           (let c' = c\<lparr>shadow_refs := (shadow_refs c)(n := shadow_refs c n - 1)\<rparr>
            in case shadow_node_identity it of None \<Rightarrow> c' | Some ident \<Rightarrow> erase_expired_shadow_node ident c')))"

section \<open>Callback groups\<close>

text \<open>The loader creates the groups with \<open>auto_add = false\<close>; they go to the executor here and leave it with
  the bridge.\<close>

definition start_group :: "nat option \<Rightarrow> cie \<Rightarrow> cie" where
  "start_group g x = (case g of None \<Rightarrow> x | Some i \<Rightarrow> add_callback_group Stage1 (\<lambda>_. False) i 0 x)"

definition end_group :: "nat option \<Rightarrow> cie \<Rightarrow> cie" where
  "end_group g x = (case g of None \<Rightarrow> x | Some i \<Rightarrow> stop_callback_group i (remove_callback_group Stage1 i x))"

definition start_entity :: "bridge_state \<Rightarrow> bridge_entity \<Rightarrow> service_item \<Rightarrow> bridge_shared \<Rightarrow> service_item \<times> bridge_shared" where
  "start_entity s e it c =
     (it\<lparr>si_state := s, entity := e\<rparr>,
      c\<lparr>executor := start_group (client_cb_group e) (start_group (srv_cb_group e) (executor c))\<rparr>)"

definition end_entity :: "service_item \<Rightarrow> bridge_shared \<Rightarrow> service_item \<times> bridge_shared" where
  "end_entity it c =
     (it\<lparr>si_state := PENDING, entity := no_entity\<rparr>,
      c\<lparr>executor := end_group (client_cb_group (entity it)) (end_group (srv_cb_group (entity it)) (executor c))\<rparr>)"

section \<open>The maintenance tick\<close>

definition start_with_loader ::
  "bridge_direction \<Rightarrow> bridge_state \<Rightarrow> nat \<times> bool \<Rightarrow> outside \<Rightarrow> service_item \<Rightarrow> bridge_shared \<Rightarrow> service_item \<times> bridge_shared" where
  "start_with_loader d s qos w it c =
     (case service_type it of
        None \<Rightarrow> (it, c)
      | Some ty \<Rightarrow>
          (case os_load_service w d (service_name it) ty qos of
             Loader_threw \<Rightarrow> (it, c)
           | Loader_returned e \<Rightarrow> if entity_handle e = None then (it, c) else start_entity s e it c))"

definition services_qos :: "nat \<times> bool" where "services_qos = (10, True)"

definition start_r2a_bridge :: "manager_id \<Rightarrow> observer \<Rightarrow> service_item \<Rightarrow> bridge_shared \<Rightarrow> service_item \<times> bridge_shared" where
  "start_r2a_bridge m obs it c =
     (case get_agno_service_qos m (obs At_start_qos) (service_name it) of
        None \<Rightarrow> (it, c)
      | Some qos \<Rightarrow> start_with_loader ROS2_TO_AGNOCAST R2A qos (obs At_start_load) it c)"

definition start_a2r_bridge :: "observer \<Rightarrow> service_item \<Rightarrow> bridge_shared \<Rightarrow> service_item \<times> bridge_shared" where
  "start_a2r_bridge obs it c = start_with_loader AGNOCAST_TO_ROS2 A2R services_qos (obs At_start_load) it c"

definition r2a_forced :: "outside \<Rightarrow> service_item \<Rightarrow> bool" where
  "r2a_forced w it \<longleftrightarrow>
     (case r2a_forced_until it of None \<Rightarrow> False | Some d \<Rightarrow> is_daemon_force_active d (os_now w))"

definition check_and_update_r2a :: "manager_id \<Rightarrow> observer \<Rightarrow> service_item \<Rightarrow> bridge_shared \<Rightarrow> service_item \<times> bridge_shared" where
  "check_and_update_r2a m obs it c =
     (if agno_service_exists m (obs At_r2a_service) (service_name it) \<and>
         (ros2_client_exists (obs At_r2a_client) (service_name it) \<or> r2a_forced (obs At_r2a_lease) it)
      then (it, c) else end_entity it c)"

definition check_and_update_a2r :: "manager_id \<Rightarrow> observer \<Rightarrow> service_item \<Rightarrow> bridge_shared \<Rightarrow> service_item \<times> bridge_shared" where
  "check_and_update_a2r m obs it c =
     (if may_start_r2a_bridge it \<and> agno_service_exists m (obs At_a2r_owner) (service_name it) then end_entity it c
      else if ros2_service_exists (obs At_a2r_ros2) (service_name it) \<and>
              agno_client_exists m (obs At_a2r_client) (service_name it) then (it, c)
      else end_entity it c)"

definition check_and_update_pending :: "manager_id \<Rightarrow> observer \<Rightarrow> service_item \<Rightarrow> bridge_shared \<Rightarrow> service_item \<times> bridge_shared" where
  "check_and_update_pending m obs it c =
     (if may_start_r2a_bridge it \<and> agno_service_exists m (obs At_pending_service) (service_name it) then
        (case acquire_shadow_node (obs At_shadow) it c of
           (ok, it1, c1) \<Rightarrow>
             if \<not> ok then (it1, c1)
             else if ros2_client_exists (obs At_pending_ros2_client) (service_name it1) \<or>
                     r2a_forced (obs At_pending_lease) it1
             then start_r2a_bridge m obs it1 c1 else (it1, c1))
      else
        (case release_shadow_node it c of
           (it1, c1) \<Rightarrow>
             if may_start_a2r_bridge it1 \<and> ros2_service_exists (obs At_pending_ros2) (service_name it1) \<and>
                agno_client_exists m (obs At_pending_client) (service_name it1)
             then start_a2r_bridge obs it1 c1
             else if \<not> agno_client_exists m (obs At_pending_left) (service_name it1)
             then (it1\<lparr>si_state := NONE\<rparr>, c1) else (it1, c1)))"

definition check_and_update :: "manager_id \<Rightarrow> observer \<Rightarrow> service_item \<Rightarrow> bridge_shared \<Rightarrow> service_item \<times> bridge_shared" where
  "check_and_update m obs it c =
     (case si_state it of
        PENDING \<Rightarrow> check_and_update_pending m obs it c
      | R2A \<Rightarrow> check_and_update_r2a m obs it c
      | A2R \<Rightarrow> check_and_update_a2r m obs it c
      | NONE \<Rightarrow> (it, c))"

section \<open>Requests\<close>

definition update_configuration :: "service_request \<Rightarrow> service_item \<Rightarrow> service_item" where
  "update_configuration p it =
     (let it1 = (if service_name it = [] then it\<lparr>service_name := rq_service_name p\<rparr> else it);
          it2 = (if service_type it1 = None then it1\<lparr>service_type := Some (rq_service_type p)\<rparr> else it1);
          it3 = (if shadow_node_identity it2 = None \<and> rq_create_shadow_node p
                 then it2\<lparr>shadow_node_identity := Some (rq_shadow_node_namespace p, rq_shadow_node_name p)\<rparr> else it2)
      in case rq_direction p of
           ROS2_TO_AGNOCAST \<Rightarrow> it3\<lparr>may_start_r2a_bridge := True\<rparr>
         | AGNOCAST_TO_ROS2 \<Rightarrow> it3\<lparr>may_start_a2r_bridge := True\<rparr>)"

definition handle_request :: "service_request \<Rightarrow> service_item \<Rightarrow> service_item" where
  "handle_request p it =
     (let it1 = update_configuration p it in if si_state it1 = NONE then it1\<lparr>si_state := PENDING\<rparr> else it1)"

definition handle_daemon_request :: "int \<Rightarrow> service_item \<Rightarrow> service_item" where
  "handle_daemon_request now it = it\<lparr>r2a_forced_until := Some (daemon_force_deadline now)\<rparr>"

end
