(* ===== verification/Bridge_Manager.thy ===== *)
theory Bridge_Manager
  imports Service_Bridge "HOL-Library.AList"
begin

text \<open>
  The bridge manager (\<open>agnocast_bridge_manager.cpp\<close>): it turns bridge requests of local endpoints, and leases
  that the discovery agent grants for endpoints in other IPC namespaces, into bridges, and removes the bridges
  nobody needs. A worker thread handles the queued requests and then runs a maintenance sweep.

  The hash maps are association lists; their order is the order of iteration, which the code leaves open.
  The ioctls that change the kernel are recorded in the order they are issued.
\<close>

section \<open>The outside world\<close>

record qos =
  q_depth :: nat
  q_transient_local :: bool
  q_reliable :: bool

record pubsub_bridge =
  pb_handle :: "nat option"
  pb_group :: "nat option"

datatype pubsub_result = Pubsub_threw | Pubsub_returned pubsub_bridge

record graph = outside +
  os_subscriber_num_ok :: bool
  os_publishers_info :: "string \<Rightarrow> (string \<times> string) list"
  os_subscriptions_info :: "string \<Rightarrow> (string \<times> string) list"
  os_count_publishers :: "string \<Rightarrow> nat"
  os_count_subscribers :: "string \<Rightarrow> nat"
  os_load_pubsub :: "bridge_direction \<Rightarrow> string \<Rightarrow> string \<Rightarrow> qos \<Rightarrow> pubsub_result"
  os_should_shutdown :: "bool option"

text \<open>Name and namespace of the container node.\<close>

record manager = manager_id +
  mg_node :: "string \<times> string"

datatype wsite = W_endpoints | W_graph | W_qos | W_load | W_update | W_clock

definition has_external :: "string \<times> string \<Rightarrow> (string \<times> string) list \<Rightarrow> bool" where
  "has_external me infos \<longleftrightarrow> (\<exists>i\<in>set infos. fst i \<noteq> fst me \<or> snd i \<noteq> snd me)"

definition get_subscriber_qos :: "manager \<Rightarrow> graph \<Rightarrow> string \<Rightarrow> int \<Rightarrow> qos option" where
  "get_subscriber_qos m w topic i =
     (case agnocast_ioctl_get_subscriber_qos (mg_pid m) topic (mg_ns m) i (os_kernel w) of
        Inl e \<Rightarrow> None
      | Inr (d, transient, rel) \<Rightarrow> Some \<lparr>q_depth = d, q_transient_local = transient, q_reliable = rel\<rparr>)"

text \<open>A QoS of rclcpp is reliable unless it is told otherwise.\<close>

definition get_publisher_qos :: "manager \<Rightarrow> graph \<Rightarrow> string \<Rightarrow> int \<Rightarrow> qos option" where
  "get_publisher_qos m w topic i =
     (case agnocast_ioctl_get_publisher_qos (mg_pid m) topic (mg_ns m) i (os_kernel w) of
        Inl e \<Rightarrow> None
      | Inr (d, transient) \<Rightarrow> Some \<lparr>q_depth = d, q_transient_local = transient, q_reliable = True\<rparr>)"

section \<open>State\<close>

record pubsub_request =
  pr_message_type :: string
  pr_topic_name :: string
  pr_target_id :: int
  pr_direction :: bridge_direction

record daemon_pubsub_request =
  dr_topic_name :: string
  dr_type_name :: string
  dr_direction :: bridge_direction
  dr_qos_depth :: nat
  dr_qos_is_transient_local :: bool
  dr_qos_is_reliable :: bool

datatype bridge_msg =
    Msg_PubSub pubsub_request
  | Msg_Service service_request
  | Msg_DaemonPubSub daemon_pubsub_request
  | Msg_DaemonService string

record daemon_forced_request =
  df_message_type :: string
  df_qos :: qos
  forced_until :: int

datatype kernel_call =
    Set_ros2_publisher_num string nat
  | Set_ros2_subscriber_num string nat
  | Notify_bridge_shutdown
  | Check_and_request_bridge_shutdown

type_synonym requests = "(int \<times> pubsub_request) list"

record bmanager =
  request_cache :: "(string \<times> requests) list"
  active_pubsub :: "bridge_direction \<Rightarrow> (string \<times> pubsub_bridge) list"
  daemon_forced_pubsub :: "bridge_direction \<Rightarrow> (string \<times> daemon_forced_request) list"
  active_service_bridges :: "(string \<times> service_item) list"
  shared :: bridge_shared
  pending_msgs :: "bridge_msg list"
  shutdown_requested :: bool
  kernel_calls :: "kernel_call list"

definition init_bmanager :: "bridge_shared \<Rightarrow> bmanager" where
  "init_bmanager sh = \<lparr>request_cache = [], active_pubsub = (\<lambda>_. []), daemon_forced_pubsub = (\<lambda>_. []),
     active_service_bridges = [], shared = sh, pending_msgs = [], shutdown_requested = False, kernel_calls = []\<rparr>"

definition on_executor :: "(cie \<Rightarrow> cie) \<Rightarrow> bmanager \<Rightarrow> bmanager" where
  "on_executor f b = b\<lparr>shared := (shared b)\<lparr>executor := f (executor (shared b))\<rparr>\<rparr>"

definition issue :: "kernel_call \<Rightarrow> bmanager \<Rightarrow> bmanager" where
  "issue c b = b\<lparr>kernel_calls := kernel_calls b @ [c]\<rparr>"

text \<open>\<open>request_shutdown\<close> raises the flag and cancels the executor.\<close>

definition request_shutdown :: "bmanager \<Rightarrow> bmanager" where
  "request_shutdown b =
     on_executor (\<lambda>x. cancel_finish Stage1 (cancel_flags Stage1 x)) (b\<lparr>shutdown_requested := True\<rparr>)"

definition set_active :: "bridge_direction \<Rightarrow> (string \<times> pubsub_bridge) list \<Rightarrow> bmanager \<Rightarrow> bmanager" where
  "set_active d xs b = b\<lparr>active_pubsub := (active_pubsub b)(d := xs)\<rparr>"

section \<open>Demand\<close>

text \<open>A bridge from ROS 2 needs a local subscriber and an external ROS 2 publisher, the other direction a local
  publisher and an external ROS 2 subscriber.\<close>

definition endpoint_count :: "manager \<Rightarrow> graph \<Rightarrow> bridge_direction \<Rightarrow> string \<Rightarrow> nat option" where
  "endpoint_count m w d topic =
     (case d of
        ROS2_TO_AGNOCAST \<Rightarrow> get_agnocast_subscriber_count (manager_id.truncate m) (os_subscriber_num_ok w) (os_kernel w) topic
      | AGNOCAST_TO_ROS2 \<Rightarrow> get_agnocast_publisher_count (manager_id.truncate m) (os_publisher_num_ok w) (os_kernel w) topic)"

definition has_endpoint :: "manager \<Rightarrow> graph \<Rightarrow> bridge_direction \<Rightarrow> string \<Rightarrow> bool" where
  "has_endpoint m w d topic \<longleftrightarrow> (case endpoint_count m w d topic of None \<Rightarrow> False | Some n \<Rightarrow> 0 < n)"

definition is_demanded_by_ros2 :: "manager \<Rightarrow> graph \<Rightarrow> bridge_direction \<Rightarrow> string \<Rightarrow> bool" where
  "is_demanded_by_ros2 m w d topic \<longleftrightarrow>
     (case d of ROS2_TO_AGNOCAST \<Rightarrow> has_external (mg_node m) (os_publishers_info w topic)
      | AGNOCAST_TO_ROS2 \<Rightarrow> has_external (mg_node m) (os_subscriptions_info w topic))"

definition is_daemon_forced :: "graph \<Rightarrow> bridge_direction \<Rightarrow> string \<Rightarrow> bmanager \<Rightarrow> bool" where
  "is_daemon_forced w d topic b \<longleftrightarrow>
     (case map_of (daemon_forced_pubsub b d) topic of None \<Rightarrow> False
      | Some f \<Rightarrow> is_daemon_force_active (forced_until f) (os_now w))"

definition should_create_pubsub_bridge :: "manager \<Rightarrow> (wsite \<Rightarrow> graph) \<Rightarrow> bridge_direction \<Rightarrow> string \<Rightarrow> bmanager \<Rightarrow> bool" where
  "should_create_pubsub_bridge m obs d topic b \<longleftrightarrow>
     map_of (active_pubsub b d) topic = None \<and> has_endpoint m (obs W_endpoints) d topic \<and>
     is_demanded_by_ros2 m (obs W_graph) d topic"

section \<open>Creation\<close>

definition update_ros2_num :: "graph \<Rightarrow> bridge_direction \<Rightarrow> string \<Rightarrow> bmanager \<Rightarrow> bmanager" where
  "update_ros2_num w d topic b =
     issue (case d of ROS2_TO_AGNOCAST \<Rightarrow> Set_ros2_publisher_num topic (os_count_publishers w topic)
            | AGNOCAST_TO_ROS2 \<Rightarrow> Set_ros2_subscriber_num topic (os_count_subscribers w topic)) b"

definition activate :: "graph \<Rightarrow> bridge_direction \<Rightarrow> string \<Rightarrow> pubsub_bridge \<Rightarrow> bmanager \<Rightarrow> bmanager" where
  "activate w d topic r b =
     (let b1 = on_executor (start_group (pb_group r)) (update_ros2_num w d topic b)
      in set_active d (AList.update topic r (active_pubsub b1 d)) b1)"

text \<open>The request the QoS is taken from: the first one of the direction.\<close>

definition qos_source :: "bridge_direction \<Rightarrow> requests \<Rightarrow> int option" where
  "qos_source d rs = map_option fst (find (\<lambda>r. pr_direction (snd r) = d) rs)"

definition endpoint_qos :: "manager \<Rightarrow> graph \<Rightarrow> bridge_direction \<Rightarrow> string \<Rightarrow> int \<Rightarrow> qos option" where
  "endpoint_qos m w d topic i =
     (case d of ROS2_TO_AGNOCAST \<Rightarrow> get_subscriber_qos m w topic i
      | AGNOCAST_TO_ROS2 \<Rightarrow> get_publisher_qos m w topic i)"

text \<open>An exception, of the QoS query or of the loader, erases the request.\<close>

definition create_pubsub_bridge_if_needed ::
  "manager \<Rightarrow> (wsite \<Rightarrow> graph) \<Rightarrow> string \<Rightarrow> requests \<Rightarrow> string \<Rightarrow> bridge_direction \<Rightarrow> bmanager \<Rightarrow> requests \<times> bmanager" where
  "create_pubsub_bridge_if_needed m obs topic rs ty d b =
     (if \<not> should_create_pubsub_bridge m obs d topic b then (rs, b)
      else (case qos_source d rs of
              None \<Rightarrow> (rs, b)
            | Some i \<Rightarrow>
                if i = -1 then (rs, b)
                else (case endpoint_qos m (obs W_qos) d topic i of
                        None \<Rightarrow> (AList.delete i rs, b)
                      | Some q \<Rightarrow>
                          (case os_load_pubsub (obs W_load) d topic ty q of
                             Pubsub_threw \<Rightarrow> (AList.delete i rs, b)
                           | Pubsub_returned r \<Rightarrow>
                               (rs, if pb_handle r = None then b else activate (obs W_update) d topic r b)))))"

definition activate_daemon_forced_bridge ::
  "(wsite \<Rightarrow> graph) \<Rightarrow> string \<Rightarrow> daemon_forced_request \<Rightarrow> bridge_direction \<Rightarrow> bmanager \<Rightarrow> bmanager" where
  "activate_daemon_forced_bridge obs topic f d b =
     (case os_load_pubsub (obs W_load) d topic (df_message_type f) (df_qos f) of
        Pubsub_threw \<Rightarrow> b
      | Pubsub_returned r \<Rightarrow> if pb_handle r = None then b else activate (obs W_update) d topic r b)"

section \<open>Messages\<close>

definition daemon_request_qos :: "daemon_pubsub_request \<Rightarrow> qos" where
  "daemon_request_qos r =
     \<lparr>q_depth = dr_qos_depth r, q_transient_local = dr_qos_is_transient_local r, q_reliable = dr_qos_is_reliable r\<rparr>"

definition register_daemon_pubsub_request :: "int \<Rightarrow> daemon_pubsub_request \<Rightarrow> bmanager \<Rightarrow> bmanager" where
  "register_daemon_pubsub_request now r b =
     b\<lparr>daemon_forced_pubsub := (daemon_forced_pubsub b)(dr_direction r :=
        AList.update (dr_topic_name r)
          \<lparr>df_message_type = dr_type_name r, df_qos = daemon_request_qos r, forced_until = daemon_force_deadline now\<rparr>
          (daemon_forced_pubsub b (dr_direction r)))\<rparr>"

definition register_daemon_service_request :: "int \<Rightarrow> string \<Rightarrow> bmanager \<Rightarrow> bmanager" where
  "register_daemon_service_request now name b =
     (case map_of (active_service_bridges b) name of
        None \<Rightarrow> b
      | Some it \<Rightarrow>
          b\<lparr>active_service_bridges := AList.update name (handle_daemon_request now it) (active_service_bridges b)\<rparr>)"

definition dispatch_bridge_message :: "manager \<Rightarrow> (wsite \<Rightarrow> graph) \<Rightarrow> bridge_msg \<Rightarrow> bmanager \<Rightarrow> bmanager" where
  "dispatch_bridge_message m obs msg b =
     (case msg of
        Msg_Service p \<Rightarrow>
          (let name = rq_service_name p;
               it = (case map_of (active_service_bridges b) name of None \<Rightarrow> new_item | Some it \<Rightarrow> it)
           in b\<lparr>active_service_bridges :=
                  AList.delete name (active_service_bridges b) @ [(name, handle_request p it)]\<rparr>)
      | Msg_PubSub p \<Rightarrow>
          (let topic = pr_topic_name p;
               old = (case map_of (request_cache b) topic of None \<Rightarrow> [] | Some rs \<Rightarrow> rs);
               rs = AList.update (pr_target_id p) p old
           in case create_pubsub_bridge_if_needed m obs topic rs (pr_message_type p) (pr_direction p) b of
                (rs', b') \<Rightarrow> b'\<lparr>request_cache := AList.update topic rs' (request_cache b')\<rparr>)
      | Msg_DaemonPubSub r \<Rightarrow> register_daemon_pubsub_request (os_now (obs W_clock)) r b
      | Msg_DaemonService name \<Rightarrow> register_daemon_service_request (os_now (obs W_clock)) name b)"

text \<open>The receiving side: an event-loop callback that drops everything once a shutdown was requested.\<close>

definition enqueue :: "bridge_msg \<Rightarrow> bmanager \<Rightarrow> bmanager" where
  "enqueue msg b = (if shutdown_requested b then b else b\<lparr>pending_msgs := pending_msgs b @ [msg]\<rparr>)"

section \<open>The maintenance sweep\<close>

text \<open>\<open>check_and_create_pubsub_bridges\<close>: the body of its loop for one topic, in both directions.\<close>

definition set_requests :: "string \<Rightarrow> requests \<Rightarrow> bmanager \<Rightarrow> bmanager" where
  "set_requests topic rs b =
     b\<lparr>request_cache := (if rs = [] then AList.delete topic (request_cache b)
                         else AList.update topic rs (request_cache b))\<rparr>"

definition create_for_topic :: "manager \<Rightarrow> (bridge_direction \<Rightarrow> wsite \<Rightarrow> graph) \<Rightarrow> string \<Rightarrow> bmanager \<Rightarrow> bmanager" where
  "create_for_topic m obs topic b =
     (case map_of (request_cache b) topic of
        None \<Rightarrow> b
      | Some [] \<Rightarrow> set_requests topic [] b
      | Some (r # rs) \<Rightarrow>
          (let ty = pr_message_type (snd r) in
           case create_pubsub_bridge_if_needed m (obs ROS2_TO_AGNOCAST) topic (r # rs) ty ROS2_TO_AGNOCAST b of
             (rs1, b1) \<Rightarrow>
               (case create_pubsub_bridge_if_needed m (obs AGNOCAST_TO_ROS2) topic rs1 ty AGNOCAST_TO_ROS2 b1 of
                  (rs2, b2) \<Rightarrow> set_requests topic rs2 b2)))"

definition check_and_create_pubsub_bridges ::
  "manager \<Rightarrow> (string \<Rightarrow> bridge_direction \<Rightarrow> wsite \<Rightarrow> graph) \<Rightarrow> bmanager \<Rightarrow> bmanager" where
  "check_and_create_pubsub_bridges m obs b =
     fold (\<lambda>t. create_for_topic m (obs t) t) (map fst (request_cache b)) b"

text \<open>\<open>create_daemon_forced_bridges\<close>: an expired lease is erased, an active one creates its bridge.\<close>

definition force_topic :: "manager \<Rightarrow> (wsite \<Rightarrow> graph) \<Rightarrow> bridge_direction \<Rightarrow> string \<Rightarrow> bmanager \<Rightarrow> bmanager" where
  "force_topic m obs d topic b =
     (case map_of (daemon_forced_pubsub b d) topic of
        None \<Rightarrow> b
      | Some f \<Rightarrow>
          if os_now (obs W_clock) \<ge> forced_until f
          then b\<lparr>daemon_forced_pubsub := (daemon_forced_pubsub b)(d := AList.delete topic (daemon_forced_pubsub b d))\<rparr>
          else if map_of (active_pubsub b d) topic = None \<and> has_endpoint m (obs W_endpoints) d topic
          then activate_daemon_forced_bridge obs topic f d b else b)"

definition create_daemon_forced_bridges ::
  "manager \<Rightarrow> (string \<Rightarrow> bridge_direction \<Rightarrow> wsite \<Rightarrow> graph) \<Rightarrow> bmanager \<Rightarrow> bmanager" where
  "create_daemon_forced_bridges m obs b =
     fold (\<lambda>d b. fold (\<lambda>t. force_topic m (obs t d) d t) (map fst (daemon_forced_pubsub b d)) b)
       [ROS2_TO_AGNOCAST, AGNOCAST_TO_ROS2] b"

text \<open>\<open>check_and_remove_pubsub_bridges\<close>: an error of the count requests a shutdown and ends the sweep, the other
  direction included.\<close>

definition end_bridge :: "bridge_direction \<Rightarrow> string \<Rightarrow> pubsub_bridge \<Rightarrow> bmanager \<Rightarrow> bmanager" where
  "end_bridge d topic r b =
     (let b1 = on_executor (end_group (pb_group r)) b in set_active d (AList.delete topic (active_pubsub b1 d)) b1)"

definition sweep_topic :: "manager \<Rightarrow> (wsite \<Rightarrow> graph) \<Rightarrow> bridge_direction \<Rightarrow> string \<Rightarrow> bmanager \<Rightarrow> bool \<times> bmanager" where
  "sweep_topic m obs d topic b =
     (case map_of (active_pubsub b d) topic of
        None \<Rightarrow> (True, b)
      | Some r \<Rightarrow>
          (case endpoint_count m (obs W_endpoints) d topic of
             None \<Rightarrow> (False, request_shutdown (issue Notify_bridge_shutdown b))
           | Some n \<Rightarrow>
               if n = 0 \<or> (\<not> is_demanded_by_ros2 m (obs W_graph) d topic \<and> \<not> is_daemon_forced (obs W_clock) d topic b)
               then (True, end_bridge d topic r b)
               else (True, update_ros2_num (obs W_update) d topic b)))"

fun sweep_topics ::
  "manager \<Rightarrow> (string \<Rightarrow> bridge_direction \<Rightarrow> wsite \<Rightarrow> graph) \<Rightarrow> bridge_direction \<Rightarrow> string list \<Rightarrow> bmanager \<Rightarrow> bool \<times> bmanager" where
  "sweep_topics m obs d [] b = (True, b)"
| "sweep_topics m obs d (t # ts) b =
     (case sweep_topic m (obs t d) d t b of (ok, b') \<Rightarrow> if ok then sweep_topics m obs d ts b' else (False, b'))"

definition check_and_remove_pubsub_bridges ::
  "manager \<Rightarrow> (string \<Rightarrow> bridge_direction \<Rightarrow> wsite \<Rightarrow> graph) \<Rightarrow> bmanager \<Rightarrow> bool \<times> bmanager" where
  "check_and_remove_pubsub_bridges m obs b =
     (case sweep_topics m obs ROS2_TO_AGNOCAST (map fst (active_pubsub b ROS2_TO_AGNOCAST)) b of
        (ok, b1) \<Rightarrow>
          if ok then sweep_topics m obs AGNOCAST_TO_ROS2 (map fst (active_pubsub b1 AGNOCAST_TO_ROS2)) b1
          else (False, b1))"

definition tick_service :: "manager \<Rightarrow> observer \<Rightarrow> string \<Rightarrow> bmanager \<Rightarrow> bmanager" where
  "tick_service m obs name b =
     (case map_of (active_service_bridges b) name of
        None \<Rightarrow> b
      | Some it \<Rightarrow>
          (case check_and_update (manager_id.truncate m) obs it (shared b) of
             (it', sh) \<Rightarrow>
               b\<lparr>shared := sh, active_service_bridges :=
                  (if si_state it' = NONE then AList.delete name (active_service_bridges b)
                   else AList.update name it' (active_service_bridges b))\<rparr>))"

definition check_and_update_service_bridges :: "manager \<Rightarrow> (string \<Rightarrow> observer) \<Rightarrow> bmanager \<Rightarrow> bmanager" where
  "check_and_update_service_bridges m obs b =
     fold (\<lambda>n. tick_service m (obs n) n) (map fst (active_service_bridges b)) b"

text \<open>A request whose endpoint is gone is dropped.\<close>

definition remove_invalid_requests :: "manager \<Rightarrow> graph \<Rightarrow> string \<Rightarrow> requests \<Rightarrow> requests" where
  "remove_invalid_requests m w topic rs =
     filter (\<lambda>r. endpoint_qos m w (pr_direction (snd r)) topic (fst r) \<noteq> None) rs"

definition check_and_remove_request_cache :: "manager \<Rightarrow> (string \<Rightarrow> graph) \<Rightarrow> bmanager \<Rightarrow> bmanager" where
  "check_and_remove_request_cache m obs b =
     b\<lparr>request_cache := filter (\<lambda>e. snd e \<noteq> [])
         (map (\<lambda>e. (fst e, remove_invalid_requests m (obs (fst e)) (fst e) (snd e))) (request_cache b))\<rparr>"

definition check_and_request_shutdown :: "graph \<Rightarrow> bmanager \<Rightarrow> bmanager" where
  "check_and_request_shutdown w b =
     (let b1 = issue Check_and_request_bridge_shutdown b
      in if os_should_shutdown w = Some True then request_shutdown b1 else b1)"

section \<open>One turn of the worker\<close>

datatype wcheck = Before_message nat | Before_create | Before_forced | Before_services

record turn =
  t_stop :: "wcheck \<Rightarrow> bool"
  t_msg :: "nat \<Rightarrow> wsite \<Rightarrow> graph"
  t_create :: "string \<Rightarrow> bridge_direction \<Rightarrow> wsite \<Rightarrow> graph"
  t_forced :: "string \<Rightarrow> bridge_direction \<Rightarrow> wsite \<Rightarrow> graph"
  t_sweep :: "string \<Rightarrow> bridge_direction \<Rightarrow> wsite \<Rightarrow> graph"
  t_service :: "string \<Rightarrow> observer"
  t_cache :: "string \<Rightarrow> graph"
  t_end :: graph

text \<open>Another thread may raise the flag before any of the checks.\<close>

definition poll :: "(wcheck \<Rightarrow> bool) \<Rightarrow> wcheck \<Rightarrow> bmanager \<Rightarrow> bmanager" where
  "poll stop c b = (if stop c then b\<lparr>shutdown_requested := True\<rparr> else b)"

fun dispatch_batch :: "manager \<Rightarrow> turn \<Rightarrow> nat \<Rightarrow> bridge_msg list \<Rightarrow> bmanager \<Rightarrow> bmanager" where
  "dispatch_batch m u i [] b = b"
| "dispatch_batch m u i (msg # msgs) b =
     (let b1 = poll (t_stop u) (Before_message i) b
      in if shutdown_requested b1 then b1
         else dispatch_batch m u (i + 1) msgs (dispatch_bridge_message m (t_msg u i) msg b1))"

definition worker_turn :: "manager \<Rightarrow> turn \<Rightarrow> bmanager \<Rightarrow> bmanager" where
  "worker_turn m u b =
     (let b1 = poll (t_stop u) Before_create (dispatch_batch m u 0 (pending_msgs b) (b\<lparr>pending_msgs := []\<rparr>))
      in if shutdown_requested b1 then b1
         else let b2 = poll (t_stop u) Before_forced (check_and_create_pubsub_bridges m (t_create u) b1)
         in if shutdown_requested b2 then b2
         else let b3 = poll (t_stop u) Before_services
                (snd (check_and_remove_pubsub_bridges m (t_sweep u) (create_daemon_forced_bridges m (t_forced u) b2)))
         in if shutdown_requested b3 then b3
         else check_and_request_shutdown (t_end u)
                (check_and_remove_request_cache m (t_cache u) (check_and_update_service_bridges m (t_service u) b3)))"

end
