(* ===== verification/Service_Bridge_Theorems.thy ===== *)
theory Service_Bridge_Theorems
  imports Service_Bridge
begin

text \<open>
  One service bridge against its documentation: the state diagram of \<open>agnocast_service_bridge.hpp\<close>, with its
  numbered arrows, is a relation of its own, which a maintenance tick implements; and what one tick does to
  the callback groups in the executor and to the shadow nodes. An A2R bridge and an Agnocast service look
  alike to the probe, which makes an A2R bridge take itself for the service that should replace it.
\<close>

section \<open>The documented state diagram\<close>

record conditions =
  agno_service :: bool
  agno_client :: bool
  ros2_service :: bool
  ros2_client :: bool
  daemon_forced :: bool
  may_r2a :: bool
  may_a2r :: bool

inductive arrow :: "conditions \<Rightarrow> nat \<Rightarrow> bridge_state \<Rightarrow> bridge_state \<Rightarrow> bool" for c where
  Left: "\<not> agno_client c \<Longrightarrow> \<not> (may_r2a c \<and> agno_service c) \<Longrightarrow> arrow c 2 PENDING NONE"
| To_a2r: "may_a2r c \<Longrightarrow> ros2_service c \<Longrightarrow> agno_client c \<Longrightarrow> \<not> (may_r2a c \<and> agno_service c) \<Longrightarrow> arrow c 3 PENDING A2R"
| From_a2r: "\<not> (ros2_service c \<and> agno_client c) \<or> (may_r2a c \<and> agno_service c) \<Longrightarrow> arrow c 4 A2R PENDING"
| To_r2a: "may_r2a c \<Longrightarrow> agno_service c \<Longrightarrow> ros2_client c \<or> daemon_forced c \<Longrightarrow> arrow c 5 PENDING R2A"
| From_r2a: "\<not> agno_service c \<or> \<not> (ros2_client c \<or> daemon_forced c) \<Longrightarrow> arrow c 6 R2A PENDING"

inductive_cases arrowE: "arrow c n s s'"

lemma arrow_functional: "arrow c n s s' \<Longrightarrow> arrow c n' s s'' \<Longrightarrow> s' = s''"
  by (auto elim!: arrowE)

definition conditions_of :: "manager_id \<Rightarrow> outside \<Rightarrow> service_item \<Rightarrow> conditions" where
  "conditions_of m w it =
     \<lparr>agno_service = agno_service_exists m w (service_name it), agno_client = agno_client_exists m w (service_name it),
      ros2_service = ros2_service_exists w (service_name it), ros2_client = ros2_client_exists w (service_name it),
      daemon_forced = r2a_forced w it, may_r2a = may_start_r2a_bridge it, may_a2r = may_start_a2r_bridge it\<rparr>"

text \<open>A bridge and a shadow node can be created.\<close>

definition creatable :: "outside \<Rightarrow> service_item \<Rightarrow> bool" where
  "creatable w it \<longleftrightarrow> os_rcl_arguments_ok w \<and> os_rcl_node_ok w \<and>
     (\<exists>ty. service_type it = Some ty \<and>
        (\<forall>d q. \<exists>e. os_load_service w d (service_name it) ty q = Loader_returned e \<and> entity_handle e \<noteq> None))"

section \<open>What a tick leaves alone\<close>

lemma acquire_frame:
  "acquire_shadow_node w it c = (ok, it1, c1) \<Longrightarrow>
   si_state it1 = si_state it \<and> entity it1 = entity it \<and> service_name it1 = service_name it \<and>
   service_type it1 = service_type it \<and> r2a_forced_until it1 = r2a_forced_until it \<and>
   may_start_r2a_bridge it1 = may_start_r2a_bridge it \<and> may_start_a2r_bridge it1 = may_start_a2r_bridge it \<and>
   executor c1 = executor c"
  by (auto simp: acquire_shadow_node_def find_or_create_shadow_node_def Let_def
      split: option.splits if_splits prod.splits)

lemma release_frame:
  "release_shadow_node it c = (it1, c1) \<Longrightarrow>
   si_state it1 = si_state it \<and> entity it1 = entity it \<and> service_name it1 = service_name it \<and>
   service_type it1 = service_type it \<and> r2a_forced_until it1 = r2a_forced_until it \<and>
   may_start_r2a_bridge it1 = may_start_r2a_bridge it \<and> may_start_a2r_bridge it1 = may_start_a2r_bridge it \<and>
   executor c1 = executor c"
  by (auto simp: release_shadow_node_def erase_expired_shadow_node_def Let_def split: option.splits if_splits)

lemma acquire_succeeds:
  "os_rcl_arguments_ok w \<Longrightarrow> os_rcl_node_ok w \<Longrightarrow> acquire_shadow_node w it c = (ok, it1, c1) \<Longrightarrow> ok"
  by (auto simp: acquire_shadow_node_def find_or_create_shadow_node_def Let_def
      split: option.splits if_splits prod.splits)

lemma start_with_loader_state:
  "si_state (fst (start_with_loader d s q w it c)) = si_state it \<or> si_state (fst (start_with_loader d s q w it c)) = s"
  "creatable w it \<Longrightarrow> si_state (fst (start_with_loader d s q w it c)) = s"
proof -
  show "si_state (fst (start_with_loader d s q w it c)) = si_state it \<or> si_state (fst (start_with_loader d s q w it c)) = s"
    by (simp add: start_with_loader_def start_entity_def split: option.split loader_result.split)
  assume "creatable w it"
  then obtain ty e where "service_type it = Some ty" "os_load_service w d (service_name it) ty q = Loader_returned e"
    "entity_handle e \<noteq> None" unfolding creatable_def by blast
  then show "si_state (fst (start_with_loader d s q w it c)) = s" by (auto simp: start_with_loader_def start_entity_def)
qed

lemma creatable_item: "service_name it1 = service_name it \<Longrightarrow> service_type it1 = service_type it \<Longrightarrow> creatable w it1 = creatable w it"
  by (simp add: creatable_def)

lemma end_entity_state [simp]: "si_state (fst (end_entity it c)) = PENDING"
  by (simp add: end_entity_def)

lemma r2a_forced_item: "r2a_forced_until it1 = r2a_forced_until it \<Longrightarrow> r2a_forced w it1 = r2a_forced w it"
  by (simp add: r2a_forced_def)

section \<open>A tick follows the diagram\<close>

lemma pending_follows:
  fixes m w it c
  defines "s' \<equiv> si_state (fst (check_and_update_pending m (\<lambda>_. w) it c))"
  assumes st: "si_state it = PENDING"
  shows "(s' = PENDING \<or> (\<exists>n. arrow (conditions_of m w it) n PENDING s')) \<and>
    (creatable w it \<longrightarrow> (\<forall>n t. arrow (conditions_of m w it) n PENDING t \<longrightarrow> s' = t))"
proof (cases "may_start_r2a_bridge it \<and> agno_service_exists m w (service_name it)")
  case True
  obtain ok it1 c1 where a: "acquire_shadow_node w it c = (ok, it1, c1)" by (cases "acquire_shadow_node w it c") auto
  note f = acquire_frame [OF a]
  have q: "get_agno_service_qos m w (service_name it1) \<noteq> None" using True f by (simp add: agno_service_exists_def)
  have s': "s' = si_state (fst (if \<not> ok then (it1, c1) else if ros2_client_exists w (service_name it) \<or> r2a_forced w it
      then start_r2a_bridge m (\<lambda>_. w) it1 c1 else (it1, c1)))"
    using True a f r2a_forced_item [of it1 it w] by (simp add: s'_def check_and_update_pending_def)
  have ok: "creatable w it \<Longrightarrow> ok" using acquire_succeeds [OF _ _ a] by (simp add: creatable_def)
  have cr: "creatable w it1 = creatable w it" using f by (intro creatable_item) auto
  obtain qos where "get_agno_service_qos m w (service_name it1) = Some qos" using q by blast
  then have start: "start_r2a_bridge m (\<lambda>_. w) it1 c1 = start_with_loader ROS2_TO_AGNOCAST R2A qos w it1 c1"
    by (simp add: start_r2a_bridge_def)
  have p: "si_state it1 = PENDING" using f st by simp
  let ?go = "ros2_client_exists w (service_name it) \<or> r2a_forced w it"
  have "s' = PENDING \<or> ?go \<and> s' = R2A"
    using start_with_loader_state(1) [of ROS2_TO_AGNOCAST R2A qos w it1 c1] p unfolding s' start by auto
  moreover have "creatable w it \<Longrightarrow> ?go \<Longrightarrow> s' = R2A"
    using start_with_loader_state(2) [of w it1] cr ok unfolding s' start by simp
  moreover have "\<not> ?go \<Longrightarrow> s' = PENDING" using p unfolding s' by auto
  moreover have "?go \<Longrightarrow> arrow (conditions_of m w it) 5 PENDING R2A"
    by (rule arrow.To_r2a) (use True in \<open>simp_all add: conditions_of_def\<close>)
  moreover have "arrow (conditions_of m w it) n PENDING t \<Longrightarrow> ?go \<and> t = R2A" for n t
    using True by (auto simp: conditions_of_def elim!: arrowE)
  ultimately show ?thesis by metis
next
  case False
  obtain it1 c1 where a: "release_shadow_node it c = (it1, c1)" by (cases "release_shadow_node it c") auto
  note f = release_frame [OF a]
  let ?three = "may_start_a2r_bridge it \<and> ros2_service_exists w (service_name it) \<and> agno_client_exists m w (service_name it)"
  have s': "s' = si_state (fst (if ?three then start_a2r_bridge (\<lambda>_. w) it1 c1
      else if \<not> agno_client_exists m w (service_name it) then (it1\<lparr>si_state := NONE\<rparr>, c1) else (it1, c1)))"
    unfolding s'_def check_and_update_pending_def if_not_P [OF False] a prod.case using f by simp
  have cr: "creatable w it1 = creatable w it" using f by (intro creatable_item) auto
  have p: "si_state it1 = PENDING" using f st by simp
  have "?three \<Longrightarrow> s' = PENDING \<or> s' = A2R"
    using start_with_loader_state(1) [of AGNOCAST_TO_ROS2 A2R services_qos w it1 c1] p
    unfolding s' start_a2r_bridge_def by auto
  moreover have "?three \<Longrightarrow> creatable w it \<Longrightarrow> s' = A2R"
    using start_with_loader_state(2) [of w it1] cr unfolding s' start_a2r_bridge_def by simp
  moreover have "\<not> ?three \<Longrightarrow> s' = (if \<not> agno_client_exists m w (service_name it) then NONE else PENDING)"
    using p unfolding s' by auto
  moreover have "?three \<Longrightarrow> arrow (conditions_of m w it) 3 PENDING A2R"
    by (rule arrow.To_a2r) (use False in \<open>simp_all add: conditions_of_def\<close>)
  moreover have "\<not> agno_client_exists m w (service_name it) \<Longrightarrow> arrow (conditions_of m w it) 2 PENDING NONE"
    by (rule arrow.Left) (use False in \<open>simp_all add: conditions_of_def\<close>)
  moreover have "arrow (conditions_of m w it) n PENDING t \<Longrightarrow>
      ?three \<and> t = A2R \<or> \<not> agno_client_exists m w (service_name it) \<and> t = NONE" for n t
    using False by (auto simp: conditions_of_def elim!: arrowE)
  ultimately show ?thesis by (smt (verit))
qed

text \<open>Claim C19. A maintenance tick implements the documented state diagram: when the world holds still during
  the tick, the state stays or takes one of the arrows (2) to (6) whose condition holds, and when bridges and
  shadow nodes can be created, it takes the arrow whenever one is enabled. At most one arrow is ever
  enabled, so the order in which the code tests the conditions cannot be observed.\<close>

theorem tick_follows_diagram:
  defines "tick m w it c \<equiv> si_state (fst (check_and_update m (\<lambda>_. w) it c))"
  shows "(tick m w it c = si_state it \<or> (\<exists>n. arrow (conditions_of m w it) n (si_state it) (tick m w it c))) \<and>
    (creatable w it \<longrightarrow> (\<forall>n t. arrow (conditions_of m w it) n (si_state it) t \<longrightarrow> tick m w it c = t)) \<and>
    (\<forall>n n' t t'. arrow (conditions_of m w it) n (si_state it) t \<longrightarrow>
       arrow (conditions_of m w it) n' (si_state it) t' \<longrightarrow> t = t')"
proof -
  have f: "\<forall>n n' t t'. arrow (conditions_of m w it) n (si_state it) t \<longrightarrow>
       arrow (conditions_of m w it) n' (si_state it) t' \<longrightarrow> t = t'" using arrow_functional by blast
  let ?c = "conditions_of m w it"
  show ?thesis
  proof (cases "si_state it")
    case PENDING
    then show ?thesis using pending_follows [OF PENDING] f by (simp add: tick_def check_and_update_def)
  next
    case R2A
    let ?keep = "agno_service ?c \<and> (ros2_client ?c \<or> daemon_forced ?c)"
    have "tick m w it c = (if ?keep then R2A else PENDING)"
      using R2A by (simp add: tick_def check_and_update_def check_and_update_r2a_def conditions_of_def)
    moreover have "arrow ?c n R2A t \<longleftrightarrow> \<not> ?keep \<and> n = 6 \<and> t = PENDING" for n t
      by (auto elim!: arrowE intro: arrow.From_r2a)
    ultimately show ?thesis using R2A by auto
  next
    case A2R
    let ?keep = "\<not> (may_r2a ?c \<and> agno_service ?c) \<and> ros2_service ?c \<and> agno_client ?c"
    have "tick m w it c = (if ?keep then A2R else PENDING)"
      using A2R by (simp add: tick_def check_and_update_def check_and_update_a2r_def conditions_of_def)
    moreover have "arrow ?c n A2R t \<longleftrightarrow> \<not> ?keep \<and> n = 4 \<and> t = PENDING" for n t
      by (auto elim!: arrowE intro: arrow.From_a2r)
    ultimately show ?thesis using A2R by auto
  qed (auto simp: tick_def check_and_update_def elim!: arrowE)
qed

section \<open>A bridge that sees itself\<close>

lemma one_subscriber_is_a_service:
  assumes "find_topic (create_service_request_topic_name name) (mg_ns m) (mg_domain m) (os_kernel w) = Some wr"
    and "filter (\<lambda>s. sub_domain_id s = wr_domain_id wr) (sub_info_htable (topic_of (os_kernel w) wr)) = [s]"
    and "fst (kmalloc (os_allocs w))" and "os_copied w"
  shows "agno_service_exists m w name"
  using assms by (simp add: agno_service_exists_def get_agno_service_qos_def agnocast_ioctl_get_topic_subscriber_info_def)

text \<open>An A2R service bridge takes itself for an Agnocast service. Its own subscriber of the request
  topic is the one subscriber there; the probe does not look at whether a subscriber is a bridge. When an
  Agnocast service was registered under the name before, the next tick therefore tears the bridge down, and
  the tick after that, with the subscriber gone and the ROS 2 service and the Agnocast client still there,
  starts it again: the bridge is up every other tick only.\<close>

theorem a2r_bridge_flaps:
  fixes c :: bridge_shared
  assumes "si_state it = A2R" and "may_start_r2a_bridge it" and "may_start_a2r_bridge it"
    and "find_topic (create_service_request_topic_name (service_name it)) (mg_ns m) (mg_domain m) (os_kernel w) = Some wr"
    and "filter (\<lambda>s. sub_domain_id s = wr_domain_id wr) (sub_info_htable (topic_of (os_kernel w) wr)) = [s]"
    and "fst (kmalloc (os_allocs w))" and "os_copied w"
    and "\<not> agno_service_exists m w2 (service_name it)" and "ros2_service_exists w2 (service_name it)"
    and "agno_client_exists m w2 (service_name it)" and "creatable w2 it"
  defines "first \<equiv> check_and_update m (\<lambda>_. w) it c"
  defines "second \<equiv> check_and_update m (\<lambda>_. w2) (fst first) (snd first)"
  shows "si_state (fst first) = PENDING \<and> entity (fst first) = no_entity \<and> si_state (fst second) = A2R"
proof -
  have e: "agno_service_exists m w (service_name it)" by (rule one_subscriber_is_a_service [OF assms(4-7)])
  have f: "first = end_entity it c"
    using assms(1,2) e by (simp add: first_def check_and_update_def check_and_update_a2r_def)
  have cr: "creatable w2 (fst first)" using assms(11) by (simp add: f end_entity_def creatable_def)
  have "arrow (conditions_of m w2 (fst first)) 3 PENDING A2R"
    by (rule arrow.To_a2r) (use assms(3,8-10) in \<open>simp_all add: conditions_of_def f end_entity_def\<close>)
  then have "si_state (fst second) = A2R"
    using pending_follows [of "fst first" m w2 "snd first"] cr
    by (simp add: second_def check_and_update_def f)
  then show ?thesis by (simp add: f end_entity_def)
qed

text \<open>A kernel with the request topic of \<open>/s\<close>, and the world around it.\<close>

definition demo_kernel :: "subscriber_info list \<Rightarrow> publisher_info list \<Rightarrow> kstate" where
  "demo_kernel subs pubs = (init_kstate 0 [])\<lparr>topic_hashtable :=
     [\<lparr>wr_ipc_ns = 0, wr_domain_id = 0, wr_key = create_service_request_topic_name ''/s'', wr_topic = 0\<rparr>],
     topics := [0 \<mapsto> (new_topic_struct None)\<lparr>sub_info_htable := subs, pub_info_htable := pubs\<rparr>]\<rparr>"

definition demo_bridge_sub :: subscriber_info where
  "demo_bridge_sub = \<lparr>sub_id = 1, sub_domain_id = 0, sub_pid = 50, sub_qos_depth = 10, sub_qos_is_transient_local = False,
     sub_qos_is_reliable = True, latest_received_entry_id = -1, sub_node_name = ''/bridge'', is_take_sub = False,
     ignore_local_publications = False, need_mmap_update = False, sub_is_bridge = True, notify_ctx = None\<rparr>"

definition demo_client_pub :: publisher_info where
  "demo_client_pub = \<lparr>pub_id = 2, pub_domain_id = 0, pub_pid = 60, pub_node_name = ''/client'', pub_qos_depth = 10,
     pub_qos_is_transient_local = False, entries_num = 0, pub_is_bridge = False, notify_ctxs = [], notify_capacity = 0\<rparr>"

definition demo_entity :: bridge_entity where
  "demo_entity = \<lparr>entity_handle = Some 1, srv_cb_group = Some 11, client_cb_group = Some 12\<rparr>"

definition demo_world :: "subscriber_info list \<Rightarrow> nat \<Rightarrow> outside" where
  "demo_world subs clients = \<lparr>os_kernel = demo_kernel subs [demo_client_pub], os_allocs = [], os_copied = True,
     os_publisher_num_ok = True, os_count_services = (\<lambda>_. Some 1), os_count_clients = (\<lambda>_. Some clients), os_now = 0,
     os_rcl_arguments_ok = True, os_rcl_node_ok = True,
     os_load_service = (\<lambda>_ _ _ _. Loader_returned demo_entity)\<rparr>"

definition demo_manager :: manager_id where "demo_manager = \<lparr>mg_pid = 50, mg_ns = 0, mg_domain = 0\<rparr>"

definition demo_item :: "bridge_state \<Rightarrow> service_item" where
  "demo_item st = new_item\<lparr>si_state := st, service_name := ''/s'', service_type := Some ''T'',
     may_start_r2a_bridge := True, may_start_a2r_bridge := True\<rparr>"

definition demo_shared :: bridge_shared where
  "demo_shared = \<lparr>executor = init_cie, g_shadow_nodes = (\<lambda>_. None), shadow_refs = (\<lambda>_. 0), next_shadow = 0\<rparr>"

lemmas demo_service = demo_kernel_def demo_bridge_sub_def demo_client_pub_def demo_entity_def demo_world_def
  demo_manager_def demo_item_def demo_shared_def init_kstate_def new_topic_struct_def new_item_def

lemma demo_answers:
  "agno_service_exists demo_manager (demo_world [demo_bridge_sub] n) ''/s''"
  "\<not> agno_service_exists demo_manager (demo_world [] n) ''/s''"
  "agno_client_exists demo_manager (demo_world subs n) ''/s''"
  "ros2_service_exists (demo_world subs n) ''/s''"
  "ros2_client_exists (demo_world subs n) ''/s'' \<longleftrightarrow> 0 < n"
  "creatable (demo_world subs n) (demo_item st)"
  by (simp_all add: demo_service agno_service_exists_def get_agno_service_qos_def find_topic_def topic_of_def
      agnocast_ioctl_get_topic_subscriber_info_def agno_client_exists_def get_agnocast_publisher_count_def
      agnocast_ioctl_get_publisher_num_def find_topic_for_current_def get_process_domain_id_def
      agnocast_find_process_info_def find_key_def ros2_service_exists_def ros2_client_exists_def creatable_def Let_def)

theorem a2r_bridge_flaps_witness:
  "si_state (fst (check_and_update demo_manager (\<lambda>_. demo_world [demo_bridge_sub] 0) (demo_item A2R) demo_shared)) = PENDING"
proof -
  let ?wr = "\<lparr>wr_ipc_ns = 0, wr_domain_id = 0, wr_key = create_service_request_topic_name ''/s'', wr_topic = 0\<rparr>"
  have t: "find_topic (create_service_request_topic_name ''/s'') 0 0 (os_kernel (demo_world [demo_bridge_sub] 0)) = Some ?wr"
    and f: "filter (\<lambda>s. sub_domain_id s = wr_domain_id ?wr)
        (sub_info_htable (topic_of (os_kernel (demo_world [demo_bridge_sub] 0)) ?wr)) = [demo_bridge_sub]"
    by (simp_all add: demo_service find_topic_def topic_of_def)
  show ?thesis
    using a2r_bridge_flaps [of "demo_item A2R" demo_manager "demo_world [demo_bridge_sub] 0" ?wr demo_bridge_sub
        "demo_world [] 0"] t f demo_answers
    by (simp add: demo_item_def demo_manager_def new_item_def) (simp add: demo_world_def)
qed

theorem tick_follows_diagram_witness:
  "si_state (fst (check_and_update demo_manager (\<lambda>_. demo_world [demo_bridge_sub] 1) (demo_item PENDING) demo_shared)) = R2A"
proof -
  have "arrow (conditions_of demo_manager (demo_world [demo_bridge_sub] 1) (demo_item PENDING)) 5 PENDING R2A"
    by (rule arrow.To_r2a) (simp_all add: conditions_of_def demo_item_def demo_answers)
  moreover have "si_state (demo_item PENDING) = PENDING" by (simp add: demo_item_def)
  ultimately show ?thesis
    using tick_follows_diagram [of demo_manager "demo_world [demo_bridge_sub] 1" "demo_item PENDING" demo_shared] demo_answers(6)
    by simp
qed

end
