(* ===== verification/Bridge_Sweep.thy ===== *)
theory Bridge_Sweep
  imports Bridge_Manager Service_Bridge_Theorems
begin

text \<open>
  What a turn of the bridge manager's worker achieves when the world holds still: the bridges that remain are
  those somebody needs, and every bridge somebody needs and that can be created is there.
\<close>

section \<open>Bookkeeping that does not touch the bridges\<close>

lemma on_executor_frame [simp]:
  "active_pubsub (on_executor f b) = active_pubsub b"
  "daemon_forced_pubsub (on_executor f b) = daemon_forced_pubsub b"
  "request_cache (on_executor f b) = request_cache b"
  "active_service_bridges (on_executor f b) = active_service_bridges b"
  "shutdown_requested (on_executor f b) = shutdown_requested b"
  "pending_msgs (on_executor f b) = pending_msgs b"
  by (simp_all add: on_executor_def)

lemma issue_frame [simp]:
  "active_pubsub (issue c b) = active_pubsub b"
  "daemon_forced_pubsub (issue c b) = daemon_forced_pubsub b"
  "request_cache (issue c b) = request_cache b"
  "active_service_bridges (issue c b) = active_service_bridges b"
  "shutdown_requested (issue c b) = shutdown_requested b"
  "shared (issue c b) = shared b"
  by (simp_all add: issue_def)

lemma request_shutdown_frame [simp]:
  "active_pubsub (request_shutdown b) = active_pubsub b"
  "daemon_forced_pubsub (request_shutdown b) = daemon_forced_pubsub b"
  "request_cache (request_shutdown b) = request_cache b"
  "active_service_bridges (request_shutdown b) = active_service_bridges b"
  "shutdown_requested (request_shutdown b)"
  by (simp_all add: request_shutdown_def)

lemma set_active_frame [simp]:
  "active_pubsub (set_active d xs b) = (active_pubsub b)(d := xs)"
  "daemon_forced_pubsub (set_active d xs b) = daemon_forced_pubsub b"
  "request_cache (set_active d xs b) = request_cache b"
  "active_service_bridges (set_active d xs b) = active_service_bridges b"
  "shutdown_requested (set_active d xs b) = shutdown_requested b"
  "shared (set_active d xs b) = shared b"
  by (simp_all add: set_active_def)

lemma update_num_frame [simp]:
  "active_pubsub (update_ros2_num w d t b) = active_pubsub b"
  "daemon_forced_pubsub (update_ros2_num w d t b) = daemon_forced_pubsub b"
  "request_cache (update_ros2_num w d t b) = request_cache b"
  "active_service_bridges (update_ros2_num w d t b) = active_service_bridges b"
  "shutdown_requested (update_ros2_num w d t b) = shutdown_requested b"
  "shared (update_ros2_num w d t b) = shared b"
  by (simp_all add: update_ros2_num_def)

lemma activate_frame [simp]:
  "active_pubsub (activate w d t r b) = (active_pubsub b)(d := AList.update t r (active_pubsub b d))"
  "daemon_forced_pubsub (activate w d t r b) = daemon_forced_pubsub b"
  "request_cache (activate w d t r b) = request_cache b"
  "active_service_bridges (activate w d t r b) = active_service_bridges b"
  "shutdown_requested (activate w d t r b) = shutdown_requested b"
  by (simp_all add: activate_def Let_def)

lemma set_requests_frame [simp]:
  "active_pubsub (set_requests t rs b) = active_pubsub b"
  "daemon_forced_pubsub (set_requests t rs b) = daemon_forced_pubsub b"
  "shutdown_requested (set_requests t rs b) = shutdown_requested b"
  "map_of (request_cache (set_requests t rs b)) = (map_of (request_cache b))(t := if rs = [] then None else Some rs)"
  by (simp_all add: set_requests_def update_conv' delete_conv' map_upd_Some_unfold fun_upd_def)

abbreviation bridged :: "bmanager \<Rightarrow> bridge_direction \<Rightarrow> string \<Rightarrow> bool" where
  "bridged b d t \<equiv> map_of (active_pubsub b d) t \<noteq> None"

section \<open>Removal\<close>

definition wanted :: "manager \<Rightarrow> graph \<Rightarrow> bridge_direction \<Rightarrow> string \<Rightarrow> bmanager \<Rightarrow> bool" where
  "wanted m w d t b \<longleftrightarrow> has_endpoint m w d t \<and> (is_demanded_by_ros2 m w d t \<or> is_daemon_forced w d t b)"

lemma wanted_cong: "daemon_forced_pubsub b' = daemon_forced_pubsub b \<Longrightarrow> wanted m w d t b' = wanted m w d t b"
  by (simp add: wanted_def is_daemon_forced_def)

lemma sweep_topic_steady:
  assumes "sweep_topic m (\<lambda>_. w) d t b = (True, b')"
  shows "daemon_forced_pubsub b' = daemon_forced_pubsub b \<and> request_cache b' = request_cache b \<and>
    shutdown_requested b' = shutdown_requested b \<and> active_service_bridges b' = active_service_bridges b \<and>
    map_of (active_pubsub b' e) s =
      (if e = d \<and> s = t \<and> \<not> wanted m w d t b then None else map_of (active_pubsub b e) s)"
  using assms by (auto simp: sweep_topic_def end_bridge_def wanted_def has_endpoint_def delete_conv' Let_def
      split: option.splits if_splits)

lemma sweep_topics_steady:
  assumes "sweep_topics m (\<lambda>_ _ _. w) d ts b = (True, b')"
  shows "daemon_forced_pubsub b' = daemon_forced_pubsub b \<and> request_cache b' = request_cache b \<and>
    shutdown_requested b' = shutdown_requested b \<and> active_service_bridges b' = active_service_bridges b \<and>
    (\<forall>e s. map_of (active_pubsub b' e) s =
      (if e = d \<and> s \<in> set ts \<and> \<not> wanted m w d s b then None else map_of (active_pubsub b e) s))"
  using assms
proof (induction ts arbitrary: b)
  case (Cons t ts)
  then obtain b1 where s: "sweep_topic m (\<lambda>_. w) d t b = (True, b1)" and r: "sweep_topics m (\<lambda>_ _ _. w) d ts b1 = (True, b')"
    by (auto split: prod.splits if_splits)
  note h = sweep_topic_steady [OF s]
  have "wanted m w d s b1 = wanted m w d s b" for s using h wanted_cong by blast
  then show ?case using Cons.IH [OF r] h by (auto split: if_splits)
qed simp

lemma sweep_topics_counts:
  assumes "\<And>t. endpoint_count m w d t \<noteq> None"
  shows "fst (sweep_topics m (\<lambda>_ _ _. w) d ts b)"
proof (induction ts arbitrary: b)
  case (Cons t ts)
  have "fst (sweep_topic m (\<lambda>_. w) d t b)"
    using assms [of t] by (auto simp: sweep_topic_def split: option.splits)
  then show ?case using Cons by (auto split: prod.splits)
qed simp

lemma sweep_keeps:
  assumes "check_and_remove_pubsub_bridges m (\<lambda>_ _ _. w) b = (True, b')"
  shows "map_of (active_pubsub b' d) t = (if wanted m w d t b then map_of (active_pubsub b d) t else None)"
proof -
  let ?f = "\<lambda>_ _ _. w"
  obtain b1 where 1: "sweep_topics m ?f ROS2_TO_AGNOCAST (map fst (active_pubsub b ROS2_TO_AGNOCAST)) b = (True, b1)"
    and 2: "sweep_topics m ?f AGNOCAST_TO_ROS2 (map fst (active_pubsub b1 AGNOCAST_TO_ROS2)) b1 = (True, b')"
    using assms by (auto simp: check_and_remove_pubsub_bridges_def split: prod.splits if_splits)
  note h1 = sweep_topics_steady [OF 1] and h2 = sweep_topics_steady [OF 2]
  have w: "wanted m w e s b1 = wanted m w e s b" for e s using h1 wanted_cong by blast
  have k: "s \<notin> set (map fst xs) \<Longrightarrow> map_of xs s = None" for s and xs :: "(string \<times> pubsub_bridge) list"
    by (simp add: map_of_eq_None_iff)
  show ?thesis
  proof (cases d)
    case ROS2_TO_AGNOCAST
    then show ?thesis using h1 h2 w k [of t "active_pubsub b ROS2_TO_AGNOCAST"] by auto
  next
    case AGNOCAST_TO_ROS2
    then show ?thesis using h1 h2 w k [of t "active_pubsub b1 AGNOCAST_TO_ROS2"] by auto
  qed
qed

section \<open>Creation\<close>

text \<open>What it takes to create a bridge from the requests \<open>rs\<close> of a topic.\<close>

definition obtainable :: "manager \<Rightarrow> graph \<Rightarrow> bridge_direction \<Rightarrow> string \<Rightarrow> requests \<Rightarrow> string \<Rightarrow> bool" where
  "obtainable m w d t rs ty \<longleftrightarrow>
     (\<exists>i q r. qos_source d rs = Some i \<and> i \<noteq> -1 \<and> endpoint_qos m w d t i = Some q \<and>
        os_load_pubsub w d t ty q = Pubsub_returned r \<and> pb_handle r \<noteq> None)"

definition creates :: "manager \<Rightarrow> graph \<Rightarrow> bridge_direction \<Rightarrow> string \<Rightarrow> requests \<Rightarrow> string \<Rightarrow> bool" where
  "creates m w d t rs ty \<longleftrightarrow> has_endpoint m w d t \<and> is_demanded_by_ros2 m w d t \<and> obtainable m w d t rs ty"

lemma find_delete_other:
  "distinct (map fst xs) \<Longrightarrow> find P xs = Some (i, v) \<Longrightarrow> (\<And>x. P x \<Longrightarrow> \<not> Q x) \<Longrightarrow> find Q (AList.delete i xs) = find Q xs"
proof (induction xs)
  case (Cons x xs)
  show ?case
  proof (cases "P x")
    case True
    then have x: "x = (i, v)" using Cons.prems by simp
    then have "AList.delete i xs = xs" using Cons.prems(1) by (simp add: delete_idem)
    then show ?thesis using x True Cons.prems(3) [OF True] by simp
  next
    case False
    then have f: "find P xs = Some (i, v)" using Cons.prems by simp
    then have "(i, v) \<in> set xs" by (auto simp: find_Some_iff)
    then have "i \<in> fst ` set xs" by force
    then have "fst x \<noteq> i" using Cons.prems(1) by auto
    then show ?thesis using Cons.IH Cons.prems(1,3) f by (cases x) auto
  qed
qed simp

lemma create_if_needed_steady:
  assumes "create_pubsub_bridge_if_needed m (\<lambda>_. w) t rs ty d b = (rs', b')"
  shows "daemon_forced_pubsub b' = daemon_forced_pubsub b \<and> request_cache b' = request_cache b \<and>
      shutdown_requested b' = shutdown_requested b"
    and "bridged b' e s \<longleftrightarrow> bridged b e s \<or> (e = d \<and> s = t \<and> creates m w d t rs ty)"
    and "distinct (map fst rs) \<Longrightarrow> distinct (map fst rs')"
    and "distinct (map fst rs) \<Longrightarrow> e \<noteq> d \<Longrightarrow> qos_source e rs' = qos_source e rs"
proof -
  show "daemon_forced_pubsub b' = daemon_forced_pubsub b \<and> request_cache b' = request_cache b \<and>
      shutdown_requested b' = shutdown_requested b"
    using assms by (auto simp: create_pubsub_bridge_if_needed_def split: if_splits option.splits pubsub_result.splits)
  show "bridged b' e s \<longleftrightarrow> bridged b e s \<or> (e = d \<and> s = t \<and> creates m w d t rs ty)"
    using assms by (auto simp: create_pubsub_bridge_if_needed_def should_create_pubsub_bridge_def creates_def
        obtainable_def update_conv' split: if_splits option.splits pubsub_result.splits)
  have rs: "rs' = rs \<or> (\<exists>i. qos_source d rs = Some i \<and> rs' = AList.delete i rs)"
    using assms by (auto simp: create_pubsub_bridge_if_needed_def split: if_splits option.splits pubsub_result.splits)
  show "distinct (map fst rs) \<Longrightarrow> distinct (map fst rs')" using rs by (auto intro: distinct_delete)
  show "qos_source e rs' = qos_source e rs" if dst: "distinct (map fst rs)" and ne: "e \<noteq> d"
  proof -
    have "qos_source d rs = Some i \<Longrightarrow> qos_source e (AList.delete i rs) = qos_source e rs" for i
      using find_delete_other [OF dst, of "\<lambda>r. pr_direction (snd r) = d" i _ "\<lambda>r. pr_direction (snd r) = e"] ne
      by (auto simp: qos_source_def)
    then show ?thesis using rs by auto
  qed
qed

definition first_type :: "requests \<Rightarrow> string" where
  "first_type rs = pr_message_type (snd (hd rs))"

lemma create_for_topic_steady:
  fixes m :: manager and w :: graph
  assumes "\<And>rs. map_of (request_cache b) t = Some rs \<Longrightarrow> distinct (map fst rs)"
  defines "b' \<equiv> create_for_topic m (\<lambda>_ _. w) t b"
  shows "daemon_forced_pubsub b' = daemon_forced_pubsub b \<and> shutdown_requested b' = shutdown_requested b \<and>
      (\<forall>s. s \<noteq> t \<longrightarrow> map_of (request_cache b') s = map_of (request_cache b) s)"
    and "bridged b' e s \<longleftrightarrow> bridged b e s \<or> (s = t \<and> (\<exists>rs. map_of (request_cache b) t = Some rs \<and> creates m w e t rs (first_type rs)))"
proof -
  have empty: "\<not> creates m w e t [] ty" for e ty by (simp add: creates_def obtainable_def qos_source_def)
  have "(daemon_forced_pubsub b' = daemon_forced_pubsub b \<and> shutdown_requested b' = shutdown_requested b \<and>
      (\<forall>s. s \<noteq> t \<longrightarrow> map_of (request_cache b') s = map_of (request_cache b) s)) \<and>
      (bridged b' e s \<longleftrightarrow> bridged b e s \<or> (s = t \<and> (\<exists>rs. map_of (request_cache b) t = Some rs \<and> creates m w e t rs (first_type rs))))"
  proof (cases "map_of (request_cache b) t")
    case None
    then show ?thesis by (simp add: b'_def create_for_topic_def)
  next
    case (Some rs)
    show ?thesis
    proof (cases rs)
      case Nil
      then show ?thesis using Some empty by (simp add: b'_def create_for_topic_def)
    next
      case (Cons r rt)
      obtain rs1 b1 where 1: "create_pubsub_bridge_if_needed m (\<lambda>_. w) t rs (first_type rs) ROS2_TO_AGNOCAST b = (rs1, b1)"
        by (cases "create_pubsub_bridge_if_needed m (\<lambda>_. w) t rs (first_type rs) ROS2_TO_AGNOCAST b") auto
      obtain rs2 b2 where 2: "create_pubsub_bridge_if_needed m (\<lambda>_. w) t rs1 (first_type rs) AGNOCAST_TO_ROS2 b1 = (rs2, b2)"
        by (cases "create_pubsub_bridge_if_needed m (\<lambda>_. w) t rs1 (first_type rs) AGNOCAST_TO_ROS2 b1") auto
      have b': "b' = set_requests t rs2 b2"
        using Some Cons 1 2 by (simp add: b'_def create_for_topic_def first_type_def)
      note h1 = create_if_needed_steady [OF 1] and h2 = create_if_needed_steady [OF 2]
      have "creates m w AGNOCAST_TO_ROS2 t rs1 (first_type rs) = creates m w AGNOCAST_TO_ROS2 t rs (first_type rs)"
        using h1(4) [of AGNOCAST_TO_ROS2] assms(1) [OF Some] by (simp add: creates_def obtainable_def)
      then show ?thesis using Some h1(1) h2(1) h1(2) [of e s] h2(2) [of e s] unfolding b'
        by (cases e) auto
    qed
  qed
  then show "daemon_forced_pubsub b' = daemon_forced_pubsub b \<and> shutdown_requested b' = shutdown_requested b \<and>
      (\<forall>s. s \<noteq> t \<longrightarrow> map_of (request_cache b') s = map_of (request_cache b) s)"
    and "bridged b' e s \<longleftrightarrow> bridged b e s \<or> (s = t \<and> (\<exists>rs. map_of (request_cache b) t = Some rs \<and> creates m w e t rs (first_type rs)))"
    by simp_all
qed

lemma create_fold_steady:
  fixes m :: manager and w :: graph
  assumes "distinct ts" and "\<And>t rs. t \<in> set ts \<Longrightarrow> map_of (request_cache b) t = Some rs \<Longrightarrow> distinct (map fst rs)"
  defines "b' \<equiv> fold (\<lambda>t. create_for_topic m (\<lambda>_ _. w) t) ts b"
  shows "daemon_forced_pubsub b' = daemon_forced_pubsub b \<and> shutdown_requested b' = shutdown_requested b \<and>
    (\<forall>e s. bridged b' e s \<longleftrightarrow> bridged b e s \<or>
       (s \<in> set ts \<and> (\<exists>rs. map_of (request_cache b) s = Some rs \<and> creates m w e s rs (first_type rs))))"
  using assms(1,2) unfolding b'_def
proof (induction ts arbitrary: b)
  case (Cons t ts)
  let ?b = "create_for_topic m (\<lambda>_ _. w) t b"
  have d: "map_of (request_cache b) t = Some rs \<Longrightarrow> distinct (map fst rs)" for rs
    using Cons.prems(2) [of t rs] by simp
  note h = create_for_topic_steady [of b t m w, OF d]
  have same: "s \<in> set ts \<Longrightarrow> map_of (request_cache ?b) s = map_of (request_cache b) s" for s
    using h(1) Cons.prems(1) by auto
  have "distinct ts" using Cons.prems(1) by simp
  moreover have "s \<in> set ts \<Longrightarrow> map_of (request_cache ?b) s = Some rs \<Longrightarrow> distinct (map fst rs)" for s rs
    using same Cons.prems(2) [of s rs] by simp
  ultimately have ih: "daemon_forced_pubsub (fold (\<lambda>t. create_for_topic m (\<lambda>_ _. w) t) ts ?b) = daemon_forced_pubsub ?b \<and>
      shutdown_requested (fold (\<lambda>t. create_for_topic m (\<lambda>_ _. w) t) ts ?b) = shutdown_requested ?b \<and>
      (\<forall>e s. bridged (fold (\<lambda>t. create_for_topic m (\<lambda>_ _. w) t) ts ?b) e s \<longleftrightarrow> bridged ?b e s \<or>
         (s \<in> set ts \<and> (\<exists>rs. map_of (request_cache ?b) s = Some rs \<and> creates m w e s rs (first_type rs))))"
    by (rule Cons.IH)
  have "bridged (fold (\<lambda>t. create_for_topic m (\<lambda>_ _. w) t) ts ?b) e s \<longleftrightarrow> bridged b e s \<or>
      (s \<in> set (t # ts) \<and> (\<exists>rs. map_of (request_cache b) s = Some rs \<and> creates m w e s rs (first_type rs)))" for e s
    using ih h(2) [of e s] same [of s] by auto
  then show ?case using ih h(1) by simp
qed simp

section \<open>Leases\<close>

definition leased :: "manager \<Rightarrow> graph \<Rightarrow> bridge_direction \<Rightarrow> string \<Rightarrow> bmanager \<Rightarrow> bool" where
  "leased m w d t b \<longleftrightarrow>
     (\<exists>f r. map_of (daemon_forced_pubsub b d) t = Some f \<and> is_daemon_force_active (forced_until f) (os_now w) \<and>
        os_load_pubsub w d t (df_message_type f) (df_qos f) = Pubsub_returned r \<and> pb_handle r \<noteq> None)"

lemma force_topic_steady:
  defines "b' \<equiv> \<lambda>m w d t b. force_topic m (\<lambda>_. w) d t b"
  shows "is_daemon_forced w e s (b' m w d t b) = is_daemon_forced w e s b"
    and "leased m w e s (b' m w d t b) = leased m w e s b"
    and "shutdown_requested (b' m w d t b) = shutdown_requested b"
    and "bridged (b' m w d t b) e s \<longleftrightarrow> bridged b e s \<or> (e = d \<and> s = t \<and> has_endpoint m w d t \<and> leased m w d t b)"
    and "s \<noteq> t \<Longrightarrow> map_of (daemon_forced_pubsub (b' m w d t b) e) s = map_of (daemon_forced_pubsub b e) s"
    and "e \<noteq> d \<Longrightarrow> daemon_forced_pubsub (b' m w d t b) e = daemon_forced_pubsub b e"
  by (auto simp: b'_def force_topic_def activate_daemon_forced_bridge_def is_daemon_forced_def leased_def
      is_daemon_force_active_def delete_conv' update_conv' split: option.splits pubsub_result.splits)

lemma force_fold_steady:
  fixes m :: manager and w :: graph
  defines "b' \<equiv> \<lambda>d ts b. fold (\<lambda>t. force_topic m (\<lambda>_. w) d t) ts b"
  shows "(\<forall>e s. is_daemon_forced w e s (b' d ts b) = is_daemon_forced w e s b) \<and>
    (\<forall>e s. leased m w e s (b' d ts b) = leased m w e s b) \<and>
    shutdown_requested (b' d ts b) = shutdown_requested b \<and>
    (\<forall>e. e \<noteq> d \<longrightarrow> daemon_forced_pubsub (b' d ts b) e = daemon_forced_pubsub b e) \<and>
    (\<forall>e s. bridged (b' d ts b) e s \<longleftrightarrow> bridged b e s \<or> (e = d \<and> s \<in> set ts \<and> has_endpoint m w d s \<and> leased m w d s b))"
  unfolding b'_def
proof (induction ts arbitrary: b)
  case (Cons t ts)
  note f = force_topic_steady [where m = m and w = w and d = d and t = t and b = b]
  have g: "bridged (force_topic m (\<lambda>_. w) d t b) e s \<longleftrightarrow> bridged b e s \<or>
      (e = d \<and> s = t \<and> has_endpoint m w d t \<and> leased m w d t b)" for e s by (rule f(4))
  show ?case using Cons.IH [of "force_topic m (\<lambda>_. w) d t b"] f(1,2,3,6) g by auto
qed simp

lemma leased_key: "leased m w d t b \<Longrightarrow> t \<in> set (map fst (daemon_forced_pubsub b d))"
  by (force simp: leased_def dest: map_of_SomeD)

lemma create_forced_steady:
  fixes m :: manager and w :: graph and b :: bmanager
  defines "b' \<equiv> create_daemon_forced_bridges m (\<lambda>_ _ _. w) b"
  shows "(\<forall>e s. is_daemon_forced w e s b' = is_daemon_forced w e s b) \<and> shutdown_requested b' = shutdown_requested b \<and>
    (\<forall>e s. bridged b' e s \<longleftrightarrow> bridged b e s \<or> (has_endpoint m w e s \<and> leased m w e s b))"
proof -
  define b1 where "b1 = fold (\<lambda>t. force_topic m (\<lambda>_. w) ROS2_TO_AGNOCAST t) (map fst (daemon_forced_pubsub b ROS2_TO_AGNOCAST)) b"
  have b': "b' = fold (\<lambda>t. force_topic m (\<lambda>_. w) AGNOCAST_TO_ROS2 t) (map fst (daemon_forced_pubsub b1 AGNOCAST_TO_ROS2)) b1"
    by (simp add: b'_def b1_def create_daemon_forced_bridges_def)
  note h1 = force_fold_steady [where m = m and w = w and d = ROS2_TO_AGNOCAST
      and ts = "map fst (daemon_forced_pubsub b ROS2_TO_AGNOCAST)" and b = b, folded b1_def]
  note h2 = force_fold_steady [where m = m and w = w and d = AGNOCAST_TO_ROS2
      and ts = "map fst (daemon_forced_pubsub b1 AGNOCAST_TO_ROS2)" and b = b1, folded b']
  have "bridged b' e s \<longleftrightarrow> bridged b e s \<or> (has_endpoint m w e s \<and> leased m w e s b)" for e s
  proof -
    have l: "leased m w e s b1 = leased m w e s b" using h1 by blast
    have k: "leased m w e s b \<Longrightarrow> s \<in> set (map fst (daemon_forced_pubsub b e))" using leased_key by blast
    have k1: "leased m w e s b1 \<Longrightarrow> s \<in> set (map fst (daemon_forced_pubsub b1 e))" using leased_key by blast
    have e1: "bridged b1 e s \<longleftrightarrow> bridged b e s \<or> (e = ROS2_TO_AGNOCAST \<and>
        s \<in> set (map fst (daemon_forced_pubsub b ROS2_TO_AGNOCAST)) \<and> has_endpoint m w ROS2_TO_AGNOCAST s \<and>
        leased m w ROS2_TO_AGNOCAST s b)" using h1 by blast
    have e2: "bridged b' e s \<longleftrightarrow> bridged b1 e s \<or> (e = AGNOCAST_TO_ROS2 \<and>
        s \<in> set (map fst (daemon_forced_pubsub b1 AGNOCAST_TO_ROS2)) \<and> has_endpoint m w AGNOCAST_TO_ROS2 s \<and>
        leased m w AGNOCAST_TO_ROS2 s b1)" using h2 by blast
    show ?thesis
    proof (cases e)
      case ROS2_TO_AGNOCAST
      then show ?thesis using e1 e2 k by blast
    next
      case AGNOCAST_TO_ROS2
      then show ?thesis using e1 e2 k1 l by blast
    qed
  qed
  moreover have "is_daemon_forced w e s b' = is_daemon_forced w e s b" for e s
    using h1 [THEN conjunct1] h2 [THEN conjunct1] by metis
  moreover have "shutdown_requested b' = shutdown_requested b" using h1 h2 by metis
  ultimately show ?thesis by (intro conjI allI)
qed

section \<open>The turn\<close>

text \<open>A turn in which the world holds still and nobody asks for a shutdown.\<close>

definition calm :: "graph \<Rightarrow> turn" where
  "calm w = \<lparr>t_stop = (\<lambda>_. False), t_msg = (\<lambda>_ _. w), t_create = (\<lambda>_ _ _. w), t_forced = (\<lambda>_ _ _. w),
     t_sweep = (\<lambda>_ _ _. w), t_service = (\<lambda>_ _. outside.truncate w), t_cache = (\<lambda>_. w), t_end = w\<rparr>"

lemma tick_service_active: "active_pubsub (tick_service m obs n b) = active_pubsub b"
  by (simp add: tick_service_def split: option.split prod.split)

lemma services_active: "active_pubsub (check_and_update_service_bridges m obs b) = active_pubsub b"
proof -
  have "active_pubsub (fold (\<lambda>n. tick_service m (obs n) n) ns b) = active_pubsub b" for ns
    by (induction ns arbitrary: b) (simp_all add: tick_service_active)
  then show ?thesis by (simp add: check_and_update_service_bridges_def)
qed

lemma end_of_turn_active:
  "active_pubsub (check_and_request_shutdown w (check_and_remove_request_cache m obs b)) = active_pubsub b"
  by (simp add: check_and_request_shutdown_def check_and_remove_request_cache_def Let_def)

definition cache_wf :: "bmanager \<Rightarrow> bool" where
  "cache_wf b \<longleftrightarrow> distinct (map fst (request_cache b)) \<and>
     (\<forall>t rs. map_of (request_cache b) t = Some rs \<longrightarrow> distinct (map fst rs))"

lemma worker_turn_calm:
  assumes "cache_wf b" and "\<not> shutdown_requested b" and "pending_msgs b = []"
    and "\<And>d t. endpoint_count m w d t \<noteq> None"
  shows "bridged (worker_turn m (calm w) b) d t \<longleftrightarrow> wanted m w d t b \<and>
    (bridged b d t \<or> leased m w d t b \<or>
     (\<exists>rs. map_of (request_cache b) t = Some rs \<and> creates m w d t rs (first_type rs)))"
proof -
  have bb: "b\<lparr>pending_msgs := []\<rparr> = b" using assms(3) by simp
  define b2 where "b2 = check_and_create_pubsub_bridges m (\<lambda>_ _ _. w) b"
  define b3 where "b3 = create_daemon_forced_bridges m (\<lambda>_ _ _. w) b2"
  obtain ok b4 where r: "check_and_remove_pubsub_bridges m (\<lambda>_ _ _. w) b3 = (ok, b4)"
    by (cases "check_and_remove_pubsub_bridges m (\<lambda>_ _ _. w) b3") auto
  have ok: ok
    using r sweep_topics_counts [of m w, OF assms(4)]
    by (auto simp: check_and_remove_pubsub_bridges_def split: prod.splits if_splits) (metis fst_conv)+
  note h2 = create_fold_steady [of "map fst (request_cache b)" b m w]
  have c: "daemon_forced_pubsub b2 = daemon_forced_pubsub b \<and> shutdown_requested b2 = shutdown_requested b \<and>
      (\<forall>e s. bridged b2 e s \<longleftrightarrow> bridged b e s \<or>
         (\<exists>rs. map_of (request_cache b) s = Some rs \<and> creates m w e s rs (first_type rs)))"
    using h2 assms(1) unfolding b2_def check_and_create_pubsub_bridges_def cache_wf_def
    by (auto dest: map_of_SomeD simp: image_iff) force+
  note h3 = create_forced_steady [where m = m and w = w and b = b2, folded b3_def]
  have ld: "leased m w e s b2 = leased m w e s b" for e s using c by (simp add: leased_def)
  have wd: "wanted m w e s b3 = wanted m w e s b" for e s
    using h3 c wanted_cong [of b2 b] by (simp add: wanted_def)
  have sh: "\<not> shutdown_requested b2" "\<not> shutdown_requested b3" using c h3 assms(2) by auto
  have turn: "active_pubsub (worker_turn m (calm w) b) = active_pubsub b4"
    using sh assms(2) r
    by (simp add: worker_turn_def calm_def poll_def Let_def services_active end_of_turn_active assms(3) bb
        b2_def [symmetric] b3_def [symmetric])
  have "map_of (active_pubsub b4 d) t = (if wanted m w d t b3 then map_of (active_pubsub b3 d) t else None)"
    using r ok by (intro sweep_keeps) simp
  moreover have "wanted m w d t b \<Longrightarrow> has_endpoint m w d t" by (simp add: wanted_def)
  ultimately show ?thesis unfolding turn using wd c h3 ld by auto
qed

end
