(* ===== verification/Bridge_Invariant.thy ===== *)
theory Bridge_Invariant
  imports Bridge_Sweep
begin

text \<open>
  Invariants of the bridge manager: the callback groups the executor has are exactly those of the active
  bridges, so that no operation of the executor ends the process, and the table of shadow nodes is exactly
  what the service items hold.
\<close>

section \<open>Owners of callback groups\<close>

datatype owner = Pubsub bridge_direction string | Srv string | Cli string

definition group_of :: "bmanager \<Rightarrow> owner \<Rightarrow> nat option" where
  "group_of b o' = (case o' of
       Pubsub d t \<Rightarrow> Option.bind (map_of (active_pubsub b d) t) pb_group
     | Srv n \<Rightarrow> Option.bind (map_of (active_service_bridges b) n) (\<lambda>it. srv_cb_group (entity it))
     | Cli n \<Rightarrow> Option.bind (map_of (active_service_bridges b) n) (\<lambda>it. client_cb_group (entity it)))"

definition known :: "cie \<Rightarrow> nat set" where
  "known x = dom (map_of (weak_groups_to_nodes x))"

text \<open>\<open>f\<close> gives every member of \<open>D\<close> exactly one owner.\<close>

definition mirrored :: "('a \<Rightarrow> nat option) \<Rightarrow> nat set \<Rightarrow> bool" where
  "mirrored f D \<longleftrightarrow> ran f = D \<and> inj_on f (dom f)"

lemma mirrored_iff:
  "mirrored f D \<longleftrightarrow> (\<forall>g. g \<in> D \<longleftrightarrow> (\<exists>x. f x = Some g)) \<and> (\<forall>x y g. f x = Some g \<longrightarrow> f y = Some g \<longrightarrow> x = y)"
  unfolding mirrored_def ran_def inj_on_def dom_def by (auto simp: set_eq_iff)

lemma mirrored_add:
  "mirrored f D \<Longrightarrow> f x = None \<Longrightarrow> (\<And>g. v = Some g \<Longrightarrow> g \<notin> D) \<Longrightarrow> mirrored (f(x := v)) (D \<union> set_option v)"
  by (cases v) (auto simp: mirrored_iff, (metis option.distinct(1))+)

lemma mirrored_clear: "mirrored f D \<Longrightarrow> mirrored (f(x := None)) (D - set_option (f x))"
  by (cases "f x") (auto simp: mirrored_iff, (metis option.distinct(1) option.inject)+)

lemma mirrored_owned: "mirrored f D \<Longrightarrow> set_option (f x) \<subseteq> D"
  by (cases "f x") (auto simp: mirrored_iff)

section \<open>The executor\<close>

text \<open>No operation has ended the process, and the flag \<open>spinning\<close> is only set while a thread is in \<open>spin()\<close>,
  so that entering \<open>spin()\<close> does not end it either.\<close>

definition in_order :: "cie \<Rightarrow> bool" where
  "in_order x \<longleftrightarrow> \<not> terminated x \<and> (spinning x \<longrightarrow> spin_at x \<noteq> Idle)"


lemma start_group_adds:
  assumes "in_order x" and "\<And>g. v = Some g \<Longrightarrow> g \<notin> known x"
  shows "in_order (start_group v x) \<and> known (start_group v x) = known x \<union> set_option v"
  using assms by (cases v) (auto simp: start_group_def add_callback_group_def known_def in_order_def)

lemma stop_keeps: "weak_groups_to_nodes (stop_callback_group g x) = weak_groups_to_nodes x \<and>
    terminated (stop_callback_group g x) = terminated x \<and> spinning (stop_callback_group g x) = spinning x \<and>
    spin_at (stop_callback_group g x) = spin_at x"
  by (simp add: stop_callback_group_def split: option.split)

lemma end_group_removes:
  assumes "in_order x" and "set_option v \<subseteq> known x"
  shows "in_order (end_group v x) \<and> known (end_group v x) = known x - set_option v"
  using assms by (cases v) (auto simp: end_group_def stop_keeps remove_callback_group_def known_def dom_def in_order_def
      split: if_splits)

lemma spawn_keeps_known:
  "weak_groups_to_nodes (spawn_each Stage1 gs x) = weak_groups_to_nodes x \<and>
    terminated (spawn_each Stage1 gs x) = terminated x \<and> spinning (spawn_each Stage1 gs x) = spinning x"
  "weak_groups_to_nodes (spawn_new Stage1 gs x) = weak_groups_to_nodes x \<and>
    terminated (spawn_new Stage1 gs x) = terminated x \<and> spinning (spawn_new Stage1 gs x) = spinning x"
  by (induction gs arbitrary: x) (auto simp: spawn_child_executor_def Let_def)

lemma executor_work:
  "work_step Stage1 auto x x' \<Longrightarrow> known x' = known x \<and> (in_order x \<longrightarrow> in_order x')"
  by (erule work_step.cases) (auto simp: known_def cie_ops spawn_initial_def spawn_scanned_def spawn_keeps_known
      leave_loop_def cancel_children_def in_order_def split: list.split)

lemma spin_known: "spin_at x = Idle \<Longrightarrow> known (spin_enter Stage1 x) = known x \<and> (in_order x \<longrightarrow> in_order (spin_enter Stage1 x))"
  by (simp add: known_def in_order_def spin_enter_def)

lemma cancel_known: "known (cancel_finish Stage1 (cancel_flags Stage1 x)) = known x \<and>
    (in_order x \<longrightarrow> in_order (cancel_finish Stage1 (cancel_flags Stage1 x)))"
  by (simp add: known_def in_order_def cancel_finish_def cancel_flags_def cancel_children_def)

section \<open>Shadow nodes\<close>

text \<open>\<open>H\<close> says which item holds which node under which identity.\<close>

definition shadow_inv :: "(string \<Rightarrow> (nat \<times> identity) option) \<Rightarrow> bridge_shared \<Rightarrow> bool" where
  "shadow_inv H c \<longleftrightarrow> finite (dom H) \<and>
     (\<forall>n. shadow_refs c n = card {x. \<exists>ident. H x = Some (n, ident)}) \<and>
     (\<forall>ident n. g_shadow_nodes c ident = Some n \<longleftrightarrow> (\<exists>x. H x = Some (n, ident))) \<and>
     (\<forall>x y n ident ident'. H x = Some (n, ident) \<longrightarrow> H y = Some (n, ident') \<longrightarrow> ident = ident') \<and>
     (\<forall>x n ident. H x = Some (n, ident) \<longrightarrow> n < next_shadow c)"

lemma shadow_invI:
  assumes "finite (dom H)" and "\<And>n. shadow_refs c n = card {x. \<exists>ident. H x = Some (n, ident)}"
    and "\<And>ident n. g_shadow_nodes c ident = Some n \<longleftrightarrow> (\<exists>x. H x = Some (n, ident))"
    and "\<And>x y n ident ident'. H x = Some (n, ident) \<Longrightarrow> H y = Some (n, ident') \<Longrightarrow> ident = ident'"
    and "\<And>x n ident. H x = Some (n, ident) \<Longrightarrow> n < next_shadow c"
  shows "shadow_inv H c"
  unfolding shadow_inv_def using assms by blast

lemma shadow_invD:
  assumes "shadow_inv H c"
  shows "finite (dom H)" and "shadow_refs c n = card {x. \<exists>ident. H x = Some (n, ident)}"
    and "g_shadow_nodes c ident = Some n \<longleftrightarrow> (\<exists>x. H x = Some (n, ident))"
    and "H x = Some (n, ident) \<Longrightarrow> H y = Some (n, ident') \<Longrightarrow> ident = ident'"
    and "H x = Some (n, ident) \<Longrightarrow> n < next_shadow c"
  using assms unfolding shadow_inv_def by blast+

lemma holders_finite: "finite (dom H) \<Longrightarrow> finite {x. \<exists>ident. H x = Some (n, ident)}"
  by (rule finite_subset [of _ "dom H"]) auto

lemma shadow_held: "shadow_inv H c \<Longrightarrow> g_shadow_nodes c ident = Some n \<Longrightarrow> 0 < shadow_refs c n"
  supply split_paired_All [simp del] split_paired_Ex [simp del]
  using holders_finite [of H n] by (auto simp: shadow_inv_def card_gt_0_iff)

lemma update_ex: "H x = None \<Longrightarrow> (\<exists>y. (H(x \<mapsto> a)) y = Some b) \<longleftrightarrow> b = a \<or> (\<exists>y. H y = Some b)"
  using ran_map_upd [of H x a] by (auto simp: ran_def set_eq_iff)

lemma shadow_acquire:
  assumes inv: "shadow_inv H c" and x: "H x = None"
    and r: "find_or_create_shadow_node w ident c = (Some n, c')"
  shows "shadow_inv (H(x \<mapsto> (n, ident))) c'"
proof -
  note split_paired_All [simp del] split_paired_Ex [simp del]
  have fin: "finite (dom H)" using inv by (simp add: shadow_inv_def)
  have hold: "{y. \<exists>i. (H(x \<mapsto> (n, ident))) y = Some (k, i)} =
      (if k = n then insert x {y. \<exists>i. H y = Some (k, i)} else {y. \<exists>i. H y = Some (k, i)})" for k
    using x by auto
  have cards: "card {y. \<exists>i. (H(x \<mapsto> (n, ident))) y = Some (k, i)} =
      card {y. \<exists>i. H y = Some (k, i)} + (if k = n then 1 else 0)" for k
    unfolding hold using holders_finite [OF fin] x by auto
  show ?thesis
  proof (cases "g_shadow_nodes c ident")
    case (Some k)
    then have n: "n = k" and c': "c' = c\<lparr>shadow_refs := (shadow_refs c)(k := shadow_refs c k + 1)\<rparr>"
      using r shadow_held [OF inv Some] by (auto simp: find_or_create_shadow_node_def Let_def)
    have same: "H y = Some (k, i) \<Longrightarrow> i = ident" for y i
      using inv Some unfolding shadow_inv_def by metis
    have table: "g_shadow_nodes c i = Some j \<longleftrightarrow> (\<exists>y. (H(x \<mapsto> (n, ident))) y = Some (j, i))" for i j
      unfolding update_ex [of H, OF x] using shadow_invD(3) [OF inv] Some n by (metis prod.inject)
    have "k < next_shadow c" using inv Some unfolding shadow_inv_def by blast
    have u: "(H(x \<mapsto> (n, ident))) y = Some (j, i) \<Longrightarrow> (j = n \<and> i = ident) \<or> H y = Some (j, i)" for y i j
      by (simp split: if_splits)
    have f: "g_shadow_nodes c' = g_shadow_nodes c" "next_shadow c' = next_shadow c" by (simp_all add: c')
    show ?thesis
    proof (rule shadow_invI, unfold cards f)
      fix j show "shadow_refs c' j = card {y. \<exists>i. H y = Some (j, i)} + (if j = n then 1 else 0)"
        using shadow_invD(2) [OF inv] by (simp add: c' n)
    next
      fix y z j i i' assume "(H(x \<mapsto> (n, ident))) y = Some (j, i)" "(H(x \<mapsto> (n, ident))) z = Some (j, i')"
      then show "i = i'" using u same n shadow_invD(4) [OF inv] by metis
    next
      fix y j i assume "(H(x \<mapsto> (n, ident))) y = Some (j, i)"
      then show "j < next_shadow c" using u \<open>k < next_shadow c\<close> n shadow_invD(5) [OF inv] by metis
    qed (use fin table in simp_all)
  next
    case None
    then have n: "n = next_shadow c" and c': "c' = c\<lparr>g_shadow_nodes := (g_shadow_nodes c)(ident \<mapsto> n),
        shadow_refs := (shadow_refs c)(n := 1), next_shadow := n + 1\<rparr>"
      using r by (auto simp: find_or_create_shadow_node_def Let_def split: if_splits)
    have fresh: "H y \<noteq> Some (n, i)" for y i using inv n unfolding shadow_inv_def by blast
    have none: "H y \<noteq> Some (k, ident)" for y k using inv None unfolding shadow_inv_def by (metis option.distinct(1))
    have zero: "card {y. \<exists>i. H y = Some (n, i)} = 0" using fresh by simp
    have u: "(H(x \<mapsto> (n, ident))) y = Some (j, i) \<Longrightarrow> (y = x \<and> j = n \<and> i = ident) \<or> H y = Some (j, i)" for y i j
      by (simp split: if_splits)
    have v: "(\<exists>y. (H(x \<mapsto> (n, ident))) y = Some (j, i)) \<longleftrightarrow> (j = n \<and> i = ident) \<or> (\<exists>y. H y = Some (j, i))" for i j
      using update_ex [of H, OF x] by simp
    show ?thesis
    proof (rule shadow_invI, unfold cards)
      fix j show "shadow_refs c' j = card {y. \<exists>i. H y = Some (j, i)} + (if j = n then 1 else 0)"
        using shadow_invD(2) [OF inv] zero by (simp add: c')
    next
      fix i j show "g_shadow_nodes c' i = Some j \<longleftrightarrow> (\<exists>y. (H(x \<mapsto> (n, ident))) y = Some (j, i))"
        unfolding v using shadow_invD(3) [OF inv] none by (auto simp: c')
    next
      fix y z j i i' assume "(H(x \<mapsto> (n, ident))) y = Some (j, i)" "(H(x \<mapsto> (n, ident))) z = Some (j, i')"
      then show "i = i'" using u fresh shadow_invD(4) [OF inv] by metis
    next
      fix y j i assume "(H(x \<mapsto> (n, ident))) y = Some (j, i)"
      then have "j \<le> n" using u n shadow_invD(5) [OF inv] by (metis less_imp_le order_refl)
      then show "j < next_shadow c'" by (simp add: c')
    qed (use fin in simp)
  qed
qed

lemma shadow_release:
  assumes inv: "shadow_inv H c" and x: "H x = Some (n, ident)"
  defines "c1 \<equiv> c\<lparr>shadow_refs := (shadow_refs c)(n := shadow_refs c n - 1)\<rparr>"
  shows "shadow_inv (H(x := None)) (erase_expired_shadow_node ident c1)"
proof -
  note split_paired_All [simp del] split_paired_Ex [simp del]
  have fin: "finite (dom H)" using inv by (simp add: shadow_inv_def)
  have hold: "{y. \<exists>i. (H(x := None)) y = Some (k, i)} =
      (if k = n then {y. \<exists>i. H y = Some (k, i)} - {x} else {y. \<exists>i. H y = Some (k, i)})" for k
    using x by auto
  have cards: "card {y. \<exists>i. (H(x := None)) y = Some (k, i)} =
      card {y. \<exists>i. H y = Some (k, i)} - (if k = n then 1 else 0)" for k
    unfolding hold using holders_finite [OF fin] x by (auto simp: card_Diff_singleton)
  have t: "g_shadow_nodes c ident = Some n" using inv x unfolding shadow_inv_def by blast
  have refs: "shadow_refs c1 k = card {y. \<exists>i. (H(x := None)) y = Some (k, i)}" for k
    unfolding cards using inv by (simp add: c1_def shadow_inv_def)
  have zero: "shadow_refs c1 n = 0 \<longleftrightarrow> (\<forall>y i. (H(x := None)) y \<noteq> Some (n, i))"
    unfolding refs using holders_finite [of "H(x := None)" n] fin by (auto simp: card_eq_0_iff)
  have same: "H y = Some (n, i) \<Longrightarrow> i = ident" for y i using inv x unfolding shadow_inv_def by metis
  have other: "g_shadow_nodes c i = Some k \<longleftrightarrow> (\<exists>y. H y = Some (k, i))" for i k
    using inv by (simp add: shadow_inv_def)
  have table: "g_shadow_nodes (erase_expired_shadow_node ident c1) i = Some k \<longleftrightarrow> (\<exists>y. (H(x := None)) y = Some (k, i))" for i k
  proof (cases "i = ident \<and> k = n")
    case True
    then show ?thesis using zero same t other [of ident n]
      by (auto simp: erase_expired_shadow_node_def c1_def)
  next
    case False
    have "(\<exists>y. (H(x := None)) y = Some (k, i)) \<longleftrightarrow> (\<exists>y. H y = Some (k, i))"
      using False x by (metis fun_upd_apply option.distinct(1) option.inject prod.inject)
    then show ?thesis using other [of i k] False t by (auto simp: erase_expired_shadow_node_def c1_def)
  qed
  have f: "shadow_refs (erase_expired_shadow_node ident c1) = shadow_refs c1"
    "next_shadow (erase_expired_shadow_node ident c1) = next_shadow c"
    by (simp_all add: erase_expired_shadow_node_def c1_def split: option.split)
  show ?thesis
  proof (rule shadow_invI, unfold f)
    fix y z j i i' assume "(H(x := None)) y = Some (j, i)" "(H(x := None)) z = Some (j, i')"
    then show "i = i'" using shadow_invD(4) [OF inv] by (metis fun_upd_apply option.distinct(1))
  next
    fix y j i assume "(H(x := None)) y = Some (j, i)"
    then show "j < next_shadow c" using shadow_invD(5) [OF inv] by (metis fun_upd_apply option.distinct(1))
  qed (use fin refs table in simp_all)
qed

section \<open>One tick of one service item\<close>

definition item_shadow :: "service_item \<Rightarrow> (nat \<times> identity) option" where
  "item_shadow it = map_option (\<lambda>n. (n, the (shadow_node_identity it))) (shadow_node it)"

definition item_ok :: "service_item \<Rightarrow> bool" where
  "item_ok it \<longleftrightarrow> si_state it \<noteq> NONE \<and> (si_state it = PENDING \<longrightarrow> entity it = no_entity) \<and>
     (shadow_node it \<noteq> None \<longrightarrow> shadow_node_identity it \<noteq> None)"

lemma shadow_inv_executor [simp]: "shadow_inv H (c\<lparr>executor := x\<rparr>) = shadow_inv H c"
  by (simp add: shadow_inv_def)

lemma create_failed: "find_or_create_shadow_node w ident c = (None, c') \<Longrightarrow> c' = c"
  by (auto simp: find_or_create_shadow_node_def Let_def split: option.splits if_splits)

lemma acquire_shadow:
  assumes a: "acquire_shadow_node w it c = (ok, it1, c1)" and inv: "shadow_inv H c" and h: "H x = item_shadow it"
  shows "shadow_inv (H(x := item_shadow it1)) c1 \<and> shadow_node_identity it1 = shadow_node_identity it \<and>
    (shadow_node it1 \<noteq> None \<longrightarrow> shadow_node it \<noteq> None \<or> shadow_node_identity it \<noteq> None)"
proof (cases "shadow_node_identity it")
  case None
  then show ?thesis using a inv h by (auto simp: acquire_shadow_node_def fun_upd_idem)
next
  case (Some ident)
  show ?thesis
  proof (cases "shadow_node it")
    case None
    obtain node c2 where f: "find_or_create_shadow_node w ident c = (node, c2)"
      by (cases "find_or_create_shadow_node w ident c") auto
    have r: "it1 = it\<lparr>shadow_node := node\<rparr>" "c1 = c2"
      using a Some None f by (auto simp: acquire_shadow_node_def)
    have hx: "H x = None" using h None by (simp add: item_shadow_def)
    show ?thesis
    proof (cases node)
      case None
      then have "c2 = c" using create_failed [of w ident c c2] f by simp
      then show ?thesis using None r inv hx by (simp add: item_shadow_def fun_upd_idem)
    next
      case (Some n)
      then show ?thesis using r shadow_acquire [OF inv hx f [unfolded Some]] \<open>shadow_node_identity it = Some ident\<close>
        by (simp add: item_shadow_def)
    qed
  next
    case (Some n)
    then show ?thesis using a inv h \<open>shadow_node_identity it = Some ident\<close>
      by (auto simp: acquire_shadow_node_def fun_upd_idem)
  qed
qed

lemma release_shadow:
  assumes a: "release_shadow_node it c = (it1, c1)" and inv: "shadow_inv H c" and h: "H x = item_shadow it"
    and ok: "shadow_node it \<noteq> None \<longrightarrow> shadow_node_identity it \<noteq> None"
  shows "shadow_inv (H(x := item_shadow it1)) c1 \<and> shadow_node_identity it1 = shadow_node_identity it \<and> shadow_node it1 = None"
proof (cases "shadow_node it")
  case None
  then show ?thesis using a inv h by (auto simp: release_shadow_node_def fun_upd_idem)
next
  case (Some n)
  then obtain ident where i: "shadow_node_identity it = Some ident" using ok by auto
  have r: "it1 = it\<lparr>shadow_node := None\<rparr>"
    "c1 = erase_expired_shadow_node ident (c\<lparr>shadow_refs := (shadow_refs c)(n := shadow_refs c n - 1)\<rparr>)"
    using a Some i by (auto simp: release_shadow_node_def Let_def)
  have hx: "H x = Some (n, ident)" using h Some i by (simp add: item_shadow_def)
  show ?thesis using shadow_release [OF inv hx] r by (simp add: item_shadow_def)
qed

text \<open>Starting a bridge with what the loader returns.\<close>

definition started :: "outside \<Rightarrow> service_item \<Rightarrow> service_item \<Rightarrow> bridge_shared \<Rightarrow> bridge_shared \<Rightarrow> bool" where
  "started w it it' c c' \<longleftrightarrow> (\<exists>d n ty q e s. os_load_service w d n ty q = Loader_returned e \<and> s \<in> {A2R, R2A} \<and>
     (it', c') = start_entity s e it c)"

lemma start_with_loader_cases:
  assumes "s \<in> {A2R, R2A}"
  shows "start_with_loader d s q w it c = (it, c) \<or>
    started w it (fst (start_with_loader d s q w it c)) c (snd (start_with_loader d s q w it c))"
proof (cases "service_type it")
  case (Some ty)
  show ?thesis
  proof (cases "os_load_service w d (service_name it) ty q")
    case (Loader_returned e)
    show ?thesis
    proof (cases "entity_handle e")
      case None
      then show ?thesis using Some Loader_returned by (simp add: start_with_loader_def)
    next
      case (Some h)
      then have "start_with_loader d s q w it c = start_entity s e it c"
        using \<open>service_type it = Some ty\<close> Loader_returned by (simp add: start_with_loader_def)
      then show ?thesis unfolding started_def using Loader_returned assms by (metis prod.collapse)
    qed
  qed (use Some in \<open>simp add: start_with_loader_def\<close>)
qed (simp add: start_with_loader_def)

lemma start_cases:
  "start_r2a_bridge m obs it c = (it', c') \<Longrightarrow> (it', c') = (it, c) \<or> started (obs At_start_load) it it' c c'"
  "start_a2r_bridge obs it c = (it', c') \<Longrightarrow> (it', c') = (it, c) \<or> started (obs At_start_load) it it' c c'"
proof -
  have l: "start_with_loader d s q w it c = (it', c') \<Longrightarrow> s \<in> {A2R, R2A} \<Longrightarrow>
      (it', c') = (it, c) \<or> started w it it' c c'" for d s q w
    using start_with_loader_cases [of s d q w it c] by auto
  show "start_r2a_bridge m obs it c = (it', c') \<Longrightarrow> (it', c') = (it, c) \<or> started (obs At_start_load) it it' c c'"
    using l [of ROS2_TO_AGNOCAST R2A] by (auto simp: start_r2a_bridge_def split: option.splits)
  show "start_a2r_bridge obs it c = (it', c') \<Longrightarrow> (it', c') = (it, c) \<or> started (obs At_start_load) it it' c c'"
    using l [of AGNOCAST_TO_ROS2 A2R] by (auto simp: start_a2r_bridge_def)
qed

lemma tick_cases:
  assumes t: "check_and_update m obs it c = (it', c')" and ok: "item_ok it" and inv: "shadow_inv H c" and h: "H x = item_shadow it"
  shows "\<exists>it1 c1. shadow_inv (H(x := item_shadow it1)) c1 \<and> executor c1 = executor c \<and> entity it1 = entity it \<and>
    (shadow_node it1 \<noteq> None \<longrightarrow> shadow_node_identity it1 \<noteq> None) \<and>
    (it' = it1 \<and> c' = c1 \<and> si_state it1 = si_state it \<or>
     it' = it1\<lparr>si_state := NONE\<rparr> \<and> c' = c1 \<and> si_state it = PENDING \<and> shadow_node it1 = None \<or>
     si_state it = PENDING \<and> started (obs At_start_load) it1 it' c1 c' \<or>
     it1 = it \<and> c1 = c \<and> (it', c') = end_entity it c)"
proof (cases "si_state it")
  case PENDING
  show ?thesis
  proof (cases "may_start_r2a_bridge it \<and> agno_service_exists m (obs At_pending_service) (service_name it)")
    case True
    obtain k it1 c1 where a: "acquire_shadow_node (obs At_shadow) it c = (k, it1, c1)"
      by (cases "acquire_shadow_node (obs At_shadow) it c") auto
    note f = acquire_frame [OF a] and s = acquire_shadow [OF a inv h]
    have r: "(it', c') = (it1, c1) \<or> started (obs At_start_load) it1 it' c1 c'"
      using t PENDING True a start_cases(1) [of m obs it1 c1 it' c']
      by (simp add: check_and_update_def check_and_update_pending_def split: if_splits)
    show ?thesis
      by (rule exI [of _ it1], rule exI [of _ c1]) (use s f r ok PENDING in \<open>auto simp: item_ok_def\<close>)
  next
    case False
    obtain it1 c1 where a: "release_shadow_node it c = (it1, c1)" by (cases "release_shadow_node it c") auto
    have sok: "shadow_node it \<noteq> None \<longrightarrow> shadow_node_identity it \<noteq> None" using ok by (simp add: item_ok_def)
    note f = release_frame [OF a] and s = release_shadow [OF a inv h sok]
    have r: "(it', c') = (it1, c1) \<or> (it', c') = (it1\<lparr>si_state := NONE\<rparr>, c1) \<or> started (obs At_start_load) it1 it' c1 c'"
      using t PENDING start_cases(2) [of obs it1 c1 it' c']
      unfolding check_and_update_def check_and_update_pending_def if_not_P [OF False] a prod.case
      by (auto split: if_splits)
    show ?thesis
      by (rule exI [of _ it1], rule exI [of _ c1]) (use s f r PENDING in auto)
  qed
next
  case R2A
  then have "(it', c') = (it, c) \<or> (it', c') = end_entity it c"
    using t by (auto simp: check_and_update_def check_and_update_r2a_def split: if_splits)
  then show ?thesis
    by (intro exI [of _ it] exI [of _ c]) (use inv h ok R2A in \<open>auto simp: fun_upd_idem item_ok_def\<close>)
next
  case A2R
  then have "(it', c') = (it, c) \<or> (it', c') = end_entity it c"
    using t by (auto simp: check_and_update_def check_and_update_a2r_def split: if_splits)
  then show ?thesis
    by (intro exI [of _ it] exI [of _ c]) (use inv h ok A2R in \<open>auto simp: fun_upd_idem item_ok_def\<close>)
qed (use ok in \<open>simp add: item_ok_def\<close>)

section \<open>The invariant\<close>

definition shadow_holder :: "bmanager \<Rightarrow> string \<Rightarrow> (nat \<times> identity) option" where
  "shadow_holder b n = Option.bind (map_of (active_service_bridges b) n) item_shadow"

definition items_ok :: "bmanager \<Rightarrow> bool" where
  "items_ok b \<longleftrightarrow> (\<forall>n it. map_of (active_service_bridges b) n = Some it \<longrightarrow> item_ok it)"

definition bridge_inv :: "bmanager \<Rightarrow> bool" where
  "bridge_inv b \<longleftrightarrow> in_order (executor (shared b)) \<and> mirrored (group_of b) (known (executor (shared b))) \<and>
     items_ok b \<and> shadow_inv (shadow_holder b) (shared b) \<and> cache_wf b"

text \<open>What the loader returns is new: a factory calls \<open>create_callback_group\<close> for each group.\<close>

definition fresh_pubsub :: "graph \<Rightarrow> cie \<Rightarrow> bool" where
  "fresh_pubsub w x \<longleftrightarrow>
     (\<forall>d t ty q r g. os_load_pubsub w d t ty q = Pubsub_returned r \<longrightarrow> pb_group r = Some g \<longrightarrow> g \<notin> known x)"

definition fresh_service :: "outside \<Rightarrow> cie \<Rightarrow> bool" where
  "fresh_service w x \<longleftrightarrow> (\<forall>d n ty q e. os_load_service w d n ty q = Loader_returned e \<longrightarrow>
     (\<forall>g. srv_cb_group e = Some g \<longrightarrow> g \<notin> known x \<and> client_cb_group e \<noteq> Some g) \<and>
     (\<forall>g. client_cb_group e = Some g \<longrightarrow> g \<notin> known x))"

text \<open>Everything the worker does, body by body, and what the other threads do: the event loop; the executor thread,
  which enters \<open>spin()\<close>, and the children it spawns; whoever asks for a shutdown or shuts the context down; and
  what happens to the groups of the container node, their flags and lives. In \<open>create_for_topic\<close> the loader
  may be called twice.\<close>

inductive mstep :: "manager \<Rightarrow> bmanager \<Rightarrow> bmanager \<Rightarrow> bool" for m where
  Enqueue: "mstep m b (enqueue msg b)"
| Take_batch: "mstep m b (b\<lparr>pending_msgs := []\<rparr>)"
| Dispatch: "fresh_pubsub (obs W_load) (executor (shared b)) \<Longrightarrow> mstep m b (dispatch_bridge_message m obs msg b)"
| Create: "fresh_pubsub (obs ROS2_TO_AGNOCAST W_load) (executor (shared b)) \<Longrightarrow>
    (\<And>rs ty rs' b'. create_pubsub_bridge_if_needed m (obs ROS2_TO_AGNOCAST) t rs ty ROS2_TO_AGNOCAST b = (rs', b') \<Longrightarrow>
       fresh_pubsub (obs AGNOCAST_TO_ROS2 W_load) (executor (shared b'))) \<Longrightarrow> mstep m b (create_for_topic m obs t b)"
| Force: "fresh_pubsub (obs W_load) (executor (shared b)) \<Longrightarrow> mstep m b (force_topic m obs d t b)"
| Sweep: "mstep m b (snd (sweep_topic m obs d t b))"
| Service: "fresh_service (sobs At_start_load) (executor (shared b)) \<Longrightarrow> mstep m b (tick_service m sobs n b)"
| Cache: "mstep m b (check_and_remove_request_cache m cobs b)"
| Ask: "mstep m b (check_and_request_shutdown w b)"
| Shutdown: "mstep m b (request_shutdown b)"
| Spin: "\<not> terminated (executor (shared b)) \<Longrightarrow> spin_at (executor (shared b)) = Idle \<Longrightarrow> mstep m b (on_executor (spin_enter Stage1) b)"
| Executor: "work_step Stage1 auto (executor (shared b)) x \<Longrightarrow> mstep m b (on_executor (\<lambda>_. x) b)"
| Joined: "t \<in> set (stopping (executor (shared b))) \<Longrightarrow> ch_pc (children (executor (shared b)) t) = Finished \<Longrightarrow>
    mstep m b (on_executor (\<lambda>x. x\<lparr>stopping := remove1 t (stopping x)\<rparr>) b)"
| Context_down: "mstep m b (on_executor (\<lambda>x. x\<lparr>context_ok := False\<rparr>) b)"
| Groups: "mstep m b (on_executor (\<lambda>x. x\<lparr>node_groups := ng, associated := f, gone_groups := G\<rparr>) b)"

text \<open>\<open>start_ros_execution\<close>: the executor gets the container node 0 before its thread is created, and the manager
  has no bridge and no shadow node.\<close>

definition start_ros_execution :: bridge_shared where
  "start_ros_execution = \<lparr>executor = add_node Stage1 (\<lambda>_. False) 0 init_cie, g_shadow_nodes = (\<lambda>_. None),
     shadow_refs = (\<lambda>_. 0), next_shadow = 0\<rparr>"

inductive mreach :: "manager \<Rightarrow> bmanager \<Rightarrow> bool" for m where
  Start: "mreach m (init_bmanager start_ros_execution)"
| Step: "mreach m b \<Longrightarrow> mstep m b b' \<Longrightarrow> mreach m b'"

lemma bridge_inv_start:
  "bridge_inv (init_bmanager start_ros_execution)"
proof -
  let ?b = "init_bmanager start_ros_execution"
  have "group_of ?b = (\<lambda>_. None)" by (auto simp: group_of_def init_bmanager_def fun_eq_iff split: owner.split)
  moreover have "shadow_holder ?b = (\<lambda>_. None)" by (simp add: shadow_holder_def init_bmanager_def fun_eq_iff)
  ultimately show ?thesis
    by (simp add: bridge_inv_def items_ok_def cache_wf_def init_bmanager_def start_ros_execution_def add_node_def in_order_def init_cie_def known_def mirrored_def shadow_inv_def)
qed

text \<open>What the parts of the invariant depend on.\<close>

lemma group_of_frame:
  "active_pubsub b' = active_pubsub b \<Longrightarrow> active_service_bridges b' = active_service_bridges b \<Longrightarrow> group_of b' = group_of b"
  by (simp add: group_of_def fun_eq_iff split: owner.split)

lemma holder_frame: "active_service_bridges b' = active_service_bridges b \<Longrightarrow> shadow_holder b' = shadow_holder b"
  by (simp add: shadow_holder_def fun_eq_iff)

lemma bridge_inv_frame:
  assumes "bridge_inv b" and "active_pubsub b' = active_pubsub b" and "active_service_bridges b' = active_service_bridges b"
    and "known (executor (shared b')) = known (executor (shared b))"
    and "in_order (executor (shared b)) \<longrightarrow> in_order (executor (shared b'))"
    and "g_shadow_nodes (shared b') = g_shadow_nodes (shared b)" and "shadow_refs (shared b') = shadow_refs (shared b)"
    and "next_shadow (shared b') = next_shadow (shared b)" and "cache_wf b'"
  shows "bridge_inv b'"
proof -
  have "shadow_inv (shadow_holder b') (shared b') = shadow_inv (shadow_holder b) (shared b)"
    unfolding holder_frame [OF assms(3)] shadow_inv_def using assms(6-8) by simp
  moreover have "items_ok b' = items_ok b" using assms(3) by (simp add: items_ok_def)
  ultimately show ?thesis using assms(1,4,5,9) group_of_frame [OF assms(2,3)] by (simp add: bridge_inv_def)
qed

lemma cache_wf_cong: "request_cache b' = request_cache b \<Longrightarrow> cache_wf b' = cache_wf b"
  by (simp add: cache_wf_def)

text \<open>A bridge appears, a bridge goes.\<close>

lemma activate_inv:
  assumes inv: "bridge_inv b" and none: "map_of (active_pubsub b d) t = None"
    and fresh: "\<And>g. pb_group r = Some g \<Longrightarrow> g \<notin> known (executor (shared b))"
  shows "bridge_inv (activate w d t r b)"
proof -
  let ?b = "activate w d t r b" and ?x = "executor (shared b)"
  have x: "executor (shared ?b) = start_group (pb_group r) ?x"
    by (simp add: activate_def on_executor_def Let_def set_active_def update_ros2_num_def issue_def)
  have g: "group_of ?b = (group_of b)(Pubsub d t := pb_group r)"
    by (auto simp: group_of_def fun_eq_iff update_conv' split: owner.split)
  have s: "in_order (start_group (pb_group r) ?x) \<and> known (start_group (pb_group r) ?x) = known ?x \<union> set_option (pb_group r)"
    using inv fresh by (intro start_group_adds) (auto simp: bridge_inv_def)
  have "mirrored (group_of ?b) (known ?x \<union> set_option (pb_group r))"
    unfolding g using inv none fresh by (intro mirrored_add) (auto simp: bridge_inv_def group_of_def)
  moreover have "shadow_inv (shadow_holder ?b) (shared ?b)"
  proof -
    have "shared ?b = (shared b)\<lparr>executor := executor (shared ?b)\<rparr>"
      by (simp add: activate_def on_executor_def Let_def set_active_def update_ros2_num_def issue_def)
    then show ?thesis using inv holder_frame [of ?b b] by (metis activate_frame(4) bridge_inv_def shadow_inv_executor)
  qed
  moreover have "items_ok ?b" using inv by (simp add: bridge_inv_def items_ok_def)
  moreover have "cache_wf ?b" using inv cache_wf_cong [of ?b b] by (simp add: bridge_inv_def)
  ultimately show ?thesis using s x by (simp add: bridge_inv_def)
qed

lemma end_bridge_inv:
  assumes inv: "bridge_inv b" and r: "map_of (active_pubsub b d) t = Some r"
  shows "bridge_inv (end_bridge d t r b)"
proof -
  let ?b = "end_bridge d t r b" and ?x = "executor (shared b)"
  have x: "executor (shared ?b) = end_group (pb_group r) ?x"
    by (simp add: end_bridge_def on_executor_def Let_def set_active_def)
  have act: "active_pubsub ?b = (active_pubsub b)(d := AList.delete t (active_pubsub b d))"
    and srv: "active_service_bridges ?b = active_service_bridges b" and rc: "request_cache ?b = request_cache b"
    by (simp_all add: end_bridge_def Let_def)
  have g: "group_of ?b = (group_of b)(Pubsub d t := None)"
    by (auto simp: group_of_def fun_eq_iff act srv delete_conv' split: owner.split)
  have o': "group_of b (Pubsub d t) = pb_group r" using r by (simp add: group_of_def)
  have mir: "mirrored (group_of b) (known ?x)" using inv by (simp add: bridge_inv_def)
  have s: "in_order (end_group (pb_group r) ?x) \<and> known (end_group (pb_group r) ?x) = known ?x - set_option (pb_group r)"
    using inv mirrored_owned [OF mir, of "Pubsub d t"] o' by (intro end_group_removes) (auto simp: bridge_inv_def)
  have "mirrored (group_of ?b) (known ?x - set_option (pb_group r))"
    unfolding g using mirrored_clear [OF mir, of "Pubsub d t"] o' by simp
  moreover have "shadow_inv (shadow_holder ?b) (shared ?b)"
  proof -
    have "shared ?b = (shared b)\<lparr>executor := executor (shared ?b)\<rparr>"
      by (simp add: end_bridge_def on_executor_def Let_def set_active_def)
    then show ?thesis using inv holder_frame [OF srv] by (metis bridge_inv_def shadow_inv_executor)
  qed
  moreover have "items_ok ?b" using inv srv by (simp add: bridge_inv_def items_ok_def)
  moreover have "cache_wf ?b" using inv cache_wf_cong [OF rc] by (simp add: bridge_inv_def)
  ultimately show ?thesis using s x by (simp add: bridge_inv_def)
qed


section \<open>Steps on bridges of topics\<close>

lemma create_if_needed_inv:
  assumes inv: "bridge_inv b" and fresh: "fresh_pubsub (obs W_load) (executor (shared b))"
    and c: "create_pubsub_bridge_if_needed m obs t rs ty d b = (rs', b')"
  shows "bridge_inv b' \<and> request_cache b' = request_cache b \<and> (rs' = rs \<or> (\<exists>i. rs' = AList.delete i rs))"
proof -
  have "b' = b \<or> (\<exists>q r. map_of (active_pubsub b d) t = None \<and> os_load_pubsub (obs W_load) d t ty q = Pubsub_returned r \<and>
      b' = activate (obs W_update) d t r b)"
    using c by (auto simp: create_pubsub_bridge_if_needed_def should_create_pubsub_bridge_def
        split: if_splits option.splits pubsub_result.splits)
  then have "bridge_inv b' \<and> request_cache b' = request_cache b"
    using inv fresh by (auto simp: fresh_pubsub_def intro!: activate_inv)
  moreover have "rs' = rs \<or> (\<exists>i. rs' = AList.delete i rs)"
    using c by (auto simp: create_pubsub_bridge_if_needed_def split: if_splits option.splits pubsub_result.splits)
  ultimately show ?thesis by blast
qed

lemma create_if_needed_distinct:
  "bridge_inv b \<Longrightarrow> fresh_pubsub (obs W_load) (executor (shared b)) \<Longrightarrow>
   create_pubsub_bridge_if_needed m obs t rs ty d b = (rs', b') \<Longrightarrow> distinct (map fst rs) \<Longrightarrow> distinct (map fst rs')"
  using create_if_needed_inv [of b obs m t rs ty d rs' b'] by (auto intro: distinct_delete)

text \<open>The requests of a topic are replaced.\<close>

lemma set_cache_inv:
  assumes inv: "bridge_inv b" and rc: "distinct (map fst rc)"
    and rs: "\<And>t rs. map_of rc t = Some rs \<Longrightarrow> distinct (map fst rs)"
  shows "bridge_inv (b\<lparr>request_cache := rc\<rparr>)"
  by (rule bridge_inv_frame [OF inv]) (use rc rs in \<open>simp_all add: cache_wf_def\<close>)

lemma update_cache_inv:
  assumes inv: "bridge_inv b" and rs: "distinct (map fst rs)"
  shows "bridge_inv (b\<lparr>request_cache := AList.update t rs (request_cache b)\<rparr>)"
  using inv rs
  by (intro set_cache_inv)
    (auto simp: bridge_inv_def cache_wf_def distinct_update update_conv' split: if_splits)

lemma set_requests_inv:
  assumes inv: "bridge_inv b" and rs: "distinct (map fst rs)"
  shows "bridge_inv (set_requests t rs b)"
proof (cases "rs = []")
  case True
  then show ?thesis using inv unfolding set_requests_def
    by (intro set_cache_inv)
      (auto simp: bridge_inv_def cache_wf_def delete_conv' intro: distinct_delete split: if_splits)
next
  case False
  then show ?thesis using update_cache_inv [OF inv rs] by (simp add: set_requests_def)
qed

lemma cached_distinct: "bridge_inv b \<Longrightarrow> map_of (request_cache b) t = Some rs \<Longrightarrow> distinct (map fst rs)"
  by (simp add: bridge_inv_def cache_wf_def)

lemma create_for_topic_inv:
  assumes inv: "bridge_inv b" and fresh: "fresh_pubsub (obs ROS2_TO_AGNOCAST W_load) (executor (shared b))"
    and again: "\<And>rs ty rs' b'. create_pubsub_bridge_if_needed m (obs ROS2_TO_AGNOCAST) t rs ty ROS2_TO_AGNOCAST b = (rs', b') \<Longrightarrow>
       fresh_pubsub (obs AGNOCAST_TO_ROS2 W_load) (executor (shared b'))"
  shows "bridge_inv (create_for_topic m obs t b)"
proof (cases "map_of (request_cache b) t")
  case (Some rs)
  show ?thesis
  proof (cases rs)
    case Nil
    then show ?thesis using Some set_requests_inv [OF inv, of "[]"] by (simp add: create_for_topic_def)
  next
    case (Cons r rt)
    let ?ty = "pr_message_type (snd r)"
    obtain rs1 b1 where 1: "create_pubsub_bridge_if_needed m (obs ROS2_TO_AGNOCAST) t rs ?ty ROS2_TO_AGNOCAST b = (rs1, b1)"
      by (cases "create_pubsub_bridge_if_needed m (obs ROS2_TO_AGNOCAST) t rs ?ty ROS2_TO_AGNOCAST b") auto
    obtain rs2 b2 where 2: "create_pubsub_bridge_if_needed m (obs AGNOCAST_TO_ROS2) t rs1 ?ty AGNOCAST_TO_ROS2 b1 = (rs2, b2)"
      by (cases "create_pubsub_bridge_if_needed m (obs AGNOCAST_TO_ROS2) t rs1 ?ty AGNOCAST_TO_ROS2 b1") auto
    have i1: "bridge_inv b1" using create_if_needed_inv [OF inv fresh 1] by blast
    have i2: "bridge_inv b2" using create_if_needed_inv [OF i1 again [OF 1] 2] by blast
    have "distinct (map fst rs1)" using create_if_needed_distinct [OF inv fresh 1] cached_distinct [OF inv Some] by blast
    then have "distinct (map fst rs2)" using create_if_needed_distinct [OF i1 again [OF 1] 2] by blast
    then have "bridge_inv (set_requests t rs2 b2)" by (rule set_requests_inv [OF i2])
    then show ?thesis using Some Cons 1 2 by (simp add: create_for_topic_def)
  qed
qed (use inv in \<open>simp add: create_for_topic_def\<close>)

lemma force_topic_inv:
  assumes inv: "bridge_inv b" and fresh: "fresh_pubsub (obs W_load) (executor (shared b))"
  shows "bridge_inv (force_topic m obs d t b)"
proof -
  have "bridge_inv (b\<lparr>daemon_forced_pubsub := f\<rparr>)" for f
    by (rule bridge_inv_frame [OF inv]) (use inv cache_wf_cong [of "b\<lparr>daemon_forced_pubsub := f\<rparr>" b] in \<open>simp_all add: bridge_inv_def\<close>)
  moreover have "map_of (active_pubsub b d) t = None \<Longrightarrow> bridge_inv (activate_daemon_forced_bridge obs t f d b)" for f
    using inv fresh by (auto simp: activate_daemon_forced_bridge_def fresh_pubsub_def intro!: activate_inv
        split: pubsub_result.split)
  ultimately show ?thesis using inv by (auto simp: force_topic_def split: option.split)
qed

lemma issue_inv: "bridge_inv b \<Longrightarrow> bridge_inv (issue c b)"
  using cache_wf_cong [of "issue c b" b] by (rule_tac bridge_inv_frame) (simp_all add: bridge_inv_def)

lemma on_executor_inv:
  assumes inv: "bridge_inv b" and f: "known (f (executor (shared b))) = known (executor (shared b)) \<and>
    (in_order (executor (shared b)) \<longrightarrow> in_order (f (executor (shared b))))"
  shows "bridge_inv (on_executor f b)"
proof (rule bridge_inv_frame [OF inv])
  show "cache_wf (on_executor f b)" using inv cache_wf_cong [of "on_executor f b" b] by (simp add: bridge_inv_def)
qed (use f in \<open>simp_all add: on_executor_def\<close>)

lemma request_shutdown_inv: "bridge_inv b \<Longrightarrow> bridge_inv (request_shutdown b)"
proof -
  assume inv: "bridge_inv b"
  have "bridge_inv (b\<lparr>shutdown_requested := True\<rparr>)"
    by (rule bridge_inv_frame [OF inv]) (use inv cache_wf_cong [of "b\<lparr>shutdown_requested := True\<rparr>" b] in \<open>simp_all add: bridge_inv_def\<close>)
  then show ?thesis unfolding request_shutdown_def using cancel_known by (intro on_executor_inv) auto
qed

lemma sweep_topic_inv: "bridge_inv b \<Longrightarrow> bridge_inv (snd (sweep_topic m obs d t b))"
  by (auto simp: sweep_topic_def update_ros2_num_def intro!: request_shutdown_inv issue_inv end_bridge_inv split: option.split)

lemma remove_cache_inv:
  assumes inv: "bridge_inv b"
  shows "bridge_inv (check_and_remove_request_cache m cobs b)"
proof -
  have wf: "distinct (map fst (request_cache b))" using inv by (simp add: bridge_inv_def cache_wf_def)
  let ?f = "\<lambda>e. (fst e, remove_invalid_requests m (cobs (fst e)) (fst e) (snd e))"
  have d: "distinct (map fst (filter (\<lambda>e. snd e \<noteq> []) (map ?f (request_cache b))))"
    using wf by (intro distinct_map_filter) (simp add: comp_def)
  show ?thesis unfolding check_and_remove_request_cache_def
  proof (rule set_cache_inv [OF inv d])
    fix t rs assume "map_of (filter (\<lambda>e. snd e \<noteq> []) (map ?f (request_cache b))) t = Some rs"
    then obtain rs0 where "(t, rs0) \<in> set (request_cache b)" and rs: "rs = remove_invalid_requests m (cobs t) t rs0"
      by (auto dest!: map_of_SomeD)
    then have "distinct (map fst rs0)" using cached_distinct [OF inv, of t rs0] wf by simp
    then show "distinct (map fst rs)" unfolding rs remove_invalid_requests_def by (rule distinct_map_filter)
  qed
qed

section \<open>Steps on service bridges\<close>

text \<open>What an item of the map contributes.\<close>

definition with_item :: "bmanager \<Rightarrow> string \<Rightarrow> service_item option \<Rightarrow> bmanager \<Rightarrow> bool" where
  "with_item b n v b' \<longleftrightarrow> map_of (active_service_bridges b') = (map_of (active_service_bridges b))(n := v) \<and>
     active_pubsub b' = active_pubsub b \<and> request_cache b' = request_cache b"

lemma with_item_groups:
  "with_item b n v b' \<Longrightarrow> group_of b' = (group_of b)(Srv n := Option.bind v (\<lambda>it. srv_cb_group (entity it)),
     Cli n := Option.bind v (\<lambda>it. client_cb_group (entity it)))"
  by (auto simp: with_item_def group_of_def fun_eq_iff split: owner.split)

lemma with_item_holder:
  "with_item b n v b' \<Longrightarrow> shadow_holder b' = (shadow_holder b)(n := Option.bind v item_shadow)"
  by (auto simp: with_item_def shadow_holder_def fun_eq_iff)

lemma with_item_inv:
  assumes inv: "bridge_inv b" and w: "with_item b n v b'" and ok: "\<And>it. v = Some it \<Longrightarrow> item_ok it"
    and x: "in_order (executor (shared b'))"
    and g: "mirrored ((group_of b)(Srv n := Option.bind v (\<lambda>it. srv_cb_group (entity it)),
        Cli n := Option.bind v (\<lambda>it. client_cb_group (entity it)))) (known (executor (shared b')))"
    and s: "shadow_inv ((shadow_holder b)(n := Option.bind v item_shadow)) (shared b')"
  shows "bridge_inv b'"
proof -
  have "items_ok b'" using inv w ok by (auto simp: bridge_inv_def items_ok_def with_item_def)
  moreover have "cache_wf b'" using inv w cache_wf_cong [of b' b] by (simp add: bridge_inv_def with_item_def)
  ultimately show ?thesis using x g s with_item_groups [OF w] with_item_holder [OF w] by (simp add: bridge_inv_def)
qed

text \<open>An item that keeps its bridge and its shadow node.\<close>

lemma with_item_same:
  assumes inv: "bridge_inv b" and w: "with_item b n (Some it') b'" and sh: "shared b' = shared b" and ok: "item_ok it'"
    and e: "entity it' = (case map_of (active_service_bridges b) n of None \<Rightarrow> no_entity | Some it \<Rightarrow> entity it)"
    and i: "item_shadow it' = Option.bind (map_of (active_service_bridges b) n) item_shadow"
  shows "bridge_inv b'"
proof (rule with_item_inv [OF inv w])
  have "group_of b (Srv n) = srv_cb_group (entity it')" "group_of b (Cli n) = client_cb_group (entity it')"
    using e by (auto simp: group_of_def no_entity_def split: option.splits)
  then have "(group_of b)(Srv n := srv_cb_group (entity it'), Cli n := client_cb_group (entity it')) = group_of b"
    by (simp add: fun_eq_iff)
  then show "mirrored ((group_of b)(Srv n := Option.bind (Some it') (\<lambda>it. srv_cb_group (entity it)),
        Cli n := Option.bind (Some it') (\<lambda>it. client_cb_group (entity it)))) (known (executor (shared b')))"
    using inv sh by (simp add: bridge_inv_def)
  have "(shadow_holder b)(n := item_shadow it') = shadow_holder b" using i by (simp add: shadow_holder_def fun_eq_iff)
  then show "shadow_inv ((shadow_holder b)(n := Option.bind (Some it') item_shadow)) (shared b')"
    using inv sh by (simp add: bridge_inv_def)
qed (use inv sh ok in \<open>auto simp: bridge_inv_def\<close>)

lemma handle_request_item:
  "item_ok it \<or> it = new_item \<Longrightarrow> item_ok (handle_request p it) \<and> entity (handle_request p it) = entity it \<and>
   item_shadow (handle_request p it) = item_shadow it"
  by (cases "rq_direction p"; cases "shadow_node it"; cases "shadow_node_identity it")
    (auto simp: handle_request_def update_configuration_def item_ok_def item_shadow_def new_item_def Let_def)

lemma map_of_append_new: "map_of (AList.delete n xs @ [(n, v)]) = (map_of xs)(n \<mapsto> v)"
  by (simp add: fun_eq_iff map_add_def delete_conv' split: option.split)

lemma dispatch_inv:
  assumes inv: "bridge_inv b" and fresh: "fresh_pubsub (obs W_load) (executor (shared b))"
  shows "bridge_inv (dispatch_bridge_message m obs msg b)"
proof (cases msg)
  case (Msg_PubSub p)
  let ?rs = "AList.update (pr_target_id p) p (case map_of (request_cache b) (pr_topic_name p) of None \<Rightarrow> [] | Some rs \<Rightarrow> rs)"
  obtain rs' b' where c: "create_pubsub_bridge_if_needed m obs (pr_topic_name p) ?rs (pr_message_type p) (pr_direction p) b = (rs', b')"
    by (cases "create_pubsub_bridge_if_needed m obs (pr_topic_name p) ?rs (pr_message_type p) (pr_direction p) b") auto
  have "distinct (map fst ?rs)"
    using cached_distinct [OF inv, of "pr_topic_name p"] by (auto intro!: distinct_update split: option.split)
  then have "distinct (map fst rs')" using create_if_needed_distinct [OF inv fresh c] by blast
  moreover have "bridge_inv b'" using create_if_needed_inv [OF inv fresh c] by blast
  ultimately show ?thesis using c Msg_PubSub update_cache_inv [of b' rs' "pr_topic_name p"]
    by (simp add: dispatch_bridge_message_def Let_def)
next
  case (Msg_Service p)
  let ?n = "rq_service_name p"
  let ?it = "case map_of (active_service_bridges b) ?n of None \<Rightarrow> new_item | Some it \<Rightarrow> it"
  have it: "item_ok ?it \<or> ?it = new_item" using inv by (auto simp: bridge_inv_def items_ok_def split: option.split)
  show ?thesis
  proof (rule with_item_same [OF inv])
    show "with_item b ?n (Some (handle_request p ?it)) (dispatch_bridge_message m obs msg b)"
      unfolding dispatch_bridge_message_def Msg_Service Let_def with_item_def
      by (simp del: map_of_append add: map_of_append_new)
  qed (use handle_request_item [OF it, of p] Msg_Service in
      \<open>auto simp: dispatch_bridge_message_def new_item_def item_shadow_def Let_def split: option.splits\<close>)
next
  case (Msg_DaemonPubSub r)
  show ?thesis
    by (rule bridge_inv_frame [OF inv])
      (use inv Msg_DaemonPubSub in \<open>simp_all add: dispatch_bridge_message_def register_daemon_pubsub_request_def bridge_inv_def cache_wf_def\<close>)
next
  case (Msg_DaemonService n)
  show ?thesis
  proof (cases "map_of (active_service_bridges b) n")
    case (Some it)
    let ?it = "handle_daemon_request (os_now (obs W_clock)) it"
    have ok: "item_ok it" using inv Some by (auto simp: bridge_inv_def items_ok_def)
    show ?thesis
      by (rule with_item_same [OF inv, of n ?it])
        (use Some Msg_DaemonService ok in \<open>simp_all add: with_item_def dispatch_bridge_message_def register_daemon_service_request_def
            handle_daemon_request_def item_ok_def item_shadow_def update_conv'\<close>)
  qed (use inv Msg_DaemonService in \<open>simp add: dispatch_bridge_message_def register_daemon_service_request_def\<close>)
qed

text \<open>A tick: the item stays as it is, is dropped, starts its bridge or ends it.\<close>

lemma no_groups: "entity it = no_entity \<Longrightarrow> srv_cb_group (entity it) = None \<and> client_cb_group (entity it) = None"
  by (simp add: no_entity_def)

lemma tick_service_inv:
  assumes inv: "bridge_inv b" and fresh: "fresh_service (obs At_start_load) (executor (shared b))"
  shows "bridge_inv (tick_service m obs n b)"
proof (cases "map_of (active_service_bridges b) n")
  case (Some it)
  obtain it' c' where t: "check_and_update (manager_id.truncate m) obs it (shared b) = (it', c')"
    by (cases "check_and_update (manager_id.truncate m) obs it (shared b)") auto
  let ?b' = "tick_service m obs n b"
  let ?x = "executor (shared b)"
  let ?v = "if si_state it' = NONE then None else Some it'"
  have ok: "item_ok it" using inv Some by (auto simp: bridge_inv_def items_ok_def)
  have sh: "shadow_inv (shadow_holder b) (shared b)" and h: "shadow_holder b n = item_shadow it"
    using inv Some by (simp_all add: bridge_inv_def shadow_holder_def)
  have x: "in_order ?x" and mir: "mirrored (group_of b) (known ?x)" using inv by (simp_all add: bridge_inv_def)
  have w: "with_item b n ?v ?b'" and c': "shared ?b' = c'"
    using Some t by (auto simp: tick_service_def with_item_def update_conv' delete_conv')
  have own: "group_of b (Srv n) = srv_cb_group (entity it)" "group_of b (Cli n) = client_cb_group (entity it)"
    using Some by (simp_all add: group_of_def)
  have idle: "(group_of b)(Srv n := srv_cb_group (entity it), Cli n := client_cb_group (entity it)) = group_of b"
    using own by (simp add: fun_eq_iff)
  obtain it1 c1 where s1: "shadow_inv ((shadow_holder b)(n := item_shadow it1)) c1" and x1: "executor c1 = ?x"
    and e1: "entity it1 = entity it" and id1: "shadow_node it1 \<noteq> None \<longrightarrow> shadow_node_identity it1 \<noteq> None"
    and r: "it' = it1 \<and> c' = c1 \<and> si_state it1 = si_state it \<or>
     it' = it1\<lparr>si_state := NONE\<rparr> \<and> c' = c1 \<and> si_state it = PENDING \<and> shadow_node it1 = None \<or>
     si_state it = PENDING \<and> started (obs At_start_load) it1 it' c1 c' \<or>
     it1 = it \<and> c1 = shared b \<and> (it', c') = end_entity it (shared b)"
    using tick_cases [OF t ok sh h] by metis
  from r consider (keep) "it' = it1" "c' = c1" "si_state it1 = si_state it"
    | (drop) "it' = it1\<lparr>si_state := NONE\<rparr>" "c' = c1" "si_state it = PENDING" "shadow_node it1 = None"
    | (start) "si_state it = PENDING" "started (obs At_start_load) it1 it' c1 c'"
    | (over) "it1 = it" "c1 = shared b" "(it', c') = end_entity it (shared b)" by metis
  then show ?thesis
  proof cases
    case keep
    then have "si_state it' \<noteq> NONE" and "item_ok it'" using ok id1 e1 by (auto simp: item_ok_def)
    then show ?thesis using keep x x1 mir s1 e1 idle c' by (intro with_item_inv [OF inv w]) auto
  next
    case drop
    then have "entity it = no_entity" using ok by (simp add: item_ok_def)
    then show ?thesis using drop x x1 mir s1 idle c' no_groups [of it]
      by (intro with_item_inv [OF inv w]) (auto simp: item_shadow_def)
  next
    case start
    then obtain d s ty q nm e where l: "os_load_service (obs At_start_load) d nm ty q = Loader_returned e"
      and s: "s \<in> {A2R, R2A}" and it': "(it', c') = start_entity s e it1 c1"
      unfolding started_def by blast
    let ?x1 = "start_group (srv_cb_group e) ?x"
    have f: "\<And>g. srv_cb_group e = Some g \<Longrightarrow> g \<notin> known ?x \<and> client_cb_group e \<noteq> Some g"
      "\<And>g. client_cb_group e = Some g \<Longrightarrow> g \<notin> known ?x" using fresh l unfolding fresh_service_def by blast+
    have one: "in_order ?x1 \<and> known ?x1 = known ?x \<union> set_option (srv_cb_group e)"
      using f x by (intro start_group_adds) auto
    have f2: "g \<notin> known ?x1" if "client_cb_group e = Some g" for g
      using f [of g] that one by (cases "srv_cb_group e") auto
    have two: "in_order (executor c') \<and> known (executor c') = known ?x1 \<union> set_option (client_cb_group e)"
      using it' x1 start_group_adds [of ?x1 "client_cb_group e"] one f2 by (simp add: start_entity_def)
    have free: "group_of b (Srv n) = None" "group_of b (Cli n) = None"
      using own no_groups [of it] ok start by (simp_all add: item_ok_def)
    have m1: "mirrored ((group_of b)(Srv n := srv_cb_group e)) (known ?x1)"
      using mirrored_add [OF mir free(1), of "srv_cb_group e"] f one by simp
    have m2: "mirrored ((group_of b)(Srv n := srv_cb_group e, Cli n := client_cb_group e)) (known (executor c'))"
      using mirrored_add [OF m1, of "Cli n" "client_cb_group e"] f2 free two by simp
    have i: "si_state it' = s" "entity it' = e" "item_shadow it' = item_shadow it1" "shadow_node it' = shadow_node it1"
      "shadow_node_identity it' = shadow_node_identity it1" "c' = c1\<lparr>executor := executor c'\<rparr>"
      using it' by (auto simp: start_entity_def item_shadow_def)
    have "shadow_inv ((shadow_holder b)(n := item_shadow it')) c'" using s1 i(3,6) by (metis shadow_inv_executor)
    moreover have "item_ok it'" using i s id1 by (auto simp: item_ok_def)
    ultimately show ?thesis using m2 two i s c' by (intro with_item_inv [OF inv w]) (auto simp: item_ok_def)
  next
    case over
    let ?x1 = "end_group (srv_cb_group (entity it)) ?x"
    have one: "in_order ?x1 \<and> known ?x1 = known ?x - set_option (srv_cb_group (entity it))"
      using end_group_removes [OF x] mirrored_owned [OF mir, of "Srv n"] own by simp
    have m1: "mirrored ((group_of b)(Srv n := None)) (known ?x1)"
      using mirrored_clear [OF mir, of "Srv n"] own one by simp
    have two: "in_order (executor c') \<and> known (executor c') = known ?x1 - set_option (client_cb_group (entity it))"
      using over(3) end_group_removes [of ?x1 "client_cb_group (entity it)"] one mirrored_owned [OF m1, of "Cli n"] own
      by (simp add: end_entity_def)
    have m2: "mirrored ((group_of b)(Srv n := None, Cli n := None)) (known (executor c'))"
      using mirrored_clear [OF m1, of "Cli n"] own two by simp
    have i: "si_state it' = PENDING" "entity it' = no_entity" "item_shadow it' = item_shadow it" "shadow_node it' = shadow_node it"
      "shadow_node_identity it' = shadow_node_identity it" "c' = c1\<lparr>executor := executor c'\<rparr>"
      using over(2,3) by (auto simp: end_entity_def item_shadow_def)
    have "shadow_inv ((shadow_holder b)(n := item_shadow it')) c'" using s1 i(3,6) over(1) by (metis shadow_inv_executor)
    then show ?thesis using m2 two i c' ok by (intro with_item_inv [OF inv w]) (auto simp: item_ok_def no_entity_def)
  qed
qed (use inv in \<open>simp add: tick_service_def\<close>)

section \<open>Every step\<close>

lemma queue_inv: "bridge_inv b \<Longrightarrow> bridge_inv (b\<lparr>pending_msgs := ms\<rparr>)"
  using cache_wf_cong [of "b\<lparr>pending_msgs := ms\<rparr>" b] by (rule_tac bridge_inv_frame) (simp_all add: bridge_inv_def)

lemma mstep_inv: "mstep m b b' \<Longrightarrow> bridge_inv b \<Longrightarrow> bridge_inv b'"
proof (induction rule: mstep.induct)
  case (Enqueue b msg)
  then show ?case by (simp add: enqueue_def queue_inv)
next
  case (Take_batch b)
  then show ?case by (rule queue_inv)
next
  case (Ask w b)
  then show ?case by (auto simp: check_and_request_shutdown_def Let_def intro: request_shutdown_inv issue_inv)
next
  case (Executor auto b x)
  then show ?case using executor_work by (intro on_executor_inv) auto
next
  case (Spin b)
  then show ?case using spin_known by (intro on_executor_inv) auto
next
  case (Joined t b)
  then show ?case by (intro on_executor_inv) (auto simp: known_def in_order_def)
next
  case (Context_down b)
  then show ?case by (intro on_executor_inv) (auto simp: known_def in_order_def)
next
  case (Groups b ng f G)
  then show ?case by (intro on_executor_inv) (auto simp: known_def in_order_def)
qed (blast intro: dispatch_inv create_for_topic_inv force_topic_inv sweep_topic_inv tick_service_inv
    remove_cache_inv request_shutdown_inv)+

lemma mreach_inv: "mreach m b \<Longrightarrow> bridge_inv b"
  by (induction rule: mreach.induct) (auto intro: bridge_inv_start mstep_inv)

end
