(* ===== verification/Bridge_Theorems.thy ===== *)
theory Bridge_Theorems
  imports Bridge_Invariant
begin

text \<open>
  What the invariant of the bridge manager gives: who owns the callback groups of the executor, what the table
  of shadow nodes holds, and which bridges are there after a turn of the worker.
\<close>

section \<open>A small world\<close>

abbreviation demo_topic :: string where "demo_topic \<equiv> create_service_request_topic_name ''/s''"

definition demo_graph :: "(string \<times> string) list \<Rightarrow> graph" where
  "demo_graph infos = \<lparr>os_kernel = demo_kernel [demo_bridge_sub\<lparr>sub_pid := 60, sub_is_bridge := False\<rparr>] [],
     os_allocs = [], os_copied = True, os_publisher_num_ok = True, os_count_services = (\<lambda>_. Some 0),
     os_count_clients = (\<lambda>_. Some 0), os_now = 0, os_rcl_arguments_ok = True, os_rcl_node_ok = True,
     os_load_service = (\<lambda>_ _ _ _. Loader_threw), os_subscriber_num_ok = True, os_publishers_info = (\<lambda>_. infos),
     os_subscriptions_info = (\<lambda>_. []), os_count_publishers = (\<lambda>_. 1), os_count_subscribers = (\<lambda>_. 0),
     os_load_pubsub = (\<lambda>_ _ _ _. Pubsub_returned \<lparr>pb_handle = Some 5, pb_group = Some 21\<rparr>),
     os_should_shutdown = Some False\<rparr>"

definition demo_m :: manager where
  "demo_m = \<lparr>mg_pid = 50, mg_ns = 0, mg_domain = 0, mg_node = (''bridge'', ''/'')\<rparr>"

abbreviation external :: "(string \<times> string) list" where "external \<equiv> [(''talker'', ''/'')]"

definition demo_start :: bmanager where
  "demo_start = init_bmanager start_ros_execution"

definition demo_request :: bridge_msg where
  "demo_request = Msg_PubSub \<lparr>pr_message_type = ''T'', pr_topic_name = demo_topic, pr_target_id = 1,
     pr_direction = ROS2_TO_AGNOCAST\<rparr>"

definition demo_requested :: "(string \<times> string) list \<Rightarrow> bmanager" where
  "demo_requested infos = dispatch_bridge_message demo_m (\<lambda>_. demo_graph infos) demo_request demo_start"

lemma demo_nothing_known: "known (executor (shared demo_start)) = {}"
  by (simp add: demo_start_def init_bmanager_def start_ros_execution_def add_node_def init_cie_def known_def)

lemma bridge_demo_reach: "mreach demo_m (demo_requested infos)"
proof -
  have "mreach demo_m demo_start" unfolding demo_start_def by (rule mreach.Start)
  moreover have "mstep demo_m demo_start (demo_requested infos)" unfolding demo_requested_def
    by (rule mstep.Dispatch) (simp add: fresh_pubsub_def demo_nothing_known)
  ultimately show ?thesis by (rule mreach.Step)
qed

lemma demo_graph_facts:
  "has_endpoint demo_m (demo_graph infos) ROS2_TO_AGNOCAST demo_topic"
  "endpoint_count demo_m (demo_graph infos) d t \<noteq> None"
  "is_demanded_by_ros2 demo_m (demo_graph infos) ROS2_TO_AGNOCAST demo_topic \<longleftrightarrow> has_external (''bridge'', ''/'') infos"
  "endpoint_qos demo_m (demo_graph infos) ROS2_TO_AGNOCAST demo_topic 1 \<noteq> None"
  by (simp_all add: has_endpoint_def endpoint_count_def demo_m_def demo_graph_def demo_service
      get_agnocast_subscriber_count_def get_agnocast_publisher_count_def agnocast_ioctl_get_subscriber_num_def
      find_topic_for_current_def find_topic_def topic_of_def get_process_domain_id_def agnocast_find_process_info_def
      find_key_def find_subscriber_info_def no_subscriber_num_def manager_id.truncate_def is_demanded_by_ros2_def endpoint_qos_def get_subscriber_qos_def agnocast_ioctl_get_subscriber_qos_def
      Let_def split: bridge_direction.split)

lemma demo_creates:
  "creates demo_m (demo_graph external) ROS2_TO_AGNOCAST demo_topic [(1, p\<lparr>pr_direction := ROS2_TO_AGNOCAST\<rparr>)] ty"
proof -
  obtain q where "endpoint_qos demo_m (demo_graph external) ROS2_TO_AGNOCAST demo_topic 1 = Some q"
    using demo_graph_facts(4) by blast
  then show ?thesis using demo_graph_facts(1)
    by (simp add: creates_def obtainable_def qos_source_def demo_graph_facts(3) has_external_def) (simp add: demo_graph_def)
qed

lemma demo_idle:
  "active_pubsub (demo_requested []) d = []"
  "request_cache (demo_requested []) = [(demo_topic, [(1, \<lparr>pr_message_type = ''T'', pr_topic_name = demo_topic,
     pr_target_id = 1, pr_direction = ROS2_TO_AGNOCAST\<rparr>)])]"
  "pending_msgs (demo_requested []) = []" "\<not> shutdown_requested (demo_requested [])"
  by (simp_all add: demo_requested_def dispatch_bridge_message_def demo_request_def demo_start_def init_bmanager_def
      create_pubsub_bridge_if_needed_def should_create_pubsub_bridge_def demo_graph_facts has_external_def Let_def)

lemma demo_created:
  "create_pubsub_bridge_if_needed demo_m (\<lambda>_. demo_graph external) demo_topic [(1, p\<lparr>pr_direction := ROS2_TO_AGNOCAST\<rparr>)] ''T''
     ROS2_TO_AGNOCAST demo_start =
   ([(1, p\<lparr>pr_direction := ROS2_TO_AGNOCAST\<rparr>)],
    activate (demo_graph external) ROS2_TO_AGNOCAST demo_topic \<lparr>pb_handle = Some 5, pb_group = Some 21\<rparr> demo_start)"
proof -
  obtain q where q: "endpoint_qos demo_m (demo_graph external) ROS2_TO_AGNOCAST demo_topic 1 = Some q"
    using demo_graph_facts(4) by blast
  then show ?thesis using demo_graph_facts(1,3) [of external]
    by (simp add: create_pubsub_bridge_if_needed_def should_create_pubsub_bridge_def qos_source_def has_external_def)
      (simp add: demo_start_def init_bmanager_def demo_graph_def)
qed

lemma demo_bridged: "map_of (active_pubsub (demo_requested external) ROS2_TO_AGNOCAST) demo_topic = Some \<lparr>pb_handle = Some 5, pb_group = Some 21\<rparr>"
proof -
  let ?p = "\<lparr>pr_message_type = ''T'', pr_topic_name = demo_topic, pr_target_id = 1, pr_direction = ROS2_TO_AGNOCAST\<rparr>"
  show ?thesis using demo_created [of ?p]
    by (simp add: demo_requested_def dispatch_bridge_message_def demo_request_def Let_def)
      (simp add: demo_start_def init_bmanager_def)
qed

section \<open>Callback groups\<close>

text \<open>Claim C20. The executor of the bridge manager holds exactly the callback groups of the active bridges, each
  of one bridge, and no operation on it has ended the process, in every interleaving of the worker's bodies with
  the event loop, the executor thread in \<open>spin()\<close> and its children, requests for a shutdown, and changes to the
  container node's own groups: a group is added once, when its bridge starts, and is removed while the
  executor still has it, when its bridge ends. The groups that a loader returns are new.\<close>

theorem groups_mirror_bridges:
  assumes "mreach m b"
  shows "\<not> terminated (executor (shared b)) \<and>
    (\<forall>g. map_of (weak_groups_to_nodes (executor (shared b))) g \<noteq> None \<longleftrightarrow> (\<exists>!x. group_of b x = Some g))"
proof -
  have i: "\<not> terminated (executor (shared b))" "mirrored (group_of b) (known (executor (shared b)))"
    using mreach_inv [OF assms] by (simp_all add: bridge_inv_def in_order_def)
  then show ?thesis unfolding mirrored_iff known_def by blast
qed

section \<open>Shadow nodes\<close>

text \<open>Claim C22. A shadow node is found under an identity exactly when a service item of that identity holds it,
  so nodes with equal identities are shared and no dead node is ever found; its count of references is the
  number of items that hold it.\<close>

theorem shadow_nodes_exact:
  assumes "mreach m b"
  shows "(g_shadow_nodes (shared b) ident = Some n \<longleftrightarrow> (\<exists>x. shadow_holder b x = Some (n, ident))) \<and>
    shadow_refs (shared b) n = card {x. \<exists>ident. shadow_holder b x = Some (n, ident)}"
  using mreach_inv [OF assms] shadow_invD(2,3) unfolding bridge_inv_def by blast

section \<open>Bridges and demand\<close>

text \<open>Claim C21. After a turn of the worker in which the world holds still, a topic has a bridge in a direction
  exactly when somebody needs it (a local endpoint, and an external ROS 2 endpoint or a running lease) and
  it was there before, or a lease or the topic's requests could create it.\<close>

theorem turn_meets_demand:
  assumes "mreach m b" and "\<not> shutdown_requested b" and "pending_msgs b = []"
    and "\<And>d t. endpoint_count m w d t \<noteq> None"
  shows "map_of (active_pubsub (worker_turn m (calm w) b) d) t \<noteq> None \<longleftrightarrow> wanted m w d t b \<and>
    (map_of (active_pubsub b d) t \<noteq> None \<or> leased m w d t b \<or>
     (\<exists>rs. map_of (request_cache b) t = Some rs \<and> creates m w d t rs (first_type rs)))"
proof -
  have "cache_wf b" using mreach_inv [OF assms(1)] by (simp add: bridge_inv_def)
  then show ?thesis by (rule worker_turn_calm) (use assms(2-4) in auto)
qed

section \<open>They apply\<close>

text \<open>After the bridge has been started the executor thread enters \<open>spin()\<close> and collects the group to spawn a child
  for.\<close>

definition demo_spun :: bmanager where
  "demo_spun = on_executor (collect_groups (\<lambda>_. False)) (on_executor (spin_enter Stage1) (demo_requested external))"

lemma demo_requested_executor: "executor (shared (demo_requested external)) = start_group (Some 21) (add_node Stage1 (\<lambda>_. False) 0 init_cie)"
proof -
  let ?p = "\<lparr>pr_message_type = ''T'', pr_topic_name = demo_topic, pr_target_id = 1, pr_direction = ROS2_TO_AGNOCAST\<rparr>"
  have "executor (shared (demo_requested external)) = start_group (Some 21) (executor (shared demo_start))"
    using demo_created [of ?p]
    by (simp add: demo_requested_def dispatch_bridge_message_def demo_request_def Let_def)
      (simp add: demo_start_def init_bmanager_def activate_def issue_def on_executor_def)
  then show ?thesis by (simp add: demo_start_def init_bmanager_def start_ros_execution_def)
qed

lemma demo_spun_reach: "mreach demo_m demo_spun"
proof -
  let ?x = "executor (shared (demo_requested external))" and ?b = "on_executor (spin_enter Stage1) (demo_requested external)"
  have x: "\<not> terminated ?x" "\<not> spinning ?x" "spin_at ?x = Idle"
    by (simp_all add: demo_requested_executor start_group_def add_callback_group_def add_node_def init_cie_def)
  have "mreach demo_m ?b" using x by (intro mreach.Step [OF bridge_demo_reach [of external]] mstep.Spin)
  moreover have e: "executor (shared ?b) = spin_enter Stage1 ?x" by (simp add: on_executor_def)
  have "work_step Stage1 (\<lambda>_. False) (executor (shared ?b)) (collect_groups (\<lambda>_. False) (executor (shared ?b)))"
    unfolding e using x by (intro Collect) (simp_all add: spin_enter_def)
  then have "mstep demo_m ?b (on_executor (\<lambda>_. collect_groups (\<lambda>_. False) (executor (shared ?b))) ?b)" by (rule mstep.Executor)
  moreover have "on_executor (\<lambda>_. f (executor (shared b))) b = on_executor f b" for f b by (simp add: on_executor_def)
  ultimately show ?thesis unfolding demo_spun_def by (metis mreach.Step)
qed

lemma demo_spun_collected: "spin_at (executor (shared demo_spun)) = Collected [21]"
  by (simp add: demo_spun_def on_executor_def demo_requested_executor start_group_def add_callback_group_def add_node_def
      init_cie_def spin_enter_def collect_groups_def live_manual_groups_def live_auto_groups_def)

theorem groups_mirror_bridges_witness:
  "spin_at (executor (shared demo_spun)) = Collected [21] \<and> (\<exists>!x. group_of demo_spun x = Some 21)"
proof -
  have "map_of (weak_groups_to_nodes (executor (shared demo_spun))) 21 \<noteq> None"
    by (simp add: demo_spun_def on_executor_def demo_requested_executor start_group_def add_callback_group_def add_node_def
      init_cie_def spin_enter_def collect_groups_def)
  then show ?thesis using groups_mirror_bridges [OF demo_spun_reach] demo_spun_collected by blast
qed

theorem turn_meets_demand_witness:
  "map_of (active_pubsub (worker_turn demo_m (calm (demo_graph external)) (demo_requested [])) ROS2_TO_AGNOCAST) demo_topic \<noteq> None"
proof -
  have "wanted demo_m (demo_graph external) ROS2_TO_AGNOCAST demo_topic (demo_requested [])"
    by (simp add: wanted_def demo_graph_facts has_external_def)
  moreover have "creates demo_m (demo_graph external) ROS2_TO_AGNOCAST demo_topic
      [(1, \<lparr>pr_message_type = ''T'', pr_topic_name = demo_topic, pr_target_id = 1, pr_direction = ROS2_TO_AGNOCAST\<rparr>)] ty" for ty
    using demo_creates [of "\<lparr>pr_message_type = ''T'', pr_topic_name = demo_topic, pr_target_id = 1, pr_direction = ROS2_TO_AGNOCAST\<rparr>" ty]
    by simp
  ultimately show ?thesis
    using turn_meets_demand [OF bridge_demo_reach demo_idle(4,3) demo_graph_facts(2), of external ROS2_TO_AGNOCAST demo_topic] demo_idle(2)
    by simp
qed

text \<open>A service of the node \<open>/n\<close> is registered, and the next tick acquires its shadow node.\<close>

definition demo_service_request :: bridge_msg where
  "demo_service_request = Msg_Service \<lparr>rq_service_type = ''T'', rq_service_name = ''/s'', rq_create_shadow_node = True,
     rq_direction = ROS2_TO_AGNOCAST, rq_shadow_node_namespace = ''/'', rq_shadow_node_name = ''n''\<rparr>"

definition demo_registered :: bmanager where
  "demo_registered = dispatch_bridge_message demo_m (\<lambda>_. demo_graph []) demo_service_request demo_start"

definition demo_shadowed :: bmanager where
  "demo_shadowed = tick_service demo_m (\<lambda>_. demo_world [demo_bridge_sub] 0) ''/s'' demo_registered"

lemma demo_shadowed_reach: "mreach demo_m demo_shadowed"
proof -
  have "mreach demo_m demo_start" unfolding demo_start_def by (rule mreach.Start)
  moreover have "mstep demo_m demo_start demo_registered" unfolding demo_registered_def
    by (rule mstep.Dispatch) (simp add: fresh_pubsub_def demo_nothing_known)
  ultimately have "mreach demo_m demo_registered" by (rule mreach.Step)
  moreover have "known (executor (shared demo_registered)) = {}"
    using demo_nothing_known by (simp add: demo_registered_def dispatch_bridge_message_def demo_service_request_def Let_def)
  then have "mstep demo_m demo_registered demo_shadowed" unfolding demo_shadowed_def
    by (intro mstep.Service) (simp add: fresh_service_def demo_world_def demo_entity_def)
  ultimately show ?thesis by (rule mreach.Step)
qed

lemma demo_shadow_held: "shadow_holder demo_shadowed ''/s'' = Some (0, (''/'', ''n''))"
proof -
  let ?it = "handle_request \<lparr>rq_service_type = ''T'', rq_service_name = ''/s'', rq_create_shadow_node = True,
     rq_direction = ROS2_TO_AGNOCAST, rq_shadow_node_namespace = ''/'', rq_shadow_node_name = ''n''\<rparr> new_item" and ?sh = start_ros_execution
  have it: "active_service_bridges demo_registered = [(''/s'', ?it)]"
    by (simp add: demo_registered_def dispatch_bridge_message_def demo_service_request_def Let_def)
      (simp add: demo_start_def init_bmanager_def)
  have sh: "shared demo_registered = ?sh"
    by (simp add: demo_registered_def dispatch_bridge_message_def demo_service_request_def Let_def)
      (simp add: demo_start_def init_bmanager_def)
  have m: "manager_id.truncate demo_m = demo_manager" by (simp add: demo_m_def demo_manager_def manager_id.truncate_def)
  have f: "si_state ?it = PENDING" "may_start_r2a_bridge ?it" "service_name ?it = ''/s''" "r2a_forced_until ?it = None"
    "shadow_node ?it = None" "shadow_node_identity ?it = Some (''/'', ''n'')"
    by (simp_all add: handle_request_def update_configuration_def new_item_def Let_def)
  obtain c1 where a: "acquire_shadow_node (demo_world [demo_bridge_sub] 0) ?it ?sh = (True, ?it\<lparr>shadow_node := Some 0\<rparr>, c1)"
    using f by (simp add: acquire_shadow_node_def find_or_create_shadow_node_def start_ros_execution_def demo_world_def Let_def)
  have "\<not> r2a_forced (demo_world [demo_bridge_sub] 0) (?it\<lparr>shadow_node := Some 0\<rparr>)" using f by (simp add: r2a_forced_def)
  then have "check_and_update demo_manager (\<lambda>_. demo_world [demo_bridge_sub] 0) ?it ?sh = (?it\<lparr>shadow_node := Some 0\<rparr>, c1)"
    using f demo_answers(1,5) a by (simp add: check_and_update_def check_and_update_pending_def)
  then show ?thesis using it sh m f
    by (simp add: demo_shadowed_def tick_service_def shadow_holder_def item_shadow_def split: prod.split)
qed

theorem shadow_nodes_exact_witness:
  "g_shadow_nodes (shared demo_shadowed) (''/'', ''n'') = Some 0 \<and>
   shadow_refs (shared demo_shadowed) 0 = card {x. \<exists>ident. shadow_holder demo_shadowed x = Some (0, ident)}"
  using shadow_nodes_exact [OF demo_shadowed_reach, of "(''/'', ''n'')" 0] demo_shadow_held by blast

end
