(* ===== verification/Cie_Node.thy ===== *)
theory Cie_Node
  imports Cie_Yaml Ordered_Map
begin

text \<open>
  The thread configurator node (\<open>thread_configurator_node.cpp\<close>): it applies scheduling attributes to threads
  when they announce themselves, to kernel threads and interrupts that a scan finds, and all of it again
  when the configuration is reloaded.

  Callback groups are announced on the thread of the executor, which also runs the reapply handler; threads
  outside ROS are announced on the listener's own thread, between any two phases of the handler.

  Whether a system call succeeds is a parameter, a function of the calls before it. What the scans of
  \<open>/proc\<close> and \<open>/sys\<close> find is a parameter too.
\<close>

section \<open>System calls\<close>

datatype syscall =
    Sched_setscheduler int int int
  | Setpriority int int
  | Sched_setattr int deadline_params
  | Sched_setaffinity int "int list"
  | Create_cgroup int
  | Write_cpus int string
  | Write_mems int
  | Attach_task int int
  | Write_irq_affinity int string

type_synonym os = "syscall list \<Rightarrow> syscall \<Rightarrow> bool"

text \<open>Thread ids are 64 bits wide here, \<open>pid_t\<close> and \<open>id_t\<close> have 32.\<close>

definition as_pid :: "int \<Rightarrow> int" where "as_pid tid = (tid + 2 ^ 31) mod 2 ^ 32 - 2 ^ 31"
definition as_id :: "int \<Rightarrow> int" where "as_id tid = tid mod 2 ^ 32"

section \<open>State\<close>

record cnode =
  callback_group_configs :: "thread_config list"
  id_to_callback_group_config :: "u64 \<times> string \<Rightarrow> nat option"
  node_to_wildcard_config :: "u64 \<times> string \<Rightarrow> nat option"
  non_ros_thread_configs :: "thread_config list"
  id_to_non_ros_thread_config :: "string \<Rightarrow> nat option"
  kernel_thread_configs :: "kernel_thread_config list"
  irq_configs :: "irq_config list"
  unapplied_num :: int
  cgroup_num :: int
  configured_at_least_once :: bool
  calls :: "syscall list"

text \<open>The maps hold pointers into the vectors, which are positions here.\<close>

abbreviation wild :: "thread_config \<Rightarrow> bool" where "wild c \<equiv> is_wildcard (thread_str c)"
abbreviation exact_key :: "thread_config \<Rightarrow> u64 \<times> string" where "exact_key c \<equiv> (cfg_domain_id c, thread_str c)"
abbreviation wild_key :: "thread_config \<Rightarrow> u64 \<times> string" where
  "wild_key c \<equiv> (cfg_domain_id c, wildcard_prefix (thread_str c))"

definition index_by :: "(thread_config \<Rightarrow> bool) \<Rightarrow> (thread_config \<Rightarrow> 'k) \<Rightarrow> thread_config list \<Rightarrow> 'k \<Rightarrow> nat option" where
  "index_by P key cs = fold (\<lambda>e m. if P (snd e) then m(key (snd e) \<mapsto> fst e) else m) (enumerate 0 cs) Map.empty"

definition index_exact :: "thread_config list \<Rightarrow> u64 \<times> string \<Rightarrow> nat option" where
  "index_exact = index_by (\<lambda>c. \<not> wild c) exact_key"

definition index_wildcard :: "thread_config list \<Rightarrow> u64 \<times> string \<Rightarrow> nat option" where
  "index_wildcard = index_by wild wild_key"

definition index_name :: "thread_config list \<Rightarrow> string \<Rightarrow> nat option" where
  "index_name = index_by (\<lambda>_. True) thread_str"

definition on_group :: "nat \<Rightarrow> (thread_config \<Rightarrow> thread_config) \<Rightarrow> cnode \<Rightarrow> cnode" where
  "on_group i f s = s\<lparr>callback_group_configs := (callback_group_configs s)[i := f (callback_group_configs s ! i)]\<rparr>"

definition on_thread :: "nat \<Rightarrow> (thread_config \<Rightarrow> thread_config) \<Rightarrow> cnode \<Rightarrow> cnode" where
  "on_thread i f s = s\<lparr>non_ros_thread_configs := (non_ros_thread_configs s)[i := f (non_ros_thread_configs s ! i)]\<rparr>"

section \<open>Applying attributes\<close>

definition ask :: "os \<Rightarrow> syscall \<Rightarrow> cnode \<Rightarrow> bool \<times> cnode" where
  "ask os c s = (os (calls s) c, s\<lparr>calls := calls s @ [c]\<rparr>)"

fun ask_all :: "os \<Rightarrow> syscall list \<Rightarrow> cnode \<Rightarrow> bool \<times> cnode" where
  "ask_all os [] s = (True, s)"
| "ask_all os (c # cs) s = (case ask os c s of (ok, s1) \<Rightarrow> if ok then ask_all os cs s1 else (False, s1))"

definition set_affinity_by_cgroup :: "os \<Rightarrow> int \<Rightarrow> int list \<Rightarrow> cnode \<Rightarrow> bool \<times> cnode" where
  "set_affinity_by_cgroup os tid cpus s =
     (let my_id = cgroup_num s
      in ask_all os [Create_cgroup my_id, Write_cpus my_id (format_cpu_list cpus), Write_mems my_id, Attach_task my_id tid]
           (s\<lparr>cgroup_num := my_id + 1\<rparr>))"

definition issue_affinity_syscalls :: "os \<Rightarrow> sched_policy option \<Rightarrow> int list \<Rightarrow> int \<Rightarrow> cnode \<Rightarrow> bool \<times> cnode" where
  "issue_affinity_syscalls os policy affinity tid s =
     (if affinity = [] then (True, s)
      else if policy = Some Deadline then set_affinity_by_cgroup os tid affinity s
      else ask os (Sched_setaffinity (as_pid tid) affinity) s)"

definition policy_syscalls :: "sched_attrs \<Rightarrow> sched_policy \<Rightarrow> int \<Rightarrow> syscall list" where
  "policy_syscalls a p tid =
     (if p = Deadline then [Sched_setattr (as_pid tid) (at_deadline a)]
      else Sched_setscheduler (as_pid tid) (to_kernel_policy p) (if is_cfs p then 0 else at_rt_priority a) #
           (if is_cfs p then [Setpriority (as_id tid) (at_nice a)] else []))"

definition issue_syscalls :: "os \<Rightarrow> sched_attrs \<Rightarrow> int \<Rightarrow> cnode \<Rightarrow> bool \<times> cnode" where
  "issue_syscalls os a tid s =
     (case at_policy a of
        None \<Rightarrow> (False, s)
      | Some p \<Rightarrow>
          (case ask_all os (policy_syscalls a p tid) s of
             (ok, s1) \<Rightarrow> if ok then issue_affinity_syscalls os (Some p) (at_affinity a) tid s1 else (False, s1)))"

section \<open>Announcements\<close>

text \<open>A first success counts the entry as applied; the last one is reported once in the node's life.\<close>

definition count_applied :: "cnode \<Rightarrow> cnode" where
  "count_applied s =
     s\<lparr>unapplied_num := unapplied_num s - 1,
       configured_at_least_once := configured_at_least_once s \<or> unapplied_num s = 1\<rparr>"

definition configure_group :: "os \<Rightarrow> nat \<Rightarrow> string \<Rightarrow> int \<Rightarrow> cnode \<Rightarrow> cnode" where
  "configure_group os i gid tid s =
     (let s1 = on_group i (\<lambda>c. if wild c then c\<lparr>matched_tids := put gid tid (matched_tids c)\<rparr>
                               else c\<lparr>thread_id := tid\<rparr>) s
      in case issue_syscalls os (attrs (callback_group_configs s1 ! i)) tid s1 of
           (ok, s2) \<Rightarrow>
             if \<not> ok then s2
             else if applied (callback_group_configs s2 ! i) then s2
             else count_applied (on_group i (\<lambda>c. c\<lparr>applied := True\<rparr>) s2))"

definition callback_group_callback :: "os \<Rightarrow> u64 \<Rightarrow> string \<Rightarrow> int \<Rightarrow> cnode \<Rightarrow> cnode" where
  "callback_group_callback os d gid tid s =
     (let w = node_to_wildcard_config s (d, extract_node_part gid)
      in case id_to_callback_group_config s (d, gid) of
           Some i \<Rightarrow>
             configure_group os i gid tid
               (case w of None \<Rightarrow> s | Some j \<Rightarrow> on_group j (\<lambda>c. c\<lparr>matched_tids := erase gid (matched_tids c)\<rparr>) s)
         | None \<Rightarrow> (case w of None \<Rightarrow> s | Some j \<Rightarrow> configure_group os j gid tid s))"

definition non_ros_thread_callback :: "os \<Rightarrow> string \<Rightarrow> int \<Rightarrow> cnode \<Rightarrow> cnode" where
  "non_ros_thread_callback os name tid s =
     (case id_to_non_ros_thread_config s name of
        None \<Rightarrow> s
      | Some i \<Rightarrow>
          (let s1 = on_thread i (\<lambda>c. c\<lparr>thread_id := tid\<rparr>) s
           in case issue_syscalls os (attrs (non_ros_thread_configs s1 ! i)) tid s1 of
                (ok, s2) \<Rightarrow>
                  if \<not> ok then s2
                  else if applied (non_ros_thread_configs s2 ! i) then s2
                  else count_applied (on_thread i (\<lambda>c. c\<lparr>applied := True\<rparr>) s2)))"

section \<open>Kernel threads\<close>

record kernel_thread_info =
  kt_tid :: int
  kt_comm :: string
  kt_policy :: string
  kt_nice :: int
  kt_rt_priority :: int
  kt_affinity :: string
  no_setaffinity :: bool

text \<open>What a pass over the machine finds; \<open>cpu_bound\<close> is \<open>manageable_cpu_bound()\<close>.\<close>

record machine =
  cpu_bound :: int
  scanned :: "kernel_thread_info list"
  irqbalance :: bool
  irq_actions :: "int \<Rightarrow> string option"
  irq_current :: "int \<Rightarrow> string"

record section_outcome =
  so_applied :: "string list"
  so_failed :: "string list"
  so_skipped :: "string list"

definition no_outcome :: section_outcome where
  "no_outcome = \<lparr>so_applied = [], so_failed = [], so_skipped = []\<rparr>"

definition report :: "bool \<Rightarrow> string \<Rightarrow> section_outcome \<Rightarrow> section_outcome" where
  "report ok key r = (if ok then r\<lparr>so_applied := so_applied r @ [key]\<rparr> else r\<lparr>so_failed := so_failed r @ [key]\<rparr>)"

definition skip_key :: "string \<Rightarrow> section_outcome \<Rightarrow> section_outcome" where
  "skip_key key r = r\<lparr>so_skipped := so_skipped r @ [key]\<rparr>"

definition same_cpu_set :: "int list \<Rightarrow> int list option \<Rightarrow> bool" where
  "same_cpu_set desired current \<longleftrightarrow> (case current of None \<Rightarrow> False | Some cs \<Rightarrow> desired = cs)"

definition kernel_thread_in_sync :: "machine \<Rightarrow> sched_attrs \<Rightarrow> kernel_thread_info \<Rightarrow> bool" where
  "kernel_thread_in_sync m a info \<longleftrightarrow>
     (case at_policy a of
        None \<Rightarrow> True
      | Some p \<Rightarrow> p \<noteq> Deadline \<and> parse_sched_policy (kt_policy info) = Some p \<and>
          (if is_cfs p then at_nice a = kt_nice info else at_rt_priority a = kt_rt_priority info)) \<and>
     (at_affinity a \<noteq> [] \<longrightarrow> same_cpu_set (at_affinity a) (parse_manageable_cpu_list (cpu_bound m) (kt_affinity info)))"

definition apply_to_thread :: "os \<Rightarrow> machine \<Rightarrow> sched_attrs \<Rightarrow> kernel_thread_info \<Rightarrow> cnode \<Rightarrow> bool \<times> cnode" where
  "apply_to_thread os m a info s =
     (if kernel_thread_in_sync m a info then (True, s)
      else
        (let affinity_on_fixed = (at_affinity a \<noteq> [] \<and> no_setaffinity info)
         in if affinity_on_fixed \<and>
               \<not> same_cpu_set (at_affinity a) (parse_manageable_cpu_list (cpu_bound m) (kt_affinity info))
            then (False, s)
            else if at_policy a \<noteq> None
            then issue_syscalls os (if affinity_on_fixed then a\<lparr>at_affinity := []\<rparr> else a) (kt_tid info) s
            else issue_affinity_syscalls os (parse_sched_policy (kt_policy info)) (at_affinity a) (kt_tid info) s))"

fun apply_to_threads ::
  "os \<Rightarrow> machine \<Rightarrow> kernel_thread_config \<Rightarrow> kernel_thread_info list \<Rightarrow> section_outcome \<times> cnode \<Rightarrow> section_outcome \<times> cnode" where
  "apply_to_threads os m c [] (r, s) = (r, s)"
| "apply_to_threads os m c (info # infos) (r, s) =
     (case apply_to_thread os m (kt_attrs c) info s of
        (ok, s1) \<Rightarrow>
          apply_to_threads os m c infos (report ok (comm c @ CHR '':'' # show_int (kt_tid info)) r, s1))"

definition find_kernel_threads_by_comm :: "kernel_thread_info list \<Rightarrow> string \<Rightarrow> kernel_thread_info list" where
  "find_kernel_threads_by_comm infos name = filter (\<lambda>i. kt_comm i = name) infos"

definition apply_kernel_thread_config ::
  "os \<Rightarrow> machine \<Rightarrow> kernel_thread_config \<Rightarrow> section_outcome \<times> cnode \<Rightarrow> section_outcome \<times> cnode" where
  "apply_kernel_thread_config os m c rs =
     (if \<not> kt_is_managed c then rs
      else (let matches = find_kernel_threads_by_comm (scanned m) (comm c)
            in if matches = [] then (skip_key (comm c) (fst rs), snd rs) else apply_to_threads os m c matches rs))"

definition apply_kernel_thread_configs :: "os \<Rightarrow> machine \<Rightarrow> cnode \<Rightarrow> section_outcome \<times> cnode" where
  "apply_kernel_thread_configs os m s =
     fold (apply_kernel_thread_config os m) (kernel_thread_configs s) (no_outcome, s)"

section \<open>Interrupts\<close>

definition write_irq_affinity_file :: "os \<Rightarrow> irq_config \<Rightarrow> cnode \<Rightarrow> bool \<times> cnode" where
  "write_irq_affinity_file os c s = ask os (Write_irq_affinity (irq c) (format_cpu_list (irq_affinity c))) s"

text \<open>An affinity file that cannot be read gives the empty string.\<close>

definition apply_irq_config :: "os \<Rightarrow> machine \<Rightarrow> irq_config \<Rightarrow> section_outcome \<times> cnode \<Rightarrow> section_outcome \<times> cnode" where
  "apply_irq_config os m c rs =
     (if \<not> irq_is_managed c then rs
      else (case (case irq_actions m (irq c) of
                    None \<Rightarrow> (False, snd rs)
                  | Some actions \<Rightarrow>
                      if irq_name c \<noteq> [] \<and> actions \<noteq> irq_name c then (False, snd rs)
                      else if same_cpu_set (irq_affinity c) (parse_manageable_cpu_list (cpu_bound m) (irq_current m (irq c)))
                      then (True, snd rs)
                      else if irqbalance m then (False, snd rs)
                      else write_irq_affinity_file os c (snd rs)) of
              (ok, s1) \<Rightarrow> (report ok (show_int (irq c)) (fst rs), s1)))"

definition apply_irq_configs :: "os \<Rightarrow> machine \<Rightarrow> cnode \<Rightarrow> section_outcome \<times> cnode" where
  "apply_irq_configs os m s = fold (apply_irq_config os m) (irq_configs s) (no_outcome, s)"

section \<open>Construction\<close>

definition load_configs ::
  "'y yaml_api \<Rightarrow> int \<Rightarrow> u64 \<Rightarrow> 'y \<Rightarrow>
     (thread_config list \<times> thread_config list \<times> kernel_thread_config list \<times> irq_config list) parsed" where
  "load_configs Y max_cpu default_domain yaml =
     (case parse_yaml Y max_cpu yaml default_domain of
        Inl e \<Rightarrow> Inl e
      | Inr (groups, threads) \<Rightarrow>
          (case parse_kernel_threads Y max_cpu yaml of
             Inl e \<Rightarrow> Inl e
           | Inr kts \<Rightarrow> (case parse_irqs Y max_cpu yaml of Inl e \<Rightarrow> Inl e | Inr irqs \<Rightarrow> Inr (groups, threads, kts, irqs))))"

text \<open>The constructor after the checks of \<open>Cie_Startup\<close>: kernel threads and interrupts are configured first.\<close>

definition construct_node ::
  "os \<Rightarrow> machine \<Rightarrow> thread_config list \<Rightarrow> thread_config list \<Rightarrow> kernel_thread_config list \<Rightarrow> irq_config list \<Rightarrow> cnode" where
  "construct_node os m groups threads kts irqs =
     (let s = \<lparr>callback_group_configs = groups, id_to_callback_group_config = (\<lambda>_. None),
                node_to_wildcard_config = (\<lambda>_. None), non_ros_thread_configs = threads,
                id_to_non_ros_thread_config = (\<lambda>_. None), kernel_thread_configs = kts, irq_configs = irqs,
                unapplied_num = 0, cgroup_num = 0, configured_at_least_once = False, calls = []\<rparr>;
          s1 = snd (apply_kernel_thread_configs os m s);
          s2 = snd (apply_irq_configs os m s1)
      in s2\<lparr>unapplied_num := int (length groups + length threads),
            id_to_callback_group_config := index_exact groups, node_to_wildcard_config := index_wildcard groups,
            id_to_non_ros_thread_config := index_name threads\<rparr>)"

section \<open>Reapplying the configuration\<close>

record response =
  success :: bool
  callback_groups :: section_outcome
  non_ros_threads :: section_outcome
  kernel_threads :: section_outcome
  irqs :: section_outcome

definition rejected :: response where
  "rejected = \<lparr>success = False, callback_groups = no_outcome, non_ros_threads = no_outcome,
     kernel_threads = no_outcome, irqs = no_outcome\<rparr>"

text \<open>Known thread ids are carried over between entries of the same form.\<close>

definition carry_group :: "cnode \<Rightarrow> thread_config \<Rightarrow> thread_config" where
  "carry_group s c =
     (if wild c
      then (case node_to_wildcard_config s (wild_key c) of
              None \<Rightarrow> c | Some j \<Rightarrow> c\<lparr>matched_tids := matched_tids (callback_group_configs s ! j)\<rparr>)
      else (case id_to_callback_group_config s (exact_key c) of
              None \<Rightarrow> c | Some j \<Rightarrow> c\<lparr>thread_id := thread_id (callback_group_configs s ! j)\<rparr>))"

definition swap_groups :: "thread_config list \<Rightarrow> cnode \<Rightarrow> cnode" where
  "swap_groups new_cb s =
     (let cs = map (carry_group s) new_cb
      in s\<lparr>callback_group_configs := cs, id_to_callback_group_config := index_exact cs,
           node_to_wildcard_config := index_wildcard cs\<rparr>)"

definition carry_thread :: "cnode \<Rightarrow> thread_config \<Rightarrow> thread_config" where
  "carry_thread s c =
     (case id_to_non_ros_thread_config s (thread_str c) of
        None \<Rightarrow> c | Some j \<Rightarrow> c\<lparr>thread_id := thread_id (non_ros_thread_configs s ! j)\<rparr>)"

text \<open>Under \<open>non_ros_state_mutex_\<close>.\<close>

definition swap_threads :: "thread_config list \<Rightarrow> cnode \<Rightarrow> cnode" where
  "swap_threads new_nrt s =
     (let cs = map (carry_thread s) new_nrt
      in s\<lparr>non_ros_thread_configs := cs, id_to_non_ros_thread_config := index_name cs,
           unapplied_num := int (length (callback_group_configs s) + length cs)\<rparr>)"

definition group_id_key :: "thread_config \<Rightarrow> string \<Rightarrow> string" where
  "group_id_key c gid = decimal (unat (cfg_domain_id c)) @ CHR '':'' # gid"

definition mark_group :: "nat \<Rightarrow> cnode \<Rightarrow> cnode" where
  "mark_group i s = on_group i (\<lambda>c. c\<lparr>applied := True\<rparr>) (s\<lparr>unapplied_num := unapplied_num s - 1\<rparr>)"

text \<open>The instances of a wildcard entry, and whether one of them was configured.\<close>

fun reapply_instances ::
  "os \<Rightarrow> thread_config \<Rightarrow> (string \<times> int) list \<Rightarrow> bool \<Rightarrow> section_outcome \<times> cnode \<Rightarrow> bool \<times> section_outcome \<times> cnode" where
  "reapply_instances os c [] any (r, s) = (any, r, s)"
| "reapply_instances os c ((gid, tid) # ts) any (r, s) =
     (case issue_syscalls os (attrs c) tid s of
        (ok, s1) \<Rightarrow> reapply_instances os c ts (any \<or> ok) (report ok (group_id_key c gid) r, s1))"

definition reapply_group :: "os \<Rightarrow> nat \<Rightarrow> section_outcome \<times> cnode \<Rightarrow> section_outcome \<times> cnode" where
  "reapply_group os i rs =
     (let c = callback_group_configs (snd rs) ! i; key = group_id_key c (thread_str c) in
      if wild c then
        (if matched_tids c = [] then (skip_key key (fst rs), snd rs)
         else (case reapply_instances os c (matched_tids c) False rs of
                 (any, r, s1) \<Rightarrow> (r, if any then mark_group i s1 else s1)))
      else if thread_id c = -1 then (skip_key key (fst rs), snd rs)
      else (case issue_syscalls os (attrs c) (thread_id c) (snd rs) of
              (ok, s1) \<Rightarrow> (report ok key (fst rs), if ok then mark_group i s1 else s1)))"

definition mark_thread :: "nat \<Rightarrow> cnode \<Rightarrow> cnode" where
  "mark_thread i s =
     (if applied (non_ros_thread_configs s ! i) then s
      else on_thread i (\<lambda>c. c\<lparr>applied := True\<rparr>) (s\<lparr>unapplied_num := unapplied_num s - 1\<rparr>))"

definition reapply_thread :: "os \<Rightarrow> nat \<Rightarrow> section_outcome \<times> cnode \<Rightarrow> section_outcome \<times> cnode" where
  "reapply_thread os i rs =
     (let c = non_ros_thread_configs (snd rs) ! i in
      if thread_id c = -1 then (skip_key (thread_str c) (fst rs), snd rs)
      else (case issue_syscalls os (attrs c) (thread_id c) (snd rs) of
              (ok, s1) \<Rightarrow> (report ok (thread_str c) (fst rs), if ok then mark_thread i s1 else s1)))"

text \<open>Announcements that the listener's thread delivers between two phases of the handler.\<close>

datatype phase = After_group_swap | Before_group nat | Before_threads | Before_sections

type_synonym interruptions = "phase \<Rightarrow> (string \<times> int) list"

definition listen :: "os \<Rightarrow> (string \<times> int) list \<Rightarrow> cnode \<Rightarrow> cnode" where
  "listen os infos s = fold (\<lambda>(name, tid). non_ros_thread_callback os name tid) infos s"

definition reapply_groups :: "os \<Rightarrow> interruptions \<Rightarrow> cnode \<Rightarrow> section_outcome \<times> cnode" where
  "reapply_groups os between s =
     fold (\<lambda>i rs. reapply_group os i (fst rs, listen os (between (Before_group i)) (snd rs)))
       [0..<length (callback_group_configs s)] (no_outcome, s)"

definition reapply_threads :: "os \<Rightarrow> cnode \<Rightarrow> section_outcome \<times> cnode" where
  "reapply_threads os s = fold (reapply_thread os) [0..<length (non_ros_thread_configs s)] (no_outcome, s)"

definition on_reapply_config_request ::
  "os \<Rightarrow> machine \<Rightarrow> interruptions \<Rightarrow>
     (thread_config list \<times> thread_config list \<times> kernel_thread_config list \<times> irq_config list) parsed \<Rightarrow>
     cnode \<Rightarrow> response \<times> cnode" where
  "on_reapply_config_request os m between loaded s =
     (case loaded of
        Inl e \<Rightarrow> (rejected, s)
      | Inr (new_cb, new_nrt, new_kernel_threads, new_irqs) \<Rightarrow>
          (let s1 = listen os (between After_group_swap) (swap_groups new_cb s);
               s2 = (swap_threads new_nrt s1)\<lparr>kernel_thread_configs := new_kernel_threads, irq_configs := new_irqs\<rparr>
           in case reapply_groups os between s2 of
                (groups, s3) \<Rightarrow>
                  (case reapply_threads os (listen os (between Before_threads) s3) of
                     (threads, s4) \<Rightarrow>
                       (case apply_kernel_thread_configs os m (listen os (between Before_sections) s4) of
                          (kts, s5) \<Rightarrow>
                            (case apply_irq_configs os m s5 of
                               (iqs, s6) \<Rightarrow>
                                 (\<lparr>success = True, callback_groups = groups, non_ros_threads = threads,
                                   kernel_threads = kts, irqs = iqs\<rparr>, s6))))))"

definition print_all_unapplied :: "cnode \<Rightarrow> string list" where
  "print_all_unapplied s =
     (if unapplied_num s = 0 then []
      else map thread_str (filter (\<lambda>c. \<not> applied c) (callback_group_configs s)) @
           map thread_str (filter (\<lambda>c. \<not> applied c) (non_ros_thread_configs s)))"

section \<open>Runs\<close>

inductive cnode_step :: "'y yaml_api \<Rightarrow> int \<Rightarrow> u64 \<Rightarrow> cnode \<Rightarrow> cnode \<Rightarrow> bool" for Y bound default_domain where
  Group_announced: "cnode_step Y bound default_domain s (callback_group_callback os d gid tid s)"
| Thread_announced: "cnode_step Y bound default_domain s (non_ros_thread_callback os name tid s)"
| Reapplied: "cnode_step Y bound default_domain s
    (snd (on_reapply_config_request os m between (load_configs Y bound default_domain yaml) s))"

inductive cnode_reach :: "'y yaml_api \<Rightarrow> int \<Rightarrow> u64 \<Rightarrow> cnode \<Rightarrow> bool" for Y bound default_domain where
  Constructed: "load_configs Y bound default_domain yaml = Inr (groups, threads, kts, iqs) \<Longrightarrow>
    cnode_reach Y bound default_domain (construct_node os m groups threads kts iqs)"
| Step: "cnode_reach Y bound default_domain s \<Longrightarrow> cnode_step Y bound default_domain s s' \<Longrightarrow>
    cnode_reach Y bound default_domain s'"

end
