(* ===== verification/Cie_Scan.thy ===== *)
theory Cie_Scan
  imports Cie_Node "HOL-Library.Product_Lexorder"
begin

text \<open>
  Reading the machine (\<open>system_scan.cpp\<close>): kernel threads from \<open>/proc/<pid>/stat\<close> and
  \<open>/proc/<pid>/status\<close>, interrupts from \<open>/sys/kernel/irq\<close>. The contents of the files, \<open>None\<close> where one
  cannot be read, are a parameter.
\<close>

section \<open>Files\<close>

record proc_entry =
  filename :: string
  stat_file :: "string option"
  status_file :: "string option"
  comm_file :: "string option"

definition newline :: char where "newline = CHR 0x0A"

definition first_line :: "string \<Rightarrow> string" where "first_line = takeWhile (\<lambda>c. c \<noteq> newline)"

definition read_first_line :: "string option \<Rightarrow> string option" where
  "read_first_line = map_option first_line"

text \<open>What a loop over \<open>std::getline\<close> sees.\<close>

function lines :: "string \<Rightarrow> string list" where
  "lines s = (if s = [] then [] else first_line s # lines (drop (Suc (length (first_line s))) s))"
  by auto
termination by (relation "measure length") auto

declare lines.simps [simp del]

text \<open>\<open>to_number\<close> for the unsigned and the 64 bit types, on strings without a sign.\<close>

definition to_unsigned :: "nat \<Rightarrow> string \<Rightarrow> nat option" where
  "to_unsigned bound s = (if is_all_digits s \<and> digits_value s < bound then Some (digits_value s) else None)"

section \<open>The stat line\<close>

definition k_pf_kthread :: u64 where "k_pf_kthread = 0x00200000"
definition k_pf_no_setaffinity :: u64 where "k_pf_no_setaffinity = 0x04000000"

abbreviation "not_space \<equiv> (\<lambda>c. c \<noteq> CHR '' '')"
abbreviation "not_close \<equiv> (\<lambda>c. c \<noteq> CHR '')'')"

function split_spaces :: "string \<Rightarrow> string list" where
  "split_spaces s =
     (let rest = dropWhile (\<lambda>c. c = CHR '' '') s
      in if rest = [] then [] else takeWhile not_space rest # split_spaces (dropWhile not_space rest))"
  by auto

termination
proof (relation "measure length")
  fix s rest :: string
  assume r: "rest = dropWhile (\<lambda>c. c = CHR '' '') s" "rest \<noteq> []"
  then have "hd rest \<noteq> CHR '' ''" using hd_dropWhile by blast
  then have "length (dropWhile not_space rest) < length rest"
    using r(2) by (cases rest) (auto simp: le_imp_less_Suc length_dropWhile_le)
  moreover have "length rest \<le> length s" by (simp add: r(1) length_dropWhile_le)
  ultimately show "(dropWhile not_space rest, s) \<in> measure length" by simp
qed simp

declare split_spaces.simps [simp del]

text \<open>From the last closing parenthesis on.\<close>

definition split_stat_after_comm :: "string \<Rightarrow> string list option" where
  "split_stat_after_comm stat =
     (if CHR '')'' \<notin> set stat then None else Some (split_spaces (rev (takeWhile not_close (rev stat)))))"

definition stat_token :: "string list \<Rightarrow> nat \<Rightarrow> string option" where
  "stat_token tokens field = (let index = field - 3 in if index \<ge> length tokens then None else Some (tokens ! index))"

definition policy_const_to_string :: "int \<Rightarrow> string" where
  "policy_const_to_string policy =
     (case from_kernel_policy policy of Some p \<Rightarrow> to_string p | None \<Rightarrow> ''UNKNOWN('' @ show_int policy @ '')'')"

definition cpus_allowed_key :: string where "cpus_allowed_key = ''Cpus_allowed_list:''"

definition read_cpus_allowed_list :: "string option \<Rightarrow> string option" where
  "read_cpus_allowed_list status =
     (case status of
        None \<Rightarrow> None
      | Some content \<Rightarrow>
          map_option (\<lambda>line. dropWhile (\<lambda>c. c = CHR '' '' \<or> c = CHR 0x09) (drop (length cpus_allowed_key) line))
            (find (\<lambda>line. take (length cpus_allowed_key) line = cpus_allowed_key) (lines content)))"

text \<open>Between the first opening and the last closing parenthesis.\<close>

definition stat_comm :: "string \<Rightarrow> string option" where
  "stat_comm stat =
     (if CHR ''('' \<notin> set stat \<or> CHR '')'' \<notin> set stat then None
      else let open_at = length (takeWhile (\<lambda>c. c \<noteq> CHR ''('') stat);
               close_at = length stat - 1 - length (takeWhile not_close (rev stat))
           in if close_at \<le> open_at + 1 then None else Some (take (close_at - open_at - 1) (drop (open_at + 1) stat)))"

definition read_kernel_thread :: "proc_entry \<Rightarrow> int \<Rightarrow> kernel_thread_info option" where
  "read_kernel_thread entry tid =
     (case read_first_line (stat_file entry) of
        None \<Rightarrow> None
      | Some stat \<Rightarrow>
     (case split_stat_after_comm stat of
        None \<Rightarrow> None
      | Some tokens \<Rightarrow>
     (case Option.bind (stat_token tokens 9) (to_unsigned (2 ^ 64)) of
        None \<Rightarrow> None
      | Some flags \<Rightarrow>
          if (and (of_nat flags) k_pf_kthread) = 0 then None
          else
     (case (Option.bind (stat_token tokens 19) to_number, Option.bind (stat_token tokens 40) to_number,
            Option.bind (stat_token tokens 41) to_number) of
        (Some nice, Some rt_priority, Some policy) \<Rightarrow>
     (case stat_comm stat of
        None \<Rightarrow> None
      | Some name \<Rightarrow>
          if is_kworker_comm name then None
          else
     (case read_cpus_allowed_list (status_file entry) of
        None \<Rightarrow> None
      | Some aff \<Rightarrow>
          Some \<lparr>kt_tid = tid, kt_comm = name, kt_policy = policy_const_to_string policy, kt_nice = nice,
            kt_rt_priority = rt_priority, kt_affinity = aff,
            no_setaffinity = (and (of_nat flags) k_pf_no_setaffinity \<noteq> 0)\<rparr>))
      | _ \<Rightarrow> None))))"

text \<open>One directory entry of the scan.\<close>

definition scan_entry :: "proc_entry \<Rightarrow> kernel_thread_info list" where
  "scan_entry entry =
     (if \<not> is_all_digits (filename entry) then []
      else (case to_unsigned (2 ^ 63) (filename entry) of
              None \<Rightarrow> []
            | Some tid \<Rightarrow> (case read_kernel_thread entry (int tid) of None \<Rightarrow> [] | Some info \<Rightarrow> [info])))"

definition scan_kernel_threads :: "proc_entry list \<Rightarrow> kernel_thread_info list" where
  "scan_kernel_threads proc = sort_key (\<lambda>i. (kt_comm i, kt_tid i)) (concat (map scan_entry proc))"

definition process_with_comm_exists :: "string \<Rightarrow> proc_entry list \<Rightarrow> bool" where
  "process_with_comm_exists name proc \<longleftrightarrow>
     list_ex (\<lambda>e. is_all_digits (filename e) \<and> read_first_line (comm_file e) = Some name) proc"

section \<open>Interrupts\<close>

record irq_info =
  ii_irq :: int
  ii_name :: string
  ii_affinity :: string

type_synonym irq_dir = "string \<times> string option"

definition scan_irq :: "(int \<Rightarrow> string option) \<Rightarrow> irq_dir \<Rightarrow> irq_info list" where
  "scan_irq smp_affinity_list entry =
     (if \<not> is_all_digits (fst entry) then []
      else (case to_number (fst entry) of
              None \<Rightarrow> []
            | Some n \<Rightarrow>
                (case read_first_line (snd entry) of
                   None \<Rightarrow> []
                 | Some actions \<Rightarrow>
                     if actions = [] then []
                     else [\<lparr>ii_irq = n, ii_name = actions,
                       ii_affinity = (case read_first_line (smp_affinity_list n) of None \<Rightarrow> [] | Some l \<Rightarrow> l)\<rparr>])))"

definition scan_irqs :: "(int \<Rightarrow> string option) \<Rightarrow> irq_dir list \<Rightarrow> irq_info list" where
  "scan_irqs smp_affinity_list dirs = sort_key ii_irq (concat (map (scan_irq smp_affinity_list) dirs))"

definition read_irq_actions :: "(int \<Rightarrow> string option) \<Rightarrow> int \<Rightarrow> string option" where
  "read_irq_actions actions_file n =
     (case read_first_line (actions_file n) of None \<Rightarrow> None | Some a \<Rightarrow> if a = [] then None else Some a)"

end
