(* ===== verification/Cie_Scan_Theorems.thy ===== *)
theory Cie_Scan_Theorems
  imports Cie_Scan
begin

text \<open>
  The scan reads back what the kernel prints of a thread, spaces and parentheses in its name included, and
  leaves out kernel workers.
\<close>

section \<open>Splitting\<close>

definition field_text :: "string \<Rightarrow> bool" where
  "field_text t \<longleftrightarrow> t \<noteq> [] \<and> CHR '' '' \<notin> set t \<and> CHR '')'' \<notin> set t \<and> newline \<notin> set t"

abbreviation joined :: "string list \<Rightarrow> string" where "joined ts \<equiv> concat (map (\<lambda>t. CHR '' '' # t) ts)"

lemma until: "x \<notin> set xs \<Longrightarrow> takeWhile (\<lambda>c. c \<noteq> x) (xs @ x # ys) = xs \<and> dropWhile (\<lambda>c. c \<noteq> x) (xs @ x # ys) = x # ys"
  by (induction xs) auto

lemma until_end: "x \<notin> set xs \<Longrightarrow> takeWhile (\<lambda>c. c \<noteq> x) xs = xs \<and> dropWhile (\<lambda>c. c \<noteq> x) xs = []"
  by (induction xs) auto

lemma split_joined: "\<forall>t\<in>set ts. field_text t \<Longrightarrow> split_spaces (joined ts) = ts"
proof (induction ts)
  case (Cons t ts)
  have t: "t \<noteq> []" "CHR '' '' \<notin> set t" using Cons.prems by (simp_all add: field_text_def)
  have d: "dropWhile (\<lambda>c. c = CHR '' '') (joined (t # ts)) = t @ joined ts"
    using t by (cases t) auto
  have w: "takeWhile not_space (t @ joined ts) = t" "dropWhile not_space (t @ joined ts) = joined ts"
    using until [OF t(2)] until_end [OF t(2)] by (cases ts; simp)+
  have "split_spaces (joined (t # ts)) = t # split_spaces (joined ts)"
    using t(1) d w by (subst split_spaces.simps) (simp add: Let_def)
  then show ?case using Cons by simp
qed (simp add: split_spaces.simps)

text \<open>A line of \<open>/proc/<pid>/stat\<close>: the pid, the name in parentheses, and the fields from the third on.\<close>

definition stat_line :: "string \<Rightarrow> string \<Rightarrow> string list \<Rightarrow> string" where
  "stat_line pid name toks = pid @ '' ('' @ name @ '')'' @ joined toks"

lemma joined_plain: "\<forall>t\<in>set ts. field_text t \<Longrightarrow> CHR '')'' \<notin> set (joined ts) \<and> newline \<notin> set (joined ts)"
  by (auto simp: field_text_def newline_def)

lemma last_close: "CHR '')'' \<notin> set ys \<Longrightarrow> takeWhile not_close (rev (xs @ CHR '')'' # ys)) = rev ys"
  using until [of "CHR '')''" "rev ys" "rev xs"] by simp

lemma split_stat_line:
  assumes "\<forall>t\<in>set toks. field_text t"
  shows "split_stat_after_comm (stat_line pid name toks) = Some toks"
proof -
  have l: "stat_line pid name toks = (pid @ '' ('' @ name) @ CHR '')'' # joined toks" by (simp add: stat_line_def)
  have "takeWhile not_close (rev (stat_line pid name toks)) = rev (joined toks)"
    unfolding l by (rule last_close) (use joined_plain [OF assms] in simp)
  then show ?thesis using split_joined [OF assms] by (simp add: split_stat_after_comm_def stat_line_def)
qed

lemma comm_stat_line:
  assumes "\<forall>t\<in>set toks. field_text t" and "CHR ''('' \<notin> set pid" and "name \<noteq> []"
  shows "stat_comm (stat_line pid name toks) = Some name"
proof -
  have l: "stat_line pid name toks = (pid @ '' ('' @ name) @ CHR '')'' # joined toks" by (simp add: stat_line_def)
  have c: "takeWhile not_close (rev (stat_line pid name toks)) = rev (joined toks)"
    unfolding l by (rule last_close) (use joined_plain [OF assms(1)] in simp)
  have o: "takeWhile (\<lambda>c. c \<noteq> CHR ''('') (stat_line pid name toks) = pid @ '' ''"
    using assms(2) by (induction pid) (auto simp: stat_line_def)
  show ?thesis using assms(3) unfolding stat_comm_def c o by (simp add: stat_line_def Let_def)
qed

section \<open>The scan of kernel threads\<close>

lemma find_cpus:
  assumes "newline \<notin> set aff" and "\<forall>l\<in>set before. newline \<notin> set l \<and> take (length cpus_allowed_key) l \<noteq> cpus_allowed_key"
    and "aff \<noteq> [] \<Longrightarrow> hd aff \<noteq> CHR '' '' \<and> hd aff \<noteq> CHR 0x09"
  shows "read_cpus_allowed_list (Some (concat (map (\<lambda>l. l @ [newline]) before) @ cpus_allowed_key @ CHR 0x09 # aff @ newline # rest)) = Some aff"
proof -
  have f: "first_line (l @ newline # xs) = l" if "newline \<notin> set l" for l xs
    using until [OF that] by (simp add: first_line_def)
  have step: "lines (l @ newline # xs) = l # lines xs" if "newline \<notin> set l" for l xs
    using f [OF that, of xs] by (subst lines.simps) simp
  have key: "newline \<notin> set (cpus_allowed_key @ CHR 0x09 # aff)" using assms(1) by (simp add: cpus_allowed_key_def newline_def)
  have k: "lines (cpus_allowed_key @ CHR 0x09 # aff @ newline # rest) = (cpus_allowed_key @ CHR 0x09 # aff) # lines rest"
    using step [OF key, of rest] by simp
  have "lines (concat (map (\<lambda>l. l @ [newline]) before) @ xs) = before @ lines xs" for xs
    using assms(2) by (induction before) (simp_all add: step)
  then have ls: "lines (concat (map (\<lambda>l. l @ [newline]) before) @ cpus_allowed_key @ CHR 0x09 # aff @ newline # rest) =
      before @ (cpus_allowed_key @ CHR 0x09 # aff) # lines rest" using k by simp
  have "find (\<lambda>line. take (length cpus_allowed_key) line = cpus_allowed_key) (before @ (cpus_allowed_key @ CHR 0x09 # aff) # lines rest) =
      Some (cpus_allowed_key @ CHR 0x09 # aff)"
    using assms(2) by (induction before) auto
  then show ?thesis using assms(3) ls by (cases aff) (simp_all add: read_cpus_allowed_list_def)
qed

text \<open>Claim C34. A scan reads back what the kernel prints. For a process whose name is not empty and has no line break,
  spaces and parentheses included, whose nice value, priority and policy are 32-bit integers: when it is a kernel
  thread and no kernel worker, the entry is read with exactly the tid, name, policy, nice value, priority, CPU
  list and pinning flag that its files show, and otherwise it is left out.\<close>

theorem stat_line_read_back:
  assumes "CHR ''('' \<notin> set pid" and "newline \<notin> set pid" and "name \<noteq> []" and "newline \<notin> set name"
    and "\<forall>t\<in>set toks. field_text t" and "39 \<le> length toks"
    and "toks ! 6 = decimal flags" and "flags < 2 ^ 64"
    and "toks ! 16 = show_int nice" and "toks ! 37 = show_int prio" and "toks ! 38 = show_int policy"
    and "{nice, prio, policy} \<subseteq> {- (2 ^ 31)..<2 ^ 31}"
    and "newline \<notin> set aff" and "aff \<noteq> [] \<longrightarrow> hd aff \<noteq> CHR '' '' \<and> hd aff \<noteq> CHR 0x09"
    and "\<forall>l\<in>set before. newline \<notin> set l \<and> take (length cpus_allowed_key) l \<noteq> cpus_allowed_key"
    and "stat_file entry = Some (stat_line pid name toks @ newline # rest)"
    and "status_file entry = Some (concat (map (\<lambda>l. l @ [newline]) before) @ cpus_allowed_key @ CHR 0x09 # aff @ newline # rest')"
  shows "read_kernel_thread entry tid =
    (if and (of_nat flags) k_pf_kthread = 0 \<or> is_kworker_comm name then None
     else Some \<lparr>kt_tid = tid, kt_comm = name, kt_policy = policy_const_to_string policy, kt_nice = nice, kt_rt_priority = prio,
       kt_affinity = aff, no_setaffinity = (and (of_nat flags) k_pf_no_setaffinity \<noteq> 0)\<rparr>)"
proof -
  have n: "newline \<notin> set (stat_line pid name toks)"
    using assms(2,4) joined_plain [OF assms(5)] by (auto simp: stat_line_def newline_def)
  have s: "read_first_line (stat_file entry) = Some (stat_line pid name toks)"
    using until [OF n] assms(16) by (simp add: read_first_line_def first_line_def)
  have t: "stat_token toks 9 = Some (decimal flags)" "stat_token toks 19 = Some (show_int nice)"
    "stat_token toks 40 = Some (show_int prio)" "stat_token toks 41 = Some (show_int policy)"
    using assms(6,7,9-11) by (simp_all add: stat_token_def)
  have f: "to_unsigned (2 ^ 64) (decimal flags) = Some flags"
    using assms(8) decimal_digits [of flags] by (simp add: to_unsigned_def is_all_digits_def)
  have i: "to_number (show_int nice) = Some nice" "to_number (show_int prio) = Some prio" "to_number (show_int policy) = Some policy"
    using assms(12) by (auto intro!: to_number_show_int)
  have a: "read_cpus_allowed_list (status_file entry) = Some aff"
    unfolding assms(17) by (rule find_cpus) (use assms(13-15) in auto)
  show ?thesis
    by (simp add: read_kernel_thread_def s split_stat_line [OF assms(5)] t f [simplified] a i comm_stat_line [OF assms(5,1,3)])
qed

definition demo_toks :: "string list" where
  "demo_toks = replicate 6 ''0'' @ decimal 69206016 # replicate 9 ''0'' @ show_int (-5) # replicate 20 ''0'' @ [show_int 50, show_int 1]"

definition demo_proc :: proc_entry where
  "demo_proc = \<lparr>filename = ''42'', stat_file = Some (stat_line ''42'' ''irq/24-a) (b'' demo_toks @ newline # []),
     status_file = Some (concat (map (\<lambda>l. l @ [newline]) [''Name:'']) @ cpus_allowed_key @ CHR 0x09 # ''0-7'' @ newline # []),
     comm_file = None\<rparr>"

theorem stat_line_read_back_witness:
  "read_kernel_thread demo_proc 42 = Some \<lparr>kt_tid = 42, kt_comm = ''irq/24-a) (b'', kt_policy = ''SCHED_FIFO'', kt_nice = -5,
     kt_rt_priority = 50, kt_affinity = ''0-7'', no_setaffinity = True\<rparr>"
proof -
  have d: "field_text (decimal n)" for n
    using decimal_digits [of n] by (auto simp: field_text_def newline_def list_all_iff is_digit_def)
  have i: "field_text (show_int j)" for j
    using d [of "nat j"] d [of "nat (- j)"] by (auto simp: show_int_def field_text_def newline_def)
  have z: "field_text ''0''" by (simp add: field_text_def newline_def)
  have toks: "\<forall>t\<in>set demo_toks. field_text t"
  proof
    fix t assume "t \<in> set demo_toks"
    then have "t = ''0'' \<or> t = decimal 69206016 \<or> (\<exists>j. t = show_int j)" unfolding demo_toks_def by auto
    then show "field_text t" using d i z by auto
  qed
  have at: "length demo_toks = 39" "demo_toks ! 6 = decimal 69206016" "demo_toks ! 16 = show_int (-5)" "demo_toks ! 37 = show_int 50"
    "demo_toks ! 38 = show_int 1" unfolding demo_toks_def by (simp_all add: nth_append)
  have p: "policy_const_to_string 1 = ''SCHED_FIFO''"
    by (simp add: policy_const_to_string_def from_kernel_policy_def to_string_def policy_row_def k_policies_def policy_index_def)
  have "read_kernel_thread demo_proc 42 =
      (if and (of_nat 69206016) k_pf_kthread = 0 \<or> is_kworker_comm ''irq/24-a) (b'' then None
       else Some \<lparr>kt_tid = 42, kt_comm = ''irq/24-a) (b'', kt_policy = policy_const_to_string 1, kt_nice = -5, kt_rt_priority = 50,
         kt_affinity = ''0-7'', no_setaffinity = (and (of_nat 69206016) k_pf_no_setaffinity \<noteq> 0)\<rparr>)"
    by (rule stat_line_read_back [where pid = "''42''" and toks = demo_toks and before = "[''Name:'']"])
       (use toks at in \<open>simp_all add: demo_proc_def newline_def cpus_allowed_key_def\<close>)
  then show ?thesis by (simp add: p is_kworker_comm_def k_pf_kthread_def k_pf_no_setaffinity_def)
qed

end
