(* ===== verification/Cie_Startup.thy ===== *)
theory Cie_Startup
  imports Cie_Scan_Theorems
begin

text \<open>
  The checks at start-up (\<open>startup_checks.cpp\<close>) and the announcements of threads outside ROS
  (\<open>non_ros_thread_ipc.hpp\<close>, \<open>non_ros_thread_ipc.cpp\<close>): what a datagram looks like and what the reader
  thread does with the ones it receives.
\<close>

section \<open>Hardware\<close>

definition blank :: "char \<Rightarrow> bool" where "blank c \<longleftrightarrow> c = CHR '' '' \<or> c = CHR 0x09 \<or> c = CHR 0x0D \<or> c = CHR 0x0A"

definition trim :: "string \<Rightarrow> string" where "trim s = rev (dropWhile blank (rev (dropWhile blank s)))"

definition k_recorded_keys :: "(string \<times> string) list" where
  "k_recorded_keys =
     [(''Model name'', ''model_name''), (''CPU family'', ''cpu_family''), (''Model'', ''model''),
      (''Thread(s) per core'', ''threads_per_core''), (''Frequency boost'', ''frequency_boost''),
      (''CPU max MHz'', ''cpu_max_mhz''), (''CPU min MHz'', ''cpu_min_mhz'')]"

definition lscpu_line :: "string \<Rightarrow> (string, string) omap \<Rightarrow> (string, string) omap" where
  "lscpu_line line hw =
     (if CHR '':'' \<notin> set line then hw
      else (case map_of k_recorded_keys (trim (takeWhile (\<lambda>c. c \<noteq> CHR '':'') line)) of
              None \<Rightarrow> hw
            | Some key \<Rightarrow> put key (trim (drop 1 (dropWhile (\<lambda>c. c \<noteq> CHR '':'') line))) hw))"

definition parse_lscpu_output :: "string \<Rightarrow> (string, string) omap" where
  "parse_lscpu_output output = fold lscpu_line (lines output) []"

definition mismatch_line :: "string \<Rightarrow> string \<Rightarrow> string \<Rightarrow> string" where
  "mismatch_line key expected got =
     key @ '': expected '' @ CHR 0x27 # expected @ CHR 0x27 # '', got '' @ CHR 0x27 # got @ [CHR 0x27]"

text \<open>\<open>Inr None\<close>: the section pins none of the keys. A value that is no string throws.\<close>

fun check_hardware_keys ::
  "'y yaml_api \<Rightarrow> 'y \<Rightarrow> (string, string) omap \<Rightarrow> string list option \<Rightarrow> string list option parsed" where
  "check_hardware_keys Y hw [] mismatches = Inr mismatches"
| "check_hardware_keys Y hw ((key, current) # rest) mismatches =
     (if \<not> y_defined Y (y_get Y hw key) then check_hardware_keys Y hw rest mismatches
      else (case y_string Y (y_get Y hw key) of
              None \<Rightarrow> Inl Conversion_failed
            | Some v \<Rightarrow>
                (let ms = (case mismatches of None \<Rightarrow> [] | Some ms \<Rightarrow> ms) in
                 check_hardware_keys Y hw rest
                   (Some (if v \<noteq> current then ms @ [mismatch_line key v current] else ms)))))"

definition check_hardware_info :: "'y yaml_api \<Rightarrow> 'y \<Rightarrow> (string, string) omap \<Rightarrow> string list option parsed" where
  "check_hardware_info Y hw current = check_hardware_keys Y hw current None"

text \<open>What the constructor makes of it: \<open>Inl\<close> of the mismatches is the exception that stops the node.\<close>

datatype hardware_error = Hardware_mismatch "string list" | Hardware_unreadable

definition validate_hardware_info :: "'y yaml_api \<Rightarrow> 'y \<Rightarrow> (string, string) omap \<Rightarrow> hardware_error + unit" where
  "validate_hardware_info Y yaml current =
     (if \<not> y_defined Y (y_get Y yaml ''hardware_info'') then Inr ()
      else if current = [] then Inr ()
      else (case check_hardware_info Y (y_get Y yaml ''hardware_info'') current of
              Inl e \<Rightarrow> Inl Hardware_unreadable
            | Inr None \<Rightarrow> Inr ()
            | Inr (Some ms) \<Rightarrow> if ms \<noteq> [] then Inl (Hardware_mismatch ms) else Inr ()))"

section \<open>Real-time throttling\<close>

record rt_throttling_check =
  rc_key :: string
  rc_expected :: int
  rc_actual :: "int option"

fun throttling_checks ::
  "'y yaml_api \<Rightarrow> (string \<Rightarrow> int option) \<Rightarrow> 'y \<Rightarrow> string list \<Rightarrow> rt_throttling_check list parsed" where
  "throttling_checks Y read_sysctl rt_bw [] = Inr []"
| "throttling_checks Y read_sysctl rt_bw (yaml_key # ks) =
     (if \<not> y_defined Y (y_get Y rt_bw yaml_key) then throttling_checks Y read_sysctl rt_bw ks
      else (case y_int Y (y_get Y rt_bw yaml_key) of
              None \<Rightarrow> Inl Conversion_failed
            | Some expected \<Rightarrow>
                (let key = ''sched_rt_'' @ yaml_key in
                 case throttling_checks Y read_sysctl rt_bw ks of
                   Inl e \<Rightarrow> Inl e
                 | Inr cs \<Rightarrow>
                     Inr (\<lparr>rc_key = key, rc_expected = expected, rc_actual = read_sysctl (''/proc/sys/kernel/'' @ key)\<rparr> # cs))))"

definition rc_mismatch :: "rt_throttling_check \<Rightarrow> bool" where
  "rc_mismatch c \<longleftrightarrow> (case rc_actual c of None \<Rightarrow> False | Some a \<Rightarrow> a \<noteq> rc_expected c)"

definition sysctl_guidance :: "rt_throttling_check list \<Rightarrow> string" where
  "sysctl_guidance checks =
     (if list_ex rc_mismatch checks then
        ''rt_throttling values do not match the configuration. '' @
        ''Please create /etc/sysctl.d/99-rt-throttling.conf with the following content and reboot '' @
        CHR ''('' # ''or run '' @ [CHR 0x27] @ ''sudo sysctl --system'' @ [CHR 0x27] @ '')'' @ '':'' @
        concat (map (\<lambda>c. newline # ''  kernel.'' @ rc_key c @ '' = '' @ show_int (rc_expected c)) checks)
      else [])"

definition check_rt_throttling ::
  "'y yaml_api \<Rightarrow> 'y \<Rightarrow> (string \<Rightarrow> int option) \<Rightarrow> (rt_throttling_check list \<times> string) parsed" where
  "check_rt_throttling Y yaml read_sysctl =
     (if \<not> y_defined Y (y_get Y yaml ''rt_throttling'') then Inr ([], [])
      else (case throttling_checks Y read_sysctl (y_get Y yaml ''rt_throttling'') [''period_us'', ''runtime_us''] of
              Inl e \<Rightarrow> Inl e
            | Inr checks \<Rightarrow> Inr (checks, sysctl_guidance checks)))"

section \<open>Datagrams\<close>

text \<open>A byte is a \<open>char\<close>. The integers are in the host's order, little endian here.\<close>

record non_ros_thread_info =
  nr_tid :: u64
  nr_name :: string

definition k_wire_tid_size :: nat where "k_wire_tid_size = 8"
definition k_wire_namelen_size :: nat where "k_wire_namelen_size = 2"
definition k_wire_header_size :: nat where "k_wire_header_size = k_wire_tid_size + k_wire_namelen_size"
definition k_max_name_len :: nat where "k_max_name_len = 65535"
definition k_max_wire_size :: nat where "k_max_wire_size = k_wire_header_size + k_max_name_len"

primrec le_bytes :: "nat \<Rightarrow> nat \<Rightarrow> string" where
  "le_bytes 0 v = []"
| "le_bytes (Suc k) v = char_of (v mod 256) # le_bytes k (v div 256)"

primrec le_value :: "string \<Rightarrow> nat" where
  "le_value [] = 0"
| "le_value (c # cs) = of_char c + 256 * le_value cs"

definition encode_non_ros_thread_info :: "nat \<Rightarrow> non_ros_thread_info \<Rightarrow> string option" where
  "encode_non_ros_thread_info buf_cap info =
     (if length (nr_name info) > k_max_name_len then None
      else if k_wire_header_size + length (nr_name info) > buf_cap then None
      else Some (le_bytes k_wire_tid_size (unat (nr_tid info)) @ le_bytes k_wire_namelen_size (length (nr_name info)) @ nr_name info))"

definition decode_non_ros_thread_info :: "string \<Rightarrow> non_ros_thread_info option" where
  "decode_non_ros_thread_info buf =
     (if length buf < k_wire_header_size then None
      else let name_len = le_value (take k_wire_namelen_size (drop k_wire_tid_size buf))
           in if length buf \<noteq> k_wire_header_size + name_len then None
              else Some \<lparr>nr_tid = of_nat (le_value (take k_wire_tid_size buf)), nr_name = drop k_wire_header_size buf\<rparr>)"

section \<open>The reader thread\<close>

text \<open>What a wait may return, and the datagram that is then read.\<close>

datatype received = Recv_failed | Datagram string
datatype listener_event = Stop_event | Unknown_fd | Listener_hangup | Readable received
datatype wake = Wait_interrupted | Wait_failed | Events "listener_event list"

definition on_datagram :: "(non_ros_thread_info \<Rightarrow> 's \<Rightarrow> 's) \<Rightarrow> received \<Rightarrow> 's \<Rightarrow> 's" where
  "on_datagram callback r s =
     (case r of
        Recv_failed \<Rightarrow> s
      | Datagram bytes \<Rightarrow>
          if length bytes > k_max_wire_size then s
          else (case decode_non_ros_thread_info bytes of None \<Rightarrow> s | Some info \<Rightarrow> callback info s))"

fun on_events :: "(non_ros_thread_info \<Rightarrow> 's \<Rightarrow> 's) \<Rightarrow> listener_event list \<Rightarrow> 's \<Rightarrow> bool \<times> 's" where
  "on_events callback [] s = (False, s)"
| "on_events callback (Stop_event # es) s = (True, s)"
| "on_events callback (Unknown_fd # es) s = on_events callback es s"
| "on_events callback (Listener_hangup # es) s = (True, s)"
| "on_events callback (Readable r # es) s = on_events callback es (on_datagram callback r s)"

text \<open>The loop over the waits that return, and whether it has ended.\<close>

fun run_listener :: "(non_ros_thread_info \<Rightarrow> 's \<Rightarrow> 's) \<Rightarrow> wake list \<Rightarrow> 's \<Rightarrow> bool \<times> 's" where
  "run_listener callback [] s = (False, s)"
| "run_listener callback (Wait_interrupted # ws) s = run_listener callback ws s"
| "run_listener callback (Wait_failed # ws) s = (True, s)"
| "run_listener callback (Events es # ws) s =
     (case on_events callback es s of (exit_loop, s') \<Rightarrow> if exit_loop then (True, s') else run_listener callback ws s')"

text \<open>The node's callback: the thread id is signed.\<close>

definition node_listener :: "os \<Rightarrow> non_ros_thread_info \<Rightarrow> cnode \<Rightarrow> cnode" where
  "node_listener os info s = non_ros_thread_callback os (nr_name info) (sint (nr_tid info)) s"

section \<open>What the checks decide\<close>

lemma guidance_iff: "check_rt_throttling Y yaml read_sysctl = Inr (checks, guidance) \<Longrightarrow> guidance \<noteq> [] \<longleftrightarrow> list_ex rc_mismatch checks"
  by (auto simp: check_rt_throttling_def sysctl_guidance_def split: if_splits sum.splits)

text \<open>The keys that both sides have, and those whose values differ.\<close>

abbreviation pinned :: "'y yaml_api \<Rightarrow> 'y \<Rightarrow> string \<times> string \<Rightarrow> bool" where
  "pinned Y hw kv \<equiv> y_defined Y (y_get Y hw (fst kv))"

definition agrees :: "'y yaml_api \<Rightarrow> 'y \<Rightarrow> string \<times> string \<Rightarrow> bool" where
  "agrees Y hw kv \<longleftrightarrow> pinned Y hw kv \<longrightarrow> y_string Y (y_get Y hw (fst kv)) = Some (snd kv)"

abbreviation found :: "string list option \<Rightarrow> string list" where "found ms \<equiv> (case ms of None \<Rightarrow> [] | Some l \<Rightarrow> l)"

lemma keys_agree:
  "list_all (agrees Y hw) current \<Longrightarrow>
     check_hardware_keys Y hw current ms = Inr (if list_ex (pinned Y hw) current then Some (found ms) else ms)"
  by (induction Y hw current ms rule: check_hardware_keys.induct) (auto simp: agrees_def Let_def)

lemma keys_grow: "check_hardware_keys Y hw current ms = Inr res \<Longrightarrow> length (found ms) \<le> length (found res)"
  by (induction Y hw current ms rule: check_hardware_keys.induct) (fastforce simp: Let_def split: if_splits option.splits)+

lemma keys_differ:
  "\<not> list_all (agrees Y hw) current \<Longrightarrow> check_hardware_keys Y hw current ms = Inr res \<Longrightarrow>
     length (found ms) < length (found res)"
proof (induction Y hw current ms rule: check_hardware_keys.induct)
  case (2 Y hw key current rest ms)
  show ?case
  proof (cases "agrees Y hw (key, current)")
    case True
    then show ?thesis using 2 by (cases "pinned Y hw (key, current)") (auto simp: agrees_def Let_def)
  next
    case False
    then obtain v where v: "y_string Y (y_get Y hw key) = Some v" "v \<noteq> current" "y_defined Y (y_get Y hw key)"
      using 2(4) by (auto simp: agrees_def split: option.splits)
    then have "check_hardware_keys Y hw rest (Some (found ms @ [mismatch_line key v current])) = Inr res" using 2(4) by (simp add: Let_def)
    then show ?thesis using keys_grow by fastforce
  qed
qed simp

lemma hardware_check_exact:
  "validate_hardware_info Y yaml current = Inr () \<longleftrightarrow>
     \<not> y_defined Y (y_get Y yaml ''hardware_info'') \<or> list_all (agrees Y (y_get Y yaml ''hardware_info'')) current"
proof (cases "list_all (agrees Y (y_get Y yaml ''hardware_info'')) current")
  case True
  then show ?thesis by (simp add: validate_hardware_info_def check_hardware_info_def keys_agree)
next
  case False
  then have "current \<noteq> []" by auto
  then show ?thesis using False keys_differ [OF False, of None]
    by (auto simp: validate_hardware_info_def check_hardware_info_def split: sum.splits option.splits)
qed

section \<open>What arrives\<close>

lemma le_length [simp]: "length (le_bytes k v) = k"
  by (induction k arbitrary: v) auto

lemma le_value_bytes: "v < 256 ^ k \<Longrightarrow> le_value (le_bytes k v) = v"
proof (induction k arbitrary: v)
  case (Suc k)
  then have "v div 256 < 256 ^ k" by (simp add: less_mult_imp_div_less mult.commute)
  then show ?case using Suc.IH by (simp add: of_char_of)
qed simp

lemma le_digit: "(of_char c + 256 * v) mod 256 = (of_char c :: nat)" "(of_char c + 256 * v) div 256 = (v :: nat)"
proof -
  have "n < 256 \<Longrightarrow> (n + 256 * v) mod 256 = n \<and> (n + 256 * v) div 256 = v" for n :: nat by simp
  moreover have "(of_char c :: nat) < 256" by simp
  ultimately show "(of_char c + 256 * v) mod 256 = (of_char c :: nat)" "(of_char c + 256 * v) div 256 = v" by blast+
qed

lemma le_bytes_value: "le_bytes (length cs) (le_value cs) = cs"
  by (induction cs) (simp_all add: le_digit)

lemma le_value_bound: "le_value cs < 256 ^ length cs"
proof (induction cs)
  case (Cons c cs)
  have "(of_char c :: nat) < 256" by simp
  then have "of_char c + 256 * le_value cs < 256 * 256 ^ length cs" using Cons by linarith
  then show ?case by simp
qed simp

lemma wire_sizes: "k_wire_header_size = 10" "k_wire_tid_size = 8" "k_wire_namelen_size = 2"
  by (simp_all add: k_wire_header_size_def k_wire_tid_size_def k_wire_namelen_size_def)

lemma codec:
  "decode_non_ros_thread_info buf = Some info \<longleftrightarrow> encode_non_ros_thread_info k_max_wire_size info = Some buf"
proof
  assume d: "decode_non_ros_thread_info buf = Some info"
  let ?t = "take 8 buf" and ?n = "take 2 (drop 8 buf)"
  have dec: "decode_non_ros_thread_info buf = (if length buf < 10 then None else if length buf \<noteq> 10 + le_value ?n then None
      else Some \<lparr>nr_tid = of_nat (le_value ?t), nr_name = drop 10 buf\<rparr>)"
    unfolding decode_non_ros_thread_info_def Let_def wire_sizes by (rule refl)
  have l1: "10 \<le> length buf" by (rule ccontr) (use d dec in simp)
  have l2: "length buf = 10 + le_value ?n" by (rule ccontr) (use d dec l1 in simp)
  have "Some info = Some \<lparr>nr_tid = of_nat (le_value ?t), nr_name = drop 10 buf\<rparr>"
    unfolding d [symmetric] dec using l1 l2 by (metis not_less)
  then have i: "info = \<lparr>nr_tid = of_nat (le_value ?t), nr_name = drop 10 buf\<rparr>" by blast
  have ln: "length (nr_name info) = le_value ?n" using l2 unfolding i by (simp only: non_ros_thread_info.simps length_drop)
  have s: "length ?t = 8" "length ?n = 2" using l1 by simp_all
  have bt: "le_value ?t < 2 ^ 64" using le_value_bound [of ?t] unfolding s by simp
  have bn: "le_value ?n < 65536" using le_value_bound [of ?n] unfolding s by simp
  have "unat (nr_tid info) = le_value ?t" using bt by (simp add: i unat_of_nat take_bit_nat_eq_self)
  then have e1: "le_bytes 8 (unat (nr_tid info)) = ?t" using le_bytes_value [of ?t] unfolding s by simp
  have e2: "le_bytes 2 (length (nr_name info)) = ?n" using le_bytes_value [of ?n] unfolding s ln .
  have "?t @ ?n @ drop 10 buf = buf"
    using append_take_drop_id [of 8 buf] append_take_drop_id [of 2 "drop 8 buf"] by simp
  then have whole: "le_bytes 8 (unat (nr_tid info)) @ le_bytes 2 (length (nr_name info)) @ nr_name info = buf"
    unfolding e1 e2 by (simp add: i)
  have "length (nr_name info) \<le> 65535" using bn ln by simp
  then show "encode_non_ros_thread_info k_max_wire_size info = Some buf"
    by (simp add: encode_non_ros_thread_info_def k_max_wire_size_def k_max_name_len_def wire_sizes whole)
next
  assume e: "encode_non_ros_thread_info k_max_wire_size info = Some buf"
  have l: "length (nr_name info) < 65536" "buf = le_bytes 8 (unat (nr_tid info)) @ le_bytes 2 (length (nr_name info)) @ nr_name info"
    using e by (auto simp: encode_non_ros_thread_info_def k_max_name_len_def k_wire_tid_size_def k_wire_namelen_size_def split: if_splits)
  have "unat (nr_tid info) < 256 ^ 8" by (rule order_less_le_trans [OF unsigned_less]) simp
  then have v: "le_value (le_bytes 8 (unat (nr_tid info))) = unat (nr_tid info)"
    "le_value (le_bytes 2 (length (nr_name info))) = length (nr_name info)" using l(1) by (simp_all add: le_value_bytes)
  show "decode_non_ros_thread_info buf = Some info"
    by (simp add: decode_non_ros_thread_info_def l(2) v k_wire_header_size_def k_wire_tid_size_def k_wire_namelen_size_def)
qed

text \<open>The announcements among the events, up to the one that ends the loop.\<close>

definition events_of :: "wake \<Rightarrow> listener_event list" where
  "events_of w = (case w of Wait_interrupted \<Rightarrow> [] | Wait_failed \<Rightarrow> [Listener_hangup] | Events es \<Rightarrow> es)"

definition announced :: "listener_event \<Rightarrow> non_ros_thread_info list" where
  "announced e = (case e of Readable (Datagram b) \<Rightarrow> (case decode_non_ros_thread_info b of None \<Rightarrow> [] | Some i \<Rightarrow> [i]) | _ \<Rightarrow> [])"

abbreviation goes_on :: "listener_event \<Rightarrow> bool" where "goes_on e \<equiv> e \<noteq> Stop_event \<and> e \<noteq> Listener_hangup"

lemma on_datagram_fold: "on_datagram callback r s = fold callback (announced (Readable r)) s"
proof (cases r)
  case (Datagram b)
  show ?thesis
  proof (cases "decode_non_ros_thread_info b")
    case (Some i)
    then have "length b \<le> k_max_wire_size" using codec [of b i]
      by (auto simp: encode_non_ros_thread_info_def k_wire_header_size_def k_wire_tid_size_def k_wire_namelen_size_def split: if_splits)
    then show ?thesis using Some Datagram by (simp add: on_datagram_def announced_def)
  qed (use Datagram in \<open>simp add: on_datagram_def announced_def\<close>)
qed (simp add: on_datagram_def announced_def)

lemma on_events_fold:
  "on_events callback es s = (\<not> list_all goes_on es, fold callback (concat (map announced (takeWhile goes_on es))) s)"
  by (induction callback es s rule: on_events.induct) (auto simp: on_datagram_fold, auto simp: announced_def)

lemma run_listener_fold:
  "run_listener callback ws s = (\<not> list_all goes_on (concat (map events_of ws)),
     fold callback (concat (map announced (takeWhile goes_on (concat (map events_of ws))))) s)"
proof (induction callback ws s rule: run_listener.induct)
  case (4 callback es ws s)
  show ?case
  proof (cases "list_all goes_on es")
    case True
    then have t: "takeWhile goes_on es = es" "takeWhile goes_on (es @ xs) = es @ takeWhile goes_on xs" for xs
      by (simp_all add: list_all_iff takeWhile_eq_all_conv)
    have r: "on_events callback es s = (False, fold callback (concat (map announced es)) s)" using True unfolding on_events_fold t(1) by simp
    show ?thesis using 4 [OF r [symmetric]] True by (simp add: r t(2) events_of_def)
  next
    case False
    then have "takeWhile goes_on (es @ xs) = takeWhile goes_on es" for xs unfolding list_all_iff by (auto intro: takeWhile_append1)
    then show ?thesis using False by (simp add: events_of_def on_events_fold)
  qed
qed (simp_all add: events_of_def)

text \<open>Claim C36. Announcements survive the datagram. A datagram is read as an announcement exactly if it is the
  encoding of it, so nothing is misread; an announcement is refused by the sender only when the name has more
  than 65535 bytes. The reader thread hands over exactly the announcements among what it receives before it is
  stopped, in their order, whatever malformed datagrams, interrupted waits and failed reads come between.\<close>

theorem announcements_arrive:
  "(decode_non_ros_thread_info buf = Some info \<longleftrightarrow> encode_non_ros_thread_info k_max_wire_size info = Some buf) \<and>
   (encode_non_ros_thread_info k_max_wire_size info = None \<longleftrightarrow> length (nr_name info) > 65535) \<and>
   run_listener callback ws s = (\<not> list_all goes_on (concat (map events_of ws)),
     fold callback (concat (map announced (takeWhile goes_on (concat (map events_of ws))))) s)"
  using codec run_listener_fold
  by (auto simp: encode_non_ros_thread_info_def k_max_wire_size_def k_max_name_len_def)

end
