(* ===== verification/Cie_Node_Inv.thy ===== *)
theory Cie_Node_Inv
  imports Cie_Node "HOL-Library.Multiset"
begin

text \<open>
  What the thread configurator node keeps true: its maps point at the right entries, the number of entries not
  yet applied is exact, and no callback group is known to two entries; and what its passes do.
\<close>

section \<open>System calls leave the configuration alone\<close>

definition only_calls :: "cnode \<Rightarrow> cnode \<Rightarrow> bool" where
  "only_calls s s' \<longleftrightarrow> callback_group_configs s' = callback_group_configs s \<and>
     id_to_callback_group_config s' = id_to_callback_group_config s \<and>
     node_to_wildcard_config s' = node_to_wildcard_config s \<and>
     non_ros_thread_configs s' = non_ros_thread_configs s \<and>
     id_to_non_ros_thread_config s' = id_to_non_ros_thread_config s \<and>
     kernel_thread_configs s' = kernel_thread_configs s \<and> irq_configs s' = irq_configs s \<and>
     unapplied_num s' = unapplied_num s \<and> configured_at_least_once s' = configured_at_least_once s"

lemma only_calls_refl [simp]: "only_calls s s" by (simp add: only_calls_def)

lemma only_calls_trans [trans]: "only_calls s t \<Longrightarrow> only_calls t u \<Longrightarrow> only_calls s u"
  by (simp add: only_calls_def)

lemma only_calls_frame:
  assumes "only_calls s s'"
  shows "callback_group_configs s' = callback_group_configs s"
    and "id_to_callback_group_config s' = id_to_callback_group_config s"
    and "node_to_wildcard_config s' = node_to_wildcard_config s"
    and "non_ros_thread_configs s' = non_ros_thread_configs s"
    and "id_to_non_ros_thread_config s' = id_to_non_ros_thread_config s"
    and "kernel_thread_configs s' = kernel_thread_configs s" and "irq_configs s' = irq_configs s"
    and "unapplied_num s' = unapplied_num s"
  using assms by (auto simp: only_calls_def)

lemma ask_frame: "ask os c s = (ok, s1) \<Longrightarrow> only_calls s s1"
  by (auto simp: ask_def only_calls_def)

lemma ask_all_frame: "ask_all os cs s = (ok, s1) \<Longrightarrow> only_calls s s1"
proof (induction cs arbitrary: s)
  case (Cons c cs)
  then show ?case by (auto split: prod.splits if_splits dest!: ask_frame intro: only_calls_trans)
qed simp

lemma cgroup_frame: "set_affinity_by_cgroup os tid cpus s = (ok, s1) \<Longrightarrow> only_calls s s1"
proof -
  assume "set_affinity_by_cgroup os tid cpus s = (ok, s1)"
  then have "only_calls (s\<lparr>cgroup_num := cgroup_num s + 1\<rparr>) s1"
    unfolding set_affinity_by_cgroup_def Let_def by (rule ask_all_frame)
  moreover have "only_calls s (s\<lparr>cgroup_num := cgroup_num s + 1\<rparr>)" by (simp add: only_calls_def)
  ultimately show ?thesis using only_calls_trans by blast
qed

lemma affinity_frame: "issue_affinity_syscalls os p cpus tid s = (ok, s1) \<Longrightarrow> only_calls s s1"
  by (auto simp: issue_affinity_syscalls_def split: if_splits dest: ask_frame cgroup_frame)

lemma issue_syscalls_frame: "issue_syscalls os a tid s = (ok, s1) \<Longrightarrow> only_calls s s1"
  by (auto simp: issue_syscalls_def split: option.splits prod.splits if_splits
      dest!: affinity_frame ask_all_frame intro: only_calls_trans)

lemmas issued = only_calls_frame [OF issue_syscalls_frame]

section \<open>Positions of entries\<close>

lemma index_by_snoc:
  "index_by P key (cs @ [c]) = (if P c then (index_by P key cs)(key c \<mapsto> length cs) else index_by P key cs)"
  by (simp add: index_by_def enumerate_append_eq)

lemma index_by_Some:
  assumes "distinct (map key (filter P cs))"
  shows "index_by P key cs k = Some i \<longleftrightarrow> i < length cs \<and> P (cs ! i) \<and> key (cs ! i) = k"
  using assms
proof (induction cs rule: rev_induct)
  case (snoc c cs)
  then have ih: "index_by P key cs k = Some i \<longleftrightarrow> i < length cs \<and> P (cs ! i) \<and> key (cs ! i) = k" by simp
  show ?case
  proof (cases "P c \<and> key c = k")
    case True
    have "k \<notin> key ` set (filter P cs)" using snoc.prems True by auto
    then have "\<not> (i < length cs \<and> P (cs ! i) \<and> key (cs ! i) = k)" by (auto simp: image_iff)
    then show ?thesis using True by (auto simp: index_by_snoc nth_append less_Suc_eq)
  next
    case False
    then show ?thesis using ih by (auto simp: index_by_snoc nth_append less_Suc_eq)
  qed
qed (simp add: index_by_def)

lemma index_by_cong:
  assumes "map (\<lambda>c. (P c, key c)) cs = map (\<lambda>c. (P c, key c)) cs'"
  shows "index_by P key cs = index_by P key cs'"
  using assms
proof (induction cs arbitrary: cs' rule: rev_induct)
  case (snoc c cs)
  then obtain c' ds where cs': "cs' = ds @ [c']" by (cases cs' rule: rev_cases) auto
  then have "length cs = length ds" using map_eq_imp_length_eq [OF snoc.prems] by simp
  then show ?case using snoc cs' by (auto simp: index_by_snoc)
qed simp

lemma wildcard_string: "is_wildcard s \<Longrightarrow> s = wildcard_prefix s @ ''/*''"
  using append_take_drop_id [of "length s - 2" s] by (simp add: is_wildcard_def wildcard_prefix_def)

lemma distinct_part: "distinct (map f xs) \<Longrightarrow> (\<And>x y. P x \<Longrightarrow> P y \<Longrightarrow> g x = g y \<Longrightarrow> f x = f y) \<Longrightarrow> distinct (map g (filter P xs))"
proof (induction xs)
  case (Cons x xs)
  have "g x \<noteq> g y" if "P x" "y \<in> set xs" "P y" for y
  proof
    assume "g x = g y"
    then have "f x = f y" using that Cons.prems(2) by blast
    then show False using that(2) Cons.prems(1) by auto
  qed
  then have "P x \<Longrightarrow> g x \<notin> g ` {y \<in> set xs. P y}" by blast
  moreover have "distinct (map g (filter P xs))" by (rule Cons.IH [OF _ Cons.prems(2)]) (use Cons.prems(1) in simp)
  ultimately show ?case by simp
qed simp

lemma index_exact_Some:
  "distinct (map exact_key cs) \<Longrightarrow> index_exact cs k = Some i \<longleftrightarrow> i < length cs \<and> \<not> wild (cs ! i) \<and> exact_key (cs ! i) = k"
  unfolding index_exact_def by (rule index_by_Some) (rule distinct_part [of exact_key], auto)

lemma index_wildcard_Some:
  assumes "distinct (map exact_key cs)"
  shows "index_wildcard cs k = Some i \<longleftrightarrow> i < length cs \<and> wild (cs ! i) \<and> wild_key (cs ! i) = k"
  unfolding index_wildcard_def
proof (rule index_by_Some, rule distinct_part [OF assms])
  fix x y :: thread_config assume "wild x" "wild y" "wild_key x = wild_key y"
  then show "exact_key x = exact_key y"
    using wildcard_string [of "thread_str x"] wildcard_string [of "thread_str y"] by simp
qed

lemma index_name_Some:
  "distinct (map thread_str cs) \<Longrightarrow> index_name cs k = Some i \<longleftrightarrow> i < length cs \<and> thread_str (cs ! i) = k"
  unfolding index_name_def by (subst index_by_Some) auto

definition shape :: "thread_config list \<Rightarrow> (u64 \<times> string) list" where
  "shape cs = map exact_key cs"

lemma shape_eq: "shape cs = shape cs' \<longleftrightarrow> length cs = length cs' \<and> (\<forall>i<length cs. exact_key (cs ! i) = exact_key (cs' ! i))"
  by (auto simp: shape_def list_eq_iff_nth_eq)

lemma shape_index:
  assumes e: "shape cs = shape cs'"
  shows "index_exact cs = index_exact cs'" and "index_wildcard cs = index_wildcard cs'"
    and "distinct (map exact_key cs) = distinct (map exact_key cs')" and "length cs = length cs'"
proof -
  have n: "length cs = length cs'" "\<And>i. i < length cs \<Longrightarrow> exact_key (cs ! i) = exact_key (cs' ! i)"
    using e by (auto simp: shape_eq)
  then show "index_exact cs = index_exact cs'" "index_wildcard cs = index_wildcard cs'"
    unfolding index_exact_def index_wildcard_def by (intro index_by_cong nth_equalityI; simp)+
  show "distinct (map exact_key cs) = distinct (map exact_key cs')" "length cs = length cs'"
    using e n by (simp_all add: shape_def)
qed

section \<open>Entries not yet applied\<close>

definition unapplied :: "thread_config list \<Rightarrow> nat" where
  "unapplied cs = length (filter (\<lambda>c. \<not> applied c) cs)"

lemma unapplied_sum: "unapplied cs = (\<Sum>c\<leftarrow>cs. if applied c then 0 else 1)"
  by (induction cs) (auto simp: unapplied_def)

lemma unapplied_update:
  assumes "i < length cs"
  shows "unapplied (cs[i := c]) + (if applied (cs ! i) then 0 else 1) = unapplied cs + (if applied c then 0 else 1)"
proof -
  have le: "(if applied (cs ! i) then 0 else 1) \<le> unapplied cs"
    using assms elem_le_sum_list [of i "map (\<lambda>c. if applied c then 0 else 1 :: nat) cs"] by (simp add: unapplied_sum)
  then show ?thesis
    using assms sum_list_update [of i "map (\<lambda>c. if applied c then 0 else 1 :: nat) cs" "if applied c then 0 else 1"]
    by (simp add: unapplied_sum map_update)
qed

lemma unapplied_same: "i < length cs \<Longrightarrow> applied c = applied (cs ! i) \<Longrightarrow> unapplied (cs[i := c]) = unapplied cs"
  using unapplied_update [of i cs c] by simp

lemma unapplied_none: "unapplied cs = 0 \<longleftrightarrow> (\<forall>c\<in>set cs. applied c)"
  by (auto simp: unapplied_def filter_empty_conv)

lemma unapplied_all: "\<forall>c\<in>set cs. \<not> applied c \<Longrightarrow> unapplied cs = length cs"
  by (simp add: unapplied_def)

section \<open>Invariants\<close>

text \<open>An entry knows a callback group when it has a thread for it.\<close>

definition knows :: "thread_config \<Rightarrow> string \<Rightarrow> bool" where
  "knows c gid \<longleftrightarrow> (if wild c then gid \<in> fst ` set (matched_tids c) else thread_str c = gid \<and> thread_id c \<noteq> -1)"

definition groups_inv :: "cnode \<Rightarrow> bool" where
  "groups_inv s \<longleftrightarrow> distinct (map exact_key (callback_group_configs s)) \<and>
     id_to_callback_group_config s = index_exact (callback_group_configs s) \<and>
     node_to_wildcard_config s = index_wildcard (callback_group_configs s) \<and>
     (\<forall>c\<in>set (callback_group_configs s). wild c \<longrightarrow>
        (\<forall>gid\<in>fst ` set (matched_tids c). extract_node_part gid = wildcard_prefix (thread_str c))) \<and>
     (\<forall>c\<in>set (callback_group_configs s). \<forall>e\<in>set (callback_group_configs s). \<forall>gid.
        cfg_domain_id c = cfg_domain_id e \<longrightarrow> wild c \<longrightarrow> \<not> wild e \<longrightarrow> \<not> (knows c gid \<and> knows e gid))"

definition threads_inv :: "cnode \<Rightarrow> bool" where
  "threads_inv s \<longleftrightarrow> distinct (map thread_str (non_ros_thread_configs s)) \<and>
     id_to_non_ros_thread_config s = index_name (non_ros_thread_configs s)"

definition counter_inv :: "cnode \<Rightarrow> bool" where
  "counter_inv s \<longleftrightarrow>
     unapplied_num s = int (unapplied (callback_group_configs s) + unapplied (non_ros_thread_configs s))"

lemma inv_only_calls:
  assumes "only_calls s s'"
  shows "groups_inv s' = groups_inv s" and "threads_inv s' = threads_inv s" and "counter_inv s' = counter_inv s"
  by (simp_all add: groups_inv_def threads_inv_def counter_inv_def only_calls_frame [OF assms])

subsection \<open>Threads outside ROS\<close>

lemma threads_shape: "map thread_str cs = map thread_str cs' \<Longrightarrow> index_name cs = index_name cs'"
  unfolding index_name_def by (rule index_by_cong) (auto simp: list_eq_iff_nth_eq [of "map _ _"])

lemma names_update: "thread_str c = thread_str (cs ! i) \<Longrightarrow> map thread_str (cs[i := c]) = map thread_str cs"
proof (cases "i < length cs")
  case True
  assume "thread_str c = thread_str (cs ! i)"
  then show ?thesis using True by (simp add: map_update list_update_same_conv)
qed (simp add: list_update_beyond)

lemma on_thread_names:
  "(\<And>c. thread_str (f c) = thread_str c) \<Longrightarrow>
   map thread_str (non_ros_thread_configs (on_thread i f s)) = map thread_str (non_ros_thread_configs s)"
  by (simp add: on_thread_def names_update)

lemma on_thread_inv:
  assumes inv: "threads_inv s" and f: "\<And>c. thread_str (f c) = thread_str c"
  shows "threads_inv (on_thread i f s)"
proof -
  note n = on_thread_names [OF f, where i = i and s = s]
  have "id_to_non_ros_thread_config (on_thread i f s) = id_to_non_ros_thread_config s" by (simp add: on_thread_def)
  then show ?thesis using inv n threads_shape [OF n] by (simp add: threads_inv_def)
qed

lemma count_frame [simp]:
  "non_ros_thread_configs (count_applied s) = non_ros_thread_configs s"
  "callback_group_configs (count_applied s) = callback_group_configs s"
  "threads_inv (count_applied s) = threads_inv s" "groups_inv (count_applied s) = groups_inv s"
  by (simp_all add: count_applied_def threads_inv_def groups_inv_def)

lemma on_thread_counter:
  assumes "i < length (non_ros_thread_configs s)" and "\<And>c. applied (f c) = applied c"
  shows "counter_inv (on_thread i f s) = counter_inv s"
  using assms by (simp add: counter_inv_def on_thread_def unapplied_same)

lemma apply_thread_counter:
  assumes "i < length (non_ros_thread_configs s)" and "\<not> applied (non_ros_thread_configs s ! i)" and "counter_inv s"
  shows "unapplied_num s - 1 = int (unapplied (callback_group_configs s) +
    unapplied ((non_ros_thread_configs s)[i := (non_ros_thread_configs s ! i)\<lparr>applied := True\<rparr>]))"
  using assms unapplied_update [of i "non_ros_thread_configs s" "(non_ros_thread_configs s ! i)\<lparr>applied := True\<rparr>"]
  by (simp add: counter_inv_def)

lemma non_ros_frame:
  "callback_group_configs (non_ros_thread_callback os n t s) = callback_group_configs s"
  "id_to_callback_group_config (non_ros_thread_callback os n t s) = id_to_callback_group_config s"
  "node_to_wildcard_config (non_ros_thread_callback os n t s) = node_to_wildcard_config s"
  by (auto simp: non_ros_thread_callback_def on_thread_def count_applied_def issued Let_def split: option.split prod.split)

lemma non_ros_groups: "groups_inv (non_ros_thread_callback os n t s) = groups_inv s"
  by (simp add: groups_inv_def non_ros_frame)

lemma non_ros_names:
  "map thread_str (non_ros_thread_configs (non_ros_thread_callback os n t s)) = map thread_str (non_ros_thread_configs s)"
  by (auto simp: non_ros_thread_callback_def Let_def on_thread_names issued(4) split: option.split prod.split)

lemma non_ros_threads: "threads_inv s \<Longrightarrow> threads_inv (non_ros_thread_callback os n t s)"
  by (auto simp: non_ros_thread_callback_def Let_def inv_only_calls [OF issue_syscalls_frame]
      split: option.split prod.split intro!: on_thread_inv)

lemma non_ros_counter:
  assumes t: "threads_inv s" and c: "counter_inv s"
  shows "counter_inv (non_ros_thread_callback os n t s)"
proof (cases "id_to_non_ros_thread_config s n")
  case (Some i)
  let ?s1 = "on_thread i (\<lambda>c. c\<lparr>thread_id := t\<rparr>) s"
  have i: "i < length (non_ros_thread_configs s)" using t Some by (simp add: threads_inv_def index_name_Some)
  obtain ok s2 where r: "issue_syscalls os (attrs (non_ros_thread_configs ?s1 ! i)) t ?s1 = (ok, s2)"
    by (cases "issue_syscalls os (attrs (non_ros_thread_configs ?s1 ! i)) t ?s1") auto
  have "counter_inv ?s1" using on_thread_counter [OF i, of "\<lambda>c. c\<lparr>thread_id := t\<rparr>"] c by simp
  then have c2: "counter_inv s2" using inv_only_calls(3) [OF issue_syscalls_frame [OF r]] by simp
  have i2: "i < length (non_ros_thread_configs s2)" using i by (simp add: issued [OF r] on_thread_def)
  have "non_ros_thread_callback os n t s = (if \<not> ok then s2 else if applied (non_ros_thread_configs s2 ! i) then s2
      else count_applied (on_thread i (\<lambda>c. c\<lparr>applied := True\<rparr>) s2))"
    using Some r by (simp add: non_ros_thread_callback_def Let_def)
  moreover have "\<not> applied (non_ros_thread_configs s2 ! i) \<Longrightarrow>
      counter_inv (count_applied (on_thread i (\<lambda>c. c\<lparr>applied := True\<rparr>) s2))"
    using apply_thread_counter [OF i2 _ c2] by (simp add: counter_inv_def count_applied_def on_thread_def)
  ultimately show ?thesis using c2 by simp
qed (use c in \<open>simp add: non_ros_thread_callback_def\<close>)

lemma listen_frame:
  "callback_group_configs (listen os ts s) = callback_group_configs s \<and>
   groups_inv (listen os ts s) = groups_inv s \<and>
   map thread_str (non_ros_thread_configs (listen os ts s)) = map thread_str (non_ros_thread_configs s) \<and>
   (threads_inv s \<longrightarrow> threads_inv (listen os ts s)) \<and>
   (threads_inv s \<longrightarrow> counter_inv s \<longrightarrow> counter_inv (listen os ts s))"
  unfolding listen_def
proof (induction ts arbitrary: s)
  case (Cons t ts)
  obtain n i where t: "t = (n, i)" by (cases t)
  show ?case
    using Cons.IH [of "non_ros_thread_callback os n i s"] non_ros_frame(1) [of os n i s] non_ros_groups [of os n i s]
      non_ros_names [of os n i s] non_ros_threads [of s os n i] non_ros_counter [of s os n i] t by simp
qed simp

subsection \<open>Callback groups\<close>

text \<open>An entry is replaced by one of the same key. What the others know stays.\<close>

lemma groups_invI:
  assumes inv: "groups_inv s" and i: "i < length (callback_group_configs s)"
    and s': "callback_group_configs s' = (callback_group_configs s)[i := c]"
      "id_to_callback_group_config s' = id_to_callback_group_config s"
      "node_to_wildcard_config s' = node_to_wildcard_config s"
    and key: "exact_key c = exact_key (callback_group_configs s ! i)"
    and part: "\<And>gid. wild c \<Longrightarrow> gid \<in> fst ` set (matched_tids c) \<Longrightarrow> extract_node_part gid = wildcard_prefix (thread_str c)"
    and new: "\<And>gid e. knows c gid \<Longrightarrow> e \<in> set (callback_group_configs s) \<Longrightarrow> cfg_domain_id e = cfg_domain_id c \<Longrightarrow>
      wild c \<noteq> wild e \<Longrightarrow> \<not> knows e gid"
  shows "groups_inv s'"
proof -
  let ?cs = "callback_group_configs s" and ?cs' = "(callback_group_configs s)[i := c]"
  have "shape ?cs' = shape ?cs"
    using i key by (simp add: shape_def map_update list_update_same_conv)
  note sh = shape_index [OF this]
  have el: "x \<in> set ?cs' \<Longrightarrow> x = c \<or> x \<in> set ?cs" for x using set_update_subset_insert [of ?cs i c] by blast
  have old: "\<And>x gid. x \<in> set ?cs \<Longrightarrow> wild x \<Longrightarrow> gid \<in> fst ` set (matched_tids x) \<Longrightarrow>
      extract_node_part gid = wildcard_prefix (thread_str x)"
    "\<And>x y gid. x \<in> set ?cs \<Longrightarrow> y \<in> set ?cs \<Longrightarrow> cfg_domain_id x = cfg_domain_id y \<Longrightarrow> wild x \<Longrightarrow> \<not> wild y \<Longrightarrow>
      \<not> (knows x gid \<and> knows y gid)"
    using inv unfolding groups_inv_def by blast+
  have "\<forall>x\<in>set ?cs'. wild x \<longrightarrow> (\<forall>gid\<in>fst ` set (matched_tids x). extract_node_part gid = wildcard_prefix (thread_str x))"
    using el old(1) part by blast
  moreover have "\<not> (knows x gid \<and> knows y gid)"
    if "x \<in> set ?cs'" "y \<in> set ?cs'" "cfg_domain_id x = cfg_domain_id y" "wild x" "\<not> wild y" for x y gid
    using el [OF that(1)] el [OF that(2)] that(3-5) new old(2) [of x y gid] by metis
  ultimately show ?thesis using inv sh s' unfolding groups_inv_def by simp
qed

lemma exclusive:
  assumes "groups_inv s" and "c \<in> set (callback_group_configs s)" and "e \<in> set (callback_group_configs s)"
    and "cfg_domain_id e = cfg_domain_id c" and "wild c \<noteq> wild e" and "knows c gid"
  shows "\<not> knows e gid"
proof (cases "wild c")
  case True
  then show ?thesis using assms unfolding groups_inv_def by metis
next
  case False
  then have "wild e" using assms(5) by simp
  then show ?thesis using assms False unfolding groups_inv_def by metis
qed

lemma apply_group_inv:
  assumes inv: "groups_inv s" and i: "i < length (callback_group_configs s)"
  shows "groups_inv (on_group i (\<lambda>c. c\<lparr>applied := True\<rparr>) s)"
proof -
  let ?c = "callback_group_configs s ! i"
  have m: "?c \<in> set (callback_group_configs s)" using i by simp
  have k: "knows (?c\<lparr>applied := True\<rparr>) gid = knows ?c gid" for gid by (simp add: knows_def)
  have "wild ?c \<Longrightarrow> gid \<in> fst ` set (matched_tids ?c) \<Longrightarrow> extract_node_part gid = wildcard_prefix (thread_str ?c)" for gid
    using inv m unfolding groups_inv_def by blast
  moreover have "knows ?c gid \<Longrightarrow> e \<in> set (callback_group_configs s) \<Longrightarrow> cfg_domain_id e = cfg_domain_id ?c \<Longrightarrow>
      wild ?c \<noteq> wild e \<Longrightarrow> \<not> knows e gid" for gid e
    using exclusive [OF inv m] by blast
  ultimately show ?thesis
    by (intro groups_invI [OF inv i, of _ "?c\<lparr>applied := True\<rparr>"]) (auto simp: on_group_def k)
qed

lemma apply_group_counter:
  assumes "i < length (callback_group_configs s)" and "\<not> applied (callback_group_configs s ! i)" and "counter_inv s"
  shows "unapplied_num s - 1 = int (unapplied ((callback_group_configs s)[i := (callback_group_configs s ! i)\<lparr>applied := True\<rparr>]) +
    unapplied (non_ros_thread_configs s))"
  using assms unapplied_update [of i "callback_group_configs s" "(callback_group_configs s ! i)\<lparr>applied := True\<rparr>"]
  by (simp add: counter_inv_def)

lemma on_group_frame [simp]:
  "non_ros_thread_configs (on_group i f s) = non_ros_thread_configs s"
  "id_to_non_ros_thread_config (on_group i f s) = id_to_non_ros_thread_config s"
  "threads_inv (on_group i f s) = threads_inv s"
  "id_to_callback_group_config (on_group i f s) = id_to_callback_group_config s"
  "node_to_wildcard_config (on_group i f s) = node_to_wildcard_config s"
  "unapplied_num (on_group i f s) = unapplied_num s"
  "callback_group_configs (on_group i f s) = (callback_group_configs s)[i := f (callback_group_configs s ! i)]"
  by (simp_all add: on_group_def threads_inv_def)

lemma configure_group_inv:
  assumes inv: "groups_inv s" and t: "threads_inv s" and cnt: "counter_inv s" and i: "i < length (callback_group_configs s)"
    and w: "wild (callback_group_configs s ! i) \<Longrightarrow>
      extract_node_part gid = wildcard_prefix (thread_str (callback_group_configs s ! i)) \<and>
      (\<forall>e\<in>set (callback_group_configs s). cfg_domain_id e = cfg_domain_id (callback_group_configs s ! i) \<longrightarrow>
         \<not> wild e \<longrightarrow> thread_str e \<noteq> gid)"
    and x: "\<not> wild (callback_group_configs s ! i) \<Longrightarrow> thread_str (callback_group_configs s ! i) = gid \<and>
      (\<forall>e\<in>set (callback_group_configs s). cfg_domain_id e = cfg_domain_id (callback_group_configs s ! i) \<longrightarrow>
         wild e \<longrightarrow> \<not> knows e gid)"
  shows "groups_inv (configure_group os i gid tid s) \<and> threads_inv (configure_group os i gid tid s) \<and>
    counter_inv (configure_group os i gid tid s)"
proof -
  let ?c = "callback_group_configs s ! i"
  let ?f = "\<lambda>c. if wild c then c\<lparr>matched_tids := put gid tid (matched_tids c)\<rparr> else c\<lparr>thread_id := tid\<rparr>"
  let ?s1 = "on_group i ?f s"
  have m: "?c \<in> set (callback_group_configs s)" using i by simp
  have k: "knows (?f ?c) g \<Longrightarrow> g = gid \<or> wild ?c \<and> knows ?c g" for g using x by (auto simp: knows_def split: if_splits)
  have one: "groups_inv ?s1"
  proof (rule groups_invI [OF inv i])
    fix g assume "wild (?f ?c)" "g \<in> fst ` set (matched_tids (?f ?c))"
    then show "extract_node_part g = wildcard_prefix (thread_str (?f ?c))"
      using w inv m unfolding groups_inv_def by (auto split: if_splits)
  next
    fix g e assume kn: "knows (?f ?c) g" and e: "e \<in> set (callback_group_configs s)" "cfg_domain_id e = cfg_domain_id (?f ?c)"
      "wild (?f ?c) \<noteq> wild e"
    have e': "cfg_domain_id e = cfg_domain_id ?c" "wild ?c \<noteq> wild e" using e by (auto split: if_splits)
    show "\<not> knows e g"
    proof (cases "g = gid")
      case True
      then show ?thesis using w x e' e(1) by (auto simp: knows_def)
    next
      case False
      then have "wild ?c" "knows ?c g" using k [OF kn] by auto
      then show ?thesis using exclusive [OF inv m e(1) e'] by blast
    qed
  qed auto
  obtain ok s2 where r: "issue_syscalls os (attrs (callback_group_configs ?s1 ! i)) tid ?s1 = (ok, s2)"
    by (cases "issue_syscalls os (attrs (callback_group_configs ?s1 ! i)) tid ?s1") auto
  note fr = inv_only_calls [OF issue_syscalls_frame [OF r]]
  have c1: "counter_inv ?s1" using cnt i by (simp add: counter_inv_def unapplied_same)
  have i2: "i < length (callback_group_configs s2)" using i by (simp add: issued [OF r])
  have res: "configure_group os i gid tid s = (if \<not> ok then s2 else if applied (callback_group_configs s2 ! i) then s2
      else count_applied (on_group i (\<lambda>c. c\<lparr>applied := True\<rparr>) s2))"
    using r by (simp add: configure_group_def Let_def)
  have two: "groups_inv s2" "threads_inv s2" "counter_inv s2" using one t c1 fr by simp_all
  have "\<not> applied (callback_group_configs s2 ! i) \<Longrightarrow>
      counter_inv (count_applied (on_group i (\<lambda>c. c\<lparr>applied := True\<rparr>) s2))"
    using apply_group_counter [OF i2 _ two(3)] by (simp add: counter_inv_def count_applied_def)
  then show ?thesis unfolding res using two apply_group_inv [OF two(1) i2] by simp
qed

lemma groups_lookup:
  assumes "groups_inv s"
  shows "id_to_callback_group_config s k = Some i \<longleftrightarrow> i < length (callback_group_configs s) \<and>
      \<not> wild (callback_group_configs s ! i) \<and> exact_key (callback_group_configs s ! i) = k"
    and "node_to_wildcard_config s k = Some i \<longleftrightarrow> i < length (callback_group_configs s) \<and>
      wild (callback_group_configs s ! i) \<and> wild_key (callback_group_configs s ! i) = k"
proof -
  have d: "distinct (map exact_key (callback_group_configs s))"
    and m: "id_to_callback_group_config s = index_exact (callback_group_configs s)"
      "node_to_wildcard_config s = index_wildcard (callback_group_configs s)"
    using assms unfolding groups_inv_def by blast+
  show "id_to_callback_group_config s k = Some i \<longleftrightarrow> i < length (callback_group_configs s) \<and>
      \<not> wild (callback_group_configs s ! i) \<and> exact_key (callback_group_configs s ! i) = k"
    unfolding m by (rule index_exact_Some [OF d])
  show "node_to_wildcard_config s k = Some i \<longleftrightarrow> i < length (callback_group_configs s) \<and>
      wild (callback_group_configs s ! i) \<and> wild_key (callback_group_configs s ! i) = k"
    unfolding m by (rule index_wildcard_Some [OF d])
qed

lemma same_wildcard:
  assumes d: "distinct (map exact_key (callback_group_configs s))" and e: "e \<in> set (callback_group_configs s)" "wild e"
    and j: "j < length (callback_group_configs s)" "wild (callback_group_configs s ! j)"
      "wild_key (callback_group_configs s ! j) = wild_key e"
  shows "e = callback_group_configs s ! j"
proof -
  obtain i where i: "i < length (callback_group_configs s)" "e = callback_group_configs s ! i"
    using e(1) by (auto simp: in_set_conv_nth)
  have "exact_key e = exact_key (callback_group_configs s ! j)"
    using wildcard_string [OF e(2)] wildcard_string [OF j(2)] j(3) by simp
  then show ?thesis using i j(1) d by (auto simp: distinct_conv_nth)
qed

lemma group_callback_inv:
  assumes inv: "groups_inv s" and t: "threads_inv s" and cnt: "counter_inv s"
  shows "groups_inv (callback_group_callback os d gid tid s) \<and> threads_inv (callback_group_callback os d gid tid s) \<and>
    counter_inv (callback_group_callback os d gid tid s)"
proof -
  let ?cs = "callback_group_configs s" and ?node = "(d, extract_node_part gid)"
  have dist: "distinct (map exact_key ?cs)"
    and parts: "\<And>c g. c \<in> set ?cs \<Longrightarrow> wild c \<Longrightarrow> g \<in> fst ` set (matched_tids c) \<Longrightarrow> extract_node_part g = wildcard_prefix (thread_str c)"
    using inv unfolding groups_inv_def by blast+
  show ?thesis
  proof (cases "id_to_callback_group_config s (d, gid)")
    case None
    show ?thesis
    proof (cases "node_to_wildcard_config s ?node")
      case (Some j)
      note j = Some [unfolded groups_lookup(2) [OF inv]]
      have no: "thread_str e \<noteq> gid" if e: "e \<in> set ?cs" "cfg_domain_id e = d" "\<not> wild e" for e
      proof
        assume g: "thread_str e = gid"
        obtain i where "i < length ?cs" "?cs ! i = e" using e(1) by (auto simp: in_set_conv_nth)
        then have "id_to_callback_group_config s (d, gid) = Some i" using g e groups_lookup(1) [OF inv, of "(d, gid)" i] by simp
        then show False using None by simp
      qed
      show ?thesis using configure_group_inv [OF inv t cnt, of j gid] None Some j no
        by (auto simp: callback_group_callback_def)
    qed (use None inv t cnt in \<open>simp add: callback_group_callback_def\<close>)
  next
    case (Some i)
    note i = Some [unfolded groups_lookup(1) [OF inv]]
    let ?f = "\<lambda>c. c\<lparr>matched_tids := erase gid (matched_tids c)\<rparr>"
    let ?s = "case node_to_wildcard_config s ?node of None \<Rightarrow> s | Some j \<Rightarrow> on_group j ?f s"
    have res: "callback_group_callback os d gid tid s = configure_group os i gid tid ?s"
      using Some by (simp add: callback_group_callback_def Let_def)
    have free: "groups_inv ?s \<and> threads_inv ?s \<and> counter_inv ?s \<and> length (callback_group_configs ?s) = length ?cs \<and>
        callback_group_configs ?s ! i = ?cs ! i \<and>
        (\<forall>e\<in>set (callback_group_configs ?s). cfg_domain_id e = d \<longrightarrow> wild e \<longrightarrow> \<not> knows e gid)"
    proof (cases "node_to_wildcard_config s ?node")
      case None
      have "\<not> knows e gid" if e: "e \<in> set ?cs" "cfg_domain_id e = d" "wild e" for e
      proof
        assume "knows e gid"
        then have w: "wild_key e = ?node" using e parts [of e gid] by (simp add: knows_def)
        obtain j where "j < length ?cs" "?cs ! j = e" using e(1) by (auto simp: in_set_conv_nth)
        then have "node_to_wildcard_config s ?node = Some j" using w e groups_lookup(2) [OF inv, of ?node j] by simp
        then show False using None by simp
      qed
      then show ?thesis using None inv t cnt by simp
    next
      case (Some j)
      note j = Some [unfolded groups_lookup(2) [OF inv]]
      have ne: "i \<noteq> j" using i j by auto
      have k: "knows (?f (?cs ! j)) g \<longleftrightarrow> g \<noteq> gid \<and> knows (?cs ! j) g" for g
        using j by (auto simp: knows_def erase_def)
      have m: "?cs ! j \<in> set ?cs" using j by simp
      have one: "groups_inv (on_group j ?f s)"
      proof (rule groups_invI [OF inv, of j _ "?f (?cs ! j)"])
        fix g e assume "knows (?f (?cs ! j)) g" "e \<in> set ?cs" "cfg_domain_id e = cfg_domain_id (?f (?cs ! j))"
          "wild (?f (?cs ! j)) \<noteq> wild e"
        then show "\<not> knows e g" using exclusive [OF inv m, of e g] k by simp
      next
        fix g assume "g \<in> fst ` set (matched_tids (?f (?cs ! j)))"
        then show "extract_node_part g = wildcard_prefix (thread_str (?f (?cs ! j)))" using parts [OF m] j by (auto simp: erase_def)
      qed (use j in auto)
      have "\<not> knows e gid" if e: "e \<in> set (?cs[j := ?f (?cs ! j)])" "cfg_domain_id e = d" "wild e" for e
      proof
        assume kn: "knows e gid"
        then have "e \<noteq> ?f (?cs ! j)" using k by auto
        then have old: "e \<in> set ?cs" using e(1) set_update_subset_insert by fastforce
        then have "wild_key e = ?node" using kn e parts [of e gid] by (simp add: knows_def)
        then have "e = ?cs ! j" using same_wildcard [OF dist old e(3), of j] j by simp
        moreover have "?cs ! j \<notin> set (?cs[j := ?f (?cs ! j)])"
        proof
          assume "?cs ! j \<in> set (?cs[j := ?f (?cs ! j)])"
          then obtain l where l: "l < length ?cs" "?cs[j := ?f (?cs ! j)] ! l = ?cs ! j" by (auto simp: in_set_conv_nth)
          show False
          proof (cases "l = j")
            case True
            then show ?thesis using l j kn k [of gid] \<open>e = ?cs ! j\<close> by simp
          next
            case False
            then have "?cs ! l = ?cs ! j" using l j by simp
            moreover have "exact_key (?cs ! l) \<noteq> exact_key (?cs ! j)"
              using False l(1) j nth_eq_iff_index_eq [OF dist, of l j] by simp
            ultimately show ?thesis by simp
          qed
        qed
        ultimately show False using e(1) by simp
      qed
      moreover have "counter_inv (on_group j ?f s)" using cnt j by (simp add: counter_inv_def unapplied_same)
      ultimately show ?thesis using Some one t ne by simp
    qed
    have d: "cfg_domain_id (?cs ! i) = d" "thread_str (?cs ! i) = gid" using i by auto
    show ?thesis unfolding res
      by (rule configure_group_inv) (use free i d in auto)
  qed
qed

subsection \<open>Reloading\<close>

definition fresh :: "thread_config \<Rightarrow> bool" where
  "fresh c \<longleftrightarrow> thread_id c = -1 \<and> matched_tids c = [] \<and> \<not> applied c"

lemma load_fresh:
  assumes "load_configs Y bound dd yaml = Inr (groups, threads, kts, iqs)"
  shows "(\<forall>c\<in>set groups. fresh c) \<and> (\<forall>c\<in>set threads. fresh c) \<and> distinct (map exact_key groups) \<and>
    distinct (map thread_str threads)"
proof -
  have y: "parse_yaml Y bound yaml dd = Inr (groups, threads)"
    using assms by (auto simp: load_configs_def split: sum.splits)
  then have t: "traverse (parse_callback_group Y bound dd) (y_elems Y (y_get Y yaml ''callback_groups'')) = Inr groups"
    "traverse (parse_non_ros_thread Y bound) (y_elems Y (y_get Y yaml ''non_ros_threads'')) = Inr threads"
    and k: "distinct (map group_key groups)" "distinct (map thread_str threads)"
    by (auto simp: parse_yaml_def split: sum.splits if_splits)
  have "parse_callback_group Y bound dd x = Inr c \<Longrightarrow> fresh c" for x c
    by (auto simp: parse_callback_group_def fresh_def split: option.splits if_splits sum.splits)
  then have "\<forall>c\<in>set groups. fresh c" by (rule traverse_all [OF t(1)])
  moreover have "parse_non_ros_thread Y bound x = Inr c \<Longrightarrow> fresh c" for x c
    by (auto simp: parse_non_ros_thread_def fresh_def split: option.splits sum.splits)
  then have "\<forall>c\<in>set threads. fresh c" by (rule traverse_all [OF t(2)])
  ultimately show ?thesis using k distinct_keys by blast
qed

lemma carry_group_frame:
  "thread_str (carry_group s c) = thread_str c" "cfg_domain_id (carry_group s c) = cfg_domain_id c"
  "applied (carry_group s c) = applied c" "attrs (carry_group s c) = attrs c"
  by (simp_all add: carry_group_def split: option.split)

lemma carry_knows:
  assumes inv: "groups_inv s" and f: "fresh c" and k: "knows (carry_group s c) gid"
  shows "\<exists>e\<in>set (callback_group_configs s). exact_key e = exact_key c \<and> knows e gid"
proof (cases "wild c")
  case True
  show ?thesis
  proof (cases "node_to_wildcard_config s (wild_key c)")
    case None
    then show ?thesis using k True f by (simp add: carry_group_def knows_def fresh_def)
  next
    case (Some j)
    note j = Some [unfolded groups_lookup(2) [OF inv]]
    have "thread_str (callback_group_configs s ! j) = thread_str c"
      using wildcard_string [OF True] wildcard_string [of "thread_str (callback_group_configs s ! j)"] j by simp
    then show ?thesis using j k True Some
      by (intro bexI [of _ "callback_group_configs s ! j"]) (simp_all add: carry_group_def knows_def)
  qed
next
  case False
  show ?thesis
  proof (cases "id_to_callback_group_config s (exact_key c)")
    case None
    then show ?thesis using k False f by (simp add: carry_group_def knows_def fresh_def)
  next
    case (Some j)
    note j = Some [unfolded groups_lookup(1) [OF inv]]
    then show ?thesis using k False Some
      by (intro bexI [of _ "callback_group_configs s ! j"]) (simp_all add: carry_group_def knows_def)
  qed
qed

lemma swap_groups_inv:
  assumes inv: "groups_inv s" and f: "\<forall>c\<in>set new. fresh c" and d: "distinct (map exact_key new)"
  shows "groups_inv (swap_groups new s)"
proof -
  have cs: "callback_group_configs (swap_groups new s) = map (carry_group s) new" by (simp add: swap_groups_def Let_def)
  have same: "map exact_key (map (carry_group s) new) = map exact_key new" by (simp add: carry_group_frame)
  have "distinct (map exact_key (map (carry_group s) new))" unfolding same by (rule d)
  moreover have "extract_node_part gid = wildcard_prefix (thread_str (carry_group s c))"
    if c: "c \<in> set new" "wild (carry_group s c)" "gid \<in> fst ` set (matched_tids (carry_group s c))" for c gid
  proof -
    have "knows (carry_group s c) gid" using c by (simp add: knows_def)
    then obtain e where e: "e \<in> set (callback_group_configs s)" "exact_key e = exact_key c" "knows e gid"
      using carry_knows [OF inv] f c(1) by blast
    then have "wild e" "gid \<in> fst ` set (matched_tids e)" using c(2) by (simp_all add: carry_group_frame knows_def)
    then have "extract_node_part gid = wildcard_prefix (thread_str e)" using inv e(1) unfolding groups_inv_def by blast
    then show ?thesis using e(2) by (simp add: carry_group_frame)
  qed
  moreover have "\<not> (knows (carry_group s c) gid \<and> knows (carry_group s e) gid)"
    if c: "c \<in> set new" "e \<in> set new" "cfg_domain_id c = cfg_domain_id e" "wild c" "\<not> wild e" for c e gid
  proof
    assume k: "knows (carry_group s c) gid \<and> knows (carry_group s e) gid"
    obtain c0 where c0: "c0 \<in> set (callback_group_configs s)" "exact_key c0 = exact_key c" "knows c0 gid"
      using carry_knows [OF inv, of c gid] f c(1) k by blast
    obtain e0 where e0: "e0 \<in> set (callback_group_configs s)" "exact_key e0 = exact_key e" "knows e0 gid"
      using carry_knows [OF inv, of e gid] f c(2) k by blast
    show False using exclusive [OF inv c0(1) e0(1)] c0 e0 c by simp
  qed
  ultimately show ?thesis unfolding groups_inv_def cs by (auto simp: swap_groups_def Let_def carry_group_frame)
qed

lemma swap_threads_inv:
  assumes "distinct (map thread_str new)"
  shows "threads_inv (swap_threads new s)"
proof -
  have "thread_str (carry_thread s c) = thread_str c" for c by (simp add: carry_thread_def split: option.split)
  then show ?thesis using assms by (simp add: threads_inv_def swap_threads_def Let_def comp_def)
qed

lemma swap_threads_frame [simp]:
  "callback_group_configs (swap_threads new s) = callback_group_configs s"
  "groups_inv (swap_threads new s) = groups_inv s"
  by (simp_all add: swap_threads_def groups_inv_def Let_def)

lemma swap_threads_counter:
  assumes "\<forall>c\<in>set new. fresh c" and "\<forall>c\<in>set (callback_group_configs s). \<not> applied c"
  shows "counter_inv (swap_threads new s)"
proof -
  have "\<not> applied (carry_thread s c)" if "c \<in> set new" for c
    using assms(1) that by (auto simp: carry_thread_def fresh_def split: option.split)
  then show ?thesis using assms(2) by (simp add: counter_inv_def swap_threads_def Let_def unapplied_all)
qed

section \<open>What a reload reports\<close>

definition total :: "section_outcome \<Rightarrow> string multiset" where
  "total r = mset (so_applied r) + mset (so_failed r) + mset (so_skipped r)"

lemma report_facts [simp]:
  "total (report ok k r) = add_mset k (total r)" "so_skipped (report ok k r) = so_skipped r"
  "so_failed (report ok k r) = so_failed r @ (if ok then [] else [k])"
  "total (skip_key k r) = add_mset k (total r)" "so_skipped (skip_key k r) = so_skipped r @ [k]"
  "so_failed (skip_key k r) = so_failed r" "total no_outcome = {#}" "so_skipped no_outcome = []" "so_failed no_outcome = []"
  by (simp_all add: report_def skip_key_def total_def no_outcome_def)

definition own_key :: "thread_config \<Rightarrow> string" where
  "own_key c = group_id_key c (thread_str c)"

text \<open>Nothing has been announced for the entry.\<close>

definition unknown :: "thread_config \<Rightarrow> bool" where
  "unknown c \<longleftrightarrow> (if wild c then matched_tids c = [] else thread_id c = -1)"

definition group_keys :: "thread_config \<Rightarrow> string list" where
  "group_keys c = (if wild c \<and> matched_tids c \<noteq> [] then map (\<lambda>e. group_id_key c (fst e)) (matched_tids c) else [own_key c])"

lemma applied_irrelevant [simp]:
  "own_key (c\<lparr>applied := x\<rparr>) = own_key c" "unknown (c\<lparr>applied := x\<rparr>) = unknown c" "group_keys (c\<lparr>applied := x\<rparr>) = group_keys c"
  by (simp_all add: own_key_def unknown_def group_keys_def group_id_key_def)

lemma instances_report:
  assumes "reapply_instances os c ts any (r, s) = (any', r', s')"
  shows "only_calls s s' \<and> so_skipped r' = so_skipped r \<and> total r' = total r + mset (map (\<lambda>e. group_id_key c (fst e)) ts) \<and>
    (\<exists>fs. so_failed r' = so_failed r @ fs \<and> (fs = [] \<longrightarrow> any' = (any \<or> ts \<noteq> [])))"
  using assms
proof (induction ts arbitrary: any r s)
  case (Cons t ts)
  obtain gid tid where t: "t = (gid, tid)" by (cases t)
  obtain ok s1 where i: "issue_syscalls os (attrs c) tid s = (ok, s1)" by (cases "issue_syscalls os (attrs c) tid s")
  have "reapply_instances os c ts (any \<or> ok) (report ok (group_id_key c gid) r, s1) = (any', r', s')"
    using Cons.prems t i by simp
  note ih = Cons.IH [OF this]
  have "only_calls s s'" using issue_syscalls_frame [OF i] ih only_calls_trans by blast
  then show ?case using ih t by auto
qed (auto simp: total_def)

lemma mark_group_facts:
  assumes "groups_inv s" and "threads_inv s" and "counter_inv s" and "i < length (callback_group_configs s)"
    and "\<not> applied (callback_group_configs s ! i)"
  shows "groups_inv (mark_group i s) \<and> threads_inv (mark_group i s) \<and> counter_inv (mark_group i s) \<and>
    callback_group_configs (mark_group i s) = (callback_group_configs s)[i := (callback_group_configs s ! i)\<lparr>applied := True\<rparr>] \<and>
    non_ros_thread_configs (mark_group i s) = non_ros_thread_configs s"
proof -
  let ?s = "s\<lparr>unapplied_num := unapplied_num s - 1\<rparr>"
  have "groups_inv ?s" using assms(1) by (simp add: groups_inv_def)
  then have "groups_inv (mark_group i s)" unfolding mark_group_def using assms(4) by (intro apply_group_inv) simp_all
  moreover have "threads_inv (mark_group i s)" using assms(2) by (simp add: mark_group_def threads_inv_def)
  moreover have "counter_inv (mark_group i s)" using apply_group_counter [OF assms(4,5,3)]
    by (simp add: counter_inv_def mark_group_def)
  ultimately show ?thesis by (simp add: mark_group_def)
qed

lemma reapply_group_facts:
  assumes inv: "groups_inv s" "threads_inv s" "counter_inv s" and i: "i < length (callback_group_configs s)"
    and na: "\<not> applied (callback_group_configs s ! i)" and r: "reapply_group os i (r, s) = (r', s')"
  defines "c \<equiv> callback_group_configs s ! i"
  shows "groups_inv s' \<and> threads_inv s' \<and> counter_inv s' \<and> non_ros_thread_configs s' = non_ros_thread_configs s \<and>
    (\<exists>b fs. callback_group_configs s' = (callback_group_configs s)[i := c\<lparr>applied := b\<rparr>] \<and>
       so_failed r' = so_failed r @ fs \<and> (fs = [] \<longrightarrow> \<not> unknown c \<longrightarrow> b)) \<and>
    total r' = total r + mset (group_keys c) \<and>
    so_skipped r' = so_skipped r @ (if unknown c then [own_key c] else [])"
proof -
  have keep: "callback_group_configs s = (callback_group_configs s)[i := c\<lparr>applied := False\<rparr>]"
  proof -
    have "c\<lparr>applied := False\<rparr> = c" using na unfolding c_def [symmetric] by (cases c) simp
    then show ?thesis by (simp add: c_def)
  qed
  show ?thesis
  proof (cases "unknown c")
    case True
    then have "s' = s \<and> r' = skip_key (own_key c) r"
      using r by (auto simp: reapply_group_def Let_def c_def [symmetric] unknown_def own_key_def split: if_splits)
    moreover have "group_keys c = [own_key c]" using True by (auto simp: group_keys_def unknown_def split: if_splits)
    ultimately show ?thesis using inv keep True by auto
  next
    case False
    have "\<exists>s1 b fs. only_calls s s1 \<and> s' = (if b then mark_group i s1 else s1) \<and> so_failed r' = so_failed r @ fs \<and>
        (fs = [] \<longrightarrow> b) \<and> total r' = total r + mset (group_keys c) \<and> so_skipped r' = so_skipped r"
    proof (cases "wild c")
      case True
      then have ne: "matched_tids c \<noteq> []" using False by (simp add: unknown_def)
      obtain b r1 s1 where q: "reapply_instances os c (matched_tids c) False (r, s) = (b, r1, s1)"
        by (cases "reapply_instances os c (matched_tids c) False (r, s)")
      have "s' = (if b then mark_group i s1 else s1)" "r' = r1"
        using r q True ne by (auto simp: reapply_group_def Let_def c_def [symmetric])
      then show ?thesis using instances_report [OF q] ne True by (auto simp: group_keys_def)
    next
      case w: False
      obtain ok s1 where q: "issue_syscalls os (attrs c) (thread_id c) s = (ok, s1)"
        by (cases "issue_syscalls os (attrs c) (thread_id c) s")
      have "s' = (if ok then mark_group i s1 else s1)" "r' = report ok (own_key c) r"
        using r q w False by (auto simp: reapply_group_def Let_def c_def [symmetric] unknown_def own_key_def)
      then show ?thesis using issue_syscalls_frame [OF q] w
        by (intro exI [of _ s1] exI [of _ ok] exI [of _ "if ok then [] else [own_key c]"]) (auto simp: group_keys_def)
    qed
    then obtain s1 b fs where s1: "only_calls s s1" and s': "s' = (if b then mark_group i s1 else s1)"
      and rep: "so_failed r' = so_failed r @ fs" "fs = [] \<longrightarrow> b" "total r' = total r + mset (group_keys c)"
        "so_skipped r' = so_skipped r" by blast
    have inv1: "groups_inv s1" "threads_inv s1" "counter_inv s1" "i < length (callback_group_configs s1)"
      "\<not> applied (callback_group_configs s1 ! i)"
      using inv i na inv_only_calls [OF s1] by (simp_all add: only_calls_frame [OF s1])
    show ?thesis
    proof (cases b)
      case True
      then show ?thesis using s' rep mark_group_facts [OF inv1] False only_calls_frame(1,4) [OF s1]
        by (intro conjI exI [of _ True] exI [of _ fs]) (auto simp: c_def)
    next
      case f: False
      then show ?thesis using s' rep inv1 keep False only_calls_frame(1,4) [OF s1]
        by (intro conjI exI [of _ False] exI [of _ fs]) auto
    qed
  qed
qed

lemma groups_loop:
  fixes s :: cnode and os :: os and between :: interruptions
  assumes inv: "groups_inv s" "threads_inv s" "counter_inv s" and na: "\<forall>c\<in>set (callback_group_configs s). \<not> applied c"
    and k: "k \<le> length (callback_group_configs s)"
  defines "F \<equiv> \<lambda>i rs. reapply_group os i (fst rs, listen os (between (Before_group i)) (snd rs))"
  shows "case fold F [0..<k] (no_outcome, s) of (r', s') \<Rightarrow>
    groups_inv s' \<and> threads_inv s' \<and> counter_inv s' \<and>
    map thread_str (non_ros_thread_configs s') = map thread_str (non_ros_thread_configs s) \<and>
    length (callback_group_configs s') = length (callback_group_configs s) \<and>
    (\<forall>j<length (callback_group_configs s). \<exists>b. callback_group_configs s' ! j = (callback_group_configs s ! j)\<lparr>applied := b\<rparr> \<and>
       (k \<le> j \<longrightarrow> \<not> b) \<and> (j < k \<longrightarrow> so_failed r' = [] \<longrightarrow> \<not> unknown (callback_group_configs s ! j) \<longrightarrow> b)) \<and>
    total r' = mset (concat (map group_keys (take k (callback_group_configs s)))) \<and>
    so_skipped r' = map own_key (filter unknown (take k (callback_group_configs s)))"
  using k
proof (induction k)
  case 0
  have "(callback_group_configs s ! j)\<lparr>applied := False\<rparr> = callback_group_configs s ! j" if "j < length (callback_group_configs s)" for j
    using that na by (cases "callback_group_configs s ! j") (metis nth_mem thread_config.select_convs(6) thread_config.update_convs(6))
  then show ?case using inv by (auto intro: exI [of _ False])
next
  case (Suc k)
  let ?cs = "callback_group_configs s"
  obtain r1 s1 where f: "fold F [0..<k] (no_outcome, s) = (r1, s1)" by (cases "fold F [0..<k] (no_outcome, s)")
  note ih = Suc.IH [unfolded f prod.case, OF Suc_leD [OF Suc.prems]]
  define s2 where "s2 = listen os (between (Before_group k)) s1"
  note l = listen_frame [of os "between (Before_group k)" s1, folded s2_def]
  obtain r3 s3 where g: "reapply_group os k (r1, s2) = (r3, s3)" by (cases "reapply_group os k (r1, s2)")
  have res: "fold F [0..<Suc k] (no_outcome, s) = (r3, s3)" using f g by (simp add: F_def s2_def)
  have kl: "k < length ?cs" using Suc.prems by simp
  obtain b0 where b0: "callback_group_configs s1 ! k = (?cs ! k)\<lparr>applied := b0\<rparr>" "\<not> b0" using ih kl by blast
  have pre: "groups_inv s2" "threads_inv s2" "counter_inv s2" "k < length (callback_group_configs s2)"
    "\<not> applied (callback_group_configs s2 ! k)" "callback_group_configs s2 = callback_group_configs s1"
    using ih l kl b0 by simp_all
  let ?c = "callback_group_configs s1 ! k"
  note c = b0(1)
  have same: "unknown ?c = unknown (?cs ! k)" "group_keys ?c = group_keys (?cs ! k)" "own_key ?c = own_key (?cs ! k)"
    "?c\<lparr>applied := b\<rparr> = (?cs ! k)\<lparr>applied := b\<rparr>" for b unfolding c by simp_all
  note facts = reapply_group_facts [OF pre(1-5) g, unfolded pre(6) same]
  then obtain b fs where step: "callback_group_configs s3 = (callback_group_configs s1)[k := (?cs ! k)\<lparr>applied := b\<rparr>]"
      "so_failed r3 = so_failed r1 @ fs" "fs = [] \<longrightarrow> \<not> unknown (?cs ! k) \<longrightarrow> b" by blast
  have rest: "groups_inv s3" "threads_inv s3" "counter_inv s3" "non_ros_thread_configs s3 = non_ros_thread_configs s2"
      "total r3 = total r1 + mset (group_keys (?cs ! k))"
      "so_skipped r3 = so_skipped r1 @ (if unknown (?cs ! k) then [own_key (?cs ! k)] else [])"
    using facts by blast+
  have entries: "\<exists>b. callback_group_configs s3 ! j = (?cs ! j)\<lparr>applied := b\<rparr> \<and> (Suc k \<le> j \<longrightarrow> \<not> b) \<and>
      (j < Suc k \<longrightarrow> so_failed r3 = [] \<longrightarrow> \<not> unknown (?cs ! j) \<longrightarrow> b)" if j: "j < length ?cs" for j
  proof (cases "j = k")
    case True
    then show ?thesis using step ih j by (intro exI [of _ b]) auto
  next
    case False
    obtain b1 where "callback_group_configs s1 ! j = (?cs ! j)\<lparr>applied := b1\<rparr>" "k \<le> j \<longrightarrow> \<not> b1"
      "j < k \<longrightarrow> so_failed r1 = [] \<longrightarrow> \<not> unknown (?cs ! j) \<longrightarrow> b1" using ih j by blast
    then show ?thesis using step(1,2) False by (intro exI [of _ b1]) (auto simp: less_Suc_eq)
  qed
  have t: "take (Suc k) ?cs = take k ?cs @ [?cs ! k]" using kl by (simp add: take_Suc_conv_app_nth)
  show ?case unfolding res prod.case t using ih l step rest entries by simp
qed

lemma reapply_thread_facts:
  assumes inv: "groups_inv s" "threads_inv s" "counter_inv s" and i: "i < length (non_ros_thread_configs s)"
    and r: "reapply_thread os i (r, s) = (r', s')"
  defines "c \<equiv> non_ros_thread_configs s ! i"
  shows "groups_inv s' \<and> threads_inv s' \<and> counter_inv s' \<and> callback_group_configs s' = callback_group_configs s \<and>
    (\<exists>b fs ss. non_ros_thread_configs s' = (non_ros_thread_configs s)[i := c\<lparr>applied := b\<rparr>] \<and>
       so_failed r' = so_failed r @ fs \<and> so_skipped r' = so_skipped r @ ss \<and> (fs = [] \<longrightarrow> ss = [] \<longrightarrow> b)) \<and>
    total r' = add_mset (thread_str c) (total r)"
proof -
  have keep: "non_ros_thread_configs s = (non_ros_thread_configs s)[i := c\<lparr>applied := applied c\<rparr>]" by (simp add: c_def)
  show ?thesis
  proof (cases "thread_id c = -1")
    case True
    then have "s' = s \<and> r' = skip_key (thread_str c) r"
      using r by (auto simp: reapply_thread_def Let_def c_def)
    then show ?thesis using inv
      by (intro conjI exI [of _ "applied c"] exI [of _ "[]"] exI [of _ "[thread_str c]"]) (auto simp: c_def)
  next
    case False
    obtain ok s1 where q: "issue_syscalls os (attrs c) (thread_id c) s = (ok, s1)"
      by (cases "issue_syscalls os (attrs c) (thread_id c) s")
    have s': "s' = (if ok then mark_thread i s1 else s1)" "r' = report ok (thread_str c) r"
      using r q False by (auto simp: reapply_thread_def Let_def c_def)
    note fr = inv_only_calls [OF issue_syscalls_frame [OF q]]
    have inv1: "groups_inv s1" "threads_inv s1" "counter_inv s1" "i < length (non_ros_thread_configs s1)"
      using inv fr i by (simp_all add: issued [OF q])
    show ?thesis
    proof (cases "ok \<and> \<not> applied c")
      case True
      let ?s = "s1\<lparr>unapplied_num := unapplied_num s1 - 1\<rparr>"
      have m: "s' = on_thread i (\<lambda>c. c\<lparr>applied := True\<rparr>) ?s" using s' True by (simp add: mark_thread_def issued [OF q] c_def)
      have "threads_inv ?s" "groups_inv ?s" using inv1 by (simp_all add: threads_inv_def groups_inv_def)
      then have "threads_inv s'" unfolding m by (intro on_thread_inv) simp_all
      moreover have "groups_inv s'" unfolding m using \<open>groups_inv ?s\<close> by (simp add: groups_inv_def on_thread_def)
      moreover have "counter_inv s'"
        using apply_thread_counter [OF inv1(4) _ inv1(3)] True by (simp add: m counter_inv_def on_thread_def issued [OF q] c_def)
      ultimately show ?thesis using s'(2) True
        by (intro conjI exI [of _ True] exI [of _ "[]"]) (simp_all add: m on_thread_def issued [OF q] c_def)
    next
      case f: False
      then have "s' = s1" using s'(1) by (auto simp: mark_thread_def issued [OF q] c_def)
      then show ?thesis using s'(2) f inv1 keep
        by (intro conjI exI [of _ "applied c"] exI [of _ "if ok then [] else [thread_str c]"] exI [of _ "[]"])
          (auto simp: issued [OF q])
    qed
  qed
qed

lemma threads_loop:
  assumes inv: "groups_inv s" "threads_inv s" "counter_inv s" and k: "k \<le> length (non_ros_thread_configs s)"
  shows "case fold (reapply_thread os) [0..<k] (no_outcome, s) of (r', s') \<Rightarrow>
    groups_inv s' \<and> threads_inv s' \<and> counter_inv s' \<and> callback_group_configs s' = callback_group_configs s \<and>
    map thread_str (non_ros_thread_configs s') = map thread_str (non_ros_thread_configs s) \<and>
    total r' = mset (map thread_str (take k (non_ros_thread_configs s))) \<and>
    (so_failed r' = [] \<longrightarrow> so_skipped r' = [] \<longrightarrow> (\<forall>j<k. applied (non_ros_thread_configs s' ! j)))"
  using k
proof (induction k)
  case (Suc k)
  let ?cs = "non_ros_thread_configs s"
  obtain r1 s1 where f: "fold (reapply_thread os) [0..<k] (no_outcome, s) = (r1, s1)"
    by (cases "fold (reapply_thread os) [0..<k] (no_outcome, s)")
  note ih = Suc.IH [unfolded f prod.case, OF Suc_leD [OF Suc.prems]]
  obtain r2 s2 where g: "reapply_thread os k (r1, s1) = (r2, s2)" by (cases "reapply_thread os k (r1, s1)")
  have res: "fold (reapply_thread os) [0..<Suc k] (no_outcome, s) = (r2, s2)" using f g by simp
  have len: "length (non_ros_thread_configs s1) = length ?cs" using ih map_eq_imp_length_eq by blast
  have kl: "k < length ?cs" "k < length (non_ros_thread_configs s1)" using Suc.prems len by simp_all
  have name: "thread_str (non_ros_thread_configs s1 ! k) = thread_str (?cs ! k)" using ih kl by (metis nth_map)
  note st = reapply_thread_facts [OF _ _ _ kl(2) g]
  obtain b fs ss where u: "non_ros_thread_configs s2 = (non_ros_thread_configs s1)[k := (non_ros_thread_configs s1 ! k)\<lparr>applied := b\<rparr>]"
      "so_failed r2 = so_failed r1 @ fs" "so_skipped r2 = so_skipped r1 @ ss" "fs = [] \<longrightarrow> ss = [] \<longrightarrow> b"
    using st ih by blast
  have "map thread_str (non_ros_thread_configs s2) = map thread_str (non_ros_thread_configs s1)"
    unfolding u(1) by (rule names_update) simp
  moreover have "so_failed r2 = [] \<longrightarrow> so_skipped r2 = [] \<longrightarrow> (\<forall>j<Suc k. applied (non_ros_thread_configs s2 ! j))"
    using u ih kl by (auto simp: less_Suc_eq nth_list_update)
  moreover have "total r2 = mset (map thread_str (take (Suc k) ?cs))"
    using st ih kl name by (simp add: take_Suc_conv_app_nth)
  moreover have "groups_inv s2 \<and> threads_inv s2 \<and> counter_inv s2 \<and> callback_group_configs s2 = callback_group_configs s"
    using st ih by simp
  ultimately show ?case unfolding res prod.case using ih by simp
qed (use inv in simp)

end
