(* ===== verification/Cie_Node_Theorems.thy ===== *)
theory Cie_Node_Theorems
  imports Cie_Node_Inv
begin

text \<open>
  The thread configurator node in every run: its bookkeeping, and which entry a callback group belongs to.
\<close>

section \<open>Passes over kernel threads and interrupts\<close>

lemma apply_to_thread_frame: "apply_to_thread os m a info s = (ok, s1) \<Longrightarrow> only_calls s s1"
  by (auto simp: apply_to_thread_def Let_def split: if_splits dest: issue_syscalls_frame affinity_frame)

lemma apply_to_threads_frame: "apply_to_threads os m c infos rs = (r', s') \<Longrightarrow> only_calls (snd rs) s'"
proof (induction os m c infos rs rule: apply_to_threads.induct)
  case (2 os m c info infos r s)
  obtain ok s1 where a: "apply_to_thread os m (kt_attrs c) info s = (ok, s1)" by (cases "apply_to_thread os m (kt_attrs c) info s")
  show ?case using 2 a apply_to_thread_frame [OF a] only_calls_trans by fastforce
qed simp

lemma fold_frame:
  assumes "\<And>c rs r' s'. F c rs = (r', s') \<Longrightarrow> only_calls (snd rs) s'" and "fold F cs rs = (r', s')"
  shows "only_calls (snd rs) s'"
  using assms(2)
proof (induction cs arbitrary: rs)
  case (Cons c cs)
  obtain r1 s1 where f: "F c rs = (r1, s1)" by (cases "F c rs")
  then have "only_calls s1 s'" using Cons.IH [of "(r1, s1)"] Cons.prems by simp
  then show ?case using assms(1) [OF f] only_calls_trans by blast
qed simp

lemma kernel_pass_frame: "apply_kernel_thread_configs os m s = (r', s') \<Longrightarrow> only_calls s s'"
proof -
  have f: "apply_kernel_thread_config os m c rs = (r', s') \<Longrightarrow> only_calls (snd rs) s'" for c rs r' s'
    using apply_to_threads_frame by (auto simp: apply_kernel_thread_config_def Let_def split: if_splits)
  assume "apply_kernel_thread_configs os m s = (r', s')"
  then show ?thesis unfolding apply_kernel_thread_configs_def using fold_frame [of "apply_kernel_thread_config os m", OF f] by fastforce
qed

lemma irq_pass_frame: "apply_irq_configs os m s = (r', s') \<Longrightarrow> only_calls s s'"
proof -
  have f: "apply_irq_config os m c rs = (r', s') \<Longrightarrow> only_calls (snd rs) s'" for c rs r' s'
    using ask_frame by (auto simp: apply_irq_config_def write_irq_affinity_file_def split: if_splits option.splits prod.splits)
  assume "apply_irq_configs os m s = (r', s')"
  then show ?thesis unfolding apply_irq_configs_def using fold_frame [of "apply_irq_config os m", OF f] by fastforce
qed

section \<open>Every run\<close>

lemma listen_applied:
  "\<forall>c\<in>set (non_ros_thread_configs s). applied c \<Longrightarrow> \<forall>c\<in>set (non_ros_thread_configs (listen os ts s)). applied c"
  unfolding listen_def
proof (induction ts arbitrary: s)
  case (Cons t ts)
  obtain n i where t: "t = (n, i)" by (cases t)
  have on: "\<forall>c\<in>set (non_ros_thread_configs s). applied c \<Longrightarrow> (\<And>c. applied c \<Longrightarrow> applied (f c)) \<Longrightarrow>
      \<forall>c\<in>set (non_ros_thread_configs (on_thread j f s)). applied c" for s :: cnode and f j
  proof (cases "j < length (non_ros_thread_configs s)")
    case True
    assume a: "\<forall>c\<in>set (non_ros_thread_configs s). applied c" "\<And>c. applied c \<Longrightarrow> applied (f c)"
    then have "applied (f (non_ros_thread_configs s ! j))" using True by simp
    then show ?thesis using a(1) set_update_subset_insert by (fastforce simp: on_thread_def)
  qed (simp add: on_thread_def list_update_beyond)
  have "\<forall>c\<in>set (non_ros_thread_configs (non_ros_thread_callback os n i s)). applied c"
  proof (cases "id_to_non_ros_thread_config s n")
    case (Some j)
    let ?s1 = "on_thread j (\<lambda>c. c\<lparr>thread_id := i\<rparr>) s"
    obtain ok s2 where r: "issue_syscalls os (attrs (non_ros_thread_configs ?s1 ! j)) i ?s1 = (ok, s2)"
      by (cases "issue_syscalls os (attrs (non_ros_thread_configs ?s1 ! j)) i ?s1")
    have "\<forall>c\<in>set (non_ros_thread_configs ?s1). applied c" by (rule on [OF Cons.prems]) simp
    then have s2: "\<forall>c\<in>set (non_ros_thread_configs s2). applied c" by (simp add: issued(4) [OF r])
    have "\<forall>c\<in>set (non_ros_thread_configs (on_thread j (\<lambda>c. c\<lparr>applied := True\<rparr>) s2)). applied c" by (rule on [OF s2]) simp
    then show ?thesis using Some r s2 by (simp add: non_ros_thread_callback_def Let_def)
  qed (use Cons.prems in \<open>simp add: non_ros_thread_callback_def\<close>)
  then show ?case using Cons.IH t by simp
qed simp

lemma reload_facts:
  assumes inv: "groups_inv s" "threads_inv s"
    and new: "\<forall>c\<in>set cbs. fresh c" "\<forall>c\<in>set nrts. fresh c" "distinct (map exact_key cbs)" "distinct (map thread_str nrts)"
    and r: "on_reapply_config_request os m between (Inr (cbs, nrts, kts, iqs)) s = (r', s')"
  shows "groups_inv s' \<and> threads_inv s' \<and> counter_inv s' \<and> success r' \<and>
    total (callback_groups r') = mset (concat (map group_keys (callback_group_configs s'))) \<and>
    so_skipped (callback_groups r') = map own_key (filter unknown (callback_group_configs s')) \<and>
    total (non_ros_threads r') = mset (map thread_str (non_ros_thread_configs s')) \<and>
    (so_failed (callback_groups r') = [] \<longrightarrow> so_skipped (callback_groups r') = [] \<longrightarrow>
     so_failed (non_ros_threads r') = [] \<longrightarrow> so_skipped (non_ros_threads r') = [] \<longrightarrow>
     (\<forall>c\<in>set (callback_group_configs s'). applied c) \<and> (\<forall>c\<in>set (non_ros_thread_configs s'). applied c))"
proof -
  define s1 where "s1 = listen os (between After_group_swap) (swap_groups cbs s)"
  define s2 where "s2 = (swap_threads nrts s1)\<lparr>kernel_thread_configs := kts, irq_configs := iqs\<rparr>"
  obtain rg s3 where g: "reapply_groups os between s2 = (rg, s3)" by (cases "reapply_groups os between s2")
  define s3' where "s3' = listen os (between Before_threads) s3"
  obtain rt s4 where t: "reapply_threads os s3' = (rt, s4)" by (cases "reapply_threads os s3'")
  define s4' where "s4' = listen os (between Before_sections) s4"
  obtain rk s5 where k: "apply_kernel_thread_configs os m s4' = (rk, s5)" by (cases "apply_kernel_thread_configs os m s4'")
  obtain ri s6 where i: "apply_irq_configs os m s5 = (ri, s6)" by (cases "apply_irq_configs os m s5")
  have res: "r' = \<lparr>success = True, callback_groups = rg, non_ros_threads = rt, kernel_threads = rk, irqs = ri\<rparr>" "s' = s6"
    using r g t k i by (simp_all add: on_reapply_config_request_def Let_def s1_def s2_def s3'_def s4'_def)
  have sg: "groups_inv (swap_groups cbs s)" by (rule swap_groups_inv [OF inv(1) new(1,3)])
  have l1: "groups_inv s1" "callback_group_configs s1 = callback_group_configs (swap_groups cbs s)"
    using listen_frame [of os "between After_group_swap" "swap_groups cbs s", folded s1_def] sg by simp_all
  have na: "\<forall>c\<in>set (callback_group_configs s1). \<not> applied c"
    using new(1) by (auto simp: l1(2) swap_groups_def Let_def carry_group_frame fresh_def)
  have "groups_inv (swap_threads nrts s1) \<and> threads_inv (swap_threads nrts s1) \<and> counter_inv (swap_threads nrts s1)"
    using l1 na new swap_threads_inv swap_threads_counter by simp
  then have i2: "groups_inv s2" "threads_inv s2" "counter_inv s2"
    by (simp_all add: s2_def groups_inv_def threads_inv_def counter_inv_def)
  have na2: "\<forall>c\<in>set (callback_group_configs s2). \<not> applied c" using na by (simp add: s2_def)
  note G = groups_loop [OF i2 na2 order_refl, of os between, folded reapply_groups_def, unfolded g prod.case]
  let ?g2 = "callback_group_configs s2" and ?g3 = "callback_group_configs s3"
  note l3 = listen_frame [of os "between Before_threads" s3, folded s3'_def]
  have i3: "groups_inv s3'" "threads_inv s3'" "counter_inv s3'" using G l3 by simp_all
  note T = threads_loop [OF i3 order_refl, of os, folded reapply_threads_def, unfolded t prod.case]
  note l4 = listen_frame [of os "between Before_sections" s4, folded s4'_def]
  have fin: "only_calls s4' s6" using kernel_pass_frame [OF k] irq_pass_frame [OF i] only_calls_trans by blast
  note fr = inv_only_calls [OF fin] only_calls_frame [OF fin]
  have i6: "groups_inv s6" "threads_inv s6" "counter_inv s6" using T l4 fr by simp_all
  have same: "callback_group_configs s6 = ?g3" using T l4 l3 fr by simp
  have len: "length ?g3 = length ?g2" using G by simp
  have el: "\<exists>b. ?g3 ! j = (?g2 ! j)\<lparr>applied := b\<rparr>" if "j < length ?g2" for j using G that by blast
  have keys: "group_keys (?g3 ! j) = group_keys (?g2 ! j) \<and> own_key (?g3 ! j) = own_key (?g2 ! j) \<and>
      unknown (?g3 ! j) = unknown (?g2 ! j)" if "j < length ?g2" for j
    using el [OF that] by auto
  then have m1: "map group_keys ?g3 = map group_keys ?g2" using len by (auto intro: nth_equalityI)
  have m2: "map (\<lambda>c. (unknown c, own_key c)) ?g3 = map (\<lambda>c. (unknown c, own_key c)) ?g2" using keys len by (auto intro: nth_equalityI)
  have f: "map own_key (filter unknown cs) = map snd (filter fst (map (\<lambda>c. (unknown c, own_key c)) cs))" for cs
    by (induction cs) auto
  have skip: "so_skipped rg = map own_key (filter unknown ?g3)" using G unfolding f m2 by simp
  have names: "map thread_str (non_ros_thread_configs s6) = map thread_str (non_ros_thread_configs s3')"
    using T l4 fr by simp
  have done_g: "\<forall>c\<in>set ?g3. applied c" if "so_failed rg = []" "so_skipped rg = []"
  proof -
    have "\<not> unknown c" if "c \<in> set ?g3" for c using skip \<open>so_skipped rg = []\<close> that by (auto simp: filter_empty_conv)
    then have "\<not> unknown (?g2 ! j)" if "j < length ?g2" for j using keys [OF that] len that by (metis nth_mem)
    then show ?thesis unfolding all_set_conv_all_nth using G len that(1) by auto
  qed
  have done_t: "\<forall>c\<in>set (non_ros_thread_configs s6). applied c" if "so_failed rt = []" "so_skipped rt = []"
  proof -
    have "length (non_ros_thread_configs s4) = length (non_ros_thread_configs s3')" using T map_eq_imp_length_eq by blast
    then have "\<forall>c\<in>set (non_ros_thread_configs s4). applied c" using T that unfolding all_set_conv_all_nth by simp
    then show ?thesis unfolding fr(7) s4'_def by (rule listen_applied)
  qed
  have "total rg = mset (concat (map group_keys ?g3))" using G unfolding m1 by simp
  moreover have "total rt = mset (map thread_str (non_ros_thread_configs s6))" using T names by simp
  ultimately show ?thesis unfolding res same using i6 skip done_g done_t by simp
qed

lemma cnode_reach_inv: "cnode_reach Y bound dd s \<Longrightarrow> groups_inv s \<and> threads_inv s \<and> counter_inv s"
proof (induction rule: cnode_reach.induct)
  case (Constructed yaml groups threads kts iqs os m)
  note f = load_fresh [OF Constructed]
  let ?s = "construct_node os m groups threads kts iqs"
  define s0 where "s0 = \<lparr>callback_group_configs = groups, id_to_callback_group_config = (\<lambda>_. None),
      node_to_wildcard_config = (\<lambda>_. None), non_ros_thread_configs = threads,
      id_to_non_ros_thread_config = (\<lambda>_. None), kernel_thread_configs = kts, irq_configs = iqs,
      unapplied_num = 0, cgroup_num = 0, configured_at_least_once = False, calls = []\<rparr>"
  obtain r1 s1 where k: "apply_kernel_thread_configs os m s0 = (r1, s1)" by (cases "apply_kernel_thread_configs os m s0")
  obtain r2 s2 where i: "apply_irq_configs os m s1 = (r2, s2)" by (cases "apply_irq_configs os m s1")
  have "only_calls s0 s2" using kernel_pass_frame [OF k] irq_pass_frame [OF i] only_calls_trans by blast
  then have cs: "callback_group_configs ?s = groups" "non_ros_thread_configs ?s = threads"
    using k i by (simp_all add: construct_node_def Let_def s0_def [symmetric] only_calls_frame) (simp_all add: s0_def)
  have ix: "id_to_callback_group_config ?s = index_exact groups" "node_to_wildcard_config ?s = index_wildcard groups"
    "id_to_non_ros_thread_config ?s = index_name threads" "unapplied_num ?s = int (length groups + length threads)"
    by (simp_all add: construct_node_def Let_def)
  have na: "\<forall>c\<in>set groups. \<not> applied c" "\<forall>c\<in>set threads. \<not> applied c" using f by (auto simp: fresh_def)
  have "\<not> knows c gid" if "c \<in> set groups" for c gid using f that by (auto simp: fresh_def knows_def)
  moreover have "\<forall>c\<in>set groups. matched_tids c = []" using f by (auto simp: fresh_def)
  ultimately show ?case using f
    by (simp add: groups_inv_def threads_inv_def counter_inv_def cs ix unapplied_all [OF na(1)] unapplied_all [OF na(2)])
next
  case (Step s s')
  from Step.hyps(2) show ?case
  proof cases
    case (Group_announced os d gid tid)
    then show ?thesis using Step.IH group_callback_inv by simp
  next
    case (Thread_announced os name tid)
    then show ?thesis using Step.IH non_ros_groups non_ros_threads non_ros_counter by simp
  next
    case (Reapplied os m between yaml)
    show ?thesis
    proof (cases "load_configs Y bound dd yaml")
      case (Inl e)
      then show ?thesis using Reapplied Step.IH by (simp add: on_reapply_config_request_def)
    next
      case (Inr cfgs)
      obtain cbs nrts kts iqs where c: "cfgs = (cbs, nrts, kts, iqs)" by (cases cfgs)
      obtain r' s1 where r: "on_reapply_config_request os m between (Inr (cbs, nrts, kts, iqs)) s = (r', s1)"
        by (cases "on_reapply_config_request os m between (Inr (cbs, nrts, kts, iqs)) s")
      have "groups_inv s1 \<and> threads_inv s1 \<and> counter_inv s1"
        using reload_facts [OF _ _ _ _ _ _ r] load_fresh [OF Inr [unfolded c]] Step.IH by blast
      then show ?thesis using Reapplied Inr c r by simp
    qed
  qed
qed

section \<open>A concrete run\<close>

text \<open>An exact and a wildcard entry for the same node, and a thread outside ROS.\<close>

definition cie_policy :: "(string \<times> doc) list" where
  "cie_policy = [(''policy'', Scalar ''SCHED_FIFO''), (''priority'', Scalar ''50'')]"

definition cie_doc :: doc where
  "cie_doc = Map [(''callback_groups'', Seq [Map ((''id'', Scalar ''n@g'') # cie_policy), Map ((''id'', Scalar ''n/*'') # cie_policy)]),
     (''non_ros_threads'', Seq [Map ((''name'', Scalar ''t'') # cie_policy)])]"

definition cie_entry :: "string \<Rightarrow> thread_config" where
  "cie_entry s = \<lparr>thread_str = s, cfg_domain_id = 0, thread_id = -1,
     attrs = no_attrs\<lparr>at_policy := Some Fifo, at_rt_priority := 50\<rparr>, matched_tids = [], applied = False\<rparr>"

definition cie_groups :: "thread_config list" where "cie_groups = [cie_entry ''n@g'', cie_entry ''n/*'']"
definition cie_threads :: "thread_config list" where "cie_threads = [cie_entry ''t'']"

lemma cie_loaded: "load_configs doc_api 7 0 cie_doc = Inr (cie_groups, cie_threads, [], [])"
proof -
  have num: "to_number ''50'' = Some 50"
    by (simp add: to_number_def is_all_digits_def is_digit_def digits_value_def digit_value_def)
  have pol: "parse_sched_policy ''SCHED_FIFO'' = Some Fifo" "\<not> is_cfs Fifo"
    by (simp_all add: parse_sched_policy_def k_policies_def is_cfs_eq)
  have ids: "check_id ''n@g''" "check_id ''n/*''" by (simp_all add: check_id_def is_wildcard_def wildcard_prefix_def)
  have a: "parse_attrs doc_api 7 (Map ((k, Scalar v) # cie_policy)) = Inr (no_attrs\<lparr>at_policy := Some Fifo, at_rt_priority := 50\<rparr>)"
    if "k = ''id'' \<or> k = ''name''" for k v
    using that
    by (auto simp: parse_attrs_def cie_policy_def doc_api_def parse_affinity_def is_unset_def parse_policy_or_throw_def pol the_or_def
        parse_rt_priority_def num k_rt_priority_min_def k_rt_priority_max_def Let_def no_attrs_def)
  have g: "parse_callback_group doc_api 7 0 (Map ((''id'', Scalar v) # cie_policy)) = Inr (cie_entry v)" if "check_id v" for v
    using that a by (simp add: parse_callback_group_def cie_entry_def) (simp add: doc_api_def cie_policy_def)
  have t: "parse_non_ros_thread doc_api 7 (Map ((''name'', Scalar v) # cie_policy)) = Inr (cie_entry v)" for v
    using a by (simp add: parse_non_ros_thread_def cie_entry_def) (simp add: doc_api_def cie_policy_def)
  have y: "y_elems doc_api (y_get doc_api cie_doc ''callback_groups'') =
      [Map ((''id'', Scalar ''n@g'') # cie_policy), Map ((''id'', Scalar ''n/*'') # cie_policy)]"
    "y_elems doc_api (y_get doc_api cie_doc ''non_ros_threads'') = [Map ((''name'', Scalar ''t'') # cie_policy)]"
    "y_get doc_api cie_doc ''kernel_threads'' = Undef" "y_get doc_api cie_doc ''irqs'' = Undef"
    by (simp_all add: doc_api_def cie_doc_def)
  have k: "parse_kernel_threads doc_api 7 cie_doc = Inr []" "parse_irqs doc_api 7 cie_doc = Inr []"
    by (simp_all add: parse_kernel_threads_def parse_irqs_def y Let_def) (simp_all add: doc_api_def)
  show ?thesis using ids
    by (simp add: load_configs_def parse_yaml_def y g t k) (simp add: cie_groups_def cie_threads_def cie_entry_def group_key_def)
qed

definition cie_machine :: machine where
  "cie_machine = \<lparr>cpu_bound = 7, scanned = [], irqbalance = False, irq_actions = (\<lambda>_. None), irq_current = (\<lambda>_. [])\<rparr>"

definition cie_start :: cnode where "cie_start = construct_node (\<lambda>_ _. True) cie_machine cie_groups cie_threads [] []"

text \<open>The group of the exact entry announces itself, then the configuration is reloaded.\<close>

definition cie_node :: cnode where "cie_node = callback_group_callback (\<lambda>_ _. True) 0 ''n@g'' 100 cie_start"

lemma cie_reached: "cnode_reach doc_api 7 0 cie_node"
  unfolding cie_node_def cie_start_def by (rule cnode_reach.Step [OF cnode_reach.Constructed [OF cie_loaded] Group_announced])

lemma cie_start_value:
  "cie_start = \<lparr>callback_group_configs = cie_groups, id_to_callback_group_config = [(0, ''n@g'') \<mapsto> 0],
     node_to_wildcard_config = [(0, ''n'') \<mapsto> 1], non_ros_thread_configs = cie_threads, id_to_non_ros_thread_config = [''t'' \<mapsto> 0],
     kernel_thread_configs = [], irq_configs = [], unapplied_num = 3, cgroup_num = 0, configured_at_least_once = False, calls = []\<rparr>"
  by (simp add: cie_start_def construct_node_def Let_def apply_kernel_thread_configs_def apply_irq_configs_def
      index_exact_def index_wildcard_def index_name_def index_by_def cie_groups_def cie_threads_def cie_entry_def is_wildcard_def
      wildcard_prefix_def)

definition cie_fifo :: "int \<Rightarrow> syscall" where "cie_fifo tid = Sched_setscheduler tid (to_kernel_policy Fifo) 50"

lemma cie_node_value:
  "cie_node = cie_start\<lparr>callback_group_configs := [(cie_entry ''n@g'')\<lparr>thread_id := 100, applied := True\<rparr>, cie_entry ''n/*''],
     unapplied_num := 2, calls := [cie_fifo 100]\<rparr>"
  by (simp add: cie_node_def cie_start_value callback_group_callback_def Let_def extract_node_part_def configure_group_def on_group_def
      cie_groups_def cie_entry_def is_wildcard_def issue_syscalls_def policy_syscalls_def is_cfs_eq ask_def as_pid_def
      issue_affinity_syscalls_def no_attrs_def count_applied_def erase_def cie_fifo_def)

section \<open>Properties\<close>

text \<open>Claim C30. The bookkeeping is exact in every run, with announcements of both kinds and reloads in any order
  and the listener's announcements between any two phases of a reload: the lookup maps point exactly at the
  entries of their keys in the current vectors, and the counter is the number of entries not yet applied,
  so it is zero, and nothing is printed at the end, exactly when every entry has been applied.\<close>

theorem node_bookkeeping_exact:
  assumes "cnode_reach Y bound dd s"
  shows "(id_to_callback_group_config s (d, gid) = Some i \<longleftrightarrow> i < length (callback_group_configs s) \<and>
      \<not> wild (callback_group_configs s ! i) \<and> exact_key (callback_group_configs s ! i) = (d, gid)) \<and>
    (node_to_wildcard_config s (d, node) = Some i \<longleftrightarrow> i < length (callback_group_configs s) \<and>
      wild (callback_group_configs s ! i) \<and> wild_key (callback_group_configs s ! i) = (d, node)) \<and>
    (id_to_non_ros_thread_config s name = Some i \<longleftrightarrow> i < length (non_ros_thread_configs s) \<and>
      thread_str (non_ros_thread_configs s ! i) = name) \<and>
    unapplied_num s = int (length (filter (\<lambda>c. \<not> applied c) (callback_group_configs s)) +
      length (filter (\<lambda>c. \<not> applied c) (non_ros_thread_configs s))) \<and>
    (print_all_unapplied s = [] \<longleftrightarrow>
      (\<forall>c\<in>set (callback_group_configs s). applied c) \<and> (\<forall>c\<in>set (non_ros_thread_configs s). applied c))"
proof -
  have inv: "groups_inv s" "threads_inv s" "counter_inv s" using cnode_reach_inv [OF assms] by simp_all
  have "unapplied_num s = 0 \<longleftrightarrow> unapplied (callback_group_configs s) = 0 \<and> unapplied (non_ros_thread_configs s) = 0"
    using inv(3) by (auto simp: counter_inv_def)
  then have "print_all_unapplied s = [] \<longleftrightarrow>
      (\<forall>c\<in>set (callback_group_configs s). applied c) \<and> (\<forall>c\<in>set (non_ros_thread_configs s). applied c)"
    unfolding unapplied_none by (auto simp: print_all_unapplied_def filter_empty_conv)
  then show ?thesis using groups_lookup [OF inv(1)] index_name_Some inv(2,3)
    by (simp add: threads_inv_def counter_inv_def unapplied_def)
qed

theorem node_bookkeeping_exact_witness:
  "id_to_callback_group_config cie_node (0, ''n@g'') = Some 0 \<and> node_to_wildcard_config cie_node (0, ''n'') = Some 1 \<and>
    unapplied_num cie_node = 2 \<and> print_all_unapplied cie_node \<noteq> []"
  using node_bookkeeping_exact [OF cie_reached, of 0 "''n@g''" 0 "''n''" "''t''"]
    node_bookkeeping_exact [OF cie_reached, of 0 "''n@g''" 1 "''n''" "''t''"]
  by (simp add: cie_node_value cie_start_value cie_entry_def is_wildcard_def wildcard_prefix_def cie_threads_def)

text \<open>Claim C31. No callback group is configured by two entries: in every run, at most one entry has a thread for
  a given domain and callback group, also when exact and wildcard entries come and go with reloads.\<close>

theorem one_entry_per_callback_group:
  assumes "cnode_reach Y bound dd s" and "i < length (callback_group_configs s)" and "j < length (callback_group_configs s)"
    and "cfg_domain_id (callback_group_configs s ! i) = cfg_domain_id (callback_group_configs s ! j)"
    and "knows (callback_group_configs s ! i) gid" and "knows (callback_group_configs s ! j) gid"
  shows "i = j"
proof -
  let ?c = "callback_group_configs s ! i" and ?e = "callback_group_configs s ! j"
  have inv: "groups_inv s" using cnode_reach_inv [OF assms(1)] by simp
  have m: "?c \<in> set (callback_group_configs s)" "?e \<in> set (callback_group_configs s)" using assms(2,3) by simp_all
  have w: "wild ?c = wild ?e" using exclusive [OF inv m] assms(4-6) by metis
  have "exact_key ?c = exact_key ?e"
  proof (cases "wild ?c")
    case True
    then have "extract_node_part gid = wildcard_prefix (thread_str ?c)" "extract_node_part gid = wildcard_prefix (thread_str ?e)"
      using inv m assms(5,6) w unfolding groups_inv_def knows_def by metis+
    then show ?thesis using wildcard_string [of "thread_str ?c"] wildcard_string [of "thread_str ?e"] True w assms(4) by simp
  next
    case False
    then show ?thesis using assms(4-6) w by (simp add: knows_def)
  qed
  then show ?thesis using inv assms(2,3) nth_eq_iff_index_eq [of "map exact_key (callback_group_configs s)" i j]
    by (simp add: groups_inv_def)
qed

theorem one_entry_per_callback_group_witness:
  "knows (callback_group_configs cie_node ! 0) ''n@g'' \<and> \<not> knows (callback_group_configs cie_node ! 1) ''n@g''"
proof -
  have k: "knows (callback_group_configs cie_node ! 0) ''n@g''"
    "cfg_domain_id (callback_group_configs cie_node ! 0) = cfg_domain_id (callback_group_configs cie_node ! 1)"
    "0 < length (callback_group_configs cie_node)" "1 < length (callback_group_configs cie_node)"
    by (simp_all add: cie_node_value knows_def cie_entry_def is_wildcard_def)
  then show ?thesis using one_entry_per_callback_group [OF cie_reached k(3,4,2,1)] by auto
qed

end
