(* ===== verification/Cie_Node_Passes.thy ===== *)
theory Cie_Node_Passes
  imports Cie_Node_Theorems
begin

text \<open>
  What the passes over kernel threads and interrupts do to the machine, and what they report.
\<close>

section \<open>The calls a pass issues\<close>

text \<open>What may be issued for a kernel thread: for its policy if the entry has one, for its CPUs if the entry has
  some and the kernel has not pinned the thread.\<close>

definition allowed_call :: "sched_attrs \<Rightarrow> kernel_thread_info \<Rightarrow> syscall \<Rightarrow> bool" where
  "allowed_call a info x \<longleftrightarrow>
     (case x of
        Sched_setscheduler p q n \<Rightarrow> p = as_pid (kt_tid info) \<and> at_policy a \<noteq> None \<and> q = to_kernel_policy (the (at_policy a)) \<and>
          n = (if is_cfs (the (at_policy a)) then 0 else at_rt_priority a)
      | Setpriority i n \<Rightarrow> i = as_id (kt_tid info) \<and> n = at_nice a \<and> at_policy a \<noteq> None
      | Sched_setattr p d \<Rightarrow> p = as_pid (kt_tid info) \<and> d = at_deadline a \<and> at_policy a = Some Deadline
      | Sched_setaffinity p cpus \<Rightarrow> p = as_pid (kt_tid info) \<and> cpus = at_affinity a \<and> cpus \<noteq> [] \<and> \<not> no_setaffinity info
      | Create_cgroup _ \<Rightarrow> at_affinity a \<noteq> [] \<and> \<not> no_setaffinity info
      | Write_cpus _ t \<Rightarrow> t = format_cpu_list (at_affinity a) \<and> at_affinity a \<noteq> [] \<and> \<not> no_setaffinity info
      | Write_mems _ \<Rightarrow> at_affinity a \<noteq> [] \<and> \<not> no_setaffinity info
      | Attach_task _ t \<Rightarrow> t = kt_tid info \<and> at_affinity a \<noteq> [] \<and> \<not> no_setaffinity info
      | Write_irq_affinity _ _ \<Rightarrow> False)"

definition issues :: "(syscall \<Rightarrow> bool) \<Rightarrow> cnode \<Rightarrow> cnode \<Rightarrow> bool" where
  "issues P s s' \<longleftrightarrow> (\<exists>new. calls s' = calls s @ new \<and> list_all P new)"

lemma issues_refl [simp]: "issues P s s" by (simp add: issues_def)

lemma issues_trans: "issues P s t \<Longrightarrow> issues P t u \<Longrightarrow> issues P s u"
proof -
  assume "issues P s t" "issues P t u"
  then obtain xs ys where "calls t = calls s @ xs" "calls u = calls t @ ys" "list_all P xs" "list_all P ys"
    unfolding issues_def by blast
  then show ?thesis unfolding issues_def by (intro exI [of _ "xs @ ys"]) simp
qed

lemma issues_mono: "issues P s t \<Longrightarrow> (\<And>x. P x \<Longrightarrow> Q x) \<Longrightarrow> issues Q s t"
  by (auto simp: issues_def list_all_iff)

lemma ask_issues: "ask os c s = (ok, s') \<Longrightarrow> P c \<Longrightarrow> issues P s s'"
  by (auto simp: ask_def issues_def)

lemma ask_all_issues: "ask_all os cs s = (ok, s') \<Longrightarrow> list_all P cs \<Longrightarrow> issues P s s'"
proof (induction os cs s rule: ask_all.induct)
  case (2 os c cs s)
  obtain b s1 where a: "ask os c s = (b, s1)" by (cases "ask os c s")
  have i: "issues P s s1" using ask_issues [OF a] 2(3) by simp
  then show ?case using 2 a issues_trans [OF i] by (auto split: if_splits)
qed simp

lemma affinity_issues:
  assumes "issue_affinity_syscalls os p cpus (kt_tid info) s = (ok, s')" and "cpus \<noteq> [] \<Longrightarrow> cpus = at_affinity a \<and> \<not> no_setaffinity info"
  shows "issues (allowed_call a info) s s'"
proof (cases "cpus = []")
  case False
  then show ?thesis
  proof (cases "p = Some Deadline")
    case True
    let ?cs = "[Create_cgroup (cgroup_num s), Write_cpus (cgroup_num s) (format_cpu_list cpus), Write_mems (cgroup_num s),
      Attach_task (cgroup_num s) (kt_tid info)]"
    have r: "ask_all os ?cs (s\<lparr>cgroup_num := cgroup_num s + 1\<rparr>) = (ok, s')"
      using assms(1) True False by (simp only: issue_affinity_syscalls_def set_affinity_by_cgroup_def Let_def if_False if_True refl)
    have "issues (allowed_call a info) (s\<lparr>cgroup_num := cgroup_num s + 1\<rparr>) s'"
      by (rule ask_all_issues [OF r]) (use assms(2) False in \<open>simp add: allowed_call_def\<close>)
    then show ?thesis by (simp add: issues_def)
  qed (use assms False in \<open>auto simp: issue_affinity_syscalls_def allowed_call_def intro: ask_issues\<close>)
qed (use assms in \<open>simp add: issue_affinity_syscalls_def\<close>)

lemma issue_issues:
  assumes "issue_syscalls os b (kt_tid info) s = (ok, s')" and "at_policy b = at_policy a" "at_nice b = at_nice a" "at_rt_priority b = at_rt_priority a" "at_deadline b = at_deadline a"
    and "at_affinity b \<noteq> [] \<Longrightarrow> at_affinity b = at_affinity a \<and> \<not> no_setaffinity info"
  shows "issues (allowed_call a info) s s'"
proof (cases "at_policy b")
  case (Some p)
  obtain ok1 s1 where q: "ask_all os (policy_syscalls b p (kt_tid info)) s = (ok1, s1)"
    by (cases "ask_all os (policy_syscalls b p (kt_tid info)) s")
  have "list_all (allowed_call a info) (policy_syscalls b p (kt_tid info))"
    using Some assms(2-5) by (auto simp: policy_syscalls_def allowed_call_def)
  then have i: "issues (allowed_call a info) s s1" by (rule ask_all_issues [OF q])
  show ?thesis
  proof (cases ok1)
    case True
    then have "issue_affinity_syscalls os (Some p) (at_affinity b) (kt_tid info) s1 = (ok, s')"
      using assms(1) Some q by (simp add: issue_syscalls_def)
    then show ?thesis using affinity_issues assms(6) issues_trans [OF i] by blast
  qed (use i assms(1) Some q in \<open>simp add: issue_syscalls_def\<close>)
qed (use assms(1) in \<open>simp add: issue_syscalls_def\<close>)

lemma to_thread_issues:
  assumes "apply_to_thread os m a info s = (ok, s')"
  shows "issues (\<lambda>x. \<not> kernel_thread_in_sync m a info \<and> allowed_call a info x) s s'"
proof (cases "kernel_thread_in_sync m a info")
  case False
  let ?fixed = "at_affinity a \<noteq> [] \<and> no_setaffinity info"
  have "issues (allowed_call a info) s s'"
  proof (cases "?fixed \<and> \<not> same_cpu_set (at_affinity a) (parse_manageable_cpu_list (cpu_bound m) (kt_affinity info))")
    case True
    then show ?thesis using assms False by (simp add: apply_to_thread_def)
  next
    case ok: False
    show ?thesis
    proof (cases "at_policy a = None")
      case True
      then have sync: "\<not> ?fixed" using ok False by (auto simp: kernel_thread_in_sync_def)
      have "issue_affinity_syscalls os (parse_sched_policy (kt_policy info)) (at_affinity a) (kt_tid info) s = (ok, s')"
        using assms False ok True by (auto simp: apply_to_thread_def Let_def)
      then show ?thesis by (rule affinity_issues) (use sync in simp)
    next
      case pol: False
      have i: "issue_syscalls os (if ?fixed then a\<lparr>at_affinity := []\<rparr> else a) (kt_tid info) s = (ok, s')"
        using assms False ok pol by (cases ?fixed) (auto simp: apply_to_thread_def Let_def)
      show ?thesis by (rule issue_issues [OF i]) auto
    qed
  qed
  then show ?thesis using False by simp
qed (use assms in \<open>simp add: apply_to_thread_def\<close>)

section \<open>The kernel thread pass\<close>

abbreviation thread_key :: "kernel_thread_config \<Rightarrow> kernel_thread_info \<Rightarrow> string" where
  "thread_key c info \<equiv> comm c @ CHR '':'' # show_int (kt_tid info)"

definition needed_call :: "machine \<Rightarrow> kernel_thread_config list \<Rightarrow> syscall \<Rightarrow> bool" where
  "needed_call m cs x \<longleftrightarrow> (\<exists>c\<in>set cs. \<exists>info\<in>set (scanned m). kt_is_managed c \<and> kt_comm info = comm c \<and>
     \<not> kernel_thread_in_sync m (kt_attrs c) info \<and> allowed_call (kt_attrs c) info x)"

text \<open>The keys an entry is reported under.\<close>

definition kernel_keys :: "machine \<Rightarrow> kernel_thread_config \<Rightarrow> string list" where
  "kernel_keys m c =
     (if \<not> kt_is_managed c then []
      else let is = filter (\<lambda>i. kt_comm i = comm c) (scanned m) in if is = [] then [comm c] else map (thread_key c) is)"

lemma total_skip [simp]: "total (skip_key k r) = add_mset k (total r)"
  by (simp add: total_def skip_key_def)

lemma to_threads_issues:
  assumes "apply_to_threads os m c infos rs = (r', s')"
  shows "issues (\<lambda>x. \<exists>info\<in>set infos. \<not> kernel_thread_in_sync m (kt_attrs c) info \<and> allowed_call (kt_attrs c) info x) (snd rs) s' \<and>
    total r' = total (fst rs) + mset (map (thread_key c) infos) \<and> so_skipped r' = so_skipped (fst rs)"
  using assms
proof (induction os m c infos rs rule: apply_to_threads.induct)
  case (2 os m c info infos r s)
  obtain ok s1 where a: "apply_to_thread os m (kt_attrs c) info s = (ok, s1)" by (cases "apply_to_thread os m (kt_attrs c) info s")
  have f: "issues (\<lambda>x. \<exists>i\<in>set (info # infos). \<not> kernel_thread_in_sync m (kt_attrs c) i \<and> allowed_call (kt_attrs c) i x) s s1"
    by (rule issues_mono [OF to_thread_issues [OF a]]) simp
  note ih = 2(1) [OF a [symmetric]]
  have rest: "apply_to_threads os m c infos (report ok (thread_key c info) r, s1) = (r', s')" using 2(2) a by simp
  have "issues (\<lambda>x. \<exists>i\<in>set (info # infos). \<not> kernel_thread_in_sync m (kt_attrs c) i \<and> allowed_call (kt_attrs c) i x) s1 s'"
    by (rule issues_mono [of "\<lambda>x. \<exists>i\<in>set infos. \<not> kernel_thread_in_sync m (kt_attrs c) i \<and> allowed_call (kt_attrs c) i x"])
       (use ih [OF rest] in auto)
  then show ?case using ih [OF rest] issues_trans [OF f] by simp
qed simp

lemma kernel_config_issues:
  assumes "apply_kernel_thread_config os m c rs = (r', s')"
  shows "issues (needed_call m [c]) (snd rs) s' \<and> total r' = total (fst rs) + mset (kernel_keys m c)"
proof (cases "kt_is_managed c \<and> find_kernel_threads_by_comm (scanned m) (comm c) \<noteq> []")
  case True
  let ?is = "find_kernel_threads_by_comm (scanned m) (comm c)"
  have t: "apply_to_threads os m c ?is rs = (r', s')" using assms True by (simp add: apply_kernel_thread_config_def Let_def)
  have "issues (needed_call m [c]) (snd rs) s'"
    by (rule issues_mono [OF conjunct1 [OF to_threads_issues [OF t]]])
       (use True in \<open>auto simp: needed_call_def find_kernel_threads_by_comm_def\<close>)
  then show ?thesis using to_threads_issues [OF t] True by (simp add: kernel_keys_def find_kernel_threads_by_comm_def Let_def)
next
  case False
  then show ?thesis using assms
    by (auto simp: apply_kernel_thread_config_def kernel_keys_def find_kernel_threads_by_comm_def Let_def split: if_splits)
qed

text \<open>A pass over a section is a fold whose steps each issue calls and report keys.\<close>

lemma fold_issues:
  assumes "\<And>c rs r' s'. c \<in> set cs \<Longrightarrow> F c rs = (r', s') \<Longrightarrow> issues P (snd rs) s' \<and> total r' = total (fst rs) + mset (K c)"
    and "fold F cs rs = (r', s')"
  shows "issues P (snd rs) s' \<and> total r' = total (fst rs) + mset (concat (map K cs))"
  using assms
proof (induction cs arbitrary: rs)
  case (Cons c cs)
  obtain r1 s1 where f: "F c rs = (r1, s1)" by (cases "F c rs")
  have h: "issues P (snd rs) s1 \<and> total r1 = total (fst rs) + mset (K c)" using Cons.prems(1) [OF _ f] by simp
  have "issues P s1 s' \<and> total r' = total r1 + mset (concat (map K cs))"
    using Cons.IH [of "(r1, s1)", OF Cons.prems(1)] Cons.prems(2) f by simp
  then show ?case using h issues_trans by (auto simp: ac_simps)
qed simp

lemma total_no_outcome [simp]: "total no_outcome = {#}"
  by (simp add: total_def no_outcome_def)

section \<open>The interrupt pass\<close>

definition needed_write :: "machine \<Rightarrow> irq_config list \<Rightarrow> syscall \<Rightarrow> bool" where
  "needed_write m cs x \<longleftrightarrow> (\<exists>c\<in>set cs. irq_is_managed c \<and> x = Write_irq_affinity (irq c) (format_cpu_list (irq_affinity c)) \<and>
     (\<exists>actions. irq_actions m (irq c) = Some actions \<and> (irq_name c = [] \<or> actions = irq_name c)) \<and>
     \<not> same_cpu_set (irq_affinity c) (parse_manageable_cpu_list (cpu_bound m) (irq_current m (irq c))) \<and> \<not> irqbalance m)"

lemma irq_config_issues:
  assumes "apply_irq_config os m c rs = (r', s')"
  shows "issues (needed_write m [c]) (snd rs) s' \<and>
    total r' = total (fst rs) + mset (if irq_is_managed c then [show_int (irq c)] else [])"
proof (cases "calls s' = calls (snd rs)")
  case True
  then have "issues (needed_write m [c]) (snd rs) s'" by (simp add: issues_def)
  then show ?thesis using assms by (auto simp: apply_irq_config_def split: if_splits prod.splits)
next
  case False
  then obtain actions where a: "irq_is_managed c" "irq_actions m (irq c) = Some actions" "irq_name c = [] \<or> actions = irq_name c"
    "\<not> same_cpu_set (irq_affinity c) (parse_manageable_cpu_list (cpu_bound m) (irq_current m (irq c)))" "\<not> irqbalance m"
    using assms by (auto simp: apply_irq_config_def split: if_splits option.splits)
  then have w: "calls s' = calls (snd rs) @ [Write_irq_affinity (irq c) (format_cpu_list (irq_affinity c))]"
    using assms by (auto simp: apply_irq_config_def write_irq_affinity_file_def ask_def)
  have "needed_write m [c] (Write_irq_affinity (irq c) (format_cpu_list (irq_affinity c)))" using a by (simp add: needed_write_def)
  then have "issues (needed_write m [c]) (snd rs) s'" unfolding issues_def w by simp
  then show ?thesis using assms a by (auto simp: apply_irq_config_def split: if_splits prod.splits)
qed

lemma kernel_pass_issues:
  assumes "apply_kernel_thread_configs os m s = (r', s')"
  shows "issues (needed_call m (kernel_thread_configs s)) s s' \<and> total r' = mset (concat (map (kernel_keys m) (kernel_thread_configs s)))"
  using fold_issues [of "kernel_thread_configs s" "apply_kernel_thread_config os m" "needed_call m (kernel_thread_configs s)"
      "kernel_keys m" "(no_outcome, s)" r' s'] assms kernel_config_issues
  unfolding apply_kernel_thread_configs_def
  by (fastforce elim: issues_mono simp: needed_call_def)

lemma irq_pass_issues:
  assumes "apply_irq_configs os m s = (r', s')"
  shows "issues (needed_write m (irq_configs s)) s s' \<and> total r' = mset (map (\<lambda>c. show_int (irq c)) (filter irq_is_managed (irq_configs s)))"
proof -
  let ?K = "\<lambda>c. if irq_is_managed c then [show_int (irq c)] else []"
  have "issues (needed_write m (irq_configs s)) s s' \<and> total r' = mset (concat (map ?K (irq_configs s)))"
    using fold_issues [of "irq_configs s" "apply_irq_config os m" "needed_write m (irq_configs s)" ?K "(no_outcome, s)" r' s']
      assms irq_config_issues
    unfolding apply_irq_configs_def
    by (fastforce elim: issues_mono simp: needed_write_def)
  moreover have "concat (map ?K cs) = map (\<lambda>c. show_int (irq c)) (filter irq_is_managed cs)" for cs by (induction cs) auto
  ultimately show ?thesis by simp
qed

text \<open>Claim C33. Compare before set. The pass over kernel threads issues calls only for a thread that a managed
  entry names and whose attributes differ, only the calls that entry asks for, and none for the CPUs of a
  thread the kernel has pinned; the pass over interrupts writes only the CPU list of a managed entry whose
  interrupt exists under the configured name, differs, and is not left to irqbalance. Every managed entry is
  reported exactly once for each thread it matches, or as skipped, and every managed interrupt exactly once.\<close>

theorem passes_compare_before_set:
  assumes "apply_kernel_thread_configs os m s = (rk, s1)" and "apply_irq_configs os m s = (ri, s2)"
  shows "(\<exists>new. calls s1 = calls s @ new \<and> list_all (needed_call m (kernel_thread_configs s)) new) \<and>
    total rk = mset (concat (map (kernel_keys m) (kernel_thread_configs s))) \<and>
    (\<exists>new. calls s2 = calls s @ new \<and> list_all (needed_write m (irq_configs s)) new) \<and>
    total ri = mset (map (\<lambda>c. show_int (irq c)) (filter irq_is_managed (irq_configs s)))"
  using kernel_pass_issues [OF assms(1)] irq_pass_issues [OF assms(2)] by (simp add: issues_def)

text \<open>A kernel thread and an interrupt that differ from their entries.\<close>

definition cie_busy :: machine where
  "cie_busy = cie_machine\<lparr>scanned := [\<lparr>kt_tid = 9, kt_comm = ''ksoftirqd/0'', kt_policy = ''SCHED_OTHER'', kt_nice = 0, kt_rt_priority = 0,
     kt_affinity = ''0'', no_setaffinity = True\<rparr>], irq_actions := (\<lambda>_. Some ''eth0'')\<rparr>"

definition cie_sections :: cnode where
  "cie_sections = cie_start\<lparr>kernel_thread_configs := demo_kernel_threads,
     irq_configs := [\<lparr>irq = 5, irq_name = ''eth0'', irq_affinity = [1]\<rparr>]\<rparr>"

theorem passes_compare_before_set_witness:
  "total (fst (apply_kernel_thread_configs (\<lambda>_ _. True) cie_busy cie_sections)) = {#''ksoftirqd/0:9''#} \<and>
   total (fst (apply_irq_configs (\<lambda>_ _. True) cie_busy cie_sections)) = {#''5''#}"
proof -
  obtain rk s1 where k: "apply_kernel_thread_configs (\<lambda>_ _. True) cie_busy cie_sections = (rk, s1)"
    by (cases "apply_kernel_thread_configs (\<lambda>_ _. True) cie_busy cie_sections")
  obtain ri s2 where i: "apply_irq_configs (\<lambda>_ _. True) cie_busy cie_sections = (ri, s2)"
    by (cases "apply_irq_configs (\<lambda>_ _. True) cie_busy cie_sections")
  have n: "show_int 9 = ''9''" "show_int 5 = ''5''" by code_simp+
  have f: "kernel_thread_configs cie_sections = demo_kernel_threads" "irq_configs cie_sections = [\<lparr>irq = 5, irq_name = ''eth0'', irq_affinity = [1]\<rparr>]"
    by (simp_all add: cie_sections_def)
  have g: "kernel_keys cie_busy (hd demo_kernel_threads) = [''ksoftirqd/0:9'']"
    by (simp add: cie_busy_def demo_kernel_threads_def kernel_keys_def kt_is_managed_def n)
  show ?thesis using passes_compare_before_set [OF k i] g
    by (simp add: k i f) (simp add: demo_kernel_threads_def irq_is_managed_def n)
qed

section \<open>What a reload accounts for\<close>

text \<open>What an entry says, apart from what is known of its threads.\<close>

definition core_of :: "thread_config \<Rightarrow> string \<times> u64 \<times> sched_attrs" where
  "core_of c = (thread_str c, cfg_domain_id c, attrs c)"

lemma core_of_updates [simp]:
  "core_of (c\<lparr>thread_id := i\<rparr>) = core_of c" "core_of (c\<lparr>matched_tids := ts\<rparr>) = core_of c" "core_of (c\<lparr>applied := b\<rparr>) = core_of c"
  by (simp_all add: core_of_def)

definition same_sections :: "cnode \<Rightarrow> cnode \<Rightarrow> bool" where
  "same_sections s s' \<longleftrightarrow> kernel_thread_configs s' = kernel_thread_configs s \<and> irq_configs s' = irq_configs s \<and>
     map core_of (callback_group_configs s') = map core_of (callback_group_configs s) \<and>
     map core_of (non_ros_thread_configs s') = map core_of (non_ros_thread_configs s)"

lemma same_sections_refl [simp]: "same_sections s s" by (simp add: same_sections_def)

lemma same_sections_trans [trans]: "same_sections s t \<Longrightarrow> same_sections t u \<Longrightarrow> same_sections s u"
  by (simp add: same_sections_def)

lemma sections_calls: "only_calls s s' \<Longrightarrow> same_sections s s'"
  by (simp add: same_sections_def only_calls_def)

lemma map_core_update: "(\<And>c. core_of (f c) = core_of c) \<Longrightarrow> map core_of (cs[i := f (cs ! i)]) = map core_of cs"
  by (cases "i < length cs") (simp_all add: map_update list_update_same_conv list_update_beyond)

lemma sections_on_entry:
  "(\<And>c. core_of (f c) = core_of c) \<Longrightarrow> same_sections s (on_group i f s)"
  "(\<And>c. core_of (f c) = core_of c) \<Longrightarrow> same_sections s (on_thread i f s)"
  by (simp_all add: same_sections_def on_group_def on_thread_def map_core_update)

lemma sections_count [simp]:
  "same_sections s (s'\<lparr>unapplied_num := n\<rparr>) = same_sections s s'" "same_sections (s\<lparr>unapplied_num := n\<rparr>) s' = same_sections s s'"
  "same_sections s (count_applied s') = same_sections s s'"
  by (simp_all add: same_sections_def count_applied_def)

lemma listen_sections: "same_sections s (listen os ts s)"
  unfolding listen_def
proof (induction ts arbitrary: s)
  case (Cons t ts)
  obtain n i where t: "t = (n, i)" by (cases t)
  have "same_sections s (non_ros_thread_callback os n i s)"
  proof (cases "id_to_non_ros_thread_config s n")
    case (Some j)
    let ?s1 = "on_thread j (\<lambda>c. c\<lparr>thread_id := i\<rparr>) s"
    obtain ok s2 where r: "issue_syscalls os (attrs (non_ros_thread_configs ?s1 ! j)) i ?s1 = (ok, s2)"
      by (cases "issue_syscalls os (attrs (non_ros_thread_configs ?s1 ! j)) i ?s1")
    have "same_sections s ?s1" by (rule sections_on_entry) simp
    then have s2: "same_sections s s2" using sections_calls [OF issue_syscalls_frame [OF r]] same_sections_trans by blast
    moreover have "same_sections s2 (on_thread j (\<lambda>c. c\<lparr>applied := True\<rparr>) s2)" by (rule sections_on_entry) simp
    ultimately have "same_sections s (on_thread j (\<lambda>c. c\<lparr>applied := True\<rparr>) s2)" using same_sections_trans by blast
    then show ?thesis using Some r s2 by (simp add: non_ros_thread_callback_def Let_def)
  qed (simp add: non_ros_thread_callback_def)
  then show ?case using same_sections_trans [OF _ Cons.IH] t by simp
qed simp

lemma instances_sections: "reapply_instances os c ts any rs = (b, r', s') \<Longrightarrow> same_sections (snd rs) s'"
proof (induction os c ts any rs arbitrary: b r' s' rule: reapply_instances.induct)
  case (2 os c gid tid ts any r s)
  obtain ok s1 where i: "issue_syscalls os (attrs c) tid s = (ok, s1)" by (cases "issue_syscalls os (attrs c) tid s")
  have "same_sections s1 s'" using 2(1) [OF i [symmetric]] 2(2) i by simp
  then show ?case using same_sections_trans [OF sections_calls [OF issue_syscalls_frame [OF i]]] by simp
qed simp

lemma mark_sections: "same_sections s (mark_group i s)" "same_sections s (mark_thread i s)"
proof -
  show "same_sections s (mark_group i s)"
    unfolding mark_group_def using sections_on_entry(1) [of "\<lambda>c. c\<lparr>applied := True\<rparr>" "s\<lparr>unapplied_num := unapplied_num s - 1\<rparr>" i] by simp
  show "same_sections s (mark_thread i s)"
    unfolding mark_thread_def using sections_on_entry(2) [of "\<lambda>c. c\<lparr>applied := True\<rparr>" "s\<lparr>unapplied_num := unapplied_num s - 1\<rparr>" i] by simp
qed

lemma reapply_sections:
  "same_sections (snd rs) (snd (reapply_group os i rs))" "same_sections (snd rs) (snd (reapply_thread os i rs))"
proof -
  have call: "same_sections (snd rs) (snd (issue_syscalls os a t (snd rs)))" for a t
    using sections_calls [OF issue_syscalls_frame] by (metis prod.collapse)
  have inst: "same_sections (snd rs) (snd (snd (reapply_instances os c ts b rs)))" for c ts b
    using instances_sections by (metis prod.collapse)
  show "same_sections (snd rs) (snd (reapply_group os i rs))"
    using call inst mark_sections(1) same_sections_trans
    by (auto simp: reapply_group_def Let_def split: prod.split; metis snd_conv)
  show "same_sections (snd rs) (snd (reapply_thread os i rs))"
    using call mark_sections(2) same_sections_trans
    by (auto simp: reapply_thread_def Let_def split: prod.split; metis snd_conv)
qed

lemma fold_sections:
  assumes "\<And>i rs. same_sections (snd rs) (snd (F i rs))"
  shows "same_sections (snd rs) (snd (fold F is rs))"
proof (induction "is" arbitrary: rs)
  case (Cons i "is")
  then show ?case using assms same_sections_trans by simp blast
qed simp

lemma reload_sections:
  assumes "on_reapply_config_request os m between (Inr (cbs, nrts, kts, iqs)) s = (r', s')"
  shows "kernel_thread_configs s' = kts \<and> irq_configs s' = iqs \<and>
    map core_of (callback_group_configs s') = map core_of cbs \<and> map core_of (non_ros_thread_configs s') = map core_of nrts \<and>
    total (kernel_threads r') = mset (concat (map (kernel_keys m) kts)) \<and>
    total (irqs r') = mset (map (\<lambda>c. show_int (irq c)) (filter irq_is_managed iqs))"
proof -
  define s1 where "s1 = listen os (between After_group_swap) (swap_groups cbs s)"
  define s2 where "s2 = (swap_threads nrts s1)\<lparr>kernel_thread_configs := kts, irq_configs := iqs\<rparr>"
  obtain rg s3 where g: "reapply_groups os between s2 = (rg, s3)" by (cases "reapply_groups os between s2")
  define s3' where "s3' = listen os (between Before_threads) s3"
  obtain rt s4 where t: "reapply_threads os s3' = (rt, s4)" by (cases "reapply_threads os s3'")
  define s4' where "s4' = listen os (between Before_sections) s4"
  obtain rk s5 where k: "apply_kernel_thread_configs os m s4' = (rk, s5)" by (cases "apply_kernel_thread_configs os m s4'")
  obtain ri s6 where i: "apply_irq_configs os m s5 = (ri, s6)" by (cases "apply_irq_configs os m s5")
  have res: "r' = \<lparr>success = True, callback_groups = rg, non_ros_threads = rt, kernel_threads = rk, irqs = ri\<rparr>" "s' = s6"
    using assms g t k i by (simp_all add: on_reapply_config_request_def Let_def s1_def s2_def s3'_def s4'_def)
  have c1: "map core_of (callback_group_configs s1) = map core_of cbs"
    using listen_sections [of "swap_groups cbs s" os "between After_group_swap", folded s1_def]
    by (auto simp: same_sections_def swap_groups_def carry_group_def Let_def split: option.split)
  have i2: "kernel_thread_configs s2 = kts" "irq_configs s2 = iqs" "map core_of (callback_group_configs s2) = map core_of cbs"
    "map core_of (non_ros_thread_configs s2) = map core_of nrts"
    using c1 by (auto simp: s2_def swap_threads_def carry_thread_def Let_def split: option.split)
  have gf: "same_sections (snd rs) (snd (reapply_group os i (fst rs, listen os (between (Before_group i)) (snd rs))))" for i rs
    using same_sections_trans [OF listen_sections] reapply_sections(1) [of "(fst rs, listen os (between (Before_group i)) (snd rs))" os i]
    by simp
  have "same_sections s2 s3"
    using fold_sections [of "\<lambda>i rs. reapply_group os i (fst rs, listen os (between (Before_group i)) (snd rs))", OF gf,
        of "(no_outcome, s2)" "[0..<length (callback_group_configs s2)]", folded reapply_groups_def] g by simp
  also have "same_sections s3 s3'" unfolding s3'_def by (rule listen_sections)
  also have "same_sections s3' s4"
    using fold_sections [of "reapply_thread os", OF reapply_sections(2), of "(no_outcome, s3')" "[0..<length (non_ros_thread_configs s3')]",
        folded reapply_threads_def] t by simp
  also have "same_sections s4 s4'" unfolding s4'_def by (rule listen_sections)
  finally have e: "same_sections s2 s4'" .
  have e6: "same_sections s4' s6" using sections_calls kernel_pass_frame [OF k] irq_pass_frame [OF i] same_sections_trans by blast
  have "kernel_thread_configs s4' = kts" "irq_configs s5 = iqs"
    using e i2 only_calls_frame(7) [OF kernel_pass_frame [OF k]] by (simp_all add: same_sections_def)
  then show ?thesis using kernel_pass_issues [OF k] irq_pass_issues [OF i] same_sections_trans [OF e e6] i2
    by (simp add: res same_sections_def)
qed

text \<open>Claim C32. A reload accounts for everything. A rejected document changes nothing. Otherwise the node has exactly
  the entries of the document, and each section of the response is complete: every callback group entry
  (every known instance of a wildcard entry), every thread entry, every managed kernel thread entry (once for
  each kernel thread it matches) and every managed interrupt entry is reported exactly once, as applied, failed
  or skipped; entries of kernel threads and interrupts that set nothing are not reported. Skipped callback
  groups are exactly those of which nothing has been announced; and when no callback group and no thread failed
  or was skipped, every such entry is applied.\<close>

theorem reload_accounts_for_everything:
  assumes "cnode_reach Y bound dd s"
    and "on_reapply_config_request os m between (load_configs Y bound dd yaml) s = (r, s')"
  shows "(\<not> success r \<longrightarrow> s' = s) \<and> (success r \<longleftrightarrow> (\<exists>cfgs. load_configs Y bound dd yaml = Inr cfgs)) \<and>
    (\<forall>cbs nrts kts iqs. load_configs Y bound dd yaml = Inr (cbs, nrts, kts, iqs) \<longrightarrow>
      map core_of (callback_group_configs s') = map core_of cbs \<and> map core_of (non_ros_thread_configs s') = map core_of nrts \<and>
      kernel_thread_configs s' = kts \<and> irq_configs s' = iqs \<and>
      total (callback_groups r) = mset (concat (map group_keys (callback_group_configs s'))) \<and>
      so_skipped (callback_groups r) = map own_key (filter unknown (callback_group_configs s')) \<and>
      total (non_ros_threads r) = mset (map thread_str nrts) \<and>
      total (kernel_threads r) = mset (concat (map (kernel_keys m) kts)) \<and>
      total (irqs r) = mset (map (\<lambda>c. show_int (irq c)) (filter irq_is_managed iqs)) \<and>
      (so_failed (callback_groups r) = [] \<longrightarrow> so_skipped (callback_groups r) = [] \<longrightarrow>
       so_failed (non_ros_threads r) = [] \<longrightarrow> so_skipped (non_ros_threads r) = [] \<longrightarrow>
       (\<forall>c\<in>set (callback_group_configs s'). applied c) \<and> (\<forall>c\<in>set (non_ros_thread_configs s'). applied c)))"
proof (cases "load_configs Y bound dd yaml")
  case (Inl e)
  then show ?thesis using assms(2) by (auto simp: on_reapply_config_request_def rejected_def)
next
  case (Inr cfgs)
  obtain cbs nrts kts iqs where c: "cfgs = (cbs, nrts, kts, iqs)" by (cases cfgs)
  have inv: "groups_inv s" "threads_inv s" using cnode_reach_inv [OF assms(1)] by simp_all
  note sec = reload_sections [OF assms(2) [unfolded Inr c]]
  have "map thread_str cs = map fst (map core_of cs)" for cs by (simp add: core_of_def comp_def)
  then have "map thread_str (non_ros_thread_configs s') = map thread_str nrts" using sec by metis
  then show ?thesis
    using reload_facts [OF inv _ _ _ _ assms(2) [unfolded Inr c]] load_fresh [OF Inr [unfolded c]] Inr c sec by simp
qed

theorem reload_accounts_for_everything_witness:
  "\<exists>r s'. on_reapply_config_request (\<lambda>_ _. True) cie_busy (\<lambda>_. []) (load_configs doc_api 7 0 cie_doc) cie_node = (r, s') \<and>
     success r \<and> total (callback_groups r) = mset (concat (map group_keys (callback_group_configs s'))) \<and>
     total (non_ros_threads r) = {#''t''#} \<and> total (kernel_threads r) = {#}"
proof -
  obtain r s' where r: "on_reapply_config_request (\<lambda>_ _. True) cie_busy (\<lambda>_. []) (load_configs doc_api 7 0 cie_doc) cie_node = (r, s')"
    by (cases "on_reapply_config_request (\<lambda>_ _. True) cie_busy (\<lambda>_. []) (load_configs doc_api 7 0 cie_doc) cie_node")
  show ?thesis using reload_accounts_for_everything [OF cie_reached r] cie_loaded r by (auto simp: cie_threads_def cie_entry_def)
qed

end
