(* ===== verification/Cie_Prerun.thy ===== *)
theory Cie_Prerun
  imports Cie_Startup Cie_Node_Passes
begin

text \<open>
  The prerun node (\<open>prerun_node.cpp\<close>) collects what announces itself and writes a template of the configuration
  with the values observed on this machine. Read back unedited by the thread configurator, the template is
  accepted, and the passes over kernel threads and interrupts have nothing to do.

  The emitted document is a value of \<^typ>\<open>doc\<close>. How \<open>yaml-cpp\<close> writes and loads it is a parameter, and what is
  relied on is named: a document that has been written is the one that is loaded (\<open>reads_back\<close>).
\<close>

section \<open>Collecting\<close>

record prerun =
  domain_and_cbg_ids :: "(u64 \<times> string) list"
  non_ros_thread_names :: "string list"

definition max_domain_id :: nat where "max_domain_id = 101"

text \<open>A \<open>std::set\<close> is its elements in ascending order.\<close>

definition domain_ids_of :: "int list \<Rightarrow> nat list" where
  "domain_ids_of domains =
     fold (\<lambda>raw ids. if raw < 0 then ids else if nat raw > max_domain_id then ids else insort_insert (nat raw) ids) domains []"

definition topic_callback :: "u64 \<Rightarrow> string \<Rightarrow> prerun \<Rightarrow> prerun" where
  "topic_callback d gid s = s\<lparr>domain_and_cbg_ids := insort_insert (d, gid) (domain_and_cbg_ids s)\<rparr>"

definition record_thread_name :: "string \<Rightarrow> prerun \<Rightarrow> prerun" where
  "record_thread_name name s =
     (if name \<in> set (non_ros_thread_names s) then s
      else s\<lparr>non_ros_thread_names := insort_insert name (non_ros_thread_names s)\<rparr>)"

datatype announcement = Group u64 string | Thread string

definition hear :: "announcement \<Rightarrow> prerun \<Rightarrow> prerun" where
  "hear a = (case a of Group d gid \<Rightarrow> topic_callback d gid | Thread name \<Rightarrow> record_thread_name name)"

definition collected :: "announcement list \<Rightarrow> prerun" where
  "collected as = fold hear as \<lparr>domain_and_cbg_ids = [], non_ros_thread_names = []\<rparr>"

section \<open>The template\<close>

text \<open>\<open>std::unique\<close> on the name keeps the first of each run.\<close>

fun dedup_by_comm :: "kernel_thread_info list \<Rightarrow> kernel_thread_info list" where
  "dedup_by_comm (x # y # xs) = (if kt_comm x = kt_comm y then dedup_by_comm (x # xs) else x # dedup_by_comm (y # xs))"
| "dedup_by_comm xs = xs"

definition unmanaged_affinity :: "string \<times> doc" where "unmanaged_affinity = (''affinity'', Seq [])"
definition unmanageable :: doc where "unmanageable = Scalar k_unmanageable"

definition int_list :: "int list \<Rightarrow> doc" where "int_list cs = Seq (map (\<lambda>c. Scalar (show_int c)) cs)"

definition group_entry :: "u64 \<times> string \<Rightarrow> doc" where
  "group_entry k = Map [(''id'', Scalar (snd k)), (''domain_id'', Scalar (decimal (unat (fst k)))), unmanaged_affinity,
     (''policy'', Scalar ''SCHED_OTHER''), (''nice'', Scalar (show_int 0))]"

definition thread_entry :: "string \<Rightarrow> doc" where
  "thread_entry name = Map [(''name'', Scalar name), unmanaged_affinity, (''policy'', Scalar ''SCHED_OTHER''), (''nice'', Scalar (show_int 0))]"

definition kernel_thread_entry :: "int \<Rightarrow> kernel_thread_info \<Rightarrow> doc" where
  "kernel_thread_entry max_cpu info =
     (let cpus = parse_manageable_cpu_list max_cpu (kt_affinity info) in
      Map ((''comm'', Scalar (kt_comm info)) #
        (case parse_sched_policy (kt_policy info) of
           Some policy \<Rightarrow>
             if policy \<noteq> Deadline then
               [(''policy'', Scalar (kt_policy info)),
                if is_cfs policy then (''nice'', Scalar (show_int (kt_nice info))) else (''priority'', Scalar (show_int (kt_rt_priority info)))]
             else [(''policy'', unmanageable), (''priority'', unmanageable)]
         | None \<Rightarrow> [(''policy'', unmanageable), (''priority'', unmanageable)]) @
        [(''affinity'', case cpus of None \<Rightarrow> unmanageable | Some cs \<Rightarrow> if no_setaffinity info then unmanageable else int_list cs)]))"

definition irq_entry :: "int \<Rightarrow> irq_info \<Rightarrow> doc" where
  "irq_entry max_cpu info =
     Map [(''irq'', Scalar (show_int (ii_irq info))), (''name'', Scalar (ii_name info)),
       (''affinity'', case parse_manageable_cpu_list max_cpu (ii_affinity info) of None \<Rightarrow> unmanageable | Some cs \<Rightarrow> int_list cs)]"

definition dump_yaml_config ::
  "int \<Rightarrow> (string, string) omap \<Rightarrow> kernel_thread_info list \<Rightarrow> irq_info list \<Rightarrow> prerun \<Rightarrow> doc" where
  "dump_yaml_config max_cpu hw_info kts iqs s =
     Map [(''hardware_info'', Map (map (\<lambda>(k, v). (k, Scalar v)) hw_info)),
       (''rt_throttling'', Map [(''runtime_us'', Scalar (show_int 950000)), (''period_us'', Scalar (show_int 1000000))]),
       (''callback_groups'', Seq (map group_entry (domain_and_cbg_ids s))),
       (''non_ros_threads'', Seq (map thread_entry (non_ros_thread_names s))),
       (''kernel_threads'', Seq (map (kernel_thread_entry max_cpu) (dedup_by_comm kts))),
       (''irqs'', Seq (map (irq_entry max_cpu) iqs))]"

section \<open>What reading back relies on\<close>

text \<open>
  \<open>yaml-cpp\<close> writes the document and loads it: \<open>emit d\<close> is the node that the loaded file has for \<open>d\<close>. What the
  configurator relies on is that a document that has been written is the one that is loaded: each node of it has
  its kind, a scalar its text, a sequence its elements, a map its keys, and a written integer converts to itself.
\<close>

fun parts :: "doc \<Rightarrow> doc list" where
  "parts (Seq ds) = Seq ds # concat (map parts ds)"
| "parts (Map kvs) = Map kvs # concat (map (\<lambda>kv. parts (snd kv)) kvs)"
| "parts d = [d]"

fun node_reads_back :: "'y yaml_api \<Rightarrow> (doc \<Rightarrow> 'y) \<Rightarrow> doc \<Rightarrow> bool" where
  "node_reads_back Y emit (Scalar s) \<longleftrightarrow>
     y_defined Y (emit (Scalar s)) \<and> \<not> y_null Y (emit (Scalar s)) \<and> y_is_scalar Y (emit (Scalar s)) \<and>
     y_scalar Y (emit (Scalar s)) = s \<and> y_string Y (emit (Scalar s)) = Some s \<and>
     (\<forall>i. s = show_int i \<longrightarrow> - (2 ^ 31) \<le> i \<longrightarrow> i < 2 ^ 31 \<longrightarrow> y_int Y (emit (Scalar s)) = Some i) \<and>
     (\<forall>w :: u64. s = decimal (unat w) \<longrightarrow> y_u64 Y (emit (Scalar s)) = Some w)"
| "node_reads_back Y emit (Seq ds) \<longleftrightarrow>
     y_defined Y (emit (Seq ds)) \<and> \<not> y_null Y (emit (Seq ds)) \<and> y_is_seq Y (emit (Seq ds)) \<and> \<not> y_is_scalar Y (emit (Seq ds)) \<and>
     y_elems Y (emit (Seq ds)) = map emit ds"
| "node_reads_back Y emit (Map kvs) \<longleftrightarrow>
     (distinct (map fst kvs) \<longrightarrow>
        y_defined Y (emit (Map kvs)) \<and> \<not> y_null Y (emit (Map kvs)) \<and> y_is_map Y (emit (Map kvs)) \<and>
        (\<forall>(k, d)\<in>set kvs. y_get Y (emit (Map kvs)) k = emit d) \<and>
        (\<forall>k. k \<notin> fst ` set kvs \<longrightarrow> \<not> y_defined Y (y_get Y (emit (Map kvs)) k)))"
| "node_reads_back Y emit d \<longleftrightarrow> True"

definition reads_back :: "'y yaml_api \<Rightarrow> (doc \<Rightarrow> 'y) \<Rightarrow> doc \<Rightarrow> bool" where
  "reads_back Y emit d \<longleftrightarrow> (\<forall>p\<in>set (parts d). node_reads_back Y emit p)"

lemma scalar_reads_back:
  assumes "reads_back Y emit (Scalar s)"
  shows "y_defined Y (emit (Scalar s))" "\<not> y_null Y (emit (Scalar s))" "y_is_scalar Y (emit (Scalar s))"
    "y_scalar Y (emit (Scalar s)) = s" "y_string Y (emit (Scalar s)) = Some s"
  using assms by (simp_all add: reads_back_def)

lemma int_reads_back: "reads_back Y emit (Scalar (show_int i)) \<Longrightarrow> - (2 ^ 31) \<le> i \<Longrightarrow> i < 2 ^ 31 \<Longrightarrow> y_int Y (emit (Scalar (show_int i))) = Some i"
  by (simp add: reads_back_def)

lemma u64_reads_back: "reads_back Y emit (Scalar (decimal (unat w))) \<Longrightarrow> y_u64 Y (emit (Scalar (decimal (unat w)))) = Some (w :: u64)"
  by (simp add: reads_back_def)

lemma seq_reads_back:
  assumes "reads_back Y emit (Seq ds)"
  shows "y_defined Y (emit (Seq ds))" "\<not> y_null Y (emit (Seq ds))" "y_is_seq Y (emit (Seq ds))" "\<not> y_is_scalar Y (emit (Seq ds))"
    "y_elems Y (emit (Seq ds)) = map emit ds" "d \<in> set ds \<Longrightarrow> reads_back Y emit d"
  using assms by (auto simp: reads_back_def)

lemma map_reads_back:
  assumes "reads_back Y emit (Map kvs)" and "distinct (map fst kvs)"
  shows "y_defined Y (emit (Map kvs))" "\<not> y_null Y (emit (Map kvs))" "y_is_map Y (emit (Map kvs))"
    "(k, d) \<in> set kvs \<Longrightarrow> y_get Y (emit (Map kvs)) k = emit d" "(k, d) \<in> set kvs \<Longrightarrow> reads_back Y emit d"
    "k \<notin> fst ` set kvs \<Longrightarrow> \<not> y_defined Y (y_get Y (emit (Map kvs)) k)"
  using assms by (fastforce simp: reads_back_def)+

section \<open>What the parser makes of an entry\<close>

definition default_attrs :: sched_attrs where "default_attrs = no_attrs\<lparr>at_policy := Some Other\<rparr>"

definition new_entry :: "u64 \<Rightarrow> string \<Rightarrow> thread_config" where
  "new_entry d name = \<lparr>thread_str = name, cfg_domain_id = d, thread_id = -1, attrs = default_attrs, matched_tids = [], applied = False\<rparr>"

lemma policy_facts: "parse_sched_policy ''SCHED_OTHER'' = Some Other" "is_cfs Other" "to_number (show_int 0) = Some 0"
  by (simp_all add: parse_sched_policy_def k_policies_def is_cfs_eq to_number_show)

lemma default_parsed:
  assumes "y_get Y e ''affinity'' = emit (Seq [])" and "y_get Y e ''policy'' = emit (Scalar ''SCHED_OTHER'')"
    and "y_get Y e ''nice'' = emit (Scalar (show_int 0))"
    and "reads_back Y emit (Seq [])" and "reads_back Y emit (Scalar ''SCHED_OTHER'')" and "reads_back Y emit (Scalar (show_int 0))"
  shows "parse_attrs Y b e = Inr default_attrs"
proof -
  have "parse_affinity Y b e False = Inr []"
    using seq_reads_back [OF assms(4)] by (simp add: parse_affinity_def assms(1) is_unset_def sort_unique_def)
  moreover have "parse_nice Y e False = Inr 0"
    using scalar_reads_back [OF assms(6)] int_reads_back [OF assms(6)]
    by (simp add: parse_nice_def assms(3) is_unset_def k_nice_min_def k_nice_max_def)
  ultimately show ?thesis using scalar_reads_back [OF assms(5)]
    by (simp add: parse_attrs_def assms(2) parse_policy_or_throw_def policy_facts the_or_def default_attrs_def no_attrs_def)
qed

lemma group_parsed:
  assumes "reads_back Y emit (group_entry k)" and "CHR ''*'' \<notin> set (snd k)"
  shows "parse_callback_group Y b dd (emit (group_entry k)) = Inr (new_entry (fst k) (snd k))"
proof -
  note m = map_reads_back [OF assms(1) [unfolded group_entry_def], folded group_entry_def]
  have r: "y_get Y (emit (group_entry k)) key = emit d \<and> reads_back Y emit d"
    if "(key, d) \<in> set [(''id'', Scalar (snd k)), (''domain_id'', Scalar (decimal (unat (fst k)))), (''affinity'', Seq []),
      (''policy'', Scalar ''SCHED_OTHER''), (''nice'', Scalar (show_int 0))]" for key d
    using m(4,5) [of key d] that by (simp add: unmanaged_affinity_def)
  note r = r [of "''id''" "Scalar (snd k)"] r [of "''domain_id''" "Scalar (decimal (unat (fst k)))"] r [of "''affinity''" "Seq []"]
    r [of "''policy''" "Scalar ''SCHED_OTHER''"] r [of "''nice''" "Scalar (show_int 0)"]
  have "parse_attrs Y b (emit (group_entry k)) = Inr default_attrs" by (rule default_parsed [where emit = emit]) (use r in simp_all)
  moreover have "y_string Y (y_get Y (emit (group_entry k)) ''id'') = Some (snd k)"
    using r(1) scalar_reads_back(5) [of Y emit "snd k"] by simp
  moreover have "y_defined Y (y_get Y (emit (group_entry k)) ''domain_id'')" "y_u64 Y (y_get Y (emit (group_entry k)) ''domain_id'') = Some (fst k)"
    using r(2) scalar_reads_back(1) [of Y emit "decimal (unat (fst k))"] u64_reads_back [of Y emit "fst k"] by simp_all
  ultimately show ?thesis using assms(2) by (simp add: parse_callback_group_def check_id_def new_entry_def)
qed

lemma thread_parsed:
  assumes "reads_back Y emit (thread_entry name)"
  shows "parse_non_ros_thread Y b (emit (thread_entry name)) = Inr (new_entry 0 name)"
proof -
  note m = map_reads_back [OF assms [unfolded thread_entry_def], folded thread_entry_def]
  have r: "y_get Y (emit (thread_entry name)) key = emit d \<and> reads_back Y emit d"
    if "(key, d) \<in> set [(''name'', Scalar name), (''affinity'', Seq []), (''policy'', Scalar ''SCHED_OTHER''), (''nice'', Scalar (show_int 0))]"
    for key d
    using m(4,5) [of key d] that by (simp add: unmanaged_affinity_def)
  note r = r [of "''name''" "Scalar name"] r [of "''affinity''" "Seq []"] r [of "''policy''" "Scalar ''SCHED_OTHER''"]
    r [of "''nice''" "Scalar (show_int 0)"]
  have "parse_attrs Y b (emit (thread_entry name)) = Inr default_attrs" by (rule default_parsed [where emit = emit]) (use r in simp_all)
  moreover have "y_string Y (y_get Y (emit (thread_entry name)) ''name'') = Some name"
    using r(1) scalar_reads_back(5) [of Y emit name] by simp
  ultimately show ?thesis by (simp add: parse_non_ros_thread_def new_entry_def)
qed

lemma traverse_map: "(\<And>x. x \<in> set xs \<Longrightarrow> f (g x) = Inr (h x)) \<Longrightarrow> traverse f (map g xs) = Inr (map h xs)"
  by (induction xs) auto

section \<open>Kernel threads and interrupts\<close>

text \<open>What the kernel shows of a thread's nice value and priority.\<close>

definition shown_in_range :: "kernel_thread_info \<Rightarrow> bool" where
  "shown_in_range i \<longleftrightarrow> -20 \<le> kt_nice i \<and> kt_nice i \<le> 19 \<and>
     (parse_sched_policy (kt_policy i) \<in> {Some Fifo, Some Rr} \<longrightarrow> 1 \<le> kt_rt_priority i \<and> kt_rt_priority i \<le> 99)"

definition kept_cpus :: "int \<Rightarrow> kernel_thread_info \<Rightarrow> int list" where
  "kept_cpus b i = (if no_setaffinity i then [] else case parse_manageable_cpu_list b (kt_affinity i) of None \<Rightarrow> [] | Some cs \<Rightarrow> cs)"

definition kept_attrs :: "int \<Rightarrow> kernel_thread_info \<Rightarrow> sched_attrs" where
  "kept_attrs b i =
     (case parse_sched_policy (kt_policy i) of
        None \<Rightarrow> no_attrs\<lparr>at_affinity := kept_cpus b i\<rparr>
      | Some p \<Rightarrow>
          if p = Deadline then no_attrs\<lparr>at_affinity := kept_cpus b i\<rparr>
          else if is_cfs p then no_attrs\<lparr>at_affinity := kept_cpus b i, at_policy := Some p, at_nice := kt_nice i\<rparr>
          else no_attrs\<lparr>at_affinity := kept_cpus b i, at_policy := Some p, at_rt_priority := kt_rt_priority i\<rparr>)"

lemma manageable_canonical:
  assumes "parse_manageable_cpu_list b s = Some cs"
  shows "cs \<noteq> [] \<and> sort_unique cs = cs \<and> (\<forall>c\<in>set cs. 0 \<le> c \<and> c \<le> b \<and> c < 2 ^ 31)"
proof -
  obtain xs where x: "parse_cpu_list s = Some xs" "cs = filter (\<lambda>c. \<not> c > b) xs" "cs \<noteq> []"
    using assms by (auto simp: parse_manageable_cpu_list_def Let_def split: option.splits if_splits)
  obtain ys where y: "xs = sort_unique ys" "cpu_tokens (strip_end s) [] = Some ys"
    using x(1) by (auto simp: parse_cpu_list_def Let_def split: if_splits)
  have "\<forall>c\<in>set xs. 0 \<le> c \<and> c \<le> k_max_cpu_number" using cpu_tokens_bounds [OF y(2)] y(1) by (simp add: sort_unique_def)
  moreover have "sorted cs \<and> distinct cs" using x(2) y(1) by (simp add: sort_unique_def distinct_sorted_adj sorted_wrt_filter)
  ultimately show ?thesis using x sort_unique_id by (auto simp: k_max_cpu_number_def)
qed

lemma int_list_parsed:
  assumes "\<forall>c\<in>set cs. 0 \<le> c \<and> c \<le> b \<and> c < 2 ^ 31" and "sort_unique cs = cs"
    and "y_get Y e ''affinity'' = emit (int_list cs)" and "reads_back Y emit (int_list cs)"
  shows "parse_affinity Y b e True = Inr cs"
proof -
  note s = seq_reads_back [OF assms(4) [unfolded int_list_def], folded int_list_def]
  have "traverse (parse_cpu Y b) (map (\<lambda>c. emit (Scalar (show_int c))) cs) = Inr (map (\<lambda>c. c) cs)"
  proof (rule traverse_map)
    fix c assume c: "c \<in> set cs"
    then have "reads_back Y emit (Scalar (show_int c))" by (intro s(6)) simp
    then have "y_int Y (emit (Scalar (show_int c))) = Some c" using int_reads_back [of Y emit c] assms(1) c by fastforce
    then show "parse_cpu Y b (emit (Scalar (show_int c))) = Inr c" using assms(1) c by (auto simp: parse_cpu_def)
  qed
  then have "traverse (parse_cpu Y b) (y_elems Y (emit (int_list cs))) = Inr cs" by (simp add: s(5) comp_def)
  moreover have "\<not> is_unset Y (emit (int_list cs)) True" using s by (simp add: is_unset_def)
  ultimately show ?thesis using assms(2) s(3) by (simp add: parse_affinity_def assms(3))
qed

lemma unmanageable_unset: "reads_back Y emit unmanageable \<Longrightarrow> is_unset Y (emit unmanageable) True"
  using scalar_reads_back [of Y emit k_unmanageable] by (simp add: is_unset_def unmanageable_def)

lemma shown_set:
  assumes "reads_back Y emit (Scalar s)" and "s \<noteq> k_unmanageable"
  shows "\<not> is_unset Y (emit (Scalar s)) True"
  using scalar_reads_back [OF assms(1)] assms(2) by (simp add: is_unset_def)

lemma unmanageable_parsed:
  "y_get Y e ''affinity'' = emit unmanageable \<Longrightarrow> reads_back Y emit unmanageable \<Longrightarrow> parse_affinity Y b e True = Inr []"
  by (simp add: parse_affinity_def unmanageable_unset)

text \<open>The fields of an entry, as the parser finds them.\<close>

definition policy_fields :: "kernel_thread_info \<Rightarrow> (string \<times> doc) list" where
  "policy_fields i =
     (case parse_sched_policy (kt_policy i) of
        Some p \<Rightarrow>
          if p \<noteq> Deadline then
            [(''policy'', Scalar (kt_policy i)),
             if is_cfs p then (''nice'', Scalar (show_int (kt_nice i))) else (''priority'', Scalar (show_int (kt_rt_priority i)))]
          else [(''policy'', unmanageable), (''priority'', unmanageable)]
      | None \<Rightarrow> [(''policy'', unmanageable), (''priority'', unmanageable)])"

definition affinity_doc :: "int \<Rightarrow> kernel_thread_info \<Rightarrow> doc" where
  "affinity_doc b i = (case parse_manageable_cpu_list b (kt_affinity i) of
     None \<Rightarrow> unmanageable | Some cs \<Rightarrow> if no_setaffinity i then unmanageable else int_list cs)"

lemma kernel_entry_fields:
  "kernel_thread_entry b i = Map ((''comm'', Scalar (kt_comm i)) # policy_fields i @ [(''affinity'', affinity_doc b i)])"
  by (simp add: kernel_thread_entry_def policy_fields_def affinity_doc_def Let_def)

lemma policy_field_keys: "fst ` set (policy_fields i) \<subseteq> {''policy'', ''nice'', ''priority''} \<and> distinct (map fst (policy_fields i))"
  by (auto simp: policy_fields_def split: option.split)

lemma kernel_entry_reads_back:
  assumes "reads_back Y emit (kernel_thread_entry b i)"
  shows "y_is_map Y (emit (kernel_thread_entry b i))"
    "y_get Y (emit (kernel_thread_entry b i)) ''comm'' = emit (Scalar (kt_comm i))" "reads_back Y emit (Scalar (kt_comm i))"
    "y_get Y (emit (kernel_thread_entry b i)) ''affinity'' = emit (affinity_doc b i)" "reads_back Y emit (affinity_doc b i)"
    "(k, d) \<in> set (policy_fields i) \<Longrightarrow> y_get Y (emit (kernel_thread_entry b i)) k = emit d"
    "(k, d) \<in> set (policy_fields i) \<Longrightarrow> reads_back Y emit d"
    "k \<notin> fst ` set (policy_fields i) \<Longrightarrow> k \<notin> {''comm'', ''affinity''} \<Longrightarrow>
       \<not> y_defined Y (y_get Y (emit (kernel_thread_entry b i)) k)"
proof -
  have "distinct (map fst ((''comm'', Scalar (kt_comm i)) # policy_fields i @ [(''affinity'', affinity_doc b i)]))"
    using policy_field_keys [of i] by auto
  note m = map_reads_back [OF assms [unfolded kernel_entry_fields] this, folded kernel_entry_fields]
  show "y_is_map Y (emit (kernel_thread_entry b i))" by (rule m)
  show "y_get Y (emit (kernel_thread_entry b i)) ''comm'' = emit (Scalar (kt_comm i))" "reads_back Y emit (Scalar (kt_comm i))"
    using m(4,5) [of "''comm''" "Scalar (kt_comm i)"] by simp_all
  show "y_get Y (emit (kernel_thread_entry b i)) ''affinity'' = emit (affinity_doc b i)" "reads_back Y emit (affinity_doc b i)"
    using m(4,5) [of "''affinity''" "affinity_doc b i"] by simp_all
  show "(k, d) \<in> set (policy_fields i) \<Longrightarrow> y_get Y (emit (kernel_thread_entry b i)) k = emit d"
    "(k, d) \<in> set (policy_fields i) \<Longrightarrow> reads_back Y emit d" using m(4,5) [of k d] by simp_all
  show "k \<notin> fst ` set (policy_fields i) \<Longrightarrow> k \<notin> {''comm'', ''affinity''} \<Longrightarrow>
       \<not> y_defined Y (y_get Y (emit (kernel_thread_entry b i)) k)" using m(6) [of k] by auto
qed

lemma kernel_affinity_parsed:
  assumes "reads_back Y emit (kernel_thread_entry b i)"
  shows "parse_affinity Y b (emit (kernel_thread_entry b i)) True = Inr (kept_cpus b i)"
proof (cases "parse_manageable_cpu_list b (kt_affinity i)")
  case None
  then show ?thesis using kernel_entry_reads_back(4,5) [OF assms] unmanageable_parsed [of Y "emit (kernel_thread_entry b i)" emit b]
    by (simp add: kept_cpus_def affinity_doc_def)
next
  case (Some cs)
  then show ?thesis using kernel_entry_reads_back(4,5) [OF assms] unmanageable_parsed [of Y "emit (kernel_thread_entry b i)" emit b]
      manageable_canonical [OF Some] int_list_parsed [of cs b Y "emit (kernel_thread_entry b i)" emit]
    by (simp add: kept_cpus_def affinity_doc_def split: if_splits)
qed

lemma unset_policy_parsed:
  assumes "reads_back Y emit (kernel_thread_entry b i)" and "policy_fields i = [(''policy'', unmanageable), (''priority'', unmanageable)]"
  shows "parse_kt_policy Y (emit (kernel_thread_entry b i)) a = Inr a"
proof -
  note r = kernel_entry_reads_back [OF assms(1), unfolded assms(2)]
  have "is_unset Y (y_get Y (emit (kernel_thread_entry b i)) k) True" if "k \<in> {''policy'', ''priority''}" for k
    using r(6,7) [of k unmanageable] unmanageable_unset [of Y emit] that by auto
  moreover have "is_unset Y (y_get Y (emit (kernel_thread_entry b i)) k) True" if "k \<in> {''nice'', ''runtime'', ''period'', ''deadline''}" for k
    using r(8) [of k] that by (auto simp: is_unset_def)
  ultimately show ?thesis by (simp add: parse_kt_policy_def)
qed

lemma kernel_policy_parsed:
  assumes "reads_back Y emit (kernel_thread_entry b i)" and "shown_in_range i"
  shows "parse_kt_policy Y (emit (kernel_thread_entry b i)) (no_attrs\<lparr>at_affinity := kept_cpus b i\<rparr>) = Inr (kept_attrs b i)"
proof (cases "parse_sched_policy (kt_policy i)")
  case None
  then show ?thesis using unset_policy_parsed [OF assms(1)] by (simp add: policy_fields_def kept_attrs_def)
next
  case (Some p)
  let ?e = "emit (kernel_thread_entry b i)"
  note r = kernel_entry_reads_back(6,7) [OF assms(1)]
  have un: "kt_policy i \<noteq> k_unmanageable" using Some by (auto simp: parse_sched_policy_def k_policies_def k_unmanageable_def)
  have n: "show_int x \<noteq> k_unmanageable" for x
    using decimal_digits [of "nat x"] by (auto simp: k_unmanageable_def show_int_def is_digit_def)
  show ?thesis
  proof (cases "p = Deadline")
    case True
    then show ?thesis using Some unset_policy_parsed [OF assms(1)] by (simp add: policy_fields_def kept_attrs_def)
  next
    case False
    then have "y_get Y ?e ''policy'' = emit (Scalar (kt_policy i))" "reads_back Y emit (Scalar (kt_policy i))"
      using r [of "''policy''" "Scalar (kt_policy i)"] Some by (simp_all add: policy_fields_def)
    then have pol: "\<not> is_unset Y (y_get Y ?e ''policy'') True" "y_string Y (y_get Y ?e ''policy'') = Some (kt_policy i)"
      using shown_set [of Y emit "kt_policy i"] un scalar_reads_back(5) [of Y emit "kt_policy i"] by simp_all
    have num: "\<not> is_unset Y (y_get Y ?e k) True \<and> y_int Y (y_get Y ?e k) = Some x"
      if "(k, Scalar (show_int x)) \<in> set (policy_fields i)" "- (2 ^ 31) \<le> x" "x < 2 ^ 31" for k x
      using r [OF that(1)] shown_set [of Y emit "show_int x"] n int_reads_back [OF _ that(2,3), of Y emit] by simp
    have "is_cfs p \<or> p = Fifo \<or> p = Rr" using False by (cases p) (simp_all add: is_cfs_eq)
    then show ?thesis
    proof (cases "is_cfs p")
      case True
      have "parse_nice Y ?e True = Inr (kt_nice i)" using num [of "''nice''" "kt_nice i"] Some False True assms(2)
        by (simp add: policy_fields_def parse_nice_def shown_in_range_def k_nice_min_def k_nice_max_def)
      then show ?thesis using pol Some False True by (simp add: parse_kt_policy_def parse_policy_or_throw_def the_or_def kept_attrs_def Let_def)
    next
      case cfs: False
      then have "p = Fifo \<or> p = Rr" using False by (cases p) (simp_all add: is_cfs_eq)
      then have "1 \<le> kt_rt_priority i \<and> kt_rt_priority i \<le> 99" using assms(2) Some by (auto simp: shown_in_range_def)
      then have "parse_rt_priority Y ?e True = Inr (kt_rt_priority i)" using num [of "''priority''" "kt_rt_priority i"] Some False cfs
        by (simp add: policy_fields_def parse_rt_priority_def k_rt_priority_min_def k_rt_priority_max_def)
      then show ?thesis using pol Some False cfs by (simp add: parse_kt_policy_def parse_policy_or_throw_def the_or_def kept_attrs_def Let_def)
    qed
  qed
qed

lemma kernel_parsed:
  assumes "reads_back Y emit (kernel_thread_entry b i)" and "shown_in_range i" and "kt_comm i \<noteq> []" and "\<not> is_kworker_comm (kt_comm i)"
  shows "parse_kernel_thread Y b (emit (kernel_thread_entry b i)) = Inr \<lparr>comm = kt_comm i, kt_attrs = kept_attrs b i\<rparr>"
  using kernel_entry_reads_back(1-3) [OF assms(1)] scalar_reads_back [of Y emit "kt_comm i"] assms(3,4)
  by (simp add: parse_kernel_thread_def kernel_affinity_parsed [OF assms(1)] kernel_policy_parsed [OF assms(1,2)])

definition kept_irq :: "int \<Rightarrow> irq_info \<Rightarrow> irq_config" where
  "kept_irq b q = \<lparr>irq = ii_irq q, irq_name = ii_name q,
     irq_affinity = (case parse_manageable_cpu_list b (ii_affinity q) of None \<Rightarrow> [] | Some cs \<Rightarrow> cs)\<rparr>"

lemma irq_parsed:
  assumes "reads_back Y emit (irq_entry b q)" and "0 \<le> ii_irq q" and "ii_irq q < 2 ^ 31"
  shows "parse_irq Y b (emit (irq_entry b q)) = Inr (kept_irq b q)"
proof -
  let ?e = "emit (irq_entry b q)"
  let ?a = "case parse_manageable_cpu_list b (ii_affinity q) of None \<Rightarrow> unmanageable | Some cs \<Rightarrow> int_list cs"
  note m = map_reads_back [OF assms(1) [unfolded irq_entry_def], folded irq_entry_def]
  have g: "y_get Y ?e ''irq'' = emit (Scalar (show_int (ii_irq q)))" "reads_back Y emit (Scalar (show_int (ii_irq q)))"
    using m(4,5) [of "''irq''" "Scalar (show_int (ii_irq q))"] by simp_all
  have h: "y_get Y ?e ''name'' = emit (Scalar (ii_name q))" "reads_back Y emit (Scalar (ii_name q))"
    using m(4,5) [of "''name''" "Scalar (ii_name q)"] by simp_all
  have f: "y_get Y ?e ''affinity'' = emit ?a" "reads_back Y emit ?a" using m(4,5) [of "''affinity''" ?a] by simp_all
  have n: "is_all_digits (show_int (ii_irq q))" "int (digits_value (show_int (ii_irq q))) = ii_irq q"
    using assms(2) decimal_digits [of "nat (ii_irq q)"] by (simp_all add: show_int_def is_all_digits_def)
  have "int (digits_value (show_int (ii_irq q))) < int (2 ^ 31)" using n(2) assms(3) by simp
  then have lt: "digits_value (show_int (ii_irq q)) < 2 ^ 31" by (simp only: of_nat_less_iff)
  have b10: "as_base10 (2 ^ 31) Y (emit (Scalar (show_int (ii_irq q)))) = Some (digits_value (show_int (ii_irq q)))"
    unfolding as_base10_def using lt n(1) scalar_reads_back [OF g(2)] by (simp add: Let_def not_le)
  have a: "parse_affinity Y b ?e True = Inr (irq_affinity (kept_irq b q))"
  proof (cases "parse_manageable_cpu_list b (ii_affinity q)")
    case None
    then show ?thesis using f unmanageable_parsed [of Y ?e emit b] by (simp add: kept_irq_def)
  next
    case (Some cs)
    then show ?thesis using f manageable_canonical [OF Some] int_list_parsed [of cs b Y ?e emit] by (simp add: kept_irq_def)
  qed
  have "y_is_map Y ?e" using m(3) by simp
  then show ?thesis unfolding parse_irq_def g(1) h(1) b10 using scalar_reads_back [OF g(2)] scalar_reads_back [OF h(2)] a n(2)
    by simp (simp add: kept_irq_def)
qed

section \<open>The collected lists\<close>

lemma collected_sets: "distinct (domain_and_cbg_ids (collected as)) \<and> distinct (non_ros_thread_names (collected as))"
proof -
  have "distinct (domain_and_cbg_ids s) \<and> distinct (non_ros_thread_names s) \<Longrightarrow>
      distinct (domain_and_cbg_ids (fold hear as s)) \<and> distinct (non_ros_thread_names (fold hear as s))" for s
    by (induction as arbitrary: s)
       (auto simp: hear_def topic_callback_def record_thread_name_def distinct_insort_insert split: announcement.split)
  then show ?thesis by (simp add: collected_def)
qed

lemma collected_members:
  "set (domain_and_cbg_ids (collected as)) = {(d, gid). Group d gid \<in> set as}"
  "set (non_ros_thread_names (collected as)) = {name. Thread name \<in> set as}"
proof -
  have "set (domain_and_cbg_ids (fold hear as s)) = set (domain_and_cbg_ids s) \<union> {(d, gid). Group d gid \<in> set as} \<and>
      set (non_ros_thread_names (fold hear as s)) = set (non_ros_thread_names s) \<union> {name. Thread name \<in> set as}" for s
  proof (induction as arbitrary: s)
    case (Cons a as)
    have h: "set (domain_and_cbg_ids (hear a s)) = set (domain_and_cbg_ids s) \<union> {(d, gid). a = Group d gid}"
      "set (non_ros_thread_names (hear a s)) = set (non_ros_thread_names s) \<union> {name. a = Thread name}"
      by (cases a; auto simp: hear_def topic_callback_def record_thread_name_def set_insort_insert)+
    show ?case using Cons.IH [of "hear a s"] unfolding fold.simps o_def h by auto
  qed simp
  then show "set (domain_and_cbg_ids (collected as)) = {(d, gid). Group d gid \<in> set as}"
    "set (non_ros_thread_names (collected as)) = {name. Thread name \<in> set as}" by (simp_all add: collected_def)
qed

lemma dedup_facts:
  "sorted (map kt_comm is) \<Longrightarrow> set (dedup_by_comm is) \<subseteq> set is \<and> distinct (map kt_comm (dedup_by_comm is)) \<and>
     kt_comm ` set (dedup_by_comm is) = kt_comm ` set is"
proof (induction "is" rule: dedup_by_comm.induct)
  case (1 x y xs)
  show ?case
  proof (cases "kt_comm x = kt_comm y")
    case True
    then show ?thesis using 1 by auto
  next
    case False
    then have ih: "set (dedup_by_comm (y # xs)) \<subseteq> set (y # xs) \<and> distinct (map kt_comm (dedup_by_comm (y # xs))) \<and>
        kt_comm ` set (dedup_by_comm (y # xs)) = kt_comm ` set (y # xs)" using 1 by simp
    have "kt_comm x < kt_comm y" using False 1(3) by (simp add: order_less_le)
    then have "kt_comm x \<notin> kt_comm ` set (y # xs)" using 1(3) by auto
    then show ?thesis using ih False by auto
  qed
qed simp_all

section \<open>What a scan guarantees\<close>

lemma read_name: "read_kernel_thread e tid = Some i \<Longrightarrow> kt_comm i \<noteq> [] \<and> \<not> is_kworker_comm (kt_comm i)"
  by (auto simp: read_kernel_thread_def stat_comm_def Let_def split: option.splits if_splits)

lemma scanned_sorted: "sorted (map kt_comm (scan_kernel_threads proc))"
proof -
  have "sorted (map (\<lambda>i. (kt_comm i, kt_tid i)) (scan_kernel_threads proc))" by (simp add: scan_kernel_threads_def)
  then show ?thesis unfolding sorted_map by (rule sorted_wrt_mono_rel [rotated]) (auto simp: less_eq_prod_def)
qed

lemma scanned_names: "i \<in> set (scan_kernel_threads proc) \<Longrightarrow> kt_comm i \<noteq> [] \<and> \<not> is_kworker_comm (kt_comm i)"
  by (auto simp: scan_kernel_threads_def scan_entry_def split: if_splits option.splits dest: read_name [OF sym])

lemma scanned_irqs: "q \<in> set (scan_irqs files dirs) \<Longrightarrow> 0 \<le> ii_irq q \<and> ii_irq q < 2 ^ 31 \<and> ii_name q \<noteq> []"
  by (auto simp: scan_irqs_def scan_irq_def to_number_def split: if_splits option.splits)

section \<open>The template read back\<close>

lemma group_key_inj: "group_key (new_entry d g) = group_key (new_entry d' g') \<Longrightarrow> (d, g) = (d', g')"
proof -
  assume "group_key (new_entry d g) = group_key (new_entry d' g')"
  then have e: "decimal (unat d) @ CHR '':'' # g = decimal (unat d') @ CHR '':'' # g'" by (simp add: group_key_def new_entry_def)
  have n: "CHR '':'' \<notin> set (decimal k)" for k using decimal_digits [of k] by (auto simp: list_all_iff is_digit_def)
  have "decimal (unat d) = decimal (unat d')" using until [OF n] e by metis
  moreover have "CHR '':'' # g = CHR '':'' # g'" using until [OF n] e by metis
  ultimately show ?thesis using decimal_digits by (metis list.inject word_unat_eq_iff)
qed

lemma section_loaded:
  fixes p :: "'y \<Rightarrow> 'b parsed"
  assumes "reads_back Y emit (Seq (map g xs))" and "\<And>x. x \<in> set xs \<Longrightarrow> reads_back Y emit (g x) \<Longrightarrow> p (emit (g x)) = Inr (h x)"
  shows "traverse p (y_elems Y (emit (Seq (map g xs)))) = Inr (map h xs)"
proof -
  have "traverse p (map (\<lambda>x. emit (g x)) xs) = Inr (map h xs)"
    by (rule traverse_map) (use assms seq_reads_back(6) [OF assms(1)] in simp)
  then show ?thesis using seq_reads_back(5) [OF assms(1)] by (simp add: comp_def)
qed

definition hardware_doc :: "(string, string) omap \<Rightarrow> doc" where "hardware_doc hw = Map (map (\<lambda>(k, v). (k, Scalar v)) hw)"

definition throttling_doc :: doc where
  "throttling_doc = Map [(''runtime_us'', Scalar (show_int 950000)), (''period_us'', Scalar (show_int 1000000))]"

lemma template_sections:
  assumes "reads_back Y emit (dump_yaml_config b hw kts iqs s)"
    and "(k, d) \<in> set [(''hardware_info'', hardware_doc hw), (''rt_throttling'', throttling_doc),
       (''callback_groups'', Seq (map group_entry (domain_and_cbg_ids s))), (''non_ros_threads'', Seq (map thread_entry (non_ros_thread_names s))),
       (''kernel_threads'', Seq (map (kernel_thread_entry b) (dedup_by_comm kts))), (''irqs'', Seq (map (irq_entry b) iqs))]"
  shows "y_get Y (emit (dump_yaml_config b hw kts iqs s)) k = emit d" and "reads_back Y emit d"
  using map_reads_back(4,5) [OF assms(1) [unfolded dump_yaml_config_def], of k d] assms(2)
  by (simp_all add: dump_yaml_config_def hardware_doc_def throttling_doc_def)

lemma template_loaded:
  fixes proc :: "proc_entry list" and dirs :: "irq_dir list" and files :: "int \<Rightarrow> string option"
  assumes doc: "reads_back Y emit (dump_yaml_config b hw (scan_kernel_threads proc) (scan_irqs files dirs) (collected as))"
    and shown: "\<forall>i\<in>set (scan_kernel_threads proc). shown_in_range i" and once: "distinct (map ii_irq (scan_irqs files dirs))"
    and ids: "\<forall>d gid. Group d gid \<in> set as \<longrightarrow> CHR ''*'' \<notin> set gid"
  shows "load_configs Y b dd (emit (dump_yaml_config b hw (scan_kernel_threads proc) (scan_irqs files dirs) (collected as))) =
    Inr (map (\<lambda>k. new_entry (fst k) (snd k)) (domain_and_cbg_ids (collected as)),
         map (new_entry 0) (non_ros_thread_names (collected as)),
         map (\<lambda>i. \<lparr>comm = kt_comm i, kt_attrs = kept_attrs b i\<rparr>) (dedup_by_comm (scan_kernel_threads proc)),
         map (kept_irq b) (scan_irqs files dirs))"
proof -
  let ?doc = "emit (dump_yaml_config b hw (scan_kernel_threads proc) (scan_irqs files dirs) (collected as))"
  let ?kts = "dedup_by_comm (scan_kernel_threads proc)"
  let ?kcs = "map (\<lambda>i. \<lparr>comm = kt_comm i, kt_attrs = kept_attrs b i\<rparr>) ?kts"
  note dd = dedup_facts [OF scanned_sorted [of proc]]
  note sec = template_sections [OF doc]
  note sg = sec [of "''callback_groups''" "Seq (map group_entry (domain_and_cbg_ids (collected as)))", simplified]
  note st = sec [of "''non_ros_threads''" "Seq (map thread_entry (non_ros_thread_names (collected as)))", simplified]
  note sk = sec [of "''kernel_threads''" "Seq (map (kernel_thread_entry b) ?kts)", simplified]
  note sq = sec [of "''irqs''" "Seq (map (irq_entry b) (scan_irqs files dirs))", simplified]
  have g: "traverse (parse_callback_group Y b dd) (y_elems Y (y_get Y ?doc ''callback_groups'')) =
      Inr (map (\<lambda>k. new_entry (fst k) (snd k)) (domain_and_cbg_ids (collected as)))"
    unfolding sg(1)
    by (rule section_loaded [OF sg(2)], rule group_parsed) (use ids in \<open>auto simp: collected_members\<close>)
  have t: "traverse (parse_non_ros_thread Y b) (y_elems Y (y_get Y ?doc ''non_ros_threads'')) =
      Inr (map (new_entry 0) (non_ros_thread_names (collected as)))"
    unfolding st(1) by (rule section_loaded [OF st(2)], rule thread_parsed)
  have k: "traverse (parse_kernel_thread Y b) (y_elems Y (y_get Y ?doc ''kernel_threads'')) = Inr ?kcs"
    unfolding sk(1) by (rule section_loaded [OF sk(2)], rule kernel_parsed) (use dd shown scanned_names [of _ proc] in blast)+
  have q: "traverse (parse_irq Y b) (y_elems Y (y_get Y ?doc ''irqs'')) = Inr (map (kept_irq b) (scan_irqs files dirs))"
    unfolding sq(1) by (rule section_loaded [OF sq(2)], rule irq_parsed) (use scanned_irqs in auto)
  have "inj_on (\<lambda>k. group_key (new_entry (fst k) (snd k))) ks" for ks by (rule inj_onI) (metis group_key_inj prod.collapse)
  then have dg: "distinct (map group_key (map (\<lambda>k. new_entry (fst k) (snd k)) (domain_and_cbg_ids (collected as))))"
    using collected_sets [of as] by (simp add: distinct_map comp_def)
  have dt: "map thread_str (map (new_entry 0) (non_ros_thread_names (collected as))) = non_ros_thread_names (collected as)"
    by (simp add: new_entry_def comp_def)
  have dq: "map irq (map (kept_irq b) (scan_irqs files dirs)) = map ii_irq (scan_irqs files dirs)" by (simp add: kept_irq_def)
  have y: "parse_yaml Y b ?doc dd = Inr (map (\<lambda>k. new_entry (fst k) (snd k)) (domain_and_cbg_ids (collected as)),
      map (new_entry 0) (non_ros_thread_names (collected as)))"
    unfolding parse_yaml_def g t using dg dt collected_sets [of as] by simp
  have "parse_kernel_threads Y b ?doc = Inr ?kcs"
    unfolding parse_kernel_threads_def Let_def k using dd seq_reads_back(1-3) [OF sk(2)] by (simp add: sk(1) comp_def)
  moreover have "parse_irqs Y b ?doc = Inr (map (kept_irq b) (scan_irqs files dirs))"
    unfolding parse_irqs_def Let_def q using once seq_reads_back(1-3) [OF sq(2)] by (simp add: sq(1) comp_def kept_irq_def)
  ultimately show ?thesis by (simp add: load_configs_def y)
qed

section \<open>The start of the configurator\<close>

text \<open>The constructor from the loaded document on: \<open>None\<close> where it throws.\<close>

definition start_node ::
  "'y yaml_api \<Rightarrow> os \<Rightarrow> machine \<Rightarrow> (string, string) omap \<Rightarrow> (string \<Rightarrow> int option) \<Rightarrow> u64 \<Rightarrow> 'y \<Rightarrow> cnode option" where
  "start_node Y os m current_hw_info read_sysctl default_domain yaml =
     (case validate_hardware_info Y yaml current_hw_info of
        Inl e \<Rightarrow> None
      | Inr _ \<Rightarrow>
          (case check_rt_throttling Y yaml read_sysctl of
             Inl e \<Rightarrow> None
           | Inr checked \<Rightarrow>
               (case load_configs Y (cpu_bound m) default_domain yaml of
                  Inl e \<Rightarrow> None
                | Inr (groups, threads, kts, iqs) \<Rightarrow> Some (construct_node os m groups threads kts iqs))))"

lemma recorded_once: "distinct (map fst (parse_lscpu_output output))"
proof -
  have "ascending hw \<Longrightarrow> ascending (fold lscpu_line ls hw)" for ls hw
    by (induction ls arbitrary: hw) (auto simp: lscpu_line_def ascending_put split: option.split)
  then show ?thesis unfolding parse_lscpu_output_def by (intro ascending_distinct) (simp add: ascending_def)
qed

lemma hardware_accepted:
  assumes "reads_back Y emit (dump_yaml_config b hw kts iqs s)" and "distinct (map fst hw)"
  shows "validate_hardware_info Y (emit (dump_yaml_config b hw kts iqs s)) hw = Inr ()"
proof -
  note sec = template_sections [OF assms(1), of "''hardware_info''" "hardware_doc hw", simplified]
  have "distinct (map fst (map (\<lambda>(k, v). (k, Scalar v)) hw))" using assms(2) by (simp add: case_prod_unfold comp_def)
  note m = map_reads_back(4,5) [OF sec(2) [unfolded hardware_doc_def] this, folded hardware_doc_def]
  have "agrees Y (emit (hardware_doc hw)) kv" if "kv \<in> set hw" for kv
  proof -
    have "(fst kv, Scalar (snd kv)) \<in> set (map (\<lambda>(k, v). (k, Scalar v)) hw)" using that by (auto simp: case_prod_unfold image_iff intro: bexI [of _ kv])
    then show ?thesis using m [of "fst kv" "Scalar (snd kv)"] scalar_reads_back(5) [of Y emit "snd kv"] by (simp add: agrees_def)
  qed
  then show ?thesis by (simp add: hardware_check_exact sec(1) list_all_iff)
qed

lemma throttling_readable:
  assumes "reads_back Y emit (dump_yaml_config b hw kts iqs s)"
  shows "\<exists>checked. check_rt_throttling Y (emit (dump_yaml_config b hw kts iqs s)) read_sysctl = Inr checked"
proof -
  note sec = template_sections [OF assms, of "''rt_throttling''" throttling_doc, simplified]
  note m = map_reads_back(4,5) [OF sec(2) [unfolded throttling_doc_def], folded throttling_doc_def]
  have "y_int Y (y_get Y (emit throttling_doc) ''runtime_us'') = Some 950000"
    "y_int Y (y_get Y (emit throttling_doc) ''period_us'') = Some 1000000"
    using m [of "''runtime_us''" "Scalar (show_int 950000)"] m [of "''period_us''" "Scalar (show_int 1000000)"]
      int_reads_back [of Y emit 950000] int_reads_back [of Y emit 1000000] by simp_all
  then show ?thesis by (simp add: check_rt_throttling_def sec(1) Let_def)
qed

lemma kept_in_sync: "kernel_thread_in_sync m (kept_attrs (cpu_bound m) i) i"
proof -
  have "kept_cpus (cpu_bound m) i \<noteq> [] \<Longrightarrow>
      same_cpu_set (kept_cpus (cpu_bound m) i) (parse_manageable_cpu_list (cpu_bound m) (kt_affinity i))"
    by (auto simp: kept_cpus_def same_cpu_set_def split: option.splits if_splits)
  then show ?thesis by (auto simp: kernel_thread_in_sync_def kept_attrs_def no_attrs_def split: option.splits)
qed

definition observed :: "kernel_thread_info \<Rightarrow> string \<times> int \<times> int \<times> string \<times> bool" where
  "observed i = (kt_policy i, kt_nice i, kt_rt_priority i, kt_affinity i, no_setaffinity i)"

lemma kept_observed: "observed i = observed j \<Longrightarrow> kept_attrs b i = kept_attrs b j"
  unfolding observed_def prod.inject kept_attrs_def kept_cpus_def by (elim conjE) (simp only:)

text \<open>Claim C35. An unedited template changes nothing. Take a template that the prerun node has written from a scan of
  the machine, and that \<open>yaml-cpp\<close> loads as it was written. On the same machine the start-up checks of the thread
  configurator pass, and it accepts the template; its entries are exactly the callback groups and threads that have
  announced themselves and the kernel threads' names; and it starts up without issuing a single system call. This
  holds when the threads that share a name are alike in policy, nice value, priority and affinity, since the template has one entry
  for them, when niceness and real-time priorities are in the ranges that the kernel shows them in, when no announced
  group's id contains an asterisk, and when no two directories have one interrupt number.\<close>

theorem unedited_template_is_noop:
  fixes proc :: "proc_entry list" and dirs :: "irq_dir list" and files :: "int \<Rightarrow> string option" and emit :: "doc \<Rightarrow> 'y" and m :: machine
    and lscpu :: string and "as" :: "announcement list"
  defines "hw \<equiv> parse_lscpu_output lscpu"
  defines "template \<equiv> dump_yaml_config (cpu_bound m) hw (scan_kernel_threads proc) (scan_irqs files dirs) (collected as)"
  assumes "reads_back Y emit template"
    and "\<forall>i\<in>set (scan_kernel_threads proc). shown_in_range i" and "distinct (map ii_irq (scan_irqs files dirs))"
    and "\<forall>d gid. Group d gid \<in> set as \<longrightarrow> CHR ''*'' \<notin> set gid"
    and "\<forall>i\<in>set (scan_kernel_threads proc). \<forall>j\<in>set (scan_kernel_threads proc). kt_comm i = kt_comm j \<longrightarrow> observed i = observed j"
    and "scanned m = scan_kernel_threads proc"
    and "\<forall>q\<in>set (scan_irqs files dirs). irq_actions m (ii_irq q) = Some (ii_name q) \<and> irq_current m (ii_irq q) = ii_affinity q"
  shows "\<exists>groups threads kts iqs.
    load_configs Y (cpu_bound m) dd (emit template) = Inr (groups, threads, kts, iqs) \<and>
    exact_key ` set groups = {(d, gid). Group d gid \<in> set as} \<and> thread_str ` set threads = {name. Thread name \<in> set as} \<and>
    comm ` set kts = kt_comm ` set (scan_kernel_threads proc) \<and>
    start_node Y os m hw read_sysctl dd (emit template) = Some (construct_node os m groups threads kts iqs) \<and>
    calls (construct_node os m groups threads kts iqs) = []"
proof -
  let ?T = "scan_kernel_threads proc" and ?b = "cpu_bound m"
  let ?groups = "map (\<lambda>k. new_entry (fst k) (snd k)) (domain_and_cbg_ids (collected as))"
  let ?threads = "map (new_entry 0) (non_ros_thread_names (collected as))"
  let ?kts = "map (\<lambda>i. \<lparr>comm = kt_comm i, kt_attrs = kept_attrs ?b i\<rparr>) (dedup_by_comm ?T)"
  let ?iqs = "map (kept_irq ?b) (scan_irqs files dirs)"
  note dd = dedup_facts [OF scanned_sorted [of proc]]
  have sync: "kernel_thread_in_sync m (kept_attrs ?b i) j" if "i \<in> set (dedup_by_comm ?T)" "j \<in> set ?T" "kt_comm j = kt_comm i" for i j
    using assms(7) dd that kept_in_sync [of m j] kept_observed [of i j ?b] by (metis subsetD)
  have nk: "\<not> needed_call m ?kts x" for x using sync assms(8) by (auto simp: needed_call_def)
  have nq: "\<not> needed_write m ?iqs x" for x
    using assms(9) by (auto simp: needed_write_def kept_irq_def irq_is_managed_def same_cpu_set_def split: option.splits)
  define s0 where "s0 = \<lparr>callback_group_configs = ?groups, id_to_callback_group_config = (\<lambda>_. None),
      node_to_wildcard_config = (\<lambda>_. None), non_ros_thread_configs = ?threads,
      id_to_non_ros_thread_config = (\<lambda>_. None), kernel_thread_configs = ?kts, irq_configs = ?iqs,
      unapplied_num = 0, cgroup_num = 0, configured_at_least_once = False, calls = []\<rparr>"
  obtain r1 s1 where k: "apply_kernel_thread_configs os m s0 = (r1, s1)" by (cases "apply_kernel_thread_configs os m s0")
  obtain r2 s2 where q: "apply_irq_configs os m s1 = (r2, s2)" by (cases "apply_irq_configs os m s1")
  have stays: "issues P s t \<Longrightarrow> (\<And>x. \<not> P x) \<Longrightarrow> calls t = calls s" for P and s t :: cnode by (auto simp: issues_def list_all_iff)
  have "kernel_thread_configs s0 = ?kts" by (simp add: s0_def)
  then have "issues (needed_call m ?kts) s0 s1" using kernel_pass_issues [OF k] by simp
  then have c1: "calls s1 = []" using stays [OF _ nk] by (simp add: s0_def)
  have "irq_configs s1 = ?iqs" using only_calls_frame [OF kernel_pass_frame [OF k]] by (simp add: s0_def)
  then have "issues (needed_write m ?iqs) s1 s2" using irq_pass_issues [OF q] by simp
  then have "calls s2 = []" using stays [OF _ nq] c1 by simp
  then have "calls (construct_node os m ?groups ?threads ?kts ?iqs) = []"
    using k q by (simp add: construct_node_def Let_def s0_def [symmetric])
  moreover have "exact_key ` set ?groups = {(d, gid). Group d gid \<in> set as}"
    by (auto simp: new_entry_def image_image collected_members)
  moreover have "thread_str ` set ?threads = {name. Thread name \<in> set as}"
    by (auto simp: new_entry_def image_image collected_members)
  moreover have "comm ` set ?kts = kt_comm ` set ?T" using dd by (simp add: image_image)
  moreover have ld: "load_configs Y ?b dd (emit template) = Inr (?groups, ?threads, ?kts, ?iqs)"
    unfolding template_def by (rule template_loaded [OF assms(3) [unfolded template_def] assms(4-6)])
  moreover have "start_node Y os m hw read_sysctl dd (emit template) = Some (construct_node os m ?groups ?threads ?kts ?iqs)"
    using hardware_accepted [OF assms(3) [unfolded template_def]] recorded_once [of lscpu]
      throttling_readable [OF assms(3) [unfolded template_def], of read_sysctl] ld
    by (auto simp: start_node_def template_def hw_def)
  ultimately show ?thesis by blast
qed

lemma doc_node_reads_back: "node_reads_back doc_api (\<lambda>d. d) p"
proof (cases p)
  case (Scalar s)
  have "y_int doc_api (Scalar (show_int i)) = Some i" if "- (2 ^ 31) \<le> i" "i < 2 ^ 31" for i
    using to_number_show_int [OF that] by (simp add: doc_api_def)
  moreover have "y_u64 doc_api (Scalar (decimal (unat w))) = Some w" for w :: u64
    using decimal_digits by (simp add: doc_api_def is_all_digits_def)
  ultimately show ?thesis using Scalar by (simp add: doc_api_def)
next
  case (Map kvs)
  have "map_of kvs k = Some d" if "distinct (map fst kvs)" "(k, d) \<in> set kvs" for k d using that by (rule map_of_is_SomeI)
  moreover have "map_of kvs k = None" if "k \<notin> fst ` set kvs" for k using that by (simp add: map_of_eq_None_iff)
  ultimately show ?thesis using Map by (auto simp: doc_api_def split: option.split)
qed (simp_all add: doc_api_def)

lemma doc_reads_back: "reads_back doc_api (\<lambda>d. d) d"
  by (simp add: reads_back_def doc_node_reads_back)

definition demo_lscpu :: string where
  "demo_lscpu = ''CPU family:  6'' @ [newline]"
definition demo_hardware :: "(string, string) omap" where "demo_hardware = [(''cpu_family'', ''6'')]"

lemma demo_recorded: "parse_lscpu_output demo_lscpu = demo_hardware"
  by (simp add: parse_lscpu_output_def demo_lscpu_def demo_hardware_def lines.simps first_line_def lscpu_line_def blank_def newline_def trim_def k_recorded_keys_def)

definition demo_irq_dirs :: "irq_dir list" where "demo_irq_dirs = [(''24'', Some ''eth0'')]"
definition demo_affinity :: "int \<Rightarrow> string option" where "demo_affinity n = Some ''0-1''"
definition demo_announcements :: "announcement list" where "demo_announcements = [Group 0 ''n@g'', Thread ''t'', Group 0 ''n@g'']"

definition demo_thread :: kernel_thread_info where
  "demo_thread = \<lparr>kt_tid = 42, kt_comm = ''irq/24-a) (b'', kt_policy = ''SCHED_FIFO'', kt_nice = 0, kt_rt_priority = 50,
     kt_affinity = ''0-7'', no_setaffinity = False\<rparr>"

definition fifo_toks :: "string list" where
  "fifo_toks = replicate 6 ''0'' @ ''2097152'' # replicate 30 ''0'' @ [''50'', ''1'']"

definition demo_fifo_proc :: proc_entry where
  "demo_fifo_proc = \<lparr>filename = ''42'', stat_file = Some (stat_line ''42'' ''irq/24-a) (b'' fifo_toks),
     status_file = Some (concat (map (\<lambda>l. l @ [newline]) []) @ cpus_allowed_key @ CHR 0x09 # ''0-7'' @ newline # []), comm_file = None\<rparr>"

lemma template_scanned: "scan_kernel_threads [demo_fifo_proc] = [demo_thread]"
proof -
  have t: "\<forall>t\<in>set fifo_toks. field_text t" by (auto simp: fifo_toks_def field_text_def newline_def)
  have n: "newline \<notin> set (stat_line ''42'' ''irq/24-a) (b'' fifo_toks)"
    using joined_plain [OF t] by (simp add: stat_line_def newline_def)
  have f: "read_first_line (stat_file demo_fifo_proc) = Some (stat_line ''42'' ''irq/24-a) (b'' fifo_toks)"
    using until_end [OF n] by (simp add: read_first_line_def first_line_def demo_fifo_proc_def)
  have a: "read_cpus_allowed_list (status_file demo_fifo_proc) = Some ''0-7''"
    unfolding demo_fifo_proc_def proc_entry.simps by (rule find_cpus) (simp_all add: newline_def)
  have c: "stat_comm (stat_line ''42'' ''irq/24-a) (b'' fifo_toks) = Some ''irq/24-a) (b''" by (rule comm_stat_line [OF t]) simp_all
  have k: "stat_token fifo_toks 9 = Some ''2097152''" "stat_token fifo_toks 19 = Some ''0''" "stat_token fifo_toks 40 = Some ''50''"
    "stat_token fifo_toks 41 = Some ''1''"
    by (simp_all add: stat_token_def fifo_toks_def nth_append Let_def)
  have v: "to_unsigned 18446744073709551616 ''2097152'' = Some 2097152" "to_unsigned 9223372036854775808 ''42'' = Some 42"
    "to_number ''0'' = Some 0" "to_number ''50'' = Some 50" "to_number ''1'' = Some 1" "is_all_digits ''42''"
    by (simp_all add: to_unsigned_def to_number_def is_all_digits_def is_digit_def digits_value_def digit_value_def)
  have p: "policy_const_to_string 1 = ''SCHED_FIFO''"
    by (simp add: policy_const_to_string_def from_kernel_policy_def to_string_def policy_row_def k_policies_def policy_index_def)
  have "read_kernel_thread demo_fifo_proc 42 = Some demo_thread"
    by (simp add: read_kernel_thread_def f split_stat_line [OF t] k v p a c is_kworker_comm_def demo_thread_def k_pf_kthread_def
        k_pf_no_setaffinity_def)
  then show ?thesis by (simp add: scan_kernel_threads_def scan_entry_def v) (simp add: demo_fifo_proc_def v)
qed

lemma demo_irqs: "scan_irqs demo_affinity demo_irq_dirs = [\<lparr>ii_irq = 24, ii_name = ''eth0'', ii_affinity = ''0-1''\<rparr>]"
  by (simp add: scan_irqs_def scan_irq_def demo_irq_dirs_def demo_affinity_def read_first_line_def first_line_def newline_def
      to_number_def is_all_digits_def is_digit_def digits_value_def digit_value_def)

theorem unedited_template_is_noop_witness:
  "\<exists>groups threads kts iqs.
    load_configs doc_api 7 0 (dump_yaml_config 7 demo_hardware [demo_thread] (scan_irqs demo_affinity demo_irq_dirs) (collected demo_announcements)) =
      Inr (groups, threads, kts, iqs) \<and> exact_key ` set groups = {(0, ''n@g'')} \<and> thread_str ` set threads = {''t''} \<and>
    start_node doc_api (\<lambda>_ _. True)
      (cie_machine\<lparr>scanned := [demo_thread], irq_actions := (\<lambda>_. Some ''eth0''), irq_current := (\<lambda>_. ''0-1'')\<rparr>) demo_hardware (\<lambda>_. None) 0
      (dump_yaml_config 7 demo_hardware [demo_thread] (scan_irqs demo_affinity demo_irq_dirs) (collected demo_announcements)) \<noteq> None \<and>
    calls (construct_node (\<lambda>_ _. True)
      (cie_machine\<lparr>scanned := [demo_thread], irq_actions := (\<lambda>_. Some ''eth0''), irq_current := (\<lambda>_. ''0-1'')\<rparr>) groups threads kts iqs) = []"
proof -
  let ?m = "cie_machine\<lparr>scanned := [demo_thread], irq_actions := (\<lambda>_. Some ''eth0''), irq_current := (\<lambda>_. ''0-1'')\<rparr>"
  let ?t = "dump_yaml_config 7 demo_hardware [demo_thread] (scan_irqs demo_affinity demo_irq_dirs) (collected demo_announcements)"
  have s: "shown_in_range demo_thread" by (simp add: shown_in_range_def demo_thread_def)
  have b: "cpu_bound ?m = 7" by (simp add: cie_machine_def)
  have a: "{(d, gid). Group d gid \<in> set demo_announcements} = {(0, ''n@g'')}" "{name. Thread name \<in> set demo_announcements} = {''t''}"
    by (auto simp: demo_announcements_def)
  have r: "reads_back doc_api (\<lambda>d. d) ?t" by (rule doc_reads_back)
  show ?thesis
    using unedited_template_is_noop [where Y = doc_api and emit = "\<lambda>d. d" and m = ?m and lscpu = demo_lscpu and proc = "[demo_fifo_proc]" and
      files = demo_affinity and dirs = demo_irq_dirs and as = demo_announcements and dd = 0 and os = "\<lambda>_ _. True" and read_sysctl = "\<lambda>_. None"]
    unfolding b a template_scanned demo_recorded using r by (auto simp: demo_irqs s demo_announcements_def)
qed

end
