(* ===== verification/Spec2Isabelle.thy ===== *)
theory Spec2Isabelle
  imports Kmod_Lifecycle Kmod_Queries Kmod_Scopes Smart_Pointer_Theorems Sync_Approx_Theorems Sync_Exact Cie_Yaml Node_Parameters_Theorems Callback_Drain Isolated_Executor_Races Bridge_Theorems Cie_Prerun
begin

text \<open>
  Agnocast is a zero-copy publish/subscribe middleware for ROS 2. This development models its C and C++ core and
  proves what makes it correct.

  \<^bold>\<open>The parts and how they interact.\<close> Publishers allocate messages in memory pools that every subscriber's
  process maps. A kernel module (\<open>src/agnocast_kmod\<close>) keeps the pools, the topics with their message entries and
  the references that subscribers hold; processes talk to it by ioctls on one device, and it is told of
  process exits by a tracepoint. A library (\<open>src/src/agnocastlib\<close>) wraps the ioctls: handles that count references
  inside a process, subscriptions whose eventfd the module signals, executors that run the callbacks,
  synchronizers, node parameters. A bridge manager, a process of its own in the same library, connects topics and services to ROS 2. A
  thread configurator (\<open>src/src/agnocast_cie_thread_configurator\<close>) gives threads and interrupts their scheduling
  attributes.

  \<^bold>\<open>Shared theories.\<close> \<open>Agnocast_Prelude\<close>: error codes, the allocation oracle, kernel hash tables as lists in the
  order of \<open>hash_for_each\<close>, the locale \<open>hash_table\<close>. \<open>Ordered_Map\<close>: \<open>std::map\<close> as an ordered association list, the
  locale \<open>dictionary\<close>.

  \<^bold>\<open>The kernel module.\<close>
  \<^item> \<open>Kmod_Memory\<close> is \<open>agnocast_memory_allocator.c\<close>, on 64-bit words: initialisation yields disjoint pools without
    wrap-around, and a pool that is mapped is not assigned again (locale \<open>mempool\<close>, which the allocator interprets).
  \<^item> \<open>Kmod_Topic\<close> has the structures of \<open>agnocast_internal.h\<close> and every operation on one topic.
    \<open>Kmod_Topic_Inv\<close>, \<open>Kmod_Topic_Scans\<close>, \<open>Kmod_Topic_Ops\<close>, \<open>Kmod_Topic_Keeps\<close> and \<open>Kmod_Topic_Endpoints\<close> show
    that the loops over the entry tree compute their reference definitions and that every operation keeps the topic's
    invariant, complete notify lists included.
  \<^item> \<open>Kmod_State\<close> and \<open>Kmod_Registry\<close> have the global tables and the ioctl handlers of \<open>agnocast_ioctl.c\<close> with the cleanup
    after a process exit (\<open>agnocast_internal.c\<close>); \<open>Kmod_Inv\<close>, \<open>Kmod_Steps\<close>, \<open>Kmod_Exit\<close> and \<open>Kmod_Rules\<close> show that each handler keeps the global
    invariant. \<open>Kmod_Reach\<close> is the module as a state machine: an event is a handler run by some process, or an exit.
  \<^item> \<open>Kmod_Held\<close>, \<open>Kmod_Position\<close>, \<open>Kmod_Wakeup\<close>, \<open>Kmod_Link\<close>, \<open>Kmod_Layout\<close>, \<open>Kmod_Theorems\<close> and \<open>Delivery\<close> follow an entry and a
    subscriber through any events: a held message keeps its address, reading positions do not go back, what
    becomes readable is signalled, each message is handed over once and in order. \<open>Kmod_Theorems\<close> has the exact results of
    publish, receive and take, with the errors that refreshing the mappings can add to the last two.
    \<open>Kmod_Scenario\<close> is a concrete run for the examples.
  \<^item> \<open>Kmod_Cleanup\<close>: what an exit leaves behind. \<open>Kmod_Lifecycle\<close>: loading, unloading, the ring buffer of exits
    and its worker (locale \<open>bounded_fifo\<close>). \<open>Kmod_Queries\<close>: the read-only ioctls; the probe loop of the node names
    implements a set (locale \<open>node_set\<close>). \<open>Kmod_Scopes\<close>: the registries through \<open>hash_table\<close>.

  \<^bold>\<open>The library.\<close>
  \<^item> \<open>Smart_Pointer\<close> with \<open>Smart_Pointer_Inv\<close> and \<open>Smart_Pointer_Theorems\<close> (\<open>agnocast_smart_pointer.hpp\<close>,
    \<open>agnocast_publisher.cpp\<close>): the 32-bit counter is the number of handles, and a received message is released exactly once.
  \<^item> \<open>Callback_Info\<close> (\<open>agnocast_callback_info.cpp\<close>, \<open>agnocast_subscription.cpp\<close>, the update dispatcher),
    \<open>Callback_Wakeup\<close> and \<open>Callback_Drain\<close>: from a publish to the callback, in the interleavings of the process's threads.
    They run on the kernel module's definitions.
  \<^item> \<open>Timer_Info\<close> (\<open>agnocast_timer_info.cpp\<close>, \<open>agnocast_epoll.cpp\<close>); \<open>Executor\<close> (\<open>agnocast_executor.cpp\<close>,
    \<open>agnocast_only_executor.cpp\<close>): the ready queue, its scan, mutual exclusion of callback groups, also against rclcpp's threads.
  \<^item> \<open>Isolated_Executor\<close> and \<open>Isolated_Executor_Races\<close> (the two callback-isolated executors): cancellation ends
    \<open>spin()\<close>, one child per group.
  \<^item> \<open>Sync_Approx\<close> with \<open>Sync_Approx_Inv\<close>, \<open>Sync_Approx_Search\<close>, \<open>Sync_Approx_Process\<close> and \<open>Sync_Approx_Theorems\<close>
    (\<open>approximate_time.hpp\<close>): both loops end, no assertion fails, order, bounds and optimality of what is
    published. \<open>Sync_Exact\<close> (\<open>exact_time.hpp\<close>): exactly the common stamps.
  \<^item> \<open>Node_Parameters\<close> and \<open>Node_Parameters_Theorems\<close> (\<open>node_parameters.cpp\<close>, the parameter services): atomic sets, the type
    invariant of the table.
  \<^item> \<open>Service_Bridge\<close> with \<open>Service_Bridge_Theorems\<close> (\<open>agnocast_service_bridge.cpp\<close>) against the documented state
    diagram; \<open>Bridge_Manager\<close>, \<open>Bridge_Sweep\<close>, \<open>Bridge_Invariant\<close> and \<open>Bridge_Theorems\<close> (\<open>agnocast_bridge_manager.cpp\<close>): the worker,
    together with the executor it starts and stops groups in; the groups are those of the active bridges, bridges
    follow demand, shadow nodes are exact.

  \<^bold>\<open>The thread configurator.\<close> \<open>Cie_Config\<close> and \<open>Cie_Yaml\<close> (\<open>sched_policy.cpp\<close>, \<open>thread_config.cpp\<close>): parsers and what
  they accept. \<open>Cie_Scan\<close> and \<open>Cie_Scan_Theorems\<close> (\<open>system_scan.cpp\<close>): what is read back from \<open>/proc\<close>.
  \<open>Cie_Node\<close>, \<open>Cie_Node_Inv\<close>, \<open>Cie_Node_Theorems\<close> and \<open>Cie_Node_Passes\<close> (\<open>thread_configurator_node.cpp\<close>): announcements, reloads,
  and the passes over kernel threads and interrupts, with what they issue and report. \<open>Cie_Startup\<close>
  (\<open>startup_checks.cpp\<close>, \<open>non_ros_thread_ipc.cpp\<close>): start-up checks, datagrams and the reader thread. \<open>Cie_Prerun\<close>
  (\<open>prerun_node.cpp\<close>): the template, and the start of the configurator on it.

  \<^bold>\<open>How the code is rendered.\<close> A struct or class is a record, a handler a function from the state to an error or a
  result and a state, and threads are steps of an inductive relation, as fine as the locks and atomic accesses of
  the code. Sequence numbers, addresses and counters whose width matters are words. Loops that the code does not bound
  are \<open>partial_function (option)\<close>, and that they return is proved: the virtual search and the main loop of the
  synchronizer, the probe loop of the node names, the drain loop of the exit worker. The receive loop has fuel, the number of executions of its task: \<open>n\<close> of them are
  shown to be enough for \<open>10 n\<close> unread messages. An assertion or an access the code takes for granted is a \<open>None\<close> that has to
  be excluded.

  \<^bold>\<open>What is a parameter.\<close> The outcome of each kernel allocation; the bucket functions of hash tables; the pools and process ids of the machine
  the module runs on; floating-point arithmetic (the scaled duration of the synchronizer, comparison of
  doubles in parameters); \<open>yaml-cpp\<close>, of which only the template theorem assumes anything, and that as the
  named predicate \<open>reads_back\<close>; the outcomes of system calls in the configurator and what \<open>/proc\<close> and \<open>/sys\<close> hold; the
  answers of the bridge loader and of the ROS 2 graph, which may change between two questions; what the other threads do between the phases
  of a reload, or between the two sections of the hand-over of exited processes.

  \<^bold>\<open>Where statements have limits.\<close> The wake-up theorems exclude new domain rules, reuse of an exited process's pid
  and publishers of depth zero (\<open>steady\<close>), which do break them. The turn of the bridge
  worker and a service bridge's tick are compared with the demand in a world that does not change meanwhile. Which callback groups hold
  entities of both rclcpp and Agnocast is fixed over a run of an executor. Sums of nanoseconds are taken not to overflow in
  timers and synchronizers.

  \<^bold>\<open>What is not modelled.\<close> KUnit tests, device and thread registration, log output and most copies between kernel and user space;
  shared memory set-up and process start; services and clients; construction of publishers and subscriptions as
  far as QoS overrides and type registries go; the spin loops of the multi-threaded executors; plugin loading,
  sockets and the epoll set-up of the bridge manager and of the announcements; node base and argument parsing, which are
  rcl's; tf2, diagnostics and vendored classes; component containers and command-line tools; the Rust and Python parts.
\<close>

end
